(* ===== verification/Prelude.thy ===== *)
theory Prelude
  imports Main "HOL-Library.Word" "HOL-Library.Monad_Syntax"
begin

text \<open>
  Shared vocabulary of the development: names for the machine integers of the Rust code,
  slices and bounds-checked buffer accesses (an access outside the buffer panics in Rust and
  is \<open>None\<close> here), the checked and saturating arithmetic the code calls, and the
  big-endian and little-endian byte images of words, with the lemmas the component theories
  rely on.  Machine integers are words (\<open>i32\<close> and \<open>i64\<close> are the same words, read
  with \<^const>\<open>sint\<close>); \<open>usize\<close> is \<^typ>\<open>nat\<close>, with the 64-bit bound written out
  where the code checks for overflow.
\<close>

unbundle bit_operations_syntax

type_synonym u8 = "8 word"
type_synonym u16 = "16 word"
type_synonym u32 = "32 word"
type_synonym u64 = "64 word"
type_synonym i32 = "32 word"
type_synonym i64 = "64 word"
type_synonym bytes = "8 word list"

text \<open>\<open>buf_simps\<close> collects the unfoldings of buffer accesses, \<open>byte_simps\<close> the facts on
  byte images of words.\<close>

named_theorems buf_simps
named_theorems byte_simps

section \<open>Bounds-checked buffers\<close>

definition subslice :: "nat \<Rightarrow> nat \<Rightarrow> 'a list \<Rightarrow> 'a list" where
  "subslice lo hi xs = take (hi - lo) (drop lo xs)"

definition buf_get :: "'a list \<Rightarrow> nat \<Rightarrow> 'a option" where
  "buf_get xs i = (if i < length xs then Some (xs ! i) else None)"

definition buf_set :: "'a list \<Rightarrow> nat \<Rightarrow> 'a \<Rightarrow> 'a list option" where
  "buf_set xs i v = (if i < length xs then Some (xs[i := v]) else None)"

text \<open>\<open>dst[off..off+len].copy_from_slice(src)\<close>: panics when the range leaves the buffer.\<close>

definition buf_write :: "'a list \<Rightarrow> nat \<Rightarrow> 'a list \<Rightarrow> 'a list option" where
  "buf_write xs off src =
     (if off + length src \<le> length xs
      then Some (take off xs @ src @ drop (off + length src) xs) else None)"

lemmas [buf_simps] = subslice_def buf_get_def buf_set_def buf_write_def

lemma length_subslice [simp]: "length (subslice lo hi xs) = min (hi - lo) (length xs - lo)"
  by (simp add: subslice_def min.commute)

lemma subslice_append_left: "hi \<le> length xs \<Longrightarrow> subslice lo hi (xs @ ys) = subslice lo hi xs"
  by (cases "lo \<le> hi") (auto simp: subslice_def)

lemma subslice_append_right:
  "length xs \<le> lo \<Longrightarrow> subslice lo hi (xs @ ys) = subslice (lo - length xs) (hi - length xs) ys"
  by (simp add: subslice_def)

lemma subslice_mid: "subslice (length xs) (length xs + length ys) (xs @ ys @ zs) = ys"
  by (simp add: subslice_def)

lemma nth_subslice: "i < hi - lo \<Longrightarrow> lo + i < length xs \<Longrightarrow> subslice lo hi xs ! i = xs ! (lo + i)"
  by (simp add: subslice_def add.commute)

lemma length_buf_set: "buf_set xs i v = Some ys \<Longrightarrow> length ys = length xs"
  by (auto simp: buf_set_def split: if_splits)

lemma length_buf_write: "buf_write xs off src = Some ys \<Longrightarrow> length ys = length xs"
  by (auto simp: buf_write_def split: if_splits)

lemma buf_write_subslice_same:
  "buf_write xs off src = Some ys \<Longrightarrow> subslice off (off + length src) ys = src"
  by (auto simp: buf_write_def subslice_def split: if_splits)

lemma buf_write_subslice_other:
  assumes "buf_write xs off src = Some ys" and "hi \<le> off \<or> off + length src \<le> lo"
  shows "subslice lo hi ys = subslice lo hi xs"
proof (rule nth_equalityI)
  show "length (subslice lo hi ys) = length (subslice lo hi xs)"
    using length_buf_write [OF assms(1)] by simp
next
  fix i assume "i < length (subslice lo hi ys)"
  then have i: "i < hi - lo" "lo + i < length ys" by auto
  have ys: "ys = take off xs @ src @ drop (off + length src) xs" and
    le: "off + length src \<le> length xs"
    using assms(1) by (auto simp: buf_write_def split: if_splits)
  have "ys ! (lo + i) = xs ! (lo + i)"
    using assms(2) i le unfolding ys by (auto simp: nth_append)
  then show "subslice lo hi ys ! i = subslice lo hi xs ! i"
    using i length_buf_write [OF assms(1)] by (simp add: nth_subslice)
qed

text \<open>\<open>put off src buf\<close> is the buffer after an in-range \<open>copy_from_slice\<close>; its rewrite
  rules evaluate a read of a buffer built by a chain of writes.\<close>

definition put :: "nat \<Rightarrow> 'a list \<Rightarrow> 'a list \<Rightarrow> 'a list" where
  "put off src xs = take off xs @ src @ drop (off + length src) xs"

lemma buf_write_put: "off + length src \<le> length xs \<Longrightarrow> buf_write xs off src = Some (put off src xs)"
  by (simp add: buf_write_def put_def)

lemma length_put [simp]: "off + length src \<le> length xs \<Longrightarrow> length (put off src xs) = length xs"
  by (simp add: put_def)

lemma nth_put:
  "off + length src \<le> length xs \<Longrightarrow>
   put off src xs ! i = (if off \<le> i \<and> i < off + length src then src ! (i - off) else xs ! i)"
  by (auto simp: put_def nth_append not_less)

lemma subslice_put_same:
  "off + length src \<le> length xs \<Longrightarrow> hi = off + length src \<Longrightarrow> subslice off hi (put off src xs) = src"
  by (simp add: put_def subslice_def)

lemma subslice_put_other:
  "off + length src \<le> length xs \<Longrightarrow> hi \<le> off \<or> off + length src \<le> lo \<Longrightarrow>
   subslice lo hi (put off src xs) = subslice lo hi xs"
  using buf_write_subslice_other [OF buf_write_put] by blast

lemma subslice_update_other:
  "i < lo \<or> hi \<le> i \<Longrightarrow> subslice lo hi (xs[i := v]) = subslice lo hi xs"
  by (auto simp: subslice_def drop_update_swap drop_update_cancel)
    (metis drop_update_swap le_cases not_le take_update_cancel diff_le_mono drop_update_cancel)

lemma subslice_split: "lo \<le> mid \<Longrightarrow> mid \<le> hi \<Longrightarrow> subslice lo hi xs = subslice lo mid xs @ subslice mid hi xs"
proof -
  assume "lo \<le> mid" "mid \<le> hi"
  then have "take (hi - lo) (drop lo xs) = take ((mid - lo) + (hi - mid)) (drop lo xs)" by simp
  also have "\<dots> = take (mid - lo) (drop lo xs) @ take (hi - mid) (drop mid xs)"
    using \<open>lo \<le> mid\<close> by (simp only: take_add) simp
  finally show ?thesis by (simp add: subslice_def)
qed

lemma put_subslice_id: "off + w \<le> length xs \<Longrightarrow> put off (subslice off (off + w) xs) xs = xs"
  by (rule nth_equalityI) (auto simp: nth_put nth_subslice)

lemma subslice_all: "length xs = n \<Longrightarrow> subslice 0 n xs = xs"
  by (simp add: subslice_def)

lemma subslice_single: "i < length xs \<Longrightarrow> subslice i (Suc i) xs = [xs ! i]"
  by (simp add: subslice_def take_Suc_conv_app_nth Cons_nth_drop_Suc [symmetric])

text \<open>Two buffers that agree on the pieces between consecutive cut points agree on the whole.\<close>

fun cuts_eq :: "nat \<Rightarrow> nat list \<Rightarrow> 'a list \<Rightarrow> 'a list \<Rightarrow> bool" where
  "cuts_eq lo [] xs ys = True"
| "cuts_eq lo (hi # cs) xs ys = (lo \<le> hi \<and> subslice lo hi xs = subslice lo hi ys \<and> cuts_eq hi cs xs ys)"

lemma cuts_eq_le: "cuts_eq lo cs xs ys \<Longrightarrow> lo \<le> last (lo # cs)"
proof (induction cs arbitrary: lo)
  case (Cons c cs)
  then have "lo \<le> c" "c \<le> last (c # cs)" by auto
  then show ?case by simp
qed simp

lemma cuts_eq_subslice: "cuts_eq lo cs xs ys \<Longrightarrow> subslice lo (last (lo # cs)) xs = subslice lo (last (lo # cs)) ys"
proof (induction cs arbitrary: lo)
  case (Cons c cs)
  then have c: "lo \<le> c" "c \<le> last (c # cs)" using cuts_eq_le [of c cs xs ys] by auto
  then have "subslice lo (last (c # cs)) zs = subslice lo c zs @ subslice c (last (c # cs)) zs" for zs :: "'a list"
    by (rule subslice_split)
  moreover have "subslice c (last (c # cs)) xs = subslice c (last (c # cs)) ys"
    using Cons.prems by (intro Cons.IH) simp
  ultimately show ?case using Cons.prems by simp
qed (simp add: subslice_def)

lemma cuts_eqI: "cuts_eq 0 cs xs ys \<Longrightarrow> last (0 # cs) = n \<Longrightarrow> length xs = n \<Longrightarrow> length ys = n \<Longrightarrow> xs = ys"
  using cuts_eq_subslice [of 0 cs xs ys] by (auto simp: subslice_def)

lemmas put_reads = subslice_put_same subslice_put_other subslice_update_other nth_put

lemma buf_set_put: "i < length xs \<Longrightarrow> buf_set xs i v = Some (put i [v] xs)"
  by (simp add: buf_set_def put_def upd_conv_take_nth_drop)

lemma subslice_2: "off + 2 \<le> length xs \<Longrightarrow> subslice off (off + 2) xs = [xs ! off, xs ! (off + 1)]"
  using subslice_split [of off "Suc off" "off + 2" xs] by (simp add: subslice_single numeral_2_eq_2)

lemma subslice_4:
  "off + 4 \<le> length xs \<Longrightarrow>
   subslice off (off + 4) xs = [xs ! off, xs ! (off + 1), xs ! (off + 2), xs ! (off + 3)]"
  using subslice_split [of off "off + 2" "off + 4" xs] subslice_2 [of off xs] subslice_2 [of "off + 2" xs]
  by (simp add: eval_nat_numeral)

text \<open>A record image is written field by field: \<open>put_fields\<close> performs the writes
  \<open>(offset, bytes)\<close> in order.  When the fields lie inside the buffer and do not overlap
  (\<open>fields_ok\<close>), each can be read back and nothing else changes.\<close>

definition put_fields :: "(nat \<times> 'a list) list \<Rightarrow> 'a list \<Rightarrow> 'a list" where
  "put_fields fs xs = fold (\<lambda>(off, src) buf. put off src buf) fs xs"

fun fields_ok :: "nat \<Rightarrow> nat \<Rightarrow> (nat \<times> 'a list) list \<Rightarrow> bool" where
  "fields_ok lo n [] = True"
| "fields_ok lo n ((off, src) # fs) = (lo \<le> off \<and> off + length src \<le> n \<and> fields_ok (off + length src) n fs)"

lemma put_fields_simps [simp]:
  "put_fields [] xs = xs" "put_fields ((off, src) # fs) xs = put_fields fs (put off src xs)"
  by (simp_all add: put_fields_def)

lemma length_put_fields [simp]: "fields_ok lo (length xs) fs \<Longrightarrow> length (put_fields fs xs) = length xs"
proof (induction fs arbitrary: lo xs)
  case (Cons f fs)
  obtain off src where f: "f = (off, src)" by (cases f)
  with Cons.prems have "off + length src \<le> length xs" by simp
  with Cons.IH [of "off + length src" "put off src xs"] Cons.prems f show ?case by simp
qed simp

lemma fields_ok_lower: "fields_ok lo n fs \<Longrightarrow> (off, src) \<in> set fs \<Longrightarrow> lo \<le> off \<and> off + length src \<le> n"
  by (induction lo n fs rule: fields_ok.induct) force+

lemma subslice_put_fields_outside:
  assumes "fields_ok fl (length xs) fs" and "\<And>off src. (off, src) \<in> set fs \<Longrightarrow> hi \<le> off \<or> off + length src \<le> lo"
  shows "subslice lo hi (put_fields fs xs) = subslice lo hi xs"
  using assms
proof (induction fs arbitrary: fl xs)
  case (Cons f fs)
  obtain off src where f: "f = (off, src)" by (cases f)
  with Cons.prems have le: "off + length src \<le> length xs" by simp
  have "subslice lo hi (put_fields fs (put off src xs)) = subslice lo hi (put off src xs)"
    using Cons.IH [of "off + length src" "put off src xs"] Cons.prems f le by simp
  also have "\<dots> = subslice lo hi xs"
    using Cons.prems(2) [of off src] le f by (intro subslice_put_other) auto
  finally show ?case using f by simp
qed simp

lemma subslice_put_fields:
  assumes "fields_ok lo (length xs) fs" and "(off, src) \<in> set fs" and "hi = off + length src"
  shows "subslice off hi (put_fields fs xs) = src"
  using assms
proof (induction fs arbitrary: lo xs)
  case (Cons f fs)
  obtain o' s' where f: "f = (o', s')" by (cases f)
  with Cons.prems have le: "o' + length s' \<le> length xs" by simp
  show ?case
  proof (cases "(off, src) \<in> set fs")
    case True
    then show ?thesis using Cons.IH [of "o' + length s'" "put o' s' xs"] Cons.prems f le by simp
  next
    case False
    with Cons.prems f have eq: "o' = off" "s' = src" by auto
    have "subslice off hi (put_fields fs (put off src xs)) = subslice off hi (put off src xs)"
      using Cons.prems(1,3) f eq le
      by (intro subslice_put_fields_outside [where fl = hi]) (auto dest: fields_ok_lower)
    also have "\<dots> = src" using le eq Cons.prems(3) by (intro subslice_put_same) auto
    finally show ?thesis using f eq by simp
  qed
qed simp

lemma nth_put_fields:
  assumes "fields_ok lo (length xs) fs" and "(off, [v]) \<in> set fs"
  shows "put_fields fs xs ! off = v"
proof -
  have "off < length xs" using fields_ok_lower [OF assms] by simp
  then have "subslice off (Suc off) (put_fields fs xs) = [put_fields fs xs ! off]"
    using assms(1) by (intro subslice_single) simp
  moreover have "subslice off (Suc off) (put_fields fs xs) = [v]"
    by (rule subslice_put_fields [OF assms]) simp
  ultimately show ?thesis by simp
qed

section \<open>Checked and saturating arithmetic\<close>

definition usize_max :: nat where
  "usize_max = 2 ^ 64 - 1"

definition usize_checked_add :: "nat \<Rightarrow> nat \<Rightarrow> nat option" where
  "usize_checked_add a b = (if a + b \<le> usize_max then Some (a + b) else None)"

definition usize_saturating_add :: "nat \<Rightarrow> nat \<Rightarrow> nat" where
  "usize_saturating_add a b = min (a + b) usize_max"

definition usize_checked_mul :: "nat \<Rightarrow> nat \<Rightarrow> nat option" where
  "usize_checked_mul a b = (if a * b \<le> usize_max then Some (a * b) else None)"

definition usize_saturating_mul :: "nat \<Rightarrow> nat \<Rightarrow> nat" where
  "usize_saturating_mul a b = min (a * b) usize_max"

definition sat_add :: "'a::len word \<Rightarrow> 'a word \<Rightarrow> 'a word" where
  "sat_add a b = (if unat a + unat b < 2 ^ LENGTH('a) then a + b else - 1)"

definition sat_mul :: "'a::len word \<Rightarrow> 'a word \<Rightarrow> 'a word" where
  "sat_mul a b = (if unat a * unat b < 2 ^ LENGTH('a) then a * b else - 1)"

definition sat_sub :: "'a::len word \<Rightarrow> 'a word \<Rightarrow> 'a word" where
  "sat_sub a b = (if a < b then 0 else a - b)"

definition checked_add :: "'a::len word \<Rightarrow> 'a word \<Rightarrow> 'a word option" where
  "checked_add a b = (if unat a + unat b < 2 ^ LENGTH('a) then Some (a + b) else None)"

lemma usize_checked_add_Some [simp]:
  "usize_checked_add a b = Some c \<longleftrightarrow> c = a + b \<and> a + b \<le> usize_max"
  by (auto simp: usize_checked_add_def)

lemma unat_add_small: "unat a + unat b < 2 ^ LENGTH('a) \<Longrightarrow> unat (a + b) = unat a + unat b"
  for a b :: "'a::len word"
  by (simp add: unat_word_ariths)

lemma checked_add_unat: "checked_add a b = Some c \<Longrightarrow> unat c = unat a + unat b"
  by (auto simp: checked_add_def unat_word_ariths split: if_splits)

lemma unat_sat_sub [simp]: "unat (sat_sub a b) = unat a - unat b"
  by (auto simp: sat_sub_def word_less_nat_alt unat_sub word_le_nat_alt not_less)

lemma unat_min [simp]: "unat (min a b) = min (unat a) (unat b)"
  by (simp add: min_def word_le_nat_alt)

lemma unat_sat_add: "unat (sat_add a b) = min (unat a + unat b) (2 ^ LENGTH('a) - 1)"
  for a b :: "'a::len word"
proof (cases "unat a + unat b < 2 ^ LENGTH('a)")
  case True
  then show ?thesis by (simp add: sat_add_def unat_add_small)
next
  case False
  then show ?thesis by (simp add: sat_add_def unsigned_minus_1_eq_mask mask_eq_exp_minus_1)
qed

lemma unat_u8_less: "unat w < 256" for w :: u8
  using unsigned_less [of w, where 'a = nat] by simp

lemma unat_u16_less: "unat w < 65536" for w :: u16
  using unsigned_less [of w, where 'a = nat] by simp

lemma unat_u32_less: "unat w < 4294967296" for w :: u32
  using unsigned_less [of w, where 'a = nat] by simp

lemma unat_u64_less: "unat w < 2 ^ 64" for w :: u64
  using unsigned_less [of w, where 'a = nat] by simp

lemma unat_ucast_widen:
  "LENGTH('a) \<le> LENGTH('b) \<Longrightarrow> unat (ucast w :: 'b::len word) = unat w" for w :: "'a::len word"
  by (simp add: unsigned_ucast_eq take_bit_nat_eq_self
      order_less_le_trans [OF unsigned_less power_increasing])

lemma unat_ucast_widen_simps [simp]:
  "unat (ucast a :: u16) = unat a" "unat (ucast a :: u32) = unat a" "unat (ucast a :: u64) = unat a"
  "unat (ucast b :: u32) = unat b" "unat (ucast b :: u64) = unat b" "unat (ucast c :: u64) = unat c"
  for a :: u8 and b :: u16 and c :: u32
  by (simp_all add: unat_ucast_widen)

lemma unat_word_of_nat: "n < 2 ^ LENGTH('a) \<Longrightarrow> unat (word_of_nat n :: 'a::len word) = n"
  by (simp add: unsigned_of_nat take_bit_nat_eq_self)

lemma take_bit_unat_self: "unat w < 2 ^ n \<Longrightarrow> take_bit n w = w" for w :: "'a::len word"
  by (simp add: word_unat_eq_iff unsigned_take_bit_eq take_bit_nat_eq_self)

lemma unat_take_bit_self_less: "take_bit n w = w \<Longrightarrow> unat w < 2 ^ n" for w :: "'a::len word"
proof -
  assume "take_bit n w = w"
  then have "unat w = take_bit n (unat w)" using unsigned_take_bit_eq [of n w, where 'a = nat] by simp
  also have "\<dots> < 2 ^ n" by (rule take_bit_nat_less_exp)
  finally show ?thesis .
qed

lemma and_0x7F: "w AND 0x7F = take_bit 7 w" for w :: "'a::len word"
proof -
  have "(0x7F :: 'a word) = mask 7" by (simp add: mask_eq_exp_minus_1)
  then show ?thesis by (simp only: take_bit_eq_mask)
qed

lemma and_0x80_eq_0: "w AND 0x80 = 0 \<longleftrightarrow> \<not> bit w 7" for w :: u8
  using and_exp_eq_0_iff_not_bit [of w 7] by simp

lemma less_0x80: "w < 0x80 \<longleftrightarrow> \<not> bit w 7" for w :: u8
proof -
  have "unat w < 256" using unsigned_less [of w] by simp
  then have "unat w div 128 = (if 128 \<le> unat w then 1 else 0)" by (auto simp: div_if)
  then have "odd (unat w div 128) \<longleftrightarrow> 128 \<le> unat w" by simp
  moreover have "bit w 7 \<longleftrightarrow> odd (unat w div 128)"
    using bit_unsigned_iff [where 'a = nat, of w 7] by (simp add: bit_iff_odd)
  ultimately show ?thesis by (auto simp: word_less_nat_alt)
qed

lemma bit_0x80: "bit (0x80 :: u8) n \<longleftrightarrow> n = 7"
  using bit_exp_iff [where 'a = u8, of 7 n] by auto

section \<open>Byte images of words\<close>

text \<open>\<open>to_be n w\<close> is the big-endian image of the low \<open>n\<close> bytes of \<open>w\<close>
  (\<open>w.to_be_bytes()\<close> when \<open>n\<close> is the width of the type), \<open>from_be\<close> the word a
  byte string denotes (\<open>from_be_bytes\<close>).\<close>

fun to_be :: "nat \<Rightarrow> 'a::len word \<Rightarrow> bytes" where
  "to_be 0 w = []"
| "to_be (Suc n) w = to_be n (drop_bit 8 w) @ [ucast w]"

definition from_be :: "bytes \<Rightarrow> 'a::len word" where
  "from_be bs = foldl (\<lambda>acc b. push_bit 8 acc OR ucast b) 0 bs"

definition to_le :: "nat \<Rightarrow> 'a::len word \<Rightarrow> bytes" where
  "to_le n w = rev (to_be n w)"

definition from_le :: "bytes \<Rightarrow> 'a::len word" where
  "from_le bs = from_be (rev bs)"

lemma length_to_be [simp]: "length (to_be n w) = n"
  by (induction n arbitrary: w) auto

lemma length_to_le [simp]: "length (to_le n w) = n"
  by (simp add: to_le_def)

lemma from_be_Nil [simp]: "from_be [] = 0"
  by (simp add: from_be_def)

lemma from_be_snoc [simp]: "from_be (bs @ [b]) = push_bit 8 (from_be bs) OR ucast b"
  by (simp add: from_be_def)

lemma from_be_to_be [byte_simps]: "from_be (to_be n w) = (take_bit (8 * n) w :: 'a::len word)"
proof (induction n arbitrary: w)
  case 0
  then show ?case by simp
next
  case (Suc n)
  show ?case
    by (rule bit_word_eqI)
      (auto simp: Suc bit_simps bit_ucast_iff not_less algebra_simps
        dest: le_Suc_ex)
qed

lemma bit_from_be_large: "8 * length bs \<le> i \<Longrightarrow> \<not> bit (from_be bs :: 'a::len word) i"
proof (induction bs arbitrary: i rule: rev_induct)
  case (snoc b bs)
  then show ?case by (auto simp: bit_simps dest: bit_imp_le_length)
qed simp

lemma bit_from_be_less: "bit (from_be bs :: 'a::len word) i \<Longrightarrow> i < 8 * length bs"
  using bit_from_be_large not_less by blast

lemma to_be_from_be [byte_simps]:
  assumes "8 * length bs \<le> LENGTH('a)"
  shows "to_be (length bs) (from_be bs :: 'a::len word) = bs"
  using assms
proof (induction bs rule: rev_induct)
  case (snoc b bs)
  have "drop_bit 8 (push_bit 8 (from_be bs) OR ucast b :: 'a word) = from_be bs"
    using snoc.prems
    by (intro bit_word_eqI) (force simp: bit_simps dest: bit_imp_le_length bit_from_be_less)
  moreover have "ucast (push_bit 8 (from_be bs) OR ucast b :: 'a word) = b"
    using snoc.prems by (intro bit_word_eqI) (auto simp: bit_simps)
  ultimately show ?case using snoc by simp
qed simp

lemma from_be_to_be_full [byte_simps]: "LENGTH('a) = 8 * n \<Longrightarrow> from_be (to_be n w) = (w :: 'a::len word)"
  by (metis from_be_to_be take_bit_word_eq_self order_refl)

lemma from_le_to_le_full [byte_simps]: "LENGTH('a) = 8 * n \<Longrightarrow> from_le (to_le n w) = (w :: 'a::len word)"
  by (simp add: from_le_def to_le_def from_be_to_be_full)

lemma to_le_from_le [byte_simps]:
  "8 * length bs \<le> LENGTH('a) \<Longrightarrow> to_le (length bs) (from_le bs :: 'a::len word) = bs"
  using to_be_from_be [where bs = "rev bs" and 'a = 'a] by (simp add: to_le_def from_le_def)

lemma from_be_to_be_cast: "from_be (to_be n w) = (ucast (take_bit (8 * n) w) :: 'b::len word)"
  for w :: "'a::len word"
proof (induction n arbitrary: w)
  case (Suc n)
  show ?case
    by (rule bit_word_eqI)
      (auto simp: Suc bit_simps bit_ucast_iff not_less algebra_simps dest: le_Suc_ex)
qed simp

lemma from_be_Cons: "from_be (b # bs) = push_bit (8 * length bs) (ucast b) OR (from_be bs :: 'a::len word)"
proof (induction bs rule: rev_induct)
  case (snoc c bs)
  have "from_be (b # bs @ [c]) = (push_bit 8 (from_be (b # bs)) OR ucast c :: 'a word)"
    using from_be_snoc [of "b # bs" c] by (simp only: append_Cons)
  then show ?case by (simp add: snoc push_bit_or algebra_simps or.assoc del: push_bit_numeral)
qed (simp add: from_be_def)

lemma hd_to_be: "0 < n \<Longrightarrow> to_be n w ! 0 = ucast (drop_bit (8 * (n - 1)) w)"
proof (induction n arbitrary: w)
  case (Suc n)
  show ?case
  proof (cases n)
    case (Suc m)
    have "(to_be n (drop_bit 8 w) @ [ucast w]) ! 0 = to_be n (drop_bit 8 w) ! 0"
      using Suc by (simp only: nth_append length_to_be) simp
    then show ?thesis using Suc.IH [of "drop_bit 8 w"] Suc by (simp add: algebra_simps)
  qed simp
qed simp

lemma drop_to_be: "m \<le> n \<Longrightarrow> drop (n - m) (to_be n w) = to_be m w"
proof (induction n arbitrary: m w)
  case (Suc n)
  then show ?case by (cases m) (auto simp: Suc_diff_le)
qed simp

lemma bit_from_be_to_be:
  "bit (from_be (to_be n v) :: 'b::len word) i \<longleftrightarrow> i < LENGTH('b) \<and> i < 8 * n \<and> bit v i" for v :: "'a::len word"
  by (auto simp: from_be_to_be_cast bit_ucast_iff bit_take_bit_iff dest: bit_imp_le_length)

section \<open>Fixed-width fields\<close>

text \<open>The contract of an encoded field: a fixed width, and a decoder and an encoder that are
  inverse to each other.  What a reader of a buffer gets after a field was written follows once
  for all encodings.\<close>

locale fixed_field =
  fixes width :: nat and enc :: "'v \<Rightarrow> bytes" and dec :: "bytes \<Rightarrow> 'v"
  assumes length_enc: "length (enc x) = width"
    and dec_enc: "dec (enc x) = x"
    and enc_dec: "length bs = width \<Longrightarrow> enc (dec bs) = bs"
begin

lemma enc_inject: "enc x = enc y \<longleftrightarrow> x = y"
proof
  assume "enc x = enc y"
  then have "dec (enc x) = dec (enc y)" by (rule arg_cong)
  then show "x = y" unfolding dec_enc .
qed simp

lemma field_read_back:
  assumes "off + width \<le> length buf"
  shows "dec (subslice off (off + width) (put off (enc x) buf)) = x"
proof -
  have "subslice off (off + width) (put off (enc x) buf) = enc x"
    using assms by (intro subslice_put_same) (simp_all only: length_enc)
  then show ?thesis by (simp only: dec_enc)
qed

lemma field_rewrite:
  "off + width \<le> length buf \<Longrightarrow> put off (enc (dec (subslice off (off + width) buf))) buf = buf"
  using enc_dec [of "subslice off (off + width) buf"] by (simp add: put_subslice_id)

end

lemma be_field:
  assumes "LENGTH('a::len) = 8 * n"
  shows "fixed_field n (to_be n) (from_be :: bytes \<Rightarrow> 'a word)"
proof
  fix bs :: bytes assume "length bs = n"
  then show "to_be n (from_be bs :: 'a word) = bs"
    using to_be_from_be [where 'a = 'a, of bs] assms by simp
qed (simp_all add: from_be_to_be_full assms)

lemma le_field:
  assumes "LENGTH('a::len) = 8 * n"
  shows "fixed_field n (to_le n) (from_le :: bytes \<Rightarrow> 'a word)"
proof
  fix bs :: bytes assume "length bs = n"
  then show "to_le n (from_le bs :: 'a word) = bs"
    using to_le_from_le [where 'a = 'a, of bs] assms by simp
qed (simp_all add: from_le_to_le_full assms)

interpretation u16_be: fixed_field 2 "to_be 2" "from_be :: bytes \<Rightarrow> u16"
  by (rule be_field) simp

interpretation u32_be: fixed_field 4 "to_be 4" "from_be :: bytes \<Rightarrow> u32"
  by (rule be_field) simp

interpretation u64_be: fixed_field 8 "to_be 8" "from_be :: bytes \<Rightarrow> u64"
  by (rule be_field) simp

interpretation u16_le: fixed_field 2 "to_le 2" "from_le :: bytes \<Rightarrow> u16"
  by (rule le_field) simp

interpretation u32_le: fixed_field 4 "to_le 4" "from_le :: bytes \<Rightarrow> u32"
  by (rule le_field) simp

interpretation u64_le: fixed_field 8 "to_le 8" "from_le :: bytes \<Rightarrow> u64"
  by (rule le_field) simp

lemmas field_laws =
  u16_be.dec_enc u32_be.dec_enc u64_be.dec_enc u16_le.dec_enc u32_le.dec_enc u64_le.dec_enc
  u16_be.enc_dec u32_be.enc_dec u64_be.enc_dec u16_le.enc_dec u32_le.enc_dec u64_le.enc_dec

end
