(* ===== verification/SerialType.thy ===== *)
theory SerialType
  imports Prelude
begin

text \<open>
  \<open>crates/fsqlite-types/src/serial_type.rs\<close>: the serial types of SQLite records and the
  variable-length integers.  The reader \<open>read_varint\<close> is unrolled by hand in the source
  and is translated as it is written; \<open>vread\<close> is the loop it unrolls, and
  \<open>varint_bytes\<close> the byte string \<open>write_varint\<close> is meant to produce.
\<close>

section \<open>Serial types\<close>

definition serial_type_len :: "u64 \<Rightarrow> u64 option" where
  "serial_type_len st =
     (if st \<in> {0, 8, 9, 10, 11} then Some 0
      else if st = 1 then Some 1
      else if st = 2 then Some 2
      else if st = 3 then Some 3
      else if st = 4 then Some 4
      else if st = 5 then Some 6
      else if st = 6 \<or> st = 7 then Some 8
      else if st mod 2 = 0 then Some ((st - 12) div 2)
      else Some ((st - 13) div 2))"

datatype SerialTypeClass =
  ClassNull | ClassInteger | ClassFloat | ClassZero | ClassOne | ClassReserved | ClassBlob | ClassText

definition classify_serial_type :: "u64 \<Rightarrow> SerialTypeClass" where
  "classify_serial_type st =
     (if st = 0 then ClassNull
      else if 1 \<le> st \<and> st \<le> 6 then ClassInteger
      else if st = 7 then ClassFloat
      else if st = 8 then ClassZero
      else if st = 9 then ClassOne
      else if st = 10 \<or> st = 11 then ClassReserved
      else if st mod 2 = 0 then ClassBlob
      else ClassText)"

definition serial_type_for_integer :: "i64 \<Rightarrow> u64" where
  "serial_type_for_integer value =
     (let u = (if sint value < 0 then NOT value else value) in
      if u \<le> 127 then (if value = 0 then 8 else if value = 1 then 9 else 1)
      else if u \<le> 32767 then 2
      else if u \<le> 8388607 then 3
      else if u \<le> 2147483647 then 4
      else if u \<le> 0x00007FFFFFFFFFFF then 5
      else 6)"

definition integer_serial_type_and_len :: "i64 \<Rightarrow> u64 \<times> nat" where
  "integer_serial_type_and_len value =
     (let u = (if sint value < 0 then NOT value else value) in
      if u \<le> 127 then (if value = 0 then (8, 0) else if value = 1 then (9, 0) else (1, 1))
      else if u \<le> 32767 then (2, 2)
      else if u \<le> 8388607 then (3, 3)
      else if u \<le> 2147483647 then (4, 4)
      else if u \<le> 0x00007FFFFFFFFFFF then (5, 6)
      else (6, 8))"

definition serial_type_for_text :: "u64 \<Rightarrow> u64" where
  "serial_type_for_text len = sat_add (sat_mul len 2) 13"

definition serial_type_for_blob :: "u64 \<Rightarrow> u64" where
  "serial_type_for_blob len = sat_add (sat_mul len 2) 12"

definition SMALL_TYPE_SIZES :: "u8 list" where
  "SMALL_TYPE_SIZES =
     map (\<lambda>i. case serial_type_len (word_of_nat i) of
                Some n \<Rightarrow> if n \<le> 255 then ucast n else 0
              | None \<Rightarrow> 0) [0..<128]"

section \<open>Varints\<close>

definition read_varint :: "bytes \<Rightarrow> (u64 \<times> nat) option" where
  "read_varint buf =
     (if buf = [] then None else
      let first = buf ! 0 in
      if first < 0x80 then Some (ucast first, 1) else
      if length buf \<ge> 2 \<and> (buf ! 1) AND 0x80 = 0
      then Some (push_bit 7 (ucast (first AND 0x7F)) OR ucast (buf ! 1), 2) else
      let value = ucast (first AND 0x7F) in
      if length buf < 2 then None else
      let value = push_bit 7 value OR ucast (buf ! 1 AND 0x7F) in
      if length buf < 3 then None else
      if (buf ! 2) AND 0x80 = 0 then Some (push_bit 7 value OR ucast (buf ! 2), 3) else
      let value = push_bit 7 value OR ucast (buf ! 2 AND 0x7F) in
      if length buf < 4 then None else
      if (buf ! 3) AND 0x80 = 0 then Some (push_bit 7 value OR ucast (buf ! 3), 4) else
      let value = push_bit 7 value OR ucast (buf ! 3 AND 0x7F) in
      if length buf < 5 then None else
      if (buf ! 4) AND 0x80 = 0 then Some (push_bit 7 value OR ucast (buf ! 4), 5) else
      let value = push_bit 7 value OR ucast (buf ! 4 AND 0x7F) in
      if length buf < 6 then None else
      if (buf ! 5) AND 0x80 = 0 then Some (push_bit 7 value OR ucast (buf ! 5), 6) else
      let value = push_bit 7 value OR ucast (buf ! 5 AND 0x7F) in
      if length buf < 7 then None else
      if (buf ! 6) AND 0x80 = 0 then Some (push_bit 7 value OR ucast (buf ! 6), 7) else
      let value = push_bit 7 value OR ucast (buf ! 6 AND 0x7F) in
      if length buf < 8 then None else
      if (buf ! 7) AND 0x80 = 0 then Some (push_bit 7 value OR ucast (buf ! 7), 8) else
      let value = push_bit 7 value OR ucast (buf ! 7 AND 0x7F) in
      if length buf > 8 then Some (push_bit 8 value OR ucast (buf ! 8), 9) else None)"

definition varint_len :: "u64 \<Rightarrow> nat" where
  "varint_len value =
     (if value \<le> 0x7F then 1
      else if value \<le> 0x3FFF then 2
      else if value \<le> 0x001FFFFF then 3
      else if value \<le> 0x0FFFFFFF then 4
      else if value \<le> 0x07FFFFFFFF then 5
      else if value \<le> 0x03FFFFFFFFFF then 6
      else if value \<le> 0x01FFFFFFFFFFFF then 7
      else if value \<le> 0xFFFFFFFFFFFFFF then 8
      else 9)"

text \<open>The two loops of \<open>write_varint\<close>: the index runs down to 0, seven bits at a time.\<close>

fun write_varint_hi :: "nat \<Rightarrow> u64 \<Rightarrow> bytes \<Rightarrow> bytes option" where
  "write_varint_hi 0 v buf = Some buf"
| "write_varint_hi (Suc i) v buf =
     do { buf' \<leftarrow> buf_set buf i ((ucast v AND 0x7F) OR 0x80);
          write_varint_hi i (drop_bit 7 v) buf' }"

fun write_varint_mid :: "nat \<Rightarrow> nat \<Rightarrow> u64 \<Rightarrow> bytes \<Rightarrow> bytes option" where
  "write_varint_mid len 0 v buf = Some buf"
| "write_varint_mid len (Suc i) v buf =
     do { buf' \<leftarrow> buf_set buf i (if i = len - 1 then ucast v AND 0x7F
                                 else (ucast v AND 0x7F) OR 0x80);
          write_varint_mid len i (drop_bit 7 v) buf' }"

definition write_varint :: "bytes \<Rightarrow> u64 \<Rightarrow> (bytes \<times> nat) option" where
  "write_varint buf value =
     (let len = varint_len value in
      if len = 1 then do { buf' \<leftarrow> buf_set buf 0 (ucast value); Some (buf', len) }
      else if len = 9 then
        do { buf' \<leftarrow> write_varint_hi 8 (drop_bit 8 value) buf;
             buf'' \<leftarrow> buf_set buf' 8 (ucast value);
             Some (buf'', len) }
      else do { buf' \<leftarrow> write_varint_mid len len value buf; Some (buf', len) })"

section \<open>Reference reader and writer\<close>

fun vread :: "nat \<Rightarrow> u64 \<Rightarrow> bytes \<Rightarrow> (u64 \<times> nat) option" where
  "vread k acc [] = None"
| "vread k acc (b # bs) =
     (if k = 8 then Some (push_bit 8 acc OR ucast b, 9)
      else if b AND 0x80 = 0 then Some (push_bit 7 acc OR ucast b, Suc k)
      else vread (Suc k) (push_bit 7 acc OR ucast (b AND 0x7F)) bs)"

fun conts :: "nat \<Rightarrow> u64 \<Rightarrow> bytes" where
  "conts 0 w = []"
| "conts (Suc n) w = conts n (drop_bit 7 w) @ [(ucast w AND 0x7F) OR 0x80]"

definition varint_bytes :: "u64 \<Rightarrow> bytes" where
  "varint_bytes v =
     (let len = varint_len v in
      if len = 9 then conts 8 (drop_bit 8 v) @ [ucast v]
      else conts (len - 1) (drop_bit 7 v) @ [ucast v AND 0x7F])"

lemma varint_len_range: "1 \<le> varint_len v" "varint_len v \<le> 9"
  by (simp_all add: varint_len_def)

lemma length_conts [simp]: "length (conts n w) = n"
  by (induction n arbitrary: w) auto

lemma length_varint_bytes [simp]: "length (varint_bytes v) = varint_len v"
  using varint_len_range(1) [of v] by (auto simp: varint_bytes_def Let_def)

lemma write_varint_hi_conts:
  "n \<le> length buf \<Longrightarrow> write_varint_hi n v buf = Some (conts n v @ drop n buf)"
proof (induction n arbitrary: v buf)
  case (Suc n)
  then have "drop n (buf[n := x]) = x # drop (Suc n) buf" for x
    by (simp add: Cons_nth_drop_Suc [symmetric])
  with Suc show ?case by (simp add: buf_set_def)
qed simp

lemma write_varint_mid_conts:
  "n < len \<Longrightarrow> n \<le> length buf \<Longrightarrow> write_varint_mid len n v buf = Some (conts n v @ drop n buf)"
proof (induction n arbitrary: v buf)
  case (Suc n)
  then have "drop n (buf[n := x]) = x # drop (Suc n) buf" for x
    by (simp add: Cons_nth_drop_Suc [symmetric])
  with Suc show ?case by (auto simp: buf_set_def)
qed simp

lemma varint_len_1_iff: "varint_len v = Suc 0 \<longleftrightarrow> v \<le> 0x7F"
  by (simp add: varint_len_def)

lemma varint_len_bound: "varint_len v < 9 \<Longrightarrow> unat v < 2 ^ (7 * varint_len v)"
  by (auto simp: varint_len_def word_le_nat_alt split: if_splits)

lemma ucast_low7: "v \<le> 0x7F \<Longrightarrow> (ucast v :: u8) AND 0x7F = ucast (v :: u64)"
proof -
  assume "v \<le> 0x7F"
  then have "take_bit 7 v = v" by (intro take_bit_unat_self) (simp add: word_le_nat_alt)
  then have "ucast (take_bit 7 v) = (ucast v :: u8)" by simp
  moreover have "(ucast (take_bit 7 v) :: u8) = take_bit 7 (ucast v)"
    by (rule bit_word_eqI) (auto simp: bit_simps)
  ultimately show ?thesis by (simp add: and_0x7F)
qed

lemma write_varint_refines:
  assumes "varint_len v \<le> length buf"
  shows "write_varint buf v = Some (varint_bytes v @ drop (varint_len v) buf, varint_len v)"
proof -
  obtain l where l: "varint_len v = Suc l" "l \<le> 8"
    using varint_len_range [of v] by (cases "varint_len v") auto
  then consider "varint_len v = 1" | "varint_len v = 9" |
    n where "varint_len v = Suc (Suc n)" "varint_len v < 9"
    by (cases l) force+
  then show ?thesis
  proof cases
    case 1
    with assms obtain b bs where "buf = b # bs" by (cases buf) auto
    with 1 show ?thesis
      by (simp add: write_varint_def varint_bytes_def buf_set_def)
        (simp add: ucast_low7 varint_len_1_iff)
  next
    case 2
    with assms have "drop 8 buf = buf ! 8 # drop 9 buf"
      using Cons_nth_drop_Suc [of 8 buf] by simp
    with 2 assms show ?thesis
      by (simp add: write_varint_def varint_bytes_def write_varint_hi_conts buf_set_def
          list_update_append)
  next
    case 3
    then have "write_varint_mid (Suc (Suc n)) (Suc n) (drop_bit 7 v) (buf[Suc n := b]) =
        Some (conts (Suc n) (drop_bit 7 v) @ drop (Suc n) (buf[Suc n := b]))" for b
      using assms by (intro write_varint_mid_conts) auto
    moreover have "drop (Suc n) (buf[Suc n := b]) = b # drop (Suc (Suc n)) buf" for b
      using assms 3 by (simp add: Cons_nth_drop_Suc [symmetric])
    ultimately show ?thesis
      using 3 assms by (simp add: write_varint_def varint_bytes_def buf_set_def)
  qed
qed

lemma read_varint_vread: "read_varint buf = vread 0 0 buf"
proof -
  consider (long) a b c d e f g h i rest where "buf = a # b # c # d # e # f # g # h # i # rest"
    | (short) "length buf \<le> 8"
    by (cases "length buf \<le> 8") (auto simp: not_le numeral_eq_Suc Suc_le_length_iff less_eq_Suc_le)
  then show ?thesis
  proof cases
    case long
    then show ?thesis
      by (simp add: read_varint_def Let_def and_0x80_eq_0 less_0x80)
  next
    case short
    then consider "buf = []" | a where "buf = [a]" | a b where "buf = [a, b]"
      | a b c where "buf = [a, b, c]" | a b c d where "buf = [a, b, c, d]"
      | a b c d e where "buf = [a, b, c, d, e]" | a b c d e f where "buf = [a, b, c, d, e, f]"
      | a b c d e f g where "buf = [a, b, c, d, e, f, g]"
      | a b c d e f g h where "buf = [a, b, c, d, e, f, g, h]"
      by (auto simp: le_Suc_eq length_Suc_conv numeral_eq_Suc)
    then show ?thesis
      by cases (simp_all add: read_varint_def Let_def and_0x80_eq_0 less_0x80)
  qed
qed

lemma cont_byte:
  "\<not> ((ucast w AND 0x7F) OR 0x80 :: u8) AND 0x80 = 0"
  "((ucast w AND 0x7F) OR 0x80 :: u8) AND 0x7F = ucast (take_bit 7 w)" for w :: u64
proof -
  show "\<not> ((ucast w AND 0x7F) OR 0x80 :: u8) AND 0x80 = 0"
    by (simp add: and_0x80_eq_0 bit_or_iff bit_0x80)
  show "((ucast w AND 0x7F) OR 0x80 :: u8) AND 0x7F = ucast (take_bit 7 w)"
    by (rule bit_word_eqI) (auto simp: and_0x7F bit_simps bit_0x80)
qed

lemma varint_step:
  "(push_bit (7 + m) acc OR push_bit 7 (take_bit m (drop_bit 7 w))) OR ucast (ucast (take_bit 7 w) :: u8) =
   push_bit (7 + m) acc OR take_bit (7 + m) w" for w acc :: u64
  by (rule bit_word_eqI) (auto simp: bit_simps)

lemma vread_conts:
  "k + n \<le> 8 \<Longrightarrow>
   vread k acc (conts n w @ rest) = vread (k + n) (push_bit (7 * n) acc OR take_bit (7 * n) w) rest"
proof (induction n arbitrary: w rest)
  case (Suc n)
  then show ?case
    by (simp add: cont_byte varint_step del: push_bit_numeral)
qed simp

lemma vread_varint_bytes: "vread 0 0 (varint_bytes v @ rest) = Some (v, varint_len v)"
proof (cases "varint_len v = 9")
  case True
  have "vread 0 0 (varint_bytes v @ rest) =
      vread 8 (take_bit 56 (drop_bit 8 v)) (ucast v # rest)"
    using vread_conts [of 0 8 0 "drop_bit 8 v" "ucast v # rest"] True
    by (simp add: varint_bytes_def)
  also have "\<dots> = Some (push_bit 8 (take_bit 56 (drop_bit 8 v)) OR ucast (ucast v :: u8), 9)"
    by simp
  also have "push_bit 8 (take_bit 56 (drop_bit 8 v)) OR ucast (ucast v :: u8) = v"
    by (rule bit_word_eqI) (auto simp: bit_simps)
  finally show ?thesis using True by simp
next
  case False
  then obtain n where n: "varint_len v = Suc n" "n < 8"
    using varint_len_range [of v] by (cases "varint_len v") auto
  have fin: "\<not> bit (ucast v AND 0x7F :: u8) 7" by (simp add: and_0x7F bit_simps)
  have "vread 0 0 (varint_bytes v @ rest) =
      vread n (take_bit (7 * n) (drop_bit 7 v)) ((ucast v AND 0x7F) # rest)"
    using vread_conts [of 0 n 0 "drop_bit 7 v" "(ucast v AND 0x7F) # rest"] n
    by (simp add: varint_bytes_def)
  also have "\<dots> = Some (push_bit 7 (take_bit (7 * n) (drop_bit 7 v)) OR ucast (ucast v AND 0x7F :: u8), Suc n)"
    using n fin by (simp add: and_0x80_eq_0)
  also have "push_bit 7 (take_bit (7 * n) (drop_bit 7 v)) OR ucast (ucast v AND 0x7F :: u8) =
      take_bit (7 * Suc n) v"
    by (rule bit_word_eqI) (auto simp: bit_simps and_0x7F)
  also have "take_bit (7 * Suc n) v = v"
    using varint_len_bound [of v] n by (intro take_bit_unat_self) simp
  finally show ?thesis using n by simp
qed

lemma read_varint_bytes [simp]: "read_varint (varint_bytes v @ rest) = Some (v, varint_len v)"
  by (simp add: read_varint_vread vread_varint_bytes)

lemma vread_range:
  "k \<le> 8 \<Longrightarrow> vread k acc buf = Some (v, n) \<Longrightarrow> k < n \<and> n \<le> 9 \<and> n \<le> k + length buf"
proof (induction buf arbitrary: k acc)
  case (Cons b bs)
  show ?case using Cons.IH [of "Suc k"] Cons.prems by (fastforce split: if_splits)
qed simp

lemma vread_prefix:
  "k \<le> 8 \<Longrightarrow> vread k acc buf = Some (v, n) \<Longrightarrow> vread k acc (take (n - k) buf @ rest) = Some (v, n)"
proof (induction buf arbitrary: k acc)
  case (Cons b bs)
  have "k < n" using vread_range Cons.prems by blast
  then have "take (n - k) (b # bs) = b # take (n - Suc k) bs" by (simp add: Suc_diff_Suc take_Cons')
  then show ?case using Cons.IH [of "Suc k"] Cons.prems by (auto split: if_splits)
qed simp

lemma unat_shift7_bound:
  fixes b :: u8
  assumes "unat acc < 2 ^ (7 * k)" and "k < 8"
  shows "unat (push_bit 7 acc OR ucast (take_bit 7 b) :: u64) < 2 ^ (7 * Suc k)"
proof -
  have "take_bit (7 * k) acc = acc" by (rule take_bit_unat_self [OF assms(1)])
  then have acc: "bit acc i \<Longrightarrow> i < 7 * k" for i by (metis bit_take_bit_iff)
  have "take_bit (7 * Suc k) (push_bit 7 acc OR ucast (take_bit 7 b) :: u64) =
      push_bit 7 acc OR ucast (take_bit 7 b)"
    by (rule bit_word_eqI) (auto simp: bit_simps dest: acc)
  then show ?thesis by (rule unat_take_bit_self_less)
qed

lemma vread_value_bound:
  "unat acc < 2 ^ (7 * k) \<Longrightarrow> k \<le> 8 \<Longrightarrow> vread k acc buf = Some (v, n) \<Longrightarrow> n < 9 \<Longrightarrow>
   unat v < 2 ^ (7 * n)"
proof (induction buf arbitrary: k acc)
  case (Cons b bs)
  show ?case
  proof (cases "k = 8")
    case False
    with Cons.prems have k: "k < 8" by simp
    have low: "\<not> bit b 7 \<Longrightarrow> take_bit 7 b = b"
      by (intro take_bit_unat_self) (simp flip: less_0x80 add: word_less_nat_alt)
    note bnd = unat_shift7_bound [OF Cons.prems(1) k, of b]
    show ?thesis
      using Cons.prems Cons.IH [of "push_bit 7 acc OR ucast (take_bit 7 b)" "Suc k"] bnd low k
      by (auto simp: and_0x80_eq_0 and_0x7F split: if_splits)
  qed (use Cons.prems in simp)
qed simp

lemma varint_len_le: "unat v < 2 ^ (7 * n) \<Longrightarrow> 1 \<le> n \<Longrightarrow> n < 9 \<Longrightarrow> varint_len v \<le> n"
proof -
  assume v: "unat v < 2 ^ (7 * n)" and n: "1 \<le> n" "n < 9"
  then have "n \<in> {1, 2, 3, 4, 5, 6, 7, 8}" by auto
  then show ?thesis using v by (auto simp: varint_len_def word_le_nat_alt)
qed

lemma vread_None: "vread k acc buf = None \<longleftrightarrow> length buf + k < 9 \<and> (\<forall>b \<in> set buf. bit b 7)"
  if "k \<le> 8"
  using that
proof (induction buf arbitrary: k acc)
  case (Cons b bs)
  then show ?case
    using Cons.IH [of "Suc k"] by (auto simp: and_0x80_eq_0)
qed simp

section \<open>Width of integers\<close>

text \<open>The magnitude test of the source: complementing a negative value makes the comparison
  with \<open>2 ^ k - 1\<close> a two-sided range test.\<close>

definition magnitude :: "i64 \<Rightarrow> u64" where
  "magnitude v = (if sint v < 0 then NOT v else v)"

lemma sint_complement: "sint (NOT v) = - sint v - 1" for v :: i64
  by (metis bit.xor_one_right decr_eq_not_minus signed_minus_1 signed_xor_eq verit_minus_simplify(4))

lemma uint_eq_sint: "0 \<le> sint w \<Longrightarrow> uint w = sint w" for w :: i64
  using sint_lt [of w] by (simp add: uint_sint take_bit_int_eq_self)

lemma uint_magnitude: "uint (magnitude v) = (if sint v < 0 then - sint v - 1 else sint v)"
  using uint_eq_sint [of v] uint_eq_sint [of "NOT v"]
  by (auto simp: magnitude_def sint_complement)

lemma magnitude_le: "magnitude v \<le> c \<longleftrightarrow> - uint c - 1 \<le> sint v \<and> sint v \<le> uint c"
  using uint_ge_0 [of c] by (auto simp: word_le_def uint_magnitude)

text \<open>\<open>fits_width n v\<close>: the \<open>n\<close>-byte two's complement field can hold \<open>v\<close>; no byte at all
  is needed for the two constants that have a serial type of their own.\<close>

definition fits_width :: "nat \<Rightarrow> i64 \<Rightarrow> bool" where
  "fits_width n v =
     (if n = 0 then v = 0 \<or> v = 1 else - (2 ^ (8 * n - 1)) \<le> sint v \<and> sint v < 2 ^ (8 * n - 1))"

lemma magnitude_fits:
  "magnitude v \<le> 127 \<longleftrightarrow> fits_width 1 v" "magnitude v \<le> 32767 \<longleftrightarrow> fits_width 2 v"
  "magnitude v \<le> 8388607 \<longleftrightarrow> fits_width 3 v" "magnitude v \<le> 2147483647 \<longleftrightarrow> fits_width 4 v"
  "magnitude v \<le> 0x00007FFFFFFFFFFF \<longleftrightarrow> fits_width 6 v"
  by (auto simp: magnitude_le fits_width_def)

lemma integer_serial_type_and_len_fits:
  "integer_serial_type_and_len v =
     (if fits_width 1 v then (if v = 0 then (8, 0) else if v = 1 then (9, 0) else (1, 1))
      else if fits_width 2 v then (2, 2)
      else if fits_width 3 v then (3, 3)
      else if fits_width 4 v then (4, 4)
      else if fits_width 6 v then (5, 6)
      else (6, 8))"
  by (simp only: integer_serial_type_and_len_def magnitude_fits [symmetric] magnitude_def Let_def)

lemma serial_type_for_integer_eq: "serial_type_for_integer v = fst (integer_serial_type_and_len v)"
  by (simp add: serial_type_for_integer_def integer_serial_type_and_len_def Let_def)

lemma fits_width_const [simp]: "fits_width (Suc 0) 0" "fits_width (Suc 0) 1"
  by (simp_all add: fits_width_def)

lemma fits_width_8: "fits_width 8 v"
  using sint_ge [of v] sint_lt [of v] by (simp add: fits_width_def)

lemma integer_serial_cases:
  obtains "v = 0" "integer_serial_type_and_len v = (8, 0)"
  | "v = 1" "integer_serial_type_and_len v = (9, 0)"
  | "v \<noteq> 0" "v \<noteq> 1" "integer_serial_type_and_len v = (1, 1)" "fits_width 1 v"
  | "v \<noteq> 0" "v \<noteq> 1" "integer_serial_type_and_len v = (2, 2)" "fits_width 2 v" "\<not> fits_width 1 v"
  | "v \<noteq> 0" "v \<noteq> 1" "integer_serial_type_and_len v = (3, 3)" "fits_width 3 v" "\<not> fits_width 2 v"
  | "v \<noteq> 0" "v \<noteq> 1" "integer_serial_type_and_len v = (4, 4)" "fits_width 4 v" "\<not> fits_width 3 v"
  | "v \<noteq> 0" "v \<noteq> 1" "integer_serial_type_and_len v = (5, 6)" "fits_width 6 v" "\<not> fits_width 4 v"
  | "v \<noteq> 0" "v \<noteq> 1" "integer_serial_type_and_len v = (6, 8)" "fits_width 8 v" "\<not> fits_width 6 v"
  by (cases "v = 0 \<or> v = 1"; cases "fits_width 1 v"; cases "fits_width 2 v"; cases "fits_width 3 v";
      cases "fits_width 4 v"; cases "fits_width 6 v")
    (auto simp: integer_serial_type_and_len_fits fits_width_8)

lemma fits_width_mono: "fits_width m v \<Longrightarrow> 0 < n \<Longrightarrow> m \<le> n \<Longrightarrow> fits_width n v"
proof -
  assume m: "fits_width m v" and n: "0 < n" "m \<le> n"
  show ?thesis
  proof (cases "m = 0")
    case True
    have "(1 :: int) < 2 ^ (8 * n - 1)" using n by (intro one_less_power) auto
    moreover have "- 1 \<le> (2 :: int) ^ (8 * n - Suc 0)" by (rule order_trans [of _ 0]) simp_all
    ultimately show ?thesis using m n True by (auto simp: fits_width_def)
  next
    case False
    have "(2 :: int) ^ (8 * m - 1) \<le> 2 ^ (8 * n - 1)" using n by (intro power_increasing) auto
    moreover have "- (2 ^ (8 * m - 1)) \<le> sint v" "sint v < 2 ^ (8 * m - 1)"
      using m False by (simp_all add: fits_width_def)
    ultimately have "- (2 ^ (8 * n - 1)) \<le> sint v \<and> sint v < 2 ^ (8 * n - 1)" by linarith
    then show ?thesis using n by (simp add: fits_width_def)
  qed
qed

lemma unat_serial_type_for:
  assumes "unat len < 2 ^ 63 - 6"
  shows "unat (serial_type_for_text len) = 2 * unat len + 13"
    and "unat (serial_type_for_blob len) = 2 * unat len + 12"
  using assms
  by (simp_all add: serial_type_for_text_def serial_type_for_blob_def sat_mul_def sat_add_def
      unat_word_ariths)

lemma serial_type_len_unat:
  "12 \<le> unat st \<Longrightarrow> serial_type_len st = Some (word_of_nat ((unat st - 12) div 2))"
proof -
  assume st: "12 \<le> unat st"
  have ne: "st \<notin> {0, 1, 2, 3, 4, 5, 6, 7, 8, 9, 10, 11}" using st by auto
  have ev: "st mod 2 = 0 \<longleftrightarrow> even (unat st)"
    by (simp add: word_unat_eq_iff unat_mod even_iff_mod_2_eq_zero)
  have 12: "unat ((st - 12) div 2) = (unat st - 12) div 2"
    using st by (simp add: unat_div unat_sub word_le_nat_alt)
  have 13: "unat ((st - 13) div 2) = (unat st - 12) div 2" if "odd (unat st)"
  proof -
    have "13 \<le> unat st" using st that by presburger
    then have "unat ((st - 13) div 2) = (unat st - 13) div 2"
      by (simp add: unat_div unat_sub word_le_nat_alt)
    also have "\<dots> = (unat st - 12) div 2" using st that by presburger
    finally show ?thesis .
  qed
  show ?thesis
    using ne ev 12 13 unfolding serial_type_len_def by (auto simp: word_unat_eq_iff simp flip: 12)
qed

lemma classify_unat:
  "12 \<le> unat st \<Longrightarrow> classify_serial_type st = (if even (unat st) then ClassBlob else ClassText)"
proof -
  assume st: "12 \<le> unat st"
  then have "\<not> st \<le> 6" "st \<notin> {0, 7, 8, 9, 10, 11}" by (auto simp: word_le_nat_alt)
  moreover have "st mod 2 = 0 \<longleftrightarrow> even (unat st)"
    by (simp add: word_unat_eq_iff unat_mod even_iff_mod_2_eq_zero)
  ultimately show ?thesis by (auto simp: classify_serial_type_def)
qed

section \<open>Properties\<close>

text \<open>Whatever 64-bit value is written with \<open>write_varint\<close> into a large enough buffer,
  \<open>read_varint\<close> reads the same value back and consumes exactly the bytes written; the buffer
  keeps its length and the bytes behind the varint.\<close>

theorem varint_roundtrip:
  assumes "varint_len v \<le> length buf"
  shows "\<exists>buf'. write_varint buf v = Some (buf', varint_len v) \<and> length buf' = length buf \<and>
      drop (varint_len v) buf' = drop (varint_len v) buf \<and>
      read_varint buf' = Some (v, varint_len v)"
  using assms by (simp add: write_varint_refines)

theorem varint_roundtrip_witness:
  "varint_len 0xDEADBEEFCAFEF00D \<le> length (replicate 9 (0::u8)) \<and>
   (\<exists>buf'. write_varint (replicate 9 0) 0xDEADBEEFCAFEF00D = Some (buf', 9) \<and>
      read_varint buf' = Some (0xDEADBEEFCAFEF00D, 9))"
proof -
  have l: "varint_len 0xDEADBEEFCAFEF00D = 9" by (simp add: varint_len_def)
  show ?thesis using varint_roundtrip [of "0xDEADBEEFCAFEF00D" "replicate 9 0"] l by auto
qed

text \<open>Whatever \<open>read_varint\<close> accepts, it consumed between one and nine bytes of the
  buffer, the result depends on those bytes only, and no encoding is shorter than
  \<open>varint_len\<close> of the value; it rejects exactly the buffers of fewer than nine bytes in which
  every byte has its continuation bit set.\<close>

theorem read_varint_sound:
  "(read_varint buf = None \<longleftrightarrow> length buf < 9 \<and> (\<forall>b \<in> set buf. bit b 7)) \<and>
   (read_varint buf = Some (v, n) \<longrightarrow>
      1 \<le> n \<and> n \<le> 9 \<and> n \<le> length buf \<and> varint_len v \<le> n \<and>
      read_varint (take n buf @ rest) = Some (v, n))"
proof (intro conjI impI)
  show "read_varint buf = None \<longleftrightarrow> length buf < 9 \<and> (\<forall>b \<in> set buf. bit b 7)"
    using vread_None [of 0 0 buf] by (simp add: read_varint_vread)
  assume "read_varint buf = Some (v, n)"
  then have r: "vread 0 0 buf = Some (v, n)" by (simp add: read_varint_vread)
  then show n: "1 \<le> n" "n \<le> 9" and "n \<le> length buf" using vread_range [OF _ r] by auto
  show "varint_len v \<le> n"
  proof (cases "n < 9")
    case True
    then show ?thesis using vread_value_bound [OF _ _ r] n by (intro varint_len_le) auto
  next
    case False
    then show ?thesis using varint_len_range(2) [of v] n by linarith
  qed
  show "read_varint (take n buf @ rest) = Some (v, n)"
    using vread_prefix [OF _ r] by (simp add: read_varint_vread)
qed

theorem read_varint_sound_witness:
  "read_varint [0x81, 0x00, 0x55] = Some (128, 2) \<and> varint_len 128 \<le> 2 \<and>
   read_varint (take 2 [0x81, 0x00, 0x55] @ [7]) = Some (128, 2)"
proof -
  have r: "read_varint [0x81, 0x00, 0x55] = Some (128, 2)" by code_simp
  show ?thesis using r read_varint_sound [of "[0x81, 0x00, 0x55]" 128 2 "[7]"] by blast
qed


text \<open>The one-pass integer classifier agrees with \<open>serial_type_for_integer\<close>, its payload
  length is the one \<open>serial_type_len\<close> gives for the serial type, the serial type belongs to the
  right class, the value fits the chosen width, and no narrower width of the format holds it.\<close>

theorem integer_serial_type_minimal:
  "case integer_serial_type_and_len v of (st, n) \<Rightarrow>
     st = serial_type_for_integer v \<and> serial_type_len st = Some (word_of_nat n) \<and>
     classify_serial_type st = (if v = 0 then ClassZero else if v = 1 then ClassOne else ClassInteger) \<and>
     fits_width n v \<and> (\<forall>m \<in> {0, 1, 2, 3, 4, 6, 8}. fits_width m v \<longrightarrow> n \<le> m)"
proof -
  note mono = fits_width_mono [of _ v]
  show ?thesis
    by (cases v rule: integer_serial_cases)
      (auto simp: serial_type_for_integer_eq serial_type_len_def classify_serial_type_def
        fits_width_def [of 0] dest: mono [of _ 1] mono [of _ 2] mono [of _ 3]
        mono [of _ 4] mono [of _ 6])
qed

theorem integer_serial_type_minimal_witness:
  "integer_serial_type_and_len (- 129) = (2, 2) \<and> fits_width 2 (- 129) \<and> \<not> fits_width 1 (- 129)"
proof -
  have e: "integer_serial_type_and_len (- 129) = (2, 2)" by code_simp
  show ?thesis using integer_serial_type_minimal [of "- 129"] unfolding e by auto
qed

text \<open>Below the saturation point of the 64-bit length (2\<open>^\<close>63 - 6 bytes) the serial type of
  a text or blob tells its class and its length back exactly.\<close>

theorem serial_type_text_blob_roundtrip:
  assumes "unat len < 2 ^ 63 - 6"
  shows "serial_type_len (serial_type_for_text len) = Some len \<and>
      classify_serial_type (serial_type_for_text len) = ClassText \<and>
      serial_type_len (serial_type_for_blob len) = Some len \<and>
      classify_serial_type (serial_type_for_blob len) = ClassBlob"
  using unat_serial_type_for [OF assms]
  by (simp add: serial_type_len_unat classify_unat)

theorem serial_type_text_blob_roundtrip_witness:
  "serial_type_len (serial_type_for_text 5) = Some 5 \<and>
   classify_serial_type (serial_type_for_blob 5) = ClassBlob"
  using serial_type_text_blob_roundtrip [of 5] by simp

text \<open>The 128-entry size table is the size function on the one-byte serial types.\<close>

theorem small_type_sizes_correct:
  assumes "i < 128"
  shows "length SMALL_TYPE_SIZES = 128 \<and>
      serial_type_len (word_of_nat i) = Some (ucast (SMALL_TYPE_SIZES ! i))"
proof -
  have all: "\<forall>i \<in> set [0..<128]. serial_type_len (word_of_nat i) =
      Some (ucast (case serial_type_len (word_of_nat i) of
                Some n \<Rightarrow> if n \<le> 255 then ucast n :: u8 else 0 | None \<Rightarrow> 0))"
    by code_simp
  have "SMALL_TYPE_SIZES ! i = (case serial_type_len (word_of_nat i) of
                Some n \<Rightarrow> if n \<le> 255 then ucast n else 0 | None \<Rightarrow> 0)"
    using assms by (simp add: SMALL_TYPE_SIZES_def)
  then show ?thesis using all assms by (simp add: SMALL_TYPE_SIZES_def)
qed

theorem small_type_sizes_correct_witness:
  "serial_type_len 127 = Some (ucast (SMALL_TYPE_SIZES ! 127))"
  using small_type_sizes_correct [of 127] by simp

end
