(* ===== verification/Encoding.thy ===== *)
theory Encoding
  imports Prelude
begin

text \<open>
  \<open>crates/fsqlite-types/src/encoding.rs\<close>: the canonical endian helpers.  A reader takes the
  leading bytes of its slice and fails on a shorter one; a writer overwrites the leading bytes of
  its destination and fails, leaving it alone, when there are too few.
\<close>

definition read_u16_be :: "bytes \<Rightarrow> u16 option" where
  "read_u16_be src = (if 2 \<le> length src then Some (from_be (take 2 src)) else None)"

definition read_u32_be :: "bytes \<Rightarrow> u32 option" where
  "read_u32_be src = (if 4 \<le> length src then Some (from_be (take 4 src)) else None)"

definition read_i32_be :: "bytes \<Rightarrow> i32 option" where
  "read_i32_be src = (if 4 \<le> length src then Some (from_be (take 4 src)) else None)"

definition read_u32_le :: "bytes \<Rightarrow> u32 option" where
  "read_u32_le src = (if 4 \<le> length src then Some (from_le (take 4 src)) else None)"

definition read_u16_le :: "bytes \<Rightarrow> u16 option" where
  "read_u16_le src = (if 2 \<le> length src then Some (from_le (take 2 src)) else None)"

definition read_u64_le :: "bytes \<Rightarrow> u64 option" where
  "read_u64_le src = (if 8 \<le> length src then Some (from_le (take 8 src)) else None)"

definition read_u64_be :: "bytes \<Rightarrow> u64 option" where
  "read_u64_be src = (if 8 \<le> length src then Some (from_be (take 8 src)) else None)"

definition write_u16_be :: "bytes \<Rightarrow> u16 \<Rightarrow> bytes option" where
  "write_u16_be dst value = buf_write dst 0 (to_be 2 value)"

definition write_u32_be :: "bytes \<Rightarrow> u32 \<Rightarrow> bytes option" where
  "write_u32_be dst value = buf_write dst 0 (to_be 4 value)"

definition write_i32_be :: "bytes \<Rightarrow> i32 \<Rightarrow> bytes option" where
  "write_i32_be dst value = buf_write dst 0 (to_be 4 value)"

definition write_u32_le :: "bytes \<Rightarrow> u32 \<Rightarrow> bytes option" where
  "write_u32_le dst value = buf_write dst 0 (to_le 4 value)"

definition write_u16_le :: "bytes \<Rightarrow> u16 \<Rightarrow> bytes option" where
  "write_u16_le dst value = buf_write dst 0 (to_le 2 value)"

definition write_u64_le :: "bytes \<Rightarrow> u64 \<Rightarrow> bytes option" where
  "write_u64_le dst value = buf_write dst 0 (to_le 8 value)"

definition write_u64_be :: "bytes \<Rightarrow> u64 \<Rightarrow> bytes option" where
  "write_u64_be dst value = buf_write dst 0 (to_be 8 value)"

definition append_u16_be :: "bytes \<Rightarrow> u16 \<Rightarrow> bytes" where
  "append_u16_be buf value = buf @ to_be 2 value"

definition append_u32_be :: "bytes \<Rightarrow> u32 \<Rightarrow> bytes" where
  "append_u32_be buf value = buf @ to_be 4 value"

definition append_u64_be :: "bytes \<Rightarrow> u64 \<Rightarrow> bytes" where
  "append_u64_be buf value = buf @ to_be 8 value"

text \<open>The little-endian appenders go through a zeroed scratch array of the field's width.\<close>

definition append_u32_le :: "bytes \<Rightarrow> u32 \<Rightarrow> bytes option" where
  "append_u32_le buf value =
     map_option (\<lambda>scratch. buf @ scratch) (write_u32_le (replicate 4 0) value)"

definition append_u16_le :: "bytes \<Rightarrow> u16 \<Rightarrow> bytes option" where
  "append_u16_le buf value =
     map_option (\<lambda>scratch. buf @ scratch) (write_u16_le (replicate 2 0) value)"

definition append_u64_le :: "bytes \<Rightarrow> u64 \<Rightarrow> bytes option" where
  "append_u64_le buf value =
     map_option (\<lambda>scratch. buf @ scratch) (write_u64_le (replicate 8 0) value)"

lemmas encoding_defs =
  read_u16_be_def read_u32_be_def read_i32_be_def read_u32_le_def read_u16_le_def read_u64_le_def
  read_u64_be_def write_u16_be_def write_u32_be_def write_i32_be_def write_u32_le_def
  write_u16_le_def write_u64_le_def write_u64_be_def append_u16_be_def append_u32_be_def
  append_u64_be_def append_u32_le_def append_u16_le_def append_u64_le_def

text \<open>Every writer of the endian helpers succeeds exactly on destinations of at least the
  field's width, changes only the leading field, and the matching reader gives the value back;
  the appenders produce the same bytes.\<close>

theorem endian_helpers_roundtrip:
  "(write_u16_be dst a = None \<longleftrightarrow> length dst < 2) \<and>
   (\<forall>d. write_u16_be dst a = Some d \<longrightarrow> read_u16_be d = Some a \<and> drop 2 d = drop 2 dst) \<and>
   (write_u32_be dst b = None \<longleftrightarrow> length dst < 4) \<and>
   (\<forall>d. write_u32_be dst b = Some d \<longrightarrow> read_u32_be d = Some b \<and> drop 4 d = drop 4 dst) \<and>
   (\<forall>d. write_i32_be dst b = Some d \<longrightarrow> read_i32_be d = Some b) \<and>
   (\<forall>d. write_u16_le dst a = Some d \<longrightarrow> read_u16_le d = Some a) \<and>
   (\<forall>d. write_u32_le dst b = Some d \<longrightarrow> read_u32_le d = Some b) \<and>
   (write_u64_le dst c = None \<longleftrightarrow> length dst < 8) \<and>
   (\<forall>d. write_u64_le dst c = Some d \<longrightarrow> read_u64_le d = Some c \<and> drop 8 d = drop 8 dst) \<and>
   (\<forall>d. write_u64_be dst c = Some d \<longrightarrow> read_u64_be d = Some c) \<and>
   append_u32_le dst b = Some (dst @ to_le 4 b) \<and> append_u64_le dst c = Some (dst @ to_le 8 c)"
  by (auto simp: encoding_defs buf_write_def field_laws) (simp_all add: numeral_2_eq_2)

theorem endian_helpers_roundtrip_witness:
  "\<exists>d. write_u32_be [9, 9, 9, 9, 7] 0x01020304 = Some d \<and> read_u32_be d = Some 0x01020304"
proof -
  note law = endian_helpers_roundtrip [where dst = "[9, 9, 9, 9, 7]" and b = "0x01020304"]
  obtain d where "write_u32_be [9, 9, 9, 9, 7] 0x01020304 = Some d"
    using law by (cases "write_u32_be [9, 9, 9, 9, 7] 0x01020304") auto
  then show ?thesis using law by blast
qed

end
