(* ===== verification/PageTypes.thy ===== *)
theory PageTypes
  imports Prelude
begin

text \<open>
  \<open>crates/fsqlite-types/src/lib.rs\<close>, first part: page numbers, page sizes, column affinities
  and the page kinds of the merge-safety policy.  The newtypes \<open>PageNumber\<close> and
  \<open>PageSize\<close> are their raw \<open>u32\<close>; the values their checked constructors can produce are
  \<open>valid_pgno\<close> and \<open>valid_page_size\<close>.
\<close>

section \<open>Page numbers and page sizes\<close>

type_synonym PageNumber = u32
type_synonym PageSize = u32

definition PageNumber_new :: "u32 \<Rightarrow> PageNumber option" where
  "PageNumber_new n = (if n = 0xFFFFFFFF then None else if n = 0 then None else Some n)"

definition valid_pgno :: "PageNumber \<Rightarrow> bool" where
  "valid_pgno n \<longleftrightarrow> n \<noteq> 0 \<and> n \<noteq> 0xFFFFFFFF"

definition is_power_of_two :: "u32 \<Rightarrow> bool" where
  "is_power_of_two w \<longleftrightarrow> w \<in> set (map (\<lambda>k. 2 ^ k) [0..<32])"

definition PageSize_new :: "u32 \<Rightarrow> PageSize option" where
  "PageSize_new sz =
     (if sz < 512 \<or> sz > 65536 \<or> \<not> is_power_of_two sz then None else Some sz)"

definition valid_page_size :: "PageSize \<Rightarrow> bool" where
  "valid_page_size ps \<longleftrightarrow> ps \<in> {512, 1024, 2048, 4096, 8192, 16384, 32768, 65536}"

definition PageSize_usable :: "PageSize \<Rightarrow> u8 \<Rightarrow> u32" where
  "PageSize_usable ps reserved = ps - ucast reserved"

lemma PageNumber_new_Some: "PageNumber_new n = Some p \<longleftrightarrow> p = n \<and> valid_pgno n"
  by (auto simp: PageNumber_new_def valid_pgno_def)

lemma PageSize_new_Some: "PageSize_new n = Some p \<longleftrightarrow> p = n \<and> valid_page_size n"
proof -
  have "[0..<32] = [0,1,2,3,4,5,6,7,8,9,10,11,12,13,14,15,16,17,18,19,20,21,22,23,24,25,26,27,28,29,30,31]"
    by (simp add: upt_rec)
  then have "is_power_of_two n \<and> \<not> n < 512 \<and> \<not> n > 65536 \<longleftrightarrow> valid_page_size n"
    unfolding is_power_of_two_def valid_page_size_def by auto
  then show ?thesis by (auto simp: PageSize_new_def)
qed

lemma valid_page_size_unat:
  "valid_page_size ps \<Longrightarrow> unat ps \<in> {512, 1024, 2048, 4096, 8192, 16384, 32768, 65536}"
  by (auto simp: valid_page_size_def)

lemma unat_usable: "valid_page_size ps \<Longrightarrow> unat (PageSize_usable ps r) = unat ps - unat r"
proof -
  assume "valid_page_size ps"
  then have "512 \<le> unat ps" using valid_page_size_unat by force
  then have "(ucast r :: u32) \<le> ps" using unat_u8_less [of r] by (simp add: word_le_nat_alt)
  then show ?thesis by (simp add: PageSize_usable_def unat_sub)
qed

text \<open>The checked constructors accept exactly the documented ranges, page numbers
  \<open>1 \<dots> 4294967294\<close> and the eight powers of two from 512 to 65536, and the usable size
  of a valid page never wraps.\<close>

theorem page_newtypes_checked:
  "(PageNumber_new n = Some p \<longleftrightarrow> p = n \<and> 1 \<le> unat n \<and> unat n \<le> 4294967294) \<and>
   (PageSize_new s = Some ps \<longleftrightarrow> ps = s \<and> (\<exists>k. 9 \<le> k \<and> k \<le> 16 \<and> unat s = 2 ^ k)) \<and>
   (PageSize_new s = Some ps \<longrightarrow> unat (PageSize_usable ps r) + unat r = unat ps)"
proof (intro conjI impI)
  have "unat n \<le> 4294967295" using unat_u32_less [of n] by simp
  moreover have "n = 0xFFFFFFFF \<longleftrightarrow> unat n = 4294967295" by (simp add: word_unat_eq_iff)
  moreover have "n = 0 \<longleftrightarrow> unat n = 0" by (simp add: word_unat_eq_iff)
  ultimately show "PageNumber_new n = Some p \<longleftrightarrow> p = n \<and> 1 \<le> unat n \<and> unat n \<le> 4294967294"
    by (auto simp: PageNumber_new_Some valid_pgno_def)
next
  have "valid_page_size s \<longleftrightarrow> unat s \<in> (\<lambda>k. 2 ^ k) ` {9..16}"
  proof -
    have "{9..16::nat} = {9, 10, 11, 12, 13, 14, 15, 16}" by auto
    then show ?thesis by (auto simp: valid_page_size_def word_unat_eq_iff)
  qed
  then show "PageSize_new s = Some ps \<longleftrightarrow> ps = s \<and> (\<exists>k. 9 \<le> k \<and> k \<le> 16 \<and> unat s = 2 ^ k)"
    by (auto simp: PageSize_new_Some)
next
  assume "PageSize_new s = Some ps"
  then have v: "valid_page_size ps" by (auto simp: PageSize_new_Some)
  then have "512 \<le> unat ps" using valid_page_size_unat by force
  moreover have "unat r < 256" by (rule unat_u8_less)
  ultimately show "unat (PageSize_usable ps r) + unat r = unat ps"
    by (simp add: unat_usable [OF v])
qed

theorem page_newtypes_checked_witness:
  "PageSize_new 4096 = Some 4096 \<and> unat (PageSize_usable 4096 16) + unat (16 :: u8) = unat (4096 :: u32)"
proof -
  have "PageSize_new 4096 = Some 4096" by code_simp
  then show ?thesis using page_newtypes_checked [of 1 1 4096 4096 16] by blast
qed

section \<open>Page kinds\<close>

datatype BTreePageType = InteriorIndex | InteriorTable | LeafIndex | LeafTable

fun page_type_byte :: "BTreePageType \<Rightarrow> u8" where
  "page_type_byte InteriorIndex = 2"
| "page_type_byte InteriorTable = 5"
| "page_type_byte LeafIndex = 10"
| "page_type_byte LeafTable = 13"

definition BTreePageType_from_byte :: "u8 \<Rightarrow> BTreePageType option" where
  "BTreePageType_from_byte b =
     (if b = 2 then Some InteriorIndex
      else if b = 5 then Some InteriorTable
      else if b = 10 then Some LeafIndex
      else if b = 13 then Some LeafTable
      else None)"

fun is_leaf :: "BTreePageType \<Rightarrow> bool" where
  "is_leaf LeafIndex = True" | "is_leaf LeafTable = True" | "is_leaf _ = False"

fun is_interior :: "BTreePageType \<Rightarrow> bool" where
  "is_interior InteriorIndex = True" | "is_interior InteriorTable = True" | "is_interior _ = False"

fun is_table :: "BTreePageType \<Rightarrow> bool" where
  "is_table InteriorTable = True" | "is_table LeafTable = True" | "is_table _ = False"

fun is_index :: "BTreePageType \<Rightarrow> bool" where
  "is_index InteriorIndex = True" | "is_index LeafIndex = True" | "is_index _ = False"

lemma from_byte_page_type_byte [simp]: "BTreePageType_from_byte (page_type_byte t) = Some t"
  by (cases t) (simp_all add: BTreePageType_from_byte_def)

lemma BTreePageType_from_byte_Some: "BTreePageType_from_byte b = Some t \<longleftrightarrow> b = page_type_byte t"
  by (cases t) (auto simp: BTreePageType_from_byte_def split: if_splits)

datatype MergePageKind =
  BtreeInteriorTable | BtreeLeafTable | BtreeInteriorIndex | BtreeLeafIndex
  | Overflow | Freelist | PointerMap | Opaque

definition is_sqlite_structured :: "MergePageKind \<Rightarrow> bool" where
  "is_sqlite_structured k \<longleftrightarrow> k \<noteq> Opaque"

definition MergePageKind_classify :: "bytes \<Rightarrow> MergePageKind" where
  "MergePageKind_classify page =
     (case page of
        [] \<Rightarrow> Opaque
      | first_byte # _ \<Rightarrow>
          (case BTreePageType_from_byte first_byte of
             Some LeafTable \<Rightarrow> BtreeLeafTable
           | Some InteriorTable \<Rightarrow> BtreeInteriorTable
           | Some LeafIndex \<Rightarrow> BtreeLeafIndex
           | Some InteriorIndex \<Rightarrow> BtreeInteriorIndex
           | None \<Rightarrow> Opaque))"

section \<open>Affinities\<close>

datatype TypeAffinity = AffInteger | AffText | AffBlob | AffReal | AffNumeric

definition ascii_upper :: "char \<Rightarrow> char" where
  "ascii_upper c = (let n = of_char c :: nat in
     if 97 \<le> n \<and> n \<le> 122 then char_of (n - 32) else c)"

fun contains_str :: "string \<Rightarrow> string \<Rightarrow> bool" where
  "contains_str pat [] = (pat = [])"
| "contains_str pat (c # cs) = (take (length pat) (c # cs) = pat \<or> contains_str pat cs)"

definition TypeAffinity_from_type_name :: "string \<Rightarrow> TypeAffinity" where
  "TypeAffinity_from_type_name type_name =
     (let upper = map ascii_upper type_name in
      if contains_str ''INT'' upper then AffInteger
      else if contains_str ''CHAR'' upper \<or> contains_str ''CLOB'' upper \<or> contains_str ''TEXT'' upper
      then AffText
      else if upper = [] \<or> contains_str ''BLOB'' upper then AffBlob
      else if contains_str ''REAL'' upper \<or> contains_str ''FLOA'' upper \<or> contains_str ''DOUB'' upper
      then AffReal
      else AffNumeric)"

fun is_numeric_aff :: "TypeAffinity \<Rightarrow> bool" where
  "is_numeric_aff AffInteger = True" | "is_numeric_aff AffReal = True"
| "is_numeric_aff AffNumeric = True" | "is_numeric_aff _ = False"

definition comparison_affinity :: "TypeAffinity \<Rightarrow> TypeAffinity \<Rightarrow> TypeAffinity option" where
  "comparison_affinity left right =
     (if left = right then None
      else if is_numeric_aff left \<and> right \<in> {AffText, AffBlob} then Some AffNumeric
      else if is_numeric_aff right \<and> left \<in> {AffText, AffBlob} then Some AffNumeric
      else if (left = AffText \<and> right = AffBlob) \<or> (left = AffBlob \<and> right = AffText)
      then Some AffText
      else None)"

datatype StrictColumnType = StrictInteger | StrictReal | StrictText | StrictBlob | StrictAny

definition StrictColumnType_from_type_name :: "string \<Rightarrow> StrictColumnType option" where
  "StrictColumnType_from_type_name name =
     (let u = map ascii_upper name in
      if u = ''INT'' \<or> u = ''INTEGER'' then Some StrictInteger
      else if u = ''REAL'' then Some StrictReal
      else if u = ''TEXT'' then Some StrictText
      else if u = ''BLOB'' then Some StrictBlob
      else if u = ''ANY'' then Some StrictAny
      else None)"

lemma ascii_upper_idem [simp]: "ascii_upper (ascii_upper c) = ascii_upper c"
  by (auto simp: ascii_upper_def Let_def)

lemma comparison_affinity_cases:
  "comparison_affinity l r =
     (if is_numeric_aff l \<noteq> is_numeric_aff r then Some AffNumeric
      else if \<not> is_numeric_aff l \<and> l \<noteq> r then Some AffText else None)"
  by (cases l; cases r) (simp_all add: comparison_affinity_def)

text \<open>C40: affinity resolution and STRICT type parsing ignore ASCII case; the affinity of a
  comparison is symmetric in its operands, is numeric exactly when one side is numeric and the
  other is not, text exactly for a text against a blob, and absent otherwise; a STRICT type name
  other than \<open>ANY\<close> gets the affinity of the same name.\<close>

theorem affinity_rules:
  "TypeAffinity_from_type_name (map ascii_upper s) = TypeAffinity_from_type_name s \<and>
   StrictColumnType_from_type_name (map ascii_upper s) = StrictColumnType_from_type_name s \<and>
   comparison_affinity l r = comparison_affinity r l \<and>
   comparison_affinity l r =
     (if is_numeric_aff l \<noteq> is_numeric_aff r then Some AffNumeric
      else if \<not> is_numeric_aff l \<and> l \<noteq> r then Some AffText else None) \<and>
   map_option (\<lambda>t. case t of StrictInteger \<Rightarrow> AffInteger | StrictReal \<Rightarrow> AffReal
       | StrictText \<Rightarrow> AffText | StrictBlob \<Rightarrow> AffBlob | StrictAny \<Rightarrow> AffNumeric)
     (StrictColumnType_from_type_name s) \<in> {None, Some (TypeAffinity_from_type_name s)}"
proof (intro conjI)
  show "comparison_affinity l r = comparison_affinity r l"
    by (auto simp: comparison_affinity_cases)
qed (auto simp: TypeAffinity_from_type_name_def StrictColumnType_from_type_name_def Let_def o_def
    comparison_affinity_cases)

end
