(* ===== verification/DatabaseHeader.thy ===== *)
theory DatabaseHeader
  imports Encoding PageTypes
begin

text \<open>
  \<open>crates/fsqlite-types/src/lib.rs\<close>: the 100-byte database file header, its parser with every
  validation in the order of the source, its writer and the checks derived from it.  A 100-byte
  array is a byte list of length 100.
\<close>

datatype TextEncoding = Utf8 | Utf16le | Utf16be

record DatabaseHeader =
  dh_page_size :: PageSize
  dh_write_version :: u8
  dh_read_version :: u8
  dh_reserved_per_page :: u8
  dh_change_counter :: u32
  dh_page_count :: u32
  dh_freelist_trunk :: u32
  dh_freelist_count :: u32
  dh_schema_cookie :: u32
  dh_schema_format :: u32
  dh_default_cache_size :: i32
  dh_largest_root_page :: u32
  dh_text_encoding :: TextEncoding
  dh_user_version :: u32
  dh_incremental_vacuum :: u32
  dh_application_id :: u32
  dh_version_valid_for :: u32
  dh_sqlite_version :: u32

definition DatabaseHeader_default :: DatabaseHeader where
  "DatabaseHeader_default =
     \<lparr>dh_page_size = 4096, dh_write_version = 1, dh_read_version = 1, dh_reserved_per_page = 0,
      dh_change_counter = 0, dh_page_count = 0, dh_freelist_trunk = 0, dh_freelist_count = 0,
      dh_schema_cookie = 0, dh_schema_format = 4, dh_default_cache_size = - 2000,
      dh_largest_root_page = 0, dh_text_encoding = Utf8, dh_user_version = 0,
      dh_incremental_vacuum = 0, dh_application_id = 0, dh_version_valid_for = 0,
      dh_sqlite_version = 0\<rparr>"

text \<open>\<open>"SQLite format 3\0"\<close>\<close>

definition DATABASE_HEADER_MAGIC :: bytes where
  "DATABASE_HEADER_MAGIC =
     [0x53, 0x51, 0x4C, 0x69, 0x74, 0x65, 0x20, 0x66, 0x6F, 0x72, 0x6D, 0x61, 0x74, 0x20, 0x33, 0x00]"

definition DATABASE_HEADER_SIZE :: nat where
  "DATABASE_HEADER_SIZE = 100"

definition MAX_FILE_FORMAT_VERSION :: u8 where
  "MAX_FILE_FORMAT_VERSION = 2"

datatype DatabaseOpenMode = ReadWrite | ReadOnly

datatype DatabaseHeaderError =
  InvalidMagic
  | InvalidPageSize u16
  | InvalidPayloadFractions u8 u8 u8
  | UsableSizeTooSmall u32 u8 u32
  | UnsupportedReadVersion u8 u8
  | InvalidTextEncoding u32
  | InvalidSchemaFormat u32

text \<open>The fields are read from slices of their exact width, where the endian helpers cannot
  fail; \<open>expect\<close> is the identity there.\<close>

definition fixed_u16 :: "bytes \<Rightarrow> nat \<Rightarrow> u16" where
  "fixed_u16 buf off = (case read_u16_be (subslice off (off + 2) buf) of Some v \<Rightarrow> v | None \<Rightarrow> 0)"

definition fixed_u32 :: "bytes \<Rightarrow> nat \<Rightarrow> u32" where
  "fixed_u32 buf off = (case read_u32_be (subslice off (off + 4) buf) of Some v \<Rightarrow> v | None \<Rightarrow> 0)"

definition decode_page_size :: "u16 \<Rightarrow> DatabaseHeaderError + PageSize" where
  "decode_page_size raw =
     (if raw = 0 then Inl (InvalidPageSize raw)
      else case PageSize_new (if raw = 1 then 65536 else ucast raw) of
        None \<Rightarrow> Inl (InvalidPageSize raw) | Some ps \<Rightarrow> Inr ps)"

definition decode_text_encoding :: "u32 \<Rightarrow> DatabaseHeaderError + TextEncoding" where
  "decode_text_encoding raw =
     (if raw = 1 then Inr Utf8 else if raw = 2 then Inr Utf16le else if raw = 3 then Inr Utf16be
      else Inl (InvalidTextEncoding raw))"

definition from_bytes :: "bytes \<Rightarrow> DatabaseHeaderError + DatabaseHeader" where
  "from_bytes buf =
     (if take 16 buf \<noteq> DATABASE_HEADER_MAGIC then Inl InvalidMagic else
      case decode_page_size (fixed_u16 buf 16) of Inl e \<Rightarrow> Inl e | Inr page_size \<Rightarrow>
      let write_version = buf ! 18; read_version = buf ! 19; reserved_per_page = buf ! 20 in
      if (buf ! 21, buf ! 22, buf ! 23) \<noteq> (64, 32, 32)
      then Inl (InvalidPayloadFractions (buf ! 21) (buf ! 22) (buf ! 23)) else
      let usable_size = PageSize_usable page_size reserved_per_page in
      if usable_size < 480 then Inl (UsableSizeTooSmall page_size reserved_per_page usable_size) else
      if read_version > MAX_FILE_FORMAT_VERSION
      then Inl (UnsupportedReadVersion read_version MAX_FILE_FORMAT_VERSION) else
      let schema_format = fixed_u32 buf 44 in
      if schema_format \<noteq> 4 then Inl (InvalidSchemaFormat schema_format) else
      case decode_text_encoding (fixed_u32 buf 56) of Inl e \<Rightarrow> Inl e | Inr text_encoding \<Rightarrow>
      Inr \<lparr>dh_page_size = page_size, dh_write_version = write_version,
           dh_read_version = read_version, dh_reserved_per_page = reserved_per_page,
           dh_change_counter = fixed_u32 buf 24, dh_page_count = fixed_u32 buf 28,
           dh_freelist_trunk = fixed_u32 buf 32, dh_freelist_count = fixed_u32 buf 36,
           dh_schema_cookie = fixed_u32 buf 40, dh_schema_format = schema_format,
           dh_default_cache_size = fixed_u32 buf 48, dh_largest_root_page = fixed_u32 buf 52,
           dh_text_encoding = text_encoding, dh_user_version = fixed_u32 buf 60,
           dh_incremental_vacuum = fixed_u32 buf 64, dh_application_id = fixed_u32 buf 68,
           dh_version_valid_for = fixed_u32 buf 92, dh_sqlite_version = fixed_u32 buf 96\<rparr>)"

definition open_mode :: "DatabaseHeader \<Rightarrow> u8 \<Rightarrow> DatabaseHeaderError + DatabaseOpenMode" where
  "open_mode h max_supported =
     (if dh_read_version h > max_supported
      then Inl (UnsupportedReadVersion (dh_read_version h) max_supported)
      else if dh_write_version h > max_supported then Inr ReadOnly
      else Inr ReadWrite)"

definition is_page_count_stale :: "DatabaseHeader \<Rightarrow> bool" where
  "is_page_count_stale h \<longleftrightarrow> dh_version_valid_for h \<noteq> dh_change_counter h"

definition page_count_from_file_size :: "DatabaseHeader \<Rightarrow> u64 \<Rightarrow> u32 option" where
  "page_count_from_file_size h file_size =
     (let ps = ucast (dh_page_size h) :: u64 in
      if file_size = 0 \<or> file_size mod ps \<noteq> 0 then None
      else let count = file_size div ps in
        if count > 0xFFFFFFFF then None else Some (ucast count))"

definition text_encoding_u32 :: "TextEncoding \<Rightarrow> u32" where
  "text_encoding_u32 e = (case e of Utf8 \<Rightarrow> 1 | Utf16le \<Rightarrow> 2 | Utf16be \<Rightarrow> 3)"

text \<open>\<open>out\<close> is zeroed first, so the result does not depend on its old contents; every write is
  in range for a 100-byte array, so the chain of writes is total.\<close>

definition header_fields :: "DatabaseHeader \<Rightarrow> (nat \<times> bytes) list" where
  "header_fields h =
     (let page_size_raw = (if dh_page_size h = 65536 then 1 else ucast (dh_page_size h) :: u16) in
      [(0, DATABASE_HEADER_MAGIC),
       (16, to_be 2 page_size_raw),
       (18, [dh_write_version h]),
       (19, [dh_read_version h]),
       (20, [dh_reserved_per_page h]),
       (21, [64]),
       (22, [32]),
       (23, [32]),
       (24, to_be 4 (dh_change_counter h)),
       (28, to_be 4 (dh_page_count h)),
       (32, to_be 4 (dh_freelist_trunk h)),
       (36, to_be 4 (dh_freelist_count h)),
       (40, to_be 4 (dh_schema_cookie h)),
       (44, to_be 4 (dh_schema_format h)),
       (48, to_be 4 (dh_default_cache_size h)),
       (52, to_be 4 (dh_largest_root_page h)),
       (56, to_be 4 (text_encoding_u32 (dh_text_encoding h))),
       (60, to_be 4 (dh_user_version h)),
       (64, to_be 4 (dh_incremental_vacuum h)),
       (68, to_be 4 (dh_application_id h)),
       (92, to_be 4 (dh_version_valid_for h)),
       (96, to_be 4 (dh_sqlite_version h))])"

definition header_image :: "DatabaseHeader \<Rightarrow> bytes \<Rightarrow> bytes" where
  "header_image h out = put_fields (header_fields h) (map (\<lambda>_. 0) out)"

definition write_to_bytes :: "DatabaseHeader \<Rightarrow> bytes \<Rightarrow> DatabaseHeaderError + bytes" where
  "write_to_bytes h out =
     (if dh_schema_format h \<noteq> 4 then Inl (InvalidSchemaFormat (dh_schema_format h)) else
      let usable_size = PageSize_usable (dh_page_size h) (dh_reserved_per_page h) in
      if usable_size < 480
      then Inl (UsableSizeTooSmall (dh_page_size h) (dh_reserved_per_page h) usable_size)
      else Inr (header_image h out))"

definition to_bytes :: "DatabaseHeader \<Rightarrow> DatabaseHeaderError + bytes" where
  "to_bytes h = write_to_bytes h (replicate 100 0)"

section \<open>Reading a written header\<close>

lemma fixed_u16_eq: "off + 2 \<le> length buf \<Longrightarrow> fixed_u16 buf off = from_be (subslice off (off + 2) buf)"
  by (simp add: fixed_u16_def read_u16_be_def)

lemma fixed_u32_eq: "off + 4 \<le> length buf \<Longrightarrow> fixed_u32 buf off = from_be (subslice off (off + 4) buf)"
  by (simp add: fixed_u32_def read_u32_be_def)

definition page_size_raw :: "PageSize \<Rightarrow> u16" where
  "page_size_raw ps = (if ps = 65536 then 1 else ucast ps)"

lemma page_size_raw_valid:
  "valid_page_size ps \<Longrightarrow>
   page_size_raw ps \<noteq> 0 \<and> (if page_size_raw ps = 1 then 65536 else ucast (page_size_raw ps)) = ps"
  by (auto simp: valid_page_size_def page_size_raw_def)

lemma decode_page_size_raw: "valid_page_size ps \<Longrightarrow> decode_page_size (page_size_raw ps) = Inr ps"
  using PageSize_new_Some [of ps ps] page_size_raw_valid [of ps] by (simp add: decode_page_size_def)

lemma decode_page_size_Inr:
  assumes "decode_page_size raw = Inr ps"
  shows "valid_page_size ps \<and> raw = page_size_raw ps"
proof -
  have ps: "ps = (if raw = 1 then 65536 else ucast raw)" and v: "valid_page_size ps"
    using assms by (auto simp: decode_page_size_def PageSize_new_Some split: if_splits option.splits)
  have "(ucast raw :: u32) \<noteq> 65536"
    using unat_u16_less [of raw] by (auto simp: word_unat_eq_iff)
  moreover have "ucast (ucast raw :: u32) = raw" by (rule bit_word_eqI) (auto simp: bit_simps)
  ultimately show ?thesis using ps v by (auto simp: page_size_raw_def)
qed

lemma decode_text_encoding_u32 [simp]: "decode_text_encoding (text_encoding_u32 e) = Inr e"
  by (cases e) (simp_all add: decode_text_encoding_def text_encoding_u32_def)

lemma decode_text_encoding_Inr: "decode_text_encoding raw = Inr e \<Longrightarrow> raw = text_encoding_u32 e"
  by (auto simp: decode_text_encoding_def text_encoding_u32_def split: if_splits)

lemma length_magic [simp]: "length DATABASE_HEADER_MAGIC = 16"
  by (simp add: DATABASE_HEADER_MAGIC_def)

lemma header_fields_ok: "length out = 100 \<Longrightarrow> fields_ok 0 (length (map (\<lambda>_. 0) out)) (header_fields h)"
  by (simp add: header_fields_def Let_def)

lemma length_header_image [simp]: "length out = 100 \<Longrightarrow> length (header_image h out) = 100"
  using header_fields_ok [of out h] by (simp add: header_image_def)

lemma header_image_field:
  assumes "length out = 100" and "(off, src) \<in> set (header_fields h)" and "hi = off + length src"
  shows "subslice off hi (header_image h out) = src"
  unfolding header_image_def by (rule subslice_put_fields [OF header_fields_ok [OF assms(1)] assms(2,3)])

lemma header_image_u32:
  assumes "length out = 100" and "(off, to_be 4 v) \<in> set (header_fields h)" and "off + 4 \<le> 100"
  shows "fixed_u32 (header_image h out) off = v"
  using assms header_image_field [OF assms(1,2)] by (simp add: fixed_u32_eq field_laws)

lemma header_image_byte:
  "length out = 100 \<Longrightarrow> (off, [v]) \<in> set (header_fields h) \<Longrightarrow> header_image h out ! off = v"
  unfolding header_image_def by (rule nth_put_fields [OF header_fields_ok])

lemma header_image_reads:
  assumes "length out = 100"
  shows "take 16 (header_image h out) = DATABASE_HEADER_MAGIC"
    and "fixed_u16 (header_image h out) 16 = page_size_raw (dh_page_size h)"
    and "header_image h out ! 18 = dh_write_version h"
    and "header_image h out ! 19 = dh_read_version h"
    and "header_image h out ! 20 = dh_reserved_per_page h"
    and "header_image h out ! 21 = 64"
    and "header_image h out ! 22 = 32"
    and "header_image h out ! 23 = 32"
    and "fixed_u32 (header_image h out) 24 = dh_change_counter h"
    and "fixed_u32 (header_image h out) 28 = dh_page_count h"
    and "fixed_u32 (header_image h out) 32 = dh_freelist_trunk h"
    and "fixed_u32 (header_image h out) 36 = dh_freelist_count h"
    and "fixed_u32 (header_image h out) 40 = dh_schema_cookie h"
    and "fixed_u32 (header_image h out) 44 = dh_schema_format h"
    and "fixed_u32 (header_image h out) 48 = dh_default_cache_size h"
    and "fixed_u32 (header_image h out) 52 = dh_largest_root_page h"
    and "fixed_u32 (header_image h out) 56 = text_encoding_u32 (dh_text_encoding h)"
    and "fixed_u32 (header_image h out) 60 = dh_user_version h"
    and "fixed_u32 (header_image h out) 64 = dh_incremental_vacuum h"
    and "fixed_u32 (header_image h out) 68 = dh_application_id h"
    and "fixed_u32 (header_image h out) 92 = dh_version_valid_for h"
    and "fixed_u32 (header_image h out) 96 = dh_sqlite_version h"
proof -
  have m: "(0, DATABASE_HEADER_MAGIC) \<in> set (header_fields h)"
    and p: "(16, to_be 2 (page_size_raw (dh_page_size h))) \<in> set (header_fields h)"
    by (simp_all add: header_fields_def page_size_raw_def Let_def)
  show "take 16 (header_image h out) = DATABASE_HEADER_MAGIC"
    using header_image_field [OF assms m, of 16] by (simp add: subslice_def)
  show "fixed_u16 (header_image h out) 16 = page_size_raw (dh_page_size h)"
    using header_image_field [OF assms p, of 18] assms by (simp add: fixed_u16_eq field_laws)
qed (rule header_image_byte [OF assms] header_image_u32 [OF assms]; simp add: header_fields_def Let_def)+


section \<open>Writing a read header\<close>

lemma to_be_fixed_u32: "off + 4 \<le> length buf \<Longrightarrow> to_be 4 (fixed_u32 buf off) = subslice off (off + 4) buf"
  by (simp add: fixed_u32_eq field_laws)

lemma to_be_fixed_u16: "off + 2 \<le> length buf \<Longrightarrow> to_be 2 (fixed_u16 buf off) = subslice off (off + 2) buf"
  by (simp add: fixed_u16_eq field_laws)

text \<open>\<open>header_valid\<close> is what a successful parse guarantees of the header value.\<close>

definition header_valid :: "DatabaseHeader \<Rightarrow> bool" where
  "header_valid h \<longleftrightarrow>
     valid_page_size (dh_page_size h) \<and> dh_read_version h \<le> MAX_FILE_FORMAT_VERSION \<and>
     dh_schema_format h = 4 \<and> 480 \<le> PageSize_usable (dh_page_size h) (dh_reserved_per_page h)"

lemma from_bytes_InrD:
  assumes "from_bytes buf = Inr h"
  shows "take 16 buf = DATABASE_HEADER_MAGIC" "header_valid h"
    "fixed_u16 buf 16 = page_size_raw (dh_page_size h)"
    "buf ! 18 = dh_write_version h" "buf ! 19 = dh_read_version h" "buf ! 20 = dh_reserved_per_page h"
    "buf ! 21 = 64" "buf ! 22 = 32" "buf ! 23 = 32"
    "fixed_u32 buf 24 = dh_change_counter h" "fixed_u32 buf 28 = dh_page_count h"
    "fixed_u32 buf 32 = dh_freelist_trunk h" "fixed_u32 buf 36 = dh_freelist_count h"
    "fixed_u32 buf 40 = dh_schema_cookie h" "fixed_u32 buf 44 = dh_schema_format h"
    "fixed_u32 buf 48 = dh_default_cache_size h" "fixed_u32 buf 52 = dh_largest_root_page h"
    "fixed_u32 buf 56 = text_encoding_u32 (dh_text_encoding h)" "fixed_u32 buf 60 = dh_user_version h"
    "fixed_u32 buf 64 = dh_incremental_vacuum h" "fixed_u32 buf 68 = dh_application_id h"
    "fixed_u32 buf 92 = dh_version_valid_for h" "fixed_u32 buf 96 = dh_sqlite_version h"
proof -
  from assms obtain ps te where
    *: "take 16 buf = DATABASE_HEADER_MAGIC" "decode_page_size (fixed_u16 buf 16) = Inr ps"
    "buf ! 21 = 64" "buf ! 22 = 32" "buf ! 23 = 32"
    "\<not> PageSize_usable ps (buf ! 20) < 480" "\<not> buf ! 19 > MAX_FILE_FORMAT_VERSION"
    "fixed_u32 buf 44 = 4" "decode_text_encoding (fixed_u32 buf 56) = Inr te" and
    h: "h = \<lparr>dh_page_size = ps, dh_write_version = buf ! 18,
           dh_read_version = buf ! 19, dh_reserved_per_page = buf ! 20,
           dh_change_counter = fixed_u32 buf 24, dh_page_count = fixed_u32 buf 28,
           dh_freelist_trunk = fixed_u32 buf 32, dh_freelist_count = fixed_u32 buf 36,
           dh_schema_cookie = fixed_u32 buf 40, dh_schema_format = fixed_u32 buf 44,
           dh_default_cache_size = fixed_u32 buf 48, dh_largest_root_page = fixed_u32 buf 52,
           dh_text_encoding = te, dh_user_version = fixed_u32 buf 60,
           dh_incremental_vacuum = fixed_u32 buf 64, dh_application_id = fixed_u32 buf 68,
           dh_version_valid_for = fixed_u32 buf 92, dh_sqlite_version = fixed_u32 buf 96\<rparr>"
    by (auto simp: from_bytes_def Let_def split: if_splits sum.splits)
  show "take 16 buf = DATABASE_HEADER_MAGIC" by (rule *(1))
  show "header_valid h" "fixed_u16 buf 16 = page_size_raw (dh_page_size h)"
    using * decode_page_size_Inr [OF *(2)] by (auto simp: h header_valid_def)
  show "fixed_u32 buf 56 = text_encoding_u32 (dh_text_encoding h)"
    using decode_text_encoding_Inr [OF *(9)] by (simp add: h)
  show "buf ! 18 = dh_write_version h" "buf ! 19 = dh_read_version h" "buf ! 20 = dh_reserved_per_page h"
    "buf ! 21 = 64" "buf ! 22 = 32" "buf ! 23 = 32"
    "fixed_u32 buf 24 = dh_change_counter h" "fixed_u32 buf 28 = dh_page_count h"
    "fixed_u32 buf 32 = dh_freelist_trunk h" "fixed_u32 buf 36 = dh_freelist_count h"
    "fixed_u32 buf 40 = dh_schema_cookie h" "fixed_u32 buf 44 = dh_schema_format h"
    "fixed_u32 buf 48 = dh_default_cache_size h" "fixed_u32 buf 52 = dh_largest_root_page h"
    "fixed_u32 buf 60 = dh_user_version h"
    "fixed_u32 buf 64 = dh_incremental_vacuum h" "fixed_u32 buf 68 = dh_application_id h"
    "fixed_u32 buf 92 = dh_version_valid_for h" "fixed_u32 buf 96 = dh_sqlite_version h"
    by (simp_all add: h *)
qed

lemma header_image_of_parsed:
  assumes len: "length buf = 100" and p: "from_bytes buf = Inr h"
  shows "header_image h (replicate 100 0) = put 72 (replicate 20 0) buf"
proof -
  note d = from_bytes_InrD [OF p]
  have l: "length (replicate 100 (0 :: u8)) = 100" by simp
  have img: "subslice off hi (header_image h (replicate 100 0)) = src"
    if "(off, src) \<in> set (header_fields h)" "hi = off + length src" for off src hi
    by (rule header_image_field [OF l that])
  have u32: "subslice off (off + 4) (header_image h (replicate 100 0)) = subslice off (off + 4) buf"
    if "(off, to_be 4 (fixed_u32 buf off)) \<in> set (header_fields h)" "off + 4 \<le> 100" for off
    using img [OF that(1)] that(2) len by (simp add: to_be_fixed_u32)
  have u8: "subslice off (Suc off) (header_image h (replicate 100 0)) = subslice off (Suc off) buf"
    if "(off, [buf ! off]) \<in> set (header_fields h)" "off < 100" for off
    using img [OF that(1)] that(2) len by (simp add: subslice_single)
  have zero: "subslice 72 92 (header_image h (replicate 100 0)) = replicate 20 0"
    unfolding header_image_def
    by (subst subslice_put_fields_outside [OF header_fields_ok [OF l]])
      (auto simp: header_fields_def Let_def subslice_def map_replicate_const)
  have other: "subslice lo hi (put 72 (replicate 20 0) buf) = subslice lo hi buf"
    if "hi \<le> 72 \<or> 92 \<le> lo" for lo hi
    using that len by (intro subslice_put_other) auto
  have mem: "(0, DATABASE_HEADER_MAGIC) \<in> set (header_fields h)"
    "(16, to_be 2 (fixed_u16 buf 16)) \<in> set (header_fields h)"
    using d by (simp_all add: header_fields_def Let_def page_size_raw_def)
  have eq16: "subslice 0 16 (header_image h (replicate 100 0)) = subslice 0 16 buf"
    using img [OF mem(1), of 16] d(1) by (simp add: subslice_def)
  have eq18: "subslice 16 18 (header_image h (replicate 100 0)) = subslice 16 18 buf"
    using img [OF mem(2), of 18] len by (simp add: to_be_fixed_u16)
  show ?thesis
  proof (rule cuts_eqI)
    show "cuts_eq 0 [16, 18, 19, 20, 21, 22, 23, 24, 28, 32, 36, 40, 44, 48, 52, 56, 60, 64, 68, 72, 92, 96, 100]
        (header_image h (replicate 100 0)) (put 72 (replicate 20 0) buf)"
      using u8 [of 18] u8 [of 19] u8 [of 20] u8 [of 21] u8 [of 22] u8 [of 23]
        u32 [of 24] u32 [of 28] u32 [of 32] u32 [of 36] u32 [of 40] u32 [of 44] u32 [of 48]
        u32 [of 52] u32 [of 56] u32 [of 60] u32 [of 64] u32 [of 68] u32 [of 92] u32 [of 96] d(2-)
      by (simp add: eq16 eq18 zero other subslice_put_same len) (simp add: header_fields_def Let_def)
  qed (simp_all add: len)
qed

section \<open>Properties\<close>

text \<open>C31: \<open>to_bytes\<close> succeeds exactly on headers of schema format 4 whose usable page size is at
  least 480 bytes, and parsing what it wrote gives the same header back, provided the header holds
  a page size the type allows and a read version this code understands (which the writer does not
  check).\<close>

theorem header_write_read:
  assumes "valid_page_size (dh_page_size h)" and "dh_read_version h \<le> MAX_FILE_FORMAT_VERSION"
  shows "((\<exists>out. to_bytes h = Inr out) \<longleftrightarrow>
        dh_schema_format h = 4 \<and> 480 \<le> PageSize_usable (dh_page_size h) (dh_reserved_per_page h)) \<and>
      (\<forall>out. to_bytes h = Inr out \<longrightarrow> length out = 100 \<and> from_bytes out = Inr h)"
proof (intro conjI allI impI)
  show "(\<exists>out. to_bytes h = Inr out) \<longleftrightarrow>
      dh_schema_format h = 4 \<and> 480 \<le> PageSize_usable (dh_page_size h) (dh_reserved_per_page h)"
    by (auto simp: to_bytes_def write_to_bytes_def Let_def)
next
  fix out assume "to_bytes h = Inr out"
  then have out: "out = header_image h (replicate 100 0)" and sf: "dh_schema_format h = 4"
    and us: "\<not> PageSize_usable (dh_page_size h) (dh_reserved_per_page h) < 480"
    by (auto simp: to_bytes_def write_to_bytes_def Let_def split: if_splits)
  show "length out = 100" by (simp add: out)
  show "from_bytes out = Inr h"
    unfolding from_bytes_def out Let_def
    using assms sf us by (simp add: header_image_reads decode_page_size_raw not_less)
qed

theorem header_write_read_witness:
  "\<exists>out. to_bytes DatabaseHeader_default = Inr out \<and> from_bytes out = Inr DatabaseHeader_default"
proof -
  have v: "valid_page_size (dh_page_size DatabaseHeader_default)"
    and r: "dh_read_version DatabaseHeader_default \<le> MAX_FILE_FORMAT_VERSION"
    by (simp_all add: DatabaseHeader_default_def valid_page_size_def MAX_FILE_FORMAT_VERSION_def)
  obtain out where "to_bytes DatabaseHeader_default = Inr out"
    using header_write_read [OF v r] by (auto simp: DatabaseHeader_default_def PageSize_usable_def)
  then show ?thesis using header_write_read [OF v r] by blast
qed

text \<open>A header that parses is valid (supported page size, usable size of at least 480 bytes,
  schema format 4, understood read version), can be opened in some mode, and is written back
  byte for byte except for the reserved bytes 72 to 91, which are zeroed.\<close>

theorem header_read_write:
  assumes "length buf = 100" and "from_bytes buf = Inr h"
  shows "header_valid h \<and> to_bytes h = Inr (put 72 (replicate 20 0) buf) \<and>
      open_mode h MAX_FILE_FORMAT_VERSION =
        Inr (if dh_write_version h > MAX_FILE_FORMAT_VERSION then ReadOnly else ReadWrite)"
proof -
  have v: "header_valid h" by (rule from_bytes_InrD(2) [OF assms(2)])
  then show ?thesis
    using header_image_of_parsed [OF assms]
    by (auto simp: to_bytes_def write_to_bytes_def Let_def header_valid_def open_mode_def not_less)
qed

theorem header_read_write_witness:
  "\<exists>buf. length buf = 100 \<and> from_bytes buf = Inr DatabaseHeader_default \<and>
     to_bytes DatabaseHeader_default = Inr (put 72 (replicate 20 0) buf)"
proof -
  let ?b = "header_image DatabaseHeader_default (replicate 100 0)"
  have "from_bytes ?b = Inr DatabaseHeader_default" by code_simp
  then show ?thesis using header_read_write [of ?b DatabaseHeader_default]
    by (intro exI [of _ ?b]) simp
qed

end
