(* ===== verification/BtreePage.thy ===== *)
theory BtreePage
  imports DatabaseHeader
begin

text \<open>
  \<open>crates/fsqlite-types/src/lib.rs\<close>, last part: the strict parser of B-tree page headers, of
  the cell pointer array and of the freeblock list, and the writers of empty leaf pages.
\<close>

definition BTREE_MAX_FRAGMENTED_FREE_BYTES :: u8 where
  "BTREE_MAX_FRAGMENTED_FREE_BYTES = 60"

datatype BTreePageError =
  PageSizeMismatch nat nat
  | PageTooSmall nat nat
  | InvalidPageType u8
  | InvalidFragmentedFreeBytes u8 u8
  | InvalidCellContentAreaStart u16 u32 nat
  | CellContentAreaOverlapsCellPointers u32 nat
  | CellPointerArrayOutOfBounds nat nat nat
  | InvalidCellPointer nat u16 nat
  | InvalidFreeblock u16 u16 nat
  | FreeblockLoop u16
  | InvalidRightMostChild u32

record BTreePageHeader =
  ph_header_offset :: nat
  ph_page_type :: BTreePageType
  ph_first_freeblock :: u16
  ph_cell_count :: u16
  ph_cell_content_start :: u32
  ph_fragmented_free_bytes :: u8
  ph_right_most_child :: "PageNumber option"

definition ph_header_size :: "BTreePageHeader \<Rightarrow> nat" where
  "ph_header_size h = (if is_leaf (ph_page_type h) then 8 else 12)"

text \<open>\<open>u16::from_be_bytes([page[off], page[off + 1]])\<close> and its 32-bit counterpart: indexing past the end of the page
  panics.\<close>

definition be16_at :: "bytes \<Rightarrow> nat \<Rightarrow> u16 option" where
  "be16_at page off = do { a \<leftarrow> buf_get page off; b \<leftarrow> buf_get page (off + 1); Some (from_be [a, b]) }"

definition be32_at :: "bytes \<Rightarrow> nat \<Rightarrow> u32 option" where
  "be32_at page off =
     do { a \<leftarrow> buf_get page off; b \<leftarrow> buf_get page (off + 1); c \<leftarrow> buf_get page (off + 2); d \<leftarrow> buf_get page (off + 3);
          Some (from_be [a, b, c, d]) }"

definition ph_parse :: "bytes \<Rightarrow> PageSize \<Rightarrow> u8 \<Rightarrow> bool \<Rightarrow> (BTreePageError + BTreePageHeader) option" where
  "ph_parse page page_size reserved_per_page is_page1 =
     (let expected = unat page_size in
      if length page \<noteq> expected then Some (Inl (PageSizeMismatch expected (length page))) else
      let usable_size = unat (PageSize_usable page_size reserved_per_page);
          header_offset = (if is_page1 then DATABASE_HEADER_SIZE else 0);
          min_needed = header_offset + 8 in
      if usable_size < min_needed then Some (Inl (PageTooSmall usable_size min_needed)) else
      do { page_type_raw \<leftarrow> buf_get page header_offset;
      case BTreePageType_from_byte page_type_raw of None \<Rightarrow> Some (Inl (InvalidPageType page_type_raw))
      | Some page_type \<Rightarrow>
      let header_size = (if is_leaf page_type then 8 else 12);
          needed = header_offset + header_size in
      if usable_size < needed then Some (Inl (PageTooSmall usable_size needed)) else
      do { first_freeblock \<leftarrow> be16_at page (header_offset + 1);
           cell_count \<leftarrow> be16_at page (header_offset + 3);
           cell_content_raw \<leftarrow> be16_at page (header_offset + 5);
      let cell_content_start = (if cell_content_raw = 0 then 65536 else ucast cell_content_raw) in
      if unat cell_content_start > usable_size
      then Some (Inl (InvalidCellContentAreaStart cell_content_raw cell_content_start usable_size)) else
      do { fragmented_free_bytes \<leftarrow> buf_get page (header_offset + 7);
      if fragmented_free_bytes > BTREE_MAX_FRAGMENTED_FREE_BYTES
      then Some (Inl (InvalidFragmentedFreeBytes fragmented_free_bytes BTREE_MAX_FRAGMENTED_FREE_BYTES)) else
      do { raw \<leftarrow> (if is_interior page_type then be32_at page (header_offset + 8) else Some 0);
      if is_interior page_type \<and> PageNumber_new raw = None then Some (Inl (InvalidRightMostChild raw)) else
      let right_most_child = (if is_interior page_type then PageNumber_new raw else None);
          ptr_array_start = header_offset + header_size;
          ptr_array_len = unat cell_count * 2 in
      if ptr_array_start + ptr_array_len > usable_size
      then Some (Inl (CellPointerArrayOutOfBounds ptr_array_start ptr_array_len usable_size)) else
      let ptr_array_end = ptr_array_start + ptr_array_len in
      if unat cell_content_start < ptr_array_end
      then Some (Inl (CellContentAreaOverlapsCellPointers cell_content_start ptr_array_end)) else
      Some (Inr \<lparr>ph_header_offset = header_offset, ph_page_type = page_type,
           ph_first_freeblock = first_freeblock, ph_cell_count = cell_count,
           ph_cell_content_start = cell_content_start,
           ph_fragmented_free_bytes = fragmented_free_bytes,
           ph_right_most_child = right_most_child\<rparr>) } } } })"

text \<open>The loop of \<open>parse_cell_pointers\<close> over the indices \<open>i\<close> still to read.\<close>

fun cell_pointers_loop ::
  "bytes \<Rightarrow> nat \<Rightarrow> nat \<Rightarrow> nat \<Rightarrow> nat \<Rightarrow> nat list \<Rightarrow> u16 list \<Rightarrow> (BTreePageError + u16 list) option" where
  "cell_pointers_loop page ptr_array_start min_cell_offset content_start usable_size [] out = Some (Inr out)"
| "cell_pointers_loop page ptr_array_start min_cell_offset content_start usable_size (i # is) out =
     (case be16_at page (ptr_array_start + i * 2) of
        None \<Rightarrow> None
      | Some cell_off \<Rightarrow>
          if unat cell_off < min_cell_offset \<or> unat cell_off < content_start \<or> unat cell_off \<ge> usable_size
          then Some (Inl (InvalidCellPointer i cell_off usable_size))
          else cell_pointers_loop page ptr_array_start min_cell_offset content_start usable_size is (out @ [cell_off]))"

definition parse_cell_pointers ::
  "BTreePageHeader \<Rightarrow> bytes \<Rightarrow> PageSize \<Rightarrow> u8 \<Rightarrow> (BTreePageError + u16 list) option" where
  "parse_cell_pointers h page page_size reserved_per_page =
     (let expected = unat page_size in
      if length page \<noteq> expected then Some (Inl (PageSizeMismatch expected (length page))) else
      let usable_size = unat (PageSize_usable page_size reserved_per_page);
          ptr_array_start = ph_header_offset h + ph_header_size h;
          ptr_array_len = unat (ph_cell_count h) * 2 in
      if ptr_array_start + ptr_array_len > usable_size
      then Some (Inl (CellPointerArrayOutOfBounds ptr_array_start ptr_array_len usable_size)) else
      cell_pointers_loop page ptr_array_start (ptr_array_start + ptr_array_len)
        (unat (ph_cell_content_start h)) usable_size [0..<unat (ph_cell_count h)] [])"

record Freeblock =
  fb_offset :: u16
  fb_next :: u16
  fb_size :: u16

text \<open>The traversal of the freeblock list.  The set of visited offsets makes it stop: it grows
  with every block and offsets are 16-bit values.  \<open>None\<close> is a panic of one of the indexing expressions.\<close>

function freeblocks_loop ::
  "bytes \<Rightarrow> nat \<Rightarrow> nat \<Rightarrow> u16 set \<Rightarrow> u16 \<Rightarrow> Freeblock list \<Rightarrow> (BTreePageError + Freeblock list) option" where
  "freeblocks_loop page content_start usable_size seen offset blocks =
     (if offset = 0 then Some (Inr blocks) else
      if offset \<in> seen then Some (Inl (FreeblockLoop offset)) else
      let off = unat offset in
      if off < content_start then Some (Inl (InvalidFreeblock offset 0 usable_size)) else
      if off + 4 > usable_size then Some (Inl (InvalidFreeblock offset 0 usable_size)) else
      case (be16_at page off, be16_at page (off + 2)) of
        (Some next, Some sz) \<Rightarrow>
          if sz < 4 \<or> off + unat sz > usable_size then Some (Inl (InvalidFreeblock offset sz usable_size)) else
          freeblocks_loop page content_start usable_size (insert offset seen) next
            (blocks @ [\<lparr>fb_offset = offset, fb_next = next, fb_size = sz\<rparr>])
      | _ \<Rightarrow> None)"
  by pat_completeness auto
termination
proof (relation "measure (\<lambda>(_, _, _, seen, _, _). card (- seen))", goal_cases)
  case (2 page content_start usable_size seen offset blocks)
  have "- insert offset seen \<subset> - seen" using 2(2) by auto
  then show ?case by (simp add: psubset_card_mono)
qed simp

declare freeblocks_loop.simps [simp del]

definition parse_freeblocks ::
  "BTreePageHeader \<Rightarrow> bytes \<Rightarrow> PageSize \<Rightarrow> u8 \<Rightarrow> (BTreePageError + Freeblock list) option" where
  "parse_freeblocks h page page_size reserved_per_page =
     (let expected = unat page_size in
      if length page \<noteq> expected then Some (Inl (PageSizeMismatch expected (length page))) else
      freeblocks_loop page (unat (ph_cell_content_start h))
        (unat (PageSize_usable page_size reserved_per_page)) {} (ph_first_freeblock h) [])"

definition write_empty_leaf :: "u8 \<Rightarrow> bytes \<Rightarrow> nat \<Rightarrow> u32 \<Rightarrow> bytes option" where
  "write_empty_leaf type_byte page header_offset usable_size =
     do { page \<leftarrow> buf_set page header_offset type_byte;
          page \<leftarrow> buf_set page (header_offset + 1) 0;
          page \<leftarrow> buf_set page (header_offset + 2) 0;
          page \<leftarrow> buf_set page (header_offset + 3) 0;
          page \<leftarrow> buf_set page (header_offset + 4) 0;
          let content_raw = (if usable_size \<ge> 65536 then 0 else ucast usable_size :: u16);
          page \<leftarrow> buf_write page (header_offset + 5) (to_be 2 content_raw);
          buf_set page (header_offset + 7) 0 }"

definition write_empty_leaf_table :: "bytes \<Rightarrow> nat \<Rightarrow> u32 \<Rightarrow> bytes option" where
  "write_empty_leaf_table page header_offset usable_size =
     write_empty_leaf (page_type_byte LeafTable) page header_offset usable_size"

definition write_empty_leaf_index :: "bytes \<Rightarrow> nat \<Rightarrow> u32 \<Rightarrow> bytes option" where
  "write_empty_leaf_index page header_offset usable_size =
     write_empty_leaf (page_type_byte LeafIndex) page header_offset usable_size"

definition would_exceed_fragmented_free_bytes :: "u8 \<Rightarrow> u8 \<Rightarrow> bool" where
  "would_exceed_fragmented_free_bytes current additional \<longleftrightarrow>
     sat_add current additional > BTREE_MAX_FRAGMENTED_FREE_BYTES"


section \<open>Header bounds\<close>

text \<open>The number stored at an offset inside the page.\<close>

definition be16 :: "bytes \<Rightarrow> nat \<Rightarrow> u16" where
  "be16 page off = from_be [page ! off, page ! (off + 1)]"

lemma be16_at_eq: "be16_at page off = (if off + 2 \<le> length page then Some (be16 page off) else None)"
  by (auto simp: be16_at_def be16_def buf_get_def split: Option.bind_splits)

lemma be32_at_total: "off + 4 \<le> length page \<Longrightarrow> \<exists>v. be32_at page off = Some v"
  by (simp add: be32_at_def buf_get_def)

lemma be16_subslice: "off + 2 \<le> length page \<Longrightarrow> be16 page off = from_be (subslice off (off + 2) page)"
  by (simp only: be16_def subslice_2)

text \<open>What the strict parser promises of a header of a page of \<open>usable\<close> bytes.\<close>

definition ph_wf :: "nat \<Rightarrow> bool \<Rightarrow> BTreePageHeader \<Rightarrow> bool" where
  "ph_wf usable is_page1 h \<longleftrightarrow>
     ph_header_offset h = (if is_page1 then 100 else 0) \<and>
     ph_header_offset h + ph_header_size h + 2 * unat (ph_cell_count h) \<le> unat (ph_cell_content_start h) \<and>
     unat (ph_cell_content_start h) \<le> usable \<and>
     ph_fragmented_free_bytes h \<le> BTREE_MAX_FRAGMENTED_FREE_BYTES \<and>
     (is_interior (ph_page_type h) \<longleftrightarrow> ph_right_most_child h \<noteq> None) \<and>
     (\<forall>c. ph_right_most_child h = Some c \<longrightarrow> valid_pgno c)"

definition empty_leaf_header :: "nat \<Rightarrow> BTreePageType \<Rightarrow> u32 \<Rightarrow> BTreePageHeader" where
  "empty_leaf_header off t us =
     \<lparr>ph_header_offset = off, ph_page_type = t, ph_first_freeblock = 0, ph_cell_count = 0,
      ph_cell_content_start = us, ph_fragmented_free_bytes = 0, ph_right_most_child = None\<rparr>"

text \<open>A page header the strict parser accepts describes a page of the expected size in which
  the header, the cell pointer array and the cell content area lie in this order without overlap
  inside the usable area, with a bounded fragment count and a right child exactly on interior pages.\<close>

theorem ph_parse_wf:
  assumes "ph_parse page page_size reserved is_page1 = Some (Inr h)"
  shows "length page = unat page_size \<and> ph_wf (unat (PageSize_usable page_size reserved)) is_page1 h"
  using assms
  by (auto simp: ph_parse_def Let_def ph_wf_def ph_header_size_def DATABASE_HEADER_SIZE_def not_less
      PageNumber_new_Some split: if_splits option.splits Option.bind_splits)

theorem ph_parse_wf_witness:
  "ph_wf 512 False (empty_leaf_header 0 LeafTable 512)"
proof -
  have "ph_parse (13 # replicate 4 0 @ [2, 0, 0] @ replicate 504 0) 512 0 False =
      Some (Inr (empty_leaf_header 0 LeafTable 512))"
    by code_simp
  from ph_parse_wf [OF this] show ?thesis by (simp add: PageSize_usable_def)
qed

text \<open>The usable part of a page of a valid size lies inside the page, so the checks against it keep every index in bounds.\<close>

lemma usable_le: "valid_page_size page_size \<Longrightarrow> unat (PageSize_usable page_size reserved) \<le> unat page_size"
  by (simp add: unat_usable)

lemma ph_parse_total:
  assumes "valid_page_size page_size"
  shows "ph_parse page page_size reserved is_page1 \<noteq> None"
proof -
  let ?us = "unat (PageSize_usable page_size reserved)"
  define ho where "ho = (if is_page1 then DATABASE_HEADER_SIZE else 0)"
  show ?thesis
  proof (cases "length page = unat page_size \<and> ho + 8 \<le> ?us")
    case False
    then show ?thesis by (auto simp: ph_parse_def Let_def ho_def [symmetric])
  next
    case True
    then have len: "?us \<le> length page" "ho + 8 \<le> length page" using usable_le [OF assms, of reserved] by auto
    obtain u a b c f where v: "buf_get page ho = Some u" "be16_at page (ho + 1) = Some a" "be16_at page (ho + 3) = Some b"
        "be16_at page (ho + 5) = Some c" "buf_get page (ho + 7) = Some f"
      using len(2) by (simp add: buf_get_def be16_at_eq)
    have raw: "\<exists>v. be32_at page (ho + 8) = Some v" if "ho + 12 \<le> ?us" using be32_at_total [of "ho + 8" page] that len(1) by simp
    show ?thesis
    proof (cases "BTreePageType_from_byte u")
      case None
      then show ?thesis using True v by (simp add: ph_parse_def Let_def ho_def [symmetric])
    next
      case (Some t)
      have il: "is_leaf t \<longleftrightarrow> \<not> is_interior t" by (cases t) auto
      show ?thesis
      proof (cases "is_interior t \<and> ho + 12 \<le> ?us")
        case True
        then obtain w where "be32_at page (ho + 8) = Some w" using raw by blast
        then show ?thesis using True \<open>length page = unat page_size \<and> ho + 8 \<le> ?us\<close> v Some
          by (simp add: ph_parse_def Let_def ho_def [symmetric])
      next
        case False
        then show ?thesis using True v Some by (auto simp: ph_parse_def Let_def il ho_def [symmetric])
      qed
    qed
  qed
qed

section \<open>Cell pointers\<close>

lemma cell_pointers_loop_Inr:
  assumes "\<And>i. i \<in> set is \<Longrightarrow> st + i * 2 + 2 \<le> length page"
  shows "cell_pointers_loop page st mn cs us is out = Some (Inr res) \<longleftrightarrow>
     res = out @ map (\<lambda>i. be16 page (st + i * 2)) is \<and>
     (\<forall>i \<in> set is. mn \<le> unat (be16 page (st + i * 2)) \<and>
        cs \<le> unat (be16 page (st + i * 2)) \<and> unat (be16 page (st + i * 2)) < us)"
  using assms by (induction "is" arbitrary: out) (auto simp: be16_at_eq not_less)

text \<open>\<open>parse_cell_pointers\<close> on a parsed header returns the pointer array as stored, one entry
  per cell, if and only if every pointer lies in the cell content area inside the usable page.\<close>

theorem parse_cell_pointers_exact:
  assumes "valid_page_size page_size" "ph_wf (unat (PageSize_usable page_size reserved)) is_page1 h" "length page = unat page_size"
  shows "parse_cell_pointers h page page_size reserved = Some (Inr ptrs) \<longleftrightarrow>
      ptrs = map (\<lambda>i. be16 page (ph_header_offset h + ph_header_size h + i * 2)) [0..<unat (ph_cell_count h)] \<and>
      (\<forall>p \<in> set ptrs. unat (ph_cell_content_start h) \<le> unat p \<and>
         unat p < unat (PageSize_usable page_size reserved))"
proof -
  let ?st = "ph_header_offset h + ph_header_size h" and ?n = "unat (ph_cell_count h)"
  have wf: "?st + ?n * 2 \<le> unat (ph_cell_content_start h)"
    "\<not> ?st + ?n * 2 > unat (PageSize_usable page_size reserved)"
    using assms(2) by (auto simp: ph_wf_def)
  then have mono: "unat (ph_cell_content_start h) \<le> x \<Longrightarrow> ?st + ?n * 2 \<le> x" for x by simp
  have idx: "?st + i * 2 + 2 \<le> length page" if "i \<in> set [0..<?n]" for i
  proof -
    have "i * 2 + 2 \<le> ?n * 2" using that by simp
    then show ?thesis using wf(2) usable_le [OF assms(1), of reserved] assms(3) by linarith
  qed
  have "parse_cell_pointers h page page_size reserved = cell_pointers_loop page ?st (?st + ?n * 2) (unat (ph_cell_content_start h))
      (unat (PageSize_usable page_size reserved)) [0..<?n] []"
    using wf(2) assms(3) by (simp add: parse_cell_pointers_def Let_def)
  then show ?thesis using cell_pointers_loop_Inr [of "[0..<?n]" ?st page, OF idx] by (auto intro: mono)
qed

text \<open>A page with one 4-byte cell pointer array entry and one freeblock, for the witnesses.\<close>

definition sample_page :: bytes where
  "sample_page = [13, 1, 244, 0, 1, 1, 240, 0, 1, 240] @ replicate 490 0 @ [0, 0, 0, 4] @ replicate 8 0"

definition sample_header :: BTreePageHeader where
  "sample_header = \<lparr>ph_header_offset = 0, ph_page_type = LeafTable, ph_first_freeblock = 500,
     ph_cell_count = 1, ph_cell_content_start = 496, ph_fragmented_free_bytes = 0,
     ph_right_most_child = None\<rparr>"

lemma sample_size: "valid_page_size 512"
  by (simp add: valid_page_size_def)

theorem parse_cell_pointers_exact_witness:
  "parse_cell_pointers sample_header sample_page 512 0 = Some (Inr [496])"
proof -
  have wf: "ph_wf (unat (PageSize_usable 512 0)) False sample_header"
    by (simp add: ph_wf_def sample_header_def ph_header_size_def PageSize_usable_def
        BTREE_MAX_FRAGMENTED_FREE_BYTES_def)
  have l: "length sample_page = unat (512 :: u32)" by (simp add: sample_page_def)
  have p: "be16 sample_page 8 = 496" by code_simp
  show ?thesis
    using parse_cell_pointers_exact [OF sample_size wf l, of "[496]"] p
    by (simp add: sample_header_def ph_header_size_def PageSize_usable_def)
qed

section \<open>Freeblocks\<close>

text \<open>\<open>fb_chain page lo us start bs\<close>: starting at offset \<open>start\<close> the blocks \<open>bs\<close> are the
  freeblock list of the page, each inside the content area \<open>[lo, us)\<close>, ending with offset 0.\<close>

fun fb_chain :: "bytes \<Rightarrow> nat \<Rightarrow> nat \<Rightarrow> u16 \<Rightarrow> Freeblock list \<Rightarrow> bool" where
  "fb_chain page lo us start [] = (start = 0)"
| "fb_chain page lo us start (b # bs) =
     (start \<noteq> 0 \<and> fb_offset b = start \<and> lo \<le> unat start \<and> 4 \<le> unat (fb_size b) \<and>
      unat start + unat (fb_size b) \<le> us \<and>
      fb_next b = be16 page (unat start) \<and> fb_size b = be16 page (unat start + 2) \<and>
      fb_chain page lo us (fb_next b) bs)"

text \<open>One round of the traversal on a page that has the whole usable area.\<close>

lemma freeblocks_step:
  assumes "us \<le> length page"
  shows "freeblocks_loop page lo us seen start acc =
     (if start = 0 then Some (Inr acc)
      else if start \<in> seen then Some (Inl (FreeblockLoop start))
      else if unat start < lo \<or> us < unat start + 4 then Some (Inl (InvalidFreeblock start 0 us))
      else if be16 page (unat start + 2) < 4 \<or> us < unat start + unat (be16 page (unat start + 2))
      then Some (Inl (InvalidFreeblock start (be16 page (unat start + 2)) us))
      else freeblocks_loop page lo us (insert start seen) (be16 page (unat start))
        (acc @ [\<lparr>fb_offset = start, fb_next = be16 page (unat start), fb_size = be16 page (unat start + 2)\<rparr>]))"
  using assms by (subst freeblocks_loop.simps) (auto simp: Let_def be16_at_eq)

lemma freeblocks_loop_total: "us \<le> length page \<Longrightarrow> freeblocks_loop page lo us seen start acc \<noteq> None"
proof (induction page lo us seen start acc rule: freeblocks_loop.induct)
  case (1 page lo us seen start acc)
  show ?case
  proof (cases "start = 0 \<or> start \<in> seen \<or> unat start < lo \<or> us < unat start + 4 \<or>
      be16 page (unat start + 2) < 4 \<or> us < unat start + unat (be16 page (unat start + 2))")
    case True
    then show ?thesis by (subst freeblocks_step [OF "1.prems"]) auto
  next
    case False
    then have "freeblocks_loop page lo us (insert start seen) (be16 page (unat start))
        (acc @ [\<lparr>fb_offset = start, fb_next = be16 page (unat start), fb_size = be16 page (unat start + 2)\<rparr>]) \<noteq> None"
      using "1.prems" by (intro "1.IH" [OF _ _ refl]) (auto simp: be16_at_eq)
    then show ?thesis using False by (subst freeblocks_step [OF "1.prems"]) auto
  qed
qed

lemma freeblocks_loop_chain:
  "us \<le> length page \<Longrightarrow> freeblocks_loop page lo us seen start acc = Some (Inr res) \<Longrightarrow>
   \<exists>bs. res = acc @ bs \<and> fb_chain page lo us start bs \<and> distinct (map fb_offset bs) \<and>
     fb_offset ` set bs \<inter> seen = {}"
proof (induction page lo us seen start acc rule: freeblocks_loop.induct)
  case (1 page lo us seen start acc)
  let ?b = "\<lparr>fb_offset = start, fb_next = be16 page (unat start), fb_size = be16 page (unat start + 2)\<rparr>"
  show ?case
  proof (cases "start = 0")
    case True
    then show ?thesis using "1.prems"(2) by (simp add: freeblocks_step [OF "1.prems"(1)])
  next
    case False
    then have c: "start \<notin> seen" "\<not> unat start < lo" "\<not> unat start + 4 > us"
      "\<not> (be16 page (unat start + 2) < 4 \<or> unat start + unat (be16 page (unat start + 2)) > us)"
      and r: "freeblocks_loop page lo us (insert start seen) (be16 page (unat start)) (acc @ [?b]) = Some (Inr res)"
      using "1.prems"(2) [unfolded freeblocks_step [OF "1.prems"(1), of lo seen start acc]] by (auto split: if_splits)
    have "\<exists>bs. res = (acc @ [?b]) @ bs \<and> fb_chain page lo us (be16 page (unat start)) bs \<and>
      distinct (map fb_offset bs) \<and> fb_offset ` set bs \<inter> insert start seen = {}"
      using r c False "1.prems"(1) by (intro "1.IH" [OF _ _ refl]) (auto simp: be16_at_eq)
    then obtain bs where "res = (acc @ [?b]) @ bs" "fb_chain page lo us (be16 page (unat start)) bs"
      "distinct (map fb_offset bs)" "fb_offset ` set bs \<inter> insert start seen = {}" by blast
    with c False show ?thesis
      by (intro exI [of _ "?b # bs"]) (auto simp: word_less_nat_alt not_less)
  qed
qed

lemma chain_freeblocks_loop:
  "us \<le> length page \<Longrightarrow> fb_chain page lo us start bs \<Longrightarrow> distinct (map fb_offset bs) \<Longrightarrow> fb_offset ` set bs \<inter> seen = {} \<Longrightarrow>
   freeblocks_loop page lo us seen start acc = Some (Inr (acc @ bs))"
proof (induction bs arbitrary: start seen acc)
  case Nil
  then show ?case by (simp add: freeblocks_step)
next
  case (Cons b bs)
  have b: "b = \<lparr>fb_offset = start, fb_next = be16 page (unat start), fb_size = be16 page (unat start + 2)\<rparr>" using Cons.prems(2) by (cases b) auto
  have "freeblocks_loop page lo us (insert start seen) (be16 page (unat start)) (acc @ [b]) = Some (Inr ((acc @ [b]) @ bs))"
    using Cons.prems by (intro Cons.IH) (auto simp: b)
  then show ?case
    using Cons.prems(2-4) by (subst freeblocks_step [OF Cons.prems(1)]) (auto simp: b word_less_nat_alt not_less)
qed

text \<open>C39: On a page of a valid size, \<open>parse_freeblocks\<close> always returns without a panic, whatever the bytes and the header
  say; and it succeeds exactly when the page has the length of the page size and its freeblock list is sound, and then
  it returns that list in order: it starts at the header's first freeblock, is linked by the
  next pointers and ends with 0; the blocks have distinct offsets, so that a cyclic list is an error, at least four bytes, and lie
  inside the content area and the usable page.\<close>

theorem parse_freeblocks_chain:
  assumes "valid_page_size page_size"
  shows "parse_freeblocks h page page_size reserved \<noteq> None \<and>
    (parse_freeblocks h page page_size reserved = Some (Inr blocks) \<longleftrightarrow>
      length page = unat page_size \<and>
      fb_chain page (unat (ph_cell_content_start h)) (unat (PageSize_usable page_size reserved)) (ph_first_freeblock h) blocks \<and>
      distinct (map fb_offset blocks))"
proof (cases "length page = unat page_size")
  case False
  then show ?thesis by (simp add: parse_freeblocks_def Let_def)
next
  case True
  then have us: "unat (PageSize_usable page_size reserved) \<le> length page" using usable_le [OF assms] by simp
  have p: "parse_freeblocks h page page_size reserved = freeblocks_loop page (unat (ph_cell_content_start h))
      (unat (PageSize_usable page_size reserved)) {} (ph_first_freeblock h) []"
    using True by (simp add: parse_freeblocks_def Let_def)
  show ?thesis unfolding p
    using freeblocks_loop_total [OF us] freeblocks_loop_chain [OF us, of _ "{}" _ "[]" blocks] chain_freeblocks_loop [OF us, of _ _ blocks "{}" "[]"] True
    by fastforce
qed

theorem parse_freeblocks_chain_witness:
  "parse_freeblocks sample_header sample_page 512 0 = Some (Inr [\<lparr>fb_offset = 500, fb_next = 0, fb_size = 4\<rparr>])"
proof -
  let ?bs = "[\<lparr>fb_offset = 500, fb_next = 0, fb_size = 4\<rparr>]"
  have b: "be16 sample_page 500 = 0" "be16 sample_page 502 = 4" by code_simp+
  have "fb_chain sample_page 496 512 500 ?bs" using b by simp
  then show ?thesis
    using parse_freeblocks_chain [OF sample_size, of sample_header sample_page 0 ?bs]
    by (simp add: sample_header_def PageSize_usable_def) (simp add: sample_page_def)
qed

section \<open>Empty leaf pages\<close>

definition content_raw :: "u32 \<Rightarrow> u16" where
  "content_raw us = (if us \<ge> 65536 then 0 else ucast us)"

lemma content_raw_decode:
  "0 < unat us \<Longrightarrow> unat us \<le> 65536 \<Longrightarrow> (if content_raw us = 0 then 65536 else ucast (content_raw us)) = us"
proof (cases "65536 \<le> us")
  case True
  assume "unat us \<le> 65536"
  with True show ?thesis by (simp add: content_raw_def word_unat_eq_iff word_le_nat_alt)
next
  case False
  assume "0 < unat us"
  have "take_bit 16 us = us" using False by (intro take_bit_unat_self) (simp add: word_le_nat_alt)
  then have "bit us i \<Longrightarrow> i < 16" for i by (metis bit_take_bit_iff)
  then have u: "ucast (ucast us :: u16) = us" by (intro bit_word_eqI) (auto simp: bit_simps)
  then have "(ucast us :: u16) \<noteq> 0" using \<open>0 < unat us\<close> by auto
  then show ?thesis using False u by (simp add: content_raw_def)
qed

lemma write_empty_leaf_fields:
  assumes "off + 8 \<le> length page"
  shows "write_empty_leaf t page off us =
    Some (put_fields [(off, [t]), (off + 1, [0]), (off + 2, [0]), (off + 3, [0]), (off + 4, [0]),
      (off + 5, to_be 2 (content_raw us)), (off + 7, [0])] page)"
  using assms by (simp add: write_empty_leaf_def buf_set_put buf_write_put content_raw_def Let_def)

lemma empty_leaf_reads:
  assumes "off + 8 \<le> length page" and "write_empty_leaf t page off us = Some page'"
  shows "length page' = length page" "page' ! off = t"
    "be16 page' (off + 1) = 0" "be16 page' (off + 3) = 0"
    "be16 page' (off + 5) = content_raw us" "page' ! (off + 7) = 0"
    "take off page' = take off page" "drop (off + 8) page' = drop (off + 8) page"
proof -
  let ?fs = "[(off, [t]), (off + 1, [0]), (off + 2, [0]), (off + 3, [0]), (off + 4, [0]),
      (off + 5, to_be 2 (content_raw us)), (off + 7, [0])]"
  have p: "page' = put_fields ?fs page" using assms by (simp add: write_empty_leaf_fields)
  have ok: "fields_ok 0 (length page) ?fs" using assms(1) by simp
  show len: "length page' = length page" unfolding p by (rule length_put_fields [OF ok])
  show "page' ! off = t" "page' ! (off + 7) = 0"
    unfolding p by (rule nth_put_fields [OF ok]; simp)+
  have z: "page' ! (off + k) = 0" if "k \<in> {1, 2, 3, 4}" for k
    unfolding p using that by (intro nth_put_fields [OF ok]) auto
  show "be16 page' (off + 1) = 0" "be16 page' (off + 3) = 0"
    using z [of 1] z [of 2] z [of 3] z [of 4] by (simp_all add: be16_def from_be_def add.commute)
  have "subslice (off + 5) (off + 7) page' = to_be 2 (content_raw us)"
    unfolding p by (rule subslice_put_fields [OF ok]) auto
  then show "be16 page' (off + 5) = content_raw us"
    using be16_subslice [of "off + 5" page'] len assms(1) by (simp add: field_laws add.commute)
  have out: "subslice lo hi page' = subslice lo hi page" if "hi \<le> off \<or> off + 8 \<le> lo" for lo hi
    unfolding p by (rule subslice_put_fields_outside [OF ok]) (use that in auto)
  show "take off page' = take off page" using out [of off 0] by (simp add: subslice_def)
  show "drop (off + 8) page' = drop (off + 8) page"
    using out [of "length page" "off + 8"] len by (simp add: subslice_def)
qed

text \<open>An empty leaf page written by \<open>write_empty_leaf_table\<close> or
  \<open>write_empty_leaf_index\<close> parses to a header of that type with no cell, no freeblock and
  the whole usable area free, including the 65536-byte page whose content offset is stored as 0;
  the bytes around the header are untouched.\<close>

theorem empty_leaf_parses:
  assumes "valid_page_size ps" and "length page = unat ps" and "off = (if is_page1 then 100 else 0)"
    and "us = PageSize_usable ps reserved" and "off + 8 \<le> unat us"
    and "(t, w) \<in> {(LeafTable, write_empty_leaf_table), (LeafIndex, write_empty_leaf_index)}"
  shows "\<exists>page'. w page off us = Some page' \<and>
      ph_parse page' ps reserved is_page1 = Some (Inr (empty_leaf_header off t us)) \<and>
      take off page' = take off page \<and> drop (off + 8) page' = drop (off + 8) page"
proof -
  have le: "unat us \<le> unat ps" "unat ps \<le> 65536"
    using unat_usable [OF assms(1), of reserved] valid_page_size_unat [OF assms(1)] assms(4) by auto
  have fit: "off + 8 \<le> length page" using assms(2,5) le by simp
  have w: "w page off us = write_empty_leaf (page_type_byte t) page off us"
    using assms(6) by (auto simp: write_empty_leaf_table_def write_empty_leaf_index_def)
  obtain page' where page': "write_empty_leaf (page_type_byte t) page off us = Some page'"
    using write_empty_leaf_fields [OF fit] by blast
  note r = empty_leaf_reads [OF fit page']
  have leaf: "is_leaf t" "\<not> is_interior t" using assms(6) by auto
  have cs: "(if content_raw us = 0 then 65536 else ucast (content_raw us)) = us"
    using assms(5) le by (intro content_raw_decode) auto
  have offd: "(if is_page1 then DATABASE_HEADER_SIZE else 0) = off"
    using assms(3) by (simp add: DATABASE_HEADER_SIZE_def)
  have "ph_parse page' ps reserved is_page1 = Some (Inr (empty_leaf_header off t us))"
    unfolding ph_parse_def Let_def offd assms(4) [symmetric]
    using assms(2,5) r leaf cs fit by (simp add: empty_leaf_header_def BTREE_MAX_FRAGMENTED_FREE_BYTES_def be16_at_eq buf_get_def)
  then show ?thesis using page' r w by auto
qed

theorem empty_leaf_parses_witness:
  "\<exists>page'. write_empty_leaf_table (replicate 512 1) 100 512 = Some page' \<and>
     ph_parse page' 512 0 True = Some (Inr (empty_leaf_header 100 LeafTable 512))"
  using empty_leaf_parses [of 512 "replicate 512 1" 100 True 512 0 LeafTable write_empty_leaf_table]
  by (auto simp: valid_page_size_def PageSize_usable_def)

end
