(* ===== verification/RecordFormat.thy ===== *)
theory RecordFormat
  imports SerialType
begin

text \<open>
  \<open>crates/fsqlite-types/src/record.rs\<close>: the SQLite record format.  Values are translated with
  \<open>f64\<close> as its IEEE bit pattern and text as its UTF-8 bytes.  The UTF-8 validator
  (\<open>simdutf8::basic::from_utf8\<close>, a third-party crate) is the parameter \<open>utf8\<close>; the slot that the
  thread-local value pool hands to \<open>decode_value\<close> is an argument, since the pool only recycles
  storage.  Profiling counters are left out.
\<close>

datatype SqliteValue = Null | Integer i64 | Float u64 | Text bytes | Blob bytes

definition f64_is_nan :: "u64 \<Rightarrow> bool" where
  "f64_is_nan bits \<longleftrightarrow>
     bits AND 0x7FF0000000000000 = 0x7FF0000000000000 \<and> bits AND 0x000FFFFFFFFFFFFF \<noteq> 0"

section \<open>Decoding values\<close>

definition decode_big_endian_signed :: "bytes \<Rightarrow> i64" where
  "decode_big_endian_signed bytes =
     (let fill = (if (bytes ! 0) AND 0x80 \<noteq> 0 then 0xFF else 0 :: u8) in
      if length bytes = 0 then 0
      else if length bytes = 1 then scast (bytes ! 0)
      else if length bytes = 2 then scast (from_be bytes :: 16 word)
      else if length bytes = 3 then scast (from_be (fill # bytes) :: 32 word)
      else if length bytes = 4 then scast (from_be bytes :: 32 word)
      else if length bytes = 6 then from_be (fill # fill # bytes)
      else if length bytes = 8 then from_be bytes
      else foldl (\<lambda>value b. push_bit 8 value OR ucast b)
             (if (bytes ! 0) AND 0x80 \<noteq> 0 then - 1 else 0) bytes)"

definition decode_value_into :: "(bytes \<Rightarrow> bool) \<Rightarrow> u64 \<Rightarrow> bytes \<Rightarrow> SqliteValue \<Rightarrow> SqliteValue option" where
  "decode_value_into utf8 serial_type bytes slot =
     (case classify_serial_type serial_type of
        ClassNull \<Rightarrow> Some Null
      | ClassReserved \<Rightarrow> Some Null
      | ClassZero \<Rightarrow> Some (Integer 0)
      | ClassOne \<Rightarrow> Some (Integer 1)
      | ClassInteger \<Rightarrow> Some (Integer (decode_big_endian_signed bytes))
      | ClassFloat \<Rightarrow>
          (if length bytes \<noteq> 8 then None
           else let bits = from_be bytes in Some (if f64_is_nan bits then Null else Float bits))
      | ClassText \<Rightarrow>
          (case slot of
             Text existing \<Rightarrow>
               (if existing = bytes then Some slot
                else if utf8 bytes then Some (Text bytes) else None)
           | _ \<Rightarrow> (if utf8 bytes then Some (Text bytes) else None))
      | ClassBlob \<Rightarrow>
          (case slot of
             Blob existing \<Rightarrow> (if existing = bytes then Some slot else Some (Blob bytes))
           | _ \<Rightarrow> Some (Blob bytes)))"

definition decode_value :: "(bytes \<Rightarrow> bool) \<Rightarrow> SqliteValue \<Rightarrow> u64 \<Rightarrow> bytes \<Rightarrow> SqliteValue option" where
  "decode_value utf8 pooled serial_type bytes =
     (case classify_serial_type serial_type of
        ClassNull \<Rightarrow> Some Null
      | ClassReserved \<Rightarrow> Some Null
      | ClassZero \<Rightarrow> Some (Integer 0)
      | ClassOne \<Rightarrow> Some (Integer 1)
      | ClassInteger \<Rightarrow> Some (Integer (decode_big_endian_signed bytes))
      | ClassFloat \<Rightarrow>
          (if length bytes \<noteq> 8 then None
           else let bits = from_be bytes in Some (if f64_is_nan bits then Null else Float bits))
      | _ \<Rightarrow> decode_value_into utf8 serial_type bytes pooled)"

section \<open>Parsing records\<close>

text \<open>The opening every reader shares: the header-size varint and its two bounds checks.\<close>

definition record_prologue :: "bytes \<Rightarrow> (nat \<times> nat) option" where
  "record_prologue data =
     (if data = [] then None else
      do { (header_size_u64, hdr_varint_len) \<leftarrow> read_varint data;
           let header_size = unat header_size_u64;
           if header_size > length data \<or> header_size < hdr_varint_len then None
           else Some (header_size, hdr_varint_len) })"

lemma read_varint_range: "read_varint buf = Some (v, n) \<Longrightarrow> 1 \<le> n \<and> n \<le> 9 \<and> n \<le> length buf"
  using vread_range [of 0 0 buf v n] by (simp add: read_varint_vread)

text \<open>One turn of the header loop: the next serial type, and the end of its body range.\<close>

definition next_column :: "bytes \<Rightarrow> nat \<Rightarrow> nat \<Rightarrow> nat \<Rightarrow> (u64 \<times> nat \<times> nat) option" where
  "next_column data header_size offset body_offset =
     do { (serial_type, consumed) \<leftarrow> read_varint (subslice offset header_size data);
          value_len \<leftarrow> serial_type_len serial_type;
          body_end \<leftarrow> usize_checked_add body_offset (unat value_len);
          Some (serial_type, offset + consumed, body_end) }"

lemma next_column_progress:
  "next_column data header_size offset body_offset = Some (st, off', e) \<Longrightarrow> offset < off'"
  by (auto simp: next_column_def split: Option.bind_splits dest: read_varint_range)

function parse_into_loop ::
  "(bytes \<Rightarrow> bool) \<Rightarrow> (nat \<Rightarrow> SqliteValue) \<Rightarrow> bytes \<Rightarrow> nat \<Rightarrow> nat \<Rightarrow> nat \<Rightarrow> nat \<Rightarrow> SqliteValue list \<Rightarrow>
   SqliteValue list option" where
  "parse_into_loop utf8 pool data header_size offset body_offset decoded_count values =
     (if offset < header_size then
        (case next_column data header_size offset body_offset of
           None \<Rightarrow> None
         | Some (serial_type, offset', body_end) \<Rightarrow>
             if body_end > length data then None else
             let value_bytes = subslice body_offset body_end data in
             (case (if decoded_count < length values
                    then map_option (\<lambda>v. values[decoded_count := v])
                           (decode_value_into utf8 serial_type value_bytes (values ! decoded_count))
                    else map_option (\<lambda>v. values @ [v])
                           (decode_value utf8 (pool decoded_count) serial_type value_bytes)) of
                None \<Rightarrow> None
              | Some values' \<Rightarrow>
                  parse_into_loop utf8 pool data header_size offset' body_end (Suc decoded_count) values'))
      else if body_offset \<noteq> length data then None
      else Some (take decoded_count values))"
  by pat_completeness auto
termination
  by (relation "measure (\<lambda>(_, _, _, hs, off, _). hs - off)") (auto dest!: next_column_progress)

declare parse_into_loop.simps [simp del]

definition parse_record_into ::
  "(bytes \<Rightarrow> bool) \<Rightarrow> (nat \<Rightarrow> SqliteValue) \<Rightarrow> bytes \<Rightarrow> SqliteValue list \<Rightarrow> SqliteValue list option" where
  "parse_record_into utf8 pool data values =
     do { (header_size, hdr_varint_len) \<leftarrow> record_prologue data;
          parse_into_loop utf8 pool data header_size hdr_varint_len header_size 0 values }"

definition parse_record :: "(bytes \<Rightarrow> bool) \<Rightarrow> (nat \<Rightarrow> SqliteValue) \<Rightarrow> bytes \<Rightarrow> SqliteValue list option" where
  "parse_record utf8 pool data = parse_record_into utf8 pool data []"

function parse_column_loop ::
  "(bytes \<Rightarrow> bool) \<Rightarrow> SqliteValue \<Rightarrow> bytes \<Rightarrow> nat \<Rightarrow> nat \<Rightarrow> nat \<Rightarrow> nat \<Rightarrow> nat \<Rightarrow> SqliteValue option" where
  "parse_column_loop utf8 pooled data col_idx header_size offset body_offset current_idx =
     (if offset < header_size then
        (case next_column data header_size offset body_offset of
           None \<Rightarrow> None
         | Some (serial_type, offset', body_end) \<Rightarrow>
             if body_end > length data then None else
             if current_idx = col_idx
             then decode_value utf8 pooled serial_type (subslice body_offset body_end data)
             else parse_column_loop utf8 pooled data col_idx header_size offset' body_end (Suc current_idx))
      else None)"
  by pat_completeness auto
termination
  by (relation "measure (\<lambda>(_, _, _, _, hs, off, _). hs - off)") (auto dest!: next_column_progress)

declare parse_column_loop.simps [simp del]

definition parse_record_column :: "(bytes \<Rightarrow> bool) \<Rightarrow> SqliteValue \<Rightarrow> bytes \<Rightarrow> nat \<Rightarrow> SqliteValue option" where
  "parse_record_column utf8 pooled data col_idx =
     do { (header_size, hdr_varint_len) \<leftarrow> record_prologue data;
          parse_column_loop utf8 pooled data col_idx header_size hdr_varint_len header_size 0 }"

function column_count_loop :: "bytes \<Rightarrow> nat \<Rightarrow> nat \<Rightarrow> nat \<Rightarrow> nat option" where
  "column_count_loop data header_size offset count =
     (if offset < header_size then
        (case read_varint (subslice offset header_size data) of
           None \<Rightarrow> None
         | Some (_, consumed) \<Rightarrow> column_count_loop data header_size (offset + consumed) (Suc count))
      else Some count)"
  by pat_completeness auto
termination
  by (relation "measure (\<lambda>(_, hs, off, _). hs - off)") (auto dest: read_varint_range)

declare column_count_loop.simps [simp del]

definition record_column_count :: "bytes \<Rightarrow> nat option" where
  "record_column_count data =
     do { (header_size, hdr_varint_len) \<leftarrow> record_prologue data;
          column_count_loop data header_size hdr_varint_len 0 }"

record ColumnOffset =
  co_serial_type :: u64
  co_body_offset :: u32
  co_value_len :: u32

definition u32_try_from :: "nat \<Rightarrow> u32 option" where
  "u32_try_from n = (if n < 2 ^ 32 then Some (word_of_nat n) else None)"

function header_into_loop ::
  "bool \<Rightarrow> bytes \<Rightarrow> nat \<Rightarrow> nat \<Rightarrow> nat \<Rightarrow> ColumnOffset list \<Rightarrow> ColumnOffset list option" where
  "header_into_loop full data header_size offset body_offset offsets =
     (if offset < header_size then
        (case next_column data header_size offset body_offset of
           None \<Rightarrow> None
         | Some (serial_type, offset', body_end) \<Rightarrow>
             if full \<and> body_end > length data then None else
             (case (u32_try_from body_offset, u32_try_from (body_end - body_offset)) of
                (Some bo, Some vl) \<Rightarrow>
                  header_into_loop full data header_size offset' body_end
                    (offsets @ [\<lparr>co_serial_type = serial_type, co_body_offset = bo, co_value_len = vl\<rparr>])
              | _ \<Rightarrow> None))
      else if full \<and> body_offset \<noteq> length data then None
      else Some offsets)"
  by pat_completeness auto
termination
  by (relation "measure (\<lambda>(_, _, hs, off, _). hs - off)") (auto dest!: next_column_progress)

declare header_into_loop.simps [simp del]

definition parse_record_header_into :: "bytes \<Rightarrow> ColumnOffset list option" where
  "parse_record_header_into data =
     do { (header_size, hdr_varint_len) \<leftarrow> record_prologue data;
          header_into_loop True data header_size hdr_varint_len header_size [] }"

definition parse_record_header_prefix_into :: "bytes \<Rightarrow> ColumnOffset list option" where
  "parse_record_header_prefix_into data =
     do { (header_size, hdr_varint_len) \<leftarrow> record_prologue data;
          header_into_loop False data header_size hdr_varint_len header_size [] }"

definition decode_column_from_offset ::
  "(bytes \<Rightarrow> bool) \<Rightarrow> SqliteValue \<Rightarrow> bytes \<Rightarrow> ColumnOffset \<Rightarrow> SqliteValue option" where
  "decode_column_from_offset utf8 pooled data col =
     do { let start = unat (co_body_offset col);
          body_end \<leftarrow> usize_checked_add start (unat (co_value_len col));
          if body_end > length data then None
          else decode_value utf8 pooled (co_serial_type col) (subslice start body_end data) }"

definition decode_column_from_offset_reuse ::
  "(bytes \<Rightarrow> bool) \<Rightarrow> SqliteValue \<Rightarrow> bytes \<Rightarrow> ColumnOffset \<Rightarrow> SqliteValue option \<Rightarrow> SqliteValue option" where
  "decode_column_from_offset_reuse utf8 pooled data col hint =
     do { let start = unat (co_body_offset col);
          body_end \<leftarrow> usize_checked_add start (unat (co_value_len col));
          if body_end > length data then None else
          let bytes = subslice start body_end data in
          (case (classify_serial_type (co_serial_type col), hint) of
             (ClassText, Some (Text arc)) \<Rightarrow>
               (if arc = bytes then Some (Text arc) else decode_value utf8 pooled (co_serial_type col) bytes)
           | (ClassBlob, Some (Blob arc)) \<Rightarrow>
               (if arc = bytes then Some (Blob arc) else decode_value utf8 pooled (co_serial_type col) bytes)
           | _ \<Rightarrow> decode_value utf8 pooled (co_serial_type col) bytes) }"

datatype NumericColumnValue = NumNull | NumInteger i64 | NumFloat u64 | NonNumeric

definition decode_numeric_column_from_offset :: "bytes \<Rightarrow> ColumnOffset \<Rightarrow> NumericColumnValue option" where
  "decode_numeric_column_from_offset data col =
     do { let start = unat (co_body_offset col);
          body_end \<leftarrow> usize_checked_add start (unat (co_value_len col));
          if body_end > length data then None else
          let bytes = subslice start body_end data in
          (case classify_serial_type (co_serial_type col) of
             ClassNull \<Rightarrow> Some NumNull
           | ClassReserved \<Rightarrow> Some NumNull
           | ClassZero \<Rightarrow> Some (NumInteger 0)
           | ClassOne \<Rightarrow> Some (NumInteger 1)
           | ClassInteger \<Rightarrow> Some (NumInteger (decode_big_endian_signed bytes))
           | ClassFloat \<Rightarrow>
               (if length bytes \<noteq> 8 then None
                else let bits = from_be bytes in Some (if f64_is_nan bits then NumNull else NumFloat bits))
           | ClassText \<Rightarrow> Some NonNumeric
           | ClassBlob \<Rightarrow> Some NonNumeric) }"

function parse_prefix_loop ::
  "(bytes \<Rightarrow> bool) \<Rightarrow> (nat \<Rightarrow> SqliteValue) \<Rightarrow> bytes \<Rightarrow> nat \<Rightarrow> nat \<Rightarrow> nat \<Rightarrow> nat \<Rightarrow> SqliteValue list \<Rightarrow>
   SqliteValue list option" where
  "parse_prefix_loop utf8 pool data max_cols header_size offset body_offset values =
     (if offset < header_size \<and> length values < max_cols then
        (case next_column data header_size offset body_offset of
           None \<Rightarrow> None
         | Some (serial_type, offset', body_end) \<Rightarrow>
             if body_end > length data then None else
             (case decode_value utf8 (pool (length values)) serial_type (subslice body_offset body_end data) of
                None \<Rightarrow> None
              | Some value \<Rightarrow>
                  parse_prefix_loop utf8 pool data max_cols header_size offset' body_end (values @ [value])))
      else Some values)"
  by pat_completeness auto
termination
  by (relation "measure (\<lambda>(_, _, _, _, hs, off, _). hs - off)") (auto dest!: next_column_progress)

declare parse_prefix_loop.simps [simp del]

definition parse_record_prefix ::
  "(bytes \<Rightarrow> bool) \<Rightarrow> (nat \<Rightarrow> SqliteValue) \<Rightarrow> bytes \<Rightarrow> nat \<Rightarrow> SqliteValue list option" where
  "parse_record_prefix utf8 pool data max_cols =
     (if max_cols = 0 then Some [] else
      do { (header_size, hdr_varint_len) \<leftarrow> record_prologue data;
           parse_prefix_loop utf8 pool data max_cols header_size hdr_varint_len header_size [] })"

section \<open>What the readers compute\<close>

text \<open>A recycled slot never changes the result, as long as a text slot holds valid UTF-8
  (an invariant of the Rust string type): \<open>decode_ref\<close> is the slot-free decoder.\<close>

fun slot_ok :: "(bytes \<Rightarrow> bool) \<Rightarrow> SqliteValue \<Rightarrow> bool" where
  "slot_ok utf8 (Text s) = utf8 s"
| "slot_ok utf8 _ = True"

definition decode_ref :: "(bytes \<Rightarrow> bool) \<Rightarrow> u64 \<Rightarrow> bytes \<Rightarrow> SqliteValue option" where
  "decode_ref utf8 serial_type bytes = decode_value_into utf8 serial_type bytes Null"

lemma decode_value_into_ref:
  "slot_ok utf8 slot \<Longrightarrow> decode_value_into utf8 st bs slot = decode_ref utf8 st bs"
  by (cases slot; cases "classify_serial_type st") (auto simp: decode_ref_def decode_value_into_def)

lemma decode_value_ref:
  "slot_ok utf8 pooled \<Longrightarrow> decode_value utf8 pooled st bs = decode_ref utf8 st bs"
  by (cases "classify_serial_type st")
    (simp_all add: decode_value_def decode_value_into_ref, simp_all add: decode_ref_def decode_value_into_def)

lemma decode_ref_slot_ok: "decode_ref utf8 st bs = Some v \<Longrightarrow> slot_ok utf8 v"
  by (cases "classify_serial_type st") (auto simp: decode_ref_def decode_value_into_def Let_def split: if_splits)

text \<open>The columns of a well-formed record: serial type and body range of each.\<close>

function record_columns :: "bytes \<Rightarrow> nat \<Rightarrow> nat \<Rightarrow> nat \<Rightarrow> (u64 \<times> nat \<times> nat) list option" where
  "record_columns data header_size offset body_offset =
     (if offset < header_size then
        (case next_column data header_size offset body_offset of
           None \<Rightarrow> None
         | Some (st, offset', body_end) \<Rightarrow>
             if body_end > length data then None
             else map_option ((#) (st, body_offset, body_end)) (record_columns data header_size offset' body_end))
      else if body_offset \<noteq> length data then None else Some [])"
  by pat_completeness auto
termination
  by (relation "measure (\<lambda>(_, hs, off, _). hs - off)") (auto dest!: next_column_progress)

declare record_columns.simps [simp del]

definition decode_columns :: "(bytes \<Rightarrow> bool) \<Rightarrow> bytes \<Rightarrow> (u64 \<times> nat \<times> nat) list \<Rightarrow> SqliteValue list option" where
  "decode_columns utf8 data cols = those (map (\<lambda>(st, s, e). decode_ref utf8 st (subslice s e data)) cols)"

lemma decode_columns_simps [simp]:
  "decode_columns utf8 data [] = Some []"
  "decode_columns utf8 data ((st, s, e) # cols) =
     (case decode_ref utf8 st (subslice s e data) of
        None \<Rightarrow> None
      | Some v \<Rightarrow> map_option ((#) v) (decode_columns utf8 data cols))"
  by (simp_all add: decode_columns_def cong: option.case_cong)

lemma column_cases:
  obtains (stop) "\<not> off < hs"
  | (bad) "off < hs" "next_column data hs off bo = None"
  | (long) st off' e where "off < hs" "next_column data hs off bo = Some (st, off', e)" "length data < e"
  | (step) st off' e where "off < hs" "next_column data hs off bo = Some (st, off', e)" "e \<le> length data"
proof (cases "off < hs")
  case True
  show ?thesis
  proof (cases "next_column data hs off bo")
    case (Some r)
    obtain st off' e where "r = (st, off', e)" by (cases r) auto
    with True Some show ?thesis using long step not_le by blast
  qed (use True bad in blast)
qed (rule stop)

text \<open>Storing a decoded value in its slot, reusing the slot when there is one.\<close>

definition store_slot :: "SqliteValue list \<Rightarrow> nat \<Rightarrow> SqliteValue \<Rightarrow> SqliteValue list" where
  "store_slot slots dc v = (if dc < length slots then slots[dc := v] else slots @ [v])"

lemma store_slot_facts:
  assumes "dc \<le> length slots"
  shows "take (Suc dc) (store_slot slots dc v) = take dc slots @ [v]" "Suc dc \<le> length (store_slot slots dc v)"
    "set (store_slot slots dc v) \<subseteq> insert v (set slots)"
  using assms set_update_subset_insert [of slots dc v]
  by (auto simp: store_slot_def take_Suc_conv_app_nth)

lemma parse_into_loop_step:
  assumes "slot_ok utf8 (pool dc)" "\<forall>v \<in> set slots. slot_ok utf8 v"
    and "off < hs" "next_column data hs off bo = Some (st, off', e)" "e \<le> length data"
  shows "parse_into_loop utf8 pool data hs off bo dc slots =
      (case decode_ref utf8 st (subslice bo e data) of
         None \<Rightarrow> None
       | Some v \<Rightarrow> parse_into_loop utf8 pool data hs off' e (Suc dc) (store_slot slots dc v))"
  using assms
  by (simp add: parse_into_loop.simps [of utf8 pool data hs off bo dc slots] Let_def store_slot_def
      decode_value_ref decode_value_into_ref split: option.splits)

lemma parse_into_loop_columns:
  assumes "\<And>k. slot_ok utf8 (pool k)" and "\<forall>v \<in> set slots. slot_ok utf8 v" and "dc \<le> length slots"
  shows "parse_into_loop utf8 pool data hs off bo dc slots =
      Option.bind (record_columns data hs off bo)
        (\<lambda>cols. map_option (\<lambda>vs. take dc slots @ vs) (decode_columns utf8 data cols))"
  using assms(2,3)
proof (induction data hs off bo arbitrary: dc slots rule: record_columns.induct)
  case (1 data hs off bo)
  note simps = parse_into_loop.simps [of utf8 pool data hs off bo dc slots] record_columns.simps [of data hs off bo]
  show ?case
  proof (cases rule: column_cases [of off hs _ data bo])
    case (step st off' e)
    note unf = parse_into_loop_step [OF assms(1) "1.prems"(1) step]
    show ?thesis
    proof (cases "decode_ref utf8 st (subslice bo e data)")
      case None
      then show ?thesis using unf step by (auto simp: simps(2) split: Option.bind_splits)
    next
      case (Some v)
      note sf = store_slot_facts [OF "1.prems"(2), of v]
      have "parse_into_loop utf8 pool data hs off' e (Suc dc) (store_slot slots dc v) =
          Option.bind (record_columns data hs off' e)
            (\<lambda>cols. map_option (\<lambda>vs. (take dc slots @ [v]) @ vs) (decode_columns utf8 data cols))"
        using "1.IH" [OF step(1,2) refl refl, of "store_slot slots dc v" "Suc dc"] step(3) "1.prems"(1) sf
          decode_ref_slot_ok [OF Some]
        by (simp only: sf(1) not_less) blast
      then show ?thesis
        using unf step Some
        by (cases "record_columns data hs off' e") (auto simp: simps(2) option.map_comp comp_def)
    qed
  qed (simp_all add: simps)
qed
lemma record_columns_step:
  assumes "record_columns data hs off bo = Some cols" "off < hs"
  obtains st off' e rest where "next_column data hs off bo = Some (st, off', e)" "e \<le> length data"
    "cols = (st, bo, e) # rest" "record_columns data hs off' e = Some rest"
  using assms by (auto simp: record_columns.simps [of data hs off bo] split: option.splits if_splits)

lemma record_columns_stop:
  "record_columns data hs off bo = Some cols \<Longrightarrow> \<not> off < hs \<Longrightarrow> cols = [] \<and> bo = length data"
  by (simp add: record_columns.simps [of data hs off bo] split: if_splits)

lemma next_column_le: "next_column data hs off bo = Some (st, off', e) \<Longrightarrow> bo \<le> e"
  by (auto simp: next_column_def split: Option.bind_splits)

lemma next_column_read:
  "next_column data hs off bo = Some (st, off', e) \<Longrightarrow>
   \<exists>n. read_varint (subslice off hs data) = Some (st, n) \<and> off' = off + n"
  by (auto simp: next_column_def split: Option.bind_splits)

lemma record_columns_bounds:
  "record_columns data hs off bo = Some cols \<Longrightarrow>
   \<forall>(st, s, e) \<in> set cols. s \<le> e \<and> e \<le> length data"
proof (induction data hs off bo arbitrary: cols rule: record_columns.induct)
  case (1 data hs off bo)
  show ?case
  proof (cases "off < hs")
    case True
    from "1.prems" True show ?thesis
    proof (rule record_columns_step)
      fix st off' e rest
      assume a: "next_column data hs off bo = Some (st, off', e)" "e \<le> length data"
        "cols = (st, bo, e) # rest" "record_columns data hs off' e = Some rest"
      then show ?thesis
        using "1.IH" [OF True a(1) refl refl _ a(4)] next_column_le [OF a(1)] by auto
    qed
  qed (use "1.prems" in \<open>auto dest: record_columns_stop\<close>)
qed

lemma parse_column_loop_columns:
  assumes "slot_ok utf8 pooled"
  shows "record_columns data hs off bo = Some cols \<Longrightarrow> cur \<le> idx \<Longrightarrow>
   parse_column_loop utf8 pooled data idx hs off bo cur =
     (if idx - cur < length cols
      then (case cols ! (idx - cur) of (st, s, e) \<Rightarrow> decode_ref utf8 st (subslice s e data)) else None)"
proof (induction data hs off bo arbitrary: cur cols rule: record_columns.induct)
  case (1 data hs off bo)
  note simps = parse_column_loop.simps [of utf8 pooled data idx hs off bo cur]
  show ?case
  proof (cases "off < hs")
    case True
    from "1.prems"(1) True show ?thesis
    proof (rule record_columns_step)
      fix st off' e rest
      assume a: "next_column data hs off bo = Some (st, off', e)" "e \<le> length data"
        "cols = (st, bo, e) # rest" "record_columns data hs off' e = Some rest"
      show ?thesis
      proof (cases "cur = idx")
        case False
        then have "cur < idx" using "1.prems"(2) by simp
        then have "idx - cur = Suc (idx - Suc cur)" by simp
        with False \<open>cur < idx\<close> show ?thesis
          using "1.IH" [OF True a(1) refl refl _ a(4), of "Suc cur"] a True by (simp add: simps)
      qed (use True a assms in \<open>simp add: parse_column_loop.simps [of utf8 pooled data idx hs off bo idx]
            decode_value_ref\<close>)
    qed
  qed (use "1.prems" in \<open>auto simp: simps dest: record_columns_stop\<close>)
qed

lemma column_count_loop_columns:
  "record_columns data hs off bo = Some cols \<Longrightarrow> column_count_loop data hs off c = Some (c + length cols)"
proof (induction data hs off bo arbitrary: c cols rule: record_columns.induct)
  case (1 data hs off bo)
  note simps = column_count_loop.simps [of data hs off c]
  show ?case
  proof (cases "off < hs")
    case True
    from "1.prems" True show ?thesis
    proof (rule record_columns_step)
      fix st off' e rest
      assume a: "next_column data hs off bo = Some (st, off', e)" "e \<le> length data"
        "cols = (st, bo, e) # rest" "record_columns data hs off' e = Some rest"
      then show ?thesis
        using "1.IH" [OF True a(1) refl refl _ a(4), of "Suc c"] next_column_read [OF a(1)] True
        by (auto simp: simps)
    qed
  qed (use "1.prems" in \<open>auto simp: simps dest: record_columns_stop\<close>)
qed

definition offset_of :: "u64 \<times> nat \<times> nat \<Rightarrow> ColumnOffset" where
  "offset_of col = (case col of (st, s, e) \<Rightarrow>
     \<lparr>co_serial_type = st, co_body_offset = word_of_nat s, co_value_len = word_of_nat (e - s)\<rparr>)"

lemma header_into_loop_columns:
  "record_columns data hs off bo = Some cols \<Longrightarrow> length data < 2 ^ 32 \<Longrightarrow>
   header_into_loop full data hs off bo acc = Some (acc @ map offset_of cols)"
proof (induction data hs off bo arbitrary: acc cols rule: record_columns.induct)
  case (1 data hs off bo)
  note simps = header_into_loop.simps [of full data hs off bo acc]
  show ?case
  proof (cases "off < hs")
    case True
    from "1.prems"(1) True show ?thesis
    proof (rule record_columns_step)
      fix st off' e rest
      assume a: "next_column data hs off bo = Some (st, off', e)" "e \<le> length data"
        "cols = (st, bo, e) # rest" "record_columns data hs off' e = Some rest"
      then show ?thesis
        using "1.IH" [OF True a(1) refl refl _ a(4)] "1.prems"(2) next_column_le [OF a(1)] True
        by (simp add: simps u32_try_from_def offset_of_def)
    qed
  qed (use "1.prems" in \<open>auto simp: simps dest: record_columns_stop\<close>)
qed

lemma parse_prefix_loop_columns:
  assumes "\<And>k. slot_ok utf8 (pool k)"
  shows "record_columns data hs off bo = Some cols \<Longrightarrow> length acc \<le> mx \<Longrightarrow>
   parse_prefix_loop utf8 pool data mx hs off bo acc =
     map_option ((@) acc) (decode_columns utf8 data (take (mx - length acc) cols))"
proof (induction data hs off bo arbitrary: acc cols rule: record_columns.induct)
  case (1 data hs off bo)
  note simps = parse_prefix_loop.simps [of utf8 pool data mx hs off bo acc]
  show ?case
  proof (cases "off < hs \<and> length acc < mx")
    case True
    then have off: "off < hs" and "mx - length acc = Suc (mx - Suc (length acc))" by auto
    note take = this(2)
    from "1.prems"(1) off show ?thesis
    proof (rule record_columns_step)
      fix st off' e rest
      assume a: "next_column data hs off bo = Some (st, off', e)" "e \<le> length data"
        "cols = (st, bo, e) # rest" "record_columns data hs off' e = Some rest"
      then show ?thesis
        using "1.IH" [OF off a(1) refl refl _ a(4)] take True assms
        by (cases "decode_ref utf8 st (subslice bo e data)";
            cases "decode_columns utf8 data (take (mx - Suc (length acc)) rest)")
          (simp_all add: simps decode_value_ref)
    qed
  next
    case False
    then have nil: "take (mx - length acc) cols = []"
      using record_columns_stop [OF "1.prems"(1)] by auto
    show ?thesis by (simp only: simps if_not_P [OF False] nil) simp
  qed
qed

lemma unat_offset_of:
  assumes "s \<le> e" "e < 2 ^ 32"
  shows "unat (co_body_offset (offset_of (st, s, e))) = s" "unat (co_value_len (offset_of (st, s, e))) = e - s"
    "co_serial_type (offset_of (st, s, e)) = st"
  using assms by (simp_all add: offset_of_def unat_word_of_nat del: of_nat_diff)

lemma decode_column_offset_of:
  assumes "slot_ok utf8 pooled" "s \<le> e" "e \<le> length data" "length data < 2 ^ 32"
  shows "decode_column_from_offset utf8 pooled data (offset_of (st, s, e)) = decode_ref utf8 st (subslice s e data)"
proof -
  have e: "e < 2 ^ 32" using assms by simp
  then have "s + (e - s) \<le> usize_max" using assms by (simp add: usize_max_def)
  then show ?thesis
    using assms unat_offset_of [OF assms(2) e, of st]
    by (simp add: decode_column_from_offset_def decode_value_ref usize_checked_add_def)
qed

lemma decode_columns_nth:
  assumes "decode_columns utf8 data cols = Some vs"
  shows "length vs = length cols"
    and "i < length cols \<Longrightarrow> (case cols ! i of (st, s, e) \<Rightarrow> decode_ref utf8 st (subslice s e data)) = Some (vs ! i)"
  using assms
proof (induction cols arbitrary: vs i)
  case (Cons c cols)
  obtain st s e where c: "c = (st, s, e)" by (cases c)
  { case 1 with Cons.IH(1) c show ?case by (auto split: option.splits) }
  { case 2 with Cons.IH(2) c show ?case by (cases i) (auto split: option.splits) }
qed simp_all

lemma decode_columns_take:
  "decode_columns utf8 data cols = Some vs \<Longrightarrow> decode_columns utf8 data (take n cols) = Some (take n vs)"
proof (induction cols arbitrary: vs n)
  case (Cons c cols)
  obtain st s e where c: "c = (st, s, e)" by (cases c)
  with Cons show ?case by (cases n) (auto split: option.splits)
qed simp

text \<open>The view all readers share of a record that parses.\<close>

lemma parse_record_columns:
  assumes "\<And>k. slot_ok utf8 (pool k)" and "\<forall>v \<in> set slots. slot_ok utf8 v"
  shows "parse_record_into utf8 pool data slots =
      do { (hs, n) \<leftarrow> record_prologue data; cols \<leftarrow> record_columns data hs n hs; decode_columns utf8 data cols }"
proof -
  have "map_option (\<lambda>vs. vs) x = x" for x :: "SqliteValue list option" by (cases x) simp_all
  then show ?thesis
    using parse_into_loop_columns [of utf8 pool slots 0 data] assms
    by (cases "record_prologue data") (auto simp: parse_record_into_def)
qed

lemma parse_record_SomeE:
  assumes "parse_record utf8 pool data = Some vs" and "\<And>k. slot_ok utf8 (pool k)"
  obtains hs n cols where "record_prologue data = Some (hs, n)" "record_columns data hs n hs = Some cols"
    "decode_columns utf8 data cols = Some vs"
  using assms parse_record_columns [of utf8 pool "[]" data]
  by (auto simp: parse_record_def split: Option.bind_splits)

lemma header_offsets_decode:
  assumes "parse_record utf8 pool data = Some vs" and "\<And>k. slot_ok utf8 (pool k)" and "length data < 2 ^ 32"
  obtains offs where "parse_record_header_into data = Some offs" "parse_record_header_prefix_into data = Some offs"
    "length offs = length vs"
    "\<And>i pooled. i < length vs \<Longrightarrow> slot_ok utf8 pooled \<Longrightarrow>
       decode_column_from_offset utf8 pooled data (offs ! i) = Some (vs ! i)"
proof -
  from assms(1,2) obtain hs n cols where p: "record_prologue data = Some (hs, n)"
    and c: "record_columns data hs n hs = Some cols" and d: "decode_columns utf8 data cols = Some vs"
    by (rule parse_record_SomeE)
  note nth = decode_columns_nth [OF d]
  have dec: "decode_column_from_offset utf8 pooled data (map offset_of cols ! i) = Some (vs ! i)"
    if "i < length vs" "slot_ok utf8 pooled" for i pooled
  proof -
    have i: "i < length cols" using that nth(1) by simp
    obtain st s e where col: "cols ! i = (st, s, e)" by (cases "cols ! i")
    then have "s \<le> e" "e \<le> length data" using record_columns_bounds [OF c] nth_mem [OF i] by auto
    then show ?thesis using decode_column_offset_of [OF that(2) _ _ assms(3)] nth(2) [OF i] i col by simp
  qed
  show thesis
    using header_into_loop_columns [OF c assms(3)] p nth(1) dec
    by (intro that [of "map offset_of cols"])
      (simp_all add: parse_record_header_into_def parse_record_header_prefix_into_def)
qed

section \<open>Properties\<close>

text \<open>Decoding into recycled storage.  Whatever valid values the reused slots and the value
  pool hold, \<open>parse_record_into\<close> yields exactly what parsing into empty storage yields, and its
  text results are valid UTF-8 again.\<close>

theorem parse_record_into_slot_independent:
  assumes "\<And>k. slot_ok utf8 (pool k)" and "\<forall>v \<in> set slots. slot_ok utf8 v"
  shows "parse_record_into utf8 pool data slots = parse_record utf8 (\<lambda>_. Null) data \<and>
      (\<forall>vs. parse_record_into utf8 pool data slots = Some vs \<longrightarrow> (\<forall>v \<in> set vs. slot_ok utf8 v))"
proof -
  have "decode_columns utf8 data cols = Some vs \<Longrightarrow> \<forall>v \<in> set vs. slot_ok utf8 v" for cols vs
  proof (induction cols arbitrary: vs)
    case (Cons c cols)
    then show ?case
      by (cases c) (auto split: option.splits simp: decode_ref_slot_ok [of utf8])
  qed simp
  then show ?thesis
    using parse_record_columns [OF assms] parse_record_columns [of utf8 "\<lambda>_. Null" "[]" data]
    by (auto simp: parse_record_def split: Option.bind_splits)
qed

theorem parse_record_into_slot_independent_witness:
  "slot_ok (\<lambda>_. True) (Text [65]) \<and>
   parse_record_into (\<lambda>_. True) (\<lambda>_. Text [66]) [3, 15, 1, 72, 5] [Text [65], Integer 9, Null] =
     parse_record (\<lambda>_. True) (\<lambda>_. Null) [3, 15, 1, 72, 5]"
  using parse_record_into_slot_independent [of "\<lambda>_. True" "\<lambda>_. Text [66]" "[Text [65], Integer 9, Null]" "[3, 15, 1, 72, 5]"]
  by simp

text \<open>C36: on a record the full parser accepts, the single-column reader, the column counter, the
  prefix reader and the header-offset reader with lazy column decoding all agree with the full
  parse, for any valid pooled value.\<close>

theorem record_readers_agree:
  assumes "parse_record utf8 pool data = Some vs" and "\<And>k. slot_ok utf8 (pool k)" and "slot_ok utf8 pooled"
  shows "record_column_count data = Some (length vs) \<and>
      parse_record_column utf8 pooled data idx = (if idx < length vs then Some (vs ! idx) else None) \<and>
      parse_record_prefix utf8 pool data mx = Some (take mx vs) \<and>
      (length data < 2 ^ 32 \<longrightarrow>
         (\<exists>offs. parse_record_header_into data = Some offs \<and> parse_record_header_prefix_into data = Some offs \<and>
            map (decode_column_from_offset utf8 pooled data) offs = map Some vs))"
proof -
  from assms(1,2) obtain hs n cols where p: "record_prologue data = Some (hs, n)"
    and c: "record_columns data hs n hs = Some cols" and d: "decode_columns utf8 data cols = Some vs"
    by (rule parse_record_SomeE)
  note nth = decode_columns_nth [OF d]
  have "parse_record_prefix utf8 pool data mx = Some (take mx vs)"
    using parse_prefix_loop_columns [OF assms(2) c, of "[]" mx] decode_columns_take [OF d, of mx] p
    by (simp add: parse_record_prefix_def)
  moreover have "\<exists>offs. parse_record_header_into data = Some offs \<and> parse_record_header_prefix_into data = Some offs \<and>
      map (decode_column_from_offset utf8 pooled data) offs = map Some vs" if "length data < 2 ^ 32"
    by (rule header_offsets_decode [OF assms(1,2) that]) (auto intro!: exI nth_equalityI simp: assms(3))
  ultimately show ?thesis
    using p c column_count_loop_columns [OF c, of 0] parse_column_loop_columns [OF assms(3) c, of 0 idx] nth
    by (auto simp: record_column_count_def parse_record_column_def)
qed

theorem record_readers_agree_witness:
  "parse_record (\<lambda>_. True) (\<lambda>_. Null) [3, 15, 1, 72, 5] = Some [Text [72], Integer 5] \<and>
   parse_record_column (\<lambda>_. True) Null [3, 15, 1, 72, 5] 1 = Some (Integer 5) \<and>
   parse_record_prefix (\<lambda>_. True) (\<lambda>_. Null) [3, 15, 1, 72, 5] 1 = Some [Text [72]]"
proof -
  have p: "parse_record (\<lambda>_. True) (\<lambda>_. Null) [3, 15, 1, 72, 5] = Some [Text [72], Integer 5]"
    by (simp add: parse_record_def parse_record_into_def record_prologue_def read_varint_def
        parse_into_loop.simps next_column_def subslice_def serial_type_len_def usize_max_def usize_checked_add_def
        decode_value_def decode_value_into_def classify_serial_type_def decode_big_endian_signed_def)
  show ?thesis using p record_readers_agree [OF p, of Null 1 1] by simp
qed

end
