(* ===== verification/RecordWrite.thy ===== *)
theory RecordWrite
  imports RecordFormat
begin

text \<open>
  The record serializers of \<open>crates/fsqlite-types/src/record.rs\<close>: the generic two-pass and
  cached-layout writers behind \<open>serialize_record\<close>, the exact-size computation, and the writers
  into a caller's slice.  \<open>record_spec\<close> is the format they are all shown to produce.  Sizes the
  source adds without a check are sums of lengths of values in memory and are plain naturals;
  the checked and saturating sums are kept as such.
\<close>

section \<open>Layout and payload of a value\<close>

definition u64_of_usize :: "nat \<Rightarrow> u64" where
  "u64_of_usize n = (if n < 2 ^ 64 then word_of_nat n else - 1)"

definition serialized_value_layout :: "SqliteValue \<Rightarrow> u64 \<times> nat" where
  "serialized_value_layout value =
     (case value of
        Null \<Rightarrow> (0, 0)
      | Integer i \<Rightarrow> integer_serial_type_and_len i
      | Float f \<Rightarrow> if f64_is_nan f then (0, 0) else (7, 8)
      | Text s \<Rightarrow> (serial_type_for_text (u64_of_usize (length s)), length s)
      | Blob b \<Rightarrow> (serial_type_for_blob (u64_of_usize (length b)), length b))"

definition append_serialized_value :: "SqliteValue \<Rightarrow> nat \<Rightarrow> bytes \<Rightarrow> bytes option" where
  "append_serialized_value value payload_len buf =
     (case value of
        Null \<Rightarrow> Some buf
      | Integer i \<Rightarrow>
          (if payload_len = 0 then Some buf
           else if payload_len > 8 then None
           else Some (buf @ drop (8 - payload_len) (to_be 8 i)))
      | Float f \<Rightarrow> Some (if f64_is_nan f then buf else buf @ to_be 8 f)
      | Text s \<Rightarrow> Some (buf @ s)
      | Blob b \<Rightarrow> Some (buf @ b))"

text \<open>\<open>buf[lo..hi].copy_from_slice(src)\<close>.\<close>

definition slice_copy :: "bytes \<Rightarrow> nat \<Rightarrow> nat \<Rightarrow> bytes \<Rightarrow> bytes option" where
  "slice_copy buf lo hi src =
     (if lo \<le> hi \<and> hi \<le> length buf \<and> length src = hi - lo then Some (put lo src buf) else None)"

definition encode_serialized_value :: "SqliteValue \<Rightarrow> nat \<Rightarrow> bytes \<Rightarrow> nat \<Rightarrow> nat \<Rightarrow> bytes option" where
  "encode_serialized_value value payload_len buf lo hi =
     (if lo > hi \<or> hi > length buf then None else
      (case value of
         Null \<Rightarrow> Some buf
       | Integer i \<Rightarrow>
           (if payload_len = 0 then Some buf
            else if payload_len > 8 then None
            else slice_copy buf lo hi (drop (8 - payload_len) (to_be 8 i)))
       | Float f \<Rightarrow> if f64_is_nan f then Some buf else slice_copy buf lo hi (to_be 8 f)
       | Text s \<Rightarrow> slice_copy buf lo hi s
       | Blob b \<Rightarrow> slice_copy buf lo hi b))"

text \<open>\<open>write_varint(&mut buf[off..], v)\<close>.\<close>

definition write_varint_at :: "bytes \<Rightarrow> nat \<Rightarrow> u64 \<Rightarrow> (bytes \<times> nat) option" where
  "write_varint_at buf off v =
     (if off > length buf then None
      else map_option (\<lambda>(tail, n). (take off buf @ tail, n)) (write_varint (drop off buf) v))"

section \<open>The header size\<close>

function header_size_loop :: "nat \<Rightarrow> nat \<Rightarrow> nat" where
  "header_size_loop content_size header_size =
     (let needed = varint_len (word_of_nat header_size) + content_size in
      if needed \<le> header_size then header_size else header_size_loop content_size needed)"
  by pat_completeness auto
termination
proof (relation "measure (\<lambda>(c, h). c + 10 - h)")
  fix c h needed
  assume "needed = varint_len (word_of_nat h) + c" "\<not> needed \<le> h"
  then show "((c, needed), c, h) \<in> measure (\<lambda>(c, h). c + 10 - h)"
    using varint_len_range(2) [of "word_of_nat h"] by auto
qed simp

declare header_size_loop.simps [simp del]

definition compute_header_size :: "nat \<Rightarrow> nat" where
  "compute_header_size content_size =
     (if content_size \<le> 126 then content_size + 1 else header_size_loop content_size (content_size + 1))"

section \<open>The generic serializers\<close>

definition header_content_size :: "SqliteValue list \<Rightarrow> nat" where
  "header_content_size values =
     fold (\<lambda>v acc. acc + varint_len (fst (serialized_value_layout v))) values 0"

definition body_size :: "SqliteValue list \<Rightarrow> nat" where
  "body_size values = fold (\<lambda>v acc. acc + snd (serialized_value_layout v)) values 0"

fun append_loop :: "(SqliteValue \<times> u64 \<times> nat) list \<Rightarrow> nat \<Rightarrow> bytes \<Rightarrow> (nat \<times> bytes) option" where
  "append_loop [] header_offset buf = Some (header_offset, buf)"
| "append_loop ((value, serial_type, payload_len) # layouts) header_offset buf =
     do { (buf', n) \<leftarrow> write_varint_at buf header_offset serial_type;
          buf'' \<leftarrow> append_serialized_value value payload_len buf';
          append_loop layouts (header_offset + n) buf'' }"

definition with_layout :: "SqliteValue \<Rightarrow> SqliteValue \<times> u64 \<times> nat" where
  "with_layout v = (v, serialized_value_layout v)"

definition write_serialized_record_from_layouts ::
  "(SqliteValue \<times> u64 \<times> nat) list \<Rightarrow> nat \<Rightarrow> nat \<Rightarrow> bytes option" where
  "write_serialized_record_from_layouts layouts hcs bs =
     do { let header_size = compute_header_size hcs;
          (buf, header_offset) \<leftarrow> write_varint (replicate header_size 0) (u64_of_usize header_size);
          (_, buf') \<leftarrow> append_loop layouts header_offset buf;
          Some buf' }"

fun measure_layouts ::
  "SqliteValue list \<Rightarrow> nat \<Rightarrow> nat \<Rightarrow> (SqliteValue \<times> u64 \<times> nat) list \<Rightarrow>
   nat \<times> nat \<times> (SqliteValue \<times> u64 \<times> nat) list" where
  "measure_layouts [] hcs bs layouts = (hcs, bs, layouts)"
| "measure_layouts (value # values) hcs bs layouts =
     (case serialized_value_layout value of
        (serial_type, payload_len) \<Rightarrow>
          measure_layouts values (hcs + varint_len serial_type) (bs + payload_len)
            (layouts @ [(value, serial_type, payload_len)]))"

definition serialize_record_iter_into_impl_cached_layout :: "SqliteValue list \<Rightarrow> bytes option" where
  "serialize_record_iter_into_impl_cached_layout values =
     (case measure_layouts values 0 0 [] of
        (hcs, bs, layouts) \<Rightarrow> write_serialized_record_from_layouts layouts hcs bs)"

fun two_pass_loop :: "SqliteValue list \<Rightarrow> nat \<Rightarrow> bytes \<Rightarrow> (nat \<times> bytes) option" where
  "two_pass_loop [] header_offset buf = Some (header_offset, buf)"
| "two_pass_loop (value # values) header_offset buf =
     (case serialized_value_layout value of
        (serial_type, payload_len) \<Rightarrow>
          do { (buf', n) \<leftarrow> write_varint_at buf header_offset serial_type;
               buf'' \<leftarrow> append_serialized_value value payload_len buf';
               two_pass_loop values (header_offset + n) buf'' })"

definition serialize_record_iter_into_impl_two_pass :: "SqliteValue list \<Rightarrow> bytes option" where
  "serialize_record_iter_into_impl_two_pass values =
     do { let header_size = compute_header_size (header_content_size values);
          (buf, header_offset) \<leftarrow> write_varint (replicate header_size 0) (u64_of_usize header_size);
          (_, buf') \<leftarrow> two_pass_loop values header_offset buf;
          Some buf' }"

definition serialize_record :: "SqliteValue list \<Rightarrow> bytes option" where
  "serialize_record values =
     (if length values \<le> 2 then serialize_record_iter_into_impl_two_pass values
      else serialize_record_iter_into_impl_cached_layout values)"

definition record_iter_exact_size :: "SqliteValue list \<Rightarrow> nat" where
  "record_iter_exact_size values =
     (let hcs = fold (\<lambda>v acc. usize_saturating_add acc (varint_len (fst (serialized_value_layout v)))) values 0;
          bs = fold (\<lambda>v acc. usize_saturating_add acc (snd (serialized_value_layout v))) values 0 in
      usize_saturating_add (compute_header_size hcs) bs)"

text \<open>Writers into a caller's slice return \<open>Err\<close> (\<open>Inl\<close>) on a size mismatch; an outer
  \<^const>\<open>None\<close> is a panic.\<close>

fun checked_measure :: "SqliteValue list \<Rightarrow> nat \<Rightarrow> nat \<Rightarrow> (nat \<times> nat) option" where
  "checked_measure [] hcs bs = Some (hcs, bs)"
| "checked_measure (value # values) hcs bs =
     (case serialized_value_layout value of
        (serial_type, payload_len) \<Rightarrow>
          do { hcs' \<leftarrow> usize_checked_add hcs (varint_len serial_type);
               bs' \<leftarrow> usize_checked_add bs payload_len;
               checked_measure values hcs' bs' })"

fun slice_loop ::
  "(SqliteValue \<times> u64 \<times> nat) list \<Rightarrow> nat \<Rightarrow> nat \<Rightarrow> bytes \<Rightarrow> (unit + nat \<times> nat \<times> bytes) option" where
  "slice_loop [] header_offset body_offset dst = Some (Inr (header_offset, body_offset, dst))"
| "slice_loop ((value, serial_type, payload_len) # layouts) header_offset body_offset dst =
     do { (dst', n) \<leftarrow> write_varint_at dst header_offset serial_type;
          (case usize_checked_add body_offset payload_len of
             None \<Rightarrow> Some (Inl ())
           | Some body_end \<Rightarrow>
               if body_end > length dst' then Some (Inl ())
               else do { dst'' \<leftarrow> encode_serialized_value value payload_len dst' body_offset body_end;
                         slice_loop layouts (header_offset + n) body_end dst'' }) }"

definition write_layouts_into_slice ::
  "(SqliteValue \<times> u64 \<times> nat) list \<Rightarrow> nat \<Rightarrow> nat \<Rightarrow> bytes \<Rightarrow> (unit + bytes) option" where
  "write_layouts_into_slice layouts header_size bs dst =
     (case usize_checked_add header_size bs of
        None \<Rightarrow> Some (Inl ())
      | Some total_size \<Rightarrow>
          if length dst \<noteq> total_size then Some (Inl ()) else
          do { (dst', header_offset) \<leftarrow> write_varint dst (u64_of_usize header_size);
               r \<leftarrow> slice_loop layouts header_offset header_size dst';
               Some (case r of
                       Inl _ \<Rightarrow> Inl ()
                     | Inr (ho, bo, dst'') \<Rightarrow>
                         if ho \<noteq> header_size \<or> bo \<noteq> total_size then Inl () else Inr dst'') })"

definition serialize_record_iter_into_slice :: "SqliteValue list \<Rightarrow> bytes \<Rightarrow> (unit + bytes) option" where
  "serialize_record_iter_into_slice values dst =
     (case checked_measure values 0 0 of
        None \<Rightarrow> Some (Inl ())
      | Some (hcs, bs) \<Rightarrow> write_layouts_into_slice (map with_layout values) (compute_header_size hcs) bs dst)"

record PlannedRecordSerialization =
  pl_layouts :: "(SqliteValue \<times> u64 \<times> nat) list"
  pl_header_content_size :: nat
  pl_body_size :: nat

fun plan_loop :: "SqliteValue list \<Rightarrow> PlannedRecordSerialization \<Rightarrow> PlannedRecordSerialization" where
  "plan_loop [] p = p"
| "plan_loop (value # values) p =
     (case serialized_value_layout value of
        (serial_type, payload_len) \<Rightarrow>
          plan_loop values
            \<lparr>pl_layouts = pl_layouts p @ [(value, serial_type, payload_len)],
             pl_header_content_size = usize_saturating_add (pl_header_content_size p) (varint_len serial_type),
             pl_body_size = usize_saturating_add (pl_body_size p) payload_len\<rparr>)"

definition plan_record_iter_serialization :: "SqliteValue list \<Rightarrow> PlannedRecordSerialization" where
  "plan_record_iter_serialization values =
     plan_loop values \<lparr>pl_layouts = [], pl_header_content_size = 0, pl_body_size = 0\<rparr>"

definition pl_exact_size :: "PlannedRecordSerialization \<Rightarrow> nat" where
  "pl_exact_size p = usize_saturating_add (compute_header_size (pl_header_content_size p)) (pl_body_size p)"

definition pl_write_into_slice :: "PlannedRecordSerialization \<Rightarrow> bytes \<Rightarrow> (unit + bytes) option" where
  "pl_write_into_slice p dst =
     write_layouts_into_slice (pl_layouts p) (compute_header_size (pl_header_content_size p)) (pl_body_size p) dst"

section \<open>The format itself\<close>

text \<open>What a serializer is meant to produce: the header-size varint, the serial types, the
  payloads.\<close>

definition serial_type_of :: "SqliteValue \<Rightarrow> u64" where
  "serial_type_of v = fst (serialized_value_layout v)"

definition payload_of :: "SqliteValue \<Rightarrow> bytes" where
  "payload_of v =
     (case v of
        Null \<Rightarrow> []
      | Integer i \<Rightarrow> to_be (snd (integer_serial_type_and_len i)) i
      | Float f \<Rightarrow> if f64_is_nan f then [] else to_be 8 f
      | Text s \<Rightarrow> s
      | Blob b \<Rightarrow> b)"

definition header_entries :: "SqliteValue list \<Rightarrow> bytes" where
  "header_entries vals = concat (map (\<lambda>v. varint_bytes (serial_type_of v)) vals)"

definition record_body :: "SqliteValue list \<Rightarrow> bytes" where
  "record_body vals = concat (map payload_of vals)"

definition record_header_size :: "SqliteValue list \<Rightarrow> nat" where
  "record_header_size vals = compute_header_size (length (header_entries vals))"

definition record_spec :: "SqliteValue list \<Rightarrow> bytes" where
  "record_spec vals =
     varint_bytes (word_of_nat (record_header_size vals)) @ header_entries vals @ record_body vals"

lemma integer_len_le: "snd (integer_serial_type_and_len i) \<le> 8"
  by (cases i rule: integer_serial_cases) simp_all

lemma length_payload_of: "length (payload_of v) = snd (serialized_value_layout v)"
  by (cases v) (simp_all add: payload_of_def serialized_value_layout_def)

lemma with_layout_eq: "with_layout v = (v, serial_type_of v, length (payload_of v))"
  by (simp add: with_layout_def serial_type_of_def length_payload_of)

lemma layout_eq: "serialized_value_layout v = (serial_type_of v, length (payload_of v))"
  by (simp add: serial_type_of_def length_payload_of)

lemma header_entries_simps [simp]:
  "header_entries [] = []"
  "header_entries (v # vs) = varint_bytes (serial_type_of v) @ header_entries vs"
  by (simp_all add: header_entries_def)

lemma record_body_simps [simp]:
  "record_body [] = []" "record_body (v # vs) = payload_of v @ record_body vs"
  by (simp_all add: record_body_def)

lemma fold_add_sum: "fold (\<lambda>v acc. acc + f v) vs (a :: nat) = a + sum_list (map f vs)"
  by (induction vs arbitrary: a) simp_all

lemma header_content_size_eq: "header_content_size vs = length (header_entries vs)"
  by (simp add: header_content_size_def fold_add_sum header_entries_def length_concat comp_def
      serial_type_of_def)

lemma body_size_eq: "body_size vs = length (record_body vs)"
  by (simp add: body_size_def fold_add_sum record_body_def length_concat comp_def length_payload_of)

lemma append_serialized_value_payload:
  "append_serialized_value v (length (payload_of v)) buf = Some (buf @ payload_of v)"
proof (cases v)
  case (Integer i)
  then show ?thesis
    using integer_len_le [of i]
    by (simp add: append_serialized_value_def payload_of_def drop_to_be)
qed (simp_all add: append_serialized_value_def payload_of_def)

lemma encode_serialized_value_payload:
  assumes "lo + length (payload_of v) \<le> length buf"
  shows "encode_serialized_value v (length (payload_of v)) buf lo (lo + length (payload_of v)) =
      Some (put lo (payload_of v) buf)"
proof (cases v)
  case (Integer i)
  then show ?thesis
    using integer_len_le [of i] assms
    by (auto simp: encode_serialized_value_def payload_of_def drop_to_be slice_copy_def put_def)
qed (use assms in \<open>auto simp: encode_serialized_value_def payload_of_def slice_copy_def put_def split: if_splits\<close>)

lemma write_varint_at_mid:
  assumes "length zs = varint_len v"
  shows "write_varint_at (pre @ zs @ rest) (length pre) v = Some (pre @ varint_bytes v @ rest, varint_len v)"
  using assms write_varint_refines [of v "zs @ rest"] by (simp add: write_varint_at_def)

lemma write_varint_front:
  assumes "length zs = varint_len v"
  shows "write_varint (zs @ rest) v = Some (varint_bytes v @ rest, varint_len v)"
  using assms write_varint_refines [of v "zs @ rest"] by simp

section \<open>The header size is a fixed point\<close>

lemma varint_len_mono: "unat a \<le> unat b \<Longrightarrow> varint_len a \<le> varint_len b"
  by (auto simp: varint_len_def word_le_nat_alt)

lemma header_size_loop_fix:
  assumes "c + 9 < 2 ^ 64" "c < h" "h \<le> varint_len (word_of_nat h) + c"
  shows "header_size_loop c h = varint_len (word_of_nat (header_size_loop c h)) + c"
  using assms
proof (induction c h rule: header_size_loop.induct)
  case (1 c h)
  let ?n = "varint_len (word_of_nat h) + c"
  show ?case
  proof (cases "?n \<le> h")
    case True
    then show ?thesis using 1 by (simp add: header_size_loop.simps [of c h] Let_def)
  next
    case False
    have h: "h < 2 ^ 64" "?n < 2 ^ 64"
      using 1 False varint_len_range(2) [of "word_of_nat h"] by linarith+
    have "varint_len (word_of_nat h) \<le> varint_len (word_of_nat ?n)"
      using False h by (intro varint_len_mono) (simp add: unat_word_of_nat del: of_nat_add)
    moreover have "c < ?n" using varint_len_range(1) [of "word_of_nat h"] by simp
    ultimately have "header_size_loop c ?n = varint_len (word_of_nat (header_size_loop c ?n)) + c"
      using 1 False by (intro "1.IH") auto
    then show ?thesis using False by (simp add: header_size_loop.simps [of c h] Let_def)
  qed
qed

lemma compute_header_size_fix:
  assumes "c + 9 < 2 ^ 64"
  shows "compute_header_size c = varint_len (word_of_nat (compute_header_size c)) + c"
proof (cases "c \<le> 126")
  case True
  then have "unat (word_of_nat (c + 1) :: u64) = c + 1" by (intro unat_word_of_nat) simp
  then have "varint_len (word_of_nat (c + 1)) = 1"
    using True by (simp add: varint_len_def word_le_nat_alt)
  then show ?thesis using True by (simp add: compute_header_size_def)
next
  case False
  then show ?thesis
    using header_size_loop_fix [of c "c + 1"] assms varint_len_range(1) [of "word_of_nat (c + 1)"]
    by (simp add: compute_header_size_def)
qed

section \<open>Signed integers\<close>

lemma fits_width_bits:
  assumes "fits_width n v" "0 < n" "8 * n - 1 \<le> i" "i < 64"
  shows "bit v i = bit v (8 * n - 1)"
proof -
  have "signed_take_bit (8 * n - 1) (sint v) = sint v"
    using assms(1,2) by (intro signed_take_bit_int_eq_self) (auto simp: fits_width_def)
  then have "bit (sint v) j = bit (sint v) (min j (8 * n - 1))" for j
    using bit_signed_take_bit_iff [of "8 * n - 1" "sint v" j] by (simp add: possible_bit_def min.commute)
  from this [of i] have "bit (sint v) i = bit (sint v) (8 * n - 1)"
    using assms(3) by (simp add: min_absorb2)
  then show ?thesis using assms by (simp add: bit_sint_iff)
qed

lemma scast_extends:
  fixes x :: "'a::len word" and v :: i64
  assumes "\<And>i. i < LENGTH('a) \<Longrightarrow> bit x i = bit v i"
    and "\<And>i. LENGTH('a) - 1 \<le> i \<Longrightarrow> i < 64 \<Longrightarrow> bit v i = bit v (LENGTH('a) - 1)"
    and "LENGTH('a) \<le> 64"
  shows "scast x = v"
proof (rule bit_word_eqI)
  fix i assume "i < LENGTH(64)"
  then have i: "i < 64" by simp
  have "bit (scast x :: i64) i = bit x (min i (LENGTH('a) - 1))"
    using i by (simp add: bit_signed_iff min.commute)
  also have "\<dots> = bit v (min i (LENGTH('a) - 1))"
    by (rule assms(1)) (simp add: min_less_iff_disj)
  also have "\<dots> = bit v i" using assms(2) [of i] i by (simp add: min_def)
  finally show "bit (scast x :: i64) i = bit v i" .
qed

lemma bit_fill: "bit (if b then 0xFF else 0 :: u8) i \<longleftrightarrow> b \<and> i < 8"
proof -
  have "(0xFF :: u8) = - 1" by simp
  then show ?thesis by (simp only: if_split bit_minus_1_iff) (auto simp: possible_bit_def)
qed

lemma bit_from_be_padded:
  fixes v :: i64
  assumes fill: "\<And>j. bit fill j \<longleftrightarrow> s \<and> j < 8"
  shows "bit (from_be (replicate k fill @ to_be n v) :: 'b::len word) i \<longleftrightarrow>
      i < LENGTH('b) \<and> (if i < 8 * n then bit v i else s \<and> i < 8 * (k + n))"
proof (induction k)
  case (Suc k)
  then show ?case
    by (auto simp: from_be_Cons bit_or_iff bit_push_bit_iff bit_ucast_iff fill)
qed (simp add: bit_from_be_to_be)

lemma sign_extended_bytes:
  assumes fits: "fits_width n v" and n: "0 < n" and k: "k + n \<le> 8"
    and l: "LENGTH('b::len) = 8 * (k + n)"
    and fill: "\<And>j. bit fill j \<longleftrightarrow> bit v (8 * n - 1) \<and> j < 8"
  shows "scast (from_be (replicate k fill @ to_be n v) :: 'b word) = v"
proof (rule scast_extends)
  note bits = fits_width_bits [OF fits n]
  fix i
  show "bit (from_be (replicate k fill @ to_be n v) :: 'b word) i = bit v i" if "i < LENGTH('b)"
    using bits [of i] that l k by (auto simp: bit_from_be_padded [OF fill])
  show "bit v i = bit v (LENGTH('b) - 1)" if "LENGTH('b) - 1 \<le> i" "i < 64"
    using bits [of i] bits [of "LENGTH('b) - 1"] that l k n by simp
qed (use l k in simp)

lemma decode_encode_signed:
  assumes "fits_width n v" "n \<in> {1, 2, 3, 4, 6, 8}"
  shows "decode_big_endian_signed (to_be n v) = v"
proof -
  have n: "0 < n" using assms(2) by auto
  define fill where "fill = (if (to_be n v ! 0) AND 0x80 \<noteq> 0 then 0xFF else 0 :: u8)"
  have sign: "(to_be n v ! 0) AND 0x80 \<noteq> 0 \<longleftrightarrow> bit v (8 * n - 1)"
    using n assms(2) unfolding and_0x80_eq_0 hd_to_be [OF n] by (auto simp: bit_ucast_iff bit_drop_bit_eq)
  have fill: "bit fill i \<longleftrightarrow> bit v (8 * n - 1) \<and> i < 8" for i
    unfolding fill_def sign by (rule bit_fill)
  note ext = sign_extended_bytes [OF assms(1) n _ _ fill]
  note d = decode_big_endian_signed_def Let_def length_to_be fill_def [symmetric]
  from assms(2) consider "n = 1" | "n = 2" | "n = 3" | "n = 4" | "n = 6" | "n = 8" by auto
  then show ?thesis
  proof cases
    case 1
    then have "from_be (to_be n v) = to_be n v ! 0" by (simp add: from_be_def)
    then show ?thesis using ext [where 'b = 8 and k = 0] 1 unfolding d by simp
  next
    case 2
    then show ?thesis using ext [where 'b = 16 and k = 0] unfolding d by simp
  next
    case 3
    then show ?thesis using ext [where 'b = 32 and k = 1] unfolding d by simp
  next
    case 4
    then show ?thesis using ext [where 'b = 32 and k = 0] unfolding d by simp
  next
    case 5
    then show ?thesis using ext [where 'b = 64 and k = 2] unfolding d by (simp add: numeral_2_eq_2)
  next
    case 6
    then show ?thesis using ext [where 'b = 64 and k = 0] unfolding d by simp
  qed
qed

section \<open>Every generic serializer produces the format\<close>

lemma append_loop_spec:
  "length zs = length (header_entries vs) \<Longrightarrow>
   append_loop (map with_layout vs) (length pre) (pre @ zs @ body) =
     Some (length pre + length zs, pre @ header_entries vs @ body @ record_body vs)"
proof (induction vs arbitrary: pre zs body)
  case (Cons v vs)
  let ?n = "varint_len (serial_type_of v)"
  define z1 z2 where "z1 = take ?n zs" and "z2 = drop ?n zs"
  have zs: "zs = z1 @ z2" "length z1 = ?n" "length z2 = length (header_entries vs)"
    using Cons.prems by (simp_all add: z1_def z2_def)
  have w: "write_varint_at (pre @ zs @ body) (length pre) (serial_type_of v) =
      Some (pre @ varint_bytes (serial_type_of v) @ z2 @ body, ?n)"
    using write_varint_at_mid [of z1 "serial_type_of v" pre "z2 @ body"] zs by simp
  show ?case
    using Cons.IH [of z2 "pre @ varint_bytes (serial_type_of v)" "body @ payload_of v"] zs w
    by (simp add: with_layout_eq append_serialized_value_payload)
qed simp

lemma two_pass_loop_eq: "two_pass_loop vs = append_loop (map with_layout vs)"
proof (induction vs)
  case (Cons v vs)
  then show ?case by (intro ext) (simp add: with_layout_eq layout_eq)
qed (simp add: fun_eq_iff)

lemma measure_layouts_eq:
  "measure_layouts vs hcs bs ls =
     (hcs + length (header_entries vs), bs + length (record_body vs), ls @ map with_layout vs)"
  by (induction vs arbitrary: hcs bs ls) (simp_all add: with_layout_eq layout_eq)

lemma record_header_size_fix:
  assumes "length (header_entries vs) + 9 < 2 ^ 64"
  shows "record_header_size vs = varint_len (word_of_nat (record_header_size vs)) + length (header_entries vs)"
    and "record_header_size vs < 2 ^ 64"
proof -
  show e: "record_header_size vs = varint_len (word_of_nat (record_header_size vs)) + length (header_entries vs)"
    unfolding record_header_size_def by (rule compute_header_size_fix [OF assms])
  show "record_header_size vs < 2 ^ 64"
    using assms varint_len_range(2) [of "word_of_nat (record_header_size vs)"] by (subst e) linarith
qed

lemma append_record_spec:
  assumes "length (header_entries vs) + 9 < 2 ^ 64"
  shows "do { (buf, ho) \<leftarrow> write_varint (replicate (record_header_size vs) 0) (u64_of_usize (record_header_size vs));
              (_, buf') \<leftarrow> append_loop (map with_layout vs) ho buf;
              Some buf' } = Some (record_spec vs)"
proof -
  let ?hs = "record_header_size vs"
  define n where "n = varint_len (word_of_nat ?hs)"
  note hs = record_header_size_fix [OF assms]
  have "replicate ?hs (0 :: u8) = replicate n 0 @ replicate (length (header_entries vs)) 0"
    unfolding n_def by (subst hs(1)) (simp only: replicate_add)
  moreover have "u64_of_usize ?hs = word_of_nat ?hs" using hs(2) by (simp add: u64_of_usize_def)
  ultimately have "write_varint (replicate ?hs 0) (u64_of_usize ?hs) =
      Some (varint_bytes (word_of_nat ?hs) @ replicate (length (header_entries vs)) 0, n)"
    using write_varint_front [of "replicate n 0" "word_of_nat ?hs"] by (simp add: n_def)
  moreover have "append_loop (map with_layout vs) n
      (varint_bytes (word_of_nat ?hs) @ replicate (length (header_entries vs)) 0 @ []) =
      Some (n + length (header_entries vs), record_spec vs)"
    using append_loop_spec [of "replicate (length (header_entries vs)) 0" vs "varint_bytes (word_of_nat ?hs)" "[]"]
    by (simp add: record_spec_def n_def)
  ultimately show ?thesis by simp
qed

lemma serialize_record_spec:
  assumes "length (header_entries vs) + 9 < 2 ^ 64"
  shows "serialize_record vs = Some (record_spec vs)"
  using append_record_spec [OF assms]
  by (simp add: serialize_record_def serialize_record_iter_into_impl_two_pass_def
      serialize_record_iter_into_impl_cached_layout_def write_serialized_record_from_layouts_def
      measure_layouts_eq two_pass_loop_eq header_content_size_eq record_header_size_def Let_def)

lemma slice_loop_spec:
  "length zs = length (header_entries vs) \<Longrightarrow> length ws = length (record_body vs) \<Longrightarrow>
   length (pre @ zs @ mid @ ws) \<le> usize_max \<Longrightarrow>
   slice_loop (map with_layout vs) (length pre) (length (pre @ zs @ mid)) (pre @ zs @ mid @ ws) =
     Some (Inr (length pre + length zs, length (pre @ zs @ mid @ ws),
                pre @ header_entries vs @ mid @ record_body vs))"
proof (induction vs arbitrary: pre zs mid ws)
  case (Cons v vs)
  let ?n = "varint_len (serial_type_of v)" and ?k = "length (payload_of v)"
  define z1 z2 w1 w2 where "z1 = take ?n zs" and "z2 = drop ?n zs" and "w1 = take ?k ws" and "w2 = drop ?k ws"
  have zs: "zs = z1 @ z2" "length z1 = ?n" "length z2 = length (header_entries vs)"
    and ws: "ws = w1 @ w2" "length w1 = ?k" "length w2 = length (record_body vs)"
    using Cons.prems by (simp_all add: z1_def z2_def w1_def w2_def)
  let ?dst = "pre @ varint_bytes (serial_type_of v) @ z2 @ mid @ ws"
  have w: "write_varint_at (pre @ zs @ mid @ ws) (length pre) (serial_type_of v) = Some (?dst, ?n)"
    using write_varint_at_mid [of z1 "serial_type_of v" pre "z2 @ mid @ ws"] zs by simp
  let ?bo = "length (pre @ zs @ mid)"
  have "put ?bo (payload_of v) ?dst =
      (pre @ varint_bytes (serial_type_of v)) @ z2 @ (mid @ payload_of v) @ w2"
    using zs ws by (simp add: put_def)
  then have e: "encode_serialized_value v ?k ?dst ?bo (?bo + ?k) =
      Some ((pre @ varint_bytes (serial_type_of v)) @ z2 @ (mid @ payload_of v) @ w2)"
    using encode_serialized_value_payload [of ?bo v ?dst] zs ws by simp
  have ih: "slice_loop (map with_layout vs) (length pre + ?n) (?bo + ?k)
        ((pre @ varint_bytes (serial_type_of v)) @ z2 @ (mid @ payload_of v) @ w2) =
      Some (Inr (length pre + length zs, length (pre @ zs @ mid @ ws),
                pre @ header_entries (v # vs) @ mid @ record_body (v # vs)))"
    using Cons.IH [of z2 w2 "pre @ varint_bytes (serial_type_of v)" "mid @ payload_of v"] Cons.prems(3) zs ws
    by (simp add: ac_simps)
  have le: "usize_checked_add ?bo ?k = Some (?bo + ?k)" "?bo + ?k \<le> length ?dst"
    using Cons.prems(3) zs ws by simp_all
  have "slice_loop (with_layout v # ls) (length pre) ?bo (pre @ zs @ mid @ ws) =
      slice_loop ls (length pre + ?n) (?bo + ?k)
        ((pre @ varint_bytes (serial_type_of v)) @ z2 @ (mid @ payload_of v) @ w2)" for ls
    unfolding with_layout_eq slice_loop.simps w using le(2) e by (simp only: le(1) option.case) simp
  then show ?case using ih by simp
qed simp

lemma usize_checked_add_eq: "a + b \<le> usize_max \<Longrightarrow> usize_checked_add a b = Some (a + b)"
  by (simp add: usize_checked_add_def)

lemma checked_measure_eq:
  "hcs + length (header_entries vs) \<le> usize_max \<Longrightarrow> bs + length (record_body vs) \<le> usize_max \<Longrightarrow>
   checked_measure vs hcs bs = Some (hcs + length (header_entries vs), bs + length (record_body vs))"
  by (induction vs arbitrary: hcs bs) (simp_all add: layout_eq usize_checked_add_eq add.assoc)

lemma plan_loop_eq:
  "pl_header_content_size p + length (header_entries vs) \<le> usize_max \<Longrightarrow>
   pl_body_size p + length (record_body vs) \<le> usize_max \<Longrightarrow>
   plan_loop vs p =
     \<lparr>pl_layouts = pl_layouts p @ map with_layout vs,
      pl_header_content_size = pl_header_content_size p + length (header_entries vs),
      pl_body_size = pl_body_size p + length (record_body vs)\<rparr>"
  by (induction vs arbitrary: p)
    (simp_all add: layout_eq with_layout_eq usize_saturating_add_def add.assoc)

lemma fold_saturating:
  "a + sum_list (map f vs) \<le> usize_max \<Longrightarrow>
   fold (\<lambda>v acc. usize_saturating_add acc (f v)) vs a = a + sum_list (map f vs)"
  by (induction vs arbitrary: a) (simp_all add: usize_saturating_add_def add.assoc)

lemma length_record_spec:
  assumes "length (header_entries vs) + 9 < 2 ^ 64"
  shows "length (record_spec vs) = record_header_size vs + length (record_body vs)"
  using record_header_size_fix(1) [OF assms] by (simp add: record_spec_def)

text \<open>A record that fits the address space satisfies all the size conditions at once.\<close>

lemma record_spec_sizes:
  assumes "length (record_spec vs) < 2 ^ 63"
  shows "length (header_entries vs) + 9 < 2 ^ 64" "length (header_entries vs) \<le> usize_max"
    "length (record_body vs) \<le> usize_max" "record_header_size vs + length (record_body vs) \<le> usize_max"
    "length (record_spec vs) = record_header_size vs + length (record_body vs)"
proof -
  have le: "length (header_entries vs) + length (record_body vs) \<le> length (record_spec vs)"
    by (simp add: record_spec_def)
  show h: "length (header_entries vs) + 9 < 2 ^ 64" using le assms by simp
  show "length (header_entries vs) \<le> usize_max" "length (record_body vs) \<le> usize_max"
    using le assms by (simp_all add: usize_max_def)
  show e: "length (record_spec vs) = record_header_size vs + length (record_body vs)"
    by (rule length_record_spec [OF h])
  show "record_header_size vs + length (record_body vs) \<le> usize_max"
    using assms e by (simp add: usize_max_def)
qed

lemma write_layouts_into_slice_spec:
  assumes "length (record_spec vs) < 2 ^ 63"
  shows "write_layouts_into_slice (map with_layout vs) (record_header_size vs) (length (record_body vs)) dst =
      Some (if length dst = length (record_spec vs) then Inr (record_spec vs) else Inl ())"
proof -
  note sz = record_spec_sizes [OF assms]
  let ?hs = "record_header_size vs" and ?he = "header_entries vs" and ?rb = "record_body vs"
  define n where "n = varint_len (word_of_nat ?hs)"
  note hs = record_header_size_fix [OF sz(1)]
  have tot: "usize_checked_add ?hs (length ?rb) = Some (length (record_spec vs))"
    unfolding sz(5) by (rule usize_checked_add_eq [OF sz(4)])
  show ?thesis
  proof (cases "length dst = length (record_spec vs)")
    case True
    define z0 zs ws where "z0 = take n dst" and "zs = take (length ?he) (drop n dst)" and "ws = drop (n + length ?he) dst"
    have dst: "dst = z0 @ zs @ ws"
      unfolding z0_def zs_def ws_def by (metis add.commute append_take_drop_id drop_drop)
    have len: "length z0 = n" "length zs = length ?he" "length ws = length ?rb"
      using True by (simp_all add: record_spec_def z0_def zs_def ws_def n_def)
    have "write_varint dst (u64_of_usize ?hs) = Some (varint_bytes (word_of_nat ?hs) @ zs @ ws, n)"
      using write_varint_front [of z0 "word_of_nat ?hs" "zs @ ws"] len hs(2)
      by (simp add: dst n_def u64_of_usize_def)
    moreover have "slice_loop (map with_layout vs) n ?hs (varint_bytes (word_of_nat ?hs) @ zs @ ws) =
        Some (Inr (?hs, length (record_spec vs), record_spec vs))"
      using slice_loop_spec [of zs vs ws "varint_bytes (word_of_nat ?hs)" "[]"] len hs(1) sz(4,5)
      by (simp add: n_def record_spec_def)
    ultimately show ?thesis
      using True by (simp only: write_layouts_into_slice_def tot option.case) simp
  qed (simp only: write_layouts_into_slice_def tot option.case, simp)
qed

section \<open>Reading back what was written\<close>

text \<open>Storage turns NaN into NULL; every other value comes back as it was.\<close>

fun storage_value :: "SqliteValue \<Rightarrow> SqliteValue" where
  "storage_value (Float f) = (if f64_is_nan f then Null else Float f)"
| "storage_value v = v"

definition value_len_ok :: "SqliteValue \<Rightarrow> bool" where
  "value_len_ok v \<longleftrightarrow> length (payload_of v) < 2 ^ 63 - 6"

lemma serial_type_of_len:
  assumes "value_len_ok v"
  shows "serial_type_len (serial_type_of v) = Some (word_of_nat (length (payload_of v)))"
proof (cases v)
  case (Integer i)
  then show ?thesis
    by (cases i rule: integer_serial_cases)
      (simp_all add: serial_type_of_def serialized_value_layout_def payload_of_def serial_type_len_def)
next
  case (Text s)
  then have l: "length s < 2 ^ 63 - 6" using assms by (simp add: value_len_ok_def payload_of_def)
  then have "unat (word_of_nat (length s) :: u64) = length s" by (intro unat_word_of_nat) simp
  then show ?thesis
    using Text l unat_serial_type_for(1) [of "word_of_nat (length s)"]
    by (simp add: serial_type_of_def serialized_value_layout_def payload_of_def u64_of_usize_def serial_type_len_unat)
next
  case (Blob s)
  then have l: "length s < 2 ^ 63 - 6" using assms by (simp add: value_len_ok_def payload_of_def)
  then have "unat (word_of_nat (length s) :: u64) = length s" by (intro unat_word_of_nat) simp
  then show ?thesis
    using Blob l unat_serial_type_for(2) [of "word_of_nat (length s)"]
    by (simp add: serial_type_of_def serialized_value_layout_def payload_of_def u64_of_usize_def serial_type_len_unat)
qed (simp_all add: serial_type_of_def serialized_value_layout_def payload_of_def serial_type_len_def)

lemma classify_text_blob:
  assumes "length s < 2 ^ 63 - 6"
  shows "classify_serial_type (serial_type_of (Text s)) = ClassText"
    and "classify_serial_type (serial_type_of (Blob s)) = ClassBlob"
proof -
  have "unat (word_of_nat (length s) :: u64) = length s" using assms by (intro unat_word_of_nat) simp
  then show "classify_serial_type (serial_type_of (Text s)) = ClassText"
    and "classify_serial_type (serial_type_of (Blob s)) = ClassBlob"
    using assms unat_serial_type_for [of "word_of_nat (length s)"]
    by (simp_all add: serial_type_of_def serialized_value_layout_def u64_of_usize_def classify_unat)
qed

lemma decode_payload:
  assumes "value_len_ok v" and "slot_ok utf8 v"
  shows "decode_ref utf8 (serial_type_of v) (payload_of v) = Some (storage_value v)"
proof (cases v)
  case (Integer i)
  then show ?thesis
    using decode_encode_signed [of 1 i]
    by (cases i rule: integer_serial_cases)
      (simp_all add: serial_type_of_def serialized_value_layout_def payload_of_def decode_ref_def
        decode_value_into_def classify_serial_type_def decode_encode_signed)
next
  case (Text s)
  then show ?thesis
    using assms classify_text_blob(1) [of s]
    by (simp add: decode_ref_def decode_value_into_def value_len_ok_def payload_of_def)
next
  case (Blob s)
  then show ?thesis
    using assms classify_text_blob(2) [of s]
    by (simp add: decode_ref_def decode_value_into_def value_len_ok_def payload_of_def)
next
  case (Float f)
  then show ?thesis
    by (simp add: serial_type_of_def serialized_value_layout_def payload_of_def decode_ref_def
        decode_value_into_def classify_serial_type_def u64_be.dec_enc)
qed (simp add: serial_type_of_def serialized_value_layout_def decode_ref_def decode_value_into_def classify_serial_type_def)

lemma record_columns_written:
  assumes "\<forall>v \<in> set vs. value_len_ok v \<and> slot_ok utf8 v" and "length (pre @ header_entries vs @ mid @ record_body vs) \<le> usize_max"
  shows "\<exists>cols. record_columns (pre @ header_entries vs @ mid @ record_body vs)
        (length (pre @ header_entries vs)) (length pre) (length (pre @ header_entries vs @ mid)) = Some cols \<and>
      decode_columns utf8 (pre @ header_entries vs @ mid @ record_body vs) cols = Some (map storage_value vs)"
  using assms
proof (induction vs arbitrary: pre mid)
  case (Cons v vs)
  let ?t = "varint_bytes (serial_type_of v)" and ?p = "payload_of v"
  let ?data = "pre @ header_entries (v # vs) @ mid @ record_body (v # vs)"
  let ?hs = "length (pre @ header_entries (v # vs))" and ?bo = "length (pre @ header_entries (v # vs) @ mid)"
  have data: "?data = (pre @ ?t) @ header_entries vs @ (mid @ ?p) @ record_body vs" by simp
  obtain cols where cols: "record_columns ?data ?hs (length (pre @ ?t)) (?bo + length ?p) = Some cols"
    "decode_columns utf8 ?data cols = Some (map storage_value vs)"
    using Cons.IH [of "pre @ ?t" "mid @ ?p"] Cons.prems by (auto simp: ac_simps)
  have sub: "subslice (length pre) ?hs ?data = ?t @ header_entries vs"
    using subslice_mid [of pre "header_entries (v # vs)" "mid @ record_body (v # vs)"] by simp
  have ok: "value_len_ok v" "slot_ok utf8 v" using Cons.prems(1) by auto
  have "unat (word_of_nat (length ?p) :: u64) = length ?p"
    using ok(1) by (intro unat_word_of_nat) (simp add: value_len_ok_def)
  moreover have "?bo + length ?p \<le> length ?data" by simp
  ultimately have nc: "next_column ?data ?hs (length pre) ?bo =
      Some (serial_type_of v, length (pre @ ?t), ?bo + length ?p)"
    using Cons.prems(2) unfolding next_column_def sub
    by (simp add: serial_type_of_len [OF ok(1)] usize_checked_add_def)
  have lt: "length pre < ?hs" using varint_len_range(1) [of "serial_type_of v"] by simp
  have "subslice ?bo (?bo + length ?p) ?data = ?p"
    using subslice_mid [of "pre @ header_entries (v # vs) @ mid" ?p "record_body vs"] by simp
  then have d: "decode_ref utf8 (serial_type_of v) (subslice ?bo (?bo + length ?p) ?data) = Some (storage_value v)"
    by (simp only: decode_payload [OF ok])
  have le: "\<not> ?bo + length ?p > length ?data" by simp
  have "record_columns ?data ?hs (length pre) ?bo = Some ((serial_type_of v, ?bo, ?bo + length ?p) # cols)"
    using lt le cols(1) by (simp only: record_columns.simps [of ?data ?hs "length pre"] nc if_True option.case prod.case if_False option.map)
  then show ?case using d cols(2) by (intro exI conjI) (assumption, simp only: decode_columns_simps option.case option.map list.map)
qed (simp add: record_columns.simps)

lemma record_body_member: "v \<in> set vs \<Longrightarrow> length (payload_of v) \<le> length (record_body vs)"
  by (induction vs) auto

lemma header_entries_member: "v \<in> set vs \<Longrightarrow> varint_len (serial_type_of v) \<le> length (header_entries vs)"
  by (induction vs) auto

text \<open>A payload at the saturation point needs a nine-byte serial type, so that the record would
  already exceed the largest possible allocation.\<close>

lemma long_serial_type:
  assumes "\<not> value_len_ok v"
  shows "varint_len (serial_type_of v) = 9"
proof -
  have big: "2 ^ 63 - 6 \<le> length (payload_of v)" using assms by (simp add: value_len_ok_def)
  have "unat (u64_of_usize n) \<ge> min n (2 ^ 64 - 1)" for n
    by (simp add: u64_of_usize_def unat_word_of_nat unsigned_minus_1_eq_mask mask_eq_exp_minus_1)
  from this [of "length (payload_of v)"] have "2 ^ 63 - 6 \<le> unat (u64_of_usize (length (payload_of v)))"
    using big by simp
  then have "serial_type_of v = - 1 \<or> serial_type_of v = - 1 - 1"
    using big
    by (cases v) (auto simp: serial_type_of_def serialized_value_layout_def payload_of_def
        serial_type_for_text_def serial_type_for_blob_def sat_add_def sat_mul_def unat_word_ariths
        unsigned_minus_1_eq_mask mask_eq_exp_minus_1
        split: if_splits dest: order_trans [OF _ integer_len_le])
  then show ?thesis
    by (auto simp: varint_len_def word_le_nat_alt unsigned_minus_1_eq_mask mask_eq_exp_minus_1)
qed

lemma value_len_ok_in_record:
  assumes "length (record_spec vs) < 2 ^ 63" "v \<in> set vs"
  shows "value_len_ok v"
proof (rule ccontr)
  assume bad: "\<not> value_len_ok v"
  then have "2 ^ 63 - 6 \<le> length (payload_of v)" by (simp add: value_len_ok_def)
  moreover have "varint_len (serial_type_of v) + length (payload_of v) < 2 ^ 63"
    using assms record_body_member [OF assms(2)] header_entries_member [OF assms(2)]
    by (simp add: record_spec_def)
  ultimately show False using long_serial_type [OF bad] by simp
qed

lemma record_prologue_spec:
  assumes "length (record_spec vs) < 2 ^ 63"
  shows "record_prologue (record_spec vs) = Some (record_header_size vs, varint_len (word_of_nat (record_header_size vs)))"
proof -
  note sz = record_spec_sizes [OF assms]
  note hs = record_header_size_fix [OF sz(1)]
  have ne: "record_spec vs \<noteq> []" using varint_len_range(1) [of "word_of_nat (record_header_size vs)"]
    by (auto simp: record_spec_def simp flip: length_0_conv)
  have un: "unat (word_of_nat (record_header_size vs) :: u64) = record_header_size vs"
    using hs(2) by (intro unat_word_of_nat) simp
  have rd: "read_varint (record_spec vs) =
      Some (word_of_nat (record_header_size vs), varint_len (word_of_nat (record_header_size vs)))"
    by (simp add: record_spec_def)
  have b: "\<not> (record_header_size vs > length (record_spec vs) \<or>
      record_header_size vs < varint_len (word_of_nat (record_header_size vs)))"
    using hs(1) sz(5) by simp
  show ?thesis using ne b by (simp add: record_prologue_def rd un Let_def)
qed

lemma parse_record_spec:
  assumes "length (record_spec vs) < 2 ^ 63" and "\<forall>v \<in> set vs. slot_ok utf8 v" and "\<And>k. slot_ok utf8 (pool k)"
  shows "parse_record utf8 pool (record_spec vs) = Some (map storage_value vs)"
proof -
  note sz = record_spec_sizes [OF assms(1)]
  note hs = record_header_size_fix [OF sz(1)]
  have le: "length (record_spec vs) \<le> usize_max" using sz(4,5) by simp
  let ?pre = "varint_bytes (word_of_nat (record_header_size vs))"
  have "length (?pre @ header_entries vs) = record_header_size vs" using hs(1) by simp
  then obtain cols where
    "record_columns (record_spec vs) (record_header_size vs) (length ?pre) (record_header_size vs) = Some cols"
    "decode_columns utf8 (record_spec vs) cols = Some (map storage_value vs)"
    using record_columns_written [of vs utf8 ?pre "[]"] assms(2) value_len_ok_in_record [OF assms(1)] le
    by (auto simp: record_spec_def)
  then show ?thesis
    using parse_record_columns [of utf8 pool "[]" "record_spec vs"] record_prologue_spec [OF assms(1)] assms(3)
    by (simp add: parse_record_def)
qed

lemma header_size_loop_least:
  "h = varint_len (word_of_nat h) + c \<Longrightarrow> h < 2 ^ 64 \<Longrightarrow> m \<le> h \<Longrightarrow> header_size_loop c m \<le> h"
proof (induction c m rule: header_size_loop.induct)
  case (1 c m)
  have "varint_len (word_of_nat m) \<le> varint_len (word_of_nat h)"
    using 1 by (intro varint_len_mono) (simp add: unat_word_of_nat)
  then have "varint_len (word_of_nat m) + c \<le> h" using "1.prems"(1) by linarith
  then show ?case using 1 by (simp add: header_size_loop.simps [of c m] Let_def)
qed

section \<open>Properties\<close>

text \<open>C3: writing a record and parsing it again gives the values back, NaN having become NULL, for
  any number of columns and any pooled slots, as long as the record fits the largest possible
  allocation and its texts are valid UTF-8.\<close>

theorem record_roundtrip:
  assumes "length (record_spec vs) < 2 ^ 63" and "\<forall>v \<in> set vs. slot_ok utf8 v" and "\<And>k. slot_ok utf8 (pool k)"
  shows "\<exists>data. serialize_record vs = Some data \<and> length data = record_iter_exact_size vs \<and>
      parse_record utf8 pool data = Some (map storage_value vs)"
proof (intro exI conjI)
  note sz = record_spec_sizes [OF assms(1)]
  show "serialize_record vs = Some (record_spec vs)" by (rule serialize_record_spec [OF sz(1)])
  show "parse_record utf8 pool (record_spec vs) = Some (map storage_value vs)"
    by (rule parse_record_spec [OF assms])
  have h: "sum_list (map (\<lambda>v. varint_len (fst (serialized_value_layout v))) vs) = length (header_entries vs)"
    by (simp add: header_entries_def length_concat comp_def serial_type_of_def)
  have b: "sum_list (map (\<lambda>v. snd (serialized_value_layout v)) vs) = length (record_body vs)"
    by (simp add: record_body_def length_concat comp_def length_payload_of)
  note sat = fold_saturating [of 0 "\<lambda>v. varint_len (fst (serialized_value_layout v))" vs]
    fold_saturating [of 0 "\<lambda>v. snd (serialized_value_layout v)" vs]
  have "record_iter_exact_size vs = usize_saturating_add (record_header_size vs) (length (record_body vs))"
    using sat sz(2,3) by (simp add: record_iter_exact_size_def h b record_header_size_def)
  then show "length (record_spec vs) = record_iter_exact_size vs"
    using sz(4,5) by (simp add: usize_saturating_add_def)
qed

theorem record_roundtrip_witness:
  "\<exists>data. serialize_record [Integer (- 300), Text [104, 105], Float 0x7FF8000000000000] = Some data \<and>
     parse_record (\<lambda>_. True) (\<lambda>_. Blob [1]) data = Some [Integer (- 300), Text [104, 105], Null]"
proof -
  let ?vs = "[Integer (- 300), Text [104, 105], Float 0x7FF8000000000000]"
  have nan: "f64_is_nan 0x7FF8000000000000" by (simp add: f64_is_nan_def)
  have ok: "slot_ok (\<lambda>_. True) v" for v by (cases v) simp_all
  have i: "integer_serial_type_and_len (- 300) = (2, 2)" by code_simp
  have "length (record_spec ?vs) < 2 ^ 63"
    using varint_len_range(2) [of "word_of_nat (record_header_size ?vs)"]
      varint_len_range(2) [of "serial_type_of (Integer (- 300))"]
      varint_len_range(2) [of "serial_type_of (Text [104, 105])"]
      varint_len_range(2) [of "serial_type_of (Float 0x7FF8000000000000)"]
    by (simp add: record_spec_def payload_of_def i nan del: length_greater_0_conv)
  from record_roundtrip [OF this, of "\<lambda>_. True" "\<lambda>_. Blob [1]"] show ?thesis using ok nan by auto
qed

text \<open>The writers into a caller's slice (direct and planned) are the same serializer.  They
  produce byte for byte what \<open>serialize_record\<close> returns when the slice has the size
  \<open>exact_size\<close> announces, and report an error, without a panic, for every other slice length.\<close>

theorem slice_serializers_equal_vec_serializer:
  assumes "length (record_spec vs) < 2 ^ 63"
  shows "\<exists>data. serialize_record vs = Some data \<and>
      pl_exact_size (plan_record_iter_serialization vs) = length data \<and>
      serialize_record_iter_into_slice vs dst = Some (if length dst = length data then Inr data else Inl ()) \<and>
      pl_write_into_slice (plan_record_iter_serialization vs) dst =
        Some (if length dst = length data then Inr data else Inl ())"
proof (intro exI conjI)
  note sz = record_spec_sizes [OF assms]
  note w = write_layouts_into_slice_spec [OF assms, of dst]
  show "serialize_record vs = Some (record_spec vs)" by (rule serialize_record_spec [OF sz(1)])
  have plan: "plan_record_iter_serialization vs =
      \<lparr>pl_layouts = map with_layout vs, pl_header_content_size = length (header_entries vs),
       pl_body_size = length (record_body vs)\<rparr>"
    using plan_loop_eq [of "\<lparr>pl_layouts = [], pl_header_content_size = 0, pl_body_size = 0\<rparr>" vs] sz(2,3)
    by (simp add: plan_record_iter_serialization_def)
  show "pl_exact_size (plan_record_iter_serialization vs) = length (record_spec vs)"
    using sz(4,5) by (simp add: plan pl_exact_size_def usize_saturating_add_def record_header_size_def)
  show "pl_write_into_slice (plan_record_iter_serialization vs) dst =
      Some (if length dst = length (record_spec vs) then Inr (record_spec vs) else Inl ())"
    using w by (simp add: plan pl_write_into_slice_def record_header_size_def)
  show "serialize_record_iter_into_slice vs dst =
      Some (if length dst = length (record_spec vs) then Inr (record_spec vs) else Inl ())"
    using w checked_measure_eq [of 0 vs 0] sz(2,3)
    by (simp add: serialize_record_iter_into_slice_def record_header_size_def)
qed

theorem slice_serializers_equal_vec_serializer_witness:
  "\<exists>data. serialize_record [Null, Blob [1, 2, 3]] = Some data \<and>
     (length data \<noteq> 0 \<longrightarrow> serialize_record_iter_into_slice [Null, Blob [1, 2, 3]] [] = Some (Inl ()))"
proof -
  let ?vs = "[Null, Blob [1, 2, 3]]"
  have "length (record_spec ?vs) < 2 ^ 63"
    using varint_len_range(2) [of "word_of_nat (record_header_size ?vs)"]
      varint_len_range(2) [of "serial_type_of Null"] varint_len_range(2) [of "serial_type_of (Blob [1, 2, 3])"]
    by (simp add: record_spec_def payload_of_def del: length_greater_0_conv)
  from slice_serializers_equal_vec_serializer [OF this, of "[]"] show ?thesis by auto
qed

text \<open>The header-size iteration always stops, and stops at the self-describing size: the
  header size is the length of its own varint plus the serial types.  It is the smallest such
  size.\<close>

theorem compute_header_size_self_describing:
  assumes "content + 9 < 2 ^ 64"
  shows "compute_header_size content = varint_len (word_of_nat (compute_header_size content)) + content \<and>
      (\<forall>h. h = varint_len (word_of_nat h) + content \<longrightarrow> compute_header_size content \<le> h)"
proof (intro conjI allI impI)
  let ?c = "compute_header_size content"
  show e: "?c = varint_len (word_of_nat ?c) + content" by (rule compute_header_size_fix [OF assms])
  fix h assume h: "h = varint_len (word_of_nat h) + content"
  have "h < 2 ^ 64" using h assms varint_len_range(2) [of "word_of_nat h"] by linarith
  moreover have "header_size_loop content (content + 1) \<le> h"
    using h varint_len_range(1) [of "word_of_nat h"] by (intro header_size_loop_least) (use \<open>h < 2 ^ 64\<close> in auto)
  ultimately show "?c \<le> h"
    using h varint_len_range(1) [of "word_of_nat h"] by (simp add: compute_header_size_def)
qed
theorem compute_header_size_self_describing_witness:
  "compute_header_size 126 = 127 \<and> compute_header_size 127 = varint_len (word_of_nat (compute_header_size 127)) + 127"
  using compute_header_size_self_describing [of 127] by (simp add: compute_header_size_def)

end
