(* ===== verification/RecordScratch.thy ===== *)
theory RecordScratch
  imports RecordWrite
begin

text \<open>
  The lazy-decode state of a cursor in \<open>crates/fsqlite-types/src/record.rs\<close>: projected column
  offsets and \<open>RecordDecodeScratch\<close>, the cached header offsets, reusable value slots and
  the 64-bit mask of decoded columns.  The pool that supplies recycled values is the parameter
  \<open>pool\<close>, indexed by the slot it fills; handing values back to it has no effect on the model.
\<close>

section \<open>Projected column offsets\<close>

record ProjectedColumnOffsets =
  pr_column_count :: nat
  pr_primary :: "ColumnOffset option"
  pr_secondary :: "ColumnOffset option"

function projected_loop ::
  "bytes \<Rightarrow> nat \<Rightarrow> nat option \<Rightarrow> nat \<Rightarrow> nat \<Rightarrow> nat \<Rightarrow> ProjectedColumnOffsets \<Rightarrow> ProjectedColumnOffsets option" where
  "projected_loop data primary_index secondary_index header_size offset body_offset acc =
     (if offset < header_size then
        (case next_column data header_size offset body_offset of
           None \<Rightarrow> None
         | Some (serial_type, offset', body_end) \<Rightarrow>
             if body_end > length data then None else
             let column_index = pr_column_count acc in
             (case (if column_index = primary_index \<or> secondary_index = Some column_index then
                      (case (u32_try_from body_offset, u32_try_from (body_end - body_offset)) of
                         (Some bo, Some vl) \<Rightarrow>
                           let column = \<lparr>co_serial_type = serial_type, co_body_offset = bo, co_value_len = vl\<rparr> in
                           Some (acc\<lparr>pr_primary := if column_index = primary_index then Some column else pr_primary acc,
                                     pr_secondary := if secondary_index = Some column_index then Some column
                                                     else pr_secondary acc\<rparr>)
                       | _ \<Rightarrow> None)
                    else Some acc) of
                None \<Rightarrow> None
              | Some acc' \<Rightarrow>
                  (case usize_checked_add column_index 1 of
                     None \<Rightarrow> None
                   | Some next_index \<Rightarrow>
                       projected_loop data primary_index secondary_index header_size offset' body_end
                         (acc'\<lparr>pr_column_count := next_index\<rparr>))))
      else if body_offset \<noteq> length data then None
      else Some acc)"
  by pat_completeness auto
termination
  by (relation "measure (\<lambda>(_, _, _, hs, off, _). hs - off)") (auto dest!: next_column_progress)

declare projected_loop.simps [simp del]

definition parse_record_projected_column_offsets ::
  "bytes \<Rightarrow> nat \<Rightarrow> nat option \<Rightarrow> ProjectedColumnOffsets option" where
  "parse_record_projected_column_offsets data primary_index secondary_index =
     do { (header_size, hdr_varint_len) \<leftarrow> record_prologue data;
          projected_loop data primary_index secondary_index header_size hdr_varint_len header_size
            \<lparr>pr_column_count = 0, pr_primary = None, pr_secondary = None\<rparr> }"

section \<open>The decode scratch\<close>

record RecordDecodeScratch =
  header_offsets :: "ColumnOffset list"
  scratch_values :: "SqliteValue list"
  decoded_mask :: u64

definition grow_value_slots :: "(nat \<Rightarrow> SqliteValue) \<Rightarrow> SqliteValue list \<Rightarrow> nat \<Rightarrow> SqliteValue list" where
  "grow_value_slots pool vals target_len = vals @ map pool [length vals..<target_len]"

definition invalidate :: "RecordDecodeScratch \<Rightarrow> RecordDecodeScratch" where
  "invalidate s = \<lparr>header_offsets = [], scratch_values = map (\<lambda>_. Null) (scratch_values s), decoded_mask = 0\<rparr>"

definition resize_slots :: "(nat \<Rightarrow> SqliteValue) \<Rightarrow> SqliteValue list \<Rightarrow> nat \<Rightarrow> SqliteValue list" where
  "resize_slots pool vals col_count =
     (if length vals > col_count then take col_count vals
      else if length vals < col_count then grow_value_slots pool vals col_count
      else vals)"

text \<open>When the eager parse of a wide record fails, the slots decoded before the failure remain
  and are cleared.\<close>

definition decoded_before_failure ::
  "(bytes \<Rightarrow> bool) \<Rightarrow> (nat \<Rightarrow> SqliteValue) \<Rightarrow> bytes \<Rightarrow> ColumnOffset list \<Rightarrow> SqliteValue list" where
  "decoded_before_failure utf8 pool data offs =
     map the (takeWhile (\<lambda>r. r \<noteq> None) (map (decode_column_from_offset utf8 Null data) offs))"

definition prepare_for_record ::
  "(bytes \<Rightarrow> bool) \<Rightarrow> (nat \<Rightarrow> SqliteValue) \<Rightarrow> bytes \<Rightarrow> RecordDecodeScratch \<Rightarrow> RecordDecodeScratch \<times> bool option" where
  "prepare_for_record utf8 pool data s =
     (case parse_record_header_into data of
        None \<Rightarrow> (invalidate s, None)
      | Some offs \<Rightarrow>
          if length offs > 64 then
            (case parse_record_into utf8 pool data [] of
               None \<Rightarrow> (invalidate (s\<lparr>scratch_values := decoded_before_failure utf8 pool data offs\<rparr>), None)
             | Some vs \<Rightarrow>
                 (\<lparr>header_offsets = offs, scratch_values = vs, decoded_mask = - 1\<rparr>, Some True))
          else
            (\<lparr>header_offsets = offs, scratch_values = resize_slots pool (scratch_values s) (length offs),
              decoded_mask = 0\<rparr>, Some False))"

definition prepare_for_record_prefix ::
  "(nat \<Rightarrow> SqliteValue) \<Rightarrow> bytes \<Rightarrow> RecordDecodeScratch \<Rightarrow> RecordDecodeScratch \<times> nat option" where
  "prepare_for_record_prefix pool data s =
     (case parse_record_header_prefix_into data of
        None \<Rightarrow> (invalidate s, None)
      | Some offs \<Rightarrow>
          (\<lparr>header_offsets = offs, scratch_values = resize_slots pool (scratch_values s) (length offs),
            decoded_mask = 0\<rparr>, Some (length offs)))"

definition column_offset :: "RecordDecodeScratch \<Rightarrow> nat \<Rightarrow> ColumnOffset option" where
  "column_offset s idx = buf_get (header_offsets s) idx"

definition cached_value :: "RecordDecodeScratch \<Rightarrow> nat \<Rightarrow> SqliteValue option" where
  "cached_value s idx = buf_get (scratch_values s) idx"

definition cached_value_ready :: "RecordDecodeScratch \<Rightarrow> nat \<Rightarrow> bool" where
  "cached_value_ready s idx =
     (if idx < 64 then decoded_mask s AND push_bit idx 1 \<noteq> 0 else decoded_mask s = - 1)"

definition cache_decoded ::
  "(nat \<Rightarrow> SqliteValue) \<Rightarrow> nat \<Rightarrow> SqliteValue \<Rightarrow> RecordDecodeScratch \<Rightarrow> RecordDecodeScratch" where
  "cache_decoded pool idx v s =
     (let vals = (if idx \<ge> length (scratch_values s)
                  then grow_value_slots pool (scratch_values s) (idx + 1) else scratch_values s) in
      s\<lparr>scratch_values := vals[idx := v],
        decoded_mask := if idx < 64 then decoded_mask s OR push_bit idx 1 else decoded_mask s\<rparr>)"

text \<open>The life of a scratch on one record: prepared for the whole record, then columns are
  decoded from their offsets and cached, in any order.\<close>

inductive scratch_reachable ::
  "(bytes \<Rightarrow> bool) \<Rightarrow> (nat \<Rightarrow> SqliteValue) \<Rightarrow> bytes \<Rightarrow> RecordDecodeScratch \<Rightarrow> bool"
  for utf8 pool data where
  prepared: "prepare_for_record utf8 pool data s = (s', Some eager) \<Longrightarrow> scratch_reachable utf8 pool data s'"
| cached: "scratch_reachable utf8 pool data s \<Longrightarrow> column_offset s idx = Some col \<Longrightarrow>
    decode_column_from_offset utf8 (pool k) data col = Some v \<Longrightarrow>
    scratch_reachable utf8 pool data (cache_decoded pool idx v s)"

section \<open>Lemmas\<close>

lemma ready_bit: "idx < 64 \<Longrightarrow> cached_value_ready s idx \<longleftrightarrow> bit (decoded_mask s) idx"
  using and_exp_eq_0_iff_not_bit [of "decoded_mask s" idx]
  by (simp add: cached_value_ready_def push_bit_of_1)

lemma length_resize_slots [simp]: "length (resize_slots pool vals n) = n"
  by (simp add: resize_slots_def grow_value_slots_def)

text \<open>What the mask promises: a ready column holds its decoded value.\<close>

definition scratch_coherent :: "SqliteValue list \<Rightarrow> ColumnOffset list \<Rightarrow> RecordDecodeScratch \<Rightarrow> bool" where
  "scratch_coherent vs offs s \<longleftrightarrow>
     header_offsets s = offs \<and> length (scratch_values s) = length vs \<and> length offs = length vs \<and>
     (length vs > 64 \<longrightarrow> decoded_mask s = - 1 \<and> scratch_values s = vs) \<and>
     (\<forall>idx < length vs. idx < 64 \<longrightarrow> bit (decoded_mask s) idx \<longrightarrow> scratch_values s ! idx = vs ! idx)"

lemma scratch_coherent_cache:
  assumes "scratch_coherent vs offs s" "idx < length vs"
  shows "scratch_coherent vs offs (cache_decoded pool idx (vs ! idx) s)"
  using assms
  by (auto simp: scratch_coherent_def cache_decoded_def Let_def nth_list_update bit_or_iff bit_push_bit_iff
      bit_1_iff bit_exp_iff list_update_same_conv)

lemma scratch_coherent_ready:
  assumes "scratch_coherent vs offs s" "idx < length vs" "cached_value_ready s idx"
  shows "cached_value s idx = Some (vs ! idx)"
  using assms ready_bit [of idx s]
  by (cases "idx < 64") (auto simp: scratch_coherent_def cached_value_def buf_get_def)

lemma parse_record_into_empty: "parse_record_into utf8 pool data [] = parse_record utf8 pool data"
  by (simp add: parse_record_def)

lemma scratch_reachable_coherent:
  assumes "scratch_reachable utf8 pool data s"
    and "parse_record utf8 pool data = Some vs" "\<And>k. slot_ok utf8 (pool k)" "length data < 2 ^ 32"
  shows "\<exists>offs. parse_record_header_into data = Some offs \<and> scratch_coherent vs offs s"
proof -
  from assms(2-4) obtain offs where offs: "parse_record_header_into data = Some offs" "length offs = length vs"
    and dec: "\<And>i pooled. i < length vs \<Longrightarrow> slot_ok utf8 pooled \<Longrightarrow>
      decode_column_from_offset utf8 pooled data (offs ! i) = Some (vs ! i)"
    by (rule header_offsets_decode) blast
  from assms(1) have "scratch_coherent vs offs s"
  proof induction
    case (prepared s0 s' eager)
    then show ?case
      using offs assms(2) by (auto simp: prepare_for_record_def scratch_coherent_def parse_record_into_empty split: if_splits)
  next
    case (cached s idx col k v)
    then have "col = offs ! idx" "idx < length vs"
      using offs(2) by (auto simp: scratch_coherent_def column_offset_def buf_get_def split: if_splits)
    then show ?case using cached dec [of idx "pool k"] assms(3) scratch_coherent_cache [of vs offs s idx pool] by simp
  qed
  then show ?thesis using offs by blast
qed

lemma record_columns_length: "record_columns data hs off bo = Some cols \<Longrightarrow> length cols \<le> hs - off"
proof (induction data hs off bo arbitrary: cols rule: record_columns.induct)
  case (1 data hs off bo)
  show ?case
  proof (cases "off < hs")
    case True
    from "1.prems" True show ?thesis
    proof (rule record_columns_step)
      fix st off' e rest
      assume a: "next_column data hs off bo = Some (st, off', e)" "e \<le> length data"
        "cols = (st, bo, e) # rest" "record_columns data hs off' e = Some rest"
      then show ?thesis
        using "1.IH" [OF True a(1) refl refl _ a(4)] next_column_progress [OF a(1)] True by simp
    qed
  qed (use "1.prems" in \<open>auto dest: record_columns_stop\<close>)
qed

text \<open>What the projection loop leaves for a requested index, started at column \<open>n\<close>.\<close>

definition pick ::
  "nat \<Rightarrow> nat option \<Rightarrow> (u64 \<times> nat \<times> nat) list \<Rightarrow> ColumnOffset option \<Rightarrow> ColumnOffset option" where
  "pick n j cols old =
     (case j of
        None \<Rightarrow> old
      | Some j \<Rightarrow> if n \<le> j \<and> j < n + length cols then Some (offset_of (cols ! (j - n))) else old)"

lemma pick_simps [simp]:
  "pick n j [] old = old"
  "pick n j (c # cs) old = pick (Suc n) j cs (if j = Some n then Some (offset_of c) else old)"
  by (auto simp: pick_def nth_Cons' split: option.splits)

lemma projected_loop_columns:
  "record_columns data hs off bo = Some cols \<Longrightarrow> length data < 2 ^ 32 \<Longrightarrow>
   pr_column_count acc + length cols \<le> usize_max \<Longrightarrow>
   projected_loop data pi si hs off bo acc =
     Some \<lparr>pr_column_count = pr_column_count acc + length cols,
           pr_primary = pick (pr_column_count acc) (Some pi) cols (pr_primary acc),
           pr_secondary = pick (pr_column_count acc) si cols (pr_secondary acc)\<rparr>"
proof (induction data hs off bo arbitrary: acc cols rule: record_columns.induct)
  case (1 data hs off bo)
  note simps = projected_loop.simps [of data pi si hs off bo acc]
  show ?case
  proof (cases "off < hs")
    case True
    from "1.prems"(1) True show ?thesis
    proof (rule record_columns_step)
      fix st off' e rest
      assume a: "next_column data hs off bo = Some (st, off', e)" "e \<le> length data"
        "cols = (st, bo, e) # rest" "record_columns data hs off' e = Some rest"
      let ?n = "pr_column_count acc" and ?c = "offset_of (st, bo, e)"
      let ?acc = "\<lparr>pr_column_count = Suc ?n,
          pr_primary = (if pi = ?n then Some ?c else pr_primary acc),
          pr_secondary = (if si = Some ?n then Some ?c else pr_secondary acc)\<rparr>"
      have lt: "bo < 4294967296" "e - bo < 4294967296"
        using a(2) "1.prems"(2) next_column_le [OF a(1)] by auto
      have "usize_checked_add ?n 1 = Some (Suc ?n)" using "1.prems"(3) a(3) by simp
      then have "projected_loop data pi si hs off bo acc = projected_loop data pi si hs off' e ?acc"
        using True a(1,2) lt unfolding simps
        by (cases acc) (auto simp: Let_def u32_try_from_def offset_of_def usize_checked_add_def split: if_splits)
      also have "\<dots> = Some \<lparr>pr_column_count = Suc ?n + length rest,
           pr_primary = pick (Suc ?n) (Some pi) rest (pr_primary ?acc),
           pr_secondary = pick (Suc ?n) si rest (pr_secondary ?acc)\<rparr>"
        using "1.IH" [OF True a(1) refl refl _ a(4) "1.prems"(2), of ?acc] "1.prems"(3) a(2,3) by simp
      finally show ?thesis using a(3) by simp
    qed
  next
    case False
    then have "projected_loop data pi si hs off bo acc = Some acc"
      unfolding simps using record_columns_stop [OF "1.prems"(1)] by simp
    then show ?thesis using record_columns_stop [OF "1.prems"(1) False] by simp
  qed
qed

section \<open>Properties\<close>

text \<open>In every state a scratch can reach on a well-formed record, by preparing it and caching
  columns decoded from their offsets in any order, a column the mask reports as ready holds
  the value the full parser gives for it, also when the scratch held another record before.\<close>

theorem scratch_cache_sound:
  assumes "scratch_reachable utf8 pool data s"
    and "parse_record utf8 pool data = Some vs" and "\<And>k. slot_ok utf8 (pool k)" and "length data < 2 ^ 32"
    and "idx < length vs" and "cached_value_ready s idx"
  shows "cached_value s idx = Some (vs ! idx)"
  using scratch_reachable_coherent [OF assms(1-4)] scratch_coherent_ready [OF _ assms(5,6)] by blast

theorem scratch_cache_sound_witness:
  "\<exists>s. scratch_reachable (\<lambda>_. True) (\<lambda>_. Null) [3, 15, 1, 72, 5] s \<and> cached_value_ready s 1 \<and>
     cached_value s 1 = Some (Integer 5)"
proof -
  let ?d = "[3, 15, 1, 72, 5] :: bytes"
  have p: "parse_record (\<lambda>_. True) (\<lambda>_. Null) ?d = Some [Text [72], Integer 5]"
    by (simp add: parse_record_def parse_record_into_def record_prologue_def read_varint_def
        parse_into_loop.simps next_column_def subslice_def serial_type_len_def usize_max_def usize_checked_add_def
        decode_value_def decode_value_into_def classify_serial_type_def decode_big_endian_signed_def)
  obtain offs where o: "parse_record_header_into ?d = Some offs" "length offs = 2"
    "decode_column_from_offset (\<lambda>_. True) Null ?d (offs ! 1) = Some (Integer 5)"
    by (rule header_offsets_decode [OF p]) auto
  let ?s = "\<lparr>header_offsets = offs, scratch_values = [Null, Null], decoded_mask = 0\<rparr>"
  have "prepare_for_record (\<lambda>_. True) (\<lambda>_. Null) ?d (?s\<lparr>header_offsets := []\<rparr>) = (?s, Some False)"
    using o by (simp add: prepare_for_record_def resize_slots_def)
  then have "scratch_reachable (\<lambda>_. True) (\<lambda>_. Null) ?d ?s" by (rule scratch_reachable.prepared)
  then have r: "scratch_reachable (\<lambda>_. True) (\<lambda>_. Null) ?d (cache_decoded (\<lambda>_. Null) 1 (Integer 5) ?s)"
    by (rule scratch_reachable.cached) (use o in \<open>simp_all add: column_offset_def buf_get_def\<close>)
  moreover have "cached_value_ready (cache_decoded (\<lambda>_. Null) 1 (Integer 5) ?s) 1"
    by (simp add: ready_bit cache_decoded_def)
  ultimately show ?thesis using scratch_cache_sound [OF r p, of 1] by auto
qed

text \<open>The projection reader returns the number of columns and the same offsets the full header
  reader stores at the requested indices.\<close>

theorem projected_offsets_agree:
  assumes "parse_record utf8 pool data = Some vs" and "\<And>k. slot_ok utf8 (pool k)" and "length data < 2 ^ 32"
  shows "\<exists>offs. parse_record_header_into data = Some offs \<and>
      parse_record_projected_column_offsets data pi si =
        Some \<lparr>pr_column_count = length offs, pr_primary = buf_get offs pi,
              pr_secondary = Option.bind si (buf_get offs)\<rparr>"
proof -
  from assms(1,2) obtain hs n cols where p: "record_prologue data = Some (hs, n)"
    and c: "record_columns data hs n hs = Some cols"
    by (rule parse_record_SomeE)
  have "hs \<le> length data" using p by (auto simp: record_prologue_def Let_def split: Option.bind_splits if_splits)
  then have "length cols \<le> length data" using record_columns_length [OF c] by simp
  then have le: "0 + length cols \<le> usize_max" using assms(3) by (simp add: usize_max_def)
  have pk: "pick 0 j cols None = Option.bind j (buf_get (map offset_of cols))" for j
    by (cases j) (auto simp: pick_def buf_get_def)
  show ?thesis
    using header_into_loop_columns [OF c assms(3), of True "[]"] p le pk [of "Some pi"] pk [of si]
      projected_loop_columns [OF c assms(3), of "\<lparr>pr_column_count = 0, pr_primary = None, pr_secondary = None\<rparr>" pi si]
    by (simp add: parse_record_header_into_def parse_record_projected_column_offsets_def)
qed

theorem projected_offsets_agree_witness:
  "\<exists>offs. parse_record_header_into [3, 15, 1, 72, 5] = Some offs \<and>
     map_option pr_column_count (parse_record_projected_column_offsets [3, 15, 1, 72, 5] 1 None) = Some (length offs)"
proof -
  have p: "parse_record (\<lambda>_. True) (\<lambda>_. Null) [3, 15, 1, 72, 5] = Some [Text [72], Integer 5]"
    by (simp add: parse_record_def parse_record_into_def record_prologue_def read_varint_def
        parse_into_loop.simps next_column_def subslice_def serial_type_len_def usize_max_def usize_checked_add_def
        decode_value_def decode_value_into_def classify_serial_type_def decode_big_endian_signed_def)
  show ?thesis using projected_offsets_agree [OF p, of 1 None] by auto
qed

text \<open>C38: the mask cannot tell 64 cached columns from an eagerly decoded record.  When a record
  of more than 64 columns was prepared from a prefix, caching its first 64 columns makes
  \<open>cached_value_ready\<close> report column 64 as decoded although its slot still holds what the pool
  supplied.\<close>

theorem scratch_prefix_wide_stale:
  assumes "prepare_for_record_prefix pool data \<lparr>header_offsets = [], scratch_values = [], decoded_mask = 0\<rparr> = (s0, Some n)"
    and "64 < n" and "s = fold (\<lambda>i. cache_decoded pool i (vs i)) [0..<64] s0"
  shows "cached_value_ready s 64 \<and> cached_value s 64 = Some (pool 64)"
proof -
  have s0: "decoded_mask s0 = 0" "scratch_values s0 = map pool [0..<n]"
    using assms(1,2) by (auto simp: prepare_for_record_prefix_def resize_slots_def grow_value_slots_def split: option.splits)
  have "k \<le> 64 \<Longrightarrow> decoded_mask (fold (\<lambda>i. cache_decoded pool i (vs i)) [0..<k] s0) = mask k \<and>
      length (scratch_values (fold (\<lambda>i. cache_decoded pool i (vs i)) [0..<k] s0)) = n \<and>
      scratch_values (fold (\<lambda>i. cache_decoded pool i (vs i)) [0..<k] s0) ! 64 = pool 64" for k
  proof (induction k)
    case (Suc k)
    then show ?case
      using assms(2) by (auto simp: cache_decoded_def Let_def mask_Suc_exp or.commute)
  qed (use s0 assms(2) in simp)
  from this [of 64] show ?thesis
    using assms(2) unfolding assms(3)
    by (auto simp: cached_value_ready_def cached_value_def buf_get_def mask_eq_exp_minus_1)
qed

theorem scratch_prefix_wide_stale_witness:
  "\<exists>data s0 s. prepare_for_record_prefix (\<lambda>_. Integer 7) data
       \<lparr>header_offsets = [], scratch_values = [], decoded_mask = 0\<rparr> = (s0, Some 65) \<and>
     s = fold (\<lambda>i. cache_decoded (\<lambda>_. Integer 7) i Null) [0..<64] s0 \<and>
     cached_value_ready s 64 \<and> cached_value s 64 = Some (Integer 7)"
proof -
  let ?vs = "replicate 65 Null"
  let ?e = "\<lparr>header_offsets = [], scratch_values = [], decoded_mask = 0\<rparr>"
  have "header_entries (replicate n Null) = replicate n 0" for n
    by (induction n) (simp_all add: serial_type_of_def serialized_value_layout_def varint_bytes_def varint_len_def)
  moreover have "record_body (replicate n Null) = []" for n
    by (induction n) (simp_all add: payload_of_def)
  ultimately have len: "length (record_spec ?vs) < 2 ^ 32"
    using varint_len_range(2) [of "word_of_nat (record_header_size ?vs)"] by (simp add: record_spec_def)
  have p: "parse_record (\<lambda>_. True) (\<lambda>_. Integer 7) (record_spec ?vs) = Some (map storage_value ?vs)"
    using len by (intro parse_record_spec) auto
  obtain offs where "parse_record_header_prefix_into (record_spec ?vs) = Some offs" "length offs = 65"
    by (rule header_offsets_decode [OF p _ len]) simp_all
  then obtain s0 where "prepare_for_record_prefix (\<lambda>_. Integer 7) (record_spec ?vs) ?e = (s0, Some 65)"
    by (simp add: prepare_for_record_prefix_def)
  with scratch_prefix_wide_stale [OF this _ refl, of "\<lambda>_. Null"] show ?thesis by auto
qed

end
