(* ===== verification/RecordTemplate.thy ===== *)
theory RecordTemplate
  imports RecordWrite
begin

text \<open>
  Serialization with a precomputed header template
  (\<open>crates/fsqlite-types/src/record.rs\<close>, \<open>PrecomputedRecordHeader\<close> and its writers).
  The template is built once per statement; each execution copies it, patches one-byte serial
  types and writes the payloads.  A writer returns whether the values met the template's contract
  together with the buffer it leaves; \<^const>\<open>None\<close> is a panic.
\<close>

datatype PrecomputedSerialTypeKind = NullPlaceholder | AnyOneByteVarintOrNull | IntegerOrNull | RealOrNull

definition header_varint_len :: "PrecomputedSerialTypeKind \<Rightarrow> nat" where
  "header_varint_len kind = 1"

fun max_payload_len :: "PrecomputedSerialTypeKind \<Rightarrow> nat" where
  "max_payload_len NullPlaceholder = 0"
| "max_payload_len AnyOneByteVarintOrNull = 57"
| "max_payload_len IntegerOrNull = 8"
| "max_payload_len RealOrNull = 8"

definition u8_or_zero :: "u64 \<Rightarrow> u8" where
  "u8_or_zero v = (if v \<le> 255 then ucast v else 0)"

text \<open>The integer payload width by serial type; the remaining serial types are \<open>unreachable!\<close>.\<close>

definition integer_payload_len :: "u64 \<Rightarrow> nat option" where
  "integer_payload_len st =
     (if st = 8 \<or> st = 9 then Some 0
      else if st = 1 then Some 1
      else if st = 2 then Some 2
      else if st = 3 then Some 3
      else if st = 4 then Some 4
      else if st = 5 then Some 6
      else if st = 6 then Some 8
      else None)"

text \<open>Outer \<^const>\<open>None\<close>: panic; inner \<^const>\<open>None\<close>: the slot rejects the value.\<close>

fun serial_byte_and_payload_len :: "PrecomputedSerialTypeKind \<Rightarrow> SqliteValue \<Rightarrow> (u8 \<times> nat) option option" where
  "serial_byte_and_payload_len NullPlaceholder value = Some (Some (0, 0))"
| "serial_byte_and_payload_len AnyOneByteVarintOrNull value =
     (case serialized_value_layout value of
        (serial_type, payload_len) \<Rightarrow>
          Some (if varint_len serial_type = 1 then Some (u8_or_zero serial_type, payload_len) else None))"
| "serial_byte_and_payload_len IntegerOrNull Null = Some (Some (0, 0))"
| "serial_byte_and_payload_len IntegerOrNull (Integer i) =
     (let serial_type = serial_type_for_integer i in
      map_option (\<lambda>payload_len. Some (u8_or_zero serial_type, payload_len)) (integer_payload_len serial_type))"
| "serial_byte_and_payload_len IntegerOrNull _ = Some None"
| "serial_byte_and_payload_len RealOrNull Null = Some (Some (0, 0))"
| "serial_byte_and_payload_len RealOrNull (Float f) = Some (Some (if f64_is_nan f then (0, 0) else (7, 8)))"
| "serial_byte_and_payload_len RealOrNull _ = Some None"

definition needs_runtime_patch :: "PrecomputedSerialTypeKind \<Rightarrow> bool" where
  "needs_runtime_patch kind = (kind \<in> {AnyOneByteVarintOrNull, IntegerOrNull, RealOrNull})"

record PrecomputedSerialTypeSlot =
  slot_kind :: PrecomputedSerialTypeKind
  slot_header_offset :: nat

record PrecomputedRecordHeader =
  prh_template :: bytes
  prh_slots :: "PrecomputedSerialTypeSlot list"
  prh_max_body_size :: nat

fun template_loop ::
  "PrecomputedSerialTypeKind list \<Rightarrow> nat \<Rightarrow> PrecomputedRecordHeader \<Rightarrow> PrecomputedRecordHeader option" where
  "template_loop [] offset h = Some h"
| "template_loop (kind # kinds) offset h =
     do { (template, offset') \<leftarrow>
            (if needs_runtime_patch kind
             then map_option (\<lambda>t. (t, offset + 1)) (buf_set (prh_template h) offset 0)
             else map_option (\<lambda>(t, n). (t, offset + n)) (write_varint_at (prh_template h) offset 0));
          template_loop kinds offset'
            \<lparr>prh_template = template,
             prh_slots = prh_slots h @ [\<lparr>slot_kind = kind, slot_header_offset = offset\<rparr>],
             prh_max_body_size = prh_max_body_size h + max_payload_len kind\<rparr> }"

definition PrecomputedRecordHeader_new :: "PrecomputedSerialTypeKind list \<Rightarrow> PrecomputedRecordHeader option" where
  "PrecomputedRecordHeader_new kinds =
     do { let header_size = compute_header_size (sum_list (map header_varint_len kinds));
          (template, offset) \<leftarrow> write_varint (replicate header_size 0) (u64_of_usize header_size);
          template_loop kinds offset \<lparr>prh_template = template, prh_slots = [], prh_max_body_size = 0\<rparr> }"

definition try_build_runtime_precomputed_record_header ::
  "SqliteValue list \<Rightarrow> PrecomputedRecordHeader option option" where
  "try_build_runtime_precomputed_record_header vals =
     (if \<exists>v \<in> set vals. varint_len (fst (serialized_value_layout v)) \<noteq> 1 then Some None
      else map_option Some (PrecomputedRecordHeader_new (replicate (length vals) AnyOneByteVarintOrNull)))"

section \<open>The writers\<close>

definition patch_serial_byte :: "PrecomputedSerialTypeSlot \<Rightarrow> u8 \<Rightarrow> bytes \<Rightarrow> bytes option" where
  "patch_serial_byte slot serial_byte buf =
     (if needs_runtime_patch (slot_kind slot) then buf_set buf (slot_header_offset slot) serial_byte else Some buf)"

fun append_slots ::
  "PrecomputedSerialTypeSlot list \<Rightarrow> SqliteValue list \<Rightarrow> bytes \<Rightarrow> (bool \<times> bytes) option" where
  "append_slots [] vals buf = Some (if vals = [] then (True, buf) else (False, []))"
| "append_slots (slot # slots) [] buf = Some (False, [])"
| "append_slots (slot # slots) (value # vals) buf =
     do { r \<leftarrow> serial_byte_and_payload_len (slot_kind slot) value;
          (case r of
             None \<Rightarrow> Some (False, [])
           | Some (serial_byte, payload_len) \<Rightarrow>
               do { buf' \<leftarrow> patch_serial_byte slot serial_byte buf;
                    buf'' \<leftarrow> append_serialized_value value payload_len buf';
                    append_slots slots vals buf'' }) }"

definition serialize_record_iter_with_precomputed_header_append_into ::
  "SqliteValue list \<Rightarrow> PrecomputedRecordHeader \<Rightarrow> (bool \<times> bytes) option" where
  "serialize_record_iter_with_precomputed_header_append_into vals header =
     (case usize_checked_add (length (prh_template header)) (prh_max_body_size header) of
        None \<Rightarrow> Some (False, [])
      | Some total_capacity \<Rightarrow> append_slots (prh_slots header) vals (prh_template header))"

definition serialize_single_slot_precomputed_record_into ::
  "SqliteValue list \<Rightarrow> PrecomputedRecordHeader \<Rightarrow> bytes \<Rightarrow> (bool \<times> bytes) option" where
  "serialize_single_slot_precomputed_record_into vals header buf =
     (case vals of
        [value] \<Rightarrow>
          do { slot \<leftarrow> buf_get (prh_slots header) 0;
               r \<leftarrow> serial_byte_and_payload_len (slot_kind slot) value;
               (case r of
                  None \<Rightarrow> Some (False, buf)
                | Some (serial_byte, payload_len) \<Rightarrow>
                    let header_size = length (prh_template header) in
                    (case usize_checked_add header_size payload_len of
                       None \<Rightarrow> Some (False, buf)
                     | Some total_size \<Rightarrow>
                         do { buf1 \<leftarrow> slice_copy (replicate total_size 0) 0 header_size (prh_template header);
                              buf2 \<leftarrow> patch_serial_byte slot serial_byte buf1;
                              buf3 \<leftarrow> encode_serialized_value value payload_len buf2 header_size total_size;
                              Some (True, buf3) })) }
      | _ \<Rightarrow> Some (False, buf))"

text \<open>The first pass of the stack writer: serial bytes and payload lengths, with the running body
  size; an inner \<^const>\<open>None\<close> is the early \<open>return false\<close>.\<close>

fun match_slots ::
  "PrecomputedSerialTypeSlot list \<Rightarrow> SqliteValue list \<Rightarrow> nat \<Rightarrow>
   (nat \<times> (PrecomputedSerialTypeSlot \<times> SqliteValue \<times> u8 \<times> nat) list) option option" where
  "match_slots [] vals body_sz = Some (if vals = [] then Some (body_sz, []) else None)"
| "match_slots (slot # slots) [] body_sz = Some None"
| "match_slots (slot # slots) (value # vals) body_sz =
     do { r \<leftarrow> serial_byte_and_payload_len (slot_kind slot) value;
          (case r of
             None \<Rightarrow> Some None
           | Some (serial_byte, payload_len) \<Rightarrow>
               (case usize_checked_add body_sz payload_len of
                  None \<Rightarrow> Some None
                | Some body_sz' \<Rightarrow>
                    map_option (map_option (\<lambda>(bs, ms). (bs, (slot, value, serial_byte, payload_len) # ms)))
                      (match_slots slots vals body_sz'))) }"

fun patch_slots ::
  "(PrecomputedSerialTypeSlot \<times> SqliteValue \<times> u8 \<times> nat) list \<Rightarrow> nat \<Rightarrow> bytes \<Rightarrow> bytes option" where
  "patch_slots [] body_offset buf = Some buf"
| "patch_slots ((slot, value, serial_byte, payload_len) # ms) body_offset buf =
     do { buf' \<leftarrow> patch_serial_byte slot serial_byte buf;
          buf'' \<leftarrow> encode_serialized_value value payload_len buf' body_offset (body_offset + payload_len);
          patch_slots ms (body_offset + payload_len) buf'' }"

definition serialize_record_iter_with_precomputed_header_into ::
  "SqliteValue list \<Rightarrow> PrecomputedRecordHeader \<Rightarrow> bytes \<Rightarrow> (bool \<times> bytes) option" where
  "serialize_record_iter_with_precomputed_header_into vals header buf =
     (if length (prh_slots header) = 1 then serialize_single_slot_precomputed_record_into vals header buf
      else if length (prh_slots header) > 16 \<or> prh_max_body_size header \<le> 384
      then serialize_record_iter_with_precomputed_header_append_into vals header
      else
        do { r \<leftarrow> match_slots (prh_slots header) vals 0;
             (case r of
                None \<Rightarrow> Some (False, buf)
              | Some (body_sz, ms) \<Rightarrow>
                  let header_size = length (prh_template header) in
                  (case usize_checked_add header_size body_sz of
                     None \<Rightarrow> Some (False, buf)
                   | Some total_size \<Rightarrow>
                       do { buf1 \<leftarrow> slice_copy (replicate total_size 0) 0 header_size (prh_template header);
                            buf2 \<leftarrow> patch_slots ms header_size buf1;
                            Some (True, buf2) })) })"

fun exact_size_loop :: "PrecomputedSerialTypeSlot list \<Rightarrow> SqliteValue list \<Rightarrow> nat \<Rightarrow> nat option option" where
  "exact_size_loop [] vals body_sz = Some (if vals = [] then Some body_sz else None)"
| "exact_size_loop (slot # slots) [] body_sz = Some None"
| "exact_size_loop (slot # slots) (value # vals) body_sz =
     do { r \<leftarrow> serial_byte_and_payload_len (slot_kind slot) value;
          (case r of
             None \<Rightarrow> Some None
           | Some (_, payload_len) \<Rightarrow>
               (case usize_checked_add body_sz payload_len of
                  None \<Rightarrow> Some None
                | Some body_sz' \<Rightarrow> exact_size_loop slots vals body_sz')) }"

definition record_iter_with_precomputed_header_exact_size ::
  "SqliteValue list \<Rightarrow> PrecomputedRecordHeader \<Rightarrow> nat option option" where
  "record_iter_with_precomputed_header_exact_size vals header =
     do { r \<leftarrow> exact_size_loop (prh_slots header) vals 0;
          Some (Option.bind r (usize_checked_add (length (prh_template header)))) }"

fun slice_slots ::
  "nat \<Rightarrow> PrecomputedSerialTypeSlot list \<Rightarrow> SqliteValue list \<Rightarrow> nat \<Rightarrow> bytes \<Rightarrow> (unit + bytes) option" where
  "slice_slots header_size [] vals body_offset dst =
     Some (if vals \<noteq> [] \<or> body_offset \<noteq> length dst then Inl () else Inr dst)"
| "slice_slots header_size (slot # slots) [] body_offset dst = Some (Inl ())"
| "slice_slots header_size (slot # slots) (value # vals) body_offset dst =
     do { r \<leftarrow> serial_byte_and_payload_len (slot_kind slot) value;
          (case r of
             None \<Rightarrow> Some (Inl ())
           | Some (serial_byte, payload_len) \<Rightarrow>
               if needs_runtime_patch (slot_kind slot) \<and> slot_header_offset slot \<ge> header_size then Some (Inl ()) else
               do { dst' \<leftarrow> patch_serial_byte slot serial_byte dst;
                    (case usize_checked_add body_offset payload_len of
                       None \<Rightarrow> Some (Inl ())
                     | Some body_end \<Rightarrow>
                         if body_end > length dst' then Some (Inl ())
                         else do { dst'' \<leftarrow> encode_serialized_value value payload_len dst' body_offset body_end;
                                   slice_slots header_size slots vals body_end dst'' }) }) }"

definition serialize_record_iter_with_precomputed_header_into_slice ::
  "SqliteValue list \<Rightarrow> PrecomputedRecordHeader \<Rightarrow> bytes \<Rightarrow> (unit + bytes) option" where
  "serialize_record_iter_with_precomputed_header_into_slice vals header dst =
     (let header_size = length (prh_template header) in
      if length dst < header_size then Some (Inl ())
      else do { dst' \<leftarrow> slice_copy dst 0 header_size (prh_template header);
                slice_slots header_size (prh_slots header) vals header_size dst' })"

section \<open>Slots and values\<close>

definition slot_value :: "PrecomputedSerialTypeKind \<Rightarrow> SqliteValue \<Rightarrow> SqliteValue" where
  "slot_value k v = (if k = NullPlaceholder then Null else v)"

text \<open>Codegen puts the rowid alias or NULL where a placeholder stands.\<close>

definition placeholder_ok :: "PrecomputedSerialTypeKind \<Rightarrow> SqliteValue \<Rightarrow> bool" where
  "placeholder_ok k v \<longleftrightarrow> (k = NullPlaceholder \<longrightarrow> v = Null \<or> (\<exists>i. v = Integer i))"

fun accepts :: "PrecomputedSerialTypeKind \<Rightarrow> SqliteValue \<Rightarrow> bool" where
  "accepts NullPlaceholder v = True"
| "accepts AnyOneByteVarintOrNull v = (varint_len (serial_type_of v) = 1)"
| "accepts IntegerOrNull v = (case v of Null \<Rightarrow> True | Integer _ \<Rightarrow> True | _ \<Rightarrow> False)"
| "accepts RealOrNull v = (case v of Null \<Rightarrow> True | Float _ \<Rightarrow> True | _ \<Rightarrow> False)"

lemma serial_type_of_simps:
  "serial_type_of Null = 0" "serial_type_of (Integer i) = serial_type_for_integer i"
  "serial_type_of (Float f) = (if f64_is_nan f then 0 else 7)"
  by (simp_all add: serial_type_of_def serialized_value_layout_def serial_type_for_integer_eq)

lemma serial_type_for_integer_small: "serial_type_for_integer i \<le> 0x7F"
  by (cases i rule: integer_serial_cases) (simp_all add: serial_type_for_integer_eq)

lemma accepts_one_byte: "accepts k v \<Longrightarrow> serial_type_of (slot_value k v) \<le> 0x7F"
  using serial_type_for_integer_small
  by (cases k; cases v) (simp_all add: slot_value_def serial_type_of_simps varint_len_1_iff)

lemma varint_bytes_one: "w \<le> 0x7F \<Longrightarrow> varint_bytes w = [ucast w]"
  using varint_len_1_iff [of w] by (simp add: varint_bytes_def ucast_low7)

lemma u8_or_zero_small: "w \<le> 0x7F \<Longrightarrow> u8_or_zero w = ucast w"
  by (simp add: u8_or_zero_def word_le_nat_alt)

lemma integer_payload_len_eq:
  "integer_payload_len (serial_type_for_integer i) = Some (length (payload_of (Integer i)))"
  by (cases i rule: integer_serial_cases)
    (simp_all add: serial_type_for_integer_eq integer_payload_len_def payload_of_def)

lemma serial_byte_and_payload_len_eq:
  "serial_byte_and_payload_len k v =
     Some (if accepts k v
           then Some (ucast (serial_type_of (slot_value k v)), length (payload_of (slot_value k v))) else None)"
proof (cases k)
  case NullPlaceholder
  then show ?thesis by (simp add: slot_value_def serial_type_of_simps payload_of_def)
next
  case AnyOneByteVarintOrNull
  then show ?thesis
    using accepts_one_byte [of k v] by (auto simp: layout_eq slot_value_def u8_or_zero_small)
next
  case IntegerOrNull
  then show ?thesis
    using accepts_one_byte [of k v]
    by (cases v) (simp_all add: slot_value_def serial_type_of_simps payload_of_def [of Null] u8_or_zero_small
        integer_payload_len_eq Let_def)
next
  case RealOrNull
  then show ?thesis
    by (cases v) (simp_all add: slot_value_def serial_type_of_simps payload_of_def)
qed

lemma append_slot_payload:
  "placeholder_ok k v \<Longrightarrow>
   append_serialized_value v (length (payload_of (slot_value k v))) buf = Some (buf @ payload_of (slot_value k v))"
  using append_serialized_value_payload [of v buf]
  by (auto simp: slot_value_def placeholder_ok_def payload_of_def append_serialized_value_def)

lemma encode_slot_payload:
  assumes "placeholder_ok k v" "lo + length (payload_of (slot_value k v)) \<le> length buf"
  shows "encode_serialized_value v (length (payload_of (slot_value k v))) buf lo
      (lo + length (payload_of (slot_value k v))) = Some (put lo (payload_of (slot_value k v)) buf)"
proof (cases "k = NullPlaceholder")
  case True
  then show ?thesis
    using assms by (auto simp: slot_value_def placeholder_ok_def payload_of_def encode_serialized_value_def put_def)
next
  case False
  then show ?thesis using encode_serialized_value_payload [of lo v buf] assms(2) by (simp add: slot_value_def)
qed

section \<open>The template\<close>

fun slots_from :: "nat \<Rightarrow> PrecomputedSerialTypeKind list \<Rightarrow> PrecomputedSerialTypeSlot list" where
  "slots_from off [] = []"
| "slots_from off (k # ks) = \<lparr>slot_kind = k, slot_header_offset = off\<rparr> # slots_from (Suc off) ks"

lemma length_slots_from [simp]: "length (slots_from off ks) = length ks"
  by (induction ks arbitrary: off) simp_all

lemma buf_set_mid: "buf_set (pre @ a # rest) (length pre) b = Some (pre @ b # rest)"
  by (simp add: buf_set_def list_update_append)

lemma template_loop_eq:
  "prh_template h = pre @ replicate (length ks) 0 \<Longrightarrow>
   template_loop ks (length pre) h =
     Some \<lparr>prh_template = prh_template h, prh_slots = prh_slots h @ slots_from (length pre) ks,
           prh_max_body_size = prh_max_body_size h + sum_list (map max_payload_len ks)\<rparr>"
proof (induction ks arbitrary: pre h)
  case (Cons k ks)
  have z: "varint_len 0 = Suc 0" "varint_bytes 0 = [0]"
    by (simp_all add: varint_len_def varint_bytes_one)
  have w: "write_varint_at (prh_template h) (length pre) 0 = Some (prh_template h, 1)"
    using write_varint_at_mid [of "[0]" 0 pre "replicate (length ks) 0"] Cons.prems z by simp
  have b: "buf_set (prh_template h) (length pre) 0 = Some (prh_template h)"
    using Cons.prems by (simp add: buf_set_mid)
  show ?case
    using Cons.IH [of "\<lparr>prh_template = prh_template h,
        prh_slots = prh_slots h @ [\<lparr>slot_kind = k, slot_header_offset = length pre\<rparr>],
        prh_max_body_size = prh_max_body_size h + max_payload_len k\<rparr>" "pre @ [0]"] Cons.prems w b
    by simp
qed simp

definition template_size :: "PrecomputedSerialTypeKind list \<Rightarrow> nat" where
  "template_size ks = compute_header_size (length ks)"

lemma PrecomputedRecordHeader_new_eq:
  assumes "length ks < 2 ^ 32"
  shows "PrecomputedRecordHeader_new ks =
      Some \<lparr>prh_template = varint_bytes (word_of_nat (template_size ks)) @ replicate (length ks) 0,
            prh_slots = slots_from (varint_len (word_of_nat (template_size ks))) ks,
            prh_max_body_size = sum_list (map max_payload_len ks)\<rparr>"
proof -
  define n where "n = varint_len (word_of_nat (template_size ks))"
  have hs: "template_size ks = n + length ks"
    using compute_header_size_fix [of "length ks"] assms by (simp add: template_size_def n_def)
  have n9: "n \<le> 9" using varint_len_range(2) by (simp add: n_def)
  have sum: "compute_header_size (sum_list (map header_varint_len ks)) = template_size ks"
    unfolding header_varint_len_def template_size_def by (simp add: sum_list_triv)
  have "u64_of_usize (template_size ks) = word_of_nat (template_size ks)"
    using hs n9 assms by (simp add: u64_of_usize_def)
  moreover have "replicate (template_size ks) (0 :: u8) = replicate n 0 @ replicate (length ks) 0"
    unfolding hs by (rule replicate_add)
  ultimately have w: "write_varint (replicate (template_size ks) 0) (u64_of_usize (template_size ks)) =
      Some (varint_bytes (word_of_nat (template_size ks)) @ replicate (length ks) 0, n)"
    using write_varint_front [of "replicate n 0" "word_of_nat (template_size ks)"] by (simp add: n_def)
  show ?thesis
    using w template_loop_eq [of _ "varint_bytes (word_of_nat (template_size ks))" ks]
    by (simp add: PrecomputedRecordHeader_new_def sum n_def Let_def)
qed

section \<open>All writers fill the template the same way\<close>

abbreviation slot_values :: "PrecomputedSerialTypeKind list \<Rightarrow> SqliteValue list \<Rightarrow> SqliteValue list" where
  "slot_values ks vs \<equiv> map2 slot_value ks vs"

definition placeholders_ok :: "PrecomputedSerialTypeKind list \<Rightarrow> SqliteValue list \<Rightarrow> bool" where
  "placeholders_ok ks vs \<longleftrightarrow> (\<forall>(k, v) \<in> set (zip ks vs). placeholder_ok k v)"

lemma placeholders_ok_Cons [simp]:
  "placeholders_ok (k # ks) (v # vs) \<longleftrightarrow> placeholder_ok k v \<and> placeholders_ok ks vs"
  by (auto simp: placeholders_ok_def)

lemma patch_slot:
  assumes "accepts k v"
  shows "patch_serial_byte \<lparr>slot_kind = k, slot_header_offset = length pre\<rparr>
      (ucast (serial_type_of (slot_value k v))) (pre @ 0 # rest) =
    Some (pre @ varint_bytes (serial_type_of (slot_value k v)) @ rest)"
  using accepts_one_byte [OF assms]
  by (cases k) (simp_all add: patch_serial_byte_def needs_runtime_patch_def buf_set_mid varint_bytes_one
      slot_value_def serial_type_of_simps)

lemma length_accepted: "accepts k v \<Longrightarrow> varint_len (serial_type_of (slot_value k v)) = 1"
  using accepts_one_byte [of k v] by (simp add: varint_len_1_iff)

lemma append_slots_eq:
  "placeholders_ok ks vs \<Longrightarrow>
   append_slots (slots_from (length pre) ks) vs (pre @ replicate (length ks) 0 @ body) =
     Some (if list_all2 accepts ks vs
           then (True, pre @ header_entries (slot_values ks vs) @ body @ record_body (slot_values ks vs))
           else (False, []))"
proof (induction ks arbitrary: vs pre body)
  case (Cons k ks)
  show ?case
  proof (cases vs)
    case (Cons v ws)
    show ?thesis
    proof (cases "accepts k v")
      case True
      let ?t = "varint_bytes (serial_type_of (slot_value k v))"
      have "length (pre @ ?t) = Suc (length pre)" using length_accepted [OF True] by simp
      then show ?thesis
        using Cons.IH [of ws "pre @ ?t" "body @ payload_of (slot_value k v)"] Cons.prems Cons True
          patch_slot [OF True, of pre "replicate (length ks) 0 @ body"]
        by (simp add: serial_byte_and_payload_len_eq append_slot_payload)
    qed (use Cons in \<open>simp add: serial_byte_and_payload_len_eq\<close>)
  qed simp
qed (auto simp: list_all2_iff)

lemma accepts_payload_bound:
  assumes "accepts k v"
  shows "length (payload_of (slot_value k v)) \<le> max_payload_len k"
proof (cases "k = AnyOneByteVarintOrNull")
  case True
  then have one: "varint_len (serial_type_of v) = 1" using assms by simp
  then have "value_len_ok v" using long_serial_type [of v] by force
  then have len: "length (payload_of v) < 2 ^ 63 - 6" by (simp add: value_len_ok_def)
  then have un: "unat (word_of_nat (length (payload_of v)) :: u64) = length (payload_of v)"
    by (intro unat_word_of_nat) simp
  have st: "unat (serial_type_of v) \<le> 127" using one by (simp add: varint_len_1_iff word_le_nat_alt)
  show ?thesis
  proof (cases v)
    case (Integer i)
    then show ?thesis using True integer_len_le [of i] by (simp add: slot_value_def payload_of_def)
  next
    case (Text s)
    then show ?thesis
      using True st un unat_serial_type_for(1) [of "word_of_nat (length s)"] len
      by (simp add: slot_value_def serial_type_of_def serialized_value_layout_def u64_of_usize_def payload_of_def)
  next
    case (Blob s)
    then show ?thesis
      using True st un unat_serial_type_for(2) [of "word_of_nat (length s)"] len
      by (simp add: slot_value_def serial_type_of_def serialized_value_layout_def u64_of_usize_def payload_of_def)
  qed (simp_all add: slot_value_def payload_of_def True)
next
  case False
  then show ?thesis
    using assms integer_len_le by (cases k; cases v) (simp_all add: slot_value_def payload_of_def)
qed

text \<open>The pairs the first pass of the stack writer collects.\<close>

fun matched ::
  "nat \<Rightarrow> PrecomputedSerialTypeKind list \<Rightarrow> SqliteValue list \<Rightarrow>
   (PrecomputedSerialTypeSlot \<times> SqliteValue \<times> u8 \<times> nat) list" where
  "matched off (k # ks) (v # vs) =
     (\<lparr>slot_kind = k, slot_header_offset = off\<rparr>, v, ucast (serial_type_of (slot_value k v)),
      length (payload_of (slot_value k v))) # matched (Suc off) ks vs"
| "matched off _ _ = []"

lemma match_slots_eq:
  "bs + sum_list (map max_payload_len ks) \<le> usize_max \<Longrightarrow>
   match_slots (slots_from off ks) vs bs =
     Some (if list_all2 accepts ks vs
           then Some (bs + length (record_body (slot_values ks vs)), matched off ks vs) else None)"
proof (induction ks arbitrary: vs off bs)
  case (Cons k ks)
  show ?case
  proof (cases vs)
    case (Cons v ws)
    let ?n = "length (payload_of (slot_value k v))"
    show ?thesis
    proof (cases "accepts k v")
      case True
      then have "bs + ?n + sum_list (map max_payload_len ks) \<le> usize_max"
        using Cons.prems accepts_payload_bound [OF True] by simp
      then show ?thesis
        using Cons.IH [of "bs + ?n" "Suc off" ws] Cons True
        by (simp add: serial_byte_and_payload_len_eq usize_checked_add_def add.assoc)
    qed (use Cons in \<open>simp add: serial_byte_and_payload_len_eq\<close>)
  qed simp
qed (auto simp: list_all2_iff)

lemma exact_size_loop_eq:
  "bs + sum_list (map max_payload_len ks) \<le> usize_max \<Longrightarrow>
   exact_size_loop (slots_from off ks) vs bs =
     Some (if list_all2 accepts ks vs then Some (bs + length (record_body (slot_values ks vs))) else None)"
proof (induction ks arbitrary: vs off bs)
  case (Cons k ks)
  show ?case
  proof (cases vs)
    case (Cons v ws)
    let ?n = "length (payload_of (slot_value k v))"
    show ?thesis
    proof (cases "accepts k v")
      case True
      then have "bs + ?n + sum_list (map max_payload_len ks) \<le> usize_max"
        using Cons.prems accepts_payload_bound [OF True] by simp
      then show ?thesis
        using Cons.IH [of "bs + ?n" "Suc off" ws] Cons True
        by (simp add: serial_byte_and_payload_len_eq usize_checked_add_def add.assoc)
    qed (use Cons in \<open>simp add: serial_byte_and_payload_len_eq\<close>)
  qed simp
qed (auto simp: list_all2_iff)

lemma put_mid: "put (length xs) src (xs @ ys @ zs) = xs @ src @ zs" if "length src = length ys"
  using that by (simp add: put_def)

lemma patch_slots_eq:
  "placeholders_ok ks vs \<Longrightarrow> list_all2 accepts ks vs \<Longrightarrow> length ws = length (record_body (slot_values ks vs)) \<Longrightarrow>
   patch_slots (matched (length pre) ks vs) (length (pre @ replicate (length ks) (0 :: u8) @ mid))
       (pre @ replicate (length ks) 0 @ mid @ ws) =
     Some (pre @ header_entries (slot_values ks vs) @ mid @ record_body (slot_values ks vs))"
proof (induction ks arbitrary: vs pre mid ws)
  case (Cons k ks)
  then obtain v us where vs: "vs = v # us" and acc: "accepts k v" by (auto simp: list_all2_Cons1)
  let ?t = "varint_bytes (serial_type_of (slot_value k v))" and ?p = "payload_of (slot_value k v)"
  define w1 w2 where "w1 = take (length ?p) ws" and "w2 = drop (length ?p) ws"
  have ws: "ws = w1 @ w2" "length w1 = length ?p" "length w2 = length (record_body (slot_values ks us))"
    using Cons.prems(3) vs by (simp_all add: w1_def w2_def)
  have lt: "length ?t = 1" using length_accepted [OF acc] by simp
  let ?z = "replicate (length ks) (0 :: u8)"
  let ?buf = "(pre @ ?t @ ?z @ mid) @ w1 @ w2" and ?bo = "length (pre @ ?t @ ?z @ mid)"
  have "encode_serialized_value v (length ?p) ?buf ?bo (?bo + length ?p) = Some (put ?bo ?p ?buf)"
    using Cons.prems(1) vs ws by (intro encode_slot_payload) simp_all
  also have "put ?bo ?p ?buf = (pre @ ?t) @ ?z @ (mid @ ?p) @ w2" using ws by (subst put_mid) simp_all
  finally have e: "encode_serialized_value v (length ?p) ?buf ?bo (?bo + length ?p) = Some ((pre @ ?t) @ ?z @ (mid @ ?p) @ w2)" .
  show ?case
    using Cons.IH [of us w2 "pre @ ?t" "mid @ ?p"] Cons.prems vs ws lt e
      patch_slot [OF acc, of pre "?z @ mid @ ws"]
    by (simp add: add.assoc)
qed simp

lemma slice_slots_eq:
  "placeholders_ok ks vs \<Longrightarrow> length (pre @ replicate (length ks) (0 :: u8) @ mid @ ws) \<le> usize_max \<Longrightarrow>
   length (pre @ replicate (length ks) (0 :: u8)) = hs \<Longrightarrow>
   slice_slots hs (slots_from (length pre) ks) vs (length (pre @ replicate (length ks) (0 :: u8) @ mid))
       (pre @ replicate (length ks) 0 @ mid @ ws) =
     Some (if list_all2 accepts ks vs \<and> length ws = length (record_body (slot_values ks vs))
           then Inr (pre @ header_entries (slot_values ks vs) @ mid @ record_body (slot_values ks vs)) else Inl ())"
proof (induction ks arbitrary: vs pre mid ws)
  case (Cons k ks)
  show ?case
  proof (cases vs)
    case vs: (Cons v us)
    let ?t = "varint_bytes (serial_type_of (slot_value k v))" and ?p = "payload_of (slot_value k v)"
    let ?z = "replicate (length ks) (0 :: u8)"
    let ?bo = "length (pre @ 0 # ?z @ mid)"
    show ?thesis
    proof (cases "accepts k v")
      case acc: True
      have lt: "length ?t = 1" using length_accepted [OF acc] by simp
      have patch: "patch_serial_byte \<lparr>slot_kind = k, slot_header_offset = length pre\<rparr>
          (ucast (serial_type_of (slot_value k v))) (pre @ 0 # ?z @ mid @ ws) = Some (pre @ ?t @ ?z @ mid @ ws)"
        by (rule patch_slot [OF acc])
      have hs: "\<not> hs \<le> length pre" using Cons.prems(3) by simp
      show ?thesis
      proof (cases "length ?p \<le> length ws")
        case True
        define w1 w2 where "w1 = take (length ?p) ws" and "w2 = drop (length ?p) ws"
        have ws: "ws = w1 @ w2" "length w1 = length ?p" using True by (simp_all add: w1_def w2_def)
        let ?buf = "(pre @ ?t @ ?z @ mid) @ w1 @ w2" and ?bo' = "length (pre @ ?t @ ?z @ mid)"
        have "encode_serialized_value v (length ?p) ?buf ?bo' (?bo' + length ?p) = Some (put ?bo' ?p ?buf)"
          using Cons.prems(1) vs ws by (intro encode_slot_payload) simp_all
        also have "put ?bo' ?p ?buf = (pre @ ?t) @ ?z @ (mid @ ?p) @ w2" using ws by (subst put_mid) simp_all
        finally have e: "encode_serialized_value v (length ?p) ?buf ?bo' (?bo' + length ?p) = Some ((pre @ ?t) @ ?z @ (mid @ ?p) @ w2)" .
        show ?thesis
          using Cons.IH [of us "pre @ ?t" "mid @ ?p" w2] Cons.prems vs ws lt e patch hs acc
          by (simp add: serial_byte_and_payload_len_eq usize_checked_add_def add.assoc)
      next
        case False
        then show ?thesis
          using vs patch hs acc lt
          by (auto simp: serial_byte_and_payload_len_eq usize_checked_add_def split: option.splits)
      qed
    qed (use vs in \<open>simp add: serial_byte_and_payload_len_eq\<close>)
  qed simp
qed (auto simp: list_all2_iff)

lemma accepted_body_bound:
  "list_all2 accepts ks vs \<Longrightarrow> length (record_body (slot_values ks vs)) \<le> sum_list (map max_payload_len ks)"
proof (induction ks arbitrary: vs)
  case (Cons k ks)
  then obtain v us where "vs = v # us" "accepts k v" "list_all2 accepts ks us" by (auto simp: list_all2_Cons1)
  then show ?case using Cons.IH [of us] accepts_payload_bound [of k v] by simp
qed (simp add: list_all2_iff)

lemma max_body_bound: "sum_list (map max_payload_len ks) \<le> 57 * length ks"
proof (induction ks)
  case (Cons k ks)
  have "max_payload_len k \<le> 57" by (cases k) simp_all
  with Cons show ?case by simp
qed simp

lemma accepted_header_entries:
  "list_all2 accepts ks vs \<Longrightarrow> length (header_entries (slot_values ks vs)) = length ks"
proof (induction ks arbitrary: vs)
  case (Cons k ks)
  then obtain v us where "vs = v # us" "accepts k v" "list_all2 accepts ks us" by (auto simp: list_all2_Cons1)
  then show ?case using Cons.IH [of us] length_accepted [of k v] by simp
qed (simp add: list_all2_iff)

lemma slice_copy_template:
  "length dst \<ge> length t \<Longrightarrow> slice_copy dst 0 (length t) t = Some (t @ drop (length t) dst)"
  by (simp add: slice_copy_def put_def)

text \<open>The header built for \<open>ks\<close>, and the record a writer must produce with it.\<close>

definition template_header :: "PrecomputedSerialTypeKind list \<Rightarrow> PrecomputedRecordHeader" where
  "template_header ks =
     \<lparr>prh_template = varint_bytes (word_of_nat (template_size ks)) @ replicate (length ks) 0,
      prh_slots = slots_from (varint_len (word_of_nat (template_size ks))) ks,
      prh_max_body_size = sum_list (map max_payload_len ks)\<rparr>"

lemma template_header_simps [simp]:
  "prh_template (template_header ks) = varint_bytes (word_of_nat (template_size ks)) @ replicate (length ks) 0"
  "prh_slots (template_header ks) = slots_from (length (varint_bytes (word_of_nat (template_size ks)))) ks"
  "prh_max_body_size (template_header ks) = sum_list (map max_payload_len ks)"
  by (simp_all add: template_header_def)

lemma accepted_record_spec:
  assumes "list_all2 accepts ks vs"
  shows "record_spec (slot_values ks vs) =
      varint_bytes (word_of_nat (template_size ks)) @ header_entries (slot_values ks vs) @ record_body (slot_values ks vs)"
    and "length (record_spec (slot_values ks vs)) =
      length (prh_template (template_header ks)) + length (record_body (slot_values ks vs))"
  using accepted_header_entries [OF assms]
  by (simp_all add: record_spec_def record_header_size_def template_size_def)

lemma template_bounds:
  assumes "length ks < 2 ^ 32"
  shows "length (prh_template (template_header ks)) + sum_list (map max_payload_len ks) \<le> usize_max"
    "sum_list (map max_payload_len ks) \<le> usize_max"
  using assms max_body_bound [of ks] varint_len_range(2) [of "word_of_nat (template_size ks)"]
  by (simp_all add: usize_max_def)

lemma append_into_eq:
  assumes "length ks < 2 ^ 32" "placeholders_ok ks vs"
  shows "serialize_record_iter_with_precomputed_header_append_into vs (template_header ks) =
      Some (if list_all2 accepts ks vs then (True, record_spec (slot_values ks vs)) else (False, []))"
  using append_slots_eq [OF assms(2), of "varint_bytes (word_of_nat (template_size ks))" "[]"]
    template_bounds(1) [OF assms(1)] accepted_record_spec(1) [of ks vs]
  by (simp add: serialize_record_iter_with_precomputed_header_append_into_def usize_checked_add_def)

lemma fill_template:
  assumes "list_all2 accepts ks vs" "placeholders_ok ks vs"
    and "length ws = length (record_body (slot_values ks vs))"
  shows "patch_slots (matched (length (varint_bytes (word_of_nat (template_size ks)))) ks vs)
      (length (prh_template (template_header ks))) (prh_template (template_header ks) @ ws) =
    Some (record_spec (slot_values ks vs))"
  using patch_slots_eq [OF assms(2,1,3), of "varint_bytes (word_of_nat (template_size ks))" "[]"]
  by (simp add: accepted_record_spec(1) [OF assms(1)])

lemma serialize_into_eq:
  assumes ks: "length ks < 2 ^ 32" and ok: "placeholders_ok ks vs"
  shows "\<exists>rejected. serialize_record_iter_with_precomputed_header_into vs (template_header ks) buf =
      Some (if list_all2 accepts ks vs then (True, record_spec (slot_values ks vs)) else (False, rejected))"
proof -
  let ?h = "template_header ks" and ?body = "length (record_body (slot_values ks vs))"
  let ?t = "prh_template ?h"
  note b = template_bounds [OF ks]
  have tot: "length ?t + ?body \<le> usize_max" if "list_all2 accepts ks vs"
    using b(1) accepted_body_bound [OF that] by linarith
  have cp: "slice_copy (replicate (length ?t + n) 0) 0 (length ?t) ?t = Some (?t @ replicate n 0)" for n
    using slice_copy_template [of ?t "replicate (length ?t + n) 0"] by (simp add: add.commute)
  consider (single) k where "ks = [k]" | (append) "length ks \<noteq> 1" "length ks > 16 \<or> prh_max_body_size ?h \<le> 384"
    | (stack) "length ks \<noteq> 1" "\<not> (length ks > 16 \<or> prh_max_body_size ?h \<le> 384)"
    by (cases "length ks = 1") (auto simp: length_Suc_conv)
  then show ?thesis
  proof cases
    case append
    then show ?thesis using append_into_eq [OF assms]
      by (auto simp: serialize_record_iter_with_precomputed_header_into_def)
  next
    case stack
    have m: "match_slots (prh_slots ?h) vs 0 = Some (if list_all2 accepts ks vs
        then Some (?body, matched (length (varint_bytes (word_of_nat (template_size ks)))) ks vs) else None)"
      using match_slots_eq [of 0 ks "length (varint_bytes (word_of_nat (template_size ks)))" vs] b(2) by simp
    show ?thesis
      using stack m cp [of ?body] fill_template [OF _ ok, of "replicate ?body 0"] tot
      by (auto simp: serialize_record_iter_with_precomputed_header_into_def Let_def usize_checked_add_def
          simp del: template_header_simps(1))
  next
    case single
    show ?thesis
    proof (cases "\<exists>v. vs = [v]")
      case True
      then obtain v where vs: "vs = [v]" by blast
      note fill = fill_template [OF _ ok, of "replicate ?body 0"]
      show ?thesis
        using single vs cp [of ?body] fill tot
        by (auto simp: serialize_record_iter_with_precomputed_header_into_def Let_def usize_checked_add_def
            serialize_single_slot_precomputed_record_into_def serial_byte_and_payload_len_eq buf_get_def
            simp del: template_header_simps(1) split: Option.bind_splits)
    next
      case False
      then have "\<not> list_all2 accepts ks vs" using single by (auto simp: list_all2_Cons1)
      with False show ?thesis
        using single by (auto simp: serialize_record_iter_with_precomputed_header_into_def
            serialize_single_slot_precomputed_record_into_def split: list.splits)
    qed
  qed
qed

lemma slice_into_eq:
  assumes ks: "length ks < 2 ^ 32" and ok: "placeholders_ok ks vs" and dst: "length dst \<le> usize_max"
  shows "serialize_record_iter_with_precomputed_header_into_slice vs (template_header ks) dst =
      Some (if list_all2 accepts ks vs \<and> length dst = length (record_spec (slot_values ks vs))
            then Inr (record_spec (slot_values ks vs)) else Inl ())"
proof -
  let ?t = "prh_template (template_header ks)"
  let ?pre = "varint_bytes (word_of_nat (template_size ks))"
  show ?thesis
  proof (cases "length dst < length ?t")
    case True
    then show ?thesis
      using accepted_record_spec(2) [of ks vs]
      by (auto simp: serialize_record_iter_with_precomputed_header_into_slice_def Let_def
          simp del: template_header_simps(1))
  next
    case False
    have "slice_slots (length ?t) (prh_slots (template_header ks)) vs (length ?t) (?t @ drop (length ?t) dst) =
        Some (if list_all2 accepts ks vs \<and> length (drop (length ?t) dst) = length (record_body (slot_values ks vs))
              then Inr (?pre @ header_entries (slot_values ks vs) @ record_body (slot_values ks vs)) else Inl ())"
      using slice_slots_eq [OF ok, of ?pre "[]" "drop (length ?t) dst"] dst False by simp
    moreover have "length (drop (length ?t) dst) = length (record_body (slot_values ks vs)) \<longleftrightarrow>
        length dst = length (record_spec (slot_values ks vs))" if "list_all2 accepts ks vs"
      using False accepted_record_spec(2) [OF that] by auto
    ultimately show ?thesis
      using False slice_copy_template [of ?t dst] accepted_record_spec(1) [of ks vs]
      by (auto simp: serialize_record_iter_with_precomputed_header_into_slice_def Let_def
          simp del: template_header_simps(1))
  qed
qed

lemma exact_size_eq:
  assumes "length ks < 2 ^ 32"
  shows "record_iter_with_precomputed_header_exact_size vs (template_header ks) =
      Some (if list_all2 accepts ks vs then Some (length (record_spec (slot_values ks vs))) else None)"
proof -
  note b = template_bounds [OF assms]
  have "length (prh_template (template_header ks)) + length (record_body (slot_values ks vs)) \<le> usize_max"
    if "list_all2 accepts ks vs"
    using b(1) accepted_body_bound [OF that] by linarith
  then show ?thesis
    using exact_size_loop_eq [of 0 ks "length (varint_bytes (word_of_nat (template_size ks)))" vs] b(2)
      accepted_record_spec(2) [of ks vs]
    by (auto simp: record_iter_with_precomputed_header_exact_size_def usize_checked_add_def
        simp del: template_header_simps(1))
qed

section \<open>Properties\<close>

text \<open>C32: Serialization through a precomputed header template.  For every list of fewer than \<open>2 ^ 32\<close> slot kinds and every
  row that has NULL or an integer in each placeholder slot (with any other value there the writers would write the payload of
  a value the header does not announce, or panic), the writer into a buffer, with its single-slot, stack and append paths, the writer into a slice
  (of any length an address space can hold) and the size computation accept exactly the same rows; on an accepted row they produce byte for byte the record \<open>serialize_record\<close>
  produces for the row with its placeholders read as NULL, in a buffer of the announced size, and
  on a rejected row, or a slice of the wrong length, they report it without a panic.\<close>

theorem template_writers_correct:
  assumes "length ks < 2 ^ 32" and "placeholders_ok ks vs" and "length dst \<le> usize_max"
  shows "\<exists>h. PrecomputedRecordHeader_new ks = Some h \<and>
      (if list_all2 accepts ks vs
       then \<exists>r. serialize_record (slot_values ks vs) = Some r \<and>
           serialize_record_iter_with_precomputed_header_into vs h buf = Some (True, r) \<and>
           record_iter_with_precomputed_header_exact_size vs h = Some (Some (length r)) \<and>
           serialize_record_iter_with_precomputed_header_into_slice vs h dst =
             Some (if length dst = length r then Inr r else Inl ())
       else (\<exists>b. serialize_record_iter_with_precomputed_header_into vs h buf = Some (False, b)) \<and>
           record_iter_with_precomputed_header_exact_size vs h = Some None \<and>
           serialize_record_iter_with_precomputed_header_into_slice vs h dst = Some (Inl ()))"
proof (intro exI conjI)
  show "PrecomputedRecordHeader_new ks = Some (template_header ks)"
    using PrecomputedRecordHeader_new_eq [OF assms(1)] by (simp add: template_header_def)
  have "serialize_record (slot_values ks vs) = Some (record_spec (slot_values ks vs))" if "list_all2 accepts ks vs"
    using accepted_header_entries [OF that] assms(1) by (intro serialize_record_spec) simp
  then show "if list_all2 accepts ks vs
       then \<exists>r. serialize_record (slot_values ks vs) = Some r \<and>
           serialize_record_iter_with_precomputed_header_into vs (template_header ks) buf = Some (True, r) \<and>
           record_iter_with_precomputed_header_exact_size vs (template_header ks) = Some (Some (length r)) \<and>
           serialize_record_iter_with_precomputed_header_into_slice vs (template_header ks) dst =
             Some (if length dst = length r then Inr r else Inl ())
       else (\<exists>b. serialize_record_iter_with_precomputed_header_into vs (template_header ks) buf = Some (False, b)) \<and>
           record_iter_with_precomputed_header_exact_size vs (template_header ks) = Some None \<and>
           serialize_record_iter_with_precomputed_header_into_slice vs (template_header ks) dst = Some (Inl ())"
    using serialize_into_eq [OF assms(1,2), of buf] slice_into_eq [OF assms] exact_size_eq [OF assms(1)]
    by auto
qed

theorem template_writers_correct_witness:
  "\<exists>h r. PrecomputedRecordHeader_new [NullPlaceholder, IntegerOrNull] = Some h \<and>
     serialize_record [Null, Integer 5] = Some r \<and>
     serialize_record_iter_with_precomputed_header_into [Integer 7, Integer 5] h [9] = Some (True, r)"
  using template_writers_correct [of "[NullPlaceholder, IntegerOrNull]" "[Integer 7, Integer 5]" "[]" "[9]"]
  by (auto simp: placeholders_ok_def placeholder_ok_def slot_value_def usize_max_def)

text \<open>The runtime-learned template accepts the row it was learned from: whenever
  \<open>try_build_runtime_precomputed_record_header\<close> yields a header, the row it was built from
  serializes through it to the ordinary record.\<close>

theorem learned_template_accepts_row:
  assumes "length vs < 2 ^ 32" and "try_build_runtime_precomputed_record_header vs = Some (Some h)"
  shows "\<exists>r. serialize_record vs = Some r \<and>
      serialize_record_iter_with_precomputed_header_into vs h buf = Some (True, r)"
proof -
  let ?ks = "replicate (length vs) AnyOneByteVarintOrNull"
  have h: "h = template_header ?ks"
    using assms PrecomputedRecordHeader_new_eq [of ?ks]
    by (simp add: try_build_runtime_precomputed_record_header_def template_header_def split: if_splits)
  have "\<forall>v \<in> set vs. varint_len (serial_type_of v) = 1"
    using assms(2) by (auto simp: try_build_runtime_precomputed_record_header_def serial_type_of_def split: if_splits)
  then have acc: "list_all2 accepts ?ks vs" by (simp add: list_all2_conv_all_nth)
  have sv: "slot_values ?ks vs = vs" by (rule nth_equalityI) (simp_all add: slot_value_def)
  have "placeholders_ok ?ks vs"
    by (auto simp: placeholders_ok_def placeholder_ok_def dest!: set_zip_leftD)
  then show ?thesis
    using serialize_into_eq [of ?ks vs buf] acc assms(1) sv accepted_header_entries [OF acc]
      serialize_record_spec [of vs] h
    by auto
qed

theorem learned_template_accepts_row_witness:
  "\<exists>h r. try_build_runtime_precomputed_record_header [Integer 5, Null] = Some (Some h) \<and>
     serialize_record [Integer 5, Null] = Some r \<and>
     serialize_record_iter_with_precomputed_header_into [Integer 5, Null] h [] = Some (True, r)"
proof -
  have "integer_serial_type_and_len 5 = (1, 1)" by code_simp
  then have "varint_len (fst (serialized_value_layout v)) = 1" if "v \<in> {Integer 5, Null}" for v
    using that by (auto simp: serialized_value_layout_def varint_len_def)
  then obtain h where "try_build_runtime_precomputed_record_header [Integer 5, Null] = Some (Some h)"
    using PrecomputedRecordHeader_new_eq [of "[AnyOneByteVarintOrNull, AnyOneByteVarintOrNull]"]
    by (auto simp: try_build_runtime_precomputed_record_header_def)
  with learned_template_accepts_row [OF _ this, of "[]"] show ?thesis by auto
qed

end
