(* ===== verification/TwoPhaseCommit.thy ===== *)
theory TwoPhaseCommit
  imports Prelude "HOL-Library.Multiset"
begin

text \<open>
  \<open>crates/fsqlite-mvcc/src/two_phase_commit.rs\<close>: atomic commit across attached databases.
  The coordinator is a record; an operation returns the error of the source or the new
  coordinator.  The hash map of participants is an association list, whose order stands for the
  iteration order of the map (it decides only which failing database an error names).
  \<open>tpc_step\<close> collects the successful operations into a step relation; the theorems hold in
  every state the protocol can reach, hence at every point where a crash can strike.
\<close>

type_synonym DatabaseId = u32

datatype TwoPhaseState = Idle | Preparing | AllPrepared | MarkerWritten | Committing | Committed | Aborted

datatype TwoPhaseError =
    InvalidState TwoPhaseState
  | PrepareFailed DatabaseId string
  | TooManyDatabases nat nat
  | DetachWithActiveTransaction DatabaseId
  | UnknownDatabase DatabaseId
  | DuplicateDatabase DatabaseId
  | MarkerWriteError string
  | WalIndexUpdateError DatabaseId string
  | NotWalMode DatabaseId

datatype PrepareResult = PrepareOk (wal_offset: u64) (frame_count: u32) | PrepareFail string

record ParticipantState =
  ps_db_id :: DatabaseId
  ps_schema_name :: string
  ps_wal_mode :: bool
  ps_prepare_result :: "PrepareResult option"
  ps_wal_index_updated :: bool

definition ParticipantState_new :: "DatabaseId \<Rightarrow> string \<Rightarrow> bool \<Rightarrow> ParticipantState" where
  "ParticipantState_new db_id schema_name wal_mode =
     \<lparr>ps_db_id = db_id, ps_schema_name = schema_name, ps_wal_mode = wal_mode,
      ps_prepare_result = None, ps_wal_index_updated = False\<rparr>"

definition is_prepared :: "ParticipantState \<Rightarrow> bool" where
  "is_prepared p = (case ps_prepare_result p of Some (PrepareOk _ _) \<Rightarrow> True | _ \<Rightarrow> False)"

section \<open>The commit marker\<close>

record GlobalCommitMarker =
  gm_magic :: bytes
  gm_txn_id :: u64
  gm_commit_seq :: u64
  gm_participants :: "(DatabaseId \<times> u64) list"
  gm_timestamp_ns :: u64

definition COMMIT_MARKER_MAGIC :: bytes where
  "COMMIT_MARKER_MAGIC = [0x32, 0x50, 0x43, 0x4D]"

definition COMMIT_MARKER_MIN_SIZE :: nat where
  "COMMIT_MARKER_MIN_SIZE = 32"

definition GlobalCommitMarker_new :: "u64 \<Rightarrow> u64 \<Rightarrow> (DatabaseId \<times> u64) list \<Rightarrow> u64 \<Rightarrow> GlobalCommitMarker" where
  "GlobalCommitMarker_new txn_id commit_seq participants timestamp_ns =
     \<lparr>gm_magic = COMMIT_MARKER_MAGIC, gm_txn_id = txn_id, gm_commit_seq = commit_seq,
      gm_participants = participants, gm_timestamp_ns = timestamp_ns\<rparr>"

definition u32_of_usize :: "nat \<Rightarrow> u32" where
  "u32_of_usize n = (if n < 2 ^ 32 then word_of_nat n else - 1)"

definition participant_bytes :: "DatabaseId \<times> u64 \<Rightarrow> bytes" where
  "participant_bytes p = to_le 4 (fst p) @ to_le 8 (snd p)"

definition marker_to_bytes :: "GlobalCommitMarker \<Rightarrow> bytes" where
  "marker_to_bytes m =
     gm_magic m @ to_le 8 (gm_txn_id m) @ to_le 8 (gm_commit_seq m) @
     to_le 4 (u32_of_usize (length (gm_participants m))) @ to_le 8 (gm_timestamp_ns m) @
     concat (map participant_bytes (gm_participants m))"

definition participant_at :: "bytes \<Rightarrow> nat \<Rightarrow> DatabaseId \<times> u64" where
  "participant_at data i =
     (let base = COMMIT_MARKER_MIN_SIZE + i * 12 in
      (from_le (subslice base (base + 4) data), from_le (subslice (base + 4) (base + 12) data)))"

definition marker_from_bytes :: "bytes \<Rightarrow> GlobalCommitMarker option" where
  "marker_from_bytes data =
     (if length data < COMMIT_MARKER_MIN_SIZE then None
      else if take 4 data \<noteq> COMMIT_MARKER_MAGIC then None
      else
        do { let count = unat (from_le (subslice 20 24 data) :: u32);
             n \<leftarrow> usize_checked_mul count 12;
             needed \<leftarrow> usize_checked_add n COMMIT_MARKER_MIN_SIZE;
             if length data < needed then None
             else Some \<lparr>gm_magic = take 4 data,
                        gm_txn_id = from_le (subslice 4 12 data),
                        gm_commit_seq = from_le (subslice 12 20 data),
                        gm_participants = map (participant_at data) [0..<count],
                        gm_timestamp_ns = from_le (subslice 24 32 data)\<rparr> })"

definition marker_is_valid :: "GlobalCommitMarker \<Rightarrow> bool" where
  "marker_is_valid m =
     (gm_magic m ! 0 = 0x32 \<and> gm_magic m ! 1 = 0x50 \<and> gm_magic m ! 2 = 0x43 \<and> gm_magic m ! 3 = 0x4D)"

section \<open>The coordinator\<close>

datatype RecoveryAction = NoAction | RollForward | RollBack

record TwoPhaseCoordinator =
  tpc_state :: TwoPhaseState
  tpc_participants :: "(DatabaseId \<times> ParticipantState) list"
  tpc_commit_marker :: "GlobalCommitMarker option"
  tpc_txn_id :: u64

definition MAX_TOTAL_DATABASES :: nat where
  "MAX_TOTAL_DATABASES = 10 + 2"

definition TwoPhaseCoordinator_new :: "u64 \<Rightarrow> TwoPhaseCoordinator" where
  "TwoPhaseCoordinator_new txn_id =
     \<lparr>tpc_state = Idle, tpc_participants = [], tpc_commit_marker = None, tpc_txn_id = txn_id\<rparr>"

definition add_participant ::
  "DatabaseId \<Rightarrow> string \<Rightarrow> bool \<Rightarrow> TwoPhaseCoordinator \<Rightarrow> TwoPhaseError + TwoPhaseCoordinator" where
  "add_participant db_id schema_name wal_mode c =
     (if tpc_state c \<noteq> Idle then Inl (InvalidState (tpc_state c))
      else if \<not> wal_mode then Inl (NotWalMode db_id)
      else if map_of (tpc_participants c) db_id \<noteq> None then Inl (DuplicateDatabase db_id)
      else if length (tpc_participants c) \<ge> MAX_TOTAL_DATABASES
      then Inl (TooManyDatabases (length (tpc_participants c) + 1) MAX_TOTAL_DATABASES)
      else Inr (c\<lparr>tpc_participants := tpc_participants c @ [(db_id, ParticipantState_new db_id schema_name wal_mode)]\<rparr>))"

definition check_detach :: "DatabaseId \<Rightarrow> TwoPhaseCoordinator \<Rightarrow> TwoPhaseError + unit" where
  "check_detach db_id c =
     (if tpc_state c \<noteq> Idle \<and> tpc_state c \<noteq> Committed \<and> tpc_state c \<noteq> Aborted \<and>
         map_of (tpc_participants c) db_id \<noteq> None
      then Inl (DetachWithActiveTransaction db_id) else Inr ())"

text \<open>\<open>get_mut\<close> and an update in place.\<close>

definition update_participant ::
  "DatabaseId \<Rightarrow> (ParticipantState \<Rightarrow> ParticipantState) \<Rightarrow> (DatabaseId \<times> ParticipantState) list \<Rightarrow>
   (DatabaseId \<times> ParticipantState) list" where
  "update_participant db_id f ps = map (\<lambda>(k, p). (k, if k = db_id then f p else p)) ps"

definition prepare_participant ::
  "DatabaseId \<Rightarrow> PrepareResult \<Rightarrow> TwoPhaseCoordinator \<Rightarrow> TwoPhaseError + TwoPhaseCoordinator" where
  "prepare_participant db_id result c =
     (if tpc_state c \<noteq> Idle \<and> tpc_state c \<noteq> Preparing then Inl (InvalidState (tpc_state c))
      else case map_of (tpc_participants c) db_id of
        None \<Rightarrow> Inl (UnknownDatabase db_id)
      | Some _ \<Rightarrow>
          Inr (c\<lparr>tpc_state := Preparing,
                 tpc_participants := update_participant db_id (\<lambda>p. p\<lparr>ps_prepare_result := Some result\<rparr>)
                                       (tpc_participants c)\<rparr>))"

fun first_unprepared :: "ParticipantState list \<Rightarrow> TwoPhaseError option" where
  "first_unprepared [] = None"
| "first_unprepared (p # ps) =
     (case ps_prepare_result p of
        None \<Rightarrow> Some (PrepareFailed (ps_db_id p) ''not yet prepared'')
      | Some (PrepareFail reason) \<Rightarrow> Some (PrepareFailed (ps_db_id p) reason)
      | Some (PrepareOk _ _) \<Rightarrow> first_unprepared ps)"

definition check_all_prepared :: "TwoPhaseCoordinator \<Rightarrow> TwoPhaseError + TwoPhaseCoordinator" where
  "check_all_prepared c =
     (if tpc_state c \<noteq> Preparing then Inl (InvalidState (tpc_state c))
      else case first_unprepared (map snd (tpc_participants c)) of
        Some e \<Rightarrow> Inl e
      | None \<Rightarrow> Inr (c\<lparr>tpc_state := AllPrepared\<rparr>))"

definition marker_entry :: "ParticipantState \<Rightarrow> (DatabaseId \<times> u64) option" where
  "marker_entry p =
     (case ps_prepare_result p of Some (PrepareOk off _) \<Rightarrow> Some (ps_db_id p, off) | _ \<Rightarrow> None)"

definition marker_participants :: "(DatabaseId \<times> ParticipantState) list \<Rightarrow> (DatabaseId \<times> u64) list" where
  "marker_participants ps =
     sort_key fst (List.map_filter (\<lambda>(_, p). marker_entry p) ps)"

definition write_commit_marker ::
  "u64 \<Rightarrow> u64 \<Rightarrow> TwoPhaseCoordinator \<Rightarrow> TwoPhaseError + GlobalCommitMarker \<times> TwoPhaseCoordinator" where
  "write_commit_marker commit_seq timestamp_ns c =
     (if tpc_state c \<noteq> AllPrepared then Inl (InvalidState (tpc_state c))
      else let marker = GlobalCommitMarker_new (tpc_txn_id c) commit_seq
                          (marker_participants (tpc_participants c)) timestamp_ns in
           Inr (marker, c\<lparr>tpc_commit_marker := Some marker, tpc_state := MarkerWritten\<rparr>))"

definition commit_participant :: "DatabaseId \<Rightarrow> TwoPhaseCoordinator \<Rightarrow> TwoPhaseError + TwoPhaseCoordinator" where
  "commit_participant db_id c =
     (if tpc_state c \<noteq> MarkerWritten \<and> tpc_state c \<noteq> Committing then Inl (InvalidState (tpc_state c))
      else case map_of (tpc_participants c) db_id of
        None \<Rightarrow> Inl (UnknownDatabase db_id)
      | Some _ \<Rightarrow>
          Inr (c\<lparr>tpc_state := Committing,
                 tpc_participants := update_participant db_id (\<lambda>p. p\<lparr>ps_wal_index_updated := True\<rparr>)
                                       (tpc_participants c)\<rparr>))"

fun first_uncommitted :: "ParticipantState list \<Rightarrow> TwoPhaseError option" where
  "first_uncommitted [] = None"
| "first_uncommitted (p # ps) =
     (if \<not> ps_wal_index_updated p
      then Some (WalIndexUpdateError (ps_db_id p) ''WAL-index not yet updated'') else first_uncommitted ps)"

definition check_all_committed :: "TwoPhaseCoordinator \<Rightarrow> TwoPhaseError + TwoPhaseCoordinator" where
  "check_all_committed c =
     (if tpc_state c \<noteq> Committing then Inl (InvalidState (tpc_state c))
      else case first_uncommitted (map snd (tpc_participants c)) of
        Some e \<Rightarrow> Inl e
      | None \<Rightarrow> Inr (c\<lparr>tpc_state := Committed\<rparr>))"

definition tpc_abort :: "TwoPhaseCoordinator \<Rightarrow> TwoPhaseError + TwoPhaseCoordinator" where
  "tpc_abort c =
     (if tpc_state c \<in> {MarkerWritten, Committing, Committed} then Inl (InvalidState (tpc_state c))
      else Inr (c\<lparr>tpc_state := Aborted, tpc_commit_marker := None\<rparr>))"

definition determine_recovery :: "bool \<Rightarrow> bool \<Rightarrow> RecoveryAction" where
  "determine_recovery marker_found all_wal_indices_updated =
     (if \<not> marker_found then (if all_wal_indices_updated then NoAction else RollBack)
      else if all_wal_indices_updated then NoAction
      else RollForward)"

inductive tpc_step :: "TwoPhaseCoordinator \<Rightarrow> TwoPhaseCoordinator \<Rightarrow> bool" where
  step_add: "add_participant db name wal c = Inr c' \<Longrightarrow> tpc_step c c'"
| step_prepare: "prepare_participant db res c = Inr c' \<Longrightarrow> tpc_step c c'"
| step_all_prepared: "check_all_prepared c = Inr c' \<Longrightarrow> tpc_step c c'"
| step_marker: "write_commit_marker seq ts c = Inr (m, c') \<Longrightarrow> tpc_step c c'"
| step_commit: "commit_participant db c = Inr c' \<Longrightarrow> tpc_step c c'"
| step_all_committed: "check_all_committed c = Inr c' \<Longrightarrow> tpc_step c c'"
| step_abort: "tpc_abort c = Inr c' \<Longrightarrow> tpc_step c c'"

inductive tpc_reachable :: "u64 \<Rightarrow> TwoPhaseCoordinator \<Rightarrow> bool" for txn_id where
  start: "tpc_reachable txn_id (TwoPhaseCoordinator_new txn_id)"
| step: "tpc_reachable txn_id c \<Longrightarrow> tpc_step c c' \<Longrightarrow> tpc_reachable txn_id c'"

inductive_cases tpc_stepE: "tpc_step c c'"

section \<open>Invariant\<close>

definition tpc_decided :: "TwoPhaseCoordinator \<Rightarrow> bool" where
  "tpc_decided c \<longleftrightarrow> tpc_state c \<in> {MarkerWritten, Committing, Committed}"

text \<open>A property of every participant; keyed consistently by database.\<close>

definition each :: "(ParticipantState \<Rightarrow> bool) \<Rightarrow> (DatabaseId \<times> ParticipantState) list \<Rightarrow> bool" where
  "each P ps \<longleftrightarrow> (\<forall>p \<in> snd ` set ps. P p)"

definition keyed :: "(DatabaseId \<times> ParticipantState) list \<Rightarrow> bool" where
  "keyed ps \<longleftrightarrow> distinct (map fst ps) \<and> (\<forall>(k, p) \<in> set ps. ps_db_id p = k)"

definition tpc_inv :: "u64 \<Rightarrow> TwoPhaseCoordinator \<Rightarrow> bool" where
  "tpc_inv txn c \<longleftrightarrow>
     tpc_txn_id c = txn \<and> keyed (tpc_participants c) \<and> length (tpc_participants c) \<le> MAX_TOTAL_DATABASES \<and>
     each ps_wal_mode (tpc_participants c) \<and>
     (tpc_decided c \<or> tpc_state c = AllPrepared \<longrightarrow> each is_prepared (tpc_participants c)) \<and>
     (tpc_commit_marker c \<noteq> None \<longleftrightarrow> tpc_decided c) \<and>
     (\<forall>m. tpc_commit_marker c = Some m \<longrightarrow>
        gm_magic m = COMMIT_MARKER_MAGIC \<and> gm_txn_id m = txn \<and>
        gm_participants m = marker_participants (tpc_participants c)) \<and>
     (\<not> tpc_decided c \<or> tpc_state c = MarkerWritten \<longrightarrow>
        each (\<lambda>p. \<not> ps_wal_index_updated p) (tpc_participants c)) \<and>
     (tpc_state c = Committed \<longrightarrow> each ps_wal_index_updated (tpc_participants c))"

lemma update_participant_simps [simp]:
  "map fst (update_participant k f ps) = map fst ps" "length (update_participant k f ps) = length ps"
  by (auto simp: update_participant_def)

lemma each_update: "each P ps \<Longrightarrow> (\<And>p. P p \<Longrightarrow> P (f p)) \<Longrightarrow> each P (update_participant k f ps)"
  by (force simp: each_def update_participant_def split: if_splits)

lemma keyed_update: "keyed ps \<Longrightarrow> (\<And>p. ps_db_id (f p) = ps_db_id p) \<Longrightarrow> keyed (update_participant k f ps)"
  unfolding keyed_def update_participant_simps by (force simp: update_participant_def split: if_splits)

lemma first_unprepared_None: "first_unprepared (map snd ps) = None \<longleftrightarrow> each is_prepared ps"
  by (induction ps) (auto simp: each_def is_prepared_def split: option.splits PrepareResult.splits)

lemma first_unprepared_Cons:
  "is_prepared p \<Longrightarrow> first_unprepared (p # ps) = first_unprepared ps"
  "\<not> is_prepared p \<Longrightarrow> \<exists>reason. first_unprepared (p # ps) = Some (PrepareFailed (ps_db_id p) reason)"
  by (auto simp: is_prepared_def split: option.splits PrepareResult.splits)

lemma first_unprepared_Some:
  "first_unprepared ps = Some e \<Longrightarrow> \<exists>p reason. e = PrepareFailed (ps_db_id p) reason \<and> p \<in> set ps \<and> \<not> is_prepared p"
proof (induction ps)
  case (Cons p ps)
  show ?case
  proof (cases "is_prepared p")
    case True
    then show ?thesis using Cons first_unprepared_Cons(1) [of p ps] by auto
  next
    case False
    then show ?thesis using Cons.prems first_unprepared_Cons(2) [of p ps] by auto
  qed
qed simp

lemma first_uncommitted_None: "first_uncommitted (map snd ps) = None \<longleftrightarrow> each ps_wal_index_updated ps"
  by (induction ps) (auto simp: each_def)

lemma marker_participants_commit:
  "marker_participants (update_participant k (\<lambda>p. p\<lparr>ps_wal_index_updated := True\<rparr>) ps) = marker_participants ps"
proof -
  have "marker_entry (p\<lparr>ps_wal_index_updated := b\<rparr>) = marker_entry p" for p b
    by (simp add: marker_entry_def split: option.splits PrepareResult.splits)
  then have "List.map_filter (\<lambda>(_, p). marker_entry p) (update_participant k (\<lambda>p. p\<lparr>ps_wal_index_updated := True\<rparr>) ps) =
      List.map_filter (\<lambda>(_, p). marker_entry p) ps"
  proof (induction ps)
    case (Cons kp ps)
    then show ?case by (cases kp; cases "fst kp = k") (simp_all add: update_participant_def List.map_filter_simps split: option.split)
  qed (simp add: update_participant_def)
  then show ?thesis by (simp add: marker_participants_def)
qed

lemma tpc_inv_start: "tpc_inv txn (TwoPhaseCoordinator_new txn)"
  by (simp add: tpc_inv_def TwoPhaseCoordinator_new_def tpc_decided_def keyed_def each_def)

lemmas tpc_defs = tpc_inv_def tpc_decided_def

lemma tpc_inv_add: "tpc_inv txn c \<Longrightarrow> add_participant db name wal c = Inr c' \<Longrightarrow> tpc_inv txn c'"
  by (auto simp: add_participant_def tpc_defs ParticipantState_new_def map_of_eq_None_iff keyed_def each_def
      split: if_splits)

lemma tpc_inv_prepare:
  assumes inv: "tpc_inv txn c" and op: "prepare_participant db res c = Inr c'"
  shows "tpc_inv txn c'"
proof -
  let ?ps = "update_participant db (\<lambda>p. p\<lparr>ps_prepare_result := Some res\<rparr>) (tpc_participants c)"
  have c': "c' = c\<lparr>tpc_state := Preparing, tpc_participants := ?ps\<rparr>" and st: "\<not> tpc_decided c"
    using op by (auto simp: prepare_participant_def tpc_decided_def split: if_splits option.splits)
  have "keyed ?ps" using inv by (intro keyed_update) (simp_all add: tpc_inv_def)
  moreover have "each ps_wal_mode ?ps" using inv by (intro each_update) (simp_all add: tpc_inv_def)
  moreover have "each (\<lambda>p. \<not> ps_wal_index_updated p) ?ps"
    using inv st by (intro each_update) (simp_all add: tpc_inv_def)
  ultimately show ?thesis using inv st unfolding c' by (simp add: tpc_defs)
qed

lemma tpc_inv_all_prepared: "tpc_inv txn c \<Longrightarrow> check_all_prepared c = Inr c' \<Longrightarrow> tpc_inv txn c'"
  by (auto simp: check_all_prepared_def tpc_defs split: if_splits option.splits
      simp flip: first_unprepared_None)

lemma tpc_inv_marker: "tpc_inv txn c \<Longrightarrow> write_commit_marker seq ts c = Inr (m, c') \<Longrightarrow> tpc_inv txn c'"
  by (auto simp: write_commit_marker_def tpc_defs GlobalCommitMarker_new_def Let_def split: if_splits)

lemma tpc_inv_commit:
  assumes inv: "tpc_inv txn c" and op: "commit_participant db c = Inr c'"
  shows "tpc_inv txn c'"
proof -
  let ?ps = "update_participant db (\<lambda>p. p\<lparr>ps_wal_index_updated := True\<rparr>) (tpc_participants c)"
  have c': "c' = c\<lparr>tpc_state := Committing, tpc_participants := ?ps\<rparr>" and st: "tpc_decided c"
    using op by (auto simp: commit_participant_def tpc_decided_def split: if_splits option.splits)
  have "keyed ?ps" using inv by (intro keyed_update) (simp_all add: tpc_inv_def)
  moreover have "each ps_wal_mode ?ps" using inv by (intro each_update) (simp_all add: tpc_inv_def)
  moreover have "each is_prepared ?ps"
    using inv st by (intro each_update) (simp_all add: tpc_inv_def is_prepared_def)
  ultimately show ?thesis
    using inv st unfolding c' by (simp add: tpc_inv_def marker_participants_commit) (simp add: tpc_decided_def)
qed

lemma tpc_inv_all_committed: "tpc_inv txn c \<Longrightarrow> check_all_committed c = Inr c' \<Longrightarrow> tpc_inv txn c'"
  by (auto simp: check_all_committed_def tpc_defs split: if_splits option.splits
      simp flip: first_uncommitted_None)

lemma tpc_inv_abort: "tpc_inv txn c \<Longrightarrow> tpc_abort c = Inr c' \<Longrightarrow> tpc_inv txn c'"
  by (auto simp: tpc_abort_def tpc_defs split: if_splits)

lemmas tpc_inv_ops = tpc_inv_add tpc_inv_prepare tpc_inv_all_prepared tpc_inv_marker tpc_inv_commit
  tpc_inv_all_committed tpc_inv_abort

lemma tpc_reachable_inv: "tpc_reachable txn c \<Longrightarrow> tpc_inv txn c"
proof (induction rule: tpc_reachable.induct)
  case (step c c')
  from step(2) step.IH show ?case by (cases rule: tpc_stepE) (blast intro: tpc_inv_ops)+
qed (rule tpc_inv_start)

section \<open>The marker lists the participants\<close>

lemma map_filter_prepared:
  assumes "each is_prepared ps" "keyed ps"
  shows "List.map_filter (\<lambda>(_, p). marker_entry p) ps =
      map (\<lambda>(k, p). (k, wal_offset (the (ps_prepare_result p)))) ps"
proof -
  have "marker_entry p = Some (k, wal_offset (the (ps_prepare_result p)))" if "(k, p) \<in> set ps" for k p
  proof -
    have "is_prepared p" "ps_db_id p = k" using that assms by (force simp: each_def keyed_def)+
    then show ?thesis by (auto simp: marker_entry_def is_prepared_def split: option.splits PrepareResult.splits)
  qed
  then show ?thesis
  proof (induction ps)
    case (Cons kp ps)
    obtain k p where kp: "kp = (k, p)" by (cases kp)
    then have me: "marker_entry p = Some (k, wal_offset (the (ps_prepare_result p)))" using Cons.prems by simp
    have ih: "List.map_filter (\<lambda>(_, p). marker_entry p) ps =
        map (\<lambda>(k, p). (k, wal_offset (the (ps_prepare_result p)))) ps"
      by (rule Cons.IH) (use Cons.prems in simp)
    show ?case by (simp add: List.map_filter_simps kp me ih)
  qed (simp add: List.map_filter_simps)
qed

lemma marker_participants_prepared:
  assumes "each is_prepared ps" "keyed ps"
  shows "set (marker_participants ps) = (\<lambda>(k, p). (k, wal_offset (the (ps_prepare_result p)))) ` set ps"
    and "sorted (map fst (marker_participants ps))" "distinct (map fst (marker_participants ps))"
proof -
  let ?xs = "map (\<lambda>(k, p). (k, wal_offset (the (ps_prepare_result p)))) ps"
  have e: "marker_participants ps = sort_key fst ?xs"
    by (simp add: marker_participants_def map_filter_prepared [OF assms])
  show "set (marker_participants ps) = (\<lambda>(k, p). (k, wal_offset (the (ps_prepare_result p)))) ` set ps"
    by (simp add: e)
  show "sorted (map fst (marker_participants ps))" by (simp add: e)
  have "mset (map fst (sort_key fst ?xs)) = mset (map fst ?xs)" by (simp only: mset_map mset_sort)
  moreover have "map fst ?xs = map fst ps" by (simp add: split_def)
  ultimately show "distinct (map fst (marker_participants ps))"
    using assms(2) unfolding e keyed_def by (metis mset_eq_imp_distinct_iff)
qed

section \<open>The decision is final\<close>

lemma tpc_step_decided:
  "tpc_step c c' \<Longrightarrow> tpc_decided c \<Longrightarrow> tpc_decided c' \<and> tpc_commit_marker c' = tpc_commit_marker c"
  by (erule tpc_stepE)
    (auto simp: tpc_decided_def add_participant_def prepare_participant_def check_all_prepared_def
      write_commit_marker_def commit_participant_def check_all_committed_def tpc_abort_def
      split: if_splits option.splits)

lemma tpc_steps_decided:
  "tpc_step\<^sup>*\<^sup>* c c' \<Longrightarrow> tpc_decided c \<Longrightarrow> tpc_decided c' \<and> tpc_commit_marker c' = tpc_commit_marker c"
  by (induction rule: rtranclp_induct) (auto dest: tpc_step_decided)

section \<open>Phase 2 completes\<close>

fun commit_all :: "DatabaseId list \<Rightarrow> TwoPhaseCoordinator \<Rightarrow> TwoPhaseError + TwoPhaseCoordinator" where
  "commit_all [] c = Inr c"
| "commit_all (db # dbs) c =
     (case commit_participant db c of Inl e \<Rightarrow> Inl e | Inr c' \<Rightarrow> commit_all dbs c')"

lemma commit_all_eq:
  "tpc_state c \<in> {MarkerWritten, Committing} \<Longrightarrow> set dbs \<subseteq> set (map fst (tpc_participants c)) \<Longrightarrow>
   commit_all dbs c =
     Inr (c\<lparr>tpc_state := if dbs = [] then tpc_state c else Committing,
            tpc_participants := map (\<lambda>(k, p). (k, if k \<in> set dbs then p\<lparr>ps_wal_index_updated := True\<rparr> else p))
                                  (tpc_participants c)\<rparr>)"
proof (induction dbs arbitrary: c)
  case (Cons db dbs)
  let ?c = "c\<lparr>tpc_state := Committing,
      tpc_participants := update_participant db (\<lambda>p. p\<lparr>ps_wal_index_updated := True\<rparr>) (tpc_participants c)\<rparr>"
  have op: "commit_participant db c = Inr ?c"
    using Cons.prems by (auto simp: commit_participant_def map_of_eq_None_iff split: option.splits)
  have ps: "map (\<lambda>(k, p). (k, if k \<in> set dbs then p\<lparr>ps_wal_index_updated := True\<rparr> else p)) (tpc_participants ?c) =
      map (\<lambda>(k, p). (k, if k \<in> set (db # dbs) then p\<lparr>ps_wal_index_updated := True\<rparr> else p)) (tpc_participants c)"
    by (auto simp: update_participant_def)
  have "commit_all dbs ?c = Inr (?c\<lparr>tpc_state := if dbs = [] then tpc_state ?c else Committing,
            tpc_participants := map (\<lambda>(k, p). (k, if k \<in> set dbs then p\<lparr>ps_wal_index_updated := True\<rparr> else p))
                                  (tpc_participants ?c)\<rparr>)"
    using Cons.prems by (intro Cons.IH) simp_all
  then show ?case unfolding ps using op by simp
qed simp

section \<open>The marker survives its encoding\<close>

lemma length_participant_bytes [simp]: "length (participant_bytes p) = 12"
  by (simp add: participant_bytes_def)

lemma take_drop_concat:
  "(\<And>x. length (f x) = w) \<Longrightarrow> i < length xs \<Longrightarrow> take w (drop (i * w) (concat (map f xs) @ rest)) = f (xs ! i)"
  by (induction xs arbitrary: i) (auto simp: nth_Cons' less_Suc_eq_0_disj algebra_simps)

lemma participant_at_bytes:
  assumes "length hdr = 32" "i < length ps"
  shows "participant_at (hdr @ concat (map participant_bytes ps) @ rest) i = ps ! i"
proof -
  let ?data = "hdr @ concat (map participant_bytes ps) @ rest" and ?b = "32 + i * 12"
  have "take 12 (drop ?b ?data) = participant_bytes (ps ! i)"
    using take_drop_concat [of participant_bytes 12 i ps rest] assms by simp
  then have sub: "subslice ?b (?b + 12) ?data = participant_bytes (ps ! i)" by (simp add: subslice_def)
  have "subslice ?b (?b + 12) ?data = subslice ?b (?b + 4) ?data @ subslice (?b + 4) (?b + 12) ?data"
    by (rule subslice_split) simp_all
  moreover have "12 * Suc i \<le> length (concat (map participant_bytes ps))"
    using assms(2) by (simp add: length_concat comp_def sum_list_triv)
  then have "length (subslice ?b (?b + 4) ?data) = 4" using assms by simp
  ultimately have "subslice ?b (?b + 4) ?data = to_le 4 (fst (ps ! i))"
    "subslice (?b + 4) (?b + 12) ?data = to_le 8 (snd (ps ! i))"
    using sub by (simp_all add: participant_bytes_def append_eq_append_conv)
  then show ?thesis
    by (simp add: participant_at_def COMMIT_MARKER_MIN_SIZE_def u32_le.dec_enc u64_le.dec_enc)
qed

section \<open>Properties\<close>

text \<open>C2: crash atomicity.  Stop the protocol in any reachable state and let recovery decide from
  the two durable facts, the marker and the WAL indices.  If it rolls back, no database had made
  the transaction visible; if it rolls forward, the marker names exactly the participants, all of
  them prepared, with their WAL offsets; if it does nothing, every participant is already
  visible.  So either all databases end with the transaction or none does.\<close>

theorem tpc_crash_atomicity:
  assumes "tpc_reachable txn c"
  shows "case determine_recovery (tpc_commit_marker c \<noteq> None) (each ps_wal_index_updated (tpc_participants c)) of
      RollBack \<Rightarrow> each (\<lambda>p. \<not> ps_wal_index_updated p) (tpc_participants c)
    | RollForward \<Rightarrow> each is_prepared (tpc_participants c) \<and>
        (\<exists>m. tpc_commit_marker c = Some m \<and> marker_is_valid m \<and> gm_txn_id m = txn \<and>
           sorted (map fst (gm_participants m)) \<and> distinct (map fst (gm_participants m)) \<and>
           set (gm_participants m) =
             (\<lambda>(k, p). (k, wal_offset (the (ps_prepare_result p)))) ` set (tpc_participants c))
    | NoAction \<Rightarrow> each ps_wal_index_updated (tpc_participants c) \<and>
        (tpc_participants c \<noteq> [] \<longrightarrow> tpc_commit_marker c \<noteq> None \<and> each is_prepared (tpc_participants c))"
proof -
  note inv = tpc_reachable_inv [OF assms]
  have dec: "tpc_commit_marker c \<noteq> None \<longleftrightarrow> tpc_decided c" using inv by (simp add: tpc_inv_def)
  have und: "\<not> tpc_decided c \<Longrightarrow> each (\<lambda>p. \<not> ps_wal_index_updated p) (tpc_participants c)"
    and prep: "tpc_decided c \<Longrightarrow> each is_prepared (tpc_participants c)" and key: "keyed (tpc_participants c)"
    using inv by (simp_all add: tpc_inv_def)
  have contra: "tpc_decided c" if "each ps_wal_index_updated (tpc_participants c)" "tpc_participants c \<noteq> []"
    using that und by (cases "tpc_participants c") (auto simp: each_def)
  show ?thesis
  proof (cases "tpc_commit_marker c")
    case None
    then show ?thesis
      using dec und contra by (auto simp: determine_recovery_def)
  next
    case (Some m)
    then have d: "tpc_decided c" using dec by simp
    have m: "gm_magic m = COMMIT_MARKER_MAGIC" "gm_txn_id m = txn"
      "gm_participants m = marker_participants (tpc_participants c)"
      using inv Some by (simp_all add: tpc_inv_def)
    then show ?thesis
      using Some prep [OF d] marker_participants_prepared [OF prep [OF d] key]
      by (simp add: determine_recovery_def marker_is_valid_def COMMIT_MARKER_MAGIC_def)
  qed
qed

theorem tpc_crash_atomicity_witness:
  "\<exists>c. tpc_reachable 9 c \<and> tpc_commit_marker c = None \<and>
     each (\<lambda>p. \<not> ps_wal_index_updated p) (tpc_participants c) \<and> tpc_participants c \<noteq> []"
proof -
  let ?c = "TwoPhaseCoordinator_new 9"
  let ?c1 = "?c\<lparr>tpc_participants := [(0, ParticipantState_new 0 ''main'' True)]\<rparr>"
  have "add_participant 0 ''main'' True ?c = Inr ?c1"
    by (simp add: add_participant_def TwoPhaseCoordinator_new_def MAX_TOTAL_DATABASES_def)
  then have r: "tpc_reachable 9 ?c1"
    by (intro tpc_reachable.step [OF tpc_reachable.start] tpc_step.step_add)
  have "determine_recovery (tpc_commit_marker ?c1 \<noteq> None) (each ps_wal_index_updated (tpc_participants ?c1)) = RollBack"
    by (simp add: determine_recovery_def TwoPhaseCoordinator_new_def each_def ParticipantState_new_def)
  then have "each (\<lambda>p. \<not> ps_wal_index_updated p) (tpc_participants ?c1)"
    using tpc_crash_atomicity [OF r] by simp
  with r show ?thesis by (intro exI [of _ ?c1]) (simp add: TwoPhaseCoordinator_new_def)
qed

text \<open>The decision is final.  Once any participant's WAL index was updated, or the marker was
  written, \<open>abort\<close> is refused, and no continuation of the protocol reaches the aborted state or
  changes the marker; conversely an aborted coordinator has no visible participant.\<close>

theorem tpc_decision_final:
  assumes "tpc_reachable txn c"
  shows "(\<not> each (\<lambda>p. \<not> ps_wal_index_updated p) (tpc_participants c) \<or> tpc_commit_marker c \<noteq> None \<longrightarrow>
           tpc_abort c = Inl (InvalidState (tpc_state c)) \<and>
           (\<forall>c'. tpc_step\<^sup>*\<^sup>* c c' \<longrightarrow> tpc_state c' \<noteq> Aborted \<and> tpc_commit_marker c' = tpc_commit_marker c)) \<and>
         (tpc_state c = Aborted \<longrightarrow>
           tpc_commit_marker c = None \<and> each (\<lambda>p. \<not> ps_wal_index_updated p) (tpc_participants c))"
proof -
  note inv = tpc_reachable_inv [OF assms]
  have d: "tpc_decided c" if "\<not> each (\<lambda>p. \<not> ps_wal_index_updated p) (tpc_participants c) \<or> tpc_commit_marker c \<noteq> None"
    using that inv by (auto simp: tpc_inv_def)
  have fin: "tpc_state c' \<noteq> Aborted \<and> tpc_commit_marker c' = tpc_commit_marker c"
    if "tpc_decided c" "tpc_step\<^sup>*\<^sup>* c c'" for c'
    using tpc_steps_decided [OF that(2,1)] by (auto simp: tpc_decided_def)
  have ab: "tpc_abort c = Inl (InvalidState (tpc_state c))" if "tpc_decided c"
    using that by (simp add: tpc_abort_def tpc_decided_def)
  have und: "tpc_commit_marker c = None" "each (\<lambda>p. \<not> ps_wal_index_updated p) (tpc_participants c)" if "tpc_state c = Aborted"
    using that inv by (simp_all add: tpc_inv_def tpc_decided_def)
  show ?thesis using d fin ab und by blast
qed

theorem tpc_decision_final_witness:
  "\<exists>c. tpc_reachable 9 c \<and> tpc_state c = Aborted \<and> tpc_commit_marker c = None"
proof -
  let ?c = "TwoPhaseCoordinator_new 9" and ?c1 = "(TwoPhaseCoordinator_new 9)\<lparr>tpc_state := Aborted\<rparr>"
  have "tpc_abort ?c = Inr ?c1" by (simp add: tpc_abort_def TwoPhaseCoordinator_new_def)
  then have r: "tpc_reachable 9 ?c1"
    by (intro tpc_reachable.step [OF tpc_reachable.start] tpc_step.step_abort)
  then show ?thesis using tpc_decision_final [OF r] by auto
qed

text \<open>C35: phase 2 always completes.  In a reachable state whose marker is written, committing the
  participants one by one in any order, repetitions allowed, never fails, and then
  \<open>check_all_committed\<close> succeeds.\<close>

theorem tpc_phase2_completes:
  assumes "tpc_reachable txn c" and "tpc_state c \<in> {MarkerWritten, Committing}"
    and "set dbs = set (map fst (tpc_participants c))" and "dbs \<noteq> []"
  shows "\<exists>c1 c2. commit_all dbs c = Inr c1 \<and> check_all_committed c1 = Inr c2 \<and> tpc_state c2 = Committed \<and>
      each ps_wal_index_updated (tpc_participants c2) \<and> tpc_commit_marker c2 = tpc_commit_marker c"
proof -
  let ?ps = "map (\<lambda>(k, p). (k, if k \<in> set dbs then p\<lparr>ps_wal_index_updated := True\<rparr> else p)) (tpc_participants c)"
  let ?c1 = "c\<lparr>tpc_state := Committing, tpc_participants := ?ps\<rparr>"
  have "commit_all dbs c = Inr ?c1" using commit_all_eq [of c dbs] assms by simp
  moreover have "each ps_wal_index_updated ?ps" using assms(3) by (force simp: each_def)
  moreover from this have "check_all_committed ?c1 = Inr (?c1\<lparr>tpc_state := Committed\<rparr>)"
    using first_uncommitted_None [of ?ps] by (simp add: check_all_committed_def)
  ultimately show ?thesis by (intro exI [of _ ?c1] exI [of _ "?c1\<lparr>tpc_state := Committed\<rparr>"]) simp
qed

theorem tpc_phase2_completes_witness:
  "\<exists>c c1 c2. tpc_reachable 9 c \<and> tpc_state c = MarkerWritten \<and> commit_all [0, 0] c = Inr c1 \<and>
     check_all_committed c1 = Inr c2 \<and> tpc_state c2 = Committed"
proof -
  let ?p = "ParticipantState_new 0 ''main'' True" and ?c = "TwoPhaseCoordinator_new 9"
  let ?c1 = "?c\<lparr>tpc_participants := [(0, ?p)]\<rparr>"
  let ?c2 = "?c\<lparr>tpc_state := Preparing, tpc_participants := [(0, ?p\<lparr>ps_prepare_result := Some (PrepareOk 64 1)\<rparr>)]\<rparr>"
  let ?c3 = "?c2\<lparr>tpc_state := AllPrepared\<rparr>"
  have "tpc_step ?c ?c1"
    by (rule tpc_step.step_add [of 0 "''main''" True]) (simp add: add_participant_def TwoPhaseCoordinator_new_def MAX_TOTAL_DATABASES_def)
  moreover have "tpc_step ?c1 ?c2"
    by (rule tpc_step.step_prepare [of 0 "PrepareOk 64 1"]) (simp add: prepare_participant_def TwoPhaseCoordinator_new_def update_participant_def)
  moreover have "tpc_step ?c2 ?c3"
    by (rule tpc_step.step_all_prepared) (simp add: check_all_prepared_def TwoPhaseCoordinator_new_def)
  moreover obtain m c4 where m: "write_commit_marker 5 6 ?c3 = Inr (m, c4)" "tpc_state c4 = MarkerWritten"
    "map fst (tpc_participants c4) = [0]"
    by (simp add: write_commit_marker_def Let_def)
  moreover have "tpc_step ?c3 c4" by (rule tpc_step.step_marker [OF m(1)])
  ultimately have r: "tpc_reachable 9 c4" by (meson tpc_reachable.intros)
  then show ?thesis using tpc_phase2_completes [OF r, of "[0, 0]"] m by (metis insertI1 list.set(2) list.simps(3) insert_absorb2)
qed

text \<open>The gate between the phases.  \<open>check_all_prepared\<close> lets the protocol pass exactly when
  every participant reported a successful prepare; otherwise it names a participant that did not
  and the state stays as it was.\<close>

theorem tpc_prepare_gate:
  assumes "tpc_reachable txn c" and "tpc_state c = Preparing"
  shows "case check_all_prepared c of
      Inr c' \<Rightarrow> c' = c\<lparr>tpc_state := AllPrepared\<rparr> \<and> each is_prepared (tpc_participants c)
    | Inl e \<Rightarrow> \<exists>k p reason. e = PrepareFailed k reason \<and> (k, p) \<in> set (tpc_participants c) \<and> \<not> is_prepared p"
proof -
  have key: "keyed (tpc_participants c)" using tpc_reachable_inv [OF assms(1)] by (simp add: tpc_inv_def)
  have "\<exists>k p reason. e = PrepareFailed k reason \<and> (k, p) \<in> set (tpc_participants c) \<and> \<not> is_prepared p"
    if "first_unprepared (map snd (tpc_participants c)) = Some e" for e
    using first_unprepared_Some [OF that] key by (fastforce simp: keyed_def)
  then show ?thesis
    using assms(2) first_unprepared_None [of "tpc_participants c"]
    by (auto simp: check_all_prepared_def split: option.splits)
qed

theorem tpc_prepare_gate_witness:
  "\<exists>c. tpc_reachable 9 c \<and> tpc_state c = Preparing \<and>
     check_all_prepared c = Inl (PrepareFailed 0 ''disk full'') \<and> \<not> each is_prepared (tpc_participants c)"
proof -
  let ?p = "ParticipantState_new 0 ''main'' True" and ?c = "TwoPhaseCoordinator_new 9"
  let ?c1 = "?c\<lparr>tpc_participants := [(0, ?p)]\<rparr>"
  let ?c2 = "?c\<lparr>tpc_state := Preparing, tpc_participants := [(0, ?p\<lparr>ps_prepare_result := Some (PrepareFail ''disk full'')\<rparr>)]\<rparr>"
  have "tpc_step ?c ?c1"
    by (rule tpc_step.step_add [of 0 "''main''" True]) (simp add: add_participant_def TwoPhaseCoordinator_new_def MAX_TOTAL_DATABASES_def)
  moreover have "tpc_step ?c1 ?c2"
    by (rule tpc_step.step_prepare [of 0 "PrepareFail ''disk full''"])
      (simp add: prepare_participant_def TwoPhaseCoordinator_new_def update_participant_def)
  ultimately have r: "tpc_reachable 9 ?c2" by (meson tpc_reachable.intros)
  have e: "check_all_prepared ?c2 = Inl (PrepareFailed 0 ''disk full'')"
    by (simp add: check_all_prepared_def ParticipantState_new_def)
  show ?thesis
    using tpc_prepare_gate [OF r] r e by (intro exI [of _ ?c2]) (auto simp: each_def)
qed

text \<open>The commit marker round trip.  What \<open>to_bytes\<close> writes, \<open>from_bytes\<close> reads back, whatever
  follows it on disk; the number of participants the protocol allows is far below the limit.\<close>

theorem marker_roundtrip:
  assumes "gm_magic m = COMMIT_MARKER_MAGIC" and "length (gm_participants m) < 2 ^ 32"
  shows "marker_from_bytes (marker_to_bytes m @ rest) = Some m"
proof -
  let ?ps = "gm_participants m"
  define hdr where "hdr = gm_magic m @ to_le 8 (gm_txn_id m) @ to_le 8 (gm_commit_seq m) @
     to_le 4 (u32_of_usize (length ?ps)) @ to_le 8 (gm_timestamp_ns m)"
  have mg: "length (gm_magic m) = 4" using assms(1) by (simp add: COMMIT_MARKER_MAGIC_def)
  have len: "length hdr = 32" by (simp add: hdr_def mg)
  have data: "marker_to_bytes m @ rest = hdr @ concat (map participant_bytes ?ps) @ rest"
    by (simp add: marker_to_bytes_def hdr_def)
  have cnt: "unat (u32_of_usize (length ?ps)) = length ?ps"
    using assms(2) by (simp add: u32_of_usize_def unat_word_of_nat)
  have parts: "map (participant_at (hdr @ concat (map participant_bytes ?ps) @ rest)) [0..<length ?ps] = ?ps"
    by (rule nth_equalityI) (simp_all add: participant_at_bytes [OF len])
  have sub: "subslice 4 12 (hdr @ xs) = to_le 8 (gm_txn_id m)" "subslice 12 20 (hdr @ xs) = to_le 8 (gm_commit_seq m)"
    "subslice 20 24 (hdr @ xs) = to_le 4 (u32_of_usize (length ?ps))" "subslice 24 32 (hdr @ xs) = to_le 8 (gm_timestamp_ns m)"
    "take 4 hdr = gm_magic m" for xs
    by (simp_all add: hdr_def subslice_def mg)
  have "length (concat (map participant_bytes ?ps)) = 12 * length ?ps"
    by (simp add: length_concat comp_def sum_list_triv)
  then show ?thesis
    using assms len unfolding data
    by (simp add: marker_from_bytes_def sub parts cnt COMMIT_MARKER_MIN_SIZE_def usize_checked_mul_def
        usize_checked_add_def usize_max_def u32_le.dec_enc u64_le.dec_enc)
qed

theorem marker_roundtrip_witness:
  "marker_from_bytes (marker_to_bytes (GlobalCommitMarker_new 7 8 [(0, 4096), (2, 8192)] 99) @ [0xFF]) =
     Some (GlobalCommitMarker_new 7 8 [(0, 4096), (2, 8192)] 99)"
  using marker_roundtrip [of "GlobalCommitMarker_new 7 8 [(0, 4096), (2, 8192)] 99" "[0xFF]"]
  by (simp add: GlobalCommitMarker_new_def)

end
