(* ===== verification/VersionArena.thy ===== *)
theory VersionArena
  imports Prelude
begin

text \<open>
  \<open>crates/fsqlite-mvcc/src/core_types.rs\<close>, \<open>VersionArena\<close>: the arena that owns every committed
  page version, with generation-counted handles and a free list.  The interface the version store
  uses is the locale \<open>version_heap\<close>: to a client the arena is a finite map from handles to
  versions, in which allocation returns a fresh handle and retirement removes one; the arena's
  operations are shown to be an instance.
\<close>

record VersionIdx =
  vi_chunk :: u32
  vi_offset :: u32
  vi_generation :: u32

record PageVersion =
  pv_pgno :: u32
  pv_commit_seq :: u64
  pv_created_by :: "u64 \<times> u32"
  pv_data :: bytes
  pv_prev :: "u64 option"

record ArenaSlot =
  as_generation :: u32
  as_version :: "PageVersion option"

record VersionArena =
  va_chunks :: "ArenaSlot list list"
  va_free_list :: "VersionIdx list"
  va_high_water :: u64

definition ARENA_CHUNK :: nat where
  "ARENA_CHUNK = 4096"

definition VersionArena_new :: VersionArena where
  "VersionArena_new = \<lparr>va_chunks = [[]], va_free_list = [], va_high_water = 0\<rparr>"

text \<open>\<open>chunks[c][o]\<close>, and its update in place.\<close>

definition slot_at :: "VersionArena \<Rightarrow> nat \<Rightarrow> nat \<Rightarrow> ArenaSlot option" where
  "slot_at a c off = Option.bind (buf_get (va_chunks a) c) (\<lambda>ch. buf_get ch off)"

definition slot_update :: "nat \<Rightarrow> nat \<Rightarrow> ArenaSlot \<Rightarrow> VersionArena \<Rightarrow> VersionArena" where
  "slot_update c off s a = a\<lparr>va_chunks := (va_chunks a)[c := ((va_chunks a) ! c)[off := s]]\<rparr>"

definition idx_slot :: "VersionArena \<Rightarrow> VersionIdx \<Rightarrow> ArenaSlot option" where
  "idx_slot a idx = slot_at a (unat (vi_chunk idx)) (unat (vi_offset idx))"

definition idx_update :: "VersionIdx \<Rightarrow> ArenaSlot \<Rightarrow> VersionArena \<Rightarrow> VersionArena" where
  "idx_update idx s a = slot_update (unat (vi_chunk idx)) (unat (vi_offset idx)) s a"

definition u32_or_max :: "nat \<Rightarrow> u32" where
  "u32_or_max n = (if n < 2 ^ 32 then word_of_nat n else - 1)"

definition arena_alloc :: "PageVersion \<Rightarrow> VersionArena \<Rightarrow> (VersionIdx \<times> VersionArena) option" where
  "arena_alloc version a =
     (if va_free_list a \<noteq> [] then
        let idx = last (va_free_list a); a1 = a\<lparr>va_free_list := butlast (va_free_list a)\<rparr> in
        do { slot \<leftarrow> idx_slot a1 idx;
             Some (\<lparr>vi_chunk = vi_chunk idx, vi_offset = vi_offset idx, vi_generation = as_generation slot\<rparr>,
                   idx_update idx (slot\<lparr>as_version := Some version\<rparr>) a1) }
      else if va_chunks a = [] then None
      else
        let a1 = (if length (last (va_chunks a)) \<ge> ARENA_CHUNK
                  then a\<lparr>va_chunks := va_chunks a @ [[]]\<rparr> else a);
            chunk_idx = length (va_chunks a1) - 1;
            off = length (last (va_chunks a1)) in
        Some (\<lparr>vi_chunk = u32_or_max chunk_idx, vi_offset = u32_or_max off, vi_generation = 0\<rparr>,
              a1\<lparr>va_chunks := butlast (va_chunks a1) @ [last (va_chunks a1) @ [\<lparr>as_generation = 0, as_version = Some version\<rparr>]],
                 va_high_water := va_high_water a1 + 1\<rparr>))"

definition next_generation :: "u32 \<Rightarrow> u32" where
  "next_generation g = (let next_gen = g + 1 in if next_gen = - 1 then 0 else next_gen)"

text \<open>\<open>take_for_retirement\<close>; the assertions of the source are the \<^const>\<open>None\<close> branches.\<close>

definition take_for_retirement :: "VersionIdx \<Rightarrow> VersionArena \<Rightarrow> (PageVersion \<times> VersionArena) option" where
  "take_for_retirement idx a =
     do { slot \<leftarrow> idx_slot a idx;
          if as_generation slot \<noteq> vi_generation idx then None else
          do { version \<leftarrow> as_version slot;
               Some (version, idx_update idx
                       \<lparr>as_generation = next_generation (as_generation slot), as_version = None\<rparr> a) } }"

definition arena_take :: "VersionIdx \<Rightarrow> VersionArena \<Rightarrow> (PageVersion \<times> VersionArena) option" where
  "arena_take idx a =
     do { slot \<leftarrow> idx_slot a idx;
          if as_generation slot \<noteq> vi_generation idx then None else
          do { version \<leftarrow> as_version slot;
               let a' = idx_update idx \<lparr>as_generation = next_generation (as_generation slot), as_version = None\<rparr> a;
               Some (version, a'\<lparr>va_free_list := va_free_list a' @ [idx]\<rparr>) } }"

fun recycle_slots :: "VersionIdx list \<Rightarrow> VersionArena \<Rightarrow> VersionArena option" where
  "recycle_slots [] a = Some a"
| "recycle_slots (idx # indices) a =
     do { slot \<leftarrow> idx_slot a idx;
          recycle_slots indices
            (a\<lparr>va_free_list := va_free_list a @
                 [\<lparr>vi_chunk = vi_chunk idx, vi_offset = vi_offset idx, vi_generation = as_generation slot\<rparr>]\<rparr>) }"

definition arena_get :: "VersionArena \<Rightarrow> VersionIdx \<Rightarrow> PageVersion option" where
  "arena_get a idx =
     do { slot \<leftarrow> idx_slot a idx;
          if as_generation slot \<noteq> vi_generation idx then None else as_version slot }"

text \<open>A write through \<open>get_mut\<close>.\<close>

definition arena_set :: "VersionIdx \<Rightarrow> PageVersion \<Rightarrow> VersionArena \<Rightarrow> VersionArena option" where
  "arena_set idx version a =
     do { slot \<leftarrow> idx_slot a idx;
          if as_generation slot \<noteq> vi_generation idx then None
          else if as_version slot = None then None
          else Some (idx_update idx (slot\<lparr>as_version := Some version\<rparr>) a) }"

section \<open>The arena as a map\<close>

definition idx_pos :: "VersionIdx \<Rightarrow> u32 \<times> u32" where
  "idx_pos i = (vi_chunk i, vi_offset i)"

definition arena_inv :: "VersionArena \<Rightarrow> bool" where
  "arena_inv a \<longleftrightarrow>
     va_chunks a \<noteq> [] \<and> length (va_chunks a) \<le> 2 ^ 20 \<and>
     (\<forall>ch \<in> set (va_chunks a). length ch \<le> ARENA_CHUNK \<and> (\<forall>s \<in> set ch. as_generation s \<noteq> - 1)) \<and>
     distinct (map idx_pos (va_free_list a)) \<and>
     (\<forall>i \<in> set (va_free_list a). \<exists>s. idx_slot a i = Some s \<and> as_version s = None)"

text \<open>The 20 bits a packed handle has for the chunk bound the arena; a reused slot always has room.\<close>

definition arena_room :: "VersionArena \<Rightarrow> bool" where
  "arena_room a \<longleftrightarrow>
     va_free_list a \<noteq> [] \<or> length (last (va_chunks a)) < ARENA_CHUNK \<or> length (va_chunks a) < 2 ^ 20"

lemma slot_at_bounds: "slot_at a c off = Some s \<Longrightarrow> c < length (va_chunks a) \<and> off < length (va_chunks a ! c)"
  by (auto simp: slot_at_def buf_get_def split: if_splits)

lemma slot_at_update:
  "slot_at a c off = Some s0 \<Longrightarrow>
   slot_at (slot_update c off s a) c' off' = (if c' = c \<and> off' = off then Some s else slot_at a c' off')"
  by (auto simp: slot_at_def slot_update_def buf_get_def nth_list_update split: if_splits)

lemma slot_at_push:
  assumes "va_chunks a \<noteq> []"
  shows "slot_at (a\<lparr>va_chunks := butlast (va_chunks a) @ [last (va_chunks a) @ [s]], va_high_water := h\<rparr>) c off =
      (if c = length (va_chunks a) - 1 \<and> off = length (last (va_chunks a)) then Some s else slot_at a c off)"
proof -
  obtain cs ch where "va_chunks a = cs @ [ch]" using assms by (metis append_butlast_last_id)
  then show ?thesis
    by (cases "c < length cs"; cases "c = length cs") (auto simp: slot_at_def buf_get_def nth_append)
qed

lemma idx_slot_update:
  "idx_slot a i = Some s0 \<Longrightarrow>
   idx_slot (idx_update i s a) j = (if idx_pos j = idx_pos i then Some s else idx_slot a j)"
  unfolding idx_slot_def idx_update_def
  by (subst slot_at_update) (auto simp: idx_pos_def word_unat_eq_iff)

lemma idx_eq: "i = j \<longleftrightarrow> idx_pos i = idx_pos j \<and> vi_generation i = vi_generation j" for i j :: VersionIdx
  by (cases i; cases j) (simp add: idx_pos_def)

lemma arena_get_update:
  assumes "idx_slot a i = Some s0"
  shows "arena_get (idx_update i s a) j =
      (if idx_pos j = idx_pos i then (if as_generation s = vi_generation j then as_version s else None)
       else arena_get a j)"
  by (simp add: arena_get_def idx_slot_update [OF assms])

lemma free_list_update [simp]: "va_free_list (idx_update i s a) = va_free_list a"
  by (simp add: idx_update_def slot_update_def)

lemma arena_inv_update:
  assumes "arena_inv a" "idx_slot a i = Some s0" "as_generation s \<noteq> - 1"
    and "idx_pos i \<notin> idx_pos ` set (va_free_list a) \<or> as_version s = None"
  shows "arena_inv (idx_update i s a)"
proof -
  have "unat (vi_chunk i) < length (va_chunks a)"
    using assms(2) by (auto simp: idx_slot_def dest: slot_at_bounds)
  then have ch: "\<forall>ch \<in> set (va_chunks (idx_update i s a)). length ch \<le> ARENA_CHUNK \<and> (\<forall>s \<in> set ch. as_generation s \<noteq> - 1)"
    using assms(1,3) by (fastforce simp: arena_inv_def idx_update_def slot_update_def
        dest!: set_update_subset_insert [THEN subsetD])
  moreover have "va_chunks (idx_update i s a) \<noteq> []" "length (va_chunks (idx_update i s a)) \<le> 2 ^ 20"
    using assms(1) by (auto simp: arena_inv_def idx_update_def slot_update_def)
  moreover have "\<exists>t. idx_slot (idx_update i s a) j = Some t \<and> as_version t = None" if "j \<in> set (va_free_list a)" for j
  proof (cases "idx_pos j = idx_pos i")
    case True
    then have "as_version s = None" using assms(4) that by (metis imageI)
    then show ?thesis using True by (simp add: idx_slot_update [OF assms(2)])
  next
    case False
    then show ?thesis using that assms(1) by (simp add: idx_slot_update [OF assms(2)] arena_inv_def)
  qed
  ultimately show ?thesis using assms(1) by (simp add: arena_inv_def)
qed

lemma arena_get_Some:
  "arena_get a i = Some v \<longleftrightarrow> (\<exists>s. idx_slot a i = Some s \<and> as_generation s = vi_generation i \<and> as_version s = Some v)"
  by (auto simp: arena_get_def split: Option.bind_splits if_splits)

lemma arena_get_slot:
  "idx_slot a i = Some s \<Longrightarrow> arena_get a i = (if as_generation s = vi_generation i then as_version s else None)"
  by (simp add: arena_get_def)

lemma live_not_free: "arena_inv a \<Longrightarrow> idx_slot a i = Some s \<Longrightarrow> as_version s = Some v \<Longrightarrow> idx_pos i \<notin> idx_pos ` set (va_free_list a)"
proof
  assume inv: "arena_inv a" and s: "idx_slot a i = Some s" "as_version s = Some v" and "idx_pos i \<in> idx_pos ` set (va_free_list a)"
  then obtain j where j: "j \<in> set (va_free_list a)" "idx_pos i = idx_pos j" by auto
  then have "idx_slot a j = idx_slot a i" by (simp add: idx_slot_def idx_pos_def)
  then show False using j s inv by (auto simp: arena_inv_def)
qed

lemma next_generation_ok: "next_generation g \<noteq> - 1" "next_generation g \<noteq> g"
proof -
  show "next_generation g \<noteq> - 1" by (simp add: next_generation_def Let_def)
  have "g = 0 \<Longrightarrow> g + 1 \<noteq> - 1" by simp
  then show "next_generation g \<noteq> g" by (auto simp: next_generation_def Let_def)
qed

text \<open>Handles of live versions fit the packed representation of a version pointer.\<close>

definition idx_ok :: "VersionIdx \<Rightarrow> bool" where
  "idx_ok i \<longleftrightarrow> unat (vi_chunk i) < 2 ^ 20 \<and> unat (vi_offset i) < 4096 \<and> vi_generation i \<noteq> - 1"

lemma slot_in_chunks: "idx_slot a i = Some s \<Longrightarrow> \<exists>ch \<in> set (va_chunks a). s \<in> set ch"
  by (auto simp: idx_slot_def slot_at_def buf_get_def split: if_splits
      intro!: bexI [of _ "va_chunks a ! unat (vi_chunk i)"])

lemma arena_get_ok:
  assumes inv: "arena_inv a" and get: "arena_get a i = Some v"
  shows "idx_ok i"
proof -
  obtain s where s: "idx_slot a i = Some s" "as_generation s = vi_generation i" using get arena_get_Some by blast
  then have "unat (vi_chunk i) < length (va_chunks a)" "unat (vi_offset i) < length (va_chunks a ! unat (vi_chunk i))"
    by (auto simp: idx_slot_def dest: slot_at_bounds)
  moreover from this have "length (va_chunks a ! unat (vi_chunk i)) \<le> ARENA_CHUNK"
    using inv by (simp add: arena_inv_def)
  ultimately have "unat (vi_offset i) < 4096" "unat (vi_chunk i) < 2 ^ 20"
    using inv unfolding arena_inv_def ARENA_CHUNK_def by linarith+
  moreover have "as_generation s \<noteq> - 1" using slot_in_chunks [OF s(1)] inv by (auto simp: arena_inv_def)
  ultimately show ?thesis using s(2) by (simp add: idx_ok_def)
qed

lemma arena_inv_new: "arena_inv VersionArena_new"
  by (simp add: arena_inv_def VersionArena_new_def)

lemma arena_set_heap:
  assumes "arena_inv a" "arena_get a i = Some v0"
  shows "\<exists>a'. arena_set i v a = Some a' \<and> arena_inv a' \<and> arena_get a' = (arena_get a)(i \<mapsto> v)"
proof -
  obtain s where s: "idx_slot a i = Some s" "as_generation s = vi_generation i" "as_version s = Some v0"
    using assms(2) arena_get_Some by blast
  let ?a = "idx_update i (s\<lparr>as_version := Some v\<rparr>) a"
  have "arena_set i v a = Some ?a" using s by (simp add: arena_set_def)
  moreover have "arena_inv ?a"
    using slot_in_chunks [OF s(1)] assms(1) live_not_free [OF assms(1) s(1,3)]
    by (intro arena_inv_update [OF assms(1) s(1)]) (auto simp: arena_inv_def)
  moreover have "arena_get ?a = (arena_get a)(i \<mapsto> v)"
  proof
    fix j show "arena_get ?a j = ((arena_get a)(i \<mapsto> v)) j"
    proof (cases "idx_pos j = idx_pos i")
      case True
      then have "idx_slot a j = Some s" using s(1) by (simp add: idx_slot_def idx_pos_def)
      then show ?thesis
        using True s next_generation_ok(2) [of "vi_generation i"]
        by (auto simp: arena_get_update [OF s(1)] idx_eq arena_get_slot)
    qed (auto simp: arena_get_update [OF s(1)])
  qed
  ultimately show ?thesis by blast
qed

lemma take_for_retirement_heap:
  assumes "arena_inv a" "arena_get a i = Some v"
  shows "\<exists>a'. take_for_retirement i a = Some (v, a') \<and> arena_inv a' \<and> arena_get a' = (arena_get a)(i := None)"
proof -
  obtain s where s: "idx_slot a i = Some s" "as_generation s = vi_generation i" "as_version s = Some v"
    using assms(2) arena_get_Some by blast
  let ?a = "idx_update i \<lparr>as_generation = next_generation (as_generation s), as_version = None\<rparr> a"
  have "take_for_retirement i a = Some (v, ?a)" using s by (simp add: take_for_retirement_def)
  moreover have "arena_inv ?a"
    by (rule arena_inv_update [OF assms(1) s(1)]) (simp_all add: next_generation_ok)
  moreover have "arena_get ?a = (arena_get a)(i := None)"
  proof
    fix j show "arena_get ?a j = ((arena_get a)(i := None)) j"
    proof (cases "idx_pos j = idx_pos i")
      case True
      then have "idx_slot a j = Some s" using s(1) by (simp add: idx_slot_def idx_pos_def)
      then show ?thesis
        using True s next_generation_ok(2) [of "vi_generation i"]
        by (auto simp: arena_get_update [OF s(1)] idx_eq arena_get_slot)
    qed (auto simp: arena_get_update [OF s(1)])
  qed
  ultimately show ?thesis by blast
qed

lemma arena_alloc_reuse:
  assumes inv: "arena_inv a" and free: "va_free_list a \<noteq> []"
  shows "\<exists>i a'. arena_alloc v a = Some (i, a') \<and> arena_inv a' \<and> arena_get a i = None \<and>
      arena_get a' = (arena_get a)(i \<mapsto> v)"
proof -
  obtain fs idx where fs: "va_free_list a = fs @ [idx]" using free by (metis append_butlast_last_id)
  let ?a1 = "a\<lparr>va_free_list := fs\<rparr>"
  obtain s where s: "idx_slot a idx = Some s" "as_version s = None" using inv fs by (auto simp: arena_inv_def)
  let ?i = "\<lparr>vi_chunk = vi_chunk idx, vi_offset = vi_offset idx, vi_generation = as_generation s\<rparr>"
  let ?a = "idx_update idx (s\<lparr>as_version := Some v\<rparr>) ?a1"
  have slots: "idx_slot ?a1 = idx_slot a" by (rule ext) (simp add: idx_slot_def slot_at_def)
  have get1: "arena_get ?a1 = arena_get a" by (rule ext) (simp add: arena_get_def slots)
  have s1: "idx_slot ?a1 idx = Some s" using s by (simp add: slots)
  have inv1: "arena_inv ?a1" using inv fs by (simp add: arena_inv_def slots)
  have nf: "idx_pos idx \<notin> idx_pos ` set (va_free_list ?a1)" using inv fs by (simp add: arena_inv_def)
  have al: "arena_alloc v a = Some (?i, ?a)" using s1 fs by (simp add: arena_alloc_def Let_def)
  have ia: "arena_inv ?a"
    using slot_in_chunks [OF s(1)] inv nf by (intro arena_inv_update [OF inv1 s1]) (auto simp: arena_inv_def)
  have pos: "idx_pos ?i = idx_pos idx" by (simp add: idx_pos_def)
  then have si: "idx_slot a j = Some s" if "idx_pos j = idx_pos idx" for j
    using s(1) that by (simp add: idx_slot_def idx_pos_def)
  have none: "arena_get a ?i = None" using si [OF pos] s(2) by (simp add: arena_get_slot)
  have "arena_get ?a j = ((arena_get a)(?i \<mapsto> v)) j" for j
  proof (cases "idx_pos j = idx_pos idx")
    case True
    then show ?thesis
      using si [OF True] s pos by (auto simp: arena_get_update [OF s1] idx_eq [of j] arena_get_slot)
  qed (use pos in \<open>auto simp: arena_get_update [OF s1] get1\<close>)
  then have "arena_get ?a = (arena_get a)(?i \<mapsto> v)" by (rule ext)
  with al ia none show ?thesis by blast
qed

lemma arena_alloc_fresh:
  assumes inv: "arena_inv a" and free: "va_free_list a = []"
    and room: "length (last (va_chunks a)) < ARENA_CHUNK"
  shows "\<exists>i a'. arena_alloc v a = Some (i, a') \<and> arena_inv a' \<and> arena_get a i = None \<and>
      arena_get a' = (arena_get a)(i \<mapsto> v)"
proof -
  have ne: "va_chunks a \<noteq> []" using inv by (simp add: arena_inv_def)
  define c off where "c = length (va_chunks a) - 1" and "off = length (last (va_chunks a))"
  let ?s = "\<lparr>as_generation = 0, as_version = Some v\<rparr>"
  let ?i = "\<lparr>vi_chunk = u32_or_max c, vi_offset = u32_or_max off, vi_generation = 0\<rparr>"
  let ?a = "a\<lparr>va_chunks := butlast (va_chunks a) @ [last (va_chunks a) @ [?s]], va_high_water := va_high_water a + 1\<rparr>"
  have lens: "c < 2 ^ 20" "off < 4096"
    using inv ne room by (auto simp: c_def off_def arena_inv_def ARENA_CHUNK_def)
  have un: "unat (u32_or_max c) = c" "unat (u32_or_max off) = off"
    using lens by (simp_all add: u32_or_max_def unat_word_of_nat)
  have slot: "idx_slot ?a j = (if idx_pos j = idx_pos ?i then Some ?s else idx_slot a j)" for j
    unfolding idx_slot_def slot_at_push [OF ne] using un
    by (auto simp: idx_pos_def word_unat_eq_iff c_def off_def)
  have none: "idx_slot a ?i = None"
  proof -
    obtain cs ch where "va_chunks a = cs @ [ch]" using ne by (metis append_butlast_last_id)
    then show ?thesis using un by (simp add: idx_slot_def slot_at_def buf_get_def c_def off_def)
  qed
  have al: "arena_alloc v a = Some (?i, ?a)"
    using free room ne by (simp add: arena_alloc_def Let_def c_def off_def)
  have ia: "arena_inv ?a"
  proof -
    obtain cs ch where "va_chunks a = cs @ [ch]" using ne by (metis append_butlast_last_id)
    then show ?thesis using inv free room by (auto simp: arena_inv_def)
  qed
  have gn: "arena_get a j = None" if "idx_pos j = idx_pos ?i" for j
  proof -
    have "idx_slot a j = None" using none that by (simp add: idx_slot_def idx_pos_def)
    then show ?thesis by (simp add: arena_get_def)
  qed
  have "arena_get ?a j = ((arena_get a)(?i \<mapsto> v)) j" for j
    using slot [of j] gn [of j] by (cases "idx_pos j = idx_pos ?i") (auto simp: arena_get_def idx_eq [of j])
  then have "arena_get ?a = (arena_get a)(?i \<mapsto> v)" by (rule ext)
  with al ia gn [of ?i] show ?thesis by blast
qed

lemma arena_alloc_heap:
  assumes inv: "arena_inv a" and room: "arena_room a"
  shows "\<exists>i a'. arena_alloc v a = Some (i, a') \<and> arena_inv a' \<and> arena_get a i = None \<and>
      arena_get a' = (arena_get a)(i \<mapsto> v)"
proof (cases "va_free_list a \<noteq> [] \<or> length (last (va_chunks a)) < ARENA_CHUNK")
  case True
  then show ?thesis using arena_alloc_reuse [OF inv] arena_alloc_fresh [OF inv] by (cases "va_free_list a = []") auto
next
  case False
  let ?b = "a\<lparr>va_chunks := va_chunks a @ [[]]\<rparr>"
  have "idx_slot ?b i = idx_slot a i" for i
    by (auto simp: idx_slot_def slot_at_def buf_get_def nth_append)
  then have slots: "idx_slot ?b = idx_slot a" by (rule ext)
  then have get: "arena_get ?b = arena_get a" by (intro ext) (simp add: arena_get_def)
  have "arena_inv ?b" using inv room False slots by (auto simp: arena_inv_def arena_room_def)
  moreover have "arena_alloc v a = arena_alloc v ?b"
    using False inv by (simp add: arena_alloc_def Let_def arena_inv_def ARENA_CHUNK_def)
  ultimately show ?thesis
    using arena_alloc_fresh [of ?b v] False get by (simp add: ARENA_CHUNK_def)
qed

section \<open>The interface of the version heap\<close>

locale version_heap =
  fixes inv room :: "'h \<Rightarrow> bool" and valid :: "'i \<Rightarrow> bool"
    and get :: "'h \<Rightarrow> 'i \<Rightarrow> 'v option"
    and alloc :: "'v \<Rightarrow> 'h \<Rightarrow> ('i \<times> 'h) option"
    and upd :: "'i \<Rightarrow> 'v \<Rightarrow> 'h \<Rightarrow> 'h option"
    and retire :: "'i \<Rightarrow> 'h \<Rightarrow> ('v \<times> 'h) option"
  assumes alloc_ok: "inv h \<Longrightarrow> room h \<Longrightarrow>
      \<exists>i h'. alloc v h = Some (i, h') \<and> inv h' \<and> get h i = None \<and> get h' = (get h)(i \<mapsto> v)"
    and upd_ok: "inv h \<Longrightarrow> get h i = Some v0 \<Longrightarrow>
      \<exists>h'. upd i v h = Some h' \<and> inv h' \<and> get h' = (get h)(i \<mapsto> v)"
    and retire_ok: "inv h \<Longrightarrow> get h i = Some v \<Longrightarrow>
      \<exists>h'. retire i h = Some (v, h') \<and> inv h' \<and> get h' = (get h)(i := None)"
    and valid_live: "inv h \<Longrightarrow> get h i = Some v \<Longrightarrow> valid i"
begin

lemma allocE:
  assumes "inv h" "room h"
  obtains i h' where "alloc v h = Some (i, h')" "inv h'" "get h i = None" "get h' = (get h)(i \<mapsto> v)" "valid i"
proof -
  obtain i h' where a: "alloc v h = Some (i, h')" "inv h'" "get h i = None" "get h' = (get h)(i \<mapsto> v)"
    using alloc_ok [OF assms] by blast
  then have "valid i" by (intro valid_live [of h' i v]) simp_all
  with a show thesis by (rule that)
qed

lemma updE:
  assumes "inv h" "get h i = Some v0"
  obtains h' where "upd i v h = Some h'" "inv h'" "get h' = (get h)(i \<mapsto> v)"
  using upd_ok [OF assms] by blast

lemma retireE:
  assumes "inv h" "get h i = Some v"
  obtains h' where "retire i h = Some (v, h')" "inv h'" "get h' = (get h)(i := None)"
  using retire_ok [OF assms] by blast

lemma retired_stale:
  assumes "inv h" "get h i = Some v" "retire i h = Some (v', h')" "room h'" "alloc w h' = Some (j, h'')"
  shows "get h'' i = (if j = i then Some w else None)"
proof -
  obtain h1 where h1: "retire i h = Some (v, h1)" "inv h1" "get h1 = (get h)(i := None)"
    by (rule retireE [OF assms(1,2)])
  then have "h1 = h'" using assms(3) by simp
  moreover obtain k h2 where "alloc w h1 = Some (k, h2)" "get h2 = (get h1)(k \<mapsto> w)"
    using alloc_ok [of h1] assms(4) h1 \<open>h1 = h'\<close> by blast
  ultimately show ?thesis using assms(5) h1 by simp
qed

end

interpretation arena: version_heap arena_inv arena_room idx_ok arena_get arena_alloc arena_set take_for_retirement
  by unfold_locales (use arena_alloc_heap arena_set_heap take_for_retirement_heap arena_get_ok in blast)+

lemma recycle_slots_ok:
  assumes "arena_inv a" "distinct (map idx_pos is)" "idx_pos ` set is \<inter> idx_pos ` set (va_free_list a) = {}"
    and "\<forall>i \<in> set is. \<exists>s. idx_slot a i = Some s \<and> as_version s = None"
  shows "\<exists>a'. recycle_slots is a = Some a' \<and> arena_inv a' \<and> arena_get a' = arena_get a \<and>
      map idx_pos (va_free_list a') = map idx_pos (va_free_list a) @ map idx_pos is \<and> idx_slot a' = idx_slot a"
  using assms
proof (induction "is" arbitrary: a)
  case (Cons i "is")
  then obtain s where s: "idx_slot a i = Some s" "as_version s = None" by auto
  let ?j = "\<lparr>vi_chunk = vi_chunk i, vi_offset = vi_offset i, vi_generation = as_generation s\<rparr>"
  let ?a = "a\<lparr>va_free_list := va_free_list a @ [?j]\<rparr>"
  have slots: "idx_slot ?a = idx_slot a" by (rule ext) (simp add: idx_slot_def slot_at_def)
  have get: "arena_get ?a = arena_get a" by (rule ext) (simp add: arena_get_def slots)
  have pos: "idx_pos ?j = idx_pos i" by (simp add: idx_pos_def)
  have "idx_slot a ?j = Some s" using s by (simp add: idx_slot_def)
  then have "arena_inv ?a" using Cons.prems s pos slots by (auto simp: arena_inv_def)
  moreover have "idx_pos ` set is \<inter> idx_pos ` set (va_free_list ?a) = {}" using Cons.prems pos by auto
  ultimately have "\<exists>a'. recycle_slots is ?a = Some a' \<and> arena_inv a' \<and> arena_get a' = arena_get ?a \<and>
      map idx_pos (va_free_list a') = map idx_pos (va_free_list ?a) @ map idx_pos is \<and> idx_slot a' = idx_slot ?a"
    using Cons.prems slots by (intro Cons.IH) auto
  then show ?case using s pos get slots by auto
qed simp

section \<open>Properties\<close>

text \<open>The arena is a map from handles to versions.  From any well-formed arena, allocation
  returns a handle that was not live and binds it alone; a write through a live handle changes
  that binding alone; retirement returns the version and removes that binding alone.  No other
  handle observes any of these operations, and the arena stays well formed.\<close>

theorem arena_operations_as_map:
  assumes "arena_inv a"
  shows "(arena_room a \<longrightarrow>
           (\<exists>i a'. arena_alloc v a = Some (i, a') \<and> arena_inv a' \<and> arena_get a i = None \<and> idx_ok i \<and>
              arena_get a' = (arena_get a)(i \<mapsto> v))) \<and>
         (arena_get a i \<noteq> None \<longrightarrow>
           (\<exists>a'. arena_set i v a = Some a' \<and> arena_inv a' \<and> arena_get a' = (arena_get a)(i \<mapsto> v)) \<and>
           (\<exists>a'. take_for_retirement i a = Some (the (arena_get a i), a') \<and> arena_inv a' \<and>
              arena_get a' = (arena_get a)(i := None)))"
  using arena.allocE [OF assms, of v] arena.upd_ok [OF assms, of i] arena.retire_ok [OF assms, of i] by auto metis

theorem arena_operations_as_map_witness:
  "\<exists>i a'. arena_alloc \<lparr>pv_pgno = 1, pv_commit_seq = 1, pv_created_by = (1, 0), pv_data = [], pv_prev = None\<rparr> VersionArena_new =
     Some (i, a') \<and> arena_inv a' \<and> arena_get VersionArena_new i = None"
proof -
  have "arena_room VersionArena_new" by (simp add: arena_room_def VersionArena_new_def ARENA_CHUNK_def)
  then show ?thesis using arena_operations_as_map [OF arena_inv_new] by blast
qed

text \<open>Protection against reuse of handles.  A handle whose version was retired stays dead when
  its slot is recycled and given to a new version: the new handle points to the same slot but
  differs in its generation, and the old one still resolves to nothing.\<close>

theorem retired_handle_not_revived:
  assumes "arena_inv a" and "arena_get a i = Some v" and "take_for_retirement i a = Some (v', a1)"
    and "recycle_slots [i] a1 = Some a2" and "arena_alloc w a2 = Some (j, a3)"
  shows "j \<noteq> i \<and> idx_pos j = idx_pos i \<and> arena_get a3 i = None \<and> arena_get a3 j = Some w"
proof -
  obtain s where s: "idx_slot a i = Some s" "as_generation s = vi_generation i" "as_version s = Some v"
    using assms(2) arena_get_Some by blast
  let ?s = "\<lparr>as_generation = next_generation (as_generation s), as_version = None\<rparr>"
  have a1: "a1 = idx_update i ?s a" using assms(3) s by (simp add: take_for_retirement_def)
  have s1: "idx_slot a1 i = Some ?s" by (simp add: a1 idx_slot_update [OF s(1)])
  have inv1: "arena_inv a1"
    unfolding a1 by (rule arena_inv_update [OF assms(1) s(1)]) (simp_all add: next_generation_ok)
  have free: "idx_pos i \<notin> idx_pos ` set (va_free_list a1)"
    using live_not_free [OF assms(1) s(1,3)] by (simp add: a1)
  obtain a2' where a2: "recycle_slots [i] a1 = Some a2'" "arena_inv a2'"
    "map idx_pos (va_free_list a2') = map idx_pos (va_free_list a1) @ [idx_pos i]" "idx_slot a2' = idx_slot a1"
    using recycle_slots_ok [OF inv1, of "[i]"] s1 free by auto
  then have eq: "a2' = a2" using assms(4) by simp
  then have ne: "va_free_list a2 \<noteq> []" using a2(3) by auto
  have last: "idx_pos (last (va_free_list a2)) = idx_pos i" using a2(3) eq by (metis last_map last_snoc ne)
  have "idx_slot (a2\<lparr>va_free_list := butlast (va_free_list a2)\<rparr>) (last (va_free_list a2)) = Some ?s"
  proof -
    have "idx_slot a2 (last (va_free_list a2)) = idx_slot a2 i"
      using last by (simp add: idx_slot_def idx_pos_def)
    also have "\<dots> = Some ?s" using a2(4) s1 eq by simp
    finally have "idx_slot a2 (last (va_free_list a2)) = Some ?s" .
    then show ?thesis by (simp add: idx_slot_def slot_at_def)
  qed
  then have j: "vi_generation j = next_generation (vi_generation i)" "idx_pos j = idx_pos i"
    using assms(5) ne last s(2) by (auto simp: arena_alloc_def Let_def idx_pos_def)
  obtain j' a3' where "arena_alloc w a2 = Some (j', a3')" "arena_get a3' = (arena_get a2)(j' \<mapsto> w)"
    using arena.alloc_ok [of a2 w] a2(2) eq ne by (auto simp: arena_room_def)
  then have get3: "arena_get a3 = (arena_get a2)(j \<mapsto> w)" using assms(5) by simp
  have "arena_get a2 i = None" using s1 a2(4) eq by (simp add: arena_get_slot)
  moreover have "j \<noteq> i" using j next_generation_ok(2) [of "vi_generation i"] by auto
  ultimately show ?thesis using j get3 by simp
qed

theorem retired_handle_not_revived_witness:
  "\<exists>a i a1 a2 j a3 v w. arena_get a i = Some v \<and> take_for_retirement i a = Some (v, a1) \<and>
     recycle_slots [i] a1 = Some a2 \<and> arena_alloc w a2 = Some (j, a3) \<and> arena_get a3 i = None \<and> arena_get a3 j = Some w"
proof -
  let ?v = "\<lparr>pv_pgno = 1, pv_commit_seq = 1, pv_created_by = (1, 0), pv_data = [], pv_prev = None\<rparr>"
  let ?i = "\<lparr>vi_chunk = 0, vi_offset = 0, vi_generation = 0\<rparr>"
  let ?a = "\<lparr>va_chunks = [[\<lparr>as_generation = 0, as_version = Some ?v\<rparr>]], va_free_list = [], va_high_water = 1\<rparr>"
  have inv: "arena_inv ?a" by (simp add: arena_inv_def ARENA_CHUNK_def)
  have get: "arena_get ?a ?i = Some ?v" by (simp add: arena_get_def idx_slot_def slot_at_def buf_get_def)
  obtain a1 where a1: "take_for_retirement ?i ?a = Some (?v, a1)" using arena.retire_ok [OF inv get] by blast
  have e1: "a1 = \<lparr>va_chunks = [[\<lparr>as_generation = 1, as_version = None\<rparr>]], va_free_list = [], va_high_water = 1\<rparr>"
    using a1 by (simp add: take_for_retirement_def idx_slot_def slot_at_def buf_get_def idx_update_def slot_update_def
        next_generation_def)
  obtain a2 where a2: "recycle_slots [?i] a1 = Some a2" by (simp add: e1 idx_slot_def slot_at_def buf_get_def)
  obtain j a3 where a3: "arena_alloc ?v a2 = Some (j, a3)"
    using a2 by (auto simp: e1 idx_slot_def slot_at_def buf_get_def arena_alloc_def Let_def)
  show ?thesis using retired_handle_not_revived [OF inv get a1 a2 a3] get a1 a2 a3 by blast
qed

end
