(* ===== verification/VersionStore.thy ===== *)
theory VersionStore
  imports VersionArena
begin

text \<open>
  \<open>crates/fsqlite-mvcc/src/invariants.rs\<close> (\<open>VersionStore\<close>, visibility, packing of handles)
  and \<open>crates/fsqlite-mvcc/src/gc.rs\<close> (\<open>prune_page_chain\<close>, \<open>gc_tick\<close>): version chains over the
  arena.  The sharded chain-head table is the map from page numbers to packed heads.  Readers
  walk a chain under the arena's read lock; a walk that meets a dead handle retries on the
  unchanged store and so never returns, which the partial functions below render as
  \<^const>\<open>None\<close>.  Visibility-range tracking (diagnostics, off by default) is left out.
  The abstract view of a store is a list of versions per page, newest first.
\<close>

section \<open>Packed handles\<close>

definition idx_to_version_pointer :: "VersionIdx \<Rightarrow> u64 option" where
  "idx_to_version_pointer idx =
     (let chunk = ucast (vi_chunk idx) :: u64; off = ucast (vi_offset idx) :: u64;
          generation = ucast (vi_generation idx) :: u64 in
      if chunk \<le> 0xFFFFF \<and> off \<le> 0xFFF
      then Some (push_bit 32 generation OR push_bit 12 chunk OR off) else None)"

definition version_pointer_to_idx :: "u64 \<Rightarrow> VersionIdx" where
  "version_pointer_to_idx raw =
     \<lparr>vi_chunk = ucast (drop_bit 12 raw AND 0xFFFFF), vi_offset = ucast (raw AND 0xFFF),
      vi_generation = ucast (drop_bit 32 raw)\<rparr>"

definition CHAIN_HEAD_EMPTY :: u64 where
  "CHAIN_HEAD_EMPTY = - 1"

definition pack_idx :: "VersionIdx \<Rightarrow> u64 option" where
  "pack_idx idx =
     (let chunk = ucast (vi_chunk idx) :: u64; off = ucast (vi_offset idx) :: u64;
          generation = ucast (vi_generation idx) :: u64 in
      if chunk \<le> 0xFFFFF \<and> off \<le> 0xFFF
      then Some (push_bit 32 generation OR push_bit 12 chunk OR off) else None)"

definition unpack_idx :: "u64 \<Rightarrow> VersionIdx option" where
  "unpack_idx raw = (if raw = CHAIN_HEAD_EMPTY then None else Some (version_pointer_to_idx raw))"

section \<open>The store\<close>

record VersionStore =
  vs_arena :: VersionArena
  vs_heads :: "u32 \<Rightarrow> u64 option"

definition VersionStore_new :: VersionStore where
  "VersionStore_new = \<lparr>vs_arena = VersionArena_new, vs_heads = \<lambda>_. None\<rparr>"

definition visible :: "PageVersion \<Rightarrow> u64 \<Rightarrow> bool" where
  "visible version high \<longleftrightarrow> pv_commit_seq version - 1 < high"

definition get_head :: "VersionStore \<Rightarrow> u32 \<Rightarrow> VersionIdx option" where
  "get_head s pgno = Option.bind (vs_heads s pgno) unpack_idx"

definition publish :: "PageVersion \<Rightarrow> VersionStore \<Rightarrow> (VersionIdx \<times> VersionStore) option" where
  "publish version s =
     (let pgno = pv_pgno version;
          current_raw = (case vs_heads s pgno of Some raw \<Rightarrow> raw | None \<Rightarrow> CHAIN_HEAD_EMPTY) in
      do { (idx, arena1) \<leftarrow> arena_alloc version (vs_arena s);
           new_raw \<leftarrow> pack_idx idx;
           prev \<leftarrow> (case unpack_idx current_raw of
                     None \<Rightarrow> Some None
                   | Some p \<Rightarrow> map_option Some (idx_to_version_pointer p));
           v \<leftarrow> arena_get arena1 idx;
           arena2 \<leftarrow> arena_set idx (v\<lparr>pv_prev := prev\<rparr>) arena1;
           Some (idx, \<lparr>vs_arena = arena2, vs_heads = (vs_heads s)(pgno \<mapsto> new_raw)\<rparr>) })"

partial_function (option) resolve_walk ::
  "VersionArena \<Rightarrow> u64 \<Rightarrow> VersionIdx \<Rightarrow> nat \<Rightarrow> (VersionIdx option \<times> nat) option" where
  "resolve_walk arena high current_idx traversed =
     (case arena_get arena current_idx of
        None \<Rightarrow> None
      | Some version \<Rightarrow>
          if visible version high then Some (Some current_idx, Suc traversed)
          else (case pv_prev version of
                  None \<Rightarrow> Some (None, Suc traversed)
                | Some prev_ptr \<Rightarrow>
                    resolve_walk arena high (version_pointer_to_idx prev_ptr) (Suc traversed)))"

definition resolve_with_trace :: "VersionStore \<Rightarrow> u32 \<Rightarrow> u64 \<Rightarrow> (VersionIdx option \<times> nat) option" where
  "resolve_with_trace s page high =
     (case get_head s page of
        None \<Rightarrow> Some (None, 0)
      | Some head_idx \<Rightarrow> resolve_walk (vs_arena s) high head_idx 0)"

definition resolve :: "VersionStore \<Rightarrow> u32 \<Rightarrow> u64 \<Rightarrow> VersionIdx option option" where
  "resolve s page high = map_option fst (resolve_with_trace s page high)"

definition get_version :: "VersionStore \<Rightarrow> VersionIdx \<Rightarrow> PageVersion option" where
  "get_version s idx = arena_get (vs_arena s) idx"

partial_function (option) visible_walk ::
  "VersionArena \<Rightarrow> u64 \<Rightarrow> VersionIdx \<Rightarrow> PageVersion option option" where
  "visible_walk arena high current_idx =
     (case arena_get arena current_idx of
        None \<Rightarrow> None
      | Some version \<Rightarrow>
          if visible version high then Some (Some version)
          else (case pv_prev version of
                  None \<Rightarrow> Some None
                | Some prev_ptr \<Rightarrow> visible_walk arena high (version_pointer_to_idx prev_ptr)))"

definition resolve_visible_version :: "VersionStore \<Rightarrow> u32 \<Rightarrow> u64 \<Rightarrow> PageVersion option option" where
  "resolve_visible_version s page high =
     (case get_head s page of None \<Rightarrow> Some None | Some head_idx \<Rightarrow> visible_walk (vs_arena s) high head_idx)"

partial_function (option) commit_seq_walk :: "VersionArena \<Rightarrow> u64 \<Rightarrow> VersionIdx \<Rightarrow> u64 option option" where
  "commit_seq_walk arena high current_idx =
     (case arena_get arena current_idx of
        None \<Rightarrow> None
      | Some version \<Rightarrow>
          if visible version high then Some (Some (pv_commit_seq version))
          else (case pv_prev version of
                  None \<Rightarrow> Some None
                | Some prev_ptr \<Rightarrow> commit_seq_walk arena high (version_pointer_to_idx prev_ptr)))"

definition resolve_visible_commit_seq :: "VersionStore \<Rightarrow> u32 \<Rightarrow> u64 \<Rightarrow> u64 option option" where
  "resolve_visible_commit_seq s page high =
     (case get_head s page of None \<Rightarrow> Some None | Some head_idx \<Rightarrow> commit_seq_walk (vs_arena s) high head_idx)"

definition chain_head_version :: "VersionStore \<Rightarrow> u32 \<Rightarrow> PageVersion option option" where
  "chain_head_version s page =
     (case get_head s page of
        None \<Rightarrow> Some None
      | Some head_idx \<Rightarrow> map_option Some (arena_get (vs_arena s) head_idx))"

partial_function (option) chain_walk ::
  "VersionArena \<Rightarrow> VersionIdx \<Rightarrow> PageVersion list \<Rightarrow> PageVersion list option" where
  "chain_walk arena current_idx result =
     (case arena_get arena current_idx of
        None \<Rightarrow> None
      | Some version \<Rightarrow>
          (case pv_prev version of
             None \<Rightarrow> Some (result @ [version])
           | Some ptr \<Rightarrow> chain_walk arena (version_pointer_to_idx ptr) (result @ [version])))"

definition walk_chain :: "VersionStore \<Rightarrow> u32 \<Rightarrow> PageVersion list option" where
  "walk_chain s page =
     (case get_head s page of None \<Rightarrow> Some [] | Some head_idx \<Rightarrow> chain_walk (vs_arena s) head_idx [])"

section \<open>Garbage collection\<close>

text \<open>The walk to the first version at or below the horizon; a broken chain stops it.\<close>

partial_function (option) sever_walk ::
  "VersionArena \<Rightarrow> u64 \<Rightarrow> VersionIdx option \<Rightarrow> VersionIdx option option" where
  "sever_walk arena horizon cur_idx =
     (case cur_idx of
        None \<Rightarrow> Some None
      | Some idx \<Rightarrow>
          (case arena_get arena idx of
             None \<Rightarrow> Some None
           | Some version \<Rightarrow>
               if pv_commit_seq version \<le> horizon then Some (Some idx)
               else sever_walk arena horizon (map_option version_pointer_to_idx (pv_prev version))))"

record PruneResult =
  pr_freed :: nat
  pr_head_removed :: bool
  pr_pruned_keys :: "(u32 \<times> u64) list"
  pr_pruned_indices :: "VersionIdx list"

definition nothing_pruned :: PruneResult where
  "nothing_pruned = \<lparr>pr_freed = 0, pr_head_removed = False, pr_pruned_keys = [], pr_pruned_indices = []\<rparr>"

partial_function (option) retire_loop ::
  "VersionArena \<Rightarrow> u32 \<Rightarrow> VersionIdx option \<Rightarrow> PruneResult \<Rightarrow> (VersionArena \<times> PruneResult) option" where
  "retire_loop arena pgno current r =
     (case current of
        None \<Rightarrow> Some (arena, r)
      | Some idx \<Rightarrow>
          (case take_for_retirement idx arena of
             None \<Rightarrow> None
           | Some (retired, arena') \<Rightarrow>
               retire_loop arena' pgno (map_option version_pointer_to_idx (pv_prev retired))
                 (r\<lparr>pr_pruned_keys := pr_pruned_keys r @ [(pgno, pv_commit_seq retired)],
                    pr_pruned_indices := pr_pruned_indices r @ [idx],
                    pr_freed := pr_freed r + 1\<rparr>)))"

definition prune_page_chain :: "u32 \<Rightarrow> u64 \<Rightarrow> VersionStore \<Rightarrow> (VersionStore \<times> PruneResult) option" where
  "prune_page_chain pgno horizon s =
     (case get_head s pgno of
        None \<Rightarrow> Some (s, nothing_pruned)
      | Some head_idx \<Rightarrow>
          do { sever \<leftarrow> sever_walk (vs_arena s) horizon (Some head_idx);
               (case sever of
                  None \<Rightarrow> Some (s, nothing_pruned)
                | Some sever_at \<Rightarrow>
                    do { version \<leftarrow> arena_get (vs_arena s) sever_at;
                         let tail_idx = map_option version_pointer_to_idx (pv_prev version);
                         arena1 \<leftarrow> arena_set sever_at (version\<lparr>pv_prev := None\<rparr>) (vs_arena s);
                         (arena2, result) \<leftarrow> retire_loop arena1 pgno tail_idx nothing_pruned;
                         Some (s\<lparr>vs_arena := arena2\<rparr>, result) }) })"

record GcTodo =
  gt_queue :: "u32 list"
  gt_in_queue :: "u32 set"

definition gt_enqueue :: "u32 \<Rightarrow> GcTodo \<Rightarrow> GcTodo" where
  "gt_enqueue pgno t =
     (if pgno \<in> gt_in_queue t then t
      else \<lparr>gt_queue = gt_queue t @ [pgno], gt_in_queue = insert pgno (gt_in_queue t)\<rparr>)"

definition gt_pop :: "GcTodo \<Rightarrow> (u32 \<times> GcTodo) option" where
  "gt_pop t =
     (case gt_queue t of
        [] \<Rightarrow> None
      | pgno # q \<Rightarrow> Some (pgno, \<lparr>gt_queue = q, gt_in_queue = gt_in_queue t - {pgno}\<rparr>))"

definition GC_PAGES_BUDGET :: nat where
  "GC_PAGES_BUDGET = 64"

definition GC_VERSIONS_BUDGET :: nat where
  "GC_VERSIONS_BUDGET = 4096"

record GcTickResult =
  gr_pages_pruned :: nat
  gr_versions_freed :: nat
  gr_versions_budget_exhausted :: bool
  gr_pages_budget_exhausted :: bool
  gr_queue_remaining :: nat
  gr_pruned_keys :: "(u32 \<times> u64) list"
  gr_pruned_indices :: "VersionIdx list"

text \<open>The loop of a tick; its result is reported once the loop has ended.\<close>

function gc_loop ::
  "u64 \<Rightarrow> nat \<Rightarrow> nat \<Rightarrow> GcTodo \<Rightarrow> VersionStore \<Rightarrow> GcTickResult \<Rightarrow> (VersionStore \<times> GcTodo \<times> GcTickResult) option" where
  "gc_loop horizon pages_budget versions_budget todo s acc =
     (if pages_budget > 0 \<and> versions_budget > 0 \<and> gt_queue todo \<noteq> [] then
        (case gt_pop todo of
           None \<Rightarrow> None
         | Some (pgno, todo') \<Rightarrow>
             (case prune_page_chain pgno horizon s of
                None \<Rightarrow> None
              | Some (s', result) \<Rightarrow>
                  gc_loop horizon (pages_budget - 1) (versions_budget - pr_freed result) todo' s'
                    (acc\<lparr>gr_versions_freed := gr_versions_freed acc + pr_freed result,
                        gr_pruned_keys := gr_pruned_keys acc @ pr_pruned_keys result,
                        gr_pruned_indices := gr_pruned_indices acc @ pr_pruned_indices result,
                        gr_pages_pruned := gr_pages_pruned acc + 1\<rparr>)))
      else Some (s, todo,
        acc\<lparr>gr_versions_budget_exhausted := versions_budget = 0 \<and> gt_queue todo \<noteq> [],
            gr_pages_budget_exhausted := pages_budget = 0 \<and> gt_queue todo \<noteq> [],
            gr_queue_remaining := length (gt_queue todo)\<rparr>))"
  by pat_completeness auto
termination
  by (relation "measure (\<lambda>(_, pages_budget, _). pages_budget)") auto

declare gc_loop.simps [simp del]

definition tick_start :: GcTickResult where
  "tick_start =
     \<lparr>gr_pages_pruned = 0, gr_versions_freed = 0, gr_versions_budget_exhausted = False,
      gr_pages_budget_exhausted = False, gr_queue_remaining = 0, gr_pruned_keys = [], gr_pruned_indices = []\<rparr>"

definition gc_tick :: "GcTodo \<Rightarrow> u64 \<Rightarrow> VersionStore \<Rightarrow> (VersionStore \<times> GcTodo \<times> GcTickResult) option" where
  "gc_tick todo horizon s = gc_loop horizon GC_PAGES_BUDGET GC_VERSIONS_BUDGET todo s tick_start"

section \<open>Packing is faithful\<close>

lemma pointer_roundtrip:
  assumes "idx_ok i"
  obtains p where "idx_to_version_pointer i = Some p" "version_pointer_to_idx p = i" "p \<noteq> CHAIN_HEAD_EMPTY"
proof -
  let ?c = "vi_chunk i" and ?o = "vi_offset i" and ?g = "vi_generation i"
  define p where "p = push_bit 32 (ucast ?g) OR push_bit 12 (ucast ?c) OR (ucast ?o :: u64)"
  have le: "(ucast ?c :: u64) \<le> 0xFFFFF" "(ucast ?o :: u64) \<le> 0xFFF"
    using assms by (simp_all add: idx_ok_def word_le_nat_alt)
  have c: "take_bit 20 ?c = ?c" and off: "take_bit 12 ?o = ?o"
    using assms by (auto simp: idx_ok_def intro!: take_bit_unat_self)
  have cb: "bit ?c n \<Longrightarrow> n < 20" for n using c by (metis bit_take_bit_iff)
  have ob: "bit ?o n \<Longrightarrow> n < 12" for n using off by (metis bit_take_bit_iff)
  have m20: "(0xFFFFF :: u64) = mask 20" and m12: "(0xFFF :: u64) = mask 12" by (simp_all add: mask_eq_exp_minus_1)
  have "ucast (drop_bit 12 p AND 0xFFFFF) = ?c"
    unfolding m20 take_bit_eq_mask [symmetric] p_def
    by (rule bit_word_eqI) (auto simp: bit_simps dest: cb ob)
  moreover have "ucast (p AND 0xFFF) = ?o"
    unfolding m12 take_bit_eq_mask [symmetric] p_def
    by (rule bit_word_eqI) (auto simp: bit_simps dest: ob)
  moreover have g: "ucast (drop_bit 32 p) = ?g"
    unfolding p_def by (rule bit_word_eqI) (auto simp: bit_simps dest: cb ob)
  ultimately have "version_pointer_to_idx p = i" by (cases i) (simp add: version_pointer_to_idx_def)
  moreover have "p \<noteq> CHAIN_HEAD_EMPTY"
  proof
    assume "p = CHAIN_HEAD_EMPTY"
    then have "(ucast (drop_bit 32 p) :: u32) = - 1"
      by (intro bit_word_eqI) (simp add: CHAIN_HEAD_EMPTY_def bit_simps)
    then show False using g assms by (simp add: idx_ok_def)
  qed
  moreover have "idx_to_version_pointer i = Some p" using le by (simp add: idx_to_version_pointer_def p_def)
  ultimately show thesis by (intro that)
qed

lemma pack_idx_eq: "pack_idx = idx_to_version_pointer"
  by (simp add: fun_eq_iff pack_idx_def idx_to_version_pointer_def)

section \<open>Version chains\<close>

fun chain_from :: "(VersionIdx \<Rightarrow> PageVersion option) \<Rightarrow> VersionIdx option \<Rightarrow> (VersionIdx \<times> PageVersion) list \<Rightarrow> bool" where
  "chain_from g h [] \<longleftrightarrow> h = None"
| "chain_from g h ((i, v) # cs) \<longleftrightarrow>
     h = Some i \<and> g i = Some v \<and> chain_from g (map_option version_pointer_to_idx (pv_prev v)) cs"

definition newer :: "VersionIdx \<times> PageVersion \<Rightarrow> VersionIdx \<times> PageVersion \<Rightarrow> bool" where
  "newer a b \<longleftrightarrow> pv_commit_seq (snd a) > pv_commit_seq (snd b)"

text \<open>A store \<open>s\<close> represents the chains \<open>C\<close>: every head leads through live handles along the
  chain of its page, whose versions belong to that page, are committed and get strictly older.\<close>

definition store_rep :: "VersionStore \<Rightarrow> (u32 \<Rightarrow> (VersionIdx \<times> PageVersion) list) \<Rightarrow> bool" where
  "store_rep s C \<longleftrightarrow>
     arena_inv (vs_arena s) \<and>
     (\<forall>p. chain_from (arena_get (vs_arena s)) (get_head s p) (C p) \<and> sorted_wrt newer (C p) \<and>
        (\<forall>(i, v) \<in> set (C p). pv_pgno v = p \<and> pv_commit_seq v \<noteq> 0))"

lemma chain_from_live: "chain_from g h cs \<Longrightarrow> (i, v) \<in> set cs \<Longrightarrow> g i = Some v"
  by (induction g h cs rule: chain_from.induct) auto

lemma chain_from_cong: "chain_from g h cs \<Longrightarrow> (\<And>i. i \<in> fst ` set cs \<Longrightarrow> g' i = g i) \<Longrightarrow> chain_from g' h cs"
  by (induction g h cs rule: chain_from.induct) auto

lemma chain_distinct: "chain_from g h cs \<Longrightarrow> sorted_wrt newer cs \<Longrightarrow> distinct (map fst cs)"
proof (induction g h cs rule: chain_from.induct)
  case (2 g h i v cs)
  have "i \<notin> fst ` set cs"
  proof
    assume "i \<in> fst ` set cs"
    then obtain w where w: "(i, w) \<in> set cs" by auto
    then have "w = v" using chain_from_live [of g _ cs i w] 2 by auto
    then show False using w 2 by (auto simp: newer_def)
  qed
  then show ?case using 2 by simp
qed simp

lemma store_rep_disjoint:
  assumes "store_rep s C" "(i, v) \<in> set (C p)" "(i, w) \<in> set (C q)"
  shows "p = q" "v = w"
proof -
  have "arena_get (vs_arena s) i = Some v" "arena_get (vs_arena s) i = Some w"
    using assms chain_from_live unfolding store_rep_def by blast+
  then show "v = w" by simp
  moreover have "pv_pgno v = p" "pv_pgno w = q" using assms unfolding store_rep_def by blast+
  ultimately show "p = q" by simp
qed

lemma store_rep_new: "store_rep VersionStore_new (\<lambda>_. [])"
  by (simp add: store_rep_def VersionStore_new_def get_head_def arena_inv_new)

section \<open>Reading a chain\<close>

lemma resolve_walk_chain:
  "chain_from (arena_get a) (Some i) cs \<Longrightarrow>
   resolve_walk a high i n =
     Some (map_option fst (find (\<lambda>(_, v). visible v high) cs),
           n + (case find (\<lambda>(_, v). visible v high) cs of
                  None \<Rightarrow> length cs | Some _ \<Rightarrow> Suc (length (takeWhile (\<lambda>(_, v). \<not> visible v high) cs))))"
proof (induction cs arbitrary: i n)
  case (Cons c cs)
  obtain v where c: "c = (i, v)" using Cons.prems by (cases c) auto
  then have g: "arena_get a i = Some v"
    and ch: "chain_from (arena_get a) (map_option version_pointer_to_idx (pv_prev v)) cs" using Cons.prems by auto
  show ?case
  proof (cases "visible v high \<or> pv_prev v = None")
    case True
    then show ?thesis using c g ch by (cases cs) (auto simp: resolve_walk.simps [of a high i])
  next
    case False
    then obtain ptr where ptr: "pv_prev v = Some ptr" "\<not> visible v high" by auto
    then have "resolve_walk a high i n = resolve_walk a high (version_pointer_to_idx ptr) (Suc n)"
      using g by (simp add: resolve_walk.simps [of a high i])
    then show ?thesis using Cons.IH [of "version_pointer_to_idx ptr" "Suc n"] ch ptr c
      by (auto split: option.splits)
  qed
qed simp

lemma visible_walk_chain:
  "chain_from (arena_get a) (Some i) cs \<Longrightarrow>
   visible_walk a high i = Some (map_option snd (find (\<lambda>(_, v). visible v high) cs))"
proof (induction cs arbitrary: i)
  case (Cons c cs)
  obtain v where c: "c = (i, v)" using Cons.prems by (cases c) auto
  then have "arena_get a i = Some v"
    and "chain_from (arena_get a) (map_option version_pointer_to_idx (pv_prev v)) cs" using Cons.prems by auto
  then show ?case
    using Cons.IH c by (cases "pv_prev v"; cases cs) (auto simp: visible_walk.simps [of a high i])
qed simp

lemma commit_seq_walk_chain:
  "chain_from (arena_get a) (Some i) cs \<Longrightarrow>
   commit_seq_walk a high i = Some (map_option (\<lambda>c. pv_commit_seq (snd c)) (find (\<lambda>(_, v). visible v high) cs))"
proof (induction cs arbitrary: i)
  case (Cons c cs)
  obtain v where c: "c = (i, v)" using Cons.prems by (cases c) auto
  then have "arena_get a i = Some v"
    and "chain_from (arena_get a) (map_option version_pointer_to_idx (pv_prev v)) cs" using Cons.prems by auto
  then show ?case
    using Cons.IH c by (cases "pv_prev v"; cases cs) (auto simp: commit_seq_walk.simps [of a high i])
qed simp

lemma chain_walk_chain:
  "chain_from (arena_get a) (Some i) cs \<Longrightarrow> chain_walk a i acc = Some (acc @ map snd cs)"
proof (induction cs arbitrary: i acc)
  case (Cons c cs)
  obtain v where c: "c = (i, v)" using Cons.prems by (cases c) auto
  then have "arena_get a i = Some v"
    and "chain_from (arena_get a) (map_option version_pointer_to_idx (pv_prev v)) cs" using Cons.prems by auto
  then show ?case
    using Cons.IH c by (cases "pv_prev v"; cases cs) (auto simp: chain_walk.simps [of a i])
qed simp

section \<open>Visibility\<close>

lemma visible_iff: "visible v high \<longleftrightarrow> pv_commit_seq v \<noteq> 0 \<and> pv_commit_seq v \<le> high"
proof (cases "pv_commit_seq v = 0")
  case True
  then show ?thesis by (simp add: visible_def word_less_nat_alt unsigned_minus_1_eq_mask mask_eq_exp_minus_1)
    (use unat_u64_less [of high] in simp)
next
  case False
  then have "unat (pv_commit_seq v - 1) = unat (pv_commit_seq v) - 1"
    by (metis unat_eq_zero unat_minus_one)
  moreover have "unat (pv_commit_seq v) \<noteq> 0" using False by (simp add: unat_eq_0)
  ultimately show ?thesis using False by (auto simp: visible_def word_less_nat_alt word_le_nat_alt)
qed

section \<open>Publishing puts a version in front\<close>

lemma get_head_raw:
  "unpack_idx (case vs_heads s p of Some raw \<Rightarrow> raw | None \<Rightarrow> CHAIN_HEAD_EMPTY) = get_head s p"
  by (cases "vs_heads s p") (simp_all add: get_head_def unpack_idx_def)

lemma head_pointer:
  assumes "store_rep s C"
  obtains prev where "(case get_head s p of None \<Rightarrow> Some None | Some i \<Rightarrow> map_option Some (idx_to_version_pointer i)) = Some prev"
    "map_option version_pointer_to_idx prev = get_head s p"
proof (cases "get_head s p")
  case (Some i)
  then obtain v where "arena_get (vs_arena s) i = Some v"
    using assms by (cases "C p") (auto simp: store_rep_def dest: spec [of _ p])
  then have "idx_ok i" using assms arena.valid_live by (auto simp: store_rep_def)
  then obtain q where "idx_to_version_pointer i = Some q" "version_pointer_to_idx q = i" by (rule pointer_roundtrip)
  then show ?thesis using Some by (intro that [of "Some q"]) simp_all
qed (use that [of None] in simp)

lemma store_rep_chain: "store_rep s C \<Longrightarrow> chain_from (arena_get (vs_arena s)) (get_head s p) (C p)"
  by (simp add: store_rep_def)

lemma store_rep_sorted: "store_rep s C \<Longrightarrow> sorted_wrt newer (C p)"
  by (simp add: store_rep_def)

lemma store_rep_committed: "store_rep s C \<Longrightarrow> \<forall>(i, v) \<in> set (C p). pv_commit_seq v \<noteq> 0"
  unfolding store_rep_def by blast

lemma publish_rep:
  assumes rep: "store_rep s C" and room: "arena_room (vs_arena s)" and seq: "pv_commit_seq ver \<noteq> 0"
    and new: "\<forall>(i, w) \<in> set (C (pv_pgno ver)). pv_commit_seq w < pv_commit_seq ver"
  shows "\<exists>i s' prev. publish ver s = Some (i, s') \<and> arena_get (vs_arena s) i = None \<and>
      store_rep s' (C(pv_pgno ver := (i, ver\<lparr>pv_prev := prev\<rparr>) # C (pv_pgno ver)))"
proof -
  let ?p = "pv_pgno ver" and ?g = "arena_get (vs_arena s)"
  have inv: "arena_inv (vs_arena s)" using rep by (simp add: store_rep_def)
  obtain i a1 where a1: "arena_alloc ver (vs_arena s) = Some (i, a1)" "arena_inv a1" "?g i = None"
    "arena_get a1 = ?g(i \<mapsto> ver)" "idx_ok i"
    by (rule arena.allocE [OF inv room])
  obtain prev where prev: "(case get_head s ?p of None \<Rightarrow> Some None | Some i \<Rightarrow> map_option Some (idx_to_version_pointer i)) = Some prev"
    "map_option version_pointer_to_idx prev = get_head s ?p"
    by (rule head_pointer [OF rep])
  let ?v = "ver\<lparr>pv_prev := prev\<rparr>"
  have "arena_get a1 i = Some ver" using a1 by simp
  then obtain a2 where a2: "arena_set i ?v a1 = Some a2" "arena_inv a2" "arena_get a2 = (arena_get a1)(i \<mapsto> ?v)"
    by (rule arena.updE [OF a1(2)])
  obtain raw where raw: "idx_to_version_pointer i = Some raw" "version_pointer_to_idx raw = i" "raw \<noteq> CHAIN_HEAD_EMPTY"
    by (rule pointer_roundtrip [OF a1(5)])
  let ?s = "\<lparr>vs_arena = a2, vs_heads = (vs_heads s)(?p \<mapsto> raw)\<rparr>"
  have pub: "publish ver s = Some (i, ?s)"
    using a1 a2 prev raw by (simp add: publish_def Let_def get_head_raw pack_idx_eq)
  have g2: "arena_get a2 = ?g(i \<mapsto> ?v)" using a1 a2 by simp
  have heads: "get_head ?s q = (if q = ?p then Some i else get_head s q)" for q
    using raw by (simp add: get_head_def unpack_idx_def)
  have fresh: "i \<notin> fst ` set (C q)" for q
  proof
    assume "i \<in> fst ` set (C q)"
    then obtain w where "(i, w) \<in> set (C q)" by auto
    then have "?g i = Some w" by (rule chain_from_live [OF store_rep_chain [OF rep]])
    then show False using a1(3) by simp
  qed
  have keep: "chain_from (arena_get a2) (get_head s q) (C q)" for q
    using fresh [of q] by (intro chain_from_cong [OF store_rep_chain [OF rep]]) (auto simp: g2)
  have "store_rep ?s (C(?p := (i, ?v) # C ?p))"
    unfolding store_rep_def
  proof (intro conjI allI)
    fix q
    show "chain_from (arena_get (vs_arena ?s)) (get_head ?s q) ((C(?p := (i, ?v) # C ?p)) q)"
      using keep [of q] keep [of ?p] heads [of q] prev(2) g2 by simp
    show "sorted_wrt newer ((C(?p := (i, ?v) # C ?p)) q)"
      using rep new by (auto simp: store_rep_def newer_def)
    show "\<forall>(j, w) \<in> set ((C(?p := (i, ?v) # C ?p)) q). pv_pgno w = q \<and> pv_commit_seq w \<noteq> 0"
      using rep seq by (auto simp: store_rep_def)
  qed (use a2 in simp)
  then show ?thesis using pub a1(3) by blast
qed

section \<open>Pruning keeps what a snapshot can see\<close>

fun keep_until :: "u64 \<Rightarrow> (VersionIdx \<times> PageVersion) list \<Rightarrow> (VersionIdx \<times> PageVersion) list" where
  "keep_until horizon [] = []"
| "keep_until horizon ((i, v) # cs) =
     (if pv_commit_seq v \<le> horizon then [(i, v\<lparr>pv_prev := None\<rparr>)] else (i, v) # keep_until horizon cs)"

lemma sever_walk_chain:
  "chain_from (arena_get a) h cs \<Longrightarrow>
   sever_walk a horizon h = Some (map_option fst (find (\<lambda>(_, v). pv_commit_seq v \<le> horizon) cs))"
proof (induction cs arbitrary: h)
  case (Cons c cs)
  obtain i v where c: "c = (i, v)" by (cases c)
  then show ?case using Cons by (simp add: sever_walk.simps [of a horizon "Some i"])
qed (simp add: sever_walk.simps)

text \<open>What the retire loop reports of a chain suffix.\<close>

definition report :: "u32 \<Rightarrow> (VersionIdx \<times> PageVersion) list \<Rightarrow> PruneResult \<Rightarrow> PruneResult" where
  "report pgno cs r =
     r\<lparr>pr_freed := pr_freed r + length cs,
       pr_pruned_keys := pr_pruned_keys r @ map (\<lambda>(i, v). (pgno, pv_commit_seq v)) cs,
       pr_pruned_indices := pr_pruned_indices r @ map fst cs\<rparr>"

lemma report_Nil [simp]: "report pgno [] r = r"
  by (simp add: report_def)

lemma report_Cons:
  "report pgno ((i, v) # cs) r =
   report pgno cs (r\<lparr>pr_pruned_keys := pr_pruned_keys r @ [(pgno, pv_commit_seq v)],
     pr_pruned_indices := pr_pruned_indices r @ [i], pr_freed := pr_freed r + 1\<rparr>)"
  by (simp add: report_def)

lemma retire_loop_chain:
  "arena_inv a \<Longrightarrow> chain_from (arena_get a) h cs \<Longrightarrow> distinct (map fst cs) \<Longrightarrow>
   \<exists>a'. retire_loop a pgno h r = Some (a', report pgno cs r) \<and> arena_inv a' \<and>
     arena_get a' = (\<lambda>i. if i \<in> fst ` set cs then None else arena_get a i)"
proof (induction cs arbitrary: a h r)
  case (Cons c cs)
  obtain i v where c: "c = (i, v)" by (cases c)
  then have g: "arena_get a i = Some v" and h: "h = Some i"
    and ch: "chain_from (arena_get a) (map_option version_pointer_to_idx (pv_prev v)) cs" using Cons.prems by auto
  obtain a1 where a1: "take_for_retirement i a = Some (v, a1)" "arena_inv a1" "arena_get a1 = (arena_get a)(i := None)"
    by (rule arena.retireE [OF Cons.prems(1) g])
  have "chain_from (arena_get a1) (map_option version_pointer_to_idx (pv_prev v)) cs"
    using Cons.prems(3) c a1(3) by (intro chain_from_cong [OF ch]) auto
  then obtain a' where a': "retire_loop a1 pgno (map_option version_pointer_to_idx (pv_prev v))
      (r\<lparr>pr_pruned_keys := pr_pruned_keys r @ [(pgno, pv_commit_seq v)],
         pr_pruned_indices := pr_pruned_indices r @ [i], pr_freed := pr_freed r + 1\<rparr>) =
      Some (a', report pgno (c # cs) r)" "arena_inv a'"
    "arena_get a' = (\<lambda>j. if j \<in> fst ` set cs then None else arena_get a1 j)"
    using Cons.IH [OF a1(2)] Cons.prems(3) unfolding c report_Cons by fastforce
  then have "arena_get a' = (\<lambda>j. if j \<in> fst ` set (c # cs) then None else arena_get a j)"
    using a1(3) c by auto
  then show ?case using a1(1) a' h by (simp add: retire_loop.simps [of a pgno "Some i" r])
qed (auto simp: retire_loop.simps)

lemma find_split: "find P xs = Some x \<Longrightarrow> \<exists>ys zs. xs = ys @ x # zs \<and> P x \<and> (\<forall>y \<in> set ys. \<not> P y)"
proof (induction xs)
  case (Cons a xs)
  show ?case
  proof (cases "P a")
    case True
    then show ?thesis using Cons.prems by (intro exI [of _ "[]"] exI [of _ xs]) simp
  next
    case False
    then obtain ys zs where "xs = ys @ x # zs" "P x" "\<forall>y \<in> set ys. \<not> P y" using Cons by auto
    then show ?thesis using False by (intro exI [of _ "a # ys"] exI [of _ zs]) simp
  qed
qed simp

lemma chain_from_split:
  "chain_from g h (ys @ (i, v) # zs) \<Longrightarrow>
   g i = Some v \<and> chain_from g (map_option version_pointer_to_idx (pv_prev v)) zs"
  by (induction g h ys rule: chain_from.induct) auto

lemma chain_from_sever:
  "chain_from g h (ys @ (i, v) # zs) \<Longrightarrow> (\<And>j. j \<in> fst ` set ys \<Longrightarrow> g' j = g j) \<Longrightarrow>
   g' i = Some (v\<lparr>pv_prev := None\<rparr>) \<Longrightarrow> chain_from g' h (ys @ [(i, v\<lparr>pv_prev := None\<rparr>)])"
  by (induction g h ys rule: chain_from.induct) auto

lemma keep_until_split:
  "pv_commit_seq v \<le> horizon \<Longrightarrow> \<forall>y \<in> set ys. \<not> (case y of (_, v) \<Rightarrow> pv_commit_seq v \<le> horizon) \<Longrightarrow>
   keep_until horizon (ys @ (i, v) # zs) = ys @ [(i, v\<lparr>pv_prev := None\<rparr>)]"
  by (induction ys) auto

lemma keep_until_none:
  "\<forall>y \<in> set ys. \<not> (case y of (_, v) \<Rightarrow> pv_commit_seq v \<le> horizon) \<Longrightarrow> keep_until horizon ys = ys"
  by (induction ys) auto

lemma keep_until_in:
  "(i, w) \<in> set (keep_until horizon cs) \<Longrightarrow>
     \<exists>v. (i, v) \<in> set cs \<and> pv_pgno w = pv_pgno v \<and> pv_commit_seq w = pv_commit_seq v \<and> pv_data w = pv_data v"
  by (induction horizon cs rule: keep_until.induct) (auto split: if_splits)

lemma keep_until_sorted: "sorted_wrt newer cs \<Longrightarrow> sorted_wrt newer (keep_until horizon cs)"
proof (induction horizon cs rule: keep_until.induct)
  case (2 horizon i v cs)
  have "pv_commit_seq w < pv_commit_seq v" if "(j, w) \<in> set (keep_until horizon cs)" for j w
    using keep_until_in [OF that] "2.prems" by (fastforce simp: newer_def)
  then show ?case using 2 by (auto simp: newer_def)
qed simp

lemma prune_rep:
  assumes rep: "store_rep s C"
  shows "\<exists>s' pruned. prune_page_chain p horizon s = Some (s', pruned) \<and>
      store_rep s' (C(p := keep_until horizon (C p))) \<and>
      pruned = report p (drop (length (keep_until horizon (C p))) (C p)) nothing_pruned \<and>
      (\<forall>i \<in> set (pr_pruned_indices pruned). get_version s' i = None)"
proof (cases "find (\<lambda>(_, v). pv_commit_seq v \<le> horizon) (C p)")
  case None
  then have "keep_until horizon (C p) = C p" by (intro keep_until_none) (auto simp: find_None_iff)
  moreover have "prune_page_chain p horizon s = Some (s, nothing_pruned)"
    using sever_walk_chain [OF store_rep_chain [OF rep, of p], of horizon] None
    by (auto simp: prune_page_chain_def split: option.splits)
  ultimately show ?thesis using rep by (simp add: nothing_pruned_def)
next
  case (Some c)
  obtain i v ys zs where Cp: "C p = ys @ (i, v) # zs" and c: "c = (i, v)" and old: "pv_commit_seq v \<le> horizon"
    and young: "\<forall>y \<in> set ys. \<not> (case y of (_, v) \<Rightarrow> pv_commit_seq v \<le> horizon)"
    using find_split [OF Some] by (cases c) auto
  let ?g = "arena_get (vs_arena s)" and ?v = "v\<lparr>pv_prev := None\<rparr>"
  have keep: "keep_until horizon (C p) = ys @ [(i, ?v)]" unfolding Cp using old young by (rule keep_until_split)
  have inv: "arena_inv (vs_arena s)" using rep by (simp add: store_rep_def)
  have ch: "chain_from ?g (get_head s p) (ys @ (i, v) # zs)" using store_rep_chain [OF rep, of p] Cp by simp
  have dist: "distinct (map fst (ys @ (i, v) # zs))"
    using chain_distinct [OF store_rep_chain [OF rep] store_rep_sorted [OF rep], of p] Cp by simp
  have gi: "?g i = Some v" and tl: "chain_from ?g (map_option version_pointer_to_idx (pv_prev v)) zs"
    using chain_from_split [OF ch] by auto
  obtain a1 where a1: "arena_set i ?v (vs_arena s) = Some a1" "arena_inv a1" "arena_get a1 = ?g(i \<mapsto> ?v)"
    by (rule arena.updE [OF inv gi])
  have tl1: "chain_from (arena_get a1) (map_option version_pointer_to_idx (pv_prev v)) zs"
    using dist a1(3) by (intro chain_from_cong [OF tl]) auto
  obtain a2 where a2: "retire_loop a1 p (map_option version_pointer_to_idx (pv_prev v)) nothing_pruned =
      Some (a2, report p zs nothing_pruned)" "arena_inv a2"
    "arena_get a2 = (\<lambda>j. if j \<in> fst ` set zs then None else arena_get a1 j)"
    using retire_loop_chain [OF a1(2) tl1, of p nothing_pruned] dist by auto
  let ?s = "s\<lparr>vs_arena := a2\<rparr>"
  obtain h where h: "get_head s p = Some h" using ch by (cases ys) auto
  have sw: "sever_walk (vs_arena s) horizon (Some h) = Some (Some i)"
    using sever_walk_chain [OF store_rep_chain [OF rep, of p], of horizon] Some c h by simp
  have prune: "prune_page_chain p horizon s = Some (?s, report p zs nothing_pruned)"
    using h sw gi a1(1) a2(1) by (simp add: prune_page_chain_def Let_def)
  have other: "chain_from (arena_get a2) (get_head s q) (C q)" if "q \<noteq> p" for q
  proof (intro chain_from_cong [OF store_rep_chain [OF rep]])
    fix j assume "j \<in> fst ` set (C q)"
    then have "j \<notin> fst ` set (C p)" using store_rep_disjoint(1) [OF rep, of j _ q _ p] that by auto
    then show "arena_get a2 j = ?g j" using a1(3) a2(3) Cp by auto
  qed
  have this_page: "chain_from (arena_get a2) (get_head s p) (ys @ [(i, ?v)])"
    using dist a1(3) a2(3) by (intro chain_from_sever [OF ch]) auto
  have heads: "get_head ?s = get_head s" by (simp add: fun_eq_iff get_head_def)
  have "store_rep ?s (C(p := keep_until horizon (C p)))"
    unfolding store_rep_def
  proof (intro conjI allI)
    fix q
    show "chain_from (arena_get (vs_arena ?s)) (get_head ?s q) ((C(p := keep_until horizon (C p))) q)"
      using other [of q] this_page heads keep by simp
    show "sorted_wrt newer ((C(p := keep_until horizon (C p))) q)"
      using rep keep_until_sorted by (simp add: store_rep_def)
    show "\<forall>(j, w) \<in> set ((C(p := keep_until horizon (C p))) q). pv_pgno w = q \<and> pv_commit_seq w \<noteq> 0"
    proof (clarify, goal_cases)
      case (1 j w)
      then obtain v where "(j, v) \<in> set (C q)" "pv_pgno w = pv_pgno v" "pv_commit_seq w = pv_commit_seq v"
        using keep_until_in [of j w horizon "C p"] by (cases "q = p") auto
      then show ?case using rep unfolding store_rep_def by auto
    qed
  qed (use a2 in simp)
  moreover have "\<forall>j \<in> set (pr_pruned_indices (report p zs nothing_pruned)). get_version ?s j = None"
    using a2(3) by (auto simp: get_version_def report_def nothing_pruned_def)
  ultimately show ?thesis using prune Cp keep by auto
qed

lemma keep_until_find:
  "horizon \<le> high \<Longrightarrow> (\<forall>(i, v) \<in> set cs. pv_commit_seq v \<noteq> 0) \<Longrightarrow>
   map_option (\<lambda>(i, v). (i, v\<lparr>pv_prev := None\<rparr>)) (find (\<lambda>(_, v). visible v high) (keep_until horizon cs)) =
   map_option (\<lambda>(i, v). (i, v\<lparr>pv_prev := None\<rparr>)) (find (\<lambda>(_, v). visible v high) cs)"
  by (induction horizon cs rule: keep_until.induct) (auto simp: visible_iff)

lemma keep_until_idem: "keep_until horizon (keep_until horizon cs) = keep_until horizon cs"
  by (induction horizon cs rule: keep_until.induct) auto

lemma rep_reads:
  assumes "store_rep s C"
  shows "resolve_with_trace s p high = Some (map_option fst (find (\<lambda>(_, v). visible v high) (C p)),
      case find (\<lambda>(_, v). visible v high) (C p) of
        None \<Rightarrow> length (C p) | Some _ \<Rightarrow> Suc (length (takeWhile (\<lambda>(_, v). \<not> visible v high) (C p))))"
    "resolve_visible_version s p high = Some (map_option snd (find (\<lambda>(_, v). visible v high) (C p)))"
    "walk_chain s p = Some (map snd (C p))"
    "chain_head_version s p = Some (map_option snd (case C p of [] \<Rightarrow> None | c # _ \<Rightarrow> Some c))"
    "resolve_visible_commit_seq s p high = Some (map_option (\<lambda>c. pv_commit_seq (snd c)) (find (\<lambda>(_, v). visible v high) (C p)))"
proof -
  note ch = store_rep_chain [OF assms, of p]
  have None: "get_head s p = None \<Longrightarrow> C p = []" using ch by (cases "C p") auto
  show "resolve_with_trace s p high = Some (map_option fst (find (\<lambda>(_, v). visible v high) (C p)),
      case find (\<lambda>(_, v). visible v high) (C p) of
        None \<Rightarrow> length (C p) | Some _ \<Rightarrow> Suc (length (takeWhile (\<lambda>(_, v). \<not> visible v high) (C p))))"
    using ch None resolve_walk_chain [of "vs_arena s" _ "C p" high 0]
    by (cases "get_head s p") (simp_all add: resolve_with_trace_def)
  show "resolve_visible_version s p high = Some (map_option snd (find (\<lambda>(_, v). visible v high) (C p)))"
    using ch None visible_walk_chain [of "vs_arena s" _ "C p" high]
    by (cases "get_head s p") (simp_all add: resolve_visible_version_def)
  show "walk_chain s p = Some (map snd (C p))"
    using ch None chain_walk_chain [of "vs_arena s" _ "C p" "[]"]
    by (cases "get_head s p") (simp_all add: walk_chain_def)
  show "chain_head_version s p = Some (map_option snd (case C p of [] \<Rightarrow> None | c # _ \<Rightarrow> Some c))"
    using ch by (cases "C p") (auto simp: chain_head_version_def)
  show "resolve_visible_commit_seq s p high = Some (map_option (\<lambda>c. pv_commit_seq (snd c)) (find (\<lambda>(_, v). visible v high) (C p)))"
    using ch None commit_seq_walk_chain [of "vs_arena s" _ "C p" high]
    by (cases "get_head s p") (simp_all add: resolve_visible_commit_seq_def)
qed

lemma newest_visible:
  assumes "sorted_wrt newer cs" "find (\<lambda>(_, v). visible v high) cs = Some (i, v)"
  shows "(i, v) \<in> set cs" "visible v high"
    "(j, w) \<in> set cs \<Longrightarrow> visible w high \<Longrightarrow> pv_commit_seq w \<le> pv_commit_seq v"
proof -
  obtain ys zs where "cs = ys @ (i, v) # zs" "visible v high" "\<forall>y \<in> set ys. \<not> (\<lambda>(_, v). visible v high) y"
    using find_split [OF assms(2)] by auto
  then show "(i, v) \<in> set cs" "visible v high"
    "(j, w) \<in> set cs \<Longrightarrow> visible w high \<Longrightarrow> pv_commit_seq w \<le> pv_commit_seq v"
    using assms(1) by (auto simp: sorted_wrt_append newer_def)
qed

lemma gc_loop_rep:
  "store_rep s C \<Longrightarrow>
   \<exists>s' t' acc' n. gc_loop horizon pb vb t s acc = Some (s', t', acc') \<and> n \<le> pb \<and>
     gt_queue t' = drop n (gt_queue t) \<and>
     store_rep s' (\<lambda>p. if p \<in> set (take n (gt_queue t)) then keep_until horizon (C p) else C p) \<and>
     gr_pages_pruned acc' = gr_pages_pruned acc + n \<and>
     (gr_versions_freed acc = length (gr_pruned_indices acc) \<longrightarrow>
        gr_versions_freed acc' = length (gr_pruned_indices acc')) \<and>
     gr_queue_remaining acc' = length (gt_queue t') \<and>
     (gt_queue t' = [] \<or> gr_pages_budget_exhausted acc' \<and> n = pb \<or>
      gr_versions_budget_exhausted acc' \<and> gr_versions_freed acc' \<ge> gr_versions_freed acc + vb)"
proof (induction horizon pb vb t s acc arbitrary: C rule: gc_loop.induct)
  case (1 horizon pb vb t s acc)
  show ?case
  proof (cases "pb > 0 \<and> vb > 0 \<and> gt_queue t \<noteq> []")
    case False
    then show ?thesis using 1(2) by (simp add: gc_loop.simps [of horizon pb vb t s acc] exI [of _ 0]) auto
  next
    case True
    then obtain p q where q: "gt_queue t = p # q" by (cases "gt_queue t") auto
    define t1 where "t1 = \<lparr>gt_queue = q, gt_in_queue = gt_in_queue t - {p}\<rparr>"
    obtain s1 pr where s1: "prune_page_chain p horizon s = Some (s1, pr)" "store_rep s1 (C(p := keep_until horizon (C p)))"
      and len: "pr_freed pr = length (pr_pruned_indices pr)"
      using prune_rep [OF 1(2), of p horizon] by (auto simp: report_def nothing_pruned_def)
    define acc1 where "acc1 = acc\<lparr>gr_versions_freed := gr_versions_freed acc + pr_freed pr,
      gr_pruned_keys := gr_pruned_keys acc @ pr_pruned_keys pr,
      gr_pruned_indices := gr_pruned_indices acc @ pr_pruned_indices pr,
      gr_pages_pruned := gr_pages_pruned acc + 1\<rparr>"
    have pop: "gt_pop t = Some (p, t1)" using q by (simp add: gt_pop_def t1_def)
    have eq: "gc_loop horizon pb vb t s acc = gc_loop horizon (pb - 1) (vb - pr_freed pr) t1 s1 acc1"
      using True pop s1 by (simp add: gc_loop.simps [of horizon pb vb t s acc] acc1_def)
    obtain s' t' acc' n where r: "gc_loop horizon (pb - 1) (vb - pr_freed pr) t1 s1 acc1 = Some (s', t', acc')"
      "n \<le> pb - 1" "gt_queue t' = drop n (gt_queue t1)"
      "store_rep s' (\<lambda>x. if x \<in> set (take n (gt_queue t1)) then keep_until horizon ((C(p := keep_until horizon (C p))) x)
         else (C(p := keep_until horizon (C p))) x)"
      "gr_pages_pruned acc' = gr_pages_pruned acc1 + n"
      "gr_versions_freed acc1 = length (gr_pruned_indices acc1) \<longrightarrow> gr_versions_freed acc' = length (gr_pruned_indices acc')"
      "gr_queue_remaining acc' = length (gt_queue t')"
      "gt_queue t' = [] \<or> gr_pages_budget_exhausted acc' \<and> n = pb - 1 \<or>
        gr_versions_budget_exhausted acc' \<and> gr_versions_freed acc' \<ge> gr_versions_freed acc1 + (vb - pr_freed pr)"
      using 1(1) [OF True pop refl s1(1) refl s1(2)] unfolding acc1_def by blast
    have "(\<lambda>x. if x \<in> set (take n (gt_queue t1)) then keep_until horizon ((C(p := keep_until horizon (C p))) x)
         else (C(p := keep_until horizon (C p))) x) =
       (\<lambda>x. if x \<in> set (take (Suc n) (gt_queue t)) then keep_until horizon (C x) else C x)"
      by (auto simp: fun_eq_iff q t1_def keep_until_idem)
    then have "store_rep s' (\<lambda>x. if x \<in> set (take (Suc n) (gt_queue t)) then keep_until horizon (C x) else C x)"
      using r(4) by simp
    moreover have "gt_queue t' = drop (Suc n) (gt_queue t)" using r(3) q by (simp add: t1_def)
    moreover have "gt_queue t' = [] \<or> gr_pages_budget_exhausted acc' \<and> Suc n = pb \<or>
        gr_versions_budget_exhausted acc' \<and> gr_versions_freed acc' \<ge> gr_versions_freed acc + vb"
      using r(8) True by (auto simp: acc1_def)
    ultimately show ?thesis
      using r(1,2,5,6,7) eq True len by (intro exI [of _ s'] exI [of _ t'] exI [of _ acc'] exI [of _ "Suc n"]) (auto simp: acc1_def)
  qed
qed

lemma keep_until_reads:
  assumes "store_rep s C" "store_rep s' C'" "C' p = keep_until horizon (C p)" "horizon \<le> high"
  shows "resolve s' p high = resolve s p high"
    "map_option (map_option (\<lambda>v. v\<lparr>pv_prev := None\<rparr>)) (resolve_visible_version s' p high) =
     map_option (map_option (\<lambda>v. v\<lparr>pv_prev := None\<rparr>)) (resolve_visible_version s p high)"
proof -
  have *: "map_option (\<lambda>(i, v). (i, v\<lparr>pv_prev := None\<rparr>)) (find (\<lambda>(_, v). visible v high) (C' p)) =
    map_option (\<lambda>(i, v). (i, v\<lparr>pv_prev := None\<rparr>)) (find (\<lambda>(_, v). visible v high) (C p))"
    using keep_until_find [OF assms(4) store_rep_committed [OF assms(1)]] assms(3) by simp
  show "resolve s' p high = resolve s p high"
    using * rep_reads(1) [OF assms(1), of p high] rep_reads(1) [OF assms(2), of p high]
    by (cases "find (\<lambda>(_, v). visible v high) (C p)"; cases "find (\<lambda>(_, v). visible v high) (C' p)")
      (auto simp: resolve_def)
  show "map_option (map_option (\<lambda>v. v\<lparr>pv_prev := None\<rparr>)) (resolve_visible_version s' p high) =
     map_option (map_option (\<lambda>v. v\<lparr>pv_prev := None\<rparr>)) (resolve_visible_version s p high)"
    using * rep_reads(2) [OF assms(1), of p high] rep_reads(2) [OF assms(2), of p high]
    by (cases "find (\<lambda>(_, v). visible v high) (C p)"; cases "find (\<lambda>(_, v). visible v high) (C' p)") auto
qed

lemma same_chain_reads:
  assumes "store_rep s C" "store_rep s' C'" "C' p = C p"
  shows "resolve s' p high = resolve s p high" "resolve_visible_version s' p high = resolve_visible_version s p high"
  using rep_reads(1,2) [OF assms(1), of p high] rep_reads(1,2) [OF assms(2), of p high] assms(3) by (simp_all add: resolve_def)

section \<open>Reachable stores\<close>

text \<open>A writer publishes a version of a page only with a commit sequence above those already in
  the page's chain (the commit sequencer hands them out in increasing order) and into an arena
  that is not exhausted; the collector prunes any page at any horizon.\<close>

inductive store_reachable :: "VersionStore \<Rightarrow> bool" where
  new: "store_reachable VersionStore_new"
| pub: "store_reachable s \<Longrightarrow> arena_room (vs_arena s) \<Longrightarrow> pv_commit_seq ver \<noteq> 0 \<Longrightarrow>
        walk_chain s (pv_pgno ver) = Some vs \<Longrightarrow> \<forall>w \<in> set vs. pv_commit_seq w < pv_commit_seq ver \<Longrightarrow>
        publish ver s = Some (i, s') \<Longrightarrow> store_reachable s'"
| prune: "store_reachable s \<Longrightarrow> prune_page_chain p horizon s = Some (s', pruned) \<Longrightarrow> store_reachable s'"
| tick: "store_reachable s \<Longrightarrow> gc_tick todo horizon s = Some (s', rest) \<Longrightarrow> store_reachable s'"

lemma reachable_rep: "store_reachable s \<Longrightarrow> \<exists>C. store_rep s C"
proof (induction rule: store_reachable.induct)
  case new
  then show ?case using store_rep_new by blast
next
  case (pub s ver vs i s')
  then obtain C where C: "store_rep s C" by blast
  then have "\<forall>(i, w) \<in> set (C (pv_pgno ver)). pv_commit_seq w < pv_commit_seq ver"
    using pub rep_reads(3) [OF C, of "pv_pgno ver"] by fastforce
  then show ?case using publish_rep [OF C] pub by fastforce
next
  case (prune s p horizon s' pruned)
  then show ?case using prune_rep [of s _ p horizon] by fastforce
next
  case (tick s todo horizon s' rest)
  then obtain C where "store_rep s C" by blast
  then show ?case using gc_loop_rep [of s C horizon GC_PAGES_BUDGET GC_VERSIONS_BUDGET todo tick_start] tick
    unfolding gc_tick_def by fastforce
qed

lemma keep_until_prefix:
  "map fst cs = map fst (keep_until horizon cs) @ map fst (drop (length (keep_until horizon cs)) cs)"
  by (induction horizon cs rule: keep_until.induct) auto

lemma same_but_prev:
  assumes "map_option (map_option (\<lambda>v. v\<lparr>pv_prev := None\<rparr>)) x = map_option (map_option (\<lambda>v. v\<lparr>pv_prev := None\<rparr>)) y"
  shows "map_option (map_option (\<lambda>v. (pv_commit_seq v, pv_data v))) x =
    map_option (map_option (\<lambda>v. (pv_commit_seq v, pv_data v))) y"
proof -
  have eq: "(\<lambda>v. (pv_commit_seq v, pv_data v)) = (\<lambda>v. (pv_commit_seq v, pv_data v)) \<circ> (\<lambda>v :: PageVersion. v\<lparr>pv_prev := None\<rparr>)"
    by (simp add: comp_def)
  show ?thesis
    unfolding eq using arg_cong [OF assms, of "map_option (map_option (\<lambda>v. (pv_commit_seq v, pv_data v)))"]
    by (simp add: option.map_comp comp_def)
qed

section \<open>Properties of the store\<close>

text \<open>A store with two versions of page 7, used to instantiate the properties.\<close>

definition demo_old :: PageVersion where
  "demo_old = \<lparr>pv_pgno = 7, pv_commit_seq = 3, pv_created_by = (1, 0), pv_data = [1], pv_prev = None\<rparr>"

definition demo_new :: PageVersion where
  "demo_new = \<lparr>pv_pgno = 7, pv_commit_seq = 5, pv_created_by = (2, 0), pv_data = [2], pv_prev = Some 0\<rparr>"

definition demo_idx :: "u32 \<Rightarrow> VersionIdx" where
  "demo_idx n = \<lparr>vi_chunk = 0, vi_offset = n, vi_generation = 0\<rparr>"

definition demo_store :: VersionStore where
  "demo_store =
     \<lparr>vs_arena = \<lparr>va_chunks = [[\<lparr>as_generation = 0, as_version = Some demo_old\<rparr>,
                                \<lparr>as_generation = 0, as_version = Some demo_new\<rparr>]],
                  va_free_list = [], va_high_water = 2\<rparr>,
      vs_heads = (\<lambda>_. None)(7 \<mapsto> 1)\<rparr>"

definition demo_chains :: "u32 \<Rightarrow> (VersionIdx \<times> PageVersion) list" where
  "demo_chains = (\<lambda>_. [])(7 := [(demo_idx 1, demo_new), (demo_idx 0, demo_old)])"

lemmas demo_defs = demo_old_def demo_new_def demo_idx_def

lemma demo_rep: "store_rep demo_store demo_chains"
proof -
  have "arena_inv (vs_arena demo_store)" by (simp add: demo_store_def arena_inv_def ARENA_CHUNK_def)
  moreover have "get_head demo_store p = (if p = 7 then Some (demo_idx 1) else None)" for p
    by (simp add: demo_store_def get_head_def unpack_idx_def CHAIN_HEAD_EMPTY_def version_pointer_to_idx_def demo_defs)
  moreover have "arena_get (vs_arena demo_store) (demo_idx 1) = Some demo_new"
    "arena_get (vs_arena demo_store) (demo_idx 0) = Some demo_old"
    by (simp_all add: demo_store_def arena_get_def idx_slot_def slot_at_def buf_get_def demo_idx_def)
  moreover have "version_pointer_to_idx 0 = demo_idx 0" by (simp add: version_pointer_to_idx_def demo_defs)
  ultimately show ?thesis by (auto simp: store_rep_def demo_chains_def newer_def demo_old_def demo_new_def)
qed

text \<open>C1: snapshot reads (INV-5 and the resolve algorithm).  On a store that represents the chains
  \<open>C\<close>, resolving a page always returns.  It returns the newest committed version at or below the
  snapshot and the number of versions inspected up to it, or nothing exactly when every version
  of the page is above the snapshot; the reader that copies the version, the reader of the
  commit sequence only and the handle lookup agree with it, and the chain walk lists the chain.\<close>

theorem resolve_newest_visible:
  assumes "store_rep s C"
  shows "\<exists>r n. resolve_with_trace s p high = Some (r, n) \<and> resolve s p high = Some r \<and>
    resolve_visible_commit_seq s p high = Some (map_option pv_commit_seq (Option.bind r (get_version s))) \<and>
    resolve_visible_version s p high = Some (Option.bind r (get_version s)) \<and>
    walk_chain s p = Some (map snd (C p)) \<and>
    (case r of
       None \<Rightarrow> n = length (C p) \<and> (\<forall>(j, w) \<in> set (C p). high < pv_commit_seq w)
     | Some i \<Rightarrow> n = Suc (length (takeWhile (\<lambda>(j, w). high < pv_commit_seq w) (C p))) \<and>
         (\<exists>v. (i, v) \<in> set (C p) \<and> get_version s i = Some v \<and> pv_commit_seq v \<le> high \<and>
           (\<forall>(j, w) \<in> set (C p). pv_commit_seq w \<le> high \<longrightarrow> pv_commit_seq w \<le> pv_commit_seq v)))"
proof (cases "find (\<lambda>(_, v). visible v high) (C p)")
  case None
  then have "\<forall>(j, w) \<in> set (C p). high < pv_commit_seq w"
    using store_rep_committed [OF assms, of p] by (fastforce simp: find_None_iff visible_iff)
  then show ?thesis
    using None rep_reads(1,2) [OF assms, of p high] rep_reads(3) [OF assms, of p] rep_reads(5) [OF assms, of p high] by (simp add: resolve_def)
next
  case (Some c)
  obtain i v where c: "c = (i, v)" by (cases c)
  note nv = newest_visible [OF store_rep_sorted [OF assms, of p] Some [unfolded c]]
  have get: "get_version s i = Some v"
    using chain_from_live [OF store_rep_chain [OF assms] nv(1)] by (simp add: get_version_def)
  have "pv_commit_seq v \<le> high" using nv(2) by (simp add: visible_iff)
  moreover have "\<forall>(j, w) \<in> set (C p). pv_commit_seq w \<le> high \<longrightarrow> pv_commit_seq w \<le> pv_commit_seq v"
    using nv(3) store_rep_committed [OF assms, of p] by (fastforce simp: visible_iff)
  moreover have "takeWhile (\<lambda>(_, v). \<not> visible v high) (C p) = takeWhile (\<lambda>(j, w). high < pv_commit_seq w) (C p)"
    using store_rep_committed [OF assms, of p] by (intro takeWhile_cong) (auto simp: visible_iff)
  ultimately show ?thesis
    using Some c nv(1) get rep_reads(1,2) [OF assms, of p high] rep_reads(3) [OF assms, of p] rep_reads(5) [OF assms, of p high] by (simp add: resolve_def)
qed

theorem resolve_newest_visible_witness:
  "(\<exists>i n. resolve_with_trace demo_store 7 4 = Some (Some i, n) \<and> get_version demo_store i = Some demo_old) \<and>
   (\<exists>n. resolve_with_trace demo_store 7 2 = Some (None, n))"
proof -
  obtain r n where "resolve_with_trace demo_store 7 4 = Some (r, n)"
    "case r of
       None \<Rightarrow> n = length (demo_chains 7) \<and> (\<forall>(j, w) \<in> set (demo_chains 7). 4 < pv_commit_seq w)
     | Some i \<Rightarrow> n = Suc (length (takeWhile (\<lambda>(j, w). 4 < pv_commit_seq w) (demo_chains 7))) \<and>
         (\<exists>v. (i, v) \<in> set (demo_chains 7) \<and> get_version demo_store i = Some v \<and> pv_commit_seq v \<le> 4 \<and>
           (\<forall>(j, w) \<in> set (demo_chains 7). pv_commit_seq w \<le> 4 \<longrightarrow> pv_commit_seq w \<le> pv_commit_seq v))"
    using resolve_newest_visible [OF demo_rep, of 7 4] by blast
  moreover obtain r' n' where "resolve_with_trace demo_store 7 2 = Some (r', n')"
    "case r' of
       None \<Rightarrow> n' = length (demo_chains 7) \<and> (\<forall>(j, w) \<in> set (demo_chains 7). 2 < pv_commit_seq w)
     | Some i \<Rightarrow> n' = Suc (length (takeWhile (\<lambda>(j, w). 2 < pv_commit_seq w) (demo_chains 7))) \<and>
         (\<exists>v. (i, v) \<in> set (demo_chains 7) \<and> get_version demo_store i = Some v \<and> pv_commit_seq v \<le> 2 \<and>
           (\<forall>(j, w) \<in> set (demo_chains 7). pv_commit_seq w \<le> 2 \<longrightarrow> pv_commit_seq w \<le> pv_commit_seq v))"
    using resolve_newest_visible [OF demo_rep, of 7 2] by blast
  ultimately show ?thesis by (cases r; cases r') (auto simp: demo_chains_def demo_old_def demo_new_def)
qed

text \<open>C13: publishing.  A version with a commit sequence above its page's chain is published into an
  arena with room: it goes to a fresh handle in front of its page's chain, the chains stay
  well formed, every snapshot that includes it reads it, and no snapshot before it and no read
  of another page changes.\<close>

theorem publish_extends_chain:
  assumes "store_rep s C" "arena_room (vs_arena s)" "pv_commit_seq ver \<noteq> 0"
    "\<forall>(i, w) \<in> set (C (pv_pgno ver)). pv_commit_seq w < pv_commit_seq ver"
  shows "\<exists>i s' prev. publish ver s = Some (i, s') \<and> get_version s i = None \<and>
    store_rep s' (C(pv_pgno ver := (i, ver\<lparr>pv_prev := prev\<rparr>) # C (pv_pgno ver))) \<and>
    (\<forall>high \<ge> pv_commit_seq ver.
       resolve_visible_version s' (pv_pgno ver) high = Some (Some (ver\<lparr>pv_prev := prev\<rparr>))) \<and>
    (\<forall>p high. p \<noteq> pv_pgno ver \<or> high < pv_commit_seq ver \<longrightarrow>
       resolve s' p high = resolve s p high \<and>
       resolve_visible_version s' p high = resolve_visible_version s p high)"
proof -
  obtain i s' prev where pub: "publish ver s = Some (i, s')" "arena_get (vs_arena s) i = None"
    and rep: "store_rep s' (C(pv_pgno ver := (i, ver\<lparr>pv_prev := prev\<rparr>) # C (pv_pgno ver)))"
    using publish_rep [OF assms] by blast
  have "resolve_visible_version s' (pv_pgno ver) high = Some (Some (ver\<lparr>pv_prev := prev\<rparr>))"
    if "high \<ge> pv_commit_seq ver" for high
    using that rep_reads(2) [OF rep, of _ high] assms(3) by (simp add: visible_iff)
  moreover have "resolve s' p high = resolve s p high \<and> resolve_visible_version s' p high = resolve_visible_version s p high"
    if "p \<noteq> pv_pgno ver \<or> high < pv_commit_seq ver" for p high
  proof (cases "p = pv_pgno ver")
    case True
    then have "\<not> visible (ver\<lparr>pv_prev := prev\<rparr>) high" using that by (auto simp: visible_iff)
    then show ?thesis
      using True rep_reads(1,2) [OF rep, of p high] rep_reads(1,2) [OF assms(1), of p high] by (simp add: resolve_def)
  next
    case False
    then show ?thesis using same_chain_reads [OF assms(1) rep] by simp
  qed
  ultimately show ?thesis using pub rep by (auto simp: get_version_def)
qed

theorem publish_extends_chain_witness:
  "\<exists>i s'. publish (demo_new\<lparr>pv_commit_seq := 9\<rparr>) demo_store = Some (i, s') \<and>
     resolve_visible_version s' 7 6 = resolve_visible_version demo_store 7 6"
proof -
  have "arena_room (vs_arena demo_store)" by (simp add: arena_room_def demo_store_def ARENA_CHUNK_def)
  then show ?thesis
    using publish_extends_chain [OF demo_rep, of "demo_new\<lparr>pv_commit_seq := 9\<rparr>"]
    by (fastforce simp: demo_chains_def demo_new_def demo_old_def)
qed

text \<open>C12: pruning one page.  Pruning always returns; it frees exactly the versions behind the first
  one at or below the horizon, in chain order, keeps the chains well formed, and every snapshot
  at or above the horizon resolves every page to the same handle, commit sequence and bytes.\<close>

theorem prune_keeps_snapshots:
  assumes "store_rep s C"
  shows "\<exists>s' pruned. prune_page_chain p horizon s = Some (s', pruned) \<and>
    store_rep s' (C(p := keep_until horizon (C p))) \<and>
    map fst (C p) = map fst (keep_until horizon (C p)) @ pr_pruned_indices pruned \<and>
    pr_freed pruned = length (pr_pruned_indices pruned) \<and>
    (\<forall>i \<in> set (pr_pruned_indices pruned). get_version s' i = None) \<and>
    (\<forall>q high. horizon \<le> high \<longrightarrow> resolve s' q high = resolve s q high \<and>
       map_option (map_option (\<lambda>v. (pv_commit_seq v, pv_data v))) (resolve_visible_version s' q high) =
       map_option (map_option (\<lambda>v. (pv_commit_seq v, pv_data v))) (resolve_visible_version s q high))"
proof -
  obtain s' pruned where pr: "prune_page_chain p horizon s = Some (s', pruned)"
    and rep: "store_rep s' (C(p := keep_until horizon (C p)))"
    and freed: "pruned = report p (drop (length (keep_until horizon (C p))) (C p)) nothing_pruned"
    "\<forall>i \<in> set (pr_pruned_indices pruned). get_version s' i = None"
    using prune_rep [OF assms] by blast
  have kept: "map fst (C p) = map fst (keep_until horizon (C p)) @ pr_pruned_indices pruned"
    "pr_freed pruned = length (pr_pruned_indices pruned)"
    using keep_until_prefix [of "C p" horizon] freed(1) by (simp_all add: report_def nothing_pruned_def)
  have "resolve s' q high = resolve s q high \<and>
       map_option (map_option (\<lambda>v. (pv_commit_seq v, pv_data v))) (resolve_visible_version s' q high) =
       map_option (map_option (\<lambda>v. (pv_commit_seq v, pv_data v))) (resolve_visible_version s q high)"
    if "horizon \<le> high" for q high
  proof (cases "q = p")
    case True
    then show ?thesis using keep_until_reads [OF assms rep _ that, of p] by (auto intro: same_but_prev)
  next
    case False
    then show ?thesis using same_chain_reads [OF assms rep, of q high] by simp
  qed
  then show ?thesis using pr rep kept freed(2) by fastforce
qed

theorem prune_keeps_snapshots_witness:
  "\<exists>s' pruned. prune_page_chain 7 6 demo_store = Some (s', pruned) \<and> pr_pruned_indices pruned = [demo_idx 0] \<and>
     resolve s' 7 8 = resolve demo_store 7 8"
  using prune_keeps_snapshots [OF demo_rep, of 7 6]
  by (fastforce simp: demo_chains_def demo_new_def demo_old_def)

text \<open>A collection tick.  A tick always returns; it prunes at most 64 pages, the front of the
  work queue, and keeps the rest queued; it leaves pages queued only when it has pruned 64 of
  them or freed at least 4096 versions, and then reports the exhausted budget; its counters
  match the freed versions, and no snapshot at or above the horizon can tell that it ran.\<close>

theorem gc_tick_invisible:
  assumes "store_rep s C"
  shows "\<exists>s' todo' res. gc_tick todo horizon s = Some (s', todo', res) \<and>
    gr_pages_pruned res \<le> 64 \<and> gt_queue todo' = drop (gr_pages_pruned res) (gt_queue todo) \<and>
    gr_versions_freed res = length (gr_pruned_indices res) \<and> gr_queue_remaining res = length (gt_queue todo') \<and>
    (gt_queue todo' = [] \<or> gr_pages_budget_exhausted res \<and> gr_pages_pruned res = 64 \<or>
     gr_versions_budget_exhausted res \<and> gr_versions_freed res \<ge> 4096) \<and>
    store_rep s' (\<lambda>p. if p \<in> set (take (gr_pages_pruned res) (gt_queue todo)) then keep_until horizon (C p) else C p) \<and>
    (\<forall>p high. horizon \<le> high \<longrightarrow> resolve s' p high = resolve s p high \<and>
       map_option (map_option (\<lambda>v. (pv_commit_seq v, pv_data v))) (resolve_visible_version s' p high) =
       map_option (map_option (\<lambda>v. (pv_commit_seq v, pv_data v))) (resolve_visible_version s p high))"
proof -
  obtain s' todo' res where r: "gc_tick todo horizon s = Some (s', todo', res)"
    "gr_pages_pruned res \<le> 64" "gt_queue todo' = drop (gr_pages_pruned res) (gt_queue todo)"
    "gr_versions_freed res = length (gr_pruned_indices res)" "gr_queue_remaining res = length (gt_queue todo')"
    "gt_queue todo' = [] \<or> gr_pages_budget_exhausted res \<and> gr_pages_pruned res = 64 \<or>
     gr_versions_budget_exhausted res \<and> gr_versions_freed res \<ge> 4096"
    and rep: "store_rep s' (\<lambda>p. if p \<in> set (take (gr_pages_pruned res) (gt_queue todo)) then keep_until horizon (C p) else C p)"
    using gc_loop_rep [OF assms, of horizon GC_PAGES_BUDGET GC_VERSIONS_BUDGET todo tick_start]
    unfolding gc_tick_def by (auto simp: tick_start_def GC_PAGES_BUDGET_def GC_VERSIONS_BUDGET_def)
  have "resolve s' p high = resolve s p high \<and>
       map_option (map_option (\<lambda>v. (pv_commit_seq v, pv_data v))) (resolve_visible_version s' p high) =
       map_option (map_option (\<lambda>v. (pv_commit_seq v, pv_data v))) (resolve_visible_version s p high)"
    if "horizon \<le> high" for p high
  proof (cases "p \<in> set (take (gr_pages_pruned res) (gt_queue todo))")
    case True
    then show ?thesis using keep_until_reads [OF assms rep _ that, of p] by (auto intro: same_but_prev)
  next
    case False
    then show ?thesis using same_chain_reads [OF assms rep, of p high] by simp
  qed
  then show ?thesis using r rep by blast
qed

theorem gc_tick_invisible_witness:
  "\<exists>s' todo' res. gc_tick (gt_enqueue 7 \<lparr>gt_queue = [], gt_in_queue = {}\<rparr>) 6 demo_store = Some (s', todo', res) \<and>
     resolve s' 7 8 = resolve demo_store 7 8"
proof -
  obtain s' todo' res where "gc_tick (gt_enqueue 7 \<lparr>gt_queue = [], gt_in_queue = {}\<rparr>) 6 demo_store = Some (s', todo', res)"
    "\<forall>p high. 6 \<le> high \<longrightarrow> resolve s' p high = resolve demo_store p high"
    using gc_tick_invisible [OF demo_rep, of "gt_enqueue 7 \<lparr>gt_queue = [], gt_in_queue = {}\<rparr>" 6] by blast
  then show ?thesis by (intro exI [of _ s'] exI [of _ todo'] exI [of _ res]) simp
qed

text \<open>C34: INV-3, version chain order.  In every store reached by publishing (with increasing commit
  sequences per page), pruning and collection ticks, the chain walk of every page returns, its
  versions belong to the page, are committed, and have strictly decreasing commit sequences.\<close>

theorem reachable_chains_ordered:
  assumes "store_reachable s"
  shows "\<exists>vs. walk_chain s p = Some vs \<and> sorted_wrt (\<lambda>v w. pv_commit_seq v > pv_commit_seq w) vs \<and>
    (\<forall>v \<in> set vs. pv_pgno v = p \<and> pv_commit_seq v \<noteq> 0) \<and>
    chain_head_version s p = Some (case vs of [] \<Rightarrow> None | v # _ \<Rightarrow> Some v)"
proof -
  obtain C where C: "store_rep s C" using reachable_rep [OF assms] by blast
  have "sorted_wrt (\<lambda>v w. pv_commit_seq v > pv_commit_seq w) (map snd (C p))"
    using store_rep_sorted [OF C, of p] by (simp add: sorted_wrt_map newer_def [abs_def])
  moreover have "\<forall>v \<in> set (map snd (C p)). pv_pgno v = p \<and> pv_commit_seq v \<noteq> 0"
  proof
    fix v assume "v \<in> set (map snd (C p))"
    then obtain i where "(i, v) \<in> set (C p)" by auto
    then show "pv_pgno v = p \<and> pv_commit_seq v \<noteq> 0" using C unfolding store_rep_def by blast
  qed
  moreover have "chain_head_version s p = Some (case map snd (C p) of [] \<Rightarrow> None | v # _ \<Rightarrow> Some v)"
    using rep_reads(4) [OF C, of p] by (simp split: list.splits)
  ultimately show ?thesis using rep_reads(3) [OF C, of p] by blast
qed

theorem reachable_chains_ordered_witness:
  "\<exists>s i. publish demo_old VersionStore_new = Some (i, s) \<and> (\<exists>vs. walk_chain s 7 = Some vs)"
proof -
  have room: "arena_room (vs_arena VersionStore_new)"
    by (simp add: arena_room_def VersionStore_new_def VersionArena_new_def ARENA_CHUNK_def)
  obtain i s where pub: "publish demo_old VersionStore_new = Some (i, s)"
    using publish_rep [OF store_rep_new room, of demo_old] by (auto simp: demo_old_def)
  have "store_reachable s"
    using store_reachable.pub [OF store_reachable.new room _ rep_reads(3) [OF store_rep_new] _ pub] by (simp add: demo_old_def)
  then show ?thesis using reachable_chains_ordered [of s 7] pub by blast
qed

end
