(* ===== verification/CommitSequencing.thy ===== *)
theory CommitSequencing
  imports Prelude "HOL-Library.Multiset"
begin

text \<open>
  \<open>crates/fsqlite-mvcc/src/commit_combiner.rs\<close> (flat-combining allocation of commit
  sequences) and \<open>TxnManager\<close>, \<open>SerializedWriteMutex\<close> of
  \<open>crates/fsqlite-mvcc/src/invariants.rs\<close>.  Every atomic section of the code (an atomic
  read-modify-write, or a region under one lock) is one function; the step relation at the end
  interleaves them freely.  Spinning and yielding are steps that are not enabled yet, metrics are
  left out, and thread identifiers are parameters.
\<close>

section \<open>Transaction identifiers\<close>

definition MAX_RAW :: u64 where
  "MAX_RAW = push_bit 62 1 - 1"

definition TxnId_new :: "u64 \<Rightarrow> u64 option" where
  "TxnId_new raw = (if raw > MAX_RAW then None else if raw = 0 then None else Some raw)"

section \<open>The combiner\<close>

datatype SlotState = SLOT_EMPTY | SLOT_PENDING | SLOT_DONE

record CommitSlot =
  sl_state :: SlotState
  sl_result :: u64

definition CommitSlot_new :: CommitSlot where
  "CommitSlot_new = \<lparr>sl_state = SLOT_EMPTY, sl_result = 0\<rparr>"

definition MAX_COMMIT_THREADS :: nat where
  "MAX_COMMIT_THREADS = 64"

record CommitSequenceCombiner =
  cc_next_commit_seq :: u64
  cc_slots :: "CommitSlot list"
  cc_owners :: "u64 list"

definition combiner_new :: "u64 \<Rightarrow> CommitSequenceCombiner" where
  "combiner_new initial_commit_seq =
     \<lparr>cc_next_commit_seq = initial_commit_seq, cc_slots = replicate MAX_COMMIT_THREADS CommitSlot_new,
      cc_owners = replicate MAX_COMMIT_THREADS 0\<rparr>"

fun find_free :: "u64 list \<Rightarrow> nat \<Rightarrow> nat option" where
  "find_free [] i = None"
| "find_free (own # owners) i = (if own = 0 then Some i else find_free owners (Suc i))"

text \<open>One scan over the owners; \<^const>\<open>None\<close> when every slot is taken and the caller yields.\<close>

definition claim_slot :: "u64 \<Rightarrow> CommitSequenceCombiner \<Rightarrow> (nat \<times> CommitSequenceCombiner) option" where
  "claim_slot tid c =
     (case find_free (cc_owners c) 0 of
        None \<Rightarrow> None
      | Some i \<Rightarrow> Some (i, c\<lparr>cc_owners := (cc_owners c)[i := tid]\<rparr>))"

definition publish_request :: "nat \<Rightarrow> CommitSequenceCombiner \<Rightarrow> CommitSequenceCombiner" where
  "publish_request i c = c\<lparr>cc_slots := (cc_slots c)[i := (cc_slots c ! i)\<lparr>sl_state := SLOT_PENDING\<rparr>]\<rparr>"

text \<open>The scan for pending slots with the batched \<open>fetch_add\<close>: the flags of the pending slots and
  the base of the batch.  The outer option is the overflow assertion, the inner one the early
  return when nothing is pending.\<close>

definition pending_slots :: "CommitSlot list \<Rightarrow> bool list" where
  "pending_slots slots = map (\<lambda>s. sl_state s = SLOT_PENDING) slots"

definition pending_count :: "bool list \<Rightarrow> nat" where
  "pending_count pending = length (filter id pending)"

definition combine_fetch ::
  "CommitSequenceCombiner \<Rightarrow> ((bool list \<times> u64) option \<times> CommitSequenceCombiner) option" where
  "combine_fetch c =
     (let pending = pending_slots (cc_slots c); n = word_of_nat (pending_count pending);
          base_seq = cc_next_commit_seq c in
      if n = 0 then Some (None, c)
      else if base_seq < - 1 - n
      then Some (Some (pending, base_seq), c\<lparr>cc_next_commit_seq := base_seq + n\<rparr>) else None)"

definition batch :: "nat \<Rightarrow> u64 \<Rightarrow> u64 list" where
  "batch n base_seq = map (\<lambda>i. base_seq + word_of_nat i) [0..<n]"

definition combine_register :: "bool list \<Rightarrow> u64 \<Rightarrow> u64 list \<Rightarrow> u64 list" where
  "combine_register pending base_seq active = active @ batch (pending_count pending) base_seq"

fun assign_slots :: "CommitSlot list \<Rightarrow> bool list \<Rightarrow> u64 \<Rightarrow> u64 \<Rightarrow> CommitSlot list" where
  "assign_slots (s # slots) (is_pending # pending) base_seq assigned =
     (if is_pending
      then \<lparr>sl_state = SLOT_DONE, sl_result = base_seq + assigned\<rparr> # assign_slots slots pending base_seq (assigned + 1)
      else s # assign_slots slots pending base_seq assigned)"
| "assign_slots slots pending base_seq assigned = slots"

definition combine_assign :: "bool list \<Rightarrow> u64 \<Rightarrow> CommitSequenceCombiner \<Rightarrow> CommitSequenceCombiner" where
  "combine_assign pending base_seq c = c\<lparr>cc_slots := assign_slots (cc_slots c) pending base_seq 0\<rparr>"

text \<open>The slot owner's poll: the result once the slot is done, with the slot emptied and released.\<close>

definition take_result :: "nat \<Rightarrow> CommitSequenceCombiner \<Rightarrow> (u64 \<times> CommitSequenceCombiner) option" where
  "take_result i c =
     (let s = cc_slots c ! i in
      if sl_state s = SLOT_DONE
      then Some (sl_result s,
        c\<lparr>cc_slots := (cc_slots c)[i := s\<lparr>sl_state := SLOT_EMPTY\<rparr>], cc_owners := (cc_owners c)[i := 0]\<rparr>)
      else None)"

section \<open>The transaction manager\<close>

record TxnManager =
  tm_next_txn_id :: u64
  tm_combiner :: CommitSequenceCombiner
  tm_active_commits :: "u64 list"
  tm_stable_commit_seq :: u64

definition u64_saturating_sub :: "u64 \<Rightarrow> u64 \<Rightarrow> u64" where
  "u64_saturating_sub a b = (if b \<le> a then a - b else 0)"

definition TxnManager_new :: "u64 \<Rightarrow> u64 \<Rightarrow> TxnManager" where
  "TxnManager_new initial_txn_id initial_commit_seq =
     \<lparr>tm_next_txn_id = initial_txn_id, tm_combiner = combiner_new initial_commit_seq,
      tm_active_commits = [], tm_stable_commit_seq = u64_saturating_sub initial_commit_seq 1\<rparr>"

definition alloc_txn_id :: "TxnManager \<Rightarrow> u64 option \<times> TxnManager" where
  "alloc_txn_id m =
     (let current = tm_next_txn_id m in
      if current > MAX_RAW then (None, m)
      else if current = - 1 then (None, m)
      else (TxnId_new current, m\<lparr>tm_next_txn_id := current + 1\<rparr>))"

text \<open>The combining pass of one thread that is not interleaved with others.\<close>

definition combine_locked :: "TxnManager \<Rightarrow> TxnManager option" where
  "combine_locked m =
     (case combine_fetch (tm_combiner m) of
        None \<Rightarrow> None
      | Some (None, c) \<Rightarrow> Some (m\<lparr>tm_combiner := c\<rparr>)
      | Some (Some (pending, base_seq), c) \<Rightarrow>
          Some (m\<lparr>tm_active_commits := combine_register pending base_seq (tm_active_commits m),
                  tm_combiner := combine_assign pending base_seq c\<rparr>))"

definition alloc_commit_seq :: "u64 \<Rightarrow> TxnManager \<Rightarrow> (u64 \<times> TxnManager) option" where
  "alloc_commit_seq tid m =
     do { (slot, c) \<leftarrow> claim_slot tid (tm_combiner m);
          m1 \<leftarrow> combine_locked (m\<lparr>tm_combiner := publish_request slot c\<rparr>);
          (seq, c1) \<leftarrow> take_result slot (tm_combiner m1);
          Some (seq, m1\<lparr>tm_combiner := c1\<rparr>) }"

definition finish_commit_seq :: "u64 \<Rightarrow> TxnManager \<Rightarrow> TxnManager" where
  "finish_commit_seq seq m =
     (let active = remove1 seq (tm_active_commits m);
          new_stable = (case active of
                          min_active # _ \<Rightarrow> u64_saturating_sub min_active 1
                        | [] \<Rightarrow> u64_saturating_sub (cc_next_commit_seq (tm_combiner m)) 1) in
      m\<lparr>tm_active_commits := active, tm_stable_commit_seq := max (tm_stable_commit_seq m) new_stable\<rparr>)"

definition current_commit_counter :: "TxnManager \<Rightarrow> u64" where
  "current_commit_counter m =
     (if tm_stable_commit_seq m = - 1 then - 1 else tm_stable_commit_seq m + 1)"

section \<open>The serialized write mutex\<close>

definition try_acquire :: "u64 \<Rightarrow> u64 option \<Rightarrow> (u64 + unit) \<times> u64 option" where
  "try_acquire txn guard =
     (case guard of
        Some holder \<Rightarrow> (if holder \<noteq> txn then (Inl holder, guard) else (Inr (), guard))
      | None \<Rightarrow> (Inr (), Some txn))"

definition mutex_release :: "u64 \<Rightarrow> u64 option \<Rightarrow> bool \<times> u64 option" where
  "mutex_release txn guard = (if guard = Some txn then (True, None) else (False, guard))"

section \<open>Interleaved committers\<close>

text \<open>The combiner lock serialises combining passes; a pass is in one of its phases.  The ghost
  fields record the sequences taken from the counter whose commit is not finished, and those
  already returned to a committer.\<close>

datatype CombinerPhase = Unlocked | Fetched "bool list" u64 | Registered "bool list" u64

record System =
  sy_mgr :: TxnManager
  sy_phase :: CombinerPhase
  sy_unfinished :: "u64 set"
  sy_held :: "u64 list"

definition with_combiner :: "CommitSequenceCombiner \<Rightarrow> System \<Rightarrow> System" where
  "with_combiner c y = y\<lparr>sy_mgr := (sy_mgr y)\<lparr>tm_combiner := c\<rparr>\<rparr>"

abbreviation sy_combiner :: "System \<Rightarrow> CommitSequenceCombiner" where
  "sy_combiner y \<equiv> tm_combiner (sy_mgr y)"

text \<open>With \<open>strict\<close>, a commit does not finish between the counter update of a combining pass and
  the registration of its batch; the code does not enforce this.\<close>

inductive sys_step :: "bool \<Rightarrow> System \<Rightarrow> System \<Rightarrow> bool" for strict where
  request: "tid \<noteq> 0 \<Longrightarrow> claim_slot tid (sy_combiner y) = Some (i, c) \<Longrightarrow>
    sys_step strict y (with_combiner (publish_request i c) y)"
| fetch: "sy_phase y = Unlocked \<Longrightarrow> combine_fetch (sy_combiner y) = Some (Some (pending, base_seq), c) \<Longrightarrow>
    sys_step strict y ((with_combiner c y)\<lparr>sy_phase := Fetched pending base_seq,
      sy_unfinished := sy_unfinished y \<union> set (batch (pending_count pending) base_seq)\<rparr>)"
| register: "sy_phase y = Fetched pending base_seq \<Longrightarrow>
    sys_step strict y (y\<lparr>sy_phase := Registered pending base_seq,
      sy_mgr := (sy_mgr y)\<lparr>tm_active_commits := combine_register pending base_seq (tm_active_commits (sy_mgr y))\<rparr>\<rparr>)"
| assign: "sy_phase y = Registered pending base_seq \<Longrightarrow>
    sys_step strict y ((with_combiner (combine_assign pending base_seq (sy_combiner y)) y)\<lparr>sy_phase := Unlocked\<rparr>)"
| collect: "i < length (cc_slots (sy_combiner y)) \<Longrightarrow> take_result i (sy_combiner y) = Some (seq, c) \<Longrightarrow>
    sys_step strict y ((with_combiner c y)\<lparr>sy_held := seq # sy_held y\<rparr>)"
| finish: "seq \<in> set (sy_held y) \<Longrightarrow> strict \<longrightarrow> (\<forall>pending base_seq. sy_phase y \<noteq> Fetched pending base_seq) \<Longrightarrow>
    sys_step strict y (y\<lparr>sy_mgr := finish_commit_seq seq (sy_mgr y),
      sy_unfinished := sy_unfinished y - {seq}, sy_held := remove1 seq (sy_held y)\<rparr>)"

definition system_new :: "u64 \<Rightarrow> u64 \<Rightarrow> System" where
  "system_new initial_txn_id initial_commit_seq =
     \<lparr>sy_mgr = TxnManager_new initial_txn_id initial_commit_seq, sy_phase = Unlocked,
      sy_unfinished = {}, sy_held = []\<rparr>"

inductive sys_reachable :: "bool \<Rightarrow> System \<Rightarrow> bool" for strict where
  start: "initial_commit_seq \<noteq> 0 \<Longrightarrow> sys_reachable strict (system_new initial_txn_id initial_commit_seq)"
| step: "sys_reachable strict y \<Longrightarrow> sys_step strict y y' \<Longrightarrow> sys_reachable strict y'"

inductive_cases sys_stepE: "sys_step strict y y'"
section \<open>Batches\<close>

lemma unat_add_word_of_nat:
  "unat base + i < 2 ^ 64 \<Longrightarrow> unat (base + word_of_nat i :: u64) = unat base + i"
  by (simp add: unat_word_ariths unat_of_nat)

lemma fetch_no_overflow:
  assumes "base < - 1 - (word_of_nat n :: u64)" "n < 2 ^ 64"
  shows "unat base + n < 2 ^ 64"
proof -
  have "unat (word_of_nat n :: u64) = n" using assms(2) by (simp add: unat_of_nat)
  moreover have "unat (- 1 - word_of_nat n :: u64) = unat (- 1 :: u64) - unat (word_of_nat n :: u64)"
    by (rule unat_sub) simp
  moreover have "unat (- 1 :: u64) = 2 ^ 64 - 1" by (simp add: unsigned_minus_1_eq_mask mask_eq_exp_minus_1)
  ultimately show ?thesis using assms(1) by (simp add: word_less_nat_alt)
qed

lemma batch_facts:
  assumes "unat base + n < 2 ^ 64"
  shows "sorted_wrt (<) (batch n base)" "q \<in> set (batch n base) \<Longrightarrow> base \<le> q \<and> q < base + word_of_nat n"
    "distinct (batch n base)"
proof -
  have u: "i \<le> n \<Longrightarrow> unat (base + word_of_nat i) = unat base + i" for i
    using assms by (intro unat_add_word_of_nat) simp
  show s: "sorted_wrt (<) (batch n base)"
    using u by (auto simp: batch_def sorted_wrt_iff_nth_less word_less_nat_alt)
  show "q \<in> set (batch n base) \<Longrightarrow> base \<le> q \<and> q < base + word_of_nat n"
    using u by (auto simp: batch_def word_less_nat_alt word_le_nat_alt)
  show "distinct (batch n base)" using s strict_sorted_iff by blast
qed

definition done_results :: "CommitSlot list \<Rightarrow> u64 list" where
  "done_results slots = map sl_result (filter (\<lambda>s. sl_state s = SLOT_DONE) slots)"

lemma done_results_simps [simp]:
  "done_results [] = []"
  "done_results (s # slots) = (if sl_state s = SLOT_DONE then [sl_result s] else []) @ done_results slots"
  by (simp_all add: done_results_def)

lemma done_results_update:
  assumes "i < length slots"
  shows "mset (done_results (slots[i := s])) + (if sl_state (slots ! i) = SLOT_DONE then {#sl_result (slots ! i)#} else {#}) =
    mset (done_results slots) + (if sl_state s = SLOT_DONE then {#sl_result s#} else {#})"
  using assms
proof (induction slots arbitrary: i)
  case (Cons a slots)
  show ?case
  proof (cases i)
    case (Suc j)
    then show ?thesis using Cons.IH [of j] Cons.prems by (auto simp: add.assoc)
  qed (auto simp: algebra_simps)
qed simp

text \<open>Which flags of a pass still refer to pending slots.\<close>

definition flags_ok :: "bool list \<Rightarrow> CommitSlot list \<Rightarrow> bool" where
  "flags_ok pending slots \<longleftrightarrow> list_all2 (\<lambda>p s. p \<longrightarrow> sl_state s = SLOT_PENDING) pending slots"

lemma assign_slots_props:
  "flags_ok pending slots \<Longrightarrow>
   mset (done_results (assign_slots slots pending base a)) =
     mset (done_results slots) + mset (map (\<lambda>i. base + a + word_of_nat i) [0..<pending_count pending]) \<and>
   length (assign_slots slots pending base a) = length slots \<and>
   (\<forall>i < length slots. \<not> pending ! i \<longrightarrow> assign_slots slots pending base a ! i = slots ! i)"
proof (induction slots pending base a rule: assign_slots.induct)
  case (1 s slots p pending base a)
  have upt: "[0..<Suc n] = 0 # map Suc [0..<n]" for n by (simp add: upt_conv_Cons map_Suc_upt del: upt_Suc)
  show ?case
  proof (cases p)
    case True
    then have "mset (map (\<lambda>i. base + a + word_of_nat i) [0..<pending_count (p # pending)]) =
        {#base + a#} + mset (map (\<lambda>i. base + (a + 1) + word_of_nat i) [0..<pending_count pending])"
      by (simp add: pending_count_def upt comp_def algebra_simps del: upt_Suc)
    then show ?thesis
      using 1 True by (auto simp: flags_ok_def nth_Cons algebra_simps split: nat.splits)
  next
    case False
    then show ?thesis using 1 by (auto simp: flags_ok_def pending_count_def nth_Cons split: nat.splits)
  qed
qed (auto simp: flags_ok_def pending_count_def)

lemma find_free_props:
  "find_free owners k = Some i \<Longrightarrow> k \<le> i \<and> i - k < length owners \<and> owners ! (i - k) = 0"
proof (induction owners k rule: find_free.induct)
  case (2 own owners k)
  then show ?case by (auto split: if_splits simp: nth_Cons' Suc_diff_le dest: Suc_leD)
qed simp

section \<open>The invariant\<close>

fun in_batch :: "CombinerPhase \<Rightarrow> u64 list" where
  "in_batch Unlocked = []"
| "in_batch (Fetched pending base_seq) = batch (pending_count pending) base_seq"
| "in_batch (Registered pending base_seq) = batch (pending_count pending) base_seq"

fun unregistered :: "CombinerPhase \<Rightarrow> u64 list" where
  "unregistered (Fetched pending base_seq) = batch (pending_count pending) base_seq"
| "unregistered _ = []"

fun phase_flags :: "CombinerPhase \<Rightarrow> CommitSlot list \<Rightarrow> bool" where
  "phase_flags Unlocked slots \<longleftrightarrow> True"
| "phase_flags (Fetched pending base_seq) slots \<longleftrightarrow> flags_ok pending slots"
| "phase_flags (Registered pending base_seq) slots \<longleftrightarrow> flags_ok pending slots"

definition slots_inv :: "CommitSequenceCombiner \<Rightarrow> bool" where
  "slots_inv c \<longleftrightarrow> length (cc_slots c) = 64 \<and> length (cc_owners c) = 64 \<and>
     (\<forall>i < 64. cc_owners c ! i = 0 \<longrightarrow> sl_state (cc_slots c ! i) = SLOT_EMPTY)"

definition sys_inv :: "bool \<Rightarrow> System \<Rightarrow> bool" where
  "sys_inv strict y \<longleftrightarrow>
     slots_inv (sy_combiner y) \<and> phase_flags (sy_phase y) (cc_slots (sy_combiner y)) \<and>
     finite (sy_unfinished y) \<and>
     mset (done_results (cc_slots (sy_combiner y))) + mset (sy_held y) + mset (in_batch (sy_phase y)) =
       mset_set (sy_unfinished y) \<and>
     sorted_wrt (<) (tm_active_commits (sy_mgr y) @ unregistered (sy_phase y)) \<and>
     set (tm_active_commits (sy_mgr y) @ unregistered (sy_phase y)) = sy_unfinished y \<and>
     (\<forall>q \<in> sy_unfinished y. q < cc_next_commit_seq (sy_combiner y)) \<and>
     tm_stable_commit_seq (sy_mgr y) < cc_next_commit_seq (sy_combiner y) \<and>
     (strict \<longrightarrow> (\<forall>q \<in> sy_unfinished y. tm_stable_commit_seq (sy_mgr y) < q))"

lemma flags_ok_update:
  assumes "flags_ok pending slots" "sl_state s = SLOT_PENDING \<or> sl_state (slots ! i) \<noteq> SLOT_PENDING"
  shows "flags_ok pending (slots[i := s])"
  using assms by (cases "i < length slots") (auto simp: flags_ok_def list_all2_conv_all_nth nth_list_update)

lemma phase_flags_update:
  assumes "phase_flags ph slots" "sl_state s = SLOT_PENDING \<or> sl_state (slots ! i) \<noteq> SLOT_PENDING"
  shows "phase_flags ph (slots[i := s])"
  using assms flags_ok_update by (cases ph) auto

lemma sys_inv_new: "initial_commit_seq \<noteq> 0 \<Longrightarrow> sys_inv strict (system_new initial_txn_id initial_commit_seq)"
proof -
  assume "initial_commit_seq \<noteq> 0"
  then have "initial_commit_seq - 1 < initial_commit_seq" "1 \<le> initial_commit_seq"
    by (simp_all add: word_less_nat_alt word_le_nat_alt unat_minus_one unat_gt_0 Suc_leI)
  moreover have "done_results (replicate n CommitSlot_new) = []" for n
    by (induction n) (simp_all add: CommitSlot_new_def)
  ultimately show ?thesis
    by (simp add: sys_inv_def slots_inv_def system_new_def TxnManager_new_def combiner_new_def
        u64_saturating_sub_def MAX_COMMIT_THREADS_def CommitSlot_new_def)
qed

lemma inv_request:
  assumes inv: "sys_inv strict y" and claim: "claim_slot tid (sy_combiner y) = Some (i, c)" and tid: "tid \<noteq> 0"
  shows "sys_inv strict (with_combiner (publish_request i c) y)"
proof -
  let ?c = "sy_combiner y"
  have si: "slots_inv ?c" using inv by (simp add: sys_inv_def)
  have c: "c = ?c\<lparr>cc_owners := (cc_owners ?c)[i := tid]\<rparr>" and i: "i < 64" "cc_owners ?c ! i = 0"
    using claim si find_free_props [of "cc_owners ?c" 0 i]
    by (auto simp: claim_slot_def slots_inv_def split: option.splits)
  then have empty: "sl_state (cc_slots ?c ! i) = SLOT_EMPTY" using si by (simp add: slots_inv_def)
  let ?s = "(cc_slots ?c ! i)\<lparr>sl_state := SLOT_PENDING\<rparr>"
  have pc: "publish_request i c = ?c\<lparr>cc_slots := (cc_slots ?c)[i := ?s], cc_owners := (cc_owners ?c)[i := tid]\<rparr>"
    by (simp add: publish_request_def c)
  have "mset (done_results ((cc_slots ?c)[i := ?s])) = mset (done_results (cc_slots ?c))"
    using done_results_update [of i "cc_slots ?c" ?s] i si empty by (simp add: slots_inv_def)
  moreover have "phase_flags (sy_phase y) ((cc_slots ?c)[i := ?s])"
    using inv by (intro phase_flags_update) (simp_all add: sys_inv_def)
  moreover have "slots_inv (publish_request i c)"
    using si tid i by (auto simp: pc slots_inv_def nth_list_update)
  ultimately show ?thesis using inv by (simp add: sys_inv_def with_combiner_def pc)
qed

lemma pending_count_le: "pending_count (pending_slots slots) \<le> length slots"
  by (simp add: pending_count_def pending_slots_def le_trans [OF length_filter_le])

lemma inv_fetch:
  assumes inv: "sys_inv strict y" and free: "sy_phase y = Unlocked"
    and fetch: "combine_fetch (sy_combiner y) = Some (Some (pending, base_seq), c)"
  shows "sys_inv strict ((with_combiner c y)\<lparr>sy_phase := Fetched pending base_seq,
      sy_unfinished := sy_unfinished y \<union> set (batch (pending_count pending) base_seq)\<rparr>)"
proof -
  let ?c = "sy_combiner y" and ?n = "pending_count pending"
  have p: "pending = pending_slots (cc_slots ?c)" and b: "base_seq = cc_next_commit_seq ?c"
    and ov: "base_seq < - 1 - word_of_nat ?n" "word_of_nat ?n \<noteq> (0 :: u64)"
    and c: "c = ?c\<lparr>cc_next_commit_seq := base_seq + word_of_nat ?n\<rparr>"
    using fetch by (auto simp: combine_fetch_def Let_def split: if_splits)
  have "?n \<le> 64" using pending_count_le [of "cc_slots ?c"] inv unfolding p sys_inv_def slots_inv_def by metis
  then have room: "unat base_seq + ?n < 2 ^ 64" using fetch_no_overflow [OF ov(1)] by simp
  note bf = batch_facts [OF room]
  have n: "?n \<noteq> 0" using ov(2) by (intro notI) simp
  have nxt: "base_seq < base_seq + word_of_nat ?n"
    using unat_add_word_of_nat [OF room] n by (simp add: word_less_nat_alt)
  have below: "\<forall>q \<in> sy_unfinished y. q < base_seq" using inv b by (simp add: sys_inv_def)
  have disj: "sy_unfinished y \<inter> set (batch ?n base_seq) = {}" using below bf(2) by (meson disjoint_iff leD)
  have "mset_set (sy_unfinished y \<union> set (batch ?n base_seq)) = mset_set (sy_unfinished y) + mset (batch ?n base_seq)"
    using inv disj bf(3) by (simp add: sys_inv_def mset_set_Union mset_set_set)
  moreover have "flags_ok pending (cc_slots ?c)"
    by (simp add: p flags_ok_def pending_slots_def list_all2_conv_all_nth)
  moreover have "sorted_wrt (<) (tm_active_commits (sy_mgr y) @ batch ?n base_seq)"
  proof -
    have "sorted_wrt (<) (tm_active_commits (sy_mgr y))" "set (tm_active_commits (sy_mgr y)) = sy_unfinished y"
      using inv free by (simp_all add: sys_inv_def)
    then show ?thesis using bf(1) below bf(2) by (auto simp: sorted_wrt_append intro: less_le_trans)
  qed
  moreover have "\<forall>q \<in> sy_unfinished y \<union> set (batch ?n base_seq). q < base_seq + word_of_nat ?n"
    using below bf(2) nxt by (auto intro: less_trans)
  moreover have st: "tm_stable_commit_seq (sy_mgr y) < base_seq" using inv b by (simp add: sys_inv_def)
  moreover have "strict \<longrightarrow> (\<forall>q \<in> sy_unfinished y \<union> set (batch ?n base_seq). tm_stable_commit_seq (sy_mgr y) < q)"
    using inv st bf(2) by (auto simp: sys_inv_def intro: less_le_trans)
  moreover have "slots_inv c" using inv by (simp add: sys_inv_def slots_inv_def c)
  ultimately show ?thesis
    using inv free nxt by (simp add: sys_inv_def with_combiner_def c less_trans [OF st nxt])
qed

lemma inv_register:
  assumes "sys_inv strict y" "sy_phase y = Fetched pending base_seq"
  shows "sys_inv strict (y\<lparr>sy_phase := Registered pending base_seq,
      sy_mgr := (sy_mgr y)\<lparr>tm_active_commits := combine_register pending base_seq (tm_active_commits (sy_mgr y))\<rparr>\<rparr>)"
  using assms by (simp add: sys_inv_def combine_register_def)

lemma flags_ok_length: "flags_ok pending slots \<Longrightarrow> length pending = length slots"
  by (simp add: flags_ok_def list_all2_lengthD)

lemma inv_assign:
  assumes inv: "sys_inv strict y" and ph: "sy_phase y = Registered pending base_seq"
  shows "sys_inv strict ((with_combiner (combine_assign pending base_seq (sy_combiner y)) y)\<lparr>sy_phase := Unlocked\<rparr>)"
proof -
  let ?slots = "cc_slots (sy_combiner y)" and ?b = "batch (pending_count pending) base_seq"
  have fl: "flags_ok pending ?slots" using inv ph by (simp add: sys_inv_def)
  note ap = assign_slots_props [OF fl, of base_seq 0]
  have "mset (done_results (assign_slots ?slots pending base_seq 0)) = mset (done_results ?slots) + mset ?b"
    using ap by (simp add: batch_def)
  moreover have "slots_inv (combine_assign pending base_seq (sy_combiner y))"
    unfolding slots_inv_def
  proof (intro conjI allI impI)
    have si: "slots_inv (sy_combiner y)" using inv by (simp add: sys_inv_def)
    then show "length (cc_slots (combine_assign pending base_seq (sy_combiner y))) = 64"
      "length (cc_owners (combine_assign pending base_seq (sy_combiner y))) = 64"
      using ap by (simp_all add: combine_assign_def slots_inv_def)
    fix i :: nat assume i: "i < 64" "cc_owners (combine_assign pending base_seq (sy_combiner y)) ! i = 0"
    then have "sl_state (?slots ! i) = SLOT_EMPTY" "i < length ?slots" using si by (simp_all add: combine_assign_def slots_inv_def)
    moreover from this have "\<not> pending ! i" using fl by (auto simp: flags_ok_def list_all2_conv_all_nth)
    ultimately show "sl_state (cc_slots (combine_assign pending base_seq (sy_combiner y)) ! i) = SLOT_EMPTY"
      using ap by (simp add: combine_assign_def)
  qed
  ultimately show ?thesis
    using inv ph by (simp add: sys_inv_def with_combiner_def combine_assign_def add_ac)
qed

lemma inv_collect:
  assumes inv: "sys_inv strict y" and i: "i < length (cc_slots (sy_combiner y))"
    and take: "take_result i (sy_combiner y) = Some (seq, c)"
  shows "sys_inv strict ((with_combiner c y)\<lparr>sy_held := seq # sy_held y\<rparr>)"
proof -
  let ?c = "sy_combiner y"
  let ?s = "(cc_slots ?c ! i)\<lparr>sl_state := SLOT_EMPTY\<rparr>"
  have dn: "sl_state (cc_slots ?c ! i) = SLOT_DONE" and seq: "seq = sl_result (cc_slots ?c ! i)"
    and c: "c = ?c\<lparr>cc_slots := (cc_slots ?c)[i := ?s], cc_owners := (cc_owners ?c)[i := 0]\<rparr>"
    using take by (auto simp: take_result_def Let_def split: if_splits)
  have "mset (done_results (cc_slots ?c)) = mset (done_results ((cc_slots ?c)[i := ?s])) + {#seq#}"
    using done_results_update [OF i, of ?s] dn seq by simp
  moreover have "phase_flags (sy_phase y) ((cc_slots ?c)[i := ?s])"
    using inv dn by (intro phase_flags_update) (simp_all add: sys_inv_def)
  moreover have "slots_inv c"
  proof -
    have si: "slots_inv ?c" using inv by (simp add: sys_inv_def)
    then show ?thesis using i by (auto simp: slots_inv_def c nth_list_update)
  qed
  ultimately show ?thesis using inv by (simp add: sys_inv_def with_combiner_def c)
qed

lemma saturating_pred: "u64_saturating_sub q 1 \<le> q" "q \<noteq> 0 \<Longrightarrow> u64_saturating_sub q 1 < q"
proof -
  show lt: "u64_saturating_sub q 1 < q" if "q \<noteq> 0" for q
  proof -
    have "unat q \<noteq> 0" using that by (simp add: unat_eq_0)
    then have "1 \<le> q" by (simp add: word_le_nat_alt)
    then have "unat (q - 1) = unat q - 1" by (simp add: unat_sub)
    then show ?thesis using \<open>1 \<le> q\<close> \<open>unat q \<noteq> 0\<close> by (simp add: u64_saturating_sub_def word_less_nat_alt)
  qed
  show "u64_saturating_sub q 1 \<le> q"
    using lt [of q] by (cases "q = 0") (simp_all add: u64_saturating_sub_def)
qed

lemma inv_finish:
  assumes inv: "sys_inv strict y" and held: "seq \<in> set (sy_held y)"
    and quiet: "strict \<longrightarrow> (\<forall>pending base_seq. sy_phase y \<noteq> Fetched pending base_seq)"
  shows "sys_inv strict (y\<lparr>sy_mgr := finish_commit_seq seq (sy_mgr y),
      sy_unfinished := sy_unfinished y - {seq}, sy_held := remove1 seq (sy_held y)\<rparr>)"
proof -
  let ?m = "sy_mgr y" and ?u = "unregistered (sy_phase y)"
  let ?next = "cc_next_commit_seq (tm_combiner ?m)" and ?active = "remove1 seq (tm_active_commits ?m)"
  have sorted: "sorted_wrt (<) (tm_active_commits ?m @ ?u)" and set: "set (tm_active_commits ?m) \<union> set ?u = sy_unfinished y"
    and below: "\<And>q. q \<in> sy_unfinished y \<Longrightarrow> q < ?next" and fin: "finite (sy_unfinished y)"
    and ms: "mset (done_results (cc_slots (tm_combiner ?m))) + mset (sy_held y) + mset (in_batch (sy_phase y)) = mset_set (sy_unfinished y)"
    using inv by (simp_all add: sys_inv_def)
  have dist: "distinct (tm_active_commits ?m @ ?u)" using sorted strict_sorted_iff by blast
  have seq: "seq \<in> sy_unfinished y"
    using held ms fin by (metis UnCI finite_set_mset_mset_set set_mset_mset set_mset_union)
  have nu: "seq \<notin> set ?u"
  proof
    assume "seq \<in> set ?u"
    then have "seq \<in># mset (in_batch (sy_phase y))" by (cases "sy_phase y") auto
    then have "count (mset (in_batch (sy_phase y))) seq > 0" "count (mset (sy_held y)) seq > 0" using held by simp_all
    moreover have "count (mset (done_results (cc_slots (tm_combiner ?m)))) seq + count (mset (sy_held y)) seq +
        count (mset (in_batch (sy_phase y))) seq = 1"
      using seq fin unfolding count_union [symmetric] ms by simp
    ultimately show False by linarith
  qed
  have active: "?active @ ?u = remove1 seq (tm_active_commits ?m @ ?u)"
    using nu by (cases "seq \<in> set (tm_active_commits ?m)") (simp_all add: remove1_append remove1_idem)
  have sorted': "sorted_wrt (<) (?active @ ?u)"
    unfolding active using sorted strict_sorted_iff by (metis distinct_remove1 sorted_remove1)
  have set': "set (?active @ ?u) = sy_unfinished y - {seq}"
    unfolding active using dist set by (simp add: set_remove1_eq)
  have ms': "mset (done_results (cc_slots (tm_combiner ?m))) + mset (remove1 seq (sy_held y)) + mset (in_batch (sy_phase y)) =
      mset_set (sy_unfinished y - {seq})"
  proof -
    obtain H where H: "mset (sy_held y) = add_mset seq H" using held by (metis multi_member_split set_mset_mset)
    have "mset_set (sy_unfinished y) = add_mset seq (mset_set (sy_unfinished y - {seq}))"
      using fin seq by (rule mset_set.remove)
    then have "mset (done_results (cc_slots (tm_combiner ?m))) + H + mset (in_batch (sy_phase y)) = mset_set (sy_unfinished y - {seq})"
      using ms unfolding H by simp
    then show ?thesis by (simp add: H)
  qed
  define ns where "ns = (case ?active of a # _ \<Rightarrow> u64_saturating_sub a 1 | [] \<Rightarrow> u64_saturating_sub ?next 1)"
  have fm: "finish_commit_seq seq ?m = ?m\<lparr>tm_active_commits := ?active, tm_stable_commit_seq := max (tm_stable_commit_seq ?m) ns\<rparr>"
    by (simp add: finish_commit_seq_def Let_def ns_def)
  have ns: "ns < ?next \<and> (strict \<longrightarrow> (\<forall>q \<in> sy_unfinished y - {seq}. ns < q))"
  proof (cases ?active)
    case Nil
    have "?next \<noteq> 0" using below [OF seq] by (auto simp: word_less_nat_alt)
    moreover have "sy_unfinished y - {seq} = {}" if strict
    proof -
      have "?u = []" using quiet that by (cases "sy_phase y") auto
      then show ?thesis using set' Nil by simp
    qed
    ultimately show ?thesis using saturating_pred(2) Nil by (auto simp: ns_def)
  next
    case (Cons a rest)
    have aU: "a \<in> sy_unfinished y" using set' Cons by auto
    have le: "ns \<le> a" using saturating_pred(1) Cons by (simp add: ns_def)
    moreover have "ns < q" if strict "q \<in> sy_unfinished y - {seq}" for q
    proof -
      have "?u = []" using quiet that by (cases "sy_phase y") auto
      then have "a \<le> q" using set' sorted' Cons that(2) by (auto simp: less_imp_le)
      moreover have "a \<noteq> 0" using inv that(1) aU by (auto simp: sys_inv_def word_less_nat_alt)
      ultimately show ?thesis using saturating_pred(2) [of a] Cons by (simp add: ns_def)
    qed
    ultimately show ?thesis using below [OF aU] by (auto intro: le_less_trans)
  qed
  have "max (tm_stable_commit_seq ?m) ns < ?next" using ns inv by (simp add: sys_inv_def)
  moreover have "strict \<longrightarrow> (\<forall>q \<in> sy_unfinished y - {seq}. max (tm_stable_commit_seq ?m) ns < q)"
    using ns inv by (simp add: sys_inv_def)
  ultimately show ?thesis
    using inv fin below sorted' set' ms' by (simp add: sys_inv_def fm)
qed

lemma sys_inv_step: "sys_step strict y y' \<Longrightarrow> sys_inv strict y \<Longrightarrow> sys_inv strict y'"
  by (induction rule: sys_step.induct)
    (blast intro: inv_request inv_fetch inv_register inv_assign inv_collect inv_finish)+

lemma sys_reachable_inv: "sys_reachable strict y \<Longrightarrow> sys_inv strict y"
  by (induction rule: sys_reachable.induct) (blast intro: sys_inv_new sys_inv_step)+

lemma current_commit_counter_le:
  assumes "tm_stable_commit_seq m < q"
  shows "current_commit_counter m \<le> q"
proof -
  have "tm_stable_commit_seq m \<noteq> - 1" using assms by auto
  then show ?thesis using assms by (simp add: current_commit_counter_def word_less_nat_alt word_le_nat_alt unat_word_ariths)
qed

section \<open>Properties\<close>

text \<open>A run of two committers: the first has its sequence and the second is in the middle of a
  combining pass.\<close>

definition demo_requested :: "u64 \<Rightarrow> System \<Rightarrow> System" where
  "demo_requested tid y =
     (case claim_slot tid (sy_combiner y) of Some (i, c) \<Rightarrow> with_combiner (publish_request i c) y | None \<Rightarrow> y)"

definition demo_fetched :: "System \<Rightarrow> System" where
  "demo_fetched y =
     (case combine_fetch (sy_combiner y) of
        Some (Some (pending, base_seq), c) \<Rightarrow>
          (with_combiner c y)\<lparr>sy_phase := Fetched pending base_seq,
            sy_unfinished := sy_unfinished y \<union> set (batch (pending_count pending) base_seq)\<rparr>
      | _ \<Rightarrow> y)"

definition demo_combined :: "System \<Rightarrow> System" where
  "demo_combined y =
     (case sy_phase y of
        Fetched pending base_seq \<Rightarrow>
          (with_combiner (combine_assign pending base_seq (sy_combiner y))
             (y\<lparr>sy_phase := Registered pending base_seq,
                sy_mgr := (sy_mgr y)\<lparr>tm_active_commits := combine_register pending base_seq (tm_active_commits (sy_mgr y))\<rparr>\<rparr>))
          \<lparr>sy_phase := Unlocked\<rparr>
      | _ \<Rightarrow> y)"

definition demo_collected :: "nat \<Rightarrow> System \<Rightarrow> System" where
  "demo_collected i y =
     (case take_result i (sy_combiner y) of
        Some (seq, c) \<Rightarrow> (with_combiner c y)\<lparr>sy_held := seq # sy_held y\<rparr> | None \<Rightarrow> y)"

definition demo_one :: System where
  "demo_one = demo_collected 0 (demo_combined (demo_fetched (demo_requested 1 (system_new 1 1))))"

definition demo_two :: System where
  "demo_two = demo_fetched (demo_requested 2 demo_one)"

lemma demo_requested_reachable: "sys_reachable strict y \<Longrightarrow> tid \<noteq> 0 \<Longrightarrow> sys_reachable strict (demo_requested tid y)"
  by (auto simp: demo_requested_def split: option.splits intro: sys_reachable.step sys_step.request)

lemma demo_fetched_reachable: "sys_reachable strict y \<Longrightarrow> sy_phase y = Unlocked \<Longrightarrow> sys_reachable strict (demo_fetched y)"
  by (auto simp: demo_fetched_def split: option.splits intro: sys_reachable.step sys_step.fetch)

lemma demo_combined_reachable: "sys_reachable strict y \<Longrightarrow> sys_reachable strict (demo_combined y)"
proof (cases "sy_phase y")
  case (Fetched pending base_seq)
  assume "sys_reachable strict y"
  then show ?thesis
    using sys_reachable.step [OF sys_reachable.step [OF _ sys_step.register [OF Fetched]] sys_step.assign] Fetched
    by (fastforce simp: demo_combined_def)
qed (simp_all add: demo_combined_def)

lemma demo_collected_reachable:
  "sys_reachable strict y \<Longrightarrow> i < length (cc_slots (sy_combiner y)) \<Longrightarrow> sys_reachable strict (demo_collected i y)"
  by (auto simp: demo_collected_def split: option.splits intro: sys_reachable.step sys_step.collect)

lemma demo_run:
  "sy_phase demo_one = Unlocked" "sy_held demo_two = [1]" "sy_unfinished demo_two = {1, 2}"
  "tm_active_commits (sy_mgr demo_two) = [1]" "cc_next_commit_seq (sy_combiner demo_two) = 3"
  "tm_stable_commit_seq (sy_mgr demo_two) = 0"
  by code_simp+

lemma demo_two_reachable: "sys_reachable strict demo_two"
proof -
  have "sys_reachable strict (demo_requested 1 (system_new 1 1))"
    by (intro demo_requested_reachable sys_reachable.start) simp_all
  moreover have "sy_phase (demo_requested 1 (system_new 1 1)) = Unlocked"
    "0 < length (cc_slots (sy_combiner (demo_combined (demo_fetched (demo_requested 1 (system_new 1 1))))))"
    "sy_phase (demo_requested 2 demo_one) = Unlocked"
    by code_simp+
  ultimately have "sys_reachable strict demo_one" unfolding demo_one_def
    by (intro demo_collected_reachable demo_combined_reachable demo_fetched_reachable)
  then show ?thesis
    unfolding demo_two_def using \<open>sy_phase (demo_requested 2 demo_one) = Unlocked\<close>
    by (intro demo_fetched_reachable demo_requested_reachable) simp_all
qed

text \<open>Commit sequences are unique.  In every interleaving of requests, combining passes, slot
  polls and finishing commits, the sequences waiting in done slots, those held by committers and
  those of the pass in progress are pairwise different, all below the counter, and together are
  exactly the unfinished ones.\<close>

theorem commit_seqs_unique:
  assumes "sys_reachable strict y"
  shows "distinct (done_results (cc_slots (sy_combiner y)) @ sy_held y @ in_batch (sy_phase y)) \<and>
    set (done_results (cc_slots (sy_combiner y)) @ sy_held y @ in_batch (sy_phase y)) = sy_unfinished y \<and>
    (\<forall>q \<in> sy_unfinished y. q < cc_next_commit_seq (sy_combiner y))"
proof -
  let ?xs = "done_results (cc_slots (sy_combiner y)) @ sy_held y @ in_batch (sy_phase y)"
  have inv: "sys_inv strict y" using assms by (rule sys_reachable_inv)
  then have ms: "mset ?xs = mset_set (sy_unfinished y)" and fin: "finite (sy_unfinished y)"
    by (simp_all add: sys_inv_def add_ac)
  have set: "set ?xs = sy_unfinished y" using arg_cong [OF ms, of set_mset] fin by simp
  moreover have "distinct ?xs"
    unfolding distinct_count_atmost_1 using ms fin set by (simp add: count_mset_set')
  ultimately show ?thesis using inv by (simp add: sys_inv_def)
qed

theorem commit_seqs_unique_witness:
  "distinct (sy_held demo_two @ in_batch (sy_phase demo_two)) \<and>
   sy_unfinished demo_two = {1, 2}"
  using commit_seqs_unique [OF demo_two_reachable [of False]] demo_run(3) by simp

text \<open>C4: INV-6, atomic visibility.  As long as no commit finishes between the counter update of a
  combining pass and the registration of its batch, the commit counter from which snapshots are
  taken never exceeds an unfinished commit sequence: a snapshot includes no commit that is still
  being published.\<close>

theorem commit_watermark_safe:
  assumes "sys_reachable True y" "q \<in> sy_unfinished y"
  shows "tm_stable_commit_seq (sy_mgr y) < q \<and> current_commit_counter (sy_mgr y) \<le> q"
proof -
  have "tm_stable_commit_seq (sy_mgr y) < q"
    using sys_reachable_inv [OF assms(1)] assms(2) by (simp add: sys_inv_def)
  then show ?thesis using current_commit_counter_le by blast
qed

theorem commit_watermark_safe_witness:
  "current_commit_counter (sy_mgr demo_two) \<le> 1 \<and> 1 \<in> sy_unfinished demo_two"
  using commit_watermark_safe [OF demo_two_reachable, of 1] demo_run(3) by simp

text \<open>C33: the watermark race.  The combiner takes its batch from the counter before it registers it
  as active, and \<open>finish_commit_seq\<close> of another commit can run in between: with no other active
  commit it moves the watermark to the counter, past sequences whose commits have not published
  anything yet.  A snapshot taken then includes an unfinished commit.\<close>

theorem commit_watermark_race:
  "\<exists>y q. sys_reachable False y \<and> q \<in> sy_unfinished y \<and> q < current_commit_counter (sy_mgr y)"
proof -
  let ?y = "demo_two\<lparr>sy_mgr := finish_commit_seq 1 (sy_mgr demo_two),
      sy_unfinished := sy_unfinished demo_two - {1}, sy_held := remove1 1 (sy_held demo_two)\<rparr>"
  have "sys_reachable False ?y"
    using demo_run(2) by (intro sys_reachable.step [OF demo_two_reachable] sys_step.finish) simp_all
  moreover have "2 \<in> sy_unfinished ?y" using demo_run(3) by simp
  moreover have "current_commit_counter (sy_mgr ?y) = 3"
    using demo_run(4-6) by (simp add: finish_commit_seq_def current_commit_counter_def u64_saturating_sub_def)
  ultimately show ?thesis by (intro exI [of _ ?y] exI [of _ 2]) simp
qed

text \<open>INV-1, transaction identifiers.  An allocated identifier is the counter's value, is in
  range and not zero, and is smaller than every identifier allocated later; once the range is
  used up the counter stays and nothing is allocated.\<close>

theorem txn_ids_increasing:
  assumes "alloc_txn_id m = (r, m')"
  shows "(case r of
      Some t \<Rightarrow> t = tm_next_txn_id m \<and> 0 < t \<and> t \<le> MAX_RAW \<and> tm_next_txn_id m' = t + 1 \<and>
        (\<forall>m2 t2 m3. t < tm_next_txn_id m2 \<longrightarrow> alloc_txn_id m2 = (Some t2, m3) \<longrightarrow> t < t2 \<and> t < tm_next_txn_id m3)
    | None \<Rightarrow> tm_next_txn_id m = 0 \<or> MAX_RAW < tm_next_txn_id m \<and> m' = m)"
proof -
  have max: "unat MAX_RAW = 2 ^ 62 - 1" by (simp add: MAX_RAW_def)
  have suc: "t < t + 1" if "t \<le> MAX_RAW" for t
  proof -
    have "unat t + 1 < 2 ^ 64" using that max by (simp add: word_le_nat_alt)
    then show ?thesis by (simp add: unat_word_ariths word_less_nat_alt)
  qed
  have big: "MAX_RAW < - 1" by (simp add: MAX_RAW_def)
  show ?thesis
    using assms big suc
    by (auto simp: alloc_txn_id_def TxnId_new_def Let_def word_gt_0 not_less split: if_splits option.splits intro: less_trans)
qed

theorem txn_ids_increasing_witness:
  "\<exists>m'. alloc_txn_id (TxnManager_new 7 1) = (Some 7, m') \<and> tm_next_txn_id m' = 8"
proof -
  obtain r m' where r: "alloc_txn_id (TxnManager_new 7 1) = (r, m')" by (cases "alloc_txn_id (TxnManager_new 7 1)")
  moreover have "r = Some 7" using r by (auto simp: alloc_txn_id_def TxnManager_new_def TxnId_new_def MAX_RAW_def Let_def)
  ultimately show ?thesis using txn_ids_increasing [OF r] by (simp add: TxnManager_new_def)
qed

text \<open>INV-7: the mutex changes hands only through its holder's release.\<close>

lemma mutex_handover:
  "fst (try_acquire txn guard) = Inr () \<longleftrightarrow> guard = None \<or> guard = Some txn"
  "guard = Some holder \<Longrightarrow> holder \<noteq> txn \<Longrightarrow> try_acquire txn guard = (Inl holder, guard) \<and> mutex_release txn guard = (False, guard)"
  "snd (try_acquire txn None) = Some txn" "mutex_release txn (Some txn) = (True, None)"
  by (auto simp: try_acquire_def mutex_release_def split: option.splits)

end
