(* ===== verification/Errors.thy ===== *)
theory Errors
  imports Prelude
begin

text \<open>
  The errors of \<open>crates/fsqlite-error\<close> that the storage code returns (the messages without their
  interpolated numbers), and the two result types of the models: a sum for code that returns
  \<open>Result\<close>, and an option around it for code that may also panic.
\<close>

datatype FrankenError =
    DatabaseCorrupt string | WalCorrupt string | TooBig | DatabaseFull | Internal string
  | OutOfRange string | OutOfMemory | Abort | Io string

text \<open>A computation that may panic (the outer \<^const>\<open>None\<close>) or return an error.\<close>

type_synonym 'a result = "(FrankenError + 'a) option"

definition bind_result :: "'a result \<Rightarrow> ('a \<Rightarrow> 'b result) \<Rightarrow> 'b result" where
  "bind_result r f = (case r of None \<Rightarrow> None | Some (Inl e) \<Rightarrow> Some (Inl e) | Some (Inr a) \<Rightarrow> f a)"

lemma bind_result_simps [simp]:
  "bind_result None f = None" "bind_result (Some (Inl e)) f = Some (Inl e)" "bind_result (Some (Inr a)) f = f a"
  by (simp_all add: bind_result_def)

lemma bind_result_Inr: "bind_result r f = Some (Inr b) \<longleftrightarrow> (\<exists>a. r = Some (Inr a) \<and> f a = Some (Inr b))"
  by (auto simp: bind_result_def split: option.splits sum.splits)

definition corrupt :: "string \<Rightarrow> 'a result" where
  "corrupt detail = Some (Inl (DatabaseCorrupt detail))"

definition ok :: "'a \<Rightarrow> 'a result" where
  "ok a = Some (Inr a)"

lemma corrupt_simps [simp]: "corrupt d \<noteq> None" "corrupt d \<noteq> Some (Inr a)"
  by (simp_all add: corrupt_def)

lemma ok_simps [simp]: "ok a \<noteq> None" "ok a = Some (Inr b) \<longleftrightarrow> a = b" "bind_result (ok a) f = f a"
  by (simp_all add: ok_def)

section \<open>Results without panics\<close>

definition bind_err :: "'e + 'a \<Rightarrow> ('a \<Rightarrow> 'e + 'b) \<Rightarrow> 'e + 'b" where
  "bind_err r f = (case r of Inl e \<Rightarrow> Inl e | Inr a \<Rightarrow> f a)"

lemma bind_err_simps [simp]: "bind_err (Inl e) f = Inl e" "bind_err (Inr a) f = f a"
  by (simp_all add: bind_err_def)

lemma bind_err_Inr: "bind_err r f = Inr b \<longleftrightarrow> (\<exists>a. r = Inr a \<and> f a = Inr b)"
  by (cases r) simp_all

end
