(* ===== verification/PageStore.thy ===== *)
theory PageStore
  imports Errors PageTypes "HOL-Library.AList"
begin

text \<open>
  The page interface of \<open>crates/fsqlite-btree/src/cursor.rs\<close>: the traits \<open>PageReader\<close> and \<open>PageWriter\<close>
  as the locale \<open>page_io\<close>, and \<open>MemPageStore\<close>, the store behind transient B-trees, which implements
  it.  The hash map of pages is an association list with distinct keys.
\<close>

section \<open>The in-memory page store\<close>

record MemPageStore =
  ms_pages :: "(u32 \<times> bytes) list"
  ms_page_size :: u32
  ms_page_slots :: "u8 list"

definition MemPageStore_new :: "u32 \<Rightarrow> MemPageStore" where
  "MemPageStore_new page_size = \<lparr>ms_pages = [], ms_page_size = page_size, ms_page_slots = []\<rparr>"

definition page_slot_index :: "u32 \<Rightarrow> nat option" where
  "page_slot_index page_no = (if page_no = 0 then None else Some (unat (page_no - 1)))"

definition resize :: "nat \<Rightarrow> 'a \<Rightarrow> 'a list \<Rightarrow> 'a list" where
  "resize n x xs = take n xs @ replicate (n - length xs) x"

definition set_page_slot_present :: "u32 \<Rightarrow> bool \<Rightarrow> MemPageStore \<Rightarrow> MemPageStore" where
  "set_page_slot_present page_no present s =
     (case page_slot_index page_no of
        None \<Rightarrow> s
      | Some slot_idx \<Rightarrow>
          let slots = (if slot_idx \<ge> length (ms_page_slots s) then resize (slot_idx + 1) 0 (ms_page_slots s)
                       else ms_page_slots s) in
          s\<lparr>ms_page_slots := slots[slot_idx := (if present then 1 else 0)]\<rparr>)"

definition insert_page :: "u32 \<Rightarrow> bytes \<Rightarrow> MemPageStore \<Rightarrow> MemPageStore" where
  "insert_page page_no page s =
     set_page_slot_present page_no True (s\<lparr>ms_pages := AList.update page_no page (ms_pages s)\<rparr>)"

definition empty_root_page :: "u8 \<Rightarrow> u32 \<Rightarrow> bytes option" where
  "empty_root_page flag page_size =
     do { page1 \<leftarrow> buf_set (replicate (unat page_size) 0) 0 flag;
          buf_write page1 5 (to_be 2 page_size) }"

definition init_leaf_table_root :: "u32 \<Rightarrow> MemPageStore \<Rightarrow> MemPageStore option" where
  "init_leaf_table_root pgno s =
     map_option (\<lambda>page. insert_page pgno page s) (empty_root_page 0x0D (ms_page_size s))"

definition with_empty_table :: "u32 \<Rightarrow> u32 \<Rightarrow> MemPageStore option" where
  "with_empty_table root_page page_size =
     map_option (\<lambda>page. insert_page root_page page (MemPageStore_new page_size)) (empty_root_page 0x0D page_size)"

definition with_empty_index :: "u32 \<Rightarrow> u32 \<Rightarrow> MemPageStore option" where
  "with_empty_index root_page page_size =
     map_option (\<lambda>page. insert_page root_page page (MemPageStore_new page_size)) (empty_root_page 0x0A page_size)"

definition read_page :: "u32 \<Rightarrow> MemPageStore \<Rightarrow> FrankenError + bytes" where
  "read_page page_no s =
     (case map_of (ms_pages s) page_no of Some page \<Rightarrow> Inr page | None \<Rightarrow> Inl (Internal ''page not found''))"

definition write_page_data :: "u32 \<Rightarrow> bytes \<Rightarrow> MemPageStore \<Rightarrow> (FrankenError + unit) \<times> MemPageStore" where
  "write_page_data page_no data s =
     (let page_size = unat (ms_page_size s) in
      if length data > page_size
      then (Inl (DatabaseCorrupt ''test page store refused oversized page write''), s)
      else (Inr (), insert_page page_no (put 0 data (replicate page_size 0)) s))"

definition max_key :: "(u32 \<times> bytes) list \<Rightarrow> u32" where
  "max_key ps = (if ps = [] then 1 else fold max (map fst ps) 0)"

definition allocate_page :: "MemPageStore \<Rightarrow> (FrankenError + u32) \<times> MemPageStore" where
  "allocate_page s =
     (case checked_add (max_key (ms_pages s)) 1 of
        None \<Rightarrow> (Inl DatabaseFull, s)
      | Some nxt \<Rightarrow>
          (case PageNumber_new nxt of
             None \<Rightarrow> (Inl DatabaseFull, s)
           | Some pgno \<Rightarrow> (Inr pgno, insert_page nxt (replicate (unat (ms_page_size s)) 0) s)))"

definition free_page :: "u32 \<Rightarrow> MemPageStore \<Rightarrow> (FrankenError + unit) \<times> MemPageStore" where
  "free_page page_no s =
     (Inr (), set_page_slot_present page_no False (s\<lparr>ms_pages := AList.delete page_no (ms_pages s)\<rparr>))"

section \<open>The page interface\<close>

text \<open>What the B-tree code relies on: pages are a partial map, an allocated page was not mapped
  before, writing and freeing touch one page, and a failing operation changes no page.\<close>

locale page_io =
  fixes valid :: "'s \<Rightarrow> bool"
    and pages :: "'s \<Rightarrow> u32 \<Rightarrow> bytes option"
    and size :: "'s \<Rightarrow> nat"
    and rd :: "u32 \<Rightarrow> 's \<Rightarrow> FrankenError + bytes"
    and wr :: "u32 \<Rightarrow> bytes \<Rightarrow> 's \<Rightarrow> (FrankenError + unit) \<times> 's"
    and alloc :: "'s \<Rightarrow> (FrankenError + u32) \<times> 's"
    and free :: "u32 \<Rightarrow> 's \<Rightarrow> (FrankenError + unit) \<times> 's"
  assumes rd_mapped: "valid s \<Longrightarrow> pages s p = Some b \<Longrightarrow> rd p s = Inr b"
    and wr_ok: "valid s \<Longrightarrow> length data = size s \<Longrightarrow> valid_pgno p \<Longrightarrow> wr p data s = (Inr (), s') \<Longrightarrow>
      valid s' \<and> size s' = size s \<and> pages s' = (pages s)(p \<mapsto> data)"
    and wr_err: "valid s \<Longrightarrow> wr p data s = (Inl e, s') \<Longrightarrow> valid s' \<and> size s' = size s \<and> pages s' = pages s"
    and alloc_ok: "valid s \<Longrightarrow> alloc s = (Inr p, s') \<Longrightarrow>
      valid s' \<and> size s' = size s \<and> valid_pgno p \<and> pages s p = None \<and> (\<exists>b. pages s' = (pages s)(p \<mapsto> b))"
    and alloc_err: "valid s \<Longrightarrow> alloc s = (Inl e, s') \<Longrightarrow> valid s' \<and> size s' = size s \<and> pages s' = pages s"
    and free_ok: "valid s \<Longrightarrow> \<exists>s'. free p s = (Inr (), s') \<and> valid s' \<and> size s' = size s \<and> pages s' = (pages s)(p := None)"
begin

text \<open>Freeing a list of pages unmaps exactly these.\<close>

lemma free_list:
  "valid s \<Longrightarrow> valid (fold (\<lambda>p s. snd (free p s)) ps s) \<and> size (fold (\<lambda>p s. snd (free p s)) ps s) = size s \<and>
   pages (fold (\<lambda>p s. snd (free p s)) ps s) = (\<lambda>q. if q \<in> set ps then None else pages s q)"
proof (induction ps arbitrary: s)
  case (Cons p ps)
  obtain s' where s': "free p s = (Inr (), s')" "valid s'" "size s' = size s" "pages s' = (pages s)(p := None)"
    using free_ok [OF Cons.prems] by blast
  then show ?case using Cons.IH [OF s'(2)] by (auto simp: fun_eq_iff)
qed simp

end

definition store_valid :: "MemPageStore \<Rightarrow> bool" where
  "store_valid s \<longleftrightarrow> distinct (map fst (ms_pages s)) \<and> 0 \<notin> fst ` set (ms_pages s)"

lemma set_page_slot_present_same [simp]:
  "ms_pages (set_page_slot_present p b s) = ms_pages s" "ms_page_size (set_page_slot_present p b s) = ms_page_size s"
  by (simp_all add: set_page_slot_present_def Let_def split: option.splits)

lemma insert_page_facts:
  assumes "store_valid s" "valid_pgno p"
  shows "store_valid (insert_page p b s)" "ms_page_size (insert_page p b s) = ms_page_size s"
    "map_of (ms_pages (insert_page p b s)) = (map_of (ms_pages s))(p \<mapsto> b)"
  using assms by (auto simp: insert_page_def store_valid_def distinct_update update_conv' dom_update valid_pgno_def)

lemma max_key_bound: "k \<in> fst ` set ps \<Longrightarrow> k \<le> max_key ps"
proof -
  have *: "x \<le> fold max xs x" "y \<in> set xs \<Longrightarrow> y \<le> fold max xs x" for xs and x y :: u32
    by (induction xs arbitrary: x) (auto intro: order_trans [OF max.cobounded1] order_trans [OF max.cobounded2])
  assume "k \<in> fst ` set ps"
  then show ?thesis using *(2) [of k "map fst ps" 0] by (auto simp: max_key_def)
qed

lemma allocate_fresh:
  assumes "store_valid s" "allocate_page s = (Inr p, s')"
  shows "valid_pgno p \<and> map_of (ms_pages s) p = None \<and> s' = insert_page p (replicate (unat (ms_page_size s)) 0) s"
proof -
  obtain nxt where n: "checked_add (max_key (ms_pages s)) 1 = Some nxt" "PageNumber_new nxt = Some p"
    "s' = insert_page nxt (replicate (unat (ms_page_size s)) 0) s"
    using assms(2) by (auto simp: allocate_page_def split: option.splits)
  have p: "p = nxt" "valid_pgno p" using n(2) by (auto simp: PageNumber_new_Some)
  have "max_key (ms_pages s) < p"
    using checked_add_unat [OF n(1)] p(1) by (simp add: word_less_nat_alt)
  then have "p \<notin> fst ` set (ms_pages s)" using max_key_bound [of p "ms_pages s"] by (meson leD)
  then have "map_of (ms_pages s) p = None" by (simp add: map_of_eq_None_iff)
  then show ?thesis using p n(3) by simp
qed

text \<open>A store whose writes of full pages succeed.\<close>

locale reliable_page_io = page_io +
  assumes wr_total: "valid s \<Longrightarrow> length data = size s \<Longrightarrow> \<exists>s'. wr p data s = (Inr (), s')"

interpretation mem: reliable_page_io store_valid "\<lambda>s. map_of (ms_pages s)" "\<lambda>s. unat (ms_page_size s)"
  read_page write_page_data allocate_page free_page
proof (unfold_locales, goal_cases)
  case (1 s p b)
  then show ?case by (simp add: read_page_def)
next
  case (2 s data p s')
  then show ?case using insert_page_facts [of s p] by (auto simp: write_page_data_def put_def)
next
  case (3 s p data e s')
  then show ?case by (auto simp: write_page_data_def Let_def split: if_splits)
next
  case (4 s p s')
  then show ?case using allocate_fresh [OF 4] insert_page_facts [of s p] by auto
next
  case (5 s e s')
  then show ?case by (auto simp: allocate_page_def split: option.splits)
next
  case (6 s p)
  have "0 \<notin> fst ` set (AList.delete p (ms_pages s))" using 6 dom_delete_subset [of p "ms_pages s"] unfolding store_valid_def by blast
  then show ?case using 6 by (simp add: free_page_def store_valid_def distinct_delete delete_conv')
next
  case (7 s data p)
  then show ?case by (simp add: write_page_data_def)
qed

end
