(* ===== verification/BtreeCell.thy ===== *)
theory BtreeCell
  imports PageStore SerialType
begin

text \<open>
  \<open>crates/fsqlite-btree/src/cell.rs\<close>: the page header of the B-tree layer, the cell pointer
  array, the split of a payload between page and overflow chain, and the parsed cell with its
  fast paths; and \<open>cell_on_page_size\<close> of \<open>payload.rs\<close>.  The enumeration \<open>BtreePageType\<close> of this
  crate is distinct from the one of \<open>fsqlite-types\<close>.
\<close>

section \<open>Page types and the page header\<close>

datatype BtreePageType = InteriorIndex | InteriorTable | LeafIndex | LeafTable

definition from_flag :: "u8 \<Rightarrow> BtreePageType option" where
  "from_flag flag =
     (if flag = 2 then Some InteriorIndex else if flag = 5 then Some InteriorTable
      else if flag = 10 then Some LeafIndex else if flag = 13 then Some LeafTable else None)"

definition flag_of :: "BtreePageType \<Rightarrow> u8" where
  "flag_of t = (case t of InteriorIndex \<Rightarrow> 2 | InteriorTable \<Rightarrow> 5 | LeafIndex \<Rightarrow> 10 | LeafTable \<Rightarrow> 13)"

definition bt_is_interior :: "BtreePageType \<Rightarrow> bool" where
  "bt_is_interior t \<longleftrightarrow> t = InteriorIndex \<or> t = InteriorTable"

definition bt_is_leaf :: "BtreePageType \<Rightarrow> bool" where
  "bt_is_leaf t \<longleftrightarrow> \<not> bt_is_interior t"

definition bt_is_table :: "BtreePageType \<Rightarrow> bool" where
  "bt_is_table t \<longleftrightarrow> t = InteriorTable \<or> t = LeafTable"

definition bt_header_size :: "BtreePageType \<Rightarrow> nat" where
  "bt_header_size t = (if bt_is_interior t then 12 else 8)"

lemmas bt_type_defs = bt_is_interior_def bt_is_leaf_def bt_is_table_def bt_header_size_def

record BtreePageHeader =
  bh_page_type :: BtreePageType
  bh_first_freeblock :: u16
  bh_cell_count :: u16
  bh_cell_content_offset :: u32
  bh_fragmented_free_bytes :: u8
  bh_right_child :: "u32 option"

definition content_offset :: "BtreePageHeader \<Rightarrow> u32 \<Rightarrow> nat" where
  "content_offset h usable_size =
     (if bh_cell_count h = 0 \<or> bh_cell_content_offset h \<ge> 65536 then unat usable_size
      else unat (bh_cell_content_offset h))"

definition bh_parse :: "bytes \<Rightarrow> nat \<Rightarrow> FrankenError + BtreePageHeader" where
  "bh_parse page header_offset =
     (let leaf_end = usize_saturating_add header_offset 8; h = subslice header_offset leaf_end page in
      if leaf_end > length page \<or> length h \<noteq> 8
      then Inl (DatabaseCorrupt ''page too small for B-tree header'')
      else case from_flag (h ! 0) of
        None \<Rightarrow> Inl (DatabaseCorrupt ''invalid B-tree page type flag'')
      | Some page_type \<Rightarrow>
          let raw = from_be [h ! 5, h ! 6] :: u16;
              hdr = \<lparr>bh_page_type = page_type, bh_first_freeblock = from_be [h ! 1, h ! 2],
                     bh_cell_count = from_be [h ! 3, h ! 4],
                     bh_cell_content_offset = (if raw = 0 then 65536 else ucast raw),
                     bh_fragmented_free_bytes = h ! 7, bh_right_child = None\<rparr> in
          if bt_is_interior page_type then
            (if leaf_end + 4 > length page
             then Inl (DatabaseCorrupt ''page too small for interior B-tree header'')
             else case PageNumber_new (from_be (subslice leaf_end (leaf_end + 4) page)) of
               None \<Rightarrow> Inl (DatabaseCorrupt ''interior page has zero right-child pointer'')
             | Some p \<Rightarrow> Inr (hdr\<lparr>bh_right_child := Some p\<rparr>))
          else Inr hdr)"

definition bh_write :: "BtreePageHeader \<Rightarrow> bytes \<Rightarrow> nat \<Rightarrow> bytes option" where
  "bh_write h page header_offset =
     (if header_offset > length page then None else
      do { p0 \<leftarrow> buf_set page header_offset (flag_of (bh_page_type h));
           p1 \<leftarrow> buf_write p0 (header_offset + 1) (to_be 2 (bh_first_freeblock h));
           p2 \<leftarrow> buf_write p1 (header_offset + 3) (to_be 2 (bh_cell_count h));
           p3 \<leftarrow> buf_write p2 (header_offset + 5)
                   (to_be 2 (if bh_cell_content_offset h \<ge> 65536 then 0 else ucast (bh_cell_content_offset h) :: u16));
           p4 \<leftarrow> buf_set p3 (header_offset + 7) (bh_fragmented_free_bytes h);
           (case bh_right_child h of
              None \<Rightarrow> Some p4
            | Some right_child \<Rightarrow> buf_write p4 (header_offset + 8) (to_be 4 right_child)) })"

definition header_offset_for_page :: "u32 \<Rightarrow> nat" where
  "header_offset_for_page page_no = (if page_no = 1 then 100 else 0)"

definition parse_page_header :: "bytes \<Rightarrow> u32 \<Rightarrow> FrankenError + BtreePageHeader" where
  "parse_page_header page page_no =
     (case bh_parse page (header_offset_for_page page_no) of
        Inl e \<Rightarrow> Inl (DatabaseCorrupt ''failed to parse B-tree page'') | Inr h \<Rightarrow> Inr h)"

section \<open>The cell pointer array\<close>

fun chunks2 :: "bytes \<Rightarrow> u16 list" where
  "chunks2 (a # b # bs) = from_be [a, b] # chunks2 bs"
| "chunks2 _ = []"

definition read_cell_pointers :: "bytes \<Rightarrow> BtreePageHeader \<Rightarrow> nat \<Rightarrow> FrankenError + u16 list" where
  "read_cell_pointers page header header_offset =
     (let ptr_array_start = header_offset + bt_header_size (bh_page_type header);
          count = unat (bh_cell_count header);
          ptr_array_end = ptr_array_start + count * 2;
          cell_content_offset = unat (bh_cell_content_offset header) in
      if ptr_array_end > length page then Inl (DatabaseCorrupt ''cell pointer array extends past page'')
      else if count > 0 \<and> cell_content_offset \<ge> length page
      then Inl (DatabaseCorrupt ''non-empty page cell content offset starts outside page'')
      else if ptr_array_end > cell_content_offset
      then Inl (DatabaseCorrupt ''cell pointer array overlaps with cell content area'')
      else Inr (chunks2 (subslice ptr_array_start ptr_array_end page)))"

definition write_cell_pointers :: "bytes \<Rightarrow> nat \<Rightarrow> BtreePageHeader \<Rightarrow> u16 list \<Rightarrow> bytes option" where
  "write_cell_pointers page header_offset header pointers =
     buf_write page (header_offset + bt_header_size (bh_page_type header)) (concat (map (to_be 2) pointers))"

section \<open>Local payload\<close>

definition max_local_payload :: "u32 \<Rightarrow> BtreePageType \<Rightarrow> u32" where
  "max_local_payload usable_size page_type =
     (if bt_is_table page_type \<and> bt_is_leaf page_type then sat_sub usable_size 35
      else sat_sub (sat_sub usable_size 12 * 64 div 255) 23)"

definition min_local_payload :: "u32 \<Rightarrow> u32" where
  "min_local_payload usable_size = sat_sub (sat_sub usable_size 12 * 32 div 255) 23"

definition local_payload_size :: "u32 \<Rightarrow> u32 \<Rightarrow> BtreePageType \<Rightarrow> u32" where
  "local_payload_size payload_size usable_size page_type =
     (let max_local = max_local_payload usable_size page_type in
      if payload_size \<le> max_local then payload_size
      else let min_local = min_local_payload usable_size; surplus = sat_sub usable_size 4 in
        if surplus = 0 then min_local
        else let local = min_local + (payload_size - min_local) mod surplus in
          if local > max_local then min_local else local)"

definition has_overflow :: "u32 \<Rightarrow> u32 \<Rightarrow> BtreePageType \<Rightarrow> bool" where
  "has_overflow payload_size usable_size page_type \<longleftrightarrow> payload_size > max_local_payload usable_size page_type"

section \<open>Cells\<close>

record CellRef =
  cr_left_child :: "u32 option"
  cr_rowid :: "i64 option"
  cr_payload_size :: u32
  cr_local_size :: u32
  cr_payload_offset :: nat
  cr_overflow_page :: "u32 option"

text \<open>\<open>read_varint(&page[pos..])\<close> with its error; slicing past the end panics.\<close>

definition varint_at :: "bytes \<Rightarrow> nat \<Rightarrow> string \<Rightarrow> (u64 \<times> nat) result" where
  "varint_at page pos detail =
     (if pos > length page then None
      else case read_varint (drop pos page) of None \<Rightarrow> corrupt detail | Some r \<Rightarrow> ok r)"

definition page_number_at :: "bytes \<Rightarrow> nat \<Rightarrow> string \<Rightarrow> u32 result" where
  "page_number_at page pos detail =
     (if pos + 4 > length page then None
      else case PageNumber_new (from_be (subslice pos (pos + 4) page)) of None \<Rightarrow> corrupt detail | Some p \<Rightarrow> ok p)"

definition u32_of_u64 :: "u64 \<Rightarrow> string \<Rightarrow> u32 result" where
  "u32_of_u64 w detail = (if w \<le> 0xFFFFFFFF then ok (ucast w) else corrupt detail)"

definition checked_offset :: "nat \<Rightarrow> nat \<Rightarrow> string \<Rightarrow> nat result" where
  "checked_offset a b detail = (case usize_checked_add a b of None \<Rightarrow> corrupt detail | Some c \<Rightarrow> ok c)"

text \<open>The tail both parsers share: bounds of the local payload and the overflow pointer.\<close>

definition cell_tail :: "bytes \<Rightarrow> u32 \<Rightarrow> nat \<Rightarrow> u32 \<Rightarrow> u32 \<Rightarrow> u32 option result" where
  "cell_tail page usable_size payload_offset payload_size local_size =
     bind_result (checked_offset payload_offset (unat local_size) ''cell payload offset overflow'') (\<lambda>local_end.
       if local_end > length page \<or> local_end > unat usable_size
       then corrupt ''cell extends past usable page size (payload bytes)''
       else if local_size < payload_size then
         (if local_end + 4 > length page \<or> local_end + 4 > unat usable_size
          then corrupt ''cell extends past usable page size (overflow pointer)''
          else bind_result (page_number_at page local_end ''cell has zero overflow page pointer'') (\<lambda>p. ok (Some p)))
       else ok None)"

definition parse_leaf_table :: "bytes \<Rightarrow> nat \<Rightarrow> u32 \<Rightarrow> CellRef result" where
  "parse_leaf_table page cell_offset usable_size =
     bind_result (varint_at page cell_offset ''truncated varint in cell (payload size)'') (\<lambda>(raw, ps_len).
     bind_result (u32_of_u64 raw ''cell payload size exceeds 32-bit range'') (\<lambda>payload_size.
     bind_result (checked_offset cell_offset ps_len ''cell offset overflow after payload size'') (\<lambda>rowid_start.
     bind_result (varint_at page rowid_start ''truncated varint in table cell (rowid)'') (\<lambda>(rowid, rowid_len).
     bind_result (checked_offset rowid_start rowid_len ''cell payload offset overflow'') (\<lambda>payload_offset.
       let max_local = sat_sub usable_size 35;
           local_size = (if payload_size \<le> max_local then payload_size
                         else local_payload_size payload_size usable_size LeafTable) in
       bind_result (cell_tail page usable_size payload_offset payload_size local_size) (\<lambda>overflow_page.
         ok \<lparr>cr_left_child = None, cr_rowid = Some rowid, cr_payload_size = payload_size,
             cr_local_size = local_size, cr_payload_offset = payload_offset, cr_overflow_page = overflow_page\<rparr>))))))"

definition left_child_at :: "bytes \<Rightarrow> nat \<Rightarrow> BtreePageType \<Rightarrow> (u32 option \<times> nat) result" where
  "left_child_at page pos page_type =
     (if bt_is_interior page_type then
        (if pos + 4 > length page then corrupt ''cell extends past page (left child)''
         else bind_result (page_number_at page pos ''cell has zero left-child pointer'') (\<lambda>p. ok (Some p, pos + 4)))
      else ok (None, pos))"

definition CellRef_parse :: "bytes \<Rightarrow> nat \<Rightarrow> BtreePageType \<Rightarrow> u32 \<Rightarrow> CellRef result" where
  "CellRef_parse page cell_offset page_type usable_size =
     (if cell_offset > length page then corrupt ''cell offset extends past page length''
      else if page_type = LeafTable then parse_leaf_table page cell_offset usable_size
      else
        bind_result (left_child_at page cell_offset page_type) (\<lambda>(left_child, pos).
        if page_type = InteriorTable then
          bind_result (varint_at page pos ''truncated varint in interior table cell (rowid)'') (\<lambda>(rowid, rowid_len).
            ok \<lparr>cr_left_child = left_child, cr_rowid = Some rowid, cr_payload_size = 0, cr_local_size = 0,
                cr_payload_offset = pos + rowid_len, cr_overflow_page = None\<rparr>)
        else
          bind_result (varint_at page pos ''truncated varint in cell (payload size)'') (\<lambda>(raw, ps_len).
          bind_result (u32_of_u64 raw ''cell payload size exceeds 32-bit range'') (\<lambda>payload_size.
          bind_result
            (if bt_is_table page_type
             then bind_result (varint_at page (pos + ps_len) ''truncated varint in table cell (rowid)'')
                    (\<lambda>(rowid, rowid_len). ok (Some rowid, pos + ps_len + rowid_len))
             else ok (None, pos + ps_len)) (\<lambda>(rowid, payload_offset).
          let local_size = local_payload_size payload_size usable_size page_type in
          bind_result (cell_tail page usable_size payload_offset payload_size local_size) (\<lambda>overflow_page.
            ok \<lparr>cr_left_child = left_child, cr_rowid = rowid, cr_payload_size = payload_size,
                cr_local_size = local_size, cr_payload_offset = payload_offset, cr_overflow_page = overflow_page\<rparr>))))))"

definition read_interior_left_child :: "bytes \<Rightarrow> nat \<Rightarrow> u32 result" where
  "read_interior_left_child page cell_offset =
     (if usize_saturating_add cell_offset 4 > length page then corrupt ''interior cell extends past page (left child)''
      else page_number_at page cell_offset ''interior cell has zero left-child pointer'')"

definition parse_leaf_table_rowid :: "bytes \<Rightarrow> nat \<Rightarrow> i64 result" where
  "parse_leaf_table_rowid page cell_offset =
     (if cell_offset > length page then corrupt ''cell offset extends past page length''
      else
        bind_result (varint_at page cell_offset ''truncated varint in table cell (payload size)'') (\<lambda>(_, ps_len).
        bind_result (checked_offset cell_offset ps_len ''cell offset overflow after payload size'') (\<lambda>rowid_start.
        if rowid_start > length page then corrupt ''cell offset overflow after payload size''
        else bind_result (varint_at page rowid_start ''truncated varint in table cell (rowid)'') (\<lambda>(rowid, _). ok rowid))))"

definition local_payload :: "CellRef \<Rightarrow> bytes \<Rightarrow> bytes option" where
  "local_payload cell page =
     (if cr_payload_offset cell + unat (cr_local_size cell) > length page then None
      else Some (subslice (cr_payload_offset cell) (cr_payload_offset cell + unat (cr_local_size cell)) page))"

definition payload_on_page_size :: "CellRef \<Rightarrow> nat" where
  "payload_on_page_size cell =
     unat (cr_local_size cell) + (if cr_overflow_page cell \<noteq> None then 4 else 0)"

definition cell_on_page_size :: "CellRef \<Rightarrow> nat \<Rightarrow> nat option" where
  "cell_on_page_size cell cell_start =
     (if cr_payload_offset cell < cell_start then None
      else Some (cr_payload_offset cell - cell_start + unat (cr_local_size cell) +
                 (if cr_overflow_page cell \<noteq> None then 4 else 0)))"

definition read_table_leaf_rowid_at_offset :: "bytes \<Rightarrow> nat \<Rightarrow> i64 option" where
  "read_table_leaf_rowid_at_offset page cell_offset =
     (if cell_offset \<ge> length page then None
      else
        let cell = drop cell_offset page in
        do { (_, payload_varint_len) \<leftarrow> read_varint cell;
             if payload_varint_len \<ge> length cell then None
             else do { (rowid, _) \<leftarrow> read_varint (drop payload_varint_len cell); Some rowid } })"

definition cell_on_page_size_fast :: "bytes \<Rightarrow> nat \<Rightarrow> BtreePageType \<Rightarrow> u32 \<Rightarrow> nat result" where
  "cell_on_page_size_fast page cell_offset page_type usable_size =
     (if cell_offset \<ge> length page then corrupt ''cell offset past end of page''
      else if bt_is_interior page_type \<and> cell_offset + 4 > length page
      then corrupt ''cell extends past page (left child)''
      else
        let pos = (if bt_is_interior page_type then cell_offset + 4 else cell_offset) in
        if page_type = InteriorTable then
          bind_result (varint_at page pos ''truncated varint in interior table cell (rowid)'') (\<lambda>(_, rowid_len).
            ok (pos + rowid_len - cell_offset))
        else
          bind_result (varint_at page pos ''truncated varint in cell (payload size)'') (\<lambda>(raw, ps_len).
          bind_result (u32_of_u64 raw ''cell payload size exceeds 32-bit range'') (\<lambda>payload_size.
          bind_result
            (if bt_is_table page_type
             then bind_result (varint_at page (pos + ps_len) ''truncated varint in table cell (rowid)'')
                    (\<lambda>(_, rowid_len). ok (pos + ps_len + rowid_len))
             else ok (pos + ps_len)) (\<lambda>pos'.
          let local_size = local_payload_size payload_size usable_size page_type in
          bind_result (checked_offset pos' (unat local_size) ''cell payload offset overflow'') (\<lambda>local_end.
            if local_end > length page \<or> local_end > unat usable_size
            then corrupt ''cell extends past usable page size (payload bytes)''
            else if local_size < payload_size then
              (if local_end + 4 > length page \<or> local_end + 4 > unat usable_size
               then corrupt ''cell extends past usable page size (overflow pointer)''
               else ok (local_end + 4 - cell_offset))
            else ok (local_end - cell_offset))))))"


section \<open>Local payload bounds\<close>

lemma unat_max_local:
  assumes "unat usable \<le> 65536"
  shows "unat (max_local_payload usable t) =
    (if t = LeafTable then unat usable - 35 else (unat usable - 12) * 64 div 255 - 23)"
proof -
  have "(unat usable - 12) * 64 < 2 ^ 32" using assms by simp
  then show ?thesis
    by (cases t) (simp_all add: max_local_payload_def bt_type_defs unat_div unat_word_ariths)
qed

lemma unat_min_local:
  assumes "unat usable \<le> 65536"
  shows "unat (min_local_payload usable) = (unat usable - 12) * 32 div 255 - 23"
proof -
  have "(unat usable - 12) * 32 < 2 ^ 32" using assms by simp
  then show ?thesis by (simp add: min_local_payload_def unat_div unat_word_ariths)
qed

lemma min_le_max_local:
  assumes "unat usable \<le> 65536"
  shows "unat (min_local_payload usable) \<le> unat (max_local_payload usable t)"
proof -
  have "(u - 12) * 32 div 255 \<le> (u - 12) * 64 div 255" for u :: nat by (intro div_le_mono) simp
  moreover have "(u - 12) * 32 div 255 - 23 \<le> u - 35" for u :: nat
  proof -
    have "(u - 12) * 32 div 255 \<le> u - 12" by (simp add: div_le_dividend less_mult_imp_div_less le_trans [OF div_le_mono])
    then show ?thesis by simp
  qed
  ultimately show ?thesis by (simp add: unat_max_local [OF assms] unat_min_local [OF assms] diff_le_mono)
qed

text \<open>What stays on the page, as a function of the naturals involved: at most the maximum, at
  least the minimum when it spills, and then the rest fills whole overflow pages unless that
  would leave more than the maximum on the page.\<close>

lemma local_payload_bounds:
  assumes "unat usable \<le> 65536"
  shows "local_payload_size payload usable t \<le> payload"
    "local_payload_size payload usable t \<le> max_local_payload usable t"
    "local_payload_size payload usable t < payload \<longleftrightarrow> has_overflow payload usable t"
    "has_overflow payload usable t \<Longrightarrow> min_local_payload usable \<le> local_payload_size payload usable t"
    "has_overflow payload usable t \<Longrightarrow> 4 < unat usable \<Longrightarrow>
       (unat payload - unat (local_payload_size payload usable t)) mod (unat usable - 4) = 0 \<or>
       local_payload_size payload usable t = min_local_payload usable"
proof -
  let ?M = "min_local_payload usable" and ?X = "max_local_payload usable t" and ?S = "sat_sub usable 4"
  let ?l = "?M + (payload - ?M) mod ?S"
  have mx: "unat ?M \<le> unat ?X" by (rule min_le_max_local [OF assms])
  have lt: "unat ?l = unat ?M + (unat payload - unat ?M) mod unat ?S \<and> unat ?l \<le> unat payload"
    if "?X < payload"
  proof -
    have le: "unat ?M \<le> unat payload" using that mx by (simp add: word_less_nat_alt)
    then have r: "unat ((payload - ?M) mod ?S) = (unat payload - unat ?M) mod unat ?S"
      by (simp add: unat_mod unat_sub word_le_nat_alt)
    moreover have b: "unat ?M + (unat payload - unat ?M) mod unat ?S \<le> unat payload"
      using le mod_less_eq_dividend [of "unat payload - unat ?M" "unat ?S"] by linarith
    ultimately have "unat ?M + unat ((payload - ?M) mod ?S) < 2 ^ LENGTH(32)"
      using unat_u32_less [of payload] by simp
    then show ?thesis using unat_add_small r b by metis
  qed
  note d = local_payload_size_def has_overflow_def Let_def
  show "local_payload_size payload usable t \<le> payload"
    using mx lt by (auto simp: d word_le_nat_alt word_less_nat_alt)
  show "local_payload_size payload usable t \<le> ?X"
    using mx by (auto simp: d word_le_nat_alt word_less_nat_alt)
  show "local_payload_size payload usable t < payload \<longleftrightarrow> has_overflow payload usable t"
    using mx by (auto simp: d word_le_nat_alt word_less_nat_alt)
  show "has_overflow payload usable t \<Longrightarrow> ?M \<le> local_payload_size payload usable t"
    using lt by (auto simp: d word_le_nat_alt word_less_nat_alt)
  assume ov: "has_overflow payload usable t" "4 < unat usable"
  then have X: "?X < payload" by (simp add: has_overflow_def)
  have s: "unat ?S = unat usable - 4" by simp
  have "(unat payload - unat ?l) mod (unat usable - 4) = 0"
    using lt [OF X] unfolding s by (simp add: minus_mod_eq_mult_div diff_diff_add [symmetric] del: diff_diff_add)
  then show "(unat payload - unat (local_payload_size payload usable t)) mod (unat usable - 4) = 0 \<or>
       local_payload_size payload usable t = ?M"
    using X by (auto simp: d not_le)
qed

section \<open>Parsing cells\<close>

lemma varint_at_Inr:
  "varint_at page pos d = Some (Inr (v, n)) \<longleftrightarrow> pos \<le> length page \<and> read_varint (drop pos page) = Some (v, n)"
  by (auto simp: varint_at_def ok_def split: option.splits if_splits)

lemma varint_at_consumed:
  assumes "read_varint (drop pos page) = Some (v, n)"
  shows "1 \<le> n" "pos + n \<le> length page"
proof -
  have "1 \<le> n \<and> n \<le> length (drop pos page)"
    using vread_range [of 0 0 "drop pos page" v n] assms by (simp add: read_varint_vread)
  then show "1 \<le> n" "pos + n \<le> length page" by auto
qed

lemma page_number_at_Inr:
  "page_number_at page pos d = Some (Inr p) \<longleftrightarrow>
   pos + 4 \<le> length page \<and> p = from_be (subslice pos (pos + 4) page) \<and> valid_pgno p"
  by (auto simp: page_number_at_def PageNumber_new_def valid_pgno_def)

lemma checked_offset_Inr: "checked_offset a b d = Some (Inr c) \<longleftrightarrow> c = a + b \<and> a + b \<le> usize_max"
  by (auto simp: checked_offset_def usize_checked_add_def ok_def)

lemma u32_of_u64_Inr: "u32_of_u64 w d = Some (Inr v) \<longleftrightarrow> v = ucast w \<and> w \<le> 0xFFFFFFFF"
  by (auto simp: u32_of_u64_def)

text \<open>The payload part of a well-formed cell: local bytes and overflow pointer lie in the usable
  page, and the pointer is there exactly when the payload spills.\<close>

definition tail_ok :: "bytes \<Rightarrow> u32 \<Rightarrow> nat \<Rightarrow> u32 \<Rightarrow> u32 \<Rightarrow> u32 option \<Rightarrow> bool" where
  "tail_ok page usable po payload_size local ov \<longleftrightarrow>
     (let local_end = po + unat local in
      local_end \<le> length page \<and> local_end \<le> unat usable \<and>
      (if local < payload_size
       then local_end + 4 \<le> length page \<and> local_end + 4 \<le> unat usable \<and>
            valid_pgno (from_be (subslice local_end (local_end + 4) page)) \<and>
            ov = Some (from_be (subslice local_end (local_end + 4) page))
       else ov = None))"

lemma cell_tail_Inr:
  "cell_tail page usable po payload_size local = Some (Inr ov) \<longleftrightarrow>
   tail_ok page usable po payload_size local ov \<and> po + unat local \<le> usize_max"
  by (auto simp: cell_tail_def tail_ok_def Let_def bind_result_Inr checked_offset_Inr page_number_at_Inr not_le)

lemma bind_result_None: "bind_result r f = None \<longleftrightarrow> r = None \<or> (\<exists>a. r = Some (Inr a) \<and> f a = None)"
  by (auto simp: bind_result_def split: option.splits sum.splits)

lemma no_panic [simp]:
  "checked_offset a b d \<noteq> None" "u32_of_u64 w d \<noteq> None"
  "varint_at page pos d = None \<longleftrightarrow> length page < pos" "page_number_at page pos d = None \<longleftrightarrow> length page < pos + 4"
  by (auto simp: checked_offset_def u32_of_u64_def varint_at_def page_number_at_def simp del: not_None_eq split: option.splits)

lemma cell_tail_total [simp]: "cell_tail page usable po payload_size local \<noteq> None"
  by (auto simp: cell_tail_def bind_result_None checked_offset_Inr simp del: not_None_eq)

lemmas parse_simps = bind_result_Inr varint_at_Inr page_number_at_Inr checked_offset_Inr u32_of_u64_Inr
  cell_tail_Inr left_child_at_def Let_def

lemma usable_35: "sat_sub usable 35 = max_local_payload usable LeafTable"
  by (simp add: max_local_payload_def bt_type_defs)

lemma local_size_leaf:
  "(if payload \<le> sat_sub usable 35 then payload else local_payload_size payload usable LeafTable) =
   local_payload_size payload usable LeafTable"
  by (simp add: usable_35 local_payload_size_def Let_def)

text \<open>One description of all four cell kinds.  The page is shorter than \<open>2^63\<close> bytes, as every
  Rust slice is.\<close>

definition cell_ok :: "bytes \<Rightarrow> nat \<Rightarrow> BtreePageType \<Rightarrow> u32 \<Rightarrow> CellRef \<Rightarrow> bool" where
  "cell_ok page off t usable c \<longleftrightarrow>
     (let pos = off + (if bt_is_interior t then 4 else 0) in
      pos \<le> length page \<and>
      (if bt_is_interior t
       then valid_pgno (from_be (subslice off pos page)) \<and> cr_left_child c = Some (from_be (subslice off pos page))
       else cr_left_child c = None) \<and>
      (if t = InteriorTable
       then \<exists>r n. read_varint (drop pos page) = Some (r, n) \<and> cr_rowid c = Some r \<and> cr_payload_size c = 0 \<and>
              cr_local_size c = 0 \<and> cr_payload_offset c = pos + n \<and> cr_overflow_page c = None
       else \<exists>raw k. read_varint (drop pos page) = Some (raw, k) \<and> raw \<le> 0xFFFFFFFF \<and>
              cr_payload_size c = ucast raw \<and> cr_local_size c = local_payload_size (ucast raw) usable t \<and>
              tail_ok page usable (cr_payload_offset c) (cr_payload_size c) (cr_local_size c) (cr_overflow_page c) \<and>
              (if t = LeafTable
               then \<exists>r n. read_varint (drop (pos + k) page) = Some (r, n) \<and> cr_rowid c = Some r \<and>
                      cr_payload_offset c = pos + k + n
               else cr_rowid c = None \<and> cr_payload_offset c = pos + k)))"

lemma parse_cell_ok:
  assumes "CellRef_parse page off t usable = Some (Inr c)"
  shows "cell_ok page off t usable c"
proof (cases t)
  case LeafTable
  then show ?thesis
    using assms unfolding CellRef_parse_def parse_leaf_table_def Let_def local_size_leaf
    by (fastforce simp: parse_simps cell_ok_def bt_type_defs split: if_splits)
next
  case InteriorTable
  then show ?thesis
    using assms by (auto simp: CellRef_parse_def parse_simps cell_ok_def bt_type_defs split: if_splits)
next
  case InteriorIndex
  then show ?thesis
    using assms by (fastforce simp: CellRef_parse_def parse_simps cell_ok_def bt_type_defs split: if_splits)
next
  case LeafIndex
  then show ?thesis
    using assms by (fastforce simp: CellRef_parse_def parse_simps cell_ok_def bt_type_defs split: if_splits)
qed

lemma parse_total: "CellRef_parse page off t usable \<noteq> None"
  by (cases t)
    (auto simp: CellRef_parse_def parse_leaf_table_def left_child_at_def bind_result_None Let_def bt_type_defs
      varint_at_Inr checked_offset_Inr bind_result_Inr page_number_at_Inr simp del: not_None_eq dest!: varint_at_consumed split: if_splits)

lemma cell_ok_parse:
  assumes ok: "cell_ok page off t usable c" and len: "length page < 2 ^ 63"
  shows "CellRef_parse page off t usable = Some (Inr c)"
proof -
  have max: "n \<le> length page \<Longrightarrow> n \<le> usize_max" for n using len by (simp add: usize_max_def)
  have tail: "tail_ok page usable po ps l ov \<Longrightarrow> po + unat l \<le> usize_max" for po ps l ov
    by (rule max) (simp add: tail_ok_def Let_def)
  let ?pos = "off + (if bt_is_interior t then 4 else 0)"
  have pos: "?pos \<le> length page" "off \<le> length page" using ok by (auto simp: cell_ok_def Let_def split: if_splits)
  have left: "left_child_at page off t = Some (Inr (cr_left_child c, ?pos))" if "t \<noteq> LeafTable"
    using ok pos by (auto simp: cell_ok_def Let_def left_child_at_def bind_result_Inr page_number_at_Inr ok_def split: if_splits)
  show ?thesis
  proof (cases "t = InteriorTable")
    case True
    then show ?thesis using ok left pos
      by (auto simp: CellRef_parse_def cell_ok_def Let_def bind_result_Inr varint_at_Inr)
  next
    case False
    obtain raw k where rk: "read_varint (drop ?pos page) = Some (raw, k)" "raw \<le> 0xFFFFFFFF"
      "cr_payload_size c = ucast raw" "cr_local_size c = local_payload_size (ucast raw) usable t"
      "tail_ok page usable (cr_payload_offset c) (cr_payload_size c) (cr_local_size c) (cr_overflow_page c)"
      "if t = LeafTable then \<exists>r n. read_varint (drop (?pos + k) page) = Some (r, n) \<and> cr_rowid c = Some r \<and>
         cr_payload_offset c = ?pos + k + n else cr_rowid c = None \<and> cr_payload_offset c = ?pos + k"
      using ok False unfolding cell_ok_def Let_def by auto
    note k = varint_at_consumed [OF rk(1)]
    show ?thesis
    proof (cases "t = LeafTable")
      case True
      then obtain r n where r: "read_varint (drop (off + k) page) = Some (r, n)" "cr_rowid c = Some r"
        "cr_payload_offset c = off + k + n" using rk(6) by (auto simp: bt_type_defs)
      have le: "off + k \<le> length page" "off + k + n \<le> length page"
        using k(2) varint_at_consumed(2) [OF r(1)] True by (simp_all add: bt_type_defs)
      have "cr_left_child c = None" using ok True by (simp add: cell_ok_def Let_def bt_type_defs)
      then show ?thesis
        using True rk(1-5) r le pos max [OF le(1)] max [OF le(2)] tail [OF rk(5)]
        unfolding CellRef_parse_def parse_leaf_table_def Let_def local_size_leaf
        by (cases c) (auto simp add: bind_result_Inr varint_at_Inr u32_of_u64_Inr checked_offset_Inr cell_tail_Inr bt_type_defs)
    next
      case F: False
      then have "cr_rowid c = None" "cr_payload_offset c = ?pos + k" using rk(6) by simp_all
      moreover have "\<not> bt_is_table t" using F False by (simp add: bt_type_defs)
      ultimately show ?thesis
        using F False rk(1-5) pos left [OF F] tail [OF rk(5)]
        by (cases c) (auto simp add: CellRef_parse_def bind_result_Inr varint_at_Inr u32_of_u64_Inr cell_tail_Inr Let_def)
    qed
  qed
qed

lemma cell_ok_size:
  assumes "cell_ok page off t usable c"
  shows "off < cr_payload_offset c" "cr_payload_offset c + unat (cr_local_size c) \<le> length page" "off < length page"
proof -
  have "off < cr_payload_offset c \<and> cr_payload_offset c + unat (cr_local_size c) \<le> length page"
  proof (cases "t = InteriorTable")
    case True
    then show ?thesis using assms by (auto simp: cell_ok_def Let_def bt_type_defs dest!: varint_at_consumed)
  next
    case False
    then obtain pos raw k n where *: "off \<le> pos" "read_varint (drop pos page) = Some (raw, k)"
      "cr_payload_offset c = pos + k + n"
      "tail_ok page usable (cr_payload_offset c) (cr_payload_size c) (cr_local_size c) (cr_overflow_page c)"
      using assms unfolding cell_ok_def Let_def
      by (metis (no_types, lifting) add.right_neutral le_add1 order_refl)
    then show ?thesis using varint_at_consumed(1) [OF *(2)] by (simp add: tail_ok_def Let_def)
  qed
  then show "off < cr_payload_offset c" "cr_payload_offset c + unat (cr_local_size c) \<le> length page" "off < length page"
    by auto
qed


text \<open>The four shortcuts the cursor uses read the same cell.\<close>

lemma interior_left_child_agrees:
  assumes "cell_ok page off t usable c" "bt_is_interior t" "length page < 2 ^ 63"
  shows "read_interior_left_child page off = Some (Inr (the (cr_left_child c)))"
  using assms by (auto simp: cell_ok_def Let_def read_interior_left_child_def usize_saturating_add_def usize_max_def
      page_number_at_Inr)

lemma leaf_rowid_agrees:
  assumes "cell_ok page off LeafTable usable c" "length page < 2 ^ 63"
  shows "parse_leaf_table_rowid page off = Some (Inr (the (cr_rowid c)))"
    "read_table_leaf_rowid_at_offset page off = cr_rowid c"
proof -
  obtain raw k r n where r: "read_varint (drop off page) = Some (raw, k)" "read_varint (drop (off + k) page) = Some (r, n)"
    "cr_rowid c = Some r" using assms by (auto simp: cell_ok_def Let_def bt_type_defs)
  note k = varint_at_consumed [OF r(1)] and n = varint_at_consumed [OF r(2)]
  show "parse_leaf_table_rowid page off = Some (Inr (the (cr_rowid c)))"
    using r k assms(2) by (simp add: parse_leaf_table_rowid_def bind_result_Inr varint_at_Inr checked_offset_Inr usize_max_def)
  have "off < length page" "\<not> length page - off \<le> k" using k n by auto
  then show "read_table_leaf_rowid_at_offset page off = cr_rowid c"
    using r by (simp add: read_table_leaf_rowid_at_offset_def Let_def add.commute)
qed

lemma fast_size_agrees:
  assumes "cell_ok page off t usable c" "length page < 2 ^ 63"
  shows "cell_on_page_size_fast page off t usable = map_option Inr (cell_on_page_size c off)"
proof -
  have max: "n \<le> length page \<Longrightarrow> n \<le> usize_max" for n using assms(2) by (simp add: usize_max_def)
  note sz = cell_ok_size [OF assms(1)]
  show ?thesis
  proof (cases "t = InteriorTable")
    case True
    then show ?thesis using assms(1) sz
      by (auto simp: cell_on_page_size_fast_def cell_on_page_size_def cell_ok_def Let_def bt_type_defs varint_at_Inr bind_result_Inr)
  next
    case False
    let ?pos = "off + (if bt_is_interior t then 4 else 0)"
    obtain raw k where rk: "read_varint (drop ?pos page) = Some (raw, k)" "raw \<le> 0xFFFFFFFF"
      "cr_payload_size c = ucast raw" "cr_local_size c = local_payload_size (ucast raw) usable t"
      "tail_ok page usable (cr_payload_offset c) (cr_payload_size c) (cr_local_size c) (cr_overflow_page c)"
      and tl: "if t = LeafTable then \<exists>r n. read_varint (drop (?pos + k) page) = Some (r, n) \<and> cr_rowid c = Some r \<and>
         cr_payload_offset c = ?pos + k + n else cr_rowid c = None \<and> cr_payload_offset c = ?pos + k"
      and pos: "?pos \<le> length page"
      using assms(1) False unfolding cell_ok_def Let_def by auto
    note k = varint_at_consumed [OF rk(1)]
    have tab: "bt_is_table t \<longleftrightarrow> t = LeafTable" using False by (auto simp: bt_is_table_def)
    have po: "bind_result
            (if bt_is_table t
             then bind_result (varint_at page (?pos + k) ''truncated varint in table cell (rowid)'')
                    (\<lambda>(_, rowid_len). ok (?pos + k + rowid_len))
             else ok (?pos + k)) F = F (cr_payload_offset c)" for F :: "nat \<Rightarrow> nat result"
    proof (cases "t = LeafTable")
      case True
      then obtain r n where "read_varint (drop (?pos + k) page) = Some (r, n)" "cr_payload_offset c = ?pos + k + n"
        using tl by auto
      then show ?thesis using True tab k by (simp add: varint_at_def)
    next
      case False
      then show ?thesis using tl tab by simp
    qed
    have v: "varint_at page ?pos d = Some (Inr (raw, k))" for d using rk(1) pos by (simp add: varint_at_Inr)
    have u: "u32_of_u64 raw d = Some (Inr (ucast raw))" for d using rk(2) by (simp add: u32_of_u64_Inr)
    have c: "checked_offset (cr_payload_offset c) (unat (cr_local_size c)) d =
        Some (Inr (cr_payload_offset c + unat (cr_local_size c)))" for d
      using max [OF sz(2)] by (simp add: checked_offset_Inr)
    have p: "(if bt_is_interior t then off + 4 else off) = ?pos" by simp
    show ?thesis
      unfolding cell_on_page_size_fast_def p Let_def po using False pos sz rk(5)
      by (auto simp: v u c po rk(3) rk(4) [symmetric] cell_on_page_size_def tail_ok_def Let_def)
  qed
qed

section \<open>Page headers and pointer arrays round trip\<close>

lemma from_flag_flag_of [simp]: "from_flag (flag_of t) = Some t"
  by (cases t) (simp_all add: from_flag_def flag_of_def)

lemma to_be_2: "to_be 2 w = [ucast (drop_bit 8 w), ucast w]"
  by (simp add: numeral_2_eq_2)

lemma chunks2_concat: "chunks2 (concat (map (to_be 2) ps)) = ps"
proof (induction ps)
  case (Cons p ps)
  have "from_be (to_be 2 p) = p" by (rule from_be_to_be_full) simp
  then show ?case using Cons by (simp add: to_be_2)
qed simp

definition bh_ok :: "BtreePageHeader \<Rightarrow> bool" where
  "bh_ok h \<longleftrightarrow> bh_cell_content_offset h \<noteq> 0 \<and> bh_cell_content_offset h \<le> 65536 \<and>
     (case bh_right_child h of None \<Rightarrow> \<not> bt_is_interior (bh_page_type h)
      | Some p \<Rightarrow> bt_is_interior (bh_page_type h) \<and> valid_pgno p)"

definition bh_fields :: "BtreePageHeader \<Rightarrow> nat \<Rightarrow> (nat \<times> bytes) list" where
  "bh_fields h ho =
     [(ho, [flag_of (bh_page_type h)]), (ho + 1, to_be 2 (bh_first_freeblock h)), (ho + 3, to_be 2 (bh_cell_count h)),
      (ho + 5, to_be 2 (if bh_cell_content_offset h \<ge> 65536 then 0 else ucast (bh_cell_content_offset h) :: u16)),
      (ho + 7, [bh_fragmented_free_bytes h])] @
     (case bh_right_child h of None \<Rightarrow> [] | Some p \<Rightarrow> [(ho + 8, to_be 4 p)])"

lemma bh_fields_ok:
  assumes "bh_ok h" "ho + bt_header_size (bh_page_type h) \<le> n"
  shows "fields_ok ho n (bh_fields h ho)"
  using assms by (auto simp: bh_ok_def bh_fields_def bt_header_size_def split: option.splits if_splits)

lemma bh_write_fields:
  assumes "bh_ok h" "ho + bt_header_size (bh_page_type h) \<le> length page"
  shows "bh_write h page ho = Some (put_fields (bh_fields h ho) page)"
  using assms
  by (auto simp: bh_ok_def bh_write_def bh_fields_def bt_header_size_def buf_set_put buf_write_put
      split: option.splits if_splits)

lemma content_offset_field:
  assumes "w \<noteq> (0::u32)" "w \<le> 65536"
  shows "(let raw = (if w \<ge> 65536 then 0 else ucast w :: u16) in if raw = 0 then 65536 else ucast raw :: u32) = w"
proof (cases "w = 65536")
  case False
  then have lt: "unat w < 65536" using assms(2) by (simp add: word_le_nat_alt word_eq_iff_unsigned unat_arith_simps)
  then have u: "unat (ucast w :: u16) = unat w" by (simp add: unsigned_ucast_eq take_bit_nat_eq_self)
  then have "(ucast w :: u16) \<noteq> 0" using assms(1) by (metis unat_0 unat_eq_zero)
  moreover have "(ucast (ucast w :: u16) :: u32) = w" using u lt by (simp add: word_unat_eq_iff unsigned_ucast_eq unsigned_take_bit_eq take_bit_nat_eq_self)
  moreover have "\<not> 65536 \<le> w" using lt by (simp add: word_le_nat_alt)
  ultimately show ?thesis by simp
qed simp

lemma parse_written_header:
  assumes ok: "bh_ok h" and len: "ho + bt_header_size (bh_page_type h) \<le> length page" "length page < 2 ^ 63"
    and F: "\<And>off src. (off, src) \<in> set (bh_fields h ho) \<Longrightarrow> subslice off (off + length src) page = src"
  shows "bh_parse page ho = Inr h"
proof -
  let ?h = "subslice ho (ho + 8) page" and ?co = "if bh_cell_content_offset h \<ge> 65536 then 0 else ucast (bh_cell_content_offset h) :: u16"
  have l8: "ho + 8 \<le> length page" using len(1) by (simp add: bt_header_size_def split: if_splits)
  have sat: "usize_saturating_add ho 8 = ho + 8" using l8 len(2) by (simp add: usize_saturating_add_def usize_max_def)
  have nth: "?h ! i = page ! (ho + i)" if "i < 8" for i using that l8 by (simp add: nth_subslice)
  have b: "page ! ho = flag_of (bh_page_type h)" "page ! (ho + 7) = bh_fragmented_free_bytes h"
    using F [of ho "[flag_of (bh_page_type h)]"] F [of "ho + 7" "[bh_fragmented_free_bytes h]"]
      subslice_single [of "ho + 7" page] l8
    by (simp_all add: bh_fields_def subslice_single)
  have w: "[page ! (ho + k), page ! (ho + (k + 1))] = to_be 2 v" if "(ho + k, to_be 2 v) \<in> set (bh_fields h ho)" "k + 2 \<le> 8" for k and v :: u16
    using F [OF that(1)] that(2) l8 subslice_2 [of "ho + k" page] by (simp add: add.assoc)
  have fb: "from_be (to_be 2 v) = (v :: u16)" for v by (rule from_be_to_be_full) simp
  have w2: "from_be [?h ! 1, ?h ! 2] = bh_first_freeblock h" "from_be [?h ! 3, ?h ! 4] = bh_cell_count h"
    "from_be [?h ! 5, ?h ! 6] = ?co"
    using w [of 1] w [of 3] w [of 5] by (simp_all add: nth fb bh_fields_def del: to_be.simps)
  have rc: "from_be (subslice (ho + 8) (12 + ho) page) = p" if "bh_right_child h = Some p" for p
    using F [of "ho + 8" "to_be 4 p"] that by (simp add: bh_fields_def from_be_to_be_full)
  note co = content_offset_field [of "bh_cell_content_offset h", unfolded Let_def]
  show ?thesis
    unfolding bh_parse_def Let_def sat w2 using ok l8 len(1) b co rc
    by (cases h) (auto simp: nth bh_ok_def bt_type_defs PageNumber_new_def valid_pgno_def split: option.splits if_splits)
qed

section \<open>Properties\<close>

lemma sample_cell:
  "CellRef_parse [3, 7, 1, 2, 3] 0 LeafTable 512 =
     Some (Inr \<lparr>cr_left_child = None, cr_rowid = Some 7, cr_payload_size = 3, cr_local_size = 3,
       cr_payload_offset = 2, cr_overflow_page = None\<rparr>)"
proof -
  have v: "read_varint [3, 7, 1, 2, 3] = Some (3, 1)" "read_varint [7, 1, 2, 3] = Some (7, 1)" by code_simp+
  show ?thesis
    by (simp add: CellRef_parse_def parse_leaf_table_def varint_at_def v u32_of_u64_def checked_offset_def
        usize_checked_add_def usize_max_def cell_tail_def sat_sub_def)
qed

text \<open>C24: Reading a cell never panics, whatever bytes the page holds, its arithmetic wrapping as in a release build; and a
  cell that is accepted lies inside the page: its payload starts after its first byte, and local payload and overflow pointer
  end within the page and, except for cells of interior table pages, which the parser does not check against it, within the usable size.  An overflow
  pointer is a valid page number, and for usable sizes up to 65536, the largest page, it is present exactly
  when the payload does not fit locally; the left child is present exactly on interior pages and the rowid exactly on table pages.\<close>

theorem cell_parse_safe:
  "CellRef_parse page off t usable \<noteq> None \<and>
   (CellRef_parse page off t usable = Some (Inr c) \<longrightarrow>
      (let size = the (cell_on_page_size c off) in
       off < cr_payload_offset c \<and> off + size \<le> length page \<and>
       (t \<noteq> InteriorTable \<longrightarrow> off + size \<le> unat usable) \<and>
       (\<forall>p. cr_overflow_page c = Some p \<longrightarrow> valid_pgno p) \<and>
       (unat usable \<le> 65536 \<longrightarrow> (cr_overflow_page c \<noteq> None \<longleftrightarrow> has_overflow (cr_payload_size c) usable t)) \<and>
       (cr_left_child c \<noteq> None \<longleftrightarrow> bt_is_interior t) \<and> (cr_rowid c \<noteq> None \<longleftrightarrow> bt_is_table t) \<and>
       local_payload c page \<noteq> None))"
proof (intro conjI impI)
  show "CellRef_parse page off t usable \<noteq> None" by (rule parse_total)
  assume c: "CellRef_parse page off t usable = Some (Inr c)"
  note ok = parse_cell_ok [OF c]
  note sz = cell_ok_size [OF ok]
  have lp: "local_payload c page \<noteq> None" using sz(2) by (simp add: local_payload_def)
  show "let size = the (cell_on_page_size c off) in
       off < cr_payload_offset c \<and> off + size \<le> length page \<and>
       (t \<noteq> InteriorTable \<longrightarrow> off + size \<le> unat usable) \<and>
       (\<forall>p. cr_overflow_page c = Some p \<longrightarrow> valid_pgno p) \<and>
       (unat usable \<le> 65536 \<longrightarrow> (cr_overflow_page c \<noteq> None \<longleftrightarrow> has_overflow (cr_payload_size c) usable t)) \<and>
       (cr_left_child c \<noteq> None \<longleftrightarrow> bt_is_interior t) \<and> (cr_rowid c \<noteq> None \<longleftrightarrow> bt_is_table t) \<and>
       local_payload c page \<noteq> None"
  proof (cases "t = InteriorTable")
    case True
    have "\<not> has_overflow 0 usable t" by (simp add: has_overflow_def)
    then show ?thesis using True ok sz lp by (auto simp: cell_ok_def cell_on_page_size_def Let_def bt_type_defs)
  next
    case False
    then have "cr_local_size c = local_payload_size (cr_payload_size c) usable t"
      and tl: "tail_ok page usable (cr_payload_offset c) (cr_payload_size c) (cr_local_size c) (cr_overflow_page c)"
      and rl: "cr_left_child c \<noteq> None \<longleftrightarrow> bt_is_interior t" "cr_rowid c \<noteq> None \<longleftrightarrow> bt_is_table t"
      using ok by (auto simp: cell_ok_def Let_def bt_is_table_def split: if_splits)
    then have "unat usable \<le> 65536 \<Longrightarrow> has_overflow (cr_payload_size c) usable t \<longleftrightarrow> cr_local_size c < cr_payload_size c"
      using local_payload_bounds(3) by simp
    then show ?thesis using tl rl sz lp False by (auto simp: tail_ok_def cell_on_page_size_def Let_def split: if_splits)
  qed
qed

theorem cell_parse_safe_witness:
  "CellRef_parse [3, 7, 1, 2, 3] 0 LeafTable 512 \<noteq> None \<and>
   CellRef_parse [3, 7, 1, 2, 3] 0 LeafTable 512 =
     Some (Inr \<lparr>cr_left_child = None, cr_rowid = Some 7, cr_payload_size = 3, cr_local_size = 3,
       cr_payload_offset = 2, cr_overflow_page = None\<rparr>) \<and>
   0 + the (cell_on_page_size \<lparr>cr_left_child = None, cr_rowid = Some 7, cr_payload_size = 3, cr_local_size = 3,
       cr_payload_offset = 2, cr_overflow_page = None\<rparr> 0) \<le> length [3, 7, 1, 2, 3::u8]"
proof -
  let ?c = "\<lparr>cr_left_child = None, cr_rowid = Some 7, cr_payload_size = 3, cr_local_size = 3,
       cr_payload_offset = 2, cr_overflow_page = None\<rparr>"
  show ?thesis using sample_cell
    cell_parse_safe [of "[3, 7, 1, 2, 3]" 0 LeafTable 512 ?c] unfolding Let_def by blast
qed

text \<open>The parser accepts a cell of an interior table page that lies behind the usable part of the page; the cells of the other
  page types are checked.\<close>

lemma interior_cell_past_usable:
  "CellRef_parse (replicate 10 0 @ [0, 0, 0, 1, 5]) 10 InteriorTable 8 =
     Some (Inr \<lparr>cr_left_child = Some 1, cr_rowid = Some 5, cr_payload_size = 0, cr_local_size = 0,
       cr_payload_offset = 15, cr_overflow_page = None\<rparr>)"
  by code_simp

text \<open>The shortcuts agree with the full parse.  On every cell the full parser accepts, the size
  computed without building a cell, the left child read directly from an interior cell and the two
  rowid readers for table leaves return what the parsed cell holds.\<close>

theorem cell_fast_paths_agree:
  assumes "length page < 2 ^ 63" and "CellRef_parse page off t usable = Some (Inr c)"
  shows "cell_on_page_size_fast page off t usable = map_option Inr (cell_on_page_size c off) \<and>
    (bt_is_interior t \<longrightarrow> read_interior_left_child page off = Some (Inr (the (cr_left_child c)))) \<and>
    (t = LeafTable \<longrightarrow> parse_leaf_table_rowid page off = Some (Inr (the (cr_rowid c))) \<and>
       read_table_leaf_rowid_at_offset page off = cr_rowid c)"
proof (intro conjI impI)
  note ok = parse_cell_ok [OF assms(2)]
  show "cell_on_page_size_fast page off t usable = map_option Inr (cell_on_page_size c off)"
    by (rule fast_size_agrees [OF ok assms(1)])
  show "read_interior_left_child page off = Some (Inr (the (cr_left_child c)))" if "bt_is_interior t"
    by (rule interior_left_child_agrees [OF ok that assms(1)])
  show "parse_leaf_table_rowid page off = Some (Inr (the (cr_rowid c)))"
    "read_table_leaf_rowid_at_offset page off = cr_rowid c" if "t = LeafTable"
    using ok that by (auto intro!: leaf_rowid_agrees [OF _ assms(1)])
qed

theorem cell_fast_paths_agree_witness:
  "CellRef_parse [3, 7, 1, 2, 3] 0 LeafTable 512 =
     Some (Inr \<lparr>cr_left_child = None, cr_rowid = Some 7, cr_payload_size = 3, cr_local_size = 3,
       cr_payload_offset = 2, cr_overflow_page = None\<rparr>) \<and>
   cell_on_page_size_fast [3, 7, 1, 2, 3] 0 LeafTable 512 = Some (Inr 5) \<and>
   parse_leaf_table_rowid [3, 7, 1, 2, 3] 0 = Some (Inr 7)"
  using sample_cell cell_fast_paths_agree [OF _ sample_cell] by (simp add: cell_on_page_size_def)

text \<open>A written page directory reads back.  Writing a well-formed header and then a pointer
  array of the length the header announces, with the content area starting behind it and inside
  the page, never panics, keeps the page length and every byte outside header and array, and both
  parsers return exactly the header and the pointers written.\<close>

theorem page_directory_roundtrip:
  assumes "bh_ok h" "length ptrs = unat (bh_cell_count h)" "length page < 2 ^ 63"
    and "ho + bt_header_size (bh_page_type h) + 2 * length ptrs \<le> unat (bh_cell_content_offset h)"
    and "ho + bt_header_size (bh_page_type h) + 2 * length ptrs \<le> length page"
    and "0 < length ptrs \<Longrightarrow> unat (bh_cell_content_offset h) < length page"
  shows "\<exists>page1 page2. bh_write h page ho = Some page1 \<and> write_cell_pointers page1 ho h ptrs = Some page2 \<and>
    length page2 = length page \<and> bh_parse page2 ho = Inr h \<and> read_cell_pointers page2 h ho = Inr ptrs \<and>
    take ho page2 = take ho page \<and>
    drop (ho + bt_header_size (bh_page_type h) + 2 * length ptrs) page2 =
    drop (ho + bt_header_size (bh_page_type h) + 2 * length ptrs) page"
proof -
  let ?hs = "bt_header_size (bh_page_type h)" and ?bs = "concat (map (to_be 2) ptrs)"
  let ?p1 = "put_fields (bh_fields h ho) page" and ?n = "length page"
  let ?p2 = "put (ho + ?hs) ?bs ?p1"
  have hs: "ho + ?hs \<le> ?n" using assms(5) by simp
  have lb: "length ?bs = 2 * length ptrs" by (simp add: length_concat o_def sum_list_triv)
  note fo = bh_fields_ok [OF assms(1) hs]
  have l1: "length ?p1 = ?n" by (rule length_put_fields [OF fo])
  have in2: "ho + ?hs + length ?bs \<le> length ?p1" using assms(5) l1 lb by simp
  have l2: "length ?p2 = ?n" using in2 l1 by simp
  have up: "off + length src \<le> ho + ?hs" if "(off, src) \<in> set (bh_fields h ho)" for off src
    using that assms(1) by (auto simp: bh_fields_def bh_ok_def bt_header_size_def split: option.splits)
  have lo: "ho \<le> off" if "(off, src) \<in> set (bh_fields h ho)" for off src
    using that by (auto simp: bh_fields_def split: option.splits)
  have F: "subslice off (off + length src) ?p2 = src" if "(off, src) \<in> set (bh_fields h ho)" for off src
    using subslice_put_fields [OF fo that refl] subslice_put_other [OF in2] up [OF that] by metis
  have "bh_parse ?p2 ho = Inr h"
    by (rule parse_written_header [OF assms(1)]) (use F hs l2 assms(3) in auto)
  moreover have "subslice (ho + ?hs) (ho + ?hs + 2 * length ptrs) ?p2 = ?bs"
    by (rule subslice_put_same [OF in2]) (simp add: lb)
  then have "read_cell_pointers ?p2 h ho = Inr ptrs"
    using assms(2,4,5,6) l2 by (auto simp: read_cell_pointers_def Let_def chunks2_concat mult.commute)
  moreover have "subslice 0 ho ?p2 = subslice 0 ho page"
    using subslice_put_other [OF in2, of ho 0] subslice_put_fields_outside [OF fo, of ho 0] lo by fastforce
  moreover have "subslice (ho + ?hs + 2 * length ptrs) ?n ?p2 = subslice (ho + ?hs + 2 * length ptrs) ?n page"
    using subslice_put_other [OF in2, of ?n "ho + ?hs + 2 * length ptrs"]
      subslice_put_fields_outside [OF fo, of ?n "ho + ?hs + 2 * length ptrs"] up lb by fastforce
  moreover have "bh_write h page ho = Some ?p1" by (rule bh_write_fields [OF assms(1) hs])
  moreover have "write_cell_pointers ?p1 ho h ptrs = Some ?p2"
    using buf_write_put [OF in2] by (simp add: write_cell_pointers_def)
  ultimately show ?thesis using l2 by (auto simp: subslice_def)
qed

theorem page_directory_roundtrip_witness:
  "\<exists>page1 page2. bh_write \<lparr>bh_page_type = LeafTable, bh_first_freeblock = 0, bh_cell_count = 2,
       bh_cell_content_offset = 20, bh_fragmented_free_bytes = 0, bh_right_child = None\<rparr> (replicate 32 0) 0 = Some page1 \<and>
     write_cell_pointers page1 0 \<lparr>bh_page_type = LeafTable, bh_first_freeblock = 0, bh_cell_count = 2,
       bh_cell_content_offset = 20, bh_fragmented_free_bytes = 0, bh_right_child = None\<rparr> [26, 20] = Some page2 \<and>
     read_cell_pointers page2 \<lparr>bh_page_type = LeafTable, bh_first_freeblock = 0, bh_cell_count = 2,
       bh_cell_content_offset = 20, bh_fragmented_free_bytes = 0, bh_right_child = None\<rparr> 0 = Inr [26, 20]"
  using page_directory_roundtrip [of "\<lparr>bh_page_type = LeafTable, bh_first_freeblock = 0, bh_cell_count = 2,
       bh_cell_content_offset = 20, bh_fragmented_free_bytes = 0, bh_right_child = None\<rparr>" "[26, 20]" "replicate 32 0" 0]
  by (auto simp: bh_ok_def bt_type_defs)

end
