(* ===== verification/Overflow.thy ===== *)
theory Overflow
  imports BtreeCell
begin

text \<open>
  \<open>crates/fsqlite-btree/src/overflow.rs\<close> and \<open>payload.rs\<close>: payloads that spill into chains of
  overflow pages; and the cell encoders of \<open>cursor.rs\<close> that write them
  (\<open>encode_table_leaf_cell_into\<close>, \<open>encode_index_leaf_cell_into\<close>, \<open>write_overflow_chain_for_insert\<close>,
  \<open>free_overflow_chain\<close>).  The page operations are arguments, as the closures and the pager of the
  code are; what they promise is the locale \<open>page_io\<close>.
\<close>

section \<open>Reading a chain\<close>

definition MAX_OVERFLOW_CHAIN :: nat where
  "MAX_OVERFLOW_CHAIN = 1000000"

definition MAX_ALLOCATION_SIZE :: u32 where
  "MAX_ALLOCATION_SIZE = 2147483391"

text \<open>The loop of the reader; the chain counter bounds it, whatever the pages hold.\<close>

function read_chain :: "(u32 \<Rightarrow> FrankenError + bytes) \<Rightarrow> nat \<Rightarrow> u32 \<Rightarrow> nat \<Rightarrow> nat \<Rightarrow> bytes \<Rightarrow> (FrankenError + unit) \<times> bytes" where
  "read_chain rd bytes_per_overflow current_page bytes_remaining chain_length out =
     (if bytes_remaining = 0 then (Inr (), out)
      else if chain_length + 1 > MAX_OVERFLOW_CHAIN
      then (Inl (DatabaseCorrupt ''overflow chain exceeds maximum length''), out)
      else case rd current_page of
        Inl e \<Rightarrow> (Inl e, out)
      | Inr page_bytes \<Rightarrow>
          if length page_bytes \<le> 4 then (Inl (DatabaseCorrupt ''overflow page too small or empty''), out)
          else
            let next_raw = from_be (take 4 page_bytes);
                available = min (length page_bytes - 4) bytes_per_overflow;
                to_read = min bytes_remaining available;
                out' = out @ subslice 4 (4 + to_read) page_bytes;
                bytes_remaining' = bytes_remaining - to_read in
            if bytes_remaining' > 0 then
              (case PageNumber_new next_raw of
                 None \<Rightarrow> (Inl (DatabaseCorrupt ''unexpected end of overflow chain''), out')
               | Some p \<Rightarrow> read_chain rd bytes_per_overflow p bytes_remaining' (chain_length + 1) out')
            else (Inr (), out'))"
  by pat_completeness auto
termination by (relation "measure (\<lambda>(_, _, _, _, chain_length, _). MAX_OVERFLOW_CHAIN - chain_length)") auto

declare read_chain.simps [simp del]

definition read_overflow_chain_prefix_into ::
  "bytes \<Rightarrow> u32 \<Rightarrow> u32 \<Rightarrow> u32 \<Rightarrow> nat \<Rightarrow> (u32 \<Rightarrow> FrankenError + bytes) \<Rightarrow> (FrankenError + unit) \<times> bytes" where
  "read_overflow_chain_prefix_into local_data first_overflow total_payload_size usable_size max_prefix_bytes rd =
     (if total_payload_size > MAX_ALLOCATION_SIZE then (Inl TooBig, [])
      else if usable_size \<le> 4 then (Inl (DatabaseCorrupt ''invalid usable page size for overflow chain''), [])
      else
        let target_size = min (unat total_payload_size) max_prefix_bytes in
        if target_size = 0 then (Inr (), [])
        else
          let local_copy_len = min (length local_data) target_size in
          read_chain rd (unat (sat_sub usable_size 4)) first_overflow (target_size - local_copy_len) 0
            (take local_copy_len local_data))"

definition read_overflow_chain_into ::
  "bytes \<Rightarrow> u32 \<Rightarrow> u32 \<Rightarrow> u32 \<Rightarrow> (u32 \<Rightarrow> FrankenError + bytes) \<Rightarrow> (FrankenError + unit) \<times> bytes" where
  "read_overflow_chain_into local_data first_overflow total_payload_size usable_size rd =
     (case read_overflow_chain_prefix_into local_data first_overflow total_payload_size usable_size
             (unat total_payload_size) rd of
        (Inl e, out) \<Rightarrow> (Inl e, out)
      | (Inr _, out) \<Rightarrow>
          if length out \<noteq> unat total_payload_size
          then (Inl (DatabaseCorrupt ''read overflow chain size mismatch''), out) else (Inr (), out))"

definition read_overflow_chain ::
  "bytes \<Rightarrow> u32 \<Rightarrow> u32 \<Rightarrow> u32 \<Rightarrow> (u32 \<Rightarrow> FrankenError + bytes) \<Rightarrow> FrankenError + bytes" where
  "read_overflow_chain local_data first_overflow total_payload_size usable_size rd =
     (case read_overflow_chain_into local_data first_overflow total_payload_size usable_size rd of
        (Inl e, _) \<Rightarrow> Inl e | (Inr _, payload) \<Rightarrow> Inr payload)"

definition read_payload :: "CellRef \<Rightarrow> bytes \<Rightarrow> u32 \<Rightarrow> (u32 \<Rightarrow> FrankenError + bytes) \<Rightarrow> bytes result" where
  "read_payload cell page usable_size rd =
     do { local \<leftarrow> local_payload cell page;
          case cr_overflow_page cell of
            Some first_overflow \<Rightarrow> Some (read_overflow_chain local first_overflow (cr_payload_size cell) usable_size rd)
          | None \<Rightarrow> Some (Inr local) }"

section \<open>Writing a chain\<close>

text \<open>The shared step of both writers: chunk \<open>i\<close> and the link to the next page, written over the
  buffer; \<^const>\<open>None\<close> is the panic of a slice out of range.\<close>

definition fill_overflow_page :: "bytes \<Rightarrow> nat \<Rightarrow> bytes \<Rightarrow> u32 list \<Rightarrow> nat \<Rightarrow> bytes option" where
  "fill_overflow_page page_buf bytes_per_page overflow_data pages i =
     (let data_start = i * bytes_per_page;
          data_end = min ((i + 1) * bytes_per_page) (length overflow_data) in
      if data_start > data_end then None
      else
        let chunk = subslice data_start data_end overflow_data;
            next_pgno = (if i + 1 < length pages then pages ! (i + 1) else 0) in
        do { buf1 \<leftarrow> buf_write page_buf 0 (to_be 4 next_pgno);
             buf2 \<leftarrow> buf_write buf1 4 chunk;
             Some (if length chunk < bytes_per_page
                   then put (4 + length chunk) (replicate (length buf2 - (4 + length chunk)) 0) buf2
                   else buf2) })"

definition div_ceil :: "nat \<Rightarrow> nat \<Rightarrow> nat" where
  "div_ceil a b = (if a mod b > 0 then a div b + 1 else a div b)"

text \<open>\<open>for _ in 0..num_pages { pages.push(allocate_page()?) }\<close>: the pages allocated so far come
  back with the error.\<close>

fun alloc_pages :: "('s \<Rightarrow> (FrankenError + u32) \<times> 's) \<Rightarrow> nat \<Rightarrow> u32 list \<Rightarrow> 's \<Rightarrow> (FrankenError + unit) \<times> u32 list \<times> 's" where
  "alloc_pages alloc 0 pages s = (Inr (), pages, s)"
| "alloc_pages alloc (Suc n) pages s =
     (case alloc s of
        (Inl e, s') \<Rightarrow> (Inl e, pages, s')
      | (Inr pgno, s') \<Rightarrow> alloc_pages alloc n (pages @ [pgno]) s')"

text \<open>The write loop of \<open>write_overflow_chain\<close> reuses one buffer for all pages.\<close>

function write_pages ::
  "(u32 \<Rightarrow> bytes \<Rightarrow> 's \<Rightarrow> (FrankenError + unit) \<times> 's) \<Rightarrow> nat \<Rightarrow> bytes \<Rightarrow> u32 list \<Rightarrow> nat \<Rightarrow> bytes \<Rightarrow> 's
     \<Rightarrow> ((FrankenError + unit) \<times> 's) option" where
  "write_pages wr bytes_per_page overflow_data pages i page_buf s =
     (if i \<ge> length pages then Some (Inr (), s)
      else case fill_overflow_page page_buf bytes_per_page overflow_data pages i of
        None \<Rightarrow> None
      | Some buf \<Rightarrow>
          (case wr (pages ! i) buf s of
             (Inl e, s') \<Rightarrow> Some (Inl e, s')
           | (Inr _, s') \<Rightarrow> write_pages wr bytes_per_page overflow_data pages (i + 1) buf s'))"
  by pat_completeness auto
termination by (relation "measure (\<lambda>(_, _, _, pages, i, _, _). length pages - i)") auto

declare write_pages.simps [simp del]

definition write_overflow_chain ::
  "('s \<Rightarrow> (FrankenError + u32) \<times> 's) \<Rightarrow> (u32 \<Rightarrow> bytes \<Rightarrow> 's \<Rightarrow> (FrankenError + unit) \<times> 's) \<Rightarrow> bytes \<Rightarrow> u32 \<Rightarrow> u32 \<Rightarrow> 's
     \<Rightarrow> ((FrankenError + u32) \<times> 's) option" where
  "write_overflow_chain alloc wr overflow_data usable_size full_page_size s =
     (if overflow_data = [] then Some (Inl (Internal ''write_overflow_chain called with empty data''), s)
      else if usable_size \<le> 4
      then Some (Inl (DatabaseCorrupt ''invalid usable page size for overflow chain''), s)
      else
        let bytes_per_page = unat (sat_sub usable_size 4) in
        if bytes_per_page = 0 then Some (Inl (DatabaseCorrupt ''usable page size too small for overflow data''), s)
        else if full_page_size < usable_size then Some (Inl (Internal ''full_page_size < usable_size''), s)
        else
          let num_pages = div_ceil (length overflow_data) bytes_per_page in
          if num_pages > MAX_OVERFLOW_CHAIN then Some (Inl TooBig, s)
          else case alloc_pages alloc num_pages [] s of
            (Inl e, _, s') \<Rightarrow> Some (Inl e, s')
          | (Inr _, pages, s') \<Rightarrow>
              (case write_pages wr bytes_per_page overflow_data pages 0 (replicate (unat full_page_size) 0) s' of
                 None \<Rightarrow> None
               | Some (Inl e, s'') \<Rightarrow> Some (Inl e, s'')
               | Some (Inr _, s'') \<Rightarrow> if pages = [] then None else Some (Inr (pages ! 0), s'')))"

definition write_payload ::
  "('s \<Rightarrow> (FrankenError + u32) \<times> 's) \<Rightarrow> (u32 \<Rightarrow> bytes \<Rightarrow> 's \<Rightarrow> (FrankenError + unit) \<times> 's) \<Rightarrow> bytes \<Rightarrow> BtreePageType \<Rightarrow> u32 \<Rightarrow> u32 \<Rightarrow> 's
     \<Rightarrow> ((FrankenError + bytes \<times> u32 option) \<times> 's) option" where
  "write_payload alloc wr payload page_type usable_size full_page_size s =
     (if length payload \<ge> 2 ^ 32 then Some (Inl TooBig, s)
      else
        let payload_size = word_of_nat (length payload) :: u32;
            local_size = unat (local_payload_size payload_size usable_size page_type) in
        if local_size \<ge> length payload then Some (Inr (payload, None), s)
        else
          (case write_overflow_chain alloc wr (drop local_size payload) usable_size full_page_size s of
             None \<Rightarrow> None
           | Some (Inl e, s') \<Rightarrow> Some (Inl e, s')
           | Some (Inr first_overflow, s') \<Rightarrow> Some (Inr (take local_size payload, Some first_overflow), s')))"

section \<open>The cursor's writer\<close>

text \<open>The cursor's loop takes a fresh zeroed buffer for each page and frees all pages of the
  chain when a write fails.\<close>

definition free_all :: "(u32 \<Rightarrow> 's \<Rightarrow> (FrankenError + unit) \<times> 's) \<Rightarrow> u32 list \<Rightarrow> 's \<Rightarrow> 's" where
  "free_all free pages s = fold (\<lambda>p s. snd (free p s)) pages s"

function write_insert_pages ::
  "(u32 \<Rightarrow> bytes \<Rightarrow> 's \<Rightarrow> (FrankenError + unit) \<times> 's) \<Rightarrow> (u32 \<Rightarrow> 's \<Rightarrow> (FrankenError + unit) \<times> 's) \<Rightarrow> nat \<Rightarrow> nat \<Rightarrow> bytes \<Rightarrow> u32 list \<Rightarrow> nat \<Rightarrow> 's
     \<Rightarrow> ((FrankenError + unit) \<times> 's) option" where
  "write_insert_pages wr free page_size bytes_per_page overflow_data pages idx s =
     (if idx \<ge> length pages then Some (Inr (), s)
      else case fill_overflow_page (replicate page_size 0) bytes_per_page overflow_data pages idx of
        None \<Rightarrow> None
      | Some buf \<Rightarrow>
          (case wr (pages ! idx) buf s of
             (Inl e, s') \<Rightarrow> Some (Inl e, free_all free pages s')
           | (Inr _, s') \<Rightarrow> write_insert_pages wr free page_size bytes_per_page overflow_data pages (idx + 1) s'))"
  by pat_completeness auto
termination by (relation "measure (\<lambda>(_, _, _, _, _, pages, idx, _). length pages - idx)") auto

declare write_insert_pages.simps [simp del]

text \<open>The part of the cursor these methods use: page geometry and the pager.\<close>

record 's pager_ops =
  po_read :: "u32 \<Rightarrow> 's \<Rightarrow> FrankenError + bytes"
  po_write :: "u32 \<Rightarrow> bytes \<Rightarrow> 's \<Rightarrow> (FrankenError + unit) \<times> 's"
  po_alloc :: "'s \<Rightarrow> (FrankenError + u32) \<times> 's"
  po_free :: "u32 \<Rightarrow> 's \<Rightarrow> (FrankenError + unit) \<times> 's"

definition write_overflow_chain_for_insert ::
  "'s pager_ops \<Rightarrow> u32 \<Rightarrow> u32 \<Rightarrow> bytes \<Rightarrow> 's \<Rightarrow> ((FrankenError + u32) \<times> 's) option" where
  "write_overflow_chain_for_insert ops usable_size page_size overflow_data s =
     (if overflow_data = [] then Some (Inl (Internal ''overflow writer called with empty payload''), s)
      else if usable_size \<le> 4
      then Some (Inl (DatabaseCorrupt ''invalid usable page size for overflow chain''), s)
      else
        let bytes_per_page = unat (sat_sub usable_size 4) in
        if bytes_per_page = 0 then Some (Inl (DatabaseCorrupt ''usable page size too small for overflow pages''), s)
        else
          let num_pages = div_ceil (length overflow_data) bytes_per_page in
          if num_pages > MAX_OVERFLOW_CHAIN then Some (Inl TooBig, s)
          else case alloc_pages (po_alloc ops) num_pages [] s of
            (Inl e, pages, s') \<Rightarrow> Some (Inl e, free_all (po_free ops) pages s')
          | (Inr _, pages, s') \<Rightarrow>
              (case write_insert_pages (po_write ops) (po_free ops) (unat page_size) bytes_per_page overflow_data pages 0 s' of
                 None \<Rightarrow> None
               | Some (Inl e, s'') \<Rightarrow> Some (Inl e, s'')
               | Some (Inr _, s'') \<Rightarrow> if pages = [] then None else Some (Inr (pages ! 0), s'')))"

function free_chain :: "'s pager_ops \<Rightarrow> u32 option \<Rightarrow> nat \<Rightarrow> 's \<Rightarrow> (FrankenError + unit) \<times> 's" where
  "free_chain ops current visited s =
     (case current of
        None \<Rightarrow> (Inr (), s)
      | Some pgno \<Rightarrow>
          if visited + 1 > MAX_OVERFLOW_CHAIN
          then (Inl (DatabaseCorrupt ''overflow chain exceeds maximum pages while freeing''), s)
          else case po_read ops pgno s of
            Inl e \<Rightarrow> (Inl e, s)
          | Inr page_bytes \<Rightarrow>
              if length page_bytes < 4 then (Inl (DatabaseCorrupt ''overflow page too small while freeing''), s)
              else (case po_free ops pgno s of
                  (Inl e, s') \<Rightarrow> (Inl e, s')
                | (Inr _, s') \<Rightarrow> free_chain ops (PageNumber_new (from_be (take 4 page_bytes))) (visited + 1) s'))"
  by pat_completeness auto
termination by (relation "measure (\<lambda>(_, _, visited, _). MAX_OVERFLOW_CHAIN - visited)") auto

declare free_chain.simps [simp del]

definition free_overflow_chain :: "'s pager_ops \<Rightarrow> u32 \<Rightarrow> 's \<Rightarrow> (FrankenError + unit) \<times> 's" where
  "free_overflow_chain ops first s = free_chain ops (Some first) 0 s"

definition encode_table_leaf_cell_into ::
  "'s pager_ops \<Rightarrow> u32 \<Rightarrow> u32 \<Rightarrow> i64 \<Rightarrow> bytes \<Rightarrow> 's \<Rightarrow> ((FrankenError + u32 option) \<times> bytes \<times> 's) option" where
  "encode_table_leaf_cell_into ops usable_size page_size rowid payload s =
     (if length payload \<ge> 2 ^ 32 then Some (Inl TooBig, [], s)
      else
        let payload_size = word_of_nat (length payload) :: u32;
            local_size = min (unat (local_payload_size payload_size usable_size LeafTable)) (length payload) in
        do { (varint, p_len) \<leftarrow> write_varint (replicate 9 0) (ucast payload_size);
             (varint', r_len) \<leftarrow> write_varint varint rowid;
             let out = take p_len varint @ take r_len varint' @ take local_size payload in
             if local_size < length payload then
               (case write_overflow_chain_for_insert ops usable_size page_size (drop local_size payload) s of
                  None \<Rightarrow> None
                | Some (Inl e, s') \<Rightarrow> Some (Inl e, out, s')
                | Some (Inr first_overflow, s') \<Rightarrow> Some (Inr (Some first_overflow), out @ to_be 4 first_overflow, s'))
             else Some (Inr None, out, s) })"

definition encode_index_leaf_cell_into ::
  "'s pager_ops \<Rightarrow> u32 \<Rightarrow> u32 \<Rightarrow> bytes \<Rightarrow> 's \<Rightarrow> ((FrankenError + u32 option) \<times> bytes \<times> 's) option" where
  "encode_index_leaf_cell_into ops usable_size page_size key s =
     (if length key \<ge> 2 ^ 32 then Some (Inl TooBig, [], s)
      else
        let payload_size = word_of_nat (length key) :: u32;
            local_size = min (unat (local_payload_size payload_size usable_size LeafIndex)) (length key) in
        do { (varint, p_len) \<leftarrow> write_varint (replicate 9 0) (ucast payload_size);
             let out = take p_len varint @ take local_size key in
             if local_size < length key then
               (case write_overflow_chain_for_insert ops usable_size page_size (drop local_size key) s of
                  None \<Rightarrow> None
                | Some (Inl e, s') \<Rightarrow> Some (Inl e, out, s')
                | Some (Inr first_overflow, s') \<Rightarrow> Some (Inr (Some first_overflow), out @ to_be 4 first_overflow, s'))
             else Some (Inr None, out, s) })"


section \<open>Page images\<close>

definition overflow_image :: "nat \<Rightarrow> u32 \<Rightarrow> bytes \<Rightarrow> bytes" where
  "overflow_image sz next chunk = to_be 4 next @ chunk @ replicate (sz - 4 - length chunk) 0"

definition next_of :: "u32 list \<Rightarrow> nat \<Rightarrow> u32" where
  "next_of pages i = (if i + 1 < length pages then pages ! (i + 1) else 0)"

lemma fill_overflow_page_image:
  assumes "4 + bpp \<le> length buf" "drop (4 + bpp) buf = replicate (length buf - 4 - bpp) 0" "i * bpp \<le> length data"
  shows "fill_overflow_page buf bpp data pages i =
    Some (overflow_image (length buf) (next_of pages i) (take bpp (drop (i * bpp) data)))"
proof -
  let ?c = "take bpp (drop (i * bpp) data)" and ?n = "next_of pages i"
  have chunk: "subslice (i * bpp) (min ((i + 1) * bpp) (length data)) data = ?c"
    by (simp add: subslice_def min_def)
  have l: "4 + length ?c \<le> length buf" using assms(1) by simp
  have b1: "buf_write buf 0 (to_be 4 ?n) = Some (to_be 4 ?n @ drop 4 buf)" using assms(1) by (simp add: buf_write_def)
  have b2: "buf_write (to_be 4 ?n @ drop 4 buf) 4 ?c = Some (to_be 4 ?n @ ?c @ drop (4 + length ?c) buf)"
    using l by (simp add: buf_write_def add.commute)
  have full: "drop (4 + length ?c) buf = replicate (length buf - 4 - length ?c) 0" if "\<not> length ?c < bpp"
  proof -
    have "length ?c = bpp" using that by simp
    then show ?thesis using assms(2) by simp
  qed
  have put: "put (4 + length c) (replicate m 0) (to_be 4 ?n @ c @ xs) = to_be 4 ?n @ c @ replicate m 0"
    if "length xs = m" for c xs :: bytes and m
    using that by (simp add: put_def)
  show ?thesis
    unfolding fill_overflow_page_def Let_def chunk next_of_def [symmetric] overflow_image_def
    using assms(3) b1 b2 full put by (auto simp del: length_take to_be.simps)
qed

lemma overflow_image_facts:
  assumes "4 + length chunk \<le> sz"
  shows "length (overflow_image sz next chunk) = sz" "take 4 (overflow_image sz next chunk) = to_be 4 next"
    "subslice 4 (4 + n) (overflow_image sz next chunk) = take n (chunk @ replicate (sz - 4 - length chunk) 0)"
    "length chunk \<le> bpp \<Longrightarrow> drop (4 + bpp) (overflow_image sz next chunk) = replicate (sz - 4 - bpp) 0"
  using assms by (auto simp: overflow_image_def subslice_def)

section \<open>Reading back a stored chain\<close>

text \<open>The chain of pages \<open>ps\<close> holds \<open>data\<close> in pieces of \<open>bpp\<close> bytes.\<close>

fun chain_stored :: "(u32 \<Rightarrow> bytes option) \<Rightarrow> nat \<Rightarrow> nat \<Rightarrow> u32 list \<Rightarrow> bytes \<Rightarrow> bool" where
  "chain_stored m sz bpp [] data \<longleftrightarrow> data = []"
| "chain_stored m sz bpp (p # ps) data \<longleftrightarrow>
     data \<noteq> [] \<and> valid_pgno p \<and> p \<notin> set ps \<and>
     m p = Some (overflow_image sz (case ps of [] \<Rightarrow> 0 | q # _ \<Rightarrow> q) (take bpp data)) \<and>
     chain_stored m sz bpp ps (drop bpp data)"

lemma chain_stored_valid: "chain_stored m sz bpp ps data \<Longrightarrow> p \<in> set ps \<Longrightarrow> valid_pgno p"
  by (induction ps arbitrary: data) auto

lemma chain_stored_cong:
  "chain_stored m sz bpp ps data \<Longrightarrow> (\<And>p. p \<in> set ps \<Longrightarrow> m' p = m p) \<Longrightarrow> chain_stored m' sz bpp ps data"
  by (induction ps arbitrary: data) auto

lemma from_be_take_image:
  "4 + length chunk \<le> sz \<Longrightarrow> from_be (take 4 (overflow_image sz next chunk)) = next"
  by (simp add: overflow_image_facts(2) from_be_to_be_full)

lemma read_chain_stored:
  assumes "chain_stored m sz bpp (p # ps) data" "\<And>q b. m q = Some b \<Longrightarrow> rd q = Inr b"
    "0 < bpp" "4 + bpp \<le> sz" "k + length (p # ps) \<le> MAX_OVERFLOW_CHAIN" "n \<le> length data"
  shows "read_chain rd bpp p n k out = (Inr (), out @ take n data)"
  using assms(1,5,6)
proof (induction ps arbitrary: p data k n out)
  case Nil
  let ?b = "overflow_image sz 0 (take bpp data)"
  have l: "4 + length (take bpp data) \<le> sz" using assms(4) by simp
  have d: "length data \<le> bpp" using Nil.prems(1) by simp
  note f = overflow_image_facts [OF l]
  have "rd p = Inr ?b" using Nil.prems(1) assms(2) by auto
  moreover have "4 < length ?b" using f(1) assms(3,4) by simp
  moreover have "subslice 4 (4 + n) ?b = take n data" using f(3) d Nil.prems(3) by simp
  moreover have "min n (min (length ?b - 4) bpp) = n" using f(1) d Nil.prems(3) assms(4) by simp
  ultimately show ?case
    using Nil.prems(2) by (subst read_chain.simps) (simp add: Let_def)
next
  case (Cons q ps)
  let ?b = "overflow_image sz q (take bpp data)"
  have l: "4 + length (take bpp data) \<le> sz" using assms(4) by simp
  note f = overflow_image_facts [OF l]
  have rd: "rd p = Inr ?b" using Cons.prems(1) assms(2) by auto
  have st: "chain_stored m sz bpp (q # ps) (drop bpp data)" using Cons.prems(1) by simp
  then have d: "bpp < length data" and q: "valid_pgno q" by (auto simp: not_le)
  have b4: "4 < length ?b" using f(1) assms(3,4) by simp
  have lb: "length ?b - 4 \<ge> bpp" using f(1) assms(4) by simp
  have sub: "subslice 4 (4 + j) ?b = take j data" if "j \<le> bpp" for j using f(3) d that by simp
  have nx: "from_be (take 4 ?b) = q" by (rule from_be_take_image [OF l])
  have pn: "PageNumber_new q = Some q" using q by (simp add: PageNumber_new_def valid_pgno_def)
  show ?case
  proof (cases "n \<le> bpp")
    case True
    then show ?thesis using Cons.prems(2) rd b4 lb sub [OF True]
      by (subst read_chain.simps) (simp add: Let_def min_def)
  next
    case False
    then have "read_chain rd bpp q (n - bpp) (k + 1) (out @ take bpp data) =
        (Inr (), (out @ take bpp data) @ take (n - bpp) (drop bpp data))"
      using Cons.prems(2,3) d by (intro Cons.IH [OF st]) auto
    moreover have "take bpp data @ take (n - bpp) (drop bpp data) = take n data"
      using False by (metis le_add_diff_inverse not_le nless_le take_add)
    ultimately show ?thesis using False Cons.prems(2) rd b4 lb sub [OF order_refl] nx pn
      by (subst read_chain.simps) (simp add: Let_def min_def)
  qed
qed

section \<open>Writing a chain\<close>

lemma div_ceil_bounds:
  assumes "0 < b" "0 < a"
  shows "0 < div_ceil a b" "a \<le> div_ceil a b * b" "i < div_ceil a b \<Longrightarrow> i * b < a"
proof -
  have e: "a = a div b * b + a mod b" by simp
  show "0 < div_ceil a b" using assms by (auto simp: div_ceil_def div_greater_zero_iff)
  show "a \<le> div_ceil a b * b" using dividend_less_div_times [OF assms(1), of a]
    by (auto simp: div_ceil_def)
  assume i: "i < div_ceil a b"
  show "i * b < a"
  proof (cases "i < a div b")
    case True
    then have "Suc i * b \<le> a div b * b" by (intro mult_le_mono1) simp
    then show ?thesis using div_times_less_eq_dividend [of a b] assms(1) unfolding mult_Suc by linarith
  next
    case False
    then have "i = a div b" "0 < a mod b" using i by (auto simp: div_ceil_def split: if_splits)
    then show ?thesis using e by (metis less_add_same_cancel1)
  qed
qed

text \<open>The images a chain of pages receives, page \<open>i\<close> first.\<close>

definition chain_image :: "nat \<Rightarrow> nat \<Rightarrow> bytes \<Rightarrow> u32 list \<Rightarrow> nat \<Rightarrow> bytes" where
  "chain_image sz bpp data pages i = overflow_image sz (next_of pages i) (take bpp (drop (i * bpp) data))"

lemma chain_stored_images:
  assumes "distinct pages" "list_all valid_pgno pages" "\<And>i. i < length pages \<Longrightarrow> i * bpp < length data"
    "length data \<le> length pages * bpp" "\<And>i. i < length pages \<Longrightarrow> m (pages ! i) = Some (chain_image sz bpp data pages i)"
  shows "chain_stored m sz bpp pages data"
  using assms
proof (induction pages arbitrary: data)
  case (Cons p ps)
  have "data \<noteq> []" using Cons.prems(3) [of 0] by auto
  moreover have "m p = Some (overflow_image sz (case ps of [] \<Rightarrow> 0 | q # _ \<Rightarrow> q) (take bpp data))"
    using Cons.prems(5) [of 0] by (auto simp: chain_image_def next_of_def split: list.splits)
  moreover have "chain_stored m sz bpp ps (drop bpp data)"
  proof (rule Cons.IH)
    fix i assume i: "i < length ps"
    then show "i * bpp < length (drop bpp data)" using Cons.prems(3) [of "Suc i"] by simp
    have "chain_image sz bpp data (p # ps) (Suc i) = chain_image sz bpp (drop bpp data) ps i"
      by (simp add: chain_image_def next_of_def add.commute)
    then show "m (ps ! i) = Some (chain_image sz bpp (drop bpp data) ps i)"
      using Cons.prems(5) [of "Suc i"] i by simp
  qed (use Cons.prems in auto)
  ultimately show ?case using Cons.prems(1,2) by simp
qed simp

context page_io
begin

text \<open>Allocation of several pages: on success they are new and pairwise distinct, on failure too,
  and only they are mapped.\<close>

lemma alloc_pages_spec:
  assumes "alloc_pages alloc n acc s = (r, ps, s')" "valid s"
  shows "\<exists>new. ps = acc @ new \<and> valid s' \<and> size s' = size s \<and> distinct new \<and> list_all valid_pgno new \<and>
    (\<forall>p\<in>set new. pages s p = None) \<and> (\<forall>p. p \<notin> set new \<longrightarrow> pages s' p = pages s p) \<and>
    (\<forall>p\<in>set new. pages s' p \<noteq> None) \<and> (r = Inr () \<longrightarrow> length new = n)"
  using assms
proof (induction n arbitrary: acc s)
  case 0
  then show ?case by auto
next
  case (Suc n)
  obtain a s1 where a: "alloc s = (a, s1)" by fastforce
  show ?case
  proof (cases a)
    case (Inl e)
    then have "s' = s1" "ps = acc" "r = Inl e" using Suc.prems a by auto
    then show ?thesis using alloc_err [of s e s1] a Inl Suc.prems(2) by auto
  next
    case (Inr p)
    then obtain b where b: "valid s1" "size s1 = size s" "valid_pgno p" "pages s p = None" "pages s1 = (pages s)(p \<mapsto> b)"
      using alloc_ok [of s p s1] a Suc.prems(2) by auto
    have "alloc_pages alloc n (acc @ [p]) s1 = (r, ps, s')" using Suc.prems(1) a Inr by simp
    from Suc.IH [OF this b(1)] obtain new where new: "ps = (acc @ [p]) @ new" "valid s'" "size s' = size s1"
      "distinct new" "list_all valid_pgno new" "\<forall>q\<in>set new. pages s1 q = None"
      "\<forall>q. q \<notin> set new \<longrightarrow> pages s' q = pages s1 q" "\<forall>q\<in>set new. pages s' q \<noteq> None" "r = Inr () \<longrightarrow> length new = n"
      by blast
    have "p \<notin> set new" using new(6) b(5) by auto
    moreover from this have "\<forall>q\<in>set new. pages s q = None" using new(6) b(5) by (metis fun_upd_apply)
    ultimately show ?thesis using new b by (intro exI [of _ "p # new"]) auto
  qed
qed

text \<open>The cursor's write loop on distinct mapped pages: it writes the images in order, or fails and
  unmaps all pages of the chain.\<close>

lemma write_insert_pages_spec:
  assumes "write_insert_pages wr free (size s) bpp data ps idx s = Some (r, s')"
    "valid s" "list_all valid_pgno ps" "4 + bpp \<le> size s" "\<And>i. i < length ps \<Longrightarrow> i * bpp \<le> length data"
  shows "valid s' \<and> size s' = size s \<and> (\<forall>p. p \<notin> set ps \<longrightarrow> pages s' p = pages s p) \<and>
    (r = Inr () \<longrightarrow> distinct ps \<longrightarrow> (\<forall>i<length ps. pages s' (ps ! i) =
       (if idx \<le> i then Some (chain_image (size s) bpp data ps i) else pages s (ps ! i)))) \<and>
    (\<forall>e. r = Inl e \<longrightarrow> (\<forall>p\<in>set ps. pages s' p = None))"
  using assms
proof (induction "length ps - idx" arbitrary: idx s)
  case 0
  then show ?case by (subst (asm) write_insert_pages.simps) auto
next
  case (Suc n)
  then have idx: "idx < length ps" by simp
  let ?b = "chain_image (size s) bpp data ps idx"
  have f: "fill_overflow_page (replicate (size s) 0) bpp data ps idx = Some ?b"
    using fill_overflow_page_image [of bpp "replicate (size s) 0" idx data ps] Suc.prems(4,5) idx
    by (simp add: chain_image_def)
  have lb: "length ?b = size s" using Suc.prems(4) by (simp add: chain_image_def overflow_image_facts(1))
  have p: "valid_pgno (ps ! idx)" using Suc.prems(3) idx by (simp add: list_all_length)
  obtain a s1 where w: "wr (ps ! idx) ?b s = (a, s1)" by fastforce
  show ?case
  proof (cases a)
    case (Inl e)
    have "valid s1 \<and> size s1 = size s \<and> pages s1 = pages s" using wr_err [of s _ _ e s1] w Inl Suc.prems(2) by blast
    moreover have "s' = free_all free ps s1 \<and> r = Inl e"
      using Suc.prems(1) f w Inl idx by (subst (asm) write_insert_pages.simps) simp
    ultimately show ?thesis using free_list [of s1 ps] by (auto simp: free_all_def)
  next
    case (Inr u)
    have s1: "valid s1" "size s1 = size s" "pages s1 = (pages s)(ps ! idx \<mapsto> ?b)"
      using wr_ok [OF Suc.prems(2) lb p, of s1] w Inr by auto
    have rec: "write_insert_pages wr free (size s1) bpp data ps (idx + 1) s1 = Some (r, s')"
      using Suc.prems(1) f w Inr idx s1(2) by (subst (asm) write_insert_pages.simps) simp
    have IH: "valid s' \<and> size s' = size s1 \<and> (\<forall>p. p \<notin> set ps \<longrightarrow> pages s' p = pages s1 p) \<and>
      (r = Inr () \<longrightarrow> distinct ps \<longrightarrow> (\<forall>i<length ps. pages s' (ps ! i) =
         (if idx + 1 \<le> i then Some (chain_image (size s1) bpp data ps i) else pages s1 (ps ! i)))) \<and>
      (\<forall>e. r = Inl e \<longrightarrow> (\<forall>p\<in>set ps. pages s' p = None))"
      using Suc.hyps(2) Suc.prems s1 idx by (intro Suc.hyps(1) [OF _ rec]) auto
    show ?thesis using IH s1 idx by (auto simp: nth_eq_iff_index_eq not_less_eq_eq)
  qed
qed

lemma write_insert_pages_total:
  assumes "valid s" "list_all valid_pgno ps" "4 + bpp \<le> size s" "\<And>i. i < length ps \<Longrightarrow> i * bpp \<le> length data"
  shows "write_insert_pages wr free (size s) bpp data ps idx s \<noteq> None"
  using assms
proof (induction "length ps - idx" arbitrary: idx s)
  case 0
  then show ?case by (subst write_insert_pages.simps) auto
next
  case (Suc n)
  then have idx: "idx < length ps" by simp
  let ?b = "chain_image (size s) bpp data ps idx"
  have f: "fill_overflow_page (replicate (size s) 0) bpp data ps idx = Some ?b"
    using fill_overflow_page_image [of bpp "replicate (size s) 0" idx data ps] Suc.prems(3,4) idx
    by (simp add: chain_image_def)
  have lb: "length ?b = size s" using Suc.prems(3) by (simp add: chain_image_def overflow_image_facts(1))
  have p: "valid_pgno (ps ! idx)" using Suc.prems(2) idx by (simp add: list_all_length)
  obtain a s1 where w: "wr (ps ! idx) ?b s = (a, s1)" by fastforce
  show ?case
  proof (cases a)
    case (Inl e)
    then show ?thesis using f w idx by (subst write_insert_pages.simps) simp
  next
    case (Inr u)
    have s1: "valid s1" "size s1 = size s" using wr_ok [OF Suc.prems(1) lb p, of s1] w Inr by auto
    have "write_insert_pages wr free (size s1) bpp data ps (idx + 1) s1 \<noteq> None"
      using Suc.hyps(2) Suc.prems s1 idx by (intro Suc.hyps(1)) auto
    then show ?thesis using f w Inr idx s1(2) by (subst write_insert_pages.simps) simp
  qed
qed

definition io_ops :: "'s pager_ops" where
  "io_ops = \<lparr>po_read = rd, po_write = wr, po_alloc = alloc, po_free = free\<rparr>"

lemma io_ops_sel [simp]: "po_read io_ops = rd" "po_write io_ops = wr" "po_alloc io_ops = alloc" "po_free io_ops = free"
  by (simp_all add: io_ops_def)

text \<open>The cursor's chain writer stores the data in new pages, or fails leaving every page as it was.\<close>

lemma insert_chain_spec:
  assumes v: "valid s" and sz: "unat page_size = size s" "usable \<le> page_size"
  obtains (error) e s' where "write_overflow_chain_for_insert io_ops usable page_size data s = Some (Inl e, s')"
      "valid s'" "size s' = size s" "pages s' = pages s"
  | (stored) first ps s' where "write_overflow_chain_for_insert io_ops usable page_size data s = Some (Inr first, s')"
      "valid s'" "size s' = size s" "chain_stored (pages s') (size s) (unat usable - 4) (first # ps) data"
      "length (first # ps) \<le> MAX_OVERFLOW_CHAIN" "4 < unat usable"
      "\<forall>p\<in>set (first # ps). pages s p = None" "\<forall>p. p \<notin> set (first # ps) \<longrightarrow> pages s' p = pages s p"
proof (cases "data = [] \<or> usable \<le> 4 \<or> div_ceil (length data) (unat usable - 4) > MAX_OVERFLOW_CHAIN")
  case True
  then have "\<exists>e. write_overflow_chain_for_insert io_ops usable page_size data s = Some (Inl e, s)"
    by (auto simp: write_overflow_chain_for_insert_def Let_def)
  then show ?thesis using error v by blast
next
  case False
  let ?bpp = "unat usable - 4" and ?n = "div_ceil (length data) (unat usable - 4)"
  let ?W = "write_overflow_chain_for_insert io_ops usable page_size data s"
  obtain r ps s1 where al: "alloc_pages alloc ?n [] s = (r, ps, s1)" by (metis prod_cases3)
  from alloc_pages_spec [OF al v] have A: "valid s1" "size s1 = size s" "distinct ps" "list_all valid_pgno ps"
    "\<forall>p\<in>set ps. pages s p = None" "\<forall>p. p \<notin> set ps \<longrightarrow> pages s1 p = pages s p" "r = Inr () \<Longrightarrow> length ps = ?n" by auto
  have u4: "4 < unat usable" using False by (simp add: word_le_nat_alt)
  then have le: "4 + ?bpp \<le> size s1" using sz A(2) by (simp add: word_le_nat_alt)
  have D: "0 < ?n" "length data \<le> ?n * ?bpp" "\<And>i. i < ?n \<Longrightarrow> i * ?bpp < length data"
    using div_ceil_bounds [of ?bpp "length data"] False u4 by simp_all
  show ?thesis
  proof (cases r)
    case (Inl e)
    have "?W = Some (Inl e, free_all free ps s1)"
      using False u4 al Inl by (auto simp: write_overflow_chain_for_insert_def Let_def)
    moreover have "pages (free_all free ps s1) = pages s" "valid (free_all free ps s1)" "size (free_all free ps s1) = size s"
      using free_list [OF A(1), of ps] A(2,5,6) by (auto simp: free_all_def fun_eq_iff)
    ultimately show ?thesis using error by blast
  next
    case (Inr u)
    then have len: "length ps = ?n" using A(7) by simp
    have ix: "\<And>i. i < length ps \<Longrightarrow> i * ?bpp \<le> length data" using D(3) len by (simp add: less_imp_le)
    obtain r2 s2 where wr: "write_insert_pages wr free (size s1) ?bpp data ps 0 s1 = Some (r2, s2)"
      using write_insert_pages_total [OF A(1,4) le ix, of 0] by auto
    note W = write_insert_pages_spec [OF wr A(1,4) le ix]
    have ne: "ps \<noteq> []" using D(1) len by auto
    have ws: "?W = (case r2 of Inl e \<Rightarrow> Some (Inl e, s2) | Inr _ \<Rightarrow> Some (Inr (ps ! 0), s2))"
      using False u4 al Inr wr ne sz A(2) by (auto simp: write_overflow_chain_for_insert_def Let_def split: sum.splits)
    show ?thesis
    proof (cases r2)
      case (Inl e)
      then have "pages s2 = pages s" using W A(5,6) by (metis (no_types, opaque_lifting) ext)
      then show ?thesis using W A(2) ws Inl by (intro error [of e s2]) auto
    next
      case R: (Inr u')
      have "chain_stored (pages s2) (size s) ?bpp ps data"
        using W R A(2,3) D(2,3) len by (intro chain_stored_images [OF A(3,4)]) auto
      moreover obtain f qs where ps: "ps = f # qs" using ne by (cases ps) auto
      ultimately show ?thesis using W R A ws u4 len False by (intro stored [of f s2 qs]) auto
    qed
  qed
qed

text \<open>Freeing a stored chain unmaps exactly its pages.\<close>

lemma free_chain_stored:
  assumes "valid s" "chain_stored (pages s) sz bpp (p # ps) data" "4 + bpp \<le> sz" "k + length (p # ps) \<le> MAX_OVERFLOW_CHAIN"
  shows "\<exists>s'. free_chain io_ops (Some p) k s = (Inr (), s') \<and> valid s' \<and> size s' = size s \<and>
    pages s' = (\<lambda>q. if q \<in> set (p # ps) then None else pages s q)"
  using assms
proof (induction ps arbitrary: p data k s)
  case (Nil p data k s)
  let ?b = "overflow_image sz 0 (take bpp data)"
  have l: "4 + length (take bpp data) \<le> sz" using assms(3) by simp
  have "rd p s = Inr ?b" using Nil.prems(1,2) rd_mapped by simp
  moreover obtain s1 where s1: "free p s = (Inr (), s1)" "valid s1" "size s1 = size s" "pages s1 = (pages s)(p := None)"
    using free_ok [OF Nil.prems(1)] by blast
  moreover have "length ?b = sz" "PageNumber_new (from_be (take 4 ?b)) = None"
    using overflow_image_facts(1) [OF l] from_be_take_image [OF l] by (simp_all add: PageNumber_new_def)
  moreover have "free_chain io_ops None j s1 = (Inr (), s1)" for j by (subst free_chain.simps) simp
  ultimately have "free_chain io_ops (Some p) k s = (Inr (), s1)"
    using Nil.prems(4) assms(3) by (subst free_chain.simps) simp
  then show ?case using s1 by (auto simp: fun_eq_iff)
next
  case (Cons q ps p data k s)
  let ?b = "overflow_image sz q (take bpp data)"
  have l: "4 + length (take bpp data) \<le> sz" using assms(3) by simp
  have st: "chain_stored (pages s) sz bpp (q # ps) (drop bpp data)" and np: "p \<notin> set (q # ps)" and q: "valid_pgno q"
    using Cons.prems(2) by simp_all
  have "rd p s = Inr ?b" using Cons.prems(1,2) rd_mapped by simp
  moreover obtain s1 where s1: "free p s = (Inr (), s1)" "valid s1" "size s1 = size s" "pages s1 = (pages s)(p := None)"
    using free_ok [OF Cons.prems(1)] by blast
  moreover have "length ?b = sz" "PageNumber_new (from_be (take 4 ?b)) = Some q"
    using overflow_image_facts(1) [OF l] from_be_take_image [OF l] q by (simp_all add: PageNumber_new_def valid_pgno_def)
  ultimately have "free_chain io_ops (Some p) k s = free_chain io_ops (Some q) (k + 1) s1"
    using Cons.prems(4) assms(3) by (subst free_chain.simps) simp
  moreover have "chain_stored (pages s1) sz bpp (q # ps) (drop bpp data)"
    using np s1(4) by (intro chain_stored_cong [OF st]) auto
  then obtain s' where "free_chain io_ops (Some q) (k + 1) s1 = (Inr (), s')" "valid s'" "size s' = size s1"
      "pages s' = (\<lambda>r. if r \<in> set (q # ps) then None else pages s1 r)"
    using Cons.IH [OF s1(2) _ assms(3), of q "drop bpp data" "k + 1"] Cons.prems(4) by auto
  ultimately show ?case using s1 by (auto simp: fun_eq_iff)
qed

end

section \<open>Cells\<close>

text \<open>Every loop reads at most the bytes asked for, and exactly those when it succeeds.\<close>

lemma read_chain_bounds:
  assumes "read_chain rd bpp p n k out = (r, out')"
  shows "\<exists>bs. out' = out @ bs \<and> length bs \<le> n \<and> (r = Inr () \<longrightarrow> length bs = n)"
  using assms
proof (induction rd bpp p n k out rule: read_chain.induct)
  case (1 rd bpp p n k out)
  show ?case
  proof (cases "n = 0 \<or> k + 1 > MAX_OVERFLOW_CHAIN \<or> (\<exists>e. rd p = Inl e)")
    case True
    then show ?thesis using "1.prems" by (subst (asm) read_chain.simps) (auto split: if_splits)
  next
    case False
    then obtain b where b: "rd p = Inr b" by (cases "rd p") auto
    define t where "t = min n (min (length b - 4) bpp)"
    show ?thesis
    proof (cases "length b \<le> 4")
      case True
      then show ?thesis using "1.prems" False b by (subst (asm) read_chain.simps) auto
    next
      case len: False
      have l: "length (subslice 4 (4 + t) b) = t" "t \<le> n" using len by (simp_all add: t_def)
      show ?thesis
      proof (cases "n - t > 0 \<and> PageNumber_new (from_be (take 4 b)) \<noteq> None")
        case True
        then obtain q where q: "PageNumber_new (from_be (take 4 b)) = Some q" by blast
        have "read_chain rd bpp q (n - t) (k + 1) (out @ subslice 4 (4 + t) b) = (r, out')"
          using "1.prems" False b len True q by (subst (asm) read_chain.simps) (simp add: Let_def t_def [symmetric])
        then obtain bs where "out' = (out @ subslice 4 (4 + t) b) @ bs" "length bs \<le> n - t" "r = Inr () \<longrightarrow> length bs = n - t"
          using "1.IH" [OF _ _ b _ refl refl t_def refl refl _ q] False len True by (auto simp: not_less)
        then show ?thesis using l by (intro exI [of _ "subslice 4 (4 + t) b @ bs"]) auto
      next
        case F: False
        then have "out' = out @ subslice 4 (4 + t) b \<and> (r = Inr () \<longrightarrow> n = t)"
          using "1.prems" False b len l(2)
          by (subst (asm) read_chain.simps) (auto simp add: Let_def t_def [symmetric] split: if_splits)
        then show ?thesis using l by auto
      qed
    qed
  qed
qed

text \<open>The bytes of a leaf cell, and the cell they are parsed as.\<close>

definition rowid_bytes :: "BtreePageType \<Rightarrow> i64 \<Rightarrow> bytes" where
  "rowid_bytes t rowid = (if t = LeafTable then varint_bytes rowid else [])"

definition leaf_local :: "BtreePageType \<Rightarrow> u32 \<Rightarrow> bytes \<Rightarrow> nat" where
  "leaf_local t usable payload = unat (local_payload_size (word_of_nat (length payload)) usable t)"

definition leaf_cell :: "BtreePageType \<Rightarrow> u32 \<Rightarrow> i64 \<Rightarrow> bytes \<Rightarrow> u32 option \<Rightarrow> bytes" where
  "leaf_cell t usable rowid payload ov =
     varint_bytes (word_of_nat (length payload)) @ rowid_bytes t rowid @ take (leaf_local t usable payload) payload @
     (case ov of None \<Rightarrow> [] | Some p \<Rightarrow> to_be 4 p)"

definition leaf_cell_ref :: "BtreePageType \<Rightarrow> u32 \<Rightarrow> i64 \<Rightarrow> bytes \<Rightarrow> u32 option \<Rightarrow> nat \<Rightarrow> CellRef" where
  "leaf_cell_ref t usable rowid payload ov off =
     \<lparr>cr_left_child = None, cr_rowid = (if t = LeafTable then Some rowid else None),
      cr_payload_size = word_of_nat (length payload),
      cr_local_size = local_payload_size (word_of_nat (length payload)) usable t,
      cr_payload_offset = off + varint_len (word_of_nat (length payload)) + length (rowid_bytes t rowid),
      cr_overflow_page = ov\<rparr>"

lemma leaf_local_le:
  assumes "length payload < 2 ^ 32" "unat usable \<le> 65536"
  shows "leaf_local t usable payload \<le> length payload"
    "leaf_local t usable payload < length payload \<longleftrightarrow>
     local_payload_size (word_of_nat (length payload)) usable t < word_of_nat (length payload)"
proof -
  have u: "unat (word_of_nat (length payload) :: u32) = length payload" using assms(1) by (simp add: unsigned_of_nat take_bit_nat_eq_self)
  show "leaf_local t usable payload \<le> length payload"
    using local_payload_bounds(1) [OF assms(2), of "word_of_nat (length payload)" t] u by (simp add: leaf_local_def word_le_nat_alt)
  show "leaf_local t usable payload < length payload \<longleftrightarrow>
     local_payload_size (word_of_nat (length payload)) usable t < word_of_nat (length payload)"
    using u by (simp add: leaf_local_def word_less_nat_alt)
qed

lemma placed_cell_ok:
  assumes len: "length payload < 2 ^ 32" and u: "unat usable \<le> 65536"
    and t: "t = LeafTable \<or> t = LeafIndex"
    and ov: "ov \<noteq> None \<longleftrightarrow> leaf_local t usable payload < length payload" "\<And>p. ov = Some p \<Longrightarrow> valid_pgno p"
    and fits: "length pre + length (leaf_cell t usable rowid payload ov) \<le> unat usable"
  shows "cell_ok (pre @ leaf_cell t usable rowid payload ov @ post) (length pre) t usable
      (leaf_cell_ref t usable rowid payload ov (length pre))"
    "local_payload (leaf_cell_ref t usable rowid payload ov (length pre)) (pre @ leaf_cell t usable rowid payload ov @ post) =
      Some (take (leaf_local t usable payload) payload)"
proof -
  let ?psz = "word_of_nat (length payload) :: u32" and ?raw = "word_of_nat (length payload) :: u64"
  let ?l = "leaf_local t usable payload" and ?rb = "rowid_bytes t rowid"
  let ?tl = "case ov of None \<Rightarrow> [] | Some p \<Rightarrow> to_be 4 p"
  let ?k = "varint_len ?raw" and ?po = "length pre + varint_len ?raw + length ?rb"
  let ?page = "pre @ leaf_cell t usable rowid payload ov @ post"
  note ll = leaf_local_le [OF len u, of t]
  have raw: "unat ?raw = length payload" using len by (simp add: unsigned_of_nat take_bit_nat_eq_self)
  then have "?raw \<le> 0xFFFFFFFF" using len by (simp add: word_le_nat_alt)
  moreover have "(ucast ?raw :: u32) = ?psz" by (simp add: unsigned_of_nat word_unat_eq_iff unsigned_ucast_eq raw)
  moreover have "read_varint (drop (length pre) ?page) = Some (?raw, ?k)" by (simp add: leaf_cell_def)
  moreover have "t = LeafTable \<Longrightarrow> read_varint (drop (length pre + ?k) ?page) = Some (rowid, varint_len rowid)"
    by (simp add: leaf_cell_def rowid_bytes_def)
  moreover have lt: "length (take ?l payload) = ?l" using ll(1) by simp
  have after: "drop ?po ?page = take ?l payload @ ?tl @ post" by (simp add: leaf_cell_def)
  have lc: "length (leaf_cell t usable rowid payload ov) = ?k + length ?rb + ?l + length ?tl"
    using lt by (simp add: leaf_cell_def)
  have sub: "subslice (?po + ?l) (?po + ?l + 4) ?page = to_be 4 p" if "ov = Some p" for p
  proof -
    have "drop (?po + ?l) ?page = to_be 4 p @ post"
      using that lt after drop_drop [of ?l ?po ?page] by (simp add: add.commute)
    then show ?thesis by (simp add: subslice_def)
  qed
  have "tail_ok ?page usable ?po ?psz (local_payload_size ?psz usable t) ov"
  proof (cases ov)
    case None
    then show ?thesis using ov(1) ll(2) fits lc by (simp add: tail_ok_def Let_def leaf_local_def)
  next
    case (Some p)
    have "from_be (subslice (?po + ?l) (?po + ?l + 4) ?page) = p"
      unfolding sub [OF Some] by (rule from_be_to_be_full) simp
    then show ?thesis using ov ll(2) Some fits lc by (simp add: tail_ok_def Let_def leaf_local_def)
  qed
  moreover have "length pre \<le> length ?page" by simp
  ultimately show "cell_ok ?page (length pre) t usable (leaf_cell_ref t usable rowid payload ov (length pre))"
    using t unfolding cell_ok_def leaf_cell_ref_def Let_def
    by (auto simp: bt_type_defs rowid_bytes_def simp del: drop_append)
  have "subslice ?po (?po + ?l) ?page = take ?l payload" using after lt by (simp add: subslice_def)
  moreover have "?po + ?l \<le> length ?page" using lc by simp
  ultimately show "local_payload (leaf_cell_ref t usable rowid payload ov (length pre)) ?page = Some (take ?l payload)"
    by (simp add: local_payload_def leaf_cell_ref_def leaf_local_def)
qed

text \<open>Both encoders are one function of the page type.\<close>

definition encode_leaf ::
  "'s pager_ops \<Rightarrow> u32 \<Rightarrow> u32 \<Rightarrow> BtreePageType \<Rightarrow> i64 \<Rightarrow> bytes \<Rightarrow> 's \<Rightarrow> ((FrankenError + u32 option) \<times> bytes \<times> 's) option" where
  "encode_leaf ops usable page_size t rowid payload s =
     (if length payload \<ge> 2 ^ 32 then Some (Inl TooBig, [], s)
      else if leaf_local t usable payload < length payload
      then (case write_overflow_chain_for_insert ops usable page_size (drop (leaf_local t usable payload) payload) s of
              None \<Rightarrow> None
            | Some (Inl e, s') \<Rightarrow> Some (Inl e, leaf_cell t usable rowid payload None, s')
            | Some (Inr p, s') \<Rightarrow> Some (Inr (Some p), leaf_cell t usable rowid payload (Some p), s'))
      else Some (Inr None, leaf_cell t usable rowid payload None, s))"

lemma write_varint_9:
  assumes "length buf = 9"
  shows "write_varint buf v = Some (varint_bytes v @ drop (varint_len v) buf, varint_len v)"
  using assms varint_len_range(2) [of v] by (intro write_varint_refines) simp

lemma encode_leaf_eqs:
  assumes "unat usable \<le> 65536"
  shows "encode_table_leaf_cell_into ops usable page_size rowid payload s = encode_leaf ops usable page_size LeafTable rowid payload s"
    "encode_index_leaf_cell_into ops usable page_size payload s = encode_leaf ops usable page_size LeafIndex rowid payload s"
proof -
  have w: "(ucast (word_of_nat (length payload) :: u32) :: u64) = word_of_nat (length payload)" if "length payload < 2 ^ 32"
    using that by (simp add: word_unat_eq_iff unsigned_ucast_eq unsigned_of_nat take_bit_nat_eq_self)
  have m: "min (unat (local_payload_size (word_of_nat (length payload)) usable t)) (length payload) = leaf_local t usable payload"
    if "length payload < 2 ^ 32" for t
    using leaf_local_le(1) [OF that assms, of t] by (simp add: leaf_local_def)
  have l9: "length (varint_bytes v @ drop (varint_len v) (replicate 9 0 :: bytes)) = 9" for v
    using varint_len_range(2) [of v] by simp
  show "encode_table_leaf_cell_into ops usable page_size rowid payload s = encode_leaf ops usable page_size LeafTable rowid payload s"
  proof (cases "length payload < 2 ^ 32")
    case True
    show ?thesis
      unfolding encode_table_leaf_cell_into_def encode_leaf_def w [OF True] Let_def m [OF True]
      using True l9 [of "word_of_nat (length payload)"]
      by (simp add: write_varint_9 leaf_cell_def rowid_bytes_def split: option.splits sum.splits prod.splits)
  qed (simp add: encode_table_leaf_cell_into_def encode_leaf_def)
  show "encode_index_leaf_cell_into ops usable page_size payload s = encode_leaf ops usable page_size LeafIndex rowid payload s"
  proof (cases "length payload < 2 ^ 32")
    case True
    show ?thesis
      unfolding encode_index_leaf_cell_into_def encode_leaf_def w [OF True] Let_def m [OF True]
      using True by (simp add: write_varint_9 leaf_cell_def rowid_bytes_def split: option.splits sum.splits prod.splits)
  qed (simp add: encode_index_leaf_cell_into_def encode_leaf_def)
qed

context page_io
begin

text \<open>What an encoded cell promises its caller.\<close>

definition cell_promise :: "'s \<Rightarrow> 's \<Rightarrow> u32 \<Rightarrow> BtreePageType \<Rightarrow> i64 \<Rightarrow> bytes \<Rightarrow> u32 option \<Rightarrow> bytes \<Rightarrow> bool" where
  "cell_promise s s' usable t rowid payload ov out \<longleftrightarrow>
     valid s' \<and> size s' = size s \<and> (\<forall>p. pages s p \<noteq> None \<longrightarrow> pages s' p = pages s p) \<and>
     (\<forall>pre post. length pre + length out \<le> unat usable \<longrightarrow> length (pre @ out @ post) < 2 ^ 63 \<longrightarrow>
        (let c = leaf_cell_ref t usable rowid payload ov (length pre) in
         CellRef_parse (pre @ out @ post) (length pre) t usable = Some (Inr c) \<and>
         (ov = None \<or> length payload \<le> unat MAX_ALLOCATION_SIZE \<longrightarrow>
            read_payload c (pre @ out @ post) usable (\<lambda>p. rd p s') = Some (Inr payload)))) \<and>
     (case ov of None \<Rightarrow> pages s' = pages s
      | Some p \<Rightarrow> \<exists>s''. free_overflow_chain io_ops p s' = (Inr (), s'') \<and> valid s'' \<and> pages s'' = pages s)"

lemma read_payload_chain:
  assumes "valid s" "chain_stored (pages s) sz (unat usable - 4) (first # ps) (drop l payload)"
    "length (first # ps) \<le> MAX_OVERFLOW_CHAIN" "4 < unat usable" "unat usable \<le> sz"
    "l \<le> length payload" "length payload \<le> unat MAX_ALLOCATION_SIZE"
  shows "read_overflow_chain (take l payload) first (word_of_nat (length payload)) usable (\<lambda>p. rd p s) = Inr payload"
proof -
  have "length payload < 2 ^ 32" using assms(7) by (simp add: MAX_ALLOCATION_SIZE_def)
  then have u: "unat (word_of_nat (length payload) :: u32) = length payload"
    by (simp add: unsigned_of_nat take_bit_nat_eq_self)
  have ne: "drop l payload \<noteq> []" using assms(2) by simp
  have "read_chain (\<lambda>p. rd p s) (unat usable - 4) first (length payload - l) 0 (take l payload) =
      (Inr (), take l payload @ take (length payload - l) (drop l payload))"
    using assms by (intro read_chain_stored [OF assms(2)]) (auto intro: rd_mapped)
  moreover have "\<not> word_of_nat (length payload) > MAX_ALLOCATION_SIZE" "\<not> usable \<le> 4"
    using assms(4,7) u by (simp_all add: word_less_nat_alt word_le_nat_alt)
  ultimately show ?thesis using u assms(6) ne
    by (simp add: read_overflow_chain_def read_overflow_chain_into_def read_overflow_chain_prefix_into_def Let_def)
qed

lemma encode_leaf_spec:
  assumes v: "valid s" and sz: "unat page_size = size s" "usable \<le> page_size" "unat usable \<le> 65536"
    and t: "t = LeafTable \<or> t = LeafIndex"
  obtains (error) e out s' where "encode_leaf io_ops usable page_size t rowid payload s = Some (Inl e, out, s')"
      "valid s'" "size s' = size s" "pages s' = pages s"
  | (encoded) ov s' where "encode_leaf io_ops usable page_size t rowid payload s = Some (Inr ov, leaf_cell t usable rowid payload ov, s')"
      "cell_promise s s' usable t rowid payload ov (leaf_cell t usable rowid payload ov)"
proof (cases "length payload < 2 ^ 32")
  case False
  then show ?thesis using v by (intro error [of TooBig "[]" s]) (simp_all add: encode_leaf_def)
next
  case len: True
  note ll = leaf_local_le [OF len sz(3), of t]
  let ?l = "leaf_local t usable payload" and ?c = "\<lambda>ov. leaf_cell t usable rowid payload ov"
  have parse: "CellRef_parse (pre @ ?c ov @ post) (length pre) t usable =
      Some (Inr (leaf_cell_ref t usable rowid payload ov (length pre)))"
      "local_payload (leaf_cell_ref t usable rowid payload ov (length pre)) (pre @ ?c ov @ post) = Some (take ?l payload)"
    if "ov \<noteq> None \<longleftrightarrow> ?l < length payload" "\<And>p. ov = Some p \<Longrightarrow> valid_pgno p"
      "length pre + length (?c ov) \<le> unat usable" "length (pre @ ?c ov @ post) < 2 ^ 63" for pre post ov
    using placed_cell_ok [OF len sz(3) t that(1,2,3), of post] cell_ok_parse [OF _ that(4)] by blast+
  show ?thesis
  proof (cases "?l < length payload")
    case False
    have "cell_promise s s usable t rowid payload None (?c None)"
      unfolding cell_promise_def Let_def using v False parse [of None] ll(1)
      by (auto simp: read_payload_def leaf_cell_ref_def)
    moreover have "encode_leaf io_ops usable page_size t rowid payload s = Some (Inr None, ?c None, s)"
      using False len by (simp add: encode_leaf_def)
    ultimately show ?thesis using encoded by blast
  next
    case True
    show ?thesis
    proof (cases rule: insert_chain_spec [OF v sz(1,2), of "drop ?l payload"])
      case (1 e s')
      then show ?thesis using True len by (intro error [of e "?c None" s']) (simp_all add: encode_leaf_def)
    next
      case (2 first ps s')
      have us: "unat usable \<le> size s" using sz by (simp add: word_le_nat_alt)
      have vf: "valid_pgno first" using 2(4) by simp
      have rp: "read_overflow_chain (take ?l payload) first (word_of_nat (length payload)) usable (\<lambda>p. rd p s') = Inr payload"
        if "length payload \<le> unat MAX_ALLOCATION_SIZE"
        by (rule read_payload_chain [OF 2(2,4,5,6) us ll(1) that])
      obtain s'' where "free_overflow_chain io_ops first s' = (Inr (), s'')" "valid s''"
          "pages s'' = (\<lambda>q. if q \<in> set (first # ps) then None else pages s' q)"
        using free_chain_stored [OF 2(2,4), of 0] 2(5,6) us by (auto simp: free_overflow_chain_def)
      moreover from this(3) have "pages s'' = pages s" using 2(7,8) by (auto simp: fun_eq_iff)
      moreover have "pages s' p = pages s p" if "pages s p \<noteq> None" for p using 2(7,8) that by metis
      ultimately have "cell_promise s s' usable t rowid payload (Some first) (?c (Some first))"
        unfolding cell_promise_def Let_def using 2(2,3) True parse [of "Some first"] vf rp
        by (auto simp: read_payload_def leaf_cell_ref_def)
      moreover have "encode_leaf io_ops usable page_size t rowid payload s = Some (Inr (Some first), ?c (Some first), s')"
        using True len 2(1) by (simp add: encode_leaf_def)
      ultimately show ?thesis using encoded by blast
    qed
  qed
qed

end

section \<open>Partial reads and the two writers\<close>

lemma read_chain_step:
  assumes "n \<noteq> 0" "\<not> k + 1 > MAX_OVERFLOW_CHAIN" "rd p = Inr b" "\<not> length b \<le> 4" "t = min n (min (length b - 4) bpp)"
  shows "read_chain rd bpp p n k out =
    (if n - t > 0 then (case PageNumber_new (from_be (take 4 b)) of
        None \<Rightarrow> (Inl (DatabaseCorrupt ''unexpected end of overflow chain''), out @ subslice 4 (4 + t) b)
      | Some q \<Rightarrow> read_chain rd bpp q (n - t) (k + 1) (out @ subslice 4 (4 + t) b))
     else (Inr (), out @ subslice 4 (4 + t) b))"
  using assms(1-4) unfolding assms(5) by (subst read_chain.simps) (simp only: Let_def if_False sum.case not_False_eq_True)

lemma read_chain_prefix:
  assumes "read_chain rd bpp p n k out = (Inr (), out @ bs)" "m \<le> n"
  shows "read_chain rd bpp p m k out = (Inr (), out @ take m bs)"
  using assms
proof (induction rd bpp p n k out arbitrary: bs m rule: read_chain.induct)
  case (1 rd bpp p n k out)
  show ?case
  proof (cases "m = 0")
    case True
    then show ?thesis by (subst read_chain.simps) simp
  next
    case m: False
    then have nk: "n \<noteq> 0" "\<not> k + 1 > MAX_OVERFLOW_CHAIN" and "\<exists>b. rd p = Inr b \<and> \<not> length b \<le> 4"
      using "1.prems" by (subst (asm) (1) read_chain.simps; auto split: if_splits sum.splits)+
    then obtain b where b: "rd p = Inr b" "\<not> length b \<le> 4" by blast
    define t where "t = min n (min (length b - 4) bpp)"
    define u where "u = min m (min (length b - 4) bpp)"
    have tn: "t \<le> n" "u \<le> t" "u < m \<Longrightarrow> u = t" "t \<le> length b - 4" using "1.prems"(2) by (auto simp: t_def u_def)
    let ?q = "PageNumber_new (from_be (take 4 b))" and ?o = "out @ subslice 4 (4 + t) b"
    have full: "(if n - t > 0 then (case ?q of None \<Rightarrow> (Inl (DatabaseCorrupt ''unexpected end of overflow chain''), ?o)
        | Some q \<Rightarrow> read_chain rd bpp q (n - t) (k + 1) ?o) else (Inr (), ?o)) = (Inr (), out @ bs)"
      using "1.prems"(1) unfolding read_chain_step [of n k rd p b t bpp, OF nk b t_def] .
    have goal: "read_chain rd bpp p m k out = (if m - u > 0 then
        (case ?q of None \<Rightarrow> (Inl (DatabaseCorrupt ''unexpected end of overflow chain''), out @ subslice 4 (4 + u) b)
        | Some q \<Rightarrow> read_chain rd bpp q (m - u) (k + 1) (out @ subslice 4 (4 + u) b)) else (Inr (), out @ subslice 4 (4 + u) b))"
      by (rule read_chain_step [of m k rd p b u bpp, OF m nk(2) b u_def])
    have lt: "length (subslice 4 (4 + t) b) = t" using tn(4) by simp
    show ?thesis
    proof (cases "m - u > 0")
      case True
      then have ut: "u = t" "n - t > 0" using tn "1.prems"(2) by auto
      then obtain q where q: "?q = Some q" using full by (auto split: option.splits)
      have rec: "read_chain rd bpp q (n - t) (k + 1) ?o = (Inr (), out @ bs)" using full ut q by simp
      then obtain bs' where bs': "out @ bs = ?o @ bs'" using read_chain_bounds [OF rec] by auto
      have "read_chain rd bpp q (m - t) (k + 1) ?o = (Inr (), ?o @ take (m - t) bs')"
        using "1.IH" [OF nk b(1,2) refl refl t_def refl refl ut(2) q, of bs' "m - t"] rec bs' "1.prems"(2) by simp
      moreover have "subslice 4 (4 + t) b @ take (m - t) bs' = take m bs"
        using bs' lt True ut by simp
      ultimately show ?thesis using goal True ut q by simp
    next
      case False
      have mu: "m = u" using False tn(1) by (simp add: u_def)
      have "\<exists>bs'. bs = subslice 4 (4 + t) b @ bs'"
        using full read_chain_bounds by (fastforce split: if_splits option.splits)
      then have "take m bs = take m (subslice 4 (4 + t) b)" using lt mu tn(2) by auto
      also have "\<dots> = subslice 4 (4 + u) b" using mu tn(2) by (simp add: subslice_def)
      finally show ?thesis using goal False by simp
    qed
  qed
qed

lemma writers_loop_agree:
  assumes "length buf = sz" "4 + bpp \<le> sz" "drop (4 + bpp) buf = replicate (sz - 4 - bpp) 0"
    "\<And>j. j < length ps \<Longrightarrow> j * bpp \<le> length data"
  shows "write_insert_pages wr free sz bpp data ps i s =
    map_option (\<lambda>(r, s'). (r, case r of Inl _ \<Rightarrow> free_all free ps s' | Inr _ \<Rightarrow> s')) (write_pages wr bpp data ps i buf s)"
  using assms(1,3)
proof (induction "length ps - i" arbitrary: i s buf)
  case 0
  then show ?case by (subst write_insert_pages.simps, subst write_pages.simps) simp
next
  case (Suc n)
  then have i: "i < length ps" by simp
  let ?b = "chain_image sz bpp data ps i"
  have f: "fill_overflow_page (replicate sz 0) bpp data ps i = Some ?b" "fill_overflow_page buf bpp data ps i = Some ?b"
    using fill_overflow_page_image [of bpp "replicate sz 0" i data ps] fill_overflow_page_image [of bpp buf i data ps]
      Suc.prems assms(2) assms(4) [OF i] by (simp_all add: chain_image_def)
  have c: "4 + length (take bpp (drop (i * bpp) data)) \<le> sz" using assms(2) by simp
  have "length ?b = sz" "drop (4 + bpp) ?b = replicate (sz - 4 - bpp) 0"
    using overflow_image_facts(1,4) [OF c] by (simp_all add: chain_image_def)
  then have IH: "write_insert_pages wr free sz bpp data ps (Suc i) s' =
      map_option (\<lambda>(r, s'). (r, case r of Inl _ \<Rightarrow> free_all free ps s' | Inr _ \<Rightarrow> s')) (write_pages wr bpp data ps (Suc i) ?b s')" for s'
    using Suc.hyps(2) by (intro Suc.hyps(1)) auto
  show ?case using i f IH
    by (subst write_insert_pages.simps, subst write_pages.simps) (simp split: prod.splits sum.splits)
qed

section \<open>Properties\<close>

definition mem_ops :: "MemPageStore pager_ops" where
  "mem_ops = \<lparr>po_read = read_page, po_write = write_page_data, po_alloc = allocate_page, po_free = free_page\<rparr>"

lemma mem_io_ops: "mem.io_ops = mem_ops"
  by (simp add: mem.io_ops_def mem_ops_def)

lemmas mem_encode = mem.encode_leaf_spec [unfolded mem_io_ops]
lemmas mem_promise = mem.cell_promise_def [unfolded mem_io_ops Let_def]

lemma mem_leaf_roundtrip:
  assumes s: "store_valid s" "usable \<le> ms_page_size s" "unat usable \<le> 65536" and t: "t = LeafTable \<or> t = LeafIndex"
    and e: "encode_leaf mem_ops usable (ms_page_size s) t rowid payload s = Some (Inr ov, out, s')"
    and fits: "length pre + length out \<le> unat usable" "length (pre @ out @ post) < 2 ^ 63"
      "ov = None \<or> length payload \<le> unat MAX_ALLOCATION_SIZE"
  shows "\<exists>c. CellRef_parse (pre @ out @ post) (length pre) t usable = Some (Inr c) \<and>
     cr_rowid c = (if t = LeafTable then Some rowid else None) \<and> cr_overflow_page c = ov \<and>
     read_payload c (pre @ out @ post) usable (\<lambda>p. read_page p s') = Some (Inr payload)"
proof (cases rule: mem_encode [OF s(1) refl s(2,3) t, of rowid payload])
  case (1 e' out' s'')
  then show ?thesis using e by simp
next
  case (2 ov' s'')
  then show ?thesis using e fits
    by (intro exI [of _ "leaf_cell_ref t usable rowid payload ov (length pre)"])
      (auto simp: mem_promise leaf_cell_ref_def)
qed

lemma mem_leaf_effects:
  assumes "store_valid s" "usable \<le> ms_page_size s" "unat usable \<le> 65536" "t = LeafTable \<or> t = LeafIndex"
  shows "\<exists>r out s'. encode_leaf mem_ops usable (ms_page_size s) t rowid payload s = Some (r, out, s') \<and> store_valid s' \<and>
     (case r of
        Inl e \<Rightarrow> map_of (ms_pages s') = map_of (ms_pages s)
      | Inr None \<Rightarrow> map_of (ms_pages s') = map_of (ms_pages s)
      | Inr (Some first) \<Rightarrow> map_of (ms_pages s) \<subseteq>\<^sub>m map_of (ms_pages s') \<and>
          (\<exists>s''. free_overflow_chain mem_ops first s' = (Inr (), s'') \<and> map_of (ms_pages s'') = map_of (ms_pages s)))"
proof (cases rule: mem_encode [OF assms(1) refl assms(2,3,4), of rowid payload])
  case (1 e out s')
  then show ?thesis by auto
next
  case (2 ov s')
  then show ?thesis
    by (cases ov) (auto simp: mem_promise map_le_def dom_def)
qed

text \<open>C21: An encoded leaf cell reads back.  When the cursor encodes a row (or an index key) of any
  length for a page of the in-memory store and the cell is placed on a page at any position where
  it fits the usable size, parsing the page at that position yields a cell with the rowid and the
  overflow page returned by the encoder, and reading its payload, from the page and its overflow
  chain, returns the bytes encoded.  A spilled payload may be as long as the reader's allocation
  limit.\<close>

theorem leaf_cell_roundtrip:
  assumes "store_valid s" "usable \<le> ms_page_size s" "unat usable \<le> 65536"
    and "length pre + length out \<le> unat usable" "length (pre @ out @ post) < 2 ^ 63"
    and "ov = None \<or> length payload \<le> unat MAX_ALLOCATION_SIZE"
  shows "(encode_table_leaf_cell_into mem_ops usable (ms_page_size s) rowid payload s = Some (Inr ov, out, s') \<longrightarrow>
     (\<exists>c. CellRef_parse (pre @ out @ post) (length pre) LeafTable usable = Some (Inr c) \<and>
        cr_rowid c = Some rowid \<and> cr_overflow_page c = ov \<and>
        read_payload c (pre @ out @ post) usable (\<lambda>p. read_page p s') = Some (Inr payload))) \<and>
    (encode_index_leaf_cell_into mem_ops usable (ms_page_size s) payload s = Some (Inr ov, out, s') \<longrightarrow>
     (\<exists>c. CellRef_parse (pre @ out @ post) (length pre) LeafIndex usable = Some (Inr c) \<and>
        cr_rowid c = None \<and> cr_overflow_page c = ov \<and>
        read_payload c (pre @ out @ post) usable (\<lambda>p. read_page p s') = Some (Inr payload)))"
  using mem_leaf_roundtrip [OF assms(1,2,3) _ _ assms(4,5,6), of LeafTable rowid s']
    mem_leaf_roundtrip [OF assms(1,2,3) _ _ assms(4,5,6), of LeafIndex 0 s']
  unfolding encode_leaf_eqs(1) [OF assms(3)] encode_leaf_eqs(2) [OF assms(3), of _ _ _ _ 0] by simp

lemma sample_encode:
  "encode_table_leaf_cell_into mem_ops 512 512 7 [1, 2, 3] (MemPageStore_new 512) =
     Some (Inr None, [3, 7, 1, 2, 3], MemPageStore_new 512)"
proof -
  have "varint_bytes 3 = [3]" "varint_bytes 7 = [7]" by code_simp+
  moreover have "leaf_local LeafTable 512 [1, 2, 3] = 3"
    by (simp add: leaf_local_def local_payload_size_def max_local_payload_def bt_type_defs sat_sub_def)
  ultimately show ?thesis
    by (simp add: encode_leaf_eqs encode_leaf_def leaf_cell_def rowid_bytes_def)
qed

theorem leaf_cell_roundtrip_witness:
  "encode_table_leaf_cell_into mem_ops 512 512 7 [1, 2, 3] (MemPageStore_new 512) =
     Some (Inr None, [3, 7, 1, 2, 3], MemPageStore_new 512) \<and>
   (\<exists>c. CellRef_parse ([13, 0] @ [3, 7, 1, 2, 3] @ [0]) (length [13, 0 :: u8]) LeafTable 512 = Some (Inr c) \<and> cr_rowid c = Some 7 \<and>
     read_payload c ([13, 0] @ [3, 7, 1, 2, 3] @ [0]) 512 (\<lambda>p. read_page p (MemPageStore_new 512)) = Some (Inr [1, 2, 3]))"
  using sample_encode leaf_cell_roundtrip [of "MemPageStore_new 512" 512 "[13, 0]" "[3, 7, 1, 2, 3]" "[0]" None "[1, 2, 3]" 7
      "MemPageStore_new 512"]
  by (auto simp: store_valid_def MemPageStore_new_def)

text \<open>C22: Encoding a cell never panics and never leaks.  Whatever payload is given, the encoders
  return; an error, including running out of page numbers half way through a chain, leaves every
  page of the store as it was, a cell that does not spill allocates nothing, and a spilled cell
  changes no existing page and is undone exactly by freeing the chain it returned.\<close>

theorem leaf_cell_encode_atomic:
  assumes "store_valid s" "usable \<le> ms_page_size s" "unat usable \<le> 65536"
    and enc: "enc = encode_table_leaf_cell_into mem_ops usable (ms_page_size s) rowid payload s \<or>
      enc = encode_index_leaf_cell_into mem_ops usable (ms_page_size s) payload s"
  shows "\<exists>r out s'. enc = Some (r, out, s') \<and> store_valid s' \<and>
     (case r of
        Inl e \<Rightarrow> map_of (ms_pages s') = map_of (ms_pages s)
      | Inr None \<Rightarrow> map_of (ms_pages s') = map_of (ms_pages s)
      | Inr (Some first) \<Rightarrow> map_of (ms_pages s) \<subseteq>\<^sub>m map_of (ms_pages s') \<and>
          (\<exists>s''. free_overflow_chain mem_ops first s' = (Inr (), s'') \<and> map_of (ms_pages s'') = map_of (ms_pages s)))"
  using enc mem_leaf_effects [OF assms(1-3), of LeafTable rowid payload] mem_leaf_effects [OF assms(1-3), of LeafIndex 0 payload]
  unfolding encode_leaf_eqs(1) [OF assms(3)] encode_leaf_eqs(2) [OF assms(3), of _ _ _ _ 0] by auto

theorem leaf_cell_encode_atomic_witness:
  "\<exists>r out s'. encode_table_leaf_cell_into mem_ops 512 512 7 (replicate 600 1) (MemPageStore_new 512) = Some (r, out, s') \<and> store_valid s'"
  using leaf_cell_encode_atomic [of "MemPageStore_new 512" 512 _ 7 "replicate 600 1", OF _ _ _ disjI1 [OF refl]]
  by (auto simp: store_valid_def MemPageStore_new_def)

lemma prefix_into_bounds:
  fixes local first psize usable n rd
  defines "P \<equiv> read_overflow_chain_prefix_into local first psize usable n rd"
  shows "length (snd P) \<le> min (unat psize) n \<and> (fst P = Inr () \<longrightarrow> length (snd P) = min (unat psize) n)"
proof -
  let ?t = "min (unat psize) n"
  let ?l = "min (length local) ?t"
  obtain r out where rc: "read_chain rd (unat (sat_sub usable 4)) first (?t - ?l) 0 (take ?l local) = (r, out)" by fastforce
  obtain bs where bs: "out = take ?l local @ bs" "length bs \<le> ?t - ?l" "r = Inr () \<longrightarrow> length bs = ?t - ?l"
    using read_chain_bounds [OF rc] by blast
  have sum: "length (take ?l local) + (?t - ?l) = ?t" by simp
  have out: "length out = length (take ?l local) + length bs" using bs(1) by simp
  have "length out \<le> ?t" using sum out bs(2) by linarith
  moreover have "r = Inr () \<longrightarrow> length out = ?t" using sum out bs(3) by simp
  moreover have "P = (if psize > MAX_ALLOCATION_SIZE then (Inl TooBig, []) else if usable \<le> 4
      then (Inl (DatabaseCorrupt ''invalid usable page size for overflow chain''), [])
      else if ?t = 0 then (Inr (), []) else (r, out))"
    unfolding P_def read_overflow_chain_prefix_into_def Let_def rc ..
  ultimately show ?thesis by (simp split: if_splits)
qed

text \<open>Reading a chain is bounded and partial reads agree with full ones.  Over any pages, even
  a cyclic or truncated chain, a prefix read delivers at most the bytes asked for and, when it
  succeeds, exactly \<open>min total prefix\<close> of them; and whenever the full read returns a payload, each
  prefix read of the same cell succeeds with that payload cut to the prefix.\<close>

theorem overflow_prefix_reads:
  "length (snd (read_overflow_chain_prefix_into local first psize usable n rd)) \<le> min (unat psize) n \<and>
   (fst (read_overflow_chain_prefix_into local first psize usable n rd) = Inr () \<longrightarrow>
      length (snd (read_overflow_chain_prefix_into local first psize usable n rd)) = min (unat psize) n) \<and>
   (\<forall>payload. read_overflow_chain local first psize usable rd = Inr payload \<longrightarrow>
      length payload = unat psize \<and>
      read_overflow_chain_prefix_into local first psize usable n rd = (Inr (), take n payload))"
proof (intro conjI impI allI)
  let ?P = "\<lambda>n. read_overflow_chain_prefix_into local first psize usable n rd"
  note d = read_overflow_chain_prefix_into_def Let_def
  show "length (snd (?P n)) \<le> min (unat psize) n" using prefix_into_bounds by blast
  show "length (snd (?P n)) = min (unat psize) n" if "fst (?P n) = Inr ()" using prefix_into_bounds that by blast
  fix payload assume ok: "read_overflow_chain local first psize usable rd = Inr payload"
  then have full: "?P (unat psize) = (Inr (), payload)" "length payload = unat psize"
    by (auto simp: read_overflow_chain_def read_overflow_chain_into_def split: prod.splits sum.splits if_splits)
  then show "length payload = unat psize" by simp
  define t where "t = min (unat psize) n"
  let ?L = "min (length local) (unat psize)" and ?b = "unat (sat_sub usable 4)"
  have g: "\<not> psize > MAX_ALLOCATION_SIZE" "\<not> usable \<le> 4" using full(1) by (auto simp: d split: if_splits)
  have tk: "take n payload = take t payload" "t \<le> unat psize" using full(2) by (auto simp: t_def min_def)
  have Pn: "?P n = (if t = 0 then (Inr (), [])
      else read_chain rd ?b first (t - min (length local) t) 0 (take (min (length local) t) local))"
    using g by (simp only: d t_def if_False)
  show "?P n = (Inr (), take n payload)"
  proof (cases "t = 0")
    case False
    then have fr: "read_chain rd ?b first (unat psize - ?L) 0 (take ?L local) = (Inr (), payload)"
      using full(1) g tk(2) by (simp add: d split: if_splits)
    then obtain bs where bs: "payload = take ?L local @ bs" using read_chain_bounds by blast
    show ?thesis
    proof (cases "t \<le> length local")
      case True
      then have "take t payload = take t local" using bs tk(2) by simp
      moreover have "read_chain rd ?b first 0 0 (take t local) = (Inr (), take t local)"
        by (subst read_chain.simps) simp
      ultimately show ?thesis using Pn False True tk(1) by simp
    next
      case F: False
      then have L: "?L = length local" using tk(2) by simp
      have "read_chain rd ?b first (t - length local) 0 local = (Inr (), local @ take (t - length local) bs)"
        using fr bs L tk(2) by (intro read_chain_prefix [of _ _ _ "unat psize - length local"]) simp_all
      then show ?thesis using Pn False F tk(1) bs L by simp
    qed
  qed (simp add: Pn tk(1))
qed

theorem overflow_prefix_reads_witness:
  "read_overflow_chain [1] 2 3 512 (\<lambda>_. Inr [0, 0, 0, 0, 8, 9]) = Inr [1, 8, 9] \<and>
   read_overflow_chain_prefix_into [1] 2 3 512 2 (\<lambda>_. Inr [0, 0, 0, 0, 8, 9]) = (Inr (), [1, 8])"
proof -
  have "read_overflow_chain [1] 2 3 512 (\<lambda>_. Inr [0, 0, 0, 0, 8, 9]) = Inr [1, 8, 9]"
    by (simp add: read_overflow_chain_def read_overflow_chain_into_def read_overflow_chain_prefix_into_def
        MAX_ALLOCATION_SIZE_def sat_sub_def read_chain.simps MAX_OVERFLOW_CHAIN_def subslice_def)
  then show ?thesis using overflow_prefix_reads [of "[1]" 2 3 512 2 "\<lambda>_. Inr [0, 0, 0, 0, 8, 9]"] by simp
qed

text \<open>The two chain writers agree.  For a non-empty overflow and a usable size above four bytes,
  \<open>write_overflow_chain\<close>, which reuses one page buffer, and the cursor's writer, which takes a
  fresh buffer per page, return the same result and, when they succeed, leave the same store, for
  any pager; only after an error do they differ, where the cursor's writer frees what it allocated.\<close>

theorem overflow_writers_agree:
  assumes "data \<noteq> []" "4 < usable" "usable \<le> page_size"
  shows "map_option fst (write_overflow_chain_for_insert ops usable page_size data s) =
      map_option fst (write_overflow_chain (po_alloc ops) (po_write ops) data usable page_size s) \<and>
    (\<forall>first s'. write_overflow_chain (po_alloc ops) (po_write ops) data usable page_size s = Some (Inr first, s') \<longleftrightarrow>
      write_overflow_chain_for_insert ops usable page_size data s = Some (Inr first, s'))"
proof -
  let ?bpp = "unat usable - 4" and ?n = "div_ceil (length data) (unat usable - 4)" and ?buf = "replicate (unat page_size) (0::u8)"
  have u: "4 < unat usable" "4 + ?bpp \<le> unat page_size" using assms by (simp_all add: word_less_nat_alt word_le_nat_alt)
  have g: "\<not> usable \<le> 4" "\<not> page_size < usable" "unat (sat_sub usable 4) = ?bpp" "?bpp \<noteq> 0" using assms u by auto
  obtain r ps s1 where al: "alloc_pages (po_alloc ops) ?n [] s = (r, ps, s1)" by (metis prod_cases3)
  have len: "r = Inr () \<Longrightarrow> length ps = ?n"
  proof -
    have "alloc_pages a n acc s = (Inr (), ps, s1) \<Longrightarrow> length ps = length acc + n" for a n acc and s :: 'a
      by (induction n arbitrary: acc s) (auto split: prod.splits sum.splits)
    then show "r = Inr () \<Longrightarrow> length ps = ?n" using al by fastforce
  qed
  have ix: "\<And>j. j < length ps \<Longrightarrow> j * ?bpp \<le> length data" if "r = Inr ()"
    using div_ceil_bounds(3) [of ?bpp "length data"] len [OF that] assms(1) u by (simp add: less_imp_le)
  have L: "write_insert_pages (po_write ops) (po_free ops) (unat page_size) ?bpp data ps 0 s1 =
      map_option (\<lambda>(r, s'). (r, case r of Inl _ \<Rightarrow> free_all (po_free ops) ps s' | Inr _ \<Rightarrow> s'))
        (write_pages (po_write ops) ?bpp data ps 0 ?buf s1)" if "r = Inr ()"
    using u ix [OF that] by (intro writers_loop_agree) auto
  have E: "write_overflow_chain_for_insert ops usable page_size data s =
      map_option (\<lambda>(r', s'). (r', if r' = Inl TooBig \<and> ?n > MAX_OVERFLOW_CHAIN then s'
         else case r' of Inl _ \<Rightarrow> free_all (po_free ops) ps s' | Inr _ \<Rightarrow> s'))
        (write_overflow_chain (po_alloc ops) (po_write ops) data usable page_size s)"
    unfolding write_overflow_chain_for_insert_def write_overflow_chain_def Let_def g(3)
    using assms(1) g al L by (auto split: sum.splits option.splits prod.splits)
  show ?thesis
    unfolding E by (auto simp: option.map_comp o_def split_beta split: sum.splits if_splits)
qed

theorem overflow_writers_agree_witness:
  "map_option fst (write_overflow_chain_for_insert mem_ops 512 512 [1, 2] (MemPageStore_new 512)) =
   map_option fst (write_overflow_chain (po_alloc mem_ops) (po_write mem_ops) [1, 2] 512 512 (MemPageStore_new 512))"
  using overflow_writers_agree [of "[1, 2]" 512 512 mem_ops "MemPageStore_new 512"] by simp

end
