(* ===== verification/Freelist.thy ===== *)
theory Freelist
  imports Overflow
begin

text \<open>
  \<open>crates/fsqlite-btree/src/freelist.rs\<close>: trunk pages of the on-disk freelist, the in-memory
  freelist of a transaction, and the pointer map of auto-vacuum databases.  Divisions by the page
  size panic when it is zero (\<^const>\<open>None\<close>).
\<close>

section \<open>Trunk pages\<close>

definition max_leaf_entries :: "u32 \<Rightarrow> u32" where
  "max_leaf_entries usable_size = sat_sub (usable_size div 4) 2"

record FreelistTrunk =
  ft_next_trunk :: "u32 option"
  ft_leaf_pages :: "u32 list"

definition page_entries :: "bytes \<Rightarrow> u32" where
  "page_entries page = sat_sub (word_of_nat (length page) div 4) 2"

definition leaf_entry :: "bytes \<Rightarrow> nat \<Rightarrow> u32" where
  "leaf_entry page i = from_be (subslice (8 + i * 4) (8 + i * 4 + 4) page)"

definition FreelistTrunk_parse :: "bytes \<Rightarrow> FreelistTrunk result" where
  "FreelistTrunk_parse page =
     (if length page < 8 then corrupt ''freelist trunk page too small''
      else
        let leaf_count = from_be (subslice 4 8 page) :: u32 in
        if leaf_count > page_entries page then corrupt ''freelist trunk claims more leaf pages than fit''
        else if 8 + unat leaf_count * 4 > length page then None
        else ok \<lparr>ft_next_trunk = PageNumber_new (from_be (subslice 0 4 page)),
                 ft_leaf_pages = List.map_filter (\<lambda>i. PageNumber_new (leaf_entry page i)) [0..<unat leaf_count]\<rparr>)"

fun write_leaves :: "u32 list \<Rightarrow> nat \<Rightarrow> bytes \<Rightarrow> bytes option" where
  "write_leaves [] i page = Some page"
| "write_leaves (pgno # pgnos) i page =
     do { page' \<leftarrow> buf_write page (8 + i * 4) (to_be 4 pgno); write_leaves pgnos (i + 1) page' }"

definition FreelistTrunk_write :: "FreelistTrunk \<Rightarrow> bytes \<Rightarrow> bytes option" where
  "FreelistTrunk_write t page =
     (if length page < 8 then Some page
      else
        let next = (case ft_next_trunk t of None \<Rightarrow> 0 | Some p \<Rightarrow> p);
            count = min (word_of_nat (length (ft_leaf_pages t))) (page_entries page) in
        do { page1 \<leftarrow> buf_write page 0 (to_be 4 next);
             page2 \<leftarrow> buf_write page1 4 (to_be 4 count);
             write_leaves (take (unat count) (ft_leaf_pages t)) 0 page2 })"

section \<open>The in-memory freelist\<close>

record Freelist =
  fl_free_pages :: "u32 list"
  fl_db_page_count :: u32
  fl_page_size :: u32

definition Freelist_new :: "u32 \<Rightarrow> u32 \<Rightarrow> Freelist" where
  "Freelist_new db_page_count page_size =
     \<lparr>fl_free_pages = [], fl_db_page_count = db_page_count, fl_page_size = page_size\<rparr>"

definition with_pages :: "u32 list \<Rightarrow> u32 \<Rightarrow> u32 \<Rightarrow> Freelist" where
  "with_pages pages db_page_count page_size =
     \<lparr>fl_free_pages = pages, fl_db_page_count = db_page_count, fl_page_size = page_size\<rparr>"

definition free_count :: "Freelist \<Rightarrow> nat" where
  "free_count fl = length (fl_free_pages fl)"

definition MAX_PAGE_COUNT :: u32 where
  "MAX_PAGE_COUNT = 0xFFFFFFFE"

definition pending_byte_page :: "u32 \<Rightarrow> u32 option" where
  "pending_byte_page page_size = (if page_size = 0 then None else Some (0x40000000 div page_size + 1))"

text \<open>The \<open>while let Some(pgno) = self.free_pages.pop()\<close> loop: the vector's last element is popped
  first; entries beyond the file are dropped.\<close>

function pop_free :: "u32 \<Rightarrow> u32 list \<Rightarrow> u32 option \<times> u32 list" where
  "pop_free db_page_count pages =
     (if pages = [] then (None, [])
      else if last pages \<le> db_page_count then (Some (last pages), butlast pages)
      else pop_free db_page_count (butlast pages))"
  by pat_completeness auto
termination by (relation "measure (\<lambda>(_, pages). length pages)") auto

declare pop_free.simps [simp del]

definition extend_file :: "Freelist \<Rightarrow> (u32 result \<times> Freelist)" where
  "extend_file fl =
     (if fl_db_page_count fl \<ge> MAX_PAGE_COUNT then (Some (Inl DatabaseFull), fl)
      else case pending_byte_page (fl_page_size fl) of
        None \<Rightarrow> (None, fl)
      | Some pending \<Rightarrow>
          let nxt = fl_db_page_count fl + 1 in
          if nxt = pending \<and> nxt \<ge> MAX_PAGE_COUNT then (Some (Inl DatabaseFull), fl)
          else
            let nxt' = (if nxt = pending then nxt + 1 else nxt); fl' = fl\<lparr>fl_db_page_count := nxt'\<rparr> in
            (case PageNumber_new nxt' of None \<Rightarrow> (Some (Inl DatabaseFull), fl') | Some p \<Rightarrow> (ok p, fl')))"

definition allocate :: "Freelist \<Rightarrow> u32 result \<times> Freelist" where
  "allocate fl =
     (case pop_free (fl_db_page_count fl) (fl_free_pages fl) of
        (Some pgno, rest) \<Rightarrow> (ok pgno, fl\<lparr>fl_free_pages := rest\<rparr>)
      | (None, rest) \<Rightarrow> extend_file (fl\<lparr>fl_free_pages := rest\<rparr>))"

definition deallocate :: "u32 \<Rightarrow> Freelist \<Rightarrow> Freelist" where
  "deallocate page fl =
     (if page \<le> fl_db_page_count fl then fl\<lparr>fl_free_pages := fl_free_pages fl @ [page]\<rparr> else fl)"

section \<open>Pointer map\<close>

definition PTRMAP_ENTRY_SIZE_BYTES :: u32 where
  "PTRMAP_ENTRY_SIZE_BYTES = 5"

datatype PtrMapType = RootPage | FreePage | Overflow1 | Overflow2 | Btree

definition ptrmap_code :: "PtrMapType \<Rightarrow> u8" where
  "ptrmap_code k = (case k of RootPage \<Rightarrow> 1 | FreePage \<Rightarrow> 2 | Overflow1 \<Rightarrow> 3 | Overflow2 \<Rightarrow> 4 | Btree \<Rightarrow> 5)"

definition from_code :: "u8 \<Rightarrow> FrankenError + PtrMapType" where
  "from_code code =
     (if code = 1 then Inr RootPage else if code = 2 then Inr FreePage else if code = 3 then Inr Overflow1
      else if code = 4 then Inr Overflow2 else if code = 5 then Inr Btree
      else Inl (DatabaseCorrupt ''invalid pointer-map type code''))"

record PtrMapEntry =
  pm_kind :: PtrMapType
  pm_parent :: "u32 option"

definition PtrMapEntry_decode :: "bytes \<Rightarrow> FrankenError + PtrMapEntry" where
  "PtrMapEntry_decode bs =
     (if length bs < unat PTRMAP_ENTRY_SIZE_BYTES then Inl (DatabaseCorrupt ''pointer-map entry too small'')
      else case from_code (bs ! 0) of
        Inl e \<Rightarrow> Inl e
      | Inr kind \<Rightarrow>
          let parent_raw = from_be [bs ! 1, bs ! 2, bs ! 3, bs ! 4]; parent = PageNumber_new parent_raw in
          if (kind = RootPage \<or> kind = FreePage) \<and> parent_raw \<noteq> 0
          then Inl (DatabaseCorrupt ''pointer-map type must have parent 0'')
          else if (kind = Overflow1 \<or> kind = Overflow2 \<or> kind = Btree) \<and> parent = None
          then Inl (DatabaseCorrupt ''pointer-map type requires non-zero parent page'')
          else Inr \<lparr>pm_kind = kind, pm_parent = parent\<rparr>)"

definition PtrMapEntry_encode :: "PtrMapEntry \<Rightarrow> bytes" where
  "PtrMapEntry_encode e = ptrmap_code (pm_kind e) # to_be 4 (case pm_parent e of None \<Rightarrow> 0 | Some p \<Rightarrow> p)"

definition ptrmap_entries_per_page :: "u32 \<Rightarrow> u32" where
  "ptrmap_entries_per_page usable_size = usable_size div PTRMAP_ENTRY_SIZE_BYTES"

definition ptrmap_group_size :: "u32 \<Rightarrow> u32" where
  "ptrmap_group_size usable_size = ptrmap_entries_per_page usable_size + 1"

definition compute_ptrmap_page :: "u32 \<Rightarrow> u32 \<Rightarrow> u32 \<Rightarrow> u32 option" where
  "compute_ptrmap_page pgno usable_size page_size =
     (if pgno < 2 then Some 0
      else
        let grp = ptrmap_group_size usable_size in
        if grp = 0 then Some 0
        else
          let ret = (pgno - 2) div grp * grp + 2 in
          map_option (\<lambda>pending. if ret = pending then ret + 1 else ret) (pending_byte_page page_size))"

definition is_ptrmap_page :: "u32 \<Rightarrow> u32 \<Rightarrow> u32 \<Rightarrow> bool option" where
  "is_ptrmap_page pgno usable_size page_size =
     (if pgno < 2 then Some False else map_option (\<lambda>p. p = pgno) (compute_ptrmap_page pgno usable_size page_size))"

definition ptrmap_page_for :: "u32 \<Rightarrow> u32 \<Rightarrow> u32 \<Rightarrow> u32 option option" where
  "ptrmap_page_for pgno usable_size page_size =
     do { own \<leftarrow> is_ptrmap_page pgno usable_size page_size;
          if own then Some None
          else if pgno < 3 then Some None
          else do { ptrmap \<leftarrow> compute_ptrmap_page pgno usable_size page_size;
                    Some (if ptrmap = 0 then None else PageNumber_new ptrmap) } }"

definition ptrmap_entry_offset :: "u32 \<Rightarrow> u32 \<Rightarrow> u32 \<Rightarrow> u32 option option" where
  "ptrmap_entry_offset pgno usable_size page_size =
     do { pending \<leftarrow> pending_byte_page page_size;
          if pgno = pending then Some None
          else do { pp \<leftarrow> ptrmap_page_for pgno usable_size page_size;
                    Some (case pp of
                        None \<Rightarrow> None
                      | Some ptrmap_page \<Rightarrow>
                          if pgno \<le> ptrmap_page then None
                          else Some ((pgno - ptrmap_page - 1) * PTRMAP_ENTRY_SIZE_BYTES)) } }"

section \<open>Reading the freelist\<close>

function read_trunks :: "(u32 \<Rightarrow> FrankenError + bytes) \<Rightarrow> u32 option \<Rightarrow> nat \<Rightarrow> u32 list \<Rightarrow> u32 list result" where
  "read_trunks rd current visited all_pages =
     (case current of
        None \<Rightarrow> ok all_pages
      | Some trunk_pgno \<Rightarrow>
          if visited + 1 > 1000000 then corrupt ''freelist trunk chain too long (possible cycle)''
          else case rd trunk_pgno of
            Inl e \<Rightarrow> Some (Inl e)
          | Inr page_data \<Rightarrow>
              (case FreelistTrunk_parse page_data of
                 None \<Rightarrow> None
               | Some (Inl e) \<Rightarrow> Some (Inl e)
               | Some (Inr trunk) \<Rightarrow>
                   read_trunks rd (ft_next_trunk trunk) (visited + 1) (all_pages @ [trunk_pgno] @ ft_leaf_pages trunk)))"
  by pat_completeness auto
termination by (relation "measure (\<lambda>(_, _, visited, _). 1000000 - visited)") auto

declare read_trunks.simps [simp del]

definition read_freelist :: "u32 option \<Rightarrow> (u32 \<Rightarrow> FrankenError + bytes) \<Rightarrow> u32 list result" where
  "read_freelist first_trunk rd = read_trunks rd first_trunk 0 []"

section \<open>Trunk pages round trip\<close>

lemma page_entries_le: "8 + unat (page_entries page) * 4 \<le> length page" if "8 \<le> length page"
proof -
  have "unat (word_of_nat (length page) :: u32) \<le> length page" by (simp add: unsigned_of_nat take_bit_nat_less_eq_self)
  then have "unat (word_of_nat (length page) :: u32) div 4 \<le> length page div 4" by (rule div_le_mono)
  then have "unat (page_entries page) \<le> length page div 4 - 2" by (simp add: page_entries_def unat_div)
  then show ?thesis using that by linarith
qed

lemma trunk_parse_total: "FreelistTrunk_parse page \<noteq> None"
proof -
  have "8 + unat c * 4 \<le> length page" if "8 \<le> length page" "c \<le> page_entries page" for c :: u32
    using page_entries_le [OF that(1)] that(2) by (simp add: word_le_nat_alt)
  from this [of "from_be (subslice 4 8 page)"] show ?thesis
    by (auto simp: FreelistTrunk_parse_def Let_def not_less simp del: not_None_eq)
qed

lemma length_be4s: "length (concat (map (to_be 4) ps)) = 4 * length ps"
  by (simp add: length_concat o_def sum_list_triv)

lemma write_leaves_eq:
  "length pre = 8 + i * 4 \<Longrightarrow> length old = 4 * length ps \<Longrightarrow>
   write_leaves ps i (pre @ old @ rest) = Some (pre @ concat (map (to_be 4) ps) @ rest)"
proof (induction ps arbitrary: i pre old)
  case (Cons p ps)
  define o1 o2 where "o1 = take 4 old" and "o2 = drop 4 old"
  then have o: "old = o1 @ o2" "length o1 = 4" "length o2 = 4 * length ps" using Cons.prems(2) by simp_all
  have "buf_write (pre @ old @ rest) (8 + i * 4) (to_be 4 p) = Some ((pre @ to_be 4 p) @ o2 @ rest)"
    using Cons.prems(1) o by (simp add: buf_write_def)
  then show ?case using Cons.IH [of "pre @ to_be 4 p" "i + 1" o2] Cons.prems(1) o(3) by simp
qed simp

text \<open>The bytes of a trunk: next page, count, as many leaves as fit.\<close>

definition trunk_image :: "u32 \<Rightarrow> u32 list \<Rightarrow> bytes" where
  "trunk_image next leaves = to_be 4 next @ to_be 4 (word_of_nat (length leaves) :: u32) @ concat (map (to_be 4) leaves)"

definition next_raw_of :: "u32 option \<Rightarrow> u32" where
  "next_raw_of n = (case n of None \<Rightarrow> 0 | Some p \<Rightarrow> p)"

definition fitting :: "FreelistTrunk \<Rightarrow> bytes \<Rightarrow> u32 list" where
  "fitting t page = take (unat (page_entries page)) (ft_leaf_pages t)"

lemma trunk_write_image:
  assumes "8 \<le> length page" "length (ft_leaf_pages t) < 2 ^ 32"
  shows "FreelistTrunk_write t page =
    Some (trunk_image (next_raw_of (ft_next_trunk t)) (fitting t page) @ drop (8 + 4 * length (fitting t page)) page)"
proof -
  let ?c = "min (word_of_nat (length (ft_leaf_pages t))) (page_entries page)" and ?ls = "fitting t page"
  let ?n = "next_raw_of (ft_next_trunk t)"
  have u: "unat (word_of_nat (length (ft_leaf_pages t)) :: u32) = length (ft_leaf_pages t)"
    using assms(2) by (simp add: unsigned_of_nat take_bit_nat_eq_self)
  have c: "unat ?c = length ?ls" using u by (auto simp: fitting_def min_def word_le_nat_alt)
  then have c': "?c = word_of_nat (length ?ls)" using unat_u32_less [of ?c]
    by (simp add: word_unat_eq_iff unsigned_of_nat take_bit_nat_eq_self)
  have tk: "take (unat ?c) (ft_leaf_pages t) = ?ls" using c by (simp add: fitting_def min_def)
  have le: "8 + 4 * length ?ls \<le> length page"
    using page_entries_le [OF assms(1)] by (auto simp: fitting_def min_def)
  have w1: "buf_write page 0 (to_be 4 ?n) = Some (to_be 4 ?n @ drop 4 page)" using assms(1) by (simp add: buf_write_def)
  have w2: "buf_write (to_be 4 ?n @ drop 4 page) 4 (to_be 4 ?c) = Some (to_be 4 ?n @ to_be 4 ?c @ drop 8 page)"
    using assms(1) by (simp add: buf_write_def)
  have sp: "drop 8 page = take (4 * length ?ls) (drop 8 page) @ drop (8 + 4 * length ?ls) page"
    using append_take_drop_id [of "4 * length ?ls" "drop 8 page"] by (simp add: add.commute)
  have "write_leaves ?ls 0 ((to_be 4 ?n @ to_be 4 ?c) @ take (4 * length ?ls) (drop 8 page) @ drop (8 + 4 * length ?ls) page) =
      Some ((to_be 4 ?n @ to_be 4 ?c) @ concat (map (to_be 4) ?ls) @ drop (8 + 4 * length ?ls) page)"
    using le by (intro write_leaves_eq) auto
  then have w3: "write_leaves ?ls 0 (to_be 4 ?n @ to_be 4 ?c @ drop 8 page) =
      Some (to_be 4 ?n @ to_be 4 ?c @ concat (map (to_be 4) ?ls) @ drop (8 + 4 * length ?ls) page)"
    using sp by simp
  show ?thesis
    using assms(1) w1 w2 w3 tk unfolding FreelistTrunk_write_def Let_def next_raw_of_def [symmetric] trunk_image_def
    by (simp add: c' del: to_be.simps)
qed

lemma leaf_entry_image:
  assumes "i < length leaves"
  shows "leaf_entry (trunk_image n leaves @ rest) i = leaves ! i"
proof -
  have "concat (map (to_be 4) leaves) =
      concat (map (to_be 4) (take i leaves)) @ to_be 4 (leaves ! i) @ concat (map (to_be 4) (drop (Suc i) leaves))"
    using arg_cong [OF id_take_nth_drop [OF assms], of "\<lambda>xs. concat (map (to_be 4) xs)"] by (simp del: to_be.simps)
  then have "drop (8 + i * 4) (trunk_image n leaves @ rest) =
      to_be 4 (leaves ! i) @ concat (map (to_be 4) (drop (Suc i) leaves)) @ rest"
    using assms by (simp add: trunk_image_def length_be4s)
  then show ?thesis by (simp add: leaf_entry_def subslice_def from_be_to_be_full)
qed

lemma map_filter_pgno:
  "list_all valid_pgno ps \<Longrightarrow> (\<And>i. i < length ps \<Longrightarrow> f i = ps ! i) \<Longrightarrow>
   List.map_filter (\<lambda>i. PageNumber_new (f i)) [0..<length ps] = ps"
proof (induction ps rule: rev_induct)
  case (snoc p ps)
  have "List.map_filter (\<lambda>i. PageNumber_new (f i)) [0..<length ps] = ps"
    using snoc by (simp add: nth_append)
  moreover have "PageNumber_new (f (length ps)) = Some p"
    using snoc.prems by (simp add: PageNumber_new_def valid_pgno_def)
  ultimately show ?case by (simp add: List.map_filter_def)
qed (simp add: List.map_filter_def)

lemma trunk_parse_image:
  assumes "list_all valid_pgno leaves" "pred_option valid_pgno next" "length leaves \<le> unat (page_entries (trunk_image (next_raw_of next) leaves @ rest))"
  shows "FreelistTrunk_parse (trunk_image (next_raw_of next) leaves @ rest) = ok \<lparr>ft_next_trunk = next, ft_leaf_pages = leaves\<rparr>"
proof -
  let ?p = "trunk_image (next_raw_of next) leaves @ rest" and ?c = "word_of_nat (length leaves) :: u32"
  have c: "unat ?c = length leaves" using assms(3) unat_u32_less [of "page_entries ?p"]
    by (simp add: unsigned_of_nat take_bit_nat_eq_self)
  have cnt: "from_be (subslice 4 8 ?p) = ?c" "from_be (subslice 0 4 ?p) = next_raw_of next"
    by (simp_all add: trunk_image_def subslice_def from_be_to_be_full)
  have "8 \<le> length ?p" "8 + length leaves * 4 \<le> length ?p" by (simp_all add: trunk_image_def length_be4s)
  moreover have "List.map_filter (\<lambda>i. PageNumber_new (leaf_entry ?p i)) [0..<length leaves] = leaves"
    by (rule map_filter_pgno [OF assms(1)]) (rule leaf_entry_image)
  moreover have "PageNumber_new (next_raw_of next) = next"
    using assms(2) by (cases "next") (simp_all add: next_raw_of_def PageNumber_new_def valid_pgno_def)
  moreover have "\<not> ?c > page_entries ?p" using c assms(3) by (simp add: word_less_nat_alt)
  ultimately show ?thesis
    unfolding FreelistTrunk_parse_def cnt Let_def c by simp
qed

lemma trunk_roundtrip:
  assumes "8 \<le> length page" "length (ft_leaf_pages t) < 2 ^ 32" "list_all valid_pgno (ft_leaf_pages t)" "pred_option valid_pgno (ft_next_trunk t)"
  shows "\<exists>page'. FreelistTrunk_write t page = Some page' \<and> length page' = length page \<and>
    FreelistTrunk_parse page' = ok (t\<lparr>ft_leaf_pages := fitting t page\<rparr>)"
proof -
  let ?p = "trunk_image (next_raw_of (ft_next_trunk t)) (fitting t page) @ drop (8 + 4 * length (fitting t page)) page"
  have fl: "length (fitting t page) \<le> unat (page_entries page)" by (simp add: fitting_def)
  then have len: "length ?p = length page" using page_entries_le [OF assms(1)]
    by (simp add: trunk_image_def length_be4s)
  then have pe: "page_entries ?p = page_entries page" unfolding page_entries_def by simp
  have "list_all valid_pgno (fitting t page)" using assms(3) by (auto simp: fitting_def list_all_iff dest: in_set_takeD)
  then have "FreelistTrunk_parse ?p = ok \<lparr>ft_next_trunk = ft_next_trunk t, ft_leaf_pages = fitting t page\<rparr>"
    using assms(4) fl pe by (intro trunk_parse_image) simp_all
  then show ?thesis using trunk_write_image [OF assms(1,2)] len by (cases t) simp
qed

text \<open>A chain of trunks as the pager stores it.\<close>

definition head_of :: "(u32 \<times> u32 list) list \<Rightarrow> u32 option" where
  "head_of ts = (case ts of [] \<Rightarrow> None | (p, _) # _ \<Rightarrow> Some p)"

fun trunks_stored :: "(u32 \<Rightarrow> FrankenError + bytes) \<Rightarrow> (u32 \<times> u32 list) list \<Rightarrow> bool" where
  "trunks_stored rd [] = True"
| "trunks_stored rd ((p, leaves) # ts) =
     ((\<exists>blank page. 8 \<le> length blank \<and> length leaves \<le> unat (page_entries blank) \<and>
         FreelistTrunk_write \<lparr>ft_next_trunk = head_of ts, ft_leaf_pages = leaves\<rparr> blank = Some page \<and> rd p = Inr page) \<and>
      valid_pgno p \<and> list_all valid_pgno leaves \<and> trunks_stored rd ts)"

lemma trunks_stored_head: "trunks_stored rd ts \<Longrightarrow> pred_option valid_pgno (head_of ts)"
  by (cases ts) (auto simp: head_of_def valid_pgno_def)

lemma read_trunks_stored:
  assumes "trunks_stored rd ts" "k + length ts \<le> 1000000"
  shows "read_trunks rd (head_of ts) k acc = ok (acc @ concat (map (\<lambda>(p, leaves). p # leaves) ts))"
  using assms
proof (induction ts arbitrary: k acc)
  case Nil
  then show ?case by (subst read_trunks.simps) (simp add: head_of_def)
next
  case (Cons t ts)
  obtain p leaves where t: "t = (p, leaves)" by (cases t)
  let ?t = "\<lparr>ft_next_trunk = head_of ts, ft_leaf_pages = leaves\<rparr>"
  obtain blank page where b: "8 \<le> length blank" "length leaves \<le> unat (page_entries blank)"
    "FreelistTrunk_write ?t blank = Some page" "rd p = Inr page" using Cons.prems(1) t by auto
  have "length leaves < 2 ^ 32" using b(2) unat_u32_less [of "page_entries blank"] by simp
  moreover have "pred_option valid_pgno (head_of ts)" using Cons.prems(1) t by (intro trunks_stored_head [of rd]) simp
  ultimately have "FreelistTrunk_parse page = ok ?t"
    using trunk_roundtrip [OF b(1), of ?t] b(2,3) Cons.prems(1) t by (auto simp: fitting_def)
  moreover have "read_trunks rd (head_of ts) (k + 1) (acc @ p # leaves) =
      ok ((acc @ p # leaves) @ concat (map (\<lambda>(p, leaves). p # leaves) ts))"
    using Cons.prems t by (intro Cons.IH) simp_all
  ultimately show ?case using Cons.prems(2) b(4)
    by (subst read_trunks.simps) (simp add: t head_of_def ok_def)
qed

section \<open>Allocation\<close>

lemma pop_free_cases:
  assumes "pop_free c ps = (r, rest)"
  shows "(r = None \<longrightarrow> rest = [] \<and> (\<forall>p\<in>set ps. c < p)) \<and>
    (\<forall>p. r = Some p \<longrightarrow> p \<le> c \<and> (\<exists>dropped. ps = rest @ p # dropped \<and> (\<forall>q\<in>set dropped. c < q)))"
  using assms
proof (induction c ps rule: pop_free.induct)
  case (1 c ps)
  show ?case
  proof (cases "ps = [] \<or> last ps \<le> c")
    case True
    then show ?thesis using "1.prems" append_butlast_last_id [of ps]
      by (subst (asm) pop_free.simps) (auto split: if_splits intro!: exI [of _ "[]"])
  next
    case False
    then have ps: "ps = butlast ps @ [last ps]" "c < last ps" by (simp_all add: not_le)
    have "pop_free c (butlast ps) = (r, rest)" using "1.prems" False by (subst (asm) pop_free.simps) simp
    from "1.IH" [OF _ _ this] False have IH: "(r = None \<longrightarrow> rest = [] \<and> (\<forall>p\<in>set (butlast ps). c < p)) \<and>
      (\<forall>p. r = Some p \<longrightarrow> p \<le> c \<and> (\<exists>dropped. butlast ps = rest @ p # dropped \<and> (\<forall>q\<in>set dropped. c < q)))" by simp
    show ?thesis
    proof (cases r)
      case None
      moreover have "set ps = set (butlast ps) \<union> {last ps}" using arg_cong [OF ps(1), of set] by simp
      ultimately show ?thesis using IH ps(2) by simp
    next
      case (Some p)
      then obtain d where "p \<le> c" "butlast ps = rest @ p # d" "\<forall>q\<in>set d. c < q" using IH by blast
      then show ?thesis using ps Some by (auto intro!: exI [of _ "d @ [last ps]"])
    qed
  qed
qed

lemma extend_file_ok:
  assumes "extend_file fl = (Some (Inr p), fl')"
  shows "fl_db_page_count fl < p" "fl_db_page_count fl' = p" "valid_pgno p" "pending_byte_page (fl_page_size fl) \<noteq> Some p"
    "fl_free_pages fl' = fl_free_pages fl" "fl_page_size fl' = fl_page_size fl"
proof -
  let ?c = "fl_db_page_count fl"
  have lt: "?c < MAX_PAGE_COUNT" using assms by (auto simp: extend_file_def split: if_splits)
  obtain pending where pd: "pending_byte_page (fl_page_size fl) = Some pending"
    using assms lt by (auto simp: extend_file_def split: if_splits option.splits)
  let ?n = "if ?c + 1 = pending then ?c + 1 + 1 else ?c + 1"
  have skip: "?c + 1 = pending \<Longrightarrow> ?c + 1 < MAX_PAGE_COUNT"
    using assms lt pd by (auto simp: extend_file_def Let_def split: if_splits)
  have p: "PageNumber_new ?n = Some p" "fl' = fl\<lparr>fl_db_page_count := ?n\<rparr>"
    using assms lt pd skip by (auto simp: extend_file_def Let_def split: if_splits option.splits)
  have pn: "p = ?n" "valid_pgno p" using p(1) by (auto simp: PageNumber_new_Some)
  have u1: "unat (?c + 1) = unat ?c + 1" using lt by (simp add: MAX_PAGE_COUNT_def word_less_nat_alt unat_word_ariths)
  have u2: "?c + 1 = pending \<Longrightarrow> unat (?c + 1 + 1) = unat ?c + 2"
    using skip u1 by (simp add: MAX_PAGE_COUNT_def word_less_nat_alt unat_word_ariths)
  show "?c < p" using pn(1) u1 u2 by (auto simp: word_less_nat_alt)
  show "pending_byte_page (fl_page_size fl) \<noteq> Some p" using pn(1) pd u1 u2 by (auto simp: word_unat_eq_iff)
  show "fl_db_page_count fl' = p" "valid_pgno p" "fl_free_pages fl' = fl_free_pages fl" "fl_page_size fl' = fl_page_size fl"
    using p pn by simp_all
qed

lemma extend_file_err:
  assumes "extend_file fl = (Some (Inl e), fl')"
  shows "fl' = fl"
proof (rule ccontr)
  let ?c = "fl_db_page_count fl"
  assume ne: "fl' \<noteq> fl"
  then have lt: "?c < MAX_PAGE_COUNT" using assms by (auto simp: extend_file_def split: if_splits)
  obtain pending where pd: "pending_byte_page (fl_page_size fl) = Some pending"
    using assms lt by (auto simp: extend_file_def split: if_splits option.splits)
  have skip: "?c + 1 = pending \<Longrightarrow> ?c + 1 < MAX_PAGE_COUNT"
    using assms lt pd ne by (auto simp: extend_file_def Let_def split: if_splits)
  have u1: "unat (?c + 1) = unat ?c + 1" using lt by (simp add: MAX_PAGE_COUNT_def word_less_nat_alt unat_word_ariths)
  have u2: "?c + 1 = pending \<Longrightarrow> unat (?c + 1 + 1) = unat ?c + 2"
    using skip u1 by (simp add: MAX_PAGE_COUNT_def word_less_nat_alt unat_word_ariths)
  let ?n = "if ?c + 1 = pending then ?c + 1 + 1 else ?c + 1"
  have "0 < unat ?n" "unat ?n < 0xFFFFFFFF"
    using u1 u2 lt skip by (auto simp: MAX_PAGE_COUNT_def word_less_nat_alt)
  then have "?n \<noteq> 0 \<and> ?n \<noteq> 0xFFFFFFFF" by (intro conjI notI) simp_all
  then have "PageNumber_new ?n = Some ?n" by (simp add: PageNumber_new_def)
  then show False using assms lt pd ne skip
    by (auto simp: extend_file_def Let_def ok_def split: if_splits option.splits)
qed

text \<open>Clients of the freelist: each page they hold was allocated and not yet returned.\<close>

inductive fl_step :: "Freelist \<times> u32 set \<Rightarrow> Freelist \<times> u32 set \<Rightarrow> bool" where
  alloc: "allocate fl = (Some (Inr p), fl') \<Longrightarrow> fl_step (fl, live) (fl', insert p live)"
| full: "allocate fl = (Some (Inl e), fl') \<Longrightarrow> fl_step (fl, live) (fl', live)"
| dealloc: "p \<in> live \<Longrightarrow> fl_step (fl, live) (deallocate p fl, live - {p})"

text \<open>The pending-byte page is on the freelist or with a client only if it was there from the start, among the pages
  \<open>given\<close>.\<close>

definition fl_inv :: "u32 \<Rightarrow> u32 set \<Rightarrow> Freelist \<Rightarrow> u32 set \<Rightarrow> bool" where
  "fl_inv page_size given fl live \<longleftrightarrow>
     fl_page_size fl = page_size \<and> distinct (fl_free_pages fl) \<and> set (fl_free_pages fl) \<inter> live = {} \<and>
     (\<forall>p\<in>live. p \<le> fl_db_page_count fl) \<and> (\<forall>p\<in>live \<union> set (fl_free_pages fl). valid_pgno p) \<and>
     (\<forall>p\<in>live \<union> set (fl_free_pages fl). pending_byte_page page_size = Some p \<longrightarrow> p \<in> given)"

lemma allocate_ok:
  assumes "fl_inv ps given fl live" "allocate fl = (Some (Inr p), fl')"
  shows "p \<notin> live" "p \<notin> set (fl_free_pages fl')" "valid_pgno p" "p \<le> fl_db_page_count fl'"
    "pending_byte_page ps = Some p \<Longrightarrow> p \<in> given \<and> fl_db_page_count fl' = fl_db_page_count fl"
    "fl_inv ps given fl' (insert p live)" "fl_db_page_count fl' \<noteq> fl_db_page_count fl \<longrightarrow> (\<forall>q\<in>set (fl_free_pages fl). fl_db_page_count fl < q)"
proof -
  obtain r rest where pf: "pop_free (fl_db_page_count fl) (fl_free_pages fl) = (r, rest)" by fastforce
  note P = pop_free_cases [OF pf]
  have "p \<notin> live \<and> p \<notin> set (fl_free_pages fl') \<and> valid_pgno p \<and> p \<le> fl_db_page_count fl' \<and>
    (pending_byte_page ps = Some p \<longrightarrow> p \<in> given \<and> fl_db_page_count fl' = fl_db_page_count fl) \<and> fl_inv ps given fl' (insert p live) \<and>
    (fl_db_page_count fl' \<noteq> fl_db_page_count fl \<longrightarrow> (\<forall>q\<in>set (fl_free_pages fl). fl_db_page_count fl < q))"
  proof (cases r)
    case None
    then have e: "extend_file (fl\<lparr>fl_free_pages := []\<rparr>) = (Some (Inr p), fl')" using assms(2) pf P by (simp add: allocate_def)
    note E = extend_file_ok [OF e]
    have "\<forall>q\<in>live. q < p" using assms(1) E(1) by (auto simp: fl_inv_def)
    then show ?thesis using E assms(1) P None by (fastforce simp: fl_inv_def)
  next
    case (Some q)
    then have q: "q = p" "fl' = fl\<lparr>fl_free_pages := rest\<rparr>" using assms(2) pf by (auto simp: allocate_def ok_def)
    obtain d where d: "p \<le> fl_db_page_count fl" "fl_free_pages fl = rest @ p # d" using P Some q(1) by auto
    then show ?thesis using assms(1) q(2) by (auto simp: fl_inv_def)
  qed
  then show "p \<notin> live" "p \<notin> set (fl_free_pages fl')" "valid_pgno p" "p \<le> fl_db_page_count fl'"
    "pending_byte_page ps = Some p \<Longrightarrow> p \<in> given \<and> fl_db_page_count fl' = fl_db_page_count fl"
    "fl_inv ps given fl' (insert p live)" "fl_db_page_count fl' \<noteq> fl_db_page_count fl \<longrightarrow> (\<forall>q\<in>set (fl_free_pages fl). fl_db_page_count fl < q)"
    by blast+
qed

lemma fl_step_inv: "fl_step st st' \<Longrightarrow> fl_inv ps given (fst st) (snd st) \<Longrightarrow> fl_inv ps given (fst st') (snd st')"
proof (induction rule: fl_step.induct)
  case (alloc fl p fl' live)
  then show ?case using allocate_ok(6) by auto
next
  case (full fl e fl' live)
  obtain r rest where pf: "pop_free (fl_db_page_count fl) (fl_free_pages fl) = (r, rest)" by fastforce
  have "r = None" using full.hyps pf by (auto simp: allocate_def ok_def split: option.splits)
  then have "extend_file (fl\<lparr>fl_free_pages := []\<rparr>) = (Some (Inl e), fl')"
    using full.hyps pf pop_free_cases [OF pf] by (simp add: allocate_def)
  then have "fl' = fl\<lparr>fl_free_pages := []\<rparr>" by (rule extend_file_err)
  then show ?case using full.prems by (auto simp: fl_inv_def)
next
  case (dealloc p live fl)
  then show ?case by (auto simp: fl_inv_def deallocate_def)
qed

lemma fl_steps_inv: "fl_step\<^sup>*\<^sup>* st st' \<Longrightarrow> fl_inv ps given (fst st) (snd st) \<Longrightarrow> fl_inv ps given (fst st') (snd st')"
  by (induction rule: rtranclp_induct) (auto dest: fl_step_inv)

section \<open>Pointer map\<close>

text \<open>The group of a page in plain arithmetic: \<open>G\<close> entries and the map page, the map page moved by
  one where it would be the pending byte page.\<close>

definition map_page_nat :: "nat \<Rightarrow> nat \<Rightarrow> nat \<Rightarrow> nat" where
  "map_page_nat G P p = (let b = (p - 2) div G * G + 2 in if b = P then b + 1 else b)"

lemma map_page_nat_bounds:
  assumes "2 \<le> G" "2 \<le> p" "p \<noteq> P" "p \<noteq> map_page_nat G P p"
  shows "map_page_nat G P p < p" "p \<le> map_page_nat G P p + (G - 1)"
    "map_page_nat G P (map_page_nat G P p) = map_page_nat G P p"
proof -
  define b where "b = (p - 2) div G * G"
  have m: "p - 2 = b + (p - 2) mod G" by (simp add: b_def)
  have lt: "(p - 2) mod G < G" using assms(1) by simp
  have mp: "map_page_nat G P p = (if b + 2 = P then b + 3 else b + 2)" by (simp add: map_page_nat_def b_def Let_def)
  have ge: "b + 2 \<le> p" using m assms(2) by linarith
  show less: "map_page_nat G P p < p" using ge assms(3,4) mp by (auto split: if_splits)
  have "p \<le> b + 2 + (G - 1)" using m lt assms(2) by linarith
  then show "p \<le> map_page_nat G P p + (G - 1)" unfolding mp by simp
  have "(k * G + 1) div G = k" for k using assms(1) by (simp add: div_nat_eqI)
  then have "b div G = (p - 2) div G" "(b + 1) div G = (p - 2) div G" using assms(1) by (simp_all add: b_def)
  then show "map_page_nat G P (map_page_nat G P p) = map_page_nat G P p"
    unfolding mp by (auto simp: map_page_nat_def Let_def b_def)
qed

lemma ptrmap_group_nat: "5 \<le> unat usable \<Longrightarrow> unat (ptrmap_group_size usable) = unat usable div 5 + 1"
proof -
  have "unat usable div 5 + 1 < 4294967296" using unat_u32_less [of usable] by linarith
  then show ?thesis
    by (simp add: ptrmap_group_size_def ptrmap_entries_per_page_def PTRMAP_ENTRY_SIZE_BYTES_def unat_word_ariths unat_div)
qed

lemma pending_nat:
  assumes "page_size \<noteq> 0"
  shows "\<exists>q. pending_byte_page page_size = Some q \<and> unat q = 2 ^ 30 div unat page_size + 1"
proof -
  have "1073741824 div unat page_size \<le> 1073741824" by (rule div_le_dividend)
  then have "1073741824 div unat page_size + 1 < 4294967296" by linarith
  then show ?thesis using assms by (simp add: pending_byte_page_def unat_word_ariths unat_div)
qed

lemma compute_nat:
  assumes "2 \<le> unat p" "5 \<le> unat usable" "page_size \<noteq> 0"
  shows "\<exists>q. compute_ptrmap_page p usable page_size = Some q \<and>
    unat q = map_page_nat (unat usable div 5 + 1) (2 ^ 30 div unat page_size + 1) (unat p)"
proof -
  let ?g = "ptrmap_group_size usable" and ?G = "unat usable div 5 + 1"
  let ?r = "(p - 2) div ?g * ?g + 2" and ?b = "(unat p - 2) div ?G * ?G"
  obtain pend where pd: "pending_byte_page page_size = Some pend" "unat pend = 2 ^ 30 div unat page_size + 1"
    using pending_nat [OF assms(3)] by blast
  have g: "unat ?g = ?G" by (rule ptrmap_group_nat [OF assms(2)])
  have p2: "unat (p - 2) = unat p - 2" using assms(1) by (simp add: unat_sub word_le_nat_alt)
  have bl: "?b \<le> unat p - 2" by (rule div_times_less_eq_dividend)
  then have b32: "?b + 2 < 4294967296" using unat_u32_less [of p] assms(1) by linarith
  have m: "unat ((p - 2) div ?g * ?g) = ?b"
    using b32 by (simp add: unat_word_ariths unat_div p2 g)
  then have r: "unat ?r = ?b + 2" using b32 by (simp add: unat_word_ariths)
  have "2 ^ 30 div unat page_size \<le> 2 ^ 30" by (rule div_le_dividend)
  then have "unat pend \<le> 2 ^ 30 + 1" using pd(2) by linarith
  then have "unat pend + 1 < 4294967296" by simp
  then have r1: "?r = pend \<Longrightarrow> unat (?r + 1) = ?b + 3" using r by (simp add: unat_word_ariths)
  have "\<not> p < 2" "?g \<noteq> 0" using assms(1) g by (auto simp: word_less_nat_alt)
  then have "compute_ptrmap_page p usable page_size = Some (if ?r = pend then ?r + 1 else ?r)"
    using pd(1) by (simp add: compute_ptrmap_page_def Let_def)
  moreover have "?r = pend \<longleftrightarrow> ?b + 2 = 2 ^ 30 div unat page_size + 1" using r pd(2) by (simp add: word_unat_eq_iff)
  ultimately show ?thesis using r r1 by (simp add: map_page_nat_def Let_def)
qed

lemma ptrmap_entry_nat:
  assumes sz: "5 \<le> unat usable" "page_size \<noteq> 0"
    and p: "3 \<le> unat p" "pending_byte_page page_size \<noteq> Some p"
    and M: "M = map_page_nat (unat usable div 5 + 1) (2 ^ 30 div unat page_size + 1) (unat p)" "unat p \<noteq> M"
  shows "\<exists>q off. ptrmap_page_for p usable page_size = Some (Some q) \<and> unat q = M \<and>
    ptrmap_entry_offset p usable page_size = Some (Some off) \<and> unat off = (unat p - M - 1) * 5 \<and>
    M < unat p \<and> unat p \<le> M + unat usable div 5 \<and> is_ptrmap_page q usable page_size = Some True"
proof -
  let ?G = "unat usable div 5 + 1" and ?P = "2 ^ 30 div unat page_size + 1"
  obtain pend where pd: "pending_byte_page page_size = Some pend" "unat pend = ?P" using pending_nat [OF sz(2)] by blast
  obtain q where q: "compute_ptrmap_page p usable page_size = Some q" "unat q = M"
    using compute_nat [OF _ sz, of p] p(1) M(1) by auto
  have pP: "unat p \<noteq> ?P" using p(2) pd by (auto simp: word_unat_eq_iff)
  have G: "2 \<le> ?G" using sz(1) by linarith
  note b = map_page_nat_bounds [OF G _ pP, folded M(1), OF _ M(2)]
  have M2: "2 \<le> M" by (simp add: M(1) map_page_nat_def Let_def)
  have lt: "M < unat p" "unat p \<le> M + unat usable div 5" using b p(1) by auto
  have "unat q < 4294967295" using lt(1) q(2) unat_u32_less [of p] by linarith
  then have qv: "PageNumber_new q = Some q" "q \<noteq> 0" using q(2) M2 by (auto simp: PageNumber_new_def)
  have ne: "q \<noteq> p" using q(2) M(2) by auto
  have "\<not> p < 3" "\<not> p < 2" using p(1) by (simp_all add: word_less_nat_alt)
  then have pf: "ptrmap_page_for p usable page_size = Some (Some q)"
    using q(1) ne qv by (simp add: ptrmap_page_for_def is_ptrmap_page_def)
  have qp: "\<not> p \<le> q" using lt(1) q(2) by (simp add: word_le_nat_alt)
  have u1: "unat (p - q - 1) = unat p - M - 1"
    using lt(1) q(2) by (simp add: unat_sub word_le_nat_alt unat_sub_if')
  have "unat p - M - 1 \<le> unat usable div 5" using lt(2) by linarith
  then have "(unat p - M - 1) * 5 \<le> unat usable" by linarith
  then have "unat (p - q - 1) * 5 < 4294967296" unfolding u1 using unat_u32_less [of usable] by linarith
  moreover have "unat i * 5 < 4294967296 \<Longrightarrow> unat (i * 5) = unat i * 5" for i :: u32 by (simp add: unat_word_ariths)
  ultimately have u5: "unat ((p - q - 1) * PTRMAP_ENTRY_SIZE_BYTES) = (unat p - M - 1) * 5"
    unfolding PTRMAP_ENTRY_SIZE_BYTES_def u1 [symmetric] by blast
  have "ptrmap_entry_offset p usable page_size = Some (Some ((p - q - 1) * PTRMAP_ENTRY_SIZE_BYTES))"
    using pd(1) p(2) pf qp by (simp add: ptrmap_entry_offset_def)
  moreover obtain q' where "compute_ptrmap_page q usable page_size = Some q'" "unat q' = M"
    using compute_nat [OF _ sz, of q] q(2) M2 b(3) p(1) by auto
  then have "is_ptrmap_page q usable page_size = Some True"
    using q(2) M2 by (simp add: is_ptrmap_page_def word_unat_eq_iff word_less_nat_alt)
  ultimately show ?thesis using pf q(2) u5 lt by blast
qed

lemma ptrmap_entry_only:
  assumes sz: "5 \<le> unat usable" "page_size \<noteq> 0" and e: "ptrmap_entry_offset p usable page_size = Some (Some off)"
  shows "3 \<le> unat p" "pending_byte_page page_size \<noteq> Some p"
    "unat p \<noteq> map_page_nat (unat usable div 5 + 1) (2 ^ 30 div unat page_size + 1) (unat p)"
proof -
  obtain pend where pd: "pending_byte_page page_size = Some pend" using pending_nat [OF sz(2)] by blast
  obtain q where pf: "ptrmap_page_for p usable page_size = Some (Some q)" and "p \<noteq> pend"
    using e pd by (auto simp: ptrmap_entry_offset_def split: if_splits option.splits bind_splits)
  then show "pending_byte_page page_size \<noteq> Some p" using pd by simp
  show p3: "3 \<le> unat p" using pf
    by (auto simp: ptrmap_page_for_def word_less_nat_alt split: if_splits bind_splits)
  obtain r where r: "compute_ptrmap_page p usable page_size = Some r"
    "unat r = map_page_nat (unat usable div 5 + 1) (2 ^ 30 div unat page_size + 1) (unat p)"
    using compute_nat [OF _ sz, of p] p3 by auto
  have "r \<noteq> p" using pf r(1) p3 by (auto simp: ptrmap_page_for_def is_ptrmap_page_def word_less_nat_alt split: if_splits bind_splits)
  then show "unat p \<noteq> map_page_nat (unat usable div 5 + 1) (2 ^ 30 div unat page_size + 1) (unat p)"
    using r(2) by (auto simp: word_unat_eq_iff)
qed

section \<open>Properties\<close>

text \<open>The freelist survives a round trip through its trunk pages.  When every page of a chain of
  trunks holds what \<open>FreelistTrunk::write\<close> produced for its leaves and the link to the next trunk,
  reading the freelist from the first trunk returns exactly the trunks and leaves of the chain, in
  order; up to the million trunks the reader allows.\<close>

theorem freelist_chain_roundtrip:
  assumes "trunks_stored rd ts" "length ts \<le> 1000000"
  shows "read_freelist (head_of ts) rd = Some (Inr (concat (map (\<lambda>(p, leaves). p # leaves) ts)))"
  using read_trunks_stored [OF assms(1), of 0 "[]"] assms(2) by (simp add: read_freelist_def ok_def)

theorem freelist_chain_roundtrip_witness:
  "\<exists>page. FreelistTrunk_write \<lparr>ft_next_trunk = None, ft_leaf_pages = [9, 4]\<rparr> (replicate 512 0) = Some page \<and>
     read_freelist (Some 3) (\<lambda>p. if p = 3 then Inr page else Inl TooBig) = Some (Inr [3, 9, 4])"
proof -
  let ?t = "\<lparr>ft_next_trunk = None, ft_leaf_pages = [9, 4]\<rparr>"
  have e: "unat (page_entries (replicate 512 (0::u8))) = 126" by (simp add: page_entries_def unat_div)
  obtain page where w: "FreelistTrunk_write ?t (replicate 512 0) = Some page"
    using trunk_roundtrip [of "replicate 512 0" ?t] by (auto simp: valid_pgno_def)
  have "trunks_stored (\<lambda>p. if p = 3 then Inr page else Inl TooBig) [(3, [9, 4])]"
    using w e by (auto simp: head_of_def valid_pgno_def intro!: exI [of _ "replicate 512 0"])
  then show ?thesis using freelist_chain_roundtrip [of "\<lambda>p. if p = 3 then Inr page else Inl TooBig" "[(3, [9, 4])]"] w
    by (simp add: head_of_def)
qed

text \<open>C23: The freelist never hands out a page twice.  Start from distinct free pages that no client
  holds, all of them page numbers, the pages the clients hold being inside the file.  After any sequence of allocations and
  returns of held pages, in any order and including allocations that fail, an allocation that succeeds yields a
  page number inside the file which no client holds and which is no longer on the freelist.  The file is extended
  only when no free page inside it is left, and never by the pending-byte page; that page is handed out only
  if it was on the freelist or with a client at the start, since taking a page from the freelist does not check for it.\<close>

theorem freelist_no_double_allocation:
  assumes "fl_step\<^sup>*\<^sup>* (with_pages free_pages count page_size, held) (fl, live)"
    and "distinct free_pages" "set free_pages \<inter> held = {}" "\<forall>p\<in>held. p \<le> count"
    and "\<forall>p\<in>held \<union> set free_pages. valid_pgno p"
    and "allocate fl = (Some (Inr p), fl')"
  shows "p \<notin> live \<and> p \<notin> set (fl_free_pages fl') \<and> valid_pgno p \<and> p \<le> fl_db_page_count fl' \<and>
    (pending_byte_page page_size = Some p \<longrightarrow> p \<in> held \<union> set free_pages \<and> fl_db_page_count fl' = fl_db_page_count fl) \<and>
    (fl_db_page_count fl' \<noteq> fl_db_page_count fl \<longrightarrow> (\<forall>q\<in>set (fl_free_pages fl). fl_db_page_count fl < q))"
proof -
  have "fl_inv page_size (held \<union> set free_pages) (with_pages free_pages count page_size) held"
    using assms(2-5) by (auto simp: fl_inv_def with_pages_def)
  then have inv: "fl_inv page_size (held \<union> set free_pages) fl live" using fl_steps_inv [OF assms(1)] by simp
  show ?thesis using allocate_ok [OF inv assms(6)] by blast
qed

theorem freelist_no_double_allocation_witness:
  "fl_step\<^sup>*\<^sup>* (with_pages [7, 900] 10 4096, {2}) (with_pages [] 10 4096, {2, 7}) \<and>
   allocate (with_pages [] 10 4096) = (Some (Inr 11), with_pages [] 11 4096) \<and> (11::u32) \<notin> {2, 7}"
proof -
  have "allocate (with_pages [7, 900] 10 4096) = (Some (Inr 7), with_pages [] 10 4096)"
    by (simp add: allocate_def with_pages_def pop_free.simps ok_def)
  then have s: "fl_step\<^sup>*\<^sup>* (with_pages [7, 900] 10 4096, {2}) (with_pages [] 10 4096, {2, 7})"
    using fl_step.alloc [of _ 7 _ "{2}"] by (simp add: insert_commute r_into_rtranclp)
  have pb: "pending_byte_page 4096 = Some 262145" by (simp add: pending_byte_page_def)
  have a: "allocate (with_pages [] 10 4096) = (Some (Inr 11), with_pages [] 11 4096)"
    by (simp add: allocate_def with_pages_def pop_free.simps extend_file_def MAX_PAGE_COUNT_def pb ok_def PageNumber_new_def)
  show ?thesis using s a freelist_no_double_allocation [OF s _ _ _ _ a] pb by (auto simp: valid_pgno_def)
qed

lemma ptrmap_entry_facts:
  assumes "5 \<le> unat usable" "page_size \<noteq> 0"
  shows "ptrmap_entry_offset p usable page_size = Some (Some off) \<Longrightarrow>
      \<exists>q. ptrmap_page_for p usable page_size = Some (Some q) \<and> is_ptrmap_page q usable page_size = Some True \<and>
        unat off mod 5 = 0 \<and> unat off + 5 \<le> unat usable"
    and "ptrmap_entry_offset p usable page_size = Some (Some off) \<Longrightarrow> ptrmap_entry_offset p' usable page_size = Some (Some off) \<Longrightarrow>
      ptrmap_page_for p usable page_size = ptrmap_page_for p' usable page_size \<Longrightarrow> p = p'"
    and "3 \<le> p \<Longrightarrow> is_ptrmap_page p usable page_size = Some False \<Longrightarrow> pending_byte_page page_size \<noteq> Some p \<Longrightarrow>
      \<exists>off. ptrmap_entry_offset p usable page_size = Some (Some off)"
proof -
  let ?M = "\<lambda>p. map_page_nat (unat usable div 5 + 1) (2 ^ 30 div unat page_size + 1) (unat p)"
  have E: "\<exists>q. ptrmap_page_for p usable page_size = Some (Some q) \<and> unat q = ?M p \<and> unat off = (unat p - ?M p - 1) * 5 \<and>
      ?M p < unat p \<and> unat p \<le> ?M p + unat usable div 5 \<and> is_ptrmap_page q usable page_size = Some True"
    if "ptrmap_entry_offset p usable page_size = Some (Some off)" for p off
    using ptrmap_entry_nat [OF assms ptrmap_entry_only(1,2) [OF assms that] refl ptrmap_entry_only(3) [OF assms that]] that
    by auto
  show "\<exists>q. ptrmap_page_for p usable page_size = Some (Some q) \<and> is_ptrmap_page q usable page_size = Some True \<and>
        unat off mod 5 = 0 \<and> unat off + 5 \<le> unat usable" if e: "ptrmap_entry_offset p usable page_size = Some (Some off)"
  proof -
    obtain q where q: "ptrmap_page_for p usable page_size = Some (Some q)" "is_ptrmap_page q usable page_size = Some True"
      "unat off = (unat p - ?M p - 1) * 5" "?M p < unat p" "unat p \<le> ?M p + unat usable div 5" using E [OF e] by blast
    have "unat p - ?M p - 1 + 1 \<le> unat usable div 5" using q(4,5) by linarith
    then have "unat off + 5 \<le> unat usable" unfolding q(3) by linarith
    then show ?thesis using q by simp
  qed
  show "p = p'" if "ptrmap_entry_offset p usable page_size = Some (Some off)"
      "ptrmap_entry_offset p' usable page_size = Some (Some off)"
      "ptrmap_page_for p usable page_size = ptrmap_page_for p' usable page_size"
  proof -
    have eq: "?M p = ?M p'" "(unat p - ?M p - 1) * 5 = (unat p' - ?M p' - 1) * 5" and lt: "?M p < unat p" "?M p' < unat p'"
      using E [OF that(1)] E [OF that(2)] that(3) by auto
    then have "unat p = unat p'" by linarith
    then show ?thesis by (simp add: word_unat_eq_iff)
  qed
  show "\<exists>off. ptrmap_entry_offset p usable page_size = Some (Some off)"
    if "3 \<le> p" "is_ptrmap_page p usable page_size = Some False" "pending_byte_page page_size \<noteq> Some p"
  proof -
    have p3: "3 \<le> unat p" using that(1) by (simp add: word_le_nat_alt)
    obtain r where "compute_ptrmap_page p usable page_size = Some r" "unat r = ?M p"
      using compute_nat [OF _ assms, of p] p3 by auto
    then have "unat p \<noteq> ?M p" using that(2) p3
      by (auto simp: is_ptrmap_page_def word_less_nat_alt word_unat_eq_iff split: if_splits)
    then show ?thesis using ptrmap_entry_nat [OF assms p3 that(3) refl] by blast
  qed
qed

text \<open>Pointer-map entries do not collide and none is missing.  With room for at least one entry
  per page, the entry of a page lies in a pointer-map page at a multiple of five within the usable
  size; different pages have different entries; and every page from 3 on that is neither a
  pointer-map page nor the pending-byte page has one.\<close>

theorem ptrmap_entries_disjoint:
  assumes "5 \<le> unat usable" "page_size \<noteq> 0"
  shows "(\<forall>off. ptrmap_entry_offset p usable page_size = Some (Some off) \<longrightarrow>
      (\<exists>q. ptrmap_page_for p usable page_size = Some (Some q) \<and> is_ptrmap_page q usable page_size = Some True \<and>
        unat off mod 5 = 0 \<and> unat off + 5 \<le> unat usable) \<and>
      (\<forall>p'. ptrmap_entry_offset p' usable page_size = Some (Some off) \<and>
        ptrmap_page_for p usable page_size = ptrmap_page_for p' usable page_size \<longrightarrow> p = p')) \<and>
    (3 \<le> p \<and> is_ptrmap_page p usable page_size = Some False \<and> pending_byte_page page_size \<noteq> Some p \<longrightarrow>
      (\<exists>off. ptrmap_entry_offset p usable page_size = Some (Some off)))"
  using ptrmap_entry_facts [OF assms] by blast

theorem ptrmap_entries_disjoint_witness:
  "ptrmap_entry_offset 5 512 512 = Some (Some 10) \<and> unat (10::u32) + 5 \<le> unat (512::u32)"
proof -
  have "ptrmap_entry_offset 5 512 512 = Some (Some 10)"
    by (simp add: ptrmap_entry_offset_def ptrmap_page_for_def is_ptrmap_page_def compute_ptrmap_page_def pending_byte_page_def
        ptrmap_group_size_def ptrmap_entries_per_page_def PTRMAP_ENTRY_SIZE_BYTES_def PageNumber_new_def)
  then show ?thesis using ptrmap_entries_disjoint [of 512 512 5] by auto
qed

text \<open>Pointer-map entries round trip.  An entry whose parent is absent exactly for root and free
  pages decodes from its five bytes; and whatever decodes is such an entry whose encoding is the
  five bytes it was read from.\<close>

theorem ptrmap_entry_roundtrip:
  "((pm_parent e = None \<longleftrightarrow> pm_kind e \<in> {RootPage, FreePage}) \<and> pred_option valid_pgno (pm_parent e) \<longrightarrow>
      PtrMapEntry_decode (PtrMapEntry_encode e @ rest) = Inr e) \<and>
   (PtrMapEntry_decode bs = Inr e \<longrightarrow>
      (pm_parent e = None \<longleftrightarrow> pm_kind e \<in> {RootPage, FreePage}) \<and> pred_option valid_pgno (pm_parent e) \<and>
      PtrMapEntry_encode e = take 5 bs)"
proof (intro conjI impI)
  assume ok: "(pm_parent e = None \<longleftrightarrow> pm_kind e \<in> {RootPage, FreePage}) \<and> pred_option valid_pgno (pm_parent e)"
  let ?n = "next_raw_of (pm_parent e)"
  have b4: "[to_be 4 ?n ! 0, to_be 4 ?n ! 1, to_be 4 ?n ! 2, to_be 4 ?n ! 3] = to_be 4 ?n"
    using subslice_4 [of 0 "to_be 4 ?n"] by (simp add: subslice_def numeral_2_eq_2)
  have n: "PageNumber_new ?n = pm_parent e" "?n = 0 \<longleftrightarrow> pm_parent e = None"
    using ok by (cases "pm_parent e"; simp add: next_raw_of_def PageNumber_new_def valid_pgno_def)+
  have c: "from_code (ptrmap_code (pm_kind e)) = Inr (pm_kind e)"
    by (cases "pm_kind e") (simp_all add: from_code_def ptrmap_code_def)
  have d: "from_be [(to_be 4 ?n @ rest) ! 0, (to_be 4 ?n @ rest) ! 1, (to_be 4 ?n @ rest) ! 2, (to_be 4 ?n @ rest) ! 3] = ?n"
    using b4 by (simp add: nth_append from_be_to_be_full del: to_be.simps)
  show "PtrMapEntry_decode (PtrMapEntry_encode e @ rest) = Inr e"
    unfolding PtrMapEntry_decode_def PtrMapEntry_encode_def next_raw_of_def [symmetric] Let_def
    using c d n ok by (cases e; cases "pm_kind e") (auto simp: PTRMAP_ENTRY_SIZE_BYTES_def nth_Cons' simp del: to_be.simps)
next
  assume dec: "PtrMapEntry_decode bs = Inr e"
  have len: "5 \<le> length bs" using dec by (auto simp: PtrMapEntry_decode_def PTRMAP_ENTRY_SIZE_BYTES_def split: if_splits)
  let ?raw = "from_be [bs ! 1, bs ! 2, bs ! 3, bs ! 4] :: u32"
  have k: "from_code (bs ! 0) = Inr (pm_kind e)" and par: "pm_parent e = PageNumber_new ?raw"
    and g: "pm_kind e = RootPage \<or> pm_kind e = FreePage \<Longrightarrow> ?raw = 0"
      "pm_kind e = Overflow1 \<or> pm_kind e = Overflow2 \<or> pm_kind e = Btree \<Longrightarrow> PageNumber_new ?raw \<noteq> None"
    using dec len by (auto simp: PtrMapEntry_decode_def PTRMAP_ENTRY_SIZE_BYTES_def Let_def split: if_splits sum.splits)
  have none: "pm_parent e = None \<longleftrightarrow> pm_kind e \<in> {RootPage, FreePage}"
    using g par by (cases "pm_kind e") (auto simp: PageNumber_new_def)
  show "pm_parent e = None \<longleftrightarrow> pm_kind e \<in> {RootPage, FreePage}" by (rule none)
  show "pred_option valid_pgno (pm_parent e)" using par by (auto simp: PageNumber_new_Some pred_option_def)
  have raw: "next_raw_of (pm_parent e) = ?raw"
  proof (cases "pm_parent e")
    case None
    then show ?thesis using none g(1) by (simp add: next_raw_of_def)
  next
    case (Some p)
    then have "p = ?raw" using par PageNumber_new_Some [of ?raw p] by simp
    then show ?thesis using Some by (simp add: next_raw_of_def)
  qed
  have code: "ptrmap_code (pm_kind e) = bs ! 0"
    using k by (auto simp: from_code_def ptrmap_code_def split: if_splits)
  have "to_be 4 ?raw = [bs ! 1, bs ! 2, bs ! 3, bs ! 4]"
    using to_be_from_be [of "[bs ! 1, bs ! 2, bs ! 3, bs ! 4]", where 'a = 32] by (simp add: numeral_eq_Suc)
  moreover have "take 5 bs = [bs ! 0, bs ! 1, bs ! 2, bs ! 3, bs ! 4]"
    using len by (simp add: list_eq_iff_nth_eq less_Suc_eq numeral_eq_Suc)
  ultimately show "PtrMapEntry_encode e = take 5 bs"
    unfolding PtrMapEntry_encode_def next_raw_of_def [symmetric] raw code by simp
qed

theorem ptrmap_entry_roundtrip_witness:
  "PtrMapEntry_decode (PtrMapEntry_encode \<lparr>pm_kind = Btree, pm_parent = Some 7\<rparr> @ []) = Inr \<lparr>pm_kind = Btree, pm_parent = Some 7\<rparr>"
  using ptrmap_entry_roundtrip [of "\<lparr>pm_kind = Btree, pm_parent = Some 7\<rparr>" "[]" "[]"] by (simp add: valid_pgno_def)

end
