(* ===== verification/WalChecksum.thy ===== *)
theory WalChecksum
  imports Errors PageTypes
begin

text \<open>
  \<open>crates/fsqlite-wal/src/checksum.rs\<close>: the rolling checksum of the write-ahead log and its affine
  transform, WAL and frame headers, the validation of a WAL that finds the replayable prefix, and
  page checksum trailers with the recovery decision built on them.  The XXH3-128 hash comes from
  another crate and is a parameter.  Slices are taken after the length checks that guard them in
  the code.
\<close>

section \<open>Checksums and transforms\<close>

record SqliteWalChecksum =
  ck_s1 :: u32
  ck_s2 :: u32

definition decode_u32_words :: "bytes \<Rightarrow> bool \<Rightarrow> u32" where
  "decode_u32_words bs big_endian = (if big_endian then from_be (take 4 bs) else from_le (take 4 bs))"

text \<open>The loop over \<open>chunks_exact(8)\<close>.\<close>

function checksum_loop :: "bool \<Rightarrow> u32 \<Rightarrow> u32 \<Rightarrow> bytes \<Rightarrow> u32 \<times> u32" where
  "checksum_loop be a b data =
     (if length data < 8 then (a, b)
      else
        let x0 = decode_u32_words (take 4 data) be;
            x1 = decode_u32_words (take 4 (drop 4 data)) be;
            a' = a + x0 + b;
            b' = b + x1 + a' in
        checksum_loop be a' b' (drop 8 data))"
  by pat_completeness auto
termination by (relation "measure (\<lambda>(_, _, _, data). length data)") auto

declare checksum_loop.simps [simp del]

definition sqlite_wal_checksum :: "bytes \<Rightarrow> u32 \<Rightarrow> u32 \<Rightarrow> bool \<Rightarrow> FrankenError + SqliteWalChecksum" where
  "sqlite_wal_checksum data seed_s1 seed_s2 be =
     (if length data mod 8 \<noteq> 0 then Inl (WalCorrupt ''WAL checksum input must be 8-byte aligned'')
      else case checksum_loop be seed_s1 seed_s2 data of (a, b) \<Rightarrow> Inr \<lparr>ck_s1 = a, ck_s2 = b\<rparr>)"

record WalChecksumTransform =
  tr_a11 :: u32
  tr_a12 :: u32
  tr_a21 :: u32
  tr_a22 :: u32
  tr_c1 :: u32
  tr_c2 :: u32

definition transform_identity :: WalChecksumTransform where
  "transform_identity = \<lparr>tr_a11 = 1, tr_a12 = 0, tr_a21 = 0, tr_a22 = 1, tr_c1 = 0, tr_c2 = 0\<rparr>"

definition transform_apply :: "WalChecksumTransform \<Rightarrow> SqliteWalChecksum \<Rightarrow> SqliteWalChecksum" where
  "transform_apply t seed =
     \<lparr>ck_s1 = tr_a11 t * ck_s1 seed + tr_a12 t * ck_s2 seed + tr_c1 t,
      ck_s2 = tr_a21 t * ck_s1 seed + tr_a22 t * ck_s2 seed + tr_c2 t\<rparr>"

definition transform_then :: "WalChecksumTransform \<Rightarrow> WalChecksumTransform \<Rightarrow> WalChecksumTransform" where
  "transform_then t nxt =
     \<lparr>tr_a11 = tr_a11 nxt * tr_a11 t + tr_a12 nxt * tr_a21 t,
      tr_a12 = tr_a11 nxt * tr_a12 t + tr_a12 nxt * tr_a22 t,
      tr_a21 = tr_a21 nxt * tr_a11 t + tr_a22 nxt * tr_a21 t,
      tr_a22 = tr_a21 nxt * tr_a12 t + tr_a22 nxt * tr_a22 t,
      tr_c1 = tr_a11 nxt * tr_c1 t + tr_a12 nxt * tr_c2 t + tr_c1 nxt,
      tr_c2 = tr_a21 nxt * tr_c1 t + tr_a22 nxt * tr_c2 t + tr_c2 nxt\<rparr>"

type_synonym mat2 = "u32 \<times> u32 \<times> u32 \<times> u32"

fun mat_multiply :: "mat2 \<Rightarrow> mat2 \<Rightarrow> mat2" where
  "mat_multiply (l11, l12, l21, l22) (r11, r12, r21, r22) =
     (l11 * r11 + l12 * r21, l11 * r12 + l12 * r22, l21 * r11 + l22 * r21, l21 * r12 + l22 * r22)"

function coefficients_loop :: "nat \<Rightarrow> mat2 \<Rightarrow> mat2 \<Rightarrow> mat2" where
  "coefficients_loop exp result base =
     (if exp = 0 then result
      else
        let result' = (if exp mod 2 = 1 then mat_multiply result base else result);
            exp' = exp div 2;
            base' = (if exp' \<noteq> 0 then mat_multiply base base else base) in
        coefficients_loop exp' result' base')"
  by pat_completeness auto
termination by (relation "measure (\<lambda>(exp, _, _). exp)") auto

declare coefficients_loop.simps [simp del]

definition linear_coefficients_for_chunk_count :: "nat \<Rightarrow> mat2" where
  "linear_coefficients_for_chunk_count chunk_count = coefficients_loop chunk_count (1, 0, 0, 1) (1, 1, 1, 2)"

definition from_aligned_bytes :: "bytes \<Rightarrow> bool \<Rightarrow> FrankenError + WalChecksumTransform" where
  "from_aligned_bytes data be =
     (if length data mod 8 \<noteq> 0 then Inl (WalCorrupt ''WAL checksum transform input must be 8-byte aligned'')
      else case linear_coefficients_for_chunk_count (length data div 8) of (m11, m12, m21, m22) \<Rightarrow>
        case checksum_loop be 0 0 data of (a, b) \<Rightarrow>
          Inr \<lparr>tr_a11 = m11, tr_a12 = m12, tr_a21 = m21, tr_a22 = m22, tr_c1 = a, tr_c2 = b\<rparr>)"

section \<open>Length checks and field access\<close>

definition WAL_HEADER_SIZE :: nat where "WAL_HEADER_SIZE = 32"

definition WAL_FRAME_HEADER_SIZE :: nat where "WAL_FRAME_HEADER_SIZE = 24"

definition PAGE_CHECKSUM_RESERVED_BYTES :: nat where "PAGE_CHECKSUM_RESERVED_BYTES = 16"

definition read_be_u32_at :: "bytes \<Rightarrow> nat \<Rightarrow> u32" where
  "read_be_u32_at bs offset = from_be (subslice offset (offset + 4) bs)"

definition write_be_u32_at :: "nat \<Rightarrow> u32 \<Rightarrow> bytes \<Rightarrow> bytes" where
  "write_be_u32_at offset value bs = put offset (to_be 4 value) bs"

definition ensure_min_len :: "bytes \<Rightarrow> nat \<Rightarrow> string \<Rightarrow> FrankenError + unit" where
  "ensure_min_len bs minimum detail = (if length bs < minimum then Inl (WalCorrupt detail) else Inr ())"

definition ensure_valid_wal_page_size :: "nat \<Rightarrow> FrankenError + unit" where
  "ensure_valid_wal_page_size page_size =
     (if page_size \<ge> 2 ^ 32 then Inl (WalCorrupt ''page_size does not fit in u32'')
      else if PageSize_new (word_of_nat page_size) = None
      then Inl (WalCorrupt ''invalid page_size; expected power-of-two in 512..=65536'')
      else Inr ())"

definition ensure_valid_wal_header_page_size :: "u32 \<Rightarrow> FrankenError + unit" where
  "ensure_valid_wal_header_page_size page_size =
     (if PageSize_new page_size = None then Inl (WalCorrupt ''invalid WAL header page_size'') else Inr ())"

definition ensure_frame_len :: "bytes \<Rightarrow> nat \<Rightarrow> FrankenError + unit" where
  "ensure_frame_len frame page_size =
     bind_err (ensure_valid_wal_page_size page_size) (\<lambda>_.
       ensure_min_len frame (WAL_FRAME_HEADER_SIZE + page_size) ''WAL frame too small'')"

definition for_wal_frame :: "bytes \<Rightarrow> nat \<Rightarrow> bool \<Rightarrow> FrankenError + WalChecksumTransform" where
  "for_wal_frame frame page_size be =
     bind_err (ensure_frame_len frame page_size) (\<lambda>_.
     bind_err (from_aligned_bytes (take 8 frame) be) (\<lambda>header.
     bind_err (from_aligned_bytes (subslice WAL_FRAME_HEADER_SIZE (WAL_FRAME_HEADER_SIZE + page_size) frame) be) (\<lambda>payload.
       Inr (transform_then header payload))))"

section \<open>Headers\<close>

record WalSalts =
  salt1 :: u32
  salt2 :: u32

definition WAL_MAGIC_LE :: u32 where "WAL_MAGIC_LE = 0x377F0682"

definition WAL_MAGIC_BE :: u32 where "WAL_MAGIC_BE = 0x377F0683"

definition WAL_FORMAT_VERSION :: u32 where "WAL_FORMAT_VERSION = 3007000"

record WalHeader =
  wh_magic :: u32
  wh_format_version :: u32
  wh_page_size :: u32
  wh_checkpoint_seq :: u32
  wh_salts :: WalSalts
  wh_checksum :: SqliteWalChecksum

definition big_endian_checksum :: "WalHeader \<Rightarrow> bool" where
  "big_endian_checksum h \<longleftrightarrow> wh_magic h = WAL_MAGIC_BE"

definition WalHeader_from_bytes :: "bytes \<Rightarrow> FrankenError + WalHeader" where
  "WalHeader_from_bytes buf =
     (if length buf < WAL_HEADER_SIZE then Inl (WalCorrupt ''WAL header too small'')
      else
        let magic = read_be_u32_at buf 0 in
        if magic \<noteq> WAL_MAGIC_LE \<and> magic \<noteq> WAL_MAGIC_BE then Inl (WalCorrupt ''invalid WAL magic'')
        else
          let format_version = read_be_u32_at buf 4 in
          if format_version \<noteq> WAL_FORMAT_VERSION then Inl (WalCorrupt ''unsupported WAL format version'')
          else
            let page_size = read_be_u32_at buf 8 in
            bind_err (ensure_valid_wal_header_page_size page_size) (\<lambda>_.
              Inr \<lparr>wh_magic = magic, wh_format_version = format_version, wh_page_size = page_size,
                   wh_checkpoint_seq = read_be_u32_at buf 12,
                   wh_salts = \<lparr>salt1 = read_be_u32_at buf 16, salt2 = read_be_u32_at buf 20\<rparr>,
                   wh_checksum = \<lparr>ck_s1 = read_be_u32_at buf 24, ck_s2 = read_be_u32_at buf 28\<rparr>\<rparr>))"

definition WalHeader_to_bytes :: "WalHeader \<Rightarrow> FrankenError + bytes" where
  "WalHeader_to_bytes h =
     bind_err (ensure_valid_wal_header_page_size (wh_page_size h)) (\<lambda>_.
       let buf = put_fields [(0, to_be 4 (wh_magic h)), (4, to_be 4 (wh_format_version h)),
                   (8, to_be 4 (wh_page_size h)), (12, to_be 4 (wh_checkpoint_seq h)),
                   (16, to_be 4 (salt1 (wh_salts h))), (20, to_be 4 (salt2 (wh_salts h)))]
                   (replicate WAL_HEADER_SIZE 0) in
       bind_err (sqlite_wal_checksum (take 24 buf) 0 0 (big_endian_checksum h)) (\<lambda>checksum.
         Inr (write_be_u32_at 28 (ck_s2 checksum) (write_be_u32_at 24 (ck_s1 checksum) buf))))"

record WalFrameHeader =
  fh_page_number :: u32
  fh_db_size :: u32
  fh_salts :: WalSalts
  fh_checksum :: SqliteWalChecksum

definition is_commit :: "WalFrameHeader \<Rightarrow> bool" where
  "is_commit h \<longleftrightarrow> fh_db_size h > 0"

definition WalFrameHeader_from_bytes :: "bytes \<Rightarrow> FrankenError + WalFrameHeader" where
  "WalFrameHeader_from_bytes buf =
     (if length buf < WAL_FRAME_HEADER_SIZE then Inl (WalCorrupt ''WAL frame header too small'')
      else Inr \<lparr>fh_page_number = read_be_u32_at buf 0, fh_db_size = read_be_u32_at buf 4,
                fh_salts = \<lparr>salt1 = read_be_u32_at buf 8, salt2 = read_be_u32_at buf 12\<rparr>,
                fh_checksum = \<lparr>ck_s1 = read_be_u32_at buf 16, ck_s2 = read_be_u32_at buf 20\<rparr>\<rparr>)"

definition WalFrameHeader_to_bytes :: "WalFrameHeader \<Rightarrow> bytes" where
  "WalFrameHeader_to_bytes h =
     put_fields [(0, to_be 4 (fh_page_number h)), (4, to_be 4 (fh_db_size h)),
       (8, to_be 4 (salt1 (fh_salts h))), (12, to_be 4 (salt2 (fh_salts h))),
       (16, to_be 4 (ck_s1 (fh_checksum h))), (20, to_be 4 (ck_s2 (fh_checksum h)))] (replicate WAL_FRAME_HEADER_SIZE 0)"

definition read_wal_header_salts :: "bytes \<Rightarrow> FrankenError + WalSalts" where
  "read_wal_header_salts wal_header =
     bind_err (ensure_min_len wal_header WAL_HEADER_SIZE ''WAL header too small'') (\<lambda>_.
       Inr \<lparr>salt1 = read_be_u32_at wal_header 16, salt2 = read_be_u32_at wal_header 20\<rparr>)"

definition read_wal_header_checksum :: "bytes \<Rightarrow> FrankenError + SqliteWalChecksum" where
  "read_wal_header_checksum wal_header =
     bind_err (ensure_min_len wal_header WAL_HEADER_SIZE ''WAL header too small'') (\<lambda>_.
       Inr \<lparr>ck_s1 = read_be_u32_at wal_header 24, ck_s2 = read_be_u32_at wal_header 28\<rparr>)"

definition write_wal_header_salts :: "bytes \<Rightarrow> WalSalts \<Rightarrow> FrankenError + bytes" where
  "write_wal_header_salts wal_header salts =
     bind_err (ensure_min_len wal_header WAL_HEADER_SIZE ''WAL header too small'') (\<lambda>_.
       Inr (write_be_u32_at 20 (salt2 salts) (write_be_u32_at 16 (salt1 salts) wal_header)))"

definition wal_header_checksum :: "bytes \<Rightarrow> bool \<Rightarrow> FrankenError + SqliteWalChecksum" where
  "wal_header_checksum wal_header be =
     bind_err (ensure_min_len wal_header WAL_HEADER_SIZE ''WAL header too small'') (\<lambda>_.
       sqlite_wal_checksum (take 24 wal_header) 0 0 be)"

definition write_wal_header_checksum :: "bytes \<Rightarrow> bool \<Rightarrow> FrankenError + (SqliteWalChecksum \<times> bytes)" where
  "write_wal_header_checksum wal_header be =
     bind_err (ensure_min_len wal_header WAL_HEADER_SIZE ''WAL header too small'') (\<lambda>_.
     bind_err (wal_header_checksum wal_header be) (\<lambda>checksum.
       Inr (checksum, write_be_u32_at 28 (ck_s2 checksum) (write_be_u32_at 24 (ck_s1 checksum) wal_header))))"

definition validate_wal_header_checksum :: "bytes \<Rightarrow> bool \<Rightarrow> FrankenError + bool" where
  "validate_wal_header_checksum wal_header be =
     bind_err (wal_header_checksum wal_header be) (\<lambda>expected.
     bind_err (read_wal_header_checksum wal_header) (\<lambda>actual. Inr (actual = expected)))"

definition read_wal_frame_salts :: "bytes \<Rightarrow> FrankenError + WalSalts" where
  "read_wal_frame_salts frame_header =
     bind_err (ensure_min_len frame_header WAL_FRAME_HEADER_SIZE ''WAL frame header too small'') (\<lambda>_.
       Inr \<lparr>salt1 = read_be_u32_at frame_header 8, salt2 = read_be_u32_at frame_header 12\<rparr>)"

definition write_wal_frame_salts :: "bytes \<Rightarrow> WalSalts \<Rightarrow> FrankenError + bytes" where
  "write_wal_frame_salts frame_header salts =
     bind_err (ensure_min_len frame_header WAL_FRAME_HEADER_SIZE ''WAL frame header too small'') (\<lambda>_.
       Inr (write_be_u32_at 12 (salt2 salts) (write_be_u32_at 8 (salt1 salts) frame_header)))"

definition read_wal_frame_checksum :: "bytes \<Rightarrow> FrankenError + SqliteWalChecksum" where
  "read_wal_frame_checksum frame_header =
     bind_err (ensure_min_len frame_header WAL_FRAME_HEADER_SIZE ''WAL frame header too small'') (\<lambda>_.
       Inr \<lparr>ck_s1 = read_be_u32_at frame_header 16, ck_s2 = read_be_u32_at frame_header 20\<rparr>)"

definition compute_wal_frame_checksum :: "bytes \<Rightarrow> nat \<Rightarrow> SqliteWalChecksum \<Rightarrow> bool \<Rightarrow> FrankenError + SqliteWalChecksum" where
  "compute_wal_frame_checksum frame page_size previous be =
     bind_err (ensure_frame_len frame page_size) (\<lambda>_.
     bind_err (sqlite_wal_checksum (take 8 frame) (ck_s1 previous) (ck_s2 previous) be) (\<lambda>ck.
       sqlite_wal_checksum (subslice WAL_FRAME_HEADER_SIZE (WAL_FRAME_HEADER_SIZE + page_size) frame) (ck_s1 ck) (ck_s2 ck) be))"

definition write_wal_frame_checksum_fields :: "bytes \<Rightarrow> SqliteWalChecksum \<Rightarrow> FrankenError + bytes" where
  "write_wal_frame_checksum_fields frame checksum =
     bind_err (ensure_min_len frame WAL_FRAME_HEADER_SIZE ''WAL frame too small'') (\<lambda>_.
       Inr (write_be_u32_at 20 (ck_s2 checksum) (write_be_u32_at 16 (ck_s1 checksum) frame)))"

definition write_wal_frame_checksum ::
  "bytes \<Rightarrow> nat \<Rightarrow> SqliteWalChecksum \<Rightarrow> bool \<Rightarrow> FrankenError + (SqliteWalChecksum \<times> bytes)" where
  "write_wal_frame_checksum frame page_size previous be =
     bind_err (compute_wal_frame_checksum frame page_size previous be) (\<lambda>checksum.
     bind_err (write_wal_frame_checksum_fields frame checksum) (\<lambda>frame'. Inr (checksum, frame')))"

definition wal_frame_db_size :: "bytes \<Rightarrow> FrankenError + u32" where
  "wal_frame_db_size frame_header =
     bind_err (ensure_min_len frame_header WAL_FRAME_HEADER_SIZE ''WAL frame header too small'') (\<lambda>_.
       Inr (read_be_u32_at frame_header 4))"

section \<open>Chain validation\<close>

datatype WalChainInvalidReason =
  HeaderChecksumMismatch | TruncatedFrame | SaltMismatch | FrameSaltMismatch | FrameChecksumMismatch

record WalChainValidation =
  cv_valid :: bool
  cv_valid_frames :: nat
  cv_replayable_frames :: nat
  cv_first_invalid_frame :: "nat option"
  cv_reason :: "WalChainInvalidReason option"
  cv_last_commit_frame :: "nat option"
  cv_header_valid :: bool
  cv_valid_frame_count :: nat
  cv_replayable_frame_count :: nat
  cv_first_invalid_reason :: "WalChainInvalidReason option"
  cv_replayable_prefix_len :: nat

definition from_core ::
  "bool \<Rightarrow> nat \<Rightarrow> nat \<Rightarrow> nat option \<Rightarrow> WalChainInvalidReason option \<Rightarrow> nat option \<Rightarrow> nat \<Rightarrow> WalChainValidation" where
  "from_core valid valid_frames replayable_frames first_invalid_frame reason last_commit_frame frame_size =
     \<lparr>cv_valid = valid, cv_valid_frames = valid_frames, cv_replayable_frames = replayable_frames,
      cv_first_invalid_frame = first_invalid_frame, cv_reason = reason, cv_last_commit_frame = last_commit_frame,
      cv_header_valid = (valid \<or> reason \<noteq> Some HeaderChecksumMismatch),
      cv_valid_frame_count = valid_frames, cv_replayable_frame_count = replayable_frames,
      cv_first_invalid_reason = reason,
      cv_replayable_prefix_len = WAL_HEADER_SIZE + replayable_frames * frame_size\<rparr>"

text \<open>The loop over the full frames, and what follows it.\<close>

function chain_loop ::
  "nat \<Rightarrow> bool \<Rightarrow> WalSalts \<Rightarrow> bytes \<Rightarrow> nat \<Rightarrow> nat \<Rightarrow> nat \<Rightarrow> nat option \<Rightarrow> SqliteWalChecksum \<Rightarrow> FrankenError + WalChainValidation" where
  "chain_loop page_size be header_salts frames frame_index valid_frames replayable_frames last_commit_frame running =
     (let frame_size = WAL_FRAME_HEADER_SIZE + page_size in
      if frame_index \<ge> length frames div frame_size then
        (if length frames mod frame_size \<noteq> 0
         then Inr (from_core False valid_frames replayable_frames (Some valid_frames) (Some TruncatedFrame) last_commit_frame frame_size)
         else Inr (from_core True valid_frames replayable_frames None None last_commit_frame frame_size))
      else
        let start = frame_index * frame_size;
            frame = subslice start (start + frame_size) frames;
            frame_header = take WAL_FRAME_HEADER_SIZE frame in
        bind_err (read_wal_frame_salts frame_header) (\<lambda>salts.
        if salts \<noteq> header_salts
        then Inr (from_core False valid_frames replayable_frames (Some frame_index) (Some SaltMismatch) last_commit_frame frame_size)
        else
          bind_err (compute_wal_frame_checksum frame page_size running be) (\<lambda>expected.
          bind_err (read_wal_frame_checksum frame_header) (\<lambda>actual.
          if actual \<noteq> expected
          then Inr (from_core False valid_frames replayable_frames (Some frame_index) (Some FrameChecksumMismatch) last_commit_frame frame_size)
          else
            bind_err (wal_frame_db_size frame_header) (\<lambda>db_size.
              if db_size > 0
              then chain_loop page_size be header_salts frames (frame_index + 1) (valid_frames + 1) (frame_index + 1) (Some frame_index) actual
              else chain_loop page_size be header_salts frames (frame_index + 1) (valid_frames + 1) replayable_frames last_commit_frame actual)))))"
  by pat_completeness auto
termination
  by (relation "measure (\<lambda>(page_size, _, _, frames, frame_index, _). length frames div (WAL_FRAME_HEADER_SIZE + page_size) - frame_index)") auto

declare chain_loop.simps [simp del]

definition validate_wal_chain :: "bytes \<Rightarrow> nat \<Rightarrow> bool \<Rightarrow> FrankenError + WalChainValidation" where
  "validate_wal_chain wal_bytes page_size be =
     bind_err (ensure_min_len wal_bytes WAL_HEADER_SIZE ''WAL bytes too small'') (\<lambda>_.
     bind_err (ensure_valid_wal_page_size page_size) (\<lambda>_.
       let frame_size = WAL_FRAME_HEADER_SIZE + page_size;
           wal_header = take WAL_HEADER_SIZE wal_bytes in
       bind_err (validate_wal_header_checksum wal_header be) (\<lambda>header_ok.
       if \<not> header_ok
       then Inr (from_core False 0 0 (Some 0) (Some HeaderChecksumMismatch) None frame_size)
       else
         bind_err (read_wal_header_salts wal_header) (\<lambda>header_salts.
         bind_err (read_wal_header_checksum wal_header) (\<lambda>running.
           chain_loop page_size be header_salts (drop WAL_HEADER_SIZE wal_bytes) 0 0 0 None running)))))"

definition detect_torn_write_in_wal :: "bytes \<Rightarrow> nat \<Rightarrow> bool \<Rightarrow> FrankenError + bool" where
  "detect_torn_write_in_wal wal_bytes page_size be =
     bind_err (validate_wal_chain wal_bytes page_size be) (\<lambda>validation.
       Inr (cv_reason validation = Some TruncatedFrame \<or> cv_reason validation = Some FrameChecksumMismatch))"

section \<open>Page checksum trailers and recovery\<close>

record Xxh3Checksum128 =
  x3_low :: u64
  x3_high :: u64

text \<open>\<open>xxh3\<close> stands for the 128-bit hash of the external crate.\<close>

definition Xxh3_compute :: "(bytes \<Rightarrow> 128 word) \<Rightarrow> bytes \<Rightarrow> Xxh3Checksum128" where
  "Xxh3_compute xxh3 data = \<lparr>x3_low = ucast (xxh3 data), x3_high = ucast (drop_bit 64 (xxh3 data))\<rparr>"

definition Xxh3_to_le_bytes :: "Xxh3Checksum128 \<Rightarrow> bytes" where
  "Xxh3_to_le_bytes d = to_le 8 (x3_low d) @ to_le 8 (x3_high d)"

definition read_xxh3_from_bytes :: "bytes \<Rightarrow> Xxh3Checksum128" where
  "read_xxh3_from_bytes bs = \<lparr>x3_low = from_le (take 8 bs), x3_high = from_le (take 8 (drop 8 bs))\<rparr>"

definition write_page_checksum :: "(bytes \<Rightarrow> 128 word) \<Rightarrow> bytes \<Rightarrow> FrankenError + (Xxh3Checksum128 \<times> bytes)" where
  "write_page_checksum xxh3 page =
     (if length page < PAGE_CHECKSUM_RESERVED_BYTES then Inl (WalCorrupt ''page too small for checksum trailer'')
      else
        let payload_end = length page - PAGE_CHECKSUM_RESERVED_BYTES;
            digest = Xxh3_compute xxh3 (take payload_end page) in
        Inr (digest, put payload_end (Xxh3_to_le_bytes digest) page))"

definition read_page_checksum :: "bytes \<Rightarrow> FrankenError + Xxh3Checksum128" where
  "read_page_checksum page =
     (if length page < PAGE_CHECKSUM_RESERVED_BYTES then Inl (WalCorrupt ''page too small for checksum trailer'')
      else
        let checksum_start = length page - PAGE_CHECKSUM_RESERVED_BYTES in
        Inr (read_xxh3_from_bytes (subslice checksum_start (checksum_start + PAGE_CHECKSUM_RESERVED_BYTES) page)))"

definition verify_page_checksum :: "(bytes \<Rightarrow> 128 word) \<Rightarrow> bytes \<Rightarrow> FrankenError + bool" where
  "verify_page_checksum xxh3 page =
     (if length page < PAGE_CHECKSUM_RESERVED_BYTES then Inl (WalCorrupt ''page too small for checksum trailer'')
      else
        let payload_end = length page - PAGE_CHECKSUM_RESERVED_BYTES;
            expected = Xxh3_compute xxh3 (take payload_end page) in
        bind_err (read_page_checksum page) (\<lambda>actual. Inr (actual = expected)))"

datatype ChecksumFailureKind =
  WalFrameChecksumMismatch | Xxh3PageChecksumMismatch | Crc32cSymbolMismatch | DbFileCorruption

datatype RecoveryAction =
  AttemptWalFecRepair | TruncateWalAtFirstInvalidFrame | EvictCacheAndRetryFromWal
| ExcludeCorruptedSymbolAndContinue | ReportPersistentCorruption

datatype WalFecRepairOutcome = Repaired | InsufficientSymbols | SourceHashMismatch

datatype WalRecoveryDecision = RepairedFrame | Truncated

definition recovery_action_for_checksum_failure ::
  "ChecksumFailureKind \<Rightarrow> nat option \<Rightarrow> nat option \<Rightarrow> RecoveryAction" where
  "recovery_action_for_checksum_failure failure surviving_symbols required_symbols =
     (case failure of
        WalFrameChecksumMismatch \<Rightarrow>
          (case (surviving_symbols, required_symbols) of
             (Some surviving, Some required) \<Rightarrow>
               if surviving \<ge> required then AttemptWalFecRepair else TruncateWalAtFirstInvalidFrame
           | _ \<Rightarrow> TruncateWalAtFirstInvalidFrame)
      | Xxh3PageChecksumMismatch \<Rightarrow> EvictCacheAndRetryFromWal
      | Crc32cSymbolMismatch \<Rightarrow> ExcludeCorruptedSymbolAndContinue
      | DbFileCorruption \<Rightarrow> ReportPersistentCorruption)"

definition attempt_wal_fec_repair ::
  "(bytes \<Rightarrow> 128 word) \<Rightarrow> bytes \<Rightarrow> Xxh3Checksum128 \<Rightarrow> nat \<Rightarrow> nat \<Rightarrow> WalFecRepairOutcome" where
  "attempt_wal_fec_repair xxh3 reconstructed_payload expected_source_hash surviving_symbols required_symbols =
     (if surviving_symbols < required_symbols then InsufficientSymbols
      else if Xxh3_compute xxh3 reconstructed_payload = expected_source_hash then Repaired else SourceHashMismatch)"

definition recover_wal_frame_checksum_mismatch ::
  "(bytes \<Rightarrow> 128 word) \<Rightarrow> bytes option \<Rightarrow> Xxh3Checksum128 option \<Rightarrow> nat \<Rightarrow> nat \<Rightarrow> WalRecoveryDecision" where
  "recover_wal_frame_checksum_mismatch xxh3 reconstructed_payload expected_source_hash surviving_symbols required_symbols =
     (let action = recovery_action_for_checksum_failure WalFrameChecksumMismatch (Some surviving_symbols) (Some required_symbols) in
      if action \<noteq> AttemptWalFecRepair then Truncated
      else case (reconstructed_payload, expected_source_hash) of
        (Some payload, Some expected_hash) \<Rightarrow>
          (case attempt_wal_fec_repair xxh3 payload expected_hash surviving_symbols required_symbols of
             Repaired \<Rightarrow> RepairedFrame | InsufficientSymbols \<Rightarrow> Truncated | SourceHashMismatch \<Rightarrow> Truncated)
      | _ \<Rightarrow> Truncated)"

section \<open>The affine transform\<close>

definition mat_apply :: "mat2 \<Rightarrow> u32 \<times> u32 \<Rightarrow> u32 \<times> u32" where
  "mat_apply m v = (case m of (m11, m12, m21, m22) \<Rightarrow> case v of (x, y) \<Rightarrow> (m11 * x + m12 * y, m21 * x + m22 * y))"

lemma mat_multiply_apply: "mat_apply (mat_multiply m n) v = mat_apply m (mat_apply n v)"
  by (cases m; cases n; cases v) (simp add: mat_apply_def algebra_simps)

lemma mat_multiply_assoc: "mat_multiply (mat_multiply l m) n = mat_multiply l (mat_multiply m n)"
  by (cases l; cases m; cases n) (simp add: algebra_simps)

primrec mat_pow :: "mat2 \<Rightarrow> nat \<Rightarrow> mat2" where
  "mat_pow m 0 = (1, 0, 0, 1)"
| "mat_pow m (Suc n) = mat_multiply m (mat_pow m n)"

lemma mat_pow_add: "mat_pow m (j + k) = mat_multiply (mat_pow m j) (mat_pow m k)"
proof (induction j)
  case 0
  show ?case by (cases "mat_pow m k") simp
next
  case (Suc j)
  then show ?case by (simp add: mat_multiply_assoc)
qed

lemma mat_pow_Suc_right: "mat_pow m (Suc n) = mat_multiply (mat_pow m n) m"
proof -
  have "mat_pow m 1 = m" by (cases m) simp
  then show ?thesis using mat_pow_add [of m n 1] by (simp only: Suc_eq_plus1)
qed

lemma mat_pow_double: "mat_pow (mat_multiply m m) n = mat_pow m (2 * n)"
  by (induction n) (simp_all add: mat_multiply_assoc)

text \<open>Square and multiply.\<close>

lemma coefficients_loop_pow: "coefficients_loop n r b = mat_multiply r (mat_pow b n)"
proof (induction n r b rule: coefficients_loop.induct)
  case (1 n r b)
  show ?case
  proof (cases "n = 0")
    case True
    then show ?thesis by (subst coefficients_loop.simps) (cases r; simp)
  next
    case False
    let ?r = "if n mod 2 = 1 then mat_multiply r b else r" and ?b = "if n div 2 \<noteq> 0 then mat_multiply b b else b"
    have "coefficients_loop n r b = coefficients_loop (n div 2) ?r ?b"
      using False by (subst coefficients_loop.simps) (simp add: Let_def)
    also have "\<dots> = mat_multiply ?r (mat_pow ?b (n div 2))" using "1.IH" [OF False refl refl refl] .
    also have "mat_pow ?b (n div 2) = mat_pow b (2 * (n div 2))" by (auto simp: mat_pow_double)
    also have "mat_multiply ?r \<dots> = mat_multiply r (mat_pow b (n mod 2 + 2 * (n div 2)))"
    proof (cases "n mod 2 = 1")
      case True
      then show ?thesis by (simp add: mat_multiply_assoc)
    next
      case F: False
      then have "n mod 2 = 0" by simp
      then show ?thesis by simp
    qed
    finally show ?thesis by simp
  qed
qed

lemma linear_coefficients_pow: "linear_coefficients_for_chunk_count n = mat_pow (1, 1, 1, 2) n"
  by (cases "mat_pow (1, 1, 1, 2) n") (simp add: linear_coefficients_for_chunk_count_def coefficients_loop_pow)

text \<open>The rolling checksum is affine in its seed: one chunk multiplies the seed by the matrix and
  adds what the chunk contributes to a zero seed.\<close>

lemma checksum_loop_affine:
  assumes "8 dvd length data"
  shows "checksum_loop be (x + a) (y + b) data =
    (fst (mat_apply (mat_pow (1, 1, 1, 2) (length data div 8)) (x, y)) + fst (checksum_loop be a b data),
     snd (mat_apply (mat_pow (1, 1, 1, 2) (length data div 8)) (x, y)) + snd (checksum_loop be a b data))"
  using assms
proof (induction be a b data arbitrary: x y rule: checksum_loop.induct)
  case (1 be a b data)
  show ?case
  proof (cases "length data < 8")
    case True
    then show ?thesis using "1.prems" by (subst (1 2 3) checksum_loop.simps) (auto simp: mat_apply_def dvd_imp_le)
  next
    case False
    let ?x0 = "decode_u32_words (take 4 data) be" and ?x1 = "decode_u32_words (take 4 (drop 4 data)) be"
    let ?a = "a + ?x0 + b" and ?M = "(1, 1, 1, 2) :: mat2"
    let ?b = "b + ?x1 + ?a" and ?n = "length (drop 8 data) div 8"
    have n: "length data div 8 = Suc ?n" using False by simp
    have "checksum_loop be (x + a) (y + b) data = checksum_loop be ((x + y) + ?a) ((x + 2 * y) + ?b) (drop 8 data)"
      using False by (subst checksum_loop.simps) (simp add: Let_def algebra_simps)
    also have "\<dots> = (fst (mat_apply (mat_pow ?M ?n) (x + y, x + 2 * y)) + fst (checksum_loop be ?a ?b (drop 8 data)),
       snd (mat_apply (mat_pow ?M ?n) (x + y, x + 2 * y)) + snd (checksum_loop be ?a ?b (drop 8 data)))"
      using "1.prems" False by (intro "1.IH") (auto simp: Let_def)
    also have "(x + y, x + 2 * y) = mat_apply ?M (x, y)" by (simp add: mat_apply_def)
    also have "checksum_loop be ?a ?b (drop 8 data) = checksum_loop be a b data"
      using False by (subst (2) checksum_loop.simps) (simp add: Let_def)
    also have "mat_apply (mat_pow ?M ?n) (mat_apply ?M (x, y)) = mat_apply (mat_pow ?M (length data div 8)) (x, y)"
      by (simp only: n mat_pow_Suc_right mat_multiply_apply)
    finally show ?thesis .
  qed
qed

lemma from_aligned_apply:
  assumes "length data mod 8 = 0"
  shows "\<exists>t. from_aligned_bytes data be = Inr t \<and>
    Inr (transform_apply t seed) = sqlite_wal_checksum data (ck_s1 seed) (ck_s2 seed) be"
proof -
  obtain m11 m12 m21 m22 where m: "mat_pow (1, 1, 1, 2) (length data div 8) = (m11, m12, m21, m22)"
    by (metis prod_cases4)
  obtain a b where ab: "checksum_loop be 0 0 data = (a, b)" by fastforce
  have "8 dvd length data" using assms by (simp add: mod_eq_0_iff_dvd)
  from checksum_loop_affine [OF this, of be "ck_s1 seed" 0 "ck_s2 seed" 0]
  show ?thesis
    using assms m ab
    by (simp add: from_aligned_bytes_def linear_coefficients_pow sqlite_wal_checksum_def transform_apply_def mat_apply_def)
qed

lemma transform_then_apply: "transform_apply (transform_then t u) seed = transform_apply u (transform_apply t seed)"
  by (simp add: transform_apply_def transform_then_def algebra_simps)

lemma frame_transform_apply:
  assumes "for_wal_frame frame ps be = Inr w"
  shows "compute_wal_frame_checksum frame ps seed be = Inr (transform_apply w seed)"
proof -
  obtain a b where w: "ensure_frame_len frame ps = Inr ()" "from_aligned_bytes (take 8 frame) be = Inr a"
      "from_aligned_bytes (subslice WAL_FRAME_HEADER_SIZE (WAL_FRAME_HEADER_SIZE + ps) frame) be = Inr b" "w = transform_then a b"
    using assms by (auto simp: for_wal_frame_def bind_err_Inr)
  have A: "sqlite_wal_checksum d (ck_s1 s) (ck_s2 s) be = Inr (transform_apply t s)" if "from_aligned_bytes d be = Inr t" for d t s
    using from_aligned_apply [of d be s] that by (auto simp: from_aligned_bytes_def split: if_splits)
  show ?thesis
    using w A [OF w(2), of seed] A [OF w(3), of "transform_apply a seed"]
    by (simp add: compute_wal_frame_checksum_def transform_then_apply)
qed

lemma transform_identity_apply: "transform_apply transform_identity seed = seed"
  by (simp add: transform_apply_def transform_identity_def)

section \<open>Frames\<close>

definition frame_salts :: "bytes \<Rightarrow> WalSalts" where
  "frame_salts f = \<lparr>salt1 = read_be_u32_at f 8, salt2 = read_be_u32_at f 12\<rparr>"

definition frame_checksum :: "bytes \<Rightarrow> SqliteWalChecksum" where
  "frame_checksum f = \<lparr>ck_s1 = read_be_u32_at f 16, ck_s2 = read_be_u32_at f 20\<rparr>"

definition frame_commits :: "bytes \<Rightarrow> bool" where
  "frame_commits f \<longleftrightarrow> read_be_u32_at f 4 > 0"

lemma read_be_u32_take: "off + 4 \<le> n \<Longrightarrow> read_be_u32_at (take n bs) off = read_be_u32_at bs off"
  by (simp add: read_be_u32_at_def subslice_def drop_take min_def)

lemma frame_readers:
  assumes "24 \<le> length f"
  shows "read_wal_frame_salts (take WAL_FRAME_HEADER_SIZE f) = Inr (frame_salts f)"
    "read_wal_frame_checksum (take WAL_FRAME_HEADER_SIZE f) = Inr (frame_checksum f)"
    "wal_frame_db_size (take WAL_FRAME_HEADER_SIZE f) = Inr (read_be_u32_at f 4)"
  using assms by (simp_all add: read_wal_frame_salts_def read_wal_frame_checksum_def wal_frame_db_size_def ensure_min_len_def
      WAL_FRAME_HEADER_SIZE_def frame_salts_def frame_checksum_def read_be_u32_take)

lemma valid_page_size_facts:
  assumes "ensure_valid_wal_page_size ps = Inr u"
  shows "ps mod 8 = 0" "0 < ps" "ps < 2 ^ 32"
proof -
  have ps: "ps < 2 ^ 32" "PageSize_new (word_of_nat ps) \<noteq> None"
    using assms by (auto simp: ensure_valid_wal_page_size_def split: if_splits)
  then have "valid_page_size (word_of_nat ps)" using PageSize_new_Some by auto
  moreover have "unat (word_of_nat ps :: u32) = ps" using ps(1) by (simp add: unsigned_of_nat take_bit_nat_eq_self)
  ultimately have "ps \<in> {512, 1024, 2048, 4096, 8192, 16384, 32768, 65536}" by (auto simp: valid_page_size_def)
  then show "ps mod 8 = 0" "0 < ps" by auto
  show "ps < 2 ^ 32" by (rule ps(1))
qed

lemma compute_total:
  assumes "ensure_valid_wal_page_size ps = Inr u" "length f = 24 + ps"
  shows "\<exists>ck. compute_wal_frame_checksum f ps prev be = Inr ck"
  using assms valid_page_size_facts [OF assms(1)]
  by (auto simp: compute_wal_frame_checksum_def ensure_frame_len_def ensure_min_len_def WAL_FRAME_HEADER_SIZE_def
      sqlite_wal_checksum_def split: prod.splits)

lemma frame_transform_total:
  assumes "ensure_valid_wal_page_size ps = Inr u" "length f = 24 + ps"
  shows "\<exists>t. for_wal_frame f ps be = Inr t"
proof -
  have "length (subslice 24 (24 + ps) f) mod 8 = 0" using assms valid_page_size_facts(1) [OF assms(1)] by simp
  then obtain a where a: "from_aligned_bytes (subslice 24 (24 + ps) f) be = Inr a"
    using from_aligned_apply [of "subslice 24 (24 + ps) f" be] by auto
  have "length (take 8 f) mod 8 = 0" using assms(2) by simp
  then obtain b where b: "from_aligned_bytes (take 8 f) be = Inr b"
    using from_aligned_apply [of "take 8 f" be] by auto
  show ?thesis using assms a b
    by (simp add: for_wal_frame_def ensure_frame_len_def ensure_min_len_def WAL_FRAME_HEADER_SIZE_def)
qed

definition frame_ok :: "nat \<Rightarrow> bool \<Rightarrow> WalSalts \<Rightarrow> SqliteWalChecksum \<Rightarrow> bytes \<Rightarrow> bool" where
  "frame_ok ps be salts prev f \<longleftrightarrow>
     frame_salts f = salts \<and> compute_wal_frame_checksum f ps prev be = Inr (frame_checksum f)"

text \<open>How many frames from the front carry the salts and continue the checksum chain.\<close>

fun valid_prefix :: "nat \<Rightarrow> bool \<Rightarrow> WalSalts \<Rightarrow> SqliteWalChecksum \<Rightarrow> bytes list \<Rightarrow> nat" where
  "valid_prefix ps be salts prev [] = 0"
| "valid_prefix ps be salts prev (f # fs) =
     (if frame_ok ps be salts prev f then Suc (valid_prefix ps be salts (frame_checksum f) fs) else 0)"

text \<open>The replay boundary after a list of accepted frames.\<close>

fun replay_end :: "nat \<Rightarrow> nat \<Rightarrow> bytes list \<Rightarrow> nat" where
  "replay_end r i [] = r"
| "replay_end r i (f # fs) = replay_end (if frame_commits f then i + 1 else r) (i + 1) fs"

definition frames_of :: "nat \<Rightarrow> bytes \<Rightarrow> bytes list" where
  "frames_of fs bs = map (\<lambda>i. subslice (i * fs) (i * fs + fs) bs) [0..<length bs div fs]"

lemma length_frames_of [simp]: "length (frames_of fs bs) = length bs div fs"
  by (simp add: frames_of_def)

lemma nth_frames_of: "i < length bs div fs \<Longrightarrow> frames_of fs bs ! i = subslice (i * fs) (i * fs + fs) bs"
  by (simp add: frames_of_def)

lemma frame_length:
  assumes "i < length bs div fs"
  shows "length (frames_of fs bs ! i) = fs"
proof -
  have "Suc i * fs \<le> length bs div fs * fs" using assms by (intro mult_le_mono1) simp
  then have "i * fs + fs \<le> length bs" using div_times_less_eq_dividend [of "length bs" fs] unfolding mult_Suc by linarith
  then show ?thesis using assms by (simp add: nth_frames_of)
qed

lemma valid_prefix_le: "valid_prefix ps be salts prev fs \<le> length fs"
  by (induction fs arbitrary: prev) auto

definition stop_reason :: "WalSalts \<Rightarrow> bytes list \<Rightarrow> nat \<Rightarrow> nat \<Rightarrow> WalChainInvalidReason option" where
  "stop_reason salts F v tail =
     (if v < length F then Some (if frame_salts (F ! v) \<noteq> salts then SaltMismatch else FrameChecksumMismatch)
      else if tail \<noteq> 0 then Some TruncatedFrame else None)"

lemma chain_loop_spec:
  assumes ps: "ensure_valid_wal_page_size ps = Inr u"
    and F: "F = frames_of (24 + ps) bs" and i: "i \<le> length F"
    and v: "v = i + valid_prefix ps be salts prev (drop i F)"
  shows "chain_loop ps be salts bs i i r (if r = 0 then None else Some (r - 1)) prev =
    (let r' = replay_end r i (take (v - i) (drop i F)); why = stop_reason salts F v (length bs mod (24 + ps)) in
     Inr (from_core (why = None) v r' (if why = None then None else Some v) why (if r' = 0 then None else Some (r' - 1)) (24 + ps)))"
  using i v
proof (induction "length F - i" arbitrary: i r prev)
  case 0
  then have "i = length F" by simp
  then show ?case using 0 F
    by (subst chain_loop.simps) (simp add: WAL_FRAME_HEADER_SIZE_def stop_reason_def Let_def)
next
  case (Suc n)
  then have i: "i < length bs div (24 + ps)" using F by simp
  let ?f = "F ! i" and ?fs = "24 + ps"
  have fr: "subslice (i * ?fs) (i * ?fs + ?fs) bs = ?f" using nth_frames_of [OF i] F by simp
  have len: "length ?f = 24 + ps" using frame_length [OF i] F by simp
  obtain ck where ck: "compute_wal_frame_checksum ?f ps prev be = Inr ck" using compute_total [OF ps len] by blast
  note rd = frame_readers [of ?f]
  have dr: "drop i F = ?f # drop (Suc i) F" using i F by (simp add: Cons_nth_drop_Suc)
  have step: "chain_loop ps be salts bs i i r l prev =
     (if frame_salts ?f \<noteq> salts then Inr (from_core False i r (Some i) (Some SaltMismatch) l ?fs)
      else if frame_checksum ?f \<noteq> ck then Inr (from_core False i r (Some i) (Some FrameChecksumMismatch) l ?fs)
      else if frame_commits ?f then chain_loop ps be salts bs (Suc i) (Suc i) (Suc i) (Some i) (frame_checksum ?f)
      else chain_loop ps be salts bs (Suc i) (Suc i) r l (frame_checksum ?f))" for l
    using i len ck rd fr
    by (subst chain_loop.simps) (simp add: WAL_FRAME_HEADER_SIZE_def Let_def frame_commits_def)
  show ?case
  proof (cases "frame_ok ps be salts prev ?f")
    case True
    let ?r = "if frame_commits ?f then Suc i else r"
    have vp: "v = Suc i + valid_prefix ps be salts (frame_checksum ?f) (drop (Suc i) F)" using Suc.prems(2) dr True by simp
    have "chain_loop ps be salts bs i i r (if r = 0 then None else Some (r - 1)) prev =
        chain_loop ps be salts bs (Suc i) (Suc i) ?r (if ?r = 0 then None else Some (?r - 1)) (frame_checksum ?f)"
      using True ck step by (simp add: frame_ok_def)
    also have "\<dots> = (let r' = replay_end ?r (Suc i) (take (v - Suc i) (drop (Suc i) F)); why = stop_reason salts F v (length bs mod (24 + ps)) in
     Inr (from_core (why = None) v r' (if why = None then None else Some v) why (if r' = 0 then None else Some (r' - 1)) (24 + ps)))"
      using Suc.hyps(2) i F vp by (intro Suc.hyps(1)) auto
    also have "replay_end ?r (Suc i) (take (v - Suc i) (drop (Suc i) F)) = replay_end r i (take (v - i) (drop i F))"
      using vp dr by (simp add: Suc_diff_le)
    finally show ?thesis .
  next
    case False
    then have "v = i" using Suc.prems(2) dr by simp
    then show ?thesis using False step ck i F
      by (auto simp: frame_ok_def stop_reason_def Let_def from_core_def)
  qed
qed

lemma replay_end_spec:
  assumes "r \<le> i"
  shows "r \<le> replay_end r i fs \<and> replay_end r i fs \<le> i + length fs \<and>
    (\<forall>j < length fs. replay_end r i fs \<le> i + j \<longrightarrow> \<not> frame_commits (fs ! j)) \<and>
    (replay_end r i fs = r \<or> (i < replay_end r i fs \<and> frame_commits (fs ! (replay_end r i fs - 1 - i))))"
  using assms
proof (induction fs arbitrary: r i)
  case (Cons f fs)
  let ?r = "if frame_commits f then i + 1 else r"
  note IH = Cons.IH [of ?r "i + 1"]
  let ?R = "replay_end ?r (i + 1) fs"
  have IH': "?r \<le> ?R" "?R \<le> i + 1 + length fs" "\<And>j. j < length fs \<Longrightarrow> ?R \<le> i + 1 + j \<Longrightarrow> \<not> frame_commits (fs ! j)"
    "?R = ?r \<or> (i + 1 < ?R \<and> frame_commits (fs ! (?R - 1 - (i + 1))))" using IH Cons.prems by auto
  have "\<not> frame_commits ((f # fs) ! j)" if "j < length (f # fs)" "?R \<le> i + j" for j
    using that IH'(1,3) by (cases j) (auto split: if_splits)
  moreover have "?R = r \<or> (i < ?R \<and> frame_commits ((f # fs) ! (?R - 1 - i)))"
    using IH'(4) by (auto simp: nth_Cons' split: if_splits)
  moreover have "r \<le> ?R" using IH'(1) Cons.prems by (auto split: if_splits)
  ultimately show ?case using IH'(2) by simp
qed simp

section \<open>Written headers and frames\<close>

lemma wal_be_field: "off + 4 \<le> length bs \<Longrightarrow> read_be_u32_at (write_be_u32_at off v bs) off = v"
  by (simp add: read_be_u32_at_def write_be_u32_at_def subslice_put_same from_be_to_be_full)

lemma be_field_other:
  "off + 4 \<le> length bs \<Longrightarrow> off' + 4 \<le> off \<or> off + 4 \<le> off' \<Longrightarrow> read_be_u32_at (write_be_u32_at off v bs) off' = read_be_u32_at bs off'"
  by (simp add: read_be_u32_at_def write_be_u32_at_def subslice_put_other)

lemma length_write_be [simp]: "off + 4 \<le> length bs \<Longrightarrow> length (write_be_u32_at off v bs) = length bs"
  by (simp add: write_be_u32_at_def)

lemma read_fields:
  assumes "fields_ok 0 (length bs) fs" "(off, to_be 4 v) \<in> set fs"
  shows "read_be_u32_at (put_fields fs bs) off = v"
  using subslice_put_fields [OF assms] by (simp add: read_be_u32_at_def from_be_to_be_full)

lemma frame_header_roundtrip: "WalFrameHeader_from_bytes (WalFrameHeader_to_bytes h @ rest) = Inr h"
proof -
  let ?fs = "[(0, to_be 4 (fh_page_number h)), (4, to_be 4 (fh_db_size h)),
       (8, to_be 4 (salt1 (fh_salts h))), (12, to_be 4 (salt2 (fh_salts h))),
       (16, to_be 4 (ck_s1 (fh_checksum h))), (20, to_be 4 (ck_s2 (fh_checksum h)))]"
  have ok: "fields_ok 0 (length (replicate WAL_FRAME_HEADER_SIZE (0::u8))) ?fs" by (simp add: WAL_FRAME_HEADER_SIZE_def)
  have l: "length (WalFrameHeader_to_bytes h) = 24"
    using length_put_fields [OF ok] by (simp add: WalFrameHeader_to_bytes_def WAL_FRAME_HEADER_SIZE_def)
  have r: "read_be_u32_at (WalFrameHeader_to_bytes h @ rest) off = v" if "(off, to_be 4 v) \<in> set ?fs" "off \<le> 20" for off v
    using read_fields [OF ok that(1)] that(2) l
    by (simp add: WalFrameHeader_to_bytes_def read_be_u32_at_def subslice_append_left)
  show ?thesis
    using l r [of 0] r [of 4] r [of 8] r [of 12] r [of 16] r [of 20]
    by (cases h; cases "fh_salts h"; cases "fh_checksum h") (simp add: WalFrameHeader_from_bytes_def WAL_FRAME_HEADER_SIZE_def del: put_fields_simps)
qed

lemma length_frame_header [simp]: "length (WalFrameHeader_to_bytes h) = 24"
  by (simp add: WalFrameHeader_to_bytes_def WAL_FRAME_HEADER_SIZE_def)

text \<open>Writing the checksum fields touches neither the bytes the checksum covers nor the salts.\<close>

lemma written_frame:
  assumes ps: "ensure_valid_wal_page_size ps = Inr u" and len: "length f = 24 + ps"
  shows "\<exists>ck f'. write_wal_frame_checksum f ps prev be = Inr (ck, f') \<and> length f' = 24 + ps \<and> frame_checksum f' = ck \<and>
    frame_salts f' = frame_salts f \<and> frame_commits f' = frame_commits f \<and> drop 24 f' = drop 24 f \<and>
    compute_wal_frame_checksum f' ps prev be = Inr ck"
proof -
  obtain ck where ck: "compute_wal_frame_checksum f ps prev be = Inr ck" using compute_total [OF ps len] by blast
  let ?f1 = "write_be_u32_at 16 (ck_s1 ck) f"
  let ?f2 = "write_be_u32_at 20 (ck_s2 ck) ?f1"
  have l: "length ?f1 = 24 + ps" "length ?f2 = 24 + ps" using len by simp_all
  have t: "take 8 ?f2 = take 8 f" "drop 24 ?f2 = drop 24 f"
    using len by (simp_all add: write_be_u32_at_def put_def)
  then have s: "subslice 24 (24 + ps) ?f2 = subslice 24 (24 + ps) f" by (simp add: subslice_def)
  have "compute_wal_frame_checksum ?f2 ps prev be = compute_wal_frame_checksum f ps prev be"
    using t(1) s l(2) len by (simp add: compute_wal_frame_checksum_def ensure_frame_len_def ensure_min_len_def WAL_FRAME_HEADER_SIZE_def)
  moreover have "write_wal_frame_checksum f ps prev be = Inr (ck, ?f2)"
    using ck len by (simp add: write_wal_frame_checksum_def write_wal_frame_checksum_fields_def ensure_min_len_def WAL_FRAME_HEADER_SIZE_def)
  moreover have "frame_checksum ?f2 = ck" "frame_salts ?f2 = frame_salts f" "frame_commits ?f2 = frame_commits f"
    using len l(1) by (simp_all add: frame_checksum_def frame_salts_def frame_commits_def wal_be_field be_field_other)
  ultimately show ?thesis using ck l t by auto
qed

text \<open>A log as the writer produces it: headers and pages, each frame checksummed over the previous.\<close>

fun wal_frames :: "nat \<Rightarrow> bool \<Rightarrow> SqliteWalChecksum \<Rightarrow> (WalFrameHeader \<times> bytes) list \<Rightarrow> bytes list" where
  "wal_frames ps be prev [] = []"
| "wal_frames ps be prev ((h, page) # xs) =
     (case write_wal_frame_checksum (WalFrameHeader_to_bytes h @ page) ps prev be of
        Inl _ \<Rightarrow> [] | Inr (ck, f) \<Rightarrow> f # wal_frames ps be ck xs)"

lemma written_fields:
  "frame_salts (WalFrameHeader_to_bytes h @ page) = fh_salts h"
  "frame_commits (WalFrameHeader_to_bytes h @ page) \<longleftrightarrow> fh_db_size h > 0"
proof -
  have e: "projr (WalFrameHeader_from_bytes (WalFrameHeader_to_bytes h @ page)) = h"
    by (simp add: frame_header_roundtrip)
  show "frame_salts (WalFrameHeader_to_bytes h @ page) = fh_salts h"
    using arg_cong [OF e, of fh_salts] by (simp add: WalFrameHeader_from_bytes_def WAL_FRAME_HEADER_SIZE_def frame_salts_def)
  show "frame_commits (WalFrameHeader_to_bytes h @ page) \<longleftrightarrow> fh_db_size h > 0"
    using arg_cong [OF e, of fh_db_size] by (simp add: WalFrameHeader_from_bytes_def WAL_FRAME_HEADER_SIZE_def frame_commits_def)
qed

lemma wal_frames_spec:
  assumes "ensure_valid_wal_page_size ps = Inr u" "\<forall>(h, page) \<in> set xs. fh_salts h = salts \<and> length page = ps"
  shows "length (wal_frames ps be prev xs) = length xs \<and> (\<forall>f \<in> set (wal_frames ps be prev xs). length f = 24 + ps) \<and>
    (\<forall>i < length xs. frame_commits (wal_frames ps be prev xs ! i) \<longleftrightarrow> fh_db_size (fst (xs ! i)) > 0) \<and>
    (\<forall>i < length xs. drop 24 (wal_frames ps be prev xs ! i) = snd (xs ! i)) \<and>
    valid_prefix ps be salts prev (take m (wal_frames ps be prev xs)) = min m (length xs)"
  using assms(2)
proof (induction xs arbitrary: prev m)
  case (Cons x xs)
  obtain h page where x: "x = (h, page)" by (cases x)
  have hp: "fh_salts h = salts" "length page = ps" using Cons.prems x by auto
  then have "length (WalFrameHeader_to_bytes h @ page) = 24 + ps" by simp
  from written_frame [OF assms(1) this] obtain ck f where
    w: "write_wal_frame_checksum (WalFrameHeader_to_bytes h @ page) ps prev be = Inr (ck, f)"
    and f: "length f = 24 + ps" "frame_checksum f = ck" "frame_salts f = frame_salts (WalFrameHeader_to_bytes h @ page)"
      "frame_commits f = frame_commits (WalFrameHeader_to_bytes h @ page)" "drop 24 f = drop 24 (WalFrameHeader_to_bytes h @ page)"
      "compute_wal_frame_checksum f ps prev be = Inr ck" by blast
  have ok: "frame_ok ps be salts prev f" using f hp written_fields(1) by (simp add: frame_ok_def)
  have IH: "length (wal_frames ps be ck xs) = length xs \<and> (\<forall>f \<in> set (wal_frames ps be ck xs). length f = 24 + ps) \<and>
    (\<forall>i < length xs. frame_commits (wal_frames ps be ck xs ! i) \<longleftrightarrow> fh_db_size (fst (xs ! i)) > 0) \<and>
    (\<forall>i < length xs. drop 24 (wal_frames ps be ck xs ! i) = snd (xs ! i)) \<and>
    valid_prefix ps be salts ck (take (m - 1) (wal_frames ps be ck xs)) = min (m - 1) (length xs)"
    using Cons.prems by (intro Cons.IH) auto
  have "frame_commits f \<longleftrightarrow> fh_db_size h > 0" "drop 24 f = page" using f(4,5) written_fields(2) by simp_all
  then show ?case using IH f(1,2) ok w x
    by (cases m) (auto simp: nth_Cons split: nat.splits)
qed simp

lemma frames_of_concat:
  assumes "\<forall>f \<in> set fs. length f = k" "0 < k"
  shows "frames_of k (take n (concat fs)) = take (n div k) fs"
proof -
  have lc: "length (concat fs) = length fs * k" using assms(1) by (induction fs) auto
  have nth: "subslice (i * k) (i * k + k) (concat fs) = fs ! i" if "i < length fs" for i
    using assms(1) that
  proof (induction fs arbitrary: i)
    case (Cons f fs)
    show ?case
    proof (cases i)
      case 0
      then show ?thesis using Cons.prems(1) by (simp add: subslice_def)
    next
      case (Suc j)
      then have "subslice (i * k) (i * k + k) (concat (f # fs)) = subslice (j * k) (j * k + k) (concat fs)"
        using Cons.prems(1) by (simp add: subslice_def)
      then show ?thesis using Cons Suc by simp
    qed
  qed simp
  have len: "length (take n (concat fs)) div k = min (n div k) (length fs)"
    using assms(2) by (simp add: lc min_def div_le_mono) (metis assms(2) div_le_mono nonzero_mult_div_cancel_right not_gr0 order_antisym_conv linorder_linear)
  show ?thesis
  proof (rule nth_equalityI)
    show "length (frames_of k (take n (concat fs))) = length (take (n div k) fs)"
      using len by simp
    fix i assume "i < length (frames_of k (take n (concat fs)))"
    then have i: "i < n div k" "i < length fs" "i < length (take n (concat fs)) div k" using len by auto
    have "Suc i * k \<le> n div k * k" using i(1) by (intro mult_le_mono1) simp
    then have "i * k + k \<le> n" using div_times_less_eq_dividend [of n k] unfolding mult_Suc by linarith
    then have "subslice (i * k) (i * k + k) (take n (concat fs)) = subslice (i * k) (i * k + k) (concat fs)"
      by (simp add: subslice_def drop_take min_def)
    then show "frames_of k (take n (concat fs)) ! i = take (n div k) fs ! i"
      using nth [OF i(2)] i by (simp add: nth_frames_of)
  qed
qed

lemma header_image:
  assumes "PageSize_new (wh_page_size h) \<noteq> None"
  shows "\<exists>hb ck. WalHeader_to_bytes h = Inr hb \<and> length hb = 32 \<and>
    validate_wal_header_checksum hb (big_endian_checksum h) = Inr True \<and>
    read_wal_header_salts hb = Inr (wh_salts h) \<and> read_wal_header_checksum hb = Inr ck \<and>
    ((wh_magic h = WAL_MAGIC_LE \<or> wh_magic h = WAL_MAGIC_BE) \<and> wh_format_version h = WAL_FORMAT_VERSION \<longrightarrow>
      WalHeader_from_bytes hb = Inr (h\<lparr>wh_checksum := ck\<rparr>))"
proof -
  let ?fs = "[(0, to_be 4 (wh_magic h)), (4, to_be 4 (wh_format_version h)), (8, to_be 4 (wh_page_size h)),
    (12, to_be 4 (wh_checkpoint_seq h)), (16, to_be 4 (salt1 (wh_salts h))), (20, to_be 4 (salt2 (wh_salts h)))]"
  let ?z = "replicate WAL_HEADER_SIZE (0::u8)"
  define buf where "buf = put_fields ?fs ?z"
  have ok: "fields_ok 0 (length ?z) ?fs" by (simp add: WAL_HEADER_SIZE_def)
  have lb: "length buf = 32" using length_put_fields [OF ok] by (simp add: buf_def WAL_HEADER_SIZE_def)
  obtain ck where ck: "sqlite_wal_checksum (take 24 buf) 0 0 (big_endian_checksum h) = Inr ck"
    using lb by (fastforce simp: sqlite_wal_checksum_def split: prod.splits)
  let ?b1 = "write_be_u32_at 24 (ck_s1 ck) buf"
  let ?hb = "write_be_u32_at 28 (ck_s2 ck) ?b1"
  have to: "WalHeader_to_bytes h = Inr ?hb"
    using assms ck unfolding WalHeader_to_bytes_def buf_def [symmetric] Let_def
    by (simp add: ensure_valid_wal_header_page_size_def)
  have l: "length ?b1 = 32" "length ?hb = 32" using lb by simp_all
  have t: "take 24 ?hb = take 24 buf" using lb by (simp add: write_be_u32_at_def put_def)
  have f: "read_be_u32_at ?hb off = v" if "(off, to_be 4 v) \<in> set ?fs" "off \<le> 20" for off v
    using read_fields [OF ok that(1)] that(2) lb l(1) unfolding buf_def [symmetric] by (simp add: be_field_other)
  have s: "read_be_u32_at ?hb 24 = ck_s1 ck" "read_be_u32_at ?hb 28 = ck_s2 ck"
    using lb l(1) by (simp_all add: wal_be_field be_field_other)
  note fields = f [of 0] f [of 4] f [of 8] f [of 12] f [of 16] f [of 20]
  have ckh: "read_wal_header_checksum ?hb = Inr ck"
    using l(2) s by (simp add: read_wal_header_checksum_def ensure_min_len_def WAL_HEADER_SIZE_def)
  moreover have "validate_wal_header_checksum ?hb (big_endian_checksum h) = Inr True"
    using ckh ck t l(2) by (simp add: validate_wal_header_checksum_def wal_header_checksum_def ensure_min_len_def WAL_HEADER_SIZE_def)
  moreover have "read_wal_header_salts ?hb = Inr (wh_salts h)"
    using l(2) fields by (simp add: read_wal_header_salts_def ensure_min_len_def WAL_HEADER_SIZE_def)
  moreover have "WalHeader_from_bytes ?hb = Inr (h\<lparr>wh_checksum := ck\<rparr>)"
    if "wh_magic h = WAL_MAGIC_LE \<or> wh_magic h = WAL_MAGIC_BE" "wh_format_version h = WAL_FORMAT_VERSION"
    using that assms l(2) fields s
    by (auto simp: WalHeader_from_bytes_def WAL_HEADER_SIZE_def ensure_valid_wal_header_page_size_def Let_def
        intro!: WalHeader.equality)
  ultimately show ?thesis using to l(2) by blast
qed

text \<open>The result of validation in terms of the frames.\<close>

lemma validate_spec:
  assumes ps: "ensure_valid_wal_page_size ps = Inr u" and len: "32 \<le> length wal"
    and hdr: "validate_wal_header_checksum (take 32 wal) be = Inr True"
      "read_wal_header_salts (take 32 wal) = Inr salts" "read_wal_header_checksum (take 32 wal) = Inr ck"
    and F: "F = frames_of (24 + ps) (drop 32 wal)" and v: "v = valid_prefix ps be salts ck F"
    and r: "r = replay_end 0 0 (take v F)" and why: "why = stop_reason salts F v ((length wal - 32) mod (24 + ps))"
  shows "validate_wal_chain wal ps be =
    Inr (from_core (why = None) v r (if why = None then None else Some v) why (if r = 0 then None else Some (r - 1)) (24 + ps))"
proof -
  have "validate_wal_chain wal ps be = chain_loop ps be salts (drop 32 wal) 0 0 0 None ck"
    using ps len hdr by (simp add: validate_wal_chain_def ensure_min_len_def WAL_HEADER_SIZE_def Let_def)
  also have "\<dots> = Inr (from_core (why = None) v r (if why = None then None else Some v) why (if r = 0 then None else Some (r - 1)) (24 + ps))"
    using chain_loop_spec [OF ps F, of 0 v be salts ck 0] v r why by (simp add: Let_def)
  finally show ?thesis .
qed

section \<open>Properties\<close>

text \<open>A crash keeps exactly the committed prefix.  Take a log as the writer produces it, a header
  and any frames with the salts of the header and checksums chained by \<open>write_wal_frame_checksum\<close>,
  and cut it at any byte after the header.  Validation then accepts precisely the frames that are
  complete, reports a truncated frame exactly when the cut is inside one, and sets the replay
  boundary behind the last complete commit frame: no frame before it is lost, and no frame behind
  it, complete or not, belongs to a committed transaction.\<close>

theorem wal_crash_replay:
  assumes "WalHeader_to_bytes h = Inr hb" and "ps = unat (wh_page_size h)"
    and "\<forall>(fh, page) \<in> set xs. fh_salts fh = wh_salts h \<and> length page = ps"
    and "read_wal_header_checksum hb = Inr ck"
    and "wal = hb @ concat (wal_frames ps (big_endian_checksum h) ck xs)"
    and "32 \<le> n" "n \<le> length wal"
  shows "\<exists>v. validate_wal_chain (take n wal) ps (big_endian_checksum h) = Inr v \<and>
    cv_valid_frames v = (n - 32) div (24 + ps) \<and>
    cv_reason v = (if (n - 32) mod (24 + ps) = 0 then None else Some TruncatedFrame) \<and>
    cv_replayable_frames v \<le> cv_valid_frames v \<and>
    (0 < cv_replayable_frames v \<longrightarrow> fh_db_size (fst (xs ! (cv_replayable_frames v - 1))) > 0) \<and>
    (\<forall>i. cv_replayable_frames v \<le> i \<and> i < cv_valid_frames v \<longrightarrow> fh_db_size (fst (xs ! i)) = 0)"
proof -
  let ?be = "big_endian_checksum h" and ?fs = "24 + ps" and ?m = "(n - 32) div (24 + ps)"
  let ?F = "wal_frames ps ?be ck xs" and ?w = "take n wal"
  have pn: "PageSize_new (wh_page_size h) \<noteq> None"
    using assms(1) by (auto simp: WalHeader_to_bytes_def ensure_valid_wal_header_page_size_def split: if_splits)
  then have ps: "ensure_valid_wal_page_size ps = Inr ()"
    using assms(2) unat_u32_less [of "wh_page_size h"] by (simp add: ensure_valid_wal_page_size_def)
  have hb: "length hb = 32" "validate_wal_header_checksum hb ?be = Inr True" "read_wal_header_salts hb = Inr (wh_salts h)"
    using header_image [OF pn] assms(1) by auto
  have xs: "\<forall>(fh, page) \<in> set xs. fh_salts fh = wh_salts h \<and> length page = ps" by (rule assms(3))
  note W = wal_frames_spec [OF ps xs, of ?be ck]
  have t32: "take 32 ?w = hb" using assms(5,6) hb(1) by (simp add: min_def)
  have dr: "drop 32 ?w = take (n - 32) (concat ?F)" using assms(5,6) hb(1) by simp
  have "length (concat ?F) = length xs * ?fs" using W by (simp add: length_concat o_def sum_list_triv cong: map_cong)
  then have "n - 32 \<le> length xs * ?fs" using assms(5,7) hb(1) by simp
  then have mle: "?m \<le> length xs" by (metis div_le_mono div_mult_self_is_m add_gr_0 zero_less_numeral)
  have F: "frames_of ?fs (drop 32 ?w) = take ?m ?F" unfolding dr using W by (intro frames_of_concat) auto
  have v: "valid_prefix ps ?be (wh_salts h) ck (take ?m ?F) = ?m" using W mle by simp
  let ?r = "replay_end 0 0 (take ?m ?F)" and ?why = "stop_reason (wh_salts h) (take ?m ?F) ?m ((n - 32) mod ?fs)"
  have val: "validate_wal_chain ?w ps ?be =
      Inr (from_core (?why = None) ?m ?r (if ?why = None then None else Some ?m) ?why (if ?r = 0 then None else Some (?r - 1)) ?fs)"
    using validate_spec [OF ps, of ?w ?be "wh_salts h" ck, OF _ _ _ _ F [symmetric] refl refl refl] t32 hb assms(4,6,7) v W mle
    by simp
  have why: "?why = (if (n - 32) mod ?fs = 0 then None else Some TruncatedFrame)"
    using W mle by (simp add: stop_reason_def)
  have c: "frame_commits (take ?m ?F ! i) \<longleftrightarrow> fh_db_size (fst (xs ! i)) > 0" if "i < ?m" for i
    using W that mle by simp
  have "?r \<le> ?m" "\<And>j. j < ?m \<Longrightarrow> ?r \<le> j \<Longrightarrow> \<not> frame_commits (take ?m ?F ! j)"
    "0 < ?r \<Longrightarrow> frame_commits (take ?m ?F ! (?r - 1))"
    using replay_end_spec [of 0 0 "take ?m ?F"] W mle by auto
  then show ?thesis using val why c by (auto simp: from_core_def word_gt_0)
qed

theorem wal_crash_replay_witness:
  "\<exists>hb ck v. WalHeader_to_bytes \<lparr>wh_magic = WAL_MAGIC_LE, wh_format_version = WAL_FORMAT_VERSION, wh_page_size = 512,
        wh_checkpoint_seq = 0, wh_salts = \<lparr>salt1 = 1, salt2 = 2\<rparr>, wh_checksum = \<lparr>ck_s1 = 0, ck_s2 = 0\<rparr>\<rparr> = Inr hb \<and>
     read_wal_header_checksum hb = Inr ck \<and> validate_wal_chain (take 32 (hb @ [])) 512 False = Inr v \<and> cv_valid_frames v = 0"
proof -
  let ?h = "\<lparr>wh_magic = WAL_MAGIC_LE, wh_format_version = WAL_FORMAT_VERSION, wh_page_size = 512,
        wh_checkpoint_seq = 0, wh_salts = \<lparr>salt1 = 1, salt2 = 2\<rparr>, wh_checksum = \<lparr>ck_s1 = 0, ck_s2 = 0\<rparr>\<rparr>"
  have "PageSize_new 512 = Some 512" by (simp add: PageSize_new_Some valid_page_size_def)
  then obtain hb ck where hb: "WalHeader_to_bytes ?h = Inr hb" "length hb = 32" "read_wal_header_checksum hb = Inr ck"
    using header_image [of ?h] by auto
  moreover have "\<not> big_endian_checksum ?h" by (simp add: big_endian_checksum_def WAL_MAGIC_LE_def WAL_MAGIC_BE_def)
  ultimately show ?thesis using wal_crash_replay [OF hb(1) _ _ hb(3), of 512 "[]" "hb @ []" 32] by auto
qed

text \<open>What validation reports, for any bytes.  When the header checksum holds, the frames counted
  as valid carry the salts of the header and continue its checksum chain, each over the stored sum
  of the one before; the next full frame, if there is one, does not; and the replay boundary is
  the last commit frame among the valid ones, so that it never exceeds them.\<close>

theorem wal_replay_boundary:
  assumes "ensure_valid_wal_page_size ps = Inr u" "32 \<le> length wal"
    and "validate_wal_header_checksum (take 32 wal) be = Inr True"
    and "read_wal_header_salts (take 32 wal) = Inr salts" "read_wal_header_checksum (take 32 wal) = Inr ck"
    and "F = frames_of (24 + ps) (drop 32 wal)"
  shows "\<exists>v. validate_wal_chain wal ps be = Inr v \<and> cv_valid_frames v = valid_prefix ps be salts ck F \<and>
    (cv_valid v \<longleftrightarrow> cv_valid_frames v = length F \<and> 32 + length F * (24 + ps) = length wal) \<and>
    cv_replayable_frames v \<le> cv_valid_frames v \<and>
    (0 < cv_replayable_frames v \<longrightarrow> frame_commits (F ! (cv_replayable_frames v - 1))) \<and>
    (\<forall>i. cv_replayable_frames v \<le> i \<and> i < cv_valid_frames v \<longrightarrow> \<not> frame_commits (F ! i)) \<and>
    cv_last_commit_frame v = (if cv_replayable_frames v = 0 then None else Some (cv_replayable_frames v - 1)) \<and>
    cv_replayable_prefix_len v = 32 + cv_replayable_frames v * (24 + ps)"
proof -
  let ?v = "valid_prefix ps be salts ck F" and ?L = "length wal - 32"
  let ?r = "replay_end 0 0 (take ?v F)" and ?why = "stop_reason salts F ?v (?L mod (24 + ps))"
  note V = validate_spec [OF assms(1-6) refl refl refl]
  have vle: "?v \<le> length F" by (rule valid_prefix_le)
  have "length F = ?L div (24 + ps)" using assms(6) by simp
  then have "?L = length F * (24 + ps) + ?L mod (24 + ps)" by (metis div_mult_mod_eq)
  then have tail: "?L mod (24 + ps) = 0 \<longleftrightarrow> 32 + length F * (24 + ps) = length wal" using assms(2) by linarith
  have why: "?why = None \<longleftrightarrow> ?v = length F \<and> 32 + length F * (24 + ps) = length wal"
    using vle tail by (auto simp: stop_reason_def)
  have "?r \<le> ?v" "\<And>j. j < ?v \<Longrightarrow> ?r \<le> j \<Longrightarrow> \<not> frame_commits (F ! j)" "0 < ?r \<Longrightarrow> frame_commits (F ! (?r - 1))"
    using replay_end_spec [of 0 0 "take ?v F"] vle by auto
  then show ?thesis using V why by (auto simp: from_core_def WAL_HEADER_SIZE_def)
qed

theorem wal_replay_boundary_witness:
  "\<exists>hb v. length hb = 32 \<and> validate_wal_chain hb 512 False = Inr v \<and> cv_replayable_prefix_len v = 32"
proof -
  let ?h = "\<lparr>wh_magic = WAL_MAGIC_LE, wh_format_version = WAL_FORMAT_VERSION, wh_page_size = 512,
        wh_checkpoint_seq = 0, wh_salts = \<lparr>salt1 = 1, salt2 = 2\<rparr>, wh_checksum = \<lparr>ck_s1 = 0, ck_s2 = 0\<rparr>\<rparr>"
  have p: "PageSize_new 512 = Some 512" by (simp add: PageSize_new_Some valid_page_size_def)
  then obtain hb ck where hb: "length hb = 32" "validate_wal_header_checksum hb (big_endian_checksum ?h) = Inr True"
      "read_wal_header_salts hb = Inr (wh_salts ?h)" "read_wal_header_checksum hb = Inr ck"
    using header_image [of ?h] by auto
  have be: "big_endian_checksum ?h = False" by (simp add: big_endian_checksum_def WAL_MAGIC_LE_def WAL_MAGIC_BE_def)
  have "ensure_valid_wal_page_size 512 = Inr ()" using p by (simp add: ensure_valid_wal_page_size_def)
  then show ?thesis
    using wal_replay_boundary [of 512 "()" hb False "wh_salts ?h" ck, OF _ _ _ _ _ refl] hb unfolding be
    by (auto simp: frames_of_def intro!: exI [of _ hb])
qed

text \<open>Precomputed checksum transforms are exact.  The affine transform built from aligned bytes,
  its matrix computed by repeated squaring, maps every seed to the rolling checksum of those bytes;
  composition applies the transforms one after the other; and the transform of a frame maps the
  running checksum to the checksum the frame must carry.\<close>

theorem wal_transform_exact:
  "(length data mod 8 = 0 \<longrightarrow> (\<exists>t. from_aligned_bytes data be = Inr t \<and>
      sqlite_wal_checksum data (ck_s1 seed) (ck_s2 seed) be = Inr (transform_apply t seed))) \<and>
   transform_apply (transform_then t u) seed = transform_apply u (transform_apply t seed) \<and>
   (\<forall>w. for_wal_frame frame ps be = Inr w \<longrightarrow> compute_wal_frame_checksum frame ps seed be = Inr (transform_apply w seed))"
proof (intro conjI impI allI)
  show "\<exists>t. from_aligned_bytes data be = Inr t \<and> sqlite_wal_checksum data (ck_s1 seed) (ck_s2 seed) be = Inr (transform_apply t seed)"
    if "length data mod 8 = 0" using from_aligned_apply [OF that, of be seed] by metis
  show "transform_apply (transform_then t u) seed = transform_apply u (transform_apply t seed)"
    by (rule transform_then_apply)
  fix w assume "for_wal_frame frame ps be = Inr w"
  then show "compute_wal_frame_checksum frame ps seed be = Inr (transform_apply w seed)" by (rule frame_transform_apply)
qed

theorem wal_transform_exact_witness:
  "\<exists>t. from_aligned_bytes (replicate 16 1) True = Inr t \<and>
     sqlite_wal_checksum (replicate 16 1) 3 4 True = Inr (transform_apply t \<lparr>ck_s1 = 3, ck_s2 = 4\<rparr>)"
  using wal_transform_exact [of "replicate 16 1" True "\<lparr>ck_s1 = 3, ck_s2 = 4\<rparr>"] by auto

text \<open>Headers, page trailers and repair.  A header with a valid page size is written with a
  checksum that validates and, with a known magic and version, reads back; a frame header reads
  back; a page given its trailer verifies and keeps its payload, whatever the hash function; and a
  mismatching frame is repaired only from a reconstruction that has enough symbols and the expected
  hash.\<close>

theorem wal_headers_roundtrip:
  "(PageSize_new (wh_page_size h) \<noteq> None \<and> wh_magic h \<in> {WAL_MAGIC_LE, WAL_MAGIC_BE} \<and> wh_format_version h = WAL_FORMAT_VERSION \<longrightarrow>
      (\<exists>hb ck. WalHeader_to_bytes h = Inr hb \<and> validate_wal_header_checksum hb (big_endian_checksum h) = Inr True \<and>
        WalHeader_from_bytes hb = Inr (h\<lparr>wh_checksum := ck\<rparr>))) \<and>
   WalFrameHeader_from_bytes (WalFrameHeader_to_bytes fh @ rest) = Inr fh \<and>
   (16 \<le> length page \<longrightarrow> (\<exists>d page'. write_page_checksum xxh3 page = Inr (d, page') \<and> length page' = length page \<and>
      take (length page - 16) page' = take (length page - 16) page \<and> verify_page_checksum xxh3 page' = Inr True)) \<and>
   (recover_wal_frame_checksum_mismatch xxh3 payload expected surviving required = RepairedFrame \<longrightarrow>
      required \<le> surviving \<and> (\<exists>p. payload = Some p \<and> expected = Some (Xxh3_compute xxh3 p)))"
proof (intro conjI impI)
  show "\<exists>hb ck. WalHeader_to_bytes h = Inr hb \<and> validate_wal_header_checksum hb (big_endian_checksum h) = Inr True \<and>
        WalHeader_from_bytes hb = Inr (h\<lparr>wh_checksum := ck\<rparr>)"
    if "PageSize_new (wh_page_size h) \<noteq> None \<and> wh_magic h \<in> {WAL_MAGIC_LE, WAL_MAGIC_BE} \<and> wh_format_version h = WAL_FORMAT_VERSION"
    using header_image [of h] that by auto
  show "WalFrameHeader_from_bytes (WalFrameHeader_to_bytes fh @ rest) = Inr fh" by (rule frame_header_roundtrip)
  show "\<exists>d page'. write_page_checksum xxh3 page = Inr (d, page') \<and> length page' = length page \<and>
      take (length page - 16) page' = take (length page - 16) page \<and> verify_page_checksum xxh3 page' = Inr True" if "16 \<le> length page"
  proof -
    let ?k = "length page - 16" and ?d = "Xxh3_compute xxh3 (take (length page - 16) page)"
    let ?p = "put ?k (Xxh3_to_le_bytes ?d) page"
    have p: "?p = take ?k page @ Xxh3_to_le_bytes ?d" using that by (simp add: put_def Xxh3_to_le_bytes_def)
    have "read_xxh3_from_bytes (Xxh3_to_le_bytes ?d) = ?d"
      by (simp add: read_xxh3_from_bytes_def Xxh3_to_le_bytes_def from_le_to_le_full)
    then have "read_page_checksum ?p = Inr ?d" using that unfolding p
      by (simp add: read_page_checksum_def PAGE_CHECKSUM_RESERVED_BYTES_def Xxh3_to_le_bytes_def subslice_def)
    then have "verify_page_checksum xxh3 ?p = Inr True" using that unfolding p
      by (simp add: verify_page_checksum_def PAGE_CHECKSUM_RESERVED_BYTES_def Xxh3_to_le_bytes_def)
    then show ?thesis using that p by (auto simp: write_page_checksum_def PAGE_CHECKSUM_RESERVED_BYTES_def Xxh3_to_le_bytes_def Let_def)
  qed
  assume rec: "recover_wal_frame_checksum_mismatch xxh3 payload expected surviving required = RepairedFrame"
  show "required \<le> surviving" "\<exists>p. payload = Some p \<and> expected = Some (Xxh3_compute xxh3 p)"
    using rec by (auto simp: recover_wal_frame_checksum_mismatch_def recovery_action_for_checksum_failure_def
        attempt_wal_fec_repair_def Let_def split: if_splits option.splits)
qed

theorem wal_headers_roundtrip_witness:
  "\<exists>d page'. write_page_checksum (\<lambda>bs. word_of_nat (length bs)) (replicate 20 7) = Inr (d, page') \<and>
     verify_page_checksum (\<lambda>bs. word_of_nat (length bs)) page' = Inr True"
proof -
  have "16 \<le> length (replicate 20 (7::u8))" by simp
  note w = wal_headers_roundtrip [THEN conjunct2, THEN conjunct2, THEN conjunct1, THEN mp, OF this]
  show ?thesis using w [of "\<lambda>bs. word_of_nat (length bs)"] by blast
qed

end
