(* ===== verification/WalIndex.thy ===== *)
theory WalIndex
  imports Errors
begin

text \<open>
  \<open>crates/fsqlite-wal/src/wal_index.rs\<close>: the shared-memory header of the WAL index and the hash
  segments that map page numbers to frames by linear probing.  The locale \<open>frame_index\<close> states what
  the log relies on and is interpreted on the hash segments.  Shared memory is in the byte order of the machine, which is a parameter.
\<close>

section \<open>Shared-memory header\<close>

definition encode_native_u32 :: "bool \<Rightarrow> u32 \<Rightarrow> bytes" where
  "encode_native_u32 big v = (if big then to_be 4 v else to_le 4 v)"

definition decode_native_u32 :: "bool \<Rightarrow> bytes \<Rightarrow> u32" where
  "decode_native_u32 big bs = (if big then from_be bs else from_le bs)"

definition encode_native_u16 :: "bool \<Rightarrow> u16 \<Rightarrow> bytes" where
  "encode_native_u16 big v = (if big then to_be 2 v else to_le 2 v)"

definition decode_native_u16 :: "bool \<Rightarrow> bytes \<Rightarrow> u16" where
  "decode_native_u16 big bs = (if big then from_be bs else from_le bs)"

definition read4 :: "bytes \<Rightarrow> nat \<Rightarrow> bytes" where
  "read4 buf offset = subslice offset (offset + 4) buf"

definition WAL_INDEX_HDR_BYTES :: nat where "WAL_INDEX_HDR_BYTES = 48"

definition WAL_CKPT_INFO_BYTES :: nat where "WAL_CKPT_INFO_BYTES = 40"

definition WAL_SHM_FIRST_HEADER_BYTES :: nat where "WAL_SHM_FIRST_HEADER_BYTES = 136"

definition WAL_READ_MARK_COUNT :: nat where "WAL_READ_MARK_COUNT = 5"

definition WAL_LOCK_SLOT_COUNT :: nat where "WAL_LOCK_SLOT_COUNT = 8"

record WalIndexHdr =
  ih_i_version :: u32
  ih_unused :: u32
  ih_i_change :: u32
  ih_is_init :: u8
  ih_big_end_cksum :: u8
  ih_sz_page :: u16
  ih_mx_frame :: u32
  ih_n_page :: u32
  ih_frame_cksum :: "u32 \<times> u32"
  ih_salt :: "u32 \<times> u32"
  ih_cksum :: "u32 \<times> u32"

definition WalIndexHdr_from_bytes :: "bool \<Rightarrow> bytes \<Rightarrow> FrankenError + WalIndexHdr" where
  "WalIndexHdr_from_bytes big buf =
     (if length buf < WAL_INDEX_HDR_BYTES then Inl (WalCorrupt ''WalIndexHdr too small'')
      else
        let u = (\<lambda>off. decode_native_u32 big (read4 buf off)) in
        Inr \<lparr>ih_i_version = u 0, ih_unused = u 4, ih_i_change = u 8, ih_is_init = buf ! 12, ih_big_end_cksum = buf ! 13,
             ih_sz_page = decode_native_u16 big [buf ! 14, buf ! 15], ih_mx_frame = u 16, ih_n_page = u 20,
             ih_frame_cksum = (u 24, u 28), ih_salt = (u 32, u 36), ih_cksum = (u 40, u 44)\<rparr>)"

definition WalIndexHdr_to_bytes :: "bool \<Rightarrow> WalIndexHdr \<Rightarrow> bytes" where
  "WalIndexHdr_to_bytes big h =
     put_fields [(0, encode_native_u32 big (ih_i_version h)), (4, encode_native_u32 big (ih_unused h)),
       (8, encode_native_u32 big (ih_i_change h)), (12, [ih_is_init h]), (13, [ih_big_end_cksum h]),
       (14, encode_native_u16 big (ih_sz_page h)), (16, encode_native_u32 big (ih_mx_frame h)),
       (20, encode_native_u32 big (ih_n_page h)),
       (24, encode_native_u32 big (fst (ih_frame_cksum h))), (28, encode_native_u32 big (snd (ih_frame_cksum h))),
       (32, encode_native_u32 big (fst (ih_salt h))), (36, encode_native_u32 big (snd (ih_salt h))),
       (40, encode_native_u32 big (fst (ih_cksum h))), (44, encode_native_u32 big (snd (ih_cksum h)))]
       (replicate WAL_INDEX_HDR_BYTES 0)"

record WalCkptInfo =
  ck_n_backfill :: u32
  ck_read_mark :: "u32 list"
  ck_lock :: "u8 list"
  ck_n_backfill_attempted :: u32
  ck_not_used0 :: u32

definition WalCkptInfo_from_bytes :: "bool \<Rightarrow> bytes \<Rightarrow> FrankenError + WalCkptInfo" where
  "WalCkptInfo_from_bytes big buf =
     (if length buf < WAL_CKPT_INFO_BYTES then Inl (WalCorrupt ''WalCkptInfo too small'')
      else
        let u = (\<lambda>off. decode_native_u32 big (read4 buf off)) in
        Inr \<lparr>ck_n_backfill = u 0, ck_read_mark = map (\<lambda>i. u (4 + i * 4)) [0..<WAL_READ_MARK_COUNT],
             ck_lock = subslice 24 32 buf, ck_n_backfill_attempted = u 32, ck_not_used0 = u 36\<rparr>)"

definition mark_fields :: "bool \<Rightarrow> u32 list \<Rightarrow> (nat \<times> bytes) list" where
  "mark_fields big marks = map (\<lambda>i. (4 + i * 4, encode_native_u32 big (marks ! i))) [0..<length marks]"

definition WalCkptInfo_to_bytes :: "bool \<Rightarrow> WalCkptInfo \<Rightarrow> bytes" where
  "WalCkptInfo_to_bytes big c =
     put_fields ([(0, encode_native_u32 big (ck_n_backfill c))] @ mark_fields big (ck_read_mark c) @
       [(24, ck_lock c), (32, encode_native_u32 big (ck_n_backfill_attempted c)),
        (36, encode_native_u32 big (ck_not_used0 c))])
       (replicate WAL_CKPT_INFO_BYTES 0)"

definition wal_index_hdr_copies_match :: "bytes \<Rightarrow> bool" where
  "wal_index_hdr_copies_match buf \<longleftrightarrow>
     \<not> length buf < 2 * WAL_INDEX_HDR_BYTES \<and>
     take WAL_INDEX_HDR_BYTES buf = subslice WAL_INDEX_HDR_BYTES (2 * WAL_INDEX_HDR_BYTES) buf"

definition parse_shm_header :: "bool \<Rightarrow> bytes \<Rightarrow> FrankenError + (WalIndexHdr \<times> WalCkptInfo) option" where
  "parse_shm_header big buf =
     (if length buf < WAL_SHM_FIRST_HEADER_BYTES then Inl (WalCorrupt ''SHM header too small'')
      else if \<not> wal_index_hdr_copies_match buf then Inr None
      else
        bind_err (WalIndexHdr_from_bytes big buf) (\<lambda>hdr.
        bind_err (WalCkptInfo_from_bytes big (drop (2 * WAL_INDEX_HDR_BYTES) buf)) (\<lambda>ckpt. Inr (Some (hdr, ckpt)))))"

definition write_shm_header :: "bool \<Rightarrow> bytes \<Rightarrow> WalIndexHdr \<Rightarrow> WalCkptInfo \<Rightarrow> FrankenError + bytes" where
  "write_shm_header big buf hdr ckpt =
     (if length buf < WAL_SHM_FIRST_HEADER_BYTES then Inl (WalCorrupt ''SHM header buffer too small'')
      else
        let hdr_bytes = WalIndexHdr_to_bytes big hdr in
        Inr (put_fields [(0, hdr_bytes), (WAL_INDEX_HDR_BYTES, hdr_bytes),
               (2 * WAL_INDEX_HDR_BYTES, WalCkptInfo_to_bytes big ckpt)] buf))"

section \<open>Hash segments\<close>

definition WAL_INDEX_HASH_MULTIPLIER :: u32 where "WAL_INDEX_HASH_MULTIPLIER = 383"

definition WAL_INDEX_HASH_MASK :: u32 where "WAL_INDEX_HASH_MASK = 8191"

definition WAL_INDEX_HASH_SLOTS :: nat where "WAL_INDEX_HASH_SLOTS = 8192"

datatype WalIndexSegmentKind = First | Subsequent

definition usable_page_entries :: "WalIndexSegmentKind \<Rightarrow> nat" where
  "usable_page_entries kind = (case kind of First \<Rightarrow> 4096 - 34 | Subsequent \<Rightarrow> 4096)"

record WalHashLookup =
  hl_slot :: u32
  hl_one_based_index :: u16
  hl_page_number :: u32

record WalIndexHashSegment =
  hs_kind :: WalIndexSegmentKind
  hs_page_numbers :: "u32 list"
  hs_hash_slots :: "u16 list"

definition segment_new :: "WalIndexSegmentKind \<Rightarrow> WalIndexHashSegment" where
  "segment_new kind = \<lparr>hs_kind = kind, hs_page_numbers = [], hs_hash_slots = replicate WAL_INDEX_HASH_SLOTS 0\<rparr>"

definition segment_capacity :: "WalIndexHashSegment \<Rightarrow> nat" where
  "segment_capacity seg = usable_page_entries (hs_kind seg)"

definition wal_index_hash_slot :: "u32 \<Rightarrow> u32" where
  "wal_index_hash_slot page_number = (page_number * WAL_INDEX_HASH_MULTIPLIER) AND WAL_INDEX_HASH_MASK"

text \<open>The probing loops visit at most as many slots as the table has; the fuel is that number, and
  \<^const>\<open>None\<close> would be a loop that exceeds it or a panic.\<close>

fun probe_insert :: "nat \<Rightarrow> u16 list \<Rightarrow> u32 \<Rightarrow> u32 \<Rightarrow> u16 \<Rightarrow> (FrankenError + u16 list) option" where
  "probe_insert 0 slots start slot one_based = None"
| "probe_insert (Suc fuel) slots start slot one_based =
     (if unat slot \<ge> length slots then None
      else if slots ! unat slot = 0 then Some (Inr (slots[unat slot := one_based]))
      else
        let slot' = (slot + 1) AND WAL_INDEX_HASH_MASK in
        if slot' = start then Some (Inl DatabaseFull) else probe_insert fuel slots start slot' one_based)"

definition segment_insert :: "u32 \<Rightarrow> WalIndexHashSegment \<Rightarrow> ((FrankenError + u16) \<times> WalIndexHashSegment) option" where
  "segment_insert page_number seg =
     (if length (hs_page_numbers seg) \<ge> segment_capacity seg then Some (Inl DatabaseFull, seg)
      else
        let seg1 = seg\<lparr>hs_page_numbers := hs_page_numbers seg @ [page_number]\<rparr>; n = length (hs_page_numbers seg1) in
        if n > 65535 then Some (Inl (Internal ''WAL page-number index overflowed u16 capacity''), seg1)
        else
          let one_based = word_of_nat n; start = wal_index_hash_slot page_number in
          (case probe_insert WAL_INDEX_HASH_SLOTS (hs_hash_slots seg1) start start one_based of
             None \<Rightarrow> None
           | Some (Inl e) \<Rightarrow> Some (Inl e, seg1)
           | Some (Inr slots) \<Rightarrow> Some (Inr one_based, seg1\<lparr>hs_hash_slots := slots\<rparr>)))"

fun probe_lookup :: "nat \<Rightarrow> u32 list \<Rightarrow> u16 list \<Rightarrow> u32 \<Rightarrow> u32 \<Rightarrow> u32 \<Rightarrow> WalHashLookup option \<Rightarrow> WalHashLookup option option" where
  "probe_lookup 0 pages slots page_number start slot best = None"
| "probe_lookup (Suc fuel) pages slots page_number start slot best =
     (if unat slot \<ge> length slots then None
      else
        let one_based = slots ! unat slot in
        if one_based = 0 then Some best
        else
          let idx = unat (one_based - 1) in
          if idx \<ge> length pages then None
          else
            let found = \<lparr>hl_slot = slot, hl_one_based_index = one_based, hl_page_number = page_number\<rparr>;
                best' = (if pages ! idx = page_number
                         then (case best of
                                 Some b \<Rightarrow> if one_based > hl_one_based_index b then Some found else best
                               | None \<Rightarrow> Some found)
                         else best);
                slot' = (slot + 1) AND WAL_INDEX_HASH_MASK in
            if slot' = start then Some best' else probe_lookup fuel pages slots page_number start slot' best')"

definition segment_lookup :: "WalIndexHashSegment \<Rightarrow> u32 \<Rightarrow> WalHashLookup option option" where
  "segment_lookup seg page_number =
     (let start = wal_index_hash_slot page_number in
      probe_lookup WAL_INDEX_HASH_SLOTS (hs_page_numbers seg) (hs_hash_slots seg) page_number start start None)"

section \<open>Shared-memory header round trip\<close>

lemma native_lengths [simp]:
  "length (encode_native_u32 big v) = 4" "length (encode_native_u16 big w) = 2"
  by (simp_all add: encode_native_u32_def encode_native_u16_def)

lemma native_roundtrip [simp]:
  "decode_native_u32 big (encode_native_u32 big v) = v" "decode_native_u16 big (encode_native_u16 big w) = w"
  by (simp_all add: encode_native_u32_def decode_native_u32_def encode_native_u16_def decode_native_u16_def
      from_be_to_be_full from_le_to_le_full)

lemma native_field:
  assumes "fields_ok lo (length bs) fs" "(off, encode_native_u32 big v) \<in> set fs"
  shows "decode_native_u32 big (read4 (put_fields fs bs) off) = v"
  using subslice_put_fields [OF assms] by (simp add: read4_def)

lemma read4_take [simp]: "off + 4 \<le> n \<Longrightarrow> read4 (take n buf) off = read4 buf off"
  by (simp add: read4_def subslice_def drop_take)

lemma length_hdr_bytes [simp]: "length (WalIndexHdr_to_bytes big h) = 48"
  unfolding WalIndexHdr_to_bytes_def by (subst length_put_fields) (simp_all add: WAL_INDEX_HDR_BYTES_def)

lemma index_hdr_roundtrip: "WalIndexHdr_from_bytes big (WalIndexHdr_to_bytes big h) = Inr h"
proof -
  let ?z = "replicate WAL_INDEX_HDR_BYTES (0 :: u8)"
  obtain fs where b: "WalIndexHdr_to_bytes big h = put_fields fs ?z"
    and fs: "fs = [(0, encode_native_u32 big (ih_i_version h)), (4, encode_native_u32 big (ih_unused h)),
       (8, encode_native_u32 big (ih_i_change h)), (12, [ih_is_init h]), (13, [ih_big_end_cksum h]),
       (14, encode_native_u16 big (ih_sz_page h)), (16, encode_native_u32 big (ih_mx_frame h)),
       (20, encode_native_u32 big (ih_n_page h)),
       (24, encode_native_u32 big (fst (ih_frame_cksum h))), (28, encode_native_u32 big (snd (ih_frame_cksum h))),
       (32, encode_native_u32 big (fst (ih_salt h))), (36, encode_native_u32 big (snd (ih_salt h))),
       (40, encode_native_u32 big (fst (ih_cksum h))), (44, encode_native_u32 big (snd (ih_cksum h)))]"
    by (simp add: WalIndexHdr_to_bytes_def)
  define B where B: "B = put_fields fs ?z"
  have ok: "fields_ok 0 (length ?z) fs" by (simp add: fs WAL_INDEX_HDR_BYTES_def)
  have len: "length (B) = 48" using length_hdr_bytes [of big h] b B by simp
  have "[B ! 14, B ! 15] = subslice 14 16 (B)"
    by (rule nth_equalityI) (auto simp: len nth_subslice less_Suc_eq)
  also have "\<dots> = encode_native_u16 big (ih_sz_page h)" unfolding B by (rule subslice_put_fields [OF ok]) (simp_all add: fs)
  finally have sz: "decode_native_u16 big [B ! 14, B ! 15] = ih_sz_page h" by simp
  have b1: "B ! 12 = ih_is_init h" "B ! 13 = ih_big_end_cksum h"
    unfolding B by (rule nth_put_fields [OF ok]; simp add: fs)+
  note f = native_field [OF ok, folded B, of _ big]
  have u: "decode_native_u32 big (read4 (B) 0) = ih_i_version h"
    "decode_native_u32 big (read4 (B) 4) = ih_unused h"
    "decode_native_u32 big (read4 (B) 8) = ih_i_change h"
    "decode_native_u32 big (read4 (B) 16) = ih_mx_frame h"
    "decode_native_u32 big (read4 (B) 20) = ih_n_page h"
    "decode_native_u32 big (read4 (B) 24) = fst (ih_frame_cksum h)"
    "decode_native_u32 big (read4 (B) 28) = snd (ih_frame_cksum h)"
    "decode_native_u32 big (read4 (B) 32) = fst (ih_salt h)"
    "decode_native_u32 big (read4 (B) 36) = snd (ih_salt h)"
    "decode_native_u32 big (read4 (B) 40) = fst (ih_cksum h)"
    "decode_native_u32 big (read4 (B) 44) = snd (ih_cksum h)"
    by (rule f; simp add: fs)+
  show ?thesis unfolding b B [symmetric] WalIndexHdr_from_bytes_def Let_def
    by (simp add: u b1 sz len WAL_INDEX_HDR_BYTES_def)
qed

lemma index_hdr_bytes_inj: "WalIndexHdr_to_bytes big h = WalIndexHdr_to_bytes big h' \<Longrightarrow> h = h'"
  by (metis index_hdr_roundtrip sum.inject(2))

definition ckpt_wf :: "WalCkptInfo \<Rightarrow> bool" where
  "ckpt_wf c \<longleftrightarrow> length (ck_read_mark c) = WAL_READ_MARK_COUNT \<and> length (ck_lock c) = WAL_LOCK_SLOT_COUNT"

lemma five_list: "length xs = 5 \<Longrightarrow> xs = [xs ! 0, xs ! 1, xs ! 2, xs ! 3, xs ! 4]"
  by (rule nth_equalityI) (auto simp: less_Suc_eq numeral_eq_Suc)

lemma ckpt_info_roundtrip:
  assumes "ckpt_wf c"
  shows "length (WalCkptInfo_to_bytes big c) = 40" "WalCkptInfo_from_bytes big (WalCkptInfo_to_bytes big c) = Inr c"
proof -
  let ?z = "replicate WAL_CKPT_INFO_BYTES (0 :: u8)"
  have m: "length (ck_read_mark c) = 5" "length (ck_lock c) = 8"
    using assms by (simp_all add: ckpt_wf_def WAL_READ_MARK_COUNT_def WAL_LOCK_SLOT_COUNT_def)
  have up: "[0..<5] = [0, 1, 2, 3, 4]" by (simp add: upt_rec)
  obtain fs where b: "WalCkptInfo_to_bytes big c = put_fields fs ?z"
    and fs: "fs = [(0, encode_native_u32 big (ck_n_backfill c)), (4, encode_native_u32 big (ck_read_mark c ! 0)),
       (8, encode_native_u32 big (ck_read_mark c ! 1)), (12, encode_native_u32 big (ck_read_mark c ! 2)),
       (16, encode_native_u32 big (ck_read_mark c ! 3)), (20, encode_native_u32 big (ck_read_mark c ! 4)),
       (24, ck_lock c), (32, encode_native_u32 big (ck_n_backfill_attempted c)),
       (36, encode_native_u32 big (ck_not_used0 c))]"
    by (simp add: WalCkptInfo_to_bytes_def mark_fields_def m up)
  define B where B: "B = put_fields fs ?z"
  have ok: "fields_ok 0 (length ?z) fs" by (simp add: fs WAL_CKPT_INFO_BYTES_def m)
  show len: "length (WalCkptInfo_to_bytes big c) = 40" unfolding b
    by (subst length_put_fields [OF ok]) (simp add: WAL_CKPT_INFO_BYTES_def)
  have lk: "subslice 24 32 (B) = ck_lock c"
    unfolding B by (rule subslice_put_fields [OF ok]) (simp_all add: fs m)
  note f = native_field [OF ok, folded B, of _ big]
  have u: "decode_native_u32 big (read4 (B) 0) = ck_n_backfill c"
    "decode_native_u32 big (read4 (B) 4) = ck_read_mark c ! 0"
    "decode_native_u32 big (read4 (B) 8) = ck_read_mark c ! 1"
    "decode_native_u32 big (read4 (B) 12) = ck_read_mark c ! 2"
    "decode_native_u32 big (read4 (B) 16) = ck_read_mark c ! 3"
    "decode_native_u32 big (read4 (B) 20) = ck_read_mark c ! 4"
    "decode_native_u32 big (read4 (B) 32) = ck_n_backfill_attempted c"
    "decode_native_u32 big (read4 (B) 36) = ck_not_used0 c"
    by (rule f; simp add: fs)+
  show "WalCkptInfo_from_bytes big (WalCkptInfo_to_bytes big c) = Inr c"
    using len five_list [OF m(1)] unfolding b B [symmetric] WalCkptInfo_from_bytes_def Let_def
    by (simp add: u lk up WAL_CKPT_INFO_BYTES_def WAL_READ_MARK_COUNT_def)
qed

lemma from_bytes_take:
  "WalIndexHdr_from_bytes big buf = WalIndexHdr_from_bytes big (take 48 buf)"
  "WalCkptInfo_from_bytes big buf = WalCkptInfo_from_bytes big (take 40 buf)"
  by (auto simp: WalIndexHdr_from_bytes_def WAL_INDEX_HDR_BYTES_def WalCkptInfo_from_bytes_def WAL_CKPT_INFO_BYTES_def
      WAL_READ_MARK_COUNT_def Let_def subslice_def drop_take min_def)

lemma parse_shm_cases:
  assumes "136 \<le> length buf"
  shows "parse_shm_header big buf =
    (if subslice 0 48 buf = subslice 48 96 buf
     then bind_err (WalIndexHdr_from_bytes big (subslice 0 48 buf)) (\<lambda>hdr.
          bind_err (WalCkptInfo_from_bytes big (subslice 96 136 buf)) (\<lambda>ckpt. Inr (Some (hdr, ckpt))))
     else Inr None)"
proof -
  have "take 48 buf = subslice 0 48 buf" "take 40 (drop 96 buf) = subslice 96 136 buf" by (simp_all add: subslice_def)
  then show ?thesis
    using assms from_bytes_take(1) [of big buf] from_bytes_take(2) [of big "drop 96 buf"]
    by (simp add: parse_shm_header_def wal_index_hdr_copies_match_def WAL_SHM_FIRST_HEADER_BYTES_def WAL_INDEX_HDR_BYTES_def)
qed

text \<open>The shared-memory header and its two copies.  Writing the header and the checkpoint
  information into a buffer of at least 136 bytes and parsing it gives both back, in either byte
  order, and touches nothing behind them; a smaller buffer is an error.  A reader that looks while a
  writer has replaced only the first copy by a different header gets nothing, so it never uses a
  torn header.\<close>

theorem shm_header_roundtrip:
  assumes "ckpt_wf ckpt"
  shows "(length buf < 136 \<longrightarrow> (\<exists>e. write_shm_header big buf hdr ckpt = Inl e) \<and> (\<exists>e. parse_shm_header big buf = Inl e)) \<and>
    (136 \<le> length buf \<longrightarrow>
      (\<exists>buf'. write_shm_header big buf hdr ckpt = Inr buf' \<and> length buf' = length buf \<and> drop 136 buf' = drop 136 buf \<and>
        parse_shm_header big buf' = Inr (Some (hdr, ckpt)) \<and>
        (hdr' \<noteq> hdr \<longrightarrow> parse_shm_header big (put 0 (WalIndexHdr_to_bytes big hdr') buf') = Inr None)))"
proof (intro conjI impI)
  assume n: "136 \<le> length buf"
  let ?h = "WalIndexHdr_to_bytes big hdr" and ?c = "WalCkptInfo_to_bytes big ckpt"
  let ?fs = "[(0, ?h), (48, ?h), (96, ?c)]"
  note c = ckpt_info_roundtrip [OF assms, of big]
  define B where B: "B = put_fields ?fs buf"
  have ok: "fields_ok 0 (length buf) ?fs" using n by (simp add: c(1))
  have len: "length B = length buf" unfolding B using ok by (rule length_put_fields)
  have w: "write_shm_header big buf hdr ckpt = Inr B"
    using n by (simp add: write_shm_header_def B Let_def WAL_SHM_FIRST_HEADER_BYTES_def WAL_INDEX_HDR_BYTES_def)
  have s: "subslice 0 48 B = ?h" "subslice 48 96 B = ?h" "subslice 96 136 B = ?c"
    unfolding B by (rule subslice_put_fields [OF ok]; simp add: c(1))+
  have "subslice 136 (length buf) B = subslice 136 (length buf) buf"
    unfolding B by (rule subslice_put_fields_outside [OF ok]) (use c(1) in auto)
  then have d: "drop 136 B = drop 136 buf" using len by (simp add: subslice_def)
  have p: "parse_shm_header big B = Inr (Some (hdr, ckpt))"
    using parse_shm_cases [of B big] n len s c(2) index_hdr_roundtrip [of big hdr] by simp
  let ?B2 = "put 0 (WalIndexHdr_to_bytes big hdr') B"
  have "subslice 0 48 ?B2 = WalIndexHdr_to_bytes big hdr'" by (rule subslice_put_same) (use n len in simp_all)
  moreover have "subslice 48 96 ?B2 = ?h" using subslice_put_other [of 0 "WalIndexHdr_to_bytes big hdr'" B 96 48] n len s(2) by simp
  moreover have "length ?B2 = length buf" using n len by (simp add: put_def)
  ultimately have "hdr' \<noteq> hdr \<Longrightarrow> parse_shm_header big ?B2 = Inr None"
    using parse_shm_cases [of ?B2 big] n index_hdr_bytes_inj by force
  then show "\<exists>buf'. write_shm_header big buf hdr ckpt = Inr buf' \<and> length buf' = length buf \<and> drop 136 buf' = drop 136 buf \<and>
      parse_shm_header big buf' = Inr (Some (hdr, ckpt)) \<and>
      (hdr' \<noteq> hdr \<longrightarrow> parse_shm_header big (put 0 (WalIndexHdr_to_bytes big hdr') buf') = Inr None)"
    using w len d p by blast
qed (simp_all add: write_shm_header_def parse_shm_header_def WAL_SHM_FIRST_HEADER_BYTES_def)

definition sample_hdr :: "u32 \<Rightarrow> WalIndexHdr" where
  "sample_hdr mx = \<lparr>ih_i_version = 3007000, ih_unused = 0, ih_i_change = 7, ih_is_init = 1, ih_big_end_cksum = 0,
     ih_sz_page = 4096, ih_mx_frame = mx, ih_n_page = 12, ih_frame_cksum = (1, 2), ih_salt = (3, 4), ih_cksum = (5, 6)\<rparr>"

definition sample_ckpt :: WalCkptInfo where
  "sample_ckpt = \<lparr>ck_n_backfill = 2, ck_read_mark = [0, 3, 0xFFFFFFFF, 0xFFFFFFFF, 0xFFFFFFFF], ck_lock = replicate 8 0,
     ck_n_backfill_attempted = 2, ck_not_used0 = 0\<rparr>"

theorem shm_header_roundtrip_witness:
  "\<exists>buf'. write_shm_header False (replicate 200 0) (sample_hdr 5) sample_ckpt = Inr buf' \<and>
     parse_shm_header False buf' = Inr (Some (sample_hdr 5, sample_ckpt)) \<and>
     parse_shm_header False (put 0 (WalIndexHdr_to_bytes False (sample_hdr 6)) buf') = Inr None"
proof -
  have "ckpt_wf sample_ckpt" by (simp add: ckpt_wf_def sample_ckpt_def WAL_READ_MARK_COUNT_def WAL_LOCK_SLOT_COUNT_def)
  from shm_header_roundtrip [OF this, of "replicate 200 0" False "sample_hdr 5" "sample_hdr 6"]
  show ?thesis by (auto simp: sample_hdr_def)
qed

section \<open>Probe sequences\<close>

definition probe_at :: "nat \<Rightarrow> nat \<Rightarrow> nat" where
  "probe_at s e = (s + e) mod 8192"

lemma probe_at_less [simp]: "probe_at s e < 8192" "\<not> 8192 \<le> probe_at s e"
  by (simp_all add: probe_at_def not_le)

lemma probe_at_0 [simp]: "s < 8192 \<Longrightarrow> probe_at s 0 = s"
  by (simp add: probe_at_def)

lemma probe_at_inj:
  assumes "probe_at s a = probe_at s b" "a < 8192" "b < 8192"
  shows "a = b"
proof -
  obtain q r where "a + 8192 * q = b + 8192 * r" using assms(1) by (auto simp: probe_at_def nat_mod_eq_iff)
  then have "(a + 8192 * q) mod 8192 = (b + 8192 * r) mod 8192" by simp
  then show ?thesis using assms(2,3) by simp
qed

lemma probe_at_surj: "j < 8192 \<Longrightarrow> s < 8192 \<Longrightarrow> \<exists>e<8192. probe_at s e = j"
proof -
  assume "j < 8192" "s < 8192"
  then have "probe_at s ((j + 8192 - s) mod 8192) = j" by (simp add: probe_at_def mod_simps)
  then show ?thesis by (metis mod_less_divisor zero_less_numeral)
qed

lemma unat_and_mask: "unat (x AND WAL_INDEX_HASH_MASK) = unat x mod 8192"
proof -
  have "x AND WAL_INDEX_HASH_MASK = take_bit 13 x"
    unfolding take_bit_eq_mask WAL_INDEX_HASH_MASK_def by (simp add: mask_eq_exp_minus_1)
  then have "unat (x AND WAL_INDEX_HASH_MASK) = take_bit 13 (unat x)" by (simp only: unsigned_take_bit_eq)
  then show ?thesis by (simp add: take_bit_eq_mod)
qed

lemma unat_hash_slot [simp]: "unat (wal_index_hash_slot p) < 8192"
  by (simp add: wal_index_hash_slot_def unat_and_mask)

abbreviation slot_word :: "nat \<Rightarrow> u32" where "slot_word \<equiv> word_of_nat"

lemma unat_slot_word [simp]: "i < 8192 \<Longrightarrow> unat (slot_word i) = i"
  by (simp add: unat_of_nat take_bit_nat_eq_self)

lemma next_slot: "(slot_word (probe_at s e) + 1) AND WAL_INDEX_HASH_MASK = slot_word (probe_at s (Suc e))"
proof (rule word_unat_eq_iff [THEN iffD2])
  have "unat (slot_word (probe_at s e) + 1) = probe_at s e + 1"
    using probe_at_less [of s e] by (simp add: unat_word_ariths del: probe_at_less)
  then show "unat ((slot_word (probe_at s e) + 1) AND WAL_INDEX_HASH_MASK) = unat (slot_word (probe_at s (Suc e)))"
    by (simp add: unat_and_mask probe_at_def mod_simps)
qed

lemma next_slot_start:
  assumes "Suc e < 8192" "s < 8192"
  shows "slot_word (probe_at s (Suc e)) \<noteq> slot_word s"
proof
  assume "slot_word (probe_at s (Suc e)) = slot_word s"
  then have "probe_at s (Suc e) = probe_at s 0" using assms(2) by (metis probe_at_0 probe_at_less unat_slot_word)
  then show False using probe_at_inj [of s "Suc e" 0] assms(1) by simp
qed

text \<open>A run of \<open>d\<close> used slots from \<open>s\<close>, ended by a free one.\<close>

definition run_to :: "u16 list \<Rightarrow> nat \<Rightarrow> nat \<Rightarrow> bool" where
  "run_to slots s d \<longleftrightarrow> d < 8192 \<and> slots ! probe_at s d = 0 \<and> (\<forall>e<d. slots ! probe_at s e \<noteq> 0)"

lemma run_exists:
  assumes "j < 8192" "slots ! j = 0" "s < 8192"
  obtains d where "run_to slots s d"
proof -
  obtain e where e: "e < 8192" "probe_at s e = j" using probe_at_surj [OF assms(1,3)] by blast
  define d where "d = (LEAST d. slots ! probe_at s d = 0)"
  have "d \<le> e" "slots ! probe_at s d = 0" unfolding d_def using e assms(2) by (auto intro: Least_le LeastI)
  moreover have "\<forall>e<d. slots ! probe_at s e \<noteq> 0" unfolding d_def using not_less_Least by blast
  ultimately have "run_to slots s d" using e(1) by (simp add: run_to_def)
  then show thesis by (rule that)
qed

lemma probe_insert_run:
  assumes "run_to slots s d" "length slots = 8192" "s < 8192" "e \<le> d" "d - e < fuel"
  shows "probe_insert fuel slots (slot_word s) (slot_word (probe_at s e)) v = Some (Inr (slots[probe_at s d := v]))"
  using assms(4,5)
proof (induction fuel arbitrary: e)
  case (Suc fuel)
  show ?case
  proof (cases "e = d")
    case True then show ?thesis using assms(1,2) by (simp add: run_to_def)
  next
    case False
    then have "e < d" using Suc.prems by simp
    then have "slots ! probe_at s e \<noteq> 0" "slot_word (probe_at s (Suc e)) \<noteq> slot_word s"
      using assms(1,3) next_slot_start [of e s] by (auto simp: run_to_def)
    then show ?thesis using Suc \<open>e < d\<close> assms(2) by (simp add: next_slot Let_def)
  qed
qed simp

text \<open>What a lookup has found after visiting \<open>e\<close> slots: the greatest index of a matching entry.\<close>

definition matches :: "u32 list \<Rightarrow> u16 list \<Rightarrow> nat \<Rightarrow> u32 \<Rightarrow> nat \<Rightarrow> bool" where
  "matches pages slots s p e \<longleftrightarrow> pages ! unat (slots ! probe_at s e - 1) = p"

definition best_of :: "u32 list \<Rightarrow> u16 list \<Rightarrow> nat \<Rightarrow> u32 \<Rightarrow> nat \<Rightarrow> WalHashLookup option \<Rightarrow> bool" where
  "best_of pages slots s p e best \<longleftrightarrow>
     (case best of
        None \<Rightarrow> \<forall>k<e. \<not> matches pages slots s p k
      | Some b \<Rightarrow> \<exists>k<e. matches pages slots s p k \<and> hl_slot b = slot_word (probe_at s k) \<and>
          hl_one_based_index b = slots ! probe_at s k \<and> hl_page_number b = p \<and>
          (\<forall>k'<e. matches pages slots s p k' \<longrightarrow> slots ! probe_at s k' \<le> hl_one_based_index b))"

definition better :: "u32 list \<Rightarrow> u16 list \<Rightarrow> nat \<Rightarrow> u32 \<Rightarrow> nat \<Rightarrow> WalHashLookup option \<Rightarrow> WalHashLookup option" where
  "better pages slots s p e best =
     (let found = \<lparr>hl_slot = slot_word (probe_at s e), hl_one_based_index = slots ! probe_at s e, hl_page_number = p\<rparr> in
      if matches pages slots s p e
      then (case best of
              Some b \<Rightarrow> if slots ! probe_at s e > hl_one_based_index b then Some found else best
            | None \<Rightarrow> Some found)
      else best)"

lemma best_of_better:
  assumes "best_of pages slots s p e best"
  shows "best_of pages slots s p (Suc e) (better pages slots s p e best)"
proof (cases "matches pages slots s p e")
  case False then show ?thesis using assms
    by (auto simp: best_of_def better_def less_Suc_eq split: option.splits)
next
  case m: True
  show ?thesis
  proof (cases best)
    case None then show ?thesis using assms m by (auto simp: best_of_def better_def less_Suc_eq)
  next
    case (Some b)
    then show ?thesis using assms m
      by (cases "slots ! probe_at s e > hl_one_based_index b")
         (force simp: best_of_def better_def less_Suc_eq)+
  qed
qed

lemma probe_lookup_run:
  assumes "run_to slots s d" "length slots = 8192" "s < 8192"
    and "\<And>j. j < 8192 \<Longrightarrow> unat (slots ! j) \<le> length pages"
    and "best_of pages slots s p e best" "e \<le> d" "d - e < fuel"
  shows "\<exists>r. probe_lookup fuel pages slots p (slot_word s) (slot_word (probe_at s e)) best = Some r \<and> best_of pages slots s p d r"
  using assms(5,6,7)
proof (induction fuel arbitrary: e best)
  case (Suc fuel)
  show ?case
  proof (cases "e = d")
    case True then show ?thesis using assms(1,2) Suc.prems(1) by (simp add: run_to_def)
  next
    case False
    then have "e < d" using Suc.prems by simp
    then have nz: "slots ! probe_at s e \<noteq> 0" and ns: "slot_word (probe_at s (Suc e)) \<noteq> slot_word s"
      using assms(1,3) next_slot_start [of e s] by (auto simp: run_to_def)
    have "unat (slots ! probe_at s e - 1) = unat (slots ! probe_at s e) - 1" "0 < unat (slots ! probe_at s e)"
      using nz by (simp_all add: unat_minus_one unat_gt_0)
    then have idx: "\<not> length pages \<le> unat (slots ! probe_at s e - 1)"
      using assms(4) [of "probe_at s e"] by simp
    have "probe_lookup (Suc fuel) pages slots p (slot_word s) (slot_word (probe_at s e)) best =
        probe_lookup fuel pages slots p (slot_word s) (slot_word (probe_at s (Suc e))) (better pages slots s p e best)"
      using nz ns idx assms(2) by (simp add: next_slot Let_def better_def matches_def)
    then show ?thesis
      using Suc.IH [OF best_of_better [OF Suc.prems(1)]] Suc.prems \<open>e < d\<close> by simp
  qed
qed simp

section \<open>The segment invariant\<close>

definition entry_slot :: "u16 list \<Rightarrow> nat \<Rightarrow> nat \<Rightarrow> bool" where
  "entry_slot slots s i \<longleftrightarrow>
     (\<exists>d<8192. slots ! probe_at s d = word_of_nat (Suc i) \<and> (\<forall>e\<le>d. slots ! probe_at s e \<noteq> 0))"

definition used_slots :: "u16 list \<Rightarrow> nat set" where
  "used_slots slots = {j. j < 8192 \<and> slots ! j \<noteq> 0}"

definition segment_ok :: "WalIndexHashSegment \<Rightarrow> bool" where
  "segment_ok seg \<longleftrightarrow>
     (let pages = hs_page_numbers seg; slots = hs_hash_slots seg in
      length pages \<le> segment_capacity seg \<and> length slots = 8192 \<and>
      card (used_slots slots) \<le> length pages \<and>
      (\<forall>j<8192. unat (slots ! j) \<le> length pages) \<and>
      (\<forall>i<length pages. entry_slot slots (unat (wal_index_hash_slot (pages ! i))) i))"

lemma capacity_le: "segment_capacity seg \<le> 4096"
  by (simp add: segment_capacity_def usable_page_entries_def split: WalIndexSegmentKind.split)

lemma finite_used_slots [simp]: "finite (used_slots slots)"
  by (simp add: used_slots_def)

lemma free_slot_exists:
  assumes "segment_ok seg"
  obtains j where "j < 8192" "hs_hash_slots seg ! j = 0"
proof (rule ccontr)
  assume "\<not> thesis"
  then have "used_slots (hs_hash_slots seg) = {..<8192}" using that by (auto simp: used_slots_def)
  then show False using assms capacity_le [of seg] by (simp add: segment_ok_def Let_def)
qed

lemma segment_new_ok [simp]: "segment_ok (segment_new kind)"
  by (simp add: segment_ok_def segment_new_def used_slots_def WAL_INDEX_HASH_SLOTS_def Let_def)

lemma entry_slot_update:
  assumes "entry_slot slots s i" "slots ! j = 0" "v \<noteq> 0" "length slots = 8192"
  shows "entry_slot (slots[j := v]) s i"
proof -
  obtain d where d: "d < 8192" "slots ! probe_at s d = word_of_nat (Suc i)" "\<forall>e\<le>d. slots ! probe_at s e \<noteq> 0"
    using assms(1) by (auto simp: entry_slot_def)
  have "slots[j := v] ! probe_at s e = slots ! probe_at s e" if "e \<le> d" for e
    using d(3) that assms(2) by (metis nth_list_update_neq)
  then show ?thesis using d by (auto simp: entry_slot_def)
qed

lemma entry_slot_new:
  assumes "run_to slots s d" "length slots = 8192" "word_of_nat (Suc i) \<noteq> (0 :: u16)"
  shows "entry_slot (slots[probe_at s d := word_of_nat (Suc i)]) s i"
proof -
  let ?v = "word_of_nat (Suc i) :: u16"
  have "slots[probe_at s d := ?v] ! probe_at s e \<noteq> 0" if "e \<le> d" for e
    using that assms by (cases "probe_at s e = probe_at s d") (auto simp: run_to_def le_less)
  then show ?thesis using assms by (auto simp: entry_slot_def run_to_def)
qed

definition after_insert :: "u32 \<Rightarrow> nat \<Rightarrow> WalIndexHashSegment \<Rightarrow> WalIndexHashSegment" where
  "after_insert p j seg = seg\<lparr>hs_page_numbers := hs_page_numbers seg @ [p],
     hs_hash_slots := (hs_hash_slots seg)[j := word_of_nat (Suc (length (hs_page_numbers seg)))]\<rparr>"

lemma after_insert_ok:
  assumes ok: "segment_ok seg" and n: "length (hs_page_numbers seg) < segment_capacity seg"
    and run: "run_to (hs_hash_slots seg) (unat (wal_index_hash_slot p)) d"
  shows "segment_ok (after_insert p (probe_at (unat (wal_index_hash_slot p)) d) seg)"
proof -
  let ?slots = "hs_hash_slots seg" and ?pages = "hs_page_numbers seg"
  let ?j = "probe_at (unat (wal_index_hash_slot p)) d" and ?v = "word_of_nat (Suc (length ?pages)) :: u16"
  have uv: "unat ?v = Suc (length ?pages)"
    using n capacity_le [of seg] by (simp add: unat_of_nat take_bit_nat_eq_self del: of_nat_Suc)
  then have v: "?v \<noteq> 0" by (metis nat.simps(3) unat_0)
  have l: "length ?slots = 8192" and z: "?slots ! ?j = 0" using ok run by (simp_all add: segment_ok_def run_to_def Let_def)
  have "used_slots (?slots[?j := ?v]) \<subseteq> insert ?j (used_slots ?slots)"
    by (auto simp: used_slots_def l nth_list_update split: if_splits)
  then have "card (used_slots (?slots[?j := ?v])) \<le> card (insert ?j (used_slots ?slots))" by (intro card_mono) simp_all
  also have "\<dots> \<le> Suc (card (used_slots ?slots))" by (simp add: card_insert_if)
  finally have "card (used_slots (?slots[?j := ?v])) \<le> Suc (card (used_slots ?slots))" .
  moreover have "\<forall>k<8192. unat (?slots[?j := ?v] ! k) \<le> Suc (length ?pages)"
    using ok uv l by (auto simp: segment_ok_def Let_def nth_list_update simp del: of_nat_Suc intro: le_SucI)
  moreover have "entry_slot (?slots[?j := ?v]) (unat (wal_index_hash_slot ((?pages @ [p]) ! i))) i"
    if i: "i < Suc (length ?pages)" for i
  proof (cases "i < length ?pages")
    case True
    then have "entry_slot ?slots (unat (wal_index_hash_slot (?pages ! i))) i" using ok by (simp add: segment_ok_def Let_def)
    then show ?thesis using entry_slot_update z v l True by (metis nth_append)
  next
    case False
    then have "i = length ?pages" using i by simp
    then show ?thesis using entry_slot_new [OF run l] v by simp
  qed
  ultimately show ?thesis using ok n l
    by (simp add: segment_ok_def Let_def after_insert_def segment_capacity_def del: of_nat_Suc)
qed

lemma segment_insert_ok:
  assumes ok: "segment_ok seg" and n: "length (hs_page_numbers seg) < segment_capacity seg"
  shows "\<exists>seg'. segment_insert p seg = Some (Inr (word_of_nat (Suc (length (hs_page_numbers seg)))), seg') \<and>
    segment_ok seg' \<and> hs_page_numbers seg' = hs_page_numbers seg @ [p] \<and> hs_kind seg' = hs_kind seg"
proof -
  let ?s = "unat (wal_index_hash_slot p)" and ?n = "length (hs_page_numbers seg)"
  obtain j where "j < 8192" "hs_hash_slots seg ! j = 0" using free_slot_exists [OF ok] .
  then obtain d where run: "run_to (hs_hash_slots seg) ?s d" using run_exists unat_hash_slot by metis
  have l: "length (hs_hash_slots seg) = 8192" using ok by (simp add: segment_ok_def Let_def)
  have "probe_insert 8192 (hs_hash_slots seg) (slot_word ?s) (slot_word (probe_at ?s 0)) v =
      Some (Inr ((hs_hash_slots seg)[probe_at ?s d := v]))" for v
    by (rule probe_insert_run [OF run l]) (use run in \<open>simp_all add: run_to_def\<close>)
  then have "segment_insert p seg = Some (Inr (word_of_nat (Suc ?n)), after_insert p (probe_at ?s d) seg)"
    using n capacity_le [of seg]
    by (simp add: segment_insert_def Let_def WAL_INDEX_HASH_SLOTS_def after_insert_def del: of_nat_Suc)
  then show ?thesis using after_insert_ok [OF ok n run] by (simp add: after_insert_def)
qed

lemma segment_insert_full:
  "\<not> length (hs_page_numbers seg) < segment_capacity seg \<Longrightarrow> segment_insert p seg = Some (Inl DatabaseFull, seg)"
  by (simp add: segment_insert_def)

text \<open>The index of the newest entry for a page.\<close>

definition latest :: "u32 list \<Rightarrow> u32 \<Rightarrow> nat option" where
  "latest pages p = (if p \<in> set pages then Some (Max {i. i < length pages \<and> pages ! i = p}) else None)"

lemma latest_SomeI:
  assumes "i < length pages" "pages ! i = p" "\<And>k. k < length pages \<Longrightarrow> pages ! k = p \<Longrightarrow> k \<le> i"
  shows "latest pages p = Some i"
proof -
  have "Max {i. i < length pages \<and> pages ! i = p} = i" by (rule Max_eqI) (use assms in auto)
  moreover have "p \<in> set pages" using assms(1,2) nth_mem by blast
  ultimately show ?thesis by (simp add: latest_def)
qed

lemma latest_SomeD:
  assumes "latest pages p = Some i"
  shows "i < length pages \<and> pages ! i = p \<and> (\<forall>k. i < k \<and> k < length pages \<longrightarrow> pages ! k \<noteq> p)"
proof -
  let ?S = "{i. i < length pages \<and> pages ! i = p}"
  have "p \<in> set pages" and i: "i = Max ?S" using assms by (auto simp: latest_def split: if_splits)
  then have "?S \<noteq> {}" by (auto simp: in_set_conv_nth)
  then have "Max ?S \<in> ?S" by (intro Max_in) simp_all
  moreover have "k \<le> Max ?S" if "k \<in> ?S" for k using that by (intro Max_ge) simp_all
  ultimately show ?thesis using i by (metis (mono_tags, lifting) leD mem_Collect_eq)
qed

lemma segment_lookup_latest:
  assumes ok: "segment_ok seg"
  shows "\<exists>r. segment_lookup seg p = Some r \<and>
    map_option (\<lambda>l. unat (hl_one_based_index l) - 1) r = latest (hs_page_numbers seg) p \<and>
    (\<forall>l. r = Some l \<longrightarrow> hl_page_number l = p \<and> hl_one_based_index l \<noteq> 0 \<and>
       hs_hash_slots seg ! unat (hl_slot l) = hl_one_based_index l)"
proof -
  let ?s = "unat (wal_index_hash_slot p)" and ?pages = "hs_page_numbers seg" and ?slots = "hs_hash_slots seg"
  obtain j where "j < 8192" "?slots ! j = 0" using free_slot_exists [OF ok] .
  then obtain d where run: "run_to ?slots ?s d" using run_exists unat_hash_slot by metis
  have l: "length ?slots = 8192" and sm: "\<And>j. j < 8192 \<Longrightarrow> unat (?slots ! j) \<le> length ?pages"
    and small: "length ?pages \<le> 4096"
    using ok capacity_le [of seg] by (auto simp: segment_ok_def Let_def)
  have "best_of ?pages ?slots ?s p 0 None" by (simp add: best_of_def)
  then obtain r where r: "probe_lookup 8192 ?pages ?slots p (slot_word ?s) (slot_word (probe_at ?s 0)) None = Some r"
    and b: "best_of ?pages ?slots ?s p d r"
    using probe_lookup_run [OF run l _ sm, of p 0 None 8192] run by (auto simp: run_to_def)
  have lk: "segment_lookup seg p = Some r" using r by (simp add: segment_lookup_def Let_def WAL_INDEX_HASH_SLOTS_def)
  have idx: "unat (word_of_nat (Suc i) :: u16) = Suc i" if "i < length ?pages" for i
    using that small by (simp add: unat_of_nat take_bit_nat_eq_self del: of_nat_Suc)
  have idx1: "unat (word_of_nat (Suc i) - 1 :: u16) = i" if "i < length ?pages" for i
    using that small by (simp add: unat_of_nat take_bit_nat_eq_self)
  have hit: "\<exists>k<d. ?slots ! probe_at ?s k = word_of_nat (Suc i) \<and> matches ?pages ?slots ?s p k"
    if i: "i < length ?pages" "?pages ! i = p" for i
  proof -
    obtain k where k: "k < 8192" "?slots ! probe_at ?s k = word_of_nat (Suc i)" "\<forall>e\<le>k. ?slots ! probe_at ?s e \<noteq> 0"
      using ok i by (force simp: segment_ok_def Let_def entry_slot_def)
    have "k < d" using k(3) run by (metis not_le run_to_def)
    moreover have "matches ?pages ?slots ?s p k" using i idx1 [OF i(1)] by (simp only: matches_def k(2))
    ultimately show ?thesis using k(2) by blast
  qed
  show ?thesis
  proof (cases r)
    case None
    then have "p \<notin> set ?pages" using b hit by (auto simp: best_of_def in_set_conv_nth)
    then show ?thesis using lk None by (simp add: latest_def)
  next
    case (Some w)
    then obtain k where k: "k < d" "matches ?pages ?slots ?s p k" "hl_slot w = slot_word (probe_at ?s k)"
      "hl_one_based_index w = ?slots ! probe_at ?s k" "hl_page_number w = p"
      and mx: "\<And>k'. k' < d \<Longrightarrow> matches ?pages ?slots ?s p k' \<Longrightarrow> ?slots ! probe_at ?s k' \<le> hl_one_based_index w"
      using b by (auto simp: best_of_def)
    have nz: "?slots ! probe_at ?s k \<noteq> 0" using run k(1) by (simp add: run_to_def)
    define i where "i = unat (?slots ! probe_at ?s k) - 1"
    have i: "i < length ?pages" "unat (?slots ! probe_at ?s k) = Suc i" "unat (?slots ! probe_at ?s k - 1) = i"
      using sm [of "probe_at ?s k"] nz unat_gt_0 [of "?slots ! probe_at ?s k"] by (simp_all add: i_def unat_minus_one)
    have "latest ?pages p = Some i"
    proof (rule latest_SomeI [OF i(1)])
      show "?pages ! i = p" using k(2) i(3) by (simp add: matches_def)
      fix i' assume i': "i' < length ?pages" "?pages ! i' = p"
      obtain k' where "k' < d" "?slots ! probe_at ?s k' = word_of_nat (Suc i')" "matches ?pages ?slots ?s p k'"
        using hit [OF i'] by blast
      then have "word_of_nat (Suc i') \<le> ?slots ! probe_at ?s k" using mx [of k'] k(4) by simp
      then show "i' \<le> i" using i(2) idx [OF i'(1)] by (simp add: word_le_nat_alt del: of_nat_Suc)
    qed
    then show ?thesis using lk Some k(3-5) i(2) nz by simp
  qed
qed

section \<open>Frame indexes as a contract\<close>

text \<open>What the log relies on: an index is a list of page numbers of bounded length, insertion
  appends to it and reports the position, and lookup finds the newest position of a page.\<close>

fun insert_all :: "(u32 \<Rightarrow> 's \<Rightarrow> ((FrankenError + u16) \<times> 's) option) \<Rightarrow> u32 list \<Rightarrow> 's \<Rightarrow> 's option" where
  "insert_all ins [] s = Some s"
| "insert_all ins (p # ps) s = (case ins p s of Some (Inr _, s') \<Rightarrow> insert_all ins ps s' | _ \<Rightarrow> None)"

locale frame_index =
  fixes valid :: "'s \<Rightarrow> bool" and pages :: "'s \<Rightarrow> u32 list" and cap :: "'s \<Rightarrow> nat"
    and ins :: "u32 \<Rightarrow> 's \<Rightarrow> ((FrankenError + u16) \<times> 's) option"
    and find :: "'s \<Rightarrow> u32 \<Rightarrow> WalHashLookup option option"
  assumes ins_room: "valid s \<Longrightarrow> length (pages s) < cap s \<Longrightarrow>
      \<exists>s'. ins p s = Some (Inr (word_of_nat (Suc (length (pages s)))), s') \<and> valid s' \<and> pages s' = pages s @ [p] \<and> cap s' = cap s"
    and ins_full: "valid s \<Longrightarrow> \<not> length (pages s) < cap s \<Longrightarrow> ins p s = Some (Inl DatabaseFull, s)"
    and find_latest: "valid s \<Longrightarrow> \<exists>r. find s p = Some r \<and> map_option (\<lambda>l. unat (hl_one_based_index l) - 1) r = latest (pages s) p"
begin

lemma insert_all_room:
  "valid s \<Longrightarrow> length (pages s) + length ps \<le> cap s \<Longrightarrow>
   \<exists>s'. insert_all ins ps s = Some s' \<and> valid s' \<and> pages s' = pages s @ ps \<and> cap s' = cap s"
proof (induction ps arbitrary: s)
  case (Cons p ps)
  then obtain s1 where s1: "ins p s = Some (Inr (word_of_nat (Suc (length (pages s)))), s1)" "valid s1"
    "pages s1 = pages s @ [p]" "cap s1 = cap s"
    using ins_room [of s p] by auto
  then show ?case using Cons.IH [of s1] Cons.prems(2) by simp
qed simp

lemma insert_all_full:
  assumes "valid s" "length (pages s) + length ps > cap s" "length (pages s) \<le> cap s"
  shows "insert_all ins ps s = None"
  using assms
proof (induction ps arbitrary: s)
  case (Cons p ps)
  show ?case
  proof (cases "length (pages s) < cap s")
    case True
    then obtain s1 where s1: "ins p s = Some (Inr (word_of_nat (Suc (length (pages s)))), s1)" "valid s1"
      "pages s1 = pages s @ [p]" "cap s1 = cap s"
      using ins_room Cons.prems(1) by blast
    then show ?thesis using Cons.IH [of s1] Cons.prems True by simp
  qed (use ins_full Cons.prems(1) in simp)
qed simp

lemma find_after_inserts:
  assumes "valid s" "pages s = []" "length ps \<le> cap s"
  shows "\<exists>s'. insert_all ins ps s = Some s' \<and>
    (\<forall>p. \<exists>r. find s' p = Some r \<and> map_option (\<lambda>l. unat (hl_one_based_index l) - 1) r = latest ps p)"
  using insert_all_room [OF assms(1), of ps] assms(2,3) find_latest by fastforce

end

interpretation segment: frame_index segment_ok hs_page_numbers segment_capacity segment_insert segment_lookup
proof
  fix s p assume "segment_ok s"
  then show "\<exists>r. segment_lookup s p = Some r \<and> map_option (\<lambda>l. unat (hl_one_based_index l) - 1) r = latest (hs_page_numbers s) p"
    using segment_lookup_latest by blast
next
  fix s p assume "segment_ok s" "length (hs_page_numbers s) < segment_capacity s"
  then show "\<exists>s'. segment_insert p s = Some (Inr (word_of_nat (Suc (length (hs_page_numbers s)))), s') \<and>
      segment_ok s' \<and> hs_page_numbers s' = hs_page_numbers s @ [p] \<and> segment_capacity s' = segment_capacity s"
    using segment_insert_ok [of s p] by (auto simp: segment_capacity_def)
qed (rule segment_insert_full)

lemma segment_new_simps [simp]:
  "hs_page_numbers (segment_new kind) = []" "segment_capacity (segment_new kind) = usable_page_entries kind"
  by (simp_all add: segment_new_def segment_capacity_def)

text \<open>C29: The WAL index finds the newest frame of every page.  Up to its capacity, a segment takes any
  sequence of page numbers, in spite of collisions of the hash function; afterwards a lookup of any
  page ends, and returns the position of the last insertion of that page, or nothing if it was
  never inserted.  One page number more is refused with \<open>DatabaseFull\<close>.\<close>

theorem wal_index_lookup_latest:
  "(length ps \<le> usable_page_entries kind \<longrightarrow>
      (\<exists>seg. insert_all segment_insert ps (segment_new kind) = Some seg \<and> hs_page_numbers seg = ps \<and>
        (\<forall>p. \<exists>r. segment_lookup seg p = Some r \<and>
           (case r of
              None \<Rightarrow> p \<notin> set ps
            | Some l \<Rightarrow> hl_page_number l = p \<and>
                (\<exists>i<length ps. unat (hl_one_based_index l) = Suc i \<and> ps ! i = p \<and> (\<forall>k. i < k \<and> k < length ps \<longrightarrow> ps ! k \<noteq> p)))) \<and>
        (length ps = usable_page_entries kind \<longrightarrow> (\<forall>p. segment_insert p seg = Some (Inl DatabaseFull, seg))))) \<and>
   (usable_page_entries kind < length ps \<longrightarrow> insert_all segment_insert ps (segment_new kind) = None)"
proof (intro conjI impI)
  assume n: "length ps \<le> usable_page_entries kind"
  obtain seg where seg: "insert_all segment_insert ps (segment_new kind) = Some seg" "segment_ok seg" "hs_page_numbers seg = ps"
    "segment_capacity seg = usable_page_entries kind"
    using segment.insert_all_room [of "segment_new kind" ps] n by auto
  have "\<exists>r. segment_lookup seg p = Some r \<and>
      (case r of None \<Rightarrow> p \<notin> set ps
       | Some l \<Rightarrow> hl_page_number l = p \<and> (\<exists>i<length ps. unat (hl_one_based_index l) = Suc i \<and> ps ! i = p \<and>
           (\<forall>k. i < k \<and> k < length ps \<longrightarrow> ps ! k \<noteq> p)))" for p
  proof -
    obtain r where r: "segment_lookup seg p = Some r" "map_option (\<lambda>l. unat (hl_one_based_index l) - 1) r = latest ps p"
      "\<forall>l. r = Some l \<longrightarrow> hl_page_number l = p \<and> hl_one_based_index l \<noteq> 0"
      using segment_lookup_latest [OF seg(2), of p] seg(3) by blast
    show ?thesis
    proof (cases r)
      case None then show ?thesis using r by (auto simp: latest_def split: if_splits)
    next
      case (Some l)
      then show ?thesis using r latest_SomeD [of ps p "unat (hl_one_based_index l) - 1"] unat_gt_0 [of "hl_one_based_index l"]
        by (auto intro!: exI [of _ "unat (hl_one_based_index l) - 1"])
    qed
  qed
  then show "\<exists>seg. insert_all segment_insert ps (segment_new kind) = Some seg \<and> hs_page_numbers seg = ps \<and>
      (\<forall>p. \<exists>r. segment_lookup seg p = Some r \<and>
           (case r of
              None \<Rightarrow> p \<notin> set ps
            | Some l \<Rightarrow> hl_page_number l = p \<and>
                (\<exists>i<length ps. unat (hl_one_based_index l) = Suc i \<and> ps ! i = p \<and> (\<forall>k. i < k \<and> k < length ps \<longrightarrow> ps ! k \<noteq> p)))) \<and>
      (length ps = usable_page_entries kind \<longrightarrow> (\<forall>p. segment_insert p seg = Some (Inl DatabaseFull, seg)))"
    using seg segment_insert_full [of seg] by (intro exI [of _ seg]) simp
next
  assume "usable_page_entries kind < length ps"
  then show "insert_all segment_insert ps (segment_new kind) = None"
    using segment.insert_all_full [of "segment_new kind" ps] by simp
qed

theorem wal_index_lookup_latest_witness:
  "\<exists>seg l. insert_all segment_insert [1, 8193, 1] (segment_new First) = Some seg \<and> wal_index_hash_slot 1 = wal_index_hash_slot 8193 \<and>
     segment_lookup seg 1 = Some (Some l) \<and> hl_one_based_index l = 3 \<and> segment_lookup seg 2 = Some None"
proof -
  have c: "length [1 :: u32, 8193, 1] \<le> usable_page_entries First" by (simp add: usable_page_entries_def)
  from wal_index_lookup_latest [THEN conjunct1, rule_format, OF c]
  obtain seg where seg: "insert_all segment_insert [1, 8193, 1] (segment_new First) = Some seg"
    and lk: "\<And>p. \<exists>r. segment_lookup seg p = Some r \<and>
           (case r of None \<Rightarrow> p \<notin> set [1, 8193, 1]
            | Some l \<Rightarrow> hl_page_number l = p \<and> (\<exists>i<3. unat (hl_one_based_index l) = Suc i \<and> [1, 8193, 1] ! i = p \<and>
                (\<forall>k. i < k \<and> k < 3 \<longrightarrow> [1, 8193, 1] ! k \<noteq> p)))"
    by (auto simp only: length_Cons list.size numeral_3_eq_3)
  obtain l i where l: "segment_lookup seg 1 = Some (Some l)" "i < 3" "unat (hl_one_based_index l) = Suc i"
    "\<forall>k. i < k \<and> k < 3 \<longrightarrow> [1, 8193, 1 :: u32] ! k \<noteq> 1"
    using lk [of 1] by (fastforce split: option.splits)
  have "\<not> i < 2" using l(4) [rule_format, of 2] by auto
  then have "i = 2" using l(2) by simp
  then have "hl_one_based_index l = 3" using l(3) by (simp add: word_unat_eq_iff)
  moreover have "segment_lookup seg 2 = Some None"
  proof -
    have "[1, 8193, 1] ! i \<noteq> (2 :: u32)" if "i < 3" for i
      using that by (auto simp: numeral_3_eq_3 less_Suc_eq)
    then show ?thesis using lk [of 2] by (fastforce split: option.splits)
  qed
  moreover have "wal_index_hash_slot 1 = wal_index_hash_slot 8193"
    by (simp add: wal_index_hash_slot_def WAL_INDEX_HASH_MULTIPLIER_def WAL_INDEX_HASH_MASK_def)
  ultimately show ?thesis using seg l(1) by blast
qed

end
