(* ===== verification/CheckpointPlanning.thy ===== *)
theory CheckpointPlanning
  imports Prelude
begin

text \<open>
  \<open>crates/fsqlite-wal/src/checkpoint.rs\<close>: how many frames a checkpoint may copy into the database,
  given the oldest reader, and what happens to the log afterwards.
\<close>

section \<open>Checkpoint planning\<close>

datatype CheckpointMode = Passive | Full | Restart | Truncate

datatype CheckpointProgress = Partial | Complete

datatype CheckpointPostAction = NoAction | ResetWal | TruncateWal

record CheckpointState =
  cs_total_frames :: u32
  cs_backfilled_frames :: u32
  cs_oldest_reader_frame :: "u32 option"

record CheckpointPlan =
  cp_mode :: CheckpointMode
  cp_frames_to_backfill :: u32
  cp_progress :: CheckpointProgress
  cp_blocked_by_readers :: bool
  cp_post_action :: CheckpointPostAction

definition normalized :: "CheckpointState \<Rightarrow> CheckpointState" where
  "normalized s =
     \<lparr>cs_total_frames = cs_total_frames s, cs_backfilled_frames = min (cs_backfilled_frames s) (cs_total_frames s),
      cs_oldest_reader_frame = map_option (\<lambda>frame. min frame (cs_total_frames s)) (cs_oldest_reader_frame s)\<rparr>"

definition remaining_frames :: "CheckpointState \<Rightarrow> u32" where
  "remaining_frames s = sat_sub (cs_total_frames s) (cs_backfilled_frames s)"

definition completion_for :: "u32 \<Rightarrow> u32 \<Rightarrow> CheckpointProgress" where
  "completion_for frames_to_backfill remaining = (if frames_to_backfill = remaining then Complete else Partial)"

definition plan_checkpoint :: "CheckpointMode \<Rightarrow> CheckpointState \<Rightarrow> CheckpointPlan" where
  "plan_checkpoint mode s0 =
     (let s = normalized s0;
          remaining = remaining_frames s;
          has_active_reader = (cs_oldest_reader_frame s \<noteq> None);
          reader_limit = (case cs_oldest_reader_frame s of None \<Rightarrow> cs_total_frames s | Some f \<Rightarrow> f);
          reader_eligible = sat_sub reader_limit (cs_backfilled_frames s);
          frames_to_backfill = min reader_eligible remaining;
          progress = completion_for frames_to_backfill remaining;
          idle = (progress = Complete \<and> \<not> has_active_reader \<and> cs_total_frames s > 0) in
      case mode of
        Passive \<Rightarrow> \<lparr>cp_mode = mode, cp_frames_to_backfill = frames_to_backfill, cp_progress = progress,
                    cp_blocked_by_readers = False, cp_post_action = NoAction\<rparr>
      | Full \<Rightarrow> \<lparr>cp_mode = mode, cp_frames_to_backfill = frames_to_backfill, cp_progress = progress,
                 cp_blocked_by_readers = (progress = Partial), cp_post_action = NoAction\<rparr>
      | Restart \<Rightarrow> \<lparr>cp_mode = mode, cp_frames_to_backfill = frames_to_backfill, cp_progress = progress,
                    cp_blocked_by_readers = has_active_reader,
                    cp_post_action = (if idle then ResetWal else NoAction)\<rparr>
      | Truncate \<Rightarrow> \<lparr>cp_mode = mode, cp_frames_to_backfill = frames_to_backfill, cp_progress = progress,
                     cp_blocked_by_readers = has_active_reader,
                     cp_post_action = (if idle then TruncateWal else NoAction)\<rparr>)"

definition completes_checkpoint :: "CheckpointPlan \<Rightarrow> bool" where
  "completes_checkpoint p \<longleftrightarrow> cp_progress p = Complete"

definition should_reset_wal :: "CheckpointPlan \<Rightarrow> bool" where
  "should_reset_wal p \<longleftrightarrow> cp_post_action p = ResetWal"

definition should_truncate_wal :: "CheckpointPlan \<Rightarrow> bool" where
  "should_truncate_wal p \<longleftrightarrow> cp_post_action p = TruncateWal"

section \<open>Checkpoint plans\<close>

definition reader_limit :: "CheckpointState \<Rightarrow> u32" where
  "reader_limit s = (case cs_oldest_reader_frame (normalized s) of None \<Rightarrow> cs_total_frames (normalized s) | Some f \<Rightarrow> f)"

lemma plan_words:
  "cp_frames_to_backfill (plan_checkpoint mode s) =
     min (sat_sub (reader_limit s) (cs_backfilled_frames (normalized s))) (remaining_frames (normalized s))"
  "cp_progress (plan_checkpoint mode s) =
     completion_for (cp_frames_to_backfill (plan_checkpoint mode s)) (remaining_frames (normalized s))"
  by (cases mode; simp only: plan_checkpoint_def Let_def reader_limit_def CheckpointMode.case CheckpointPlan.simps)+

lemma normalized_simps [simp]:
  "cs_total_frames (normalized s) = cs_total_frames s"
  "cs_oldest_reader_frame (normalized s) = None \<longleftrightarrow> cs_oldest_reader_frame s = None"
  by (simp_all add: normalized_def)

lemma plan_post:
  "cp_post_action (plan_checkpoint mode s) =
     (if cp_progress (plan_checkpoint mode s) = Complete \<and> \<not> cs_oldest_reader_frame (normalized s) \<noteq> None \<and>
         cs_total_frames (normalized s) > 0
      then (case mode of Restart \<Rightarrow> ResetWal | Truncate \<Rightarrow> TruncateWal | _ \<Rightarrow> NoAction) else NoAction)"
  "cp_blocked_by_readers (plan_checkpoint mode s) =
     (case mode of Passive \<Rightarrow> False | Full \<Rightarrow> cp_progress (plan_checkpoint mode s) = Partial
      | _ \<Rightarrow> cs_oldest_reader_frame (normalized s) \<noteq> None)"
  by (cases mode; simp only: plan_checkpoint_def Let_def CheckpointMode.case CheckpointPlan.simps if_cancel)+

lemma plan_fields:
  fixes s :: CheckpointState
  defines "b \<equiv> min (unat (cs_backfilled_frames s)) (unat (cs_total_frames s))"
    and "l \<equiv> (case cs_oldest_reader_frame s of None \<Rightarrow> unat (cs_total_frames s) | Some f \<Rightarrow> min (unat f) (unat (cs_total_frames s)))"
  shows "unat (cp_frames_to_backfill (plan_checkpoint mode s)) = l - b"
    "cp_progress (plan_checkpoint mode s) = Complete \<longleftrightarrow> l - b = unat (cs_total_frames s) - b"
proof -
  have u: "unat (remaining_frames (normalized s)) = unat (cs_total_frames s) - b"
    by (simp add: remaining_frames_def normalized_def b_def unat_sat_sub)
  have lim: "unat (reader_limit s) = l"
    by (simp add: reader_limit_def normalized_def l_def split: option.split)
  have "l \<le> unat (cs_total_frames s)" by (simp add: l_def split: option.split)
  then show f: "unat (cp_frames_to_backfill (plan_checkpoint mode s)) = l - b"
    by (simp add: plan_words(1) u lim unat_sat_sub) (simp add: normalized_def b_def)
  show "cp_progress (plan_checkpoint mode s) = Complete \<longleftrightarrow> l - b = unat (cs_total_frames s) - b"
    by (simp only: plan_words(2) completion_for_def word_unat_eq_iff f u) simp
qed

text \<open>C30: Checkpoint plans are safe and make progress.  In every mode, the plan moves no frame past
  the end of the log and, while a reader is active, none past the oldest reader's frame.  It is
  complete exactly if afterwards every frame is backfilled, which is the case whenever no reader is
  active.  The log is reset or truncated only if the plan is complete, no reader is active and the
  log is not empty, and then in exactly the modes that ask for it.\<close>

theorem checkpoint_plan_safe:
  "(let p = plan_checkpoint mode s; n = unat (cs_total_frames s); b = min (unat (cs_backfilled_frames s)) n;
        m = unat (cp_frames_to_backfill p) in
    b + m \<le> n \<and>
    (\<forall>r. cs_oldest_reader_frame s = Some r \<and> 0 < m \<longrightarrow> b + m \<le> unat r) \<and>
    (completes_checkpoint p \<longleftrightarrow> b + m = n) \<and>
    (cs_oldest_reader_frame s = None \<longrightarrow> completes_checkpoint p) \<and>
    (should_reset_wal p \<longleftrightarrow> mode = Restart \<and> completes_checkpoint p \<and> cs_oldest_reader_frame s = None \<and> 0 < n) \<and>
    (should_truncate_wal p \<longleftrightarrow> mode = Truncate \<and> completes_checkpoint p \<and> cs_oldest_reader_frame s = None \<and> 0 < n) \<and>
    (cp_blocked_by_readers p \<longrightarrow> mode \<noteq> Passive \<and> cs_oldest_reader_frame s \<noteq> None))"
proof -
  have post: "should_reset_wal (plan_checkpoint mode s) \<longleftrightarrow>
      mode = Restart \<and> completes_checkpoint (plan_checkpoint mode s) \<and> cs_oldest_reader_frame s = None \<and> 0 < cs_total_frames s"
    "should_truncate_wal (plan_checkpoint mode s) \<longleftrightarrow>
      mode = Truncate \<and> completes_checkpoint (plan_checkpoint mode s) \<and> cs_oldest_reader_frame s = None \<and> 0 < cs_total_frames s"
    unfolding should_reset_wal_def should_truncate_wal_def completes_checkpoint_def plan_post(1)
    by (auto split: CheckpointMode.split)
  have blocked: "cp_blocked_by_readers (plan_checkpoint mode s) \<longrightarrow>
      mode \<noteq> Passive \<and> (cs_oldest_reader_frame s \<noteq> None \<or> cp_progress (plan_checkpoint mode s) \<noteq> Complete)"
    unfolding plan_post(2) by (auto split: CheckpointMode.split)
  let ?n = "unat (cs_total_frames s)" and ?p = "plan_checkpoint mode s"
  let ?b = "min (unat (cs_backfilled_frames s)) ?n"
  have z: "0 < cs_total_frames s \<longleftrightarrow> 0 < ?n" by (simp add: word_less_nat_alt)
  show ?thesis
  proof (cases "cs_oldest_reader_frame s")
    case None
    then have "unat (cp_frames_to_backfill ?p) = ?n - ?b" "completes_checkpoint ?p"
      using plan_fields [of mode s] by (simp_all add: completes_checkpoint_def)
    then show ?thesis using None post blocked z by (simp add: Let_def completes_checkpoint_def)
  next
    case (Some r)
    then have m: "unat (cp_frames_to_backfill ?p) = min (unat r) ?n - ?b"
      "completes_checkpoint ?p \<longleftrightarrow> min (unat r) ?n - ?b = ?n - ?b"
      using plan_fields [of mode s] by (simp_all add: completes_checkpoint_def)
    have "?b + (min (unat r) ?n - ?b) \<le> ?n" "0 < min (unat r) ?n - ?b \<longrightarrow> ?b + (min (unat r) ?n - ?b) \<le> unat r"
      "min (unat r) ?n - ?b = ?n - ?b \<longleftrightarrow> ?b + (min (unat r) ?n - ?b) = ?n" by linarith+
    then show ?thesis using Some post blocked m unfolding Let_def by simp
  qed
qed

theorem checkpoint_plan_safe_witness:
  "unat (cp_frames_to_backfill (plan_checkpoint Truncate \<lparr>cs_total_frames = 10, cs_backfilled_frames = 4, cs_oldest_reader_frame = Some 7\<rparr>)) \<le> 3 \<and>
   \<not> should_truncate_wal (plan_checkpoint Truncate \<lparr>cs_total_frames = 10, cs_backfilled_frames = 4, cs_oldest_reader_frame = Some 7\<rparr>) \<and>
   should_truncate_wal (plan_checkpoint Truncate \<lparr>cs_total_frames = 10, cs_backfilled_frames = 4, cs_oldest_reader_frame = None\<rparr>)"
  using checkpoint_plan_safe [of Truncate "\<lparr>cs_total_frames = 10, cs_backfilled_frames = 4, cs_oldest_reader_frame = Some 7\<rparr>"]
    checkpoint_plan_safe [of Truncate "\<lparr>cs_total_frames = 10, cs_backfilled_frames = 4, cs_oldest_reader_frame = None\<rparr>"]
  by (simp add: Let_def) linarith

end
