(* ===== verification/VfsFile.thy ===== *)
theory VfsFile
  imports PageStore
begin

text \<open>
  \<open>crates/fsqlite-vfs\<close>: the file interface \<open>VfsFile\<close> of \<open>traits.rs\<close> as a record of operations with
  the locale \<open>vfs_file\<close> as its contract, and the in-memory file of \<open>memory.rs\<close>, on which the
  contract is interpreted.  A failed write may have changed some of the bytes it covers (a torn
  write) but no others.  Truncating to a larger size may extend the file, as files of the operating
  system do, or leave it alone, as in-memory files do.
\<close>

datatype SyncFlags = NORMAL | FULL | DATAONLY

datatype SyncKind = DataOnly | DataAndMetadata | FullDurable

text \<open>A read returns the bytes it read; the rest of the caller's buffer is zeroed.  Offsets and sizes
  are \<open>u64\<close> values.\<close>

record 'f file_ops =
  fo_read :: "'f \<Rightarrow> nat \<Rightarrow> nat \<Rightarrow> FrankenError + bytes"
  fo_write :: "bytes \<Rightarrow> nat \<Rightarrow> 'f \<Rightarrow> (FrankenError + unit) \<times> 'f"
  fo_truncate :: "nat \<Rightarrow> 'f \<Rightarrow> (FrankenError + unit) \<times> 'f"
  fo_sync :: "SyncFlags \<Rightarrow> 'f \<Rightarrow> (FrankenError + unit) \<times> 'f"
  fo_file_size :: "'f \<Rightarrow> FrankenError + nat"

definition durable_sync_default :: "'f file_ops \<Rightarrow> SyncKind \<Rightarrow> 'f \<Rightarrow> (FrankenError + unit) \<times> 'f" where
  "durable_sync_default ops kind f = fo_sync ops (case kind of DataOnly \<Rightarrow> DATAONLY | _ \<Rightarrow> FULL) f"

fun write_page_batch_default :: "'f file_ops \<Rightarrow> (nat \<times> bytes) list \<Rightarrow> 'f \<Rightarrow> (FrankenError + unit) \<times> 'f" where
  "write_page_batch_default ops [] f = (Inr (), f)"
| "write_page_batch_default ops ((off, data) # writes) f =
     (case fo_write ops data off f of
        (Inl e, f') \<Rightarrow> (Inl e, f')
      | (Inr _, f') \<Rightarrow> write_page_batch_default ops writes f')"

section \<open>In-memory files\<close>

record MemoryVfsConfig =
  mc_initial_reserve_bytes :: nat
  mc_growth_chunk_bytes :: nat
  mc_max_bytes :: "nat option"

record MemoryVfsUsageState =
  mu_file_bytes :: nat
  mu_file_reserved_bytes :: nat
  mu_shm_bytes :: nat
  mu_shm_reserved_bytes :: nat
  mu_peak_reserved_bytes :: nat
  mu_growth_events :: nat

text \<open>A file with the part of the shared VFS state its operations use.\<close>

record MemoryFile =
  mf_data :: bytes
  mf_capacity :: nat
  mf_config :: MemoryVfsConfig
  mf_usage :: MemoryVfsUsageState

text \<open>The allocator behind a vector: reservation, which may fail, growth on demand and shrinking, each
  giving the new capacity.\<close>

record allocator =
  al_reserve_exact :: "nat \<Rightarrow> nat \<Rightarrow> nat \<Rightarrow> nat option"
  al_grow :: "nat \<Rightarrow> nat \<Rightarrow> nat"
  al_shrink_to_fit :: "nat \<Rightarrow> nat \<Rightarrow> nat"

definition total_reserved_bytes :: "MemoryVfsUsageState \<Rightarrow> nat" where
  "total_reserved_bytes u = usize_saturating_add (mu_file_reserved_bytes u) (mu_shm_reserved_bytes u)"

definition refresh_peak :: "MemoryVfsUsageState \<Rightarrow> MemoryVfsUsageState" where
  "refresh_peak u = u\<lparr>mu_peak_reserved_bytes := max (mu_peak_reserved_bytes u) (total_reserved_bytes u)\<rparr>"

definition apply_file_change :: "nat \<Rightarrow> nat \<Rightarrow> nat \<Rightarrow> nat \<Rightarrow> MemoryVfsUsageState \<Rightarrow> MemoryVfsUsageState" where
  "apply_file_change old_len old_reserved new_len new_reserved u =
     refresh_peak (u\<lparr>mu_file_bytes := usize_saturating_add (mu_file_bytes u - old_len) new_len,
       mu_file_reserved_bytes := usize_saturating_add (mu_file_reserved_bytes u - old_reserved) new_reserved,
       mu_growth_events := (if new_reserved > old_reserved then usize_saturating_add (mu_growth_events u) 1 else mu_growth_events u)\<rparr>)"

definition checked_memory_io_range :: "nat \<Rightarrow> nat \<Rightarrow> string \<Rightarrow> FrankenError + (nat \<times> nat)" where
  "checked_memory_io_range offset len what =
     (case usize_checked_add offset len of None \<Rightarrow> Inl (OutOfRange what) | Some e \<Rightarrow> Inr (offset, e))"

definition round_up_to_chunk :: "nat \<Rightarrow> nat \<Rightarrow> nat" where
  "round_up_to_chunk required chunk =
     (if chunk \<le> 1 then required
      else if required mod chunk = 0 then required else usize_saturating_add required (chunk - required mod chunk))"

definition next_growth_target :: "nat \<Rightarrow> nat \<Rightarrow> nat \<Rightarrow> nat \<Rightarrow> nat" where
  "next_growth_target current_reserved required_len initial_reserve_bytes growth_chunk_bytes =
     (let chunk = max growth_chunk_bytes 1;
          rounded_required = round_up_to_chunk required_len chunk;
          doubled = max (usize_saturating_mul current_reserved 2) chunk in
      max (max rounded_required doubled) initial_reserve_bytes)"

definition ensure_total_reserved_within_limit :: "MemoryVfsUsageState \<Rightarrow> nat \<Rightarrow> nat \<Rightarrow> nat option \<Rightarrow> FrankenError + unit" where
  "ensure_total_reserved_within_limit usage current_reserved proposed_reserved max_bytes =
     (case max_bytes of
        None \<Rightarrow> Inr ()
      | Some m \<Rightarrow>
          if usize_saturating_add (total_reserved_bytes usage - current_reserved) proposed_reserved > m
          then Inl OutOfMemory else Inr ())"

definition reserve_capacity :: "allocator \<Rightarrow> nat \<Rightarrow> MemoryFile \<Rightarrow> FrankenError + nat" where
  "reserve_capacity al required_len f =
     (let old_reserved = mf_capacity f in
      if required_len > old_reserved then
        let proposed = next_growth_target old_reserved required_len (mc_initial_reserve_bytes (mf_config f)) (mc_growth_chunk_bytes (mf_config f)) in
        bind_err (ensure_total_reserved_within_limit (mf_usage f) old_reserved proposed (mc_max_bytes (mf_config f))) (\<lambda>_.
          case al_reserve_exact al (length (mf_data f)) old_reserved (proposed - old_reserved) of
            None \<Rightarrow> Inl OutOfMemory | Some cap \<Rightarrow> Inr cap)
      else Inr old_reserved)"

definition store_data :: "allocator \<Rightarrow> nat \<Rightarrow> bytes \<Rightarrow> MemoryFile \<Rightarrow> MemoryFile" where
  "store_data al cap data f =
     (let cap' = (if length data > cap then al_grow al cap (length data) else cap) in
      f\<lparr>mf_data := data, mf_capacity := cap',
        mf_usage := apply_file_change (length (mf_data f)) (mf_capacity f) (length data) cap' (mf_usage f)\<rparr>)"

definition write_into_storage :: "allocator \<Rightarrow> bytes \<Rightarrow> nat \<Rightarrow> MemoryFile \<Rightarrow> (FrankenError + unit) \<times> MemoryFile" where
  "write_into_storage al buf offset f =
     (if buf = [] then (Inr (), f)
      else case checked_memory_io_range offset (length buf) ''write offset'' of
        Inl e \<Rightarrow> (Inl e, f)
      | Inr (offset, e) \<Rightarrow>
          (case reserve_capacity al e f of
             Inl er \<Rightarrow> (Inl er, f)
           | Inr cap \<Rightarrow>
               let data = mf_data f;
                   data' = (if offset = length data then data @ buf
                            else put offset buf (if e > length data then resize e 0 data else data)) in
               (Inr (), store_data al cap data' f)))"

text \<open>\<open>cancelled\<close> is the state of the caller's cancellation token, which reads and writes check first.\<close>

definition mem_read :: "bool \<Rightarrow> MemoryFile \<Rightarrow> nat \<Rightarrow> nat \<Rightarrow> FrankenError + bytes" where
  "mem_read cancelled f len offset =
     (if cancelled then Inl Abort
      else bind_err (checked_memory_io_range offset len ''read offset'') (\<lambda>_.
        let file_len = length (mf_data f) in
        if offset \<ge> file_len then Inr []
        else let to_read = min len (file_len - offset) in Inr (subslice offset (offset + to_read) (mf_data f))))"

definition mem_write :: "allocator \<Rightarrow> bool \<Rightarrow> bytes \<Rightarrow> nat \<Rightarrow> MemoryFile \<Rightarrow> (FrankenError + unit) \<times> MemoryFile" where
  "mem_write al cancelled buf offset f = (if cancelled then (Inl Abort, f) else write_into_storage al buf offset f)"

fun normalized_writes :: "(nat \<times> bytes) list \<Rightarrow> nat \<Rightarrow> FrankenError + ((nat \<times> bytes) list \<times> nat)" where
  "normalized_writes [] required_len = Inr ([], required_len)"
| "normalized_writes ((offset, data) # writes) required_len =
     (if data = [] then normalized_writes writes required_len
      else
        bind_err (checked_memory_io_range offset (length data) ''write offset'') (\<lambda>(offset, e).
        bind_err (normalized_writes writes (max required_len e)) (\<lambda>(ws, n). Inr ((offset, data) # ws, n))))"

definition mem_write_page_batch :: "allocator \<Rightarrow> bool \<Rightarrow> (nat \<times> bytes) list \<Rightarrow> MemoryFile \<Rightarrow> (FrankenError + unit) \<times> MemoryFile" where
  "mem_write_page_batch al cancelled writes f =
     (if cancelled then (Inl Abort, f)
      else case writes of
        [] \<Rightarrow> (Inr (), f)
      | [(offset, data)] \<Rightarrow> write_into_storage al data offset f
      | _ \<Rightarrow>
          (case normalized_writes writes (length (mf_data f)) of
             Inl e \<Rightarrow> (Inl e, f)
           | Inr ([], _) \<Rightarrow> (Inr (), f)
           | Inr (ws, required_len) \<Rightarrow>
               (case reserve_capacity al required_len f of
                  Inl e \<Rightarrow> (Inl e, f)
                | Inr cap \<Rightarrow>
                    let data = (if required_len > length (mf_data f) then resize required_len 0 (mf_data f) else mf_data f) in
                    (Inr (), store_data al cap (put_fields ws data) f))))"

definition mem_truncate :: "allocator \<Rightarrow> nat \<Rightarrow> MemoryFile \<Rightarrow> (FrankenError + unit) \<times> MemoryFile" where
  "mem_truncate al sz f =
     (let data = mf_data f; cap = mf_capacity f;
          data' = (if sz < length data then take sz data else data);
          cap' = (if sz < length data \<and> cap > 1024 \<and> sz < cap div 2 then al_shrink_to_fit al cap sz else cap) in
      (Inr (), f\<lparr>mf_data := data', mf_capacity := cap', mf_usage := apply_file_change (length data) cap (length data') cap' (mf_usage f)\<rparr>))"

definition mem_sync :: "SyncFlags \<Rightarrow> MemoryFile \<Rightarrow> (FrankenError + unit) \<times> MemoryFile" where
  "mem_sync flags f = (Inr (), f)"

definition mem_file_size :: "MemoryFile \<Rightarrow> FrankenError + nat" where
  "mem_file_size f = Inr (length (mf_data f))"

definition mem_file_ops :: "allocator \<Rightarrow> bool \<Rightarrow> MemoryFile file_ops" where
  "mem_file_ops al cancelled = \<lparr>fo_read = mem_read cancelled, fo_write = mem_write al cancelled, fo_truncate = mem_truncate al,
     fo_sync = mem_sync, fo_file_size = mem_file_size\<rparr>"

section \<open>The contract of files\<close>

definition write_at :: "nat \<Rightarrow> bytes \<Rightarrow> bytes \<Rightarrow> bytes" where
  "write_at off bs v = (if bs = [] then v else put off bs (if off + length bs > length v then resize (off + length bs) 0 v else v))"

lemma length_resize [simp]: "length (resize n x xs) = n"
  by (simp add: resize_def)

lemma resize_same [simp]: "length xs = n \<Longrightarrow> resize n x xs = xs"
  by (simp add: resize_def)

lemma length_write_at: "length (write_at off bs v) = (if bs = [] then length v else max (length v) (off + length bs))"
  by (simp add: write_at_def)

lemma write_at_end: "write_at (length v) bs v = v @ bs"
  by (simp add: write_at_def put_def resize_def)

lemma take_write_at: "off \<le> length v \<Longrightarrow> take off (write_at off bs v) = take off v"
  by (auto simp: write_at_def put_def resize_def min_def)

lemma read_write_at: "take (length bs) (drop off (write_at off bs v)) = bs"
  by (auto simp: write_at_def put_def resize_def min_def)

locale vfs_file =
  fixes view :: "'f \<Rightarrow> bytes" and ops :: "'f file_ops"
  assumes read_view: "fo_read ops f n off = Inr bs \<Longrightarrow> bs = take n (drop off (view f))"
    and write_ok: "fo_write ops bs off f = (Inr u, f') \<Longrightarrow> view f' = write_at off bs (view f)"
    and write_err: "fo_write ops bs off f = (Inl e, f') \<Longrightarrow> take off (view f') = take off (view f)"
    and write_err_behind: "fo_write ops bs off f = (Inl e, f') \<Longrightarrow> drop (off + length bs) (view f') = drop (off + length bs) (view f)"
    and truncate_ok: "fo_truncate ops n f = (Inr u, f') \<Longrightarrow> n \<le> length (view f) \<Longrightarrow> view f' = take n (view f)"
    and truncate_short: "fo_truncate ops n f = (Inr u, f') \<Longrightarrow> length (view f) < n \<Longrightarrow> take (length (view f)) (view f') = view f"
    and truncate_err: "fo_truncate ops n f = (Inl e, f') \<Longrightarrow> take n (view f') = take n (view f)"
    and sync_view: "fo_sync ops fl f = (r, f') \<Longrightarrow> view f' = view f"
    and size_view: "fo_file_size ops f = Inr n \<Longrightarrow> n = length (view f)"

context vfs_file
begin

text \<open>Whether it succeeds or fails, truncation keeps the bytes in front of the new length.\<close>

lemma truncate_prefix:
  assumes "fo_truncate ops n f = (r, f')" "m \<le> n" "m \<le> length (view f)"
  shows "take m (view f') = take m (view f)"
proof -
  have k: "take k (view f') = take k (view f) \<Longrightarrow> m \<le> k \<Longrightarrow> ?thesis" for k
    by (metis min.absorb1 take_take)
  show ?thesis
  proof (cases r)
    case (Inl e) then show ?thesis using truncate_err assms(1,2) by (intro k [of n]) simp_all
  next
    case (Inr u)
    then show ?thesis using truncate_ok [of n f u f'] truncate_short [of n f u f'] assms k [of n] k [of "length (view f)"]
      by (cases "n \<le> length (view f)") simp_all
  qed
qed

end

text \<open>Files that can always be read inside the address space.\<close>

locale readable_file = vfs_file +
  assumes read_total: "off + n \<le> usize_max \<Longrightarrow> \<exists>bs. fo_read ops f n off = Inr bs"
    and size_total: "\<exists>n. fo_file_size ops f = Inr n"
begin

lemma read_eq: "off + n \<le> usize_max \<Longrightarrow> fo_read ops f n off = Inr (take n (drop off (view f)))"
  using read_total read_view by metis

lemma size_eq: "fo_file_size ops f = Inr (length (view f))"
  using size_total size_view by metis

end

lemma range_ok: "checked_memory_io_range off n what = (if off + n \<le> usize_max then Inr (off, off + n) else Inl (OutOfRange what))"
  by (simp add: checked_memory_io_range_def usize_checked_add_def)

lemma mf_data_store [simp]: "mf_data (store_data al cap data f) = data"
  by (simp add: store_data_def Let_def)

lemma storage_write:
  "write_into_storage al buf off f = (r, f') \<Longrightarrow> (case r of Inl e \<Rightarrow> f' = f | Inr u \<Rightarrow> mf_data f' = write_at off buf (mf_data f))"
  by (auto simp: write_into_storage_def write_at_def range_ok Let_def put_def resize_def split: if_splits sum.splits prod.splits)

lemma mem_read_eq:
  "mem_read c f n off = (if c then Inl Abort else if off + n \<le> usize_max then Inr (take n (drop off (mf_data f))) else Inl (OutOfRange ''read offset''))"
  by (auto simp: mem_read_def range_ok Let_def subslice_def min_def)

lemma mem_file_ops_simps [simp]:
  "fo_read (mem_file_ops al c) = mem_read c" "fo_write (mem_file_ops al c) = mem_write al c"
  "fo_truncate (mem_file_ops al c) = mem_truncate al" "fo_sync (mem_file_ops al c) = mem_sync"
  "fo_file_size (mem_file_ops al c) = mem_file_size"
  by (simp_all add: mem_file_ops_def)

interpretation memory_file: vfs_file mf_data "mem_file_ops al cancelled" for al cancelled
proof
  fix f n off bs assume "fo_read (mem_file_ops al cancelled) f n off = Inr bs"
  then show "bs = take n (drop off (mf_data f))" by (simp add: mem_read_eq split: if_splits)
next
  fix bs off f u f' assume "fo_write (mem_file_ops al cancelled) bs off f = (Inr u, f')"
  then show "mf_data f' = write_at off bs (mf_data f)"
    using storage_write [of al bs off f "Inr u" f'] by (simp add: mem_write_def split: if_splits)
next
  fix bs off f e f' assume "fo_write (mem_file_ops al cancelled) bs off f = (Inl e, f')"
  then have "f' = f" using storage_write [of al bs off f "Inl e" f'] by (auto simp: mem_write_def split: if_splits)
  then show "take off (mf_data f') = take off (mf_data f)" "drop (off + length bs) (mf_data f') = drop (off + length bs) (mf_data f)" by simp_all
qed (auto simp: mem_truncate_def mem_sync_def mem_file_size_def Let_def split: if_splits)

interpretation memory_readable: readable_file mf_data "mem_file_ops al False" for al
  by unfold_locales (simp_all add: mem_read_eq mem_file_size_def)

section \<open>Batches of writes\<close>

lemma resize_write_at:
  assumes "length v \<le> n" "off + length bs \<le> n" "bs \<noteq> []"
  shows "resize n 0 (write_at off bs v) = put off bs (resize n 0 v)"
proof (rule nth_equalityI)
  have l: "length (write_at off bs v) \<le> n" using assms by (simp add: length_write_at)
  show len: "length (resize n 0 (write_at off bs v)) = length (put off bs (resize n 0 v))" using assms(2) by simp
  fix i assume "i < length (resize n 0 (write_at off bs v))"
  then have i: "i < n" by simp
  have pad: "resize n (0 :: u8) w ! i = (if i < length w then w ! i else 0)" if "length w \<le> n" for w
    using i that by (simp add: resize_def nth_append)
  have "write_at off bs v ! i = (if off \<le> i \<and> i < off + length bs then bs ! (i - off) else if i < length v then v ! i else 0)"
    if "i < length (write_at off bs v)"
    using that assms(3) by (auto simp: write_at_def nth_put resize_def nth_append split: if_splits)
  moreover have "put off bs (resize n 0 v) ! i = (if off \<le> i \<and> i < off + length bs then bs ! (i - off) else if i < length v then v ! i else 0)"
    using assms i pad [of v] by (simp add: nth_put)
  ultimately show "resize n 0 (write_at off bs v) ! i = put off bs (resize n 0 v) ! i"
    using pad [OF l] assms(3) by (auto simp: length_write_at)
qed

fun writes_at :: "(nat \<times> bytes) list \<Rightarrow> bytes \<Rightarrow> bytes" where
  "writes_at [] v = v"
| "writes_at ((off, bs) # ws) v = writes_at ws (write_at off bs v)"

lemma put_fields_writes_at:
  "length v \<le> n \<Longrightarrow> \<forall>(off, bs) \<in> set ws. bs \<noteq> [] \<and> off + length bs \<le> n \<Longrightarrow> put_fields ws (resize n 0 v) = resize n 0 (writes_at ws v)"
proof (induction ws arbitrary: v)
  case (Cons w ws)
  obtain off bs where w: "w = (off, bs)" by (cases w)
  then have b: "bs \<noteq> []" "off + length bs \<le> n" using Cons.prems(2) by auto
  then have "length (write_at off bs v) \<le> n" using Cons.prems(1) by (simp add: length_write_at)
  then show ?case using Cons.IH [of "write_at off bs v"] Cons.prems b w by (simp add: resize_write_at)
qed simp

lemma writes_at_length: "length (writes_at ws v) = fold (\<lambda>(off, bs) n. if bs = [] then n else max n (off + length bs)) ws (length v)"
  by (induction ws arbitrary: v) (auto simp: length_write_at)

lemma normalized_spec:
  "normalized_writes ws n = Inr (ws', m) \<Longrightarrow>
   ws' = filter (\<lambda>(off, bs). bs \<noteq> []) ws \<and> m = fold (\<lambda>(off, bs) n. if bs = [] then n else max n (off + length bs)) ws n \<and>
   n \<le> m \<and> (\<forall>(off, bs) \<in> set ws'. bs \<noteq> [] \<and> off + length bs \<le> m)"
proof (induction ws arbitrary: n ws')
  case (Cons w ws)
  obtain off bs where w: "w = (off, bs)" by (cases w)
  show ?case
  proof (cases "bs = []")
    case True then show ?thesis using Cons w by auto
  next
    case False
    then obtain ws1 where n: "normalized_writes ws (max n (off + length bs)) = Inr (ws1, m)" "ws' = (off, bs) # ws1"
      using Cons.prems w by (auto simp: bind_err_Inr range_ok split: if_splits)
    show ?thesis using Cons.IH [OF n(1)] n(2) w False by auto
  qed
qed simp

lemma writes_at_filter: "writes_at (filter (\<lambda>(off, bs). bs \<noteq> []) ws) v = writes_at ws v"
  by (induction ws arbitrary: v) (auto simp: write_at_def)

lemma batch_default:
  "write_page_batch_default (mem_file_ops al c) ws f = (Inr (), f') \<Longrightarrow> mf_data f' = writes_at ws (mf_data f)"
proof (induction ws arbitrary: f)
  case (Cons w ws)
  obtain off bs where w: "w = (off, bs)" by (cases w)
  then obtain f1 where f1: "mem_write al c bs off f = (Inr (), f1)" "write_page_batch_default (mem_file_ops al c) ws f1 = (Inr (), f')"
    using Cons.prems by (auto split: prod.splits sum.splits)
  then show ?case using Cons.IH [OF f1(2)] memory_file.write_ok [of al c bs off f "()" f1] w by simp
qed simp

lemma batch_writes:
  assumes "mem_write_page_batch al c ws f = (r, f')"
  shows "(case r of Inl e \<Rightarrow> f' = f | Inr u \<Rightarrow> mf_data f' = writes_at ws (mf_data f))"
proof (cases "c \<or> length ws \<le> 1")
  case True
  then consider "c" | "\<not> c" "ws = []" | off bs where "\<not> c" "ws = [(off, bs)]"
    by (cases ws) (auto simp: length_Suc_conv)
  then show ?thesis using assms
  proof cases
    case 3 then show ?thesis using assms storage_write [of al bs off f r f'] by (simp add: mem_write_page_batch_def split: sum.splits)
  qed (auto simp: mem_write_page_batch_def)
next
  case False
  then obtain w1 w2 ws2 where ws: "ws = w1 # w2 # ws2" by (cases ws; cases "tl ws") auto
  have b: "mem_write_page_batch al c ws f =
      (case normalized_writes ws (length (mf_data f)) of Inl e \<Rightarrow> (Inl e, f) | Inr ([], _) \<Rightarrow> (Inr (), f)
       | Inr (ws', m) \<Rightarrow> (case reserve_capacity al m f of Inl e \<Rightarrow> (Inl e, f)
          | Inr cap \<Rightarrow> (Inr (), store_data al cap (put_fields ws' (if m > length (mf_data f) then resize m 0 (mf_data f) else mf_data f)) f)))"
    using False unfolding ws mem_write_page_batch_def Let_def by (cases w1) simp
  show ?thesis
  proof (cases "normalized_writes ws (length (mf_data f))")
    case (Inl e) then show ?thesis using assms b by auto
  next
    case (Inr wm)
    obtain ws' m where wm: "wm = (ws', m)" by (cases wm)
    note n = normalized_spec [OF Inr [unfolded wm]]
    have fin: "length (writes_at ws (mf_data f)) = m" using n by (simp add: writes_at_length)
    have grow: "(if m > length (mf_data f) then resize m 0 (mf_data f) else mf_data f) = resize m 0 (mf_data f)" using n by auto
    have "put_fields ws' (resize m 0 (mf_data f)) = resize m 0 (writes_at ws' (mf_data f))"
      using n by (intro put_fields_writes_at) auto
    also have "\<dots> = writes_at ws (mf_data f)" using n fin by (simp add: writes_at_filter)
    finally have pf: "put_fields ws' (resize m 0 (mf_data f)) = writes_at ws (mf_data f)" .
    show ?thesis
    proof (cases ws')
      case Nil
      then have "writes_at ws (mf_data f) = mf_data f" using n writes_at_filter [of ws "mf_data f"] by simp
      then show ?thesis using assms b Inr wm Nil by auto
    next
      case (Cons a as)
      then show ?thesis using assms b Inr wm grow pf by (auto split: sum.splits)
    qed
  qed
qed

lemma mem_truncate_data: "mf_data (snd (mem_truncate al n f)) = take n (mf_data f)"
  by (simp add: mem_truncate_def Let_def)

section \<open>Properties\<close>

text \<open>Whether a write is within the address space and its reservation succeeds.\<close>

definition write_fits :: "allocator \<Rightarrow> bytes \<Rightarrow> nat \<Rightarrow> MemoryFile \<Rightarrow> bool" where
  "write_fits al buf off f \<longleftrightarrow> off + length buf \<le> usize_max \<and> (\<exists>cap. reserve_capacity al (off + length buf) f = Inr cap)"

text \<open>In-memory files behave like files.  A write that fails, whether by cancellation, an
  offset outside the address space, the memory limit or the allocator, changes nothing; one that
  succeeds places its bytes at the offset, fills a gap with zeros and keeps all other bytes, so that
  reading there returns what was written and the file has the expected size; a non-empty write
  succeeds exactly if it fits.  Truncation only ever shortens.\<close>

theorem memory_file_contract:
  "mem_write al cancelled buf off f = (r, f') \<longrightarrow>
     (case r of
        Inl e \<Rightarrow> f' = f
      | Inr u \<Rightarrow> mf_data f' = write_at off buf (mf_data f) \<and>
          mem_file_size f' = Inr (if buf = [] then length (mf_data f) else max (length (mf_data f)) (off + length buf)) \<and>
          (off + length buf \<le> usize_max \<longrightarrow> mem_read False f' (length buf) off = Inr buf) \<and>
          (\<forall>off' n. off' + n \<le> off \<and> off' + n \<le> length (mf_data f) \<longrightarrow> mem_read False f' n off' = mem_read False f n off') \<and>
          (\<forall>n. mf_data (snd (mem_truncate al n f')) = take n (mf_data f')))
     \<and> (buf \<noteq> [] \<longrightarrow> (r = Inr ()) = (\<not> cancelled \<and> write_fits al buf off f))"
proof (intro impI conjI)
  assume w: "mem_write al cancelled buf off f = (r, f')"
  show "(r = Inr ()) = (\<not> cancelled \<and> write_fits al buf off f)" if "buf \<noteq> []"
    using w that by (auto simp: mem_write_def write_into_storage_def write_fits_def range_ok Let_def split: if_splits sum.splits)
  show "case r of
        Inl e \<Rightarrow> f' = f
      | Inr u \<Rightarrow> mf_data f' = write_at off buf (mf_data f) \<and>
          mem_file_size f' = Inr (if buf = [] then length (mf_data f) else max (length (mf_data f)) (off + length buf)) \<and>
          (off + length buf \<le> usize_max \<longrightarrow> mem_read False f' (length buf) off = Inr buf) \<and>
          (\<forall>off' n. off' + n \<le> off \<and> off' + n \<le> length (mf_data f) \<longrightarrow> mem_read False f' n off' = mem_read False f n off') \<and>
          (\<forall>n. mf_data (snd (mem_truncate al n f')) = take n (mf_data f'))"
  proof (cases r)
    case (Inl e)
    then show ?thesis using w storage_write [of al buf off f r f'] by (auto simp: mem_write_def split: if_splits)
  next
    case (Inr u)
    then have d: "mf_data f' = write_at off buf (mf_data f)"
      using w storage_write [of al buf off f r f'] by (simp add: mem_write_def split: if_splits)
    have "take n (drop off' (write_at off buf (mf_data f))) = take n (drop off' (mf_data f))"
      if "off' + n \<le> off" "off' + n \<le> length (mf_data f)" for off' n
      using that by (auto simp: write_at_def put_def resize_def drop_take min_def)
    then show ?thesis using Inr d
      by (simp add: mem_read_eq mem_file_size_def length_write_at read_write_at mem_truncate_data)
  qed
qed

definition demo_alloc :: allocator where
  "demo_alloc = \<lparr>al_reserve_exact = (\<lambda>len cap extra. Some (max cap (len + extra))), al_grow = (\<lambda>cap need. max (2 * cap) need),
     al_shrink_to_fit = (\<lambda>cap len. len)\<rparr>"

definition demo_file :: "bytes \<Rightarrow> MemoryFile" where
  "demo_file data = \<lparr>mf_data = data, mf_capacity = length data,
     mf_config = \<lparr>mc_initial_reserve_bytes = 0, mc_growth_chunk_bytes = 64, mc_max_bytes = Some 100\<rparr>,
     mf_usage = \<lparr>mu_file_bytes = length data, mu_file_reserved_bytes = length data, mu_shm_bytes = 0, mu_shm_reserved_bytes = 0,
       mu_peak_reserved_bytes = length data, mu_growth_events = 0\<rparr>\<rparr>"

lemmas demo_reserve_simps = usize_max_def reserve_capacity_def demo_file_def demo_alloc_def next_growth_target_def
  round_up_to_chunk_def ensure_total_reserved_within_limit_def total_reserved_bytes_def usize_saturating_add_def
  usize_saturating_mul_def Let_def

theorem memory_file_contract_witness:
  "(\<exists>f'. mem_write demo_alloc False [1, 2] 3 (demo_file [7]) = (Inr (), f') \<and> mf_data f' = [7, 0, 0, 1, 2] \<and>
      mem_read False f' 2 3 = Inr [1, 2]) \<and>
   mem_write demo_alloc False [1, 2] 300 (demo_file [7]) = (Inl OutOfMemory, demo_file [7])"
proof (rule conjI)
  have fits: "write_fits demo_alloc [1, 2] 3 (demo_file [7])" by (simp add: write_fits_def demo_reserve_simps)
  obtain r f' where w: "mem_write demo_alloc False [1, 2] 3 (demo_file [7]) = (r, f')" by fastforce
  note c = memory_file_contract [rule_format, OF w]
  have r: "r = Inr ()" using c fits by simp
  have "mf_data f' = write_at 3 [1, 2] (mf_data (demo_file [7]))" using c r by simp
  moreover have "mem_read False f' 2 3 = Inr [1, 2]" using c r by (simp add: usize_max_def) (simp add: numeral_2_eq_2)
  ultimately show "\<exists>f'. mem_write demo_alloc False [1, 2] 3 (demo_file [7]) = (Inr (), f') \<and> mf_data f' = [7, 0, 0, 1, 2] \<and>
      mem_read False f' 2 3 = Inr [1, 2]"
    using w r by (simp add: demo_file_def write_at_def put_def resize_def numeral_2_eq_2)
next
  show "mem_write demo_alloc False [1, 2] 300 (demo_file [7]) = (Inl OutOfMemory, demo_file [7])"
    by (simp add: mem_write_def write_into_storage_def range_ok demo_reserve_simps)
qed

text \<open>A batch of page writes has the effect of the writes one after the other.  The batched
  routine of in-memory files leaves the same bytes as the default of the interface, which issues
  the writes in order, overlapping ones included; and unlike it, a batch that fails changes
  nothing.\<close>

theorem memory_batch_sequential:
  assumes "mem_write_page_batch al cancelled ws f = (r, f')"
  shows "(case r of
      Inl e \<Rightarrow> f' = f
    | Inr u \<Rightarrow> (\<forall>f2. write_page_batch_default (mem_file_ops al cancelled) ws f = (Inr (), f2) \<longrightarrow> mf_data f2 = mf_data f') \<and>
        (\<forall>off bs. ws \<noteq> [] \<and> last ws = (off, bs) \<longrightarrow> take (length bs) (drop off (mf_data f')) = bs))"
proof (cases r)
  case (Inl e) then show ?thesis using batch_writes [OF assms] by simp
next
  case (Inr u)
  then have d: "mf_data f' = writes_at ws (mf_data f)" using batch_writes [OF assms] by simp
  have app: "writes_at (xs @ ys) v = writes_at ys (writes_at xs v)" for xs ys v
    by (induction xs v rule: writes_at.induct) simp_all
  have "take (length bs) (drop off (mf_data f')) = bs" if l: "ws \<noteq> []" "last ws = (off, bs)" for off bs
  proof -
    have "ws = butlast ws @ [(off, bs)]" using l by (metis append_butlast_last_id)
    then have "mf_data f' = write_at off bs (writes_at (butlast ws) (mf_data f))"
      using app [of "butlast ws" "[(off, bs)]" "mf_data f"] d by simp
    then show ?thesis by (simp add: read_write_at)
  qed
  moreover have "mf_data f2 = mf_data f'" if "write_page_batch_default (mem_file_ops al cancelled) ws f = (Inr (), f2)" for f2
    using batch_default [OF that] d by simp
  ultimately show ?thesis unfolding Inr sum.case by blast
qed

theorem memory_batch_sequential_witness:
  "\<exists>f'. mem_write_page_batch demo_alloc False [(2, [5, 6]), (3, [8, 9])] (demo_file [7]) = (Inr (), f') \<and>
     take 2 (drop 3 (mf_data f')) = [8, 9]"
proof -
  obtain r f' where w: "mem_write_page_batch demo_alloc False [(2, [5, 6]), (3, [8, 9])] (demo_file [7]) = (r, f')" by fastforce
  then have "fst (mem_write_page_batch demo_alloc False [(2, [5, 6]), (3, [8, 9])] (demo_file [7])) = r" by simp
  then have r: "r = Inr ()" by (simp add: mem_write_page_batch_def range_ok demo_reserve_simps)
  then show ?thesis using memory_batch_sequential [OF w] w by (simp add: numeral_2_eq_2)
qed

end
