(* ===== verification/WalFile.thy ===== *)
theory WalFile
  imports WalChecksum VfsFile
begin

text \<open>
  \<open>crates/fsqlite-wal/src/wal.rs\<close>: the log file over a file of the V  The operations take the file
  operations as an argument; what they rely on is the locale \<open>vfs_file\<close>.  Frame indexes and counts
  are \<open>usize\<close>, file offsets \<open>u64\<close> values that saturate.  The reused scratch buffer, metrics,
  tracing and fault injection are left out.
\<close>

section \<open>Handles\<close>

record WalAppendFrameRef =
  af_page_number :: u32
  af_page_data :: bytes
  af_db_size_if_commit :: u32

record WalGenerationIdentity =
  gi_checkpoint_seq :: u32
  gi_salts :: WalSalts

definition from_header :: "WalHeader \<Rightarrow> WalGenerationIdentity" where
  "from_header header = \<lparr>gi_checkpoint_seq = wh_checkpoint_seq header, gi_salts = wh_salts header\<rparr>"

definition push_wal_frame_bytes :: "bytes \<Rightarrow> u32 \<Rightarrow> u32 \<Rightarrow> WalSalts \<Rightarrow> bytes \<Rightarrow> bytes" where
  "push_wal_frame_bytes scratch page_number db_size_if_commit salts page_data =
     scratch @ to_be 4 page_number @ to_be 4 db_size_if_commit @ to_be 4 (salt1 salts) @ to_be 4 (salt2 salts) @
     replicate 8 0 @ page_data"

record 'f WalFile =
  wf_file :: 'f
  wf_page_size :: nat
  wf_big_endian_checksum :: bool
  wf_header :: WalHeader
  wf_running_checksum :: SqliteWalChecksum
  wf_frame_count :: nat
  wf_last_commit_frame :: "nat option"
  wf_last_fsynced_frame_count :: nat

definition frame_size :: "'f WalFile \<Rightarrow> nat" where
  "frame_size w = WAL_FRAME_HEADER_SIZE + wf_page_size w"

definition offset_of_frame :: "nat \<Rightarrow> nat \<Rightarrow> nat" where
  "offset_of_frame fs index = usize_saturating_add WAL_HEADER_SIZE (usize_saturating_mul index fs)"

definition frame_offset :: "'f WalFile \<Rightarrow> nat \<Rightarrow> nat" where
  "frame_offset w index = offset_of_frame (frame_size w) index"

definition checked_sub_1 :: "nat \<Rightarrow> nat option" where
  "checked_sub_1 n = (if n = 0 then None else Some (n - 1))"

definition u32_max :: nat where "u32_max = 2 ^ 32 - 1"

section \<open>Creating, opening and refreshing\<close>

definition default_checksum :: SqliteWalChecksum where
  "default_checksum = \<lparr>ck_s1 = 0, ck_s2 = 0\<rparr>"

definition WalFile_create :: "'f file_ops \<Rightarrow> 'f \<Rightarrow> u32 \<Rightarrow> u32 \<Rightarrow> WalSalts \<Rightarrow> (FrankenError + 'f WalFile) \<times> 'f" where
  "WalFile_create ops file page_size checkpoint_seq salts =
     (let header = \<lparr>wh_magic = WAL_MAGIC_LE, wh_format_version = WAL_FORMAT_VERSION, wh_page_size = page_size,
            wh_checkpoint_seq = checkpoint_seq, wh_salts = salts, wh_checksum = default_checksum\<rparr> in
      case WalHeader_to_bytes header of
        Inl e \<Rightarrow> (Inl e, file)
      | Inr header_bytes \<Rightarrow>
          (case fo_write ops header_bytes 0 file of
             (Inl e, file1) \<Rightarrow> (Inl e, file1)
           | (Inr _, file1) \<Rightarrow>
               (case fo_truncate ops WAL_HEADER_SIZE file1 of
                  (Inl e, file2) \<Rightarrow> (Inl e, file2)
                | (Inr _, file2) \<Rightarrow>
                    (case read_wal_header_checksum header_bytes of
                       Inl e \<Rightarrow> (Inl e, file2)
                     | Inr running \<Rightarrow>
                         (Inr \<lparr>wf_file = file2, wf_page_size = unat page_size, wf_big_endian_checksum = False, wf_header = header,
                               wf_running_checksum = running, wf_frame_count = 0, wf_last_commit_frame = None,
                               wf_last_fsynced_frame_count = 0\<rparr>, file2)))))"

text \<open>The scan that opening, rebuilding and refreshing share: from \<open>frame_index\<close> to \<open>max_frames\<close>, it
  stops at a short read, a foreign salt or a checksum mismatch, and returns the count and the
  checksum of the last commit.\<close>

function scan_frames ::
  "'f file_ops \<Rightarrow> 'f \<Rightarrow> nat \<Rightarrow> bool \<Rightarrow> WalSalts \<Rightarrow> nat \<Rightarrow> nat \<Rightarrow> nat \<Rightarrow> SqliteWalChecksum \<Rightarrow> nat \<Rightarrow> SqliteWalChecksum \<Rightarrow>
   FrankenError + (nat \<times> SqliteWalChecksum)" where
  "scan_frames ops file ps be salts max_frames frame_index valid running commit_count commit_checksum =
     (let fs = WAL_FRAME_HEADER_SIZE + ps in
      if frame_index \<ge> max_frames then Inr (commit_count, commit_checksum)
      else
        bind_err (fo_read ops file fs (offset_of_frame fs frame_index)) (\<lambda>frame_buf.
        if length frame_buf < fs then Inr (commit_count, commit_checksum)
        else
          bind_err (WalFrameHeader_from_bytes (take WAL_FRAME_HEADER_SIZE frame_buf)) (\<lambda>frame_header.
          if fh_salts frame_header \<noteq> salts then Inr (commit_count, commit_checksum)
          else
            bind_err (compute_wal_frame_checksum frame_buf ps running be) (\<lambda>expected.
            if fh_checksum frame_header \<noteq> expected then Inr (commit_count, commit_checksum)
            else if is_commit frame_header
            then scan_frames ops file ps be salts max_frames (frame_index + 1) (valid + 1) expected (valid + 1) expected
            else scan_frames ops file ps be salts max_frames (frame_index + 1) (valid + 1) expected commit_count commit_checksum))))"
  by pat_completeness auto
termination
  by (relation "measure (\<lambda>(_, _, _, _, _, max_frames, frame_index, _). max_frames - frame_index)") auto

declare scan_frames.simps [simp del]

definition max_frames_of :: "nat \<Rightarrow> nat \<Rightarrow> nat" where
  "max_frames_of file_size fs = (file_size - WAL_HEADER_SIZE) div fs"

text \<open>Reading the header from the start of the file and checking its checksum.\<close>

definition read_checked_header :: "'f file_ops \<Rightarrow> 'f \<Rightarrow> FrankenError + (WalHeader \<times> SqliteWalChecksum)" where
  "read_checked_header ops file =
     bind_err (fo_read ops file WAL_HEADER_SIZE 0) (\<lambda>header_buf.
     if length header_buf < WAL_HEADER_SIZE then Inl (WalCorrupt ''WAL file too small for header'')
     else
       bind_err (WalHeader_from_bytes header_buf) (\<lambda>header.
       bind_err (read_wal_header_checksum header_buf) (\<lambda>header_checksum.
       bind_err (wal_header_checksum header_buf (big_endian_checksum header)) (\<lambda>expected_checksum.
       if header_checksum \<noteq> expected_checksum then Inl (WalCorrupt ''WAL header checksum mismatch'')
       else Inr (header, header_checksum)))))"

definition WalFile_open :: "'f file_ops \<Rightarrow> 'f \<Rightarrow> FrankenError + 'f WalFile" where
  "WalFile_open ops file =
     bind_err (read_checked_header ops file) (\<lambda>(header, header_checksum).
     let page_size = unat (wh_page_size header); be = big_endian_checksum header in
     bind_err (fo_file_size ops file) (\<lambda>file_size.
     bind_err (scan_frames ops file page_size be (wh_salts header) (max_frames_of file_size (WAL_FRAME_HEADER_SIZE + page_size)) 0 0
                 header_checksum 0 header_checksum) (\<lambda>(last_commit_frames, last_commit_checksum).
     Inr \<lparr>wf_file = file, wf_page_size = page_size, wf_big_endian_checksum = be, wf_header = header,
          wf_running_checksum = last_commit_checksum, wf_frame_count = last_commit_frames,
          wf_last_commit_frame = checked_sub_1 last_commit_frames, wf_last_fsynced_frame_count = last_commit_frames\<rparr>)))"

definition rebuild_state_from_file :: "'f file_ops \<Rightarrow> 'f WalFile \<Rightarrow> (FrankenError + unit) \<times> 'f WalFile" where
  "rebuild_state_from_file ops w =
     (case read_checked_header ops (wf_file w) of
        Inl e \<Rightarrow> (Inl e, w)
      | Inr (header, header_checksum) \<Rightarrow>
          let w1 = w\<lparr>wf_header := header, wf_page_size := unat (wh_page_size header),
                     wf_big_endian_checksum := big_endian_checksum header,
                     wf_running_checksum := header_checksum, wf_frame_count := 0\<rparr> in
          (case fo_file_size ops (wf_file w1) of
             Inl e \<Rightarrow> (Inl e, w1)
           | Inr file_size \<Rightarrow>
               (case scan_frames ops (wf_file w1) (wf_page_size w1) (wf_big_endian_checksum w1) (wh_salts (wf_header w1))
                       (max_frames_of file_size (frame_size w1)) 0 0 header_checksum 0 header_checksum of
                  Inl e \<Rightarrow> (Inl e, w1)
                | Inr (last_commit_count, last_commit_checksum) \<Rightarrow>
                    (Inr (), w1\<lparr>wf_frame_count := last_commit_count, wf_running_checksum := last_commit_checksum,
                                wf_last_commit_frame := checked_sub_1 last_commit_count\<rparr>))))"

definition same_generation :: "WalHeader \<Rightarrow> WalHeader \<Rightarrow> bool" where
  "same_generation a b \<longleftrightarrow>
     \<not> (wh_magic a \<noteq> wh_magic b \<or> wh_format_version a \<noteq> wh_format_version b \<or> wh_page_size a \<noteq> wh_page_size b \<or>
        wh_checkpoint_seq a \<noteq> wh_checkpoint_seq b \<or> wh_salts a \<noteq> wh_salts b)"

definition refresh :: "'f file_ops \<Rightarrow> 'f WalFile \<Rightarrow> (FrankenError + unit) \<times> 'f WalFile" where
  "refresh ops w =
     (let expected_size = frame_offset w (wf_frame_count w) in
      case fo_file_size ops (wf_file w) of
        Inl e \<Rightarrow> (Inl e, w)
      | Inr file_size \<Rightarrow>
          if file_size < expected_size then rebuild_state_from_file ops w
          else
            (case read_checked_header ops (wf_file w) of
               Inl e \<Rightarrow> (Inl e, w)
             | Inr (disk_header, _) \<Rightarrow>
                 if \<not> same_generation disk_header (wf_header w) then rebuild_state_from_file ops w
                 else if file_size = expected_size then (Inr (), w)
                 else
                   let available_frames = max_frames_of file_size (frame_size w) in
                   if available_frames \<le> wf_frame_count w then (Inr (), w)
                   else
                     (case scan_frames ops (wf_file w) (wf_page_size w) (wf_big_endian_checksum w) (wh_salts (wf_header w))
                             available_frames (wf_frame_count w) (wf_frame_count w) (wf_running_checksum w)
                             (wf_frame_count w) (wf_running_checksum w) of
                        Inl e \<Rightarrow> (Inl e, w)
                      | Inr (last_commit_count, last_commit_checksum) \<Rightarrow>
                          (Inr (), w\<lparr>wf_frame_count := last_commit_count, wf_running_checksum := last_commit_checksum,
                                     wf_last_commit_frame := checked_sub_1 last_commit_count\<rparr>))))"

section \<open>Appending\<close>

definition advance_state_after_write ::
  "nat \<Rightarrow> SqliteWalChecksum \<Rightarrow> 'f WalFile \<Rightarrow> (FrankenError + unit) \<times> 'f WalFile" where
  "advance_state_after_write frames_written new_running_checksum w =
     (case usize_checked_add (wf_frame_count w) frames_written of
        None \<Rightarrow> (Inl DatabaseFull, w)
      | Some new_count \<Rightarrow>
          if new_count > u32_max then (Inl DatabaseFull, w)
          else (Inr (), w\<lparr>wf_frame_count := new_count, wf_running_checksum := new_running_checksum\<rparr>))"

definition append_frame ::
  "'f file_ops \<Rightarrow> u32 \<Rightarrow> bytes \<Rightarrow> u32 \<Rightarrow> 'f WalFile \<Rightarrow> (FrankenError + unit) \<times> 'f WalFile" where
  "append_frame ops page_number page_data db_size_if_commit w =
     (if wf_frame_count w \<ge> u32_max then (Inl DatabaseFull, w)
      else if length page_data \<noteq> wf_page_size w then (Inl (WalCorrupt ''page data size mismatch''), w)
      else
        let offset = frame_offset w (wf_frame_count w);
            frame = push_wal_frame_bytes [] page_number db_size_if_commit (wh_salts (wf_header w)) page_data in
        case write_wal_frame_checksum frame (wf_page_size w) (wf_running_checksum w) (wf_big_endian_checksum w) of
          Inl e \<Rightarrow> (Inl e, w)
        | Inr (new_checksum, frame') \<Rightarrow>
            (case fo_write ops frame' offset (wf_file w) of
               (Inl e, file') \<Rightarrow> (Inl e, w\<lparr>wf_file := file'\<rparr>)
             | (Inr _, file') \<Rightarrow>
                 let w1 = w\<lparr>wf_file := file', wf_running_checksum := new_checksum, wf_frame_count := wf_frame_count w + 1\<rparr> in
                 (Inr (), if db_size_if_commit \<noteq> 0 then w1\<lparr>wf_last_commit_frame := Some (wf_frame_count w1 - 1)\<rparr> else w1)))"

definition prepared_frame :: "'f WalFile \<Rightarrow> WalAppendFrameRef \<Rightarrow> bytes \<Rightarrow> FrankenError + bytes" where
  "prepared_frame w frame frame_slice =
     (let slice1 = put 4 (to_be 4 (af_db_size_if_commit frame)) (put 0 (to_be 4 (af_page_number frame)) frame_slice) in
      bind_err (write_wal_frame_salts (take WAL_FRAME_HEADER_SIZE slice1) (wh_salts (wf_header w))) (\<lambda>hdr.
      Inr (hdr @ af_page_data frame)))"

text \<open>The loop over the frames, with the bytes of the frames before and after the current one in the
  preallocated buffer.\<close>

fun prepare_loop ::
  "'f WalFile \<Rightarrow> nat \<Rightarrow> nat \<Rightarrow> WalAppendFrameRef list \<Rightarrow> bytes \<Rightarrow> WalChecksumTransform list \<Rightarrow> nat option \<Rightarrow>
   FrankenError + (bytes \<times> WalChecksumTransform list \<times> nat option \<times> nat)" where
  "prepare_loop w frame_count idx [] buf transforms last_commit = Inr (buf, transforms, last_commit, idx)"
| "prepare_loop w frame_count idx (frame # frames) buf transforms last_commit =
     (if idx \<ge> frame_count then Inl (WalCorrupt ''prepared batch frame count mismatch'')
      else if length (af_page_data frame) \<noteq> wf_page_size w then Inl (WalCorrupt ''page data size mismatch in batch frame'')
      else
        (case usize_checked_mul idx (frame_size w) of
           None \<Rightarrow> Inl DatabaseFull
         | Some buf_offset \<Rightarrow>
             bind_err (prepared_frame w frame (subslice buf_offset (buf_offset + frame_size w) buf)) (\<lambda>frame_slice.
             bind_err (for_wal_frame frame_slice (wf_page_size w) (wf_big_endian_checksum w)) (\<lambda>t.
             prepare_loop w frame_count (idx + 1) frames (put buf_offset frame_slice buf) (transforms @ [t])
               (if af_db_size_if_commit frame \<noteq> 0 then Some idx else last_commit)))))"

definition prepare_frame_bytes_with_transforms_into ::
  "'f WalFile \<Rightarrow> nat \<Rightarrow> WalAppendFrameRef list \<Rightarrow> FrankenError + (bytes \<times> WalChecksumTransform list \<times> nat option)" where
  "prepare_frame_bytes_with_transforms_into w frame_count frames =
     (if frame_count = 0 then Inr ([], [], None)
      else case usize_checked_mul frame_count (frame_size w) of
        None \<Rightarrow> Inl DatabaseFull
      | Some total_bytes \<Rightarrow>
          bind_err (prepare_loop w frame_count 0 frames (replicate total_bytes 0) [] None) (\<lambda>(buf, transforms, last_commit, observed).
          if observed \<noteq> frame_count then Inl (WalCorrupt ''prepared batch frame count mismatch'')
          else Inr (buf, transforms, last_commit)))"

definition prepare_frame_bytes :: "'f WalFile \<Rightarrow> WalAppendFrameRef list \<Rightarrow> FrankenError + bytes" where
  "prepare_frame_bytes w frames =
     bind_err (prepare_frame_bytes_with_transforms_into w (length frames) frames) (\<lambda>(buf, _, _). Inr buf)"

definition prepared_append_window_still_current ::
  "'f file_ops \<Rightarrow> WalGenerationIdentity \<Rightarrow> nat \<Rightarrow> 'f WalFile \<Rightarrow> FrankenError + bool" where
  "prepared_append_window_still_current ops generation start_frame_index w =
     bind_err (fo_file_size ops (wf_file w)) (\<lambda>file_size.
     if file_size \<noteq> frame_offset w start_frame_index then Inr False
     else
       bind_err (fo_read ops (wf_file w) WAL_HEADER_SIZE 0) (\<lambda>header_buf.
       if length header_buf < WAL_HEADER_SIZE
       then Inl (WalCorrupt ''WAL file too small for header during prepared append validation'')
       else bind_err (WalHeader_from_bytes header_buf) (\<lambda>disk_header. Inr (from_header disk_header = generation))))"

fun finalize_loop ::
  "WalSalts \<Rightarrow> nat \<Rightarrow> bytes \<Rightarrow> WalChecksumTransform list \<Rightarrow> SqliteWalChecksum \<Rightarrow> FrankenError + (SqliteWalChecksum \<times> bytes)" where
  "finalize_loop salts fs buf [] running = Inr (running, buf)"
| "finalize_loop salts fs buf (t # ts) running =
     (if length buf < fs then Inr (running, buf)
      else
        bind_err (write_wal_frame_salts (take WAL_FRAME_HEADER_SIZE (take fs buf)) salts) (\<lambda>hdr.
        let running' = transform_apply t running in
        bind_err (write_wal_frame_checksum_fields (hdr @ drop WAL_FRAME_HEADER_SIZE (take fs buf)) running') (\<lambda>frame_slice.
        bind_err (finalize_loop salts fs (drop fs buf) ts running') (\<lambda>(final, rest). Inr (final, frame_slice @ rest)))))"

definition finalize_prepared_frame_bytes ::
  "bytes \<Rightarrow> WalChecksumTransform list \<Rightarrow> 'f WalFile \<Rightarrow> FrankenError + (SqliteWalChecksum \<times> bytes)" where
  "finalize_prepared_frame_bytes prepared transforms w =
     (let frame_count = length transforms in
      if frame_count = 0 then Inr (wf_running_checksum w, prepared)
      else case usize_checked_mul frame_count (frame_size w) of
        None \<Rightarrow> Inl DatabaseFull
      | Some expected_bytes \<Rightarrow>
          if length prepared \<noteq> expected_bytes then Inl (WalCorrupt ''prepared batch byte length mismatch'')
          else finalize_loop (wh_salts (wf_header w)) (frame_size w) prepared transforms (wf_running_checksum w))"

definition append_finalized_prepared_frame_bytes ::
  "'f file_ops \<Rightarrow> bytes \<Rightarrow> nat \<Rightarrow> SqliteWalChecksum \<Rightarrow> nat option \<Rightarrow> 'f WalFile \<Rightarrow> (FrankenError + unit) \<times> 'f WalFile" where
  "append_finalized_prepared_frame_bytes ops prepared frame_count final_running last_commit_offset w =
     (if frame_count = 0 then (Inr (), w)
      else case usize_checked_add (wf_frame_count w) frame_count of
        None \<Rightarrow> (Inl DatabaseFull, w)
      | Some new_count \<Rightarrow>
          if new_count > u32_max then (Inl DatabaseFull, w)
          else
            (case usize_checked_mul frame_count (frame_size w) of
               None \<Rightarrow> (Inl DatabaseFull, w)
             | Some expected_bytes \<Rightarrow>
                 if length prepared \<noteq> expected_bytes then (Inl (WalCorrupt ''prepared batch byte length mismatch''), w)
                 else
                   let start_frame_index = wf_frame_count w in
                   (case fo_write ops prepared (frame_offset w start_frame_index) (wf_file w) of
                      (Inl e, file') \<Rightarrow> (Inl e, w\<lparr>wf_file := file'\<rparr>)
                    | (Inr _, file') \<Rightarrow>
                        (case advance_state_after_write frame_count final_running (w\<lparr>wf_file := file'\<rparr>) of
                           (Inl e, w1) \<Rightarrow> (Inl e, w1)
                         | (Inr _, w1) \<Rightarrow>
                             (Inr (), case last_commit_offset of
                                None \<Rightarrow> w1 | Some k \<Rightarrow> w1\<lparr>wf_last_commit_frame := Some (start_frame_index + k)\<rparr>)))))"

definition last_commit_in :: "nat \<Rightarrow> bytes \<Rightarrow> nat option" where
  "last_commit_in fs buf =
     (case filter (\<lambda>i. from_be (subslice (i * fs + 4) (i * fs + 8) buf) \<noteq> (0 :: u32)) [0..<length buf div fs] of
        [] \<Rightarrow> None | is \<Rightarrow> Some (last is))"

definition append_prepared_frame_bytes ::
  "'f file_ops \<Rightarrow> bytes \<Rightarrow> WalChecksumTransform list \<Rightarrow> 'f WalFile \<Rightarrow> (FrankenError + unit) \<times> bytes \<times> 'f WalFile" where
  "append_prepared_frame_bytes ops prepared transforms w =
     (let frame_count = length transforms in
      if frame_count = 0 then (Inr (), prepared, w)
      else case usize_checked_add (wf_frame_count w) frame_count of
        None \<Rightarrow> (Inl DatabaseFull, prepared, w)
      | Some new_count \<Rightarrow>
          if new_count > u32_max then (Inl DatabaseFull, prepared, w)
          else
            (case finalize_prepared_frame_bytes prepared transforms w of
               Inl e \<Rightarrow> (Inl e, prepared, w)
             | Inr (running, prepared') \<Rightarrow>
                 (case append_finalized_prepared_frame_bytes ops prepared' frame_count running
                         (last_commit_in (frame_size w) prepared') w of
                    (r, w') \<Rightarrow> (r, prepared', w'))))"

fun append_frames_loop ::
  "'f WalFile \<Rightarrow> nat \<Rightarrow> nat \<Rightarrow> WalAppendFrameRef list \<Rightarrow> bytes \<Rightarrow> SqliteWalChecksum \<Rightarrow> nat option \<Rightarrow>
   FrankenError + (bytes \<times> SqliteWalChecksum \<times> nat option \<times> nat)" where
  "append_frames_loop w frame_count idx [] scratch running last_commit = Inr (scratch, running, last_commit, idx)"
| "append_frames_loop w frame_count idx (frame # frames) scratch running last_commit =
     (if idx \<ge> frame_count then Inl (WalCorrupt ''append batch frame count mismatch'')
      else if length (af_page_data frame) \<noteq> wf_page_size w then Inl (WalCorrupt ''page data size mismatch in batch frame'')
      else
        (case usize_checked_mul idx (frame_size w) of
           None \<Rightarrow> Inl DatabaseFull
         | Some buf_offset \<Rightarrow>
             let scratch1 = push_wal_frame_bytes scratch (af_page_number frame) (af_db_size_if_commit frame)
                   (wh_salts (wf_header w)) (af_page_data frame) in
             bind_err (write_wal_frame_checksum (subslice buf_offset (buf_offset + frame_size w) scratch1) (wf_page_size w) running
                         (wf_big_endian_checksum w)) (\<lambda>(running', frame_slice).
             append_frames_loop w frame_count (idx + 1) frames (put buf_offset frame_slice scratch1) running'
               (if af_db_size_if_commit frame \<noteq> 0 then Some idx else last_commit))))"

definition append_frame_iter ::
  "'f file_ops \<Rightarrow> nat \<Rightarrow> WalAppendFrameRef list \<Rightarrow> 'f WalFile \<Rightarrow> (FrankenError + unit) \<times> 'f WalFile" where
  "append_frame_iter ops frame_count frames w =
     (if frame_count = 0 then (Inr (), w)
      else case usize_checked_mul frame_count (frame_size w) of
        None \<Rightarrow> (Inl DatabaseFull, w)
      | Some total_bytes \<Rightarrow>
          (case append_frames_loop w frame_count 0 frames [] (wf_running_checksum w) None of
             Inl e \<Rightarrow> (Inl e, w)
           | Inr (scratch, running, last_commit, observed) \<Rightarrow>
               if observed \<noteq> frame_count then (Inl (WalCorrupt ''append batch frame count mismatch''), w)
               else append_finalized_prepared_frame_bytes ops scratch frame_count running last_commit w))"

definition append_frames :: "'f file_ops \<Rightarrow> WalAppendFrameRef list \<Rightarrow> 'f WalFile \<Rightarrow> (FrankenError + unit) \<times> 'f WalFile" where
  "append_frames ops frames w = append_frame_iter ops (length frames) frames w"

section \<open>Reading, syncing and resetting\<close>

definition read_frame_into :: "'f file_ops \<Rightarrow> nat \<Rightarrow> bytes \<Rightarrow> 'f WalFile \<Rightarrow> FrankenError + (WalFrameHeader \<times> bytes)" where
  "read_frame_into ops frame_index buf w =
     (if frame_index \<ge> wf_frame_count w then Inl (WalCorrupt ''frame index out of range'')
      else if length buf < frame_size w then Inl (Internal ''read_frame_into buffer too small'')
      else
        bind_err (fo_read ops (wf_file w) (frame_size w) (frame_offset w frame_index)) (\<lambda>bs.
        if length bs < frame_size w then Inl (WalCorrupt ''short read at frame'')
        else
          let buf' = put 0 bs buf in
          bind_err (WalFrameHeader_from_bytes (take WAL_FRAME_HEADER_SIZE buf')) (\<lambda>header. Inr (header, buf'))))"

definition read_frame :: "'f file_ops \<Rightarrow> nat \<Rightarrow> 'f WalFile \<Rightarrow> FrankenError + (WalFrameHeader \<times> bytes)" where
  "read_frame ops frame_index w =
     bind_err (read_frame_into ops frame_index (replicate (frame_size w) 0) w) (\<lambda>(header, buf).
     Inr (header, drop WAL_FRAME_HEADER_SIZE buf))"

definition read_frame_header :: "'f file_ops \<Rightarrow> nat \<Rightarrow> 'f WalFile \<Rightarrow> FrankenError + WalFrameHeader" where
  "read_frame_header ops frame_index w =
     (if frame_index \<ge> wf_frame_count w then Inl (WalCorrupt ''frame index out of range'')
      else
        bind_err (fo_read ops (wf_file w) WAL_FRAME_HEADER_SIZE (frame_offset w frame_index)) (\<lambda>header_buf.
        if length header_buf < WAL_FRAME_HEADER_SIZE then Inl (WalCorrupt ''short header read at frame'')
        else WalFrameHeader_from_bytes header_buf))"

definition wal_sync :: "'f file_ops \<Rightarrow> SyncFlags \<Rightarrow> 'f WalFile \<Rightarrow> (FrankenError + unit) \<times> 'f WalFile" where
  "wal_sync ops flags w = (case fo_sync ops flags (wf_file w) of (r, file') \<Rightarrow> (r, w\<lparr>wf_file := file'\<rparr>))"

definition durable_sync :: "'f file_ops \<Rightarrow> SyncKind \<Rightarrow> 'f WalFile \<Rightarrow> (FrankenError + unit) \<times> 'f WalFile" where
  "durable_sync ops kind w =
     (case durable_sync_default ops kind (wf_file w) of
        (Inl e, file') \<Rightarrow> (Inl e, w\<lparr>wf_file := file'\<rparr>)
      | (Inr _, file') \<Rightarrow> (Inr (), w\<lparr>wf_file := file', wf_last_fsynced_frame_count := wf_frame_count w\<rparr>))"

text \<open>In a build with debug assertions the check panics (\<^const>\<open>None\<close>); otherwise it fails only when
  \<open>FRANKENSQLITE_PARANOID_DURABILITY\<close> is set.\<close>

definition assert_publish_safe :: "bool \<Rightarrow> bool \<Rightarrow> nat \<Rightarrow> 'f WalFile \<Rightarrow> (FrankenError + unit) option" where
  "assert_publish_safe debug_assertions paranoid publish_frame_count w =
     (if wf_last_fsynced_frame_count w \<ge> publish_frame_count then Some (Inr ())
      else if debug_assertions then None
      else if paranoid then Some (Inl (Internal ''publish-before-fsync''))
      else Some (Inr ()))"

definition wal_reset :: "'f file_ops \<Rightarrow> u32 \<Rightarrow> WalSalts \<Rightarrow> bool \<Rightarrow> 'f WalFile \<Rightarrow> (FrankenError + unit) \<times> 'f WalFile" where
  "wal_reset ops new_checkpoint_seq new_salts truncate_file w =
     (let new_header = \<lparr>wh_magic = wh_magic (wf_header w), wh_format_version = WAL_FORMAT_VERSION,
            wh_page_size = wh_page_size (wf_header w), wh_checkpoint_seq = new_checkpoint_seq, wh_salts = new_salts,
            wh_checksum = default_checksum\<rparr> in
      case WalHeader_to_bytes new_header of
        Inl e \<Rightarrow> (Inl e, w)
      | Inr header_bytes \<Rightarrow>
          (case fo_write ops header_bytes 0 (wf_file w) of
             (Inl e, file1) \<Rightarrow> (Inl e, w\<lparr>wf_file := file1\<rparr>)
           | (Inr _, file1) \<Rightarrow>
               (case (if truncate_file then fo_truncate ops WAL_HEADER_SIZE file1 else (Inr (), file1)) of
                  (Inl e, file2) \<Rightarrow> (Inl e, w\<lparr>wf_file := file2\<rparr>)
                | (Inr _, file2) \<Rightarrow>
                    (case fo_sync ops NORMAL file2 of
                       (Inl e, file3) \<Rightarrow> (Inl e, w\<lparr>wf_file := file3\<rparr>)
                     | (Inr _, file3) \<Rightarrow>
                         (case read_wal_header_checksum header_bytes of
                            Inl e \<Rightarrow> (Inl e, w\<lparr>wf_file := file3\<rparr>)
                          | Inr running \<Rightarrow>
                              (case WalHeader_from_bytes header_bytes of
                                 Inl e \<Rightarrow> (Inl e, w\<lparr>wf_file := file3, wf_running_checksum := running\<rparr>)
                               | Inr header \<Rightarrow>
                                   (Inr (), w\<lparr>wf_file := file3, wf_running_checksum := running, wf_header := header,
                                              wf_frame_count := 0, wf_last_commit_frame := None,
                                              wf_last_fsynced_frame_count := 0\<rparr>)))))))"

section \<open>Frames as bytes\<close>

definition header_of :: "bytes \<Rightarrow> WalFrameHeader" where
  "header_of f = \<lparr>fh_page_number = read_be_u32_at f 0, fh_db_size = read_be_u32_at f 4, fh_salts = frame_salts f,
     fh_checksum = frame_checksum f\<rparr>"

lemma header_of_simps [simp]:
  "fh_salts (header_of f) = frame_salts f" "fh_checksum (header_of f) = frame_checksum f"
  "is_commit (header_of f) \<longleftrightarrow> frame_commits f"
  by (simp_all add: header_of_def is_commit_def frame_commits_def)

lemma frame_header_of: "24 \<le> length f \<Longrightarrow> WalFrameHeader_from_bytes (take 24 f) = Inr (header_of f)"
  by (simp add: WalFrameHeader_from_bytes_def WAL_FRAME_HEADER_SIZE_def header_of_def frame_salts_def frame_checksum_def read_be_u32_take)

text \<open>The checksum after a list of frames, and lists whose frames all continue the chain.\<close>

definition chain_end :: "SqliteWalChecksum \<Rightarrow> bytes list \<Rightarrow> SqliteWalChecksum" where
  "chain_end ck fs = (if fs = [] then ck else frame_checksum (last fs))"

definition chain_ok :: "nat \<Rightarrow> bool \<Rightarrow> WalSalts \<Rightarrow> SqliteWalChecksum \<Rightarrow> bytes list \<Rightarrow> bool" where
  "chain_ok ps be salts ck fs \<longleftrightarrow> valid_prefix ps be salts ck fs = length fs"

lemma chain_end_simps [simp]:
  "chain_end ck [] = ck" "chain_end ck (f # fs) = chain_end (frame_checksum f) fs"
  by (simp_all add: chain_end_def)

lemma chain_end_append: "chain_end ck (xs @ ys) = chain_end (chain_end ck xs) ys"
  by (induction xs arbitrary: ck) simp_all

lemma chain_ok_simps [simp]:
  "chain_ok ps be salts ck []"
  "chain_ok ps be salts ck (f # fs) \<longleftrightarrow> frame_ok ps be salts ck f \<and> chain_ok ps be salts (frame_checksum f) fs"
  by (simp_all add: chain_ok_def)

lemma chain_ok_append: "chain_ok ps be salts ck (xs @ ys) \<longleftrightarrow> chain_ok ps be salts ck xs \<and> chain_ok ps be salts (chain_end ck xs) ys"
  by (induction xs arbitrary: ck) auto

lemma valid_prefix_split:
  "chain_ok ps be salts ck xs \<Longrightarrow> valid_prefix ps be salts ck (xs @ ys) = length xs + valid_prefix ps be salts (chain_end ck xs) ys"
  by (induction xs arbitrary: ck) auto

lemma chain_ok_valid_prefix: "chain_ok ps be salts ck (take (valid_prefix ps be salts ck fs) fs)"
  by (induction fs arbitrary: ck) auto

lemma replay_end_append: "replay_end r i (xs @ ys) = replay_end (replay_end r i xs) (i + length xs) ys"
  by (induction xs arbitrary: r i) simp_all

section \<open>Page sizes and headers on disk\<close>

lemma valid_header_page_size:
  "ensure_valid_wal_header_page_size p = Inr () \<longleftrightarrow> PageSize_new p \<noteq> None"
  "PageSize_new p \<noteq> None \<Longrightarrow> ensure_valid_wal_page_size (unat p) = Inr ()"
  by (auto simp: ensure_valid_wal_header_page_size_def ensure_valid_wal_page_size_def split: if_splits)
     (use unat_u32_less [of p] in simp_all)

text \<open>What a successful read of the header establishes about the bytes of the file.\<close>

definition disk_header :: "bytes \<Rightarrow> WalHeader \<Rightarrow> SqliteWalChecksum \<Rightarrow> bool" where
  "disk_header bs h ck \<longleftrightarrow> 32 \<le> length bs \<and> WalHeader_from_bytes (take 32 bs) = Inr h \<and>
     read_wal_header_checksum (take 32 bs) = Inr ck \<and> wal_header_checksum (take 32 bs) (big_endian_checksum h) = Inr ck"

lemma disk_header_unique: "disk_header bs h ck \<Longrightarrow> disk_header bs h' ck' \<Longrightarrow> h' = h \<and> ck' = ck"
  by (auto simp: disk_header_def)

lemma disk_header_take: "take 32 bs' = take 32 bs \<Longrightarrow> disk_header bs h ck \<Longrightarrow> disk_header bs' h ck"
proof -
  assume a: "take 32 bs' = take 32 bs" "disk_header bs h ck"
  then have "length (take 32 bs') = 32" by (simp add: disk_header_def)
  then have "32 \<le> length bs'" by simp
  then show ?thesis using a by (simp add: disk_header_def)
qed

lemma disk_header_page_size:
  assumes "disk_header bs h ck"
  shows "PageSize_new (wh_page_size h) \<noteq> None" "wh_magic h \<in> {WAL_MAGIC_LE, WAL_MAGIC_BE}" "wh_format_version h = WAL_FORMAT_VERSION"
  using assms valid_header_page_size(1) [of "wh_page_size h"]
  by (auto simp: disk_header_def WalHeader_from_bytes_def Let_def bind_err_Inr split: if_splits)

lemma written_header:
  assumes "PageSize_new (wh_page_size h) \<noteq> None" "wh_magic h \<in> {WAL_MAGIC_LE, WAL_MAGIC_BE}" "wh_format_version h = WAL_FORMAT_VERSION"
  obtains hb ck where "WalHeader_to_bytes h = Inr hb" "length hb = 32" "read_wal_header_checksum hb = Inr ck"
    "WalHeader_from_bytes hb = Inr (h\<lparr>wh_checksum := ck\<rparr>)" "\<And>rest. disk_header (hb @ rest) (h\<lparr>wh_checksum := ck\<rparr>) ck"
proof -
  obtain hb ck where h: "WalHeader_to_bytes h = Inr hb" "length hb = 32" "validate_wal_header_checksum hb (big_endian_checksum h) = Inr True"
    "read_wal_header_checksum hb = Inr ck" "WalHeader_from_bytes hb = Inr (h\<lparr>wh_checksum := ck\<rparr>)"
    using header_image [OF assms(1)] assms(2,3) by blast
  have "wal_header_checksum hb (big_endian_checksum h) = Inr ck"
    using h(3,4) by (auto simp: validate_wal_header_checksum_def bind_err_Inr)
  then have "disk_header (hb @ rest) (h\<lparr>wh_checksum := ck\<rparr>) ck" for rest
    using h by (simp add: disk_header_def big_endian_checksum_def)
  then show thesis using that h by blast
qed

section \<open>Reading the log\<close>

lemma offset_small: "32 + i * fs \<le> usize_max \<Longrightarrow> offset_of_frame fs i = 32 + i * fs"
  by (simp add: offset_of_frame_def usize_saturating_add_def usize_saturating_mul_def WAL_HEADER_SIZE_def)

lemma frame_inside:
  assumes "i < length (frames_of fs (drop 32 bs))"
  shows "32 + i * fs + fs \<le> length bs" "take fs (drop (32 + i * fs) bs) = frames_of fs (drop 32 bs) ! i"
proof -
  have i: "i < (length bs - 32) div fs" using assms by simp
  have "Suc i * fs \<le> (length bs - 32) div fs * fs" using i by (intro mult_le_mono1) simp
  also have "\<dots> \<le> length bs - 32" by simp
  finally have "Suc i * fs \<le> length bs - 32" .
  moreover have "32 \<le> length bs" using i by (cases "32 \<le> length bs") auto
  ultimately show "32 + i * fs + fs \<le> length bs" by simp
  show "take fs (drop (32 + i * fs) bs) = frames_of fs (drop 32 bs) ! i"
    using i by (simp add: nth_frames_of subslice_def add.commute)
qed

text \<open>The result of a scan from frame \<open>i\<close> over the frames of a file.\<close>

definition scan_result ::
  "nat \<Rightarrow> bool \<Rightarrow> WalSalts \<Rightarrow> bytes list \<Rightarrow> nat \<Rightarrow> SqliteWalChecksum \<Rightarrow> nat \<Rightarrow> SqliteWalChecksum \<Rightarrow> nat \<times> SqliteWalChecksum" where
  "scan_result ps be salts F i ck c cck =
     (let v = valid_prefix ps be salts ck (drop i F); c' = replay_end c i (take v (drop i F)) in
      (c', if c' \<le> i then cck else frame_checksum (F ! (c' - 1))))"

context vfs_file
begin

lemma scan_frames_spec:
  assumes ps: "ensure_valid_wal_page_size ps = Inr u" and F: "F = frames_of (24 + ps) (drop 32 (view file))"
    and small: "length (view file) \<le> usize_max" and i: "i \<le> length F" and c: "c \<le> i"
  shows "scan_frames ops file ps be salts (length F) i i ck c cck = Inr (scan_result ps be salts F i ck c cck) \<or>
    (\<exists>e off. off + (24 + ps) \<le> usize_max \<and> fo_read ops file (24 + ps) off = Inl e \<and>
      scan_frames ops file ps be salts (length F) i i ck c cck = Inl e)"
  using i c
proof (induction "length F - i" arbitrary: i ck c cck)
  case 0
  then have "scan_frames ops file ps be salts (length F) i i ck c cck = Inr (scan_result ps be salts F i ck c cck)"
    by (subst scan_frames.simps) (simp add: scan_result_def)
  then show ?case ..
next
  case (Suc n)
  let ?fs = "24 + ps" and ?f = "F ! i"
  have i: "i < length (frames_of ?fs (drop 32 (view file)))" using Suc.hyps(2) F by simp
  then have iF: "i < length F" using F by simp
  have off: "offset_of_frame ?fs i = 32 + i * ?fs" "32 + i * ?fs + ?fs \<le> usize_max"
    using frame_inside(1) [OF i] small offset_small [of i ?fs] by simp_all
  have len: "length ?f = 24 + ps" using frame_length i F by simp
  obtain ck' where ck': "compute_wal_frame_checksum ?f ps ck be = Inr ck'" using compute_total [OF ps len] by blast
  have dr: "drop i F = ?f # drop (Suc i) F" using i F by (simp add: Cons_nth_drop_Suc)
  show ?case
  proof (cases "fo_read ops file ?fs (32 + i * ?fs)")
    case (Inl e)
    then have "scan_frames ops file ps be salts (length F) i i ck c cck = Inl e"
      using iF off(1) by (subst scan_frames.simps) (simp add: WAL_FRAME_HEADER_SIZE_def)
    then show ?thesis using Inl off(2) by blast
  next
    case (Inr bs)
    then have bs: "bs = ?f" using read_view frame_inside(2) [OF i] F by simp
    let ?c = "if frame_commits ?f then i + 1 else c" and ?cck = "if frame_commits ?f then ck' else cck"
    have step: "scan_frames ops file ps be salts (length F) i i ck c cck =
      (if frame_ok ps be salts ck ?f then scan_frames ops file ps be salts (length F) (i + 1) (i + 1) (frame_checksum ?f) ?c ?cck
       else Inr (c, cck))"
      using iF Inr [unfolded bs] off(1) len ck' frame_header_of [of ?f]
      by (subst scan_frames.simps) (simp add: WAL_FRAME_HEADER_SIZE_def frame_ok_def Let_def)
    show ?thesis
    proof (cases "frame_ok ps be salts ck ?f")
      case False
      then show ?thesis using step dr Suc.prems by (simp add: scan_result_def)
    next
      case True
      then have ck1: "frame_checksum ?f = ck'" using ck' by (simp add: frame_ok_def)
      let ?v = "valid_prefix ps be salts (frame_checksum ?f) (drop (Suc i) F)"
      have v: "valid_prefix ps be salts ck (drop i F) = Suc ?v" using True dr by simp
      have "Suc i \<le> replay_end (Suc i) (Suc i) (take ?v (drop (Suc i) F))" using replay_end_spec [of "Suc i" "Suc i"] by blast
      moreover have "replay_end c (Suc i) (take ?v (drop (Suc i) F)) = c \<or> Suc i < replay_end c (Suc i) (take ?v (drop (Suc i) F))"
        using replay_end_spec [of c "Suc i" "take ?v (drop (Suc i) F)"] Suc.prems(2) by linarith
      ultimately have "scan_result ps be salts F (i + 1) (frame_checksum ?f) ?c ?cck = scan_result ps be salts F i ck c cck"
        using v dr ck1 Suc.prems by (auto simp: scan_result_def Let_def le_Suc_eq)
      moreover have "n = length F - (i + 1)" "i + 1 \<le> length F" "?c \<le> i + 1" using Suc.hyps(2) Suc.prems by auto
      ultimately show ?thesis using Suc.hyps(1) [of "i + 1" ?c "frame_checksum ?f" ?cck] step True by simp
    qed
  qed
qed

lemma read_checked_header_view:
  assumes "read_checked_header ops file = Inr (h, ck)"
  shows "disk_header (view file) h ck"
proof -
  obtain buf where b: "fo_read ops file 32 0 = Inr buf" "\<not> length buf < 32"
    using assms by (auto simp: read_checked_header_def bind_err_Inr WAL_HEADER_SIZE_def split: if_splits)
  have buf: "buf = take 32 (view file)" "32 \<le> length (view file)" using read_view [OF b(1)] b(2) by auto
  then show ?thesis using assms b
    by (auto simp: read_checked_header_def bind_err_Inr WAL_HEADER_SIZE_def disk_header_def split: if_splits)
qed

end

context readable_file
begin

lemma read_checked_header_disk:
  assumes "disk_header (view file) h ck"
  shows "read_checked_header ops file = Inr (h, ck)"
  using assms read_eq [of 0 32] by (simp add: read_checked_header_def disk_header_def WAL_HEADER_SIZE_def usize_max_def)

lemma scan_frames_total:
  assumes "ensure_valid_wal_page_size ps = Inr u" "F = frames_of (24 + ps) (drop 32 (view file))"
    and "length (view file) \<le> usize_max" "i \<le> length F" "c \<le> i"
  shows "scan_frames ops file ps be salts (length F) i i ck c cck = Inr (scan_result ps be salts F i ck c cck)"
  using scan_frames_spec [OF assms] read_eq by fastforce

end

section \<open>Writing frames into a file\<close>

lemma frames_prefix:
  assumes "take (32 + n * fs) bs' = take (32 + n * fs) bs" "n \<le> length (frames_of fs (drop 32 bs))" "32 \<le> length bs" "0 < fs"
  shows "take n (frames_of fs (drop 32 bs')) = take n (frames_of fs (drop 32 bs))" "n \<le> length (frames_of fs (drop 32 bs'))"
    "take 32 bs' = take 32 bs"
proof -
  have "n * fs \<le> (length bs - 32) div fs * fs" using assms(2) by (intro mult_le_mono1) simp
  also have "\<dots> \<le> length bs - 32" by simp
  finally have "32 + n * fs \<le> length bs" using assms(3) by simp
  then have "32 + n * fs \<le> length bs'" using arg_cong [OF assms(1), of length] by simp
  then have n: "n \<le> (length bs' - 32) div fs" using assms(4) by (simp add: less_eq_div_iff_mult_less_eq)
  then show "n \<le> length (frames_of fs (drop 32 bs'))" by simp
  show "take 32 bs' = take 32 bs" using arg_cong [OF assms(1), of "take 32"] by (simp add: min_def)
  show "take n (frames_of fs (drop 32 bs')) = take n (frames_of fs (drop 32 bs))"
  proof (rule nth_equalityI)
    show "length (take n (frames_of fs (drop 32 bs'))) = length (take n (frames_of fs (drop 32 bs)))" using n assms(2) by simp
    fix i assume "i < length (take n (frames_of fs (drop 32 bs')))"
    then have i: "i < n" by simp
    then have "Suc i * fs \<le> n * fs" by (intro mult_le_mono1) simp
    then have "take fs (drop (32 + i * fs) b) = take fs (drop (32 + i * fs) (take (32 + n * fs) b))" for b :: bytes
      by (simp add: drop_take min_def)
    then have "take fs (drop (32 + i * fs) bs') = take fs (drop (32 + i * fs) bs)" using assms(1) by metis
    then show "take n (frames_of fs (drop 32 bs')) ! i = take n (frames_of fs (drop 32 bs)) ! i"
      using frame_inside(2) [of i fs bs] frame_inside(2) [of i fs bs'] i n assms(2) by simp
  qed
qed

lemma frames_written:
  assumes "n \<le> length (frames_of fs (drop 32 bs))" "32 \<le> length bs" "0 < fs" "\<forall>f \<in> set G. length f = fs"
    and bs': "bs' = write_at (32 + n * fs) (concat G) bs"
  shows "take (n + length G) (frames_of fs (drop 32 bs')) = take n (frames_of fs (drop 32 bs)) @ G"
    "n + length G \<le> length (frames_of fs (drop 32 bs'))" "take 32 bs' = take 32 bs"
    "length bs = 32 + n * fs \<Longrightarrow> length bs' = 32 + (n + length G) * fs"
proof -
  let ?off = "32 + n * fs"
  have "n * fs \<le> (length bs - 32) div fs * fs" using assms(1) by (intro mult_le_mono1) simp
  also have "\<dots> \<le> length bs - 32" by simp
  finally have off: "?off \<le> length bs" using assms(2) by simp
  note p = frames_prefix [OF take_write_at [OF off, of "concat G", folded bs'] assms(1-3)]
  show "take 32 bs' = take 32 bs" by (rule p(3))
  have lc: "length (concat G) = length G * fs" using assms(4) by (induction G) auto
  then have ce: "concat G = [] \<longleftrightarrow> G = []" using assms(3) by (metis length_0_conv mult_is_0 not_gr0)
  show "length bs' = 32 + (n + length G) * fs" if "length bs = ?off"
    using that lc ce by (simp add: bs' length_write_at add_mult_distrib del: length_concat concat_eq_Nil_conv)
  have rd: "take (length G * fs) (drop ?off bs') = concat G" using read_write_at [of "concat G" ?off bs] lc bs' by simp
  have "length bs' = max (length bs) (?off + length G * fs)"
    using lc ce off by (simp add: bs' length_write_at del: length_concat concat_eq_Nil_conv)
  then have "(n + length G) * fs \<le> length bs' - 32" by (simp add: add_mult_distrib)
  then show l: "n + length G \<le> length (frames_of fs (drop 32 bs'))"
    using assms(3) by (simp add: less_eq_div_iff_mult_less_eq)
  have fG: "frames_of fs (concat G) = G" using frames_of_concat [OF assms(4,3), of "length G * fs"] lc assms(3) by simp
  have "frames_of fs (drop 32 bs') ! (n + j) = G ! j" if j: "j < length G" for j
  proof -
    have "Suc j * fs \<le> length G * fs" using j by (intro mult_le_mono1) simp
    then have "take fs (drop (?off + j * fs) bs') = take fs (drop (j * fs) (take (length G * fs) (drop ?off bs')))"
      by (simp add: drop_take min_def add.commute)
    also have "\<dots> = frames_of fs (concat G) ! j" using rd j lc assms(3) by (simp add: nth_frames_of subslice_def)
    finally have "take fs (drop (32 + (n + j) * fs) bs') = G ! j" using fG by (simp add: add_mult_distrib add.assoc)
    then show ?thesis using frame_inside(2) [of "n + j" fs bs'] l j by simp
  qed
  then have "take (length G) (drop n (frames_of fs (drop 32 bs'))) = G" using l by (intro nth_equalityI) auto
  then show "take (n + length G) (frames_of fs (drop 32 bs')) = take n (frames_of fs (drop 32 bs)) @ G"
    using p(1) by (simp add: take_add)
qed

section \<open>The invariant of a handle\<close>

abbreviation frames_in :: "bytes \<Rightarrow> 'f WalFile \<Rightarrow> bytes list" where
  "frames_in bs w \<equiv> frames_of (frame_size w) (drop 32 bs)"

definition handle_on :: "bytes \<Rightarrow> 'f WalFile \<Rightarrow> bool" where
  "handle_on bs w \<longleftrightarrow> (\<exists>h ck. disk_header bs h ck \<and> same_generation h (wf_header w) \<and>
     wf_page_size w = unat (wh_page_size h) \<and> wf_big_endian_checksum w = big_endian_checksum h \<and>
     wf_frame_count w \<le> length (frames_in bs w) \<and> wf_frame_count w \<le> u32_max \<and>
     (let G = take (wf_frame_count w) (frames_in bs w) in
      chain_ok (wf_page_size w) (wf_big_endian_checksum w) (wh_salts (wf_header w)) ck G \<and>
      wf_running_checksum w = chain_end ck G \<and> wf_last_commit_frame w = checked_sub_1 (replay_end 0 0 G)))"

definition frame_content :: "bytes \<Rightarrow> u32 \<times> u32 \<times> bytes" where
  "frame_content f = (read_be_u32_at f 0, read_be_u32_at f 4, drop 24 f)"

text \<open>The log a handle stands for: page number, database size and page of each frame.\<close>

definition log_of :: "bytes \<Rightarrow> 'f WalFile \<Rightarrow> (u32 \<times> u32 \<times> bytes) list" where
  "log_of bs w = map frame_content (take (wf_frame_count w) (frames_in bs w))"

lemma same_generation_simps:
  "same_generation a b \<longleftrightarrow> wh_magic a = wh_magic b \<and> wh_format_version a = wh_format_version b \<and> wh_page_size a = wh_page_size b \<and>
     wh_checkpoint_seq a = wh_checkpoint_seq b \<and> wh_salts a = wh_salts b"
  by (auto simp: same_generation_def)

lemma handle_on_page_size:
  assumes "handle_on bs w"
  shows "ensure_valid_wal_page_size (wf_page_size w) = Inr ()" "frame_size w = 24 + wf_page_size w" "0 < frame_size w"
    "frame_size w \<le> 65560" "32 \<le> length bs"
proof -
  obtain h ck where h: "disk_header bs h ck" "wf_page_size w = unat (wh_page_size h)" using assms by (auto simp: handle_on_def)
  have p: "PageSize_new (wh_page_size h) \<noteq> None" using disk_header_page_size [OF h(1)] by blast
  then show "ensure_valid_wal_page_size (wf_page_size w) = Inr ()" using valid_header_page_size(2) h(2) by simp
  show fs: "frame_size w = 24 + wf_page_size w" by (simp add: frame_size_def WAL_FRAME_HEADER_SIZE_def)
  then show "0 < frame_size w" by simp
  have "valid_page_size (wh_page_size h)" using p PageSize_new_Some by auto
  then have "unat (wh_page_size h) \<le> 65536" by (auto simp: valid_page_size_def)
  then show "frame_size w \<le> 65560" using fs h(2) by simp
  show "32 \<le> length bs" using h(1) by (simp add: disk_header_def)
qed

lemma offset_bound:
  assumes "k \<le> u32_max" "fs \<le> 65560"
  shows "32 + k * fs \<le> usize_max" "k * fs \<le> usize_max"
proof -
  have "k * fs \<le> u32_max * 65560" using assms by (rule mult_le_mono)
  moreover have "32 + u32_max * 65560 \<le> usize_max" by (simp add: usize_max_def u32_max_def)
  ultimately show "32 + k * fs \<le> usize_max" "k * fs \<le> usize_max" by linarith+
qed

lemma frame_offset_eq: "handle_on bs w \<Longrightarrow> k \<le> u32_max \<Longrightarrow> frame_offset w k = 32 + k * frame_size w"
  using offset_bound(1) handle_on_page_size(4) offset_small by (metis frame_offset_def)

lemma replay_end_base: "replay_end r i G = (if replay_end 0 i G = 0 then r else replay_end 0 i G)"
proof (induction G arbitrary: r i)
  case (Cons f G)
  have "replay_end (Suc i) (Suc i) G \<noteq> 0" using replay_end_spec [of "Suc i" "Suc i" G] by linarith
  then show ?case using Cons.IH [of r "Suc i"] by simp
qed simp

lemma replay_end_shift: "replay_end r n G = (if replay_end 0 0 G = 0 then r else n + replay_end 0 0 G)"
proof -
  have "replay_end r (n + i) G = (if replay_end 0 i G = 0 then r else n + replay_end 0 i G)" for i
  proof (induction G arbitrary: r i)
    case (Cons f G)
    have nz: "replay_end (Suc i) (Suc i) G \<noteq> 0" using replay_end_spec [of "Suc i" "Suc i" G] by linarith
    show ?case
    proof (cases "frame_commits f")
      case True
      have "replay_end (n + Suc i) (n + Suc i) G = (if replay_end 0 (Suc i) G = 0 then n + Suc i else n + replay_end 0 (Suc i) G)"
        using Cons.IH [of "n + Suc i" "Suc i"] by simp
      moreover have "replay_end (Suc i) (Suc i) G = (if replay_end 0 (Suc i) G = 0 then Suc i else replay_end 0 (Suc i) G)"
        by (rule replay_end_base)
      ultimately show ?thesis using True nz by simp
    next
      case False then show ?thesis using Cons.IH [of r "Suc i"] by simp
    qed
  qed simp
  from this [of 0] show ?thesis by simp
qed

section \<open>Appending\<close>

definition ref_header :: "WalSalts \<Rightarrow> WalAppendFrameRef \<Rightarrow> WalFrameHeader" where
  "ref_header salts fr = \<lparr>fh_page_number = af_page_number fr, fh_db_size = af_db_size_if_commit fr, fh_salts = salts, fh_checksum = default_checksum\<rparr>"

definition ref_content :: "WalAppendFrameRef \<Rightarrow> u32 \<times> u32 \<times> bytes" where
  "ref_content fr = (af_page_number fr, af_db_size_if_commit fr, af_page_data fr)"

text \<open>The bytes of the frames a handle appends.\<close>

definition new_frames :: "nat \<Rightarrow> bool \<Rightarrow> WalSalts \<Rightarrow> SqliteWalChecksum \<Rightarrow> WalAppendFrameRef list \<Rightarrow> bytes list" where
  "new_frames ps be salts ck frames = wal_frames ps be ck (map (\<lambda>fr. (ref_header salts fr, af_page_data fr)) frames)"

lemma to_be_0: "to_be 4 (0 :: u32) = replicate 4 0"
  by (simp add: numeral_eq_Suc)

lemma push_wal_frame_bytes_eq:
  "push_wal_frame_bytes scratch (af_page_number fr) (af_db_size_if_commit fr) salts page =
   scratch @ WalFrameHeader_to_bytes (ref_header salts fr) @ page"
proof -
  have "WalFrameHeader_to_bytes (ref_header salts fr) =
      to_be 4 (af_page_number fr) @ to_be 4 (af_db_size_if_commit fr) @ to_be 4 (salt1 salts) @ to_be 4 (salt2 salts) @ replicate 8 0"
    by (simp add: WalFrameHeader_to_bytes_def ref_header_def default_checksum_def put_def WAL_FRAME_HEADER_SIZE_def to_be_0
        replicate_add [symmetric])
  then show ?thesis by (simp add: push_wal_frame_bytes_def)
qed

lemma written_head:
  assumes "write_wal_frame_checksum f ps prev be = Inr (ck, f')" "24 \<le> length f"
  shows "take 16 f' = take 16 f"
proof -
  have "\<exists>a b. f' = write_be_u32_at 20 b (write_be_u32_at 16 a f)"
    using assms by (auto simp: write_wal_frame_checksum_def write_wal_frame_checksum_fields_def bind_err_Inr split: if_splits)
  then show ?thesis using assms(2) by (auto simp: write_be_u32_at_def put_def)
qed

text \<open>One frame of a batch.\<close>

lemma encoded_frame:
  assumes ps: "ensure_valid_wal_page_size ps = Inr u" and len: "length (af_page_data fr) = ps"
  obtains f where
    "write_wal_frame_checksum (WalFrameHeader_to_bytes (ref_header salts fr) @ af_page_data fr) ps ck be = Inr (frame_checksum f, f)"
    "length f = 24 + ps" "frame_ok ps be salts ck f" "frame_commits f \<longleftrightarrow> af_db_size_if_commit fr \<noteq> 0" "frame_content f = ref_content fr"
    "\<And>frs. new_frames ps be salts ck (fr # frs) = f # new_frames ps be salts (frame_checksum f) frs"
proof -
  let ?h = "ref_header salts fr" and ?p = "af_page_data fr"
  have l: "length (WalFrameHeader_to_bytes ?h @ ?p) = 24 + ps" using len by simp
  obtain ck' f where w: "write_wal_frame_checksum (WalFrameHeader_to_bytes ?h @ ?p) ps ck be = Inr (ck', f)"
    and f: "length f = 24 + ps" "frame_checksum f = ck'" "frame_salts f = frame_salts (WalFrameHeader_to_bytes ?h @ ?p)"
      "frame_commits f = frame_commits (WalFrameHeader_to_bytes ?h @ ?p)" "drop 24 f = drop 24 (WalFrameHeader_to_bytes ?h @ ?p)"
      "compute_wal_frame_checksum f ps ck be = Inr ck'"
    using written_frame [OF ps l] by blast
  have "header_of (WalFrameHeader_to_bytes ?h @ ?p) = ?h"
    using frame_header_roundtrip [of ?h ?p] frame_header_of [of "WalFrameHeader_to_bytes ?h @ ?p"] frame_header_roundtrip [of ?h "[]"] by simp
  then have hd: "read_be_u32_at (WalFrameHeader_to_bytes ?h @ ?p) 0 = af_page_number fr" "read_be_u32_at (WalFrameHeader_to_bytes ?h @ ?p) 4 = af_db_size_if_commit fr"
    by (simp_all add: header_of_def ref_header_def WalFrameHeader.ext_inject)
  have t: "take 16 f = take 16 (WalFrameHeader_to_bytes ?h @ ?p)" using written_head [OF w] l by simp
  have "read_be_u32_at f off = read_be_u32_at (WalFrameHeader_to_bytes ?h @ ?p) off" if "off + 4 \<le> 16" for off
    using read_be_u32_take [OF that, of f] read_be_u32_take [OF that, of "WalFrameHeader_to_bytes ?h @ ?p"] t by simp
  then have c: "frame_content f = ref_content fr" using hd f(5) by (simp add: frame_content_def ref_content_def)
  have ok: "frame_ok ps be salts ck f" using f(2,3,6) written_fields(1) by (simp add: frame_ok_def ref_header_def)
  have cm: "frame_commits f \<longleftrightarrow> af_db_size_if_commit fr \<noteq> 0"
    using f(4) written_fields(2) by (simp add: ref_header_def word_gt_0)
  have "new_frames ps be salts ck (fr # frs) = f # new_frames ps be salts (frame_checksum f) frs" for frs
    using w f(2) by (simp add: new_frames_def)
  then show thesis using that w f(1,2) ok cm c by blast
qed

lemma new_frames_Nil [simp]: "new_frames ps be salts ck [] = []"
  by (simp add: new_frames_def)

lemma new_frames_spec:
  assumes "ensure_valid_wal_page_size ps = Inr u" "\<forall>fr \<in> set frames. length (af_page_data fr) = ps"
  shows "length (new_frames ps be salts ck frames) = length frames \<and> (\<forall>f \<in> set (new_frames ps be salts ck frames). length f = 24 + ps) \<and>
    chain_ok ps be salts ck (new_frames ps be salts ck frames) \<and> map frame_content (new_frames ps be salts ck frames) = map ref_content frames"
  using assms(2)
proof (induction frames arbitrary: ck)
  case (Cons fr frames)
  then obtain f where "length f = 24 + ps" "frame_ok ps be salts ck f" "frame_content f = ref_content fr"
    "new_frames ps be salts ck (fr # frames) = f # new_frames ps be salts (frame_checksum f) frames"
    using encoded_frame [OF assms(1), of fr salts ck be] by (metis list.set_intros(1))
  then show ?case using Cons.IH [of "frame_checksum f"] Cons.prems by simp
qed simp

lemma replay_end_Cons_0: "replay_end 0 0 (f # G) = (if replay_end 0 0 G = 0 then (if frame_commits f then 1 else 0) else Suc (replay_end 0 0 G))"
  using replay_end_shift [of "if frame_commits f then 1 else 0" 1 G] by (cases "frame_commits f") simp_all

lemma append_frames_loop_spec:
  assumes ps: "ensure_valid_wal_page_size (wf_page_size w) = Inr u" and fs: "count * frame_size w \<le> usize_max"
  shows "length scratch = idx * frame_size w \<Longrightarrow> idx + length frames \<le> count \<Longrightarrow>
    append_frames_loop w count idx frames scratch running lc =
    (if \<forall>fr \<in> set frames. length (af_page_data fr) = wf_page_size w then
       let G = new_frames (wf_page_size w) (wf_big_endian_checksum w) (wh_salts (wf_header w)) running frames in
       Inr (scratch @ concat G, chain_end running G, if replay_end 0 0 G = 0 then lc else Some (idx + replay_end 0 0 G - 1), idx + length frames)
     else Inl (WalCorrupt ''page data size mismatch in batch frame''))"
proof (induction frames arbitrary: idx scratch running lc)
  case (Cons fr frames)
  have fsz: "frame_size w = 24 + wf_page_size w" by (simp add: frame_size_def WAL_FRAME_HEADER_SIZE_def)
  show ?case
  proof (cases "length (af_page_data fr) = wf_page_size w")
    case False then show ?thesis using Cons.prems by auto
  next
    case True
    let ?salts = "wh_salts (wf_header w)" and ?be = "wf_big_endian_checksum w" and ?ps = "wf_page_size w"
    let ?f0 = "WalFrameHeader_to_bytes (ref_header ?salts fr) @ af_page_data fr"
    obtain f where w: "write_wal_frame_checksum ?f0 ?ps running ?be = Inr (frame_checksum f, f)" and f: "length f = 24 + ?ps"
      "frame_commits f \<longleftrightarrow> af_db_size_if_commit fr \<noteq> 0"
      "new_frames ?ps ?be ?salts running (fr # frames) = f # new_frames ?ps ?be ?salts (frame_checksum f) frames"
      using encoded_frame [OF ps True, of ?salts running ?be] by metis
    have off: "usize_checked_mul idx (frame_size w) = Some (idx * frame_size w)"
      using Cons.prems(2) fs order_trans [OF mult_le_mono1 [of idx count "frame_size w"] fs] by (simp add: usize_checked_mul_def)
    have sub: "subslice (idx * frame_size w) (idx * frame_size w + frame_size w) (scratch @ ?f0) = ?f0"
      using Cons.prems(1) True fsz by (simp add: subslice_def)
    have pt: "put (idx * frame_size w) f (scratch @ ?f0) = scratch @ f" using Cons.prems(1) True f(1) by (simp add: put_def)
    have step: "append_frames_loop w count idx (fr # frames) scratch running lc =
      append_frames_loop w count (idx + 1) frames (scratch @ f) (frame_checksum f) (if frame_commits f then Some idx else lc)"
      using True Cons.prems(2) off sub pt w f(2) by (simp add: push_wal_frame_bytes_eq Let_def del: append_assoc)
    have "length (scratch @ f) = (idx + 1) * frame_size w" using Cons.prems(1) f(1) fsz by simp
    note IH = Cons.IH [OF this, of "frame_checksum f" "if frame_commits f then Some idx else lc"]
    show ?thesis unfolding step using IH Cons.prems(2) True f(3)
      by (simp add: Let_def replay_end_Cons_0 del: replay_end.simps append_frames_loop.simps)
  qed
qed simp

lemma frame_size_simps [simp]:
  "frame_size (w\<lparr>wf_file := f\<rparr>) = frame_size w" "frame_size (w\<lparr>wf_frame_count := n\<rparr>) = frame_size w"
  "frame_size (w\<lparr>wf_running_checksum := ck\<rparr>) = frame_size w" "frame_size (w\<lparr>wf_last_commit_frame := l\<rparr>) = frame_size w"
  "frame_size (w\<lparr>wf_last_fsynced_frame_count := n\<rparr>) = frame_size w"
  by (simp_all add: frame_size_def)

lemma handle_on_file [simp]: "handle_on bs (w\<lparr>wf_file := f\<rparr>) = handle_on bs w"
  "handle_on bs (w\<lparr>wf_last_fsynced_frame_count := n\<rparr>) = handle_on bs w"
  by (simp_all add: handle_on_def)

abbreviation frames_of_handle :: "bytes \<Rightarrow> 'f WalFile \<Rightarrow> bytes list" where
  "frames_of_handle bs w \<equiv> take (wf_frame_count w) (frames_in bs w)"

text \<open>A handle survives any change behind its last frame.\<close>

lemma handle_on_prefix:
  assumes "handle_on bs w" "take (32 + wf_frame_count w * frame_size w) bs' = take (32 + wf_frame_count w * frame_size w) bs"
  shows "handle_on bs' w" "frames_of_handle bs' w = frames_of_handle bs w"
proof -
  obtain h ck where h: "disk_header bs h ck" "wf_frame_count w \<le> length (frames_in bs w)" using assms(1) by (auto simp: handle_on_def)
  note p = frames_prefix [OF assms(2) h(2) handle_on_page_size(5,3) [OF assms(1)]]
  show "frames_of_handle bs' w = frames_of_handle bs w" by (rule p(1))
  show "handle_on bs' w" using assms(1) p disk_header_take [OF p(3)] by (auto simp: handle_on_def Let_def)
qed

text \<open>The state after frames have been written behind the last one.\<close>

definition advanced :: "'f \<Rightarrow> nat \<Rightarrow> SqliteWalChecksum \<Rightarrow> nat option \<Rightarrow> 'f WalFile \<Rightarrow> 'f WalFile" where
  "advanced f k ck lc w = w\<lparr>wf_file := f, wf_frame_count := wf_frame_count w + k, wf_running_checksum := ck,
     wf_last_commit_frame := (case lc of None \<Rightarrow> wf_last_commit_frame w | Some i \<Rightarrow> Some (wf_frame_count w + i))\<rparr>"

lemma advanced_simps [simp]:
  "wf_frame_count (advanced f k ck lc w) = wf_frame_count w + k" "wf_file (advanced f k ck lc w) = f"
  "frame_size (advanced f k ck lc w) = frame_size w" "wf_running_checksum (advanced f k ck lc w) = ck"
  "wf_header (advanced f k ck lc w) = wf_header w" "wf_page_size (advanced f k ck lc w) = wf_page_size w"
  "wf_big_endian_checksum (advanced f k ck lc w) = wf_big_endian_checksum w"
  by (simp_all add: advanced_def frame_size_def)

lemma handle_on_advanced:
  assumes ok: "handle_on bs w" and G: "\<forall>f \<in> set G. length f = frame_size w"
    and ch: "chain_ok (wf_page_size w) (wf_big_endian_checksum w) (wh_salts (wf_header w)) (wf_running_checksum w) G"
    and n: "wf_frame_count w + length G \<le> u32_max"
    and bs': "bs' = write_at (32 + wf_frame_count w * frame_size w) (concat G) bs"
    and w': "w' = advanced f (length G) (chain_end (wf_running_checksum w) G) (checked_sub_1 (replay_end 0 0 G)) w"
  shows "handle_on bs' w'" "frames_of_handle bs' w' = frames_of_handle bs w @ G"
    "length bs = 32 + wf_frame_count w * frame_size w \<Longrightarrow> length bs' = 32 + wf_frame_count w' * frame_size w'"
proof -
  obtain h ck where h: "disk_header bs h ck" "same_generation h (wf_header w)" "wf_page_size w = unat (wh_page_size h)"
    "wf_big_endian_checksum w = big_endian_checksum h" "wf_frame_count w \<le> length (frames_in bs w)"
    and c: "chain_ok (wf_page_size w) (wf_big_endian_checksum w) (wh_salts (wf_header w)) ck (frames_of_handle bs w)"
      "wf_running_checksum w = chain_end ck (frames_of_handle bs w)"
      "wf_last_commit_frame w = checked_sub_1 (replay_end 0 0 (frames_of_handle bs w))"
    using ok by (auto simp: handle_on_def Let_def)
  note wr = frames_written [OF h(5) handle_on_page_size(5,3) [OF ok] G bs']
  show fr: "frames_of_handle bs' w' = frames_of_handle bs w @ G" using wr(1) w' by simp
  show "length bs' = 32 + wf_frame_count w' * frame_size w'" if "length bs = 32 + wf_frame_count w * frame_size w"
    using wr(4) [OF that] w' by simp
  have lf: "length (frames_of_handle bs w) = wf_frame_count w" using h(5) by simp
  have re: "replay_end 0 0 (frames_of_handle bs w @ G) =
      (if replay_end 0 0 G = 0 then replay_end 0 0 (frames_of_handle bs w) else wf_frame_count w + replay_end 0 0 G)"
    unfolding replay_end_append lf add_0 by (rule replay_end_shift)
  have "wf_last_commit_frame w' = checked_sub_1 (replay_end 0 0 (frames_of_handle bs w @ G))"
    using c(3) unfolding re by (simp add: w' advanced_def checked_sub_1_def)
  moreover have "chain_ok (wf_page_size w') (wf_big_endian_checksum w') (wh_salts (wf_header w')) ck (frames_of_handle bs' w')"
    unfolding fr using ch c(1,2) w' by (simp add: chain_ok_append)
  moreover have "wf_running_checksum w' = chain_end ck (frames_of_handle bs' w')"
    unfolding fr using c(2) w' by (simp add: chain_end_append)
  moreover have "disk_header bs' h ck" using disk_header_take [OF wr(3) h(1)] .
  ultimately show "handle_on bs' w'"
    using h(2-4) n wr(2) w' fr unfolding handle_on_def Let_def
    by (intro exI [of _ h] exI [of _ ck]) simp
qed

lemma append_finalized_cases:
  assumes ok: "handle_on bs w" and k: "0 < k" and len: "length buf = k * frame_size w"
  shows "append_finalized_prepared_frame_bytes ops buf k ck lc w =
    (if wf_frame_count w + k > u32_max then (Inl DatabaseFull, w)
     else case fo_write ops buf (32 + wf_frame_count w * frame_size w) (wf_file w) of
       (Inl e, f') \<Rightarrow> (Inl e, w\<lparr>wf_file := f'\<rparr>) | (Inr _, f') \<Rightarrow> (Inr (), advanced f' k ck lc w))"
proof (cases "wf_frame_count w + k > u32_max")
  case True
  then show ?thesis using k
    by (auto simp: append_finalized_prepared_frame_bytes_def usize_checked_add_def)
next
  case False
  then have b: "wf_frame_count w + k \<le> usize_max" by (simp add: u32_max_def usize_max_def)
  have m: "usize_checked_mul k (frame_size w) = Some (k * frame_size w)"
    using offset_bound(2) [of k "frame_size w"] handle_on_page_size(4) [OF ok] False by (simp add: usize_checked_mul_def)
  have off: "frame_offset w (wf_frame_count w) = 32 + wf_frame_count w * frame_size w" using frame_offset_eq [OF ok] False by simp
  show ?thesis using False k b m off len
    by (auto simp: append_finalized_prepared_frame_bytes_def usize_checked_add_def advance_state_after_write_def advanced_def Let_def
        split: prod.splits sum.splits option.splits)
qed

context vfs_file
begin

lemma append_finalized_spec:
  assumes ok: "handle_on (view (wf_file w)) w" and G: "G \<noteq> []" "\<forall>f \<in> set G. length f = frame_size w"
    and ch: "chain_ok (wf_page_size w) (wf_big_endian_checksum w) (wh_salts (wf_header w)) (wf_running_checksum w) G"
    and r: "append_finalized_prepared_frame_bytes ops (concat G) (length G) (chain_end (wf_running_checksum w) G)
              (checked_sub_1 (replay_end 0 0 G)) w = (r, w')"
  shows "handle_on (view (wf_file w')) w' \<and>
    (case r of
       Inl e \<Rightarrow> (\<exists>f'. w' = w\<lparr>wf_file := f'\<rparr>) \<and> frames_of_handle (view (wf_file w')) w' = frames_of_handle (view (wf_file w)) w
     | Inr u \<Rightarrow> (\<exists>f'. w' = advanced f' (length G) (chain_end (wf_running_checksum w) G) (checked_sub_1 (replay_end 0 0 G)) w) \<and>
         frames_of_handle (view (wf_file w')) w' = frames_of_handle (view (wf_file w)) w @ G \<and>
         (length (view (wf_file w)) = 32 + wf_frame_count w * frame_size w \<longrightarrow>
          length (view (wf_file w')) = 32 + wf_frame_count w' * frame_size w'))"
proof -
  let ?off = "32 + wf_frame_count w * frame_size w"
  have len: "length (concat G) = length G * frame_size w" using G(2) by (induction G) auto
  have k: "0 < length G" using G(1) by simp
  note c = append_finalized_cases [OF ok k len, of ops "chain_end (wf_running_checksum w) G" "checked_sub_1 (replay_end 0 0 G)"]
  show ?thesis
  proof (cases "wf_frame_count w + length G > u32_max")
    case True
    then have "r = Inl DatabaseFull" "w' = w" using c r by auto
    then show ?thesis using ok by (auto intro: exI [of _ "wf_file w"])
  next
    case False
    obtain r1 f1 where w1: "fo_write ops (concat G) ?off (wf_file w) = (r1, f1)" by fastforce
    show ?thesis
    proof (cases r1)
      case (Inl e)
      then have "r = Inl e" "w' = w\<lparr>wf_file := f1\<rparr>" using c r False w1 by auto
      then show ?thesis using handle_on_prefix [OF ok write_err [OF w1 [unfolded Inl]]] by auto
    next
      case (Inr u)
      let ?w = "advanced f1 (length G) (chain_end (wf_running_checksum w) G) (checked_sub_1 (replay_end 0 0 G)) w"
      have rw: "r = Inr ()" "w' = ?w" using c r False w1 Inr by auto
      have n: "wf_frame_count w + length G \<le> u32_max" using False by simp
      note a = handle_on_advanced [OF ok G(2) ch n write_ok [OF w1 [unfolded Inr]] rw(2)]
      have "wf_file w' = f1" using rw by simp
      then show ?thesis using a rw by auto
    qed
  qed
qed

lemma append_frames_spec:
  assumes ok: "handle_on (view (wf_file w)) w" and r: "append_frames ops frames w = (r, w')"
  shows "handle_on (view (wf_file w')) w' \<and>
    (case r of
       Inl e \<Rightarrow> log_of (view (wf_file w')) w' = log_of (view (wf_file w)) w \<and> (\<exists>f'. w' = w\<lparr>wf_file := f'\<rparr>)
     | Inr u \<Rightarrow> log_of (view (wf_file w')) w' = log_of (view (wf_file w)) w @ map ref_content frames \<and>
         (length (view (wf_file w)) = 32 + wf_frame_count w * frame_size w \<longrightarrow>
          length (view (wf_file w')) = 32 + wf_frame_count w' * frame_size w'))"
proof (cases "frames = []")
  case True
  then have "r = Inr ()" "w' = w" using r by (simp_all add: append_frames_def append_frame_iter_def)
  then show ?thesis using ok True by simp
next
  case False
  let ?ps = "wf_page_size w" and ?be = "wf_big_endian_checksum w" and ?salts = "wh_salts (wf_header w)" and ?run = "wf_running_checksum w"
  let ?G = "new_frames ?ps ?be ?salts ?run frames"
  note ps = handle_on_page_size [OF ok]
  have same: "(\<exists>f'. w = w\<lparr>wf_file := f'\<rparr>)" by (intro exI [of _ "wf_file w"]) simp
  show ?thesis
  proof (cases "length frames * frame_size w \<le> usize_max")
    case False
    then have "r = Inl DatabaseFull" "w' = w" using r \<open>frames \<noteq> []\<close>
      by (simp_all add: append_frames_def append_frame_iter_def usize_checked_mul_def)
    then show ?thesis using ok same by simp
  next
    case True
    have loop: "append_frames_loop w (length frames) 0 frames [] ?run None =
      (if \<forall>fr \<in> set frames. length (af_page_data fr) = ?ps
       then Inr (concat ?G, chain_end ?run ?G, checked_sub_1 (replay_end 0 0 ?G), length frames)
       else Inl (WalCorrupt ''page data size mismatch in batch frame''))"
      using append_frames_loop_spec [OF ps(1) True, of "[]" 0 frames ?run None] by (simp add: Let_def checked_sub_1_def)
    show ?thesis
    proof (cases "\<forall>fr \<in> set frames. length (af_page_data fr) = ?ps")
      case False
      then have "r = Inl (WalCorrupt ''page data size mismatch in batch frame'')" "w' = w" using loop [unfolded if_not_P [OF False]] r \<open>frames \<noteq> []\<close> True
        by (simp_all add: append_frames_def append_frame_iter_def usize_checked_mul_def)
      then show ?thesis using ok same by simp
    next
      case lens: True
      note G = new_frames_spec [OF ps(1) lens, of ?be ?salts ?run]
      have "append_frames_loop w (length frames) 0 frames [] ?run None =
          Inr (concat ?G, chain_end ?run ?G, checked_sub_1 (replay_end 0 0 ?G), length frames)"
        using loop lens by simp
      then have "append_finalized_prepared_frame_bytes ops (concat ?G) (length ?G) (chain_end ?run ?G) (checked_sub_1 (replay_end 0 0 ?G)) w = (r, w')"
        using r True \<open>frames \<noteq> []\<close> G by (simp add: append_frames_def append_frame_iter_def usize_checked_mul_def)
      note fin = this
      have ne: "?G \<noteq> []" using G \<open>frames \<noteq> []\<close> by (metis length_0_conv)
      have gl: "\<forall>f \<in> set ?G. length f = frame_size w" and gc: "chain_ok ?ps ?be ?salts ?run ?G" using G ps(2) by simp_all
      have "map frame_content ?G = map ref_content frames" using G by blast
      then show ?thesis using append_finalized_spec [OF ok ne gl gc fin] by (cases r) (simp_all add: log_of_def)
    qed
  qed
qed

end

section \<open>Prepared batches\<close>

lemma length_concat_const: "\<forall>f \<in> set G. length f = k \<Longrightarrow> length (concat G) = length G * k"
  by (induction G) auto

lemma ref_header_bytes:
  "WalFrameHeader_to_bytes (ref_header salts fr) =
   to_be 4 (af_page_number fr) @ to_be 4 (af_db_size_if_commit fr) @ to_be 4 (salt1 salts) @ to_be 4 (salt2 salts) @ replicate 8 0"
  using push_wal_frame_bytes_eq [of "[]" fr salts "[]"] by (simp add: push_wal_frame_bytes_def)

abbreviation raw_frame :: "WalSalts \<Rightarrow> WalAppendFrameRef \<Rightarrow> bytes" where
  "raw_frame salts fr \<equiv> WalFrameHeader_to_bytes (ref_header salts fr) @ af_page_data fr"

lemma salts_rewritten:
  "write_wal_frame_salts (WalFrameHeader_to_bytes (ref_header salts fr)) salts' = Inr (WalFrameHeader_to_bytes (ref_header salts' fr))"
  by (simp add: write_wal_frame_salts_def ensure_min_len_def WAL_FRAME_HEADER_SIZE_def ref_header_bytes write_be_u32_at_def put_def)

lemma checksum_ignores_salts:
  assumes "length (af_page_data fr) = ps"
  shows "compute_wal_frame_checksum (raw_frame salts fr) ps ck be = compute_wal_frame_checksum (raw_frame salts' fr) ps ck be"
proof -
  have "take 8 (raw_frame salts fr) = take 8 (raw_frame salts' fr)" by (simp add: ref_header_bytes)
  then show ?thesis using assms
    by (simp add: compute_wal_frame_checksum_def ensure_frame_len_def ensure_min_len_def WAL_FRAME_HEADER_SIZE_def subslice_def)
qed

lemma prepared_frame_eq:
  assumes "length (af_page_data fr) = wf_page_size w"
  shows "prepared_frame w fr (replicate (frame_size w) 0) = Inr (raw_frame (wh_salts (wf_header w)) fr)"
proof -
  have "take 24 (put 4 (to_be 4 (af_db_size_if_commit fr)) (put 0 (to_be 4 (af_page_number fr)) (replicate (frame_size w) 0))) =
      WalFrameHeader_to_bytes (ref_header \<lparr>salt1 = 0, salt2 = 0\<rparr> fr)"
    by (simp add: ref_header_bytes put_def frame_size_def WAL_FRAME_HEADER_SIZE_def to_be_0 replicate_add [symmetric])
  then show ?thesis
    by (simp add: prepared_frame_def Let_def WAL_FRAME_HEADER_SIZE_def salts_rewritten)
qed

definition transforms_for :: "nat \<Rightarrow> bool \<Rightarrow> WalSalts \<Rightarrow> WalAppendFrameRef list \<Rightarrow> WalChecksumTransform list \<Rightarrow> bool" where
  "transforms_for ps be salts frames ts \<longleftrightarrow> list_all2 (\<lambda>fr t. for_wal_frame (raw_frame salts fr) ps be = Inr t) frames ts"

lemma prepare_loop_spec:
  assumes "prepare_loop w count idx frames buf ts lc = Inr (buf', ts', lc', n)"
    and "buf = done @ replicate ((count - idx) * frame_size w) 0" "length done = idx * frame_size w" "idx \<le> count"
  shows "idx + length frames \<le> count \<and> n = idx + length frames \<and> (\<forall>fr \<in> set frames. length (af_page_data fr) = wf_page_size w) \<and>
    buf' = done @ concat (map (raw_frame (wh_salts (wf_header w))) frames) @ replicate ((count - n) * frame_size w) 0 \<and>
    (\<exists>us. ts' = ts @ us \<and> transforms_for (wf_page_size w) (wf_big_endian_checksum w) (wh_salts (wf_header w)) frames us)"
  using assms
proof (induction frames arbitrary: idx buf ts lc "done")
  case (Cons fr frames)
  let ?s = "wh_salts (wf_header w)" and ?fs = "frame_size w"
  have fsz: "?fs = 24 + wf_page_size w" by (simp add: frame_size_def WAL_FRAME_HEADER_SIZE_def)
  have c: "idx < count" "length (af_page_data fr) = wf_page_size w" and m: "usize_checked_mul idx ?fs = Some (idx * ?fs)"
    using Cons.prems(1) by (auto simp: usize_checked_mul_def split: if_splits option.splits)
  obtain k where k: "count - idx = Suc k" using c(1) by (metis Suc_diff_Suc)
  have sub: "subslice (idx * ?fs) (idx * ?fs + ?fs) buf = replicate ?fs 0"
    using Cons.prems(2,3) k by (simp add: subslice_def replicate_add)
  obtain t where t: "for_wal_frame (raw_frame ?s fr) (wf_page_size w) (wf_big_endian_checksum w) = Inr t"
    and rest: "prepare_loop w count (idx + 1) frames (put (idx * ?fs) (raw_frame ?s fr) buf) (ts @ [t])
      (if af_db_size_if_commit fr \<noteq> 0 then Some idx else lc) = Inr (buf', ts', lc', n)"
    using Cons.prems(1) c m sub prepared_frame_eq [OF c(2)] by (auto simp: bind_err_Inr)
  have pb: "put (idx * ?fs) (raw_frame ?s fr) buf = (done @ raw_frame ?s fr) @ replicate ((count - (idx + 1)) * ?fs) 0"
    using Cons.prems(2,3) k c fsz by (simp add: put_def replicate_add)
  have ld: "length (done @ raw_frame ?s fr) = (idx + 1) * ?fs" using Cons.prems(3) c fsz by simp
  note IH = Cons.IH [OF rest pb ld]
  obtain us where "ts' = (ts @ [t]) @ us" "transforms_for (wf_page_size w) (wf_big_endian_checksum w) ?s frames us"
    using IH c(1) by auto
  then have "ts' = ts @ (t # us)" "transforms_for (wf_page_size w) (wf_big_endian_checksum w) ?s (fr # frames) (t # us)"
    using t by (simp_all add: transforms_for_def)
  then show ?case using IH c by auto
qed (auto simp: transforms_for_def)

lemma finalize_loop_spec:
  assumes ps: "ensure_valid_wal_page_size ps = Inr u"
  shows "transforms_for ps be salts frames ts \<Longrightarrow> \<forall>fr \<in> set frames. length (af_page_data fr) = ps \<Longrightarrow>
    finalize_loop salts' (24 + ps) (concat (map (raw_frame salts) frames)) ts running =
    Inr (chain_end running (new_frames ps be salts' running frames), concat (new_frames ps be salts' running frames))"
proof (induction frames arbitrary: ts running)
  case Nil then show ?case by (simp add: transforms_for_def)
next
  case (Cons fr frames)
  obtain t us where ts: "ts = t # us" "for_wal_frame (raw_frame salts fr) ps be = Inr t" "transforms_for ps be salts frames us"
    using Cons.prems(1) by (auto simp: transforms_for_def list_all2_Cons1)
  have len: "length (af_page_data fr) = ps" using Cons.prems(2) by simp
  obtain f where f: "write_wal_frame_checksum (raw_frame salts' fr) ps running be = Inr (frame_checksum f, f)"
    "new_frames ps be salts' running (fr # frames) = f # new_frames ps be salts' (frame_checksum f) frames"
    using encoded_frame [OF ps len, of salts' running be] by metis
  have ck: "transform_apply t running = frame_checksum f"
    using frame_transform_apply [OF ts(2), of running] checksum_ignores_salts [OF len, of salts running be salts'] f(1)
    by (auto simp: write_wal_frame_checksum_def bind_err_Inr)
  then have wf: "write_wal_frame_checksum_fields (raw_frame salts' fr) (transform_apply t running) = Inr f"
    using f(1) by (auto simp: write_wal_frame_checksum_def bind_err_Inr)
  have tk: "take (24 + ps) (concat (map (raw_frame salts) (fr # frames))) = raw_frame salts fr"
    "drop (24 + ps) (concat (map (raw_frame salts) (fr # frames))) = concat (map (raw_frame salts) frames)"
    "\<not> length (concat (map (raw_frame salts) (fr # frames))) < 24 + ps" using len by simp_all
  have hd: "take 24 (raw_frame salts fr) = WalFrameHeader_to_bytes (ref_header salts fr)" "drop 24 (raw_frame salts fr) = af_page_data fr"
    by simp_all
  have "finalize_loop salts' (24 + ps) (concat (map (raw_frame salts) (fr # frames))) (t # us) running =
      bind_err (finalize_loop salts' (24 + ps) (concat (map (raw_frame salts) frames)) us (frame_checksum f)) (\<lambda>(final, rest). Inr (final, f @ rest))"
    unfolding finalize_loop.simps(2) tk WAL_FRAME_HEADER_SIZE_def hd salts_rewritten using wf ck tk(3) by (simp add: Let_def)
  then show ?case using Cons.IH [OF ts(3), of "frame_checksum f"] Cons.prems(2) ts(1) f(2) by simp
qed

lemma last_commit_in_concat:
  assumes "\<forall>f \<in> set G. length f = fs" "24 \<le> fs"
  shows "last_commit_in fs (concat G) = checked_sub_1 (replay_end 0 0 G)"
proof -
  note lc = length_concat_const [OF assms(1)]
  have fG: "frames_of fs (concat G) = G" using frames_of_concat [OF assms(1), of "length G * fs"] lc assms(2) by simp
  have "from_be (subslice (i * fs + 4) (i * fs + 8) (concat G)) \<noteq> (0 :: u32) \<longleftrightarrow> frame_commits (G ! i)" if "i < length G" for i
  proof -
    have "G ! i = subslice (i * fs) (i * fs + fs) (concat G)" using nth_frames_of [of i "concat G" fs] fG lc that assms(2) by simp
    then have "subslice 4 8 (G ! i) = subslice (i * fs + 4) (i * fs + 8) (concat G)"
      using assms(2) by (simp add: subslice_def drop_take add.commute min_def)
    then show ?thesis by (simp add: frame_commits_def read_be_u32_at_def word_gt_0)
  qed
  moreover have "length (concat G) div fs = length G" using lc assms(2) by simp
  ultimately have "filter (\<lambda>i. from_be (subslice (i * fs + 4) (i * fs + 8) (concat G)) \<noteq> (0 :: u32)) [0..<length (concat G) div fs] =
      filter (\<lambda>i. frame_commits (G ! i)) [0..<length G]" by (intro filter_cong) auto
  moreover have "(case filter (\<lambda>i. frame_commits (G ! i)) [0..<length G] of [] \<Rightarrow> None | is \<Rightarrow> Some (last is)) = checked_sub_1 (replay_end 0 0 G)"
  proof (induction G rule: rev_induct)
    case (snoc f G)
    have "filter (\<lambda>i. frame_commits ((G @ [f]) ! i)) [0..<length G] = filter (\<lambda>i. frame_commits (G ! i)) [0..<length G]"
      by (auto simp: nth_append intro: filter_cong)
    then show ?case using snoc.IH by (auto simp: checked_sub_1_def replay_end_append split: list.splits if_splits)
  qed (simp add: checked_sub_1_def)
  ultimately show ?thesis by (simp add: last_commit_in_def)
qed

lemma append_prepared_eq:
  assumes prep: "prepare_frame_bytes_with_transforms_into w1 (length frames) frames = Inr (buf, ts, lc)"
    and ok: "handle_on bs w" and same: "wf_page_size w1 = wf_page_size w" "wf_big_endian_checksum w1 = wf_big_endian_checksum w"
  shows "\<exists>buf'. append_prepared_frame_bytes ops buf ts w = (fst (append_frames ops frames w), buf', snd (append_frames ops frames w))"
proof (cases "frames = []")
  case True
  then show ?thesis using prep
    by (simp add: prepare_frame_bytes_with_transforms_into_def append_prepared_frame_bytes_def append_frames_def append_frame_iter_def)
next
  case False
  note pz = handle_on_page_size [OF ok]
  have fs1: "frame_size w1 = frame_size w" using same(1) by (simp add: frame_size_def)
  let ?n = "length frames" and ?s1 = "wh_salts (wf_header w1)" and ?ps = "wf_page_size w" and ?be = "wf_big_endian_checksum w"
  let ?s = "wh_salts (wf_header w)" and ?run = "wf_running_checksum w"
  let ?G = "new_frames ?ps ?be ?s ?run frames"
  have m: "?n * frame_size w \<le> usize_max" and lp: "prepare_loop w1 ?n 0 frames (replicate (?n * frame_size w) 0) [] None = Inr (buf, ts, lc, ?n)"
    using prep False fs1 by (auto simp: prepare_frame_bytes_with_transforms_into_def usize_checked_mul_def bind_err_Inr split: if_splits)
  have P: "\<forall>fr \<in> set frames. length (af_page_data fr) = ?ps" "buf = concat (map (raw_frame ?s1) frames)" "transforms_for ?ps ?be ?s1 frames ts"
    using prepare_loop_spec [OF lp, of "[]"] same fs1 by auto
  have lts: "length ts = ?n" using P(3) list_all2_lengthD unfolding transforms_for_def by fastforce
  note G = new_frames_spec [OF pz(1) P(1), of ?be ?s ?run]
  have gl: "\<forall>f \<in> set ?G. length f = frame_size w" using G pz(2) by simp
  have lb: "length buf = ?n * frame_size w"
    using length_concat_const [of "map (raw_frame ?s1) frames" "frame_size w"] P(1,2) pz(2) by simp
  have fin: "finalize_prepared_frame_bytes buf ts w = Inr (chain_end ?run ?G, concat ?G)"
    using finalize_loop_spec [OF pz(1) P(3,1), of ?s ?run] P(2) lts False m lb pz(2)
    by (simp add: finalize_prepared_frame_bytes_def usize_checked_mul_def Let_def)
  have loop: "append_frames_loop w ?n 0 frames [] ?run None = Inr (concat ?G, chain_end ?run ?G, checked_sub_1 (replay_end 0 0 ?G), ?n)"
    using append_frames_loop_spec [OF pz(1) m, of "[]" 0 frames ?run None] P(1) by (simp add: Let_def checked_sub_1_def)
  have lci: "last_commit_in (frame_size w) (concat ?G) = checked_sub_1 (replay_end 0 0 ?G)"
    using last_commit_in_concat [OF gl] pz(2) by simp
  have af: "append_frames ops frames w = append_finalized_prepared_frame_bytes ops (concat ?G) ?n (chain_end ?run ?G) (checked_sub_1 (replay_end 0 0 ?G)) w"
    using loop False m by (simp add: append_frames_def append_frame_iter_def usize_checked_mul_def)
  show ?thesis
  proof (cases "wf_frame_count w + ?n > u32_max")
    case True
    have "length (concat ?G) = ?n * frame_size w"
      using length_concat_const [OF gl] G by simp
    then show ?thesis
      using True False af append_finalized_cases [OF ok, of ?n "concat ?G"] lts
      by (auto simp: append_prepared_frame_bytes_def usize_checked_add_def Let_def)
  next
    case le: False
    then have "wf_frame_count w + ?n \<le> usize_max" by (simp add: u32_max_def usize_max_def)
    then show ?thesis
      using le False lts fin lci af by (simp add: append_prepared_frame_bytes_def usize_checked_add_def Let_def split: prod.split)
  qed
qed

lemma append_frame_eq:
  assumes ok: "handle_on bs w" and len: "length (af_page_data fr) = wf_page_size w"
  shows "append_frame ops (af_page_number fr) (af_page_data fr) (af_db_size_if_commit fr) w = append_frames ops [fr] w"
proof -
  note pz = handle_on_page_size [OF ok]
  let ?ps = "wf_page_size w" and ?be = "wf_big_endian_checksum w" and ?s = "wh_salts (wf_header w)" and ?run = "wf_running_checksum w"
  obtain f where f: "write_wal_frame_checksum (raw_frame ?s fr) ?ps ?run ?be = Inr (frame_checksum f, f)" "length f = 24 + ?ps"
    "frame_commits f \<longleftrightarrow> af_db_size_if_commit fr \<noteq> 0" "new_frames ?ps ?be ?s ?run [fr] = [f]"
    using encoded_frame [OF pz(1) len, of ?s ?run ?be] by (metis new_frames_Nil)
  have m: "1 * frame_size w \<le> usize_max" using pz(4) by (simp add: usize_max_def)
  have "append_frames_loop w 1 0 [fr] [] ?run None = Inr (f, frame_checksum f, checked_sub_1 (replay_end 0 0 [f]), 1)"
    using append_frames_loop_spec [OF pz(1) m, of "[]" 0 "[fr]" ?run None] len f(4) by (simp add: Let_def checked_sub_1_def)
  then have "append_frames ops [fr] w = append_finalized_prepared_frame_bytes ops f 1 (frame_checksum f) (checked_sub_1 (replay_end 0 0 [f])) w"
    using m by (simp add: append_frames_def append_frame_iter_def usize_checked_mul_def)
  also have "\<dots> = (if wf_frame_count w + 1 > u32_max then (Inl DatabaseFull, w)
     else case fo_write ops f (32 + wf_frame_count w * frame_size w) (wf_file w) of
       (Inl e, f') \<Rightarrow> (Inl e, w\<lparr>wf_file := f'\<rparr>) | (Inr _, f') \<Rightarrow> (Inr (), advanced f' 1 (frame_checksum f) (checked_sub_1 (replay_end 0 0 [f])) w))"
    by (rule append_finalized_cases [OF ok]) (use f(2) pz(2) in simp_all)
  also have "\<dots> = append_frame ops (af_page_number fr) (af_page_data fr) (af_db_size_if_commit fr) w"
    using len f(1,3) frame_offset_eq [OF ok, of "wf_frame_count w"]
    by (auto simp: append_frame_def push_wal_frame_bytes_eq advanced_def checked_sub_1_def Let_def split: prod.splits sum.splits)
  finally show ?thesis ..
qed

section \<open>Committed prefixes\<close>

definition commit_prefix :: "(u32 \<times> u32 \<times> bytes) list \<Rightarrow> (u32 \<times> u32 \<times> bytes) list" where
  "commit_prefix l = rev (dropWhile (\<lambda>(_, db_size, _). db_size = 0) (rev l))"

lemma replay_end_le: "replay_end 0 0 G \<le> length G"
  using replay_end_spec [of 0 0 G] by simp

lemma commit_prefix_frames: "map frame_content (take (replay_end 0 0 G) G) = commit_prefix (map frame_content G)"
proof (induction G rule: rev_induct)
  case (snoc f G)
  have "frame_commits f \<longleftrightarrow> fst (snd (frame_content f)) \<noteq> 0" by (simp add: frame_content_def frame_commits_def word_gt_0)
  then show ?case using snoc.IH replay_end_le [of G]
    by (cases "frame_content f") (simp add: replay_end_append commit_prefix_def)
qed (simp add: commit_prefix_def)

lemma replay_end_idem: "replay_end 0 0 (take (replay_end 0 0 G) G) = replay_end 0 0 G"
proof (induction G rule: rev_induct)
  case (snoc f G)
  then show ?case using replay_end_le [of G] by (simp add: replay_end_append)
qed simp

text \<open>The handle that opening yields, in terms of the bytes of the file.\<close>

definition opened :: "'f \<Rightarrow> bytes \<Rightarrow> WalHeader \<Rightarrow> SqliteWalChecksum \<Rightarrow> 'f WalFile" where
  "opened file bs h ck =
     (let ps = unat (wh_page_size h); be = big_endian_checksum h; F = frames_of (24 + ps) (drop 32 bs);
          c = replay_end 0 0 (take (valid_prefix ps be (wh_salts h) ck F) F) in
      \<lparr>wf_file = file, wf_page_size = ps, wf_big_endian_checksum = be, wf_header = h,
       wf_running_checksum = chain_end ck (take c F), wf_frame_count = c, wf_last_commit_frame = checked_sub_1 c,
       wf_last_fsynced_frame_count = c\<rparr>)"

lemma scan_result_0:
  "scan_result ps be salts F 0 ck 0 ck =
   (let c = replay_end 0 0 (take (valid_prefix ps be salts ck F) F) in (c, chain_end ck (take c F)))"
proof -
  let ?G = "take (valid_prefix ps be salts ck F) F"
  let ?c = "replay_end 0 0 ?G"
  have "?c \<le> length F" using replay_end_le [of ?G] by simp
  then have "chain_end ck (take ?c F) = (if ?c \<le> 0 then ck else frame_checksum (F ! (?c - 1)))"
    by (auto simp: chain_end_def last_conv_nth)
  then show ?thesis by (simp add: scan_result_def Let_def)
qed

lemma opened_handle:
  assumes "disk_header bs h ck" "wf_frame_count (opened file bs h ck) \<le> u32_max"
  shows "handle_on bs (opened file bs h ck)"
proof -
  let ?ps = "unat (wh_page_size h)" and ?be = "big_endian_checksum h"
  let ?F = "frames_of (24 + ?ps) (drop 32 bs)"
  let ?v = "valid_prefix ?ps ?be (wh_salts h) ck ?F"
  let ?c = "replay_end 0 0 (take ?v ?F)"
  have c: "?c \<le> ?v" "?c \<le> length ?F" using replay_end_le [of "take ?v ?F"] by simp_all
  then have t: "take ?c ?F = take ?c (take ?v ?F)" by (simp add: min_def)
  have "chain_ok ?ps ?be (wh_salts h) ck (take ?c (take ?v ?F) @ drop ?c (take ?v ?F))"
    unfolding append_take_drop_id by (rule chain_ok_valid_prefix)
  then have "chain_ok ?ps ?be (wh_salts h) ck (take ?c ?F)" unfolding t chain_ok_append by blast
  moreover have "replay_end 0 0 (take ?c ?F) = ?c" unfolding t by (rule replay_end_idem)
  moreover have "frame_size (opened file bs h ck) = 24 + ?ps" by (simp add: opened_def Let_def frame_size_def WAL_FRAME_HEADER_SIZE_def)
  ultimately show ?thesis using assms c
    by (auto simp: handle_on_def opened_def Let_def same_generation_simps intro!: exI [of _ h] exI [of _ ck])
qed

lemma opened_log: "log_of bs (opened file bs h ck) =
  (let F = frames_of (24 + unat (wh_page_size h)) (drop 32 bs) in
   commit_prefix (map frame_content (take (valid_prefix (unat (wh_page_size h)) (big_endian_checksum h) (wh_salts h) ck F) F)))"
proof -
  let ?F = "frames_of (24 + unat (wh_page_size h)) (drop 32 bs)"
  let ?v = "valid_prefix (unat (wh_page_size h)) (big_endian_checksum h) (wh_salts h) ck ?F"
  let ?c = "replay_end 0 0 (take ?v ?F)"
  have "?c \<le> ?v" using replay_end_le [of "take ?v ?F"] by simp
  then have "take ?c ?F = take ?c (take ?v ?F)" by (simp add: min_def)
  then show ?thesis
    using commit_prefix_frames [of "take ?v ?F"]
    by (simp add: log_of_def opened_def Let_def frame_size_def WAL_FRAME_HEADER_SIZE_def)
qed

context readable_file
begin

lemma open_eq:
  assumes h: "disk_header (view file) h ck" and small: "length (view file) \<le> usize_max"
  shows "WalFile_open ops file = Inr (opened file (view file) h ck)"
proof -
  let ?ps = "unat (wh_page_size h)"
  let ?F = "frames_of (24 + ?ps) (drop 32 (view file))"
  have ps: "ensure_valid_wal_page_size ?ps = Inr ()" using disk_header_page_size(1) [OF h] valid_header_page_size(2) by blast
  have mx: "max_frames_of (length (view file)) (24 + ?ps) = length ?F" by (simp add: max_frames_of_def WAL_HEADER_SIZE_def)
  show ?thesis
    using read_checked_header_disk [OF h] size_eq scan_frames_total [OF ps refl small, of 0 0 "big_endian_checksum h" "wh_salts h" ck ck]
    by (simp add: WalFile_open_def Let_def WAL_FRAME_HEADER_SIZE_def mx scan_result_0 opened_def)
qed

end

section \<open>Creating, crashing, refreshing and resetting\<close>

fun append_batches :: "'f file_ops \<Rightarrow> WalAppendFrameRef list list \<Rightarrow> 'f WalFile \<Rightarrow> (FrankenError + unit) \<times> 'f WalFile" where
  "append_batches ops [] w = (Inr (), w)"
| "append_batches ops (b # bs) w =
     (case append_frames ops b w of (Inl e, w') \<Rightarrow> (Inl e, w') | (Inr _, w') \<Rightarrow> append_batches ops bs w')"

text \<open>The file ends with the last frame of the handle.\<close>

definition ends_at :: "bytes \<Rightarrow> 'f WalFile \<Rightarrow> bool" where
  "ends_at bs w \<longleftrightarrow> length bs = 32 + wf_frame_count w * frame_size w"

lemma disk_header_tail: "disk_header bs h ck \<Longrightarrow> 32 \<le> m \<Longrightarrow> disk_header (take m bs) h ck"
  by (rule disk_header_take [of _ bs]) (simp_all add: min_def)

lemma handle_onE:
  assumes "handle_on bs w"
  obtains h ck where "disk_header bs h ck" "same_generation h (wf_header w)" "wf_page_size w = unat (wh_page_size h)"
    "wf_big_endian_checksum w = big_endian_checksum h" "wf_frame_count w \<le> length (frames_in bs w)" "wf_frame_count w \<le> u32_max"
    "chain_ok (wf_page_size w) (wf_big_endian_checksum w) (wh_salts h) ck (frames_of_handle bs w)"
    "wf_running_checksum w = chain_end ck (frames_of_handle bs w)"
    "wf_last_commit_frame w = checked_sub_1 (replay_end 0 0 (frames_of_handle bs w))" "frame_size w = 24 + unat (wh_page_size h)"
  using assms by (auto simp: handle_on_def Let_def same_generation_simps frame_size_def WAL_FRAME_HEADER_SIZE_def)

lemma chain_ok_take: "chain_ok ps be salts ck fs \<Longrightarrow> chain_ok ps be salts ck (take k fs)"
  using chain_ok_append [of ps be salts ck "take k fs" "drop k fs"] by simp

lemma crash_frames:
  assumes "0 < fs" "32 \<le> length bs" "32 \<le> m"
  shows "frames_of fs (drop 32 (take m bs)) = take ((m - 32) div fs) (frames_of fs (drop 32 bs))"
proof -
  let ?k = "length (frames_of fs (drop 32 (take m bs)))"
  have k: "?k = min ((m - 32) div fs) ((length bs - 32) div fs)" 
  proof (cases "m \<le> length bs")
    case True
    then have "(m - 32) div fs \<le> (length bs - 32) div fs" by (intro div_le_mono) simp
    then show ?thesis using True by simp
  next
    case False
    then have "(length bs - 32) div fs \<le> (m - 32) div fs" by (intro div_le_mono) simp
    then show ?thesis using False by simp
  qed
  have "?k * fs \<le> m - 32" using k div_times_less_eq_dividend [of "m - 32" fs] by (metis min.cobounded1 mult_le_mono1 order_trans)
  then have "32 + ?k * fs \<le> m" using assms(3) by simp
  then have "take (32 + ?k * fs) (take m bs) = take (32 + ?k * fs) bs" by (simp only: take_take min_absorb1)
  from frames_prefix(1) [OF this _ assms(2,1)] have "take ?k (frames_of fs (drop 32 (take m bs))) = take ?k (frames_of fs (drop 32 bs))" using k by simp
  then have "frames_of fs (drop 32 (take m bs)) = take ?k (frames_of fs (drop 32 bs))" by (simp only: take_all order_refl)
  also have "\<dots> = take ((m - 32) div fs) (frames_of fs (drop 32 bs))" unfolding k by (simp add: min_def)
  finally show ?thesis .
qed

context vfs_file
begin

lemma create_spec:
  assumes "WalFile_create ops file page_size seq salts = (Inr w, file')"
  shows "handle_on (view (wf_file w)) w \<and> log_of (view (wf_file w)) w = [] \<and> ends_at (view (wf_file w)) w \<and> wf_file w = file' \<and>
    wf_page_size w = unat page_size"
proof -
  define hdr where "hdr = \<lparr>wh_magic = WAL_MAGIC_LE, wh_format_version = WAL_FORMAT_VERSION, wh_page_size = page_size,
            wh_checkpoint_seq = seq, wh_salts = salts, wh_checksum = default_checksum\<rparr>"
  obtain hb0 where "WalHeader_to_bytes hdr = Inr hb0"
    using assms unfolding WalFile_create_def hdr_def [symmetric] Let_def by (auto split: sum.splits)
  then have "PageSize_new (wh_page_size hdr) \<noteq> None"
    using valid_header_page_size(1) [of "wh_page_size hdr"] by (auto simp: WalHeader_to_bytes_def bind_err_Inr)
  then obtain hb ck where hb: "WalHeader_to_bytes hdr = Inr hb" "length hb = 32" "read_wal_header_checksum hb = Inr ck"
    "\<And>rest. disk_header (hb @ rest) (hdr\<lparr>wh_checksum := ck\<rparr>) ck"
    by (rule written_header [of hdr]) (simp_all add: hdr_def)
  obtain u1 f1 u2 where f: "fo_write ops hb 0 file = (Inr u1, f1)" "fo_truncate ops 32 f1 = (Inr u2, file')"
    and w: "w = \<lparr>wf_file = file', wf_page_size = unat page_size, wf_big_endian_checksum = False, wf_header = hdr,
                 wf_running_checksum = ck, wf_frame_count = 0, wf_last_commit_frame = None, wf_last_fsynced_frame_count = 0\<rparr>"
    using assms hb(1,3) unfolding WalFile_create_def hdr_def [symmetric] Let_def WAL_HEADER_SIZE_def by (auto split: sum.splits prod.splits)
  have "32 \<le> length (view f1)" using write_ok [OF f(1)] hb(2) length_write_at [of 0 hb "view file"] by auto
  then have "view file' = hb" using write_ok [OF f(1)] truncate_ok [OF f(2)] read_write_at [of hb 0 "view file"] hb(2) by simp
  then have "disk_header (view file') (hdr\<lparr>wh_checksum := ck\<rparr>) ck" "length (view file') = 32" using hb(4) [of "[]"] hb(2) by simp_all
  moreover have "WAL_MAGIC_LE \<noteq> WAL_MAGIC_BE" by (simp add: WAL_MAGIC_LE_def WAL_MAGIC_BE_def)
  ultimately show ?thesis using w
    by (auto simp: handle_on_def log_of_def ends_at_def same_generation_simps hdr_def checked_sub_1_def big_endian_checksum_def Let_def
        intro!: exI [of _ "hdr\<lparr>wh_checksum := ck\<rparr>"] exI [of _ ck])
qed

lemma append_batches_spec:
  "handle_on (view (wf_file w)) w \<Longrightarrow> append_batches ops batches w = (Inr (), w') \<Longrightarrow>
   handle_on (view (wf_file w')) w' \<and> log_of (view (wf_file w')) w' = log_of (view (wf_file w)) w @ map ref_content (concat batches) \<and>
   (ends_at (view (wf_file w)) w \<longrightarrow> ends_at (view (wf_file w')) w')"
proof (induction batches arbitrary: w)
  case (Cons b batches)
  obtain w1 where w1: "append_frames ops b w = (Inr (), w1)" "append_batches ops batches w1 = (Inr (), w')"
    using Cons.prems(2) by (auto split: prod.splits sum.splits)
  show ?case using append_frames_spec [OF Cons.prems(1) w1(1)] Cons.IH [of w1] w1(2) by (auto simp: ends_at_def)
qed simp

lemma reset_spec:
  assumes ok: "handle_on (view (wf_file w)) w" and r: "wal_reset ops seq salts trunc w = (Inr (), w')"
  shows "handle_on (view (wf_file w')) w' \<and> log_of (view (wf_file w')) w' = [] \<and> wh_salts (wf_header w') = salts \<and>
    wh_checkpoint_seq (wf_header w') = seq \<and> frame_size w' = frame_size w \<and> wf_page_size w' = wf_page_size w \<and>
    drop 32 (view (wf_file w')) = (if trunc then [] else drop 32 (view (wf_file w)))"
proof -
  obtain h0 ck0 where h0: "disk_header (view (wf_file w)) h0 ck0" "same_generation h0 (wf_header w)" "wf_page_size w = unat (wh_page_size h0)"
    "wf_big_endian_checksum w = big_endian_checksum h0"
    using handle_onE [OF ok] by metis
  define hdr where "hdr = \<lparr>wh_magic = wh_magic (wf_header w), wh_format_version = WAL_FORMAT_VERSION,
            wh_page_size = wh_page_size (wf_header w), wh_checkpoint_seq = seq, wh_salts = salts, wh_checksum = default_checksum\<rparr>"
  have hp: "PageSize_new (wh_page_size hdr) \<noteq> None" "wh_magic hdr \<in> {WAL_MAGIC_LE, WAL_MAGIC_BE}" "wh_format_version hdr = WAL_FORMAT_VERSION"
    using disk_header_page_size [OF h0(1)] h0(2) by (simp_all add: hdr_def same_generation_simps)
  obtain hb ck where hb: "WalHeader_to_bytes hdr = Inr hb" "length hb = 32" "read_wal_header_checksum hb = Inr ck"
    "WalHeader_from_bytes hb = Inr (hdr\<lparr>wh_checksum := ck\<rparr>)" "\<And>rest. disk_header (hb @ rest) (hdr\<lparr>wh_checksum := ck\<rparr>) ck"
    using written_header [OF hp] by blast
  obtain u1 f1 u2 f2 u3 f3 where f: "fo_write ops hb 0 (wf_file w) = (Inr u1, f1)"
    "(if trunc then fo_truncate ops 32 f1 else (Inr (), f1)) = (Inr u2, f2)" "fo_sync ops NORMAL f2 = (Inr u3, f3)"
    and w': "w' = w\<lparr>wf_file := f3, wf_running_checksum := ck, wf_header := hdr\<lparr>wh_checksum := ck\<rparr>,
                    wf_frame_count := 0, wf_last_commit_frame := None, wf_last_fsynced_frame_count := 0\<rparr>"
    using r hb(1,3,4) unfolding wal_reset_def hdr_def [symmetric] Let_def WAL_HEADER_SIZE_def
    by (cases "fo_write ops hb 0 (wf_file w)") (auto split: sum.splits prod.splits)
  have len: "32 \<le> length (view (wf_file w))" using h0(1) by (simp add: disk_header_def)
  have v1: "view f1 = hb @ drop 32 (view (wf_file w))"
    using write_ok [OF f(1)] hb(2) len by (auto simp: write_at_def put_def)
  have "view f2 = (if trunc then take 32 (view f1) else view f1)" using f(2) truncate_ok v1 hb(2) by (auto split: if_splits)
  then have v: "view (wf_file w') = hb @ (if trunc then [] else drop 32 (view (wf_file w)))"
    using sync_view [OF f(3)] v1 hb(2) w' by simp
  have dh: "disk_header (view (wf_file w')) (hdr\<lparr>wh_checksum := ck\<rparr>) ck" unfolding v by (rule hb(5))
  have sz: "unat (wh_page_size h0) = unat (wh_page_size (wf_header w))" "big_endian_checksum h0 = big_endian_checksum (wf_header w)"
    using h0(2) by (simp_all add: same_generation_simps big_endian_checksum_def)
  have "handle_on (view (wf_file w')) w'" unfolding handle_on_def Let_def
    by (rule exI [of _ "hdr\<lparr>wh_checksum := ck\<rparr>"], rule exI [of _ ck])
       (use dh h0 sz w' in \<open>simp add: same_generation_simps hdr_def big_endian_checksum_def checked_sub_1_def\<close>)
  then show ?thesis using w' v hb(2) by (simp add: log_of_def hdr_def frame_size_def)
qed

end

text \<open>A file that can be addressed, in which the frames behind those of the handle carry other salts,
  as those of an earlier generation do.\<close>

definition foreign_tail :: "bytes \<Rightarrow> 'f WalFile \<Rightarrow> bool" where
  "foreign_tail bs w \<longleftrightarrow> length bs \<le> usize_max \<and>
     (\<forall>f \<in> set (drop (wf_frame_count w) (frames_in bs w)). frame_salts f \<noteq> wh_salts (wf_header w))"

lemma ends_at_foreign: "handle_on bs w \<Longrightarrow> ends_at bs w \<Longrightarrow> foreign_tail bs w"
proof -
  assume ok: "handle_on bs w" and e: "ends_at bs w"
  have "wf_frame_count w \<le> u32_max" using handle_onE [OF ok] by metis
  from offset_bound(1) [OF this handle_on_page_size(4) [OF ok]] show ?thesis
    using e handle_on_page_size(3) [OF ok] by (simp add: foreign_tail_def ends_at_def)
qed

lemma valid_prefix_foreign:
  assumes "chain_ok ps be salts ck xs" "\<forall>f \<in> set ys. frame_salts f \<noteq> salts"
  shows "valid_prefix ps be salts ck (xs @ ys) = length xs"
  using valid_prefix_split [OF assms(1), of ys] assms(2) by (cases ys) (simp_all add: frame_ok_def)

text \<open>Appending overwrites frames of the tail from the front and keeps the others.\<close>

lemma frames_behind:
  assumes "0 < fs" "k = length data div fs" "length data mod fs = 0" "bs' = write_at (32 + n * fs) data bs"
  shows "drop (n + k) (frames_of fs (drop 32 bs')) = drop (n + k) (frames_of fs (drop 32 bs)) \<or>
    drop (n + k) (frames_of fs (drop 32 bs')) = []"
proof (cases "length bs \<le> 32 + n * fs + length data")
  case True
  have ld: "length data = k * fs" using assms by (metis div_mult_mod_eq add.right_neutral)
  then have "length bs' - 32 \<le> (n + k) * fs" using True assms(4) by (auto simp: length_write_at add_mult_distrib)
  then have "(length bs' - 32) div fs \<le> n + k" by (metis assms(1) div_le_mono nonzero_mult_div_cancel_right not_gr_zero)
  then show ?thesis by simp
next
  case False
  have ld: "length data = k * fs" using assms by (metis div_mult_mod_eq add.right_neutral)
  have len: "length bs' = length bs" using False by (simp add: assms(4) length_write_at)
  have "frames_of fs (drop 32 bs') ! i = frames_of fs (drop 32 bs) ! i" if i: "n + k \<le> i" "i < length (frames_of fs (drop 32 bs))" for i
  proof -
    have "(n + k) * fs \<le> i * fs" using i(1) by (rule mult_le_mono1)
    then have "drop (32 + i * fs) bs' = drop (32 + i * fs) bs"
      using False ld i(1) by (auto simp: assms(4) write_at_def put_def add_mult_distrib add.commute)
    then show ?thesis using frame_inside(2) [of i fs bs] frame_inside(2) [of i fs bs'] i len by simp
  qed
  then have "drop (n + k) (frames_of fs (drop 32 bs')) = drop (n + k) (frames_of fs (drop 32 bs))"
    using len by (intro nth_equalityI) simp_all
  then show ?thesis ..
qed

context vfs_file
begin

lemma append_frames_file:
  assumes ok: "handle_on (view (wf_file w)) w" and r: "append_frames ops frames w = (Inr u, w')"
  shows "w' = w \<and> frames = [] \<or> wf_frame_count w' = wf_frame_count w + length frames \<and> wf_frame_count w' \<le> u32_max \<and>
    frame_size w' = frame_size w \<and> wf_header w' = wf_header w \<and>
    (\<exists>data. length data = length frames * frame_size w \<and>
      view (wf_file w') = write_at (32 + wf_frame_count w * frame_size w) data (view (wf_file w)))"
proof (cases "frames = []")
  case True then show ?thesis using r by (simp add: append_frames_def append_frame_iter_def)
next
  case False
  then obtain data ck lc where a: "append_finalized_prepared_frame_bytes ops data (length frames) ck lc w = (Inr u, w')"
    using r by (auto simp: append_frames_def append_frame_iter_def split: if_splits option.splits sum.splits prod.splits)
  then have l: "length data = length frames * frame_size w" using False
    by (auto simp: append_finalized_prepared_frame_bytes_def usize_checked_mul_def split: if_splits option.splits)
  then obtain u1 f1 where "fo_write ops data (32 + wf_frame_count w * frame_size w) (wf_file w) = (Inr u1, f1)"
    "w' = advanced f1 (length frames) ck lc w" "\<not> wf_frame_count w + length frames > u32_max"
    using a False append_finalized_cases [OF ok _ l, of ops ck lc] by (auto split: if_splits sum.splits prod.splits)
  then show ?thesis using l write_ok by (auto simp: advanced_def split: option.splits)
qed

lemma append_foreign:
  assumes ok: "handle_on (view (wf_file w)) w" and e: "foreign_tail (view (wf_file w)) w" and r: "append_frames ops frames w = (Inr u, w')"
  shows "foreign_tail (view (wf_file w')) w'"
proof -
  note pz = handle_on_page_size [OF ok]
  let ?bs = "view (wf_file w)" and ?bs' = "view (wf_file w')" and ?n = "wf_frame_count w"
  consider "w' = w" | data where "wf_frame_count w' = ?n + length frames" "wf_frame_count w' \<le> u32_max" "frame_size w' = frame_size w"
    "wf_header w' = wf_header w" "length data = length frames * frame_size w" "?bs' = write_at (32 + ?n * frame_size w) data ?bs"
    using append_frames_file [OF ok r] by blast
  then show ?thesis
  proof cases
    case 1 then show ?thesis using e by simp
  next
    case 2
    have "length ?bs' \<le> usize_max"
      using 2(1,2,5) e offset_bound(1) [OF 2(2) pz(4)] by (simp add: 2(6) length_write_at foreign_tail_def add_mult_distrib)
    moreover have "length frames = length data div frame_size w" "length data mod frame_size w = 0" using 2(5) pz(3) by simp_all
    note b = frames_behind [OF pz(3) this 2(6)]
    have "set (drop (wf_frame_count w') (frames_in ?bs' w')) \<subseteq> set (drop ?n (frames_in ?bs w))"
      using b 2(1,3) set_drop_subset_set_drop [of ?n "?n + length frames" "frames_in ?bs w"] by auto
    ultimately show ?thesis using e 2(4) by (auto simp: foreign_tail_def)
  qed
qed

lemma append_batches_foreign:
  "handle_on (view (wf_file w)) w \<Longrightarrow> foreign_tail (view (wf_file w)) w \<Longrightarrow> append_batches ops batches w = (Inr (), w') \<Longrightarrow>
   foreign_tail (view (wf_file w')) w'"
proof (induction batches arbitrary: w)
  case (Cons b batches)
  obtain w1 where w1: "append_frames ops b w = (Inr (), w1)" "append_batches ops batches w1 = (Inr (), w')"
    using Cons.prems(3) by (auto split: prod.splits sum.splits)
  show ?case
    using Cons.IH [OF _ append_foreign [OF Cons.prems(1,2) w1(1)] w1(2)] append_frames_spec [OF Cons.prems(1) w1(1)] by simp
qed simp

end

context readable_file
begin

lemma crash_open:
  assumes ok: "handle_on (view f) w" and e: "foreign_tail (view f) w" and c: "view f' = take m (view f)" "32 \<le> m"
  shows "\<exists>w2. WalFile_open ops f' = Inr w2 \<and> handle_on (view f') w2 \<and>
    log_of (view f') w2 = commit_prefix (take ((m - 32) div frame_size w) (log_of (view f) w))"
proof -
  obtain h ck where h: "disk_header (view f) h ck" "same_generation h (wf_header w)" "wf_page_size w = unat (wh_page_size h)"
    "wf_big_endian_checksum w = big_endian_checksum h" "wf_frame_count w \<le> length (frames_in (view f) w)"
    "wf_frame_count w \<le> u32_max" "chain_ok (wf_page_size w) (wf_big_endian_checksum w) (wh_salts h) ck (frames_of_handle (view f) w)"
    "frame_size w = 24 + unat (wh_page_size h)"
    using handle_onE [OF ok] by metis
  note pz = handle_on_page_size [OF ok]
  let ?fs = "24 + unat (wh_page_size h)" and ?k = "(m - 32) div frame_size w" and ?F = "frames_in (view f) w" and ?n = "wf_frame_count w"
  let ?v = "valid_prefix (unat (wh_page_size h)) (big_endian_checksum h) (wh_salts h) ck (take ?k ?F)"
  have fr: "frames_of ?fs (drop 32 (view f')) = take ?k ?F"
    using crash_frames [OF pz(3,5) c(2)] c(1) h(8) by simp
  have d: "disk_header (view f') h ck" using disk_header_tail [OF h(1) c(2)] c(1) by simp
  have small: "length (view f') \<le> usize_max" using c(1) e by (simp add: foreign_tail_def min.coboundedI1)
  have "\<forall>g \<in> set (drop ?n (take ?k ?F)). frame_salts g \<noteq> wh_salts h"
    using e h(2) by (auto simp: foreign_tail_def same_generation_simps drop_take dest: in_set_takeD)
  moreover have sp: "take ?k (frames_of_handle (view f) w) @ drop ?n (take ?k ?F) = take ?k ?F"
    using append_take_drop_id [of ?n "take ?k ?F"] by (simp add: min.commute)
  ultimately have v: "?v = length (take ?k (frames_of_handle (view f) w))"
    using valid_prefix_foreign [OF chain_ok_take [OF h(7), of ?k], of "drop ?n (take ?k ?F)"] h(3,4) sp by simp
  have tv: "take ?v (take ?k ?F) = take ?k (frames_of_handle (view f) w)" 
    using arg_cong [OF sp, of "take ?v"] unfolding v by (simp only: take_append order_refl take_all diff_self_eq_0 take_0 append_Nil2)
  have "log_of (view f') (opened f' (view f') h ck) = commit_prefix (map frame_content (take ?v (take ?k ?F)))"
    using fr by (simp add: opened_log Let_def)
  also have "\<dots> = commit_prefix (take ?k (log_of (view f) w))" unfolding tv by (simp add: log_of_def take_map)
  finally have l: "log_of (view f') (opened f' (view f') h ck) = commit_prefix (take ?k (log_of (view f) w))" .
  have "wf_frame_count (opened f' (view f') h ck) = replay_end 0 0 (take ?v (take ?k ?F))" using fr by (simp add: opened_def Let_def)
  also have "\<dots> \<le> length (take ?k (frames_of_handle (view f) w))" unfolding tv by (rule replay_end_le)
  also have "\<dots> \<le> u32_max" using h(6) by (simp add: min_def)
  finally have "wf_frame_count (opened f' (view f') h ck) \<le> u32_max" .
  from opened_handle [OF d this] show ?thesis using open_eq [OF d small] l by (intro exI [of _ "opened f' (view f') h ck"]) simp
qed

lemma read_frame_eq:
  assumes ok: "handle_on (view (wf_file w)) w" and i: "i < wf_frame_count w"
  shows "\<exists>h page. read_frame ops i w = Inr (h, page) \<and> (fh_page_number h, fh_db_size h, page) = log_of (view (wf_file w)) w ! i \<and>
    read_frame_header ops i w = Inr h"
proof -
  let ?F = "frames_in (view (wf_file w)) w"
  note pz = handle_on_page_size [OF ok]
  have n: "wf_frame_count w \<le> length ?F" "wf_frame_count w \<le> u32_max" using ok by (auto simp: handle_on_def)
  then have iF: "i < length ?F" using i by simp
  have off: "frame_offset w i = 32 + i * frame_size w" using frame_offset_eq [OF ok] i n(2) by simp
  have "Suc i \<le> u32_max" using i n(2) by simp
  then have b: "32 + Suc i * frame_size w \<le> usize_max" by (rule offset_bound(1) [OF _ pz(4)])
  have "24 \<le> frame_size w" using pz(2) by simp
  then have rd: "fo_read ops (wf_file w) (frame_size w) (frame_offset w i) = Inr (?F ! i)"
    "fo_read ops (wf_file w) 24 (frame_offset w i) = Inr (take 24 (?F ! i))"
    using read_eq [of "frame_offset w i" "frame_size w"] read_eq [of "frame_offset w i" 24] b off frame_inside(2) [OF iF]
    by (simp_all add: min_def flip: frame_inside(2) [OF iF])
  have len: "length (?F ! i) = 24 + wf_page_size w" using frame_length iF pz(2) by simp
  then have ph: "put 0 (?F ! i) (replicate (frame_size w) 0) = ?F ! i" using pz(2) by (simp add: put_def)
  have "read_frame ops i w = Inr (header_of (?F ! i), drop 24 (?F ! i))"
    using rd(1) i len ph pz(2) frame_header_of [of "?F ! i"]
    by (simp add: read_frame_def read_frame_into_def WAL_FRAME_HEADER_SIZE_def Let_def)
  moreover have "read_frame_header ops i w = Inr (header_of (?F ! i))"
    using rd(2) i len frame_header_of [of "?F ! i"] by (simp add: read_frame_header_def WAL_FRAME_HEADER_SIZE_def)
  moreover have "(fh_page_number (header_of (?F ! i)), fh_db_size (header_of (?F ! i)), drop 24 (?F ! i)) = log_of (view (wf_file w)) w ! i"
    using i iF by (simp add: log_of_def frame_content_def header_of_def)
  ultimately show ?thesis by blast
qed

end

definition committed_handle :: "bytes \<Rightarrow> 'f WalFile \<Rightarrow> bool" where
  "committed_handle bs w \<longleftrightarrow> handle_on bs w \<and> replay_end 0 0 (frames_of_handle bs w) = wf_frame_count w"

text \<open>What opening finds, seen from a handle whose last frame is committed.\<close>

lemma opened_from_handle:
  assumes ok: "committed_handle bs w" and d: "disk_header bs h ck"
  shows "opened (wf_file w) bs h ck =
    (let (c, cck) = scan_result (wf_page_size w) (wf_big_endian_checksum w) (wh_salts (wf_header w)) (frames_in bs w)
           (wf_frame_count w) (wf_running_checksum w) (wf_frame_count w) (wf_running_checksum w) in
     w\<lparr>wf_header := h, wf_frame_count := c, wf_running_checksum := cck, wf_last_commit_frame := checked_sub_1 c, wf_last_fsynced_frame_count := c\<rparr>)"
proof -
  have hd: "handle_on bs w" and cm: "replay_end 0 0 (frames_of_handle bs w) = wf_frame_count w" using ok by (auto simp: committed_handle_def)
  obtain h' ck' where h': "disk_header bs h' ck'" "same_generation h' (wf_header w)" "wf_page_size w = unat (wh_page_size h')"
    "wf_big_endian_checksum w = big_endian_checksum h'" "wf_frame_count w \<le> length (frames_in bs w)"
    "chain_ok (wf_page_size w) (wf_big_endian_checksum w) (wh_salts h') ck' (frames_of_handle bs w)"
    "wf_running_checksum w = chain_end ck' (frames_of_handle bs w)" "frame_size w = 24 + unat (wh_page_size h')"
    using handle_onE [OF hd] by metis
  have e: "h' = h" "ck' = ck" using disk_header_unique [OF d h'(1)] by simp_all
  note h = h' [unfolded e]
  let ?n = "wf_frame_count w" and ?F = "frames_in bs w" and ?run = "wf_running_checksum w"
  let ?v = "valid_prefix (wf_page_size w) (wf_big_endian_checksum w) (wh_salts h) ?run (drop ?n ?F)"
  let ?D = "take ?v (drop ?n ?F)"
  let ?c = "replay_end ?n ?n ?D"
  have F: "?F = take ?n ?F @ drop ?n ?F" by simp
  have "valid_prefix (wf_page_size w) (wf_big_endian_checksum w) (wh_salts h) ck ?F = ?n + ?v"
    using valid_prefix_split [OF h(6), of "drop ?n ?F"] h(5,7) by simp
  then have tv: "take (valid_prefix (wf_page_size w) (wf_big_endian_checksum w) (wh_salts h) ck ?F) ?F = take ?n ?F @ ?D"
    by (simp add: take_add)
  have c: "replay_end 0 0 (take ?n ?F @ ?D) = ?c" using cm h(5) by (simp add: replay_end_append)
  have b: "?n \<le> ?c" "?c \<le> length ?F"
    using replay_end_spec [of ?n ?n ?D] h(5) by auto
  have "chain_end ck (take ?c ?F) = (if ?c \<le> ?n then ?run else frame_checksum (?F ! (?c - 1)))"
  proof (cases "?c = ?n")
    case True then show ?thesis using h(7) by simp
  next
    case False
    then show ?thesis using b by (auto simp: chain_end_def last_conv_nth)
  qed
  then have s: "scan_result (wf_page_size w) (wf_big_endian_checksum w) (wh_salts (wf_header w)) ?F ?n ?run ?n ?run = (?c, chain_end ck (take ?c ?F))"
    using h(2) by (simp add: scan_result_def Let_def same_generation_simps)
  show ?thesis unfolding s using tv c h(3,4,8) by (simp add: opened_def Let_def)
qed

context readable_file
begin

lemma rebuild_eq:
  assumes d: "disk_header (view (wf_file w)) h ck" and small: "length (view (wf_file w)) \<le> usize_max"
  shows "rebuild_state_from_file ops w =
    (Inr (), (opened (wf_file w) (view (wf_file w)) h ck)\<lparr>wf_last_fsynced_frame_count := wf_last_fsynced_frame_count w\<rparr>)"
proof -
  let ?ps = "unat (wh_page_size h)"
  let ?F = "frames_of (24 + ?ps) (drop 32 (view (wf_file w)))"
  have ps: "ensure_valid_wal_page_size ?ps = Inr ()" using disk_header_page_size(1) [OF d] valid_header_page_size(2) by blast
  have mx: "max_frames_of (length (view (wf_file w))) (24 + ?ps) = length ?F" by (simp add: max_frames_of_def WAL_HEADER_SIZE_def)
  show ?thesis
    using read_checked_header_disk [OF d] size_eq scan_frames_total [OF ps refl small, of 0 0 "big_endian_checksum h" "wh_salts h" ck ck]
    by (simp add: rebuild_state_from_file_def Let_def frame_size_def WAL_FRAME_HEADER_SIZE_def mx scan_result_0 opened_def)
qed

lemma refresh_eq:
  assumes d: "disk_header (view (wf_file w)) h ck" and small: "length (view (wf_file w)) \<le> usize_max"
    and g: "same_generation h (wf_header w) \<Longrightarrow> frame_offset w (wf_frame_count w) \<le> length (view (wf_file w)) \<Longrightarrow>
      committed_handle (view (wf_file w)) w"
  shows "\<exists>w'. refresh ops w = (Inr (), w') \<and> same_generation h (wf_header w') \<and>
    w' = (opened (wf_file w) (view (wf_file w)) h ck)\<lparr>wf_header := wf_header w', wf_last_fsynced_frame_count := wf_last_fsynced_frame_count w\<rparr>"
proof -
  let ?bs = "view (wf_file w)" and ?n = "wf_frame_count w"
  have gen: "same_generation h (wf_header (opened (wf_file w) ?bs h ck))" by (simp add: opened_def Let_def same_generation_simps)
  show ?thesis
  proof (cases "length ?bs < frame_offset w ?n \<or> \<not> same_generation h (wf_header w)")
    case True
    then have "refresh ops w = rebuild_state_from_file ops w"
      using size_eq read_checked_header_disk [OF d] by (auto simp: refresh_def Let_def)
    then show ?thesis using rebuild_eq [OF d small] gen by simp
  next
    case False
    then have cm: "committed_handle ?bs w" using g by auto
    then have hd: "handle_on ?bs w" by (simp add: committed_handle_def)
    note pz = handle_on_page_size [OF hd]
    have n: "?n \<le> length (frames_in ?bs w)" "?n \<le> u32_max" using handle_onE [OF hd] by metis+
    have off: "frame_offset w ?n = 32 + ?n * frame_size w" using frame_offset_eq [OF hd n(2)] .
    have mx: "max_frames_of (length ?bs) (frame_size w) = length (frames_in ?bs w)" by (simp add: max_frames_of_def WAL_HEADER_SIZE_def)
    obtain c cck where s: "scan_result (wf_page_size w) (wf_big_endian_checksum w) (wh_salts (wf_header w)) (frames_in ?bs w)
           ?n (wf_running_checksum w) ?n (wf_running_checksum w) = (c, cck)" by fastforce
    note o = opened_from_handle [OF cm d, unfolded s]
    let ?w = "w\<lparr>wf_frame_count := c, wf_running_checksum := cck, wf_last_commit_frame := checked_sub_1 c\<rparr>"
    have "refresh ops w = (Inr (), ?w)"
    proof (cases "length (frames_in ?bs w) \<le> ?n")
      case True
      then have "drop ?n (frames_in ?bs w) = []" by simp
      then have "c = ?n" "cck = wf_running_checksum w" using s by (auto simp: scan_result_def Let_def)
      moreover have "wf_last_commit_frame w = checked_sub_1 ?n" using handle_onE [OF hd] cm unfolding committed_handle_def by metis
      ultimately have "?w = w" by simp
      then show ?thesis using False True size_eq read_checked_header_disk [OF d] mx by (auto simp: refresh_def Let_def)
    next
      case gt: False
      have "?n * frame_size w < length (frames_in ?bs w) * frame_size w" using gt pz(3) by simp
      also have "\<dots> \<le> length ?bs - 32" by simp
      finally have "length ?bs \<noteq> frame_offset w ?n" using off by simp
      moreover have "scan_frames ops (wf_file w) (wf_page_size w) (wf_big_endian_checksum w) (wh_salts (wf_header w)) (length (frames_in ?bs w))
          ?n ?n (wf_running_checksum w) ?n (wf_running_checksum w) = Inr (c, cck)"
        using scan_frames_total [OF pz(1) _ small n(1)] pz(2) s by simp
      ultimately show ?thesis using False gt size_eq read_checked_header_disk [OF d] mx by (simp add: refresh_def Let_def)
    qed
    then show ?thesis using o False by simp
  qed
qed

end

lemma append_frames_state:
  "append_frames ops b w = (Inr u, w') \<Longrightarrow> wf_page_size w' = wf_page_size w \<and> wf_header w' = wf_header w"
  by (auto simp: append_frames_def append_frame_iter_def append_finalized_prepared_frame_bytes_def advance_state_after_write_def Let_def
      split: if_splits option.splits sum.splits prod.splits)

lemma append_batches_state:
  "append_batches ops bs w = (Inr (), w') \<Longrightarrow> wf_page_size w' = wf_page_size w \<and> wf_header w' = wf_header w"
proof (induction bs arbitrary: w)
  case (Cons b bs)
  then obtain w1 where "append_frames ops b w = (Inr (), w1)" "append_batches ops bs w1 = (Inr (), w')"
    by (auto split: prod.splits sum.splits)
  then show ?case using Cons.IH append_frames_state [of ops b w] by metis
qed simp

lemma handle_on_generation:
  "same_generation (wf_header w) h \<Longrightarrow>
   handle_on bs (w\<lparr>wf_header := h, wf_last_fsynced_frame_count := n\<rparr>) = handle_on bs w \<and>
   log_of bs (w\<lparr>wf_header := h, wf_last_fsynced_frame_count := n\<rparr>) = log_of bs w"
  by (simp add: handle_on_def log_of_def frame_size_def same_generation_simps)

context vfs_file
begin

lemma append_batches_prefix:
  "handle_on (view (wf_file w)) w \<Longrightarrow> append_batches ops batches w = (Inr (), w') \<Longrightarrow>
   m \<le> 32 + wf_frame_count w * frame_size w \<Longrightarrow> take m (view (wf_file w')) = take m (view (wf_file w))"
proof (induction batches arbitrary: w)
  case (Cons b batches)
  obtain w1 where w1: "append_frames ops b w = (Inr (), w1)" "append_batches ops batches w1 = (Inr (), w')"
    using Cons.prems(2) by (auto split: prod.splits sum.splits)
  define off where "off = 32 + wf_frame_count w * frame_size w"
  have n: "wf_frame_count w \<le> length (frames_in (view (wf_file w)) w)" using handle_onE [OF Cons.prems(1)] by metis
  have "wf_frame_count w * frame_size w \<le> length (frames_in (view (wf_file w)) w) * frame_size w" using n by (rule mult_le_mono1)
  also have "\<dots> \<le> length (view (wf_file w)) - 32" by simp
  finally have off: "off \<le> length (view (wf_file w))" using handle_on_page_size(5) [OF Cons.prems(1)] by (simp add: off_def)
  have f: "w1 = w \<or> off \<le> 32 + wf_frame_count w1 * frame_size w1 \<and> (\<exists>data. view (wf_file w1) = write_at off data (view (wf_file w)))"
    using append_frames_file [OF Cons.prems(1) w1(1)] by (auto simp: add_mult_distrib off_def)
  then have "take off (view (wf_file w1)) = take off (view (wf_file w))" using take_write_at [OF off] by auto
  then have "take m (view (wf_file w1)) = take m (view (wf_file w))" using Cons.prems(3) unfolding off_def [symmetric] by (metis min.absorb1 take_take)
  moreover have "m \<le> 32 + wf_frame_count w1 * frame_size w1" using f Cons.prems(3) unfolding off_def [symmetric] by (metis off_def le_trans)
  ultimately show ?case using Cons.IH [OF _ w1(2)] append_frames_spec [OF Cons.prems(1) w1(1)] by simp
qed simp

end

lemma prepare_loop_total:
  assumes "ensure_valid_wal_page_size (wf_page_size w) = Inr u" "count * frame_size w \<le> usize_max"
  shows "\<forall>fr \<in> set frames. length (af_page_data fr) = wf_page_size w \<Longrightarrow> idx + length frames \<le> count \<Longrightarrow>
    length buf = count * frame_size w \<Longrightarrow>
    \<exists>buf' ts' lc'. prepare_loop w count idx frames buf ts lc = Inr (buf', ts', lc', idx + length frames)"
proof (induction frames arbitrary: idx buf ts lc)
  case (Cons fr frames)
  have "Suc idx * frame_size w \<le> count * frame_size w" using Cons.prems(2) by (intro mult_le_mono1) simp
  then have b: "idx * frame_size w + frame_size w \<le> length buf" "idx * frame_size w \<le> usize_max" using assms(2) Cons.prems(3) by simp_all
  obtain hdr where p: "prepared_frame w fr (subslice (idx * frame_size w) (idx * frame_size w + frame_size w) buf) = Inr (hdr @ af_page_data fr)"
    "length hdr = 24"
    using b(1) by (auto simp: prepared_frame_def write_wal_frame_salts_def ensure_min_len_def WAL_FRAME_HEADER_SIZE_def frame_size_def Let_def)
  have "length (hdr @ af_page_data fr) = 24 + wf_page_size w" using p(2) Cons.prems(1) by simp
  then obtain t where t: "for_wal_frame (hdr @ af_page_data fr) (wf_page_size w) (wf_big_endian_checksum w) = Inr t"
    using frame_transform_total [OF assms(1)] by blast
  show ?case
    using Cons.IH [of "Suc idx" "put (idx * frame_size w) (hdr @ af_page_data fr) buf"] Cons.prems p t b
    by (simp add: usize_checked_mul_def frame_size_def WAL_FRAME_HEADER_SIZE_def)
qed simp

lemma prepare_total:
  assumes "ensure_valid_wal_page_size (wf_page_size w) = Inr u" "length frames * frame_size w \<le> usize_max"
    and "\<forall>fr \<in> set frames. length (af_page_data fr) = wf_page_size w"
  shows "\<exists>buf ts lc. prepare_frame_bytes_with_transforms_into w (length frames) frames = Inr (buf, ts, lc)"
  using prepare_loop_total [OF assms(1,2,3), of 0 "replicate (length frames * frame_size w) 0" "[]" None] assms(2)
  by (auto simp: prepare_frame_bytes_with_transforms_into_def usize_checked_mul_def)

section \<open>Properties\<close>

text \<open>C16: The log file implements an append-only list of pages.  A handle that agrees with the file
  stands for a list of page images.  Appending a batch either extends that list by exactly the
  batch, or fails and leaves the list and the handle's state alone,
  whether the cause is a page of the wrong size, too many frames or a torn write; the handle agrees
  with the file again in both cases.  Every frame can be read back by its index, and indexes
  outside the list are refused.\<close>

theorem wal_append_refines_list:
  assumes "readable_file view ops" "handle_on (view (wf_file w)) w" "append_frames ops frames w = (r, w')"
  shows "handle_on (view (wf_file w')) w' \<and>
    (case r of
       Inl e \<Rightarrow> log_of (view (wf_file w')) w' = log_of (view (wf_file w)) w \<and> (\<exists>f'. w' = w\<lparr>wf_file := f'\<rparr>)
     | Inr u \<Rightarrow> log_of (view (wf_file w')) w' = log_of (view (wf_file w)) w @ map ref_content frames) \<and>
    (\<forall>i. if i < wf_frame_count w'
      then (\<exists>h page. read_frame ops i w' = Inr (h, page) \<and> (fh_page_number h, fh_db_size h, page) = log_of (view (wf_file w')) w' ! i)
      else (\<exists>e. read_frame ops i w' = Inl e))"
proof -
  have v: "vfs_file view ops" using assms(1) by (simp add: readable_file_def)
  note s = vfs_file.append_frames_spec [OF v assms(2,3)]
  have "\<exists>e. read_frame ops i w' = Inl e" if "\<not> i < wf_frame_count w'" for i
    using that by (simp add: read_frame_def read_frame_into_def)
  moreover have "\<exists>h page. read_frame ops i w' = Inr (h, page) \<and> (fh_page_number h, fh_db_size h, page) = log_of (view (wf_file w')) w' ! i"
    if "i < wf_frame_count w'" for i
    using readable_file.read_frame_eq [OF assms(1) conjunct1 [OF s] that] by blast
  ultimately show ?thesis using s by (auto split: sum.splits)
qed

text \<open>C14: Committed transactions survive a crash, uncommitted ones vanish.  Create a log, append
  any batches of frames, and let a crash cut the file at any byte behind the header.  Opening the
  file succeeds, and the handle stands for the complete frames up to the last commit among
  them.\<close>

theorem wal_crash_recovery:
  assumes "readable_file view ops" "WalFile_create ops file page_size seq salts = (Inr w0, f0)"
    and "append_batches ops batches w0 = (Inr (), w)"
    and "view crashed = take m (view (wf_file w))" "32 \<le> m"
  shows "\<exists>w2. WalFile_open ops crashed = Inr w2 \<and> handle_on (view crashed) w2 \<and>
    log_of (view crashed) w2 = commit_prefix (take ((m - 32) div (24 + unat page_size)) (map ref_content (concat batches)))"
proof -
  have v: "vfs_file view ops" using assms(1) by (simp add: readable_file_def)
  note c = vfs_file.create_spec [OF v assms(2)]
  note a = vfs_file.append_batches_spec [OF v conjunct1 [OF c] assms(3)]
  have fs: "frame_size w = 24 + unat page_size"
    using append_batches_state [OF assms(3)] c by (simp add: frame_size_def WAL_FRAME_HEADER_SIZE_def)
  have "ends_at (view (wf_file w)) w" "log_of (view (wf_file w)) w = map ref_content (concat batches)"
    using a conjunct1 [OF conjunct2 [OF c]] conjunct1 [OF conjunct2 [OF conjunct2 [OF c]]] by (metis append_Nil)+
  then show ?thesis
    using readable_file.crash_open [OF assms(1) conjunct1 [OF a] ends_at_foreign [OF conjunct1 [OF a]] assms(4,5)] fs by simp
qed

text \<open>The ways of appending agree.  Appending one frame is appending a batch of one.  Serialising
  a batch ahead of time, on any handle with the page size and byte order of the log, possibly one
  with other salts or an older checksum, always succeeds for pages of the right size; appending the
  prepared bytes later has the outcome of appending the batch directly.\<close>

theorem wal_append_paths_agree:
  fixes w :: "'f WalFile"
  assumes "handle_on bs w"
  shows "(\<forall>fr. length (af_page_data fr) = wf_page_size w \<longrightarrow>
      append_frame ops (af_page_number fr) (af_page_data fr) (af_db_size_if_commit fr) w = append_frames ops [fr] w) \<and>
    (\<forall>(w1 :: 'f WalFile) frames. wf_page_size w1 = wf_page_size w \<and> wf_big_endian_checksum w1 = wf_big_endian_checksum w \<and>
        length frames \<le> u32_max \<and> (\<forall>fr \<in> set frames. length (af_page_data fr) = wf_page_size w) \<longrightarrow>
      (\<exists>buf ts lc buf'. prepare_frame_bytes_with_transforms_into w1 (length frames) frames = Inr (buf, ts, lc) \<and>
        append_prepared_frame_bytes ops buf ts w = (fst (append_frames ops frames w), buf', snd (append_frames ops frames w))))"
proof (intro conjI allI impI)
  fix fr :: WalAppendFrameRef
  assume "length (af_page_data fr) = wf_page_size w"
  then show "append_frame ops (af_page_number fr) (af_page_data fr) (af_db_size_if_commit fr) w = append_frames ops [fr] w"
    by (rule append_frame_eq [OF assms])
next
  fix w1 :: "'f WalFile" and frames :: "WalAppendFrameRef list"
  assume a: "wf_page_size w1 = wf_page_size w \<and> wf_big_endian_checksum w1 = wf_big_endian_checksum w \<and>
        length frames \<le> u32_max \<and> (\<forall>fr \<in> set frames. length (af_page_data fr) = wf_page_size w)"
  note pz = handle_on_page_size [OF assms]
  have fs: "frame_size w1 = frame_size w" using a by (simp add: frame_size_def)
  have "\<exists>buf ts lc. prepare_frame_bytes_with_transforms_into w1 (length frames) frames = Inr (buf, ts, lc)"
    using prepare_total [of w1 "()" frames] a pz(1) offset_bound(2) [OF _ pz(4), of "length frames"] fs by simp
  then show "\<exists>buf ts lc buf'. prepare_frame_bytes_with_transforms_into w1 (length frames) frames = Inr (buf, ts, lc) \<and>
        append_prepared_frame_bytes ops buf ts w = (fst (append_frames ops frames w), buf', snd (append_frames ops frames w))"
    using append_prepared_eq [OF _ assms] a by metis
qed

text \<open>Behind the frames of the handle no frame that continues its log commits anything: neither those of earlier
  generations of the log nor the uncommitted ones a crash has left, or those whose checksums no longer chain.\<close>

definition no_commit_behind :: "bytes \<Rightarrow> 'f WalFile \<Rightarrow> bool" where
  "no_commit_behind bs w \<longleftrightarrow>
     (let rest = drop (wf_frame_count w) (frames_in bs w);
          v = valid_prefix (wf_page_size w) (wf_big_endian_checksum w) (wh_salts (wf_header w)) (wf_running_checksum w) rest in
      \<forall>f \<in> set (take v rest). \<not> frame_commits f)"

lemma foreign_no_commit: "foreign_tail bs w \<Longrightarrow> no_commit_behind bs w"
  using valid_prefix_foreign [of "wf_page_size w" "wf_big_endian_checksum w" "wh_salts (wf_header w)" "wf_running_checksum w" "[]"
      "drop (wf_frame_count w) (frames_in bs w)"]
  by (simp add: no_commit_behind_def foreign_tail_def Let_def)

lemma replay_end_uncommitted: "\<forall>f \<in> set fs. \<not> frame_commits f \<Longrightarrow> replay_end r i fs = r"
  by (induction fs arbitrary: i) simp_all

text \<open>What the file holds for a new handle, seen from one behind which nothing is committed.\<close>

lemma opened_at:
  assumes ok: "handle_on bs w" and nc: "no_commit_behind bs w" and d: "disk_header bs h ck"
  shows "handle_on bs (opened file bs h ck)" "log_of bs (opened file bs h ck) = commit_prefix (log_of bs w)"
    "wf_frame_count (opened file bs h ck) = replay_end 0 0 (frames_of_handle bs w)"
proof -
  obtain h' ck' where h': "disk_header bs h' ck'" "same_generation h' (wf_header w)" "wf_page_size w = unat (wh_page_size h')"
    "wf_big_endian_checksum w = big_endian_checksum h'" "wf_frame_count w \<le> length (frames_in bs w)" "wf_frame_count w \<le> u32_max"
    "chain_ok (wf_page_size w) (wf_big_endian_checksum w) (wh_salts h') ck' (frames_of_handle bs w)"
    "wf_running_checksum w = chain_end ck' (frames_of_handle bs w)" "frame_size w = 24 + unat (wh_page_size h')"
    using handle_onE [OF ok] by metis
  have e: "h' = h" "ck' = ck" using disk_header_unique [OF d h'(1)] by simp_all
  note h = h' [unfolded e]
  let ?F = "frames_in bs w" and ?n = "wf_frame_count w"
  define v where "v = valid_prefix (wf_page_size w) (wf_big_endian_checksum w) (wh_salts h) (wf_running_checksum w) (drop ?n ?F)"
  have sl: "wh_salts (wf_header w) = wh_salts h" using h(2) by (simp add: same_generation_simps)
  have D: "\<forall>f \<in> set (take v (drop ?n ?F)). \<not> frame_commits f"
    using nc by (simp add: no_commit_behind_def Let_def v_def sl)
  have vp: "valid_prefix (unat (wh_page_size h)) (big_endian_checksum h) (wh_salts h) ck ?F = ?n + v"
    using valid_prefix_split [OF h(7), of "drop ?n ?F"] h(3-5,8) by (simp add: v_def)
  then have tv: "take (valid_prefix (unat (wh_page_size h)) (big_endian_checksum h) (wh_salts h) ck ?F) ?F =
      frames_of_handle bs w @ take v (drop ?n ?F)" by (simp add: take_add)
  have F: "frames_of (24 + unat (wh_page_size h)) (drop 32 bs) = ?F" using h(9) by simp
  have re: "replay_end 0 0 (frames_of_handle bs w @ take v (drop ?n ?F)) = replay_end 0 0 (frames_of_handle bs w)"
    using D by (simp add: replay_end_append replay_end_uncommitted)
  show c: "wf_frame_count (opened file bs h ck) = replay_end 0 0 (frames_of_handle bs w)"
    by (simp add: opened_def Let_def F tv re)
  also have "\<dots> \<le> length (frames_of_handle bs w)" by (rule replay_end_le)
  also have "\<dots> \<le> u32_max" using h(6) by simp
  finally show "handle_on bs (opened file bs h ck)" by (rule opened_handle [OF d])
  have "log_of bs (opened file bs h ck) = commit_prefix (map frame_content (frames_of_handle bs w @ take v (drop ?n ?F)))"
    by (simp add: opened_log Let_def F tv)
  also have "\<dots> = map frame_content (take (replay_end 0 0 (frames_of_handle bs w)) (frames_of_handle bs w @ take v (drop ?n ?F)))"
    by (simp only: commit_prefix_frames [symmetric] re)
  also have "\<dots> = map frame_content (take (replay_end 0 0 (frames_of_handle bs w)) (frames_of_handle bs w))"
    using replay_end_le [of "frames_of_handle bs w"] by simp
  finally show "log_of bs (opened file bs h ck) = commit_prefix (log_of bs w)"
    by (simp only: commit_prefix_frames) (simp add: log_of_def)
qed

text \<open>C18: Refreshing a handle gives it what is committed.  Let a writer append batches to a log, whose file stays addressable.  A
  second handle on the file, opened when no more frames were there than the writer had and standing at a commit, or left
  over from an earlier generation of the log, is refreshed: it then stands for exactly the frames
  up to the writer's last commit, whether it resumes behind its last frame or rebuilds from the
  start of the file.  The bytes behind the writer's last frame do not matter as long as no frame there both continues the
  writer's chain of salts and checksums and commits; frames of earlier generations do not continue it, and uncommitted frames
  that a crash left behind may.\<close>

theorem wal_refresh_sees_commits:
  assumes "readable_file view ops" "handle_on (view (wf_file w)) w" "append_batches ops batches w = (Inr (), w')"
    and "length (view (wf_file w')) \<le> usize_max" "no_commit_behind (view (wf_file w')) w'"
    and "same_generation (wf_header w) (wf_header r) \<Longrightarrow>
      committed_handle (view (wf_file w)) r \<and> wf_frame_count r \<le> wf_frame_count w"
  shows "\<exists>r'. refresh ops (r\<lparr>wf_file := wf_file w'\<rparr>) = (Inr (), r') \<and> handle_on (view (wf_file w')) r' \<and>
    log_of (view (wf_file w')) r' = commit_prefix (log_of (view (wf_file w)) w @ map ref_content (concat batches))"
proof -
  have v: "vfs_file view ops" using assms(1) by (simp add: readable_file_def)
  let ?f = "wf_file w'" and ?r = "r\<lparr>wf_file := wf_file w'\<rparr>"
  note a = vfs_file.append_batches_spec [OF v assms(2,3)]
  obtain h ck where h: "disk_header (view ?f) h ck" "same_generation h (wf_header w')" using handle_onE [OF conjunct1 [OF a]] by metis
  have hdr: "wf_header w' = wf_header w" using append_batches_state [OF assms(3)] by simp
  note o = opened_at [OF conjunct1 [OF a] assms(5) h(1), of ?f]
  have lo: "log_of (view ?f) (opened ?f (view ?f) h ck) = commit_prefix (log_of (view (wf_file w)) w @ map ref_content (concat batches))"
    using o(2) a by simp
  have g: "committed_handle (view (wf_file ?r)) ?r" if "same_generation h (wf_header ?r)"
  proof -
    have "same_generation (wf_header w) (wf_header r)" using that h(2) hdr by (simp add: same_generation_simps)
    then have c: "committed_handle (view (wf_file w)) r" "wf_frame_count r \<le> wf_frame_count w" using assms(6) by auto
    have fs: "frame_size r = frame_size w"
      using \<open>same_generation (wf_header w) (wf_header r)\<close> c(1) assms(2)
      by (auto simp: committed_handle_def handle_on_def same_generation_simps frame_size_def)
    have "take (32 + wf_frame_count r * frame_size r) (view ?f) = take (32 + wf_frame_count r * frame_size r) (view (wf_file w))"
      using vfs_file.append_batches_prefix [OF v assms(2,3), of "32 + wf_frame_count r * frame_size r"] c(2) fs by simp
    then show ?thesis using c(1) handle_on_prefix [of "view (wf_file w)" r "view ?f"] by (simp add: committed_handle_def)
  qed
  obtain r' where r': "refresh ops ?r = (Inr (), r')" "same_generation h (wf_header r')"
    "r' = (opened ?f (view ?f) h ck)\<lparr>wf_header := wf_header r', wf_last_fsynced_frame_count := wf_last_fsynced_frame_count r\<rparr>"
    using readable_file.refresh_eq [OF assms(1), of ?r h ck] h(1) assms(4) g by auto
  have "handle_on (view ?f) r' \<and> log_of (view ?f) r' = log_of (view ?f) (opened ?f (view ?f) h ck)"
    using handle_on_generation [of "opened ?f (view ?f) h ck" "wf_header r'" "view ?f" "wf_last_fsynced_frame_count r"] o(1) r'(2,3)
    by (simp add: opened_def Let_def)
  then show ?thesis using r'(1) lo by auto
qed

lemma opened_committed:
  assumes "disk_header bs h ck"
  shows "replay_end 0 0 (frames_of_handle bs (opened file bs h ck)) = wf_frame_count (opened file bs h ck)"
proof -
  let ?F = "frames_of (24 + unat (wh_page_size h)) (drop 32 bs)"
  let ?v = "valid_prefix (unat (wh_page_size h)) (big_endian_checksum h) (wh_salts h) ck ?F"
  let ?G = "take ?v ?F"
  have "replay_end 0 0 ?G \<le> ?v" using replay_end_le [of ?G] by simp
  then have "take (replay_end 0 0 ?G) ?F = take (replay_end 0 0 ?G) ?G" by (simp add: min_def)
  then show ?thesis using replay_end_idem [of ?G] by (simp add: opened_def Let_def frame_size_def WAL_FRAME_HEADER_SIZE_def)
qed

text \<open>A handle that has just been opened has nothing committed behind it, so the property holds for a log that is reopened with
  uncommitted frames of its own generation at the end.\<close>

lemma opened_no_commit_behind:
  assumes "disk_header bs h ck"
  shows "no_commit_behind bs (opened file bs h ck)"
proof -
  let ?F = "frames_of (24 + unat (wh_page_size h)) (drop 32 bs)"
  define V where "V = valid_prefix (unat (wh_page_size h)) (big_endian_checksum h) (wh_salts h) ck ?F"
  define c where "c = replay_end 0 0 (take V ?F)"
  have c: "c \<le> V" using replay_end_le [of "take V ?F"] by (simp add: c_def)
  have VF: "V \<le> length ?F" unfolding V_def by (rule valid_prefix_le)
  have "chain_ok (unat (wh_page_size h)) (big_endian_checksum h) (wh_salts h) ck (take V ?F)"
    unfolding V_def by (rule chain_ok_valid_prefix)
  from chain_ok_take [OF this, of c] have ok: "chain_ok (unat (wh_page_size h)) (big_endian_checksum h) (wh_salts h) ck (take c ?F)"
    using c by (simp add: min_def)
  define v where "v = valid_prefix (unat (wh_page_size h)) (big_endian_checksum h) (wh_salts h) (chain_end ck (take c ?F)) (drop c ?F)"
  have "V = c + v" using valid_prefix_split [OF ok, of "drop c ?F"] c VF by (simp add: V_def v_def)
  then have t: "take V ?F = take c ?F @ take v (drop c ?F)" by (simp add: take_add)
  have "\<not> frame_commits f" if "f \<in> set (take v (drop c ?F))" for f
  proof -
    have "f \<in> set (drop c (take V ?F))" using that c VF by (simp add: t)
    then obtain j where j: "j < length (drop c (take V ?F))" "f = drop c (take V ?F) ! j" unfolding in_set_conv_nth by metis
    moreover have "c \<le> length (take V ?F)" using c VF by simp
    ultimately have "c + j < length (take V ?F)" "f = take V ?F ! (c + j)" by (simp_all only: length_drop nth_drop less_diff_conv add.commute)
    moreover have "\<forall>k < length (take V ?F). c \<le> k \<longrightarrow> \<not> frame_commits (take V ?F ! k)"
      using replay_end_spec [of 0 0 "take V ?F"] by (simp add: c_def)
    ultimately show ?thesis using le_add1 [of c j] by blast
  qed
  then show ?thesis
    by (simp add: no_commit_behind_def opened_def Let_def frame_size_def WAL_FRAME_HEADER_SIZE_def V_def [symmetric] c_def [symmetric] v_def)
qed

text \<open>C17: A reset starts a new generation, and no frame of an old one comes back.  After a reset that
  truncates the file, or one that leaves the old frames in place and picks salts none of them
  carries, append any batches and let a crash cut the file at any byte behind the header.  Opening
  the file finds complete frames of the new batches up to the last commit and nothing else.\<close>

theorem wal_reset_generation:
  assumes "readable_file view ops" "handle_on (view (wf_file w)) w" "length (view (wf_file w)) \<le> usize_max"
    and "wal_reset ops seq salts trunc w = (Inr (), w1)"
    and "trunc \<or> (\<forall>f \<in> set (frames_in (view (wf_file w)) w). frame_salts f \<noteq> salts)"
    and "append_batches ops batches w1 = (Inr (), w2)" "view crashed = take m (view (wf_file w2))" "32 \<le> m"
  shows "\<exists>w3. WalFile_open ops crashed = Inr w3 \<and> handle_on (view crashed) w3 \<and>
    log_of (view crashed) w3 = commit_prefix (take ((m - 32) div frame_size w) (map ref_content (concat batches)))"
proof -
  have v: "vfs_file view ops" using assms(1) by (simp add: readable_file_def)
  note r = vfs_file.reset_spec [OF v assms(2,4)]
  have ok: "handle_on (view (wf_file w1)) w1" using r by simp
  have n0: "wf_frame_count w1 = 0"
    using handle_onE [OF ok] r by (metis length_0_conv length_map length_take log_of_def min.absorb2)
  have "length (view (wf_file w1)) \<le> usize_max"
  proof -
    have "length (view (wf_file w1)) = 32 + length (drop 32 (view (wf_file w1)))"
      using handle_on_page_size(5) [OF ok] by simp
    also have "\<dots> \<le> 32 + length (drop 32 (view (wf_file w)))" using r by simp
    also have "\<dots> = length (view (wf_file w))" using handle_on_page_size(5) [OF assms(2)] by simp
    finally show ?thesis using assms(3) by simp
  qed
  moreover have "set (frames_in (view (wf_file w1)) w1) \<subseteq> (if trunc then {} else set (frames_in (view (wf_file w)) w))"
    using r by (auto simp: frames_of_def)
  ultimately have t: "foreign_tail (view (wf_file w1)) w1" using r assms(5) n0 by (auto simp: foreign_tail_def split: if_splits)
  note a = vfs_file.append_batches_spec [OF v ok assms(6)]
  note e = vfs_file.append_batches_foreign [OF v ok t assms(6)]
  have "frame_size w2 = frame_size w" using append_batches_state [OF assms(6)] r by (simp add: frame_size_def)
  then show ?thesis
    using readable_file.crash_open [OF assms(1) conjunct1 [OF a] e assms(7,8)] a r by simp
qed

section \<open>Instances\<close>

text \<open>The properties at logs in memory, with pages of 512 bytes.\<close>

abbreviation mem_ops :: "MemoryFile file_ops" where "mem_ops \<equiv> mem_file_ops demo_alloc False"

definition unlimited :: "MemoryFile \<Rightarrow> bool" where "unlimited f \<longleftrightarrow> mc_max_bytes (mf_config f) = None"

definition roomy_file :: MemoryFile where
  "roomy_file = (demo_file [])\<lparr>mf_config := \<lparr>mc_initial_reserve_bytes = 0, mc_growth_chunk_bytes = 64, mc_max_bytes = None\<rparr>\<rparr>"

definition demo_frame :: "u32 \<Rightarrow> u32 \<Rightarrow> WalAppendFrameRef" where
  "demo_frame page db_size = \<lparr>af_page_number = page, af_page_data = replicate 512 7, af_db_size_if_commit = db_size\<rparr>"

definition demo_salts :: WalSalts where "demo_salts = \<lparr>salt1 = 11, salt2 = 12\<rparr>"

lemma unlimited_write:
  assumes "unlimited f" "off + length bs \<le> usize_max"
  shows "\<exists>f'. mem_write demo_alloc False bs off f = (Inr (), f') \<and> unlimited f'"
  using assms
  by (auto simp: mem_write_def write_into_storage_def range_ok reserve_capacity_def ensure_total_reserved_within_limit_def unlimited_def
      demo_alloc_def store_data_def Let_def)

lemma unlimited_create:
  assumes "unlimited f" "PageSize_new p \<noteq> None"
  shows "\<exists>w f'. WalFile_create mem_ops f p seq salts = (Inr w, f') \<and> unlimited f'"
proof -
  define hdr where "hdr = \<lparr>wh_magic = WAL_MAGIC_LE, wh_format_version = WAL_FORMAT_VERSION, wh_page_size = p,
            wh_checkpoint_seq = seq, wh_salts = salts, wh_checksum = default_checksum\<rparr>"
  obtain hb ck where hb: "WalHeader_to_bytes hdr = Inr hb" "length hb = 32" "read_wal_header_checksum hb = Inr ck"
    by (rule written_header [of hdr]) (use assms(2) in \<open>simp_all add: hdr_def\<close>)
  obtain f1 where f1: "mem_write demo_alloc False hb 0 f = (Inr (), f1)" "unlimited f1"
    using unlimited_write [OF assms(1), of 0 hb] hb(2) by (auto simp: usize_max_def)
  obtain f2 where f2: "mem_truncate demo_alloc 32 f1 = (Inr (), f2)" "unlimited f2"
    using f1(2) by (auto simp: mem_truncate_def Let_def unlimited_def)
  show ?thesis unfolding WalFile_create_def Let_def hdr_def [symmetric] using hb f1 f2 by (simp add: WAL_HEADER_SIZE_def)
qed

lemma unlimited_append:
  assumes ok: "handle_on bs w" and f: "unlimited (wf_file w)" and n: "wf_frame_count w + length frames \<le> u32_max"
    and l: "\<forall>fr \<in> set frames. length (af_page_data fr) = wf_page_size w"
  shows "\<exists>w'. append_frames mem_ops frames w = (Inr (), w') \<and> unlimited (wf_file w') \<and> wf_frame_count w' = wf_frame_count w + length frames"
proof (cases "frames = []")
  case True then show ?thesis using f by (simp add: append_frames_def append_frame_iter_def)
next
  case False
  note pz = handle_on_page_size [OF ok]
  let ?G = "new_frames (wf_page_size w) (wf_big_endian_checksum w) (wh_salts (wf_header w)) (wf_running_checksum w) frames"
  note G = new_frames_spec [OF pz(1) l, of "wf_big_endian_checksum w" "wh_salts (wf_header w)" "wf_running_checksum w"]
  have m: "length frames * frame_size w \<le> usize_max" using offset_bound(2) [OF _ pz(4), of "length frames"] n by simp
  have len: "length (concat ?G) = length frames * frame_size w" using length_concat_const [of ?G "frame_size w"] G pz(2) by simp
  have "32 + wf_frame_count w * frame_size w + length (concat ?G) \<le> usize_max"
    using offset_bound(1) [OF n pz(4)] len by (simp add: add_mult_distrib)
  then obtain f' where f': "mem_write demo_alloc False (concat ?G) (32 + wf_frame_count w * frame_size w) (wf_file w) = (Inr (), f')" "unlimited f'"
    using unlimited_write [OF f] by blast
  show ?thesis
    using append_frames_loop_spec [OF pz(1) m, of "[]" 0 frames "wf_running_checksum w" None] l False m n f'
      append_finalized_cases [OF ok _ len]
    by (simp add: append_frames_def append_frame_iter_def usize_checked_mul_def Let_def advanced_def split: option.split)
qed

text \<open>A new log with two appended batches, the second not committed.\<close>

definition demo_state :: "MemoryFile WalFile \<Rightarrow> MemoryFile \<Rightarrow> MemoryFile WalFile \<Rightarrow> bool" where
  "demo_state w0 f0 w \<longleftrightarrow> WalFile_create mem_ops roomy_file 512 1 demo_salts = (Inr w0, f0) \<and>
     append_batches mem_ops [[demo_frame 1 0, demo_frame 2 2], [demo_frame 3 0]] w0 = (Inr (), w) \<and>
     handle_on (mf_data (wf_file w)) w \<and> ends_at (mf_data (wf_file w)) w \<and> unlimited (wf_file w) \<and>
     wf_frame_count w = 3 \<and> frame_size w = 536 \<and> wf_page_size w = 512 \<and>
     log_of (mf_data (wf_file w)) w = map ref_content [demo_frame 1 0, demo_frame 2 2, demo_frame 3 0]"

lemma demo_log: "\<exists>w0 f0 w. demo_state w0 f0 w"
proof -
  have "unlimited roomy_file" "PageSize_new 512 \<noteq> None"
    by (simp_all add: unlimited_def roomy_file_def PageSize_new_Some valid_page_size_def)
  then obtain w0 f0 where c: "WalFile_create mem_ops roomy_file 512 1 demo_salts = (Inr w0, f0)" "unlimited f0"
    using unlimited_create by blast
  note cs = memory_file.create_spec [OF c(1)]
  have l: "length (af_page_data (demo_frame a b)) = 512" for a b by (simp add: demo_frame_def)
  have w0: "handle_on (mf_data (wf_file w0)) w0" "wf_page_size w0 = 512" "unlimited (wf_file w0)" "ends_at (mf_data (wf_file w0)) w0"
    "log_of (mf_data (wf_file w0)) w0 = []" using cs c(2) by (blast, simp, simp, blast, blast)
  have n0: "wf_frame_count w0 = 0"
    using c(1) by (auto simp: WalFile_create_def Let_def split: sum.splits prod.splits)
  obtain w1 where w1: "append_frames mem_ops [demo_frame 1 0, demo_frame 2 2] w0 = (Inr (), w1)" "unlimited (wf_file w1)" "wf_frame_count w1 = 2"
    using unlimited_append [OF w0(1,3), of "[demo_frame 1 0, demo_frame 2 2]"] l w0(2) n0 by (auto simp: u32_max_def)
  have p1: "wf_page_size w1 = 512" using append_frames_state [OF w1(1)] w0(2) by simp
  note s1 = memory_file.append_frames_spec [OF w0(1) w1(1)]
  obtain w where w: "append_frames mem_ops [demo_frame 3 0] w1 = (Inr (), w)" "unlimited (wf_file w)" "wf_frame_count w = 3"
    using unlimited_append [OF conjunct1 [OF s1] w1(2), of "[demo_frame 3 0]"] l p1 w1(3) by (auto simp: u32_max_def)
  have ab: "append_batches mem_ops [[demo_frame 1 0, demo_frame 2 2], [demo_frame 3 0]] w0 = (Inr (), w)" using w1(1) w(1) by simp
  note s = memory_file.append_batches_spec [OF w0(1) ab]
  have "wf_page_size w = 512" "frame_size w = 536"
    using append_batches_state [OF ab] w0(2) by (simp_all add: frame_size_def WAL_FRAME_HEADER_SIZE_def)
  moreover have "handle_on (mf_data (wf_file w)) w" "ends_at (mf_data (wf_file w)) w"
    "log_of (mf_data (wf_file w)) w = map ref_content [demo_frame 1 0, demo_frame 2 2, demo_frame 3 0]" using s w0(4,5) by simp_all
  ultimately have "demo_state w0 f0 w" using c(1) w ab by (simp add: demo_state_def)
  then show ?thesis by blast
qed

lemma demo_contents [simp]:
  "commit_prefix [ref_content (demo_frame 1 0), ref_content (demo_frame 2 2), ref_content (demo_frame 3 0)] =
     [ref_content (demo_frame 1 0), ref_content (demo_frame 2 2)]"
  by (simp add: commit_prefix_def ref_content_def demo_frame_def)

lemma demo_stateD:
  assumes "demo_state w0 f0 w"
  shows "handle_on (mf_data (wf_file w)) w" "unlimited (wf_file w)" "wf_frame_count w = 3" "wf_page_size w = 512" "frame_size w = 536"
    "ends_at (mf_data (wf_file w)) w" "log_of (mf_data (wf_file w)) w = map ref_content [demo_frame 1 0, demo_frame 2 2, demo_frame 3 0]"
    "WalFile_create mem_ops roomy_file 512 1 demo_salts = (Inr w0, f0)"
    "append_batches mem_ops [[demo_frame 1 0, demo_frame 2 2], [demo_frame 3 0]] w0 = (Inr (), w)"
  using assms by (simp_all add: demo_state_def)

lemma demo_append:
  assumes "demo_state w0 f0 w"
  shows "\<exists>w'. append_frames mem_ops [demo_frame 4 4] w = (Inr (), w') \<and> wf_frame_count w' = 4"
  using unlimited_append [OF demo_stateD(1,2) [OF assms], of "[demo_frame 4 4]"] demo_stateD(3,4) [OF assms]
  by (auto simp: u32_max_def demo_frame_def)

lemma unlimited_reset:
  assumes ok: "handle_on (mf_data (wf_file w)) w" and f: "unlimited (wf_file w)"
  shows "\<exists>w'. wal_reset mem_ops seq salts trunc w = (Inr (), w') \<and> unlimited (wf_file w') \<and> wf_frame_count w' = 0"
proof -
  define hdr where "hdr = \<lparr>wh_magic = wh_magic (wf_header w), wh_format_version = WAL_FORMAT_VERSION,
            wh_page_size = wh_page_size (wf_header w), wh_checkpoint_seq = seq, wh_salts = salts, wh_checksum = default_checksum\<rparr>"
  obtain h ck where h: "disk_header (mf_data (wf_file w)) h ck" "same_generation h (wf_header w)" using handle_onE [OF ok] by metis
  have "PageSize_new (wh_page_size hdr) \<noteq> None" "wh_magic hdr \<in> {WAL_MAGIC_LE, WAL_MAGIC_BE}" "wh_format_version hdr = WAL_FORMAT_VERSION"
    using disk_header_page_size [OF h(1)] h(2) by (simp_all add: hdr_def same_generation_simps)
  then obtain hb ck where hb: "WalHeader_to_bytes hdr = Inr hb" "length hb = 32" "read_wal_header_checksum hb = Inr ck"
    "WalHeader_from_bytes hb = Inr (hdr\<lparr>wh_checksum := ck\<rparr>)" using written_header by blast
  obtain f1 where f1: "mem_write demo_alloc False hb 0 (wf_file w) = (Inr (), f1)" "unlimited f1"
    using unlimited_write [OF f, of 0 hb] hb(2) by (auto simp: usize_max_def)
  obtain f2 where f2: "mem_truncate demo_alloc 32 f1 = (Inr (), f2)" "unlimited f2"
    using f1(2) by (auto simp: mem_truncate_def Let_def unlimited_def)
  show ?thesis unfolding wal_reset_def Let_def hdr_def [symmetric] using hb f1 f2 by (simp add: WAL_HEADER_SIZE_def mem_sync_def)
qed

theorem wal_append_refines_list_witness:
  "\<exists>w w' h page. handle_on (mf_data (wf_file w)) w \<and> append_frames mem_ops [demo_frame 4 4] w = (Inr (), w') \<and>
     length (log_of (mf_data (wf_file w')) w') = 4 \<and> read_frame mem_ops 3 w' = Inr (h, page) \<and> fh_page_number h = 4"
proof -
  obtain w0 f0 w where d: "demo_state w0 f0 w" using demo_log by blast
  obtain w' where w': "append_frames mem_ops [demo_frame 4 4] w = (Inr (), w')" "wf_frame_count w' = 4" using demo_append [OF d] by blast
  note p = wal_append_refines_list [OF memory_readable.readable_file_axioms demo_stateD(1) [OF d] w'(1)]
  have l: "log_of (mf_data (wf_file w')) w' = map ref_content [demo_frame 1 0, demo_frame 2 2, demo_frame 3 0, demo_frame 4 4]"
    using p demo_stateD(7) [OF d] by simp
  obtain h page where h: "read_frame mem_ops 3 w' = Inr (h, page)" "(fh_page_number h, fh_db_size h, page) = log_of (mf_data (wf_file w')) w' ! 3"
    using conjunct2 [OF conjunct2 [OF p], rule_format, of 3] w'(2) by auto
  then have "fh_page_number h = 4" using l by (simp add: ref_content_def demo_frame_def)
  then show ?thesis using demo_stateD(1) [OF d] w'(1) h(1) l by - (rule exI [of _ w], rule exI [of _ w'], rule exI [of _ h], rule exI [of _ page], simp)
qed

theorem wal_crash_recovery_witness:
  "\<exists>w w2. handle_on (mf_data (wf_file w)) w \<and> WalFile_open mem_ops ((wf_file w)\<lparr>mf_data := take 1650 (mf_data (wf_file w))\<rparr>) = Inr w2 \<and>
     log_of (take 1650 (mf_data (wf_file w))) w2 = map ref_content [demo_frame 1 0, demo_frame 2 2]"
proof -
  obtain w0 f0 w where d: "demo_state w0 f0 w" using demo_log by blast
  from wal_crash_recovery [OF memory_readable.readable_file_axioms demo_stateD(8,9) [OF d],
      of "(wf_file w)\<lparr>mf_data := take 1650 (mf_data (wf_file w))\<rparr>" 1650]
  show ?thesis using demo_stateD(1) [OF d] by - (rule exI [of _ w], auto)
qed

theorem wal_append_paths_agree_witness:
  "\<exists>w buf ts lc buf'. handle_on (mf_data (wf_file w)) w \<and>
     append_frame mem_ops 4 (replicate 512 7) 4 w = append_frames mem_ops [demo_frame 4 4] w \<and>
     prepare_frame_bytes_with_transforms_into w 1 [demo_frame 4 4] = Inr (buf, ts, lc) \<and>
     append_prepared_frame_bytes mem_ops buf ts w = (fst (append_frames mem_ops [demo_frame 4 4] w), buf', snd (append_frames mem_ops [demo_frame 4 4] w))"
proof -
  obtain w0 f0 w where d: "demo_state w0 f0 w" using demo_log by blast
  note w = demo_stateD [OF d]
  note p = wal_append_paths_agree [OF w(1), of mem_ops]
  have "append_frame mem_ops 4 (replicate 512 7) 4 w = append_frames mem_ops [demo_frame 4 4] w"
    using conjunct1 [OF p, rule_format, of "demo_frame 4 4"] w(4) by (simp add: demo_frame_def)
  moreover have "length [demo_frame 4 4] \<le> u32_max" "\<forall>fr \<in> set [demo_frame 4 4]. length (af_page_data fr) = wf_page_size w"
    using w(4) by (simp_all add: u32_max_def demo_frame_def)
  then have "\<exists>buf ts lc buf'. prepare_frame_bytes_with_transforms_into w (length [demo_frame 4 4]) [demo_frame 4 4] = Inr (buf, ts, lc) \<and>
      append_prepared_frame_bytes mem_ops buf ts w = (fst (append_frames mem_ops [demo_frame 4 4] w), buf', snd (append_frames mem_ops [demo_frame 4 4] w))"
    using conjunct2 [OF p, rule_format, of w "[demo_frame 4 4]"] by simp
  ultimately show ?thesis using w(1) by - (rule exI [of _ w], simp)
qed

theorem wal_refresh_sees_commits_witness:
  "\<exists>w w' r r'. WalFile_open mem_ops (wf_file w) = Inr r \<and> wf_frame_count w = 3 \<and> wf_frame_count r = 2 \<and>
     append_frames mem_ops [demo_frame 4 4] w = (Inr (), w') \<and>
     refresh mem_ops (r\<lparr>wf_file := wf_file w'\<rparr>) = (Inr (), r') \<and>
     log_of (mf_data (wf_file w')) r' = map ref_content [demo_frame 1 0, demo_frame 2 2, demo_frame 3 0, demo_frame 4 4]"
proof -
  obtain w0 f0 w where d: "demo_state w0 f0 w" using demo_log by blast
  note w = demo_stateD [OF d]
  let ?bs = "mf_data (wf_file w)"
  have ft: "foreign_tail ?bs w" by (rule ends_at_foreign [OF w(1,6)])
  obtain h ck where h: "disk_header ?bs h ck" using handle_onE [OF w(1)] by metis
  define r where "r = opened (wf_file w) ?bs h ck"
  note o = opened_at [OF w(1) foreign_no_commit [OF ft] h, of "wf_file w", folded r_def]
  have op: "WalFile_open mem_ops (wf_file w) = Inr r"
    using readable_file.open_eq [OF memory_readable.readable_file_axioms h] ft by (simp add: foreign_tail_def r_def)
  have "length (log_of ?bs r) = wf_frame_count r" using handle_onE [OF o(1)] by (metis length_map length_take log_of_def min.absorb2)
  then have n: "wf_frame_count r = 2" using o(2) w(7) by simp
  have "replay_end 0 0 (frames_of_handle ?bs r) = wf_frame_count r" by (rule opened_committed [OF h, of "wf_file w", folded r_def])
  then have cm: "committed_handle ?bs r" using o(1) by (simp add: committed_handle_def)
  obtain w' where w': "append_frames mem_ops [demo_frame 4 4] w = (Inr (), w')" using demo_append [OF d] by blast
  then have ab: "append_batches mem_ops [[demo_frame 4 4]] w = (Inr (), w')" by simp
  have ft': "foreign_tail (mf_data (wf_file w')) w'" by (rule memory_file.append_batches_foreign [OF w(1) ft ab])
  note p = wal_refresh_sees_commits [OF memory_readable.readable_file_axioms w(1) ab _ foreign_no_commit [OF ft'], of r]
  have "commit_prefix (log_of ?bs w @ map ref_content (concat [[demo_frame 4 4]])) =
      map ref_content [demo_frame 1 0, demo_frame 2 2, demo_frame 3 0, demo_frame 4 4]"
    using w(7) by (simp add: commit_prefix_def ref_content_def demo_frame_def)
  moreover have "length (mf_data (wf_file w')) \<le> usize_max" using ft' by (simp add: foreign_tail_def)
  ultimately obtain r' where "refresh mem_ops (r\<lparr>wf_file := wf_file w'\<rparr>) = (Inr (), r')"
      "log_of (mf_data (wf_file w')) r' = map ref_content [demo_frame 1 0, demo_frame 2 2, demo_frame 3 0, demo_frame 4 4]"
    using p cm n w(3) by auto
  then show ?thesis using op n w(3) w' by blast
qed

theorem wal_reset_generation_witness:
  "\<exists>w w1 w2 w3. handle_on (mf_data (wf_file w)) w \<and> length (log_of (mf_data (wf_file w)) w) = 3 \<and>
     wal_reset mem_ops 2 \<lparr>salt1 = 21, salt2 = 22\<rparr> True w = (Inr (), w1) \<and>
     append_frames mem_ops [demo_frame 5 5] w1 = (Inr (), w2) \<and> WalFile_open mem_ops (wf_file w2) = Inr w3 \<and>
     log_of (mf_data (wf_file w2)) w3 = [ref_content (demo_frame 5 5)]"
proof -
  obtain w0 f0 w where d: "demo_state w0 f0 w" using demo_log by blast
  note w = demo_stateD [OF d]
  obtain w1 where w1: "wal_reset mem_ops 2 \<lparr>salt1 = 21, salt2 = 22\<rparr> True w = (Inr (), w1)" "unlimited (wf_file w1)" "wf_frame_count w1 = 0"
    using unlimited_reset [OF w(1,2)] by blast
  have rs: "handle_on (mf_data (wf_file w1)) w1" "wf_page_size w1 = 512" "frame_size w1 = 536"
    using memory_file.reset_spec [OF w(1) w1(1)] w(4,5) by simp_all
  obtain w2 where w2: "append_frames mem_ops [demo_frame 5 5] w1 = (Inr (), w2)" "wf_frame_count w2 = 1"
    using unlimited_append [OF rs(1) w1(2), of "[demo_frame 5 5]"] rs(2) w1(3) by (auto simp: u32_max_def demo_frame_def)
  then have ab: "append_batches mem_ops [[demo_frame 5 5]] w1 = (Inr (), w2)" by simp
  have m: "568 \<le> length (mf_data (wf_file w2))"
  proof -
    have "handle_on (mf_data (wf_file w2)) w2" using memory_file.append_frames_spec [OF rs(1) w2(1)] by simp
    then have "wf_frame_count w2 \<le> length (frames_in (mf_data (wf_file w2)) w2)" by (rule handle_onE)
    moreover have "frame_size w2 = 536" using append_frames_state [OF w2(1)] rs(2) by (simp add: frame_size_def WAL_FRAME_HEADER_SIZE_def)
    ultimately show ?thesis using frame_inside(1) [of 0 "frame_size w2" "mf_data (wf_file w2)"] w2(2) by simp
  qed
  then have k: "1 \<le> (length (mf_data (wf_file w2)) - 32) div frame_size w" using w(5) by simp
  have "length (mf_data (wf_file w)) \<le> usize_max" using w(3,5,6) by (simp add: ends_at_def usize_max_def)
  then have "\<exists>w3. WalFile_open mem_ops (wf_file w2) = Inr w3 \<and>
      log_of (mf_data (wf_file w2)) w3 = commit_prefix (take ((length (mf_data (wf_file w2)) - 32) div frame_size w) (map ref_content (concat [[demo_frame 5 5]])))"
    using wal_reset_generation [OF memory_readable.readable_file_axioms w(1) _ w1(1) _ ab, of "wf_file w2" "length (mf_data (wf_file w2))"] m by auto
  then show ?thesis using w(1,7) w1(1) w2(1) k
    by - (rule exI [of _ w], rule exI [of _ w1], rule exI [of _ w2], auto simp: commit_prefix_def ref_content_def demo_frame_def)
qed

end
