(* ===== verification/CheckpointExec.thy ===== *)
theory CheckpointExec
  imports WalFile CheckpointPlanning DatabaseHeader
begin

text \<open>
  \<open>crates/fsqlite-wal/src/checkpoint_executor.rs\<close>: running a checkpoint plan, from the log into the
  database file.  The executor writes through the interface \<open>CheckpointTarget\<close>, here a record of
  operations with the locale \<open>checkpoint_target\<close> as its contract; the contract is shown for the
  pager's writer (\<open>SimplePagerCheckpointWriter\<close> of \<open>fsqlite-pager/src/pager.rs\<close>, behind the adapter of
  \<open>fsqlite-core/src/wal_adapter.rs\<close>) over every file of the VFS.  The barrier of \<open>recovery_fence.rs\<close>
  that guards the truncation of the log is included; metrics, tracing, fault injection and the
  publication of page numbers to other readers of the pager are left out.
\<close>

section \<open>The target of a checkpoint\<close>

text \<open>Reading a page back is optional; a read gives the bytes that were there.\<close>

record 't target_ops =
  ct_write_page :: "PageNumber \<Rightarrow> bytes \<Rightarrow> 't \<Rightarrow> (FrankenError + unit) \<times> 't"
  ct_truncate_db :: "u32 \<Rightarrow> 't \<Rightarrow> (FrankenError + unit) \<times> 't"
  ct_sync_db :: "'t \<Rightarrow> (FrankenError + unit) \<times> 't"
  ct_read_page :: "PageNumber \<Rightarrow> nat \<Rightarrow> 't \<Rightarrow> FrankenError + bytes option"

record 'f PagerInner =
  pi_db_file :: 'f
  pi_page_size :: nat
  pi_db_size :: u32
  pi_commit_seq :: u64
  pi_cache :: "u32 \<rightharpoonup> bytes"

definition cache_evict :: "u32 \<Rightarrow> 'f PagerInner \<Rightarrow> 'f PagerInner" where
  "cache_evict page_no inner = inner\<lparr>pi_cache := (pi_cache inner)(page_no := None)\<rparr>"

definition patch_page1_header :: "'f file_ops \<Rightarrow> 'f PagerInner \<Rightarrow> (FrankenError + unit) \<times> 'f PagerInner" where
  "patch_page1_header ops inner =
     (if pi_db_size inner = 0 then (Inr (), inner)
      else
        (case fo_read ops (pi_db_file inner) (pi_page_size inner) 0 of
           Inl e \<Rightarrow> (Inl e, inner)
         | Inr bs \<Rightarrow>
             if length bs < DATABASE_HEADER_SIZE
             then (Inl (DatabaseCorrupt ''short read while patching page 1 header''), inner)
             else
               let page1 = put 0 bs (replicate (pi_page_size inner) 0);
                   new_page_count = pi_db_size inner;
                   current_change_counter = (ucast (pi_commit_seq inner) :: u32);
                   page1' = put 92 (to_be 4 current_change_counter) (put 28 (to_be 4 new_page_count)
                              (put 24 (to_be 4 current_change_counter) page1)) in
               (case fo_write ops page1' 0 (pi_db_file inner) of
                  (Inl e, file') \<Rightarrow> (Inl e, inner\<lparr>pi_db_file := file'\<rparr>)
                | (Inr _, file') \<Rightarrow> (Inr (), cache_evict 1 (inner\<lparr>pi_db_file := file'\<rparr>)))))"

definition pager_write_page ::
  "'f file_ops \<Rightarrow> PageNumber \<Rightarrow> bytes \<Rightarrow> 'f PagerInner \<Rightarrow> (FrankenError + unit) \<times> 'f PagerInner" where
  "pager_write_page ops page_no data inner =
     (let inner1 = inner\<lparr>pi_db_size := max (pi_db_size inner) page_no\<rparr>;
          offset = unat (page_no - 1) * pi_page_size inner in
      case fo_write ops data offset (pi_db_file inner1) of
        (Inl e, file') \<Rightarrow> (Inl e, inner1\<lparr>pi_db_file := file'\<rparr>)
      | (Inr _, file') \<Rightarrow>
          let inner2 = inner1\<lparr>pi_db_file := file'\<rparr> in
          (case (if page_no = 1 \<and> DATABASE_HEADER_SIZE \<le> length data then patch_page1_header ops inner2 else (Inr (), inner2)) of
             (Inl e, inner3) \<Rightarrow> (Inl e, inner3)
           | (Inr _, inner3) \<Rightarrow> (Inr (), cache_evict page_no inner3)))"

definition pager_truncate :: "'f file_ops \<Rightarrow> u32 \<Rightarrow> 'f PagerInner \<Rightarrow> (FrankenError + unit) \<times> 'f PagerInner" where
  "pager_truncate ops n_pages inner =
     (let old_db_size = pi_db_size inner; target_size = unat n_pages * pi_page_size inner in
      case fo_truncate ops target_size (pi_db_file inner) of
        (Inl e, file') \<Rightarrow> (Inl e, inner\<lparr>pi_db_file := file'\<rparr>)
      | (Inr _, file') \<Rightarrow>
          (Inr (), inner\<lparr>pi_db_file := file', pi_db_size := n_pages,
             pi_cache := (\<lambda>p. if n_pages < p \<and> p \<le> old_db_size \<and> PageNumber_new p \<noteq> None then None else pi_cache inner p)\<rparr>))"

definition pager_sync :: "'f file_ops \<Rightarrow> 'f PagerInner \<Rightarrow> (FrankenError + unit) \<times> 'f PagerInner" where
  "pager_sync ops inner =
     (case patch_page1_header ops inner of
        (Inl e, inner1) \<Rightarrow> (Inl e, inner1)
      | (Inr _, inner1) \<Rightarrow>
          (case fo_sync ops NORMAL (pi_db_file inner1) of (r, file') \<Rightarrow> (r, inner1\<lparr>pi_db_file := file'\<rparr>)))"

text \<open>The adapter does not override the read-back hook.\<close>

definition pager_target :: "'f file_ops \<Rightarrow> 'f PagerInner target_ops" where
  "pager_target ops = \<lparr>ct_write_page = pager_write_page ops, ct_truncate_db = pager_truncate ops, ct_sync_db = pager_sync ops,
     ct_read_page = (\<lambda>_ _ _. Inr None)\<rparr>"

section \<open>Executing a plan\<close>

record ExpectedPageChecksum =
  ex_page :: PageNumber
  ex_checksum :: Xxh3Checksum128

datatype CheckpointChecksumVerdict = Match | Mismatch PageNumber

record CheckpointExecutionResult =
  er_plan :: CheckpointPlan
  er_frames_backfilled :: u32
  er_db_size_pages :: "u32 option"
  er_wal_was_reset :: bool

text \<open>Pass 1 finds the latest frame of each page.\<close>

fun latest_frames_loop ::
  "'f file_ops \<Rightarrow> 'f WalFile \<Rightarrow> nat list \<Rightarrow> (PageNumber \<times> nat) list \<Rightarrow> u32 \<Rightarrow> u32 option \<Rightarrow>
   FrankenError + ((PageNumber \<times> nat) list \<times> u32 \<times> u32 option)" where
  "latest_frames_loop ops wal [] latest_frames frames_backfilled last_db_size = Inr (latest_frames, frames_backfilled, last_db_size)"
| "latest_frames_loop ops wal (frame_idx # idxs) latest_frames frames_backfilled last_db_size =
     bind_err (read_frame_header ops frame_idx wal) (\<lambda>header.
     case PageNumber_new (fh_page_number header) of
       None \<Rightarrow> Inl (OutOfRange ''checkpoint frame page number'')
     | Some page_no \<Rightarrow>
         latest_frames_loop ops wal idxs (AList.update page_no frame_idx latest_frames) (frames_backfilled + 1)
           (if is_commit header \<and> fh_db_size header > 0 then Some (fh_db_size header) else last_db_size))"

text \<open>Pass 2 writes the pages in order of their numbers and collects the checksums in their trailers.\<close>

fun write_pages_loop ::
  "'f file_ops \<Rightarrow> 't target_ops \<Rightarrow> 'f WalFile \<Rightarrow> (PageNumber \<times> nat) list \<Rightarrow> bytes \<Rightarrow> ExpectedPageChecksum list \<Rightarrow> 't \<Rightarrow>
   (FrankenError + ExpectedPageChecksum list) \<times> 't" where
  "write_pages_loop ops tops wal [] frame_buf expected t = (Inr expected, t)"
| "write_pages_loop ops tops wal ((page_no, frame_idx) # pages) frame_buf expected t =
     (case read_frame_into ops frame_idx frame_buf wal of
        Inl e \<Rightarrow> (Inl e, t)
      | Inr (_, frame_buf') \<Rightarrow>
          let page_data = drop WAL_FRAME_HEADER_SIZE frame_buf' in
          (case ct_write_page tops page_no page_data t of
             (Inl e, t1) \<Rightarrow> (Inl e, t1)
           | (Inr _, t1) \<Rightarrow>
               write_pages_loop ops tops wal pages frame_buf'
                 (if length page_data \<ge> PAGE_CHECKSUM_RESERVED_BYTES
                  then (case read_page_checksum page_data of
                          Inl _ \<Rightarrow> expected
                        | Inr checksum \<Rightarrow> expected @ [\<lparr>ex_page = page_no, ex_checksum = checksum\<rparr>])
                  else expected) t1))"

fun verify_checkpoint_checksums_via_target ::
  "'t target_ops \<Rightarrow> nat \<Rightarrow> ExpectedPageChecksum list \<Rightarrow> 't \<Rightarrow> FrankenError + CheckpointChecksumVerdict" where
  "verify_checkpoint_checksums_via_target tops page_size [] t = Inr Match"
| "verify_checkpoint_checksums_via_target tops page_size (e # es) t =
     bind_err (ct_read_page tops (ex_page e) page_size t) (\<lambda>maybe_read.
     case maybe_read of
       None \<Rightarrow> Inr Match
     | Some buf \<Rightarrow>
         if length buf < page_size then Inr (Mismatch (ex_page e))
         else
           bind_err (read_page_checksum buf) (\<lambda>observed.
           if observed \<noteq> ex_checksum e then Inr (Mismatch (ex_page e))
           else verify_checkpoint_checksums_via_target tops page_size es t))"

definition ensure_db_fsync_before_wal_truncate :: "'t target_ops \<Rightarrow> 't \<Rightarrow> (FrankenError + unit) \<times> 't" where
  "ensure_db_fsync_before_wal_truncate tops t = ct_sync_db tops t"

definition apply_checkpoint_post_action ::
  "'f file_ops \<Rightarrow> 't target_ops \<Rightarrow> CheckpointPostAction \<Rightarrow> ExpectedPageChecksum list \<Rightarrow> 'f WalFile \<Rightarrow> 't \<Rightarrow>
   (FrankenError + bool) \<times> 'f WalFile \<times> 't" where
  "apply_checkpoint_post_action ops tops post_action expected wal t =
     (if post_action = ResetWal \<or> post_action = TruncateWal then
        let new_seq = wh_checkpoint_seq (wf_header wal) + 1;
            new_salts = \<lparr>salt1 = salt1 (wh_salts (wf_header wal)) + 1, salt2 = salt2 (wh_salts (wf_header wal)) + 1\<rparr>;
            truncate = (post_action = TruncateWal);
            (checked, t1) =
              (if truncate then
                 (case ensure_db_fsync_before_wal_truncate tops t of
                    (Inl e, t1) \<Rightarrow> (Inl e, t1)
                  | (Inr _, t1) \<Rightarrow>
                      if expected = [] then (Inr (), t1)
                      else
                        (case verify_checkpoint_checksums_via_target tops (wf_page_size wal) expected t1 of
                           Inl e \<Rightarrow> (Inl e, t1)
                         | Inr Match \<Rightarrow> (Inr (), t1)
                         | Inr (Mismatch first_bad_page) \<Rightarrow> (Inl (DatabaseCorrupt ''post-checkpoint DB/WAL state disagreed''), t1)))
               else (Inr (), t)) in
        (case checked of
           Inl e \<Rightarrow> (Inl e, wal, t1)
         | Inr _ \<Rightarrow>
             (case wal_reset ops new_seq new_salts truncate wal of
                (Inl e, wal') \<Rightarrow> (Inl e, wal', t1)
              | (Inr _, wal') \<Rightarrow> (Inr True, wal', t1)))
      else (Inr False, wal, t))"

text \<open>The sync and the truncation of the database behind the writes.\<close>

definition sync_and_truncate :: "'t target_ops \<Rightarrow> CheckpointProgress \<Rightarrow> u32 option \<Rightarrow> 't \<Rightarrow> (FrankenError + unit) \<times> 't" where
  "sync_and_truncate tops progress last_db_size t =
     (case ct_sync_db tops t of
        (Inl e, t1) \<Rightarrow> (Inl e, t1)
      | (Inr _, t1) \<Rightarrow>
          (case (if progress = Complete then last_db_size else None) of
             None \<Rightarrow> (Inr (), t1)
           | Some db_size \<Rightarrow>
               (case ct_truncate_db tops db_size t1 of
                  (Inl e, t2) \<Rightarrow> (Inl e, t2)
                | (Inr _, t2) \<Rightarrow> ct_sync_db tops t2)))"

definition backfill ::
  "'f file_ops \<Rightarrow> 't target_ops \<Rightarrow> 'f WalFile \<Rightarrow> CheckpointPlan \<Rightarrow> CheckpointState \<Rightarrow> 't \<Rightarrow>
   (FrankenError + (u32 \<times> u32 option \<times> ExpectedPageChecksum list)) \<times> 't" where
  "backfill ops tops wal plan state t =
     (if cp_frames_to_backfill plan > 0 then
        let start = unat (cs_backfilled_frames state); count = unat (cp_frames_to_backfill plan);
            end_frame = min (usize_saturating_add start count) (wf_frame_count wal) in
        (case latest_frames_loop ops wal [start..<end_frame] [] 0 None of
           Inl e \<Rightarrow> (Inl e, t)
         | Inr (latest_frames, frames_backfilled, last_db_size) \<Rightarrow>
             (case write_pages_loop ops tops wal (sort_key fst latest_frames) (replicate (frame_size wal) 0) [] t of
                (Inl e, t1) \<Rightarrow> (Inl e, t1)
              | (Inr expected, t1) \<Rightarrow>
                  (case sync_and_truncate tops (cp_progress plan) last_db_size t1 of
                     (Inl e, t2) \<Rightarrow> (Inl e, t2)
                   | (Inr _, t2) \<Rightarrow> (Inr (frames_backfilled, last_db_size, expected), t2))))
      else (Inr (0, None, []), t))"

definition execute_checkpoint ::
  "'f file_ops \<Rightarrow> 't target_ops \<Rightarrow> CheckpointMode \<Rightarrow> CheckpointState \<Rightarrow> 'f WalFile \<Rightarrow> 't \<Rightarrow>
   (FrankenError + CheckpointExecutionResult) \<times> 'f WalFile \<times> 't" where
  "execute_checkpoint ops tops mode state wal t =
     (let plan = plan_checkpoint mode state in
      case backfill ops tops wal plan (normalized state) t of
        (Inl e, t1) \<Rightarrow> (Inl e, wal, t1)
      | (Inr (frames_backfilled, last_db_size, expected), t1) \<Rightarrow>
          (case apply_checkpoint_post_action ops tops (cp_post_action plan) expected wal t1 of
             (Inl e, wal', t2) \<Rightarrow> (Inl e, wal', t2)
           | (Inr wal_was_reset, wal', t2) \<Rightarrow>
               (Inr \<lparr>er_plan = plan, er_frames_backfilled = frames_backfilled, er_db_size_pages = last_db_size,
                     er_wal_was_reset = wal_was_reset\<rparr>, wal', t2)))"

section \<open>The barrier on a database file\<close>

definition fsync_db_file_full :: "'f file_ops \<Rightarrow> 'f \<Rightarrow> (FrankenError + unit) \<times> 'f" where
  "fsync_db_file_full ops db_file = fo_sync ops FULL db_file"

fun verify_prefix_loop :: "'f file_ops \<Rightarrow> 'f \<Rightarrow> nat \<Rightarrow> ExpectedPageChecksum list \<Rightarrow> FrankenError + CheckpointChecksumVerdict" where
  "verify_prefix_loop ops db_file page_size [] = Inr Match"
| "verify_prefix_loop ops db_file page_size (e # es) =
     (case usize_checked_mul (unat (ex_page e - 1)) page_size of
        None \<Rightarrow> Inl (OutOfRange ''checksum verify offset'')
      | Some offset \<Rightarrow>
          bind_err (fo_read ops db_file page_size offset) (\<lambda>page_buf.
          if length page_buf < page_size then Inr (Mismatch (ex_page e))
          else
            bind_err (read_page_checksum page_buf) (\<lambda>observed.
            if observed \<noteq> ex_checksum e then Inr (Mismatch (ex_page e))
            else verify_prefix_loop ops db_file page_size es)))"

definition verify_checkpoint_checksum_prefix ::
  "'f file_ops \<Rightarrow> 'f \<Rightarrow> u32 \<Rightarrow> ExpectedPageChecksum list \<Rightarrow> FrankenError + CheckpointChecksumVerdict" where
  "verify_checkpoint_checksum_prefix ops db_file page_size expected =
     (if expected = [] then Inr Match else verify_prefix_loop ops db_file (unat page_size) expected)"

definition execute_recovery_barrier ::
  "'t target_ops \<Rightarrow> 'f file_ops \<Rightarrow> 'f \<Rightarrow> u32 \<Rightarrow> ExpectedPageChecksum list \<Rightarrow> 't \<Rightarrow> (FrankenError + unit) \<times> 't" where
  "execute_recovery_barrier tops ops db_file page_size expected t =
     (case ensure_db_fsync_before_wal_truncate tops t of
        (Inl e, t1) \<Rightarrow> (Inl e, t1)
      | (Inr _, t1) \<Rightarrow>
          (case verify_checkpoint_checksum_prefix ops db_file page_size expected of
             Inl e \<Rightarrow> (Inl e, t1)
           | Inr Match \<Rightarrow> (Inr (), t1)
           | Inr (Mismatch first_bad_page) \<Rightarrow> (Inl (DatabaseCorrupt ''post-checkpoint DB/WAL state disagreed''), t1)))"

section \<open>The contract of targets\<close>

text \<open>\<open>db\<close> gives the pages of the database, up to \<open>norm\<close>, which forgets what the target maintains by
  itself; \<open>sound\<close> is what the target needs of its own state.  Failed operations may ruin the page
  they write, and a failed sync the first page, but no other page of the database; a page that is
  there stays unless it is written or truncated away.\<close>

locale checkpoint_target =
  fixes db :: "'t \<Rightarrow> u32 \<Rightarrow> bytes option" and tops :: "'t target_ops" and page_size :: nat and sound :: "'t \<Rightarrow> bool"
    and norm :: "u32 \<Rightarrow> bytes \<Rightarrow> bytes"
  assumes write_inv: "sound t \<Longrightarrow> ct_write_page tops p d t = (r, t') \<Longrightarrow> sound t'"
    and write_kept: "sound t \<Longrightarrow> valid_pgno p \<Longrightarrow> length d = page_size \<Longrightarrow> ct_write_page tops p d t = (r, t') \<Longrightarrow> q \<noteq> p \<Longrightarrow>
      db t q = Some x \<Longrightarrow> db t' q = Some x"
    and write_done: "sound t \<Longrightarrow> valid_pgno p \<Longrightarrow> length d = page_size \<Longrightarrow> ct_write_page tops p d t = (Inr u, t') \<Longrightarrow>
      db t' p = Some (norm p d)"
    and truncate_inv: "sound t \<Longrightarrow> ct_truncate_db tops n t = (r, t') \<Longrightarrow> sound t'"
    and truncate_kept: "sound t \<Longrightarrow> ct_truncate_db tops n t = (r, t') \<Longrightarrow> q \<le> n \<Longrightarrow> db t q = Some x \<Longrightarrow> db t' q = Some x"
    and sync_inv: "sound t \<Longrightarrow> ct_sync_db tops t = (r, t') \<Longrightarrow> sound t'"
    and sync_kept: "sound t \<Longrightarrow> ct_sync_db tops t = (r, t') \<Longrightarrow> q \<noteq> 1 \<or> (\<exists>u. r = Inr u) \<Longrightarrow> db t q = Some x \<Longrightarrow> db t' q = Some x"

section \<open>The pager's writer keeps the contract\<close>

definition page_in :: "nat \<Rightarrow> bytes \<Rightarrow> u32 \<Rightarrow> bytes option" where
  "page_in ps bs p = (if p \<noteq> 0 \<and> unat p * ps \<le> length bs then Some (take ps (drop ((unat p - 1) * ps) bs)) else None)"

text \<open>The change counter, the page count and the version-valid-for number of the first page are kept by
  the pager.\<close>

definition mask_counters :: "u32 \<Rightarrow> bytes \<Rightarrow> bytes" where
  "mask_counters p d = (if p = 1 then put 92 (replicate 4 0) (put 24 (replicate 8 0) d) else d)"

definition pager_db :: "('f \<Rightarrow> bytes) \<Rightarrow> 'f PagerInner \<Rightarrow> u32 \<Rightarrow> bytes option" where
  "pager_db view t p = map_option (mask_counters p) (page_in (pi_page_size t) (view (pi_db_file t)) p)"

definition pager_inv :: "nat \<Rightarrow> 'f PagerInner \<Rightarrow> bool" where
  "pager_inv ps t \<longleftrightarrow> pi_page_size t = ps \<and> DATABASE_HEADER_SIZE \<le> ps"

lemma page_in_Some:
  "page_in ps bs p = Some x \<longleftrightarrow> p \<noteq> 0 \<and> unat p * ps \<le> length bs \<and> x = take ps (drop ((unat p - 1) * ps) bs)"
  by (auto simp: page_in_def)

lemma unat_pred: "p \<noteq> 0 \<Longrightarrow> unat (p - 1 :: u32) = unat p - 1"
  by (simp add: unat_minus_one)

lemma page_range: "p \<noteq> 0 \<Longrightarrow> (unat (p :: u32) - 1) * ps + ps = unat p * ps"
  by (cases "unat p") (simp_all add: unat_eq_0)

lemma page_bytes_cong:
  assumes "p \<noteq> 0" "take (unat (p :: u32) * ps) b' = take (unat p * ps) b"
  shows "take ps (drop ((unat p - 1) * ps) b') = take ps (drop ((unat p - 1) * ps) b)"
proof -
  obtain n where n: "unat p = Suc n" using assms(1) by (cases "unat p") (simp_all add: unat_eq_0)
  show ?thesis using arg_cong [OF assms(2), of "drop (n * ps)"] n by (simp add: drop_take)
qed

text \<open>Bytes outside the range of a page carry all other pages.\<close>

lemma page_in_outside:
  assumes p: "p \<noteq> 0" and front: "\<And>m. m \<le> (unat p - 1) * ps \<Longrightarrow> m \<le> length bs \<Longrightarrow> take m bs' = take m bs"
    and behind: "drop (unat p * ps) bs' = drop (unat p * ps) bs" and q: "q \<noteq> p" "page_in ps bs q = Some x"
  shows "page_in ps bs' q = Some x"
proof (cases "ps = 0")
  case True then show ?thesis using q by (simp add: page_in_Some)
next
  case False
  have Q: "q \<noteq> 0" "unat q * ps \<le> length bs" "x = take ps (drop ((unat q - 1) * ps) bs)" using q(2) by (auto simp: page_in_Some)
  note r = page_range [OF Q(1), of ps]
  show ?thesis
  proof (cases "unat q < unat p")
    case True
    then have "unat q * ps \<le> (unat p - 1) * ps" by (intro mult_le_mono1) simp
    then have t: "take (unat q * ps) bs' = take (unat q * ps) bs" using front Q(2) by simp
    have "unat q * ps \<le> length bs'" using arg_cong [OF t, of length] Q(2) by simp
    then show ?thesis using Q page_bytes_cong [OF Q(1) t] by (simp add: page_in_Some)
  next
    case nlt: False
    have "unat q \<noteq> unat p" using q(1) by (simp add: word_unat_eq_iff)
    then have "unat p * ps \<le> (unat q - 1) * ps" using nlt by (intro mult_le_mono1) simp
    then obtain k where k: "(unat q - 1) * ps = unat p * ps + k" using le_Suc_ex by blast
    have "drop ((unat q - 1) * ps) bs' = drop ((unat q - 1) * ps) bs"
      using arg_cong [OF behind, of "drop k"] k by (simp add: add.commute)
    moreover have "length bs - unat p * ps = length bs' - unat p * ps" using arg_cong [OF behind, of length] by simp
    then have "unat q * ps \<le> length bs'" using Q(2) k r False by linarith
    ultimately show ?thesis using Q by (simp add: page_in_Some)
  qed
qed

lemma write_at_front: "m \<le> off \<Longrightarrow> m \<le> length v \<Longrightarrow> take m (write_at off bs v) = take m v"
  by (auto simp: write_at_def put_def resize_def min_def)

lemma write_at_back: "drop (off + length bs) (write_at off bs v) = drop (off + length bs) v"
  by (auto simp: write_at_def put_def resize_def)

lemma page_in_written:
  assumes "p \<noteq> 0" "length d = ps" "0 < ps"
  shows "page_in ps (write_at ((unat p - 1) * ps) d bs) p = Some d"
  using page_range [OF assms(1), of ps] read_write_at [of d "(unat p - 1) * ps" bs] assms
  by (auto simp: page_in_def length_write_at)

lemma mask_patched:
  assumes "100 \<le> length x" "length a = 4" "length b = 4" "length c = 4"
  shows "mask_counters 1 (put 92 c (put 28 b (put 24 a x))) = mask_counters 1 x"
  unfolding mask_counters_def if_P [OF refl]
  by (rule nth_equalityI) (use assms in \<open>auto simp: nth_put\<close>)

context vfs_file
begin

lemma patch_page_size: "patch_page1_header ops t = (r, t') \<Longrightarrow> pi_page_size t' = pi_page_size t"
  by (auto simp: patch_page1_header_def cache_evict_def Let_def split: if_splits sum.splits prod.splits)

lemma patch_kept:
  assumes "pager_inv ps t" "patch_page1_header ops t = (r, t')"
  shows "pager_inv ps t'" "\<And>q x. q \<noteq> 1 \<or> (\<exists>u. r = Inr u) \<Longrightarrow> pager_db view t q = Some x \<Longrightarrow> pager_db view t' q = Some x"
proof -
  let ?v = "view (pi_db_file t)"
  have ps: "pi_page_size t = ps" "100 \<le> ps" using assms(1) by (auto simp: pager_inv_def DATABASE_HEADER_SIZE_def)
  consider "t' = t" | bs page r1 f where "fo_read ops (pi_db_file t) ps 0 = Inr bs" "\<not> length bs < 100"
    "page = put 92 (to_be 4 (ucast (pi_commit_seq t) :: u32)) (put 28 (to_be 4 (pi_db_size t))
       (put 24 (to_be 4 (ucast (pi_commit_seq t) :: u32)) (put 0 bs (replicate ps 0))))"
    "fo_write ops page 0 (pi_db_file t) = (r1, f)" "r = map_sum id (\<lambda>_. ()) r1" "pi_page_size t' = ps" "pi_db_file t' = f"
    using assms(2) ps(1)
    by (auto simp: patch_page1_header_def Let_def cache_evict_def DATABASE_HEADER_SIZE_def split: if_splits sum.splits prod.splits)
  note cases = this
  show "pager_inv ps t'" using cases assms(1) by cases (auto simp: pager_inv_def)
  fix q x assume q: "q \<noteq> 1 \<or> (\<exists>u. r = Inr u)" "pager_db view t q = Some x"
  show "pager_db view t' q = Some x" using cases
  proof cases
    case 1 then show ?thesis using q by simp
  next
    case 2
    have bs: "bs = take ps ?v" using read_view [OF 2(1)] by simp
    then have lp: "length page = ps" using 2(2) ps(2) by (simp add: 2(3))
    obtain y where y: "page_in ps ?v q = Some y" "x = mask_counters q y" using q(2) ps(1) by (auto simp: pager_db_def)
    show ?thesis
    proof (cases "q = 1")
      case True
      then obtain u where "r1 = Inr u" using q(1) 2(5) by (cases r1) auto
      then have v': "view f = write_at 0 page ?v" using write_ok 2(4) by auto
      have "page_in ps (view f) 1 = Some page" using page_in_written [of 1 page ps ?v] lp ps(2) v' by simp
      moreover have "y = put 0 bs (replicate ps 0)" "length y = ps" using y(1) True bs by (simp_all add: page_in_Some put_def)
      then have "mask_counters 1 page = mask_counters 1 y" using mask_patched [of y] ps(2) 2(3) by simp
      ultimately show ?thesis using True 2(6,7) y(2) by (simp add: pager_db_def)
    next
      case False
      have b: "drop (unat (1 :: u32) * ps) (view f) = drop (unat (1 :: u32) * ps) ?v"
        using 2(4) write_ok [of page 0 "pi_db_file t"] write_err_behind [of page 0 "pi_db_file t"] write_at_back [of 0 page ?v] lp
        by (cases r1) auto
      have "page_in ps (view f) q = Some y"
        by (rule page_in_outside [OF _ _ b False y(1)]) simp_all
      then show ?thesis using 2(6,7) y(2) by (simp add: pager_db_def)
    qed
  qed
qed

end

context vfs_file
begin

lemma pager_write_kept:
  assumes sound: "pager_inv ps t" and p: "valid_pgno p" "length d = ps" and w: "pager_write_page ops p d t = (r, t')"
  shows "pager_inv ps t'" "\<And>q x. q \<noteq> p \<Longrightarrow> pager_db view t q = Some x \<Longrightarrow> pager_db view t' q = Some x"
    "\<And>u. r = Inr u \<Longrightarrow> pager_db view t' p = Some (mask_counters p d)"
proof -
  let ?v = "view (pi_db_file t)" and ?off = "(unat p - 1) * ps"
  have ps: "pi_page_size t = ps" "100 \<le> ps" using sound by (auto simp: pager_inv_def DATABASE_HEADER_SIZE_def)
  have p0: "p \<noteq> 0" using p(1) by (simp add: valid_pgno_def)
  obtain r1 f where f: "fo_write ops d ?off (pi_db_file t) = (r1, f)" by fastforce
  let ?t = "t\<lparr>pi_db_size := max (pi_db_size t) p, pi_db_file := f\<rparr>"
  have inv1: "pager_inv ps ?t" using sound by (simp add: pager_inv_def)
  have kept1: "pager_db view ?t q = Some x" if "q \<noteq> p" "pager_db view t q = Some x" for q x
  proof -
    have b: "drop (unat p * ps) (view f) = drop (unat p * ps) ?v"
      using f write_ok [of d ?off "pi_db_file t"] write_err_behind [of d ?off "pi_db_file t"] write_at_back [of ?off d ?v] p(2) page_range [OF p0, of ps]
      by (cases r1) auto
    have fr: "take m (view f) = take m ?v" if m: "m \<le> ?off" "m \<le> length ?v" for m
    proof (cases r1)
      case (Inl e)
      then have "take ?off (view f) = take ?off ?v" using write_err f by auto
      from arg_cong [OF this, of "take m"] show ?thesis using m(1) by (simp add: min_absorb1)
    next
      case (Inr u) then show ?thesis using write_ok f write_at_front [OF m] by auto
    qed
    show ?thesis using page_in_outside [OF p0 fr b that(1)] that(2) ps(1) by (auto simp: pager_db_def)
  qed
  have done1: "pager_db view ?t p = Some (mask_counters p d)" if "r1 = Inr u" for u
    using write_ok [of d ?off "pi_db_file t"] f that page_in_written [OF p0 p(2)] ps by (simp add: pager_db_def)
  have "pager_inv ps t' \<and> (\<forall>q x. q \<noteq> p \<longrightarrow> pager_db view t q = Some x \<longrightarrow> pager_db view t' q = Some x) \<and>
      ((\<exists>u. r = Inr u) \<longrightarrow> pager_db view t' p = Some (mask_counters p d))"
  proof (cases r1)
    case (Inl e)
    then have "r = Inl e" "t' = ?t" using w f ps(1) p0 by (auto simp: pager_write_page_def Let_def unat_pred)
    then show ?thesis using inv1 kept1 by simp
  next
    case (Inr u)
    then obtain r3 t3 where t3: "(if p = 1 \<and> DATABASE_HEADER_SIZE \<le> length d then patch_page1_header ops ?t else (Inr (), ?t)) = (r3, t3)"
      "r = r3" "t' = (case r3 of Inl e \<Rightarrow> t3 | Inr u \<Rightarrow> cache_evict p t3)"
      using w f ps(1) p0 by (cases "if p = 1 \<and> DATABASE_HEADER_SIZE \<le> length d then patch_page1_header ops ?t else (Inr (), ?t)")
        (auto simp: pager_write_page_def Let_def unat_pred split: sum.splits)
    have i3: "pager_inv ps t3" "\<And>q x. q \<noteq> 1 \<or> p \<noteq> 1 \<or> (\<exists>u. r = Inr u) \<Longrightarrow> pager_db view ?t q = Some x \<Longrightarrow> pager_db view t3 q = Some x"
      using t3(1,2) patch_kept [OF inv1] inv1 by (auto split: if_splits)
    have e: "pager_inv ps (cache_evict p t3) = pager_inv ps t3" "pager_db view (cache_evict p t3) = pager_db view t3"
      by (auto simp: pager_inv_def pager_db_def cache_evict_def)
    have "pager_db view t' = pager_db view t3" "pager_inv ps t'" using t3(3) e i3(1) by (auto split: sum.splits)
    then show ?thesis using i3(2) kept1 done1 [OF Inr] by metis
  qed
  then show "pager_inv ps t'" "\<And>q x. q \<noteq> p \<Longrightarrow> pager_db view t q = Some x \<Longrightarrow> pager_db view t' q = Some x"
    "\<And>u. r = Inr u \<Longrightarrow> pager_db view t' p = Some (mask_counters p d)" by blast+
qed

lemma pager_write_inv: "pager_inv ps t \<Longrightarrow> pager_write_page ops p d t = (r, t') \<Longrightarrow> pager_inv ps t'"
  by (auto simp: pager_write_page_def pager_inv_def Let_def cache_evict_def split: if_splits sum.splits prod.splits dest!: patch_page_size)

lemma page_in_truncated:
  assumes "\<And>m. m \<le> unat n * ps \<Longrightarrow> m \<le> length bs \<Longrightarrow> take m bs' = take m bs" "q \<le> n" "page_in ps bs q = Some x"
  shows "page_in ps bs' q = Some x"
proof -
  have "q \<noteq> 0" "unat q * ps \<le> length bs" and x: "x = take ps (drop ((unat q - 1) * ps) bs)" using assms(3) by (auto simp: page_in_Some)
  have "unat q * ps \<le> unat n * ps" using assms(2) by (intro mult_le_mono1) (simp add: word_le_nat_alt)
  then have t: "take (unat q * ps) bs' = take (unat q * ps) bs" using assms(1) \<open>unat q * ps \<le> length bs\<close> by blast
  have "unat q * ps \<le> length bs'" using arg_cong [OF t, of length] \<open>unat q * ps \<le> length bs\<close> by simp
  then show ?thesis using x \<open>q \<noteq> 0\<close> page_bytes_cong [OF \<open>q \<noteq> 0\<close> t] by (simp add: page_in_Some)
qed

lemma pager_truncate_kept:
  assumes "pager_inv ps t" "pager_truncate ops n t = (r, t')"
  shows "pager_inv ps t'" "q \<le> n \<Longrightarrow> pager_db view t q = Some x \<Longrightarrow> pager_db view t' q = Some x"
proof -
  obtain r0 where f: "fo_truncate ops (unat n * ps) (pi_db_file t) = (r0, pi_db_file t')" "pi_page_size t' = ps"
    using assms by (auto simp: pager_truncate_def pager_inv_def Let_def split: sum.splits prod.splits)
  then show "pager_inv ps t'" using assms(1) by (simp add: pager_inv_def)
  show "pager_db view t' q = Some x" if "q \<le> n" "pager_db view t q = Some x"
    using page_in_truncated [OF truncate_prefix [OF f(1)] that(1)] that(2) f(2) assms(1) by (auto simp: pager_db_def pager_inv_def)
qed

lemma pager_sync_kept:
  assumes "pager_inv ps t" "pager_sync ops t = (r, t')"
  shows "pager_inv ps t'" "q \<noteq> 1 \<or> (\<exists>u. r = Inr u) \<Longrightarrow> pager_db view t q = Some x \<Longrightarrow> pager_db view t' q = Some x"
proof -
  obtain r1 t1 where p: "patch_page1_header ops t = (r1, t1)" by fastforce
  note k = patch_kept [OF assms(1) p]
  have "pi_page_size t' = pi_page_size t1" "view (pi_db_file t') = view (pi_db_file t1)" "(\<exists>u. r = Inr u) \<Longrightarrow> (\<exists>u. r1 = Inr u)"
    using assms(2) p sync_view by (auto simp: pager_sync_def split: sum.splits prod.splits)
  then have "pager_db view t' = pager_db view t1" "pager_inv ps t' = pager_inv ps t1" "(\<exists>u. r = Inr u) \<Longrightarrow> (\<exists>u. r1 = Inr u)"
    by (auto simp: pager_db_def pager_inv_def)
  then show "pager_inv ps t'" "q \<noteq> 1 \<or> (\<exists>u. r = Inr u) \<Longrightarrow> pager_db view t q = Some x \<Longrightarrow> pager_db view t' q = Some x"
    using k by auto
qed

end

lemma pager_target_simps [simp]:
  "ct_write_page (pager_target ops) = pager_write_page ops" "ct_truncate_db (pager_target ops) = pager_truncate ops"
  "ct_sync_db (pager_target ops) = pager_sync ops" "ct_read_page (pager_target ops) p n t = Inr None"
  by (simp_all add: pager_target_def)

sublocale vfs_file \<subseteq> pager: checkpoint_target "pager_db view" "pager_target ops" ps "pager_inv ps" mask_counters for ps
proof (unfold_locales, goal_cases)
  case 1 then show ?case using pager_write_inv by simp
next
  case 2 then show ?case using pager_write_kept(2) by simp
next
  case 3 then show ?case using pager_write_kept(3) by simp
next
  case 4 then show ?case using pager_truncate_kept(1) by simp
next
  case 5 then show ?case using pager_truncate_kept(2) by simp
next
  case 6 then show ?case using pager_sync_kept(1) by simp
next
  case 7 then show ?case using pager_sync_kept(2) by simp
qed

section \<open>The contents of a database with a log\<close>

text \<open>The latest image of a page in a list of log entries, the size given by the last commit in it, and
  the pages a reader of the database and its log sees.\<close>

definition latest_in :: "(u32 \<times> u32 \<times> bytes) list \<Rightarrow> u32 \<Rightarrow> bytes option" where
  "latest_in l p = map_of (rev (map (\<lambda>(p, _, d). (p, d)) l)) p"

definition commit_size :: "(u32 \<times> u32 \<times> bytes) list \<Rightarrow> u32 option" where
  "commit_size l = fold (\<lambda>(_, n, _) last. if n \<noteq> 0 then Some n else last) l None"

definition size_covers :: "(u32 \<times> u32 \<times> bytes) list \<Rightarrow> u32 \<Rightarrow> bool" where
  "size_covers l p \<longleftrightarrow> (case commit_size l of None \<Rightarrow> True | Some n \<Rightarrow> p \<le> n)"

definition content :: "(u32 \<Rightarrow> bytes \<Rightarrow> bytes) \<Rightarrow> (u32 \<Rightarrow> bytes option) \<Rightarrow> (u32 \<times> u32 \<times> bytes) list \<Rightarrow> u32 \<Rightarrow> bytes option" where
  "content norm pages l p = (case latest_in l p of Some d \<Rightarrow> Some (norm p d) | None \<Rightarrow> pages p)"

text \<open>The first \<open>b\<close> entries are in the database, but for pages the other entries supersede or the last
  commit cuts off.\<close>

definition backfilled :: "(u32 \<Rightarrow> bytes \<Rightarrow> bytes) \<Rightarrow> (u32 \<Rightarrow> bytes option) \<Rightarrow> nat \<Rightarrow> (u32 \<times> u32 \<times> bytes) list \<Rightarrow> bool" where
  "backfilled norm pages b l \<longleftrightarrow>
     (\<forall>p d. latest_in (take b l) p = Some d \<and> p \<notin> fst ` set (drop b l) \<and> size_covers l p \<longrightarrow> pages p = Some (norm p d))"

lemma latest_in_None: "latest_in l p = None \<longleftrightarrow> p \<notin> fst ` set l"
  by (auto simp: latest_in_def map_of_eq_None_iff image_iff split: prod.splits)

lemma latest_in_append: "latest_in (xs @ ys) p = (case latest_in ys p of None \<Rightarrow> latest_in xs p | Some d \<Rightarrow> Some d)"
  by (simp add: latest_in_def map_add_def split: option.split)

lemma latest_in_SomeI:
  assumes "i < length l" "fst (l ! i) = p" "\<And>j. i < j \<Longrightarrow> j < length l \<Longrightarrow> fst (l ! j) \<noteq> p"
  shows "latest_in l p = Some (snd (snd (l ! i)))"
proof -
  have l: "l = (take i l @ [l ! i]) @ drop (Suc i) l" using assms(1) by (simp add: id_take_nth_drop)
  have "p \<notin> fst ` set (drop (Suc i) l)" using assms(3) by (auto simp: in_set_conv_nth) (metis add_Suc fst_conv less_add_Suc1 less_diff_conv add.commute)
  then have "latest_in (drop (Suc i) l) p = None" by (simp add: latest_in_None)
  moreover have "latest_in [l ! i] p = Some (snd (snd (l ! i)))" using assms(2) by (cases "l ! i") (simp add: latest_in_def)
  ultimately show ?thesis by (subst l) (simp only: latest_in_append option.case)
qed

lemma commit_size_append: "commit_size (xs @ ys) = (case commit_size ys of None \<Rightarrow> commit_size xs | Some n \<Rightarrow> Some n)"
proof -
  let ?f = "\<lambda>(_, n, _) last. if n \<noteq> (0 :: u32) then Some n else last"
  have "fold ?f ys a = (case fold ?f ys None of None \<Rightarrow> a | Some n \<Rightarrow> Some n)" for a
  proof (induction ys arbitrary: a)
    case (Cons y ys)
    obtain q n d where y: "y = (q, n, d)" by (cases y)
    show ?case using Cons.IH [of "Some n"] Cons.IH [of a] y by (simp split: option.split)
  qed simp
  from this [of "fold ?f xs None"] show ?thesis by (simp add: commit_size_def split: option.split)
qed

text \<open>The index of the latest frame of each page in a range.\<close>

definition index_of_latest :: "(nat \<Rightarrow> u32) \<Rightarrow> nat list \<Rightarrow> u32 \<rightharpoonup> nat" where
  "index_of_latest page idxs = fold (\<lambda>i m. m(page i \<mapsto> i)) idxs Map.empty"

lemma index_of_latest_snoc: "index_of_latest page (idxs @ [i]) = (index_of_latest page idxs)(page i \<mapsto> i)"
  by (simp add: index_of_latest_def)

lemma index_of_latest_range:
  "(case index_of_latest page [s..<e] p of
      None \<Rightarrow> \<forall>i. s \<le> i \<and> i < e \<longrightarrow> page i \<noteq> p
    | Some i \<Rightarrow> s \<le> i \<and> i < e \<and> page i = p \<and> (\<forall>j. i < j \<and> j < e \<longrightarrow> page j \<noteq> p))"
proof (induction e)
  case 0 then show ?case by (simp add: index_of_latest_def)
next
  case (Suc e)
  show ?case
  proof (cases "s \<le> e")
    case False then have "[s..<Suc e] = []" by simp
    then show ?thesis using False by (auto simp: index_of_latest_def)
  next
    case True
    then have "index_of_latest page [s..<Suc e] = (index_of_latest page [s..<e])(page e \<mapsto> e)" using index_of_latest_snoc by simp
    then show ?thesis using Suc.IH True by (auto simp: less_Suc_eq split: option.splits)
  qed
qed

lemma index_of_latest_in:
  assumes "e \<le> length l" "index_of_latest (\<lambda>i. fst (l ! i)) [s..<e] p = oi"
  shows "latest_in (drop s (take e l)) p = map_option (\<lambda>i. snd (snd (l ! i))) oi"
proof (cases oi)
  case None
  then have "\<forall>i. s \<le> i \<and> i < e \<longrightarrow> fst (l ! i) \<noteq> p" using index_of_latest_range [where page = "\<lambda>i. fst (l ! i)" and s = s and e = e and p = p] assms(2) by simp
  then have "p \<notin> fst ` set (drop s (take e l))" using assms(1) by (auto simp: in_set_conv_nth) (metis fst_conv le_add1 less_diff_conv add.commute)
  then show ?thesis using None by (simp flip: latest_in_None)
next
  case (Some i)
  then have i: "s \<le> i" "i < e" "fst (l ! i) = p" "\<And>j. i < j \<Longrightarrow> j < e \<Longrightarrow> fst (l ! j) \<noteq> p"
    using index_of_latest_range [where page = "\<lambda>i. fst (l ! i)" and s = s and e = e and p = p] assms(2) by auto
  have "latest_in (drop s (take e l)) p = Some (snd (snd (l ! i)))"
    using latest_in_SomeI [of "i - s" "drop s (take e l)" p] i assms(1) by (auto simp: less_diff_conv)
  then show ?thesis using Some by simp
qed

text \<open>The checksums in the trailers of the images of pages.\<close>

definition page_checksums :: "(nat \<Rightarrow> bytes) \<Rightarrow> (PageNumber \<times> nat) list \<Rightarrow> ExpectedPageChecksum list" where
  "page_checksums img pages =
     concat (map (\<lambda>(p, i). case read_page_checksum (img i) of Inl _ \<Rightarrow> [] | Inr c \<Rightarrow> [\<lparr>ex_page = p, ex_checksum = c\<rparr>]) pages)"

lemma page_checksums_in: "e \<in> set (page_checksums img pages) \<longleftrightarrow>
    (\<exists>i. (ex_page e, i) \<in> set pages \<and> read_page_checksum (img i) = Inr (ex_checksum e))"
  by (cases e) (force simp: page_checksums_def split: sum.splits)

lemma page_checksums_sorted: "sorted (map fst pages) \<Longrightarrow> sorted (map ex_page (page_checksums img pages))"
proof (induction pages)
  case (Cons pi pages)
  have "page_checksums img (pi # pages) =
      (case read_page_checksum (img (snd pi)) of Inl _ \<Rightarrow> [] | Inr c \<Rightarrow> [\<lparr>ex_page = fst pi, ex_checksum = c\<rparr>]) @ page_checksums img pages"
    by (cases pi) (simp add: page_checksums_def split: sum.split)
  then show ?case using Cons by (force simp: page_checksums_in split: sum.splits)
qed (simp add: page_checksums_def)

section \<open>Running the plan\<close>

context vfs_file
begin

lemma frame_at:
  assumes ok: "handle_on (view (wf_file w)) w" and i: "i < wf_frame_count w"
  shows "i < length (frames_in (view (wf_file w)) w)" "length (frames_in (view (wf_file w)) w ! i) = 24 + wf_page_size w"
    "frame_offset w i = 32 + i * frame_size w"
    "take (frame_size w) (drop (frame_offset w i) (view (wf_file w))) = frames_in (view (wf_file w)) w ! i"
    "log_of (view (wf_file w)) w ! i = frame_content (frames_in (view (wf_file w)) w ! i)"
proof -
  note pz = handle_on_page_size [OF ok]
  have n: "wf_frame_count w \<le> length (frames_in (view (wf_file w)) w)" "wf_frame_count w \<le> u32_max" using handle_onE [OF ok] by metis+
  show F: "i < length (frames_in (view (wf_file w)) w)" using n(1) i by (rule less_le_trans [rotated])
  show "length (frames_in (view (wf_file w)) w ! i) = 24 + wf_page_size w" using frame_length F pz(2) by simp
  show off: "frame_offset w i = 32 + i * frame_size w" using frame_offset_eq [OF ok] i n(2) by simp
  show "take (frame_size w) (drop (frame_offset w i) (view (wf_file w))) = frames_in (view (wf_file w)) w ! i"
    unfolding off by (rule frame_inside(2) [OF F])
  show "log_of (view (wf_file w)) w ! i = frame_content (frames_in (view (wf_file w)) w ! i)" using i n(1) by (simp add: log_of_def)
qed

lemma read_frame_header_view:
  assumes ok: "handle_on (view (wf_file w)) w" and r: "read_frame_header ops i w = Inr h"
  shows "i < wf_frame_count w" "fh_page_number h = fst (log_of (view (wf_file w)) w ! i)"
    "fh_db_size h = fst (snd (log_of (view (wf_file w)) w ! i))"
proof -
  show i: "i < wf_frame_count w" using r by (simp add: read_frame_header_def split: if_splits)
  note f = frame_at [OF ok i]
  obtain bs where bs: "fo_read ops (wf_file w) 24 (frame_offset w i) = Inr bs" "WalFrameHeader_from_bytes bs = Inr h"
    using r i by (auto simp: read_frame_header_def bind_err_Inr WAL_FRAME_HEADER_SIZE_def split: if_splits)
  have "bs = take 24 (drop (frame_offset w i) (view (wf_file w)))" using read_view [OF bs(1)] .
  also have "\<dots> = take 24 (take (frame_size w) (drop (frame_offset w i) (view (wf_file w))))"
    by (simp add: frame_size_def WAL_FRAME_HEADER_SIZE_def)
  finally have "bs = take 24 (frames_in (view (wf_file w)) w ! i)" unfolding f(4) .
  then have "h = header_of (frames_in (view (wf_file w)) w ! i)" using bs(2) frame_header_of f(2) by simp
  then show "fh_page_number h = fst (log_of (view (wf_file w)) w ! i)" "fh_db_size h = fst (snd (log_of (view (wf_file w)) w ! i))"
    using f(5) by (simp_all add: frame_content_def header_of_def)
qed

lemma read_frame_into_view:
  assumes ok: "handle_on (view (wf_file w)) w" and r: "read_frame_into ops i buf w = Inr (h, buf')" and l: "length buf = frame_size w"
  shows "i < wf_frame_count w" "length buf' = frame_size w" "drop 24 buf' = snd (snd (log_of (view (wf_file w)) w ! i))"
    "length (drop 24 buf') = wf_page_size w"
proof -
  show i: "i < wf_frame_count w" using r by (simp add: read_frame_into_def split: if_splits)
  note f = frame_at [OF ok i] and pz = handle_on_page_size [OF ok]
  obtain bs where bs: "fo_read ops (wf_file w) (frame_size w) (frame_offset w i) = Inr bs" "buf' = put 0 bs buf"
    using r i l by (auto simp: read_frame_into_def bind_err_Inr Let_def split: if_splits)
  have "bs = frames_in (view (wf_file w)) w ! i" using read_view [OF bs(1)] f(4) by simp
  moreover from this have "buf' = bs" using bs(2) f(2) l pz(2) by (simp add: put_def)
  ultimately show "length buf' = frame_size w" "drop 24 buf' = snd (snd (log_of (view (wf_file w)) w ! i))" "length (drop 24 buf') = wf_page_size w"
    using f(2,5) pz(2) by (simp_all add: frame_content_def)
qed

lemma latest_frames_loop_spec:
  assumes ok: "handle_on (view (wf_file w)) w" and L: "L = log_of (view (wf_file w)) w"
  shows "latest_frames_loop ops w idxs lat n lst = Inr (lat', n', lst') \<Longrightarrow> distinct (map fst lat) \<Longrightarrow>
    (\<forall>i \<in> set idxs. i < wf_frame_count w \<and> valid_pgno (fst (L ! i))) \<and> distinct (map fst lat') \<and>
    map_of lat' = fold (\<lambda>i m. m(fst (L ! i) \<mapsto> i)) idxs (map_of lat) \<and>
    n' = n + of_nat (length idxs) \<and>
    lst' = fold (\<lambda>i lst. if fst (snd (L ! i)) \<noteq> 0 then Some (fst (snd (L ! i))) else lst) idxs lst"
proof (induction idxs arbitrary: lat n lst)
  case (Cons i idxs)
  obtain h p where h: "read_frame_header ops i w = Inr h" "PageNumber_new (fh_page_number h) = Some p"
    "latest_frames_loop ops w idxs (AList.update p i lat) (n + 1) (if is_commit h \<and> fh_db_size h > 0 then Some (fh_db_size h) else lst)
       = Inr (lat', n', lst')"
    using Cons.prems(1) by (auto simp: bind_err_Inr split: option.splits)
  note v = read_frame_header_view [OF ok h(1), folded L]
  have p: "p = fst (L ! i)" "valid_pgno (fst (L ! i))" using h(2) v(2) by (auto simp: PageNumber_new_Some)
  have c: "(is_commit h \<and> fh_db_size h > 0) = (fst (snd (L ! i)) \<noteq> 0)" using v(3) by (auto simp: is_commit_def word_gt_0)
  have "distinct (map fst (AList.update p i lat))" using Cons.prems(2) by (rule AList.distinct_update)
  from Cons.IH [OF h(3) this] show ?case using p v c by (simp add: update_conv')
qed simp

lemma index_fold_commit: "e \<le> length L \<Longrightarrow>
  fold (\<lambda>i lst. if fst (snd (L ! i)) \<noteq> 0 then Some (fst (snd (L ! i))) else lst) [s..<e] None = commit_size (drop s (take e L))"
proof (induction e)
  case (Suc e)
  show ?case
  proof (cases "s \<le> e")
    case True
    have "drop s (take (Suc e) L) = drop s (take e L) @ [L ! e]" using Suc.prems True by (simp add: take_Suc_conv_app_nth)
    moreover obtain q n d where "L ! e = (q, n, d)" by (cases "L ! e")
    ultimately show ?thesis using Suc True by (simp add: commit_size_append) (simp add: commit_size_def)
  next
    case False
    then have "[s..<Suc e] = []" "drop s (take (Suc e) L) = []" by simp_all
    then show ?thesis by (simp only: fold_simps) (simp add: commit_size_def)
  qed
qed (simp add: commit_size_def)

lemma latest_pages:
  assumes ok: "handle_on (view (wf_file w)) w" and L: "L = log_of (view (wf_file w)) w"
    and r: "latest_frames_loop ops w [b..<b + m] [] 0 None = Inr (lat, n, lst)" and e: "b + m \<le> wf_frame_count w"
  shows "distinct (map fst (sort_key fst lat))" "\<forall>pi \<in> set (sort_key fst lat). valid_pgno (fst pi)"
    "q \<in> fst ` set (sort_key fst lat) \<longleftrightarrow> q \<in> fst ` set (drop b (take (b + m) L))"
    "latest_in (drop b (take (b + m) L)) q = Some d \<Longrightarrow> \<exists>j. (q, j) \<in> set (sort_key fst lat) \<and> d = snd (snd (L ! j))"
    "lst = commit_size (drop b (take (b + m) L))" "pi \<in> set (sort_key fst lat) \<Longrightarrow> snd pi < b + m"
proof -
  let ?R = "drop b (take (b + m) L)" and ?I = "index_of_latest (\<lambda>i. fst (L ! i)) [b..<b + m]"
  have len: "length L = wf_frame_count w" using handle_onE [OF ok] L by (metis length_map length_take log_of_def min.absorb2)
  note l = latest_frames_loop_spec [OF ok L r]
  have dl: "distinct (map fst lat)" using l by simp
  then show "distinct (map fst (sort_key fst lat))" by (metis distinct_map distinct_sort inj_on_cong set_sort)
  have mp: "map_of lat = ?I" using l by (simp add: index_of_latest_def)
  have sp: "(q, j) \<in> set lat \<longleftrightarrow> ?I q = Some j" for q j using dl mp [symmetric] by simp
  have iol: "latest_in ?R q = map_option (\<lambda>i. snd (snd (L ! i))) (?I q)" for q
    using index_of_latest_in [of "b + m" L b q] e len by simp
  show "q \<in> fst ` set (sort_key fst lat) \<longleftrightarrow> q \<in> fst ` set ?R"
  proof -
    have "q \<in> fst ` set lat \<longleftrightarrow> (\<exists>j. ?I q = Some j)" using sp by (force simp: image_iff)
    also have "\<dots> \<longleftrightarrow> latest_in ?R q \<noteq> None" using iol by simp
    finally show ?thesis by (simp add: latest_in_None)
  qed
  show "\<exists>j. (q, j) \<in> set (sort_key fst lat) \<and> d = snd (snd (L ! j))" if "latest_in ?R q = Some d"
    using that sp unfolding iol by auto
  show "lst = commit_size ?R" using l index_fold_commit [of "b + m" L b] e len by simp
  show "snd pi < b + m" if "pi \<in> set (sort_key fst lat)"
    using that index_of_latest_range [where page = "\<lambda>i. fst (L ! i)" and s = b and e = "b + m" and p = "fst pi"] sp [of "fst pi" "snd pi"] by simp
  show "\<forall>pi \<in> set (sort_key fst lat). valid_pgno (fst pi)"
  proof
    fix pi assume "pi \<in> set (sort_key fst lat)"
    then obtain j where j: "j \<in> {b..<b + m}" "fst (L ! j) = fst pi"
      using index_of_latest_range [where page = "\<lambda>i. fst (L ! i)" and s = b and e = "b + m" and p = "fst pi"] sp [of "fst pi" "snd pi"] by auto
    have "\<forall>i \<in> set [b..<b + m]. valid_pgno (fst (L ! i))" using l by simp
    then show "valid_pgno (fst pi)" using j by (metis set_upt)
  qed
qed

text \<open>Pass 2 collects the checksum in the trailer of every page it writes.\<close>

lemma write_pages_checksums:
  assumes ok: "handle_on (view (wf_file w)) w" and L: "L = log_of (view (wf_file w)) w"
  shows "write_pages_loop ops tops w pages buf ex t = (Inr ex', t') \<Longrightarrow> length buf = frame_size w \<Longrightarrow>
    ex' = ex @ page_checksums (\<lambda>i. snd (snd (L ! i))) pages"
proof (induction pages arbitrary: buf ex t)
  case (Cons pi pages)
  obtain p i where pi: "pi = (p, i)" by (cases pi)
  obtain h buf' where r: "read_frame_into ops i buf w = Inr (h, buf')"
    using Cons.prems(1) pi by (auto split: sum.splits)
  note f = read_frame_into_view [OF ok r Cons.prems(2), folded L]
  obtain u t1 where w1: "ct_write_page tops p (drop 24 buf') t = (Inr u, t1)"
    using Cons.prems(1) pi r by (auto simp: Let_def WAL_FRAME_HEADER_SIZE_def split: sum.splits prod.splits)
  define ex1 where "ex1 = ex @ page_checksums (\<lambda>i. snd (snd (L ! i))) [(p, i)]"
  have "write_pages_loop ops tops w pages buf' ex1 t1 = (Inr ex', t')"
    using Cons.prems(1) pi r w1 f(3) unfolding ex1_def
    by (simp add: Let_def WAL_FRAME_HEADER_SIZE_def page_checksums_def read_page_checksum_def split: if_splits)
  from Cons.IH [OF this f(2)] show ?case by (simp add: ex1_def pi page_checksums_def)
qed (simp add: page_checksums_def)

end

locale checkpointing = vfs_file view ops + checkpoint_target db tops page_size sound norm
  for view :: "'f \<Rightarrow> bytes" and ops :: "'f file_ops" and db :: "'t \<Rightarrow> u32 \<Rightarrow> bytes option" and tops :: "'t target_ops"
    and page_size :: nat and sound :: "'t \<Rightarrow> bool" and norm :: "u32 \<Rightarrow> bytes \<Rightarrow> bytes"
begin

lemma write_pages_loop_spec:
  assumes ok: "handle_on (view (wf_file w)) w" and L: "L = log_of (view (wf_file w)) w" and ps: "wf_page_size w = page_size"
  shows "write_pages_loop ops tops w pages buf ex t = (r, t') \<Longrightarrow> sound t \<Longrightarrow> length buf = frame_size w \<Longrightarrow>
    distinct (map fst pages) \<Longrightarrow> \<forall>pi \<in> set pages. valid_pgno (fst pi) \<Longrightarrow>
    sound t' \<and> (\<forall>q x. q \<notin> fst ` set pages \<longrightarrow> db t q = Some x \<longrightarrow> db t' q = Some x) \<and>
    ((\<exists>ex'. r = Inr ex') \<longrightarrow> (\<forall>pi \<in> set pages. db t' (fst pi) = Some (norm (fst pi) (snd (snd (L ! snd pi))))))"
proof (induction pages arbitrary: buf ex t)
  case (Cons pi pages)
  obtain p i where pi: "pi = (p, i)" by (cases pi)
  show ?case
  proof (cases "read_frame_into ops i buf w")
    case (Inl e) then show ?thesis using Cons.prems pi by auto
  next
    case (Inr hb)
    obtain h buf' where hb: "hb = (h, buf')" by (cases hb)
    note f = read_frame_into_view [OF ok Inr [unfolded hb] Cons.prems(3), folded L]
    obtain r1 t1 where w1: "ct_write_page tops p (drop 24 buf') t = (r1, t1)" by fastforce
    have v: "valid_pgno p" using Cons.prems(5) pi by simp
    have len: "length (drop 24 buf') = page_size" using f(4) ps by simp
    have i1: "sound t1" using write_inv [OF Cons.prems(2) w1] .
    note k1 = write_kept [OF Cons.prems(2) v len w1]
    show ?thesis
    proof (cases r1)
      case (Inl e)
      then have "r = Inl e" "t' = t1" using Cons.prems(1) pi Inr hb w1 by (auto simp: Let_def WAL_FRAME_HEADER_SIZE_def)
      then show ?thesis using i1 k1 pi by simp
    next
      case ok1: (Inr u)
      define ex1 where "ex1 = (if length (drop 24 buf') \<ge> PAGE_CHECKSUM_RESERVED_BYTES
                  then (case read_page_checksum (drop 24 buf') of
                          Inl _ \<Rightarrow> ex
                        | Inr checksum \<Rightarrow> ex @ [\<lparr>ex_page = p, ex_checksum = checksum\<rparr>])
                  else ex)"
      have rest: "write_pages_loop ops tops w pages buf' ex1 t1 = (r, t')"
        using Cons.prems(1) pi Inr hb w1 ok1 unfolding ex1_def by (simp add: Let_def WAL_FRAME_HEADER_SIZE_def)
      have "distinct (map fst pages)" "\<forall>pi \<in> set pages. valid_pgno (fst pi)" and pn: "p \<notin> fst ` set pages" using Cons.prems(4,5) pi by auto
      note ih = Cons.IH [OF rest i1 f(2) this(1,2)]
      have "db t1 p = Some (norm p (snd (snd (L ! i))))" using write_done [OF Cons.prems(2) v len w1 [unfolded ok1]] f(3) by simp
      then have "db t' p = Some (norm p (snd (snd (L ! i))))" using ih pn by blast
      then show ?thesis using ih k1 pi by auto
    qed
  qed
qed simp

lemma sync_and_truncate_spec:
  assumes "sync_and_truncate tops progress lst t = (r, t')" "sound t"
  shows "sound t'" "\<And>q x. q \<noteq> 1 \<or> (\<exists>u. r = Inr u) \<Longrightarrow> (\<And>n. progress = Complete \<Longrightarrow> lst = Some n \<Longrightarrow> q \<le> n) \<Longrightarrow>
    db t q = Some x \<Longrightarrow> db t' q = Some x"
proof -
  obtain r1 t1 where s1: "ct_sync_db tops t = (r1, t1)" by fastforce
  have i1: "sound t1" using sync_inv [OF assms(2) s1] .
  consider (err) e where "r1 = Inl e" "r = Inl e" "t' = t1" | (plain) u where "r1 = Inr u" "r = Inr ()" "t' = t1"
    | (cut) u n r2 t2 where "r1 = Inr u" "progress = Complete" "lst = Some n" "ct_truncate_db tops n t1 = (r2, t2)"
        "(case r2 of Inl e \<Rightarrow> (Inl e, t2) | Inr u \<Rightarrow> ct_sync_db tops t2) = (r, t')"
    using assms(1) s1 by (auto simp: sync_and_truncate_def split: sum.splits prod.splits option.splits if_splits)
  then have "sound t' \<and> (\<forall>q x. (q \<noteq> 1 \<or> (\<exists>u. r = Inr u)) \<longrightarrow> (\<forall>n. progress = Complete \<and> lst = Some n \<longrightarrow> q \<le> n) \<longrightarrow>
      db t q = Some x \<longrightarrow> db t' q = Some x)"
  proof cases
    case err then show ?thesis using i1 sync_kept [OF assms(2) s1] by auto
  next
    case plain then show ?thesis using i1 sync_kept [OF assms(2) s1] by auto
  next
    case cut
    have i2: "sound t2" using truncate_inv [OF i1 cut(4)] .
    have k2: "db t2 q = Some x" if "q \<le> n" "db t q = Some x" for q x
      using truncate_kept [OF i1 cut(4) that(1)] sync_kept [OF assms(2) s1 _ that(2)] cut(1) by blast
    show ?thesis
    proof (cases r2)
      case (Inl e) then show ?thesis using cut i2 k2 by auto
    next
      case (Inr u2)
      then have s3: "ct_sync_db tops t2 = (r, t')" using cut(5) by simp
      show ?thesis using sync_inv [OF i2 s3] sync_kept [OF i2 s3] k2 cut(2,3) by blast
    qed
  qed
  then show "sound t'" "\<And>q x. q \<noteq> 1 \<or> (\<exists>u. r = Inr u) \<Longrightarrow> (\<And>n. progress = Complete \<Longrightarrow> lst = Some n \<Longrightarrow> q \<le> n) \<Longrightarrow>
    db t q = Some x \<Longrightarrow> db t' q = Some x" by blast+
qed

lemma backfill_spec:
  assumes ok: "handle_on (view (wf_file w)) w" and L: "L = log_of (view (wf_file w)) w" and ps: "wf_page_size w = page_size" and i: "sound t"
    and b: "unat (cs_backfilled_frames s) = b" and m: "unat (cp_frames_to_backfill plan) = m" and e: "b + m \<le> wf_frame_count w"
    and prog: "cp_progress plan = Complete \<longrightarrow> b + m = wf_frame_count w"
    and r: "backfill ops tops w plan s t = (r, t')"
  shows "sound t'"
    "\<And>q x. q \<notin> fst ` set (drop b (take (b + m) L)) \<Longrightarrow> size_covers L q \<Longrightarrow> q \<noteq> 1 \<or> (\<exists>u. r = Inr u) \<Longrightarrow> db t q = Some x \<Longrightarrow> db t' q = Some x"
    "\<And>u q d. r = Inr u \<Longrightarrow> latest_in (drop b (take (b + m) L)) q = Some d \<Longrightarrow> size_covers L q \<Longrightarrow> db t' q = Some (norm q d)"
proof -
  let ?R = "drop b (take (b + m) L)"
  have len: "length L = wf_frame_count w" using handle_onE [OF ok] L by (metis length_map length_take log_of_def min.absorb2)
  have u32: "wf_frame_count w \<le> u32_max" using handle_onE [OF ok] by metis
  have "sound t' \<and>
    (\<forall>q x. q \<notin> fst ` set ?R \<longrightarrow> size_covers L q \<longrightarrow> q \<noteq> 1 \<or> (\<exists>u. r = Inr u) \<longrightarrow> db t q = Some x \<longrightarrow> db t' q = Some x) \<and>
    (\<forall>u q d. r = Inr u \<longrightarrow> latest_in ?R q = Some d \<longrightarrow> size_covers L q \<longrightarrow> db t' q = Some (norm q d))"
  proof (cases "m = 0")
    case True
    then have "cp_frames_to_backfill plan = 0" using m by (simp add: unat_eq_0)
    then have "t' = t" using r by (simp add: backfill_def)
    then show ?thesis using True i by (simp add: latest_in_def)
  next
    case False
    then have pos: "cp_frames_to_backfill plan > 0" using m by (auto simp: word_gt_0)
    have en: "min (usize_saturating_add b m) (wf_frame_count w) = b + m"
      using e u32 by (simp add: usize_saturating_add_def usize_max_def u32_max_def)
    show ?thesis
    proof (cases "latest_frames_loop ops w [b..<b + m] [] 0 None")
      case (Inl er)
      then have "t' = t" "r = Inl er" using r pos b m en by (simp_all add: backfill_def Let_def)
      then show ?thesis using i by simp
    next
      case (Inr res)
      obtain lat n lst where res: "res = (lat, n, lst)" by (cases res)
      define pages where "pages = sort_key fst lat"
      note P = latest_pages [OF ok L Inr [unfolded res] e, folded pages_def]
      have cs: "lst = commit_size ?R" using P by simp
      obtain r1 t1 where w1: "write_pages_loop ops tops w pages (replicate (frame_size w) 0) [] t = (r1, t1)" by fastforce
      note k1 = write_pages_loop_spec [OF ok L ps w1 i _ P(1,2)]
      have le: "q \<le> n" if "cp_progress plan = Complete" "lst = Some n" "size_covers L q" for q n
      proof -
        have "?R = drop b L" using prog that(1) len by simp
        then have "commit_size L = Some n" using that(2) cs commit_size_append [of "take b L" "drop b L"] by simp
        then show ?thesis using that(3) by (simp add: size_covers_def)
      qed
      show ?thesis
      proof (cases r1)
        case (Inl er)
        then have "t' = t1" "r = Inl er" using r pos b m en Inr res w1 by (simp_all add: backfill_def Let_def pages_def)
        then show ?thesis using k1 P(3) by simp
      next
        case ex: (Inr ex)
        obtain r2 t2 where s2: "sync_and_truncate tops (cp_progress plan) lst t1 = (r2, t2)" by fastforce
        have rt: "t' = t2" "(\<exists>u. r = Inr u) = (\<exists>u. r2 = Inr u)"
          using r pos b m en Inr res w1 ex s2 by (auto simp: backfill_def Let_def pages_def split: sum.splits)
        have i1: "sound t1" using k1 by simp
        note k2 = sync_and_truncate_spec [OF s2 i1]
        have kk: "db t2 q = Some x" if "q \<noteq> 1 \<or> (\<exists>u. r = Inr u)" "size_covers L q" "db t1 q = Some x" for q x
          using k2(2) [of q x] that rt(2) le by blast
        have "db t1 q = Some (norm q d)" if "latest_in ?R q = Some d" for q d using P(4) [OF that] k1 ex by fastforce
        then show ?thesis using k2(1) kk k1 P(3) rt by simp
      qed
    qed
  qed
  then show "sound t'"
    "\<And>q x. q \<notin> fst ` set ?R \<Longrightarrow> size_covers L q \<Longrightarrow> q \<noteq> 1 \<or> (\<exists>u. r = Inr u) \<Longrightarrow> db t q = Some x \<Longrightarrow> db t' q = Some x"
    "\<And>u q d. r = Inr u \<Longrightarrow> latest_in ?R q = Some d \<Longrightarrow> size_covers L q \<Longrightarrow> db t' q = Some (norm q d)"
    by blast+
qed

lemma backfill_content:
  assumes ok: "handle_on (view (wf_file w)) w" and L: "L = log_of (view (wf_file w)) w" and ps: "wf_page_size w = page_size" and i: "sound t"
    and b: "unat (cs_backfilled_frames s) = b" and m: "unat (cp_frames_to_backfill plan) = m" and e: "b + m \<le> wf_frame_count w"
    and prog: "cp_progress plan = Complete \<longrightarrow> b + m = wf_frame_count w"
    and r: "backfill ops tops w plan s t = (r, t')" and bf: "backfilled norm (db t) b L"
  shows "r = Inr u \<Longrightarrow> content norm (db t) L p = Some x \<Longrightarrow> size_covers L p \<Longrightarrow> p \<notin> fst ` set (drop (b + m) L) \<Longrightarrow> db t' p = Some x"
    "content norm (db t) L p = Some x \<Longrightarrow> size_covers L p \<Longrightarrow> (p = 1 \<longrightarrow> latest_in L 1 \<noteq> None) \<Longrightarrow> content norm (db t') L p = Some x"
proof -
  note k = backfill_spec [OF ok L ps i b m e prog r]
  let ?R = "drop b (take (b + m) L)"
  have split: "drop b L = ?R @ drop (b + m) L"
    using append_take_drop_id [of m "drop b L"] by (simp add: drop_take add.commute)
  show "db t' p = Some x" if c: "content norm (db t) L p = Some x" "size_covers L p" "r = Inr u" "p \<notin> fst ` set (drop (b + m) L)"
  proof -
    have Lp: "latest_in L p = (case latest_in ?R p of None \<Rightarrow> latest_in (take b L) p | Some d \<Rightarrow> Some d)"
      using latest_in_append [of "take b L" "drop b L" p] latest_in_append [of ?R "drop (b + m) L" p] c(4) unfolding split [symmetric] latest_in_None [symmetric]
      by simp
    show ?thesis
    proof (cases "latest_in ?R p")
      case (Some d) then show ?thesis using k(3) c Lp by (simp add: content_def)
    next
      case None
      then have nR: "p \<notin> fst ` set ?R" and nL: "p \<notin> fst ` set (drop b L)" using None [unfolded latest_in_None] c(4) unfolding split set_append image_Un by blast+
      have "db t p = Some x"
      proof (cases "latest_in (take b L) p")
        case None' : None then show ?thesis using c(1) Lp None by (simp add: content_def)
      next
        case (Some d) then show ?thesis using bf c(1,2) Lp None nL by (auto simp: content_def backfilled_def)
      qed
      then show ?thesis using k(2) nR c(2,3) by blast
    qed
  qed
  show "content norm (db t') L p = Some x"
    if c: "content norm (db t) L p = Some x" "size_covers L p" "p = 1 \<longrightarrow> latest_in L 1 \<noteq> None"
  proof (cases "latest_in L p")
    case None
    have "set ?R \<subseteq> set L" using set_drop_subset set_take_subset by (rule order_trans)
    then have "p \<notin> fst ` set ?R" using None unfolding latest_in_None by blast
    moreover have "p \<noteq> 1" using c(3) None by auto
    ultimately show ?thesis using k(2) [of p x] c None by (simp add: content_def)
  qed (use c in \<open>simp add: content_def\<close>)
qed

lemma post_action_spec:
  assumes "apply_checkpoint_post_action ops tops act ex w t = (r, w', t')" "sound t"
  shows "sound t' \<and> (w' = w \<and> (r = Inr False \<or> (\<exists>e. r = Inl e)) \<and> (\<forall>q x. q \<noteq> 1 \<or> r = Inr False \<longrightarrow> db t q = Some x \<longrightarrow> db t' q = Some x) \<or>
    act \<noteq> NoAction \<and> (\<forall>q x. db t q = Some x \<longrightarrow> db t' q = Some x) \<and> r \<noteq> Inr False \<and>
    (\<exists>r0 seq salts. wal_reset ops seq salts (act = TruncateWal) w = (r0, w') \<and> (r = Inr True \<longleftrightarrow> (\<exists>u. r0 = Inr u))))"
proof (cases "act = NoAction")
  case True
  then have "r = Inr False" "w' = w" "t' = t" using assms(1) by (auto simp: apply_checkpoint_post_action_def)
  then show ?thesis using assms(2) by simp
next
  case False
  define checked where "checked =
      (if act = TruncateWal then
         (case ensure_db_fsync_before_wal_truncate tops t of
            (Inl e, t1) \<Rightarrow> (Inl e, t1)
          | (Inr _, t1) \<Rightarrow>
              if ex = [] then (Inr (), t1)
              else
                (case verify_checkpoint_checksums_via_target tops (wf_page_size w) ex t1 of
                   Inl e \<Rightarrow> (Inl e, t1)
                 | Inr Match \<Rightarrow> (Inr (), t1)
                 | Inr (Mismatch first_bad_page) \<Rightarrow> (Inl (DatabaseCorrupt ''post-checkpoint DB/WAL state disagreed''), t1)))
       else (Inr (), t))"
  obtain c t1 where c: "checked = (c, t1)" by (cases checked)
  have k: "sound t1 \<and> (\<forall>q x. q \<noteq> 1 \<or> c = Inr () \<longrightarrow> db t q = Some x \<longrightarrow> db t1 q = Some x)"
  proof (cases "act = TruncateWal")
    case True
    obtain r1 t2 where s: "ct_sync_db tops t = (r1, t2)" by fastforce
    have "t1 = t2" "c = Inr () \<Longrightarrow> \<exists>u. r1 = Inr u"
      using c True s unfolding checked_def
      by (auto simp: ensure_db_fsync_before_wal_truncate_def split: sum.splits if_splits CheckpointChecksumVerdict.splits)
    then show ?thesis using sync_inv [OF assms(2) s] sync_kept [OF assms(2) s] by blast
  next
    case False
    then have "t1 = t" using c unfolding checked_def by simp
    then show ?thesis using assms(2) by simp
  qed
  have act: "act = ResetWal \<or> act = TruncateWal" using False by (cases act) auto
  show ?thesis
  proof (cases c)
    case (Inl e)
    then have "r = Inl e" "w' = w" "t' = t1"
      using assms(1) act c unfolding apply_checkpoint_post_action_def Let_def checked_def [symmetric] by auto
    then show ?thesis using k Inl by simp
  next
    case (Inr u)
    let ?seq = "wh_checkpoint_seq (wf_header w) + 1"
    let ?salts = "\<lparr>salt1 = salt1 (wh_salts (wf_header w)) + 1, salt2 = salt2 (wh_salts (wf_header w)) + 1\<rparr>"
    obtain r0 w0 where w0: "wal_reset ops ?seq ?salts (act = TruncateWal) w = (r0, w0)" by fastforce
    have "w' = w0" "t' = t1" "r \<noteq> Inr False" "r = Inr True \<longleftrightarrow> (\<exists>u. r0 = Inr u)"
      using assms(1) act c Inr w0 unfolding apply_checkpoint_post_action_def Let_def checked_def [symmetric]
      by (auto split: sum.splits)
    then show ?thesis using k Inr w0 False by (intro conjI disjI2) (simp, simp, simp, simp, blast)
  qed
qed

end

lemma plan_progress:
  fixes s mode
  defines "p \<equiv> plan_checkpoint mode s" and "n \<equiv> unat (cs_total_frames s)"
  shows "min (unat (cs_backfilled_frames s)) n + unat (cp_frames_to_backfill p) \<le> n"
    "cp_progress p = Complete \<longleftrightarrow> min (unat (cs_backfilled_frames s)) n + unat (cp_frames_to_backfill p) = n"
    "cp_post_action p \<noteq> NoAction \<Longrightarrow> cp_progress p = Complete"
proof -
  show "cp_progress p = Complete" if "cp_post_action p \<noteq> NoAction" using that plan_post(1) [of mode s] by (auto simp: p_def split: if_splits)
  show "min (unat (cs_backfilled_frames s)) n + unat (cp_frames_to_backfill p) \<le> n"
    "cp_progress p = Complete \<longleftrightarrow> min (unat (cs_backfilled_frames s)) n + unat (cp_frames_to_backfill p) = n"
    unfolding p_def plan_fields n_def by (auto split: option.splits)
qed

context vfs_file
begin

lemma backfill_checksums:
  assumes ok: "handle_on (view (wf_file w)) w" and L: "L = log_of (view (wf_file w)) w" and n: "unat (cs_total_frames s) = wf_frame_count w"
    and bf: "backfill ops tops w (plan_checkpoint mode s) (normalized s) t = (Inr (k, lst, ex), t')"
    and c: "cp_progress (plan_checkpoint mode s) = Complete"
  shows "sorted (map ex_page ex) \<and>
    (\<forall>p d c. latest_in (drop (unat (cs_backfilled_frames (normalized s))) L) p = Some d \<longrightarrow> read_page_checksum d = Inr c \<longrightarrow>
       \<lparr>ex_page = p, ex_checksum = c\<rparr> \<in> set ex) \<and>
    (\<forall>e \<in> set ex. ex_page e \<in> fst ` set (drop (unat (cs_backfilled_frames (normalized s))) L))"
proof -
  let ?b = "unat (cs_backfilled_frames (normalized s))"
  define m where "m = unat (cp_frames_to_backfill (plan_checkpoint mode s))"
  have len: "length L = wf_frame_count w" using handle_onE [OF ok] L by (metis length_map length_take log_of_def min.absorb2)
  have u32: "wf_frame_count w \<le> u32_max" using handle_onE [OF ok] by metis
  have "?b = min (unat (cs_backfilled_frames s)) (unat (cs_total_frames s))" by (simp add: normalized_def)
  then have e: "?b + m = wf_frame_count w" using plan_progress(2) [of mode s] c n by (simp add: m_def)
  show ?thesis
  proof (cases "m = 0")
    case True
    then have "drop ?b L = []" "ex = []" using e len bf by (simp_all add: m_def backfill_def unat_eq_0)
    then show ?thesis by (simp add: latest_in_def)
  next
    case False
    then have pos: "cp_frames_to_backfill (plan_checkpoint mode s) > 0" by (auto simp: word_gt_0 m_def)
    have en: "min (usize_saturating_add ?b m) (wf_frame_count w) = ?b + m"
      using e u32 by (simp add: usize_saturating_add_def usize_max_def u32_max_def)
    obtain lat n' lst' where l: "latest_frames_loop ops w [?b..<?b + m] [] 0 None = Inr (lat, n', lst')"
      using bf pos en by (auto simp: backfill_def Let_def m_def split: sum.splits)
    obtain ex1 t1 where w1: "write_pages_loop ops tops w (sort_key fst lat) (replicate (frame_size w) 0) [] t = (Inr ex1, t1)" "ex1 = ex"
      using bf pos en l by (auto simp: backfill_def Let_def m_def split: sum.splits prod.splits)
    have ex: "ex = page_checksums (\<lambda>i. snd (snd (L ! i))) (sort_key fst lat)"
      using write_pages_checksums [OF ok L w1(1)] w1(2) by simp
    have R: "drop ?b (take (?b + m) L) = drop ?b L" using e len by simp
    note P = latest_pages [OF ok L l eq_refl [OF e], unfolded R]
    have "sorted (map ex_page ex)" unfolding ex by (intro page_checksums_sorted) simp
    moreover have "\<lparr>ex_page = p, ex_checksum = c\<rparr> \<in> set ex" if d: "latest_in (drop ?b L) p = Some d" "read_page_checksum d = Inr c" for p d c
    proof -
      obtain j where "(p, j) \<in> set (sort_key fst lat)" "d = snd (snd (L ! j))" using P(4) [OF d(1)] by blast
      then show ?thesis using d(2) unfolding ex page_checksums_in by (intro exI [of _ j]) simp
    qed
    moreover have "ex_page e \<in> fst ` set (drop ?b L)" if "e \<in> set ex" for e
    proof -
      obtain j where "(ex_page e, j) \<in> set (sort_key fst lat)" using \<open>e \<in> set ex\<close> unfolding ex page_checksums_in by blast
      then show ?thesis using P(3) [of "ex_page e"] by (force simp del: set_sort)
    qed
    ultimately show ?thesis by blast
  qed
qed

end

lemma verify_prefix_Match:
  assumes v: "vfs_file view ops" and ps: "0 < ps"
  shows "verify_prefix_loop ops f ps es = Inr Match \<Longrightarrow> e \<in> set es \<Longrightarrow> ex_page e \<noteq> 0 \<Longrightarrow>
    \<exists>page. page_in ps (view f) (ex_page e) = Some page \<and> read_page_checksum page = Inr (ex_checksum e)"
proof (induction es)
  case (Cons e1 es)
  obtain buf where b: "fo_read ops f ps (unat (ex_page e1 - 1) * ps) = Inr buf" "\<not> length buf < ps" "read_page_checksum buf = Inr (ex_checksum e1)"
    "verify_prefix_loop ops f ps es = Inr Match"
    using Cons.prems(1) by (auto simp: usize_checked_mul_def bind_err_Inr split: option.splits if_splits)
  show ?case
  proof (cases "e = e1")
    case True
    have p: "ex_page e1 \<noteq> 0" using Cons.prems(3) True by simp
    have buf: "buf = take ps (drop ((unat (ex_page e1) - 1) * ps) (view f))" using vfs_file.read_view [OF v b(1)] unat_pred [OF p] by simp
    then have "unat (ex_page e1) * ps \<le> length (view f)" using b(2) page_range [OF p, of ps] ps by simp
    then show ?thesis using True p buf b(3) by (simp add: page_in_Some)
  qed (use Cons b(4) in auto)
qed simp

text \<open>Reading back stops at the first page the target cannot read.\<close>

lemma verify_target_Match:
  "verify_checkpoint_checksums_via_target tops ps es t = Inr Match \<Longrightarrow> sorted (map ex_page es) \<Longrightarrow> e \<in> set es \<Longrightarrow>
    (\<exists>e' \<in> set es. ex_page e' \<le> ex_page e \<and> ct_read_page tops (ex_page e') ps t = Inr None) \<or>
    (\<exists>buf. ct_read_page tops (ex_page e) ps t = Inr (Some buf) \<and> ps \<le> length buf \<and> read_page_checksum buf = Inr (ex_checksum e))"
proof (induction es)
  case (Cons e1 es)
  obtain m where m: "ct_read_page tops (ex_page e1) ps t = Inr m" using Cons.prems(1) by (auto simp: bind_err_Inr)
  show ?case
  proof (cases m)
    case None
    have "ex_page e1 \<le> ex_page e" using Cons.prems(2,3) by auto
    then show ?thesis using m None by auto
  next
    case (Some buf)
    then have "ps \<le> length buf" "read_page_checksum buf = Inr (ex_checksum e1)" "verify_checkpoint_checksums_via_target tops ps es t = Inr Match"
      using Cons.prems(1) m by (auto simp: bind_err_Inr split: if_splits)
    then show ?thesis using Cons m Some by auto
  qed
qed simp

section \<open>Properties\<close>

text \<open>C15: Checkpoints do not change the database.  Let a log stand for a list of page images on top of
  a database file, the first of them already copied.  Running a checkpoint in any mode, a reader of
  the database and the log sees the pages it saw before, whether the checkpoint succeeds or fails at
  any write, sync or truncation; and once it has begun to reset the log, the database alone has
  all of them, so that losing the log loses nothing.  The log is reset only by a complete
  checkpoint.  If the log stays, the copied images are in the database and the next checkpoint can
  go on behind them.  (Pages behind the size of the last commit are cut off; the first page, which
  the pager rewrites at each sync, is safe from failures of the disk if the log has it.)\<close>

theorem checkpoint_preserves_database:
  assumes "vfs_file view ops" "checkpoint_target db tops page_size sound norm"
    and "handle_on (view (wf_file w)) w" "wf_page_size w = page_size" "sound t"
    and "L = log_of (view (wf_file w)) w" "unat (cs_total_frames s) = wf_frame_count w"
    and "b = unat (cs_backfilled_frames (normalized s))" "backfilled norm (db t) b L"
    and "execute_checkpoint ops tops mode s w t = (r, w', t')"
  shows "sound t' \<and>
    (w' = w \<and> (\<forall>p x. content norm (db t) L p = Some x \<and> size_covers L p \<and> (p = 1 \<longrightarrow> latest_in L 1 \<noteq> None) \<longrightarrow>
       content norm (db t') L p = Some x) \<or>
     completes_checkpoint (plan_checkpoint mode s) \<and>
     (\<forall>p x. content norm (db t) L p = Some x \<and> size_covers L p \<longrightarrow> db t' p = Some x)) \<and>
    (case r of Inl e \<Rightarrow> True
     | Inr res \<Rightarrow>
         if er_wal_was_reset res then log_of (view (wf_file w')) w' = [] \<and> handle_on (view (wf_file w')) w'
         else w' = w \<and> backfilled norm (db t') (b + unat (cp_frames_to_backfill (er_plan res))) L)"
proof -
  have ck: "checkpointing view ops db tops page_size sound norm" using assms(1,2) by (simp add: checkpointing_def)
  note ok = assms(3) and L = assms(6)
  define plan where "plan = plan_checkpoint mode s"
  define m where "m = unat (cp_frames_to_backfill plan)"
  have len: "length L = wf_frame_count w" using handle_onE [OF ok] L by (metis length_map length_take log_of_def min.absorb2)
  have b: "b = min (unat (cs_backfilled_frames s)) (wf_frame_count w)" using assms(7,8) by (simp add: normalized_def)
  have pl: "b + m \<le> wf_frame_count w" "cp_progress plan = Complete \<longleftrightarrow> b + m = wf_frame_count w"
    "cp_post_action plan \<noteq> NoAction \<Longrightarrow> cp_progress plan = Complete"
    using plan_progress [where mode = mode and s = s] assms(7) b by (simp_all add: plan_def m_def)
  obtain r1 t1 where bf: "backfill ops tops w plan (normalized s) t = (r1, t1)" by fastforce
  have prog: "cp_progress plan = Complete \<longrightarrow> b + m = wf_frame_count w" using pl(2) by simp
  note bs = ck ok L assms(4,5) assms(8) [symmetric] m_def [symmetric] pl(1) prog bf
  note k = checkpointing.backfill_spec(1) [OF bs] and all = checkpointing.backfill_content(1) [OF bs assms(9)]
    and some = checkpointing.backfill_content(2) [OF bs assms(9)]
  show ?thesis
  proof (cases r1)
    case (Inl e)
    then have "r = Inl e" "w' = w" "t' = t1" using assms(10) bf by (simp_all add: execute_checkpoint_def Let_def flip: plan_def)
    then show ?thesis using k some by simp
  next
    case (Inr v)
    obtain n lst ex where v: "v = (n, lst, ex)" by (cases v)
    obtain r2 w2 t2 where pa: "apply_checkpoint_post_action ops tops (cp_post_action plan) ex w t1 = (r2, w2, t2)" by (metis prod_cases3)
    have rw: "w' = w2" "t' = t2" "case r2 of Inl e \<Rightarrow> r = Inl e
        | Inr f \<Rightarrow> r = Inr \<lparr>er_plan = plan, er_frames_backfilled = n, er_db_size_pages = lst, er_wal_was_reset = f\<rparr>"
      using assms(10) bf Inr v pa by (auto simp: execute_checkpoint_def Let_def simp flip: plan_def split: sum.splits)
    note q = checkpointing.post_action_spec [OF ck pa k]
    have i: "sound t2" using q by (rule conjunct1)
    show ?thesis using conjunct2 [OF q]
    proof (rule disjE)
      assume "w2 = w \<and> (r2 = Inr False \<or> (\<exists>e. r2 = Inl e)) \<and> (\<forall>q x. q \<noteq> 1 \<or> r2 = Inr False \<longrightarrow> db t1 q = Some x \<longrightarrow> db t2 q = Some x)"
      then have w2: "w2 = w" "r2 = Inr False \<or> (\<exists>e. r2 = Inl e)"
        and kept: "\<forall>q x. q \<noteq> 1 \<or> r2 = Inr False \<longrightarrow> db t1 q = Some x \<longrightarrow> db t2 q = Some x" by blast+
      have "content norm (db t2) L p = Some x"
        if "content norm (db t) L p = Some x" "size_covers L p" "p = 1 \<longrightarrow> latest_in L 1 \<noteq> None" for p x
        using some [OF that] kept that(3) by (cases "latest_in L p"; cases "p = 1") (auto simp: content_def)
      moreover have "backfilled norm (db t2) (b + m) L" if "r2 = Inr False"
      proof -
        have "db t2 p = Some (norm p d)" if h: "latest_in (take (b + m) L) p = Some d" "p \<notin> fst ` set (drop (b + m) L)" "size_covers L p" for p d
        proof -
          have "latest_in L p = Some d"
            using latest_in_append [of "take (b + m) L" "drop (b + m) L" p] h(1,2) by (simp flip: latest_in_None)
          then show ?thesis using all [OF Inr _ h(3,2)] kept \<open>r2 = Inr False\<close> by (simp add: content_def)
        qed
        then show ?thesis by (simp add: backfilled_def)
      qed
      ultimately show ?thesis using i w2 rw by (auto simp: m_def split: sum.splits)
    next
      assume "cp_post_action plan \<noteq> NoAction \<and> (\<forall>q x. db t1 q = Some x \<longrightarrow> db t2 q = Some x) \<and> r2 \<noteq> Inr False \<and>
        (\<exists>r0 seq salts. wal_reset ops seq salts (cp_post_action plan = TruncateWal) w = (r0, w2) \<and> (r2 = Inr True \<longleftrightarrow> (\<exists>u. r0 = Inr u)))"
      then have act: "cp_post_action plan \<noteq> NoAction" "r2 \<noteq> Inr False"
        and kept: "\<forall>q x. db t1 q = Some x \<longrightarrow> db t2 q = Some x"
        and rs: "\<exists>r0 seq salts. wal_reset ops seq salts (cp_post_action plan = TruncateWal) w = (r0, w2) \<and> (r2 = Inr True \<longleftrightarrow> (\<exists>u. r0 = Inr u))"
        by blast+
      have "completes_checkpoint plan" "drop (b + m) L = []" using pl act(1) len by (simp_all add: completes_checkpoint_def)
      moreover have "log_of (view (wf_file w2)) w2 = [] \<and> handle_on (view (wf_file w2)) w2" if "r2 = Inr True"
        using rs that vfs_file.reset_spec [OF assms(1) ok] by auto
      ultimately show ?thesis using i rw act(2) all [OF Inr] kept by (auto simp flip: plan_def split: sum.splits)
    qed
  qed
qed

lemma truncating_run:
  assumes "execute_checkpoint ops tops Truncate s w t = (r, w', t')" "w' \<noteq> w \<or> (\<exists>res. r = Inr res \<and> er_wal_was_reset res)"
  shows "\<exists>n lst ex t0 u. backfill ops tops w (plan_checkpoint Truncate s) (normalized s) t = (Inr (n, lst, ex), t0) \<and>
    cp_progress (plan_checkpoint Truncate s) = Complete \<and> ct_sync_db tops t0 = (Inr u, t') \<and>
    verify_checkpoint_checksums_via_target tops (wf_page_size w) ex t' = Inr Match"
proof -
  define plan where "plan = plan_checkpoint Truncate s"
  obtain rb t0 where bf: "backfill ops tops w plan (normalized s) t = (rb, t0)" by fastforce
  have "rb \<noteq> Inl e" for e using assms bf by (auto simp: execute_checkpoint_def plan_def [symmetric])
  then obtain n lst ex where rb: "rb = Inr (n, lst, ex)" by (cases rb) auto
  obtain rp wp tp where pa: "apply_checkpoint_post_action ops tops (cp_post_action plan) ex w t0 = (rp, wp, tp)" by (metis prod_cases3)
  have r: "w' = wp" "t' = tp" "(\<exists>res. r = Inr res \<and> er_wal_was_reset res) \<longrightarrow> rp = Inr True"
    using assms(1) bf rb pa by (auto simp: execute_checkpoint_def plan_def [symmetric] split: sum.splits)
  have "cp_post_action plan \<noteq> NoAction" using pa assms(2) r by (auto simp: apply_checkpoint_post_action_def)
  then have act: "cp_post_action plan = TruncateWal" "cp_progress plan = Complete"
    using plan_post(1) [of Truncate s] by (auto simp: plan_def split: if_splits)
  obtain r1 t1 where sy: "ct_sync_db tops t0 = (r1, t1)" by fastforce
  have "(\<exists>u. r1 = Inr u) \<and> tp = t1 \<and> (ex = [] \<or> verify_checkpoint_checksums_via_target tops (wf_page_size w) ex t1 = Inr Match)"
    using pa act(1) sy assms(2) r by (auto simp: apply_checkpoint_post_action_def ensure_db_fsync_before_wal_truncate_def Let_def
        split: sum.splits prod.splits if_splits CheckpointChecksumVerdict.splits)
  then show ?thesis using bf rb act(2) sy r(2) unfolding plan_def by auto
qed


interpretation memory_checkpoint: checkpointing mf_data "mem_file_ops al cancelled" "pager_db mf_data" "pager_target (mem_file_ops al cancelled)"
    ps "pager_inv ps" mask_counters for al cancelled ps
  by unfold_locales

definition demo_pager :: "MemoryFile PagerInner" where
  "demo_pager = \<lparr>pi_db_file = roomy_file, pi_page_size = 512, pi_db_size = 0, pi_commit_seq = 1, pi_cache = Map.empty\<rparr>"

theorem checkpoint_preserves_database_witness:
  "\<exists>w r w' t'. wf_frame_count w = 3 \<and>
     execute_checkpoint mem_ops (pager_target mem_ops) Passive \<lparr>cs_total_frames = 3, cs_backfilled_frames = 0, cs_oldest_reader_frame = None\<rparr>
       w demo_pager = (r, w', t') \<and>
     (w' = w \<and> content mask_counters (pager_db mf_data t') (log_of (mf_data (wf_file w)) w) 2 = Some (replicate 512 7) \<or>
      pager_db mf_data t' 2 = Some (replicate 512 7))"
proof -
  obtain w0 f0 w where d: "demo_state w0 f0 w" using demo_log by blast
  note w = demo_stateD [OF d]
  let ?s = "\<lparr>cs_total_frames = 3, cs_backfilled_frames = 0, cs_oldest_reader_frame = None\<rparr> :: CheckpointState"
  obtain r w' t' where e: "execute_checkpoint mem_ops (pager_target mem_ops) Passive ?s w demo_pager = (r, w', t')" by (metis prod_cases3)
  have h: "unat (cs_total_frames ?s) = wf_frame_count w" "0 = unat (cs_backfilled_frames (normalized ?s))" "pager_inv 512 demo_pager"
    "backfilled mask_counters (pager_db mf_data demo_pager) 0 (log_of (mf_data (wf_file w)) w)"
    using w(3) by (simp_all add: normalized_def pager_inv_def demo_pager_def DATABASE_HEADER_SIZE_def backfilled_def latest_in_def)
  have c: "content mask_counters (pager_db mf_data demo_pager) (log_of (mf_data (wf_file w)) w) 2 = Some (replicate 512 7)"
    "size_covers (log_of (mf_data (wf_file w)) w) 2"
    unfolding w(7) by (simp_all add: content_def latest_in_def ref_content_def demo_frame_def mask_counters_def size_covers_def commit_size_def)
  show ?thesis
    using checkpoint_preserves_database [OF memory_file.vfs_file_axioms memory_file.pager.checkpoint_target_axioms w(1,4) h(3) refl h(1,2,4) e] c w(3) e
    by - (rule exI [of _ w], rule exI [of _ r], rule exI [of _ w'], rule exI [of _ t'], auto)
qed

text \<open>A target that keeps the pages in memory and can read them back.\<close>

definition page_store :: "(PageNumber \<rightharpoonup> bytes) target_ops" where
  "page_store = \<lparr>ct_write_page = (\<lambda>p d m. (Inr (), m(p \<mapsto> d))), ct_truncate_db = (\<lambda>n m. (Inr (), m |` {p. p \<le> n})),
     ct_sync_db = (\<lambda>m. (Inr (), m)), ct_read_page = (\<lambda>p n m. Inr (m p))\<rparr>"

lemma page_store_simps [simp]:
  "ct_write_page page_store p d m = (Inr (), m(p \<mapsto> d))" "ct_truncate_db page_store n m = (Inr (), m |` {p. p \<le> n})"
  "ct_sync_db page_store m = (Inr (), m)" "ct_read_page page_store p k m = Inr (m p)"
  by (simp_all add: page_store_def)

interpretation store: checkpointing mf_data "mem_file_ops al cancelled" "\<lambda>m. m" page_store ps "\<lambda>_. True" "\<lambda>_ d. d" for al cancelled ps
  by unfold_locales (auto split: if_splits)

context readable_file
begin

lemma read_total_frame:
  assumes ok: "handle_on (view (wf_file w)) w" and i: "i < wf_frame_count w"
  shows "\<exists>h. read_frame_header ops i w = Inr h" "length buf = frame_size w \<Longrightarrow> \<exists>h buf'. read_frame_into ops i buf w = Inr (h, buf')"
proof -
  note f = frame_at [OF ok i] and pz = handle_on_page_size [OF ok]
  have "Suc i \<le> u32_max" using handle_onE [OF ok] i by (metis Suc_leI le_trans)
  from offset_bound(1) [OF this pz(4)] have o: "frame_offset w i + frame_size w \<le> usize_max" unfolding f(3) by simp
  have r: "fo_read ops (wf_file w) (frame_size w) (frame_offset w i) = Inr (frames_in (view (wf_file w)) w ! i)"
    using read_eq [OF o] f(4) by simp
  have "fo_read ops (wf_file w) 24 (frame_offset w i) = Inr (take 24 (frames_in (view (wf_file w)) w ! i))"
    using read_eq [of "frame_offset w i" 24] o pz(2) arg_cong [OF f(4), of "take 24"] by simp
  then show "\<exists>h. read_frame_header ops i w = Inr h"
    using i f(2) frame_header_of [of "frames_in (view (wf_file w)) w ! i"] by (simp add: read_frame_header_def WAL_FRAME_HEADER_SIZE_def)
  show "\<exists>h buf'. read_frame_into ops i buf w = Inr (h, buf')" if "length buf = frame_size w"
    using i f(2) r that pz(2) frame_header_of [of "frames_in (view (wf_file w)) w ! i"]
    by (simp add: read_frame_into_def WAL_FRAME_HEADER_SIZE_def put_def Let_def)
qed

lemma latest_frames_total:
  assumes ok: "handle_on (view (wf_file w)) w"
    and v: "\<And>i. i < wf_frame_count w \<Longrightarrow> valid_pgno (fst (log_of (view (wf_file w)) w ! i))"
  shows "\<forall>i \<in> set idxs. i < wf_frame_count w \<Longrightarrow> \<exists>res. latest_frames_loop ops w idxs lat n lst = Inr res"
proof (induction idxs arbitrary: lat n lst)
  case (Cons i idxs)
  obtain h where h: "read_frame_header ops i w = Inr h" using read_total_frame(1) [OF ok] Cons.prems by fastforce
  have "PageNumber_new (fh_page_number h) \<noteq> None" using read_frame_header_view [OF ok h] v PageNumber_new_Some by fastforce
  then show ?case using Cons h by (auto split: option.splits)
qed simp

lemma write_pages_total:
  assumes ok: "handle_on (view (wf_file w)) w" and L: "L = log_of (view (wf_file w)) w"
  shows "\<forall>pi \<in> set pages. snd pi < wf_frame_count w \<Longrightarrow> length buf = frame_size w \<Longrightarrow>
    \<exists>ex'. write_pages_loop ops page_store w pages buf ex t = (Inr ex', fold (\<lambda>(p, i) m. m(p \<mapsto> snd (snd (L ! i)))) pages t)"
proof (induction pages arbitrary: buf ex t)
  case (Cons pi pages)
  obtain p i where pi: "pi = (p, i)" by (cases pi)
  then obtain h buf' where r: "read_frame_into ops i buf w = Inr (h, buf')"
    using read_total_frame(2) [OF ok] Cons.prems by fastforce
  note f = read_frame_into_view [OF ok r Cons.prems(2), folded L]
  show ?case using Cons.IH [OF _ f(2)] Cons.prems(1) f(3) pi r
    by (simp add: Let_def WAL_FRAME_HEADER_SIZE_def del: fun_upd_apply split: sum.split)
qed simp

end

lemma verify_all:
  "\<forall>e \<in> set es. \<exists>buf. ct_read_page tops (ex_page e) ps t = Inr (Some buf) \<and> ps \<le> length buf \<and> read_page_checksum buf = Inr (ex_checksum e) \<Longrightarrow>
   verify_checkpoint_checksums_via_target tops ps es t = Inr Match"
  by (induction es) (auto simp: bind_err_Inr)

lemma store_fold:
  "\<forall>pi \<in> set pages. img (snd pi) = d \<Longrightarrow> fold (\<lambda>(p, i) m. m(p \<mapsto> img i)) pages t q = (if q \<in> fst ` set pages then Some d else t q)"
  by (induction pages arbitrary: t) auto

text \<open>A log of four frames, the last of them a commit.\<close>

lemma demo_log_committed:
  "\<exists>w. handle_on (mf_data (wf_file w)) w \<and> unlimited (wf_file w) \<and> wf_frame_count w = 4 \<and> wf_page_size w = 512 \<and>
     log_of (mf_data (wf_file w)) w = map ref_content [demo_frame 1 0, demo_frame 2 2, demo_frame 3 0, demo_frame 4 4]"
proof -
  obtain w0 f0 w where d: "demo_state w0 f0 w" using demo_log by blast
  note D = demo_stateD [OF d]
  obtain w' where w': "append_frames mem_ops [demo_frame 4 4] w = (Inr (), w')" "unlimited (wf_file w')" "wf_frame_count w' = 4"
    using unlimited_append [OF D(1,2), of "[demo_frame 4 4]"] D(3,4) by (auto simp: u32_max_def demo_frame_def)
  moreover have "wf_page_size w' = 512" using append_frames_state [OF w'(1)] D(4) by simp
  ultimately show ?thesis using memory_file.append_frames_spec [OF D(1) w'(1)] D(7) by auto
qed

text \<open>The run that truncates the log of four frames behind the read-back of all its pages.\<close>

lemma store_backfill:
  assumes w: "handle_on (mf_data (wf_file w)) w" "wf_frame_count w = 4" "wf_page_size w = 512"
      "log_of (mf_data (wf_file w)) w = map ref_content [demo_frame 1 0, demo_frame 2 2, demo_frame 3 0, demo_frame 4 4]"
    and plan: "cp_frames_to_backfill plan = 4" "cp_progress plan = Complete" and s: "cs_backfilled_frames s = 0"
  shows "\<exists>n lst ex t. backfill mem_ops page_store w plan s Map.empty = (Inr (n, lst, ex), t) \<and>
    verify_checkpoint_checksums_via_target page_store 512 ex t = Inr Match \<and> t 1 \<noteq> None \<and> t 2 \<noteq> None \<and> t 3 \<noteq> None \<and> t 4 \<noteq> None"
proof -
  let ?L = "map ref_content [demo_frame 1 0, demo_frame 2 2, demo_frame 3 0, demo_frame 4 4]" and ?d = "replicate 512 7 :: bytes"
  have img: "snd (snd (?L ! i)) = ?d" "valid_pgno (fst (?L ! i))" if i: "i < 4" for i
  proof -
    consider "i = 0" | "i = 1" | "i = 2" | "i = 3" using i by (auto simp: numeral_eq_Suc less_Suc_eq)
    then show "snd (snd (?L ! i)) = ?d" "valid_pgno (fst (?L ! i))"
      by (cases; simp add: ref_content_def demo_frame_def valid_pgno_def)+
  qed
  obtain lat n lst where l: "latest_frames_loop mem_ops w [0..<4] [] 0 None = Inr (lat, n, lst)"
    using memory_readable.latest_frames_total [OF w(1), where al = demo_alloc and idxs = "[0..<4]" and lat = "[]" and n = 0 and lst = None] img(2) w(2,4) by auto
  have "4 \<le> wf_frame_count w" using w(2) by simp
  note P = memory_file.latest_pages [OF w(1) w(4) [symmetric], where b = 0 and m = 4, simplified, OF l this]
  let ?p = "sort_key fst lat"
  obtain ex where wr: "write_pages_loop mem_ops page_store w ?p (replicate (frame_size w) 0) [] Map.empty =
      (Inr ex, fold (\<lambda>(p, i) m. m(p \<mapsto> snd (snd (?L ! i)))) ?p Map.empty)"
    using memory_readable.write_pages_total [OF w(1) w(4) [symmetric], where al = demo_alloc and pages = ?p and buf = "replicate (frame_size w) 0" and ex = "[]" and t = Map.empty] P(6) w(2) by auto
  let ?t = "fold (\<lambda>(p, i) m. m(p \<mapsto> snd (snd (?L ! i)))) ?p Map.empty"
  have t: "?t q = (if q \<in> fst ` set ?p then Some ?d else None)" for q
    using store_fold [of ?p "\<lambda>i. snd (snd (?L ! i))" ?d Map.empty q] P(6) img(1) by fastforce
  have lst: "lst = Some 4" using P(5) w(2) by (simp add: commit_size_def ref_content_def demo_frame_def)
  have small: "q \<le> 4" if "q \<in> fst ` set ?p" for q
    using that P(3) [of q] w(2) by (auto simp: ref_content_def demo_frame_def)
  have e: "ex = page_checksums (\<lambda>i. snd (snd (?L ! i))) ?p"
    using memory_file.write_pages_checksums [OF w(1) w(4) [symmetric] wr] by simp
  have "verify_checkpoint_checksums_via_target page_store 512 ex (?t |` {p. p \<le> 4}) = Inr Match"
  proof (rule verify_all, rule ballI)
    fix x assume "x \<in> set ex"
    then obtain i where i: "(ex_page x, i) \<in> set ?p" "read_page_checksum (snd (snd (?L ! i))) = Inr (ex_checksum x)"
      unfolding e page_checksums_in by blast
    then have "ex_page x \<in> fst ` set ?p" "read_page_checksum ?d = Inr (ex_checksum x)" using img(1) [of i] P(6) [of "(ex_page x, i)"] by (force, simp)
    then show "\<exists>buf. ct_read_page page_store (ex_page x) 512 (?t |` {p. p \<le> 4}) = Inr (Some buf) \<and> 512 \<le> length buf \<and>
        read_page_checksum buf = Inr (ex_checksum x)" using t small by simp
  qed
  moreover have "backfill mem_ops page_store w plan s Map.empty = (Inr (n, lst, ex), ?t |` {p. p \<le> 4})"
    using l wr plan s w(2) lst by (simp add: backfill_def Let_def usize_saturating_add_def usize_max_def sync_and_truncate_def)
  moreover have "{1, 2, 3, 4} \<subseteq> fst ` set ?p" using P(3) w(2) by (auto simp: ref_content_def demo_frame_def)
  then have "(?t |` {p. p \<le> 4}) 1 \<noteq> None \<and> (?t |` {p. p \<le> 4}) 2 \<noteq> None \<and> (?t |` {p. p \<le> 4}) 3 \<noteq> None \<and> (?t |` {p. p \<le> 4}) 4 \<noteq> None"
    using t by simp
  ultimately show ?thesis by blast
qed


end
