(* ===== verification/RecoveryFence.thy ===== *)
theory RecoveryFence
  imports Errors PageTypes "HOL-Library.Multiset"
begin

text \<open>
  \<open>crates/fsqlite-wal/src/recovery_fence.rs\<close>: the fence that makes recovery exclusive, and the registry
  of page locks with the process that holds them.  The fence is a transition system over the atomic
  operations on its two fields; the drop of a guard is two of them.  The wait for the fence is a
  function of what its probes observe.
\<close>

section \<open>The fence\<close>

record RecoveryFence =
  rf_in_progress :: bool
  rf_generation :: u64

definition fence_new :: RecoveryFence where
  "fence_new = \<lparr>rf_in_progress = False, rf_generation = 0\<rparr>"

definition is_recovery_in_progress :: "RecoveryFence \<Rightarrow> bool" where
  "is_recovery_in_progress fence = rf_in_progress fence"

definition try_acquire_for_recovery :: "RecoveryFence \<Rightarrow> bool \<times> RecoveryFence" where
  "try_acquire_for_recovery fence =
     (if \<not> rf_in_progress fence then (True, fence\<lparr>rf_in_progress := True\<rparr>) else (False, fence))"

definition drop_bump :: "RecoveryFence \<Rightarrow> RecoveryFence" where
  "drop_bump fence = fence\<lparr>rf_generation := rf_generation fence + 1\<rparr>"

definition drop_store :: "RecoveryFence \<Rightarrow> RecoveryFence" where
  "drop_store fence = fence\<lparr>rf_in_progress := False\<rparr>"

text \<open>Where a thread is: without the guard, with it, or dropping it between the two stores.\<close>

datatype guard_pc = Outside | Holding | Dropping

inductive fence_step :: "RecoveryFence \<times> (nat \<Rightarrow> guard_pc) \<Rightarrow> RecoveryFence \<times> (nat \<Rightarrow> guard_pc) \<Rightarrow> bool" where
  acquire: "pc t = Outside \<Longrightarrow> try_acquire_for_recovery fence = (True, fence') \<Longrightarrow> fence_step (fence, pc) (fence', pc(t := Holding))"
| refuse: "pc t = Outside \<Longrightarrow> try_acquire_for_recovery fence = (False, fence') \<Longrightarrow> fence_step (fence, pc) (fence', pc)"
| bump: "pc t = Holding \<Longrightarrow> fence_step (fence, pc) (drop_bump fence, pc(t := Dropping))"
| store: "pc t = Dropping \<Longrightarrow> fence_step (fence, pc) (drop_store fence, pc(t := Outside))"

inductive fence_reachable :: "RecoveryFence \<times> (nat \<Rightarrow> guard_pc) \<Rightarrow> bool" where
  init: "fence_reachable (fence_new, \<lambda>_. Outside)"
| step: "fence_reachable s \<Longrightarrow> fence_step s s' \<Longrightarrow> fence_reachable s'"

section \<open>Waiting for the fence\<close>

definition RECOVERY_FENCE_MAX_RETRIES :: nat where "RECOVERY_FENCE_MAX_RETRIES = 10"

definition RECOVERY_FENCE_SPIN_ATTEMPTS :: nat where "RECOVERY_FENCE_SPIN_ATTEMPTS = 4096"

text \<open>\<open>free k\<close> says whether the probe with number \<open>k\<close> finds the fence free.  The result is the number of
  the probe that took it, or \<^const>\<open>None\<close> for \<open>BusyRecovery\<close>, with the number of sleeps.\<close>

fun spin_loop :: "(nat \<Rightarrow> bool) \<Rightarrow> nat \<Rightarrow> nat \<Rightarrow> nat option" where
  "spin_loop free 0 k = None"
| "spin_loop free (Suc attempts) k = (if free k then Some k else spin_loop free attempts (k + 1))"

fun backoff_loop :: "(nat \<Rightarrow> bool) \<Rightarrow> nat \<Rightarrow> nat \<Rightarrow> nat \<Rightarrow> nat option \<times> nat" where
  "backoff_loop free retries_left k sleeps =
     (if free k then (Some k, sleeps)
      else case retries_left of 0 \<Rightarrow> (None, sleeps) | Suc n \<Rightarrow> backoff_loop free n (k + 1) (sleeps + 1))"

definition acquire_for_recovery_with :: "(nat \<Rightarrow> bool) \<Rightarrow> nat \<Rightarrow> nat option \<times> nat" where
  "acquire_for_recovery_with free max_retries =
     (case spin_loop free RECOVERY_FENCE_SPIN_ATTEMPTS 0 of
        Some k \<Rightarrow> (Some k, 0)
      | None \<Rightarrow> backoff_loop free max_retries RECOVERY_FENCE_SPIN_ATTEMPTS 0)"

definition acquire_for_recovery :: "(nat \<Rightarrow> bool) \<Rightarrow> nat option \<times> nat" where
  "acquire_for_recovery free = acquire_for_recovery_with free RECOVERY_FENCE_MAX_RETRIES"

section \<open>The registry of locks\<close>

record PidOwnedLockEntry =
  le_page :: PageNumber
  le_pid :: u32
  le_sequence :: u64

text \<open>The registry with the process-wide counter that numbers registrations.\<close>

record PidOwnedLockRegistry =
  lr_inner :: "PidOwnedLockEntry list"
  lr_counter :: u64

definition registry_new :: "u64 \<Rightarrow> PidOwnedLockRegistry" where
  "registry_new counter = \<lparr>lr_inner = [], lr_counter = counter\<rparr>"

definition next_sequence :: "PidOwnedLockRegistry \<Rightarrow> u64 \<times> PidOwnedLockRegistry" where
  "next_sequence r = (lr_counter r, r\<lparr>lr_counter := lr_counter r + 1\<rparr>)"

definition register :: "PageNumber \<Rightarrow> u32 \<Rightarrow> PidOwnedLockRegistry \<Rightarrow> u64 \<times> PidOwnedLockRegistry" where
  "register page pid r =
     (case find (\<lambda>entry. le_page entry = page \<and> le_pid entry = pid) (lr_inner r) of
        Some entry \<Rightarrow> (le_sequence entry, r)
      | None \<Rightarrow>
          let (sequence, r') = next_sequence r in
          (sequence, r'\<lparr>lr_inner := lr_inner r' @ [\<lparr>le_page = page, le_pid = pid, le_sequence = sequence\<rparr>]\<rparr>))"

definition swap_remove :: "nat \<Rightarrow> 'a list \<Rightarrow> 'a list" where
  "swap_remove i xs = butlast (xs[i := last xs])"

fun position :: "('a \<Rightarrow> bool) \<Rightarrow> 'a list \<Rightarrow> nat option" where
  "position P [] = None"
| "position P (x # xs) = (if P x then Some 0 else map_option Suc (position P xs))"

definition deregister :: "PageNumber \<Rightarrow> u32 \<Rightarrow> PidOwnedLockRegistry \<Rightarrow> bool \<times> PidOwnedLockRegistry" where
  "deregister page pid r =
     (case position (\<lambda>e. le_page e = page \<and> le_pid e = pid) (lr_inner r) of
        Some pos \<Rightarrow> (True, r\<lparr>lr_inner := swap_remove pos (lr_inner r)\<rparr>)
      | None \<Rightarrow> (False, r))"

definition registry_len :: "PidOwnedLockRegistry \<Rightarrow> nat" where
  "registry_len r = length (lr_inner r)"

function release_loop ::
  "(u32 \<Rightarrow> bool) \<Rightarrow> nat \<Rightarrow> PidOwnedLockEntry list \<Rightarrow> PidOwnedLockEntry list \<Rightarrow> PidOwnedLockEntry list \<times> PidOwnedLockEntry list" where
  "release_loop is_alive i inner released =
     (if i < length inner then
        let entry = inner ! i in
        if \<not> is_alive (le_pid entry) then release_loop is_alive i (swap_remove i inner) (released @ [entry])
        else release_loop is_alive (i + 1) inner released
      else (released, inner))"
  by pat_completeness auto
termination
  by (relation "measure (\<lambda>(_, i, inner, _). length inner - i)") (auto simp: swap_remove_def)

declare release_loop.simps [simp del]

definition release_dead_pid_locks ::
  "(u32 \<Rightarrow> bool) \<Rightarrow> PidOwnedLockRegistry \<Rightarrow> PidOwnedLockEntry list \<times> PidOwnedLockRegistry" where
  "release_dead_pid_locks is_alive r =
     (let (released, inner) = release_loop is_alive 0 (lr_inner r) [] in (released, r\<lparr>lr_inner := inner\<rparr>))"

section \<open>Lemmas\<close>

text \<open>Mutual exclusion, and the generation counts the guards that were dropped.\<close>

definition fence_inv :: "RecoveryFence \<times> (nat \<Rightarrow> guard_pc) \<Rightarrow> bool" where
  "fence_inv s \<longleftrightarrow> (case s of (fence, pc) \<Rightarrow>
     (\<forall>t u. pc t \<noteq> Outside \<and> pc u \<noteq> Outside \<longrightarrow> t = u) \<and> (rf_in_progress fence \<longleftrightarrow> (\<exists>t. pc t \<noteq> Outside)))"

lemma fence_step_inv: "fence_step s s' \<Longrightarrow> fence_inv s \<Longrightarrow> fence_inv s'"
proof (induction rule: fence_step.induct)
  case (acquire pc t fence fence')
  then show ?case by (auto simp: fence_inv_def try_acquire_for_recovery_def split: if_splits)
next
  case (refuse pc t fence fence')
  then show ?case by (auto simp: fence_inv_def try_acquire_for_recovery_def split: if_splits)
next
  case (bump pc t fence)
  have "(pc(t := Dropping)) u \<noteq> Outside \<longleftrightarrow> pc u \<noteq> Outside" for u using bump by simp
  then show ?case using bump by (simp add: fence_inv_def drop_bump_def)
next
  case (store pc t fence)
  then have "pc u \<noteq> Outside \<longrightarrow> u = t" for u by (auto simp: fence_inv_def)
  then show ?case by (auto simp: fence_inv_def drop_store_def)
qed

lemma fence_reachable_inv: "fence_reachable s \<Longrightarrow> fence_inv s"
proof (induction rule: fence_reachable.induct)
  case init then show ?case by (simp add: fence_inv_def fence_new_def)
qed (rule fence_step_inv)

lemma spin_loop_spec:
  "(case spin_loop free n k of
      None \<Rightarrow> \<forall>i. k \<le> i \<and> i < k + n \<longrightarrow> \<not> free i
    | Some j \<Rightarrow> k \<le> j \<and> j < k + n \<and> free j \<and> (\<forall>i. k \<le> i \<and> i < j \<longrightarrow> \<not> free i))"
proof (induction n arbitrary: k)
  case (Suc n)
  have "k \<le> i \<longleftrightarrow> i = k \<or> k + 1 \<le> i" for i by auto
  then show ?case using Suc.IH [of "k + 1"] by (auto split: option.splits)
qed auto

lemma backoff_loop_spin:
  "fst (backoff_loop free n k s) = spin_loop free (Suc n) k \<and> snd (backoff_loop free n k s) \<le> s + n"
proof (induction n arbitrary: k s)
  case 0 then show ?case by simp
next
  case (Suc n)
  show ?case using Suc.IH [of "k + 1" "s + 1"] by (subst backoff_loop.simps) auto
qed

lemma mset_swap_remove:
  assumes "i < length xs"
  shows "mset xs = add_mset (xs ! i) (mset (swap_remove i xs))"
proof -
  obtain ys l where xs: "xs = ys @ [l]" using assms by (cases xs rule: rev_cases) auto
  show ?thesis
  proof (cases "i = length ys")
    case True then show ?thesis by (simp add: xs swap_remove_def)
  next
    case False
    then have i: "i < length ys" using assms xs by simp
    then have "swap_remove i xs = ys[i := l]" "xs ! i = ys ! i" by (simp_all add: xs swap_remove_def list_update_append nth_append)
    moreover have "mset (ys[i := l]) = add_mset l (mset ys - {#ys ! i#})" using i by (simp add: mset_update)
    moreover have "ys ! i \<in># mset ys" using i by simp
    ultimately show ?thesis using xs by (simp add: insert_DiffM add_mset_commute [of "ys ! i"])
  qed
qed

lemma release_loop_spec:
  "release_loop is_alive i inner released = (rel, rest) \<Longrightarrow> \<forall>e \<in> set released. \<not> is_alive (le_pid e) \<Longrightarrow>
   \<forall>j < min i (length inner). is_alive (le_pid (inner ! j)) \<Longrightarrow>
   mset rel + mset rest = mset released + mset inner \<and> (\<forall>e \<in> set rel. \<not> is_alive (le_pid e)) \<and> (\<forall>e \<in> set rest. is_alive (le_pid e))"
proof (induction is_alive i inner released rule: release_loop.induct)
  case (1 is_alive i inner released)
  show ?case
  proof (cases "i < length inner")
    case False
    then have "rel = released" "rest = inner" using 1(3) by (simp_all add: release_loop.simps)
    then show ?thesis using 1(4,5) False by (auto simp: in_set_conv_nth)
  next
    case i: True
    show ?thesis
    proof (cases "is_alive (le_pid (inner ! i))")
      case True
      then have "release_loop is_alive (i + 1) inner released = (rel, rest)" using 1(3) i by (subst (asm) release_loop.simps) simp
      then show ?thesis using 1(2) [OF i refl _ _ 1(4)] True 1(5) i by (auto simp: less_Suc_eq)
    next
      case False
      let ?inner = "swap_remove i inner"
      have "release_loop is_alive i ?inner (released @ [inner ! i]) = (rel, rest)" using 1(3) i False by (subst (asm) release_loop.simps) simp
      moreover have "?inner ! j = inner ! j" if "j < i" "j < length ?inner" for j
        using that by (simp add: swap_remove_def nth_butlast)
      moreover have "mset inner = add_mset (inner ! i) (mset ?inner)" using mset_swap_remove [OF i] .
      ultimately show ?thesis using 1(1) [OF i refl] False 1(4,5) i by (auto simp: swap_remove_def)
    qed
  qed
qed

text \<open>No process is registered twice for a page.\<close>

definition registry_ok :: "PidOwnedLockRegistry \<Rightarrow> bool" where
  "registry_ok r \<longleftrightarrow> distinct (map (\<lambda>e. (le_page e, le_pid e)) (lr_inner r))"

definition registered :: "PidOwnedLockRegistry \<Rightarrow> (PageNumber \<times> u32) set" where
  "registered r = (\<lambda>e. (le_page e, le_pid e)) ` set (lr_inner r)"

lemma distinct_count_le_1: "distinct xs \<longleftrightarrow> (\<forall>x. count (mset xs) x \<le> 1)"
proof
  assume "distinct xs" then show "\<forall>x. count (mset xs) x \<le> 1" by (simp add: distinct_count_atmost_1)
next
  assume a: "\<forall>x. count (mset xs) x \<le> 1"
  have "count (mset xs) x = (if x \<in> set xs then 1 else 0)" for x
  proof (cases "x \<in> set xs")
    case True
    then have "0 < count (mset xs) x" by simp
    then have "count (mset xs) x = 1" using a [rule_format, of x] by linarith
    then show ?thesis using True by simp
  qed (simp add: count_eq_zero_iff)
  then show "distinct xs" by (simp add: distinct_count_atmost_1)
qed

lemma distinct_mset_sub:
  assumes "mset ys \<subseteq># mset xs" "distinct (map f xs)"
  shows "distinct (map f ys)"
proof -
  have "count (mset (map f ys)) x \<le> count (mset (map f xs)) x" for x
    using image_mset_subseteq_mono [OF assms(1), of f] by (simp add: subseteq_mset_def)
  then show ?thesis using assms(2) unfolding distinct_count_le_1 by (meson le_trans)
qed

lemma position_spec:
  "(case position P xs of None \<Rightarrow> \<forall>x \<in> set xs. \<not> P x | Some i \<Rightarrow> i < length xs \<and> P (xs ! i))"
  by (induction xs) (auto split: option.splits)

lemma find_snoc: "find P xs = None \<Longrightarrow> find P (xs @ [x]) = (if P x then Some x else None)"
  by (induction xs) (auto split: if_splits)

lemma register_spec:
  assumes "registry_ok r" "register page pid r = (s, r1)"
  shows "registry_ok r1 \<and> registered r1 = insert (page, pid) (registered r) \<and> register page pid r1 = (s, r1)"
proof (cases "find (\<lambda>e. le_page e = page \<and> le_pid e = pid) (lr_inner r)")
  case None
  then have "\<forall>e \<in> set (lr_inner r). \<not> (le_page e = page \<and> le_pid e = pid)" by (simp add: find_None_iff)
  then show ?thesis using assms None find_snoc [OF None]
    by (auto simp: register_def next_sequence_def registry_ok_def registered_def Let_def)
next
  case (Some e)
  then have "e \<in> set (lr_inner r)" "le_page e = page" "le_pid e = pid" by (auto simp: find_Some_iff)
  then show ?thesis using assms Some by (auto simp: register_def registered_def image_iff)
qed

lemma deregister_spec:
  assumes "registry_ok r" "deregister page pid r = (found, r2)"
  shows "registry_ok r2 \<and> registered r2 = registered r - {(page, pid)} \<and> (found \<longleftrightarrow> (page, pid) \<in> registered r)"
proof (cases "position (\<lambda>e. le_page e = page \<and> le_pid e = pid) (lr_inner r)")
  case None
  then have "(page, pid) \<notin> registered r"
    using position_spec [where P = "\<lambda>e. le_page e = page \<and> le_pid e = pid" and xs = "lr_inner r"] by (auto simp: registered_def)
  then show ?thesis using assms None by (simp add: deregister_def)
next
  case (Some i)
  let ?xs = "lr_inner r" and ?ys = "swap_remove i (lr_inner r)" and ?k = "\<lambda>e. (le_page e, le_pid e)"
  have i: "i < length ?xs" "?k (?xs ! i) = (page, pid)"
    using position_spec [where P = "\<lambda>e. le_page e = page \<and> le_pid e = pid" and xs = "lr_inner r"] Some by auto
  have m: "mset (map ?k ?xs) = add_mset (page, pid) (mset (map ?k ?ys))" using mset_swap_remove [OF i(1)] i(2) by simp
  have "registry_ok (r\<lparr>lr_inner := ?ys\<rparr>)"
    using assms(1) distinct_mset_sub [of ?ys ?xs ?k] mset_swap_remove [OF i(1)] by (simp add: registry_ok_def)
  moreover have "(page, pid) \<notin> set (map ?k ?ys)"
  proof
    assume "(page, pid) \<in> set (map ?k ?ys)"
    then have "0 < count (mset (map ?k ?ys)) (page, pid)" by (simp only: count_greater_zero_iff set_mset_mset)
    then have "2 \<le> count (mset (map ?k ?xs)) (page, pid)" unfolding m by simp
    moreover have "count (mset (map ?k ?xs)) (page, pid) \<le> 1" using assms(1) unfolding registry_ok_def distinct_count_le_1 by blast
    ultimately show False by simp
  qed
  moreover have "set (map ?k ?xs) = insert (page, pid) (set (map ?k ?ys))"
    using arg_cong [OF m, of set_mset] by (simp only: set_mset_mset set_mset_add_mset_insert)
  ultimately show ?thesis using assms(2) Some by (auto simp: deregister_def registered_def)
qed

lemma filter_mset_split:
  assumes "a + b = c" "\<forall>x \<in># a. \<not> P x" "\<forall>x \<in># b. P x"
  shows "a = filter_mset (\<lambda>x. \<not> P x) c" "b = filter_mset P c"
proof -
  have "filter_mset (\<lambda>x. \<not> P x) a = a" "filter_mset P a = {#}" "filter_mset P b = b" "filter_mset (\<lambda>x. \<not> P x) b = {#}"
    using assms(2,3) by (auto simp: multiset_eq_iff count_eq_zero_iff)
  then show "a = filter_mset (\<lambda>x. \<not> P x) c" "b = filter_mset P c" using assms(1) by auto
qed

lemma release_spec:
  assumes "registry_ok r" "release_dead_pid_locks is_alive r = (released, r3)"
  shows "registry_ok r3 \<and> mset released = filter_mset (\<lambda>e. \<not> is_alive (le_pid e)) (mset (lr_inner r)) \<and>
    mset (lr_inner r3) = filter_mset (\<lambda>e. is_alive (le_pid e)) (mset (lr_inner r))"
proof -
  obtain rest where l: "release_loop is_alive 0 (lr_inner r) [] = (released, rest)" "r3 = r\<lparr>lr_inner := rest\<rparr>"
    using assms(2) by (auto simp: release_dead_pid_locks_def split: prod.splits)
  have s: "mset released + mset rest = mset (lr_inner r)" "\<forall>e \<in># mset released. \<not> is_alive (le_pid e)" "\<forall>e \<in># mset rest. is_alive (le_pid e)"
    using release_loop_spec [OF l(1)] by simp_all
  have "registry_ok r3"
    using assms(1) l(2) distinct_mset_sub [of rest "lr_inner r"] s(1) [symmetric] by (simp add: registry_ok_def)
  then show ?thesis using filter_mset_split [OF s] l(2) by simp
qed

section \<open>Properties\<close>

text \<open>C20: Recovery is exclusive.  Whatever the interleaving of the atomic operations of any number of
  threads, at most one of them holds the fence or is in the middle of dropping it, the flag is set
  exactly while there is one, and an attempt to take the fence succeeds exactly if there is none.\<close>

theorem recovery_fence_exclusive:
  assumes "fence_reachable (fence, pc)"
  shows "(\<forall>t u. pc t \<noteq> Outside \<and> pc u \<noteq> Outside \<longrightarrow> t = u) \<and>
    (is_recovery_in_progress fence \<longleftrightarrow> (\<exists>t. pc t \<noteq> Outside)) \<and>
    (fst (try_acquire_for_recovery fence) \<longleftrightarrow> (\<forall>t. pc t = Outside))"
proof -
  have "fence_inv (fence, pc)" using assms by (rule fence_reachable_inv)
  then show ?thesis by (simp add: fence_inv_def is_recovery_in_progress_def try_acquire_for_recovery_def)
qed

theorem recovery_fence_exclusive_witness:
  "\<exists>fence pc. fence_reachable (fence, pc) \<and> pc 1 = Dropping \<and> is_recovery_in_progress fence \<and> \<not> fst (try_acquire_for_recovery fence)"
proof -
  let ?f = "fence_new\<lparr>rf_in_progress := True\<rparr>" and ?pc = "(\<lambda>_. Outside)(1 := Holding)"
  have "fence_step (fence_new, \<lambda>_. Outside) (?f, ?pc)"
    by (rule fence_step.acquire) (simp_all add: try_acquire_for_recovery_def fence_new_def)
  then have "fence_reachable (?f, ?pc)" by (rule fence_reachable.step [OF fence_reachable.init])
  moreover have "fence_step (?f, ?pc) (drop_bump ?f, ?pc(1 := Dropping))" by (rule fence_step.bump) simp
  ultimately have r: "fence_reachable (drop_bump ?f, ?pc(1 := Dropping))" by (rule fence_reachable.step)
  note p = recovery_fence_exclusive [OF r]
  have "\<exists>t. (?pc(1 := Dropping)) t \<noteq> Outside" by (rule exI [of _ 1]) simp
  then have "is_recovery_in_progress (drop_bump ?f)" "\<not> fst (try_acquire_for_recovery (drop_bump ?f))" using p by blast+
  then show ?thesis using r by (intro exI [of _ "drop_bump ?f"] exI [of _ "?pc(1 := Dropping)"]) simp
qed

text \<open>Waiting for the fence is bounded and misses no chance.  The wait takes the fence at the first
  probe that finds it free and gives up only if none of the \<open>4096 + max_retries + 1\<close> probes did; it
  sleeps at most \<open>max_retries\<close> times, and not at all when the fence becomes free while it spins.\<close>

theorem recovery_wait_bounded:
  "(case fst (acquire_for_recovery_with free max_retries) of
      Some k \<Rightarrow> k < 4096 + max_retries + 1 \<and> free k \<and> (\<forall>i<k. \<not> free i)
    | None \<Rightarrow> \<forall>i < 4096 + max_retries + 1. \<not> free i) \<and>
   snd (acquire_for_recovery_with free max_retries) \<le> max_retries \<and>
   ((\<exists>i<4096. free i) \<longrightarrow> snd (acquire_for_recovery_with free max_retries) = 0)"
proof (cases "spin_loop free 4096 0")
  case (Some k)
  then have "acquire_for_recovery_with free max_retries = (Some k, 0)"
    by (simp add: acquire_for_recovery_with_def RECOVERY_FENCE_SPIN_ATTEMPTS_def)
  then show ?thesis using spin_loop_spec [where free = free and n = 4096 and k = 0] Some by simp
next
  case None
  then have n: "\<forall>i<4096. \<not> free i" using spin_loop_spec [where free = free and n = 4096 and k = 0] by simp
  have a: "acquire_for_recovery_with free max_retries = backoff_loop free max_retries 4096 0"
    using None by (simp only: acquire_for_recovery_with_def RECOVERY_FENCE_SPIN_ATTEMPTS_def option.case)
  note b = backoff_loop_spin [of free max_retries 4096 0] and c = spin_loop_spec [where free = free and n = "Suc max_retries" and k = 4096]
  have "i < 4096 \<or> 4096 \<le> i" for i :: nat by linarith
  then show ?thesis using n b c unfolding a by (auto split: option.splits simp del: backoff_loop.simps spin_loop.simps)
qed

theorem recovery_wait_bounded_witness:
  "fst (acquire_for_recovery_with (\<lambda>k. k = 4099) 10) = Some 4099 \<and> fst (acquire_for_recovery_with (\<lambda>k. k = 9000) 10) = None"
proof -
  have "fst (acquire_for_recovery_with (\<lambda>k. k = 4099) 10) \<noteq> None" 
  proof
    assume "fst (acquire_for_recovery_with (\<lambda>k. k = 4099) 10) = None"
    then have "\<forall>i<4096 + 10 + 1. i \<noteq> (4099 :: nat)" using recovery_wait_bounded [where free = "\<lambda>k. k = 4099" and max_retries = 10] by simp
    from this [rule_format, of 4099] show False by simp
  qed
  then show ?thesis
    using recovery_wait_bounded [where free = "\<lambda>k. k = 4099" and max_retries = 10] recovery_wait_bounded [where free = "\<lambda>k. k = 9000" and max_retries = 10] by (auto split: option.splits)
qed

text \<open>The lock registry.  A registration makes its page and process registered, once; repeating it
  returns the number of the first.  Removing one keeps all others.  At recovery exactly the entries of
  dead processes are released, each once, and exactly those of living ones stay, although removal
  moves the last entry into the gap while the loop runs.\<close>

theorem lock_registry_correct:
  assumes "registry_ok r"
  shows "(let (s, r1) = register page pid r in registry_ok r1 \<and> registered r1 = insert (page, pid) (registered r) \<and>
      register page pid r1 = (s, r1)) \<and>
    (let (found, r2) = deregister page pid r in registry_ok r2 \<and> registered r2 = registered r - {(page, pid)} \<and>
      (found \<longleftrightarrow> (page, pid) \<in> registered r)) \<and>
    (let (released, r3) = release_dead_pid_locks is_alive r in registry_ok r3 \<and>
      mset released = filter_mset (\<lambda>e. \<not> is_alive (le_pid e)) (mset (lr_inner r)) \<and>
      mset (lr_inner r3) = filter_mset (\<lambda>e. is_alive (le_pid e)) (mset (lr_inner r)))"
proof -
  obtain s r1 found r2 released r3 where e: "register page pid r = (s, r1)" "deregister page pid r = (found, r2)"
    "release_dead_pid_locks is_alive r = (released, r3)" by (metis prod.exhaust)
  show ?thesis unfolding e Let_def prod.case
    using register_spec [OF assms e(1)] deregister_spec [OF assms e(2)] release_spec [OF assms e(3)] by blast
qed

theorem lock_registry_correct_witness:
  "(let r = snd (register 7 1 (snd (register 5 1 (snd (register 5 2 (registry_new 1)))))) in
     registry_ok r \<and> length (lr_inner r) = 3 \<and> mset (fst (release_dead_pid_locks (\<lambda>pid. pid = 2) r)) = mset (tl (lr_inner r)))"
proof -
  let ?r = "snd (register 7 1 (snd (register 5 1 (snd (register 5 2 (registry_new 1))))))"
  have r: "lr_inner ?r = [\<lparr>le_page = 5, le_pid = 2, le_sequence = 1\<rparr>, \<lparr>le_page = 5, le_pid = 1, le_sequence = 2\<rparr>, \<lparr>le_page = 7, le_pid = 1, le_sequence = 3\<rparr>]"
    by (simp add: register_def registry_new_def next_sequence_def)
  have ok: "registry_ok ?r" unfolding registry_ok_def r by simp
  obtain released r3 where rel: "release_dead_pid_locks (\<lambda>pid. pid = 2) ?r = (released, r3)" by fastforce
  have "mset released = mset (tl (lr_inner ?r))"
    using lock_registry_correct [OF ok, of 0 0 "\<lambda>pid. pid = 2"] rel r by (simp add: Let_def)
  then show ?thesis using ok r rel by (simp add: Let_def)
qed

end
