(* ===== verification/PageLocks.thy ===== *)
theory PageLocks
  imports CommitSequencing PageTypes "HOL-Library.AList"
begin

text \<open>
  \<open>InProcessPageLockTable\<close> of \<open>crates/fsqlite-mvcc/src/core_types.rs\<close>: the exclusive page
  locks of the writers of one process.  Pages up to 65536 live in lazily allocated chunks of atomic
  words, larger pages in 64 hashed shards, and a rolling rebuild rotates the shards into a draining
  table.  Every atomic access and every region under one mutex is one step of a function here; a
  hash map is an association list, \<open>thread.unpark()\<close> appends to a trace, and conflict observers
  and tracing are left out.  The build modelled is the default one, without the feature
  \<open>mvcc-flat-combining\<close>.  The locale \<open>exclusive_locks\<close> is the contract its clients rely on.
\<close>

section \<open>The table\<close>

definition LOCK_TABLE_SHARDS :: nat where
  "LOCK_TABLE_SHARDS = 64"

definition FAST_LOCK_ARRAY_SIZE :: nat where
  "FAST_LOCK_ARRAY_SIZE = 65536"

definition FAST_LOCK_CHUNK_SIZE :: nat where
  "FAST_LOCK_CHUNK_SIZE = 1024"

definition FAST_LOCK_CHUNKS :: nat where
  "FAST_LOCK_CHUNKS = FAST_LOCK_ARRAY_SIZE div FAST_LOCK_CHUNK_SIZE"

type_synonym TxnId = u64
type_synonym LockShard = "(PageNumber \<times> TxnId) list"
type_synonym ThreadId = nat

record DrainingState =
  ds_shards :: "LockShard list"
  ds_initial_lock_count :: nat
  ds_rebuild_epoch :: u64

record PageLockTable =
  fast_locks :: "u64 list option list"
  shards :: "LockShard list"
  draining :: "DrainingState option"
  has_draining :: bool
  change_epoch :: u64
  waiter_shards :: "(PageNumber \<times> ThreadId list) list list"
  waiter_count :: u64
  unparked :: "ThreadId list"

definition lock_table_new :: PageLockTable where
  "lock_table_new =
     \<lparr>fast_locks = replicate FAST_LOCK_CHUNKS None, shards = replicate LOCK_TABLE_SHARDS [],
      draining = None, has_draining = False, change_epoch = 0,
      waiter_shards = replicate LOCK_TABLE_SHARDS [], waiter_count = 0, unparked = []\<rparr>"

definition shard_index_static :: "PageNumber \<Rightarrow> nat" where
  "shard_index_static page = unat (and page (word_of_nat (LOCK_TABLE_SHARDS - 1)))"

subsection \<open>Slots of the fast array\<close>

definition slot_of :: "nat \<Rightarrow> nat \<times> nat" where
  "slot_of pgno = ((pgno - 1) div FAST_LOCK_CHUNK_SIZE, (pgno - 1) mod FAST_LOCK_CHUNK_SIZE)"

definition alloc_fast_lock_chunk :: "u64 list" where
  "alloc_fast_lock_chunk = replicate FAST_LOCK_CHUNK_SIZE 0"

definition fast_lock_slot :: "nat \<Rightarrow> PageLockTable \<Rightarrow> (nat \<times> nat) option \<times> PageLockTable" where
  "fast_lock_slot pgno t =
     (if pgno = 0 \<or> pgno > FAST_LOCK_ARRAY_SIZE then (None, t)
      else let (chunk_index, chunk_offset) = slot_of pgno in
        (Some (chunk_index, chunk_offset),
         case fast_locks t ! chunk_index of
           None \<Rightarrow> t\<lparr>fast_locks := (fast_locks t)[chunk_index := Some alloc_fast_lock_chunk]\<rparr>
         | Some chunk \<Rightarrow> t))"

definition fast_lock_slot_if_allocated :: "nat \<Rightarrow> PageLockTable \<Rightarrow> (nat \<times> nat) option" where
  "fast_lock_slot_if_allocated pgno t =
     (if pgno = 0 \<or> pgno > FAST_LOCK_ARRAY_SIZE then None
      else let (chunk_index, chunk_offset) = slot_of pgno in
        map_option (\<lambda>chunk. (chunk_index, chunk_offset)) (fast_locks t ! chunk_index))"

text \<open>The atomic word of a slot whose chunk is allocated.\<close>

definition slot_load :: "nat \<times> nat \<Rightarrow> PageLockTable \<Rightarrow> u64" where
  "slot_load s t = the (fast_locks t ! fst s) ! snd s"

definition slot_store :: "nat \<times> nat \<Rightarrow> u64 \<Rightarrow> PageLockTable \<Rightarrow> PageLockTable" where
  "slot_store s v t =
     t\<lparr>fast_locks := (fast_locks t)[fst s := Some ((the (fast_locks t ! fst s))[snd s := v])]\<rparr>"

section \<open>Waiters\<close>

definition register_waiter :: "PageNumber \<Rightarrow> ThreadId \<Rightarrow> PageLockTable \<Rightarrow> PageLockTable" where
  "register_waiter page thread t =
     (let i = shard_index_static page; m = waiter_shards t ! i;
          queue = (case map_of m page of None \<Rightarrow> [] | Some q \<Rightarrow> q) in
      t\<lparr>waiter_shards := (waiter_shards t)[i := AList.update page (queue @ [thread]) m],
        waiter_count := waiter_count t + 1\<rparr>)"

definition unregister_waiter :: "PageNumber \<Rightarrow> ThreadId \<Rightarrow> PageLockTable \<Rightarrow> PageLockTable" where
  "unregister_waiter page thread t =
     (if waiter_count t = 0 then t
      else let i = shard_index_static page; m = waiter_shards t ! i in
        case map_of m page of
          None \<Rightarrow> t
        | Some queue \<Rightarrow>
            let rest = filter (\<lambda>w. w \<noteq> thread) queue; removed = length queue - length rest;
                m' = (if rest = [] then AList.delete page m else AList.update page rest m) in
            t\<lparr>waiter_shards := (waiter_shards t)[i := m'],
              waiter_count := (if removed > 0 then waiter_count t - word_of_nat removed else waiter_count t)\<rparr>)"

definition notify_waiters_for_page :: "PageNumber \<Rightarrow> PageLockTable \<Rightarrow> PageLockTable" where
  "notify_waiters_for_page page t =
     (let t' =
        (if waiter_count t > 0
         then let i = shard_index_static page; m = waiter_shards t ! i in
           case map_of m page of
             None \<Rightarrow> t
           | Some queue \<Rightarrow>
               t\<lparr>waiter_shards := (waiter_shards t)[i := AList.delete page m],
                 unparked := unparked t @ queue,
                 waiter_count := (if length queue > 0 then waiter_count t - word_of_nat (length queue)
                                  else waiter_count t)\<rparr>
         else t) in
      t'\<lparr>change_epoch := change_epoch t' + 1\<rparr>)"

definition notify_all_waiters :: "PageLockTable \<Rightarrow> PageLockTable" where
  "notify_all_waiters t =
     (let t' =
        (if waiter_count t > 0
         then let drained = concat (map (\<lambda>m. concat (map snd m)) (waiter_shards t)) in
           t\<lparr>waiter_shards := map (\<lambda>m. []) (waiter_shards t), unparked := unparked t @ drained,
             waiter_count := (if length drained > 0 then waiter_count t - word_of_nat (length drained)
                              else waiter_count t)\<rparr>
         else t) in
      t'\<lparr>change_epoch := change_epoch t' + 1\<rparr>)"

section \<open>Acquiring and releasing\<close>

text \<open>A lookup in the draining table, present only while a rebuild runs.\<close>

definition draining_get :: "PageNumber \<Rightarrow> PageLockTable \<Rightarrow> TxnId option" where
  "draining_get page t =
     (if has_draining t
      then case draining t of None \<Rightarrow> None | Some d \<Rightarrow> map_of (ds_shards d ! shard_index_static page) page
      else None)"

text \<open>\<open>Ok(())\<close> is \<^term>\<open>Inr ()\<close> and \<open>Err(holder)\<close> is \<^term>\<open>Inl holder\<close>; \<^const>\<open>None\<close> is a failed \<open>expect\<close>.\<close>

definition try_acquire ::
  "PageNumber \<Rightarrow> TxnId \<Rightarrow> PageLockTable \<Rightarrow> (TxnId + unit) option \<times> PageLockTable" where
  "try_acquire page txn t =
     (let pgno = unat page in
      case (if pgno > FAST_LOCK_ARRAY_SIZE then draining_get page t else None) of
        Some h \<Rightarrow> (Some (if h = txn then Inr () else Inl h), t)
      | None \<Rightarrow>
          if pgno \<le> FAST_LOCK_ARRAY_SIZE
          then case fast_lock_slot pgno t of
              (None, t') \<Rightarrow> (None, t')
            | (Some slot, t') \<Rightarrow>
                (let current = slot_load slot t' in
                 if current = 0 then (Some (Inr ()), slot_store slot txn t')
                 else if current = txn then (Some (Inr ()), t')
                 else (map_option Inl (TxnId_new current), t'))
          else let i = shard_index_static page; m = shards t ! i in
            case map_of m page of
              Some h \<Rightarrow> (Some (if h = txn then Inr () else Inl h), t)
            | None \<Rightarrow> (Some (Inr ()), t\<lparr>shards := (shards t)[i := AList.update page txn m]\<rparr>))"

text \<open>The releases report whether they released; the parts common to \<open>release\<close> and
  \<open>release_set\<close> are the three locations a lock can be in.\<close>

definition release_fast :: "PageNumber \<Rightarrow> TxnId \<Rightarrow> PageLockTable \<Rightarrow> bool \<times> PageLockTable" where
  "release_fast page txn t =
     (case fast_lock_slot_if_allocated (unat page) t of
        None \<Rightarrow> (False, t)
      | Some slot \<Rightarrow> if slot_load slot t = txn then (True, slot_store slot 0 t) else (False, t))"

definition release_sharded :: "PageNumber \<Rightarrow> TxnId \<Rightarrow> PageLockTable \<Rightarrow> bool \<times> PageLockTable" where
  "release_sharded page txn t =
     (let i = shard_index_static page; m = shards t ! i in
      if map_of m page = Some txn then (True, t\<lparr>shards := (shards t)[i := AList.delete page m]\<rparr>)
      else (False, t))"

definition release_draining :: "PageNumber \<Rightarrow> TxnId \<Rightarrow> PageLockTable \<Rightarrow> bool \<times> PageLockTable" where
  "release_draining page txn t =
     (if has_draining t
      then case draining t of
          None \<Rightarrow> (False, t)
        | Some d \<Rightarrow>
            let i = shard_index_static page; m = ds_shards d ! i in
            if map_of m page = Some txn
            then (True, t\<lparr>draining := Some (d\<lparr>ds_shards := (ds_shards d)[i := AList.delete page m]\<rparr>)\<rparr>)
            else (False, t)
      else (False, t))"

definition release_silent :: "PageNumber \<Rightarrow> TxnId \<Rightarrow> PageLockTable \<Rightarrow> bool \<times> PageLockTable" where
  "release_silent page txn t =
     (if unat page \<le> FAST_LOCK_ARRAY_SIZE then release_fast page txn t
      else case release_sharded page txn t of
          (True, t') \<Rightarrow> (True, t')
        | (False, t') \<Rightarrow> release_draining page txn t')"

definition release :: "PageNumber \<Rightarrow> TxnId \<Rightarrow> PageLockTable \<Rightarrow> bool \<times> PageLockTable" where
  "release page txn t =
     (case release_silent page txn t of
        (True, t') \<Rightarrow> (True, notify_waiters_for_page page t')
      | (False, t') \<Rightarrow> (False, t'))"

fun release_pages :: "PageNumber list \<Rightarrow> TxnId \<Rightarrow> bool \<Rightarrow> PageLockTable \<Rightarrow> bool \<times> PageLockTable" where
  "release_pages [] txn released_any t = (released_any, t)"
| "release_pages (page # pages) txn released_any t =
     (case release_silent page txn t of (r, t') \<Rightarrow> release_pages pages txn (released_any \<or> r) t')"

definition release_set :: "PageNumber list \<Rightarrow> TxnId \<Rightarrow> PageLockTable \<Rightarrow> PageLockTable" where
  "release_set pages txn t =
     (case release_pages pages txn False t of
        (released_any, t') \<Rightarrow> if released_any then notify_all_waiters t' else t')"

definition retain_others :: "TxnId \<Rightarrow> LockShard \<Rightarrow> LockShard" where
  "retain_others txn m = filter (\<lambda>(page, v). v \<noteq> txn) m"

definition release_all :: "TxnId \<Rightarrow> PageLockTable \<Rightarrow> PageLockTable" where
  "release_all txn t =
     (let released_fast = list_ex (case_option False (\<lambda>chunk. txn \<in> set chunk)) (fast_locks t);
          shards' = map (retain_others txn) (shards t);
          released_shards = (map length shards' \<noteq> map length (shards t));
          draining' = (if has_draining t
             then map_option (\<lambda>d. d\<lparr>ds_shards := map (retain_others txn) (ds_shards d)\<rparr>) (draining t)
             else draining t);
          released_draining =
            (map_option (map length \<circ> ds_shards) draining' \<noteq> map_option (map length \<circ> ds_shards) (draining t));
          t' = t\<lparr>fast_locks := map (map_option (map (\<lambda>v. if v = txn then 0 else v))) (fast_locks t),
                 shards := shards', draining := draining'\<rparr> in
      if released_fast \<or> released_shards \<or> released_draining then notify_all_waiters t' else t')"

text \<open>The outer \<^const>\<open>None\<close> is a failed \<open>expect\<close>.\<close>

definition holder :: "PageNumber \<Rightarrow> PageLockTable \<Rightarrow> TxnId option option" where
  "holder page t =
     (if unat page \<le> FAST_LOCK_ARRAY_SIZE
      then case fast_lock_slot_if_allocated (unat page) t of
          None \<Rightarrow> Some None
        | Some slot \<Rightarrow>
            (let val = slot_load slot t in if val = 0 then Some None else map_option Some (TxnId_new val))
      else case map_of (shards t ! shard_index_static page) page of
          Some h \<Rightarrow> Some (Some h)
        | None \<Rightarrow> Some (draining_get page t))"

section \<open>Counting\<close>

definition shards_len :: "LockShard list \<Rightarrow> nat" where
  "shards_len ms = sum_list (map length ms)"

definition lock_count :: "PageLockTable \<Rightarrow> nat" where
  "lock_count t =
     sum_list (map (case_option 0 (\<lambda>chunk. length (filter (\<lambda>v. v \<noteq> 0) chunk))) (fast_locks t))
     + shards_len (shards t)"

definition draining_lock_count :: "PageLockTable \<Rightarrow> nat" where
  "draining_lock_count t = (case draining t of Some d \<Rightarrow> shards_len (ds_shards d) | None \<Rightarrow> 0)"

definition total_lock_count :: "PageLockTable \<Rightarrow> nat" where
  "total_lock_count t = lock_count t + draining_lock_count t"

definition is_rebuild_in_progress :: "PageLockTable \<Rightarrow> bool" where
  "is_rebuild_in_progress t = (draining t \<noteq> None)"

section \<open>The rolling rebuild\<close>

datatype RebuildError = AlreadyInProgress | DrainNotComplete nat

record RebuildResult =
  rb_orphaned_cleaned :: nat
  rb_retained :: nat
  rb_rebuild_epoch :: u64

record DrainProgress =
  dp_remaining :: nat
  dp_quiescent :: bool

datatype DrainResult =
    Quiescent (dr_cleaned: nat) (dr_elapsed_ms: nat)
  | TimedOut (dr_remaining: nat) (dr_cleaned: nat) (dr_elapsed_ms: nat)

definition begin_rebuild :: "PageLockTable \<Rightarrow> (RebuildError + u64) \<times> PageLockTable" where
  "begin_rebuild t =
     (if draining t \<noteq> None then (Inl AlreadyInProgress, t)
      else (Inr 1,
        t\<lparr>shards := replicate LOCK_TABLE_SHARDS [],
          draining := Some \<lparr>ds_shards = shards t, ds_initial_lock_count = shards_len (shards t),
                            ds_rebuild_epoch = 1\<rparr>,
          has_draining := True\<rparr>))"

definition drain_progress :: "PageLockTable \<Rightarrow> DrainProgress option" where
  "drain_progress t =
     map_option (\<lambda>d. \<lparr>dp_remaining = shards_len (ds_shards d), dp_quiescent = (shards_len (ds_shards d) = 0)\<rparr>)
       (draining t)"

definition drain_orphaned ::
  "(TxnId \<Rightarrow> bool) \<Rightarrow> PageLockTable \<Rightarrow> RebuildResult option \<times> PageLockTable" where
  "drain_orphaned is_active_txn t =
     (case draining t of
        None \<Rightarrow> (None, t)
      | Some d \<Rightarrow>
          let ms = map (filter (\<lambda>(page, txn_id). is_active_txn txn_id)) (ds_shards d);
              total_cleaned = shards_len (ds_shards d) - shards_len ms;
              t' = t\<lparr>draining := Some (d\<lparr>ds_shards := ms\<rparr>)\<rparr> in
          (Some \<lparr>rb_orphaned_cleaned = total_cleaned, rb_retained = shards_len ms,
                 rb_rebuild_epoch = ds_rebuild_epoch d\<rparr>,
           if total_cleaned > 0 then notify_all_waiters t' else t'))"

definition finalize_rebuild :: "PageLockTable \<Rightarrow> (RebuildError + RebuildResult) \<times> PageLockTable" where
  "finalize_rebuild t =
     (case draining t of
        None \<Rightarrow> (Inr \<lparr>rb_orphaned_cleaned = 0, rb_retained = 0, rb_rebuild_epoch = 0\<rparr>, t)
      | Some d \<Rightarrow>
          if shards_len (ds_shards d) > 0 then (Inl (DrainNotComplete (shards_len (ds_shards d))), t)
          else (Inr \<lparr>rb_orphaned_cleaned = ds_initial_lock_count d, rb_retained = 0,
                     rb_rebuild_epoch = ds_rebuild_epoch d\<rparr>,
                t\<lparr>draining := None, has_draining := False\<rparr>))"

text \<open>The predicate of \<open>full_rebuild\<close> is consulted once per pass; its answers may change from
  pass to pass, so it is indexed by the pass.\<close>

definition clean_fast :: "(TxnId \<Rightarrow> bool) \<Rightarrow> PageLockTable \<Rightarrow> PageLockTable" where
  "clean_fast is_active_txn t =
     t\<lparr>fast_locks := map (map_option (map (\<lambda>raw.
         if raw \<noteq> 0
         then case TxnId_new raw of None \<Rightarrow> raw | Some h \<Rightarrow> if \<not> is_active_txn h then 0 else raw
         else raw))) (fast_locks t)\<rparr>"

fun rebuild_loop ::
  "(nat \<Rightarrow> TxnId \<Rightarrow> bool) \<Rightarrow> nat \<Rightarrow> nat \<Rightarrow> nat \<Rightarrow> nat \<Rightarrow> PageLockTable \<Rightarrow> DrainResult \<times> PageLockTable" where
  "rebuild_loop act pass elapsed_ms remaining_budget_ms total_cleaned t =
     (case drain_orphaned (act pass) t of
        (result, t') \<Rightarrow>
          let cleaned = total_cleaned + (case result of None \<Rightarrow> 0 | Some r \<Rightarrow> rb_orphaned_cleaned r) in
          case drain_progress t' of
            None \<Rightarrow> (Quiescent cleaned elapsed_ms, t')
          | Some progress \<Rightarrow>
              if dp_quiescent progress then (Quiescent cleaned elapsed_ms, snd (finalize_rebuild t'))
              else if remaining_budget_ms = 0 then (TimedOut (dp_remaining progress) cleaned elapsed_ms, t')
              else rebuild_loop act (Suc pass) (min (elapsed_ms + 1) (2 ^ 64 - 1)) (remaining_budget_ms - 1) cleaned t')"

definition full_rebuild ::
  "(nat \<Rightarrow> TxnId \<Rightarrow> bool) \<Rightarrow> nat \<Rightarrow> PageLockTable \<Rightarrow> (RebuildError + DrainResult) \<times> PageLockTable" where
  "full_rebuild act timeout_ms t =
     (case begin_rebuild (clean_fast (act 0) t) of
        (Inl e, t') \<Rightarrow> (Inl e, t')
      | (Inr epoch, t') \<Rightarrow>
          map_prod Inr id (rebuild_loop act 1 0 (min timeout_ms (2 ^ 64 - 1)) 0 t'))"

section \<open>The lock map and the invariant of the table\<close>

text \<open>The abstract state: which transaction holds which page.\<close>

definition fast_word :: "nat \<Rightarrow> PageLockTable \<Rightarrow> u64" where
  "fast_word pgno t =
     (case fast_locks t ! fst (slot_of pgno) of None \<Rightarrow> 0 | Some chunk \<Rightarrow> chunk ! snd (slot_of pgno))"

definition lock_of :: "PageLockTable \<Rightarrow> PageNumber \<rightharpoonup> TxnId" where
  "lock_of t page =
     (if page = 0 then None
      else if unat page \<le> FAST_LOCK_ARRAY_SIZE
      then (if fast_word (unat page) t = 0 then None else Some (fast_word (unat page) t))
      else case map_of (shards t ! shard_index_static page) page of
          Some h \<Rightarrow> Some h
        | None \<Rightarrow> draining_get page t)"

definition valid_txn :: "TxnId \<Rightarrow> bool" where
  "valid_txn txn = (TxnId_new txn = Some txn)"

definition shard_ok :: "nat \<Rightarrow> LockShard \<Rightarrow> bool" where
  "shard_ok i m =
     (distinct (map fst m) \<and>
      (\<forall>(page, h) \<in> set m. unat page > FAST_LOCK_ARRAY_SIZE \<and> shard_index_static page = i \<and> valid_txn h))"

definition chunk_ok :: "u64 list option \<Rightarrow> bool" where
  "chunk_ok chunk =
     (case chunk of None \<Rightarrow> True
      | Some c \<Rightarrow> length c = FAST_LOCK_CHUNK_SIZE \<and> (\<forall>v \<in> set c. v = 0 \<or> valid_txn v))"

definition shards_ok :: "LockShard list \<Rightarrow> bool" where
  "shards_ok ms = (length ms = LOCK_TABLE_SHARDS \<and> (\<forall>i < LOCK_TABLE_SHARDS. shard_ok i (ms ! i)))"

definition lock_inv :: "PageLockTable \<Rightarrow> bool" where
  "lock_inv t =
     (length (fast_locks t) = FAST_LOCK_CHUNKS \<and> (\<forall>chunk \<in> set (fast_locks t). chunk_ok chunk) \<and>
      shards_ok (shards t) \<and> has_draining t = (draining t \<noteq> None) \<and>
      (case draining t of None \<Rightarrow> True
       | Some d \<Rightarrow> shards_ok (ds_shards d) \<and>
           (\<forall>i < LOCK_TABLE_SHARDS. fst ` set (shards t ! i) \<inter> fst ` set (ds_shards d ! i) = {})))"

section \<open>Slots and shards\<close>

lemmas lock_consts [simp] =
  LOCK_TABLE_SHARDS_def FAST_LOCK_ARRAY_SIZE_def FAST_LOCK_CHUNK_SIZE_def FAST_LOCK_CHUNKS_def

lemma shard_index_less: "shard_index_static page < 64"
proof -
  have "and page 63 \<le> (63 :: u32)" by (rule word_and_le1)
  then have "unat (and page 63) \<le> unat (63 :: u32)" by (simp only: word_le_nat_alt)
  then show ?thesis by (simp add: shard_index_static_def)
qed

lemma slot_of_bounds:
  "0 < n \<Longrightarrow> n \<le> 65536 \<Longrightarrow> fst (slot_of n) < 64 \<and> snd (slot_of n) < 1024"
  by (simp add: slot_of_def)

lemma slot_of_inject:
  assumes "0 < m" "0 < n" "slot_of m = slot_of n"
  shows "m = n"
proof -
  have "(m - 1) div 1024 = (n - 1) div 1024" "(m - 1) mod 1024 = (n - 1) mod 1024"
    using assms(3) by (auto simp: slot_of_def)
  then have "m - 1 = n - 1" by (metis div_mult_mod_eq)
  then show ?thesis using assms by simp
qed

lemma lock_invD:
  assumes "lock_inv t"
  shows "length (fast_locks t) = 64" "i < 64 \<Longrightarrow> chunk_ok (fast_locks t ! i)"
    "length (shards t) = 64" "i < 64 \<Longrightarrow> shard_ok i (shards t ! i)"
    "has_draining t = (draining t \<noteq> None)"
    "draining t = Some d \<Longrightarrow> length (ds_shards d) = 64"
    "draining t = Some d \<Longrightarrow> i < 64 \<Longrightarrow> shard_ok i (ds_shards d ! i)"
    "draining t = Some d \<Longrightarrow> i < 64 \<Longrightarrow> fst ` set (shards t ! i) \<inter> fst ` set (ds_shards d ! i) = {}"
  using assms by (auto simp: lock_inv_def shards_ok_def)

lemma chunk_okD:
  "chunk_ok (Some c) \<Longrightarrow> length c = 1024" "chunk_ok (Some c) \<Longrightarrow> v \<in> set c \<Longrightarrow> v = 0 \<or> valid_txn v"
  by (auto simp: chunk_ok_def)

lemma valid_txn_simps: "\<not> valid_txn 0" "valid_txn v \<Longrightarrow> TxnId_new v = Some v" "valid_txn v \<Longrightarrow> v \<noteq> 0"
  by (auto simp: valid_txn_def TxnId_new_def)

lemma fast_word_valid:
  assumes "lock_inv t" "0 < n" "n \<le> 65536"
  shows "fast_word n t = 0 \<or> valid_txn (fast_word n t)"
proof (cases "fast_locks t ! fst (slot_of n)")
  case None
  then show ?thesis by (simp add: fast_word_def)
next
  case (Some c)
  then have "chunk_ok (Some c)" using lock_invD(2) [OF assms(1)] slot_of_bounds [OF assms(2,3)] by metis
  then show ?thesis
    using Some chunk_okD(2) [of c "c ! snd (slot_of n)"] chunk_okD(1) [of c] slot_of_bounds [OF assms(2,3)]
    by (simp add: fast_word_def)
qed

text \<open>A map of shards whose entries sit in the shard of their page.\<close>

lemma set_alist_update: "set (AList.update k v m) \<subseteq> insert (k, v) (set m)"
  by (induction m) auto

lemma shard_ok_update:
  "shard_ok i m \<Longrightarrow> shard_index_static page = i \<Longrightarrow> 65536 < unat page \<Longrightarrow> valid_txn txn \<Longrightarrow>
   shard_ok i (AList.update page txn m)"
  using set_alist_update [of page txn m] by (auto simp: shard_ok_def distinct_update)

lemma shard_ok_filter: "shard_ok i m \<Longrightarrow> shard_ok i (filter P m)"
  by (auto simp: shard_ok_def intro: distinct_map_filter)

lemma shard_ok_delete: "shard_ok i m \<Longrightarrow> shard_ok i (AList.delete page m)"
  by (simp add: AList.delete_eq shard_ok_filter)

lemma map_of_filter_snd:
  assumes "distinct (map fst m)"
  shows "map_of (filter (\<lambda>(k, v). P v) m) k =
    (case map_of m k of None \<Rightarrow> None | Some v \<Rightarrow> if P v then Some v else None)"
  using assms
proof (induction m)
  case (Cons kv m)
  then show ?case
    by (cases kv) (auto split: option.splits simp: map_of_eq_None_iff)
qed simp

lemma map_of_delete_shard: "map_of (AList.delete page m) = (map_of m)(page := None)"
  by (rule delete_conv')

lemma map_of_shard_Some:
  "shard_ok i m \<Longrightarrow> map_of m page = Some h \<Longrightarrow> 65536 < unat page \<and> shard_index_static page = i \<and> valid_txn h"
  by (auto simp: shard_ok_def dest!: map_of_SomeD)

section \<open>What each operation does to the lock map\<close>

lemma notify_fields [simp]:
  "fast_locks (notify_waiters_for_page page t) = fast_locks t" "shards (notify_waiters_for_page page t) = shards t"
  "draining (notify_waiters_for_page page t) = draining t"
  "has_draining (notify_waiters_for_page page t) = has_draining t"
  "fast_locks (notify_all_waiters t) = fast_locks t" "shards (notify_all_waiters t) = shards t"
  "draining (notify_all_waiters t) = draining t" "has_draining (notify_all_waiters t) = has_draining t"
  "fast_locks (register_waiter page th t) = fast_locks t" "shards (register_waiter page th t) = shards t"
  "draining (register_waiter page th t) = draining t" "has_draining (register_waiter page th t) = has_draining t"
  "fast_locks (unregister_waiter page th t) = fast_locks t" "shards (unregister_waiter page th t) = shards t"
  "draining (unregister_waiter page th t) = draining t" "has_draining (unregister_waiter page th t) = has_draining t"
  by (auto simp: notify_waiters_for_page_def notify_all_waiters_def register_waiter_def
      unregister_waiter_def Let_def split: option.splits)

lemma lock_of_fields:
  "fast_locks t = fast_locks u \<Longrightarrow> shards t = shards u \<Longrightarrow> draining t = draining u \<Longrightarrow>
   has_draining t = has_draining u \<Longrightarrow> lock_of t = lock_of u"
  by (rule ext) (simp add: lock_of_def fast_word_def draining_get_def cong: option.case_cong)

lemma lock_inv_fields:
  "fast_locks t = fast_locks u \<Longrightarrow> shards t = shards u \<Longrightarrow> draining t = draining u \<Longrightarrow>
   has_draining t = has_draining u \<Longrightarrow> lock_inv t = lock_inv u"
  by (simp add: lock_inv_def cong: option.case_cong)

lemma lock_of_notify [simp]:
  "lock_of (notify_waiters_for_page page t) = lock_of t" "lock_of (notify_all_waiters t) = lock_of t"
  "lock_of (register_waiter page th t) = lock_of t" "lock_of (unregister_waiter page th t) = lock_of t"
  by (rule lock_of_fields; simp)+

lemma lock_inv_notify [simp]:
  "lock_inv (notify_waiters_for_page page t) = lock_inv t" "lock_inv (notify_all_waiters t) = lock_inv t"
  "lock_inv (register_waiter page th t) = lock_inv t" "lock_inv (unregister_waiter page th t) = lock_inv t"
  by (rule lock_inv_fields; simp)+

text \<open>Updates of one location.\<close>

lemma fast_word_store:
  assumes "lock_inv t" "0 < n" "n \<le> 65536" "fast_locks t ! fst (slot_of n) = Some c" "0 < m"
  shows "fast_word m (slot_store (slot_of n) v t) = (if m = n then v else fast_word m t)"
proof -
  have len: "length c = 1024" "fst (slot_of n) < length (fast_locks t)" "snd (slot_of n) < length c"
    using lock_invD(1) [OF assms(1)] lock_invD(2) [OF assms(1), of "fst (slot_of n)"]
      slot_of_bounds [OF assms(2,3)] assms(4) chunk_okD(1) by auto
  show ?thesis
  proof (cases "m = n")
    case True
    then show ?thesis using len assms(4) by (simp add: fast_word_def slot_store_def)
  next
    case False
    then have "slot_of m \<noteq> slot_of n" using slot_of_inject assms by blast
    then have "fst (slot_of m) \<noteq> fst (slot_of n) \<or> snd (slot_of m) \<noteq> snd (slot_of n)"
      by (auto simp: prod_eq_iff)
    then show ?thesis using len assms(4) False
      by (auto simp: fast_word_def slot_store_def nth_list_update)
  qed
qed

lemma lock_inv_fast:
  assumes "lock_inv t" "length fl = 64" "\<And>chunk. chunk \<in> set fl \<Longrightarrow> chunk_ok chunk"
  shows "lock_inv (t\<lparr>fast_locks := fl\<rparr>)"
  using assms by (simp add: lock_inv_def cong: option.case_cong)

lemma lock_inv_store:
  assumes "lock_inv t" "0 < n" "n \<le> 65536" "fast_locks t ! fst (slot_of n) = Some c" "v = 0 \<or> valid_txn v"
  shows "lock_inv (slot_store (slot_of n) v t)"
proof -
  have "chunk_ok (Some c)" using lock_invD(2) [OF assms(1), of "fst (slot_of n)"] slot_of_bounds [OF assms(2,3)] assms(4) by simp
  then have "chunk_ok (Some (c[snd (slot_of n) := v]))"
    using assms(5) set_update_subset_insert [of c "snd (slot_of n)" v] by (auto simp: chunk_ok_def)
  then show ?thesis unfolding slot_store_def assms(4) option.sel
    using assms(1) set_update_subset_insert [of "fast_locks t" "fst (slot_of n)" "Some (c[snd (slot_of n) := v])"]
    by (intro lock_inv_fast) (auto simp: lock_inv_def)
qed

lemma lock_of_store:
  assumes "lock_inv t" "page \<noteq> 0" "unat page \<le> 65536" "fast_locks t ! fst (slot_of (unat page)) = Some c"
  shows "lock_of (slot_store (slot_of (unat page)) v t) = (lock_of t)(page := if v = 0 then None else Some v)"
proof (rule ext)
  fix q :: PageNumber
  have *: "0 < unat page" "q \<noteq> 0 \<Longrightarrow> 0 < unat q" using assms(2) by (auto simp: unat_gt_0)
  have "q \<noteq> 0 \<Longrightarrow> fast_word (unat q) (slot_store (slot_of (unat page)) v t) = (if q = page then v else fast_word (unat q) t)"
    using fast_word_store [OF assms(1) *(1) assms(3,4) *(2), of v] by (simp add: word_unat_eq_iff)
  then show "lock_of (slot_store (slot_of (unat page)) v t) q = ((lock_of t)(page := if v = 0 then None else Some v)) q"
    using assms(2,3) by (auto simp: lock_of_def slot_store_def draining_get_def split: option.split)
qed

text \<open>Allocating a chunk changes no lock.\<close>

lemma fast_lock_slot_spec:
  assumes "lock_inv t" "page \<noteq> 0" "unat page \<le> 65536"
  shows "\<exists>t' c. fast_lock_slot (unat page) t = (Some (slot_of (unat page)), t') \<and> lock_inv t' \<and>
    lock_of t' = lock_of t \<and> fast_locks t' ! fst (slot_of (unat page)) = Some c \<and>
    slot_load (slot_of (unat page)) t' = fast_word (unat page) t"
proof -
  let ?s = "slot_of (unat page)"
  have pos: "0 < unat page" using assms(2) by (simp add: unat_gt_0)
  note b = slot_of_bounds [OF pos assms(3)]
  show ?thesis
  proof (cases "fast_locks t ! fst ?s")
    case (Some c)
    then have "fast_lock_slot (unat page) t = (Some ?s, t)"
      using pos assms(3) by (cases ?s) (simp add: fast_lock_slot_def)
    then show ?thesis using assms(1) Some by (simp add: slot_load_def fast_word_def)
  next
    case None
    define t' where "t' = t\<lparr>fast_locks := (fast_locks t)[fst ?s := Some alloc_fast_lock_chunk]\<rparr>"
    have fl: "fast_lock_slot (unat page) t = (Some ?s, t')"
      using pos assms(3) None by (cases ?s) (simp add: fast_lock_slot_def t'_def)
    have "chunk_ok (Some alloc_fast_lock_chunk)" by (simp add: chunk_ok_def alloc_fast_lock_chunk_def)
    then have inv: "lock_inv t'" unfolding t'_def
      using assms(1) set_update_subset_insert [of "fast_locks t" "fst ?s" "Some alloc_fast_lock_chunk"]
      by (intro lock_inv_fast) (auto simp: lock_inv_def)
    have fw: "0 < n \<Longrightarrow> n \<le> 65536 \<Longrightarrow> fast_word n t' = fast_word n t" for n
      using None b slot_of_bounds [of n] lock_invD(1) [OF assms(1)]
      by (cases "fst (slot_of n) = fst ?s") (auto simp: fast_word_def t'_def alloc_fast_lock_chunk_def)
    have lk: "lock_of t' = lock_of t"
    proof (rule ext)
      fix q
      show "lock_of t' q = lock_of t q"
        using fw [of "unat q"] by (auto simp: lock_of_def t'_def draining_get_def unat_gt_0 split: option.split)
    qed
    show ?thesis using fl inv lk fw [OF pos assms(3)] b lock_invD(1) [OF assms(1)]
      by (auto simp: t'_def slot_load_def fast_word_def)
  qed
qed

lemma lock_of_fast: "page \<noteq> 0 \<Longrightarrow> unat page \<le> 65536 \<Longrightarrow>
   lock_of t page = (if fast_word (unat page) t = 0 then None else Some (fast_word (unat page) t))"
  by (simp add: lock_of_def)

lemma large_page_nonzero: "65536 < unat page \<Longrightarrow> page \<noteq> (0 :: u32)"
  by auto

lemma lock_of_large: "65536 < unat page \<Longrightarrow>
   lock_of t page = (case map_of (shards t ! shard_index_static page) page of
      Some h \<Rightarrow> Some h | None \<Rightarrow> draining_get page t)"
  using large_page_nonzero [of page] by (simp add: lock_of_def)

text \<open>Replacing one active shard.\<close>

lemma lock_of_shards_update:
  assumes "lock_inv t" "65536 < unat page" "i = shard_index_static page"
    and "\<And>q. q \<noteq> page \<Longrightarrow> map_of m q = map_of (shards t ! i) q"
  shows "lock_of (t\<lparr>shards := (shards t)[i := m]\<rparr>) =
    (lock_of t)(page := (case map_of m page of Some h \<Rightarrow> Some h | None \<Rightarrow> draining_get page t))"
proof (rule ext)
  fix q
  have "shard_index_static q < length (shards t)" "i < length (shards t)"
    using lock_invD(3) [OF assms(1)] shard_index_less assms(3) by auto
  then show "lock_of (t\<lparr>shards := (shards t)[i := m]\<rparr>) q =
      ((lock_of t)(page := (case map_of m page of Some h \<Rightarrow> Some h | None \<Rightarrow> draining_get page t))) q"
    using assms(2,3) assms(4) [of q] large_page_nonzero [of page]
    by (auto simp: lock_of_def fast_word_def draining_get_def nth_list_update split: option.split)
qed

lemma lock_inv_shards_update:
  assumes "lock_inv t" "i < 64" "shard_ok i m"
    and "\<And>d. draining t = Some d \<Longrightarrow> fst ` set m \<inter> fst ` set (ds_shards d ! i) = {}"
  shows "lock_inv (t\<lparr>shards := (shards t)[i := m]\<rparr>)"
  using assms by (auto simp: lock_inv_def shards_ok_def nth_list_update split: option.splits)

lemma lock_of_draining_update:
  assumes "lock_inv t" "draining t = Some d" "65536 < unat page" "i = shard_index_static page"
    and "map_of (shards t ! i) page = None"
    and "\<And>q. q \<noteq> page \<Longrightarrow> map_of m q = map_of (ds_shards d ! i) q"
  shows "lock_of (t\<lparr>draining := Some (d\<lparr>ds_shards := (ds_shards d)[i := m]\<rparr>)\<rparr>) = (lock_of t)(page := map_of m page)"
proof (rule ext)
  fix q
  have "shard_index_static q < length (ds_shards d)" "i < length (ds_shards d)"
    using lock_invD(6) [OF assms(1,2)] shard_index_less assms(4) by auto
  then show "lock_of (t\<lparr>draining := Some (d\<lparr>ds_shards := (ds_shards d)[i := m]\<rparr>)\<rparr>) q = ((lock_of t)(page := map_of m page)) q"
    using assms(2-5) assms(6) [of q] large_page_nonzero [of page] lock_invD(5) [OF assms(1)]
    by (auto simp: lock_of_def fast_word_def draining_get_def nth_list_update split: option.split)
qed

lemma lock_inv_draining_update:
  assumes "lock_inv t" "draining t = Some d" "i < 64" "shard_ok i m"
    and "fst ` set m \<subseteq> fst ` set (ds_shards d ! i)"
  shows "lock_inv (t\<lparr>draining := Some (d\<lparr>ds_shards := (ds_shards d)[i := m]\<rparr>)\<rparr>)"
proof -
  have "fst ` set (shards t ! k) \<inter> fst ` set ((ds_shards d)[i := m] ! k) = {}" if "k < 64" for k
    using lock_invD(8) [OF assms(1,2) that] lock_invD(6) [OF assms(1,2)] assms(3,5)
    by (cases "k = i") (simp, blast, simp)
  moreover have "shards_ok ((ds_shards d)[i := m])"
    using lock_invD(6,7) [OF assms(1,2)] assms(3,4) by (auto simp: shards_ok_def nth_list_update)
  ultimately show ?thesis using assms(1,2) by (simp add: lock_inv_def)
qed

subsection \<open>Acquiring\<close>

lemma draining_getD:
  assumes "draining_get page t = Some h"
  shows "\<exists>d. draining t = Some d \<and> map_of (ds_shards d ! shard_index_static page) page = Some h"
  using assms by (auto simp: draining_get_def split: if_splits option.splits)

lemma draining_get_valid:
  "lock_inv t \<Longrightarrow> draining_get page t = Some h \<Longrightarrow> valid_txn h"
  using draining_getD lock_invD(7) [OF _ _ shard_index_less] map_of_shard_Some by metis

lemma draining_get_not_active:
  assumes "lock_inv t" "draining_get page t = Some h"
  shows "map_of (shards t ! shard_index_static page) page = None"
proof -
  obtain d where d: "draining t = Some d" "map_of (ds_shards d ! shard_index_static page) page = Some h"
    using draining_getD [OF assms(2)] by blast
  then have "page \<in> fst ` set (ds_shards d ! shard_index_static page)"
    by (metis map_of_eq_None_iff option.distinct(1))
  then show ?thesis
    using lock_invD(8) [OF assms(1) d(1) shard_index_less [of page]] by (auto simp: map_of_eq_None_iff)
qed

text \<open>The specification of an acquisition over the lock map.\<close>

definition acquired :: "PageNumber \<Rightarrow> TxnId \<Rightarrow> (PageNumber \<rightharpoonup> TxnId) \<Rightarrow> (TxnId + unit) \<times> (PageNumber \<rightharpoonup> TxnId)" where
  "acquired page txn m =
     (case m page of None \<Rightarrow> (Inr (), m(page \<mapsto> txn)) | Some h \<Rightarrow> (if h = txn then Inr () else Inl h, m))"

lemma try_acquire_fast:
  assumes "lock_inv t" "page \<noteq> 0" "unat page \<le> 65536" "valid_txn txn"
  shows "\<exists>r t'. try_acquire page txn t = (Some r, t') \<and> lock_inv t' \<and> (r, lock_of t') = acquired page txn (lock_of t)"
proof -
  obtain t1 c where t1: "fast_lock_slot (unat page) t = (Some (slot_of (unat page)), t1)" "lock_inv t1"
      "lock_of t1 = lock_of t" "fast_locks t1 ! fst (slot_of (unat page)) = Some c"
      "slot_load (slot_of (unat page)) t1 = fast_word (unat page) t"
    using fast_lock_slot_spec [OF assms(1-3)] by blast
  have pos: "0 < unat page" using assms(2) by (simp add: unat_gt_0)
  note v = fast_word_valid [OF assms(1) pos assms(3)]
  show ?thesis
    using t1 v assms lock_inv_store [OF t1(2) pos assms(3) t1(4), of txn]
      lock_of_store [OF t1(2) assms(2,3) t1(4), of txn] lock_of_fast [OF assms(2,3), of t] valid_txn_simps
    by (auto simp: try_acquire_def acquired_def Let_def)
qed

lemma try_acquire_large:
  assumes "lock_inv t" "65536 < unat page" "valid_txn txn"
  shows "\<exists>r t'. try_acquire page txn t = (Some r, t') \<and> lock_inv t' \<and> (r, lock_of t') = acquired page txn (lock_of t)"
proof -
  let ?i = "shard_index_static page"
  have "lock_inv (t\<lparr>shards := (shards t)[?i := AList.update page txn (shards t ! ?i)]\<rparr>)" if "draining_get page t = None"
  proof (rule lock_inv_shards_update [OF assms(1) shard_index_less])
    show "shard_ok ?i (AList.update page txn (shards t ! ?i))"
      using lock_invD(4) [OF assms(1) shard_index_less] assms(2,3) by (intro shard_ok_update) auto
    fix d assume d: "draining t = Some d"
    then have "page \<notin> fst ` set (ds_shards d ! ?i)"
      using that lock_invD(5) [OF assms(1)] by (simp add: draining_get_def map_of_eq_None_iff)
    then show "fst ` set (AList.update page txn (shards t ! ?i)) \<inter> fst ` set (ds_shards d ! ?i) = {}"
      using lock_invD(8) [OF assms(1) d shard_index_less [of page]] by (simp add: AList.dom_update)
  qed
  moreover have "lock_of (t\<lparr>shards := (shards t)[?i := AList.update page txn (shards t ! ?i)]\<rparr>) = (lock_of t)(page \<mapsto> txn)"
    using lock_of_shards_update [OF assms(1,2) refl, of "AList.update page txn (shards t ! ?i)"]
    by (simp add: AList.update_conv')
  ultimately show ?thesis
    using assms(1,2) draining_get_not_active [OF assms(1), of page]
    by (auto simp: try_acquire_def acquired_def lock_of_large Let_def split: option.split)
qed

lemma try_acquire_spec:
  assumes "lock_inv t" "page \<noteq> 0" "valid_txn txn"
  shows "\<exists>r t'. try_acquire page txn t = (Some r, t') \<and> lock_inv t' \<and> (r, lock_of t') = acquired page txn (lock_of t)"
  using try_acquire_fast [OF assms(1,2) _ assms(3)] try_acquire_large [OF assms(1) _ assms(3)] by (meson not_le)

subsection \<open>Releasing\<close>

definition released :: "PageNumber \<Rightarrow> TxnId \<Rightarrow> (PageNumber \<rightharpoonup> TxnId) \<Rightarrow> bool \<times> (PageNumber \<rightharpoonup> TxnId)" where
  "released page txn m = (m page = Some txn, if m page = Some txn then m(page := None) else m)"

lemma release_fast_spec:
  assumes "lock_inv t" "page \<noteq> 0" "unat page \<le> 65536" "valid_txn txn"
  shows "\<exists>r t'. release_fast page txn t = (r, t') \<and> lock_inv t' \<and> (r, lock_of t') = released page txn (lock_of t)"
proof (cases "fast_locks t ! fst (slot_of (unat page))")
  case None
  then have "fast_word (unat page) t = 0" by (simp add: fast_word_def)
  then show ?thesis using None assms lock_of_fast [OF assms(2,3), of t]
    by (cases "slot_of (unat page)") (auto simp: release_fast_def fast_lock_slot_if_allocated_def released_def)
next
  case (Some c)
  have pos: "0 < unat page" using assms(2) by (simp add: unat_gt_0)
  have "fast_lock_slot_if_allocated (unat page) t = Some (slot_of (unat page))"
    using Some pos assms(3) by (cases "slot_of (unat page)") (simp add: fast_lock_slot_if_allocated_def)
  moreover have "slot_load (slot_of (unat page)) t = fast_word (unat page) t"
    using Some by (simp add: slot_load_def fast_word_def)
  ultimately show ?thesis
    using assms lock_of_fast [OF assms(2,3), of t] lock_of_store [OF assms(1-3) Some, of 0]
      lock_inv_store [OF assms(1) pos assms(3) Some, of 0] valid_txn_simps
    by (auto simp: release_fast_def released_def)
qed

lemma release_large_spec:
  assumes "lock_inv t" "65536 < unat page"
  shows "\<exists>r t'. release_silent page txn t = (r, t') \<and> lock_inv t' \<and> (r, lock_of t') = released page txn (lock_of t)"
proof -
  let ?i = "shard_index_static page"
  note small = shard_index_less [of page]
  consider (active) "map_of (shards t ! ?i) page = Some txn"
    | (drain) d where "map_of (shards t ! ?i) page \<noteq> Some txn" "draining t = Some d" "map_of (ds_shards d ! ?i) page = Some txn"
    | (other) "map_of (shards t ! ?i) page \<noteq> Some txn" "draining_get page t \<noteq> Some txn"
    using draining_getD by blast
  then show ?thesis
  proof cases
    case active
    let ?m = "AList.delete page (shards t ! ?i)"
    have none: "draining_get page t = None"
      using draining_get_not_active [OF assms(1)] active by (cases "draining_get page t") auto
    have sub: "fst ` set ?m \<subseteq> fst ` set (shards t ! ?i)"
      by (auto simp: AList.delete_eq)
    have "lock_inv (t\<lparr>shards := (shards t)[?i := ?m]\<rparr>)"
    proof (rule lock_inv_shards_update [OF assms(1) small])
      show "shard_ok ?i ?m" by (rule shard_ok_delete [OF lock_invD(4) [OF assms(1) small]])
      show "fst ` set ?m \<inter> fst ` set (ds_shards d ! ?i) = {}" if "draining t = Some d" for d
        using lock_invD(8) [OF assms(1) that small] sub by blast
    qed
    moreover have "lock_of (t\<lparr>shards := (shards t)[?i := ?m]\<rparr>) = (lock_of t)(page := None)"
      using lock_of_shards_update [OF assms refl, of ?m] none by (simp add: map_of_delete_shard)
    ultimately show ?thesis
      using active assms(2) by (auto simp: release_silent_def release_sharded_def released_def lock_of_large Let_def)
  next
    case drain
    let ?m = "AList.delete page (ds_shards d ! ?i)"
    have dr: "draining_get page t = Some txn" "has_draining t"
      using drain lock_invD(5) [OF assms(1)] by (auto simp: draining_get_def)
    note none = draining_get_not_active [OF assms(1) dr(1)]
    have "fst ` set ?m \<subseteq> fst ` set (ds_shards d ! ?i)" by (auto simp: AList.delete_eq)
    then have "lock_inv (t\<lparr>draining := Some (d\<lparr>ds_shards := (ds_shards d)[?i := ?m]\<rparr>)\<rparr>)"
      using lock_invD(7) [OF assms(1) drain(2) small]
      by (intro lock_inv_draining_update [OF assms(1) drain(2) small]) (auto intro: shard_ok_delete)
    moreover have "lock_of (t\<lparr>draining := Some (d\<lparr>ds_shards := (ds_shards d)[?i := ?m]\<rparr>)\<rparr>) = (lock_of t)(page := None)"
      using lock_of_draining_update [OF assms(1) drain(2) assms(2) refl none, of ?m] by (simp add: map_of_delete_shard)
    ultimately show ?thesis
      using drain none dr assms(2)
      by (auto simp: release_silent_def release_sharded_def release_draining_def released_def lock_of_large Let_def)
  next
    case other
    then have "lock_of t page \<noteq> Some txn"
      using assms(2) by (auto simp: lock_of_large split: option.split)
    moreover have "release_draining page txn t = (False, t)"
      using other(2) by (auto simp: release_draining_def draining_get_def Let_def split: option.splits)
    moreover have "release_sharded page txn t = (False, t)"
      using other(1) by (simp add: release_sharded_def)
    ultimately show ?thesis using assms by (auto simp: release_silent_def released_def)
  qed
qed

lemma release_silent_spec:
  assumes "lock_inv t" "page \<noteq> 0" "valid_txn txn"
  shows "\<exists>r t'. release_silent page txn t = (r, t') \<and> lock_inv t' \<and> (r, lock_of t') = released page txn (lock_of t)"
proof (cases "unat page \<le> 65536")
  case True
  then show ?thesis using release_fast_spec [OF assms(1,2) True assms(3)] by (simp add: release_silent_def)
next
  case False
  then show ?thesis using release_large_spec [OF assms(1)] by simp
qed

lemma page_release_spec:
  assumes "lock_inv t" "page \<noteq> 0" "valid_txn txn"
  shows "\<exists>r t'. release page txn t = (r, t') \<and> lock_inv t' \<and> (r, lock_of t') = released page txn (lock_of t)"
proof -
  obtain r t' where "release_silent page txn t = (r, t')" "lock_inv t'" "(r, lock_of t') = released page txn (lock_of t)"
    using release_silent_spec [OF assms] by blast
  then show ?thesis by (cases r) (auto simp: release_def)
qed

lemma release_pages_spec:
  "lock_inv t \<Longrightarrow> 0 \<notin> set pages \<Longrightarrow> valid_txn txn \<Longrightarrow>
   \<exists>r t'. release_pages pages txn a t = (r, t') \<and> lock_inv t' \<and>
     lock_of t' = (\<lambda>p. if p \<in> set pages \<and> lock_of t p = Some txn then None else lock_of t p)"
proof (induction pages arbitrary: a t)
  case (Cons page pages)
  obtain r t1 where t1: "release_silent page txn t = (r, t1)" "lock_inv t1" "(r, lock_of t1) = released page txn (lock_of t)"
    using release_silent_spec [of t page txn] Cons.prems by auto
  obtain r' t2 where "release_pages pages txn (a \<or> r) t1 = (r', t2)" "lock_inv t2"
      "lock_of t2 = (\<lambda>p. if p \<in> set pages \<and> lock_of t1 p = Some txn then None else lock_of t1 p)"
    using Cons.IH [OF t1(2), of "a \<or> r"] Cons.prems by auto
  then show ?case using t1 by (auto simp: released_def)
qed simp

lemma release_set_spec:
  assumes "lock_inv t" "0 \<notin> set pages" "valid_txn txn"
  shows "lock_inv (release_set pages txn t)"
    "lock_of (release_set pages txn t) = (\<lambda>p. if p \<in> set pages \<and> lock_of t p = Some txn then None else lock_of t p)"
  using release_pages_spec [OF assms, of False] by (auto simp: release_set_def)

text \<open>Passes over the whole table keep the entries that satisfy a predicate on the holder.\<close>

lemma fast_word_map:
  assumes "lock_inv t" "0 < n" "n \<le> 65536" "f 0 = 0"
  shows "fast_word n (t\<lparr>fast_locks := map (map_option (map f)) (fast_locks t)\<rparr>) = f (fast_word n t)"
proof -
  have b: "fst (slot_of n) < length (fast_locks t)"
    using slot_of_bounds [OF assms(2,3)] lock_invD(1) [OF assms(1)] by simp
  show ?thesis
  proof (cases "fast_locks t ! fst (slot_of n)")
    case None
    then show ?thesis using b assms(4) by (simp add: fast_word_def)
  next
    case (Some c)
    then have "length c = 1024"
      using lock_invD(2) [OF assms(1), of "fst (slot_of n)"] slot_of_bounds [OF assms(2,3)] chunk_okD(1) by simp
    then show ?thesis using b Some slot_of_bounds [OF assms(2,3)] by (simp add: fast_word_def)
  qed
qed

lemma lock_inv_fast_map:
  assumes "lock_inv t" "\<And>v. v = 0 \<or> valid_txn v \<Longrightarrow> f v = 0 \<or> valid_txn (f v)"
  shows "lock_inv (t\<lparr>fast_locks := map (map_option (map f)) (fast_locks t)\<rparr>)"
proof (rule lock_inv_fast [OF assms(1)])
  show "length (map (map_option (map f)) (fast_locks t)) = 64" using lock_invD(1) [OF assms(1)] by simp
  fix chunk assume "chunk \<in> set (map (map_option (map f)) (fast_locks t))"
  then obtain c where "chunk = map_option (map f) c" "chunk_ok c" using assms(1) by (auto simp: lock_inv_def)
  then show "chunk_ok chunk" using assms(2) by (auto simp: chunk_ok_def split: option.splits)
qed

lemma shards_ok_filter:
  "shards_ok ms \<Longrightarrow> shards_ok (map (filter P) ms)"
  by (auto simp: shards_ok_def intro: shard_ok_filter)

lemma map_of_shard_filter:
  assumes "shards_ok ms"
  shows "map_of (map (filter (\<lambda>(page, h). P h)) ms ! shard_index_static q) q =
    (case map_of (ms ! shard_index_static q) q of None \<Rightarrow> None | Some h \<Rightarrow> if P h then Some h else None)"
  using assms shard_index_less [of q] map_of_filter_snd [of "ms ! shard_index_static q" P q]
  by (simp add: shards_ok_def shard_ok_def)

lemma lock_inv_disjoint_mono:
  assumes "lock_inv t" "draining t = Some d" "shards_ok ms" "shards_ok ds"
    and "\<And>i. i < 64 \<Longrightarrow> fst ` set (ms ! i) \<subseteq> fst ` set (shards t ! i)"
    and "\<And>i. i < 64 \<Longrightarrow> fst ` set (ds ! i) \<subseteq> fst ` set (ds_shards d ! i)"
  shows "lock_inv (t\<lparr>shards := ms, draining := Some (d\<lparr>ds_shards := ds\<rparr>)\<rparr>)"
proof -
  have "fst ` set (ms ! i) \<inter> fst ` set (ds ! i) = {}" if "i < 64" for i
    using assms(5,6) [OF that] lock_invD(8) [OF assms(1,2) that] by blast
  then show ?thesis using assms(1-4) by (simp add: lock_inv_def)
qed

lemma filter_fst_subset:
  "length ms = 64 \<Longrightarrow> i < 64 \<Longrightarrow> fst ` set (map (filter P) ms ! i) \<subseteq> fst ` set (ms ! i)"
  by auto

lemma keep_shards:
  assumes inv: "lock_inv t"
    and t': "t' = t\<lparr>shards := map (filter (\<lambda>(page, h). P h)) (shards t),
        draining := map_option (\<lambda>d. d\<lparr>ds_shards := map (filter (\<lambda>(page, h). Q h)) (ds_shards d)\<rparr>) (draining t)\<rparr>"
  shows "lock_inv t'"
    and "65536 < unat q \<Longrightarrow> map_of (shards t' ! shard_index_static q) q =
      (case map_of (shards t ! shard_index_static q) q of None \<Rightarrow> None | Some h \<Rightarrow> if P h then Some h else None)"
    and "draining_get q t' = (case draining_get q t of None \<Rightarrow> None | Some h \<Rightarrow> if Q h then Some h else None)"
proof -
  have ok: "shards_ok (shards t)" "draining t = Some d \<Longrightarrow> shards_ok (ds_shards d)" for d
    using inv by (auto simp: lock_inv_def)
  show "lock_inv t'"
  proof (cases "draining t")
    case None
    then show ?thesis using inv ok t' by (simp add: lock_inv_def shards_ok_filter)
  next
    case (Some d)
    show ?thesis unfolding t' Some option.map
      using lock_invD(3,6) [OF inv] Some ok
      by (intro lock_inv_disjoint_mono [OF inv Some] shards_ok_filter filter_fst_subset) auto
  qed
  show "map_of (shards t' ! shard_index_static q) q =
      (case map_of (shards t ! shard_index_static q) q of None \<Rightarrow> None | Some h \<Rightarrow> if P h then Some h else None)"
    using map_of_shard_filter [OF ok(1), of P q] t' by simp
  show "draining_get q t' = (case draining_get q t of None \<Rightarrow> None | Some h \<Rightarrow> if Q h then Some h else None)"
    using map_of_shard_filter [OF ok(2), of _ Q q] t' by (cases "draining t") (simp_all add: draining_get_def)
qed

lemma release_all_spec:
  assumes "lock_inv t" "valid_txn txn"
  shows "lock_inv (release_all txn t)"
    "lock_of (release_all txn t) = (\<lambda>p. if lock_of t p = Some txn then None else lock_of t p)"
proof -
  let ?f = "\<lambda>v. if v = txn then 0 else v"
  define t1 where "t1 = t\<lparr>fast_locks := map (map_option (map ?f)) (fast_locks t)\<rparr>"
  define t2 where "t2 = t1\<lparr>shards := map (filter (\<lambda>(page, h). h \<noteq> txn)) (shards t1),
      draining := map_option (\<lambda>d. d\<lparr>ds_shards := map (filter (\<lambda>(page, h). h \<noteq> txn)) (ds_shards d)\<rparr>) (draining t1)\<rparr>"
  have inv1: "lock_inv t1" unfolding t1_def by (rule lock_inv_fast_map [OF assms(1)]) auto
  note k = keep_shards [OF inv1 t2_def]
  have "t2 = t\<lparr>fast_locks := map (map_option (map ?f)) (fast_locks t), shards := map (retain_others txn) (shards t),
      draining := (if has_draining t
        then map_option (\<lambda>d. d\<lparr>ds_shards := map (retain_others txn) (ds_shards d)\<rparr>) (draining t) else draining t)\<rparr>"
    using lock_invD(5) [OF assms(1)] by (cases "draining t") (simp_all add: t2_def t1_def retain_others_def [abs_def])
  then have "release_all txn t = t2 \<or> release_all txn t = notify_all_waiters t2"
    by (simp only: release_all_def Let_def) simp
  then have eq: "lock_of (release_all txn t) = lock_of t2" "lock_inv (release_all txn t) = lock_inv t2"
    by auto
  show "lock_inv (release_all txn t)" using k(1) eq by simp
  show "lock_of (release_all txn t) = (\<lambda>p. if lock_of t p = Some txn then None else lock_of t p)"
  proof (rule ext)
    fix p
    show "lock_of (release_all txn t) p = (if lock_of t p = Some txn then None else lock_of t p)"
    proof (cases "p = 0 \<or> unat p \<le> 65536")
      case True
      have "fast_word (unat p) t2 = ?f (fast_word (unat p) t)" if "p \<noteq> 0"
        using fast_word_map [OF assms(1), of "unat p" ?f] that True by (simp add: t2_def t1_def fast_word_def unat_gt_0)
      then show ?thesis
        using True eq(1) valid_txn_simps(3) [OF assms(2)] by (auto simp: lock_of_def)
    next
      case False
      then have "lock_of t2 p = (if lock_of t1 p = Some txn then None else lock_of t1 p)"
        using k(2,3) [of p] draining_get_not_active [OF inv1, of p]
        by (auto simp: lock_of_large split: option.splits)
      moreover have "lock_of t1 p = lock_of t p"
        using False by (auto simp: lock_of_large t1_def draining_get_def split: option.split)
      ultimately show ?thesis using eq(1) by simp
    qed
  qed
qed

subsection \<open>Rebuilding\<close>

lemma shards_len_0: "shards_len ms = 0 \<longleftrightarrow> (\<forall>m \<in> set ms. m = [])"
  by (auto simp: shards_len_def)

lemma empty_shards_ok: "shards_ok (replicate 64 [])"
  by (simp add: shards_ok_def shard_ok_def)

lemma begin_rebuild_spec:
  assumes "lock_inv t" "draining t = None"
  shows "fst (begin_rebuild t) = Inr 1" "lock_inv (snd (begin_rebuild t))" "lock_of (snd (begin_rebuild t)) = lock_of t"
    "map_of (shards (snd (begin_rebuild t)) ! shard_index_static p) p = None"
    "draining (snd (begin_rebuild t)) \<noteq> None"
proof -
  have e: "shards (snd (begin_rebuild t)) = replicate 64 []" using assms(2) by (simp add: begin_rebuild_def)
  show "fst (begin_rebuild t) = Inr 1" "draining (snd (begin_rebuild t)) \<noteq> None"
    using assms(2) by (auto simp: begin_rebuild_def)
  show none: "map_of (shards (snd (begin_rebuild t)) ! shard_index_static p) p = None" for p
    using e shard_index_less [of p] by simp
  show "lock_inv (snd (begin_rebuild t))"
    using assms empty_shards_ok by (simp add: begin_rebuild_def lock_inv_def)
  have "lock_of (snd (begin_rebuild t)) p = lock_of t p" for p
    using assms none [of p] lock_invD(5) [OF assms(1)]
    by (auto simp: lock_of_def fast_word_def draining_get_def begin_rebuild_def split: option.split)
  then show "lock_of (snd (begin_rebuild t)) = lock_of t" by (rule ext)
qed

lemma clean_fast_spec:
  assumes "lock_inv t"
  shows "lock_inv (clean_fast act t)" "draining (clean_fast act t) = draining t"
    "lock_of (clean_fast act t) p =
       (if unat p \<le> 65536 then (case lock_of t p of None \<Rightarrow> None | Some h \<Rightarrow> if act h then Some h else None)
        else lock_of t p)"
proof -
  let ?f = "\<lambda>raw. if raw \<noteq> 0
     then case TxnId_new raw of None \<Rightarrow> raw | Some h \<Rightarrow> if \<not> act h then 0 else raw else raw"
  show "lock_inv (clean_fast act t)" unfolding clean_fast_def
    by (rule lock_inv_fast_map [OF assms]) (auto split: option.split)
  show "draining (clean_fast act t) = draining t" by (simp add: clean_fast_def)
  have fw: "fast_word (unat p) (clean_fast act t) = ?f (fast_word (unat p) t)" if "p \<noteq> 0" "unat p \<le> 65536"
    using fast_word_map [OF assms, of "unat p" ?f] that by (simp add: clean_fast_def unat_gt_0)
  show "lock_of (clean_fast act t) p =
       (if unat p \<le> 65536 then (case lock_of t p of None \<Rightarrow> None | Some h \<Rightarrow> if act h then Some h else None)
        else lock_of t p)"
  proof (cases "p \<noteq> 0 \<and> unat p \<le> 65536")
    case True
    then show ?thesis
      using fw fast_word_valid [OF assms, of "unat p"] valid_txn_simps
      by (auto simp: lock_of_def unat_gt_0)
  next
    case False
    then show ?thesis by (auto simp: lock_of_def clean_fast_def draining_get_def split: option.split)
  qed
qed

lemma drain_orphaned_spec:
  assumes "lock_inv t" "draining t \<noteq> None"
  shows "lock_inv (snd (drain_orphaned act t))" "draining (snd (drain_orphaned act t)) \<noteq> None"
    "shards (snd (drain_orphaned act t)) = shards t"
    "map_of (shards t ! shard_index_static p) p = None \<Longrightarrow>
     lock_of (snd (drain_orphaned act t)) p =
       (if unat p \<le> 65536 then lock_of t p
        else case lock_of t p of None \<Rightarrow> None | Some h \<Rightarrow> if act h then Some h else None)"
proof -
  define t1 where "t1 = t\<lparr>shards := map (filter (\<lambda>(page, h). True)) (shards t),
      draining := map_option (\<lambda>d. d\<lparr>ds_shards := map (filter (\<lambda>(page, h). act h)) (ds_shards d)\<rparr>) (draining t)\<rparr>"
  note k = keep_shards [OF assms(1) t1_def]
  have "t1 = t\<lparr>draining := map_option (\<lambda>d. d\<lparr>ds_shards := map (filter (\<lambda>(page, h). act h)) (ds_shards d)\<rparr>) (draining t)\<rparr>"
    by (cases t) (simp add: t1_def case_prod_unfold map_idI)
  then have "snd (drain_orphaned act t) = t1 \<or> snd (drain_orphaned act t) = notify_all_waiters t1"
    using assms(2) by (auto simp: drain_orphaned_def Let_def)
  then have eq: "lock_inv (snd (drain_orphaned act t)) = lock_inv t1" "lock_of (snd (drain_orphaned act t)) = lock_of t1"
      "draining (snd (drain_orphaned act t)) = draining t1" "shards (snd (drain_orphaned act t)) = shards t1"
    by auto
  show "lock_inv (snd (drain_orphaned act t))" using eq(1) k(1) by simp
  show "draining (snd (drain_orphaned act t)) \<noteq> None" using eq(3) assms(2) by (simp add: t1_def)
  show "shards (snd (drain_orphaned act t)) = shards t" using eq(4) by (simp add: t1_def case_prod_unfold map_idI)
  show "lock_of (snd (drain_orphaned act t)) p =
       (if unat p \<le> 65536 then lock_of t p
        else case lock_of t p of None \<Rightarrow> None | Some h \<Rightarrow> if act h then Some h else None)"
    if "map_of (shards t ! shard_index_static p) p = None"
  proof (cases "unat p \<le> 65536")
    case True
    then show ?thesis using eq(2) by (simp add: lock_of_def fast_word_def t1_def)
  next
    case False
    then show ?thesis using eq(2) k(2,3) [of p] that by (simp add: lock_of_large split: option.split)
  qed
qed

lemma finalize_rebuild_spec:
  assumes "lock_inv t" "drain_progress t = Some p" "dp_quiescent p"
  shows "lock_inv (snd (finalize_rebuild t))" "lock_of (snd (finalize_rebuild t)) = lock_of t"
    "draining (snd (finalize_rebuild t)) = None" "draining_get q t = None"
proof -
  obtain d where d: "draining t = Some d" "shards_len (ds_shards d) = 0"
    using assms(2,3) by (auto simp: drain_progress_def)
  then have f: "snd (finalize_rebuild t) = t\<lparr>draining := None, has_draining := False\<rparr>"
    by (simp add: finalize_rebuild_def)
  then show "draining (snd (finalize_rebuild t)) = None" by simp
  show "lock_inv (snd (finalize_rebuild t))" using assms(1) f by (simp add: lock_inv_def)
  show none: "draining_get q t = None" for q
  proof -
    have "ds_shards d ! shard_index_static q = []"
      using d(2) lock_invD(6) [OF assms(1) d(1)] shard_index_less [of q] by (simp add: shards_len_0)
    then show ?thesis using d(1) by (simp add: draining_get_def)
  qed
  have "lock_of (snd (finalize_rebuild t)) q = lock_of t q" for q
    using f none [of q] by (auto simp: lock_of_def fast_word_def draining_get_def split: option.split)
  then show "lock_of (snd (finalize_rebuild t)) = lock_of t" by (rule ext)
qed

text \<open>What a run of the drain loop from pass \<open>n\<close> on may do to the lock map.\<close>

definition drained :: "(nat \<Rightarrow> TxnId \<Rightarrow> bool) \<Rightarrow> nat \<Rightarrow> (PageNumber \<rightharpoonup> TxnId) \<Rightarrow> (PageNumber \<rightharpoonup> TxnId) \<Rightarrow> bool" where
  "drained act n m m' \<longleftrightarrow>
     m' \<subseteq>\<^sub>m m \<and> (\<forall>p. unat p \<le> 65536 \<longrightarrow> m' p = m p) \<and>
     (\<forall>p h. m p = Some h \<longrightarrow> (\<forall>k \<ge> n. act k h) \<longrightarrow> m' p = Some h)"

lemma drained_step:
  assumes "\<And>p. m1 p = (if unat p \<le> 65536 then m p else case m p of None \<Rightarrow> None | Some h \<Rightarrow> if act n h then Some h else None)"
  shows "drained act n m m1"
proof -
  have "m1 \<subseteq>\<^sub>m m"
    unfolding map_le_def
  proof (intro ballI)
    fix p assume "p \<in> dom m1"
    then show "m1 p = m p" using assms [of p] by (auto split: if_splits option.splits)
  qed
  then show ?thesis using assms by (auto simp: drained_def)
qed

lemma drained_trans:
  assumes "drained act n m m1" "drained act (Suc n) m1 m2"
  shows "drained act n m m2"
proof -
  have "m2 \<subseteq>\<^sub>m m" using assms map_le_trans by (auto simp: drained_def)
  then show ?thesis using assms by (auto simp: drained_def)
qed

lemma rebuild_loop_spec:
  "lock_inv t \<Longrightarrow> draining t \<noteq> None \<Longrightarrow> (\<And>p. map_of (shards t ! shard_index_static p) p = None) \<Longrightarrow>
   rebuild_loop act n e b c t = (r, t') \<Longrightarrow>
   lock_inv t' \<and> drained act n (lock_of t) (lock_of t') \<and>
   (case r of Quiescent _ _ \<Rightarrow> draining t' = None \<and> (\<forall>p. 65536 < unat p \<longrightarrow> lock_of t' p = None)
    | TimedOut rem _ _ \<Rightarrow> draining t' \<noteq> None \<and> rem = draining_lock_count t' \<and> 0 < rem)"
proof (induction act n e b c t arbitrary: r t' rule: rebuild_loop.induct)
  case (1 act n e b c t)
  define t1 where "t1 = snd (drain_orphaned (act n) t)"
  obtain res where d: "drain_orphaned (act n) t = (res, t1)" by (cases "drain_orphaned (act n) t") (simp add: t1_def)
  note sp = drain_orphaned_spec [OF "1.prems"(1,2), where act = "act n", folded t1_def]
  have step: "drained act n (lock_of t) (lock_of t1)"
    by (rule drained_step) (rule sp(4) [OF "1.prems"(3)])
  have none: "map_of (shards t1 ! shard_index_static p) p = None" for p using "1.prems"(3) sp(3) by simp
  obtain pr where pr: "drain_progress t1 = Some pr" using sp(2) by (auto simp: drain_progress_def)
  have rem: "dp_remaining pr = draining_lock_count t1" "dp_quiescent pr = (dp_remaining pr = 0)"
    using pr by (auto simp: drain_progress_def draining_lock_count_def)
  consider (quiet) "dp_quiescent pr" | (late) "\<not> dp_quiescent pr" "b = 0" | (again) "\<not> dp_quiescent pr" "b \<noteq> 0" by blast
  then show ?case
  proof cases
    case quiet
    note f = finalize_rebuild_spec [OF sp(1) pr quiet]
    have "65536 < unat p \<Longrightarrow> lock_of t1 p = None" for p using none f(4) by (simp add: lock_of_large)
    then show ?thesis using "1.prems"(4) d pr quiet f step by (auto simp: Let_def)
  next
    case late
    then show ?thesis using "1.prems"(4) d pr sp step rem by (auto simp: Let_def)
  next
    case again
    define c1 where "c1 = c + (case res of None \<Rightarrow> 0 | Some x \<Rightarrow> rb_orphaned_cleaned x)"
    have run: "rebuild_loop act (Suc n) (min (e + 1) (2 ^ 64 - 1)) (b - 1) c1 t1 = (r, t')"
      using "1.prems"(4) d pr again by (simp add: Let_def c1_def)
    have "lock_inv t' \<and> drained act (Suc n) (lock_of t1) (lock_of t') \<and>
       (case r of Quiescent _ _ \<Rightarrow> draining t' = None \<and> (\<forall>p. 65536 < unat p \<longrightarrow> lock_of t' p = None)
        | TimedOut rem _ _ \<Rightarrow> draining t' \<noteq> None \<and> rem = draining_lock_count t' \<and> 0 < rem)"
      by (rule "1.IH" [OF d [symmetric] c1_def pr again sp(1,2) none run])
    then show ?thesis using drained_trans [OF step] by blast
  qed
qed

text \<open>The loop makes at most one pass more than its budget: it consults the predicate of no later pass, and the time it
  reports is the number of passes after the first.\<close>

lemma rebuild_loop_elapsed:
  "rebuild_loop act n e b c t = (r, t') \<Longrightarrow> e + b \<le> 2 ^ 64 - 1 \<Longrightarrow>
   (case r of Quiescent _ x \<Rightarrow> e \<le> x \<and> x \<le> e + b | TimedOut _ _ x \<Rightarrow> x = e + b)"
proof (induction act n e b c t arbitrary: r t' rule: rebuild_loop.induct)
  case (1 act n e b c t)
  obtain res t1 where d: "drain_orphaned (act n) t = (res, t1)" by fastforce
  define c1 where "c1 = c + (case res of None \<Rightarrow> 0 | Some x \<Rightarrow> rb_orphaned_cleaned x)"
  show ?case
  proof (cases "\<exists>pr. drain_progress t1 = Some pr \<and> \<not> dp_quiescent pr \<and> b \<noteq> 0")
    case True
    then obtain pr where pr: "drain_progress t1 = Some pr" "\<not> dp_quiescent pr" "b \<noteq> 0" by blast
    have m: "min (e + 1) (2 ^ 64 - 1) = e + 1" using "1.prems"(2) pr(3) by simp
    have run: "rebuild_loop act (Suc n) (e + 1) (b - 1) c1 t1 = (r, t')"
      using "1.prems"(1) [unfolded rebuild_loop.simps [of act n e b c t] m] d pr by (simp add: Let_def c1_def del: rebuild_loop.simps)
    have "case r of Quiescent _ x \<Rightarrow> e + 1 \<le> x \<and> x \<le> e + 1 + (b - 1) | TimedOut _ _ x \<Rightarrow> x = e + 1 + (b - 1)"
      by (rule "1.IH" [OF d [symmetric] c1_def pr, unfolded m, OF run]) (use "1.prems"(2) pr(3) in simp)
    then show ?thesis using pr(3) by (cases r) auto
  next
    case False
    then show ?thesis using "1.prems"(1) d by (auto simp: Let_def split: option.splits if_splits)
  qed
qed

lemma rebuild_loop_passes:
  "(\<And>k. n \<le> k \<Longrightarrow> k \<le> n + b \<Longrightarrow> act' k = act k) \<Longrightarrow> rebuild_loop act' n e b c t = rebuild_loop act n e b c t"
proof (induction act n e b c t rule: rebuild_loop.induct)
  case (1 act n e b c t)
  obtain res t1 where d: "drain_orphaned (act n) t = (res, t1)" by fastforce
  define c1 where "c1 = c + (case res of None \<Rightarrow> 0 | Some x \<Rightarrow> rb_orphaned_cleaned x)"
  have n: "act' n = act n" using "1.prems" by simp
  show ?case
  proof (cases "\<exists>pr. drain_progress t1 = Some pr \<and> \<not> dp_quiescent pr \<and> b \<noteq> 0")
    case True
    then obtain pr where pr: "drain_progress t1 = Some pr" "\<not> dp_quiescent pr" "b \<noteq> 0" by blast
    have "rebuild_loop act' (Suc n) (min (e + 1) (2 ^ 64 - 1)) (b - 1) c1 t1 = rebuild_loop act (Suc n) (min (e + 1) (2 ^ 64 - 1)) (b - 1) c1 t1"
      by (rule "1.IH" [OF d [symmetric] c1_def pr]) (use "1.prems" pr(3) in auto)
    then show ?thesis using d pr n by (simp add: Let_def c1_def)
  next
    case False
    then show ?thesis using d n by (auto simp: Let_def split: option.splits)
  qed
qed

section \<open>The contract of an exclusive page lock table\<close>

text \<open>Histories of operations on any lock table.\<close>

datatype lock_op = Acquire PageNumber TxnId | Release PageNumber TxnId | ReleaseSet "PageNumber list" TxnId | ReleaseAll TxnId

fun op_ok :: "lock_op \<Rightarrow> bool" where
  "op_ok (Acquire page txn) = (page \<noteq> 0 \<and> valid_txn txn)"
| "op_ok (Release page txn) = (page \<noteq> 0 \<and> valid_txn txn)"
| "op_ok (ReleaseSet pages txn) = (0 \<notin> set pages \<and> valid_txn txn)"
| "op_ok (ReleaseAll txn) = valid_txn txn"

fun releases :: "TxnId \<Rightarrow> PageNumber \<Rightarrow> lock_op \<Rightarrow> bool" where
  "releases x p (Acquire page txn) = False"
| "releases x p (Release page txn) = (txn = x \<and> page = p)"
| "releases x p (ReleaseSet pages txn) = (txn = x \<and> p \<in> set pages)"
| "releases x p (ReleaseAll txn) = (txn = x)"

record 't lock_ops =
  op_acquire :: "PageNumber \<Rightarrow> TxnId \<Rightarrow> 't \<Rightarrow> (TxnId + unit) option \<times> 't"
  op_release :: "PageNumber \<Rightarrow> TxnId \<Rightarrow> 't \<Rightarrow> bool \<times> 't"
  op_release_set :: "PageNumber list \<Rightarrow> TxnId \<Rightarrow> 't \<Rightarrow> 't"
  op_release_all :: "TxnId \<Rightarrow> 't \<Rightarrow> 't"

fun run_op :: "'t lock_ops \<Rightarrow> lock_op \<Rightarrow> 't \<Rightarrow> 't" where
  "run_op ops (Acquire page txn) t = snd (op_acquire ops page txn t)"
| "run_op ops (Release page txn) t = snd (op_release ops page txn t)"
| "run_op ops (ReleaseSet pages txn) t = op_release_set ops pages txn t"
| "run_op ops (ReleaseAll txn) t = op_release_all ops txn t"

definition page_lock_ops :: "PageLockTable lock_ops" where
  "page_lock_ops = \<lparr>op_acquire = try_acquire, op_release = release, op_release_set = release_set, op_release_all = release_all\<rparr>"

locale exclusive_locks =
  fixes ok :: "'t \<Rightarrow> bool" and locks :: "'t \<Rightarrow> PageNumber \<rightharpoonup> TxnId" and ops :: "'t lock_ops"
  assumes acquire_law: "ok t \<Longrightarrow> page \<noteq> 0 \<Longrightarrow> valid_txn txn \<Longrightarrow>
      \<exists>r t'. op_acquire ops page txn t = (Some r, t') \<and> ok t' \<and> (r, locks t') = acquired page txn (locks t)"
    and release_law: "ok t \<Longrightarrow> page \<noteq> 0 \<Longrightarrow> valid_txn txn \<Longrightarrow>
      \<exists>r t'. op_release ops page txn t = (r, t') \<and> ok t' \<and> (r, locks t') = released page txn (locks t)"
    and release_set_law: "ok t \<Longrightarrow> 0 \<notin> set pages \<Longrightarrow> valid_txn txn \<Longrightarrow>
      ok (op_release_set ops pages txn t) \<and>
      locks (op_release_set ops pages txn t) = (\<lambda>p. if p \<in> set pages \<and> locks t p = Some txn then None else locks t p)"
    and release_all_law: "ok t \<Longrightarrow> valid_txn txn \<Longrightarrow>
      ok (op_release_all ops txn t) \<and>
      locks (op_release_all ops txn t) = (\<lambda>p. if locks t p = Some txn then None else locks t p)"
begin

lemma run_op_ok: "ok t \<Longrightarrow> op_ok x \<Longrightarrow> ok (run_op ops x t)"
  using acquire_law release_law release_set_law release_all_law by (cases x) fastforce+

lemma run_op_keeps:
  assumes "ok t" "op_ok x" "\<not> releases h p x" "locks t p = Some h"
  shows "locks (run_op ops x t) p = Some h"
proof (cases x)
  case (Acquire page txn)
  then show ?thesis using acquire_law [of t page txn] assms
    by (auto simp: acquired_def split: option.splits if_splits)
next
  case (Release page txn)
  then show ?thesis using release_law [of t page txn] assms
    by (auto simp: released_def split: if_splits)
next
  case (ReleaseSet pages txn)
  then show ?thesis using release_set_law [of t pages txn] assms by auto
next
  case (ReleaseAll txn)
  then show ?thesis using release_all_law [of t txn] assms by auto
qed

lemma history_keeps:
  "ok t \<Longrightarrow> locks t p = Some h \<Longrightarrow> \<forall>x \<in> set xs. op_ok x \<and> \<not> releases h p x \<Longrightarrow>
   ok (fold (run_op ops) xs t) \<and> locks (fold (run_op ops) xs t) p = Some h"
  by (induction xs arbitrary: t) (simp_all add: run_op_ok run_op_keeps)

lemma acquire_granted:
  "ok t \<Longrightarrow> page \<noteq> 0 \<Longrightarrow> valid_txn txn \<Longrightarrow> op_acquire ops page txn t = (Some (Inr ()), t') \<Longrightarrow>
   ok t' \<and> locks t' page = Some txn"
  using acquire_law [of t page txn] by (auto simp: acquired_def split: option.splits if_splits)

lemma exclusive:
  assumes "ok t" "page \<noteq> 0" "valid_txn h" "valid_txn txn" "txn \<noteq> h"
    and "op_acquire ops page h t = (Some (Inr ()), t')"
    and "\<forall>x \<in> set xs. op_ok x \<and> \<not> releases h page x"
  shows "fst (op_acquire ops page txn (fold (run_op ops) xs t')) = Some (Inl h)"
proof -
  have "ok (fold (run_op ops) xs t')" "locks (fold (run_op ops) xs t') page = Some h"
    using history_keeps acquire_granted [OF assms(1-3,6)] assms(7) by auto
  then show ?thesis using acquire_law [of _ page txn] assms(2,4,5) by (fastforce simp: acquired_def)
qed

lemma acquire_release:
  assumes "ok t" "page \<noteq> 0" "valid_txn txn" "locks t page = None"
  shows "locks (snd (op_release ops page txn (snd (op_acquire ops page txn t)))) = locks t"
proof -
  obtain t' where t': "op_acquire ops page txn t = (Some (Inr ()), t')" "ok t'" "locks t' = (locks t)(page \<mapsto> txn)"
    using acquire_law [OF assms(1-3)] assms(4) by (auto simp: acquired_def)
  obtain r t2 where "op_release ops page txn t' = (r, t2)" "(r, locks t2) = released page txn (locks t')"
    using release_law [OF t'(2) assms(2,3)] by blast
  then show ?thesis using t' assms(4) by (auto simp: released_def)
qed

end

interpretation plt: exclusive_locks lock_inv lock_of page_lock_ops
  by unfold_locales (auto simp: page_lock_ops_def try_acquire_spec page_release_spec release_set_spec release_all_spec)

lemma lock_table_new_inv: "lock_inv lock_table_new"
  by (simp add: lock_inv_def lock_table_new_def chunk_ok_def empty_shards_ok)

lemma lock_of_new: "lock_of lock_table_new = Map.empty"
proof (rule ext)
  fix p
  show "lock_of lock_table_new p = None"
    using slot_of_bounds [of "unat p"] shard_index_less [of p]
    by (auto simp: lock_of_def lock_table_new_def fast_word_def draining_get_def unat_gt_0)
qed

lemma holder_lock_of:
  assumes "lock_inv t" "page \<noteq> 0"
  shows "holder page t = Some (lock_of t page)"
proof (cases "unat page \<le> 65536")
  case True
  have pos: "0 < unat page" using assms(2) by (simp add: unat_gt_0)
  show ?thesis
    using True pos assms(2) fast_word_valid [OF assms(1) pos True] valid_txn_simps
    by (cases "slot_of (unat page)"; cases "fast_locks t ! fst (slot_of (unat page))")
       (auto simp: holder_def lock_of_fast fast_lock_slot_if_allocated_def slot_load_def fast_word_def Let_def)
next
  case False
  then show ?thesis by (simp add: holder_def lock_of_large split: option.split)
qed

section \<open>Waiting threads\<close>

definition queue_total :: "(PageNumber \<times> ThreadId list) list \<Rightarrow> nat" where
  "queue_total m = sum_list (map (\<lambda>(page, queue). length queue) m)"

definition waiter_total :: "PageLockTable \<Rightarrow> nat" where
  "waiter_total t = sum_list (map queue_total (waiter_shards t))"

definition waiters_of :: "PageLockTable \<Rightarrow> PageNumber \<Rightarrow> ThreadId list" where
  "waiters_of t page = (case map_of (waiter_shards t ! shard_index_static page) page of None \<Rightarrow> [] | Some queue \<Rightarrow> queue)"

definition waiter_inv :: "PageLockTable \<Rightarrow> bool" where
  "waiter_inv t =
     (length (waiter_shards t) = LOCK_TABLE_SHARDS \<and> (\<forall>m \<in> set (waiter_shards t). distinct (map fst m)) \<and>
      waiter_total t < 2 ^ 64 \<and> waiter_count t = word_of_nat (waiter_total t))"

lemma delete_absent: "page \<notin> fst ` set m \<Longrightarrow> AList.delete page m = m"
  by (auto simp: AList.delete_eq filter_id_conv image_iff)

lemma queue_total_delete:
  "distinct (map fst m) \<Longrightarrow> map_of m page = Some queue \<Longrightarrow>
   queue_total m = length queue + queue_total (AList.delete page m)"
proof (induction m)
  case (Cons x m)
  show ?case
  proof (cases "fst x = page")
    case True
    then show ?thesis using Cons.prems delete_absent [of page m]
      by (cases x) (auto simp: queue_total_def)
  next
    case False
    then show ?thesis using Cons by (cases x) (simp add: queue_total_def)
  qed
qed simp

lemma queue_total_update:
  "distinct (map fst m) \<Longrightarrow>
   queue_total (AList.update page queue m) + length (case map_of m page of None \<Rightarrow> [] | Some q \<Rightarrow> q) =
   queue_total m + length queue"
proof (induction m)
  case (Cons x m)
  then show ?case by (cases x) (auto simp: queue_total_def split: option.splits simp: map_of_eq_None_iff)
qed (simp add: queue_total_def)

lemma waiter_total_update:
  assumes "waiter_inv t" "i < 64"
  shows "sum_list (map queue_total ((waiter_shards t)[i := m])) + queue_total (waiter_shards t ! i) = waiter_total t + queue_total m"
proof -
  have "i < length (map queue_total (waiter_shards t))" using assms by (simp add: waiter_inv_def)
  moreover from this have "queue_total (waiter_shards t ! i) \<le> sum_list (map queue_total (waiter_shards t))"
    using elem_le_sum_list [of i "map queue_total (waiter_shards t)"] by simp
  ultimately show ?thesis
    using sum_list_update [of i "map queue_total (waiter_shards t)" "queue_total m"]
    by (simp add: map_update waiter_total_def)
qed

lemma waiter_total_zero:
  assumes "waiter_inv t" "waiter_count t = 0"
  shows "waiters_of t page = []"
proof -
  have "waiter_total t = 0"
    using assms by (simp add: waiter_inv_def word_of_nat_eq_0_iff dvd_imp_le) (metis dvd_imp_le leD neq0_conv)
  then have "queue_total (waiter_shards t ! shard_index_static page) = 0"
    using assms shard_index_less [of page] by (auto simp: waiter_total_def waiter_inv_def)
  then show ?thesis
    by (auto simp: waiters_of_def queue_total_def split: option.splits dest!: map_of_SomeD)
qed

lemma waiters_of_update:
  assumes "waiter_inv t" "i = shard_index_static page" "waiter_shards t' = (waiter_shards t)[i := m]"
    and "\<And>q. q \<noteq> page \<Longrightarrow> map_of m q = map_of (waiter_shards t ! i) q"
  shows "waiters_of t' q = (if q = page then (case map_of m page of None \<Rightarrow> [] | Some queue \<Rightarrow> queue) else waiters_of t q)"
  using assms shard_index_less [of q] shard_index_less [of page] assms(4) [of q]
  by (auto simp: waiters_of_def waiter_inv_def nth_list_update)

lemma waiter_inv_update:
  assumes "waiter_inv t" "i < 64" "waiter_shards t' = (waiter_shards t)[i := m]" "distinct (map fst m)"
    and "waiter_total t' < 2 ^ 64" "waiter_count t' = word_of_nat (waiter_total t')"
  shows "waiter_inv t'"
  using assms set_update_subset_insert [of "waiter_shards t" i m] by (auto simp: waiter_inv_def)

lemma register_waiter_spec:
  assumes "waiter_inv t" "waiter_total t + 1 < 2 ^ 64"
  shows "waiter_inv (register_waiter page thread t)"
    "waiters_of (register_waiter page thread t) q = (if q = page then waiters_of t page @ [thread] else waiters_of t q)"
proof -
  let ?i = "shard_index_static page" and ?t = "register_waiter page thread t"
  define m where "m = waiter_shards t ! ?i"
  define m' where "m' = AList.update page (waiters_of t page @ [thread]) m"
  have ws: "waiter_shards ?t = (waiter_shards t)[?i := m']" "waiter_count ?t = waiter_count t + 1"
    by (auto simp: register_waiter_def m'_def m_def waiters_of_def Let_def)
  have d: "distinct (map fst m)" using assms(1) shard_index_less [of page] by (simp add: waiter_inv_def m_def)
  have "queue_total m' = queue_total m + 1"
    using queue_total_update [OF d, of page "waiters_of t page @ [thread]"] by (simp add: m'_def waiters_of_def m_def)
  then have tot: "waiter_total ?t = waiter_total t + 1"
    using waiter_total_update [OF assms(1) shard_index_less, of page m'] by (simp add: waiter_total_def ws m_def)
  show "waiter_inv ?t"
    by (rule waiter_inv_update [OF assms(1) shard_index_less ws(1)])
       (use d tot assms ws(2) in \<open>simp_all add: m'_def distinct_update waiter_inv_def\<close>)
  show "waiters_of ?t q = (if q = page then waiters_of t page @ [thread] else waiters_of t q)"
    using waiters_of_update [OF assms(1) refl ws(1), of q] by (auto simp: m'_def m_def AList.update_conv')
qed

lemma notify_page_spec:
  assumes "waiter_inv t"
  shows "unparked (notify_waiters_for_page page t) = unparked t @ waiters_of t page"
    "waiters_of (notify_waiters_for_page page t) q = (if q = page then [] else waiters_of t q)"
    "waiter_inv (notify_waiters_for_page page t)"
proof -
  let ?i = "shard_index_static page" and ?t = "notify_waiters_for_page page t"
  define m where "m = waiter_shards t ! ?i"
  have *: "unparked ?t = unparked t @ waiters_of t page \<and> waiter_inv ?t \<and>
     waiters_of ?t q = (if q = page then [] else waiters_of t q)"
  proof (cases "waiter_count t > 0 \<and> map_of m page \<noteq> None")
    case False
    then have e: "?t = t\<lparr>change_epoch := change_epoch t + 1\<rparr>"
      by (auto simp: notify_waiters_for_page_def m_def Let_def)
    have "waiters_of t page = []"
      using False waiter_total_zero [OF assms, of page] word_neq_0_conv [of "waiter_count t"]
      by (cases "waiter_count t = 0") (auto simp: waiters_of_def m_def)
    then show ?thesis using e assms by (simp add: waiters_of_def waiter_inv_def waiter_total_def)
  next
    case True
    then obtain queue where queue: "map_of m page = Some queue" by blast
    have d: "distinct (map fst m)" using assms shard_index_less [of page] by (simp add: waiter_inv_def m_def)
    have ws: "waiter_shards ?t = (waiter_shards t)[?i := AList.delete page m]"
        "waiter_count ?t = waiter_count t - word_of_nat (length queue)" "unparked ?t = unparked t @ queue"
      using True queue by (auto simp: notify_waiters_for_page_def m_def Let_def)
    have tot: "waiter_total t = waiter_total ?t + length queue"
      using waiter_total_update [OF assms shard_index_less, of page "AList.delete page m"] queue_total_delete [OF d queue]
      by (simp add: waiter_total_def ws m_def)
    have "waiter_inv ?t"
      by (rule waiter_inv_update [OF assms shard_index_less ws(1)])
         (use d tot assms ws(2) in \<open>simp_all add: AList.distinct_delete waiter_inv_def\<close>)
    then show ?thesis
      using waiters_of_update [OF assms refl ws(1), of q] ws(3) queue
      by (auto simp: waiters_of_def m_def map_of_delete_shard)
  qed
  then show "unparked ?t = unparked t @ waiters_of t page" "waiter_inv ?t"
    "waiters_of ?t q = (if q = page then [] else waiters_of t q)" by auto
qed

lemma release_silent_waiters:
  "release_silent page txn t = (r, t') \<Longrightarrow>
   waiter_shards t' = waiter_shards t \<and> waiter_count t' = waiter_count t \<and> unparked t' = unparked t"
  by (auto simp: release_silent_def release_fast_def release_sharded_def release_draining_def slot_store_def Let_def
      split: if_splits option.splits prod.splits bool.splits)

section \<open>The properties of the table\<close>

text \<open>Mutual exclusion: once a transaction was granted a page, an acquisition of that page by
  any other transaction is refused, and reports the holder, however the table is used in between by
  this and other transactions, as long as the holder does not release the page.\<close>

theorem page_lock_exclusive:
  assumes "lock_inv t" "page \<noteq> 0" "valid_txn h" "valid_txn txn" "txn \<noteq> h"
    and "try_acquire page h t = (Some (Inr ()), t')"
    and "\<forall>x \<in> set xs. op_ok x \<and> \<not> releases h page x"
  shows "fst (try_acquire page txn (fold (run_op page_lock_ops) xs t')) = Some (Inl h)"
  using plt.exclusive [OF assms(1-5), of t' xs] assms(6,7) by (simp add: page_lock_ops_def)

theorem page_lock_exclusive_witness:
  "fst (try_acquire 70000 2 (fold (run_op page_lock_ops)
     [Acquire 70001 2, Release 70000 2, ReleaseAll 2] (snd (try_acquire 70000 1 lock_table_new)))) = Some (Inl 1)"
proof (rule page_lock_exclusive [OF lock_table_new_inv])
  have "shard_index_static 70000 = 48" by (simp add: shard_index_static_def)
  then show "try_acquire 70000 1 lock_table_new = (Some (Inr ()), snd (try_acquire 70000 1 lock_table_new))"
    by (simp add: try_acquire_def lock_table_new_def draining_get_def)
qed (simp_all add: valid_txn_def TxnId_new_def MAX_RAW_def)

text \<open>C10: The two-tier table with its draining copy refines a map from pages to their holders:
  every operation succeeds without a panic, keeps the invariant, and acts on that map.\<close>

theorem page_lock_refines_map:
  assumes "lock_inv t" "page \<noteq> 0" "valid_txn txn" "0 \<notin> set pages"
  shows "holder page t = Some (lock_of t page) \<and>
    (\<exists>r t'. try_acquire page txn t = (Some r, t') \<and> lock_inv t' \<and> (r, lock_of t') = acquired page txn (lock_of t)) \<and>
    (\<exists>r t'. release page txn t = (r, t') \<and> lock_inv t' \<and> (r, lock_of t') = released page txn (lock_of t)) \<and>
    lock_inv (release_set pages txn t) \<and>
    lock_of (release_set pages txn t) = (\<lambda>p. if p \<in> set pages \<and> lock_of t p = Some txn then None else lock_of t p) \<and>
    lock_inv (release_all txn t) \<and>
    lock_of (release_all txn t) = (\<lambda>p. if lock_of t p = Some txn then None else lock_of t p)"
  using holder_lock_of [OF assms(1,2)] try_acquire_spec [OF assms(1-3)] page_release_spec [OF assms(1-3)]
    release_set_spec [OF assms(1,4,3)] release_all_spec [OF assms(1,3)] by blast

theorem page_lock_refines_map_witness:
  "holder 1 lock_table_new = Some (lock_of lock_table_new 1) \<and>
   lock_of (release_set [1, 70000] 7 lock_table_new) = Map.empty"
  using page_lock_refines_map [OF lock_table_new_inv, of 1 7 "[1, 70000]"]
  by (simp add: lock_of_new valid_txn_def TxnId_new_def MAX_RAW_def)

lemma rebuild_keeps:
  assumes "lock_inv t" "full_rebuild act timeout_ms t = (r, t')"
  shows "lock_inv t' \<and> lock_of t' \<subseteq>\<^sub>m lock_of t \<and> (\<forall>p h. lock_of t p = Some h \<and> (\<forall>n. act n h) \<longrightarrow> lock_of t' p = Some h) \<and>
     (case r of Inl e \<Rightarrow> e = AlreadyInProgress \<and> draining t \<noteq> None
      | Inr (Quiescent _ elapsed) \<Rightarrow> elapsed \<le> min timeout_ms (2 ^ 64 - 1) \<and> draining t = None \<and> draining t' = None \<and>
          (\<forall>p h. lock_of t' p = Some h \<longrightarrow> unat p \<le> 65536 \<and> act 0 h)
      | Inr (TimedOut rem _ elapsed) \<Rightarrow> elapsed = min timeout_ms (2 ^ 64 - 1) \<and> draining t = None \<and> rem = draining_lock_count t' \<and> 0 < rem)"
proof -
  define t1 where "t1 = clean_fast (act 0) t"
  note c = clean_fast_spec [OF assms(1), of "act 0", folded t1_def]
  have sub: "lock_of t1 \<subseteq>\<^sub>m lock_of t"
    unfolding map_le_def using c(3) by (auto split: if_splits option.splits)
  have live: "lock_of t1 p = Some h" if "lock_of t p = Some h" "\<forall>n. act n h" for p h using c(3) that by simp
  have fast0: "act 0 h" if "lock_of t1 p = Some h" "unat p \<le> 65536" for p h
    using c(3) [of p] that by (auto split: option.splits if_splits)
  show ?thesis
  proof (cases "draining t")
    case (Some d)
    then have "begin_rebuild t1 = (Inl AlreadyInProgress, t1)" using c(2) by (simp add: begin_rebuild_def)
    then show ?thesis using assms(2) c(1) sub live Some by (auto simp: full_rebuild_def t1_def [symmetric])
  next
    case None
    define t2 where "t2 = snd (begin_rebuild t1)"
    note b = begin_rebuild_spec [OF c(1), unfolded c(2), OF None, folded t2_def]
    obtain r2 where r: "rebuild_loop act 1 0 (min timeout_ms (2 ^ 64 - 1)) 0 t2 = (r2, t')" "r = Inr r2"
      using assms(2) b(1) by (cases "begin_rebuild t1")
        (auto simp: full_rebuild_def t1_def [symmetric] t2_def map_prod_def simp del: rebuild_loop.simps split: prod.splits)
    note l = rebuild_loop_spec [OF b(2) b(5) b(4) r(1)]
    have e: "case r2 of Quiescent _ x \<Rightarrow> x \<le> min timeout_ms (2 ^ 64 - 1) | TimedOut _ _ x \<Rightarrow> x = min timeout_ms (2 ^ 64 - 1)"
      using rebuild_loop_elapsed [OF r(1)] by (cases r2) auto
    have "lock_of t' \<subseteq>\<^sub>m lock_of t" using l sub b(3) map_le_trans by (auto simp: drained_def)
    moreover have "lock_of t' p = Some h" if "lock_of t p = Some h" "\<forall>n. act n h" for p h
      using l live [OF that] that(2) b(3) by (simp add: drained_def)
    moreover have "unat p \<le> 65536 \<and> act 0 h"
      if "lock_of t' p = Some h" "\<forall>p. 65536 < unat p \<longrightarrow> lock_of t' p = None" for p h
    proof -
      have small: "unat p \<le> 65536" using that by (cases "unat p \<le> 65536") auto
      then have "lock_of t1 p = Some h" using l that(1) b(3) by (simp add: drained_def)
      then show ?thesis using fast0 small by blast
    qed
    ultimately show ?thesis using l r(2) e None by (cases r2) auto
  qed
qed

text \<open>C26: A full rebuild keeps the invariant, adds no lock and drops no lock of a transaction that is active in every
  pass.  It always returns: its budget is the timeout in milliseconds (at most the largest 64-bit number), it sleeps one
  millisecond between two passes over the draining table, and the time it reports, the sum of these, is within the budget, and
  all of it when it times out; so it makes at most one pass more than its budget, and what the predicate would answer in any later pass
  does not matter.  It is refused exactly when a rebuild is already running.
  When it reports quiescence the draining table is gone and the only locks left are fast-array locks of
  transactions that were active at the start; when it times out, the locks it says remain are those of the draining table.\<close>

theorem full_rebuild_keeps_live_locks:
  assumes "lock_inv t" "full_rebuild act timeout_ms t = (r, t')"
  shows "lock_inv t' \<and> lock_of t' \<subseteq>\<^sub>m lock_of t \<and>
    (let budget = min timeout_ms (2 ^ 64 - 1) in
     (\<forall>p h. lock_of t p = Some h \<and> (\<forall>n \<le> budget + 1. act n h) \<longrightarrow> lock_of t' p = Some h) \<and>
     (\<forall>act'. (\<forall>n \<le> budget + 1. act' n = act n) \<longrightarrow> full_rebuild act' timeout_ms t = (r, t')) \<and>
     (case r of Inl e \<Rightarrow> e = AlreadyInProgress \<and> draining t \<noteq> None
      | Inr (Quiescent _ elapsed) \<Rightarrow> elapsed \<le> budget \<and> draining t = None \<and> draining t' = None \<and>
          (\<forall>p h. lock_of t' p = Some h \<longrightarrow> unat p \<le> 65536 \<and> act 0 h)
      | Inr (TimedOut rem _ elapsed) \<Rightarrow> elapsed = budget \<and> draining t = None \<and> rem = draining_lock_count t' \<and> 0 < rem))"
proof -
  define budget where "budget = min timeout_ms (2 ^ 64 - 1)"
  have passes: "full_rebuild act' timeout_ms t = (r, t')" if "\<forall>n \<le> budget + 1. act' n = act n" for act'
  proof -
    have "rebuild_loop act' 1 0 budget 0 t2 = rebuild_loop act 1 0 budget 0 t2" for t2
      by (rule rebuild_loop_passes) (use that in auto)
    moreover have "act' 0 = act 0" using that by simp
    ultimately show ?thesis using assms(2) unfolding full_rebuild_def budget_def [symmetric] by (simp only:)
  qed
  have kept: "lock_inv t' \<and> lock_of t' \<subseteq>\<^sub>m lock_of t \<and> (\<forall>p h. lock_of t p = Some h \<and> (\<forall>n. act n h) \<longrightarrow> lock_of t' p = Some h) \<and>
     (case r of Inl e \<Rightarrow> e = AlreadyInProgress \<and> draining t \<noteq> None
      | Inr (Quiescent _ elapsed) \<Rightarrow> elapsed \<le> budget \<and> draining t = None \<and> draining t' = None \<and>
          (\<forall>p h. lock_of t' p = Some h \<longrightarrow> unat p \<le> 65536 \<and> act 0 h)
      | Inr (TimedOut rem _ elapsed) \<Rightarrow> elapsed = budget \<and> draining t = None \<and> rem = draining_lock_count t' \<and> 0 < rem)" (is "?kept act")
    if "full_rebuild act timeout_ms t = (r, t')" for act
    unfolding budget_def by (rule rebuild_keeps [OF assms(1) that])
  have "lock_of t' p = Some h" if h: "lock_of t p = Some h" "\<forall>n \<le> budget + 1. act n h" for p h
  proof -
    let ?act = "\<lambda>n. if n \<le> budget + 1 then act n else (\<lambda>_. True)"
    have "full_rebuild ?act timeout_ms t = (r, t')" by (rule passes) simp
    then show ?thesis using kept [of ?act] h by simp
  qed
  then show ?thesis unfolding Let_def budget_def [symmetric] using kept [OF assms(2)] passes by blast
qed

theorem full_rebuild_keeps_live_locks_witness:
  "lock_of (snd (full_rebuild (\<lambda>n h. h = 1) 5 (snd (try_acquire 70000 1 lock_table_new)))) 70000 = Some 1 \<and>
   (\<exists>rem c. fst (full_rebuild (\<lambda>n h. h = 1) 5 (snd (try_acquire 70000 1 lock_table_new))) = Inr (TimedOut rem c 5))"
proof -
  let ?t = "snd (try_acquire 70000 1 lock_table_new)"
  obtain r t1 where t: "try_acquire 70000 1 lock_table_new = (Some r, t1)" "lock_inv t1"
      "(r, lock_of t1) = acquired 70000 1 (lock_of lock_table_new)"
    using try_acquire_spec [OF lock_table_new_inv, of 70000 1] by (auto simp: valid_txn_def TxnId_new_def MAX_RAW_def)
  then have l: "lock_of ?t 70000 = Some 1" "lock_inv ?t" by (auto simp: acquired_def lock_of_new)
  have "shard_index_static 70000 = 48" by (simp add: shard_index_static_def)
  then have d: "draining ?t = None" by (simp add: try_acquire_def lock_table_new_def draining_get_def)
  obtain q t' where q: "full_rebuild (\<lambda>n h. h = 1) 5 ?t = (q, t')" by fastforce
  note p = full_rebuild_keeps_live_locks [OF l(2) q, unfolded Let_def]
  note live = conjunct1 [OF conjunct2 [OF conjunct2 [OF p]]] and out = conjunct2 [OF conjunct2 [OF conjunct2 [OF conjunct2 [OF p]]]]
  have k: "lock_of t' 70000 = Some 1" using live l(1) by simp
  have "\<exists>rem c. q = Inr (TimedOut rem c 5)"
  proof (cases q)
    case (Inl e)
    then show ?thesis using out d by simp
  next
    case (Inr x)
    show ?thesis
    proof (cases x)
      case (Quiescent c e)
      then have "\<forall>p h. lock_of t' p = Some h \<longrightarrow> unat p \<le> 65536" using out Inr by simp
      then have "unat (70000 :: u32) \<le> 65536" using k by blast
      then show ?thesis by simp
    qed (use out Inr in auto)
  qed
  then show ?thesis using k q by simp
qed

text \<open>Waking: a release that frees the page unparks exactly the threads queued for that page, in
  the order they registered, and leaves the queues of all other pages as they are; a release
  that frees nothing wakes nobody.\<close>

theorem release_wakes_waiters:
  assumes "waiter_inv t" "release page txn t = (freed, t')"
  shows "waiter_inv t' \<and>
    unparked t' = unparked t @ (if freed then waiters_of t page else []) \<and>
    (\<forall>q. waiters_of t' q = (if freed \<and> q = page then [] else waiters_of t q))"
proof -
  obtain r u where u: "release_silent page txn t = (r, u)" by fastforce
  note w = release_silent_waiters [OF u]
  have inv: "waiter_inv u" "\<And>q. waiters_of u q = waiters_of t q"
    using w assms(1) by (auto simp: waiter_inv_def waiter_total_def waiters_of_def)
  show ?thesis
    using notify_page_spec [OF inv(1), of page] inv w assms(2) u
    by (cases r) (auto simp: release_def)
qed

theorem release_wakes_waiters_witness:
  "unparked (snd (release 70000 1 (register_waiter 70001 4 (register_waiter 70000 3
     (snd (try_acquire 70000 1 lock_table_new)))))) = [3]"
proof -
  have i: "shard_index_static 70000 = 48" "shard_index_static 70001 = 49" by (simp_all add: shard_index_static_def)
  define b where "b = snd (try_acquire 70000 1 lock_table_new)"
  let ?t = "register_waiter 70001 4 (register_waiter 70000 3 b)"
  have n: "waiter_inv b" "waiter_total b = 0" "waiters_of b 70000 = []"
    by (simp_all add: b_def try_acquire_def lock_table_new_def draining_get_def waiter_inv_def waiter_total_def
        waiters_of_def queue_total_def i sum_list_replicate)
  note r1 = register_waiter_spec [OF n(1), of 70000 3]
  have "waiter_total (register_waiter 70000 3 b) = 1"
    by (simp add: b_def register_waiter_def try_acquire_def lock_table_new_def draining_get_def waiter_total_def
        queue_total_def i Let_def map_update sum_list_update sum_list_replicate)
  then have inv: "waiter_inv ?t" "waiters_of ?t 70000 = [3]"
    using register_waiter_spec [of "register_waiter 70000 3 b" 70001 4] r1 n by simp_all
  have "fst (release 70000 1 ?t)" "unparked ?t = []"
    by (simp_all add: b_def release_def release_silent_def release_sharded_def register_waiter_def try_acquire_def
        lock_table_new_def draining_get_def i Let_def)
  then show ?thesis
    using release_wakes_waiters [OF inv(1) prod.collapse [symmetric], of 70000 1] inv(2) by (simp add: b_def)
qed

end
