(* ===== verification/CommitIndex.thy ===== *)
theory CommitIndex
  imports PageLocks
begin

text \<open>
  \<open>CommitIndex\<close> and \<open>LeftRightCommitIndexShard\<close> of
  \<open>crates/fsqlite-mvcc/src/core_types.rs\<close>: the latest commit sequence of every page.  Pages up to
  65536 are words of lazily allocated chunks, larger pages live in 64 left-right shards, each with
  two copies of its map so that readers never wait.  The operations of the index are functions; the
  left-right protocol is also given as a step relation in which one writer and any number of readers
  interleave at every atomic access, with the history of published maps as a ghost component.
\<close>

section \<open>One left-right shard\<close>

type_synonym CommitMap = "(PageNumber \<times> u64) list"

record LeftRight =
  lr_left :: CommitMap
  lr_right :: CommitMap
  lr_active :: u64
  lr_left_readers :: u64
  lr_right_readers :: u64

definition lr_new :: LeftRight where
  "lr_new = \<lparr>lr_left = [], lr_right = [], lr_active = 0, lr_left_readers = 0, lr_right_readers = 0\<rparr>"

definition lr_data :: "u64 \<Rightarrow> LeftRight \<Rightarrow> CommitMap" where
  "lr_data side sh = (if side = 0 then lr_left sh else lr_right sh)"

definition lr_insert :: "u64 \<Rightarrow> PageNumber \<Rightarrow> u64 \<Rightarrow> LeftRight \<Rightarrow> LeftRight" where
  "lr_insert side page seq sh =
     (if side = 0 then sh\<lparr>lr_left := AList.update page seq (lr_left sh)\<rparr>
      else sh\<lparr>lr_right := AList.update page seq (lr_right sh)\<rparr>)"

definition lr_readers :: "u64 \<Rightarrow> LeftRight \<Rightarrow> u64" where
  "lr_readers side sh = (if side = 0 then lr_left_readers sh else lr_right_readers sh)"

definition lr_readers_add :: "u64 \<Rightarrow> u64 \<Rightarrow> LeftRight \<Rightarrow> LeftRight" where
  "lr_readers_add side d sh =
     (if side = 0 then sh\<lparr>lr_left_readers := lr_left_readers sh + d\<rparr>
      else sh\<lparr>lr_right_readers := lr_right_readers sh + d\<rparr>)"

text \<open>The writer's critical section, its two writes and its flip, when no reader is inside; and the
  first round of a read that no writer overtakes.\<close>

definition lr_write_inactive :: "PageNumber \<Rightarrow> u64 \<Rightarrow> LeftRight \<Rightarrow> LeftRight" where
  "lr_write_inactive page seq sh = lr_insert (if lr_active sh = 0 then 1 else 0) page seq sh"

definition lr_flip :: "LeftRight \<Rightarrow> LeftRight" where
  "lr_flip sh = sh\<lparr>lr_active := 1 - lr_active sh\<rparr>"

definition lr_update :: "PageNumber \<Rightarrow> u64 \<Rightarrow> LeftRight \<Rightarrow> LeftRight" where
  "lr_update page seq sh =
     (let active = lr_active sh in
      lr_insert (if active = 0 then 0 else 1) page seq (lr_flip (lr_write_inactive page seq sh)))"

definition lr_latest :: "PageNumber \<Rightarrow> LeftRight \<Rightarrow> u64 option" where
  "lr_latest page sh = map_of (lr_data (lr_active sh) sh) page"

definition lr_len :: "LeftRight \<Rightarrow> nat" where
  "lr_len sh = (if lr_active sh = 0 then length (lr_left sh) else length (lr_right sh))"

section \<open>Readers and a writer, interleaved\<close>

datatype writer_pc = WIdle | WLocked u64 PageNumber u64 | WWrote u64 PageNumber u64 | WFlipped u64 PageNumber u64 | WDrained u64 PageNumber u64

text \<open>A reader carries the page it looks up and, as a ghost, the number of the map that was published
  when its call began; a validated reader also the number of the map published at that moment.\<close>

datatype reader_pc =
    RIdle | RStart PageNumber nat | RLoaded u64 PageNumber nat | RPinned u64 PageNumber nat
  | RValid u64 PageNumber nat nat | RRetry u64 PageNumber nat | RUnpin u64 PageNumber nat nat "u64 option"
  | RDone PageNumber nat nat "u64 option"

record LRSystem =
  sys_shard :: LeftRight
  sys_writer :: writer_pc
  sys_readers :: "reader_pc list"
  sys_published :: "CommitMap list"

definition lr_init :: "nat \<Rightarrow> LRSystem" where
  "lr_init n = \<lparr>sys_shard = lr_new, sys_writer = WIdle, sys_readers = replicate n RIdle, sys_published = [[]]\<rparr>"

definition lr_other :: "u64 \<Rightarrow> u64" where
  "lr_other active = (if active = 0 then 1 else 0)"

definition lr_version :: "LRSystem \<Rightarrow> nat" where
  "lr_version s = length (sys_published s) - 1"

inductive lr_step :: "LRSystem \<Rightarrow> LRSystem \<Rightarrow> bool" where
  writer_lock: "sys_writer s = WIdle \<Longrightarrow>
    lr_step s (s\<lparr>sys_writer := WLocked (lr_active (sys_shard s)) page seq\<rparr>)"
| writer_write: "sys_writer s = WLocked a page seq \<Longrightarrow>
    lr_step s (s\<lparr>sys_writer := WWrote a page seq, sys_shard := lr_insert (lr_other a) page seq (sys_shard s)\<rparr>)"
| writer_flip: "sys_writer s = WWrote a page seq \<Longrightarrow>
    lr_step s (s\<lparr>sys_writer := WFlipped a page seq, sys_shard := (sys_shard s)\<lparr>lr_active := 1 - a\<rparr>,
      sys_published := sys_published s @ [lr_data (1 - a) (sys_shard s)]\<rparr>)"
| writer_drained: "sys_writer s = WFlipped a page seq \<Longrightarrow> lr_readers a (sys_shard s) = 0 \<Longrightarrow>
    lr_step s (s\<lparr>sys_writer := WDrained a page seq\<rparr>)"
| writer_finish: "sys_writer s = WDrained a page seq \<Longrightarrow>
    lr_step s (s\<lparr>sys_writer := WIdle, sys_shard := lr_insert a page seq (sys_shard s)\<rparr>)"
| reader_call: "i < length (sys_readers s) \<Longrightarrow> sys_readers s ! i = RIdle \<Longrightarrow>
    lr_step s (s\<lparr>sys_readers := (sys_readers s)[i := RStart page (lr_version s)]\<rparr>)"
| reader_load: "i < length (sys_readers s) \<Longrightarrow> sys_readers s ! i = RStart page k \<Longrightarrow>
    lr_step s (s\<lparr>sys_readers := (sys_readers s)[i := RLoaded (lr_active (sys_shard s)) page k]\<rparr>)"
| reader_pin: "i < length (sys_readers s) \<Longrightarrow> sys_readers s ! i = RLoaded side page k \<Longrightarrow>
    lr_step s (s\<lparr>sys_readers := (sys_readers s)[i := RPinned side page k],
      sys_shard := lr_readers_add side 1 (sys_shard s)\<rparr>)"
| reader_valid: "i < length (sys_readers s) \<Longrightarrow> sys_readers s ! i = RPinned side page k \<Longrightarrow> lr_active (sys_shard s) = side \<Longrightarrow>
    lr_step s (s\<lparr>sys_readers := (sys_readers s)[i := RValid side page k (lr_version s)]\<rparr>)"
| reader_stale: "i < length (sys_readers s) \<Longrightarrow> sys_readers s ! i = RPinned side page k \<Longrightarrow> lr_active (sys_shard s) \<noteq> side \<Longrightarrow>
    lr_step s (s\<lparr>sys_readers := (sys_readers s)[i := RRetry side page k]\<rparr>)"
| reader_read: "i < length (sys_readers s) \<Longrightarrow> sys_readers s ! i = RValid side page k v \<Longrightarrow>
    lr_step s (s\<lparr>sys_readers := (sys_readers s)[i := RUnpin side page k v (map_of (lr_data side (sys_shard s)) page)]\<rparr>)"
| reader_return: "i < length (sys_readers s) \<Longrightarrow> sys_readers s ! i = RUnpin side page k v r \<Longrightarrow>
    lr_step s (s\<lparr>sys_readers := (sys_readers s)[i := RDone page k v r], sys_shard := lr_readers_add side (- 1) (sys_shard s)\<rparr>)"
| reader_again: "i < length (sys_readers s) \<Longrightarrow> sys_readers s ! i = RRetry side page k \<Longrightarrow>
    lr_step s (s\<lparr>sys_readers := (sys_readers s)[i := RStart page k], sys_shard := lr_readers_add side (- 1) (sys_shard s)\<rparr>)"
| reader_done: "i < length (sys_readers s) \<Longrightarrow> sys_readers s ! i = RDone page k v r \<Longrightarrow>
    lr_step s (s\<lparr>sys_readers := (sys_readers s)[i := RIdle]\<rparr>)"

inductive lr_reachable :: "LRSystem \<Rightarrow> bool" where
  reach_init: "n < 2 ^ 64 \<Longrightarrow> lr_reachable (lr_init n)"
| reach_step: "lr_reachable s \<Longrightarrow> lr_step s s' \<Longrightarrow> lr_reachable s'"

section \<open>The index\<close>

record CommitIndex =
  latest_global :: u64
  fast_array :: "u64 list option list"
  ci_shards :: "LeftRight list"

definition commit_index_new :: CommitIndex where
  "commit_index_new =
     \<lparr>latest_global = 0, fast_array = replicate FAST_LOCK_CHUNKS None, ci_shards = replicate LOCK_TABLE_SHARDS lr_new\<rparr>"

definition fast_slot_store :: "nat \<Rightarrow> u64 \<Rightarrow> u64 list option list \<Rightarrow> u64 list option list" where
  "fast_slot_store pgno v fa =
     (if pgno = 0 \<or> pgno > FAST_LOCK_ARRAY_SIZE then fa
      else let (chunk_index, chunk_offset) = slot_of pgno;
               chunk = (case fa ! chunk_index of None \<Rightarrow> replicate FAST_LOCK_CHUNK_SIZE 0 | Some c \<Rightarrow> c) in
        fa[chunk_index := Some (chunk[chunk_offset := v])])"

definition fast_slot_load :: "nat \<Rightarrow> u64 list option list \<Rightarrow> u64 option" where
  "fast_slot_load pgno fa =
     (if pgno = 0 \<or> pgno > FAST_LOCK_ARRAY_SIZE then None
      else let (chunk_index, chunk_offset) = slot_of pgno in
        map_option (\<lambda>chunk. chunk ! chunk_offset) (fa ! chunk_index))"

definition ci_store :: "PageNumber \<Rightarrow> u64 \<Rightarrow> CommitIndex \<Rightarrow> CommitIndex" where
  "ci_store page seq ci =
     (if unat page \<le> FAST_LOCK_ARRAY_SIZE
      then ci\<lparr>fast_array := fast_slot_store (unat page) seq (fast_array ci)\<rparr>
      else ci\<lparr>ci_shards := (ci_shards ci)[shard_index_static page :=
                lr_update page seq (ci_shards ci ! shard_index_static page)]\<rparr>)"

definition ci_update :: "PageNumber \<Rightarrow> u64 \<Rightarrow> CommitIndex \<Rightarrow> CommitIndex" where
  "ci_update page seq ci = ci_store page seq (ci\<lparr>latest_global := max (latest_global ci) seq\<rparr>)"

definition batch_update :: "PageNumber list \<Rightarrow> u64 \<Rightarrow> CommitIndex \<Rightarrow> CommitIndex" where
  "batch_update pages seq ci =
     (if pages = [] then ci
      else fold (\<lambda>page. ci_store page seq) pages (ci\<lparr>latest_global := max (latest_global ci) seq\<rparr>))"

definition ci_latest :: "PageNumber \<Rightarrow> CommitIndex \<Rightarrow> u64 option" where
  "ci_latest page ci =
     (if unat page \<le> FAST_LOCK_ARRAY_SIZE
      then case fast_slot_load (unat page) (fast_array ci) of
          None \<Rightarrow> None
        | Some val \<Rightarrow> if val = 0 then None else Some val
      else lr_latest page (ci_shards ci ! shard_index_static page))"

definition ci_latest_seq :: "CommitIndex \<Rightarrow> u64 option" where
  "ci_latest_seq ci = (let raw = latest_global ci in if raw = 0 then None else Some raw)"

section \<open>The index refines a map\<close>

definition lr_ok :: "LeftRight \<Rightarrow> bool" where
  "lr_ok sh = ((lr_active sh = 0 \<or> lr_active sh = 1) \<and> lr_left sh = lr_right sh)"

lemma lr_update_ok: "lr_ok sh \<Longrightarrow> lr_ok (lr_update page seq sh)"
  by (auto simp: lr_ok_def lr_update_def lr_flip_def lr_write_inactive_def lr_insert_def Let_def)

lemma lr_latest_update:
  "lr_ok sh \<Longrightarrow> lr_latest q (lr_update page seq sh) = (if q = page then Some seq else lr_latest q sh)"
  by (auto simp: lr_ok_def lr_latest_def lr_update_def lr_flip_def lr_write_inactive_def lr_insert_def lr_data_def
      Let_def AList.update_conv')

definition ci_inv :: "CommitIndex \<Rightarrow> bool" where
  "ci_inv ci =
     (length (fast_array ci) = FAST_LOCK_CHUNKS \<and>
      (\<forall>chunk. Some chunk \<in> set (fast_array ci) \<longrightarrow> length chunk = FAST_LOCK_CHUNK_SIZE) \<and>
      length (ci_shards ci) = LOCK_TABLE_SHARDS \<and> (\<forall>sh \<in> set (ci_shards ci). lr_ok sh))"

lemma fast_slot_load_store:
  assumes "length fa = 64" "\<forall>chunk. Some chunk \<in> set fa \<longrightarrow> length chunk = 1024"
    and "0 < n" "n \<le> 65536" "0 < m" "m \<le> 65536"
  shows "fast_slot_load m (fast_slot_store n v fa) =
    (if m = n then Some v
     else if fa ! fst (slot_of m) = None \<and> fst (slot_of m) = fst (slot_of n) then Some 0 else fast_slot_load m fa)"
proof -
  obtain ci co di dx where s: "slot_of n = (ci, co)" "slot_of m = (di, dx)" by fastforce
  have b: "ci < 64" "co < 1024" "di < 64" "dx < 1024" using slot_of_bounds [OF assms(3,4)] slot_of_bounds [OF assms(5,6)] s by auto
  have len: "fa ! ci = Some c \<Longrightarrow> length c = 1024" for c
    using assms(1,2) b by (metis nth_mem)
  have "m = n \<longleftrightarrow> di = ci \<and> dx = co" using slot_of_inject [OF assms(5,3)] s by auto
  then show ?thesis
    using assms s b len by (cases "fa ! ci") (auto simp: fast_slot_load_def fast_slot_store_def nth_list_update)
qed

lemma ci_store_spec:
  assumes "ci_inv ci" "page \<noteq> 0" "seq \<noteq> 0"
  shows "ci_inv (ci_store page seq ci)"
    "q \<noteq> 0 \<Longrightarrow> ci_latest q (ci_store page seq ci) = (if q = page then Some seq else ci_latest q ci)"
proof -
  have pos: "0 < unat page" using assms(2) by (simp add: unat_gt_0)
  have fa: "length (fast_array ci) = 64"
      "\<forall>chunk. Some chunk \<in> set (fast_array ci) \<longrightarrow> length chunk = 1024"
      "length (ci_shards ci) = 64" "\<forall>sh \<in> set (ci_shards ci). lr_ok sh"
    using assms(1) by (auto simp: ci_inv_def)
  have ok: "lr_ok (ci_shards ci ! shard_index_static page)" using fa(3,4) shard_index_less [of page] by simp
  show "ci_inv (ci_store page seq ci)"
  proof (cases "unat page \<le> 65536")
    case True
    obtain ci' co where s: "slot_of (unat page) = (ci', co)" by fastforce
    define chunk where "chunk = (case fast_array ci ! ci' of None \<Rightarrow> replicate 1024 0 | Some c \<Rightarrow> c)[co := seq]"
    have "ci' < 64" using slot_of_bounds [OF pos True] s by simp
    then have "fast_array ci ! ci' = Some c \<Longrightarrow> length c = 1024" for c using fa(1,2) by (metis nth_mem)
    then have "length chunk = 1024" by (simp add: chunk_def split: option.split)
    moreover have "fast_slot_store (unat page) seq (fast_array ci) = (fast_array ci)[ci' := Some chunk]"
      using True pos s by (simp add: fast_slot_store_def chunk_def cong: option.case_cong)
    ultimately show ?thesis
      using True fa set_update_subset_insert [of "fast_array ci" ci' "Some chunk"]
      by (auto simp: ci_store_def ci_inv_def)
  next
    case False
    then show ?thesis
      using fa set_update_subset_insert [of "ci_shards ci" "shard_index_static page"] lr_update_ok [OF ok]
      by (fastforce simp: ci_store_def ci_inv_def)
  qed
  show "ci_latest q (ci_store page seq ci) = (if q = page then Some seq else ci_latest q ci)" if "q \<noteq> 0"
  proof (cases "unat page \<le> 65536")
    case True
    have q: "0 < unat q" using that by (simp add: unat_gt_0)
    show ?thesis
      using True assms(3) fast_slot_load_store [OF fa(1,2) pos True q, of seq] q
      by (auto simp: ci_latest_def ci_store_def word_unat_eq_iff fast_slot_load_def split: option.splits prod.splits)
  next
    case False
    then show ?thesis
      using fa(3) shard_index_less [of page] shard_index_less [of q] lr_latest_update [OF ok]
      by (auto simp: ci_latest_def ci_store_def nth_list_update)
  qed
qed

lemma latest_global_simps [simp]:
  "ci_inv (ci\<lparr>latest_global := x\<rparr>) = ci_inv ci" "ci_latest q (ci\<lparr>latest_global := x\<rparr>) = ci_latest q ci"
  by (simp_all add: ci_inv_def ci_latest_def)

lemma store_all_spec:
  "ci_inv ci \<Longrightarrow> 0 \<notin> set pages \<Longrightarrow> seq \<noteq> 0 \<Longrightarrow>
   ci_inv (fold (\<lambda>page. ci_store page seq) pages ci) \<and>
   (q \<noteq> 0 \<longrightarrow> ci_latest q (fold (\<lambda>page. ci_store page seq) pages ci) = (if q \<in> set pages then Some seq else ci_latest q ci))"
proof (induction pages arbitrary: ci)
  case (Cons page pages)
  have "ci_inv (ci_store page seq ci)" "q \<noteq> 0 \<Longrightarrow> ci_latest q (ci_store page seq ci) = (if q = page then Some seq else ci_latest q ci)"
    using ci_store_spec [of ci page seq] Cons.prems by auto
  then show ?case using Cons.IH [of "ci_store page seq ci"] Cons.prems by auto
qed simp

lemma batch_update_spec:
  assumes "ci_inv ci" "0 \<notin> set pages" "seq \<noteq> 0"
  shows "ci_inv (batch_update pages seq ci)"
    "q \<noteq> 0 \<Longrightarrow> ci_latest q (batch_update pages seq ci) = (if q \<in> set pages then Some seq else ci_latest q ci)"
  using store_all_spec [of "ci\<lparr>latest_global := max (latest_global ci) seq\<rparr>" pages seq q] assms
  by (simp_all add: batch_update_def)

lemma commit_index_new_inv: "ci_inv commit_index_new"
  by (auto simp: ci_inv_def commit_index_new_def lr_ok_def lr_new_def)

lemma ci_latest_new: "ci_latest page commit_index_new = None"
  using slot_of_bounds [of "unat page"] shard_index_less [of page]
  by (auto simp: ci_latest_def commit_index_new_def fast_slot_load_def lr_latest_def lr_new_def lr_data_def split: prod.split)

section \<open>The invariant of the interleaved protocol\<close>

fun pinned :: "u64 \<Rightarrow> reader_pc \<Rightarrow> bool" where
  "pinned side (RPinned x _ _) = (x = side)"
| "pinned side (RValid x _ _ _) = (x = side)"
| "pinned side (RRetry x _ _) = (x = side)"
| "pinned side (RUnpin x _ _ _ _) = (x = side)"
| "pinned side _ = False"

fun reader_ok :: "LRSystem \<Rightarrow> reader_pc \<Rightarrow> bool" where
  "reader_ok s RIdle = True"
| "reader_ok s (RStart page k) = (k < length (sys_published s))"
| "reader_ok s (RLoaded side page k) = (side \<in> {0, 1} \<and> k < length (sys_published s))"
| "reader_ok s (RPinned side page k) = (side \<in> {0, 1} \<and> k < length (sys_published s))"
| "reader_ok s (RRetry side page k) = (side \<in> {0, 1} \<and> k < length (sys_published s))"
| "reader_ok s (RValid side page k v) =
     (side \<in> {0, 1} \<and> k \<le> v \<and> v < length (sys_published s) \<and> sys_published s ! v = lr_data side (sys_shard s) \<and>
      (side = lr_active (sys_shard s) \<or> (\<exists>p q. sys_writer s = WFlipped side p q)))"
| "reader_ok s (RUnpin side page k v r) =
     (side \<in> {0, 1} \<and> k \<le> v \<and> v < length (sys_published s) \<and> r = map_of (sys_published s ! v) page)"
| "reader_ok s (RDone page k v r) = (k \<le> v \<and> v < length (sys_published s) \<and> r = map_of (sys_published s ! v) page)"

definition writer_ok :: "LRSystem \<Rightarrow> bool" where
  "writer_ok s =
     (let sh = sys_shard s in
      case sys_writer s of
        WIdle \<Rightarrow> lr_left sh = lr_right sh
      | WLocked a page seq \<Rightarrow> a = lr_active sh \<and> lr_left sh = lr_right sh
      | WWrote a page seq \<Rightarrow> a = lr_active sh \<and> lr_data (lr_other a) sh = AList.update page seq (lr_data a sh)
      | WFlipped a page seq \<Rightarrow> a \<in> {0, 1} \<and> lr_active sh = lr_other a \<and> lr_data (lr_other a) sh = AList.update page seq (lr_data a sh)
      | WDrained a page seq \<Rightarrow> a \<in> {0, 1} \<and> lr_active sh = lr_other a \<and> lr_data (lr_other a) sh = AList.update page seq (lr_data a sh))"

definition counters_ok :: "LRSystem \<Rightarrow> bool" where
  "counters_ok s =
     (length (sys_readers s) < 2 ^ 64 \<and>
      (\<forall>side \<in> {0, 1}. lr_readers side (sys_shard s) = word_of_nat (length (filter (pinned side) (sys_readers s)))))"

definition lr_inv :: "LRSystem \<Rightarrow> bool" where
  "lr_inv s =
     (lr_active (sys_shard s) \<in> {0, 1} \<and> sys_published s \<noteq> [] \<and>
      sys_published s ! lr_version s = lr_data (lr_active (sys_shard s)) (sys_shard s) \<and>
      writer_ok s \<and> counters_ok s \<and> (\<forall>r \<in> set (sys_readers s). reader_ok s r))"

lemma length_filter_update:
  "i < length xs \<Longrightarrow>
   length (filter P (xs[i := y])) + (if P (xs ! i) then 1 else 0) = length (filter P xs) + (if P y then 1 else 0)"
proof (induction xs arbitrary: i)
  case (Cons x xs)
  then show ?case by (cases i) auto
qed simp

lemma lr_fields [simp]:
  "lr_active (lr_readers_add side d sh) = lr_active sh" "lr_data x (lr_readers_add side d sh) = lr_data x sh"
  "lr_left (lr_readers_add side d sh) = lr_left sh" "lr_right (lr_readers_add side d sh) = lr_right sh"
  "lr_active (lr_insert x page seq sh) = lr_active sh" "lr_readers side (lr_insert x page seq sh) = lr_readers side sh"
  "lr_readers side (sh\<lparr>lr_active := a\<rparr>) = lr_readers side sh" "lr_data x (sh\<lparr>lr_active := a\<rparr>) = lr_data x sh"
  by (auto simp: lr_readers_add_def lr_data_def lr_insert_def lr_readers_def)

lemma lr_readers_add_readers:
  "side \<in> {0, 1} \<Longrightarrow> x \<in> {0, 1} \<Longrightarrow>
   lr_readers x (lr_readers_add side d sh) = (if x = side then lr_readers x sh + d else lr_readers x sh)"
  by (auto simp: lr_readers_add_def lr_readers_def)

lemma lr_data_insert:
  "x \<in> {0, 1} \<Longrightarrow> y \<in> {0, 1} \<Longrightarrow>
   lr_data x (lr_insert y page seq sh) = (if x = y then AList.update page seq (lr_data x sh) else lr_data x sh)"
  by (auto simp: lr_insert_def lr_data_def)

lemma lr_other_simps [simp]: "lr_other 0 = 1" "lr_other 1 = 0"
  by (simp_all add: lr_other_def)

text \<open>A step of reader \<open>i\<close>: only its program counter and one reader count change.\<close>

lemma reader_ok_cong:
  "lr_active (sys_shard s) = lr_active (sys_shard s') \<Longrightarrow> sys_writer s = sys_writer s' \<Longrightarrow>
   sys_published s = sys_published s' \<Longrightarrow> (\<And>x. lr_data x (sys_shard s) = lr_data x (sys_shard s')) \<Longrightarrow>
   reader_ok s r = reader_ok s' r"
  by (cases r) auto

lemma reader_step_inv:
  assumes inv: "lr_inv s" and i: "i < length (sys_readers s)"
    and s': "s' = s\<lparr>sys_readers := (sys_readers s)[i := r'], sys_shard := sh\<rparr>"
    and sh: "sh = sys_shard s \<and> (\<forall>side. pinned side r' = pinned side (sys_readers s ! i)) \<or>
      (\<exists>x \<in> {0, 1}. sh = lr_readers_add x 1 (sys_shard s) \<and> (\<forall>side. \<not> pinned side (sys_readers s ! i)) \<and> (\<forall>side. pinned side r' = (side = x))) \<or>
      (\<exists>x \<in> {0, 1}. sh = lr_readers_add x (- 1) (sys_shard s) \<and> (\<forall>side. pinned side (sys_readers s ! i) = (side = x)) \<and> (\<forall>side. \<not> pinned side r'))"
    and r': "reader_ok s r'"
  shows "lr_inv s'"
proof -
  have eqs: "lr_active sh = lr_active (sys_shard s)" "\<And>x. lr_data x sh = lr_data x (sys_shard s)"
      "lr_left sh = lr_left (sys_shard s)" "lr_right sh = lr_right (sys_shard s)"
    using sh by auto
  have ok: "reader_ok s' r = reader_ok s r" for r
    by (rule reader_ok_cong) (auto simp: s' eqs)
  have "\<forall>r \<in> set (sys_readers s'). reader_ok s' r"
    using inv r' ok set_update_subset_insert [of "sys_readers s" i r'] by (auto simp: s' lr_inv_def)
  moreover have "writer_ok s'"
    using inv by (cases "sys_writer s") (simp_all add: lr_inv_def writer_ok_def s' eqs Let_def)
  moreover have "counters_ok s'"
  proof -
    have c: "lr_readers side sh = word_of_nat (length (filter (pinned side) ((sys_readers s)[i := r'])))" if "side \<in> {0, 1}" for side
    proof -
      have old: "lr_readers side (sys_shard s) = word_of_nat (length (filter (pinned side) (sys_readers s)))"
        using inv that by (auto simp: lr_inv_def counters_ok_def)
      have "of_nat (length (filter (pinned side) ((sys_readers s)[i := r']))) + (if pinned side (sys_readers s ! i) then 1 else 0)
          = (of_nat (length (filter (pinned side) (sys_readers s))) + (if pinned side r' then 1 else 0) :: u64)"
        using arg_cong [OF length_filter_update [OF i, of "pinned side" r'], of "of_nat :: nat \<Rightarrow> u64"]
        by (simp split: if_splits)
      then show ?thesis using sh old that by (auto simp: lr_readers_add_readers algebra_simps split: if_splits)
    qed
    then show ?thesis using inv by (auto simp: lr_inv_def counters_ok_def s')
  qed
  ultimately show ?thesis using inv by (auto simp: lr_inv_def s' eqs lr_version_def)
qed

lemma reader_move_inv:
  assumes "lr_inv s" "i < length (sys_readers s)" "\<And>side. pinned side r' = pinned side (sys_readers s ! i)" "reader_ok s r'"
  shows "lr_inv (s\<lparr>sys_readers := (sys_readers s)[i := r']\<rparr>)"
  by (rule reader_step_inv [OF assms(1,2), where r' = r' and sh = "sys_shard s"]) (use assms(3,4) in auto)

lemma reader_pin_inv:
  assumes "lr_inv s" "i < length (sys_readers s)" "x \<in> {0, 1}" "\<And>side. \<not> pinned side (sys_readers s ! i)"
    and "\<And>side. pinned side r' = (side = x)" "reader_ok s r'"
  shows "lr_inv (s\<lparr>sys_readers := (sys_readers s)[i := r'], sys_shard := lr_readers_add x 1 (sys_shard s)\<rparr>)"
  by (rule reader_step_inv [OF assms(1,2) refl]) (use assms(3-6) in auto)

lemma reader_unpin_inv:
  assumes "lr_inv s" "i < length (sys_readers s)" "x \<in> {0, 1}" "\<And>side. pinned side (sys_readers s ! i) = (side = x)"
    and "\<And>side. \<not> pinned side r'" "reader_ok s r'"
  shows "lr_inv (s\<lparr>sys_readers := (sys_readers s)[i := r'], sys_shard := lr_readers_add x (- 1) (sys_shard s)\<rparr>)"
  by (rule reader_step_inv [OF assms(1,2) refl]) (use assms(3-6) in auto)

text \<open>No validated reader is on the side the writer writes to.\<close>

lemma drained_no_reader:
  assumes "lr_inv s" "a \<in> {0, 1}" "lr_readers a (sys_shard s) = 0" "r \<in> set (sys_readers s)"
  shows "\<not> pinned a r"
proof -
  let ?n = "length (filter (pinned a) (sys_readers s))"
  have "length (sys_readers s) < 2 ^ 64" using assms(1) by (simp add: lr_inv_def counters_ok_def)
  then have "?n < 2 ^ 64" by (rule le_less_trans [OF length_filter_le])
  moreover have "(word_of_nat ?n :: u64) = 0"
    using assms(1-3) by (auto simp: lr_inv_def counters_ok_def)
  ultimately have "\<not> 0 < ?n" using nat_dvd_not_less [of ?n "2 ^ 64"] by (auto simp: word_of_nat_eq_0_iff)
  then show ?thesis using assms(4) by (simp add: filter_empty_conv)
qed

lemma counters_writer:
  "sys_readers s' = sys_readers s \<Longrightarrow> (\<And>x. lr_readers x (sys_shard s') = lr_readers x (sys_shard s)) \<Longrightarrow>
   counters_ok s' = counters_ok s"
  by (simp add: counters_ok_def)

lemma writer_lock_inv:
  assumes "lr_inv s" "sys_writer s = WIdle"
  shows "lr_inv (s\<lparr>sys_writer := WLocked (lr_active (sys_shard s)) page seq\<rparr>)" (is "lr_inv ?s")
proof -
  have "reader_ok ?s r" if "reader_ok s r" for r using that assms(2) by (cases r) auto
  then show ?thesis using assms by (auto simp: lr_inv_def writer_ok_def counters_ok_def lr_version_def Let_def)
qed

lemma writer_write_inv:
  assumes "lr_inv s" "sys_writer s = WLocked a page seq"
  shows "lr_inv (s\<lparr>sys_writer := WWrote a page seq, sys_shard := lr_insert (lr_other a) page seq (sys_shard s)\<rparr>)" (is "lr_inv ?s")
proof -
  have w: "a = lr_active (sys_shard s)" "lr_left (sys_shard s) = lr_right (sys_shard s)" "a = 0 \<or> a = 1"
    using assms by (auto simp: lr_inv_def writer_ok_def Let_def)
  have "reader_ok ?s r" if "reader_ok s r" for r
    using that w assms(2) by (cases r) (auto simp: lr_data_insert)
  then show ?thesis using assms w
    by (auto simp: lr_inv_def writer_ok_def counters_ok_def lr_version_def Let_def lr_data_insert) (auto simp: lr_data_def)
qed

lemma writer_flip_inv:
  assumes "lr_inv s" "sys_writer s = WWrote a page seq"
  shows "lr_inv (s\<lparr>sys_writer := WFlipped a page seq, sys_shard := (sys_shard s)\<lparr>lr_active := 1 - a\<rparr>,
      sys_published := sys_published s @ [lr_data (1 - a) (sys_shard s)]\<rparr>)" (is "lr_inv ?s")
proof -
  have w: "a = lr_active (sys_shard s)" "lr_data (lr_other a) (sys_shard s) = AList.update page seq (lr_data a (sys_shard s))"
      "a = 0 \<or> a = 1" "1 - a = lr_other a"
    using assms by (auto simp: lr_inv_def writer_ok_def Let_def)
  have "reader_ok ?s r" if "reader_ok s r" for r
    using that w assms(2) by (cases r) (auto simp: nth_append)
  then show ?thesis using assms w
    by (auto simp: lr_inv_def writer_ok_def counters_ok_def lr_version_def Let_def nth_append)
qed

lemma writer_drained_inv:
  assumes "lr_inv s" "sys_writer s = WFlipped a page seq" "lr_readers a (sys_shard s) = 0"
  shows "lr_inv (s\<lparr>sys_writer := WDrained a page seq\<rparr>)" (is "lr_inv ?s")
proof -
  have w: "a \<in> {0, 1}" "lr_active (sys_shard s) = lr_other a"
    using assms by (auto simp: lr_inv_def writer_ok_def Let_def)
  have "reader_ok ?s r" if "reader_ok s r" "\<not> pinned a r" for r
    using that assms(2) by (cases r) auto
  then show ?thesis using assms w drained_no_reader [OF assms(1) w(1) assms(3)]
    by (auto simp: lr_inv_def writer_ok_def counters_ok_def lr_version_def Let_def)
qed

lemma writer_finish_inv:
  assumes "lr_inv s" "sys_writer s = WDrained a page seq"
  shows "lr_inv (s\<lparr>sys_writer := WIdle, sys_shard := lr_insert a page seq (sys_shard s)\<rparr>)" (is "lr_inv ?s")
proof -
  have w: "a = 0 \<or> a = 1" "lr_active (sys_shard s) = lr_other a"
      "lr_data (lr_other a) (sys_shard s) = AList.update page seq (lr_data a (sys_shard s))"
    using assms by (auto simp: lr_inv_def writer_ok_def Let_def)
  have "reader_ok ?s r" if "reader_ok s r" for r
    using that w assms(2) by (cases r) (auto simp: lr_data_insert)
  then show ?thesis using assms w
    by (auto simp: lr_inv_def writer_ok_def counters_ok_def lr_version_def Let_def lr_data_insert)
       (auto simp: lr_data_def lr_insert_def)
qed

lemma reader_okI:
  "lr_inv s \<Longrightarrow> i < length (sys_readers s) \<Longrightarrow> reader_ok s (sys_readers s ! i)"
  by (simp add: lr_inv_def)

lemma lr_active_bit: "lr_inv s \<Longrightarrow> lr_active (sys_shard s) \<in> {0, 1}"
  by (simp add: lr_inv_def)

lemma lr_version_less: "lr_inv s \<Longrightarrow> lr_version s < length (sys_published s)"
  by (simp add: lr_inv_def lr_version_def)

lemma lr_inv_step:
  assumes "lr_step s s'" "lr_inv s"
  shows "lr_inv s'"
  using assms
proof (induction rule: lr_step.induct)
  case (writer_lock s page seq)
  then show ?case using writer_lock_inv by blast
next
  case (writer_write s a page seq)
  then show ?case using writer_write_inv by blast
next
  case (writer_flip s a page seq)
  then show ?case using writer_flip_inv by blast
next
  case (writer_drained s a page seq)
  then show ?case using writer_drained_inv by blast
next
  case (writer_finish s a page seq)
  then show ?case using writer_finish_inv by blast
next
  case (reader_call i s page)
  then show ?case using lr_version_less [of s] by (auto intro!: reader_move_inv)
next
  case (reader_load i s page k)
  then show ?case using reader_okI [of s i] lr_active_bit [of s] by (auto intro!: reader_move_inv)
next
  case (reader_pin i s side page k)
  then show ?case using reader_okI [of s i] by (auto intro!: reader_pin_inv)
next
  case (reader_valid i s side page k)
  have "reader_ok s (RValid side page k (lr_version s))"
    using reader_valid reader_okI [of s i] lr_version_less [of s] by (auto simp: lr_inv_def lr_version_def)
  then show ?case using reader_valid by (auto intro!: reader_move_inv simp del: reader_ok.simps)
next
  case (reader_stale i s side page k)
  then show ?case using reader_okI [of s i] by (auto intro!: reader_move_inv)
next
  case (reader_read i s side page k v)
  then show ?case using reader_okI [of s i] by (auto intro!: reader_move_inv)
next
  case (reader_return i s side page k v r)
  then show ?case using reader_okI [of s i] by (auto intro!: reader_unpin_inv)
next
  case (reader_again i s side page k)
  then show ?case using reader_okI [of s i] by (auto intro!: reader_unpin_inv)
next
  case (reader_done i s page k v r)
  then show ?case by (auto intro!: reader_move_inv)
qed

lemma lr_inv_init: "n < 2 ^ 64 \<Longrightarrow> lr_inv (lr_init n)"
  by (auto simp: lr_inv_def lr_init_def lr_new_def lr_version_def lr_data_def writer_ok_def counters_ok_def lr_readers_def)

lemma lr_inv_reachable: "lr_reachable s \<Longrightarrow> lr_inv s"
  by (induction rule: lr_reachable.induct) (auto intro: lr_inv_init lr_inv_step)

text \<open>Consecutive published maps differ by one update.\<close>

lemma published_chain:
  "lr_reachable s \<Longrightarrow> Suc j < length (sys_published s) \<Longrightarrow>
   \<exists>page seq. sys_published s ! Suc j = AList.update page seq (sys_published s ! j)"
proof (induction rule: lr_reachable.induct)
  case (reach_step s s')
  have inv: "lr_inv s" by (rule lr_inv_reachable) (rule reach_step.hyps)
  show ?case
    using reach_step.hyps(2) reach_step.IH reach_step.prems
  proof cases
    case (writer_flip a page seq)
    have w: "a = lr_active (sys_shard s)" "lr_data (1 - a) (sys_shard s) = AList.update page seq (lr_data a (sys_shard s))"
      using inv writer_flip(2) by (auto simp: lr_inv_def writer_ok_def Let_def)
    have "sys_published s ! lr_version s = lr_data a (sys_shard s)" "sys_published s \<noteq> []"
      using inv w(1) by (auto simp: lr_inv_def)
    moreover have "j = lr_version s" if "\<not> Suc j < length (sys_published s)"
      using that reach_step.prems writer_flip(1) by (simp add: lr_version_def)
    ultimately show ?thesis
      using writer_flip(1) w(2) reach_step.IH reach_step.prems
      by (cases "Suc j < length (sys_published s)") (auto simp: nth_append)
  qed auto
qed (simp add: lr_init_def)

section \<open>The properties of the commit index\<close>

text \<open>C11: The left-right shard is linearizable under every interleaving of one writer and any number of
  readers.  A completed lookup returns what the page maps to in a map that was the published one at some moment
  between the call and the return; consecutive published maps differ by one update; a reader that has validated its
  side is never on the side the writer is about to write; and when the writer is idle both copies agree with
  the published map.\<close>

theorem left_right_linearizable:
  assumes "lr_reachable s"
  shows "(\<forall>i < length (sys_readers s). \<forall>page k v r. sys_readers s ! i = RDone page k v r \<longrightarrow>
      k \<le> v \<and> v < length (sys_published s) \<and> r = map_of (sys_published s ! v) page) \<and>
    (\<forall>j. Suc j < length (sys_published s) \<longrightarrow>
      (\<exists>page seq. sys_published s ! Suc j = AList.update page seq (sys_published s ! j))) \<and>
    (\<forall>i < length (sys_readers s). \<forall>side page k v. sys_readers s ! i = RValid side page k v \<longrightarrow>
      (\<forall>a p q. (sys_writer s = WLocked a p q \<longrightarrow> side \<noteq> lr_other a) \<and> (sys_writer s = WDrained a p q \<longrightarrow> side \<noteq> a))) \<and>
    (sys_writer s = WIdle \<longrightarrow>
      lr_left (sys_shard s) = lr_right (sys_shard s) \<and> sys_published s ! lr_version s = lr_left (sys_shard s))"
proof -
  have inv: "lr_inv s" by (rule lr_inv_reachable [OF assms])
  have bit: "lr_other a \<noteq> a" for a by (simp add: lr_other_def)
  have "k \<le> v \<and> v < length (sys_published s) \<and> r = map_of (sys_published s ! v) page"
    if "i < length (sys_readers s)" "sys_readers s ! i = RDone page k v r" for i page k v r
    using reader_okI [OF inv that(1)] that(2) by simp
  moreover have "(sys_writer s = WLocked a p q \<longrightarrow> side \<noteq> lr_other a) \<and> (sys_writer s = WDrained a p q \<longrightarrow> side \<noteq> a)"
    if "i < length (sys_readers s)" "sys_readers s ! i = RValid side page k v" for i side page k v a p q
    using reader_okI [OF inv that(1)] that(2) inv bit [of a] by (auto simp: lr_inv_def writer_ok_def Let_def)
  moreover have "sys_writer s = WIdle \<longrightarrow>
      lr_left (sys_shard s) = lr_right (sys_shard s) \<and> sys_published s ! lr_version s = lr_left (sys_shard s)"
    using inv by (auto simp: lr_inv_def writer_ok_def Let_def lr_data_def split: if_splits)
  ultimately show ?thesis using published_chain [OF assms] by blast
qed

text \<open>A lookup that starts before the writer flips and validates after it.\<close>

definition overtaken_read :: LRSystem where
  "overtaken_read =
     \<lparr>sys_shard = \<lparr>lr_left = [], lr_right = [(70000, 7)], lr_active = 1, lr_left_readers = 0, lr_right_readers = 0\<rparr>,
      sys_writer = WFlipped 0 70000 7, sys_readers = [RDone 70000 0 1 (Some 7)], sys_published = [[], [(70000, 7)]]\<rparr>"

lemma overtaken_read_reachable: "lr_reachable overtaken_read"
proof -
  define r where "r sh w rd pub = lr_reachable \<lparr>sys_shard = sh, sys_writer = w, sys_readers = [rd], sys_published = pub\<rparr>" for sh w rd pub
  define sh where "sh m a n = \<lparr>lr_left = [], lr_right = m, lr_active = a, lr_left_readers = 0, lr_right_readers = n\<rparr>" for m :: CommitMap and a n :: u64
  have "r (sh [] 0 0) WIdle RIdle [[]]"
    using reach_init [of 1] by (simp add: r_def sh_def lr_init_def lr_new_def)
  then have "r (sh [] 0 0) (WLocked 0 70000 7) RIdle [[]]"
    unfolding r_def by - (drule reach_step [OF _ writer_lock [where page = 70000 and seq = 7]], simp_all add: sh_def)
  then have "r (sh [(70000, 7)] 0 0) (WWrote 0 70000 7) RIdle [[]]"
    unfolding r_def by - (drule reach_step [OF _ writer_write], auto simp: sh_def lr_insert_def)
  then have "r (sh [(70000, 7)] 0 0) (WWrote 0 70000 7) (RStart 70000 0) [[]]"
    unfolding r_def by - (drule reach_step [OF _ reader_call [where i = 0 and page = 70000]], auto simp: lr_version_def)
  then have "r (sh [(70000, 7)] 1 0) (WFlipped 0 70000 7) (RStart 70000 0) [[], [(70000, 7)]]"
    unfolding r_def by - (drule reach_step [OF _ writer_flip], auto simp: sh_def lr_data_def)
  then have "r (sh [(70000, 7)] 1 0) (WFlipped 0 70000 7) (RLoaded 1 70000 0) [[], [(70000, 7)]]"
    unfolding r_def by - (drule reach_step [OF _ reader_load [where i = 0]], auto simp: sh_def)
  then have "r (sh [(70000, 7)] 1 1) (WFlipped 0 70000 7) (RPinned 1 70000 0) [[], [(70000, 7)]]"
    unfolding r_def by - (drule reach_step [OF _ reader_pin [where i = 0]], auto simp: sh_def lr_readers_add_def)
  then have "r (sh [(70000, 7)] 1 1) (WFlipped 0 70000 7) (RValid 1 70000 0 1) [[], [(70000, 7)]]"
    unfolding r_def by - (drule reach_step [OF _ reader_valid [where i = 0]], auto simp: sh_def lr_version_def)
  then have "r (sh [(70000, 7)] 1 1) (WFlipped 0 70000 7) (RUnpin 1 70000 0 1 (Some 7)) [[], [(70000, 7)]]"
    unfolding r_def by - (drule reach_step [OF _ reader_read [where i = 0]], auto simp: sh_def lr_data_def)
  then have "r (sh [(70000, 7)] 1 0) (WFlipped 0 70000 7) (RDone 70000 0 1 (Some 7)) [[], [(70000, 7)]]"
    unfolding r_def by - (drule reach_step [OF _ reader_return [where i = 0]], auto simp: sh_def lr_readers_add_def)
  then show ?thesis by (simp add: r_def sh_def overtaken_read_def)
qed

theorem left_right_linearizable_witness:
  "lr_reachable overtaken_read \<and> Some 7 = map_of (sys_published overtaken_read ! 1) 70000"
  using left_right_linearizable [OF overtaken_read_reachable] overtaken_read_reachable
  by (simp add: overtaken_read_def)

section \<open>Histories of updates\<close>

datatype ci_op = CiUpdate PageNumber u64 | CiBatch "PageNumber list" u64

fun run_ci_op :: "ci_op \<Rightarrow> CommitIndex \<Rightarrow> CommitIndex" where
  "run_ci_op (CiUpdate page seq) ci = ci_update page seq ci"
| "run_ci_op (CiBatch pages seq) ci = batch_update pages seq ci"

fun ci_op_pages :: "ci_op \<Rightarrow> PageNumber list" where
  "ci_op_pages (CiUpdate page seq) = [page]"
| "ci_op_pages (CiBatch pages seq) = pages"

fun ci_op_seq :: "ci_op \<Rightarrow> u64" where
  "ci_op_seq (CiUpdate page seq) = seq"
| "ci_op_seq (CiBatch pages seq) = seq"

text \<open>An update of one page is a batch of one page.\<close>

lemma run_ci_op_batch: "run_ci_op x ci = batch_update (ci_op_pages x) (ci_op_seq x) ci"
  by (cases x) (simp_all add: ci_update_def batch_update_def)

lemma latest_global_batch: "latest_global (batch_update pages seq ci) = (if pages = [] then latest_global ci else max (latest_global ci) seq)"
proof -
  have "latest_global (ci_store page seq ci) = latest_global ci" for page ci by (simp add: ci_store_def)
  then have "latest_global (fold (\<lambda>page. ci_store page seq) pages ci) = latest_global ci" for ci
    by (induction pages arbitrary: ci) simp_all
  then show ?thesis by (simp add: batch_update_def)
qed

text \<open>The sequence numbers a history publishes.\<close>

definition published_seqs :: "ci_op list \<Rightarrow> u64 set" where
  "published_seqs ops = ci_op_seq ` {x \<in> set ops. ci_op_pages x \<noteq> []}"

lemma published_append: "published_seqs (ops @ [x]) = (if ci_op_pages x = [] then published_seqs ops else insert (ci_op_seq x) (published_seqs ops))"
  by (auto simp: published_seqs_def)

lemma finite_published [simp]: "finite (published_seqs ops)"
  by (simp add: published_seqs_def)

lemma history_global: "latest_global (fold run_ci_op ops commit_index_new) = Max (insert 0 (published_seqs ops))"
proof (induction ops rule: rev_induct)
  case Nil
  then show ?case by (simp add: commit_index_new_def published_seqs_def)
next
  case (snoc x ops)
  have "Max (insert 0 (insert (ci_op_seq x) (published_seqs ops))) = max (Max (insert 0 (published_seqs ops))) (ci_op_seq x)"
    by (subst insert_commute) (simp add: max.commute)
  then show ?case using snoc by (simp add: run_ci_op_batch latest_global_batch published_append)
qed



end
