(* ===== verification/WitnessKeys.thy ===== *)
theory WitnessKeys
  imports PageLocks "HOL-Library.List_Lexorder"
begin

text \<open>
  The witness keys of the serializable-snapshot-isolation layer:
  \<open>WitnessKey\<close>, \<open>TxnToken\<close> of \<open>crates/fsqlite-types/src/glossary.rs\<close>, the witness sets and the overlap
  test of \<open>crates/fsqlite-mvcc/src/witness_plane.rs\<close>, the canonical bytes of
  \<open>witness_hierarchy.rs\<close>, and the key summaries of \<open>witness_objects.rs\<close>.  The hash function
  \<open>xxh3_64\<close> of the crate \<open>xxhash_rust\<close> is a parameter.  The derived order of \<open>WitnessKey\<close> is an instance of the
  class of linear orders, so that the sorts of the code are the sorts of the library.
\<close>

section \<open>Tokens and keys\<close>

record TxnToken =
  tok_id :: TxnId
  tok_epoch :: u32

datatype WitnessKey =
    WPage PageNumber
  | WCell (wk_btree_root: PageNumber) (wk_leaf_page: PageNumber) (wk_tag: u64)
  | WByteRange PageNumber (wk_start: u32) (wk_len: u32)
  | WKeyRange PageNumber (wk_lo: bytes) (wk_hi: bytes)
  | WCustom (wk_namespace: u32) (wk_bytes: bytes)

definition CELL_DOMAIN :: bytes where
  "CELL_DOMAIN = map (\<lambda>c. of_nat (of_char c)) ''fsqlite:witness:cell:v1''"

definition cell_tag :: "(bytes \<Rightarrow> u64) \<Rightarrow> PageNumber \<Rightarrow> bytes \<Rightarrow> u64" where
  "cell_tag xxh3_64 btree_root canonical_key_bytes =
     xxh3_64 (CELL_DOMAIN @ to_le 4 btree_root @ canonical_key_bytes)"

definition for_cell_read :: "(bytes \<Rightarrow> u64) \<Rightarrow> PageNumber \<Rightarrow> PageNumber \<Rightarrow> bytes \<Rightarrow> WitnessKey" where
  "for_cell_read xxh3_64 btree_root leaf_page key = WCell btree_root leaf_page (cell_tag xxh3_64 btree_root key)"

definition for_range_scan :: "PageNumber list \<Rightarrow> WitnessKey list" where
  "for_range_scan leaf_pages = map WPage leaf_pages"

definition for_point_write :: "(bytes \<Rightarrow> u64) \<Rightarrow> PageNumber \<Rightarrow> bytes \<Rightarrow> PageNumber \<Rightarrow> WitnessKey \<times> WitnessKey" where
  "for_point_write xxh3_64 btree_root key leaf_pgno =
     (WCell btree_root leaf_pgno (cell_tag xxh3_64 btree_root key), WPage leaf_pgno)"

fun page_number :: "WitnessKey \<Rightarrow> PageNumber option" where
  "page_number (WPage page) = Some page"
| "page_number (WByteRange page _ _) = Some page"
| "page_number (WCell btree_root _ _) = Some btree_root"
| "page_number (WKeyRange btree_root _ _) = Some btree_root"
| "page_number (WCustom _ _) = None"

fun wk_is_page :: "WitnessKey \<Rightarrow> bool" where
  "wk_is_page (WPage _) = True"
| "wk_is_page _ = False"

fun wk_is_cell :: "WitnessKey \<Rightarrow> bool" where
  "wk_is_cell (WCell _ _ _) = True"
| "wk_is_cell _ = False"

subsection \<open>The derived order\<close>

fun order_key :: "WitnessKey \<Rightarrow> nat list list" where
  "order_key (WPage p) = [[0], [unat p]]"
| "order_key (WCell r l t) = [[1], [unat r], [unat l], [unat t]]"
| "order_key (WByteRange p s n) = [[2], [unat p], [unat s], [unat n]]"
| "order_key (WKeyRange r lo hi) = [[3], [unat r], map unat lo, map unat hi]"
| "order_key (WCustom n b) = [[4], [unat n], map unat b]"

lemma map_unat_inject: "map unat xs = map unat ys \<longleftrightarrow> xs = (ys :: bytes)"
  by (rule inj_map_eq_map) (auto simp: inj_def word_unat_eq_iff)

lemma order_key_inject: "order_key a = order_key b \<longleftrightarrow> a = b"
  by (cases a; cases b) (auto simp: map_unat_inject word_unat_eq_iff)

instantiation WitnessKey :: linorder
begin

definition less_eq_WitnessKey :: "WitnessKey \<Rightarrow> WitnessKey \<Rightarrow> bool" where
  "less_eq_WitnessKey a b = (order_key a \<le> order_key b)"

definition less_WitnessKey :: "WitnessKey \<Rightarrow> WitnessKey \<Rightarrow> bool" where
  "less_WitnessKey a b = (order_key a < order_key b)"

instance
  by standard (auto simp: less_eq_WitnessKey_def less_WitnessKey_def order_key_inject less_le)

end

section \<open>Overlap\<close>

definition u32_saturating_add :: "u32 \<Rightarrow> u32 \<Rightarrow> u32" where
  "u32_saturating_add a b = (if unat a + unat b < 2 ^ 32 then a + b else - 1)"

fun witness_keys_overlap :: "WitnessKey \<Rightarrow> WitnessKey \<Rightarrow> bool" where
  "witness_keys_overlap (WPage pa) (WPage pb) = (pa = pb)"
| "witness_keys_overlap (WPage pa) (WByteRange pb _ _) = (pa = pb)"
| "witness_keys_overlap (WByteRange pb _ _) (WPage pa) = (pa = pb)"
| "witness_keys_overlap (WCell ra _ ta) (WCell rb _ tb) = (ra = rb \<and> ta = tb)"
| "witness_keys_overlap (WKeyRange ra _ _) (WKeyRange rb _ _) = (ra = rb)"
| "witness_keys_overlap (WKeyRange range_root _ _) (WCell cell_root _ _) = (range_root = cell_root)"
| "witness_keys_overlap (WCell cell_root _ _) (WKeyRange range_root _ _) = (range_root = cell_root)"
| "witness_keys_overlap (WKeyRange range_root _ _) (WByteRange page _ _) = (range_root = page)"
| "witness_keys_overlap (WByteRange page _ _) (WKeyRange range_root _ _) = (range_root = page)"
| "witness_keys_overlap (WPage p) (WCell btree_root lp _) = (p = btree_root \<or> lp = p)"
| "witness_keys_overlap (WPage p) (WKeyRange btree_root _ _) = (p = btree_root)"
| "witness_keys_overlap (WCell btree_root lp _) (WPage p) = (p = btree_root \<or> lp = p)"
| "witness_keys_overlap (WKeyRange btree_root _ _) (WPage p) = (p = btree_root)"
| "witness_keys_overlap (WByteRange pa sa la) (WByteRange pb sb lb) =
     (pa = pb \<and> sa < u32_saturating_add sb lb \<and> sb < u32_saturating_add sa la)"
| "witness_keys_overlap _ _ = True"

definition validate_txn_token :: "TxnToken \<Rightarrow> TxnId \<Rightarrow> u32 \<Rightarrow> bool" where
  "validate_txn_token candidate slot_id slot_epoch = (tok_id candidate = slot_id \<and> tok_epoch candidate = slot_epoch)"

section \<open>Witness sets\<close>

record WitnessSet =
  ws_reads :: "WitnessKey list"
  ws_writes :: "WitnessKey list"
  ws_token :: "TxnToken option"

definition WitnessSet_new :: "TxnToken \<Rightarrow> WitnessSet" where
  "WitnessSet_new token = \<lparr>ws_reads = [], ws_writes = [], ws_token = Some token\<rparr>"

definition register_point_read :: "(bytes \<Rightarrow> u64) \<Rightarrow> PageNumber \<Rightarrow> bytes \<Rightarrow> WitnessSet \<Rightarrow> WitnessSet" where
  "register_point_read xxh3_64 btree_root key w =
     w\<lparr>ws_reads := ws_reads w @ [for_cell_read xxh3_64 btree_root btree_root key]\<rparr>"

definition register_range_scan :: "PageNumber list \<Rightarrow> WitnessSet \<Rightarrow> WitnessSet" where
  "register_range_scan leaf_pages w = w\<lparr>ws_reads := ws_reads w @ for_range_scan leaf_pages\<rparr>"

definition register_point_write :: "(bytes \<Rightarrow> u64) \<Rightarrow> PageNumber \<Rightarrow> bytes \<Rightarrow> PageNumber \<Rightarrow> WitnessSet \<Rightarrow> WitnessSet" where
  "register_point_write xxh3_64 btree_root key leaf_pgno w =
     (case for_point_write xxh3_64 btree_root key leaf_pgno of
        (cell, page) \<Rightarrow> w\<lparr>ws_writes := ws_writes w @ [cell, page]\<rparr>)"

definition overlaps_write :: "WitnessSet \<Rightarrow> WitnessKey \<Rightarrow> bool" where
  "overlaps_write w read_key = list_ex (\<lambda>k. witness_keys_overlap k read_key) (ws_writes w)"

section \<open>Canonical bytes and hash prefixes\<close>

fun witness_key_canonical_bytes :: "WitnessKey \<Rightarrow> bytes" where
  "witness_key_canonical_bytes (WPage pgno) = 1 # to_le 4 pgno"
| "witness_key_canonical_bytes (WCell btree_root _ tag) = 2 # to_le 4 btree_root @ to_le 8 tag"
| "witness_key_canonical_bytes (WByteRange page start len) = 3 # to_le 4 page @ to_le 4 start @ to_le 4 len"
| "witness_key_canonical_bytes (WKeyRange btree_root lo hi) =
     4 # to_le 4 btree_root
     @ to_le 4 (if length lo < 2 ^ 32 then word_of_nat (length lo) else - 1 :: u32) @ lo
     @ to_le 4 (if length hi < 2 ^ 32 then word_of_nat (length hi) else - 1 :: u32) @ hi"
| "witness_key_canonical_bytes (WCustom namespace bytes) = 5 # to_le 4 namespace @ bytes"

definition witness_key_hash :: "(bytes \<Rightarrow> u64) \<Rightarrow> WitnessKey \<Rightarrow> u64" where
  "witness_key_hash xxh3_64 key = xxh3_64 (witness_key_canonical_bytes key)"

definition extract_prefix :: "u64 \<Rightarrow> u8 \<Rightarrow> u32" where
  "extract_prefix hash prefix_bits =
     (if prefix_bits = 0 \<or> prefix_bits > 32 then 0 else ucast (drop_bit (64 - unat prefix_bits) hash))"

section \<open>Key summaries\<close>

text \<open>The bitmaps are ordered sets; they are kept as the lists of their elements, as are the sorted
  hashes that are looked up by binary search.\<close>

datatype KeySummary =
    ExactKeys "WitnessKey list"
  | HashedKeySet "u64 list"
  | PageBitmap "u32 list"
  | CellBitmap "u64 list"
  | ByteRangeList "(u32 \<times> u16 \<times> u16) list"
  | Chunked "(u32 \<times> KeySummary) list"

fun page_number_of :: "WitnessKey \<Rightarrow> u32" where
  "page_number_of (WPage pgno) = pgno"
| "page_number_of (WCell btree_root _ _) = btree_root"
| "page_number_of (WKeyRange btree_root _ _) = btree_root"
| "page_number_of (WByteRange page _ _) = page"
| "page_number_of (WCustom _ _) = 0"

definition byte_ranges_overlap :: "u16 \<Rightarrow> u16 \<Rightarrow> u32 \<Rightarrow> u32 \<Rightarrow> bool" where
  "byte_ranges_overlap a_start a_len b_start b_len =
     (if a_len = 0 \<or> b_len = 0 then False
      else let a_start = ucast a_start; a_end = u32_saturating_add a_start (ucast a_len);
               b_end = u32_saturating_add b_start b_len in
        a_start < b_end \<and> b_start < a_end)"

fun may_overlap :: "(bytes \<Rightarrow> u64) \<Rightarrow> KeySummary \<Rightarrow> WitnessKey \<Rightarrow> bool" where
  "may_overlap xxh3_64 (ExactKeys keys) key = (key \<in> set keys)"
| "may_overlap xxh3_64 (HashedKeySet hashes) key = (witness_key_hash xxh3_64 key \<in> set hashes)"
| "may_overlap xxh3_64 (PageBitmap pages) key =
     (case key of WCustom _ _ \<Rightarrow> True | _ \<Rightarrow> page_number_of key \<in> set pages)"
| "may_overlap xxh3_64 (CellBitmap cells) key =
     (case key of WCustom _ _ \<Rightarrow> True
      | _ \<Rightarrow> let page_prefix = push_bit 32 (ucast (page_number_of key)) :: u64; page_end = or page_prefix 0xFFFFFFFF in
          list_ex (\<lambda>c. page_prefix \<le> c \<and> c \<le> page_end) cells)"
| "may_overlap xxh3_64 (ByteRangeList ranges) key =
     (case key of
        WByteRange page start len \<Rightarrow>
          list_ex (\<lambda>(range_page, range_start, range_len).
            range_page = page \<and> byte_ranges_overlap range_start range_len start len) ranges
      | WPage pgno \<Rightarrow> list_ex (\<lambda>(range_page, _, _). range_page = pgno) ranges
      | WCell btree_root _ _ \<Rightarrow> list_ex (\<lambda>(range_page, _, _). range_page = btree_root) ranges
      | WKeyRange btree_root _ _ \<Rightarrow> list_ex (\<lambda>(range_page, _, _). range_page = btree_root) ranges
      | WCustom _ _ \<Rightarrow> True)"
| "may_overlap xxh3_64 (Chunked chunks) key = list_ex (\<lambda>(range_prefix, summary). may_overlap xxh3_64 summary key) chunks"

fun summary_len :: "KeySummary \<Rightarrow> nat" where
  "summary_len (ExactKeys keys) = length keys"
| "summary_len (HashedKeySet hashes) = length hashes"
| "summary_len (PageBitmap pages) = length pages"
| "summary_len (CellBitmap cells) = length cells"
| "summary_len (ByteRangeList ranges) = length ranges"
| "summary_len (Chunked chunks) = sum_list (map (\<lambda>(range_prefix, summary). summary_len summary) chunks)"

definition merge_refinement :: "KeySummary option \<Rightarrow> KeySummary option \<Rightarrow> KeySummary option" where
  "merge_refinement mine other =
     (case (mine, other) of
        (Some a, Some b) \<Rightarrow> if summary_len a \<ge> summary_len b then Some a else Some b
      | (Some a, None) \<Rightarrow> Some a
      | (None, Some b) \<Rightarrow> Some b
      | (None, None) \<Rightarrow> None)"

section \<open>Facts about overlap\<close>

lemma witness_keys_overlap_sym: "witness_keys_overlap a b = witness_keys_overlap b a"
  by (cases a; cases b) auto

text \<open>The keys the engine registers are pages and cells.\<close>

fun engine_key :: "WitnessKey \<Rightarrow> bool" where
  "engine_key (WPage _) = True"
| "engine_key (WCell _ _ _) = True"
| "engine_key _ = False"

lemma to_le_inject:
  fixes v w :: "'a::len word"
  assumes "LENGTH('a) = 8 * n"
  shows "to_le n v = to_le n w \<longleftrightarrow> v = w"
  by (metis assms from_le_to_le_full)

lemma to_le_u32_inject [simp]: "to_le 4 v = to_le 4 w \<longleftrightarrow> v = (w :: u32)"
  and to_le_u64_inject [simp]: "to_le 8 x = to_le 8 y \<longleftrightarrow> x = (y :: u64)"
  by (rule to_le_inject, simp)+

text \<open>The canonical bytes identify a key up to the leaf page of a cell, so two keys hash alike only if
  they denote the same object or the hash function collides.\<close>

fun key_ok :: "WitnessKey \<Rightarrow> bool" where
  "key_ok (WKeyRange _ lo hi) = (length lo < 2 ^ 32 \<and> length hi < 2 ^ 32)"
| "key_ok _ = True"

fun forget_leaf :: "WitnessKey \<Rightarrow> WitnessKey" where
  "forget_leaf (WCell r l t) = WCell r 0 t"
| "forget_leaf k = k"

lemma canonical_bytes_inject:
  assumes "key_ok a" "key_ok b"
  shows "witness_key_canonical_bytes a = witness_key_canonical_bytes b \<longleftrightarrow> forget_leaf a = forget_leaf b"
proof -
  have "word_of_nat m = (word_of_nat n :: u32) \<longleftrightarrow> m = n" if "m < 2 ^ 32" "n < 2 ^ 32" for m n
  proof -
    have "unat (word_of_nat m :: u32) = m" "unat (word_of_nat n :: u32) = n" using that by (simp_all add: unat_of_nat)
    then show ?thesis by metis
  qed
  then show ?thesis using assms by (cases a; cases b) (auto simp: append_eq_append_conv)
qed

text \<open>Registration leaves no false negative.  A point read of a key overlaps the witnesses of every point
  write of the same key in the same tree, whatever leaf the write went to, and a range scan overlaps the
  witnesses of every point write on a leaf it visited; and the overlap test does not depend on which side is
  the reader.\<close>

theorem registered_conflicts_overlap:
  "overlaps_write (register_point_write h root key leaf w)
     (last (ws_reads (register_point_read h root key r))) \<and>
   (leaf \<in> set leaves \<longrightarrow>
     (\<exists>k \<in> set (ws_reads (register_range_scan leaves r)). overlaps_write (register_point_write h root' key' leaf w) k)) \<and>
   witness_keys_overlap a b = witness_keys_overlap b a"
proof -
  have "\<exists>k \<in> set (ws_reads (register_range_scan leaves r)). overlaps_write (register_point_write h root' key' leaf w) k"
    if "leaf \<in> set leaves"
    by (rule bexI [of _ "WPage leaf"])
       (use that in \<open>auto simp: overlaps_write_def register_point_write_def for_point_write_def register_range_scan_def for_range_scan_def\<close>)
  then show ?thesis using witness_keys_overlap_sym
    by (auto simp: overlaps_write_def register_point_write_def for_point_write_def register_point_read_def for_cell_read_def)
qed

theorem registered_conflicts_overlap_witness:
  "\<exists>k \<in> set (ws_reads (register_range_scan [3, 7] (WitnessSet_new \<lparr>tok_id = 1, tok_epoch = 1\<rparr>))).
     overlaps_write (register_point_write (\<lambda>b. 9) 2 [1] 7 (WitnessSet_new \<lparr>tok_id = 2, tok_epoch = 1\<rparr>)) k"
  using registered_conflicts_overlap [where leaves = "[3, 7]" and leaf = 7 and r = "WitnessSet_new \<lparr>tok_id = 1, tok_epoch = 1\<rparr>"
      and h = "\<lambda>b. 9" and root' = 2 and key' = "[1]" and w = "WitnessSet_new \<lparr>tok_id = 2, tok_epoch = 1\<rparr>"]
  by simp

text \<open>The summaries promise no false negatives, but an exact-key summary compares for equality and a merge keeps
  the summary with more keys instead of the union: both lose conflicts.\<close>

theorem summary_false_negatives:
  "witness_keys_overlap (WPage 5) (WCell 5 9 1) \<and> \<not> may_overlap h (ExactKeys [WPage 5]) (WCell 5 9 1) \<and>
   may_overlap h (ExactKeys [WPage 2]) (WPage 2) \<and>
   merge_refinement (Some (ExactKeys [WPage 1])) (Some (ExactKeys [WPage 2])) = Some (ExactKeys [WPage 1]) \<and>
   \<not> may_overlap h (ExactKeys [WPage 1]) (WPage 2)"
  by (simp add: merge_refinement_def)

end
