(* ===== verification/SsiValidation.thy ===== *)
theory SsiValidation
  imports WitnessKeys
begin

text \<open>
  Commit-time validation of serializable snapshot isolation:
  \<open>crates/fsqlite-mvcc/src/ssi_validation.rs\<close>, with the evidence objects of
  \<open>witness_objects.rs\<close>.  A transaction that a committer sees through the trait
  \<open>ActiveTxnView\<close> is a record of its answers; the views are shared objects with interior mutability,
  so the two lists a validation gets are references into one store, and a transaction may be in both.
  The risk decision \<open>evaluate_t3_dro\<close>, which compares floating-point figures, is a parameter, as are the text
  it adds to a rationale and the number of ledger records pending; the ledger is the list of drafts
  submitted to it.  Tracing and metrics outside the ledger are left out.
\<close>

section \<open>Data\<close>

datatype SsiAbortReason = Pivot | CommittedPivot | MarkedForAbort

datatype SsiEvidenceRecordingMode = FullEvidence | CompactCommit | BudgetedCommit

fun recording_mode_from_raw :: "u8 \<Rightarrow> SsiEvidenceRecordingMode" where
  "recording_mode_from_raw raw = (if raw = 1 then CompactCommit else if raw = 2 then BudgetedCommit else FullEvidence)"

datatype SsiDecisionType = CommitAllowed | AbortWriteSkew | AbortPhantom | AbortCycle

datatype AbortReason = SsiPivot | Cancelled | OtherReason

datatype AbortPolicy = AbortPivot | AbortDro | AbortYoungest | CustomPolicy

record DiscoveredEdge =
  de_from :: TxnToken
  de_to :: TxnToken
  de_overlap_key :: WitnessKey
  de_source_is_active :: bool
  de_source_has_in_rw :: bool

record EcsDependencyEdge =
  ede_from :: TxnToken
  ede_to :: TxnToken
  ede_level :: u8
  ede_range_prefix :: u32
  ede_refinement :: "KeySummary option"
  ede_observed_by :: TxnToken
  ede_observation_seq :: u64

record AbortWitness =
  aw_txn :: TxnToken
  aw_begin_seq :: u64
  aw_abort_seq :: u64
  aw_reason :: AbortReason
  aw_edges_observed :: "EcsDependencyEdge list"

record SsiBusySnapshot =
  busy_txn :: TxnToken
  busy_reason :: SsiAbortReason
  busy_witness :: AbortWitness

record EcsCommitProof =
  cp_txn :: TxnToken
  cp_begin_seq :: u64
  cp_commit_seq :: u64
  cp_has_in_rw :: bool
  cp_has_out_rw :: bool
  cp_read_witness_refs :: "bytes list"
  cp_write_witness_refs :: "bytes list"
  cp_index_segments_used :: "bytes list"
  cp_edges_emitted :: "bytes list"
  cp_merge_witnesses :: "bytes list"
  cp_abort_policy :: AbortPolicy

record SsiState =
  ss_txn :: TxnToken
  ss_begin_seq :: u64
  ss_has_in_rw :: bool
  ss_has_out_rw :: bool
  ss_rw_in_from :: "TxnToken set"
  ss_rw_out_to :: "TxnToken set"
  ss_edges_emitted :: "bytes list"
  ss_marked_for_abort :: bool

definition SsiState_new :: "TxnToken \<Rightarrow> u64 \<Rightarrow> SsiState" where
  "SsiState_new txn begin_seq =
     \<lparr>ss_txn = txn, ss_begin_seq = begin_seq, ss_has_in_rw = False, ss_has_out_rw = False, ss_rw_in_from = {},
      ss_rw_out_to = {}, ss_edges_emitted = [], ss_marked_for_abort = False\<rparr>"

definition has_dangerous_structure :: "SsiState \<Rightarrow> bool" where
  "has_dangerous_structure s = (ss_has_in_rw s \<and> ss_has_out_rw s)"

record SsiValidationOk =
  ok_edges :: "EcsDependencyEdge list"
  ok_edge_ids :: "bytes list"
  ok_commit_proof :: EcsCommitProof
  ok_ssi_state :: SsiState

record ActiveTxn =
  at_token :: TxnToken
  at_begin_seq :: u64
  at_active :: bool
  at_read_overlap :: "WitnessKey \<Rightarrow> bool"
  at_write_overlap :: "WitnessKey \<Rightarrow> bool"
  at_in_rw :: bool
  at_out_rw :: bool
  at_marked :: bool

record CommittedReaderInfo =
  cr_token :: TxnToken
  cr_begin_seq :: u64
  cr_commit_seq :: u64
  cr_had_in_rw :: bool
  cr_keys :: "WitnessKey list"

record CommittedWriterInfo =
  cw_token :: TxnToken
  cw_commit_seq :: u64
  cw_had_out_rw :: bool
  cw_keys :: "WitnessKey list"

section \<open>Edge discovery\<close>

definition keys_overlap :: "WitnessKey list \<Rightarrow> WitnessKey \<Rightarrow> bool" where
  "keys_overlap keys key = list_ex (\<lambda>k. witness_keys_overlap k key) keys"

definition has_any_read_overlap :: "WitnessKey list \<Rightarrow> ActiveTxn list \<Rightarrow> CommittedReaderInfo list \<Rightarrow> bool" where
  "has_any_read_overlap write_keys active_readers committed_readers =
     (if active_readers = [] \<and> committed_readers = [] then False
      else if write_keys = [] then False
      else list_ex (\<lambda>reader. at_active reader \<and> list_ex (at_read_overlap reader) write_keys) active_readers
        \<or> list_ex (\<lambda>reader. list_ex (keys_overlap (cr_keys reader)) write_keys) committed_readers)"

text \<open>One of the four loops of edge discovery: over the candidates in order, skipping those that are
  not eligible or already seen; the first key the candidate overlaps makes the edge.\<close>

fun discover_from ::
  "('c \<Rightarrow> TxnToken) \<Rightarrow> ('c \<Rightarrow> bool) \<Rightarrow> ('c \<Rightarrow> WitnessKey \<Rightarrow> bool) \<Rightarrow> ('c \<Rightarrow> WitnessKey \<Rightarrow> DiscoveredEdge) \<Rightarrow>
   WitnessKey list \<Rightarrow> 'c list \<Rightarrow> TxnToken set \<Rightarrow> DiscoveredEdge list \<times> TxnToken set" where
  "discover_from token eligible hit edge keys [] seen = ([], seen)"
| "discover_from token eligible hit edge keys (c # cs) seen =
     (if \<not> eligible c \<or> token c \<in> seen then discover_from token eligible hit edge keys cs seen
      else case find (hit c) keys of
          None \<Rightarrow> discover_from token eligible hit edge keys cs seen
        | Some key \<Rightarrow>
            (case discover_from token eligible hit edge keys cs (insert (token c) seen) of
               (edges, seen') \<Rightarrow> (edge c key # edges, seen')))"

definition active_eligible :: "TxnToken \<Rightarrow> u64 \<Rightarrow> u64 \<Rightarrow> ActiveTxn \<Rightarrow> bool" where
  "active_eligible txn committing_begin committing_end c =
     (\<not> (at_token c = txn \<or> \<not> at_active c) \<and> committing_begin < - 1 \<and> at_begin_seq c < committing_end)"

definition reader_eligible :: "TxnToken \<Rightarrow> u64 \<Rightarrow> u64 \<Rightarrow> CommittedReaderInfo \<Rightarrow> bool" where
  "reader_eligible txn committing_begin committing_end r =
     (cr_token r \<noteq> txn \<and> committing_begin < cr_commit_seq r \<and> cr_begin_seq r < committing_end)"

definition writer_eligible :: "TxnToken \<Rightarrow> u64 \<Rightarrow> u64 \<Rightarrow> CommittedWriterInfo \<Rightarrow> bool" where
  "writer_eligible txn committing_begin committing_end w =
     (cw_token w \<noteq> txn \<and> committing_begin < cw_commit_seq w \<and> 0 < committing_end)"

definition in_edge_active :: "TxnToken \<Rightarrow> ActiveTxn \<Rightarrow> WitnessKey \<Rightarrow> DiscoveredEdge" where
  "in_edge_active txn c key =
     \<lparr>de_from = at_token c, de_to = txn, de_overlap_key = key, de_source_is_active = True, de_source_has_in_rw = at_in_rw c\<rparr>"

definition in_edge_committed :: "TxnToken \<Rightarrow> CommittedReaderInfo \<Rightarrow> WitnessKey \<Rightarrow> DiscoveredEdge" where
  "in_edge_committed txn r key =
     \<lparr>de_from = cr_token r, de_to = txn, de_overlap_key = key, de_source_is_active = False, de_source_has_in_rw = cr_had_in_rw r\<rparr>"

definition out_edge_active :: "TxnToken \<Rightarrow> ActiveTxn \<Rightarrow> WitnessKey \<Rightarrow> DiscoveredEdge" where
  "out_edge_active txn c key =
     \<lparr>de_from = txn, de_to = at_token c, de_overlap_key = key, de_source_is_active = True, de_source_has_in_rw = at_out_rw c\<rparr>"

definition out_edge_committed :: "TxnToken \<Rightarrow> CommittedWriterInfo \<Rightarrow> WitnessKey \<Rightarrow> DiscoveredEdge" where
  "out_edge_committed txn w key =
     \<lparr>de_from = txn, de_to = cw_token w, de_overlap_key = key, de_source_is_active = False, de_source_has_in_rw = cw_had_out_rw w\<rparr>"

definition discover_incoming_edges ::
  "TxnToken \<Rightarrow> u64 \<Rightarrow> u64 \<Rightarrow> WitnessKey list \<Rightarrow> ActiveTxn list \<Rightarrow> CommittedReaderInfo list \<Rightarrow> DiscoveredEdge list" where
  "discover_incoming_edges txn begin_seq commit_seq write_keys active_readers committed_readers =
     (if write_keys = [] then []
      else case discover_from at_token (active_eligible txn begin_seq commit_seq) at_read_overlap (in_edge_active txn)
             write_keys active_readers {} of
        (edges, seen) \<Rightarrow>
          edges @ fst (discover_from cr_token (reader_eligible txn begin_seq commit_seq) (\<lambda>r. keys_overlap (cr_keys r))
            (in_edge_committed txn) write_keys committed_readers seen))"

definition discover_outgoing_edges ::
  "TxnToken \<Rightarrow> u64 \<Rightarrow> u64 \<Rightarrow> WitnessKey list \<Rightarrow> ActiveTxn list \<Rightarrow> CommittedWriterInfo list \<Rightarrow> DiscoveredEdge list" where
  "discover_outgoing_edges txn begin_seq commit_seq read_keys active_writers committed_writers =
     (if read_keys = [] then []
      else case discover_from at_token (active_eligible txn begin_seq commit_seq) at_write_overlap (out_edge_active txn)
             read_keys active_writers {} of
        (edges, seen) \<Rightarrow>
          edges @ fst (discover_from cw_token (writer_eligible txn begin_seq commit_seq) (\<lambda>w. keys_overlap (cw_keys w))
            (out_edge_committed txn) read_keys committed_writers seen))"

section \<open>Evidence\<close>

definition witness_key_page :: "WitnessKey \<Rightarrow> PageNumber option" where
  "witness_key_page key = (case key of WPage p \<Rightarrow> Some p | WCell r _ _ \<Rightarrow> Some r | WKeyRange r _ _ \<Rightarrow> Some r
     | WByteRange p _ _ \<Rightarrow> Some p | WCustom _ _ \<Rightarrow> None)"

definition build_dependency_edges ::
  "DiscoveredEdge list \<Rightarrow> DiscoveredEdge list \<Rightarrow> TxnToken \<Rightarrow> u64 \<Rightarrow> EcsDependencyEdge list" where
  "build_dependency_edges in_edges out_edges observer observation_seq =
     map (\<lambda>edge. \<lparr>ede_from = de_from edge, ede_to = de_to edge, ede_level = 0,
         ede_range_prefix = (case witness_key_page (de_overlap_key edge) of None \<Rightarrow> 0 | Some p \<Rightarrow> p),
         ede_refinement = Some (ExactKeys [de_overlap_key edge]),
         ede_observed_by = observer, ede_observation_seq = observation_seq\<rparr>) (in_edges @ out_edges)"

definition build_commit_proof :: "TxnToken \<Rightarrow> u64 \<Rightarrow> u64 \<Rightarrow> SsiState \<Rightarrow> bytes list \<Rightarrow> bytes list \<Rightarrow> EcsCommitProof" where
  "build_commit_proof txn begin_seq commit_seq state edge_ids merge_witnesses =
     \<lparr>cp_txn = txn, cp_begin_seq = begin_seq, cp_commit_seq = commit_seq, cp_has_in_rw = ss_has_in_rw state,
      cp_has_out_rw = ss_has_out_rw state, cp_read_witness_refs = [], cp_write_witness_refs = [],
      cp_index_segments_used = [], cp_edges_emitted = edge_ids, cp_merge_witnesses = merge_witnesses,
      cp_abort_policy = AbortPivot\<rparr>"

definition token_key :: "TxnToken \<Rightarrow> nat list list" where
  "token_key t = [[unat (tok_id t)], [unat (tok_epoch t)]]"

definition decision_outcome :: "SsiDecisionType \<Rightarrow> string" where
  "decision_outcome d = (if d = CommitAllowed then ''commit'' else ''abort'')"

definition witness_keys_to_pages :: "WitnessKey list \<Rightarrow> PageNumber list" where
  "witness_keys_to_pages keys = remdups_adj (sort (List.map_filter witness_key_page keys))"

definition edge_conflicting_txns :: "TxnToken \<Rightarrow> DiscoveredEdge list \<Rightarrow> TxnToken list" where
  "edge_conflicting_txns txn edges =
     remdups_adj (sort_key token_key (concat (map (\<lambda>edge.
       (if de_from edge \<noteq> txn then [de_from edge] else []) @ (if de_to edge \<noteq> txn then [de_to edge] else [])) edges)))"

definition edge_conflict_pages :: "DiscoveredEdge list \<Rightarrow> PageNumber list" where
  "edge_conflict_pages edges = remdups_adj (sort (List.map_filter (\<lambda>edge. witness_key_page (de_overlap_key edge)) edges))"

definition estimate_commit_evidence_budget_bytes ::
  "WitnessKey list \<Rightarrow> WitnessKey list \<Rightarrow> DiscoveredEdge list \<Rightarrow> string \<Rightarrow> nat" where
  "estimate_commit_evidence_budget_bytes read_keys write_keys edges rationale =
     (length read_keys + length write_keys + length edges * 2) * 8 + length rationale"

record DecisionDraft =
  dd_decision_type :: SsiDecisionType
  dd_txn :: TxnToken
  dd_snapshot_seq :: u64
  dd_commit_seq :: "u64 option"
  dd_conflicting_txns :: "TxnToken list"
  dd_conflict_pages :: "PageNumber list"
  dd_read_set_pages :: "PageNumber list"
  dd_write_set :: "PageNumber list"
  dd_rationale :: string

record Evidence =
  ev_mode :: SsiEvidenceRecordingMode
  ev_max_pending :: nat
  ev_max_bytes :: nat
  ev_total_commit :: u64
  ev_total_abort :: u64
  ev_total_budget_compact :: u64
  ev_ledger :: "DecisionDraft list"
  ev_dro_commits :: "nat list"
  ev_dro_aborts :: "nat list"

definition commit_evidence_detail_level ::
  "nat \<Rightarrow> WitnessKey list \<Rightarrow> WitnessKey list \<Rightarrow> DiscoveredEdge list \<Rightarrow> string \<Rightarrow> Evidence \<Rightarrow> bool \<times> Evidence" where
  "commit_evidence_detail_level pending_records read_keys write_keys edges rationale ev =
     (case ev_mode ev of
        FullEvidence \<Rightarrow> (False, ev)
      | CompactCommit \<Rightarrow> (True, ev)
      | BudgetedCommit \<Rightarrow>
          if pending_records \<ge> ev_max_pending ev
            \<or> estimate_commit_evidence_budget_bytes read_keys write_keys edges rationale > ev_max_bytes ev
          then (True, ev\<lparr>ev_total_budget_compact := ev_total_budget_compact ev + 1\<rparr>)
          else (False, ev))"

definition record_evidence_decision ::
  "nat \<Rightarrow> SsiDecisionType \<Rightarrow> TxnToken \<Rightarrow> u64 \<Rightarrow> u64 option \<Rightarrow> WitnessKey list \<Rightarrow> WitnessKey list \<Rightarrow>
   DiscoveredEdge list \<Rightarrow> string \<Rightarrow> Evidence \<Rightarrow> Evidence" where
  "record_evidence_decision pending decision_type txn begin_seq commit_seq read_keys write_keys edges rationale ev =
     (case (if decision_type = CommitAllowed
            then commit_evidence_detail_level pending read_keys write_keys edges rationale ev else (False, ev)) of
        (compact, ev') \<Rightarrow>
          let draft = \<lparr>dd_decision_type = decision_type, dd_txn = txn, dd_snapshot_seq = begin_seq, dd_commit_seq = commit_seq,
                dd_conflicting_txns = (if compact then [] else edge_conflicting_txns txn edges),
                dd_conflict_pages = (if compact then [] else edge_conflict_pages edges),
                dd_read_set_pages = (if compact then [] else witness_keys_to_pages read_keys),
                dd_write_set = (if compact then [] else witness_keys_to_pages write_keys),
                dd_rationale = rationale\<rparr>;
              ev'' = ev'\<lparr>ev_ledger := ev_ledger ev' @ [draft]\<rparr> in
          if decision_type = CommitAllowed
          then ev''\<lparr>ev_total_commit := ev_total_commit ev'' + 1, ev_dro_commits := ev_dro_commits ev'' @ [length edges]\<rparr>
          else ev''\<lparr>ev_total_abort := ev_total_abort ev'' + 1, ev_dro_aborts := ev_dro_aborts ev'' @ [length edges]\<rparr>)"

section \<open>The validation\<close>

record SsiWorld =
  sw_views :: "ActiveTxn list"
  sw_evidence :: Evidence

definition in_edge_order :: "DiscoveredEdge \<Rightarrow> nat list list" where
  "in_edge_order e = token_key (de_from e) @ order_key (de_overlap_key e)"

definition out_edge_order :: "DiscoveredEdge \<Rightarrow> nat list list" where
  "out_edge_order e = token_key (de_to e) @ order_key (de_overlap_key e)"

definition edge_object_id :: "TxnToken \<Rightarrow> u64 \<Rightarrow> nat \<Rightarrow> bytes" where
  "edge_object_id txn commit_seq i =
     to_le 8 (tok_id txn) @ take 4 (to_le 8 commit_seq) @ to_le 4 (word_of_nat i :: u32)"

text \<open>The T3 rule.  The inner loop of the code stops at the first view with the token of the edge.\<close>

definition mark_active_reader :: "bool \<Rightarrow> nat list \<Rightarrow> TxnToken \<Rightarrow> ActiveTxn list \<Rightarrow> ActiveTxn list" where
  "mark_active_reader should_abort refs tok views =
     (case find (\<lambda>i. at_token (views ! i) = tok) refs of
        None \<Rightarrow> views
      | Some i \<Rightarrow> let v = (views ! i)\<lparr>at_out_rw := True\<rparr> in
          views[i := if at_in_rw v \<and> should_abort then v\<lparr>at_marked := True\<rparr> else v])"

definition mark_active_writer :: "bool \<Rightarrow> nat list \<Rightarrow> TxnToken \<Rightarrow> ActiveTxn list \<Rightarrow> ActiveTxn list" where
  "mark_active_writer should_abort refs tok views =
     (case find (\<lambda>i. at_token (views ! i) = tok) refs of
        None \<Rightarrow> views
      | Some i \<Rightarrow> let v = (views ! i)\<lparr>at_in_rw := True\<rparr> in
          views[i := if at_out_rw v \<and> should_abort then v\<lparr>at_marked := True\<rparr> else v])"

fun t3_incoming :: "bool \<Rightarrow> nat list \<Rightarrow> DiscoveredEdge list \<Rightarrow> ActiveTxn list \<Rightarrow> bool \<times> ActiveTxn list" where
  "t3_incoming should_abort refs [] views = (False, views)"
| "t3_incoming should_abort refs (edge # edges) views =
     (if de_source_is_active edge
      then t3_incoming should_abort refs edges (mark_active_reader should_abort refs (de_from edge) views)
      else if de_source_has_in_rw edge then (True, views)
      else t3_incoming should_abort refs edges views)"

fun t3_outgoing :: "bool \<Rightarrow> nat list \<Rightarrow> DiscoveredEdge list \<Rightarrow> ActiveTxn list \<Rightarrow> bool \<times> ActiveTxn list" where
  "t3_outgoing should_abort refs [] views = (False, views)"
| "t3_outgoing should_abort refs (edge # edges) views =
     (if de_source_is_active edge
      then t3_outgoing should_abort refs edges (mark_active_writer should_abort refs (de_to edge) views)
      else if de_source_has_in_rw edge then (True, views)
      else t3_outgoing should_abort refs edges views)"

definition note_decision ::
  "nat \<Rightarrow> TxnToken \<Rightarrow> u64 \<Rightarrow> u64 \<Rightarrow> WitnessKey list \<Rightarrow> WitnessKey list \<Rightarrow> SsiDecisionType \<Rightarrow> DiscoveredEdge list \<Rightarrow> string \<Rightarrow>
   SsiWorld \<Rightarrow> SsiWorld" where
  "note_decision pending txn begin_seq commit_seq read_keys write_keys decision edges rationale w =
     w\<lparr>sw_evidence := record_evidence_decision pending decision txn begin_seq (Some commit_seq) read_keys write_keys edges rationale
         (sw_evidence w)\<rparr>"

definition busy_snapshot :: "TxnToken \<Rightarrow> u64 \<Rightarrow> u64 \<Rightarrow> SsiAbortReason \<Rightarrow> EcsDependencyEdge list \<Rightarrow> SsiBusySnapshot" where
  "busy_snapshot txn begin_seq commit_seq reason edges =
     \<lparr>busy_txn = txn, busy_reason = reason,
      busy_witness = \<lparr>aw_txn = txn, aw_begin_seq = begin_seq, aw_abort_seq = commit_seq, aw_reason = SsiPivot,
        aw_edges_observed = edges\<rparr>\<rparr>"

text \<open>Steps 6 and 7: the T3 rule over the sorted edges, then publication.\<close>

definition ssi_t3_and_publish ::
  "(TxnToken \<Rightarrow> nat \<Rightarrow> nat \<Rightarrow> bool) \<Rightarrow> (nat \<Rightarrow> nat \<Rightarrow> string) \<Rightarrow> nat \<Rightarrow> TxnToken \<Rightarrow> u64 \<Rightarrow> u64 \<Rightarrow>
   WitnessKey list \<Rightarrow> WitnessKey list \<Rightarrow> nat list \<Rightarrow> nat list \<Rightarrow> nat \<Rightarrow> nat \<Rightarrow>
   SsiState \<Rightarrow> DiscoveredEdge list \<Rightarrow> DiscoveredEdge list \<Rightarrow> SsiWorld \<Rightarrow> (SsiBusySnapshot + SsiValidationOk) \<times> SsiWorld" where
  "ssi_t3_and_publish dro dro_text pending txn begin_seq commit_seq read_keys write_keys
     active_readers active_writers readers writers state in_edges out_edges world =
     (let note = note_decision pending txn begin_seq commit_seq read_keys write_keys;
          all_edges = build_dependency_edges in_edges out_edges txn commit_seq;
          no_decision = (in_edges = [] \<and> out_edges = []);
          should_abort_active_pivot = (no_decision \<or> dro txn readers writers);
          dro_suffix = (if no_decision then [] else dro_text readers writers) in
      case t3_incoming should_abort_active_pivot active_readers in_edges (sw_views world) of
        (True, views) \<Rightarrow>
          (Inl (busy_snapshot txn begin_seq commit_seq CommittedPivot all_edges),
           note AbortCycle (in_edges @ out_edges) (''committed_pivot_abort'' @ dro_suffix) (world\<lparr>sw_views := views\<rparr>))
      | (False, views) \<Rightarrow>
          (case t3_outgoing should_abort_active_pivot active_writers out_edges views of
             (True, views') \<Rightarrow>
               (Inl (busy_snapshot txn begin_seq commit_seq CommittedPivot all_edges),
                note AbortCycle (in_edges @ out_edges) (''committed_writer_pivot_abort'' @ dro_suffix) (world\<lparr>sw_views := views'\<rparr>))
           | (False, views') \<Rightarrow>
               let edge_ids = map (edge_object_id txn commit_seq) [0..<length all_edges];
                   state = state\<lparr>ss_edges_emitted := edge_ids\<rparr> in
               (Inr \<lparr>ok_edges = all_edges, ok_edge_ids = edge_ids,
                  ok_commit_proof = build_commit_proof txn begin_seq commit_seq state edge_ids [], ok_ssi_state = state\<rparr>,
                note CommitAllowed (in_edges @ out_edges) ''commit_approved'' (world\<lparr>sw_views := views'\<rparr>))))"

text \<open>Steps 3 to 7: discovery, sorting, the pivot rule, then the rest.\<close>

definition ssi_full_validation ::
  "(TxnToken \<Rightarrow> nat \<Rightarrow> nat \<Rightarrow> bool) \<Rightarrow> (nat \<Rightarrow> nat \<Rightarrow> string) \<Rightarrow> nat \<Rightarrow> TxnToken \<Rightarrow> u64 \<Rightarrow> u64 \<Rightarrow>
   WitnessKey list \<Rightarrow> WitnessKey list \<Rightarrow> nat list \<Rightarrow> nat list \<Rightarrow> CommittedReaderInfo list \<Rightarrow> CommittedWriterInfo list \<Rightarrow>
   SsiState \<Rightarrow> SsiWorld \<Rightarrow> (SsiBusySnapshot + SsiValidationOk) \<times> SsiWorld" where
  "ssi_full_validation dro dro_text pending txn begin_seq commit_seq read_keys write_keys
     active_readers active_writers committed_readers committed_writers state world =
     (let in_edges = discover_incoming_edges txn begin_seq commit_seq write_keys
            (map ((!) (sw_views world)) active_readers) committed_readers;
          out_edges = discover_outgoing_edges txn begin_seq commit_seq read_keys
            (map ((!) (sw_views world)) active_writers) committed_writers;
          state = state\<lparr>ss_has_in_rw := ss_has_in_rw state \<or> in_edges \<noteq> [], ss_has_out_rw := ss_has_out_rw state \<or> out_edges \<noteq> [],
            ss_rw_in_from := ss_rw_in_from state \<union> de_from ` set in_edges,
            ss_rw_out_to := ss_rw_out_to state \<union> de_to ` set out_edges\<rparr>;
          in_edges = sort_key in_edge_order in_edges;
          out_edges = sort_key out_edge_order out_edges in
      if ss_has_in_rw state \<and> ss_has_out_rw state
      then (Inl (busy_snapshot txn begin_seq commit_seq Pivot (build_dependency_edges in_edges out_edges txn commit_seq)),
            note_decision pending txn begin_seq commit_seq read_keys write_keys AbortWriteSkew (in_edges @ out_edges)
              ''pivot_abort_dangerous_structure'' world)
      else ssi_t3_and_publish dro dro_text pending txn begin_seq commit_seq read_keys write_keys active_readers active_writers
        (usize_saturating_add (length active_readers) (length committed_readers))
        (usize_saturating_add (length active_writers) (length committed_writers)) state in_edges out_edges world)"

definition ssi_validate_and_publish ::
  "(TxnToken \<Rightarrow> nat \<Rightarrow> nat \<Rightarrow> bool) \<Rightarrow> (nat \<Rightarrow> nat \<Rightarrow> string) \<Rightarrow> nat \<Rightarrow> TxnToken \<Rightarrow> u64 \<Rightarrow> u64 \<Rightarrow>
   WitnessKey list \<Rightarrow> WitnessKey list \<Rightarrow> nat list \<Rightarrow> nat list \<Rightarrow> CommittedReaderInfo list \<Rightarrow> CommittedWriterInfo list \<Rightarrow>
   bool \<Rightarrow> SsiWorld \<Rightarrow> (SsiBusySnapshot + SsiValidationOk) \<times> SsiWorld" where
  "ssi_validate_and_publish dro dro_text pending txn begin_seq commit_seq read_keys write_keys
     active_readers active_writers committed_readers committed_writers marked_for_abort world =
     (let state = (SsiState_new txn begin_seq)\<lparr>ss_marked_for_abort := marked_for_abort\<rparr>;
          note = note_decision pending txn begin_seq commit_seq read_keys write_keys;
          no_edges = \<lparr>ok_edges = [], ok_edge_ids = [],
                     ok_commit_proof = build_commit_proof txn begin_seq commit_seq state [] [], ok_ssi_state = state\<rparr> in
      if write_keys = [] then (Inr no_edges, note CommitAllowed [] ''read_only_fast_path'' world)
      else if marked_for_abort
      then (Inl (busy_snapshot txn begin_seq commit_seq MarkedForAbort []), note AbortCycle [] ''marked_for_abort'' world)
      else if read_keys = [] \<and> \<not> has_any_read_overlap write_keys (map ((!) (sw_views world)) active_readers) committed_readers
      then (Inr no_edges, note CommitAllowed [] ''disjoint_insert_fast_path'' world)
      else ssi_full_validation dro dro_text pending txn begin_seq commit_seq read_keys write_keys
        active_readers active_writers committed_readers committed_writers state world)"

section \<open>What edge discovery finds\<close>

lemma find_SomeD: "find P xs = Some x \<Longrightarrow> x \<in> set xs \<and> P x"
  by (auto simp: find_Some_iff)

lemma discover_from_spec:
  assumes "\<And>c k. peer (edge c k) = token c"
    and "discover_from token eligible hit edge keys cs seen = (es, seen')"
  shows "distinct (map peer es)"
    "peer ` set es = {token c | c. c \<in> set cs \<and> eligible c \<and> (\<exists>k \<in> set keys. hit c k)} - seen"
    "seen' = seen \<union> peer ` set es"
    "\<forall>e \<in> set es. \<exists>c \<in> set cs. eligible c \<and> (\<exists>k \<in> set keys. hit c k \<and> e = edge c k)"
proof -
  have "distinct (map peer es) \<and> peer ` set es = {token c | c. c \<in> set cs \<and> eligible c \<and> (\<exists>k \<in> set keys. hit c k)} - seen \<and>
     seen' = seen \<union> peer ` set es \<and> (\<forall>e \<in> set es. \<exists>c \<in> set cs. eligible c \<and> (\<exists>k \<in> set keys. hit c k \<and> e = edge c k))"
    using assms(2)
  proof (induction cs arbitrary: seen es seen')
    case (Cons c cs)
    show ?case
    proof (cases "\<not> eligible c \<or> token c \<in> seen \<or> find (hit c) keys = None")
      case True
      then have "discover_from token eligible hit edge keys cs seen = (es, seen')"
        using Cons.prems by (auto split: if_splits)
      moreover have "\<not> eligible c \<or> token c \<in> seen \<or> \<not> (\<exists>k \<in> set keys. hit c k)"
        using True by (auto simp: find_None_iff)
      ultimately show ?thesis using Cons.IH [of seen es seen'] by auto
    next
      case False
      then obtain key where key: "find (hit c) keys = Some key" by blast
      obtain es1 where es1: "discover_from token eligible hit edge keys cs (insert (token c) seen) = (es1, seen')" "es = edge c key # es1"
        using False key Cons.prems by (auto split: prod.splits)
      note ih = Cons.IH [OF es1(1)]
      have "key \<in> set keys" "hit c key" using find_SomeD [OF key] by auto
      then show ?thesis using ih es1(2) False assms(1) by auto
    qed
  qed simp
  then show "distinct (map peer es)"
    "peer ` set es = {token c | c. c \<in> set cs \<and> eligible c \<and> (\<exists>k \<in> set keys. hit c k)} - seen"
    "seen' = seen \<union> peer ` set es"
    "\<forall>e \<in> set es. \<exists>c \<in> set cs. eligible c \<and> (\<exists>k \<in> set keys. hit c k \<and> e = edge c k)" by auto
qed

lemma discover_two_spec:
  assumes p: "\<And>c k. peer (edge c k) = token c" "\<And>c k. peer (edge' c k) = token' c"
    and d1: "discover_from token el hit edge keys cs {} = (es1, s1)"
    and d2: "discover_from token' el' hit' edge' keys cs' s1 = (es2, s2)"
  shows "distinct (map peer (es1 @ es2))"
    "peer ` set (es1 @ es2) = {token c | c. c \<in> set cs \<and> el c \<and> (\<exists>k \<in> set keys. hit c k)} \<union>
       {token' c | c. c \<in> set cs' \<and> el' c \<and> (\<exists>k \<in> set keys. hit' c k)}"
    "x \<in> set (es1 @ es2) \<Longrightarrow> (\<exists>c \<in> set cs. el c \<and> (\<exists>k \<in> set keys. hit c k \<and> x = edge c k)) \<or>
       (\<exists>c \<in> set cs'. el' c \<and> (\<exists>k \<in> set keys. hit' c k \<and> x = edge' c k))"
proof -
  note a = discover_from_spec [where peer = peer, OF p(1) d1] and c = discover_from_spec [where peer = peer, OF p(2) d2]
  have "peer ` set es1 \<inter> peer ` set es2 = {}" using a(3) c(2) by blast
  then show "distinct (map peer (es1 @ es2))" using a(1) c(1) by simp
  show "peer ` set (es1 @ es2) = {token c | c. c \<in> set cs \<and> el c \<and> (\<exists>k \<in> set keys. hit c k)} \<union>
       {token' c | c. c \<in> set cs' \<and> el' c \<and> (\<exists>k \<in> set keys. hit' c k)}"
    using a(2,3) c(2) by (simp only: set_append image_Un) blast
  show "x \<in> set (es1 @ es2) \<Longrightarrow> (\<exists>c \<in> set cs. el c \<and> (\<exists>k \<in> set keys. hit c k \<and> x = edge c k)) \<or>
       (\<exists>c \<in> set cs'. el' c \<and> (\<exists>k \<in> set keys. hit' c k \<and> x = edge' c k))"
    using a(4) c(4) by auto
qed

definition in_sources ::
  "TxnToken \<Rightarrow> u64 \<Rightarrow> u64 \<Rightarrow> WitnessKey list \<Rightarrow> ActiveTxn list \<Rightarrow> CommittedReaderInfo list \<Rightarrow> TxnToken set" where
  "in_sources txn b e write_keys ar cr =
     {at_token c | c. c \<in> set ar \<and> active_eligible txn b e c \<and> (\<exists>k \<in> set write_keys. at_read_overlap c k)} \<union>
     {cr_token r | r. r \<in> set cr \<and> reader_eligible txn b e r \<and> (\<exists>k \<in> set write_keys. keys_overlap (cr_keys r) k)}"

definition out_targets ::
  "TxnToken \<Rightarrow> u64 \<Rightarrow> u64 \<Rightarrow> WitnessKey list \<Rightarrow> ActiveTxn list \<Rightarrow> CommittedWriterInfo list \<Rightarrow> TxnToken set" where
  "out_targets txn b e read_keys aw cw =
     {at_token c | c. c \<in> set aw \<and> active_eligible txn b e c \<and> (\<exists>k \<in> set read_keys. at_write_overlap c k)} \<union>
     {cw_token w | w. w \<in> set cw \<and> writer_eligible txn b e w \<and> (\<exists>k \<in> set read_keys. keys_overlap (cw_keys w) k)}"

lemma incoming_spec:
  assumes "es = discover_incoming_edges txn b e keys ar cr"
  shows "distinct (map de_from es)" "de_from ` set es = in_sources txn b e keys ar cr"
    "x \<in> set es \<Longrightarrow> de_to x = txn \<and> (if de_source_is_active x
       then \<exists>c \<in> set ar. active_eligible txn b e c \<and> (\<exists>k \<in> set keys. at_read_overlap c k) \<and> at_token c = de_from x
       else \<exists>r \<in> set cr. reader_eligible txn b e r \<and> (\<exists>k \<in> set keys. keys_overlap (cr_keys r) k) \<and>
         cr_token r = de_from x \<and> cr_had_in_rw r = de_source_has_in_rw x)"
proof -
  obtain es1 s1 where d1: "discover_from at_token (active_eligible txn b e) at_read_overlap (in_edge_active txn) keys ar {} = (es1, s1)" by fastforce
  obtain es2 s2 where d2: "discover_from cr_token (reader_eligible txn b e) (\<lambda>r. keys_overlap (cr_keys r)) (in_edge_committed txn) keys cr s1 = (es2, s2)" by fastforce
  have p: "de_from (in_edge_active txn c k) = at_token c" "de_from (in_edge_committed txn r k) = cr_token r" for c r k
    by (simp_all add: in_edge_active_def in_edge_committed_def)
  note t = discover_two_spec [where peer = de_from, OF p d1 d2]
  consider "keys = []" "es = []" | "es = es1 @ es2" using assms d1 d2 by (auto simp: discover_incoming_edges_def split: if_splits)
  then show "distinct (map de_from es)" "de_from ` set es = in_sources txn b e keys ar cr"
    using t(1,2) by (cases; simp add: in_sources_def)+
  show "de_to x = txn \<and> (if de_source_is_active x
       then \<exists>c \<in> set ar. active_eligible txn b e c \<and> (\<exists>k \<in> set keys. at_read_overlap c k) \<and> at_token c = de_from x
       else \<exists>r \<in> set cr. reader_eligible txn b e r \<and> (\<exists>k \<in> set keys. keys_overlap (cr_keys r) k) \<and>
         cr_token r = de_from x \<and> cr_had_in_rw r = de_source_has_in_rw x)" if "x \<in> set es"
  proof -
    have "x \<in> set (es1 @ es2)" using that assms d1 d2 by (auto simp: discover_incoming_edges_def split: if_splits)
    then show ?thesis using t(3) [of x] by (auto simp: in_edge_active_def in_edge_committed_def)
  qed
qed

lemma outgoing_spec:
  assumes "es = discover_outgoing_edges txn b e keys aw cw"
  shows "distinct (map de_to es)" "de_to ` set es = out_targets txn b e keys aw cw"
    "x \<in> set es \<Longrightarrow> de_from x = txn \<and> (if de_source_is_active x
       then \<exists>c \<in> set aw. active_eligible txn b e c \<and> (\<exists>k \<in> set keys. at_write_overlap c k) \<and> at_token c = de_to x
       else \<exists>r \<in> set cw. writer_eligible txn b e r \<and> (\<exists>k \<in> set keys. keys_overlap (cw_keys r) k) \<and>
         cw_token r = de_to x \<and> cw_had_out_rw r = de_source_has_in_rw x)"
proof -
  obtain es1 s1 where d1: "discover_from at_token (active_eligible txn b e) at_write_overlap (out_edge_active txn) keys aw {} = (es1, s1)" by fastforce
  obtain es2 s2 where d2: "discover_from cw_token (writer_eligible txn b e) (\<lambda>r. keys_overlap (cw_keys r)) (out_edge_committed txn) keys cw s1 = (es2, s2)" by fastforce
  have p: "de_to (out_edge_active txn c k) = at_token c" "de_to (out_edge_committed txn r k) = cw_token r" for c r k
    by (simp_all add: out_edge_active_def out_edge_committed_def)
  note t = discover_two_spec [where peer = de_to, OF p d1 d2]
  consider "keys = []" "es = []" | "es = es1 @ es2" using assms d1 d2 by (auto simp: discover_outgoing_edges_def split: if_splits)
  then show "distinct (map de_to es)" "de_to ` set es = out_targets txn b e keys aw cw"
    using t(1,2) by (cases; simp add: out_targets_def)+
  show "de_from x = txn \<and> (if de_source_is_active x
       then \<exists>c \<in> set aw. active_eligible txn b e c \<and> (\<exists>k \<in> set keys. at_write_overlap c k) \<and> at_token c = de_to x
       else \<exists>r \<in> set cw. writer_eligible txn b e r \<and> (\<exists>k \<in> set keys. keys_overlap (cw_keys r) k) \<and>
         cw_token r = de_to x \<and> cw_had_out_rw r = de_source_has_in_rw x)" if "x \<in> set es"
  proof -
    have "x \<in> set (es1 @ es2)" using that assms d1 d2 by (auto simp: discover_outgoing_edges_def split: if_splits)
    then show ?thesis using t(3) [of x] by (auto simp: out_edge_active_def out_edge_committed_def)
  qed
qed

section \<open>The verdict\<close>

text \<open>A conflict with a committed transaction that already had an edge on its other side.\<close>

definition committed_pivot ::
  "TxnToken \<Rightarrow> u64 \<Rightarrow> u64 \<Rightarrow> WitnessKey list \<Rightarrow> WitnessKey list \<Rightarrow> CommittedReaderInfo list \<Rightarrow> CommittedWriterInfo list \<Rightarrow> bool" where
  "committed_pivot txn b e read_keys write_keys cr cw \<longleftrightarrow>
     (\<exists>r \<in> set cr. reader_eligible txn b e r \<and> (\<exists>k \<in> set write_keys. keys_overlap (cr_keys r) k) \<and> cr_had_in_rw r) \<or>
     (\<exists>w \<in> set cw. writer_eligible txn b e w \<and> (\<exists>k \<in> set read_keys. keys_overlap (cw_keys w) k) \<and> cw_had_out_rw w)"

text \<open>The rules of the validation over the sets of conflicting transactions.\<close>

definition ssi_verdict ::
  "bool \<Rightarrow> WitnessKey list \<Rightarrow> TxnToken set \<Rightarrow> TxnToken set \<Rightarrow> bool \<Rightarrow> SsiAbortReason option" where
  "ssi_verdict marked write_keys sources targets pivot =
     (if write_keys = [] then None
      else if marked then Some MarkedForAbort
      else if sources \<noteq> {} \<and> targets \<noteq> {} then Some Pivot
      else if pivot then Some CommittedPivot else None)"

definition outcome :: "SsiBusySnapshot + SsiValidationOk \<Rightarrow> SsiAbortReason option" where
  "outcome r = (case r of Inl busy \<Rightarrow> Some (busy_reason busy) | Inr ok \<Rightarrow> None)"

lemma t3_incoming_pivot:
  "fst (t3_incoming s refs es views) = (\<exists>e \<in> set es. \<not> de_source_is_active e \<and> de_source_has_in_rw e)"
  by (induction es arbitrary: views) auto

lemma t3_outgoing_pivot:
  "fst (t3_outgoing s refs es views) = (\<exists>e \<in> set es. \<not> de_source_is_active e \<and> de_source_has_in_rw e)"
  by (induction es arbitrary: views) auto

lemma committed_edge_in:
  assumes "distinct (map at_token ar @ map cr_token cr)"
  shows "(\<exists>x \<in> set (discover_incoming_edges txn b e keys ar cr). \<not> de_source_is_active x \<and> de_source_has_in_rw x) \<longleftrightarrow>
    (\<exists>r \<in> set cr. reader_eligible txn b e r \<and> (\<exists>k \<in> set keys. keys_overlap (cr_keys r) k) \<and> cr_had_in_rw r)" (is "?L \<longleftrightarrow> ?R")
proof
  assume "?L"
  then obtain x where x: "x \<in> set (discover_incoming_edges txn b e keys ar cr)" "\<not> de_source_is_active x" "de_source_has_in_rw x"
    by blast
  then show "?R" using incoming_spec(3) [OF refl x(1)] by auto
next
  assume "?R"
  then obtain r where r: "r \<in> set cr" "reader_eligible txn b e r" "\<exists>k \<in> set keys. keys_overlap (cr_keys r) k" "cr_had_in_rw r" by blast
  then have "cr_token r \<in> de_from ` set (discover_incoming_edges txn b e keys ar cr)"
    using incoming_spec(2) [OF refl] by (auto simp: in_sources_def)
  then obtain x where x: "x \<in> set (discover_incoming_edges txn b e keys ar cr)" "de_from x = cr_token r" by auto
  note sx = incoming_spec(3) [OF refl x(1)]
  have "\<not> de_source_is_active x" using sx x(2) r(1) assms by (auto split: if_splits)
  moreover from this obtain r' where "r' \<in> set cr" "cr_token r' = cr_token r" "cr_had_in_rw r' = de_source_has_in_rw x"
    using sx x(2) by auto
  moreover from this have "r' = r" using r(1) assms by (auto simp: distinct_map dest: inj_onD)
  ultimately show "?L" using x(1) r(4) by blast
qed

lemma committed_edge_out:
  assumes "distinct (map at_token aw @ map cw_token cw)"
  shows "(\<exists>x \<in> set (discover_outgoing_edges txn b e keys aw cw). \<not> de_source_is_active x \<and> de_source_has_in_rw x) \<longleftrightarrow>
    (\<exists>w \<in> set cw. writer_eligible txn b e w \<and> (\<exists>k \<in> set keys. keys_overlap (cw_keys w) k) \<and> cw_had_out_rw w)" (is "?L \<longleftrightarrow> ?R")
proof
  assume "?L"
  then obtain x where x: "x \<in> set (discover_outgoing_edges txn b e keys aw cw)" "\<not> de_source_is_active x" "de_source_has_in_rw x"
    by blast
  then show "?R" using outgoing_spec(3) [OF refl x(1)] by auto
next
  assume "?R"
  then obtain w where w: "w \<in> set cw" "writer_eligible txn b e w" "\<exists>k \<in> set keys. keys_overlap (cw_keys w) k" "cw_had_out_rw w" by blast
  then have "cw_token w \<in> de_to ` set (discover_outgoing_edges txn b e keys aw cw)"
    using outgoing_spec(2) [OF refl] by (auto simp: out_targets_def)
  then obtain x where x: "x \<in> set (discover_outgoing_edges txn b e keys aw cw)" "de_to x = cw_token w" by auto
  note sx = outgoing_spec(3) [OF refl x(1)]
  have "\<not> de_source_is_active x" using sx x(2) w(1) assms by (auto split: if_splits)
  moreover from this obtain w' where "w' \<in> set cw" "cw_token w' = cw_token w" "cw_had_out_rw w' = de_source_has_in_rw x"
    using sx x(2) by auto
  moreover from this have "w' = w" using w(1) assms by (auto simp: distinct_map dest: inj_onD)
  ultimately show "?L" using x(1) w(4) by blast
qed

text \<open>The disjoint-insert fast path only skips work that would find nothing.\<close>

lemma disjoint_insert_no_edges:
  assumes "\<not> has_any_read_overlap write_keys ar cr"
  shows "in_sources txn b e write_keys ar cr = {}" "discover_incoming_edges txn b e write_keys ar cr = []"
proof -
  show s: "in_sources txn b e write_keys ar cr = {}"
    using assms by (cases "write_keys = []"; cases "ar = [] \<and> cr = []")
      (auto simp: has_any_read_overlap_def in_sources_def active_eligible_def list_ex_iff)
  then show "discover_incoming_edges txn b e write_keys ar cr = []"
    using incoming_spec(2) [OF refl, of txn b e write_keys ar cr] by simp
qed

lemma no_read_keys_no_targets: "out_targets txn b e [] aw cw = {}" "discover_outgoing_edges txn b e [] aw cw = []"
  by (simp_all add: out_targets_def discover_outgoing_edges_def)

lemma edges_nonempty:
  "discover_incoming_edges txn b e wk ar cr = [] \<longleftrightarrow> in_sources txn b e wk ar cr = {}"
  "discover_outgoing_edges txn b e rk aw cw = [] \<longleftrightarrow> out_targets txn b e rk aw cw = {}"
  using incoming_spec(2) [OF refl, of txn b e wk ar cr] outgoing_spec(2) [OF refl, of txn b e rk aw cw] by auto

lemma outcome_busy [simp]: "outcome (Inl (busy_snapshot txn b e reason edges)) = Some reason"
  by (simp add: outcome_def busy_snapshot_def)

lemma outcome_ok [simp]: "outcome (Inr ok) = None"
  by (simp add: outcome_def)

lemma t3_publish_outcome:
  "outcome (fst (ssi_t3_and_publish dro dro_text pending txn b e rk wk ar aw n m state ins outs w)) =
   (if (\<exists>x \<in> set ins. \<not> de_source_is_active x \<and> de_source_has_in_rw x) \<or> (\<exists>x \<in> set outs. \<not> de_source_is_active x \<and> de_source_has_in_rw x)
    then Some CommittedPivot else None)"
proof -
  define sh where "sh = (ins = [] \<and> outs = [] \<or> dro txn n m)"
  obtain p1 v1 where 1: "t3_incoming sh ar ins (sw_views w) = (p1, v1)" by fastforce
  obtain p2 v2 where 2: "t3_outgoing sh aw outs v1 = (p2, v2)" by fastforce
  have p: "(\<exists>x \<in> set ins. \<not> de_source_is_active x \<and> de_source_has_in_rw x) = p1"
    "(\<exists>x \<in> set outs. \<not> de_source_is_active x \<and> de_source_has_in_rw x) = p2"
    using t3_incoming_pivot [of sh ar ins "sw_views w"] t3_outgoing_pivot [of sh aw outs v1] 1 2 by auto
  show ?thesis
    unfolding p by (cases p1; cases p2)
      (simp_all add: ssi_t3_and_publish_def Let_def 1 [unfolded sh_def] 2 [unfolded sh_def])
qed

text \<open>C8: The whole algorithm, with its two fast paths, its edge sorting and its early exits, decides exactly by
  the rules of serializable snapshot isolation over the conflicting transactions: a read-only transaction commits; a
  transaction another committer marked aborts; a transaction with both an incoming and an outgoing conflict aborts; one
  that conflicts with a committed pivot aborts; every other one commits.\<close>

theorem ssi_validation_verdict:
  assumes "distinct (map at_token (map ((!) (sw_views w)) ar) @ map cr_token cr)"
    and "distinct (map at_token (map ((!) (sw_views w)) aw) @ map cw_token cw)"
  shows "outcome (fst (ssi_validate_and_publish dro dro_text pending txn b e rk wk ar aw cr cw marked w)) =
    ssi_verdict marked wk (in_sources txn b e wk (map ((!) (sw_views w)) ar) cr)
      (out_targets txn b e rk (map ((!) (sw_views w)) aw) cw) (committed_pivot txn b e rk wk cr cw)"
proof -
  let ?ar = "map ((!) (sw_views w)) ar" and ?aw = "map ((!) (sw_views w)) aw"
  define ins where "ins = discover_incoming_edges txn b e wk ?ar cr"
  define outs where "outs = discover_outgoing_edges txn b e rk ?aw cw"
  have cp: "committed_pivot txn b e rk wk cr cw \<longleftrightarrow>
      (\<exists>x \<in> set ins. \<not> de_source_is_active x \<and> de_source_has_in_rw x) \<or> (\<exists>x \<in> set outs. \<not> de_source_is_active x \<and> de_source_has_in_rw x)"
    unfolding committed_pivot_def ins_def outs_def
    using committed_edge_in [OF assms(1), of txn b e wk] committed_edge_out [OF assms(2), of txn b e rk] by blast
  have ne: "ins = [] \<longleftrightarrow> in_sources txn b e wk ?ar cr = {}" "outs = [] \<longleftrightarrow> out_targets txn b e rk ?aw cw = {}"
    unfolding ins_def outs_def by (rule edges_nonempty)+
  have fast: "ins = []" "outs = []" if "rk = []" "\<not> has_any_read_overlap wk ?ar cr"
    using that disjoint_insert_no_edges(2) no_read_keys_no_targets(2) by (auto simp: ins_def outs_def)
  have "outcome (fst (ssi_full_validation dro dro_text pending txn b e rk wk ar aw cr cw
      ((SsiState_new txn b)\<lparr>ss_marked_for_abort := False\<rparr>) w)) =
     (if ins \<noteq> [] \<and> outs \<noteq> [] then Some Pivot else if committed_pivot txn b e rk wk cr cw then Some CommittedPivot else None)"
    unfolding cp by (simp add: ssi_full_validation_def Let_def ins_def [symmetric] outs_def [symmetric] t3_publish_outcome
        SsiState_new_def outcome_busy)
  then show ?thesis
    using fast cp by (auto simp: ssi_validate_and_publish_def ssi_verdict_def ne [symmetric] outcome_busy outcome_ok Let_def)
qed

theorem ssi_validation_verdict_witness:
  "let v = \<lparr>at_token = \<lparr>tok_id = 2, tok_epoch = 1\<rparr>, at_begin_seq = 1, at_active = True, at_read_overlap = (\<lambda>k. k = WPage 5),
        at_write_overlap = (\<lambda>k. k = WPage 6), at_in_rw = False, at_out_rw = False, at_marked = False\<rparr>;
       ev = \<lparr>ev_mode = FullEvidence, ev_max_pending = 8, ev_max_bytes = 100, ev_total_commit = 0, ev_total_abort = 0,
        ev_total_budget_compact = 0, ev_ledger = [], ev_dro_commits = [], ev_dro_aborts = []\<rparr> in
   outcome (fst (ssi_validate_and_publish (\<lambda>_ _ _. True) (\<lambda>_ _. []) 0 \<lparr>tok_id = 1, tok_epoch = 1\<rparr> 1 7 [WPage 6] [WPage 5]
     [0] [0] [] [] False \<lparr>sw_views = [v], sw_evidence = ev\<rparr>)) = Some Pivot"
  by (simp add: Let_def ssi_validation_verdict ssi_verdict_def in_sources_def out_targets_def active_eligible_def
      word_less_alt uint_word_ariths)

section \<open>What a committer leaves in the other transactions\<close>

definition read_conflict :: "TxnToken \<Rightarrow> u64 \<Rightarrow> u64 \<Rightarrow> WitnessKey list \<Rightarrow> ActiveTxn \<Rightarrow> bool" where
  "read_conflict txn b e write_keys v \<longleftrightarrow> active_eligible txn b e v \<and> (\<exists>k \<in> set write_keys. at_read_overlap v k)"

definition write_conflict :: "TxnToken \<Rightarrow> u64 \<Rightarrow> u64 \<Rightarrow> WitnessKey list \<Rightarrow> ActiveTxn \<Rightarrow> bool" where
  "write_conflict txn b e read_keys v \<longleftrightarrow> active_eligible txn b e v \<and> (\<exists>k \<in> set read_keys. at_write_overlap v k)"

definition t3_out_marked :: "bool \<Rightarrow> bool \<Rightarrow> ActiveTxn \<Rightarrow> ActiveTxn" where
  "t3_out_marked conflict should_abort v =
     (if conflict then v\<lparr>at_out_rw := True, at_marked := at_marked v \<or> at_in_rw v \<and> should_abort\<rparr> else v)"

definition t3_in_marked :: "bool \<Rightarrow> bool \<Rightarrow> ActiveTxn \<Rightarrow> ActiveTxn" where
  "t3_in_marked conflict should_abort v =
     (if conflict then v\<lparr>at_in_rw := True, at_marked := at_marked v \<or> at_out_rw v \<and> should_abort\<rparr> else v)"

lemma find_token:
  assumes "distinct (map at_token views)" "set refs \<subseteq> {..<length views}" "i \<in> set refs" "at_token (views ! i) = tok"
  shows "find (\<lambda>i. at_token (views ! i) = tok) refs = Some i"
proof -
  obtain j where j: "find (\<lambda>i. at_token (views ! i) = tok) refs = Some j"
    using assms(3,4) by (cases "find (\<lambda>i. at_token (views ! i) = tok) refs") (auto simp: find_None_iff)
  then have "j \<in> set refs" "at_token (views ! j) = tok" using find_SomeD by fastforce+
  then have "j = i" using assms by (auto simp: distinct_conv_nth subset_iff)
  then show ?thesis using j by simp
qed

lemma t3_out_marked_update:
  "t3_out_marked True s v = (let v = v\<lparr>at_out_rw := True\<rparr> in if at_in_rw v \<and> s then v\<lparr>at_marked := True\<rparr> else v)"
  by (cases v) (auto simp: t3_out_marked_def Let_def)

lemma t3_in_marked_update:
  "t3_in_marked True s v = (let v = v\<lparr>at_in_rw := True\<rparr> in if at_out_rw v \<and> s then v\<lparr>at_marked := True\<rparr> else v)"
  by (cases v) (auto simp: t3_in_marked_def Let_def)

lemma mark_token [simp]:
  "map at_token (mark_active_reader s refs tok views) = map at_token views"
  "map at_token (mark_active_writer s refs tok views) = map at_token views"
  "length (mark_active_reader s refs tok views) = length views" "length (mark_active_writer s refs tok views) = length views"
  by (auto simp: mark_active_reader_def mark_active_writer_def Let_def map_update split: option.split
      intro!: nth_equalityI) (metis list_update_id map_update nth_map nth_list_update)+

lemma mark_nth:
  assumes "distinct (map at_token views)" "set refs \<subseteq> {..<length views}" "i < length views"
  shows "mark_active_reader s refs tok views ! i = t3_out_marked (i \<in> set refs \<and> at_token (views ! i) = tok) s (views ! i)"
    "mark_active_writer s refs tok views ! i = t3_in_marked (i \<in> set refs \<and> at_token (views ! i) = tok) s (views ! i)"
proof -
  have f: "find (\<lambda>i. at_token (views ! i) = tok) refs = Some j \<longleftrightarrow> j \<in> set refs \<and> at_token (views ! j) = tok" for j
    using find_token [OF assms(1,2)] find_SomeD by fastforce
  show "mark_active_reader s refs tok views ! i = t3_out_marked (i \<in> set refs \<and> at_token (views ! i) = tok) s (views ! i)"
    "mark_active_writer s refs tok views ! i = t3_in_marked (i \<in> set refs \<and> at_token (views ! i) = tok) s (views ! i)"
    using f [of i] assms(3)
    by (auto simp: mark_active_reader_def mark_active_writer_def t3_out_marked_update t3_in_marked_update nth_list_update
        find_None_iff t3_out_marked_def t3_in_marked_def Let_def split: option.split)
qed

lemma t3_marked_merge [simp]:
  "t3_out_marked c s (t3_out_marked d s v) = t3_out_marked (d \<or> c) s v" "at_token (t3_out_marked c s v) = at_token v"
  "t3_in_marked c s (t3_in_marked d s v) = t3_in_marked (d \<or> c) s v" "at_token (t3_in_marked c s v) = at_token v"
  "t3_out_marked False s v = v" "t3_in_marked False s v = v"
  by (cases v; auto simp: t3_out_marked_def t3_in_marked_def)+

lemma t3_nth:
  assumes "distinct (map at_token views)" "set refs \<subseteq> {..<length views}" "i < length views"
    and "\<not> (\<exists>e \<in> set es. \<not> de_source_is_active e \<and> de_source_has_in_rw e)"
  shows "snd (t3_incoming s refs es views) ! i =
      t3_out_marked (i \<in> set refs \<and> (\<exists>e \<in> set es. de_source_is_active e \<and> de_from e = at_token (views ! i))) s (views ! i)"
    "snd (t3_outgoing s refs es views) ! i =
      t3_in_marked (i \<in> set refs \<and> (\<exists>e \<in> set es. de_source_is_active e \<and> de_to e = at_token (views ! i))) s (views ! i)"
proof -
  show "snd (t3_incoming s refs es views) ! i =
      t3_out_marked (i \<in> set refs \<and> (\<exists>e \<in> set es. de_source_is_active e \<and> de_from e = at_token (views ! i))) s (views ! i)"
    using assms
  proof (induction es arbitrary: views)
    case (Cons e es)
    then show ?case
      using Cons.IH [of "mark_active_reader s refs (de_from e) views"] mark_nth(1) [OF Cons.prems(1-3), of s "de_from e"]
      by (auto intro!: arg_cong2 [where f = "\<lambda>c v. t3_out_marked c s v"])
  qed simp
  show "snd (t3_outgoing s refs es views) ! i =
      t3_in_marked (i \<in> set refs \<and> (\<exists>e \<in> set es. de_source_is_active e \<and> de_to e = at_token (views ! i))) s (views ! i)"
    using assms
  proof (induction es arbitrary: views)
    case (Cons e es)
    then show ?case
      using Cons.IH [of "mark_active_writer s refs (de_to e) views"] mark_nth(2) [OF Cons.prems(1-3), of s "de_to e"]
      by (auto intro!: arg_cong2 [where f = "\<lambda>c v. t3_in_marked c s v"])
  qed simp
qed

lemma t3_tokens [simp]:
  "map at_token (snd (t3_incoming s refs es views)) = map at_token views"
  "map at_token (snd (t3_outgoing s refs es views)) = map at_token views"
  "length (snd (t3_incoming s refs es views)) = length views"
  "length (snd (t3_outgoing s refs es views)) = length views"
  by (induction es arbitrary: views) auto

lemma t3_publish_views:
  assumes "outcome (fst (ssi_t3_and_publish dro dro_text pending txn b e rk wk ar aw n m state ins outs w)) = None"
    and sh: "sh = (ins = [] \<and> outs = [] \<or> dro txn n m)"
  shows "sw_views (snd (ssi_t3_and_publish dro dro_text pending txn b e rk wk ar aw n m state ins outs w)) =
    snd (t3_outgoing sh aw outs (snd (t3_incoming sh ar ins (sw_views w))))"
    "\<not> (\<exists>x \<in> set ins. \<not> de_source_is_active x \<and> de_source_has_in_rw x)"
    "\<not> (\<exists>x \<in> set outs. \<not> de_source_is_active x \<and> de_source_has_in_rw x)"
proof -
  show i: "\<not> (\<exists>x \<in> set ins. \<not> de_source_is_active x \<and> de_source_has_in_rw x)"
    and o: "\<not> (\<exists>x \<in> set outs. \<not> de_source_is_active x \<and> de_source_has_in_rw x)"
    using assms(1) unfolding t3_publish_outcome by (auto split: if_splits)
  obtain v1 where 1: "t3_incoming sh ar ins (sw_views w) = (False, v1)"
    using t3_incoming_pivot [of sh ar ins "sw_views w"] i by (cases "t3_incoming sh ar ins (sw_views w)") auto
  obtain v2 where 2: "t3_outgoing sh aw outs v1 = (False, v2)"
    using t3_outgoing_pivot [of sh aw outs v1] o by (cases "t3_outgoing sh aw outs v1") auto
  show "sw_views (snd (ssi_t3_and_publish dro dro_text pending txn b e rk wk ar aw n m state ins outs w)) =
    snd (t3_outgoing sh aw outs (snd (t3_incoming sh ar ins (sw_views w))))"
    by (simp add: ssi_t3_and_publish_def Let_def 1 [unfolded sh] 2 [unfolded sh] 1 2 note_decision_def sh)
qed

lemma active_edge_in:
  assumes "distinct (map at_token ar @ map cr_token cr)" "v \<in> set ar"
  shows "(\<exists>x \<in> set (discover_incoming_edges txn b e wk ar cr). de_source_is_active x \<and> de_from x = at_token v) \<longleftrightarrow>
    read_conflict txn b e wk v" (is "?L \<longleftrightarrow> ?R")
proof
  assume "?L"
  then obtain x where x: "x \<in> set (discover_incoming_edges txn b e wk ar cr)" "de_source_is_active x" "de_from x = at_token v" by blast
  then obtain c where "c \<in> set ar" "at_token c = at_token v" "read_conflict txn b e wk c"
    using incoming_spec(3) [OF refl x(1)] by (auto simp: read_conflict_def)
  then show "?R" using assms by (auto simp: distinct_map dest: inj_onD)
next
  assume r: "?R"
  then have "at_token v \<in> de_from ` set (discover_incoming_edges txn b e wk ar cr)"
    using incoming_spec(2) [OF refl] assms(2) by (auto simp: in_sources_def read_conflict_def)
  then obtain x where x: "x \<in> set (discover_incoming_edges txn b e wk ar cr)" "de_from x = at_token v" by auto
  then show "?L" using incoming_spec(3) [OF refl x(1)] assms by (auto split: if_splits)
qed

lemma active_edge_out:
  assumes "distinct (map at_token aw @ map cw_token cw)" "v \<in> set aw"
  shows "(\<exists>x \<in> set (discover_outgoing_edges txn b e rk aw cw). de_source_is_active x \<and> de_to x = at_token v) \<longleftrightarrow>
    write_conflict txn b e rk v" (is "?L \<longleftrightarrow> ?R")
proof
  assume "?L"
  then obtain x where x: "x \<in> set (discover_outgoing_edges txn b e rk aw cw)" "de_source_is_active x" "de_to x = at_token v" by blast
  then obtain c where "c \<in> set aw" "at_token c = at_token v" "write_conflict txn b e rk c"
    using outgoing_spec(3) [OF refl x(1)] by (auto simp: write_conflict_def)
  then show "?R" using assms by (auto simp: distinct_map dest: inj_onD)
next
  assume r: "?R"
  then have "at_token v \<in> de_to ` set (discover_outgoing_edges txn b e rk aw cw)"
    using outgoing_spec(2) [OF refl] assms(2) by (auto simp: out_targets_def write_conflict_def)
  then obtain x where x: "x \<in> set (discover_outgoing_edges txn b e rk aw cw)" "de_to x = at_token v" by auto
  then show "?L" using outgoing_spec(3) [OF refl x(1)] assms by (auto split: if_splits)
qed

lemma read_conflict_source: "v \<in> set ar \<Longrightarrow> read_conflict txn b e wk v \<Longrightarrow> at_token v \<in> in_sources txn b e wk ar cr"
  by (auto simp: in_sources_def read_conflict_def)

lemma write_conflict_target: "v \<in> set aw \<Longrightarrow> write_conflict txn b e rk v \<Longrightarrow> at_token v \<in> out_targets txn b e rk aw cw"
  by (auto simp: out_targets_def write_conflict_def)

text \<open>A committed validation that did the whole work, in terms of the edges it found.\<close>

lemma full_validation_committed:
  assumes "outcome (fst (ssi_full_validation dro dro_text pending txn b e rk wk ar aw cr cw (SsiState_new txn b) w)) = None"
    and ins: "ins = discover_incoming_edges txn b e wk (map ((!) (sw_views w)) ar) cr"
    and outs: "outs = discover_outgoing_edges txn b e rk (map ((!) (sw_views w)) aw) cw"
    and sh: "sh = (ins = [] \<and> outs = [] \<or> dro txn (usize_saturating_add (length ar) (length cr)) (usize_saturating_add (length aw) (length cw)))"
  shows "sw_views (snd (ssi_full_validation dro dro_text pending txn b e rk wk ar aw cr cw (SsiState_new txn b) w)) =
     snd (t3_outgoing sh aw (sort_key out_edge_order outs) (snd (t3_incoming sh ar (sort_key in_edge_order ins) (sw_views w))))"
    "\<not> (\<exists>x \<in> set ins. \<not> de_source_is_active x \<and> de_source_has_in_rw x)"
    "\<not> (\<exists>x \<in> set outs. \<not> de_source_is_active x \<and> de_source_has_in_rw x)" "ins = [] \<or> outs = []"
proof -
  show no: "ins = [] \<or> outs = []"
    using assms(1) by (auto simp: ssi_full_validation_def Let_def SsiState_new_def ins [symmetric] outs [symmetric] split: if_splits)
  let ?st = "(SsiState_new txn b)\<lparr>ss_has_in_rw := ins \<noteq> [], ss_has_out_rw := outs \<noteq> [], ss_rw_in_from := de_from ` set ins, ss_rw_out_to := de_to ` set outs\<rparr>"
  have eq: "ssi_full_validation dro dro_text pending txn b e rk wk ar aw cr cw (SsiState_new txn b) w =
    ssi_t3_and_publish dro dro_text pending txn b e rk wk ar aw (usize_saturating_add (length ar) (length cr))
      (usize_saturating_add (length aw) (length cw)) ?st (sort_key in_edge_order ins) (sort_key out_edge_order outs) w"
    using no by (auto simp: ssi_full_validation_def Let_def SsiState_new_def ins [symmetric] outs [symmetric])
  have sh': "sh = (sort_key in_edge_order ins = [] \<and> sort_key out_edge_order outs = [] \<or>
      dro txn (usize_saturating_add (length ar) (length cr)) (usize_saturating_add (length aw) (length cw)))"
    by (simp add: sh flip: length_0_conv)
  note t = t3_publish_views [OF assms(1) [unfolded eq] sh']
  show "sw_views (snd (ssi_full_validation dro dro_text pending txn b e rk wk ar aw cr cw (SsiState_new txn b) w)) =
     snd (t3_outgoing sh aw (sort_key out_edge_order outs) (snd (t3_incoming sh ar (sort_key in_edge_order ins) (sw_views w))))"
    unfolding eq by (rule t(1))
  show "\<not> (\<exists>x \<in> set ins. \<not> de_source_is_active x \<and> de_source_has_in_rw x)"
    "\<not> (\<exists>x \<in> set outs. \<not> de_source_is_active x \<and> de_source_has_in_rw x)" using t(2,3) by auto
qed

lemma writer_marks:
  assumes "outcome (fst (ssi_validate_and_publish dro dro_text pending txn b e rk wk ar aw cr cw marked w)) = None"
    and "wk \<noteq> []" "distinct (map at_token (sw_views w))" "set ar \<union> set aw \<subseteq> {..<length (sw_views w)}" "i < length (sw_views w)"
    and "distinct (map at_token (map ((!) (sw_views w)) ar) @ map cr_token cr)"
    and "distinct (map at_token (map ((!) (sw_views w)) aw) @ map cw_token cw)"
  shows "let v = sw_views w ! i;
      risky = dro txn (usize_saturating_add (length ar) (length cr)) (usize_saturating_add (length aw) (length cw)) in
    sw_views (snd (ssi_validate_and_publish dro dro_text pending txn b e rk wk ar aw cr cw marked w)) ! i =
    t3_in_marked (i \<in> set aw \<and> write_conflict txn b e rk v) risky (t3_out_marked (i \<in> set ar \<and> read_conflict txn b e wk v) risky v)"
proof -
  define v where "v = sw_views w ! i"
  define risky where "risky = dro txn (usize_saturating_add (length ar) (length cr)) (usize_saturating_add (length aw) (length cw))"
  let ?ar = "map ((!) (sw_views w)) ar" and ?aw = "map ((!) (sw_views w)) aw"
  define ins where "ins = discover_incoming_edges txn b e wk ?ar cr"
  define outs where "outs = discover_outgoing_edges txn b e rk ?aw cw"
  define sh where "sh = (ins = [] \<and> outs = [] \<or> risky)"
  have m: "\<not> marked" using assms(1,2) by (auto simp: ssi_validate_and_publish_def Let_def split: if_splits)
  have ci: "(\<exists>x \<in> set ins. de_source_is_active x \<and> de_from x = at_token v) \<longleftrightarrow> read_conflict txn b e wk v" if "i \<in> set ar"
    unfolding ins_def v_def using that assms(6) by (intro active_edge_in) auto
  have co: "(\<exists>x \<in> set outs. de_source_is_active x \<and> de_to x = at_token v) \<longleftrightarrow> write_conflict txn b e rk v" if "i \<in> set aw"
    unfolding outs_def v_def using that assms(7) by (intro active_edge_out) auto
  have "sw_views (snd (ssi_validate_and_publish dro dro_text pending txn b e rk wk ar aw cr cw marked w)) ! i =
    t3_in_marked (i \<in> set aw \<and> write_conflict txn b e rk v) risky (t3_out_marked (i \<in> set ar \<and> read_conflict txn b e wk v) risky v)"
  proof (cases "rk = [] \<and> \<not> has_any_read_overlap wk ?ar cr")
    case True
    then have "ins = []" "outs = []" using disjoint_insert_no_edges(2) no_read_keys_no_targets(2) by (auto simp: ins_def outs_def)
    then have "\<not> (i \<in> set ar \<and> read_conflict txn b e wk v)" "\<not> (i \<in> set aw \<and> write_conflict txn b e rk v)" using ci co by auto
    then show ?thesis using True m assms(2)
      by (auto simp: ssi_validate_and_publish_def Let_def note_decision_def v_def t3_in_marked_def t3_out_marked_def)
  next
    case False
    then have full: "ssi_validate_and_publish dro dro_text pending txn b e rk wk ar aw cr cw marked w =
        ssi_full_validation dro dro_text pending txn b e rk wk ar aw cr cw (SsiState_new txn b) w"
      using m assms(2) by (auto simp: ssi_validate_and_publish_def Let_def SsiState_new_def)
    note f = full_validation_committed [OF assms(1) [unfolded full] ins_def outs_def sh_def [unfolded risky_def]]
    let ?v1 = "snd (t3_incoming sh ar (sort_key in_edge_order ins) (sw_views w))"
    have n1: "?v1 ! i = t3_out_marked (i \<in> set ar \<and> read_conflict txn b e wk v) sh v"
      using assms(3-5) f(2) ci by (subst t3_nth(1)) (auto simp: v_def cong: conj_cong)
    have "snd (t3_outgoing sh aw (sort_key out_edge_order outs) ?v1) ! i =
        t3_in_marked (i \<in> set aw \<and> write_conflict txn b e rk v) sh (?v1 ! i)"
      using assms(3-5) f(3) co n1 by (subst t3_nth(2)) (auto simp: v_def cong: conj_cong)
    then have "sw_views (snd (ssi_validate_and_publish dro dro_text pending txn b e rk wk ar aw cr cw marked w)) ! i =
       t3_in_marked (i \<in> set aw \<and> write_conflict txn b e rk v) sh (t3_out_marked (i \<in> set ar \<and> read_conflict txn b e wk v) sh v)"
      unfolding full f(1) n1 .
    moreover have "sh = risky" if "i \<in> set ar \<and> read_conflict txn b e wk v \<or> i \<in> set aw \<and> write_conflict txn b e rk v"
      using that ci co by (auto simp: sh_def)
    ultimately show ?thesis
      by (cases "i \<in> set ar \<and> read_conflict txn b e wk v \<or> i \<in> set aw \<and> write_conflict txn b e rk v") (auto simp: t3_in_marked_def t3_out_marked_def)
  qed
  then show ?thesis by (simp add: Let_def v_def risky_def)
qed

text \<open>C25: A transaction that commits with a write set leaves in each active transaction exactly the marks of the conflicts it has with it:
  the readers it invalidates get an outgoing edge, the writers it missed an incoming one, every active transaction that
  thereby has both is marked for abort, as the risk decision says, and nothing else of any of them changes.  A transaction that wrote
  nothing commits through the read-only fast path and changes no active transaction, whatever it read.  The active transactions have distinct
  tokens, distinct also from those of the committed transactions in the history, and the candidate lists name active transactions.\<close>

theorem commit_marks_active_pivots:
  assumes "outcome (fst (ssi_validate_and_publish dro dro_text pending txn b e rk wk ar aw cr cw marked w)) = None"
    and "distinct (map at_token (sw_views w))" "set ar \<union> set aw \<subseteq> {..<length (sw_views w)}" "i < length (sw_views w)"
    and "distinct (map at_token (map ((!) (sw_views w)) ar) @ map cr_token cr)"
    and "distinct (map at_token (map ((!) (sw_views w)) aw) @ map cw_token cw)"
  shows "let v = sw_views w ! i;
      risky = dro txn (usize_saturating_add (length ar) (length cr)) (usize_saturating_add (length aw) (length cw)) in
    sw_views (snd (ssi_validate_and_publish dro dro_text pending txn b e rk wk ar aw cr cw marked w)) ! i =
    (if wk = [] then v
     else t3_in_marked (i \<in> set aw \<and> write_conflict txn b e rk v) risky (t3_out_marked (i \<in> set ar \<and> read_conflict txn b e wk v) risky v))"
proof (cases "wk = []")
  case True
  then show ?thesis by (simp add: ssi_validate_and_publish_def Let_def note_decision_def)
next
  case False
  then show ?thesis using writer_marks [OF assms(1) False assms(2-6)] by (simp add: Let_def)
qed

theorem commit_marks_active_pivots_witness:
  "let v = \<lparr>at_token = \<lparr>tok_id = 2, tok_epoch = 1\<rparr>, at_begin_seq = 1, at_active = True, at_read_overlap = (\<lambda>k. k = WPage 5),
        at_write_overlap = (\<lambda>k. False), at_in_rw = True, at_out_rw = False, at_marked = False\<rparr>;
       ev = \<lparr>ev_mode = FullEvidence, ev_max_pending = 8, ev_max_bytes = 100, ev_total_commit = 0, ev_total_abort = 0,
        ev_total_budget_compact = 0, ev_ledger = [], ev_dro_commits = [], ev_dro_aborts = []\<rparr> in
   sw_views (snd (ssi_validate_and_publish (\<lambda>_ _ _. True) (\<lambda>_ _. []) 0 \<lparr>tok_id = 1, tok_epoch = 1\<rparr> 1 7 [] [WPage 5]
     [0] [0] [] [] False \<lparr>sw_views = [v], sw_evidence = ev\<rparr>)) ! 0 = v\<lparr>at_out_rw := True, at_marked := True\<rparr>"
proof -
  have lt: "(1 :: u64) < - 1" by (simp add: word_less_alt uint_word_ariths)
  have o: "outcome (fst (ssi_validate_and_publish (\<lambda>_ _ _. True) (\<lambda>_ _. []) 0 \<lparr>tok_id = 1, tok_epoch = 1\<rparr> 1 7 [] [WPage 5]
     [0] [0] [] [] False \<lparr>sw_views = [v], sw_evidence = ev\<rparr>)) = None" for v ev
    by (simp add: Let_def ssi_validate_and_publish_def ssi_full_validation_def t3_publish_outcome SsiState_new_def
      discover_outgoing_edges_def discover_incoming_edges_def in_edge_active_def)
  show ?thesis
    unfolding Let_def using commit_marks_active_pivots [where i = 0, OF o] lt
    by (simp add: Let_def read_conflict_def write_conflict_def active_eligible_def t3_in_marked_def t3_out_marked_def)
qed

section \<open>Dangerous structures\<close>

lemma t3_publish_state:
  "fst (ssi_t3_and_publish dro dro_text pending txn b e rk wk ar aw n m state ins outs w) = Inr ok \<Longrightarrow>
   ss_has_in_rw (ok_ssi_state ok) = ss_has_in_rw state \<and> ss_has_out_rw (ok_ssi_state ok) = ss_has_out_rw state"
  by (auto simp: ssi_t3_and_publish_def Let_def split: prod.splits bool.splits)

text \<open>The state a committer publishes tells whether it has conflicts on either side.\<close>

lemma validation_state:
  assumes "fst (ssi_validate_and_publish dro dro_text pending txn b e rk wk ar aw cr cw marked w) = Inr ok" "wk \<noteq> []"
  shows "ss_has_in_rw (ok_ssi_state ok) \<longleftrightarrow> in_sources txn b e wk (map ((!) (sw_views w)) ar) cr \<noteq> {}"
    "ss_has_out_rw (ok_ssi_state ok) \<longleftrightarrow> out_targets txn b e rk (map ((!) (sw_views w)) aw) cw \<noteq> {}"
proof -
  let ?ar = "map ((!) (sw_views w)) ar" and ?aw = "map ((!) (sw_views w)) aw"
  have "(ss_has_in_rw (ok_ssi_state ok) \<longleftrightarrow> in_sources txn b e wk ?ar cr \<noteq> {}) \<and>
    (ss_has_out_rw (ok_ssi_state ok) \<longleftrightarrow> out_targets txn b e rk ?aw cw \<noteq> {})"
  proof (cases "rk = [] \<and> \<not> has_any_read_overlap wk ?ar cr")
    case True
    then show ?thesis using assms disjoint_insert_no_edges(1) [of wk ?ar cr txn b e] no_read_keys_no_targets(1) [of txn b e ?aw cw]
      by (auto simp: ssi_validate_and_publish_def Let_def SsiState_new_def split: if_splits)
  next
    case False
    then show ?thesis using assms
      by (auto simp: ssi_validate_and_publish_def ssi_full_validation_def Let_def SsiState_new_def edges_nonempty [symmetric]
          split: if_splits dest!: t3_publish_state)
  qed
  then show "ss_has_in_rw (ok_ssi_state ok) \<longleftrightarrow> in_sources txn b e wk ?ar cr \<noteq> {}"
    "ss_has_out_rw (ok_ssi_state ok) \<longleftrightarrow> out_targets txn b e rk ?aw cw \<noteq> {}" by auto
qed

text \<open>Some key of a list overlaps a key of another.\<close>

definition key_lists_overlap :: "WitnessKey list \<Rightarrow> WitnessKey list \<Rightarrow> bool" where
  "key_lists_overlap keys others \<longleftrightarrow> (\<exists>k \<in> set keys. keys_overlap others k)"

definition committed_writer_of :: "TxnToken \<Rightarrow> u64 \<Rightarrow> WitnessKey list \<Rightarrow> SsiValidationOk \<Rightarrow> CommittedWriterInfo" where
  "committed_writer_of txn commit_seq write_keys ok =
     \<lparr>cw_token = txn, cw_commit_seq = commit_seq, cw_had_out_rw = ss_has_out_rw (ok_ssi_state ok), cw_keys = write_keys\<rparr>"

text \<open>C7: A dangerous structure never commits.  When \<open>T2\<close> read something that the committed \<open>T3\<close> wrote
  after \<open>T2\<close> began, and \<open>T1\<close> read something that \<open>T2\<close> writes, then either \<open>T1\<close> is already known when
  \<open>T2\<close> validates, and \<open>T2\<close> aborts, or \<open>T2\<close> commits first, its published state goes into the record that \<open>T1\<close>
  sees, and \<open>T1\<close> aborts (unless \<open>T1\<close> writes nothing, when it takes the read-only path).\<close>

theorem dangerous_structure_prevented:
  assumes t3: "w3 \<in> set cw2" "writer_eligible t2 b2 e2 w3" "key_lists_overlap rk2 (cw_keys w3)" and wk2: "wk2 \<noteq> []"
    and d2: "distinct (map at_token (map ((!) (sw_views s2)) ar2) @ map cr_token cr2)"
      "distinct (map at_token (map ((!) (sw_views s2)) aw2) @ map cw_token cw2)"
    and d1: "distinct (map at_token (map ((!) (sw_views s1)) ar1) @ map cr_token cr1)"
      "distinct (map at_token (map ((!) (sw_views s1)) aw1) @ map cw_token cw1)"
    and wk1: "wk1 \<noteq> []"
  shows "case fst (ssi_validate_and_publish dro dtext n2 t2 b2 e2 rk2 wk2 ar2 aw2 cr2 cw2 m2 s2) of
      Inl _ \<Rightarrow> True
    | Inr ok2 \<Rightarrow>
        (\<forall>r1 \<in> set cr2. reader_eligible t2 b2 e2 r1 \<longrightarrow> \<not> key_lists_overlap wk2 (cr_keys r1)) \<and>
        (\<forall>r1 \<in> set ar2. active_eligible t2 b2 e2 (sw_views s2 ! r1) \<longrightarrow> \<not> list_ex (at_read_overlap (sw_views s2 ! r1)) wk2) \<and>
        (committed_writer_of t2 e2 wk2 ok2 \<in> set cw1 \<and> writer_eligible t1 b1 e1 (committed_writer_of t2 e2 wk2 ok2) \<and>
         key_lists_overlap rk1 wk2 \<longrightarrow>
         outcome (fst (ssi_validate_and_publish dro dtext n1 t1 b1 e1 rk1 wk1 ar1 aw1 cr1 cw1 m1 s1)) \<noteq> None)"
proof (cases "fst (ssi_validate_and_publish dro dtext n2 t2 b2 e2 rk2 wk2 ar2 aw2 cr2 cw2 m2 s2)")
  case (Inr ok2)
  let ?ar = "map ((!) (sw_views s2)) ar2" and ?aw = "map ((!) (sw_views s2)) aw2"
  have out: "out_targets t2 b2 e2 rk2 ?aw cw2 \<noteq> {}" using t3 by (auto simp: out_targets_def key_lists_overlap_def)
  have "outcome (fst (ssi_validate_and_publish dro dtext n2 t2 b2 e2 rk2 wk2 ar2 aw2 cr2 cw2 m2 s2)) = None" by (simp add: Inr)
  then have "in_sources t2 b2 e2 wk2 ?ar cr2 = {}"
    using out wk2 unfolding ssi_validation_verdict [OF d2] by (auto simp: ssi_verdict_def split: if_splits)
  then have "\<forall>r1 \<in> set cr2. reader_eligible t2 b2 e2 r1 \<longrightarrow> \<not> key_lists_overlap wk2 (cr_keys r1)"
    "\<forall>r1 \<in> set ar2. active_eligible t2 b2 e2 (sw_views s2 ! r1) \<longrightarrow> \<not> list_ex (at_read_overlap (sw_views s2 ! r1)) wk2"
    by (auto simp: in_sources_def key_lists_overlap_def list_ex_iff)
  moreover have "outcome (fst (ssi_validate_and_publish dro dtext n1 t1 b1 e1 rk1 wk1 ar1 aw1 cr1 cw1 m1 s1)) \<noteq> None"
    if "committed_writer_of t2 e2 wk2 ok2 \<in> set cw1" "writer_eligible t1 b1 e1 (committed_writer_of t2 e2 wk2 ok2)" "key_lists_overlap rk1 wk2"
  proof -
    have "committed_pivot t1 b1 e1 rk1 wk1 cr1 cw1"
      unfolding committed_pivot_def using that validation_state(2) [OF Inr wk2] out
      by (intro disjI2 bexI [of _ "committed_writer_of t2 e2 wk2 ok2"]) (auto simp: committed_writer_of_def key_lists_overlap_def)
    then show ?thesis using wk1 unfolding ssi_validation_verdict [OF d1] by (simp add: ssi_verdict_def)
  qed
  ultimately show ?thesis using Inr by simp
qed simp

theorem dangerous_structure_prevented_witness:
  "let ev = \<lparr>ev_mode = FullEvidence, ev_max_pending = 8, ev_max_bytes = 100, ev_total_commit = 0, ev_total_abort = 0,
        ev_total_budget_compact = 0, ev_ledger = [], ev_dro_commits = [], ev_dro_aborts = []\<rparr>;
       tok = (\<lambda>i. \<lparr>tok_id = i, tok_epoch = 1\<rparr>);
       w3 = \<lparr>cw_token = tok 3, cw_commit_seq = 5, cw_had_out_rw = False, cw_keys = [WPage 6]\<rparr>;
       w2 = \<lparr>cw_token = tok 2, cw_commit_seq = 7, cw_had_out_rw = True, cw_keys = [WPage 5]\<rparr>;
       s = \<lparr>sw_views = [], sw_evidence = ev\<rparr>;
       V2 = ssi_validate_and_publish (\<lambda>_ _ _. True) (\<lambda>_ _. []) 0 (tok 2) 1 7 [WPage 6] [WPage 5] [] [] [] [w3] False s;
       V1 = ssi_validate_and_publish (\<lambda>_ _ _. True) (\<lambda>_ _. []) 0 (tok 1) 1 9 [WPage 5] [WPage 8] [] [] [] [w3, w2] False s in
   outcome (fst V2) = None \<and> outcome (fst V1) \<noteq> None"
proof -
  define ev where "ev = \<lparr>ev_mode = FullEvidence, ev_max_pending = 8, ev_max_bytes = 100, ev_total_commit = 0, ev_total_abort = 0,
        ev_total_budget_compact = 0, ev_ledger = [], ev_dro_commits = [], ev_dro_aborts = []\<rparr>"
  define tok where "tok = (\<lambda>i :: u64. \<lparr>tok_id = i, tok_epoch = 1 :: u32\<rparr>)"
  define w3 where "w3 = \<lparr>cw_token = tok 3, cw_commit_seq = 5, cw_had_out_rw = False, cw_keys = [WPage 6]\<rparr>"
  define w2 where "w2 = \<lparr>cw_token = tok 2, cw_commit_seq = 7, cw_had_out_rw = True, cw_keys = [WPage 5]\<rparr>"
  define s where "s = \<lparr>sw_views = [], sw_evidence = ev\<rparr>"
  define V2 where "V2 = ssi_validate_and_publish (\<lambda>_ _ _. True) (\<lambda>_ _. []) 0 (tok 2) 1 7 [WPage 6] [WPage 5] [] [] [] [w3] False s"
  define V1 where "V1 = ssi_validate_and_publish (\<lambda>_ _ _. True) (\<lambda>_ _. []) 0 (tok 1) 1 9 [WPage 5] [WPage 8] [] [] [] [w3, w2] False s"
  have ok: "outcome (fst V2) = None"
    unfolding V2_def by (subst ssi_validation_verdict)
      (simp_all add: ssi_verdict_def s_def in_sources_def committed_pivot_def w3_def)
  then obtain ok2 where 2: "fst V2 = Inr ok2" by (auto simp: outcome_def split: sum.splits)
  have el: "writer_eligible (tok 2) 1 7 w3" "key_lists_overlap [WPage 6] (cw_keys w3)"
    by (simp_all add: writer_eligible_def w3_def tok_def key_lists_overlap_def keys_overlap_def)
  then have "out_targets (tok 2) 1 7 [WPage 6] [] [w3] \<noteq> {}" by (auto simp: out_targets_def key_lists_overlap_def)
  then have rec: "committed_writer_of (tok 2) 7 [WPage 5] ok2 = w2"
    using validation_state(2) [OF 2 [unfolded V2_def]] by (simp add: committed_writer_of_def w2_def s_def)
  have "outcome (fst V1) \<noteq> None"
    using dangerous_structure_prevented [where ?w3.0 = w3 and ?cw2.0 = "[w3]" and ?t2.0 = "tok 2" and ?b2.0 = 1 and ?e2.0 = 7 and
        ?rk2.0 = "[WPage 6]" and ?wk2.0 = "[WPage 5]" and ?s2.0 = s and ?ar2.0 = "[]" and ?cr2.0 = "[]" and ?aw2.0 = "[]" and ?m2.0 = False and
        ?s1.0 = s and ?ar1.0 = "[]" and ?cr1.0 = "[]" and ?aw1.0 = "[]" and ?cw1.0 = "[w3, w2]" and ?wk1.0 = "[WPage 8]" and ?m1.0 = False and
        dro = "\<lambda>_ _ _. True" and dtext = "\<lambda>_ _. []" and ?n2.0 = 0 and ?n1.0 = 0 and ?t1.0 = "tok 1" and ?b1.0 = 1 and ?e1.0 = 9 and ?rk1.0 = "[WPage 5]"] el 2
    by (simp add: V2_def [symmetric] V1_def [symmetric] rec)
      (simp add: w2_def w3_def tok_def writer_eligible_def key_lists_overlap_def keys_overlap_def)
  then show ?thesis using ok
    unfolding Let_def V1_def V2_def s_def ev_def w2_def w3_def tok_def by blast
qed

section \<open>The record of the decisions\<close>

lemma detail_level_frame:
  "ev_ledger (snd (commit_evidence_detail_level n rk wk es r ev)) = ev_ledger ev"
  "ev_total_commit (snd (commit_evidence_detail_level n rk wk es r ev)) = ev_total_commit ev"
  "ev_total_abort (snd (commit_evidence_detail_level n rk wk es r ev)) = ev_total_abort ev"
  by (auto simp: commit_evidence_detail_level_def split: SsiEvidenceRecordingMode.split)

text \<open>A world after one decision more.\<close>

definition one_decision :: "TxnToken \<Rightarrow> u64 \<Rightarrow> u64 \<Rightarrow> bool \<Rightarrow> Evidence \<Rightarrow> Evidence \<Rightarrow> bool" where
  "one_decision txn b e committed ev ev' \<longleftrightarrow>
     (\<exists>d. ev_ledger ev' = ev_ledger ev @ [d] \<and> dd_txn d = txn \<and> dd_snapshot_seq d = b \<and> dd_commit_seq d = Some e \<and>
        (dd_decision_type d = CommitAllowed \<longleftrightarrow> committed)) \<and>
     ev_total_commit ev' = ev_total_commit ev + (if committed then 1 else 0) \<and>
     ev_total_abort ev' = ev_total_abort ev + (if committed then 0 else 1)"

lemma record_one_decision:
  "one_decision txn b e (d = CommitAllowed) ev (record_evidence_decision n d txn b (Some e) rk wk es r ev)"
  using detail_level_frame [of n rk wk es r ev]
  by (cases "commit_evidence_detail_level n rk wk es r ev")
    (auto simp: one_decision_def record_evidence_decision_def Let_def)

lemma note_one_decision:
  "one_decision txn b e (d = CommitAllowed) (sw_evidence w) (sw_evidence (note_decision n txn b e rk wk d es r (w\<lparr>sw_views := v\<rparr>)))"
  "one_decision txn b e (d = CommitAllowed) (sw_evidence w) (sw_evidence (note_decision n txn b e rk wk d es r w))"
  by (simp_all add: note_decision_def record_one_decision)

lemma t3_publish_one_decision:
  "case ssi_t3_and_publish dro dtext n txn b e rk wk ar aw k m state ins outs w of
     (r, w') \<Rightarrow> one_decision txn b e (outcome r = None) (sw_evidence w) (sw_evidence w')"
  using note_one_decision(1) [of txn b e CommitAllowed w] note_one_decision(1) [of txn b e AbortCycle w]
    note_one_decision(2) [of txn b e CommitAllowed w]
  by (auto simp: ssi_t3_and_publish_def Let_def split: prod.split bool.split)

text \<open>Every validation, on each of its paths, submits exactly one decision to the evidence ledger, for this transaction
  and these sequence numbers, counts it once, and the decision says that the commit was allowed exactly when the
  transaction commits.\<close>

theorem one_evidence_decision:
  "case ssi_validate_and_publish dro dtext n txn b e rk wk ar aw cr cw marked w of
     (r, w') \<Rightarrow> one_decision txn b e (outcome r = None) (sw_evidence w) (sw_evidence w')"
  using t3_publish_one_decision note_one_decision(2) [of txn b e CommitAllowed w] note_one_decision(2) [of txn b e AbortCycle w]
    note_one_decision(2) [of txn b e AbortWriteSkew w]
  by (auto simp: ssi_validate_and_publish_def ssi_full_validation_def Let_def)

text \<open>Edge discovery finds every conflicting transaction and no other, once each, whichever of its lists it is in.\<close>

theorem edge_discovery_exact:
  "distinct (map de_from (discover_incoming_edges txn b e wk ar cr)) \<and>
   de_from ` set (discover_incoming_edges txn b e wk ar cr) = in_sources txn b e wk ar cr \<and>
   distinct (map de_to (discover_outgoing_edges txn b e rk aw cw)) \<and>
   de_to ` set (discover_outgoing_edges txn b e rk aw cw) = out_targets txn b e rk aw cw"
  by (simp add: incoming_spec(1,2) [OF refl] outgoing_spec(1,2) [OF refl])

end
