(* ===== verification/ConcurrentTxn.thy ===== *)
theory ConcurrentTxn
  imports CommitIndex SsiValidation
begin

text \<open>
  One concurrent transaction: \<open>crates/fsqlite-mvcc/src/begin_concurrent.rs\<close>.  A handle keeps the state of
  every page the transaction touched; the page lock table and the commit index it shares with the others are
  passed along.  The hash map of page states is an association list with one entry per page; the order of its
  entries stands for the iteration order of the map.  An outer \<^const>\<open>None\<close> is a failed \<open>expect\<close> of the lock
  table.  The conditions of the debug assertions are part of the invariant \<open>handle_inv\<close>.  Telemetry is left out.
\<close>

section \<open>Data\<close>

record Snapshot =
  high :: u64
  schema_epoch :: u64

datatype TransactionState = TxnActive | TxnCommitted | TxnAborted

datatype MvccError = Busy | BusySnapshot | Schema | IoErr | InvalidState | TxnIdExhausted | ShmTooSmall | ShmBadMagic
  | ShmVersionMismatch | ShmInvalidPageSize | ShmChecksumMismatch | InvalidWriteMergePolicy | TxnMaxDurationExceeded

datatype FcwResult = FcwClean | FcwConflict "PageNumber list" u64 | FcwAbort SsiAbortReason

record PageTxnState =
  staged_data :: "bytes option"
  has_staged_write :: bool
  is_freed :: bool
  is_conflict_only :: bool
  held_lock :: bool
  metadata_exempt :: bool

definition PageTxnState_default :: PageTxnState where
  "PageTxnState_default = \<lparr>staged_data = None, has_staged_write = False, is_freed = False, is_conflict_only = False,
     held_lock = False, metadata_exempt = False\<rparr>"

definition tracks_write_conflict :: "PageTxnState \<Rightarrow> bool" where
  "tracks_write_conflict s =
     (if metadata_exempt s then False else has_staged_write s \<or> is_freed s \<or> is_conflict_only s)"

definition pts_is_empty :: "PageTxnState \<Rightarrow> bool" where
  "pts_is_empty s = (\<not> held_lock s \<and> \<not> tracks_write_conflict s)"

record ConcurrentHandle =
  snapshot :: Snapshot
  page_states :: "(PageNumber \<times> PageTxnState) list"
  txn_state :: TransactionState
  read_set :: "PageNumber set"
  read_index :: "(PageNumber \<times> WitnessKey list) list"
  global_read_witnesses :: "WitnessKey list"
  write_index :: "(PageNumber \<times> WitnessKey list) list"
  global_write_witnesses :: "WitnessKey list"
  txn_token :: TxnToken
  has_in_rw :: bool
  has_out_rw :: bool
  marked_for_abort :: bool

definition ConcurrentHandle_new :: "Snapshot \<Rightarrow> TxnToken \<Rightarrow> ConcurrentHandle" where
  "ConcurrentHandle_new snap token =
     \<lparr>snapshot = snap, page_states = [], txn_state = TxnActive, read_set = {}, read_index = [], global_read_witnesses = [],
      write_index = [], global_write_witnesses = [], txn_token = token, has_in_rw = False, has_out_rw = False,
      marked_for_abort = False\<rparr>"

definition reset_for_new_transaction :: "Snapshot \<Rightarrow> TxnToken \<Rightarrow> ConcurrentHandle \<Rightarrow> ConcurrentHandle" where
  "reset_for_new_transaction snap token h =
     h\<lparr>snapshot := snap, page_states := [], txn_state := TxnActive, read_set := {}, read_index := [], global_read_witnesses := [],
       write_index := [], global_write_witnesses := [], txn_token := token, has_in_rw := False, has_out_rw := False,
       marked_for_abort := False\<rparr>"

record ConcurrentPageState =
  cps_page :: PageNumber
  cps_staged_data :: "bytes option"
  cps_had_staged_write :: bool
  cps_was_freed :: bool
  cps_was_conflict_only :: bool
  cps_held_lock :: bool

record SavepointPageState =
  sps_staged_data :: "bytes option"
  sps_has_staged_write :: bool
  sps_is_freed :: bool
  sps_is_conflict_only :: bool
  sps_metadata_exempt :: bool

record ConcurrentSavepoint =
  sp_name :: string
  sp_page_states_snapshot :: "(PageNumber \<times> SavepointPageState) list"
  sp_write_set_len :: nat

section \<open>The handle\<close>

definition page_state :: "PageNumber \<Rightarrow> ConcurrentHandle \<Rightarrow> PageTxnState option" where
  "page_state page h = map_of (page_states h) page"

text \<open>\<open>ensure_page_state\<close> returns a reference; the update made through it is a parameter.\<close>

definition ensure_page_state :: "PageNumber \<Rightarrow> (PageTxnState \<Rightarrow> PageTxnState) \<Rightarrow> ConcurrentHandle \<Rightarrow> ConcurrentHandle" where
  "ensure_page_state page f h =
     h\<lparr>page_states := AList.update page
         (f (case page_state page h of None \<Rightarrow> PageTxnState_default | Some s \<Rightarrow> s)) (page_states h)\<rparr>"

definition remove_page_state_if_empty :: "PageNumber \<Rightarrow> ConcurrentHandle \<Rightarrow> ConcurrentHandle" where
  "remove_page_state_if_empty page h =
     (case page_state page h of
        Some s \<Rightarrow> if pts_is_empty s then h\<lparr>page_states := AList.delete page (page_states h)\<rparr> else h
      | None \<Rightarrow> h)"

definition tracked_write_conflict_pages :: "ConcurrentHandle \<Rightarrow> PageNumber list" where
  "tracked_write_conflict_pages h = map fst (filter (\<lambda>(page, s). tracks_write_conflict s) (page_states h))"

definition write_set_pages :: "ConcurrentHandle \<Rightarrow> PageNumber list" where
  "write_set_pages h = sort (tracked_write_conflict_pages h)"

definition held_lock_pages_iter :: "ConcurrentHandle \<Rightarrow> PageNumber list" where
  "held_lock_pages_iter h = map fst (filter (\<lambda>(page, s). held_lock s) (page_states h))"

definition held_lock_pages :: "ConcurrentHandle \<Rightarrow> PageNumber list" where
  "held_lock_pages h = sort (held_lock_pages_iter h)"

definition write_set_len :: "ConcurrentHandle \<Rightarrow> nat" where
  "write_set_len h = length (filter (\<lambda>(page, s). has_staged_write s) (page_states h))"

definition is_page_freed :: "PageNumber \<Rightarrow> ConcurrentHandle \<Rightarrow> bool" where
  "is_page_freed page h = (case page_state page h of None \<Rightarrow> False | Some s \<Rightarrow> is_freed s)"

definition tracks_write_conflict_page :: "PageNumber \<Rightarrow> ConcurrentHandle \<Rightarrow> bool" where
  "tracks_write_conflict_page page h = (case page_state page h of None \<Rightarrow> False | Some s \<Rightarrow> tracks_write_conflict s)"

definition holds_page_lock :: "PageNumber \<Rightarrow> ConcurrentHandle \<Rightarrow> bool" where
  "holds_page_lock page h = (case page_state page h of None \<Rightarrow> False | Some s \<Rightarrow> held_lock s)"

definition is_active :: "ConcurrentHandle \<Rightarrow> bool" where
  "is_active h = (txn_state h = TxnActive)"

definition mark_committed :: "ConcurrentHandle \<Rightarrow> ConcurrentHandle" where
  "mark_committed h = h\<lparr>txn_state := TxnCommitted\<rparr>"

definition mark_aborted :: "ConcurrentHandle \<Rightarrow> ConcurrentHandle" where
  "mark_aborted h = h\<lparr>txn_state := TxnAborted\<rparr>"

definition bucket :: "PageNumber \<Rightarrow> (PageNumber \<times> WitnessKey list) list \<Rightarrow> WitnessKey list" where
  "bucket page ix = (case map_of ix page of None \<Rightarrow> [] | Some ks \<Rightarrow> ks)"

definition record_read :: "PageNumber \<Rightarrow> ConcurrentHandle \<Rightarrow> ConcurrentHandle" where
  "record_read page h =
     (if page \<in> read_set h then h
      else h\<lparr>read_set := insert page (read_set h),
             read_index := AList.update page (bucket page (read_index h) @ [WPage page]) (read_index h)\<rparr>)"

definition record_metadata_read :: "PageNumber \<Rightarrow> ConcurrentHandle \<Rightarrow> ConcurrentHandle" where
  "record_metadata_read page h = h"

definition record_read_witness :: "WitnessKey \<Rightarrow> ConcurrentHandle \<Rightarrow> ConcurrentHandle" where
  "record_read_witness key h =
     (case witness_key_page key of
        Some p \<Rightarrow> h\<lparr>read_set := insert p (read_set h), read_index := AList.update p (bucket p (read_index h) @ [key]) (read_index h)\<rparr>
      | None \<Rightarrow> h\<lparr>global_read_witnesses := global_read_witnesses h @ [key]\<rparr>)"

definition record_write_witness :: "WitnessKey \<Rightarrow> ConcurrentHandle \<Rightarrow> ConcurrentHandle" where
  "record_write_witness key h =
     (case witness_key_page key of
        Some p \<Rightarrow> (let ks = bucket p (write_index h) in
          h\<lparr>write_index := AList.update p (if key \<in> set ks then ks else ks @ [key]) (write_index h)\<rparr>)
      | None \<Rightarrow> if key \<in> set (global_write_witnesses h) then h
          else h\<lparr>global_write_witnesses := global_write_witnesses h @ [key]\<rparr>)"

definition read_witness_keys :: "ConcurrentHandle \<Rightarrow> WitnessKey list" where
  "read_witness_keys h = concat (map snd (read_index h)) @ global_read_witnesses h"

definition write_witness_keys :: "ConcurrentHandle \<Rightarrow> WitnessKey list" where
  "write_witness_keys h = concat (map snd (write_index h)) @ global_write_witnesses h"

section \<open>The handle as other committers see it\<close>

definition handle_check_read_overlap :: "ConcurrentHandle \<Rightarrow> WitnessKey \<Rightarrow> bool" where
  "handle_check_read_overlap h key =
     (if list_ex (\<lambda>w. witness_keys_overlap w key) (global_read_witnesses h) then True
      else case witness_key_page key of
          None \<Rightarrow> read_set h \<noteq> {} \<or> global_read_witnesses h \<noteq> []
        | Some page \<Rightarrow>
            if page \<notin> read_set h then False
            else case map_of (read_index h) page of
                Some witnesses \<Rightarrow> list_ex (\<lambda>w. witness_keys_overlap w key) witnesses
              | None \<Rightarrow> True)"

definition handle_check_write_overlap :: "ConcurrentHandle \<Rightarrow> WitnessKey \<Rightarrow> bool" where
  "handle_check_write_overlap h key =
     (if list_ex (\<lambda>w. witness_keys_overlap w key) (global_write_witnesses h) then True
      else case witness_key_page key of
          None \<Rightarrow> write_index h \<noteq> [] \<or> list_ex (\<lambda>(page, s). tracks_write_conflict s) (page_states h) \<or> global_write_witnesses h \<noteq> []
        | Some page \<Rightarrow>
            (case map_of (write_index h) page of
               Some witnesses \<Rightarrow> list_ex (\<lambda>w. witness_keys_overlap w key) witnesses
             | None \<Rightarrow> tracks_write_conflict_page page h))"

definition handle_as_view :: "ConcurrentHandle \<Rightarrow> ActiveTxn" where
  "handle_as_view h =
     \<lparr>at_token = txn_token h, at_begin_seq = high (snapshot h), at_active = is_active h,
      at_read_overlap = handle_check_read_overlap h, at_write_overlap = handle_check_write_overlap h,
      at_in_rw = has_in_rw h, at_out_rw = has_out_rw h, at_marked = marked_for_abort h\<rparr>"

section \<open>Writing pages\<close>

type_synonym txn_result = "((MvccError + unit) \<times> ConcurrentHandle \<times> PageLockTable) option"

definition concurrent_prepare_write_page :: "u64 \<Rightarrow> PageNumber \<Rightarrow> ConcurrentHandle \<Rightarrow> PageLockTable \<Rightarrow> txn_result" where
  "concurrent_prepare_write_page session_id page h t =
     (if \<not> is_active h then Some (Inl InvalidState, h, t)
      else let s = (case page_state page h of None \<Rightarrow> PageTxnState_default | Some s \<Rightarrow> s) in
      if has_staged_write s then Some (Inr (), h, t)
      else if held_lock s \<and> (is_freed s \<or> is_conflict_only s)
      then Some (Inr (), remove_page_state_if_empty page
             (ensure_page_state page (\<lambda>s. s\<lparr>is_freed := False, is_conflict_only := False\<rparr>) h), t)
      else let already_tracked = tracks_write_conflict_page page h;
               finish = (\<lambda>h. let h = ensure_page_state page (\<lambda>s. s\<lparr>is_freed := False, is_conflict_only := False\<rparr>) h;
                                 h = (if \<not> already_tracked then record_write_witness (WPage page) h else h) in
                             remove_page_state_if_empty page h) in
      if held_lock s then Some (Inr (), finish h, t)
      else case TxnId_new session_id of
          None \<Rightarrow> Some (Inl InvalidState, h, t)
        | Some txn_id \<Rightarrow>
            (case try_acquire page txn_id t of
               (None, _) \<Rightarrow> None
             | (Some (Inl _), t') \<Rightarrow> Some (Inl Busy, remove_page_state_if_empty page h, t')
             | (Some (Inr _), t') \<Rightarrow>
                 Some (Inr (), finish (ensure_page_state page (\<lambda>s. s\<lparr>held_lock := True\<rparr>) h), t')))"

definition concurrent_stage_prepared_write_state ::
  "PageNumber \<Rightarrow> bytes option \<Rightarrow> ConcurrentHandle \<Rightarrow> (MvccError + unit) \<times> ConcurrentHandle" where
  "concurrent_stage_prepared_write_state page data h =
     (if \<not> is_active h then (Inl InvalidState, h)
      else (Inr (), ensure_page_state page (\<lambda>s. s\<lparr>staged_data := data, has_staged_write := True\<rparr>) h))"

definition concurrent_stage_prepared_write_page ::
  "PageNumber \<Rightarrow> bytes \<Rightarrow> ConcurrentHandle \<Rightarrow> (MvccError + unit) \<times> ConcurrentHandle" where
  "concurrent_stage_prepared_write_page page data = concurrent_stage_prepared_write_state page (Some data)"

definition concurrent_stage_prepared_write_marker :: "PageNumber \<Rightarrow> ConcurrentHandle \<Rightarrow> (MvccError + unit) \<times> ConcurrentHandle" where
  "concurrent_stage_prepared_write_marker page = concurrent_stage_prepared_write_state page None"

definition concurrent_write_page :: "u64 \<Rightarrow> PageNumber \<Rightarrow> bytes \<Rightarrow> ConcurrentHandle \<Rightarrow> PageLockTable \<Rightarrow> txn_result" where
  "concurrent_write_page session_id page data h t =
     (case concurrent_prepare_write_page session_id page h t of
        None \<Rightarrow> None
      | Some (Inl e, h', t') \<Rightarrow> Some (Inl e, h', t')
      | Some (Inr _, h', t') \<Rightarrow> (case concurrent_stage_prepared_write_page page data h' of (r, h'') \<Rightarrow> Some (r, h'', t')))"

definition concurrent_page_state :: "PageNumber \<Rightarrow> ConcurrentHandle \<Rightarrow> ConcurrentPageState" where
  "concurrent_page_state page h =
     (let s = (case page_state page h of None \<Rightarrow> PageTxnState_default | Some s \<Rightarrow> s) in
      \<lparr>cps_page = page, cps_staged_data = staged_data s, cps_had_staged_write = has_staged_write s,
       cps_was_freed = is_freed s, cps_was_conflict_only = is_conflict_only s, cps_held_lock = held_lock s\<rparr>)"

definition cps_is_synthetic_conflict_only :: "ConcurrentPageState \<Rightarrow> bool" where
  "cps_is_synthetic_conflict_only c = (cps_was_conflict_only c \<and> \<not> cps_had_staged_write c \<and> \<not> cps_was_freed c)"

definition concurrent_page_is_synthetic_conflict_only :: "PageNumber \<Rightarrow> ConcurrentHandle \<Rightarrow> bool" where
  "concurrent_page_is_synthetic_conflict_only page h =
     (case page_state page h of None \<Rightarrow> False | Some s \<Rightarrow> is_conflict_only s \<and> \<not> has_staged_write s \<and> \<not> is_freed s)"

definition concurrent_restore_page_state :: "u64 \<Rightarrow> ConcurrentPageState \<Rightarrow> ConcurrentHandle \<Rightarrow> PageLockTable \<Rightarrow> txn_result" where
  "concurrent_restore_page_state session_id c h t =
     (if \<not> is_active h then Some (Inl InvalidState, h, t)
      else case TxnId_new session_id of
          None \<Rightarrow> Some (Inl InvalidState, h, t)
        | Some txn_id \<Rightarrow>
            let h = ensure_page_state (cps_page c) (\<lambda>s. s\<lparr>staged_data := cps_staged_data c,
                  has_staged_write := cps_had_staged_write c, is_freed := cps_was_freed c,
                  is_conflict_only := cps_was_conflict_only c, held_lock := cps_held_lock c\<rparr>) h;
                t = (if \<not> cps_held_lock c then snd (release (cps_page c) txn_id t) else t) in
            Some (Inr (), remove_page_state_if_empty (cps_page c) h, t))"

definition concurrent_clear_page_state :: "u64 \<Rightarrow> PageNumber \<Rightarrow> ConcurrentHandle \<Rightarrow> PageLockTable \<Rightarrow> txn_result" where
  "concurrent_clear_page_state session_id page h t =
     (if \<not> is_active h then Some (Inl InvalidState, h, t)
      else case TxnId_new session_id of
          None \<Rightarrow> Some (Inl InvalidState, h, t)
        | Some txn_id \<Rightarrow>
            let t = (case page_state page h of
                  Some s \<Rightarrow> if held_lock s then snd (release page txn_id t) else t
                | None \<Rightarrow> t) in
            Some (Inr (), h\<lparr>page_states := AList.delete page (page_states h)\<rparr>, t))"

definition concurrent_track_write_conflict_page :: "u64 \<Rightarrow> PageNumber \<Rightarrow> ConcurrentHandle \<Rightarrow> PageLockTable \<Rightarrow> txn_result" where
  "concurrent_track_write_conflict_page session_id page h t =
     (if \<not> is_active h then Some (Inl InvalidState, h, t)
      else let already_tracked = tracks_write_conflict_page page h;
               holds_lock = holds_page_lock page h;
               mark = (\<lambda>s. if \<not> has_staged_write s \<and> \<not> is_freed s then s\<lparr>is_conflict_only := True\<rparr> else s);
               witness = (\<lambda>h. if \<not> already_tracked then record_write_witness (WPage page) h else h) in
      if already_tracked \<and> holds_lock then Some (Inr (), h, t)
      else if holds_lock then Some (Inr (), witness (ensure_page_state page mark h), t)
      else case TxnId_new session_id of
          None \<Rightarrow> Some (Inl InvalidState, h, t)
        | Some txn_id \<Rightarrow>
            (case try_acquire page txn_id t of
               (None, _) \<Rightarrow> None
             | (Some (Inl _), t') \<Rightarrow> Some (Inl Busy, remove_page_state_if_empty page h, t')
             | (Some (Inr _), t') \<Rightarrow>
                 Some (Inr (), witness (ensure_page_state page (\<lambda>s. mark (s\<lparr>held_lock := True\<rparr>)) h), t')))"

definition concurrent_free_page :: "u64 \<Rightarrow> PageNumber \<Rightarrow> ConcurrentHandle \<Rightarrow> PageLockTable \<Rightarrow> txn_result" where
  "concurrent_free_page session_id page h t =
     (if \<not> is_active h then Some (Inl InvalidState, h, t)
      else if is_page_freed page h then Some (Inr (), h, t)
      else let already_tracked = tracks_write_conflict_page page h;
               free = (\<lambda>s. s\<lparr>staged_data := None, has_staged_write := False, is_conflict_only := False, is_freed := True\<rparr>);
               witness = (\<lambda>h. if \<not> already_tracked then record_write_witness (WPage page) h else h) in
      if holds_page_lock page h then Some (Inr (), witness (ensure_page_state page free h), t)
      else case TxnId_new session_id of
          None \<Rightarrow> Some (Inl InvalidState, h, t)
        | Some txn_id \<Rightarrow>
            (case try_acquire page txn_id t of
               (None, _) \<Rightarrow> None
             | (Some (Inl _), t') \<Rightarrow> Some (Inl Busy, remove_page_state_if_empty page h, t')
             | (Some (Inr _), t') \<Rightarrow>
                 Some (Inr (), witness (ensure_page_state page (\<lambda>s. free (s\<lparr>held_lock := True\<rparr>)) h), t')))"

section \<open>Reading and metadata pages\<close>

definition concurrent_read_page :: "PageNumber \<Rightarrow> ConcurrentHandle \<Rightarrow> bytes option" where
  "concurrent_read_page page h = (case page_state page h of None \<Rightarrow> None | Some s \<Rightarrow> staged_data s)"

definition concurrent_page_is_freed :: "PageNumber \<Rightarrow> ConcurrentHandle \<Rightarrow> bool" where
  "concurrent_page_is_freed page h = is_page_freed page h"

definition concurrent_page_read_state :: "PageNumber \<Rightarrow> ConcurrentHandle \<Rightarrow> bool \<times> bytes option" where
  "concurrent_page_read_state page h =
     (case page_state page h of Some s \<Rightarrow> (is_freed s, staged_data s) | None \<Rightarrow> (False, None))"

definition concurrent_page_read_status :: "PageNumber \<Rightarrow> ConcurrentHandle \<Rightarrow> bool \<times> bool" where
  "concurrent_page_read_status page h =
     (case page_state page h of Some s \<Rightarrow> (is_freed s, has_staged_write s) | None \<Rightarrow> (False, False))"

definition concurrent_has_page_state :: "ConcurrentHandle \<Rightarrow> bool" where
  "concurrent_has_page_state h = (page_states h \<noteq> [])"

definition concurrent_mark_metadata_exempt :: "PageNumber \<Rightarrow> ConcurrentHandle \<Rightarrow> ConcurrentHandle" where
  "concurrent_mark_metadata_exempt page h =
     (case page_state page h of
        Some s \<Rightarrow> h\<lparr>page_states := AList.update page (s\<lparr>metadata_exempt := True\<rparr>) (page_states h)\<rparr>
      | None \<Rightarrow> h)"

definition concurrent_is_metadata_exempt :: "PageNumber \<Rightarrow> ConcurrentHandle \<Rightarrow> bool" where
  "concurrent_is_metadata_exempt page h = (case page_state page h of None \<Rightarrow> False | Some s \<Rightarrow> metadata_exempt s)"

definition concurrent_write_metadata_page :: "u64 \<Rightarrow> PageNumber \<Rightarrow> bytes \<Rightarrow> ConcurrentHandle \<Rightarrow> PageLockTable \<Rightarrow> txn_result" where
  "concurrent_write_metadata_page session_id page data h t =
     (case concurrent_write_page session_id page data h t of
        None \<Rightarrow> None
      | Some (Inl e, h', t') \<Rightarrow> Some (Inl e, h', t')
      | Some (Inr _, h', t') \<Rightarrow> Some (Inr (), concurrent_mark_metadata_exempt page h', t'))"

section \<open>Committing\<close>

definition validate_first_committer_wins :: "ConcurrentHandle \<Rightarrow> CommitIndex \<Rightarrow> FcwResult" where
  "validate_first_committer_wins h ci =
     (let drifted = filter (\<lambda>page. case ci_latest page ci of None \<Rightarrow> False | Some seq \<Rightarrow> seq > high (snapshot h))
            (tracked_write_conflict_pages h) in
      if drifted = [] then FcwClean
      else FcwConflict drifted (fold (\<lambda>page m. case ci_latest page ci of None \<Rightarrow> m | Some seq \<Rightarrow> if seq > m then seq else m) drifted 0))"

definition release_tracked_page_locks :: "TxnId \<Rightarrow> ConcurrentHandle \<Rightarrow> PageLockTable \<Rightarrow> PageLockTable" where
  "release_tracked_page_locks txn_id h t = release_set (held_lock_pages_iter h) txn_id t"

definition concurrent_commit ::
  "u64 \<Rightarrow> u64 \<Rightarrow> ConcurrentHandle \<Rightarrow> CommitIndex \<Rightarrow> PageLockTable \<Rightarrow>
   (MvccError \<times> FcwResult + u64) \<times> ConcurrentHandle \<times> CommitIndex \<times> PageLockTable" where
  "concurrent_commit session_id assign_commit_seq h ci t =
     (if \<not> is_active h then (Inl (InvalidState, FcwClean), h, ci, t)
      else case TxnId_new session_id of
          None \<Rightarrow> (Inl (InvalidState, FcwClean), h, ci, t)
        | Some txn_id \<Rightarrow>
            let t' = release_tracked_page_locks txn_id h t in
            (case validate_first_committer_wins h ci of
               FcwClean \<Rightarrow>
                 if marked_for_abort h then (Inl (BusySnapshot, FcwClean), mark_aborted h, ci, t')
                 else if has_in_rw h \<and> has_out_rw h then (Inl (BusySnapshot, FcwClean), mark_aborted h, ci, t')
                 else (Inr assign_commit_seq, mark_committed h,
                       batch_update (tracked_write_conflict_pages h) assign_commit_seq ci, t')
             | fcw \<Rightarrow> (Inl (BusySnapshot, fcw), mark_aborted h, ci, t')))"

definition concurrent_abort :: "u64 \<Rightarrow> ConcurrentHandle \<Rightarrow> PageLockTable \<Rightarrow> ConcurrentHandle \<times> PageLockTable" where
  "concurrent_abort session_id h t =
     (mark_aborted h, case TxnId_new session_id of None \<Rightarrow> t | Some txn_id \<Rightarrow> release_tracked_page_locks txn_id h t)"

section \<open>Savepoints\<close>

definition savepoint_page_state :: "PageTxnState \<Rightarrow> SavepointPageState" where
  "savepoint_page_state s =
     \<lparr>sps_staged_data = staged_data s, sps_has_staged_write = has_staged_write s, sps_is_freed = is_freed s,
      sps_is_conflict_only = is_conflict_only s, sps_metadata_exempt = metadata_exempt s\<rparr>"

definition concurrent_savepoint :: "string \<Rightarrow> ConcurrentHandle \<Rightarrow> MvccError + ConcurrentSavepoint" where
  "concurrent_savepoint name h =
     (if \<not> is_active h then Inl InvalidState
      else Inr \<lparr>sp_name = name,
        sp_page_states_snapshot = map (\<lambda>(page, s). (page, savepoint_page_state s))
          (filter (\<lambda>(page, s). tracks_write_conflict s) (page_states h)),
        sp_write_set_len = write_set_len h\<rparr>)"

text \<open>The first loop: re-acquire the locks of the captured pages that are no longer held; on a refusal,
  give back what was acquired.  The result carries the pages acquired so far.\<close>

fun reacquire_loop ::
  "TxnId \<Rightarrow> ConcurrentHandle \<Rightarrow> PageNumber list \<Rightarrow> PageNumber list \<Rightarrow> PageLockTable \<Rightarrow> (bool \<times> PageLockTable) option" where
  "reacquire_loop txn_id h [] acc t = Some (True, t)"
| "reacquire_loop txn_id h (page # pages) acc t =
     (if holds_page_lock page h then reacquire_loop txn_id h pages acc t
      else case try_acquire page txn_id t of
          (None, _) \<Rightarrow> None
        | (Some (Inl _), t') \<Rightarrow> Some (False, fold (\<lambda>p t. snd (release p txn_id t)) acc t')
        | (Some (Inr _), t') \<Rightarrow> reacquire_loop txn_id h pages (acc @ [page]) t')"

definition restored_page_state :: "SavepointPageState \<Rightarrow> PageTxnState" where
  "restored_page_state s =
     \<lparr>staged_data = sps_staged_data s, has_staged_write = sps_has_staged_write s, is_freed = sps_is_freed s,
      is_conflict_only = sps_is_conflict_only s, held_lock = True, metadata_exempt = sps_metadata_exempt s\<rparr>"

definition keep_lock :: "PageNumber \<times> PageTxnState \<Rightarrow> (PageNumber \<times> PageTxnState) list \<Rightarrow> (PageNumber \<times> PageTxnState) list" where
  "keep_lock e restored =
     (case e of (page, s) \<Rightarrow>
        if held_lock s \<and> map_of restored page = None
        then AList.update page (PageTxnState_default\<lparr>held_lock := True\<rparr>) restored else restored)"

definition concurrent_rollback_to_savepoint :: "u64 \<Rightarrow> ConcurrentSavepoint \<Rightarrow> ConcurrentHandle \<Rightarrow> PageLockTable \<Rightarrow> txn_result" where
  "concurrent_rollback_to_savepoint session_id sp h t =
     (if \<not> is_active h then Some (Inl InvalidState, h, t)
      else case TxnId_new session_id of
          None \<Rightarrow> Some (Inl InvalidState, h, t)
        | Some txn_id \<Rightarrow>
            (case reacquire_loop txn_id h (map fst (sp_page_states_snapshot sp)) [] t of
               None \<Rightarrow> None
             | Some (False, t') \<Rightarrow> Some (Inl Busy, h, t')
             | Some (True, t') \<Rightarrow>
                 let restored = fold (\<lambda>(page, s). AList.update page (restored_page_state s)) (sp_page_states_snapshot sp) [];
                     restored = fold keep_lock (page_states h) restored in
                 Some (Inr (), h\<lparr>page_states := restored\<rparr>, t')))"

section \<open>The handle as a map from pages to their state\<close>

lemma page_state_ensure [simp]:
  "page_state q (ensure_page_state p f h) =
     (if q = p then Some (f (case page_state p h of None \<Rightarrow> PageTxnState_default | Some s \<Rightarrow> s)) else page_state q h)"
  by (simp add: page_state_def ensure_page_state_def AList.update_conv)

lemma page_state_remove_empty [simp]:
  "page_state q (remove_page_state_if_empty p h) =
     (if q = p then (case page_state p h of None \<Rightarrow> None | Some s \<Rightarrow> if pts_is_empty s then None else Some s) else page_state q h)"
  by (auto simp: page_state_def remove_page_state_if_empty_def AList.delete_conv split: option.split)

lemma page_state_witness [simp]: "page_state q (record_write_witness k h) = page_state q h"
  by (simp add: record_write_witness_def page_state_def Let_def split: option.split)

lemma page_state_delete [simp]:
  "page_state q (h\<lparr>page_states := AList.delete p (page_states h)\<rparr>) = (if q = p then None else page_state q h)"
  by (simp add: page_state_def AList.delete_conv)

lemma page_state_exempt [simp]:
  "page_state q (concurrent_mark_metadata_exempt p h) =
     (if q = p then map_option (\<lambda>s. s\<lparr>metadata_exempt := True\<rparr>) (page_state p h) else page_state q h)"
  by (auto simp: page_state_def concurrent_mark_metadata_exempt_def AList.update_conv split: option.split)

text \<open>Operations on page states change nothing else that commit reads.\<close>

definition same_txn :: "ConcurrentHandle \<Rightarrow> ConcurrentHandle \<Rightarrow> bool" where
  "same_txn h h' \<longleftrightarrow> txn_state h' = txn_state h \<and> snapshot h' = snapshot h \<and> marked_for_abort h' = marked_for_abort h \<and>
     has_in_rw h' = has_in_rw h \<and> has_out_rw h' = has_out_rw h \<and> txn_token h' = txn_token h"

lemma same_txn_refl [simp]: "same_txn h h"
  by (simp add: same_txn_def)

lemma same_txn_ops [simp]:
  "same_txn h (ensure_page_state p f h') = same_txn h h'"
  "same_txn h (remove_page_state_if_empty p h') = same_txn h h'"
  "same_txn h (record_write_witness k h') = same_txn h h'"
  "same_txn h (concurrent_mark_metadata_exempt p h') = same_txn h h'"
  "same_txn h (h'\<lparr>page_states := ps\<rparr>) = same_txn h h'"
  by (auto simp: same_txn_def ensure_page_state_def remove_page_state_if_empty_def record_write_witness_def
      concurrent_mark_metadata_exempt_def Let_def split: option.split)

definition keys_distinct :: "ConcurrentHandle \<Rightarrow> bool" where
  "keys_distinct h = distinct (map fst (page_states h))"

lemma keys_distinct_ops [simp]:
  "keys_distinct h \<Longrightarrow> keys_distinct (ensure_page_state p f h)"
  "keys_distinct h \<Longrightarrow> keys_distinct (remove_page_state_if_empty p h)"
  "keys_distinct (record_write_witness k h) = keys_distinct h"
  "keys_distinct h \<Longrightarrow> keys_distinct (concurrent_mark_metadata_exempt p h)"
  "keys_distinct h \<Longrightarrow> keys_distinct (h\<lparr>page_states := AList.delete p (page_states h)\<rparr>)"
  by (auto simp: keys_distinct_def ensure_page_state_def remove_page_state_if_empty_def record_write_witness_def
      concurrent_mark_metadata_exempt_def Let_def distinct_update distinct_delete split: option.split)

section \<open>Coherence with the lock table\<close>

definition pts_ok :: "PageTxnState \<Rightarrow> bool" where
  "pts_ok s \<longleftrightarrow> held_lock s \<and>
     (has_staged_write s \<longrightarrow> \<not> is_freed s \<and> \<not> is_conflict_only s) \<and>
     (is_freed s \<longrightarrow> \<not> is_conflict_only s) \<and> (staged_data s \<noteq> None \<longrightarrow> has_staged_write s)"

text \<open>The lock table gives a session exactly the pages its active handle has a state for.\<close>

definition handle_inv :: "TxnId \<Rightarrow> ConcurrentHandle \<Rightarrow> (PageNumber \<rightharpoonup> TxnId) \<Rightarrow> bool" where
  "handle_inv sid h m \<longleftrightarrow> keys_distinct h \<and> (\<forall>p s. page_state p h = Some s \<longrightarrow> p \<noteq> 0 \<and> pts_ok s) \<and>
     (\<forall>p. m p = Some sid \<longleftrightarrow> is_active h \<and> page_state p h \<noteq> None)"

definition others_keep :: "TxnId \<Rightarrow> (PageNumber \<rightharpoonup> TxnId) \<Rightarrow> (PageNumber \<rightharpoonup> TxnId) \<Rightarrow> bool" where
  "others_keep sid m m' \<longleftrightarrow> (\<forall>x p. x \<noteq> sid \<longrightarrow> (m' p = Some x \<longleftrightarrow> m p = Some x))"

lemma others_keep_refl [simp]: "others_keep sid m m"
  by (simp add: others_keep_def)

lemma others_keep_trans: "others_keep sid m m' \<Longrightarrow> others_keep sid m' m'' \<Longrightarrow> others_keep sid m m''"
  by (simp add: others_keep_def)

lemma handle_inv_other: "handle_inv x h m \<Longrightarrow> others_keep sid m m' \<Longrightarrow> x \<noteq> sid \<Longrightarrow> handle_inv x h m'"
  by (simp add: handle_inv_def others_keep_def)

text \<open>What an operation on a page promises.\<close>

definition op_promise ::
  "TxnId \<Rightarrow> ConcurrentHandle \<Rightarrow> PageLockTable \<Rightarrow> (MvccError + unit) \<times> ConcurrentHandle \<times> PageLockTable \<Rightarrow> bool" where
  "op_promise sid h t res \<longleftrightarrow>
     (case res of (r, h', t') \<Rightarrow>
        lock_inv t' \<and> handle_inv sid h' (lock_of t') \<and> others_keep sid (lock_of t) (lock_of t') \<and> same_txn h h')"

lemma acquire_cases:
  assumes "lock_inv t" "p \<noteq> 0" "valid_txn sid"
  obtains (got) t' where "try_acquire p sid t = (Some (Inr ()), t')" "lock_inv t'" "lock_of t' = (lock_of t)(p \<mapsto> sid)"
      "lock_of t p = None \<or> lock_of t p = Some sid"
  | (busy) x t' where "try_acquire p sid t = (Some (Inl x), t')" "lock_inv t'" "lock_of t' = lock_of t" "lock_of t p = Some x" "x \<noteq> sid"
proof -
  obtain r t' where t': "try_acquire p sid t = (Some r, t')" "lock_inv t'" "(r, lock_of t') = acquired p sid (lock_of t)"
    using try_acquire_spec [OF assms] by blast
  show thesis
  proof (cases "lock_of t p = None \<or> lock_of t p = Some sid")
    case True
    then show thesis using got t' by (auto simp: acquired_def fun_upd_idem split: option.splits)
  next
    case False
    then show thesis using busy t' by (auto simp: acquired_def split: option.splits)
  qed
qed

lemma TxnId_new_valid: "valid_txn sid \<Longrightarrow> TxnId_new sid = Some sid"
  by (simp add: valid_txn_def)

lemma others_keep_acquire: "m p = None \<or> m p = Some sid \<Longrightarrow> others_keep sid m (m(p \<mapsto> sid))"
  by (auto simp: others_keep_def)

lemma default_sel [simp]:
  "held_lock PageTxnState_default = False" "has_staged_write PageTxnState_default = False"
  "is_freed PageTxnState_default = False" "is_conflict_only PageTxnState_default = False"
  "staged_data PageTxnState_default = None" "metadata_exempt PageTxnState_default = False"
  by (simp_all add: PageTxnState_default_def)

lemma held_not_empty [simp]: "held_lock s \<Longrightarrow> \<not> pts_is_empty s"
  by (simp add: pts_is_empty_def)

lemma is_active_same: "same_txn h h' \<Longrightarrow> is_active h' = is_active h"
  by (simp add: same_txn_def is_active_def)

text \<open>The two ways in which an operation changes the state of a page: one it holds, or one it has just locked.\<close>

lemma handle_inv_held:
  assumes "handle_inv sid h m" "page_state p h = Some s" "pts_ok (f s)" "same_txn h h'" "keys_distinct h'"
    and "\<And>q. page_state q h' = (if q = p then Some (f s) else page_state q h)"
  shows "handle_inv sid h' m"
  using assms is_active_same [OF assms(4)] by (auto simp: handle_inv_def)

lemma handle_inv_locked:
  assumes "handle_inv sid h m" "p \<noteq> 0" "pts_ok s'" "same_txn h h'" "keys_distinct h'" "is_active h"
    and "\<And>q. page_state q h' = (if q = p then Some s' else page_state q h)"
  shows "handle_inv sid h' (m(p \<mapsto> sid))"
  using assms is_active_same [OF assms(4)] by (auto simp: handle_inv_def)


text \<open>A refused acquisition changes neither the handle nor any lock.\<close>

lemma refused_remove:
  assumes "handle_inv sid h m"
  shows "page_state q (remove_page_state_if_empty p h) = page_state q h" "handle_inv sid (remove_page_state_if_empty p h) m"
proof -
  show ps: "page_state q (remove_page_state_if_empty p h) = page_state q h" for q
    using assms by (auto simp: handle_inv_def pts_ok_def split: option.split)
  have "is_active (remove_page_state_if_empty p h) = is_active h" by (rule is_active_same) simp
  then show "handle_inv sid (remove_page_state_if_empty p h) m"
    using assms unfolding handle_inv_def ps by simp
qed

lemma no_state_no_lock: "handle_inv sid h m \<Longrightarrow> is_active h \<Longrightarrow> \<not> holds_page_lock p h \<longleftrightarrow> page_state p h = None"
  by (auto simp: handle_inv_def holds_page_lock_def pts_ok_def split: option.split)

abbreviation unmark :: "PageTxnState \<Rightarrow> PageTxnState" where
  "unmark \<equiv> \<lambda>s. s\<lparr>is_freed := False, is_conflict_only := False\<rparr>"

lemma prepare_held:
  assumes "is_active h" "page_state p h = Some s" "held_lock s"
  shows "concurrent_prepare_write_page sid p h t = Some (Inr (),
    if has_staged_write s then h
    else remove_page_state_if_empty p ((if is_freed s \<or> is_conflict_only s \<or> tracks_write_conflict_page p h then id
      else record_write_witness (WPage p)) (ensure_page_state p unmark h)), t)"
  using assms by (simp add: concurrent_prepare_write_page_def Let_def)

lemma prepare_new:
  assumes "is_active h" "page_state p h = None" "TxnId_new sid = Some sid"
  shows "concurrent_prepare_write_page sid p h t =
    (case try_acquire p sid t of
       (None, _) \<Rightarrow> None
     | (Some (Inl _), t') \<Rightarrow> Some (Inl Busy, remove_page_state_if_empty p h, t')
     | (Some (Inr _), t') \<Rightarrow> Some (Inr (), remove_page_state_if_empty p (record_write_witness (WPage p)
         (ensure_page_state p unmark (ensure_page_state p (\<lambda>s. s\<lparr>held_lock := True\<rparr>) h))), t'))"
  using assms by (simp add: concurrent_prepare_write_page_def Let_def tracks_write_conflict_page_def)

lemma prepare_write_ok:
  assumes "lock_inv t" "p \<noteq> 0" "valid_txn sid" "handle_inv sid h (lock_of t)"
  shows "\<exists>res. concurrent_prepare_write_page sid p h t = Some res \<and> op_promise sid h t res \<and>
    (case res of (r, h', t') \<Rightarrow>
       if \<not> is_active h then r = Inl InvalidState \<and> h' = h \<and> t' = t
       else if lock_of t p \<noteq> None \<and> lock_of t p \<noteq> Some sid
       then r = Inl Busy \<and> (\<forall>q. page_state q h' = page_state q h) \<and> lock_of t' = lock_of t
       else r = Inr () \<and> lock_of t' = (lock_of t)(p \<mapsto> sid) \<and>
         (\<forall>q. q \<noteq> p \<longrightarrow> page_state q h' = page_state q h) \<and>
         (\<exists>s. page_state p h' = Some s \<and> held_lock s \<and> \<not> is_freed s \<and> \<not> is_conflict_only s))"
proof (cases "is_active h")
  case False
  then show ?thesis using assms by (simp add: concurrent_prepare_write_page_def op_promise_def)
next
  case act: True
  show ?thesis
  proof (cases "page_state p h")
    case (Some s)
    then have l: "lock_of t p = Some sid" "pts_ok s" "keys_distinct h" using assms(4) act by (auto simp: handle_inv_def)
    let ?h = "if has_staged_write s then h
      else remove_page_state_if_empty p ((if is_freed s \<or> is_conflict_only s \<or> tracks_write_conflict_page p h then id
        else record_write_witness (WPage p)) (ensure_page_state p unmark h))"
    have h': "page_state q ?h = (if q = p then Some (if has_staged_write s then s else unmark s) else page_state q h)"
       "same_txn h ?h" "keys_distinct ?h" for q
      using Some l(2,3) by (auto simp: pts_ok_def)
    have "handle_inv sid ?h (lock_of t)"
      by (rule handle_inv_held [OF assms(4) Some, where f = "\<lambda>s. if has_staged_write s then s else unmark s"])
        (use h' l(2) in \<open>auto simp: pts_ok_def\<close>)
    then show ?thesis using prepare_held [OF act Some, of sid t] h' l act assms(1) by (auto simp: op_promise_def pts_ok_def fun_upd_idem)
  next
    case None
    show ?thesis using assms(1-3)
    proof (cases rule: acquire_cases)
      case (busy x t')
      then show ?thesis using None act refused_remove [OF assms(4)] TxnId_new_valid [OF assms(3)]
        prepare_new [OF act None TxnId_new_valid [OF assms(3)], of t]
        by (simp add: op_promise_def)
    next
      case (got t')
      let ?h = "remove_page_state_if_empty p (record_write_witness (WPage p)
         (ensure_page_state p unmark (ensure_page_state p (\<lambda>s. s\<lparr>held_lock := True\<rparr>) h)))"
      have h': "page_state q ?h = (if q = p then Some (unmark (PageTxnState_default\<lparr>held_lock := True\<rparr>)) else page_state q h)"
        "same_txn h ?h" "keys_distinct ?h" for q
        using None assms(4) by (auto simp: handle_inv_def)
      have "handle_inv sid ?h ((lock_of t)(p \<mapsto> sid))"
        by (rule handle_inv_locked [OF assms(4,2)]) (use h' act in \<open>auto simp: pts_ok_def\<close>)
      then show ?thesis using prepare_new [OF act None TxnId_new_valid [OF assms(3)], of t] h' got act
        by (auto simp: op_promise_def intro: others_keep_acquire)
    qed
  qed
qed

text \<open>What a page operation does to the page states: nothing on an error, only the state of its page otherwise.\<close>

definition page_op_effect ::
  "TxnId \<Rightarrow> PageNumber \<Rightarrow> (PageTxnState \<Rightarrow> bool) \<Rightarrow> ConcurrentHandle \<Rightarrow> PageLockTable \<Rightarrow>
   (MvccError + unit) \<times> ConcurrentHandle \<times> PageLockTable \<Rightarrow> bool" where
  "page_op_effect sid p P h t res \<longleftrightarrow>
     (case res of (r, h', t') \<Rightarrow>
        if \<not> is_active h then r = Inl InvalidState \<and> h' = h \<and> t' = t
        else if lock_of t p \<noteq> None \<and> lock_of t p \<noteq> Some sid
        then r = Inl Busy \<and> (\<forall>q. page_state q h' = page_state q h) \<and> lock_of t' = lock_of t
        else r = Inr () \<and> lock_of t' = (lock_of t)(p \<mapsto> sid) \<and>
          (\<forall>q. q \<noteq> p \<longrightarrow> page_state q h' = page_state q h) \<and> (\<exists>s. page_state p h' = Some s \<and> P s))"

lemma prepare_write_effect:
  assumes "lock_inv t" "p \<noteq> 0" "valid_txn sid" "handle_inv sid h (lock_of t)"
  shows "\<exists>res. concurrent_prepare_write_page sid p h t = Some res \<and> op_promise sid h t res \<and>
    page_op_effect sid p (\<lambda>s. held_lock s \<and> \<not> is_freed s \<and> \<not> is_conflict_only s) h t res"
  using prepare_write_ok [OF assms] unfolding page_op_effect_def .

lemma write_page_effect:
  assumes "lock_inv t" "p \<noteq> 0" "valid_txn sid" "handle_inv sid h (lock_of t)"
  shows "\<exists>res. concurrent_write_page sid p data h t = Some res \<and> op_promise sid h t res \<and>
    page_op_effect sid p (\<lambda>s. staged_data s = Some data \<and> has_staged_write s) h t res"
proof -
  obtain r h1 t1 where r: "concurrent_prepare_write_page sid p h t = Some (r, h1, t1)" "op_promise sid h t (r, h1, t1)"
      "page_op_effect sid p (\<lambda>s. held_lock s \<and> \<not> is_freed s \<and> \<not> is_conflict_only s) h t (r, h1, t1)"
    using prepare_write_effect [OF assms] by auto
  show ?thesis
  proof (cases r)
    case (Inl e)
    then show ?thesis using r by (auto simp: concurrent_write_page_def page_op_effect_def split: if_splits)
  next
    case (Inr u)
    let ?f = "\<lambda>s. s\<lparr>staged_data := Some data, has_staged_write := True\<rparr>"
    have act: "is_active h" "is_active h1" using r(2,3) Inr is_active_same
      by (auto simp: page_op_effect_def op_promise_def split: if_splits)
    obtain s where s: "page_state p h1 = Some s" "held_lock s" "\<not> is_freed s" "\<not> is_conflict_only s"
      using r(3) Inr act by (auto simp: page_op_effect_def split: if_splits)
    have i: "handle_inv sid h1 (lock_of t1)" "same_txn h h1" "lock_inv t1" "others_keep sid (lock_of t) (lock_of t1)"
      using r(2) by (auto simp: op_promise_def)
    have "handle_inv sid (ensure_page_state p ?f h1) (lock_of t1)"
      by (rule handle_inv_held [OF i(1) s(1), where f = ?f]) (use s i(1) in \<open>auto simp: pts_ok_def handle_inv_def\<close>)
    then show ?thesis using r(1,3) Inr act i s
      by (auto simp: concurrent_write_page_def concurrent_stage_prepared_write_page_def concurrent_stage_prepared_write_state_def
          page_op_effect_def op_promise_def split: if_splits)
  qed
qed

lemma write_metadata_effect:
  assumes "lock_inv t" "p \<noteq> 0" "valid_txn sid" "handle_inv sid h (lock_of t)"
  shows "\<exists>res. concurrent_write_metadata_page sid p data h t = Some res \<and> op_promise sid h t res \<and>
    page_op_effect sid p (\<lambda>s. staged_data s = Some data \<and> has_staged_write s \<and> metadata_exempt s) h t res"
proof -
  obtain r h1 t1 where r: "concurrent_write_page sid p data h t = Some (r, h1, t1)" "op_promise sid h t (r, h1, t1)"
      "page_op_effect sid p (\<lambda>s. staged_data s = Some data \<and> has_staged_write s) h t (r, h1, t1)"
    using write_page_effect [OF assms, of data] by auto
  show ?thesis
  proof (cases r)
    case (Inl e)
    then show ?thesis using r by (auto simp: concurrent_write_metadata_page_def page_op_effect_def split: if_splits)
  next
    case (Inr u)
    then obtain s where s: "page_state p h1 = Some s" using r(3) by (auto simp: page_op_effect_def split: if_splits)
    have i: "handle_inv sid h1 (lock_of t1)" using r(2) by (simp add: op_promise_def)
    have "handle_inv sid (concurrent_mark_metadata_exempt p h1) (lock_of t1)"
      by (rule handle_inv_held [OF i s, where f = "\<lambda>s. s\<lparr>metadata_exempt := True\<rparr>"])
        (use s i in \<open>auto simp: pts_ok_def handle_inv_def\<close>)
    then show ?thesis using r Inr s
      by (auto simp: concurrent_write_metadata_page_def page_op_effect_def op_promise_def split: if_splits)
  qed
qed

abbreviation track :: "PageTxnState \<Rightarrow> PageTxnState" where
  "track \<equiv> \<lambda>s. if \<not> has_staged_write s \<and> \<not> is_freed s then s\<lparr>is_conflict_only := True\<rparr> else s"

abbreviation set_free :: "PageTxnState \<Rightarrow> PageTxnState" where
  "set_free \<equiv> \<lambda>s. s\<lparr>staged_data := None, has_staged_write := False, is_conflict_only := False, is_freed := True\<rparr>"

text \<open>The common shape of the two operations that lock a page and change its state.\<close>

lemma lock_and_change_effect:
  assumes base: "lock_inv t" "p \<noteq> 0" "valid_txn sid" "handle_inv sid h (lock_of t)" and act: "is_active h"
    and held: "\<And>s. page_state p h = Some s \<Longrightarrow> \<exists>h'. op = Some (Inr (), h', t) \<and> same_txn h h' \<and> keys_distinct h' \<and>
       (\<forall>q. page_state q h' = (if q = p then Some (f s) else page_state q h))"
    and new: "page_state p h = None \<Longrightarrow> op = (case try_acquire p sid t of
       (None, _) \<Rightarrow> None
     | (Some (Inl _), t') \<Rightarrow> Some (Inl Busy, remove_page_state_if_empty p h, t')
     | (Some (Inr _), t') \<Rightarrow> Some (Inr (), h2, t'))"
    and h2: "page_state p h = None \<Longrightarrow> same_txn h h2 \<and> keys_distinct h2 \<and>
       (\<forall>q. page_state q h2 = (if q = p then Some (f (PageTxnState_default\<lparr>held_lock := True\<rparr>)) else page_state q h))"
    and f: "\<And>s. pts_ok s \<Longrightarrow> pts_ok (f s) \<and> P (f s)"
  shows "\<exists>res. op = Some res \<and> op_promise sid h t res \<and> page_op_effect sid p P h t res"
proof (cases "page_state p h")
  case (Some s)
  then have l: "lock_of t p = Some sid" "pts_ok s" using base(4) act by (auto simp: handle_inv_def)
  obtain h' where h': "op = Some (Inr (), h', t)" "same_txn h h'" "keys_distinct h'"
      "\<And>q. page_state q h' = (if q = p then Some (f s) else page_state q h)" using held [OF Some] by blast
  have "handle_inv sid h' (lock_of t)"
    using handle_inv_held [OF base(4) Some _ h'(2,3), of f] f [OF l(2)] h'(4) by blast
  then show ?thesis using h' l f [OF l(2)] base(1) act by (auto simp: op_promise_def page_op_effect_def fun_upd_idem)
next
  case None
  have d: "pts_ok (PageTxnState_default\<lparr>held_lock := True\<rparr>)" by (simp add: pts_ok_def)
  show ?thesis using base(1-3)
  proof (cases rule: acquire_cases)
    case (busy x t')
    then show ?thesis using new [OF None] refused_remove [OF base(4)] act by (simp add: op_promise_def page_op_effect_def)
  next
    case (got t')
    have "handle_inv sid h2 ((lock_of t)(p \<mapsto> sid))"
      using handle_inv_locked [OF base(4,2) _ _ _ act] f [OF d] h2 [OF None] by blast
    then show ?thesis using new [OF None] h2 [OF None] f [OF d] got act
      by (auto simp: op_promise_def page_op_effect_def intro: others_keep_acquire)
  qed
qed

lemma state_page_not_free: "page_state p h = None \<Longrightarrow> \<not> is_page_freed p h \<and> \<not> holds_page_lock p h \<and> \<not> tracks_write_conflict_page p h"
  by (simp add: is_page_freed_def holds_page_lock_def tracks_write_conflict_page_def)

lemma track_effect:
  assumes "lock_inv t" "p \<noteq> 0" "valid_txn sid" "handle_inv sid h (lock_of t)"
  shows "\<exists>res. concurrent_track_write_conflict_page sid p h t = Some res \<and> op_promise sid h t res \<and>
    page_op_effect sid p (\<lambda>s. has_staged_write s \<or> is_freed s \<or> is_conflict_only s) h t res"
proof (cases "is_active h")
  case False
  then show ?thesis using assms by (simp add: concurrent_track_write_conflict_page_def op_promise_def page_op_effect_def)
next
  case act: True
  have kd: "keys_distinct h" using assms(4) by (simp add: handle_inv_def)
  show ?thesis
  proof (rule lock_and_change_effect [OF assms act, where f = track and
        ?h2.0 = "record_write_witness (WPage p) (ensure_page_state p (\<lambda>s. track (s\<lparr>held_lock := True\<rparr>)) h)"])
    fix s assume s: "page_state p h = Some s"
    then have "held_lock s" using assms(4) by (auto simp: handle_inv_def pts_ok_def)
    then show "\<exists>h'. concurrent_track_write_conflict_page sid p h t = Some (Inr (), h', t) \<and> same_txn h h' \<and> keys_distinct h' \<and>
       (\<forall>q. page_state q h' = (if q = p then Some (track s) else page_state q h))"
      using s act kd by (cases "tracks_write_conflict s")
        (auto simp: concurrent_track_write_conflict_page_def tracks_write_conflict_page_def holds_page_lock_def tracks_write_conflict_def split: if_splits)
  next
    assume n: "page_state p h = None"
    then show "concurrent_track_write_conflict_page sid p h t = (case try_acquire p sid t of
       (None, _) \<Rightarrow> None
     | (Some (Inl _), t') \<Rightarrow> Some (Inl Busy, remove_page_state_if_empty p h, t')
     | (Some (Inr _), t') \<Rightarrow> Some (Inr (), record_write_witness (WPage p) (ensure_page_state p (\<lambda>s. track (s\<lparr>held_lock := True\<rparr>)) h), t'))"
      using act state_page_not_free [OF n] TxnId_new_valid [OF assms(3)] by (simp add: concurrent_track_write_conflict_page_def Let_def)
  qed (use kd in \<open>auto simp: pts_ok_def\<close>)
qed

lemma free_effect:
  assumes "lock_inv t" "p \<noteq> 0" "valid_txn sid" "handle_inv sid h (lock_of t)"
  shows "\<exists>res. concurrent_free_page sid p h t = Some res \<and> op_promise sid h t res \<and>
    page_op_effect sid p (\<lambda>s. is_freed s \<and> staged_data s = None \<and> \<not> has_staged_write s) h t res"
proof (cases "is_active h")
  case False
  then show ?thesis using assms by (simp add: concurrent_free_page_def op_promise_def page_op_effect_def)
next
  case act: True
  have kd: "keys_distinct h" using assms(4) by (simp add: handle_inv_def)
  show ?thesis
  proof (rule lock_and_change_effect [OF assms act, where f = "\<lambda>s. if is_freed s then s else set_free s" and
        ?h2.0 = "record_write_witness (WPage p) (ensure_page_state p (\<lambda>s. set_free (s\<lparr>held_lock := True\<rparr>)) h)"])
    fix s assume s: "page_state p h = Some s"
    then have "held_lock s" using assms(4) by (auto simp: handle_inv_def pts_ok_def)
    then show "\<exists>h'. concurrent_free_page sid p h t = Some (Inr (), h', t) \<and> same_txn h h' \<and> keys_distinct h' \<and>
       (\<forall>q. page_state q h' = (if q = p then Some (if is_freed s then s else set_free s) else page_state q h))"
      using s act kd by (cases "is_freed s"; cases "tracks_write_conflict_page p h")
        (auto simp: concurrent_free_page_def is_page_freed_def holds_page_lock_def Let_def)
  next
    assume n: "page_state p h = None"
    then show "concurrent_free_page sid p h t = (case try_acquire p sid t of
       (None, _) \<Rightarrow> None
     | (Some (Inl _), t') \<Rightarrow> Some (Inl Busy, remove_page_state_if_empty p h, t')
     | (Some (Inr _), t') \<Rightarrow> Some (Inr (), record_write_witness (WPage p) (ensure_page_state p (\<lambda>s. set_free (s\<lparr>held_lock := True\<rparr>)) h), t'))"
      using act state_page_not_free [OF n] TxnId_new_valid [OF assms(3)] by (simp add: concurrent_free_page_def Let_def)
  qed (use kd in \<open>auto simp: pts_ok_def\<close>)
qed

lemma release_cases:
  assumes "lock_inv t" "p \<noteq> 0" "valid_txn sid"
  shows "lock_inv (snd (release p sid t))"
    "lock_of (snd (release p sid t)) = (if lock_of t p = Some sid then (lock_of t)(p := None) else lock_of t)"
  using page_release_spec [OF assms] by (auto simp: released_def)

lemma others_keep_release: "others_keep sid m (if m p = Some sid then m(p := None) else m)"
  by (simp add: others_keep_def)

lemma clear_effect:
  assumes "lock_inv t" "p \<noteq> 0" "valid_txn sid" "handle_inv sid h (lock_of t)"
  shows "\<exists>res. concurrent_clear_page_state sid p h t = Some res \<and> op_promise sid h t res \<and>
    (case res of (r, h', t') \<Rightarrow>
       if \<not> is_active h then r = Inl InvalidState \<and> h' = h \<and> t' = t
       else r = Inr () \<and> (\<forall>q. page_state q h' = (if q = p then None else page_state q h)) \<and>
         lock_of t' = (if lock_of t p = Some sid then (lock_of t)(p := None) else lock_of t))"
proof (cases "is_active h")
  case False
  then show ?thesis using assms by (simp add: concurrent_clear_page_state_def op_promise_def)
next
  case act: True
  let ?h = "h\<lparr>page_states := AList.delete p (page_states h)\<rparr>" and ?m = "if lock_of t p = Some sid then (lock_of t)(p := None) else lock_of t"
  define t' where "t' = (case page_state p h of Some s \<Rightarrow> if held_lock s then snd (release p sid t) else t | None \<Rightarrow> t)"
  have a: "is_active ?h = is_active h" by (simp add: is_active_def)
  have t': "lock_inv t'" "lock_of t' = ?m"
    using release_cases [OF assms(1-3)] assms(1,4) act by (auto simp: t'_def handle_inv_def pts_ok_def split: option.splits)
  have "handle_inv sid ?h ?m"
    using assms(4) act unfolding handle_inv_def a by (auto split: if_splits)
  then show ?thesis using act TxnId_new_valid [OF assms(3)] t' others_keep_release [of sid "lock_of t" p]
    by (simp add: concurrent_clear_page_state_def op_promise_def t'_def [symmetric] Let_def)
qed

text \<open>A captured page state that a handle could have had.\<close>

definition cps_ok :: "ConcurrentPageState \<Rightarrow> bool" where
  "cps_ok c \<longleftrightarrow> cps_page c \<noteq> 0 \<and>
     (if cps_held_lock c
      then (cps_had_staged_write c \<longrightarrow> \<not> cps_was_freed c \<and> \<not> cps_was_conflict_only c) \<and>
        (cps_was_freed c \<longrightarrow> \<not> cps_was_conflict_only c) \<and> (cps_staged_data c \<noteq> None \<longrightarrow> cps_had_staged_write c)
      else \<not> cps_had_staged_write c \<and> \<not> cps_was_freed c \<and> \<not> cps_was_conflict_only c \<and> cps_staged_data c = None)"

lemma captured_ok: "handle_inv sid h m \<Longrightarrow> p \<noteq> 0 \<Longrightarrow> cps_ok (concurrent_page_state p h)"
  by (auto simp: cps_ok_def concurrent_page_state_def handle_inv_def pts_ok_def Let_def split: option.split)

lemma restore_effect:
  assumes "lock_inv t" "cps_ok c" "valid_txn sid" "handle_inv sid h (lock_of t)"
    and "cps_held_lock c \<Longrightarrow> lock_of t (cps_page c) = Some sid"
  shows "\<exists>res. concurrent_restore_page_state sid c h t = Some res \<and> op_promise sid h t res \<and>
    (case res of (r, h', t') \<Rightarrow>
       if \<not> is_active h then r = Inl InvalidState \<and> h' = h \<and> t' = t
       else r = Inr () \<and> concurrent_page_state (cps_page c) h' = c \<and>
         (\<forall>q. q \<noteq> cps_page c \<longrightarrow> page_state q h' = page_state q h \<and> lock_of t' q = lock_of t q))"
proof (cases "is_active h")
  case False
  then show ?thesis using assms by (simp add: concurrent_restore_page_state_def op_promise_def)
next
  case act: True
  let ?p = "cps_page c"
  let ?f = "\<lambda>s. s\<lparr>staged_data := cps_staged_data c, has_staged_write := cps_had_staged_write c, is_freed := cps_was_freed c,
                  is_conflict_only := cps_was_conflict_only c, held_lock := cps_held_lock c\<rparr>"
  let ?h = "remove_page_state_if_empty ?p (ensure_page_state ?p ?f h)"
  let ?s = "case page_state ?p h of None \<Rightarrow> PageTxnState_default | Some s \<Rightarrow> s"
  define t' where "t' = (if \<not> cps_held_lock c then snd (release ?p sid t) else t)"
  have p: "?p \<noteq> 0" using assms(2) by (simp add: cps_ok_def)
  have run: "concurrent_restore_page_state sid c h t = Some (Inr (), ?h, t')"
    using act TxnId_new_valid [OF assms(3)] by (simp add: concurrent_restore_page_state_def t'_def Let_def)
  have ps: "page_state q ?h = (if q = ?p then if cps_held_lock c then Some (?f ?s) else None else page_state q h)" for q
    using assms(2) by (auto simp: cps_ok_def pts_is_empty_def tracks_write_conflict_def)
  have t': "lock_inv t'" "lock_of t' = (if \<not> cps_held_lock c \<and> lock_of t ?p = Some sid then (lock_of t)(?p := None) else lock_of t)"
    using release_cases [OF assms(1) p assms(3)] assms(1) by (auto simp: t'_def)
  have a: "is_active ?h = is_active h" by (rule is_active_same) simp
  have kd: "keys_distinct ?h" using assms(4) by (simp add: handle_inv_def)
  have hi: "handle_inv sid ?h (lock_of t')"
    using assms(2,4,5) act p kd unfolding handle_inv_def ps t'(2) a
    by (auto simp: cps_ok_def pts_ok_def split: if_splits option.splits)
  have cps: "concurrent_page_state ?p ?h = c"
    using assms(2) unfolding concurrent_page_state_def ps by (cases c) (auto simp: cps_ok_def)
  show ?thesis unfolding run using hi cps ps t' act by (simp add: op_promise_def others_keep_def)
qed

section \<open>Ending a transaction\<close>

lemma state_in_keys: "keys_distinct h \<Longrightarrow> (p, s) \<in> set (page_states h) \<longleftrightarrow> page_state p h = Some s"
  by (simp add: keys_distinct_def page_state_def)

lemma filtered_keys:
  assumes "keys_distinct h"
  shows "set (map fst (filter (\<lambda>(page, s). P s) (page_states h))) = {p. case page_state p h of None \<Rightarrow> False | Some s \<Rightarrow> P s}"
proof -
  have "set (map fst (filter (\<lambda>(page, s). P s) (page_states h))) = {p. \<exists>s. (p, s) \<in> set (page_states h) \<and> P s}" by force
  then show ?thesis using state_in_keys [OF assms] by (auto split: option.splits)
qed

lemma tracked_pages_set:
  "keys_distinct h \<Longrightarrow> set (tracked_write_conflict_pages h) = {p. tracks_write_conflict_page p h}"
  unfolding tracked_write_conflict_pages_def tracks_write_conflict_page_def by (rule filtered_keys)

lemma held_pages_set: "keys_distinct h \<Longrightarrow> set (held_lock_pages_iter h) = {p. holds_page_lock p h}"
  unfolding held_lock_pages_iter_def holds_page_lock_def by (rule filtered_keys)

lemma release_tracked_effect:
  assumes "lock_inv t" "valid_txn sid" "handle_inv sid h (lock_of t)" "is_active h"
  shows "lock_inv (release_tracked_page_locks sid h t)"
    "lock_of (release_tracked_page_locks sid h t) = (\<lambda>p. if lock_of t p = Some sid then None else lock_of t p)"
proof -
  have s: "set (held_lock_pages_iter h) = {p. lock_of t p = Some sid}"
    using assms(3,4) by (auto simp: held_pages_set handle_inv_def holds_page_lock_def pts_ok_def split: option.splits)
  have "lock_of t 0 \<noteq> Some sid" using assms(3) by (force simp: handle_inv_def)
  then have z: "0 \<notin> set (held_lock_pages_iter h)" using s by simp
  show "lock_inv (release_tracked_page_locks sid h t)"
    "lock_of (release_tracked_page_locks sid h t) = (\<lambda>p. if lock_of t p = Some sid then None else lock_of t p)"
    using release_set_spec [OF assms(1) z assms(2)] s by (simp_all add: release_tracked_page_locks_def)
qed

lemma ended_inv:
  assumes "handle_inv sid h m" "\<not> is_active h'" "page_states h' = page_states h"
  shows "handle_inv sid h' (\<lambda>p. if m p = Some sid then None else m p)"
  using assms by (simp add: handle_inv_def page_state_def keys_distinct_def)

definition drifted_pages :: "ConcurrentHandle \<Rightarrow> CommitIndex \<Rightarrow> PageNumber set" where
  "drifted_pages h ci = {p. tracks_write_conflict_page p h \<and> (\<exists>seq. ci_latest p ci = Some seq \<and> high (snapshot h) < seq)}"

lemma fcw_fold_max:
  "\<forall>p \<in> set ps. \<exists>s. ci_latest p ci = Some s \<Longrightarrow>
   fold (\<lambda>page m. case ci_latest page ci of None \<Rightarrow> m | Some seq \<Rightarrow> if seq > m then seq else m) ps (m :: u64) =
   Max (insert m ((\<lambda>p. the (ci_latest p ci)) ` set ps))"
proof (induction ps arbitrary: m)
  case (Cons p ps)
  then obtain s where "ci_latest p ci = Some s" by auto
  then show ?case using Cons by (cases "ps = []") (auto simp: max_def insert_commute Max.insert_remove)
qed simp

lemma fcw_spec:
  assumes "keys_distinct h"
  shows "validate_first_committer_wins h ci = FcwClean \<longleftrightarrow> drifted_pages h ci = {}"
    "drifted_pages h ci \<noteq> {} \<Longrightarrow> \<exists>ps. validate_first_committer_wins h ci =
       FcwConflict ps (Max ((\<lambda>p. the (ci_latest p ci)) ` drifted_pages h ci)) \<and> set ps = drifted_pages h ci"
proof -
  let ?P = "\<lambda>page. case ci_latest page ci of None \<Rightarrow> False | Some seq \<Rightarrow> seq > high (snapshot h)"
  let ?ps = "filter ?P (tracked_write_conflict_pages h)"
  have s: "set ?ps = drifted_pages h ci"
    using tracked_pages_set [OF assms] by (auto simp: drifted_pages_def split: option.splits)
  then show "validate_first_committer_wins h ci = FcwClean \<longleftrightarrow> drifted_pages h ci = {}"
    by (auto simp: validate_first_committer_wins_def Let_def filter_empty_conv)
  assume ne: "drifted_pages h ci \<noteq> {}"
  have "\<forall>p \<in> set ?ps. \<exists>s. ci_latest p ci = Some s" by (auto split: option.splits)
  note m = fcw_fold_max [OF this, of 0]
  have fin: "finite (drifted_pages h ci)" using s by (metis List.finite_set)
  have "Max (insert 0 ((\<lambda>p. the (ci_latest p ci)) ` drifted_pages h ci)) = Max ((\<lambda>p. the (ci_latest p ci)) ` drifted_pages h ci)"
    using fin ne by (simp add: max_def)
  then have "validate_first_committer_wins h ci = FcwConflict ?ps (Max ((\<lambda>p. the (ci_latest p ci)) ` drifted_pages h ci))"
    using m s ne by (cases "?ps = []") (simp_all add: validate_first_committer_wins_def Let_def)
  then show "\<exists>ps. validate_first_committer_wins h ci =
       FcwConflict ps (Max ((\<lambda>p. the (ci_latest p ci)) ` drifted_pages h ci)) \<and> set ps = drifted_pages h ci"
    using s by blast
qed

text \<open>A commit releases the locks of the session in every case; it changes the commit index only when it
  succeeds, and then exactly on the tracked pages.\<close>

definition commit_promise ::
  "TxnId \<Rightarrow> u64 \<Rightarrow> ConcurrentHandle \<Rightarrow> CommitIndex \<Rightarrow> PageLockTable \<Rightarrow>
   (MvccError \<times> FcwResult + u64) \<times> ConcurrentHandle \<times> CommitIndex \<times> PageLockTable \<Rightarrow> bool" where
  "commit_promise sid seq h ci t res \<longleftrightarrow>
     (case res of (r, h', ci', t') \<Rightarrow>
        lock_inv t' \<and> lock_of t' = (\<lambda>p. if lock_of t p = Some sid then None else lock_of t p) \<and>
        handle_inv sid h' (lock_of t') \<and> snapshot h' = snapshot h \<and> page_states h' = page_states h \<and>
        (if drifted_pages h ci \<noteq> {}
         then (\<exists>ps. r = Inl (BusySnapshot, FcwConflict ps (Max ((\<lambda>p. the (ci_latest p ci)) ` drifted_pages h ci))) \<and>
           set ps = drifted_pages h ci) \<and> txn_state h' = TxnAborted \<and> ci' = ci
         else if marked_for_abort h \<or> has_in_rw h \<and> has_out_rw h
         then r = Inl (BusySnapshot, FcwClean) \<and> txn_state h' = TxnAborted \<and> ci' = ci
         else r = Inr seq \<and> txn_state h' = TxnCommitted \<and> ci_inv ci' \<and>
           (\<forall>q. q \<noteq> 0 \<longrightarrow> ci_latest q ci' = (if tracks_write_conflict_page q h then Some seq else ci_latest q ci))))"

lemma commit_effect:
  assumes "lock_inv t" "valid_txn sid" "handle_inv sid h (lock_of t)" "is_active h" "ci_inv ci" "seq \<noteq> 0"
  shows "commit_promise sid seq h ci t (concurrent_commit sid seq h ci t)"
proof -
  have kd: "keys_distinct h" using assms(3) by (simp add: handle_inv_def)
  note rel = release_tracked_effect [OF assms(1-4)]
  have z: "0 \<notin> set (tracked_write_conflict_pages h)"
    using assms(3) kd by (auto simp: tracked_pages_set tracks_write_conflict_page_def handle_inv_def split: option.splits)
  note bu = batch_update_spec [OF assms(5) z assms(6)]
  have inv': "handle_inv sid h' (\<lambda>p. if lock_of t p = Some sid then None else lock_of t p)"
    if "h' = mark_aborted h \<or> h' = mark_committed h" for h'
    by (rule ended_inv [OF assms(3)]) (use that in \<open>auto simp: mark_aborted_def mark_committed_def is_active_def\<close>)
  show ?thesis
  proof (cases "drifted_pages h ci = {}")
    case True
    then have c: "validate_first_committer_wins h ci = FcwClean" using fcw_spec(1) [OF kd] by simp
    have i: "handle_inv sid (mark_aborted h) (\<lambda>p. if lock_of t p = Some sid then None else lock_of t p)"
      "handle_inv sid (mark_committed h) (\<lambda>p. if lock_of t p = Some sid then None else lock_of t p)" using inv' by blast+
    have sel: "snapshot (mark_aborted h) = snapshot h" "snapshot (mark_committed h) = snapshot h" "txn_state (mark_aborted h) = TxnAborted"
      "txn_state (mark_committed h) = TxnCommitted" "page_states (mark_aborted h) = page_states h" "page_states (mark_committed h) = page_states h"
      by (simp_all add: mark_aborted_def mark_committed_def)
    show ?thesis using True c rel bu i assms(4) TxnId_new_valid [OF assms(2)]
      by (cases "marked_for_abort h"; cases "has_in_rw h \<and> has_out_rw h")
        (simp_all add: commit_promise_def concurrent_commit_def Let_def sel tracked_pages_set [OF kd])
  next
    case False
    then obtain ps where ps: "validate_first_committer_wins h ci =
       FcwConflict ps (Max ((\<lambda>p. the (ci_latest p ci)) ` drifted_pages h ci))" "set ps = drifted_pages h ci"
      using fcw_spec(2) [OF kd] by blast
    then show ?thesis using False rel inv' assms(4) TxnId_new_valid [OF assms(2)]
      by (simp add: commit_promise_def concurrent_commit_def Let_def mark_aborted_def)
  qed
qed

lemma abort_effect:
  assumes "lock_inv t" "valid_txn sid" "handle_inv sid h (lock_of t)" "concurrent_abort sid h t = (h', t')"
  shows "lock_inv t'" "handle_inv sid h' (lock_of t')" "lock_of t' = (\<lambda>p. if lock_of t p = Some sid then None else lock_of t p)"
proof -
  have h': "h' = mark_aborted h" "t' = release_tracked_page_locks sid h t"
    using assms(4) TxnId_new_valid [OF assms(2)] by (auto simp: concurrent_abort_def)
  have "lock_inv t' \<and> lock_of t' = (\<lambda>p. if lock_of t p = Some sid then None else lock_of t p)"
  proof (cases "is_active h")
    case True
    then show ?thesis using release_tracked_effect [OF assms(1-3)] h' by simp
  next
    case False
    then have n: "lock_of t p \<noteq> Some sid" for p using assms(3) by (simp add: handle_inv_def)
    have z: "0 \<notin> set (held_lock_pages_iter h)"
      using assms(3) by (auto simp: handle_inv_def held_pages_set holds_page_lock_def split: option.splits)
    show ?thesis using release_set_spec [OF assms(1) z assms(2)] n h' by (simp add: release_tracked_page_locks_def)
  qed
  then show "lock_inv t'" "lock_of t' = (\<lambda>p. if lock_of t p = Some sid then None else lock_of t p)" by auto
  then show "handle_inv sid h' (lock_of t')"
    using ended_inv [OF assms(3), of h'] h' by (simp add: mark_aborted_def is_active_def)
qed

section \<open>Savepoints restore the write set\<close>

lemma fold_release:
  "lock_inv t \<Longrightarrow> valid_txn sid \<Longrightarrow> 0 \<notin> set acc \<Longrightarrow>
   lock_inv (fold (\<lambda>p t. snd (release p sid t)) acc t) \<and>
   lock_of (fold (\<lambda>p t. snd (release p sid t)) acc t) = (\<lambda>p. if p \<in> set acc \<and> lock_of t p = Some sid then None else lock_of t p)"
proof (induction acc arbitrary: t)
  case (Cons p acc)
  then show ?case using release_cases [OF Cons.prems(1) _ Cons.prems(2), of p] by (auto simp: fun_eq_iff)
qed simp

lemma reacquire_spec:
  assumes "lock_inv t" "valid_txn sid" "0 \<notin> set acc" "0 \<notin> set pages" "distinct (acc @ pages)"
    and "\<And>p. m p = Some sid \<longleftrightarrow> holds_page_lock p h" "\<And>p. p \<in> set acc \<Longrightarrow> m p = None"
    and "lock_of t = (\<lambda>p. if p \<in> set acc then Some sid else m p)"
  shows "\<exists>b t'. reacquire_loop sid h pages acc t = Some (b, t') \<and> lock_inv t' \<and>
    b = (\<forall>p \<in> set pages. m p = None \<or> m p = Some sid) \<and>
    lock_of t' = (if b then (\<lambda>p. if p \<in> set acc \<union> set pages then Some sid else m p) else m)"
  using assms
proof (induction pages arbitrary: acc t)
  case (Cons p pages)
  show ?case
  proof (cases "holds_page_lock p h")
    case True
    have "m p = Some sid" using True Cons.prems(6) by simp
    moreover obtain b t' where "reacquire_loop sid h pages acc t = Some (b, t')" "lock_inv t'"
       "b = (\<forall>p \<in> set pages. m p = None \<or> m p = Some sid)"
       "lock_of t' = (if b then (\<lambda>p. if p \<in> set acc \<union> set pages then Some sid else m p) else m)"
      using Cons.IH [of t acc] Cons.prems by auto
    ultimately show ?thesis using True by (cases b) (auto simp: fun_eq_iff)
  next
    case False
    have p: "p \<noteq> 0" "p \<notin> set acc" "m p \<noteq> Some sid" using Cons.prems(4,5,6) False by auto
    have l: "lock_of t p = m p" using Cons.prems(8) p by simp
    show ?thesis using Cons.prems(1) p(1) Cons.prems(2)
    proof (cases rule: acquire_cases)
      case (got t')
      then have "m p = None" using l p by auto
      then have "\<exists>b t''. reacquire_loop sid h pages (acc @ [p]) t' = Some (b, t'') \<and> lock_inv t'' \<and>
         b = (\<forall>p \<in> set pages. m p = None \<or> m p = Some sid) \<and>
         lock_of t'' = (if b then (\<lambda>q. if q \<in> set (acc @ [p]) \<union> set pages then Some sid else m q) else m)"
        using Cons.prems got p by (intro Cons.IH) auto
      then obtain b t'' where "reacquire_loop sid h pages (acc @ [p]) t' = Some (b, t'')" "lock_inv t''"
         "b = (\<forall>p \<in> set pages. m p = None \<or> m p = Some sid)"
         "lock_of t'' = (if b then (\<lambda>q. if q \<in> set (acc @ [p]) \<union> set pages then Some sid else m q) else m)" by blast
      then show ?thesis using got False \<open>m p = None\<close> by (cases b) (auto simp: fun_eq_iff)
    next
      case (busy x t')
      have "lock_of (fold (\<lambda>p t. snd (release p sid t)) acc t') = m \<and> lock_inv (fold (\<lambda>p t. snd (release p sid t)) acc t')"
        using fold_release [OF busy(2) Cons.prems(2,3)] busy Cons.prems(7,8) by (auto simp: fun_eq_iff)
      then show ?thesis using busy False l by auto
    qed
  qed
next
  case Nil
  then show ?case by (intro exI [of _ True] exI [of _ t]) simp
qed

lemma fold_update_map:
  "distinct (map fst xs) \<Longrightarrow> map_of (fold (\<lambda>(k, v). AList.update k (f v)) xs acc) q =
     (case map_of xs q of Some v \<Rightarrow> Some (f v) | None \<Rightarrow> map_of acc q)"
proof (induction xs arbitrary: acc)
  case (Cons x xs)
  obtain k v where x: "x = (k, v)" by fastforce
  have "map_of xs k = None" using Cons.prems x by (simp add: map_of_eq_None_iff)
  then show ?case using Cons x by (auto simp: AList.update_conv split: option.split)
qed simp

lemma fold_keep_lock:
  "map_of (fold keep_lock ps r) q = (case map_of r q of Some s \<Rightarrow> Some s
     | None \<Rightarrow> if \<exists>s. (q, s) \<in> set ps \<and> held_lock s then Some (PageTxnState_default\<lparr>held_lock := True\<rparr>) else None)"
  by (induction ps arbitrary: r) (auto simp: keep_lock_def AList.update_conv split: option.splits if_splits)


text \<open>A savepoint of a handle whose page states are \<open>h0\<close>.\<close>

definition savepoint_of :: "ConcurrentHandle \<Rightarrow> ConcurrentSavepoint \<Rightarrow> bool" where
  "savepoint_of h0 sp \<longleftrightarrow> (\<exists>name. concurrent_savepoint name h0 = Inr sp)"

definition captured :: "ConcurrentHandle \<Rightarrow> PageNumber \<Rightarrow> PageTxnState option" where
  "captured h0 p = (case page_state p h0 of None \<Rightarrow> None | Some s \<Rightarrow> if tracks_write_conflict s then Some s else None)"

lemma savepoint_snapshot:
  assumes "savepoint_of h0 sp" "keys_distinct h0"
  shows "distinct (map fst (sp_page_states_snapshot sp))"
    "map_of (sp_page_states_snapshot sp) p = map_option savepoint_page_state (captured h0 p)"
    "fst ` set (sp_page_states_snapshot sp) = {p. captured h0 p \<noteq> None}"
proof -
  let ?xs = "filter (\<lambda>(page, s). tracks_write_conflict s) (page_states h0)"
  have sp: "sp_page_states_snapshot sp = map (\<lambda>(page, s). (page, savepoint_page_state s)) ?xs"
    using assms(1) by (auto simp: savepoint_of_def concurrent_savepoint_def split: if_splits)
  have fst_eq: "map fst (sp_page_states_snapshot sp) = map fst ?xs" by (simp add: sp case_prod_unfold comp_def)
  have d: "distinct (map fst ?xs)" using assms(2) unfolding keys_distinct_def by (rule distinct_map_filter)
  then show "distinct (map fst (sp_page_states_snapshot sp))" using fst_eq by simp
  have m: "map_of ?xs p = captured h0 p" for p
  proof -
    have "map_of ?xs p = Some s \<longleftrightarrow> captured h0 p = Some s" for s
      using state_in_keys [OF assms(2), of p s] map_of_eq_Some_iff [OF d, of p s] by (auto simp: captured_def split: option.splits)
    then show ?thesis by (metis option.exhaust)
  qed
  show "map_of (sp_page_states_snapshot sp) p = map_option savepoint_page_state (captured h0 p)"
    unfolding sp using m by (simp add: map_of_map)
  have "fst ` set (sp_page_states_snapshot sp) = fst ` set ?xs" using arg_cong [OF fst_eq, of set] by simp
  also have "\<dots> = {p. map_of ?xs p \<noteq> None}" by (metis dom_def dom_map_of_conv_image_fst)
  finally show "fst ` set (sp_page_states_snapshot sp) = {p. captured h0 p \<noteq> None}" using m by simp
qed

lemma restored_captured: "held_lock s \<Longrightarrow> restored_page_state (savepoint_page_state s) = s"
  by (cases s) (simp add: restored_page_state_def savepoint_page_state_def)

lemma keep_lock_distinct: "distinct (map fst r) \<Longrightarrow> distinct (map fst (fold keep_lock ps r))"
  by (induction ps arbitrary: r) (auto simp: keep_lock_def distinct_update split: prod.split)

lemma fold_update_distinct: "distinct (map fst r) \<Longrightarrow> distinct (map fst (fold (\<lambda>(k, v). AList.update k (f v)) xs r))"
  by (induction xs arbitrary: r) (auto simp: distinct_update)

definition after_rollback :: "ConcurrentHandle \<Rightarrow> ConcurrentHandle \<Rightarrow> PageNumber \<Rightarrow> PageTxnState option" where
  "after_rollback h0 h p = (case captured h0 p of Some s \<Rightarrow> Some s
     | None \<Rightarrow> if page_state p h \<noteq> None then Some (PageTxnState_default\<lparr>held_lock := True\<rparr>) else None)"

lemma rollback_effect:
  assumes "lock_inv t" "valid_txn sid" "handle_inv sid h (lock_of t)" "is_active h"
    and "savepoint_of h0 sp" "handle_inv sid h0 m0"
  shows "\<exists>res. concurrent_rollback_to_savepoint sid sp h t = Some res \<and> op_promise sid h t res \<and>
    (case res of (r, h', t') \<Rightarrow>
       if \<exists>p x. captured h0 p \<noteq> None \<and> lock_of t p = Some x \<and> x \<noteq> sid
       then r = Inl Busy \<and> h' = h \<and> lock_of t' = lock_of t
       else r = Inr () \<and> (\<forall>p. page_state p h' = after_rollback h0 h p) \<and>
         lock_of t' = (\<lambda>p. if captured h0 p \<noteq> None then Some sid else lock_of t p))"
proof -
  have kd: "keys_distinct h0" "keys_distinct h" using assms(3,6) by (simp_all add: handle_inv_def)
  note sp = savepoint_snapshot [OF assms(5) kd(1)]
  let ?pages = "map fst (sp_page_states_snapshot sp)"
  have ok0: "p \<noteq> 0 \<and> pts_ok s" if "captured h0 p = Some s" for p s
    using that assms(6) by (auto simp: captured_def handle_inv_def split: option.splits if_splits)
  then have z: "0 \<notin> set ?pages" using sp(3) by force
  have m: "lock_of t p = Some sid \<longleftrightarrow> holds_page_lock p h" for p
    using assms(3,4) by (auto simp: handle_inv_def holds_page_lock_def pts_ok_def split: option.splits)
  obtain b t' where b: "reacquire_loop sid h ?pages [] t = Some (b, t')" "lock_inv t'"
      "b = (\<forall>p \<in> set ?pages. lock_of t p = None \<or> lock_of t p = Some sid)"
      "lock_of t' = (if b then (\<lambda>p. if p \<in> set [] \<union> set ?pages then Some sid else lock_of t p) else lock_of t)"
  proof -
    have "\<exists>b t'. reacquire_loop sid h ?pages [] t = Some (b, t') \<and> lock_inv t' \<and>
        b = (\<forall>p \<in> set ?pages. lock_of t p = None \<or> lock_of t p = Some sid) \<and>
        lock_of t' = (if b then (\<lambda>p. if p \<in> set [] \<union> set ?pages then Some sid else lock_of t p) else lock_of t)"
      by (rule reacquire_spec [OF assms(1,2) _ z]) (use sp(1) m in auto)
    then show ?thesis by (elim exE conjE) (rule that)
  qed
  have nb: "\<not> b \<longleftrightarrow> (\<exists>p x. captured h0 p \<noteq> None \<and> lock_of t p = Some x \<and> x \<noteq> sid)"
    using b(3) sp(3) by auto
  let ?r = "fold keep_lock (page_states h) (fold (\<lambda>(page, s). AList.update page (restored_page_state s)) (sp_page_states_snapshot sp) [])"
  let ?h = "h\<lparr>page_states := ?r\<rparr>"
  show ?thesis
  proof (cases b)
    case False
    then have "reacquire_loop sid h ?pages [] t = Some (False, t')" "lock_of t' = lock_of t"
      "\<exists>p x. captured h0 p \<noteq> None \<and> lock_of t p = Some x \<and> x \<noteq> sid" using b(1,4) nb by simp_all
    then show ?thesis using b(2) assms(3,4) TxnId_new_valid [OF assms(2)]
      by (simp add: concurrent_rollback_to_savepoint_def op_promise_def)
  next
    case True
    have held: "(\<exists>s. (p, s) \<in> set (page_states h) \<and> held_lock s) \<longleftrightarrow> page_state p h \<noteq> None" for p
      using assms(3) state_in_keys [OF kd(2)] by (auto simp: handle_inv_def pts_ok_def)
    have rc: "restored_page_state (savepoint_page_state s) = s" if "captured h0 p = Some s" for p s
      using ok0 [OF that] restored_captured by (simp add: pts_ok_def)
    have ps: "page_state p ?h = after_rollback h0 h p" for p
      unfolding page_state_def using held [of p] rc [of p]
      by (simp add: fold_keep_lock fold_update_map [OF sp(1)] sp(2) after_rollback_def page_state_def split: option.split)
    have "keys_distinct ?h"
      by (simp add: keys_distinct_def keep_lock_distinct fold_update_distinct)
    moreover have lk: "lock_of t' = (\<lambda>p. if captured h0 p \<noteq> None then Some sid else lock_of t p)"
      using b(4) True sp(3) by (auto simp: fun_eq_iff)
    moreover have "is_active ?h" using assms(4) by (simp add: is_active_def)
    ultimately have "handle_inv sid ?h (lock_of t')"
      using ok0 assms(3,4) unfolding handle_inv_def ps
      by (auto simp: after_rollback_def pts_ok_def split: option.splits if_splits)
    moreover have "others_keep sid (lock_of t) (lock_of t')"
      using b(3) True sp(3) unfolding others_keep_def lk by force
    moreover have "reacquire_loop sid h ?pages [] t = Some (True, t')"
      "\<not> (\<exists>p x. captured h0 p \<noteq> None \<and> lock_of t p = Some x \<and> x \<noteq> sid)" using b(1) True nb by simp_all
    ultimately show ?thesis using b(2) ps lk assms(4) TxnId_new_valid [OF assms(2)]
      by (simp add: concurrent_rollback_to_savepoint_def op_promise_def Let_def)
  qed
qed

section \<open>Concurrent sessions over one lock table and one commit index\<close>

datatype txn_op = OpPrepare PageNumber | OpWrite PageNumber bytes | OpWriteMetadata PageNumber bytes
  | OpTrack PageNumber | OpFree PageNumber | OpClear PageNumber

fun op_page :: "txn_op \<Rightarrow> PageNumber" where
  "op_page (OpPrepare p) = p" | "op_page (OpWrite p d) = p" | "op_page (OpWriteMetadata p d) = p"
| "op_page (OpTrack p) = p" | "op_page (OpFree p) = p" | "op_page (OpClear p) = p"

fun run_txn_op :: "u64 \<Rightarrow> txn_op \<Rightarrow> ConcurrentHandle \<Rightarrow> PageLockTable \<Rightarrow> txn_result" where
  "run_txn_op sid (OpPrepare p) h t = concurrent_prepare_write_page sid p h t"
| "run_txn_op sid (OpWrite p d) h t = concurrent_write_page sid p d h t"
| "run_txn_op sid (OpWriteMetadata p d) h t = concurrent_write_metadata_page sid p d h t"
| "run_txn_op sid (OpTrack p) h t = concurrent_track_write_conflict_page sid p h t"
| "run_txn_op sid (OpFree p) h t = concurrent_free_page sid p h t"
| "run_txn_op sid (OpClear p) h t = concurrent_clear_page_state sid p h t"

lemma run_txn_op_promise:
  assumes "lock_inv t" "op_page op \<noteq> 0" "valid_txn sid" "handle_inv sid h (lock_of t)"
  shows "\<exists>res. run_txn_op sid op h t = Some res \<and> op_promise sid h t res"
  using assms prepare_write_effect [of t _ sid h] write_page_effect [of t _ sid h] write_metadata_effect [of t _ sid h]
    track_effect [of t _ sid h] free_effect [of t _ sid h] clear_effect [of t _ sid h]
  by (cases op) fastforce+

record CommittedTxn =
  ct_high :: u64
  ct_seq :: u64
  ct_written :: "PageNumber set"
  ct_exempt :: "PageNumber set"

text \<open>The pages for which the first committer wins: those written that are not exempt.\<close>

definition ct_pages :: "CommittedTxn \<Rightarrow> PageNumber set" where
  "ct_pages c = ct_written c - ct_exempt c"

definition writes_page :: "PageNumber \<Rightarrow> ConcurrentHandle \<Rightarrow> bool" where
  "writes_page page h =
     (case page_state page h of None \<Rightarrow> False | Some s \<Rightarrow> has_staged_write s \<or> is_freed s \<or> is_conflict_only s)"

record ConcSystem =
  cs_sessions :: "u64 \<rightharpoonup> ConcurrentHandle"
  cs_saves :: "(u64 \<times> ConcurrentHandle \<times> ConcurrentSavepoint) list"
  cs_locks :: PageLockTable
  cs_index :: CommitIndex
  cs_history :: "CommittedTxn list"
  cs_last :: u64

definition cs_init :: ConcSystem where
  "cs_init = \<lparr>cs_sessions = Map.empty, cs_saves = [], cs_locks = lock_table_new, cs_index = commit_index_new, cs_history = [], cs_last = 0\<rparr>"

definition cs_put :: "u64 \<Rightarrow> ConcurrentHandle \<Rightarrow> PageLockTable \<Rightarrow> ConcSystem \<Rightarrow> ConcSystem" where
  "cs_put sid h t S = S\<lparr>cs_sessions := (cs_sessions S)(sid \<mapsto> h), cs_locks := t\<rparr>"

definition committed_txn :: "u64 \<Rightarrow> ConcurrentHandle \<Rightarrow> CommittedTxn" where
  "committed_txn seq h = \<lparr>ct_high = high (snapshot h), ct_seq = seq, ct_written = {p. writes_page p h},
     ct_exempt = {p. concurrent_is_metadata_exempt p h}\<rparr>"

lemma ct_pages_committed [simp]: "ct_pages (committed_txn seq h) = {p. tracks_write_conflict_page p h}"
  by (auto simp: ct_pages_def committed_txn_def writes_page_def concurrent_is_metadata_exempt_def tracks_write_conflict_page_def
      tracks_write_conflict_def split: option.splits if_splits)

inductive conc_step :: "ConcSystem \<Rightarrow> ConcSystem \<Rightarrow> bool" where
  begin_txn: "valid_txn sid \<Longrightarrow> cs_sessions S sid = None \<Longrightarrow>
    conc_step S (cs_put sid (ConcurrentHandle_new snap token) (cs_locks S) S)"
| page_op: "cs_sessions S sid = Some h \<Longrightarrow> op_page op \<noteq> 0 \<Longrightarrow> run_txn_op sid op h (cs_locks S) = Some (r, h', t') \<Longrightarrow>
    conc_step S (cs_put sid h' t' S)"
| read_page: "cs_sessions S sid = Some h \<Longrightarrow> h' \<in> {record_read p h, record_metadata_read p h, record_read_witness k h, record_write_witness k h} \<Longrightarrow>
    conc_step S (cs_put sid h' (cs_locks S) S)"
| ssi_flags: "cs_sessions S sid = Some h \<Longrightarrow>
    conc_step S (cs_put sid (h\<lparr>has_in_rw := i, has_out_rw := o', marked_for_abort := m\<rparr>) (cs_locks S) S)"
| savepoint: "cs_sessions S sid = Some h \<Longrightarrow> concurrent_savepoint name h = Inr sp \<Longrightarrow>
    conc_step S (S\<lparr>cs_saves := (sid, h, sp) # cs_saves S\<rparr>)"
| rollback: "cs_sessions S sid = Some h \<Longrightarrow> (sid, h0, sp) \<in> set (cs_saves S) \<Longrightarrow>
    concurrent_rollback_to_savepoint sid sp h (cs_locks S) = Some (r, h', t') \<Longrightarrow> conc_step S (cs_put sid h' t' S)"
| commit: "cs_sessions S sid = Some h \<Longrightarrow> cs_last S < seq \<Longrightarrow>
    concurrent_commit sid seq h (cs_index S) (cs_locks S) = (r, h', ci', t') \<Longrightarrow>
    conc_step S ((cs_put sid h' t' S)\<lparr>cs_index := ci', cs_last := seq,
      cs_history := cs_history S @ (case r of Inl _ \<Rightarrow> [] | Inr _ \<Rightarrow> [committed_txn seq h])\<rparr>)"
| abort: "cs_sessions S sid = Some h \<Longrightarrow> concurrent_abort sid h (cs_locks S) = (h', t') \<Longrightarrow> conc_step S (cs_put sid h' t' S)"
| end_session: "cs_sessions S sid = Some h \<Longrightarrow> \<not> is_active h \<Longrightarrow>
    conc_step S (S\<lparr>cs_sessions := (cs_sessions S)(sid := None)\<rparr>)"

inductive conc_reachable :: "ConcSystem \<Rightarrow> bool" where
  conc_init: "conc_reachable cs_init"
| conc_next: "conc_reachable S \<Longrightarrow> conc_step S S' \<Longrightarrow> conc_reachable S'"

text \<open>The invariant: sessions agree with the lock table and every lock belongs to a session; the commit index is at
  least as new as every committed transaction; and committed transactions that share a page are not concurrent.\<close>

definition sessions_ok :: "(u64 \<rightharpoonup> ConcurrentHandle) \<Rightarrow> (PageNumber \<rightharpoonup> TxnId) \<Rightarrow> bool" where
  "sessions_ok ss m \<longleftrightarrow> (\<forall>sid h. ss sid = Some h \<longrightarrow> valid_txn sid \<and> handle_inv sid h m) \<and> (\<forall>p x. m p = Some x \<longrightarrow> ss x \<noteq> None)"

definition saves_ok :: "(u64 \<times> ConcurrentHandle \<times> ConcurrentSavepoint) list \<Rightarrow> bool" where
  "saves_ok saves \<longleftrightarrow> (\<forall>(sid, h0, sp) \<in> set saves. savepoint_of h0 sp \<and> (\<exists>m0. handle_inv sid h0 m0))"

definition history_ok :: "CommittedTxn list \<Rightarrow> CommitIndex \<Rightarrow> u64 \<Rightarrow> bool" where
  "history_ok hs ci bound \<longleftrightarrow>
     (\<forall>c \<in> set hs. ct_seq c \<le> bound \<and> (\<forall>p \<in> ct_pages c. p \<noteq> 0 \<and> (\<exists>v. ci_latest p ci = Some v \<and> ct_seq c \<le> v))) \<and>
     (\<forall>j < length hs. \<forall>i < j. ct_seq (hs ! i) < ct_seq (hs ! j) \<and>
        (ct_pages (hs ! i) \<inter> ct_pages (hs ! j) \<noteq> {} \<longrightarrow> ct_seq (hs ! i) \<le> ct_high (hs ! j)))"

definition conc_inv :: "ConcSystem \<Rightarrow> bool" where
  "conc_inv S \<longleftrightarrow> lock_inv (cs_locks S) \<and> ci_inv (cs_index S) \<and> sessions_ok (cs_sessions S) (lock_of (cs_locks S)) \<and>
     saves_ok (cs_saves S) \<and> history_ok (cs_history S) (cs_index S) (cs_last S)"

lemma sessions_put:
  assumes "sessions_ok ss m" "valid_txn sid" "handle_inv sid h' m'" "others_keep sid m m'"
  shows "sessions_ok (ss(sid \<mapsto> h')) m'"
proof -
  have "handle_inv x h m'" if "ss x = Some h" "x \<noteq> sid" for x h
    using that assms(1,4) handle_inv_other [of x h m sid m'] by (simp add: sessions_ok_def)
  moreover have "(ss(sid \<mapsto> h')) x \<noteq> None" if "m' p = Some x" for p x
    using that assms(1,4) by (cases "x = sid") (auto simp: sessions_ok_def others_keep_def)
  ultimately show ?thesis using assms by (auto simp: sessions_ok_def)
qed

lemma conc_inv_put:
  assumes "conc_inv S" "valid_txn sid" "lock_inv t'" "handle_inv sid h' (lock_of t')" "others_keep sid (lock_of (cs_locks S)) (lock_of t')"
  shows "conc_inv (cs_put sid h' t' S)"
  using assms sessions_put [of "cs_sessions S" "lock_of (cs_locks S)" sid h' "lock_of t'"] by (simp add: conc_inv_def cs_put_def)

lemma handle_inv_same:
  assumes "handle_inv sid h m" "page_states h' = page_states h" "txn_state h' = txn_state h"
  shows "handle_inv sid h' m"
  using assms by (simp add: handle_inv_def keys_distinct_def page_state_def is_active_def)

lemma record_frame [simp]:
  "page_states (record_read p h) = page_states h" "txn_state (record_read p h) = txn_state h"
  "page_states (record_read_witness k h) = page_states h" "txn_state (record_read_witness k h) = txn_state h"
  "page_states (record_write_witness k h) = page_states h" "txn_state (record_write_witness k h) = txn_state h"
  by (simp_all add: record_read_def record_read_witness_def record_write_witness_def Let_def split: option.split)

lemma others_keep_end: "others_keep sid m (\<lambda>p. if m p = Some sid then None else m p)"
  by (simp add: others_keep_def)

lemma history_bound: "history_ok hs ci b \<Longrightarrow> b \<le> b' \<Longrightarrow> history_ok hs ci b'"
  by (force simp: history_ok_def)

text \<open>A successful commit extends the history: the index had nothing newer than the snapshot on the tracked pages.\<close>

lemma history_commit:
  assumes "history_ok hs ci b" "b < seq" "drifted_pages h ci = {}" "handle_inv sid h m"
    and "\<And>q. q \<noteq> 0 \<Longrightarrow> ci_latest q ci' = (if tracks_write_conflict_page q h then Some seq else ci_latest q ci)"
  shows "history_ok (hs @ [committed_txn seq h]) ci' seq"
proof -
  have nz: "p \<noteq> 0" if "tracks_write_conflict_page p h" for p
    using that assms(4) by (auto simp: tracks_write_conflict_page_def handle_inv_def split: option.splits)
  have old: "ct_seq c \<le> b" "p \<in> ct_pages c \<Longrightarrow> p \<noteq> 0 \<and> (\<exists>v. ci_latest p ci = Some v \<and> ct_seq c \<le> v)" if "c \<in> set hs" for c p
    using that assms(1) by (auto simp: history_ok_def)
  have new: "ct_seq c \<le> high (snapshot h)" if c: "c \<in> set hs" "p \<in> ct_pages c" "tracks_write_conflict_page p h" for c p
  proof -
    obtain v where v: "ci_latest p ci = Some v" "ct_seq c \<le> v" using old(2) [OF c(1,2)] by blast
    then have "\<not> high (snapshot h) < v" using assms(3) c(3) by (auto simp: drifted_pages_def)
    then show ?thesis using v(2) by simp
  qed
  have kept: "\<exists>v. ci_latest p ci' = Some v \<and> ct_seq c \<le> v" if "c \<in> set hs" "p \<in> ct_pages c" for c p
    using old [OF that(1)] that(2) assms(2,5) by (cases "tracks_write_conflict_page p h") (auto intro: order_trans less_imp_le)
  have [simp]: "ct_seq (committed_txn seq h) = seq" "ct_high (committed_txn seq h) = high (snapshot h)" by (simp_all add: committed_txn_def)
  have one: "\<forall>c \<in> set (hs @ [committed_txn seq h]). ct_seq c \<le> seq \<and>
      (\<forall>p \<in> ct_pages c. p \<noteq> 0 \<and> (\<exists>v. ci_latest p ci' = Some v \<and> ct_seq c \<le> v))"
  proof
    fix c assume "c \<in> set (hs @ [committed_txn seq h])"
    then consider "c \<in> set hs" | "c = committed_txn seq h" by auto
    then show "ct_seq c \<le> seq \<and> (\<forall>p \<in> ct_pages c. p \<noteq> 0 \<and> (\<exists>v. ci_latest p ci' = Some v \<and> ct_seq c \<le> v))"
    proof cases
      case 1 then show ?thesis using old(1) [OF 1] old(2) [OF 1] kept [OF 1] assms(2) by (auto intro: order_trans less_imp_le)
    next
      case 2 then show ?thesis using nz assms(5) by simp
    qed
  qed
  have two: "ct_seq ((hs @ [committed_txn seq h]) ! i) < ct_seq ((hs @ [committed_txn seq h]) ! j) \<and>
      (ct_pages ((hs @ [committed_txn seq h]) ! i) \<inter> ct_pages ((hs @ [committed_txn seq h]) ! j) \<noteq> {} \<longrightarrow>
       ct_seq ((hs @ [committed_txn seq h]) ! i) \<le> ct_high ((hs @ [committed_txn seq h]) ! j))"
    if "j < length (hs @ [committed_txn seq h])" "i < j" for i j
  proof (cases "j < length hs")
    case True
    then show ?thesis using assms(1) that by (simp add: history_ok_def nth_append)
  next
    case False
    then have j: "j = length hs" "hs ! i \<in> set hs" using that by auto
    then show ?thesis using that old(1) [OF j(2)] new [OF j(2)] assms(2)
      by (auto simp: nth_append intro: le_less_trans)
  qed
  show ?thesis unfolding history_ok_def using one two by blast
qed

lemma commit_step_inv:
  assumes "conc_inv S" "cs_sessions S sid = Some h" "cs_last S < seq"
    and "concurrent_commit sid seq h (cs_index S) (cs_locks S) = (r, h', ci', t')"
  shows "conc_inv ((cs_put sid h' t' S)\<lparr>cs_index := ci', cs_last := seq,
      cs_history := cs_history S @ (case r of Inl _ \<Rightarrow> [] | Inr _ \<Rightarrow> [committed_txn seq h])\<rparr>)"
proof -
  have i: "lock_inv (cs_locks S)" "ci_inv (cs_index S)" "valid_txn sid" "handle_inv sid h (lock_of (cs_locks S))"
     "history_ok (cs_history S) (cs_index S) (cs_last S)"
    using assms(1,2) by (auto simp: conc_inv_def sessions_ok_def)
  have nz: "seq \<noteq> 0" using assms(3) by auto
  have keep: "history_ok (cs_history S) (cs_index S) seq" using history_bound [OF i(5)] assms(3) by simp
  show ?thesis
  proof (cases "is_active h")
    case False
    then have "r = Inl (InvalidState, FcwClean)" "h' = h" "ci' = cs_index S" "t' = cs_locks S"
      using assms(4) by (simp_all add: concurrent_commit_def)
    then show ?thesis using conc_inv_put [OF assms(1) i(3,1,4)] keep by (simp add: conc_inv_def cs_put_def)
  next
    case True
    note p = commit_effect [OF i(1,3,4) True i(2) nz, unfolded assms(4)]
    then have e: "lock_inv t'" "handle_inv sid h' (lock_of t')"
       "lock_of t' = (\<lambda>p. if lock_of (cs_locks S) p = Some sid then None else lock_of (cs_locks S) p)"
      by (auto simp: commit_promise_def)
    then have "conc_inv (cs_put sid h' t' S)"
      using others_keep_end [of sid "lock_of (cs_locks S)"] by (intro conc_inv_put [OF assms(1) i(3)]) simp_all
    moreover have "ci_inv ci' \<and> history_ok (cs_history S @ (case r of Inl _ \<Rightarrow> [] | Inr _ \<Rightarrow> [committed_txn seq h])) ci' seq"
    proof (cases r)
      case (Inl x)
      then show ?thesis using p i(2) keep by (auto simp: commit_promise_def split: if_splits)
    next
      case (Inr s)
      then have "drifted_pages h (cs_index S) = {}" "ci_inv ci'"
        "\<And>q. q \<noteq> 0 \<Longrightarrow> ci_latest q ci' = (if tracks_write_conflict_page q h then Some seq else ci_latest q (cs_index S))"
        using p by (auto simp: commit_promise_def split: if_splits)
      then show ?thesis using Inr history_commit [OF i(5) assms(3) _ i(4), of ci'] by simp
    qed
    ultimately show ?thesis by (simp add: conc_inv_def cs_put_def)
  qed
qed

lemma conc_step_inv: "conc_step S S' \<Longrightarrow> conc_inv S \<Longrightarrow> conc_inv S'"
proof (induction rule: conc_step.induct)
  case (begin_txn sid S snap token)
  have "lock_of (cs_locks S) p \<noteq> Some sid" for p
    using begin_txn by (fastforce simp: conc_inv_def sessions_ok_def)
  then have "handle_inv sid (ConcurrentHandle_new snap token) (lock_of (cs_locks S))"
    by (simp add: handle_inv_def keys_distinct_def page_state_def ConcurrentHandle_new_def)
  then show ?case using begin_txn by (intro conc_inv_put) (simp_all add: conc_inv_def)
next
  case (page_op S sid h op r h' t')
  then have "lock_inv (cs_locks S)" "valid_txn sid" "handle_inv sid h (lock_of (cs_locks S))"
    by (auto simp: conc_inv_def sessions_ok_def)
  then show ?case using page_op run_txn_op_promise [of "cs_locks S" op sid h]
    by (intro conc_inv_put) (simp_all add: op_promise_def)
next
  case (read_page S sid h h' p k)
  then have "handle_inv sid h (lock_of (cs_locks S))" by (auto simp: conc_inv_def sessions_ok_def)
  moreover have "page_states h' = page_states h" "txn_state h' = txn_state h"
    using read_page.hyps(2) by (auto simp: record_metadata_read_def)
  ultimately have "handle_inv sid h' (lock_of (cs_locks S))" by (rule handle_inv_same)
  then show ?case using read_page by (intro conc_inv_put) (auto simp: conc_inv_def sessions_ok_def)
next
  case (ssi_flags S sid h m o' i)
  then have "handle_inv sid h (lock_of (cs_locks S))" by (auto simp: conc_inv_def sessions_ok_def)
  then have "handle_inv sid (h\<lparr>has_in_rw := i, has_out_rw := o', marked_for_abort := m\<rparr>) (lock_of (cs_locks S))"
    by (rule handle_inv_same) simp_all
  then show ?case using ssi_flags by (intro conc_inv_put) (auto simp: conc_inv_def sessions_ok_def)
next
  case (savepoint S sid h name sp)
  then show ?case by (auto simp: conc_inv_def saves_ok_def sessions_ok_def savepoint_of_def)
next
  case (rollback S sid h h0 sp r h' t')
  then have i: "lock_inv (cs_locks S)" "valid_txn sid" "handle_inv sid h (lock_of (cs_locks S))" "savepoint_of h0 sp"
    by (auto simp: conc_inv_def sessions_ok_def saves_ok_def)
  obtain m0 where m0: "handle_inv sid h0 m0" using rollback by (auto simp: conc_inv_def saves_ok_def)
  have "op_promise sid h (cs_locks S) (r, h', t')"
  proof (cases "is_active h")
    case True
    then show ?thesis using rollback_effect [OF i(1-3) True i(4) m0] rollback.hyps by auto
  next
    case False
    then show ?thesis using rollback.hyps i by (simp add: concurrent_rollback_to_savepoint_def op_promise_def)
  qed
  then show ?case using rollback i by (intro conc_inv_put) (simp_all add: op_promise_def)
next
  case (commit S sid h seq r h' ci' t')
  then show ?case by (intro commit_step_inv) auto
next
  case (abort S sid h h' t')
  then have i: "lock_inv (cs_locks S)" "valid_txn sid" "handle_inv sid h (lock_of (cs_locks S))"
    by (auto simp: conc_inv_def sessions_ok_def)
  note a = abort_effect [OF i abort.hyps(2)]
  then show ?case using abort i others_keep_end [of sid "lock_of (cs_locks S)"] by (intro conc_inv_put) simp_all
next
  case (end_session S sid h)
  then have "lock_of (cs_locks S) p \<noteq> Some sid" for p by (auto simp: conc_inv_def sessions_ok_def handle_inv_def)
  then show ?case using end_session by (auto simp: conc_inv_def sessions_ok_def)
qed

lemma conc_init_inv: "conc_inv cs_init"
  by (simp add: conc_inv_def cs_init_def lock_table_new_inv commit_index_new_inv sessions_ok_def lock_of_new saves_ok_def history_ok_def)

lemma conc_reachable_inv: "conc_reachable S \<Longrightarrow> conc_inv S"
  by (induction rule: conc_reachable.induct) (auto intro: conc_init_inv conc_step_inv)

section \<open>The properties of concurrent transactions\<close>

text \<open>C5: No lost update, in any interleaving of sessions with their writes, frees, savepoints, rollbacks, commits
  and aborts over one lock table and one commit index, each commit taking a sequence number above those of the commits before and
  validating, publishing and releasing in one step: of two committed transactions that wrote, freed or tracked a common page, neither of them as a
  page exempt from conflict tracking, the later one has the larger sequence number and has the earlier one in its snapshot.\<close>

theorem no_lost_updates:
  assumes "conc_reachable S" "i < j" "j < length (cs_history S)"
    and "p \<in> ct_written (cs_history S ! i)" "p \<notin> ct_exempt (cs_history S ! i)"
    and "p \<in> ct_written (cs_history S ! j)" "p \<notin> ct_exempt (cs_history S ! j)"
  shows "ct_seq (cs_history S ! i) < ct_seq (cs_history S ! j) \<and> ct_seq (cs_history S ! i) \<le> ct_high (cs_history S ! j)"
proof -
  have "history_ok (cs_history S) (cs_index S) (cs_last S)" using conc_reachable_inv [OF assms(1)] by (simp add: conc_inv_def)
  moreover have "p \<in> ct_pages (cs_history S ! i) \<inter> ct_pages (cs_history S ! j)" using assms(4-7) by (simp add: ct_pages_def)
  ultimately show ?thesis using assms(2,3) unfolding history_ok_def by blast
qed

lemma new_handle [simp]:
  "page_state p (ConcurrentHandle_new snap token) = None" "is_active (ConcurrentHandle_new snap token)"
  "snapshot (ConcurrentHandle_new snap token) = snap" "\<not> marked_for_abort (ConcurrentHandle_new snap token)"
  "\<not> has_in_rw (ConcurrentHandle_new snap token)" "\<not> has_out_rw (ConcurrentHandle_new snap token)"
  by (simp_all add: ConcurrentHandle_new_def page_state_def is_active_def)

lemma exempt_ops [simp]:
  "concurrent_is_metadata_exempt q (record_write_witness k h) = concurrent_is_metadata_exempt q h"
  "concurrent_is_metadata_exempt q (remove_page_state_if_empty p h) \<Longrightarrow> concurrent_is_metadata_exempt q h"
  "(\<And>s. metadata_exempt (f s) = metadata_exempt s) \<Longrightarrow>
   concurrent_is_metadata_exempt q (ensure_page_state p f h) = concurrent_is_metadata_exempt q h"
  by (auto simp: concurrent_is_metadata_exempt_def split: option.splits if_splits)

lemma prepare_keeps_exempt:
  assumes "concurrent_prepare_write_page sid p h t = Some (r, h', t')" "concurrent_is_metadata_exempt q h'"
  shows "concurrent_is_metadata_exempt q h"
proof -
  consider "h' = h" | "h' = remove_page_state_if_empty p h"
    | g where "h' = remove_page_state_if_empty p (g (ensure_page_state p unmark h))" "g = id \<or> g = record_write_witness (WPage p)"
    | g where "h' = remove_page_state_if_empty p (g (ensure_page_state p unmark (ensure_page_state p (\<lambda>s. s\<lparr>held_lock := True\<rparr>) h)))"
        "g = id \<or> g = record_write_witness (WPage p)"
    using assms(1) unfolding concurrent_prepare_write_page_def Let_def id_def
    by (auto split: if_splits option.splits prod.splits sum.splits)
  then show ?thesis using assms(2) by cases (auto dest!: exempt_ops(2))
qed

lemma write_keeps_exempt:
  assumes "concurrent_write_page sid p d h t = Some (r, h', t')" "concurrent_is_metadata_exempt q h'"
  shows "concurrent_is_metadata_exempt q h"
  using assms by (auto simp: concurrent_write_page_def concurrent_stage_prepared_write_page_def concurrent_stage_prepared_write_state_def
      split: option.splits prod.splits sum.splits if_splits dest: prepare_keeps_exempt)

text \<open>A writer that meets no other writer.\<close>

lemma unobstructed_writer:
  assumes "conc_reachable S" "valid_txn sid" "cs_sessions S sid = None" "p \<noteq> 0" "lock_of (cs_locks S) p = None"
    and "\<And>v. ci_latest p (cs_index S) = Some v \<Longrightarrow> v \<le> hi" "cs_last S < seq"
  shows "\<exists>S'. conc_reachable S' \<and> cs_history S' = cs_history S @ [\<lparr>ct_high = hi, ct_seq = seq, ct_written = {p}, ct_exempt = {}\<rparr>] \<and>
    cs_last S' = seq \<and> ci_latest p (cs_index S') = Some seq \<and> lock_of (cs_locks S') = lock_of (cs_locks S) \<and>
    (\<forall>x. x \<noteq> sid \<longrightarrow> cs_sessions S' x = cs_sessions S x)"
proof -
  let ?h = "ConcurrentHandle_new \<lparr>high = hi, schema_epoch = 0\<rparr> \<lparr>tok_id = sid, tok_epoch = 0\<rparr>"
  let ?S1 = "cs_put sid ?h (cs_locks S) S"
  have r1: "conc_reachable ?S1" using assms(1-3) by (intro conc_next [OF _ begin_txn])
  have inv: "conc_inv ?S1" by (rule conc_reachable_inv [OF r1])
  then have i: "lock_inv (cs_locks S)" "ci_inv (cs_index S)" "handle_inv sid ?h (lock_of (cs_locks S))"
    by (auto simp: conc_inv_def cs_put_def sessions_ok_def)
  have act: "is_active ?h" by simp
  obtain r h' t' where w: "concurrent_write_page sid p [] ?h (cs_locks S) = Some (r, h', t')" "op_promise sid ?h (cs_locks S) (r, h', t')"
      "page_op_effect sid p (\<lambda>s. staged_data s = Some [] \<and> has_staged_write s) ?h (cs_locks S) (r, h', t')"
    using write_page_effect [OF i(1) assms(4,2) i(3), of "[]"] by auto
  have ne: "\<not> metadata_exempt s" if "page_state p h' = Some s" for s
    using write_keeps_exempt [OF w(1), of p] that
    by (auto simp: concurrent_is_metadata_exempt_def)
  obtain s where s: "page_state p h' = Some s" "has_staged_write s" "\<And>q. q \<noteq> p \<Longrightarrow> page_state q h' = None"
      "lock_of t' = (lock_of (cs_locks S))(p \<mapsto> sid)"
    using w(3) act assms(5) by (auto simp: page_op_effect_def)
  have "page_state q h' = (if q = p then Some s else None)" for q using s(1,3) by simp
  then have st: "lock_of t' = (lock_of (cs_locks S))(p \<mapsto> sid)" "tracks_write_conflict_page q h' \<longleftrightarrow> q = p"
      "writes_page q h' \<longleftrightarrow> q = p" "\<not> concurrent_is_metadata_exempt q h'" for q
    using s(2,4) ne by (simp_all add: tracks_write_conflict_page_def tracks_write_conflict_def writes_page_def concurrent_is_metadata_exempt_def)
  have same: "lock_inv t'" "handle_inv sid h' (lock_of t')" "same_txn ?h h'" using w(2) by (auto simp: op_promise_def)
  then have act': "is_active h'" using is_active_same act by blast
  let ?S2 = "cs_put sid h' t' ?S1"
  have r2: "conc_reachable ?S2"
    by (rule conc_next [OF r1], rule page_op [where op = "OpWrite p []" and h = ?h]) (use w(1) assms(4) in \<open>simp_all add: cs_put_def\<close>)
  obtain rc h2 ci2 t2 where c: "concurrent_commit sid seq h' (cs_index S) t' = (rc, h2, ci2, t2)" by (cases "concurrent_commit sid seq h' (cs_index S) t'")
  have nz: "seq \<noteq> 0" using assms(7) by auto
  note e = commit_effect [OF same(1) assms(2) same(2) act' i(2) nz, unfolded c]
  have "drifted_pages h' (cs_index S) = {}" "\<not> marked_for_abort h'" "\<not> has_in_rw h'"
    using same(3) st(2) assms(6) by (force simp: drifted_pages_def same_txn_def not_less)+
  then have d: "rc = Inr seq" "ci_latest p ci2 = Some seq" "lock_of t2 = (\<lambda>q. if lock_of t' q = Some sid then None else lock_of t' q)"
    using e assms(4) st(2) by (auto simp: commit_promise_def)
  have no: "lock_of (cs_locks S) q \<noteq> Some sid" for q
    using i(3) by (auto simp: handle_inv_def)
  have "conc_reachable ((cs_put sid h2 t2 ?S2)\<lparr>cs_index := ci2, cs_last := seq, cs_history := cs_history ?S2 @ (case rc of Inl _ \<Rightarrow> [] | Inr _ \<Rightarrow> [committed_txn seq h'])\<rparr>)"
    by (rule conc_next [OF r2], rule commit [where h = h']) (use c assms(7) in \<open>simp_all add: cs_put_def\<close>)
  then show ?thesis
    using d no same(3) st(1) assms(5)
    by (intro exI conjI) (auto simp: cs_put_def committed_txn_def st(3,4) same_txn_def fun_eq_iff)
qed

lemma two_commits:
  "\<exists>S. conc_reachable S \<and> cs_history S = [\<lparr>ct_high = 0, ct_seq = 5, ct_written = {7}, ct_exempt = {}\<rparr>, \<lparr>ct_high = 5, ct_seq = 6, ct_written = {7}, ct_exempt = {}\<rparr>]"
proof -
  obtain S where S: "conc_reachable S" "cs_history S = [\<lparr>ct_high = 0, ct_seq = 5, ct_written = {7}, ct_exempt = {}\<rparr>]" "cs_last S = 5"
      "ci_latest 7 (cs_index S) = Some 5" "lock_of (cs_locks S) = lock_of lock_table_new" "cs_sessions S 2 = None"
    using unobstructed_writer [OF conc_init, of 1 7 0 5]
    by (auto simp: cs_init_def valid_txn_def TxnId_new_def MAX_RAW_def lock_of_new ci_latest_new)
  then show ?thesis using unobstructed_writer [OF S(1), of 2 7 5 6]
    by (auto simp: valid_txn_def TxnId_new_def MAX_RAW_def lock_of_new)
qed

theorem no_lost_updates_witness:
  "\<exists>S. conc_reachable S \<and> length (cs_history S) = 2 \<and> ct_seq (cs_history S ! 0) \<le> ct_high (cs_history S ! 1) \<and>
     ct_written (cs_history S ! 0) \<inter> ct_written (cs_history S ! 1) \<noteq> {}"
proof -
  obtain S where S: "conc_reachable S"
      "cs_history S = [\<lparr>ct_high = 0, ct_seq = 5, ct_written = {7}, ct_exempt = {}\<rparr>, \<lparr>ct_high = 5, ct_seq = 6, ct_written = {7}, ct_exempt = {}\<rparr>]"
    using two_commits by blast
  have "ct_seq (cs_history S ! 0) < ct_seq (cs_history S ! 1) \<and> ct_seq (cs_history S ! 0) \<le> ct_high (cs_history S ! 1)"
    by (rule no_lost_updates [OF S(1), of 0 1 7]) (simp_all add: S(2))
  then show ?thesis using S by (intro exI [of _ S]) simp
qed

lemma run_txn_op_result:
  assumes "lock_inv t" "op_page op \<noteq> 0" "valid_txn sid" "handle_inv sid h (lock_of t)"
  shows "\<exists>h' t'. run_txn_op sid op h t = Some (if \<not> is_active h then Inl InvalidState
      else if (\<forall>p. op \<noteq> OpClear p) \<and> lock_of t (op_page op) \<noteq> None \<and> lock_of t (op_page op) \<noteq> Some sid then Inl Busy else Inr (), h', t')"
proof (cases "\<exists>p. op = OpClear p")
  case True
  then show ?thesis using assms(3) by (auto simp: concurrent_clear_page_state_def TxnId_new_valid)
next
  case False
  then obtain P res where "run_txn_op sid op h t = Some res" "page_op_effect sid (op_page op) P h t res"
    using assms prepare_write_effect [of t _ sid h] write_page_effect [of t _ sid h] write_metadata_effect [of t _ sid h]
      track_effect [of t _ sid h] free_effect [of t _ sid h] by (cases op) (simp; blast)+
  then show ?thesis using False by (cases res) (auto simp: page_op_effect_def)
qed

text \<open>C6: The lock table and the sessions agree in every reachable state: a session has the lock of a page exactly when it is
  active and tracks that page.  So two active sessions never track the same page and a lock never outlives its session.  And
  an operation on a page always returns: it reports an invalid state exactly when its own session is not active, and, for the operations that take
  the lock of their page (all but clearing it), it reports busy exactly when another active session tracks the page; otherwise it succeeds.\<close>

theorem locks_match_sessions:
  assumes "conc_reachable S"
  shows "(lock_of (cs_locks S) p = Some sid \<longleftrightarrow> (\<exists>h. cs_sessions S sid = Some h \<and> is_active h \<and> page_state p h \<noteq> None)) \<and>
    (\<forall>sid' h h'. cs_sessions S sid = Some h \<and> is_active h \<and> page_state p h \<noteq> None \<and>
       cs_sessions S sid' = Some h' \<and> is_active h' \<and> page_state p h' \<noteq> None \<longrightarrow> sid' = sid) \<and>
    (\<forall>h op. cs_sessions S sid = Some h \<and> op_page op = p \<and> p \<noteq> 0 \<longrightarrow>
       (\<exists>h' t'. run_txn_op sid op h (cs_locks S) =
          Some (if \<not> is_active h then Inl InvalidState
            else if (\<forall>q. op \<noteq> OpClear q) \<and>
              (\<exists>x g. x \<noteq> sid \<and> cs_sessions S x = Some g \<and> is_active g \<and> page_state p g \<noteq> None) then Inl Busy else Inr (), h', t')))"
proof -
  have i: "lock_inv (cs_locks S)" "sessions_ok (cs_sessions S) (lock_of (cs_locks S))"
    using conc_reachable_inv [OF assms] by (auto simp: conc_inv_def)
  have l: "lock_of (cs_locks S) p = Some x \<longleftrightarrow> (\<exists>h. cs_sessions S x = Some h \<and> is_active h \<and> page_state p h \<noteq> None)" for x
    using i(2) unfolding sessions_ok_def handle_inv_def by (metis option.exhaust)
  have "\<exists>h' t'. run_txn_op sid op h (cs_locks S) =
          Some (if \<not> is_active h then Inl InvalidState
            else if (\<forall>q. op \<noteq> OpClear q) \<and>
              (\<exists>x g. x \<noteq> sid \<and> cs_sessions S x = Some g \<and> is_active g \<and> page_state p g \<noteq> None) then Inl Busy else Inr (), h', t')"
    if "cs_sessions S sid = Some h" "op_page op = p" "p \<noteq> 0" for h op
  proof -
    have "valid_txn sid" "handle_inv sid h (lock_of (cs_locks S))" using i(2) that(1) by (auto simp: sessions_ok_def)
    then have "\<exists>h' t'. run_txn_op sid op h (cs_locks S) =
        Some (if \<not> is_active h then Inl InvalidState
          else if (\<forall>q. op \<noteq> OpClear q) \<and> lock_of (cs_locks S) p \<noteq> None \<and> lock_of (cs_locks S) p \<noteq> Some sid then Inl Busy
          else Inr (), h', t')"
      using run_txn_op_result [OF i(1), of op sid h] that(2,3) by blast
    moreover have "lock_of (cs_locks S) p \<noteq> None \<and> lock_of (cs_locks S) p \<noteq> Some sid \<longleftrightarrow>
        (\<exists>x g. x \<noteq> sid \<and> cs_sessions S x = Some g \<and> is_active g \<and> page_state p g \<noteq> None)"
      using l by (metis option.exhaust option.inject option.distinct(1))
    ultimately show ?thesis by (simp only: if_True)
  qed
  moreover have "sid' = sid" if "cs_sessions S sid = Some h" "is_active h" "page_state p h \<noteq> None"
      "cs_sessions S sid' = Some h'" "is_active h'" "page_state p h' \<noteq> None" for sid' h h'
    using l [of sid] l [of sid'] that by auto
  ultimately show ?thesis using l [of sid] by blast
qed

lemma writer_running:
  "\<exists>S h. conc_reachable S \<and> cs_sessions S 1 = Some h \<and> is_active h \<and> page_state 7 h \<noteq> None \<and>
     cs_sessions S 2 = Some (ConcurrentHandle_new \<lparr>high = 0, schema_epoch = 0\<rparr> \<lparr>tok_id = 2, tok_epoch = 0\<rparr>)"
proof -
  let ?h = "\<lambda>i. ConcurrentHandle_new \<lparr>high = 0, schema_epoch = 0\<rparr> \<lparr>tok_id = i, tok_epoch = 0\<rparr>"
  have v: "valid_txn 1" "valid_txn 2" by (simp_all add: valid_txn_def TxnId_new_def MAX_RAW_def)
  let ?S1 = "cs_put 2 (?h 2) lock_table_new cs_init" and ?S2 = "cs_put 1 (?h 1) lock_table_new (cs_put 2 (?h 2) lock_table_new cs_init)"
  have l: "cs_locks cs_init = lock_table_new" "cs_locks ?S1 = lock_table_new" by (simp_all add: cs_init_def cs_put_def)
  have r1: "conc_reachable ?S1" using conc_next [OF conc_init begin_txn [OF v(2)]] by (simp add: l) (simp add: cs_init_def)
  have r2: "conc_reachable ?S2" using conc_next [OF r1 begin_txn [OF v(1)]] by (simp add: l) (simp add: cs_init_def cs_put_def)
  have i: "handle_inv 1 (?h 1) (lock_of lock_table_new)"
    by (simp add: handle_inv_def lock_of_new keys_distinct_def) (simp add: ConcurrentHandle_new_def)
  obtain r h t where w: "concurrent_write_page 1 7 [9] (?h 1) lock_table_new = Some (r, h, t)" "op_promise 1 (?h 1) lock_table_new (r, h, t)"
      "page_op_effect 1 7 (\<lambda>s. staged_data s = Some [9] \<and> has_staged_write s) (?h 1) lock_table_new (r, h, t)"
    using write_page_effect [OF lock_table_new_inv _ v(1) i, of 7 "[9]"] by auto
  have "conc_reachable (cs_put 1 h t ?S2)"
    by (rule conc_next [OF r2], rule page_op [where op = "OpWrite 7 [9]" and h = "?h 1"]) (use w(1) in \<open>simp_all add: cs_put_def\<close>)
  moreover have "is_active h" "page_state 7 h \<noteq> None"
    using w(2,3) is_active_same [of "?h 1" h] by (auto simp: page_op_effect_def op_promise_def lock_of_new split: if_splits)
  ultimately show ?thesis by (intro exI [of _ "cs_put 1 h t ?S2"] exI [of _ h]) (simp add: cs_put_def)
qed

theorem locks_match_sessions_witness:
  "\<exists>S h h' t'. conc_reachable S \<and> lock_of (cs_locks S) 7 = Some 1 \<and> cs_sessions S 2 = Some h \<and> is_active h \<and>
     run_txn_op 2 (OpWrite 7 [1]) h (cs_locks S) = Some (Inl Busy, h', t')"
proof -
  obtain S h where S: "conc_reachable S" "cs_sessions S 1 = Some h" "is_active h" "page_state 7 h \<noteq> None"
      "cs_sessions S 2 = Some (ConcurrentHandle_new \<lparr>high = 0, schema_epoch = 0\<rparr> \<lparr>tok_id = 2, tok_epoch = 0\<rparr>)" (is "_ = Some ?g")
    using writer_running by blast
  have "lock_of (cs_locks S) 7 = Some 1" using locks_match_sessions [OF S(1), of 7 1] S(2-4) by blast
  moreover have "\<exists>x g. x \<noteq> 2 \<and> cs_sessions S x = Some g \<and> is_active g \<and> page_state 7 g \<noteq> None"
    using S(2-4) by (intro exI [of _ 1] exI [of _ h]) simp
  then obtain h' t' where "run_txn_op 2 (OpWrite 7 [1]) ?g (cs_locks S) = Some (Inl Busy, h', t')"
    using conjunct2 [OF conjunct2 [OF locks_match_sessions [OF S(1), of 7 2]], rule_format, of ?g "OpWrite 7 [1]"] S(5) by auto
  moreover have "is_active ?g" by simp
  ultimately show ?thesis using S(1,5) by blast
qed

lemma rollback_view:
  assumes "handle_inv sid h0 m0" "page_state p h' = after_rollback h0 h p" "\<not> concurrent_is_metadata_exempt p h0"
  shows "concurrent_page_read_state p h' = concurrent_page_read_state p h0 \<and>
    concurrent_page_read_status p h' = concurrent_page_read_status p h0 \<and>
    (tracks_write_conflict_page p h' \<longleftrightarrow> tracks_write_conflict_page p h0)"
proof (cases "page_state p h0")
  case None
  then show ?thesis using assms(2) by (cases "page_state p h") (simp_all add: concurrent_page_read_state_def
      concurrent_page_read_status_def tracks_write_conflict_page_def after_rollback_def captured_def tracks_write_conflict_def)
next
  case (Some s)
  show ?thesis
  proof (cases "tracks_write_conflict s")
    case True
    then show ?thesis using assms(2) Some by (simp add: concurrent_page_read_state_def concurrent_page_read_status_def
        tracks_write_conflict_page_def after_rollback_def captured_def)
  next
    case False
    have "pts_ok s" using Some assms(1) by (auto simp: handle_inv_def)
    then have "staged_data s = None" "\<not> has_staged_write s" "\<not> is_freed s" "\<not> is_conflict_only s"
      using assms(3) Some False by (auto simp: tracks_write_conflict_def concurrent_is_metadata_exempt_def pts_ok_def)
    then show ?thesis using assms(2) Some False by (cases "page_state p h") (simp_all add: concurrent_page_read_state_def
        concurrent_page_read_status_def tracks_write_conflict_page_def after_rollback_def captured_def tracks_write_conflict_def)
  qed
qed

text \<open>C28: Rolling back to a savepoint undoes everything since then, whatever the transaction did in between.  It fails only
  when another session now has a page of the savepoint, and then changes nothing; otherwise every page that is not exempt
  from conflict tracking reads, and counts for conflicts, as when the savepoint was made, and no lock is lost.\<close>

theorem rollback_restores_savepoint:
  assumes "lock_inv t" "valid_txn sid" "handle_inv sid h (lock_of t)" "is_active h"
    and "concurrent_savepoint name h0 = Inr sp" "handle_inv sid h0 m0"
  shows "\<exists>r h' t'. concurrent_rollback_to_savepoint sid sp h t = Some (r, h', t') \<and> handle_inv sid h' (lock_of t') \<and>
    (if \<exists>p x. tracks_write_conflict_page p h0 \<and> lock_of t p = Some x \<and> x \<noteq> sid
     then r = Inl Busy \<and> h' = h \<and> lock_of t' = lock_of t
     else r = Inr () \<and>
       (\<forall>p. \<not> concurrent_is_metadata_exempt p h0 \<longrightarrow>
          concurrent_page_read_state p h' = concurrent_page_read_state p h0 \<and>
          concurrent_page_read_status p h' = concurrent_page_read_status p h0 \<and>
          (tracks_write_conflict_page p h' \<longleftrightarrow> tracks_write_conflict_page p h0)) \<and>
       (\<forall>p. lock_of t p = Some sid \<longrightarrow> lock_of t' p = Some sid))"
proof -
  have sp: "savepoint_of h0 sp" using assms(5) by (auto simp: savepoint_of_def)
  have cap: "captured h0 p \<noteq> None \<longleftrightarrow> tracks_write_conflict_page p h0" for p
    by (simp add: captured_def tracks_write_conflict_page_def split: option.split)
  obtain r h' t' where e: "concurrent_rollback_to_savepoint sid sp h t = Some (r, h', t')" "op_promise sid h t (r, h', t')"
      "if \<exists>p x. captured h0 p \<noteq> None \<and> lock_of t p = Some x \<and> x \<noteq> sid
       then r = Inl Busy \<and> h' = h \<and> lock_of t' = lock_of t
       else r = Inr () \<and> (\<forall>p. page_state p h' = after_rollback h0 h p) \<and>
         lock_of t' = (\<lambda>p. if captured h0 p \<noteq> None then Some sid else lock_of t p)"
    using rollback_effect [OF assms(1-4) sp assms(6)] by auto
  have inv': "handle_inv sid h' (lock_of t')" using e(2) by (simp add: op_promise_def)
  have c: "(\<exists>p x. tracks_write_conflict_page p h0 \<and> lock_of t p = Some x \<and> x \<noteq> sid) \<longleftrightarrow>
      (\<exists>p x. captured h0 p \<noteq> None \<and> lock_of t p = Some x \<and> x \<noteq> sid)" by (simp only: cap)
  have "if \<exists>p x. captured h0 p \<noteq> None \<and> lock_of t p = Some x \<and> x \<noteq> sid
     then r = Inl Busy \<and> h' = h \<and> lock_of t' = lock_of t
     else r = Inr () \<and>
       (\<forall>p. \<not> concurrent_is_metadata_exempt p h0 \<longrightarrow>
          concurrent_page_read_state p h' = concurrent_page_read_state p h0 \<and>
          concurrent_page_read_status p h' = concurrent_page_read_status p h0 \<and>
          (tracks_write_conflict_page p h' \<longleftrightarrow> tracks_write_conflict_page p h0)) \<and>
       (\<forall>p. lock_of t p = Some sid \<longrightarrow> lock_of t' p = Some sid)"
  proof (cases "\<exists>p x. captured h0 p \<noteq> None \<and> lock_of t p = Some x \<and> x \<noteq> sid")
    case True
    then show ?thesis using e(3) by simp
  next
    case False
    then have f: "r = Inr ()" "\<And>p. page_state p h' = after_rollback h0 h p"
       "lock_of t' = (\<lambda>p. if captured h0 p \<noteq> None then Some sid else lock_of t p)"
      using e(3) unfolding if_not_P [OF False] by blast+
    show ?thesis unfolding if_not_P [OF False] using f(1) rollback_view [OF assms(6) f(2)] by (simp add: f(3))
  qed
  then show ?thesis unfolding c using e(1) inv' by blast
qed


lemma first_write:
  assumes "valid_txn sid" "p \<noteq> 0"
  shows "\<exists>h t. concurrent_write_page sid p d (ConcurrentHandle_new snap token) lock_table_new = Some (Inr (), h, t) \<and>
    lock_inv t \<and> handle_inv sid h (lock_of t) \<and> is_active h \<and> lock_of t = [p \<mapsto> sid] \<and> concurrent_read_page p h = Some d"
proof -
  let ?h = "ConcurrentHandle_new snap token"
  have i: "handle_inv sid ?h (lock_of lock_table_new)"
    by (simp add: handle_inv_def lock_of_new keys_distinct_def) (simp add: ConcurrentHandle_new_def)
  obtain r h t where e: "concurrent_write_page sid p d ?h lock_table_new = Some (r, h, t)" "op_promise sid ?h lock_table_new (r, h, t)"
     "page_op_effect sid p (\<lambda>s. staged_data s = Some d \<and> has_staged_write s) ?h lock_table_new (r, h, t)"
    using write_page_effect [OF lock_table_new_inv assms(2,1) i, of d] by auto
  then show ?thesis using is_active_same [of ?h h]
    by (auto simp: op_promise_def page_op_effect_def lock_of_new concurrent_read_page_def)
qed

theorem rollback_restores_savepoint_witness:
  "\<exists>h t sp r h' t'. concurrent_write_page 1 7 [9] (ConcurrentHandle_new \<lparr>high = 0, schema_epoch = 0\<rparr> \<lparr>tok_id = 1, tok_epoch = 0\<rparr>) lock_table_new = Some (Inr (), h, t) \<and>
     concurrent_savepoint ''s'' (ConcurrentHandle_new \<lparr>high = 0, schema_epoch = 0\<rparr> \<lparr>tok_id = 1, tok_epoch = 0\<rparr>) = Inr sp \<and>
     concurrent_read_page 7 h = Some [9] \<and>
     concurrent_rollback_to_savepoint 1 sp h t = Some (r, h', t') \<and> r = Inr () \<and> concurrent_page_read_state 7 h' = (False, None)"
proof -
  let ?h0 = "ConcurrentHandle_new \<lparr>high = 0, schema_epoch = 0\<rparr> \<lparr>tok_id = 1, tok_epoch = 0\<rparr>"
  have v: "valid_txn 1" by (simp add: valid_txn_def TxnId_new_def MAX_RAW_def)
  obtain h t where w: "concurrent_write_page 1 7 [9] ?h0 lock_table_new = Some (Inr (), h, t)" "lock_inv t" "handle_inv 1 h (lock_of t)"
      "is_active h" "concurrent_read_page 7 h = Some [9]" using first_write [OF v, of 7] by fastforce
  obtain sp where sp: "concurrent_savepoint ''s'' ?h0 = Inr sp" by (simp add: concurrent_savepoint_def)
  have i0: "handle_inv 1 ?h0 Map.empty" by (simp add: handle_inv_def keys_distinct_def) (simp add: ConcurrentHandle_new_def)
  have n: "\<not> tracks_write_conflict_page p ?h0" "\<not> concurrent_is_metadata_exempt p ?h0" "concurrent_page_read_state p ?h0 = (False, None)" for p
    by (simp_all add: tracks_write_conflict_page_def concurrent_is_metadata_exempt_def concurrent_page_read_state_def)
  show ?thesis using rollback_restores_savepoint [OF w(2) v w(3,4) sp i0] w(1,5) sp n by auto
qed

text \<open>A page write, free or conflict mark that the pager rejects afterwards leaves no trace: restoring the state captured before
  it gives back the page states and the locks of that moment.\<close>

theorem rejected_write_undone:
  assumes "lock_inv t" "p \<noteq> 0" "valid_txn sid" "handle_inv sid h (lock_of t)" "is_active h"
    and "op \<in> {OpPrepare p, OpWrite p d, OpTrack p, OpFree p}" "run_txn_op sid op h t = Some (r, h1, t1)"
  shows "\<exists>h2 t2. concurrent_restore_page_state sid (concurrent_page_state p h) h1 t1 = Some (Inr (), h2, t2) \<and>
    concurrent_page_state p h2 = concurrent_page_state p h \<and> (\<forall>q. q \<noteq> p \<longrightarrow> page_state q h2 = page_state q h) \<and> lock_of t2 = lock_of t"
proof -
  let ?c = "concurrent_page_state p h"
  obtain P where e: "op_promise sid h t (r, h1, t1)" "page_op_effect sid p P h t (r, h1, t1)"
    using assms(6,7) prepare_write_effect [OF assms(1-4)] write_page_effect [OF assms(1-4), of d] track_effect [OF assms(1-4)] free_effect [OF assms(1-4)]
    by auto
  have o1: "lock_of t1 q = lock_of t q" "page_state q h1 = page_state q h" if "q \<noteq> p" for q
    using e(2) assms(5) that by (auto simp: page_op_effect_def split: if_splits)
  have held: "cps_held_lock ?c \<longleftrightarrow> lock_of t p = Some sid"
    using assms(4,5) by (auto simp: concurrent_page_state_def handle_inv_def pts_ok_def Let_def split: option.splits)
  then have l1: "cps_held_lock ?c \<Longrightarrow> lock_of t1 (cps_page ?c) = Some sid"
    using e(2) assms(5) by (auto simp: page_op_effect_def concurrent_page_state_def Let_def split: if_splits)
  have p: "cps_page ?c = p" by (simp add: concurrent_page_state_def Let_def)
  have i1: "lock_inv t1" "handle_inv sid h1 (lock_of t1)" using e(1) by (auto simp: op_promise_def)
  have a1: "is_active h1" using e(1) is_active_same assms(5) by (auto simp: op_promise_def)
  obtain h2 t2 where r: "concurrent_restore_page_state sid ?c h1 t1 = Some (Inr (), h2, t2)" "op_promise sid h1 t1 (Inr (), h2, t2)"
      "concurrent_page_state p h2 = ?c" "\<And>q. q \<noteq> p \<Longrightarrow> page_state q h2 = page_state q h1 \<and> lock_of t2 q = lock_of t1 q"
    using restore_effect [OF i1(1) captured_ok [OF assms(4,2)] assms(3) i1(2) l1] a1 unfolding p by auto
  have a2: "is_active h2" using r(2) is_active_same a1 by (auto simp: op_promise_def)
  have "lock_of t2 p = Some sid \<longleftrightarrow> lock_of t p = Some sid"
    using r(2,3) a2 held by (auto simp: op_promise_def handle_inv_def concurrent_page_state_def pts_ok_def Let_def split: option.splits)
  moreover have "lock_of t2 p = Some x \<longleftrightarrow> lock_of t p = Some x" if "x \<noteq> sid" for x
    using that e(1) r(2) by (simp add: op_promise_def others_keep_def)
  ultimately have "lock_of t2 p = lock_of t p" by (metis option.exhaust)
  then have "lock_of t2 = lock_of t" using r(4) o1(1) by (metis ext)
  then show ?thesis using r o1 by auto
qed


lemma new_handle_inv: "handle_inv sid (ConcurrentHandle_new snap token) (lock_of lock_table_new)"
  by (simp add: handle_inv_def lock_of_new keys_distinct_def) (simp add: ConcurrentHandle_new_def)

theorem rejected_write_undone_witness:
  "\<exists>h1 t1 h2 t2. concurrent_write_page 1 7 [9] (ConcurrentHandle_new \<lparr>high = 0, schema_epoch = 0\<rparr> \<lparr>tok_id = 1, tok_epoch = 0\<rparr>) lock_table_new = Some (Inr (), h1, t1) \<and>
     concurrent_restore_page_state 1 (concurrent_page_state 7 (ConcurrentHandle_new \<lparr>high = 0, schema_epoch = 0\<rparr> \<lparr>tok_id = 1, tok_epoch = 0\<rparr>)) h1 t1 =
       Some (Inr (), h2, t2) \<and> lock_of t2 7 = None"
proof -
  let ?h = "ConcurrentHandle_new \<lparr>high = 0, schema_epoch = 0\<rparr> \<lparr>tok_id = 1, tok_epoch = 0\<rparr>"
  have v: "valid_txn 1" by (simp add: valid_txn_def TxnId_new_def MAX_RAW_def)
  obtain h1 t1 where w: "concurrent_write_page 1 7 [9] ?h lock_table_new = Some (Inr (), h1, t1)"
    using first_write [OF v, of 7] by fastforce
  then show ?thesis
    using rejected_write_undone [OF lock_table_new_inv _ v new_handle_inv, of 7 "\<lparr>high = 0, schema_epoch = 0\<rparr>" "\<lparr>tok_id = 1, tok_epoch = 0\<rparr>"
        "OpWrite 7 [9]" "[9]" "Inr ()" h1 t1]
    by (auto simp: lock_of_new)
qed

text \<open>C37: A savepoint leaves out the pages exempt from conflict tracking although they have staged bytes: rolling back to a
  savepoint, even at once, loses the write.\<close>

theorem savepoint_drops_exempt_write:
  assumes "lock_inv t" "valid_txn sid" "handle_inv sid h (lock_of t)" "is_active h"
    and "concurrent_is_metadata_exempt p h" "concurrent_read_page p h = Some d" "concurrent_savepoint name h = Inr sp"
  shows "\<exists>h' t'. concurrent_rollback_to_savepoint sid sp h t = Some (Inr (), h', t') \<and> concurrent_read_page p h' = None"
proof -
  have sp: "savepoint_of h sp" using assms(7) by (auto simp: savepoint_of_def)
  have own: "\<not> (\<exists>p x. captured h p \<noteq> None \<and> lock_of t p = Some x \<and> x \<noteq> sid)"
    using assms(3,4) unfolding handle_inv_def captured_def by (metis option.case(1) option.inject)
  obtain h' t' where e: "concurrent_rollback_to_savepoint sid sp h t = Some (Inr (), h', t')" "page_state p h' = after_rollback h h p"
    using rollback_effect [OF assms(1-4) sp assms(3)] unfolding if_not_P [OF own] by auto
  have "concurrent_read_page p h' = None"
    using e(2) assms(5) by (auto simp: concurrent_read_page_def after_rollback_def captured_def concurrent_is_metadata_exempt_def
        tracks_write_conflict_def split: option.splits)
  then show ?thesis using e(1) by blast
qed


theorem savepoint_drops_exempt_write_witness:
  "\<exists>h t sp h' t'. concurrent_write_metadata_page 1 1 [9] (ConcurrentHandle_new \<lparr>high = 0, schema_epoch = 0\<rparr> \<lparr>tok_id = 1, tok_epoch = 0\<rparr>) lock_table_new = Some (Inr (), h, t) \<and>
     concurrent_read_page 1 h = Some [9] \<and> concurrent_savepoint ''s'' h = Inr sp \<and>
     concurrent_rollback_to_savepoint 1 sp h t = Some (Inr (), h', t') \<and> concurrent_read_page 1 h' = None"
proof -
  let ?h = "ConcurrentHandle_new \<lparr>high = 0, schema_epoch = 0\<rparr> \<lparr>tok_id = 1, tok_epoch = 0\<rparr>"
  have v: "valid_txn 1" by (simp add: valid_txn_def TxnId_new_def MAX_RAW_def)
  obtain r h t where e: "concurrent_write_metadata_page 1 1 [9] ?h lock_table_new = Some (r, h, t)" "op_promise 1 ?h lock_table_new (r, h, t)"
     "page_op_effect 1 1 (\<lambda>s. staged_data s = Some [9] \<and> has_staged_write s \<and> metadata_exempt s) ?h lock_table_new (r, h, t)"
    using write_metadata_effect [OF lock_table_new_inv _ v new_handle_inv, where p = 1 and data = "[9]"] by fastforce
  have st: "r = Inr ()" "concurrent_read_page 1 h = Some [9]" "concurrent_is_metadata_exempt 1 h"
    using e(3) by (auto simp: page_op_effect_def lock_of_new concurrent_read_page_def concurrent_is_metadata_exempt_def)
  have i: "lock_inv t" "handle_inv 1 h (lock_of t)" "is_active h" using e(2) is_active_same [of ?h h] by (auto simp: op_promise_def)
  obtain sp where sp: "concurrent_savepoint ''s'' h = Inr sp" using i(3) by (simp add: concurrent_savepoint_def)
  show ?thesis using savepoint_drops_exempt_write [OF i(1) v i(2,3) st(3,2) sp] e(1) st sp by blast
qed

text \<open>Read witnesses are bucketed by the root of their tree, so the view of a handle misses a page-level write to the leaf of a
  cell it read, although the two witnesses overlap.\<close>

lemma handle_view_misses_leaf:
  "witness_keys_overlap (WCell 2 9 1) (WPage 9) \<and>
   \<not> at_read_overlap (handle_as_view (record_read_witness (WCell 2 9 1) (ConcurrentHandle_new snap token))) (WPage 9)"
  by (simp add: handle_as_view_def handle_check_read_overlap_def record_read_witness_def witness_key_page_def ConcurrentHandle_new_def)

end
