(* ===== verification/EdgeIndex.thy ===== *)
theory EdgeIndex
  imports ConcurrentTxn "HOL-Library.Product_Lexorder"
begin

text \<open>
  The indexes that keep edge discovery away from transactions it cannot conflict with:
  \<open>WitnessKeySummary\<close>, the index over the committed history, \<open>HandleView\<close> and
  \<open>ActiveEdgeDiscoveryIndex\<close> of \<open>crates/fsqlite-mvcc/src/begin_concurrent.rs\<close>.  The code keeps the four maps of an
  index four times, for committed readers and writers and for active readers and writers; here they
  are one record.  A hash map from keys to lists of positions is an association list.  The vectors that
  the code searches by bisection are sorted without repetition (lemma \<open>view_vectors_sorted\<close>), so the search is membership.
\<close>

section \<open>Summaries of witness keys\<close>

record WitnessKeySummary =
  sm_pages :: "PageNumber list"
  sm_page_witness_pages :: "PageNumber list"
  sm_cell_witnesses :: "(PageNumber \<times> PageNumber \<times> u64) list"
  sm_has_global_keys :: bool

definition WitnessKeySummary_default :: WitnessKeySummary where
  "WitnessKeySummary_default =
     \<lparr>sm_pages = [], sm_page_witness_pages = [], sm_cell_witnesses = [], sm_has_global_keys = False\<rparr>"

fun exact_key :: "PageNumber \<times> PageNumber \<times> u64 \<Rightarrow> PageNumber \<times> u64" where
  "exact_key (btree_root, leaf_page, tag) = (btree_root, tag)"

text \<open>What one key adds to each of the vectors of a summary.\<close>

fun key_pages :: "WitnessKey \<Rightarrow> PageNumber list" where
  "key_pages (WPage page) = [page]"
| "key_pages (WByteRange page _ _) = [page]"
| "key_pages (WKeyRange btree_root _ _) = [btree_root]"
| "key_pages (WCell btree_root leaf_page _) = [btree_root, leaf_page]"
| "key_pages (WCustom _ _) = []"

fun key_page_witnesses :: "WitnessKey \<Rightarrow> PageNumber list" where
  "key_page_witnesses (WPage page) = [page]"
| "key_page_witnesses (WByteRange page _ _) = [page]"
| "key_page_witnesses (WKeyRange btree_root _ _) = [btree_root]"
| "key_page_witnesses _ = []"

fun key_cells :: "WitnessKey \<Rightarrow> (PageNumber \<times> PageNumber \<times> u64) list" where
  "key_cells (WCell btree_root leaf_page tag) = [(btree_root, leaf_page, tag)]"
| "key_cells _ = []"

fun key_is_global :: "WitnessKey \<Rightarrow> bool" where
  "key_is_global (WCustom _ _) = True"
| "key_is_global _ = False"

definition sort_dedup :: "'a::linorder list \<Rightarrow> 'a list" where
  "sort_dedup xs = remdups_adj (sort xs)"

definition summarize_witness_keys :: "WitnessKey list \<Rightarrow> WitnessKeySummary" where
  "summarize_witness_keys keys =
     \<lparr>sm_pages = sort_dedup (concat (map key_pages keys)),
      sm_page_witness_pages = sort_dedup (concat (map key_page_witnesses keys)),
      sm_cell_witnesses = sort_dedup (concat (map key_cells keys)),
      sm_has_global_keys = list_ex key_is_global keys\<rparr>"

section \<open>An index of positions\<close>

record PositionIndex =
  with_global_keys :: "nat list"
  by_page :: "(PageNumber \<times> nat list) list"
  by_page_witness :: "(PageNumber \<times> nat list) list"
  by_exact_cell :: "((PageNumber \<times> u64) \<times> nat list) list"

definition empty_index :: PositionIndex where
  "empty_index = \<lparr>with_global_keys = [], by_page = [], by_page_witness = [], by_exact_cell = []\<rparr>"

definition positions :: "('k \<times> nat list) list \<Rightarrow> 'k \<Rightarrow> nat list" where
  "positions m k = (case map_of m k of None \<Rightarrow> [] | Some is \<Rightarrow> is)"

text \<open>\<open>entry(k).or_default().push(i)\<close>.\<close>

definition push_position :: "nat \<Rightarrow> 'k \<Rightarrow> ('k \<times> nat list) list \<Rightarrow> ('k \<times> nat list) list" where
  "push_position i k m = AList.update k (positions m k @ [i]) m"

definition index_position ::
  "nat \<Rightarrow> bool \<Rightarrow> PageNumber list \<Rightarrow> PageNumber list \<Rightarrow> (PageNumber \<times> u64) list \<Rightarrow> PositionIndex \<Rightarrow> PositionIndex" where
  "index_position i has_global pages page_witness_pages cells ix =
     \<lparr>with_global_keys = (if has_global then with_global_keys ix @ [i] else with_global_keys ix),
      by_page = fold (push_position i) pages (by_page ix),
      by_page_witness = fold (push_position i) page_witness_pages (by_page_witness ix),
      by_exact_cell = fold (push_position i) cells (by_exact_cell ix)\<rparr>"

definition index_committed_entry :: "nat \<Rightarrow> WitnessKey list \<Rightarrow> PositionIndex \<Rightarrow> PositionIndex" where
  "index_committed_entry i keys ix =
     (let summary = summarize_witness_keys keys in
      index_position i (sm_has_global_keys summary) (sm_pages summary) (sm_page_witness_pages summary)
        (map exact_key (sm_cell_witnesses summary)) ix)"

definition rebuild_committed_index :: "WitnessKey list list \<Rightarrow> PositionIndex" where
  "rebuild_committed_index history =
     fold (\<lambda>(i, keys). index_committed_entry i keys) (enumerate 0 history) empty_index"

fun cell_positions :: "PositionIndex \<Rightarrow> PageNumber \<times> PageNumber \<times> u64 \<Rightarrow> nat list" where
  "cell_positions ix (btree_root, leaf_page, tag) =
     positions (by_page_witness ix) btree_root @ positions (by_page_witness ix) leaf_page
     @ positions (by_exact_cell ix) (exact_key (btree_root, leaf_page, tag))"

definition collect_precise_candidates :: "PositionIndex \<Rightarrow> WitnessKeySummary \<Rightarrow> nat list" where
  "collect_precise_candidates ix summary =
     (if with_global_keys ix = [] \<and> by_page ix = [] \<and> by_page_witness ix = [] \<and> by_exact_cell ix = [] then []
      else sort_dedup (with_global_keys ix
        @ concat (map (positions (by_page ix)) (sm_page_witness_pages summary))
        @ concat (map (cell_positions ix) (sm_cell_witnesses summary))))"

section \<open>Candidates from the committed history\<close>

text \<open>\<open>filter_map(|idx| history.get(idx))\<close>.\<close>

definition entries_at :: "'a list \<Rightarrow> nat list \<Rightarrow> 'a list" where
  "entries_at xs is = List.map_filter (\<lambda>i. if i < length xs then Some (xs ! i) else None) is"

definition committed_reader_candidates ::
  "CommittedReaderInfo list \<Rightarrow> PositionIndex \<Rightarrow> TxnToken \<Rightarrow> u64 \<Rightarrow> u64 \<Rightarrow> WitnessKeySummary \<Rightarrow> CommittedReaderInfo list" where
  "committed_reader_candidates readers ix txn begin_seq commit_seq write_key_summary =
     (if readers = [] then []
      else let candidate_indexes = (if sm_has_global_keys write_key_summary then [0..<length readers]
             else collect_precise_candidates ix write_key_summary) in
        filter (\<lambda>reader. cr_token reader \<noteq> txn \<and> begin_seq < cr_commit_seq reader \<and> cr_begin_seq reader < commit_seq)
          (entries_at readers candidate_indexes))"

definition committed_writer_candidates ::
  "CommittedWriterInfo list \<Rightarrow> PositionIndex \<Rightarrow> TxnToken \<Rightarrow> u64 \<Rightarrow> u64 \<Rightarrow> WitnessKeySummary \<Rightarrow> CommittedWriterInfo list" where
  "committed_writer_candidates writers ix txn begin_seq commit_seq read_key_summary =
     (if writers = [] then []
      else let candidate_indexes = (if sm_has_global_keys read_key_summary then [0..<length writers]
             else collect_precise_candidates ix read_key_summary) in
        filter (\<lambda>writer. cw_token writer \<noteq> txn \<and> begin_seq < cw_commit_seq writer) (entries_at writers candidate_indexes))"

section \<open>Views of active transactions\<close>

definition FLAG_ACTIVE :: u8 where
  "FLAG_ACTIVE = 1"

definition FLAG_GLOBAL_READ_WITNESSES :: u8 where
  "FLAG_GLOBAL_READ_WITNESSES = 2"

definition FLAG_GLOBAL_WRITE_WITNESSES :: u8 where
  "FLAG_GLOBAL_WRITE_WITNESSES = 4"

definition flags_from_handle :: "ConcurrentHandle \<Rightarrow> u8" where
  "flags_from_handle h =
     (let bits = 0;
          bits = (if is_active h then or bits FLAG_ACTIVE else bits);
          bits = (if global_read_witnesses h \<noteq> [] then or bits FLAG_GLOBAL_READ_WITNESSES else bits) in
      if global_write_witnesses h \<noteq> [] then or bits FLAG_GLOBAL_WRITE_WITNESSES else bits)"

definition flags_contain :: "u8 \<Rightarrow> u8 \<Rightarrow> bool" where
  "flags_contain flags flag = (and flags flag \<noteq> 0)"

record HandleView =
  hv_token :: TxnToken
  hv_begin_seq :: u64
  hv_flags :: u8
  hv_read_pages :: "PageNumber list"
  hv_read_page_witness_pages :: "PageNumber list"
  hv_read_exact_cells :: "(PageNumber \<times> u64) list"
  hv_write_pages :: "PageNumber list"
  hv_write_page_witness_pages :: "PageNumber list"
  hv_write_exact_cells :: "(PageNumber \<times> u64) list"
  hv_has_in_rw :: bool
  hv_has_out_rw :: bool

definition HandleView_new :: "ConcurrentHandle \<Rightarrow> HandleView" where
  "HandleView_new h =
     (let read_summary = summarize_witness_keys (read_witness_keys h);
          write_summary = summarize_witness_keys (write_witness_keys h) in
      \<lparr>hv_token = txn_token h, hv_begin_seq = high (snapshot h), hv_flags = flags_from_handle h,
       hv_read_pages = sm_pages read_summary,
       hv_read_page_witness_pages = sm_page_witness_pages read_summary,
       hv_read_exact_cells = sort_dedup (map exact_key (sm_cell_witnesses read_summary)),
       hv_write_pages = sort_dedup (tracked_write_conflict_pages h @ sm_pages write_summary),
       hv_write_page_witness_pages = sm_page_witness_pages write_summary,
       hv_write_exact_cells = sort_dedup (map exact_key (sm_cell_witnesses write_summary)),
       hv_has_in_rw = has_in_rw h, hv_has_out_rw = has_out_rw h\<rparr>)"

definition hv_is_active :: "HandleView \<Rightarrow> bool" where
  "hv_is_active v = flags_contain (hv_flags v) FLAG_ACTIVE"

definition hv_has_global_read_witnesses :: "HandleView \<Rightarrow> bool" where
  "hv_has_global_read_witnesses v = flags_contain (hv_flags v) FLAG_GLOBAL_READ_WITNESSES"

definition hv_has_global_write_witnesses :: "HandleView \<Rightarrow> bool" where
  "hv_has_global_write_witnesses v = flags_contain (hv_flags v) FLAG_GLOBAL_WRITE_WITNESSES"

definition hv_has_read_witnesses :: "HandleView \<Rightarrow> bool" where
  "hv_has_read_witnesses v = (hv_read_pages v \<noteq> [] \<or> hv_has_global_read_witnesses v)"

definition hv_has_write_witnesses :: "HandleView \<Rightarrow> bool" where
  "hv_has_write_witnesses v = (hv_write_pages v \<noteq> [] \<or> hv_has_global_write_witnesses v)"

fun hv_check_read_overlap :: "HandleView \<Rightarrow> WitnessKey \<Rightarrow> bool" where
  "hv_check_read_overlap v (WPage p) = (p \<in> set (hv_read_pages v))"
| "hv_check_read_overlap v (WByteRange p _ _) = (p \<in> set (hv_read_pages v))"
| "hv_check_read_overlap v (WCell btree_root leaf_page tag) =
     (btree_root \<in> set (hv_read_page_witness_pages v) \<or> leaf_page \<in> set (hv_read_page_witness_pages v)
      \<or> (btree_root, tag) \<in> set (hv_read_exact_cells v))"
| "hv_check_read_overlap v (WKeyRange btree_root _ _) = (btree_root \<in> set (hv_read_pages v))"
| "hv_check_read_overlap v (WCustom _ _) = (hv_read_pages v \<noteq> [] \<or> hv_has_global_read_witnesses v)"

fun hv_check_write_overlap :: "HandleView \<Rightarrow> WitnessKey \<Rightarrow> bool" where
  "hv_check_write_overlap v (WPage p) = (p \<in> set (hv_write_pages v))"
| "hv_check_write_overlap v (WByteRange p _ _) = (p \<in> set (hv_write_pages v))"
| "hv_check_write_overlap v (WCell btree_root leaf_page tag) =
     (btree_root \<in> set (hv_write_page_witness_pages v) \<or> leaf_page \<in> set (hv_write_page_witness_pages v)
      \<or> (btree_root, tag) \<in> set (hv_write_exact_cells v))"
| "hv_check_write_overlap v (WKeyRange btree_root _ _) = (btree_root \<in> set (hv_write_pages v))"
| "hv_check_write_overlap v (WCustom _ _) = (hv_write_pages v \<noteq> [] \<or> hv_has_global_write_witnesses v)"

text \<open>The view as \<open>ActiveTxnView\<close>; it drops the mark for abort.\<close>

definition hv_as_active :: "HandleView \<Rightarrow> ActiveTxn" where
  "hv_as_active v =
     \<lparr>at_token = hv_token v, at_begin_seq = hv_begin_seq v, at_active = hv_is_active v,
      at_read_overlap = hv_check_read_overlap v, at_write_overlap = hv_check_write_overlap v,
      at_in_rw = hv_has_in_rw v, at_out_rw = hv_has_out_rw v, at_marked = False\<rparr>"

section \<open>The index of the active transactions\<close>

record ActiveEdgeDiscoveryIndex =
  all_readers :: "nat list"
  all_writers :: "nat list"
  readers_index :: PositionIndex
  writers_index :: PositionIndex

definition index_view :: "nat \<Rightarrow> HandleView \<Rightarrow> ActiveEdgeDiscoveryIndex \<Rightarrow> ActiveEdgeDiscoveryIndex" where
  "index_view i v ix =
     (let ix = (if hv_has_read_witnesses v
            then ix\<lparr>all_readers := all_readers ix @ [i],
                    readers_index := index_position i (hv_has_global_read_witnesses v) (hv_read_pages v)
                      (hv_read_page_witness_pages v) (hv_read_exact_cells v) (readers_index ix)\<rparr>
            else ix) in
      if hv_has_write_witnesses v
      then ix\<lparr>all_writers := all_writers ix @ [i],
              writers_index := index_position i (hv_has_global_write_witnesses v) (hv_write_pages v)
                (hv_write_page_witness_pages v) (hv_write_exact_cells v) (writers_index ix)\<rparr>
      else ix)"

definition build_active_index :: "HandleView list \<Rightarrow> ActiveEdgeDiscoveryIndex" where
  "build_active_index views =
     fold (\<lambda>(i, v). index_view i v) (enumerate 0 views)
       \<lparr>all_readers = [], all_writers = [], readers_index = empty_index, writers_index = empty_index\<rparr>"

text \<open>The positions the two functions below collect from the chosen global list and the maps.\<close>

definition active_candidate_positions :: "nat list \<Rightarrow> PositionIndex \<Rightarrow> WitnessKeySummary \<Rightarrow> nat list" where
  "active_candidate_positions all ix summary =
     sort_dedup ((if sm_has_global_keys summary then all else with_global_keys ix)
       @ concat (map (positions (by_page ix)) (sm_page_witness_pages summary))
       @ concat (map (cell_positions ix) (sm_cell_witnesses summary)))"

definition incoming_candidate_refs ::
  "ActiveEdgeDiscoveryIndex \<Rightarrow> HandleView list \<Rightarrow> TxnToken \<Rightarrow> u64 \<Rightarrow> WitnessKeySummary \<Rightarrow> HandleView list" where
  "incoming_candidate_refs ix views txn commit_seq write_key_summary =
     (if all_readers ix = [] then []
      else filter (\<lambda>v. hv_token v \<noteq> txn \<and> hv_is_active v \<and> hv_begin_seq v < commit_seq)
        (entries_at views (active_candidate_positions (all_readers ix) (readers_index ix) write_key_summary)))"

definition outgoing_candidate_refs ::
  "ActiveEdgeDiscoveryIndex \<Rightarrow> HandleView list \<Rightarrow> TxnToken \<Rightarrow> u64 \<Rightarrow> WitnessKeySummary \<Rightarrow> HandleView list" where
  "outgoing_candidate_refs ix views txn commit_seq read_key_summary =
     (if all_writers ix = [] then []
      else filter (\<lambda>v. hv_token v \<noteq> txn \<and> hv_is_active v \<and> hv_begin_seq v < commit_seq)
        (entries_at views (active_candidate_positions (all_writers ix) (writers_index ix) read_key_summary)))"

section \<open>What the vectors hold\<close>

lemma set_sort_dedup [simp]: "set (sort_dedup xs) = set xs"
  by (simp add: sort_dedup_def)

lemma sort_dedup_empty [simp]: "sort_dedup xs = [] \<longleftrightarrow> xs = []"
  by (metis set_sort_dedup set_empty)

lemma distinct_remdups_adj_sorted: "sorted xs \<Longrightarrow> distinct (remdups_adj xs)"
proof (induction xs rule: remdups_adj.induct)
  case (3 x y xs)
  then show ?case by (cases "x = y") (auto simp: order_antisym)
qed simp_all

lemma sort_dedup_sorted: "sorted (sort_dedup xs) \<and> distinct (sort_dedup xs)"
  by (simp add: sort_dedup_def sorted_remdups_adj distinct_remdups_adj_sorted)

lemma summary_sets [simp]:
  "set (sm_pages (summarize_witness_keys keys)) = (\<Union>k \<in> set keys. set (key_pages k))"
  "set (sm_page_witness_pages (summarize_witness_keys keys)) = (\<Union>k \<in> set keys. set (key_page_witnesses k))"
  "set (sm_cell_witnesses (summarize_witness_keys keys)) = (\<Union>k \<in> set keys. set (key_cells k))"
  "sm_has_global_keys (summarize_witness_keys keys) = (\<exists>k \<in> set keys. key_is_global k)"
  by (simp_all add: summarize_witness_keys_def list_ex_iff)

lemma view_vectors_sorted:
  "\<forall>xs \<in> {hv_read_pages (HandleView_new h), hv_read_page_witness_pages (HandleView_new h), hv_write_pages (HandleView_new h),
     hv_write_page_witness_pages (HandleView_new h)}. sorted xs \<and> distinct xs"
  "\<forall>xs \<in> {hv_read_exact_cells (HandleView_new h), hv_write_exact_cells (HandleView_new h)}. sorted xs \<and> distinct xs"
  by (simp_all add: HandleView_new_def Let_def summarize_witness_keys_def sort_dedup_sorted)

lemma view_flags [simp]:
  "hv_is_active (HandleView_new h) = is_active h"
  "hv_has_global_read_witnesses (HandleView_new h) = (global_read_witnesses h \<noteq> [])"
  "hv_has_global_write_witnesses (HandleView_new h) = (global_write_witnesses h \<noteq> [])"
  by (simp_all add: hv_is_active_def hv_has_global_read_witnesses_def hv_has_global_write_witnesses_def HandleView_new_def
      flags_from_handle_def flags_contain_def Let_def FLAG_ACTIVE_def FLAG_GLOBAL_READ_WITNESSES_def FLAG_GLOBAL_WRITE_WITNESSES_def)

lemma view_fields [simp]:
  "hv_token (HandleView_new h) = txn_token h" "hv_begin_seq (HandleView_new h) = high (snapshot h)"
  by (simp_all add: HandleView_new_def Let_def)

lemma set_entries_at: "set (entries_at xs is) = {xs ! i | i. i \<in> set is \<and> i < length xs}"
  by (induction "is") (auto simp: entries_at_def map_filter_simps)

lemma positions_push [simp]:
  "positions (push_position i k m) k' = (if k' = k then positions m k @ [i] else positions m k')"
  by (simp add: positions_def push_position_def update_conv)

lemma positions_fold:
  "j \<in> set (positions (fold (push_position i) ks m) k) \<longleftrightarrow> j \<in> set (positions m k) \<or> (j = i \<and> k \<in> set ks)"
  by (induction ks arbitrary: m) auto

lemma positions_Nil [simp]: "positions [] k = []"
  by (simp add: positions_def)

section \<open>An exact index\<close>

text \<open>Which entries a summary must look at: those with global keys, those a page of which the summary covers as a whole, and those
  that cover one of its cells.\<close>

definition summary_hits ::
  "WitnessKeySummary \<Rightarrow> bool \<Rightarrow> PageNumber set \<Rightarrow> PageNumber set \<Rightarrow> (PageNumber \<times> u64) set \<Rightarrow> bool" where
  "summary_hits s has_global pages page_witnesses cells \<longleftrightarrow> has_global \<or> set (sm_page_witness_pages s) \<inter> pages \<noteq> {} \<or>
     (\<exists>(r, l, t) \<in> set (sm_cell_witnesses s). r \<in> page_witnesses \<or> l \<in> page_witnesses \<or> (r, t) \<in> cells)"

locale exact_index =
  fixes slots :: "nat set" and has_global :: "nat \<Rightarrow> bool" and pages :: "nat \<Rightarrow> PageNumber set"
    and page_witnesses :: "nat \<Rightarrow> PageNumber set" and cells :: "nat \<Rightarrow> (PageNumber \<times> u64) set" and ix :: PositionIndex
  assumes global_exact: "i \<in> set (with_global_keys ix) \<longleftrightarrow> i \<in> slots \<and> has_global i"
    and page_exact: "i \<in> set (positions (by_page ix) p) \<longleftrightarrow> i \<in> slots \<and> p \<in> pages i"
    and page_witness_exact: "i \<in> set (positions (by_page_witness ix) p) \<longleftrightarrow> i \<in> slots \<and> p \<in> page_witnesses i"
    and cell_exact: "i \<in> set (positions (by_exact_cell ix) c) \<longleftrightarrow> i \<in> slots \<and> c \<in> cells i"
begin

lemma cells_exact:
  "(\<exists>cell \<in> set cs. i \<in> set (cell_positions ix cell)) \<longleftrightarrow>
   i \<in> slots \<and> (\<exists>(r, l, t) \<in> set cs. r \<in> page_witnesses i \<or> l \<in> page_witnesses i \<or> (r, t) \<in> cells i)"
  by (induction cs) (auto simp: page_witness_exact cell_exact)

lemma precise_exact:
  "i \<in> set (collect_precise_candidates ix s) \<longleftrightarrow> i \<in> slots \<and> summary_hits s (has_global i) (pages i) (page_witnesses i) (cells i)"
proof (cases "with_global_keys ix = [] \<and> by_page ix = [] \<and> by_page_witness ix = [] \<and> by_exact_cell ix = []")
  case True
  then show ?thesis using global_exact [of i] page_exact [of i] page_witness_exact [of i] cell_exact [of i]
    by (auto simp: collect_precise_candidates_def summary_hits_def)
next
  case False
  then show ?thesis
    using cells_exact [of "sm_cell_witnesses s" i]
    by (simp add: collect_precise_candidates_def summary_hits_def global_exact page_exact) blast
qed

lemma active_exact:
  assumes "set all = slots"
  shows "i \<in> set (active_candidate_positions all ix s) \<longleftrightarrow>
    i \<in> slots \<and> (sm_has_global_keys s \<or> summary_hits s (has_global i) (pages i) (page_witnesses i) (cells i))"
  using assms cells_exact [of "sm_cell_witnesses s" i]
  by (cases "sm_has_global_keys s"; simp add: active_candidate_positions_def summary_hits_def global_exact page_exact) blast+

lemma indexed_more:
  assumes "i \<notin> slots"
  shows "exact_index (insert i slots) (has_global(i := g)) (pages(i := set ps)) (page_witnesses(i := set ws)) (cells(i := set cs))
    (index_position i g ps ws cs ix)"
  using assms by unfold_locales
    (auto simp: index_position_def positions_fold global_exact page_exact page_witness_exact cell_exact)

end

lemma exact_index_empty: "exact_index {} g p w c empty_index"
  by unfold_locales (simp_all add: empty_index_def)

lemma exact_index_cong:
  assumes "exact_index S g p w c ix" "\<And>i. i \<in> S \<Longrightarrow> g i = g' i \<and> p i = p' i \<and> w i = w' i \<and> c i = c' i"
  shows "exact_index S g' p' w' c' ix"
proof -
  have "(i \<in> S \<and> g i) = (i \<in> S \<and> g' i)" "(i \<in> S \<and> x \<in> p i) = (i \<in> S \<and> x \<in> p' i)" "(i \<in> S \<and> x \<in> w i) = (i \<in> S \<and> x \<in> w' i)"
    "(i \<in> S \<and> y \<in> c i) = (i \<in> S \<and> y \<in> c' i)" for i x y using assms(2) by auto
  then show ?thesis using assms(1) unfolding exact_index_def by simp
qed

text \<open>Facts about a fold over numbered elements.\<close>

lemma fold_enumerate_snoc:
  "fold (\<lambda>(i, x). f i x) (enumerate 0 (xs @ [x])) a = f (length xs) x (fold (\<lambda>(i, x). f i x) (enumerate 0 xs) a)"
  by (simp add: enumerate_append_eq)

text \<open>The index over a committed history.\<close>

abbreviation history_index :: "WitnessKey list list \<Rightarrow> PositionIndex \<Rightarrow> bool" where
  "history_index hist \<equiv> exact_index {..<length hist} (\<lambda>i. \<exists>k \<in> set (hist ! i). key_is_global k)
     (\<lambda>i. \<Union>k \<in> set (hist ! i). set (key_pages k)) (\<lambda>i. \<Union>k \<in> set (hist ! i). set (key_page_witnesses k))
     (\<lambda>i. \<Union>k \<in> set (hist ! i). exact_key ` set (key_cells k))"

lemma history_index_push:
  assumes "history_index hist ix"
  shows "history_index (hist @ [keys]) (index_committed_entry (length hist) keys ix)"
  using exact_index.indexed_more [OF assms, where i = "length hist" and g = "\<exists>k \<in> set keys. key_is_global k" and
      ps = "sm_pages (summarize_witness_keys keys)" and ws = "sm_page_witness_pages (summarize_witness_keys keys)" and
      cs = "map exact_key (sm_cell_witnesses (summarize_witness_keys keys))"]
  unfolding index_committed_entry_def Let_def
  by (simp add: lessThan_Suc [symmetric] del: fun_upd_apply) (erule exact_index_cong, auto simp: nth_append less_Suc_eq)

interpretation rebuilt: exact_index "{..<length hist}" "\<lambda>i. \<exists>k \<in> set (hist ! i). key_is_global k"
     "\<lambda>i. \<Union>k \<in> set (hist ! i). set (key_pages k)" "\<lambda>i. \<Union>k \<in> set (hist ! i). set (key_page_witnesses k)"
     "\<lambda>i. \<Union>k \<in> set (hist ! i). exact_key ` set (key_cells k)" "rebuild_committed_index hist" for hist
proof (induction hist rule: rev_induct)
  case Nil
  show ?case by (simp add: rebuild_committed_index_def exact_index_empty)
next
  case (snoc keys hist)
  show ?case using history_index_push [OF snoc, of keys] unfolding rebuild_committed_index_def fold_enumerate_snoc .
qed

text \<open>The index over the active transactions, as it is built.\<close>

abbreviation view_readers :: "HandleView list \<Rightarrow> nat set" where
  "view_readers vs \<equiv> {i. i < length vs \<and> hv_has_read_witnesses (vs ! i)}"

abbreviation view_writers :: "HandleView list \<Rightarrow> nat set" where
  "view_writers vs \<equiv> {i. i < length vs \<and> hv_has_write_witnesses (vs ! i)}"

definition active_index_exact :: "HandleView list \<Rightarrow> ActiveEdgeDiscoveryIndex \<Rightarrow> bool" where
  "active_index_exact vs ix \<longleftrightarrow> set (all_readers ix) = view_readers vs \<and> set (all_writers ix) = view_writers vs \<and>
     exact_index (view_readers vs) (\<lambda>i. hv_has_global_read_witnesses (vs ! i)) (\<lambda>i. set (hv_read_pages (vs ! i)))
       (\<lambda>i. set (hv_read_page_witness_pages (vs ! i))) (\<lambda>i. set (hv_read_exact_cells (vs ! i))) (readers_index ix) \<and>
     exact_index (view_writers vs) (\<lambda>i. hv_has_global_write_witnesses (vs ! i)) (\<lambda>i. set (hv_write_pages (vs ! i)))
       (\<lambda>i. set (hv_write_page_witness_pages (vs ! i))) (\<lambda>i. set (hv_write_exact_cells (vs ! i))) (writers_index ix)"

lemma slots_snoc: "{i. i < length (vs @ [v]) \<and> P ((vs @ [v]) ! i)} =
  (if P v then insert (length vs) {i. i < length vs \<and> P (vs ! i)} else {i. i < length vs \<and> P (vs ! i)})"
  by (auto simp: nth_append less_Suc_eq split: if_splits)

lemma exact_index_snoc:
  assumes "exact_index {i. i < length vs \<and> P (vs ! i)} (\<lambda>i. g (vs ! i)) (\<lambda>i. set (p (vs ! i))) (\<lambda>i. set (w (vs ! i))) (\<lambda>i. set (c (vs ! i))) ix"
  shows "exact_index {i. i < length (vs @ [v]) \<and> P ((vs @ [v]) ! i)} (\<lambda>i. g ((vs @ [v]) ! i)) (\<lambda>i. set (p ((vs @ [v]) ! i)))
     (\<lambda>i. set (w ((vs @ [v]) ! i))) (\<lambda>i. set (c ((vs @ [v]) ! i)))
     (if P v then index_position (length vs) (g v) (p v) (w v) (c v) ix else ix)"
proof (cases "P v")
  case True
  show ?thesis
    using exact_index.indexed_more [OF assms, of "length vs" "g v" "p v" "w v" "c v"] True unfolding slots_snoc
    by simp (erule exact_index_cong, auto simp: nth_append)
next
  case False
  then show ?thesis using assms unfolding slots_snoc by simp (erule exact_index_cong, auto simp: nth_append)
qed

lemma build_active_index_exact: "active_index_exact vs (build_active_index vs)"
proof (induction vs rule: rev_induct)
  case Nil
  show ?case by (simp add: active_index_exact_def build_active_index_def exact_index_empty)
next
  case (snoc v vs)
  define ix where "ix = build_active_index vs"
  have b: "build_active_index (vs @ [v]) = index_view (length vs) v ix"
    unfolding build_active_index_def fold_enumerate_snoc ix_def ..
  have sel: "all_readers (index_view (length vs) v ix) = (if hv_has_read_witnesses v then all_readers ix @ [length vs] else all_readers ix)"
    "all_writers (index_view (length vs) v ix) = (if hv_has_write_witnesses v then all_writers ix @ [length vs] else all_writers ix)"
    "readers_index (index_view (length vs) v ix) = (if hv_has_read_witnesses v then index_position (length vs) (hv_has_global_read_witnesses v)
       (hv_read_pages v) (hv_read_page_witness_pages v) (hv_read_exact_cells v) (readers_index ix) else readers_index ix)"
    "writers_index (index_view (length vs) v ix) = (if hv_has_write_witnesses v then index_position (length vs) (hv_has_global_write_witnesses v)
       (hv_write_pages v) (hv_write_page_witness_pages v) (hv_write_exact_cells v) (writers_index ix) else writers_index ix)"
    by (simp_all add: index_view_def Let_def)
  from snoc show ?case
    unfolding b active_index_exact_def sel ix_def [symmetric]
    by (intro conjI exact_index_snoc) (simp_all add: slots_snoc del: length_append)
qed

interpretation active_readers: exact_index "view_readers vs" "\<lambda>i. hv_has_global_read_witnesses (vs ! i)"
    "\<lambda>i. set (hv_read_pages (vs ! i))" "\<lambda>i. set (hv_read_page_witness_pages (vs ! i))" "\<lambda>i. set (hv_read_exact_cells (vs ! i))"
    "readers_index (build_active_index vs)" for vs
  using build_active_index_exact [of vs] by (simp add: active_index_exact_def)

interpretation active_writers: exact_index "view_writers vs" "\<lambda>i. hv_has_global_write_witnesses (vs ! i)"
    "\<lambda>i. set (hv_write_pages (vs ! i))" "\<lambda>i. set (hv_write_page_witness_pages (vs ! i))" "\<lambda>i. set (hv_write_exact_cells (vs ! i))"
    "writers_index (build_active_index vs)" for vs
  using build_active_index_exact [of vs] by (simp add: active_index_exact_def)

section \<open>No conflict is missed\<close>

fun is_byte_range :: "WitnessKey \<Rightarrow> bool" where
  "is_byte_range (WByteRange _ _ _) = True"
| "is_byte_range _ = False"

lemma overlap_hits:
  assumes "witness_keys_overlap k q" "\<not> is_byte_range k" "\<not> is_byte_range q" "\<not> key_is_global q"
  shows "key_is_global k \<or> set (key_page_witnesses q) \<inter> set (key_pages k) \<noteq> {} \<or>
    (\<exists>(r, l, t) \<in> set (key_cells q). r \<in> set (key_page_witnesses k) \<or> l \<in> set (key_page_witnesses k) \<or> (r, t) \<in> exact_key ` set (key_cells k))"
  using assms by (cases k; cases q) auto

lemma history_overlap_hits:
  assumes "keys_overlap hist q" "q \<in> set keys" "\<forall>k \<in> set hist \<union> set keys. \<not> is_byte_range k"
    "\<not> sm_has_global_keys (summarize_witness_keys keys)"
  shows "summary_hits (summarize_witness_keys keys) (\<exists>k \<in> set hist. key_is_global k) (\<Union>k \<in> set hist. set (key_pages k))
    (\<Union>k \<in> set hist. set (key_page_witnesses k)) (\<Union>k \<in> set hist. exact_key ` set (key_cells k))"
proof -
  obtain k where k: "k \<in> set hist" "witness_keys_overlap k q" using assms(1) by (auto simp: keys_overlap_def list_ex_iff)
  then have "key_is_global k \<or> set (key_page_witnesses q) \<inter> set (key_pages k) \<noteq> {} \<or>
    (\<exists>(r, l, t) \<in> set (key_cells q). r \<in> set (key_page_witnesses k) \<or> l \<in> set (key_page_witnesses k) \<or> (r, t) \<in> exact_key ` set (key_cells k))"
    using overlap_hits [of k q] assms(2,3,4) by auto
  then consider "key_is_global k" | p where "p \<in> set (key_page_witnesses q)" "p \<in> set (key_pages k)"
    | r l t where "(r, l, t) \<in> set (key_cells q)"
      "r \<in> set (key_page_witnesses k) \<or> l \<in> set (key_page_witnesses k) \<or> (r, t) \<in> exact_key ` set (key_cells k)" by blast
  then show ?thesis
  proof cases
    case 3
    then have "(r, l, t) \<in> (\<Union>k \<in> set keys. set (key_cells k))" using assms(2) by blast
    moreover have "r \<in> (\<Union>k \<in> set hist. set (key_page_witnesses k)) \<or> l \<in> (\<Union>k \<in> set hist. set (key_page_witnesses k)) \<or>
      (r, t) \<in> (\<Union>k \<in> set hist. exact_key ` set (key_cells k))" using 3(2) k(1) by blast
    ultimately show ?thesis unfolding summary_hits_def summary_sets
      by (intro disjI2 bexI [of _ "(r, l, t)"]) simp_all
  qed (use k(1) assms(2) in \<open>auto simp: summary_hits_def\<close>)
qed

definition range_free :: "WitnessKey list \<Rightarrow> bool" where
  "range_free keys \<longleftrightarrow> (\<forall>k \<in> set keys. \<not> is_byte_range k)"

lemma committed_candidates_complete:
  assumes "history_index (map keys_of hist) ix" "c \<in> set hist" "\<exists>q \<in> set keys. keys_overlap (keys_of c) q"
    "range_free keys" "range_free (keys_of c)"
  shows "c \<in> set (entries_at hist (if sm_has_global_keys (summarize_witness_keys keys) then [0..<length hist]
    else collect_precise_candidates ix (summarize_witness_keys keys)))"
proof -
  obtain i where i: "i < length hist" "hist ! i = c" using assms(2) by (auto simp: in_set_conv_nth)
  obtain q where q: "q \<in> set keys" "keys_overlap (keys_of c) q" using assms(3) by blast
  have "i \<in> set (collect_precise_candidates ix (summarize_witness_keys keys))"
    if "\<not> sm_has_global_keys (summarize_witness_keys keys)"
    unfolding exact_index.precise_exact [OF assms(1)]
    using history_overlap_hits [OF q(2,1) _ that] assms(4,5) i by (auto simp: range_free_def)
  then show ?thesis using i by (auto simp: set_entries_at)
qed

lemma entries_at_subset: "set (entries_at xs is) \<subseteq> set xs"
  by (auto simp: set_entries_at)

lemma entries_at_Nil: "entries_at [] is = []"
  using entries_at_subset [of "[]" "is"] by simp

lemma entries_atI: "i \<in> set is \<Longrightarrow> i < length xs \<Longrightarrow> xs ! i = x \<Longrightarrow> x \<in> set (entries_at xs is)"
  by (auto simp: set_entries_at)

lemma reader_candidates_hits:
  assumes "history_index (map cr_keys readers) ix" "range_free keys" "\<forall>r \<in> set readers. range_free (cr_keys r)"
  shows "{r \<in> set (committed_reader_candidates readers ix txn b e (summarize_witness_keys keys)).
      reader_eligible txn b e r \<and> (\<exists>k \<in> set keys. keys_overlap (cr_keys r) k)} =
    {r \<in> set readers. reader_eligible txn b e r \<and> (\<exists>k \<in> set keys. keys_overlap (cr_keys r) k)}"
proof -
  define C where "C = set (entries_at readers (if sm_has_global_keys (summarize_witness_keys keys) then [0..<length readers]
      else collect_precise_candidates ix (summarize_witness_keys keys)))"
  have "C \<subseteq> set readers" unfolding C_def by (rule entries_at_subset)
  moreover have "\<forall>c \<in> set readers. (\<exists>q \<in> set keys. keys_overlap (cr_keys c) q) \<longrightarrow> c \<in> C"
    unfolding C_def using committed_candidates_complete [OF assms(1) _ _ assms(2)] assms(3) by blast
  moreover have "set (committed_reader_candidates readers ix txn b e (summarize_witness_keys keys)) \<subseteq> C"
    "{c \<in> C. reader_eligible txn b e c} \<subseteq> set (committed_reader_candidates readers ix txn b e (summarize_witness_keys keys))"
    using \<open>C \<subseteq> set readers\<close> by (cases "readers = []"; auto simp: entries_at_Nil committed_reader_candidates_def Let_def reader_eligible_def C_def)+
  ultimately show ?thesis by blast
qed

lemma writer_candidates_hits:
  assumes "history_index (map cw_keys writers) ix" "range_free keys" "\<forall>w \<in> set writers. range_free (cw_keys w)"
  shows "{w \<in> set (committed_writer_candidates writers ix txn b e (summarize_witness_keys keys)).
      writer_eligible txn b e w \<and> (\<exists>k \<in> set keys. keys_overlap (cw_keys w) k)} =
    {w \<in> set writers. writer_eligible txn b e w \<and> (\<exists>k \<in> set keys. keys_overlap (cw_keys w) k)}"
proof -
  define C where "C = set (entries_at writers (if sm_has_global_keys (summarize_witness_keys keys) then [0..<length writers]
      else collect_precise_candidates ix (summarize_witness_keys keys)))"
  have "C \<subseteq> set writers" unfolding C_def by (rule entries_at_subset)
  moreover have "\<forall>c \<in> set writers. (\<exists>q \<in> set keys. keys_overlap (cw_keys c) q) \<longrightarrow> c \<in> C"
    unfolding C_def using committed_candidates_complete [OF assms(1) _ _ assms(2)] assms(3) by blast
  moreover have "set (committed_writer_candidates writers ix txn b e (summarize_witness_keys keys)) \<subseteq> C"
    "{c \<in> C. writer_eligible txn b e c} \<subseteq> set (committed_writer_candidates writers ix txn b e (summarize_witness_keys keys))"
    using \<open>C \<subseteq> set writers\<close> by (cases "writers = []"; auto simp: entries_at_Nil committed_writer_candidates_def Let_def writer_eligible_def C_def)+
  ultimately show ?thesis by blast
qed

text \<open>What is kept in the view of a handle: every cell and every page witness is also a page.\<close>

definition view_closed :: "HandleView \<Rightarrow> bool" where
  "view_closed v \<longleftrightarrow> set (hv_read_page_witness_pages v) \<subseteq> set (hv_read_pages v) \<and> fst ` set (hv_read_exact_cells v) \<subseteq> set (hv_read_pages v) \<and>
     set (hv_write_page_witness_pages v) \<subseteq> set (hv_write_pages v) \<and> fst ` set (hv_write_exact_cells v) \<subseteq> set (hv_write_pages v)"

lemma key_pages_closed:
  "set (key_page_witnesses k) \<subseteq> set (key_pages k)" "c \<in> set (key_cells k) \<Longrightarrow> fst (exact_key c) \<in> set (key_pages k)"
  by (cases k; auto)+

lemma new_view_closed: "view_closed (HandleView_new h)"
  using key_pages_closed by (fastforce simp: view_closed_def HandleView_new_def Let_def)

lemma view_read_hits:
  assumes "view_closed v" "hv_check_read_overlap v k" "k \<in> set keys"
  shows "hv_has_read_witnesses v \<and> (sm_has_global_keys (summarize_witness_keys keys) \<or>
     summary_hits (summarize_witness_keys keys) (hv_has_global_read_witnesses v) (set (hv_read_pages v))
       (set (hv_read_page_witness_pages v)) (set (hv_read_exact_cells v)))"
proof -
  have "hv_read_pages v \<noteq> [] \<or> hv_has_global_read_witnesses v" using assms(1,2) by (cases k) (auto simp: view_closed_def)
  then show ?thesis using assms(2,3) by (cases k) (fastforce simp: hv_has_read_witnesses_def summary_hits_def)+
qed

lemma view_write_hits:
  assumes "view_closed v" "hv_check_write_overlap v k" "k \<in> set keys"
  shows "hv_has_write_witnesses v \<and> (sm_has_global_keys (summarize_witness_keys keys) \<or>
     summary_hits (summarize_witness_keys keys) (hv_has_global_write_witnesses v) (set (hv_write_pages v))
       (set (hv_write_page_witness_pages v)) (set (hv_write_exact_cells v)))"
proof -
  have "hv_write_pages v \<noteq> [] \<or> hv_has_global_write_witnesses v" using assms(1,2) by (cases k) (auto simp: view_closed_def)
  then show ?thesis using assms(2,3) by (cases k) (fastforce simp: hv_has_write_witnesses_def summary_hits_def)+
qed

lemma hv_as_active_sel [simp]:
  "at_token (hv_as_active v) = hv_token v" "at_begin_seq (hv_as_active v) = hv_begin_seq v" "at_active (hv_as_active v) = hv_is_active v"
  "at_read_overlap (hv_as_active v) = hv_check_read_overlap v" "at_write_overlap (hv_as_active v) = hv_check_write_overlap v"
  "at_in_rw (hv_as_active v) = hv_has_in_rw v" "at_out_rw (hv_as_active v) = hv_has_out_rw v"
  by (simp_all add: hv_as_active_def)

lemma incoming_refs_hits:
  assumes "\<forall>v \<in> set views. view_closed v"
  shows "{v \<in> set (incoming_candidate_refs (build_active_index views) views txn e (summarize_witness_keys keys)).
      active_eligible txn b e (hv_as_active v) \<and> (\<exists>k \<in> set keys. hv_check_read_overlap v k)} =
    {v \<in> set views. active_eligible txn b e (hv_as_active v) \<and> (\<exists>k \<in> set keys. hv_check_read_overlap v k)}" (is "?L = ?R")
proof
  show "?L \<subseteq> ?R" by (auto simp: incoming_candidate_refs_def set_entries_at)
  show "?R \<subseteq> ?L"
  proof
    fix v assume v: "v \<in> ?R"
    then obtain i k where i: "i < length views" "views ! i = v" "k \<in> set keys" "hv_check_read_overlap v k"
      by (auto simp: in_set_conv_nth)
    have all: "set (all_readers (build_active_index views)) = view_readers views"
      using build_active_index_exact [of views] by (simp add: active_index_exact_def)
    have "view_closed v" using assms v by blast
    note h = view_read_hits [OF this i(4,3)]
    have slot: "i \<in> view_readers views" using h i(1,2) by simp
    then have "i \<in> set (active_candidate_positions (all_readers (build_active_index views)) (readers_index (build_active_index views))
        (summarize_witness_keys keys))"
      using h slot i(2) unfolding active_readers.active_exact [OF all] by simp
    moreover have "all_readers (build_active_index views) \<noteq> []" using slot all by (metis empty_iff list.set(1))
    ultimately show "v \<in> ?L" using v entries_atI [OF _ i(1,2)] by (simp add: incoming_candidate_refs_def active_eligible_def)
  qed
qed

lemma outgoing_refs_hits:
  assumes "\<forall>v \<in> set views. view_closed v"
  shows "{v \<in> set (outgoing_candidate_refs (build_active_index views) views txn e (summarize_witness_keys keys)).
      active_eligible txn b e (hv_as_active v) \<and> (\<exists>k \<in> set keys. hv_check_write_overlap v k)} =
    {v \<in> set views. active_eligible txn b e (hv_as_active v) \<and> (\<exists>k \<in> set keys. hv_check_write_overlap v k)}" (is "?L = ?R")
proof
  show "?L \<subseteq> ?R" by (auto simp: outgoing_candidate_refs_def set_entries_at)
  show "?R \<subseteq> ?L"
  proof
    fix v assume v: "v \<in> ?R"
    then obtain i k where i: "i < length views" "views ! i = v" "k \<in> set keys" "hv_check_write_overlap v k"
      by (auto simp: in_set_conv_nth)
    have all: "set (all_writers (build_active_index views)) = view_writers views"
      using build_active_index_exact [of views] by (simp add: active_index_exact_def)
    have "view_closed v" using assms v by blast
    note h = view_write_hits [OF this i(4,3)]
    have slot: "i \<in> view_writers views" using h i(1,2) by simp
    then have "i \<in> set (active_candidate_positions (all_writers (build_active_index views)) (writers_index (build_active_index views))
        (summarize_witness_keys keys))"
      using h slot i(2) unfolding active_writers.active_exact [OF all] by simp
    moreover have "all_writers (build_active_index views) \<noteq> []" using slot all by (metis empty_iff list.set(1))
    ultimately show "v \<in> ?L" using v entries_atI [OF _ i(1,2)] by (simp add: outgoing_candidate_refs_def active_eligible_def)
  qed
qed

section \<open>Candidates are listed once\<close>

lemma entries_at_distinct:
  assumes "distinct (map f xs)" "distinct is"
  shows "distinct (map f (entries_at xs is))"
  using assms(2)
proof (induction "is")
  case (Cons i "is")
  have "f (xs ! i) \<notin> f ` set (entries_at xs is)" if "i < length xs"
  proof
    assume "f (xs ! i) \<in> f ` set (entries_at xs is)"
    then obtain j where j: "j \<in> set is" "j < length xs" "f (xs ! i) = f (xs ! j)" by (auto simp: set_entries_at)
    then have "i = j" using nth_eq_iff_index_eq [OF assms(1), of i j] that by simp
    then show False using j(1) Cons.prems by simp
  qed
  then show ?case using Cons by (simp add: entries_at_def map_filter_simps)
qed (simp add: entries_at_def map_filter_simps)

lemma distinct_map_filter': "distinct (map f xs) \<Longrightarrow> distinct (map f (filter P xs))"
  by (simp add: distinct_map_filter)

lemma collected_distinct: "distinct (collect_precise_candidates ix s)" "distinct (active_candidate_positions all ix s)"
  using sort_dedup_sorted by (auto simp: collect_precise_candidates_def active_candidate_positions_def)

lemma candidates_distinct:
  "distinct (map cr_token readers) \<Longrightarrow> distinct (map cr_token (committed_reader_candidates readers ix txn b e s))"
  "distinct (map cw_token writers) \<Longrightarrow> distinct (map cw_token (committed_writer_candidates writers ix txn b e s))"
  "distinct (map hv_token views) \<Longrightarrow> distinct (map hv_token (incoming_candidate_refs aix views txn e s))"
  "distinct (map hv_token views) \<Longrightarrow> distinct (map hv_token (outgoing_candidate_refs aix views txn e s))"
  by (auto simp: committed_reader_candidates_def committed_writer_candidates_def incoming_candidate_refs_def
      outgoing_candidate_refs_def Let_def collected_distinct intro!: distinct_map_filter' entries_at_distinct)

section \<open>Indexed discovery is a full scan\<close>

text \<open>The reference: a transaction as the plain list of its keys, compared one by one; a page it has written is also
  in conflict when no key was recorded for it.\<close>

definition keys_view :: "ConcurrentHandle \<Rightarrow> ActiveTxn" where
  "keys_view h =
     \<lparr>at_token = txn_token h, at_begin_seq = high (snapshot h), at_active = is_active h,
      at_read_overlap = keys_overlap (read_witness_keys h),
      at_write_overlap = (\<lambda>k. keys_overlap (write_witness_keys h) k \<or> (\<exists>p \<in> set (tracked_write_conflict_pages h). k = WPage p)),
      at_in_rw = has_in_rw h, at_out_rw = has_out_rw h, at_marked = marked_for_abort h\<rparr>"

definition engine_keys :: "WitnessKey list \<Rightarrow> bool" where
  "engine_keys keys = list_all engine_key keys"

lemma engine_range_free: "engine_keys keys \<Longrightarrow> range_free keys"
  unfolding engine_keys_def range_free_def list_all_iff by (metis engine_key.simps(3) is_byte_range.elims(2))

lemma engine_overlap_Page:
  assumes "engine_keys keys"
  shows "keys_overlap keys (WPage p) \<longleftrightarrow> (\<exists>k \<in> set keys. p \<in> set (key_pages k))"
proof -
  have "witness_keys_overlap k (WPage p) \<longleftrightarrow> p \<in> set (key_pages k)" if "engine_key k" for k
    using that by (cases k) auto
  then show ?thesis using assms by (auto simp: engine_keys_def list_all_iff keys_overlap_def list_ex_iff)
qed

lemma engine_overlap_Cell:
  assumes "engine_keys keys"
  shows "keys_overlap keys (WCell r l t) \<longleftrightarrow> (\<exists>k \<in> set keys. r \<in> set (key_page_witnesses k) \<or> l \<in> set (key_page_witnesses k)
     \<or> (r, t) \<in> exact_key ` set (key_cells k))"
proof -
  have "witness_keys_overlap k (WCell r l t) \<longleftrightarrow> r \<in> set (key_page_witnesses k) \<or> l \<in> set (key_page_witnesses k)
     \<or> (r, t) \<in> exact_key ` set (key_cells k)" if "engine_key k" for k
    using that by (cases k) auto
  then show ?thesis using assms by (auto simp: engine_keys_def list_all_iff keys_overlap_def list_ex_iff)
qed

lemma view_overlap_engine:
  assumes "engine_key k"
  shows "engine_keys (read_witness_keys h) \<Longrightarrow> hv_check_read_overlap (HandleView_new h) k = at_read_overlap (keys_view h) k"
    "engine_keys (write_witness_keys h) \<Longrightarrow> hv_check_write_overlap (HandleView_new h) k = at_write_overlap (keys_view h) k"
  using assms by (cases k; auto simp: keys_view_def engine_overlap_Page engine_overlap_Cell HandleView_new_def Let_def)+

lemma keys_view_sel [simp]:
  "at_token (keys_view h) = txn_token h" "at_begin_seq (keys_view h) = high (snapshot h)" "at_active (keys_view h) = is_active h"
  by (simp_all add: keys_view_def)

lemma view_eligible: "active_eligible txn b e (hv_as_active (HandleView_new h)) = active_eligible txn b e (keys_view h)"
  by (simp add: active_eligible_def)

lemma map_in_sources:
  "in_sources txn b e keys (map f vs) cr =
     (\<lambda>v. at_token (f v)) ` {v \<in> set vs. active_eligible txn b e (f v) \<and> (\<exists>k \<in> set keys. at_read_overlap (f v) k)} \<union>
     cr_token ` {r \<in> set cr. reader_eligible txn b e r \<and> (\<exists>k \<in> set keys. keys_overlap (cr_keys r) k)}"
  by (auto simp: in_sources_def)

lemma map_out_targets:
  "out_targets txn b e keys (map f vs) cw =
     (\<lambda>v. at_token (f v)) ` {v \<in> set vs. active_eligible txn b e (f v) \<and> (\<exists>k \<in> set keys. at_write_overlap (f v) k)} \<union>
     cw_token ` {w \<in> set cw. writer_eligible txn b e w \<and> (\<exists>k \<in> set keys. keys_overlap (cw_keys w) k)}"
  by (auto simp: out_targets_def)

lemma engine_view_reads:
  assumes "engine_keys keys" "\<forall>h \<in> set hs. engine_keys (read_witness_keys h)"
  shows "{v \<in> set (map HandleView_new hs). active_eligible txn b e (hv_as_active v) \<and> (\<exists>k \<in> set keys. hv_check_read_overlap v k)} =
    HandleView_new ` {h \<in> set hs. active_eligible txn b e (keys_view h) \<and> (\<exists>k \<in> set keys. at_read_overlap (keys_view h) k)}"
  using assms view_overlap_engine(1) by (fastforce simp: view_eligible engine_keys_def list_all_iff)

lemma engine_view_writes:
  assumes "engine_keys keys" "\<forall>h \<in> set hs. engine_keys (write_witness_keys h)"
  shows "{v \<in> set (map HandleView_new hs). active_eligible txn b e (hv_as_active v) \<and> (\<exists>k \<in> set keys. hv_check_write_overlap v k)} =
    HandleView_new ` {h \<in> set hs. active_eligible txn b e (keys_view h) \<and> (\<exists>k \<in> set keys. at_write_overlap (keys_view h) k)}"
  using assms view_overlap_engine(2) by (fastforce simp: view_eligible engine_keys_def list_all_iff)

text \<open>The transactions in conflict, found through the two indexes, are those a scan of all active and all
  committed transactions finds.\<close>

lemma indexed_sources:
  assumes "history_index (map cr_keys readers) ix" "engine_keys keys" "\<forall>r \<in> set readers. engine_keys (cr_keys r)"
    "\<forall>h \<in> set hs. engine_keys (read_witness_keys h)" "views = map HandleView_new hs"
  shows "in_sources txn b e keys
      (map hv_as_active (incoming_candidate_refs (build_active_index views) views txn e (summarize_witness_keys keys)))
      (committed_reader_candidates readers ix txn b e (summarize_witness_keys keys)) =
    in_sources txn b e keys (map keys_view hs) readers"
proof -
  have c: "\<forall>v \<in> set views. view_closed v" using assms(5) new_view_closed by auto
  have r: "\<forall>r \<in> set readers. range_free (cr_keys r)" using assms(3) engine_range_free by blast
  show ?thesis
    unfolding map_in_sources hv_as_active_sel incoming_refs_hits [OF c]
      reader_candidates_hits [OF assms(1) engine_range_free [OF assms(2)] r]
    unfolding assms(5) engine_view_reads [OF assms(2,4)] image_image by simp
qed

lemma indexed_targets:
  assumes "history_index (map cw_keys writers) ix" "engine_keys keys" "\<forall>w \<in> set writers. engine_keys (cw_keys w)"
    "\<forall>h \<in> set hs. engine_keys (write_witness_keys h)" "views = map HandleView_new hs"
  shows "out_targets txn b e keys
      (map hv_as_active (outgoing_candidate_refs (build_active_index views) views txn e (summarize_witness_keys keys)))
      (committed_writer_candidates writers ix txn b e (summarize_witness_keys keys)) =
    out_targets txn b e keys (map keys_view hs) writers"
proof -
  have c: "\<forall>v \<in> set views. view_closed v" using assms(5) new_view_closed by auto
  have r: "\<forall>r \<in> set writers. range_free (cw_keys r)" using assms(3) engine_range_free by blast
  show ?thesis
    unfolding map_out_targets hv_as_active_sel outgoing_refs_hits [OF c]
      writer_candidates_hits [OF assms(1) engine_range_free [OF assms(2)] r]
    unfolding assms(5) engine_view_writes [OF assms(2,4)] image_image by simp
qed

text \<open>Two places where the indexed scan sees less than \<open>witness_keys_overlap\<close> does: a byte range is in conflict with
  every cell, but the index of a history looks it up by page; and a key outside any page is in conflict with every key, but the view of its
  transaction compares pages only.\<close>

lemma byte_range_conflict_missed:
  "keys_overlap [WByteRange 7 0 8] (WCell 2 3 0) \<and>
   collect_precise_candidates (rebuild_committed_index [[WByteRange 7 0 8]]) (summarize_witness_keys [WCell 2 3 0]) = []"
  by (simp add: keys_overlap_def rebuild_committed_index_def index_committed_entry_def index_position_def Let_def
      summarize_witness_keys_def sort_dedup_def empty_index_def push_position_def positions_def collect_precise_candidates_def)

lemma global_read_missed:
  "let h = record_read_witness (WCustom 1 [1]) (ConcurrentHandle_new snap token) in
   keys_overlap (read_witness_keys h) (WPage 5) \<and> handle_check_read_overlap h (WPage 5) \<and>
   \<not> hv_check_read_overlap (HandleView_new h) (WPage 5)"
  by (simp add: Let_def record_read_witness_def witness_key_page_def ConcurrentHandle_new_def read_witness_keys_def keys_overlap_def
      handle_check_read_overlap_def HandleView_new_def)

text \<open>C9: Edge discovery through the candidate indexes is exact.  For the keys the engine registers, pages and cells, looking only at the
  active transactions and the committed ones that the two indexes propose finds the same conflicting transactions, on either side, as comparing every key
  of the committer with every key of every active and every committed transaction.\<close>

theorem indexed_discovery_exact:
  assumes "engine_keys write_keys" "engine_keys read_keys"
    and "\<forall>r \<in> set readers. engine_keys (cr_keys r)" "\<forall>w \<in> set writers. engine_keys (cw_keys w)"
    and "\<forall>h \<in> set handles. engine_keys (read_witness_keys h) \<and> engine_keys (write_witness_keys h)"
  shows "let views = map HandleView_new handles; ix = build_active_index views;
      ws = summarize_witness_keys write_keys; rs = summarize_witness_keys read_keys in
    de_from ` set (discover_incoming_edges txn b e write_keys (map hv_as_active (incoming_candidate_refs ix views txn e ws))
      (committed_reader_candidates readers (rebuild_committed_index (map cr_keys readers)) txn b e ws)) =
      in_sources txn b e write_keys (map keys_view handles) readers \<and>
    de_to ` set (discover_outgoing_edges txn b e read_keys (map hv_as_active (outgoing_candidate_refs ix views txn e rs))
      (committed_writer_candidates writers (rebuild_committed_index (map cw_keys writers)) txn b e rs)) =
      out_targets txn b e read_keys (map keys_view handles) writers"
  using indexed_sources [OF rebuilt.exact_index_axioms assms(1,3) _ refl, of handles]
    indexed_targets [OF rebuilt.exact_index_axioms assms(2,4) _ refl, of handles] assms(5)
  by (simp add: Let_def incoming_spec(2) [OF refl] outgoing_spec(2) [OF refl])

theorem indexed_discovery_exact_witness:
  "let tok = (\<lambda>i. \<lparr>tok_id = i, tok_epoch = 1\<rparr>);
       h = record_read_witness (WCell 2 7 9) (ConcurrentHandle_new \<lparr>high = 1, schema_epoch = 0\<rparr> (tok 4));
       r = \<lparr>cr_token = tok 5, cr_begin_seq = 1, cr_commit_seq = 6, cr_had_in_rw = False, cr_keys = [WPage 3]\<rparr>;
       views = map HandleView_new [h]; ws = summarize_witness_keys [WCell 2 3 9] in
   de_from ` set (discover_incoming_edges (tok 1) 2 8 [WCell 2 3 9]
     (map hv_as_active (incoming_candidate_refs (build_active_index views) views (tok 1) 8 ws))
     (committed_reader_candidates [r] (rebuild_committed_index (map cr_keys [r])) (tok 1) 2 8 ws)) = {tok 4, tok 5}"
proof -
  define tok where "tok = (\<lambda>i :: u64. \<lparr>tok_id = i, tok_epoch = 1 :: u32\<rparr>)"
  define h where "h = record_read_witness (WCell 2 7 9) (ConcurrentHandle_new \<lparr>high = 1, schema_epoch = 0\<rparr> (tok 4))"
  define r where "r = \<lparr>cr_token = tok 5, cr_begin_seq = 1, cr_commit_seq = 6, cr_had_in_rw = False, cr_keys = [WPage 3]\<rparr>"
  have k: "read_witness_keys h = [WCell 2 7 9]" "write_witness_keys h = []" "txn_token h = tok 4" "high (snapshot h) = 1" "is_active h"
    by (simp_all add: h_def record_read_witness_def ConcurrentHandle_new_def read_witness_keys_def write_witness_keys_def
        witness_key_page_def bucket_def is_active_def)
  have lt: "(2 :: u64) < - 1" by (simp add: word_less_alt uint_word_ariths)
  have "in_sources (tok 1) 2 8 [WCell 2 3 9] (map keys_view [h]) [r] = {tok 4, tok 5}"
    using lt by (auto simp: in_sources_def active_eligible_def reader_eligible_def keys_view_def k keys_overlap_def r_def tok_def)
  then show ?thesis
    using indexed_discovery_exact [of "[WCell 2 3 9]" "[]" "[r]" "[]" "[h]" "tok 1" 2 8] k
    unfolding Let_def tok_def [symmetric] h_def [symmetric] r_def [symmetric]
    by (simp add: engine_keys_def r_def)
qed

end
