(* ===== verification/Spec2Isabelle.thy ===== *)
theory Spec2Isabelle
  imports SerialType Encoding PageTypes DatabaseHeader BtreePage RecordFormat RecordWrite RecordScratch
    RecordTemplate TwoPhaseCommit VersionArena VersionStore CommitSequencing
    Errors PageStore BtreeCell Overflow Freelist WalChecksum WalIndex CheckpointPlanning
    VfsFile WalFile CheckpointExec RecoveryFence
    PageLocks CommitIndex WitnessKeys SsiValidation ConcurrentTxn EdgeIndex
begin

text \<open>
  FrankenSQLite (a Rust reimplementation of SQLite with concurrent writers): a model of its file
  format layer, of the storage side of its B-trees and of the core of its multi-version
  concurrency control.

  \<^bold>\<open>The program.\<close>  A connection (\<open>crates/fsqlite-core\<close>) compiles SQL into
  bytecode that the virtual machine (\<open>crates/fsqlite-vdbe\<close>) runs.  Rows travel as records
  (\<open>fsqlite-types/src/record.rs\<close>): the machine encodes values into records, B-tree pages
  store them, and readers decode the columns they need.  Pages belong to a database file whose
  header and page layout are those of SQLite (\<open>fsqlite-types/src/lib.rs\<close>).  Writers do not
  change pages in place: a commit publishes new page versions into a version store, readers pick
  the newest version at or below their snapshot, and a collector prunes versions no snapshot can
  need (\<open>fsqlite-mvcc\<close>).  A transaction over several attached databases commits in two
  phases.

  \<^bold>\<open>Theories.\<close>
  \<^item> \<open>Prelude\<close>: machine words, byte lists, checked and saturating \<open>usize\<close> arithmetic, bounds-checked
    buffers, big- and little-endian conversion with their lemmas.
  \<^item> \<open>SerialType\<close> (\<open>serial_type.rs\<close>): varints and serial types.  Round trip, soundness of the
    reader, minimality of the integer classes, the size table.
  \<^item> \<open>Encoding\<close> (\<open>encoding.rs\<close>): the endian helpers; readers undo writers.
  \<^item> \<open>PageTypes\<close>, \<open>DatabaseHeader\<close>, \<open>BtreePage\<close> (\<open>lib.rs\<close>): checked newtypes, affinity rules, the
    100-byte header and the B-tree page header with its pointer array and freeblock list.  Parsers
    accept exactly well-formed input, writers and parsers are inverse.  Indexing a page out of range is a panic, a
    value of its own; the freeblock walk ends without one on every page of a valid size.
  \<^item> \<open>RecordFormat\<close>, \<open>RecordWrite\<close>, \<open>RecordScratch\<close>, \<open>RecordTemplate\<close> (\<open>record.rs\<close>): every record
    reader agrees with the full parser; every serializer produces the bytes of one format
    specification; parsing undoes serializing; the decode cache is sound for records prepared in
    full and (a finding) not for wide records prepared from a prefix.
  \<^item> \<open>TwoPhaseCommit\<close> (\<open>two_phase_commit.rs\<close>): the coordinator as a state machine, its commit
    marker and the recovery decision.  Crash atomicity, finality of the decision, completion of
    phase 2.
  \<^item> \<open>VersionArena\<close> (\<open>core_types.rs\<close>): the generational arena.  The locale \<open>version_heap\<close> states what
    a client may rely on (a partial map from handles to versions) and is interpreted on the arena.
  \<^item> \<open>VersionStore\<close> (\<open>invariants.rs\<close>, \<open>gc.rs\<close>): version chains over the arena.  \<open>store_rep\<close> relates a
    store to a list of versions per page; reads, publication, pruning and collection ticks are
    specified on that view.
  \<^item> \<open>CommitSequencing\<close> (\<open>commit_combiner.rs\<close>, \<open>invariants.rs\<close>): commit sequences handed out by
    flat combining and the visibility watermark, as an interleaving of atomic steps.  Sequences
    are unique; the watermark is safe when no commit finishes inside a combining pass, and (a
    finding) not otherwise.

  \<^item> \<open>Errors\<close> (\<open>fsqlite-error\<close>): the errors of the storage code and the two result types.
  \<^item> \<open>PageStore\<close> (\<open>fsqlite-btree/src/cursor.rs\<close>): the page interface as the locale \<open>page_io\<close>
    (pages are a partial map, allocation returns an unmapped page, failures change no page) and the
    in-memory store, on which it is interpreted.
  \<^item> \<open>BtreeCell\<close> (\<open>cell.rs\<close>): page headers, pointer arrays, payload split and cells.  Parsing any page
    is total and stays inside it, and inside its usable part but for cells of interior tables, which (a finding) the
    parser does not check against it; the fast paths agree with the full parser, a written page
    directory reads back.
  \<^item> \<open>Overflow\<close> (\<open>overflow.rs\<close>, \<open>payload.rs\<close>, the cell encoders of \<open>cursor.rs\<close>): over any page
    interface, an encoded cell reads back through its overflow chain, encoding leaks no page, partial
    reads agree with full ones, both chain writers agree.  The chain bound of the code ends every
    walk.
  \<^item> \<open>Freelist\<close> (\<open>freelist.rs\<close>): trunk pages read back, the freelist never hands out a page twice (that it skips the
    pending-byte page when the file grows, but not when that page was freed, is stated there),
    pointer-map entries do not collide.

  \<^item> \<open>WalChecksum\<close> (\<open>fsqlite-wal/src/checksum.rs\<close>): the rolling checksum and its precomputed
    transforms, log and frame headers, validation of a log, page trailers and the repair decision.
    After a crash, validation keeps exactly the commits that were written.
  \<^item> \<open>WalIndex\<close> (\<open>wal_index.rs\<close>): the shared-memory header and the hash segments; the locale
    \<open>frame_index\<close> states what the log relies on.  A lookup returns the newest frame of a page.
  \<^item> \<open>CheckpointPlanning\<close> (\<open>checkpoint.rs\<close>): how far a checkpoint may go, given the readers.
  \<^item> \<open>VfsFile\<close> (\<open>fsqlite-vfs/src/traits.rs\<close>, \<open>memory.rs\<close>): the file interface as the locales \<open>vfs_file\<close>
    (failed writes may be torn) and \<open>readable_file\<close>, interpreted on in-memory files.
  \<^item> \<open>WalFile\<close> (\<open>wal.rs\<close>): the log file over any such file.  \<open>handle_on\<close> says that a handle agrees with
    the bytes of the file, \<open>log_of\<close> is the list of page images it stands for.  Appending extends the
    list or leaves it alone, opening after a crash gives the committed prefix, refreshing a handle
    gives it what other handles committed, whether it resumes or rebuilds, unless bytes that continue the chain with another commit
    were left behind the writer, a reset hides the frames of older generations, and the
    three ways of appending agree.
  \<^item> \<open>CheckpointExec\<close> (\<open>checkpoint_executor.rs\<close>, the writer of \<open>pager.rs\<close>, the barrier of
    \<open>recovery_fence.rs\<close>): running a plan.  The locale \<open>checkpoint_target\<close> is what the executor relies on
    and holds for the pager's writer over every file.  A checkpoint never changes what readers see,
    whether it succeeds or fails (bytes 24 to 31 and 92 to 95 of the first page, which the pager rewrites, aside); the log is
    truncated only behind a sync that follows the last write, and behind the read-back of the checksums of all pages that were copied, as far as
    the target can read them.
  \<^item> \<open>RecoveryFence\<close> (\<open>recovery_fence.rs\<close>): the fence as a transition system (mutual exclusion), its
    bounded wait and the registry of locks by process.

  \<^item> \<open>PageLocks\<close> (\<open>core_types.rs\<close>): the page lock table, a lock-free array for small pages and hash
    shards for the others, with the draining copy of a rolling rebuild and the queues of waiting
    threads.  \<open>lock_of\<close> is the map from pages to holders the table stands for; the locale
    \<open>exclusive_locks\<close> derives mutual exclusion over any history from the laws of the operations and is
    interpreted on the table.  A rebuild makes at most one pass more than its timeout has milliseconds and drops no lock
    of a transaction that is live in all of them; a release wakes the waiters of its page.
  \<^item> \<open>CommitIndex\<close> (\<open>core_types.rs\<close>): the latest commit sequence per page, a map over any history of updates, with the
    largest of all sequences as its watermark.  The left-right shard is
    modelled twice: as one operation after the other, and as an interleaving of the atomic steps of a
    writer and any number of readers, for which lookups are linearizable.  The steps are taken in
    one order all threads agree on.
  \<^item> \<open>WitnessKeys\<close> (\<open>glossary.rs\<close>, \<open>witness_plane.rs\<close>, \<open>witness_objects.rs\<close>, \<open>witness_hierarchy.rs\<close>): what a
    transaction read and wrote, when two witnesses conflict, and the key summaries, which (a finding)
    lose conflicts.
  \<^item> \<open>SsiValidation\<close> (\<open>ssi_validation.rs\<close>): serializable validation at commit.  Discovery finds exactly
    the conflicting transactions; the verdict follows the rules of serializable snapshot isolation; a
    committer that wrote leaves the right marks in the active transactions, one that only read none; no dangerous structure commits; each
    validation records one decision.
  \<^item> \<open>ConcurrentTxn\<close> (\<open>begin_concurrent.rs\<close>): one transaction handle with its page states, witnesses, savepoints and
    commit, over the lock table and the commit index; then many sessions that share both, as a step
    relation.  In every reachable state locks and sessions agree, an operation reports busy exactly when another active session
    tracks the page, and no update is lost: committed transactions that share a page are ordered by their snapshots, the pages exempt from
    conflict tracking aside.  Rolling back to a savepoint and
    undoing a rejected write restore the earlier state.
  \<^item> \<open>EdgeIndex\<close> (\<open>begin_concurrent.rs\<close>): the summaries of keys, the views of active transactions and the
    candidate indexes over active and committed ones.  The locale \<open>exact_index\<close> says that an index holds exactly the
    positions of the entries with a given page, cell or global key; it is interpreted on the rebuilt history index and
    on the index of the active transactions.  For the keys the engine registers, discovery through the indexes finds what a full scan finds.

  \<^bold>\<open>Conventions.\<close>  Fixed-width integers are words of that width.  \<open>usize\<close> values are
  naturals; additions the code checks or saturates do so at \<open>2^64\<close>.  An outer \<^const>\<open>None\<close>
  stands for a panic, an assertion (debug assertions are taken as checked) or a loop that does not end; \<open>Err\<close> is \<^const>\<open>Inl\<close>.  Vectors and
  slices are lists, indexed accesses are guarded.  UTF-8 validation and the thread-local value
  pool are parameters.  Recursive walks over version chains are partial functions in the option
  monad; the theorems on them state that they return.  A crash of the log file is a cut of its
  bytes at any place behind the header.

  \<^bold>\<open>Not modelled.\<close>  Operating-system files, locks and shared memory of the VFS, the pager (but for its checkpoint writer),
  B-tree cursors and balancing, the SQL front end, the virtual
  machine, extensions, bindings, metrics, tracing and profiling.  Of the concurrency layer, the
  registry of concurrent sessions and its two-step commit (in \<open>begin_concurrent.rs\<close>),
  the older transaction manager (\<open>lifecycle.rs\<close>) and epoch-based reclamation are not covered: they are
  large and rest on the parts above.  Of the lock table, the parking of
  waiting threads is left out.  Floating-point values are their bit patterns; the risk decision of the
  validation, which computes with them, is a parameter.
\<close>

end
